(* ===== verification/Prelude.thy ===== *)
theory Prelude
  imports Main "HOL-Library.Word"
begin

text \<open>
  Shared vocabulary of the development: the C integer types as words, C's truncating division,
  pages, and the abstract bounded FIFO that the ring buffers of the system
  (\<^verbatim>\<open>kqueue.h\<close>, the pipe buffer of \<^verbatim>\<open>fs.c\<close>, the
  message queues of \<^verbatim>\<open>msg.c\<close>) implement.
\<close>

unbundle bit_operations_syntax

type_synonym u8 = "8 word"
type_synonym u16 = "16 word"
type_synonym u32 = "32 word"

named_theorems kdefs \<open>definitions of small kernel helpers that proofs unfold at once\<close>
named_theorems inv_intros \<open>preservation of component invariants\<close>

section \<open>C integers\<close>

text \<open>
  \<open>int\<close> is 32 bits wide. The kernel is compiled for i686, where a signed sum that leaves the
  range wraps around in two's complement; \<open>s32\<close> is that reduction. Division of signed
  operands truncates towards zero (\<open>cdiv\<close>).
\<close>

definition s32 :: "int \<Rightarrow> int" where
  "s32 x = (x + 2 ^ 31) mod 2 ^ 32 - 2 ^ 31"

definition cdiv :: "int \<Rightarrow> int \<Rightarrow> int" where
  "cdiv a b = (if (a < 0) = (b < 0) then \<bar>a\<bar> div \<bar>b\<bar> else - (\<bar>a\<bar> div \<bar>b\<bar>))"

lemma s32_id [simp]: "- (2 ^ 31) \<le> x \<Longrightarrow> x < 2 ^ 31 \<Longrightarrow> s32 x = x"
  by (simp add: s32_def)

lemma s32_range: "- (2 ^ 31) \<le> s32 x \<and> s32 x < 2 ^ 31"
proof -
  have "0 \<le> (x + 2 ^ 31) mod 2 ^ 32" and "(x + 2 ^ 31) mod 2 ^ 32 < 2 ^ 32"
    by (rule pos_mod_sign, simp, rule pos_mod_bound, simp)
  then show ?thesis by (simp add: s32_def)
qed

lemma cdiv_nonneg [simp]: "0 \<le> a \<Longrightarrow> 0 < b \<Longrightarrow> cdiv a b = a div b"
  by (simp add: cdiv_def)

lemma cdiv_neg: "a \<le> - b \<Longrightarrow> 0 < b \<Longrightarrow> cdiv a b < 0"
proof -
  assume a: "a \<le> - b" and b: "0 < b"
  then have "b div b \<le> (- a) div b" by (intro zdiv_mono1) auto
  with a b show ?thesis by (simp add: cdiv_def)
qed

section \<open>Words\<close>

lemma unat_of_nat_u32: "m < 2 ^ 32 \<Longrightarrow> unat (of_nat m :: u32) = m"
  by (simp add: unsigned_of_nat take_bit_nat_eq_self)

lemma uint_of_nat_u32: "m < 2 ^ 32 \<Longrightarrow> uint (of_nat m :: u32) = int m"
  by (metis uint_nat unat_of_nat_u32)

lemma sint_small: "unat w < 2 ^ 31 \<Longrightarrow> sint w = int (unat w)" for w :: u32
proof -
  assume "unat w < 2 ^ 31"
  then have "int (unat w) < int (2 ^ 31)" by (simp only: of_nat_less_iff)
  then have "uint w < 2 ^ 31" unfolding uint_nat by (simp only: of_nat_power of_nat_numeral)
  moreover have "- (2 ^ 31) \<le> uint w" by (rule order_trans [of _ 0]) simp_all
  ultimately have "signed_take_bit 31 (uint w) = uint w" by (intro signed_take_bit_int_eq_self)
  then show ?thesis unfolding sint_uint uint_nat by simp
qed

section \<open>Bounded FIFO queues\<close>

text \<open>
  The contract of a bounded queue. \<open>push\<close> reports whether there was room and leaves a full
  queue alone; \<open>pop\<close> returns the oldest element, or \<open>None\<close> on an empty queue.
\<close>

datatype 'e fifo_op = Push 'e | Pop

datatype 'e fifo_out = Pushed bool | Popped "'e option"

fun fifo_run :: "('e \<Rightarrow> 'q \<Rightarrow> bool \<times> 'q) \<Rightarrow> ('q \<Rightarrow> 'e option \<times> 'q) \<Rightarrow>
    'e fifo_op list \<Rightarrow> 'q \<Rightarrow> 'e fifo_out list \<times> 'q" where
  "fifo_run push pop [] q = ([], q)"
| "fifo_run push pop (Push x # ops) q =
     (let (b, q') = push x q; (out, q'') = fifo_run push pop ops q' in (Pushed b # out, q''))"
| "fifo_run push pop (Pop # ops) q =
     (let (e, q') = pop q; (out, q'') = fifo_run push pop ops q' in (Popped e # out, q''))"

text \<open>The reference queue is a list with a capacity.\<close>

definition spec_push :: "nat \<Rightarrow> 'e \<Rightarrow> 'e list \<Rightarrow> bool \<times> 'e list" where
  "spec_push c x xs = (if length xs < c then (True, xs @ [x]) else (False, xs))"

fun spec_pop :: "'e list \<Rightarrow> 'e option \<times> 'e list" where
  "spec_pop [] = (None, [])"
| "spec_pop (x # xs) = (Some x, xs)"

locale bounded_fifo =
  fixes push :: "'e \<Rightarrow> 'q \<Rightarrow> bool \<times> 'q"
    and pop :: "'q \<Rightarrow> 'e option \<times> 'q"
    and contents :: "'q \<Rightarrow> 'e list"
    and cap :: "'q \<Rightarrow> nat"
    and inv :: "'q \<Rightarrow> bool"
  assumes bounded: "inv q \<Longrightarrow> length (contents q) \<le> cap q"
    and push_full: "inv q \<Longrightarrow> length (contents q) = cap q \<Longrightarrow> push x q = (False, q)"
    and push_room: "inv q \<Longrightarrow> length (contents q) < cap q \<Longrightarrow>
      fst (push x q) \<and> contents (snd (push x q)) = contents q @ [x]"
    and push_inv: "inv q \<Longrightarrow> inv (snd (push x q)) \<and> cap (snd (push x q)) = cap q"
    and pop_contents: "inv q \<Longrightarrow> (fst (pop q), contents (snd (pop q))) = spec_pop (contents q)"
    and pop_inv: "inv q \<Longrightarrow> inv (snd (pop q)) \<and> cap (snd (pop q)) = cap q"
begin

lemma push_refines:
  assumes "inv q"
  shows "(fst (push x q), contents (snd (push x q))) = spec_push (cap q) x (contents q)"
proof (cases "length (contents q) < cap q")
  case True
  with assms push_room [of q x] show ?thesis by (simp add: spec_push_def)
next
  case False
  with assms bounded [of q] have "length (contents q) = cap q" by simp
  with assms push_full [of q x] show ?thesis by (simp add: spec_push_def)
qed

lemma run_refines:
  assumes "inv q"
  shows "fst (fifo_run push pop ops q) = fst (fifo_run (spec_push (cap q)) spec_pop ops (contents q))
    \<and> contents (snd (fifo_run push pop ops q))
        = snd (fifo_run (spec_push (cap q)) spec_pop ops (contents q))
    \<and> inv (snd (fifo_run push pop ops q))"
  using assms
proof (induction ops arbitrary: q)
  case Nil
  then show ?case by simp
next
  case (Cons a ops)
  show ?case
  proof (cases a)
    case (Push x)
    obtain b q' where p: "push x q = (b, q')" by fastforce
    with Cons.prems push_inv [of q x] push_refines [of q x]
    have "inv q'" "cap q' = cap q" "spec_push (cap q) x (contents q) = (b, contents q')" by auto
    with Push p Cons.IH [of q'] show ?thesis by (auto split: prod.splits)
  next
    case Pop
    obtain e q' where p: "pop q = (e, q')" by fastforce
    with Cons.prems pop_inv [of q] pop_contents [of q]
    have "inv q'" "cap q' = cap q" "spec_pop (contents q) = (e, contents q')" by auto
    with Pop p Cons.IH [of q'] show ?thesis by (auto split: prod.splits)
  qed
qed

end

section \<open>Lists\<close>

lemma map_upt_shift: "map f [Suc 0..<Suc n] = map (\<lambda>i. f (Suc i)) [0..<n]"
  by (simp add: map_Suc_upt [symmetric] del: upt_Suc)

lemma upt_hd_shift: "0 < n \<Longrightarrow> map f [0..<n] = f 0 # map (\<lambda>i. f (Suc i)) [0..<n - 1]"
  by (cases n) (simp_all add: upt_conv_Cons map_upt_shift del: upt_Suc)

end
