(* ===== verification/Kqueue.thy ===== *)
theory Kqueue
  imports Prelude
begin

text \<open>
  The generic kernel ring buffer of \<^verbatim>\<open>src/kqueue.h\<close>. The buffer is a list of
  elements (one per \<open>elem_size\<close> bytes of the C buffer), and a pointer to an element is the
  number of its slot. \<open>head\<close> and \<open>tail\<close> run through \<open>[0, 2 * capacity)\<close>, which
  distinguishes the full queue from the empty one without a count. The theory shows that the queue
  implements the bounded FIFO of \<^verbatim>\<open>Prelude\<close>.
\<close>

section \<open>Model\<close>

record 'e kqueue_t =
  q_buffer :: "'e list"
  q_capacity :: int
  q_head :: int
  q_tail :: int

definition kqueue_count :: "'e kqueue_t \<Rightarrow> int" where
  "kqueue_count q = (let n = q_tail q - q_head q in if n < 0 then n + 2 * q_capacity q else n)"

definition kqueue_empty :: "'e kqueue_t \<Rightarrow> bool" where
  "kqueue_empty q \<longleftrightarrow> q_tail q = q_head q"

definition kqueue_full :: "'e kqueue_t \<Rightarrow> bool" where
  "kqueue_full q \<longleftrightarrow> kqueue_count q = q_capacity q"

definition kqueue_slot :: "'e kqueue_t \<Rightarrow> int \<Rightarrow> int" where
  "kqueue_slot q i = (if i \<ge> q_capacity q then i - q_capacity q else i)"

definition kqueue_advance :: "'e kqueue_t \<Rightarrow> int \<Rightarrow> int" where
  "kqueue_advance q i = (if i + 1 \<ge> 2 * q_capacity q then 0 else i + 1)"

definition kqueue_get :: "'e kqueue_t \<Rightarrow> int \<Rightarrow> nat" where
  "kqueue_get q i = nat (kqueue_slot q i)"

definition kqueue_last :: "'e kqueue_t \<Rightarrow> nat option" where
  "kqueue_last q = (if kqueue_empty q then None
     else Some (kqueue_get q (if q_tail q = 0 then 2 * q_capacity q - 1 else q_tail q - 1)))"

definition kqueue_peek :: "'e kqueue_t \<Rightarrow> nat option" where
  "kqueue_peek q = (if kqueue_empty q then None else Some (kqueue_get q (q_head q)))"

definition kqueue_drop :: "'e kqueue_t \<Rightarrow> 'e kqueue_t" where
  "kqueue_drop q = q\<lparr>q_head := kqueue_advance q (q_head q)\<rparr>"

definition kqueue_at :: "'e kqueue_t \<Rightarrow> int \<Rightarrow> nat" where
  "kqueue_at q n = (let i = q_head q + n in
     kqueue_get q (if i \<ge> 2 * q_capacity q then i - 2 * q_capacity q else i))"

definition kqueue_reserve :: "'e kqueue_t \<Rightarrow> nat option \<times> 'e kqueue_t" where
  "kqueue_reserve q = (if kqueue_full q then (None, q)
     else (Some (kqueue_get q (q_tail q)), q\<lparr>q_tail := kqueue_advance q (q_tail q)\<rparr>))"

definition kqueue_push :: "'e \<Rightarrow> 'e kqueue_t \<Rightarrow> bool \<times> 'e kqueue_t" where
  "kqueue_push e q = (case kqueue_reserve q of
     (None, q') \<Rightarrow> (False, q')
   | (Some slot, q') \<Rightarrow> (True, q'\<lparr>q_buffer := (q_buffer q')[slot := e]\<rparr>))"

definition kqueue_pop :: "'e kqueue_t \<Rightarrow> 'e option \<times> 'e kqueue_t" where
  "kqueue_pop q = (if kqueue_empty q then (None, q)
     else (Some (q_buffer q ! kqueue_get q (q_head q)),
           q\<lparr>q_head := kqueue_advance q (q_head q)\<rparr>))"

definition kqueue_init :: "'e list \<Rightarrow> int \<Rightarrow> 'e kqueue_t" where
  "kqueue_init buffer cap = \<lparr>q_buffer = buffer, q_capacity = cap, q_head = 0, q_tail = 0\<rparr>"

section \<open>Invariant and abstraction\<close>

definition kqueue_inv :: "'e kqueue_t \<Rightarrow> bool" where
  "kqueue_inv q \<longleftrightarrow> 0 < q_capacity q \<and> int (length (q_buffer q)) = q_capacity q
     \<and> 0 \<le> q_head q \<and> q_head q < 2 * q_capacity q
     \<and> 0 \<le> q_tail q \<and> q_tail q < 2 * q_capacity q
     \<and> kqueue_count q \<le> q_capacity q"

definition kqueue_list :: "'e kqueue_t \<Rightarrow> 'e list" where
  "kqueue_list q = map (\<lambda>n. q_buffer q ! kqueue_at q (int n)) [0..<nat (kqueue_count q)]"

definition kqueue_cap :: "'e kqueue_t \<Rightarrow> nat" where
  "kqueue_cap q = nat (q_capacity q)"

lemmas kqueue_defs = kqueue_count_def kqueue_empty_def kqueue_full_def kqueue_slot_def
  kqueue_advance_def kqueue_get_def kqueue_at_def Let_def

lemma kqueue_count_nonneg: "kqueue_inv q \<Longrightarrow> 0 \<le> kqueue_count q"
  by (auto simp: kqueue_inv_def kqueue_count_def Let_def)

lemma kqueue_init_inv [inv_intros]:
  "0 < cap \<Longrightarrow> int (length buf) = cap \<Longrightarrow> kqueue_inv (kqueue_init buf cap)"
  by (simp add: kqueue_inv_def kqueue_init_def kqueue_count_def)

lemma kqueue_list_init [simp]: "kqueue_list (kqueue_init buf cap) = []"
  by (simp add: kqueue_list_def kqueue_init_def kqueue_count_def)

lemma length_kqueue_list [simp]: "length (kqueue_list q) = nat (kqueue_count q)"
  by (simp add: kqueue_list_def)

lemma kqueue_empty_iff: "kqueue_inv q \<Longrightarrow> kqueue_empty q \<longleftrightarrow> kqueue_list q = []"
  by (auto simp: kqueue_list_def kqueue_inv_def kqueue_defs split: if_splits)

text \<open>Elements at different distances from the head lie in different slots.\<close>

lemma kqueue_at_neq:
  assumes "kqueue_inv q" "0 \<le> i" "i < j" "j < q_capacity q"
  shows "kqueue_at q i \<noteq> kqueue_at q j"
  using assms by (auto simp: kqueue_inv_def kqueue_defs split: if_splits)

lemma kqueue_at_bound:
  assumes "kqueue_inv q" "0 \<le> i" "i < q_capacity q"
  shows "kqueue_at q i < length (q_buffer q)"
  using assms by (auto simp: kqueue_inv_def kqueue_defs nat_less_iff split: if_splits)

lemma kqueue_tail_at: "kqueue_inv q \<Longrightarrow> kqueue_get q (q_tail q) = kqueue_at q (kqueue_count q)"
  by (auto simp: kqueue_inv_def kqueue_defs split: if_splits)

lemma kqueue_push_count:
  assumes "kqueue_inv q" "\<not> kqueue_full q"
  shows "kqueue_count (q\<lparr>q_tail := kqueue_advance q (q_tail q)\<rparr>) = kqueue_count q + 1"
  using assms by (auto simp: kqueue_inv_def kqueue_defs split: if_splits)

lemma kqueue_pop_count:
  assumes "kqueue_inv q" "\<not> kqueue_empty q"
  shows "kqueue_count (q\<lparr>q_head := kqueue_advance q (q_head q)\<rparr>) = kqueue_count q - 1"
  using assms by (auto simp: kqueue_inv_def kqueue_defs split: if_splits)

lemma kqueue_at_drop:
  assumes "kqueue_inv q" "0 \<le> n" "n + 1 < q_capacity q + 1"
  shows "kqueue_at (q\<lparr>q_head := kqueue_advance q (q_head q)\<rparr>) n = kqueue_at q (n + 1)"
  using assms by (auto simp: kqueue_inv_def kqueue_defs split: if_splits)

lemma kqueue_count_buffer [simp]: "kqueue_count (q\<lparr>q_buffer := b\<rparr>) = kqueue_count q"
  by (simp add: kqueue_count_def Let_def)

lemma kqueue_at_upd [simp]:
  "kqueue_at (q\<lparr>q_buffer := b\<rparr>) i = kqueue_at q i"
  "kqueue_at (q\<lparr>q_tail := t\<rparr>) i = kqueue_at q i"
  by (simp_all add: kqueue_defs)

lemma kqueue_push_unfold:
  assumes "\<not> kqueue_full q"
  shows "kqueue_push e q = (True, q\<lparr>q_tail := kqueue_advance q (q_tail q),
    q_buffer := (q_buffer q)[kqueue_get q (q_tail q) := e]\<rparr>)"
  using assms by (simp add: kqueue_push_def kqueue_reserve_def)

lemma kqueue_push_list:
  assumes inv: "kqueue_inv q" and room: "\<not> kqueue_full q"
  shows "kqueue_list (snd (kqueue_push e q)) = kqueue_list q @ [e]"
proof -
  let ?n = "kqueue_count q"
  let ?q = "snd (kqueue_push e q)"
  have n: "0 \<le> ?n" "?n < q_capacity q"
    using inv room kqueue_count_nonneg [OF inv] by (auto simp: kqueue_inv_def kqueue_full_def)
  have q: "?q = q\<lparr>q_tail := kqueue_advance q (q_tail q), q_buffer := (q_buffer q)[kqueue_at q ?n := e]\<rparr>"
    using room kqueue_push_unfold [of q e] kqueue_tail_at [OF inv] by simp
  have cnt: "nat (kqueue_count ?q) = Suc (nat ?n)"
    using q n kqueue_push_count [OF inv room] by simp
  have "kqueue_at q (int i) \<noteq> kqueue_at q ?n" if "i < nat ?n" for i
    using that n kqueue_at_neq [OF inv, of "int i" ?n] by simp
  then have "\<forall>i\<in>{0..<nat ?n}. (q_buffer q)[kqueue_at q ?n := e] ! kqueue_at q (int i)
      = q_buffer q ! kqueue_at q (int i)"
    by (metis atLeastLessThan_iff nth_list_update_neq)
  with n q cnt kqueue_at_bound [OF inv n] show ?thesis
    by (simp add: kqueue_list_def)
qed

lemma kqueue_push_inv [inv_intros]:
  assumes inv: "kqueue_inv q"
  shows "kqueue_inv (snd (kqueue_push e q))"
proof (cases "kqueue_full q")
  case True
  with inv show ?thesis by (simp add: kqueue_push_def kqueue_reserve_def)
next
  case False
  with inv have "kqueue_count q < q_capacity q" by (auto simp: kqueue_inv_def kqueue_full_def)
  with inv False kqueue_push_count [OF inv False] show ?thesis
    by (auto simp: kqueue_push_unfold kqueue_inv_def kqueue_advance_def)
qed

lemma kqueue_pop_inv [inv_intros]:
  assumes inv: "kqueue_inv q"
  shows "kqueue_inv (snd (kqueue_pop q))"
proof (cases "kqueue_empty q")
  case True
  with inv show ?thesis by (simp add: kqueue_pop_def)
next
  case False
  with inv kqueue_pop_count [OF inv False] show ?thesis
    by (auto simp: kqueue_pop_def kqueue_inv_def kqueue_advance_def)
qed

lemma kqueue_drop_list:
  assumes inv: "kqueue_inv q" and ne: "\<not> kqueue_empty q"
  shows "kqueue_list q = q_buffer q ! kqueue_get q (q_head q) # kqueue_list (kqueue_drop q)"
proof -
  let ?n = "nat (kqueue_count q)"
  have pos: "0 < ?n" using inv ne kqueue_empty_iff [OF inv] by (simp add: kqueue_list_def)
  have hd: "kqueue_at q 0 = kqueue_get q (q_head q)"
    using inv by (simp add: kqueue_inv_def kqueue_at_def)
  have le: "kqueue_count q \<le> q_capacity q" using inv by (simp add: kqueue_inv_def)
  have "map (\<lambda>i. q_buffer q ! kqueue_at q (int (Suc i))) [0..<?n - 1]
      = map (\<lambda>i. q_buffer q ! kqueue_at (kqueue_drop q) (int i)) [0..<?n - 1]"
  proof (rule map_cong [OF refl])
    fix i assume "i \<in> set [0..<?n - 1]"
    with le have "int i + 1 < q_capacity q + 1" by auto
    then show "q_buffer q ! kqueue_at q (int (Suc i)) = q_buffer q ! kqueue_at (kqueue_drop q) (int i)"
      using kqueue_at_drop [OF inv, of "int i"] by (simp add: kqueue_drop_def add.commute)
  qed
  moreover have "nat (kqueue_count (kqueue_drop q)) = ?n - 1"
    using kqueue_pop_count [OF inv ne] pos by (simp add: kqueue_drop_def nat_diff_distrib)
  ultimately show ?thesis
    using pos hd by (simp add: kqueue_list_def upt_hd_shift kqueue_drop_def)
qed

lemma kqueue_pop_spec:
  assumes inv: "kqueue_inv q"
  shows "(fst (kqueue_pop q), kqueue_list (snd (kqueue_pop q))) = spec_pop (kqueue_list q)"
proof (cases "kqueue_empty q")
  case True
  with kqueue_empty_iff [OF inv] show ?thesis by (simp add: kqueue_pop_def)
next
  case False
  with kqueue_drop_list [OF inv False] show ?thesis
    by (simp add: kqueue_pop_def kqueue_drop_def)
qed

lemma kqueue_last_list:
  assumes inv: "kqueue_inv q" and ne: "\<not> kqueue_empty q"
  shows "\<exists>s. kqueue_last q = Some s \<and> s = kqueue_at q (kqueue_count q - 1)
     \<and> q_buffer q ! s = last (kqueue_list q)"
proof -
  have "kqueue_last q = Some (kqueue_at q (kqueue_count q - 1))"
    using inv ne by (auto simp: kqueue_last_def kqueue_inv_def kqueue_defs split: if_splits)
  moreover have "nat (kqueue_count q) \<noteq> 0"
    using inv ne kqueue_empty_iff [OF inv] by (simp add: kqueue_list_def)
  ultimately show ?thesis by (simp add: kqueue_list_def last_map last_conv_nth)
qed

interpretation kq: bounded_fifo kqueue_push kqueue_pop kqueue_list kqueue_cap kqueue_inv
proof (unfold_locales, goal_cases)
  case (1 q)
  then show ?case by (simp add: kqueue_cap_def kqueue_inv_def nat_mono)
next
  case (2 q x)
  then have "kqueue_full q"
    using kqueue_count_nonneg [of q] by (auto simp: kqueue_cap_def kqueue_inv_def kqueue_full_def)
  then show ?case by (simp add: kqueue_push_def kqueue_reserve_def)
next
  case (3 q x)
  then have "\<not> kqueue_full q" by (simp add: kqueue_cap_def kqueue_full_def)
  with 3 kqueue_push_list [of q x] show ?case by (simp add: kqueue_push_unfold)
next
  case (4 q x)
  then show ?case
    using kqueue_push_inv [of q x] by (auto simp: kqueue_cap_def kqueue_push_def kqueue_reserve_def)
next
  case (5 q)
  then show ?case by (rule kqueue_pop_spec)
next
  case (6 q)
  then show ?case using kqueue_pop_inv [of q] by (auto simp: kqueue_cap_def kqueue_pop_def)
qed

section \<open>Properties\<close>

text \<open>
  C1: any interleaving of pushes and pops on a freshly initialised kernel ring buffer of
  capacity \<open>c\<close> answers exactly as a list-based FIFO of that capacity does: every accepted
  element comes out once, in order, a push is refused exactly when \<open>c\<close> elements are held,
  and a pop fails exactly when none is.
\<close>

theorem kqueue_fifo:
  assumes "0 < c" and "length buf = c"
  shows "fst (fifo_run kqueue_push kqueue_pop ops (kqueue_init buf (int c)))
       = fst (fifo_run (spec_push c) spec_pop ops [])"
proof -
  have "kqueue_inv (kqueue_init buf (int c))"
    using assms by (intro kqueue_init_inv) auto
  from kq.run_refines [OF this, of ops] show ?thesis
    by (simp add: kqueue_cap_def kqueue_init_def kqueue_list_def kqueue_count_def)
qed

theorem kqueue_fifo_witness:
  "fst (fifo_run kqueue_push kqueue_pop [Push 7, Push 8, Push 9, Pop, Push 5, Pop, Pop, Pop]
      (kqueue_init [0, 0 :: nat] 2))
   = [Pushed True, Pushed True, Pushed False, Popped (Some 7), Pushed True,
      Popped (Some 8), Popped (Some 5), Popped None]"
  using kqueue_fifo [of 2 "[0, 0 :: nat]" "[Push 7, Push 8, Push 9, Pop, Push 5, Pop, Pop, Pop]"]
  by (simp add: spec_push_def)

end
