(* ===== verification/Memory.thy ===== *)
theory Memory
  imports Prelude
begin

text \<open>
  The physical heap of \<^verbatim>\<open>src/memory.c\<close>: a first-fit allocator over 8192 blocks of
  4096 bytes that kernel and user memory share. The state is the block table and \<open>head\<close>, the
  address below which no block is free. Sizes are C \<open>int\<close>s, and the sums that can overflow
  are written with \<open>s32\<close>. The theory shows that \<open>malloc\<close> implements first fit over
  the whole heap, and that \<open>malloc\<close> and \<open>free\<close> provide the allocator contract
  \<open>block_allocator\<close> on which paging, kernel objects and mappings rely.
\<close>

section \<open>Model\<close>

abbreviation (input) HEAP_KERNEL :: u32 where "HEAP_KERNEL \<equiv> 0x1060000"
abbreviation (input) HEAP_KERNEL_END :: u32 where "HEAP_KERNEL_END \<equiv> 0x3060000"
abbreviation (input) MEM_BLOCK_SIZE :: int where "MEM_BLOCK_SIZE \<equiv> 0x1000"
abbreviation (input) NO_BLOCKS :: int where "NO_BLOCKS \<equiv> 0x2000"

record heap_t =
  heap_head :: u32
  memory_status :: "nat \<Rightarrow> bool"

definition size_blocks :: "int \<Rightarrow> int" where
  "size_blocks bytes = cdiv (s32 (bytes + (MEM_BLOCK_SIZE - 1))) MEM_BLOCK_SIZE"

definition offset_block :: "u32 \<Rightarrow> int" where
  "offset_block offset = cdiv (s32 (sint offset - sint HEAP_KERNEL)) MEM_BLOCK_SIZE"

definition mark_block :: "bool \<Rightarrow> int \<Rightarrow> (nat \<Rightarrow> bool) \<Rightarrow> (nat \<Rightarrow> bool)" where
  "mark_block v block st = (if 0 \<le> block \<and> block < NO_BLOCKS then st(nat block := v) else st)"

definition mark_blocks :: "bool \<Rightarrow> int \<Rightarrow> int \<Rightarrow> (nat \<Rightarrow> bool) \<Rightarrow> (nat \<Rightarrow> bool)" where
  "mark_blocks v blockStart noBlocks st =
     fold (\<lambda>i. mark_block v (blockStart + int i)) [0..<nat noBlocks] st"

definition memory_reserve :: "u32 \<Rightarrow> int \<Rightarrow> 'a heap_t_scheme \<Rightarrow> 'a heap_t_scheme" where
  "memory_reserve offset bytes s =
     s\<lparr>memory_status := mark_blocks True (offset_block offset) (size_blocks bytes) (memory_status s)\<rparr>"

definition free :: "u32 \<Rightarrow> int \<Rightarrow> 'a heap_t_scheme \<Rightarrow> 'a heap_t_scheme" where
  "free offset bytes s =
     (if offset = 0 \<or> bytes = 0 then s
      else let blockStart = offset_block offset;
               noBlocks = size_blocks bytes;
               s1 = s\<lparr>memory_status := mark_blocks False blockStart noBlocks (memory_status s)\<rparr>
           in if 0 \<le> blockStart \<and> blockStart < NO_BLOCKS
                 \<and> HEAP_KERNEL + of_int blockStart * of_int MEM_BLOCK_SIZE < heap_head s
              then s1\<lparr>heap_head := HEAP_KERNEL + of_int (blockStart * MEM_BLOCK_SIZE)\<rparr>
              else s1)"

definition memory_init :: "'a heap_t_scheme \<Rightarrow> 'a heap_t_scheme" where
  "memory_init s = s\<lparr>memory_status := (\<lambda>_. False)\<rparr>"

text \<open>
  The search loop of \<open>malloc\<close>: \<open>None\<close> is the NULL returned when the table ends before a
  run is found.
\<close>

function malloc_search :: "(nat \<Rightarrow> bool) \<Rightarrow> int \<Rightarrow> int \<Rightarrow> int \<Rightarrow> int \<Rightarrow> int option" where
  "malloc_search st noBlocks index blocksRemaining blockStart =
     (if blocksRemaining > 0 then
        if index \<ge> NO_BLOCKS then None
        else if \<not> st (nat index) then
          malloc_search st noBlocks (index + 1) (blocksRemaining - 1)
            (if blocksRemaining = noBlocks then index else blockStart)
        else malloc_search st noBlocks (index + 1) noBlocks blockStart
      else Some blockStart)"
  by pat_completeness auto
termination
  by (relation "measure (\<lambda>(st, n, index, r, b). nat (NO_BLOCKS - index))") auto

declare malloc_search.simps [simp del]

definition malloc :: "int \<Rightarrow> 'a heap_t_scheme \<Rightarrow> u32 \<times> 'a heap_t_scheme" where
  "malloc bytes s =
     (if bytes \<le> 0 then (0, s)
      else let noBlocks = size_blocks bytes;
               index = uint (heap_head s - HEAP_KERNEL) div MEM_BLOCK_SIZE
           in case malloc_search (memory_status s) noBlocks index noBlocks 0 of
                None \<Rightarrow> (0, s)
              | Some blockStart \<Rightarrow>
                  let s1 = s\<lparr>memory_status := mark_blocks True blockStart noBlocks (memory_status s)\<rparr>;
                      addr = of_int (sint HEAP_KERNEL + blockStart * MEM_BLOCK_SIZE)
                  in (addr, if addr = heap_head s
                            then s1\<lparr>heap_head := addr + of_int (noBlocks * MEM_BLOCK_SIZE)\<rparr>
                            else s1))"

section \<open>Blocks\<close>

definition block_addr :: "nat \<Rightarrow> u32" where
  "block_addr b = HEAP_KERNEL + of_nat (b * 4096)"

text \<open>The number of blocks an object of \<open>bytes\<close> bytes occupies.\<close>

definition nblocks :: "int \<Rightarrow> nat" where
  "nblocks bytes = nat ((bytes + 4095) div 4096)"

definition valid_size :: "int \<Rightarrow> bool" where
  "valid_size bytes \<longleftrightarrow> 0 < bytes \<and> bytes < 2 ^ 31 - 4095"

definition free_run :: "(nat \<Rightarrow> bool) \<Rightarrow> nat \<Rightarrow> nat \<Rightarrow> bool" where
  "free_run st n i \<longleftrightarrow> i + n \<le> 8192 \<and> (\<forall>b. i \<le> b \<and> b < i + n \<longrightarrow> \<not> st b)"

definition has_run :: "(nat \<Rightarrow> bool) \<Rightarrow> nat \<Rightarrow> bool" where
  "has_run st n \<longleftrightarrow> (\<exists>i. free_run st n i)"

definition first_fit :: "(nat \<Rightarrow> bool) \<Rightarrow> nat \<Rightarrow> nat" where
  "first_fit st n = (LEAST i. free_run st n i)"

definition heap_inv :: "'a heap_t_scheme \<Rightarrow> bool" where
  "heap_inv s \<longleftrightarrow> (\<exists>k. k \<le> 8192 \<and> heap_head s = block_addr k
     \<and> (\<forall>b < k. memory_status s b))"

lemma nblocks_pos: "valid_size bytes \<Longrightarrow> 0 < nblocks bytes"
proof -
  assume "valid_size bytes"
  then have "1 \<le> (bytes + 4095) div 4096" by (auto simp: valid_size_def)
  then show ?thesis by (simp add: nblocks_def)
qed

lemma size_blocks_valid: "valid_size bytes \<Longrightarrow> size_blocks bytes = int (nblocks bytes)"
proof -
  assume v: "valid_size bytes"
  with nblocks_pos [OF v] have "0 \<le> (bytes + 4095) div 4096" by (simp add: nblocks_def)
  with v show ?thesis by (simp add: size_blocks_def nblocks_def valid_size_def)
qed

lemma uint_block_addr: "b \<le> 8192 \<Longrightarrow> uint (block_addr b) = 0x1060000 + int b * 4096"
proof -
  assume b: "b \<le> 8192"
  have "block_addr b = (of_nat (0x1060000 + b * 4096) :: u32)"
    by (simp add: block_addr_def)
  with b uint_of_nat_u32 [of "0x1060000 + b * 4096"] show ?thesis by simp
qed

lemma sint_block_addr: "b \<le> 8192 \<Longrightarrow> sint (block_addr b) = 0x1060000 + int b * 4096"
proof -
  assume b: "b \<le> 8192"
  have "sint (block_addr b) = signed_take_bit 31 (uint (block_addr b))"
    by (simp add: sint_uint)
  also have "\<dots> = uint (block_addr b)"
    using b by (intro signed_take_bit_int_eq_self) (simp_all add: uint_block_addr)
  finally show ?thesis using b by (simp add: uint_block_addr)
qed

lemma unat_block_addr: "b \<le> 8192 \<Longrightarrow> unat (block_addr b) = 0x1060000 + b * 4096"
  using uint_block_addr [of b] by (metis (mono_tags, opaque_lifting) nat_int of_nat_add of_nat_mult of_nat_numeral unat_eq_nat_uint)

lemma block_addr_inj:
  assumes "a \<le> 8192" "b \<le> 8192"
  shows "block_addr a = block_addr b \<longleftrightarrow> a = b"
proof
  assume "block_addr a = block_addr b"
  then have "uint (block_addr a) = uint (block_addr b)" by simp
  with assms show "a = b" by (simp add: uint_block_addr)
qed simp

lemma block_addr_neq_0: "b \<le> 8192 \<Longrightarrow> block_addr b \<noteq> 0"
proof
  assume b: "b \<le> 8192" and "block_addr b = 0"
  then have "uint (block_addr b) = 0" by simp
  with b show False by (simp add: uint_block_addr)
qed

lemma block_addr_of_int: "block_addr b = HEAP_KERNEL + of_int (int b * 4096)"
  by (simp add: block_addr_def)

lemma block_addr_fold: "HEAP_KERNEL + of_nat b * 4096 = block_addr b"
  by (simp add: block_addr_def)

lemma offset_block_addr: "b \<le> 8192 \<Longrightarrow> offset_block (block_addr b) = int b"
  by (simp add: offset_block_def sint_block_addr)

lemma block_addr_less: "a \<le> 8192 \<Longrightarrow> b \<le> 8192 \<Longrightarrow> block_addr a < block_addr b \<longleftrightarrow> a < b"
  by (simp add: word_less_def uint_block_addr)

text \<open>The effect of the marking loops on the table.\<close>

lemma mark_blocks_eq:
  "mark_blocks v start n st =
     (\<lambda>b. if start \<le> int b \<and> int b < start + n \<and> int b < NO_BLOCKS then v else st b)"
proof -
  have "fold (\<lambda>i. mark_block v (start + int i)) [0..<m] st =
     (\<lambda>b. if start \<le> int b \<and> int b < start + int m \<and> int b < NO_BLOCKS then v else st b)" for m
    by (induction m) (auto simp: mark_block_def fun_eq_iff)
  then show ?thesis by (cases "0 \<le> n") (auto simp: mark_blocks_def fun_eq_iff)
qed

lemma mark_blocks_run:
  "i + n \<le> 8192 \<Longrightarrow>
   mark_blocks v (int i) (int n) st = (\<lambda>b. if i \<le> b \<and> b < i + n then v else st b)"
  by (auto simp: mark_blocks_eq fun_eq_iff)

section \<open>The search is first fit\<close>

text \<open>
  Invariant of the loop: the last \<open>n - r\<close> blocks before \<open>index\<close> are free (and start at
  \<open>b\<close> when there are any), and no run starts before them.
\<close>

definition search_inv :: "(nat \<Rightarrow> bool) \<Rightarrow> nat \<Rightarrow> nat \<Rightarrow> nat \<Rightarrow> nat \<Rightarrow> nat \<Rightarrow> bool" where
  "search_inv st lo n idx r b \<longleftrightarrow> r \<le> n \<and> lo \<le> idx \<and> lo + (n - r) \<le> idx \<and> idx \<le> 8192
     \<and> (r < n \<longrightarrow> b = idx - (n - r))
     \<and> (\<forall>c. idx - (n - r) \<le> c \<and> c < idx \<longrightarrow> \<not> st c)
     \<and> (\<forall>i. lo \<le> i \<and> i < idx - (n - r) \<longrightarrow> \<not> free_run st n i)"

lemma search_inv_skip:
  assumes "search_inv st lo n idx r b" "0 < r" "idx < 8192" "st idx" "0 < n"
  shows "search_inv st lo n (Suc idx) n b"
proof -
  have "\<not> free_run st n i" if "lo \<le> i" "i < Suc idx" for i
  proof (cases "i < idx - (n - r)")
    case True
    with assms that show ?thesis by (auto simp: search_inv_def)
  next
    case False
    with assms that have "i \<le> idx" "idx < i + n" by (auto simp: search_inv_def)
    with assms show ?thesis by (auto simp: free_run_def)
  qed
  with assms show ?thesis by (auto simp: search_inv_def)
qed

lemma search_inv_take:
  assumes "search_inv st lo n idx r b" "0 < r" "idx < 8192" "\<not> st idx"
  shows "search_inv st lo n (Suc idx) (r - 1) (if r = n then idx else b)"
  using assms unfolding search_inv_def by (auto simp: less_Suc_eq)

lemma search_inv_end:
  assumes "search_inv st lo n 8192 r b" "0 < r" "lo \<le> i"
  shows "\<not> free_run st n i"
  using assms unfolding search_inv_def by (cases "i < 8192 - (n - r)") (auto simp: free_run_def)

lemma malloc_search_spec:
  assumes "search_inv st lo n idx r b" "0 < n"
  shows "case malloc_search st (int n) (int idx) (int r) (int b) of
     None \<Rightarrow> \<forall>i \<ge> lo. \<not> free_run st n i
   | Some p \<Rightarrow> \<exists>i. p = int i \<and> lo \<le> i \<and> free_run st n i \<and> (\<forall>j. lo \<le> j \<and> j < i \<longrightarrow> \<not> free_run st n j)"
  using assms
proof (induction "8192 - idx" arbitrary: idx r b rule: less_induct)
  case less
  show ?case
  proof (cases "r = 0")
    case True
    with less.prems have b: "b = idx - n" "lo + n \<le> idx" and "free_run st n b"
      and "\<forall>j. lo \<le> j \<and> j < b \<longrightarrow> \<not> free_run st n j"
      by (auto simp: search_inv_def free_run_def)
    moreover have "malloc_search st (int n) (int idx) (int r) (int b) = Some (int b)"
      using True by (simp add: malloc_search.simps)
    ultimately show ?thesis by (auto intro!: exI [of _ b])
  next
    case r: False
    show ?thesis
    proof (cases "idx < 8192")
      case False
      with less.prems have "idx = 8192" by (simp add: search_inv_def)
      with r less.prems show ?thesis
        by (auto simp: malloc_search.simps [of st] dest: search_inv_end)
    next
      case idx: True
      show ?thesis
      proof (cases "st idx")
        case True
        with less.prems r idx have "search_inv st lo n (Suc idx) n b"
          by (intro search_inv_skip [OF less.prems(1)]) auto
        from less.hyps [OF _ this] less.prems idx r True show ?thesis
          by (simp add: malloc_search.simps [of st _ "int idx"] add.commute)
      next
        case False
        with less.prems r idx have "search_inv st lo n (Suc idx) (r - 1) (if r = n then idx else b)"
          by (intro search_inv_take [OF less.prems(1)]) auto
        moreover have "malloc_search st (int n) (int idx) (int r) (int b)
            = malloc_search st (int n) (int (Suc idx)) (int (r - 1)) (int (if r = n then idx else b))"
          using r idx False by (subst malloc_search.simps) (cases "r = n", simp_all add: add.commute)
        ultimately show ?thesis using less.hyps [of "Suc idx"] less.prems idx by simp
      qed
    qed
  qed
qed

text \<open>Below \<open>head\<close> every block is taken, so a search from \<open>head\<close> is a search from 0.\<close>

lemma malloc_search_first_fit:
  assumes "0 < n" "k \<le> 8192" "\<forall>b < k. st b"
  shows "malloc_search st (int n) (int k) (int n) 0 =
    (if has_run st n then Some (int (first_fit st n)) else None)"
proof -
  have below: "\<not> free_run st n i" if "i < k" for i
    using that assms by (auto simp: free_run_def)
  have "search_inv st k n k n 0" using assms by (auto simp: search_inv_def)
  from malloc_search_spec [OF this \<open>0 < n\<close>]
  consider "malloc_search st (int n) (int k) (int n) 0 = None" "\<forall>i\<ge>k. \<not> free_run st n i"
    | i where "malloc_search st (int n) (int k) (int n) 0 = Some (int i)" "free_run st n i"
        "\<forall>j. k \<le> j \<and> j < i \<longrightarrow> \<not> free_run st n j"
    by (fastforce split: option.splits)
  then show ?thesis
  proof cases
    case 1
    with below have "\<not> free_run st n i" for i by (meson not_le)
    with 1 show ?thesis by (simp add: has_run_def)
  next
    case (2 i)
    have "first_fit st n = i"
      unfolding first_fit_def using 2 below by (intro Least_equality) (meson not_le)+
    with 2 show ?thesis by (auto simp: has_run_def)
  qed
qed

lemma heap_index:
  assumes "k \<le> 8192" "heap_head s = block_addr k"
  shows "uint (heap_head s - HEAP_KERNEL) div MEM_BLOCK_SIZE = int k"
proof -
  have "heap_head s - HEAP_KERNEL = of_nat (k * 4096)"
    using assms by (simp add: block_addr_def)
  moreover have "uint (of_nat (k * 4096) :: u32) = int (k * 4096)"
    using assms by (intro uint_of_nat_u32) simp
  ultimately show ?thesis by (simp del: of_nat_mult)
qed

lemma malloc_addr: "of_int (sint HEAP_KERNEL + int i * MEM_BLOCK_SIZE) = block_addr i"
  by (simp add: block_addr_def)

lemma first_fit_run: "has_run st n \<Longrightarrow> free_run st n (first_fit st n)"
  by (simp add: has_run_def first_fit_def LeastI_ex)

lemma first_fit_least: "free_run st n i \<Longrightarrow> first_fit st n \<le> i"
  by (simp add: first_fit_def Least_le)

lemma malloc_unfold:
  assumes inv: "heap_inv s" and v: "valid_size bytes"
  shows "malloc bytes s =
    (let n = nblocks bytes; st = memory_status s; i = first_fit st n
     in if has_run st n
        then (block_addr i,
              s\<lparr>memory_status := (\<lambda>b. if i \<le> b \<and> b < i + n then True else st b),
                heap_head := if block_addr i = heap_head s then block_addr (i + n) else heap_head s\<rparr>)
        else (0, s))"
proof -
  obtain k where k: "k \<le> 8192" "heap_head s = block_addr k" "\<forall>b < k. memory_status s b"
    using inv by (auto simp: heap_inv_def)
  let ?n = "nblocks bytes" and ?st = "memory_status s"
  let ?i = "first_fit ?st ?n"
  have run: "has_run ?st ?n \<Longrightarrow> ?i + ?n \<le> 8192"
    using first_fit_run [of ?st ?n] by (simp add: free_run_def)
  have add: "block_addr ?i + of_int (int ?n * MEM_BLOCK_SIZE) = block_addr (?i + ?n)"
    by (simp add: block_addr_def algebra_simps)
  have pos: "\<not> bytes \<le> 0" using v by (simp add: valid_size_def)
  have srch: "malloc_search ?st (size_blocks bytes) (uint (heap_head s - HEAP_KERNEL) div MEM_BLOCK_SIZE)
      (size_blocks bytes) 0 = (if has_run ?st ?n then Some (int ?i) else None)"
    unfolding size_blocks_valid [OF v] heap_index [OF k(1,2)]
    using nblocks_pos [OF v] k(1,3) by (rule malloc_search_first_fit)
  show ?thesis
  proof (cases "has_run ?st ?n")
    case True
    have "mark_blocks True (int ?i) (int ?n) ?st = (\<lambda>b. if ?i \<le> b \<and> b < ?i + ?n then True else ?st b)"
      using run [OF True] by (rule mark_blocks_run)
    with True pos srch add show ?thesis
      unfolding malloc_def Let_def by (simp only: if_True if_False option.case malloc_addr
          size_blocks_valid [OF v]) simp
  next
    case False
    with pos srch show ?thesis unfolding malloc_def Let_def by simp
  qed
qed

lemma malloc_inv [inv_intros]:
  assumes inv: "heap_inv s" and v: "valid_size bytes"
  shows "heap_inv (snd (malloc bytes s))"
proof (cases "has_run (memory_status s) (nblocks bytes)")
  case False
  with inv v show ?thesis by (simp add: malloc_unfold Let_def)
next
  case True
  let ?i = "first_fit (memory_status s) (nblocks bytes)"
  obtain k where k: "k \<le> 8192" "heap_head s = block_addr k" "\<forall>b < k. memory_status s b"
    using inv by (auto simp: heap_inv_def)
  have le: "?i + nblocks bytes \<le> 8192" using first_fit_run [OF True] by (simp add: free_run_def)
  show ?thesis
  proof (cases "?i = k")
    case eq: True
    with k le True inv v show ?thesis
      by (auto simp: malloc_unfold Let_def heap_inv_def intro!: exI [of _ "k + nblocks bytes"])
  next
    case False
    with k le have "block_addr ?i \<noteq> heap_head s" by (simp add: block_addr_inj)
    with k True inv v show ?thesis
      by (auto simp: malloc_unfold Let_def heap_inv_def intro!: exI [of _ k])
  qed
qed

lemma free_inv [inv_intros]:
  assumes inv: "heap_inv s" and v: "valid_size bytes" and b: "b + nblocks bytes \<le> 8192"
  shows "heap_inv (free (block_addr b) bytes s)"
    and "memory_status (free (block_addr b) bytes s)
       = (\<lambda>c. if b \<le> c \<and> c < b + nblocks bytes then False else memory_status s c)"
proof -
  obtain k where k: "k \<le> 8192" "heap_head s = block_addr k" "\<forall>c < k. memory_status s c"
    using inv by (auto simp: heap_inv_def)
  have b': "b < 8192" using b nblocks_pos [OF v] by simp
  have nz: "bytes \<noteq> 0" "block_addr b \<noteq> 0"
    using v b' block_addr_neq_0 [of b] by (auto simp: valid_size_def)
  have f: "free (block_addr b) bytes s =
    s\<lparr>memory_status := (\<lambda>c. if b \<le> c \<and> c < b + nblocks bytes then False else memory_status s c),
      heap_head := if b < k then block_addr b else heap_head s\<rparr>"
    using nz b b' k v by (simp add: free_def Let_def offset_block_addr size_blocks_valid
        mark_blocks_run block_addr_less block_addr_fold)
  show "memory_status (free (block_addr b) bytes s)
       = (\<lambda>c. if b \<le> c \<and> c < b + nblocks bytes then False else memory_status s c)"
    by (simp add: f)
  show "heap_inv (free (block_addr b) bytes s)"
    using k b' by (auto simp: f heap_inv_def intro: exI [of _ "min b k"])
qed

section \<open>The allocator contract\<close>

text \<open>
  What the rest of the kernel relies on. An object is named by its first block; \<open>used\<close> is
  the set of blocks handed out.
\<close>

definition used_blocks :: "'a heap_t_scheme \<Rightarrow> nat set" where
  "used_blocks s = {b. b < 8192 \<and> memory_status s b}"

definition obj_blocks :: "nat \<Rightarrow> int \<Rightarrow> nat set" where
  "obj_blocks b bytes = {b..<b + nblocks bytes}"

locale block_allocator =
  fixes alloc :: "int \<Rightarrow> 's \<Rightarrow> u32 \<times> 's"
    and dealloc :: "u32 \<Rightarrow> int \<Rightarrow> 's \<Rightarrow> 's"
    and used :: "'s \<Rightarrow> nat set"
    and inv :: "'s \<Rightarrow> bool"
  assumes alloc_fail: "inv s \<Longrightarrow> valid_size n \<Longrightarrow> fst (alloc n s) = 0 \<Longrightarrow> snd (alloc n s) = s"
    and alloc_fresh: "inv s \<Longrightarrow> valid_size n \<Longrightarrow> fst (alloc n s) \<noteq> 0 \<Longrightarrow>
      \<exists>b. fst (alloc n s) = block_addr b \<and> b + nblocks n \<le> 8192
        \<and> obj_blocks b n \<inter> used s = {} \<and> used (snd (alloc n s)) = used s \<union> obj_blocks b n"
    and alloc_inv: "inv s \<Longrightarrow> valid_size n \<Longrightarrow> inv (snd (alloc n s))"
    and dealloc_used: "inv s \<Longrightarrow> valid_size n \<Longrightarrow> b + nblocks n \<le> 8192 \<Longrightarrow>
      used (dealloc (block_addr b) n s) = used s - obj_blocks b n"
    and dealloc_inv: "inv s \<Longrightarrow> valid_size n \<Longrightarrow> b + nblocks n \<le> 8192 \<Longrightarrow>
      inv (dealloc (block_addr b) n s)"
begin

lemma alloc_dealloc:
  assumes "inv s" "valid_size n" "alloc n s = (p, t)" "p \<noteq> 0"
  shows "used (dealloc p n t) = used s" and "inv (dealloc p n t)"
  using assms alloc_fresh [of s n] alloc_inv [of s n] dealloc_used [of t n] dealloc_inv [of t n]
  by auto

lemma alloc_disjoint:
  assumes inv: "inv s" and n: "valid_size n" and m: "valid_size m"
    and p: "alloc n s = (p, t)" "p \<noteq> 0" and q: "alloc m t = (q, u)" "q \<noteq> 0"
  shows "\<exists>a b. p = block_addr a \<and> q = block_addr b \<and> obj_blocks a n \<inter> obj_blocks b m = {}
    \<and> used u = used s \<union> obj_blocks a n \<union> obj_blocks b m"
proof -
  have t: "inv t" using alloc_inv [OF inv n] p by simp
  obtain a where a: "p = block_addr a" "used t = used s \<union> obj_blocks a n"
    using alloc_fresh [OF inv n] p by auto
  obtain b where "q = block_addr b" "obj_blocks b m \<inter> used t = {}" "used u = used t \<union> obj_blocks b m"
    using alloc_fresh [OF t m] q by auto
  with a show ?thesis by blast
qed

text \<open>Objects of at most one page occupy the one block they start at.\<close>

lemma alloc_page:
  assumes "inv s" "0 < n" "n \<le> 4096" "fst (alloc n s) \<noteq> 0"
  shows "\<exists>b. fst (alloc n s) = block_addr b \<and> b < 8192 \<and> b \<notin> used s
    \<and> used (snd (alloc n s)) = insert b (used s)"
proof -
  have v: "valid_size n" using assms by (simp add: valid_size_def)
  have "(n + 4095) div 4096 = 1" using assms by (auto simp: div_pos_geq)
  then have one: "nblocks n = 1" by (simp add: nblocks_def)
  from alloc_fresh [OF assms(1) v assms(4)] one show ?thesis
    by (auto simp: obj_blocks_def)
qed

end

lemma malloc_result:
  assumes "heap_inv s" "valid_size n" "fst (malloc n s) \<noteq> 0"
  shows "fst (malloc n s) = block_addr (first_fit (memory_status s) (nblocks n))"
    and "has_run (memory_status s) (nblocks n)"
  using assms by (auto simp: malloc_unfold Let_def split: if_splits)

lemma malloc_nonnull:
  assumes "heap_inv s" "valid_size n" "has_run (memory_status s) (nblocks n)"
  shows "fst (malloc n s) \<noteq> 0"
proof -
  have "first_fit (memory_status s) (nblocks n) \<le> 8192"
    using first_fit_run [OF assms(3)] by (simp add: free_run_def)
  with assms block_addr_neq_0 show ?thesis by (simp add: malloc_unfold Let_def)
qed

interpretation kheap: block_allocator malloc free used_blocks heap_inv
proof (unfold_locales, goal_cases)
  case (1 s n)
  then have "\<not> has_run (memory_status s) (nblocks n)"
    using malloc_nonnull [of s n] by blast
  with 1 show ?case by (simp add: malloc_unfold Let_def)
next
  case (2 s n)
  let ?b = "first_fit (memory_status s) (nblocks n)"
  note r = malloc_result [OF 2] first_fit_run [OF malloc_result(2) [OF 2]]
  have "used_blocks (snd (malloc n s)) = used_blocks s \<union> obj_blocks ?b n"
    using 2 r by (auto simp: malloc_unfold Let_def used_blocks_def obj_blocks_def free_run_def)
  moreover have "obj_blocks ?b n \<inter> used_blocks s = {}"
    using r by (auto simp: used_blocks_def obj_blocks_def free_run_def)
  ultimately show ?case using r by (auto simp: free_run_def)
next
  case (3 s n)
  then show ?case by (rule malloc_inv)
next
  case (4 s n b)
  then show ?case by (auto simp: free_inv used_blocks_def obj_blocks_def)
next
  case (5 s n b)
  then show ?case by (rule free_inv)
qed

section \<open>Properties\<close>

text \<open>
  C2: from any state of the heap in which no free block lies below \<open>head\<close>, \<open>malloc\<close>
  is first fit over the whole heap: when some run of free blocks is long enough it returns the
  lowest one, marks exactly its blocks and keeps the rest of the table, and it returns NULL, with
  nothing changed, only when no such run exists anywhere. The search that starts at \<open>head\<close>
  loses no memory.
\<close>

theorem malloc_first_fit:
  assumes "heap_inv s" and "valid_size bytes"
  shows "(if \<exists>i. free_run (memory_status s) (nblocks bytes) i
     then \<exists>i. free_run (memory_status s) (nblocks bytes) i
       \<and> (\<forall>j < i. \<not> free_run (memory_status s) (nblocks bytes) j)
       \<and> fst (malloc bytes s) = block_addr i
       \<and> memory_status (snd (malloc bytes s))
           = (\<lambda>b. b \<in> {i..<i + nblocks bytes} \<or> memory_status s b)
     else malloc bytes s = (0, s))
   \<and> heap_inv (snd (malloc bytes s))"
proof (cases "has_run (memory_status s) (nblocks bytes)")
  case True
  let ?i = "first_fit (memory_status s) (nblocks bytes)"
  have "\<forall>j < ?i. \<not> free_run (memory_status s) (nblocks bytes) j"
    using first_fit_least by (auto simp: not_le [symmetric])
  with True assms first_fit_run [OF True] malloc_inv [OF assms] show ?thesis
    by (auto simp: malloc_unfold Let_def has_run_def fun_eq_iff intro!: exI [of _ ?i])
next
  case False
  with assms malloc_inv [OF assms] show ?thesis by (auto simp: malloc_unfold Let_def has_run_def)
qed

text \<open>The heap as the loader leaves it.\<close>

definition empty_heap :: heap_t where
  "empty_heap = memory_init \<lparr>heap_head = HEAP_KERNEL, memory_status = (\<lambda>_. True)\<rparr>"

lemma empty_heap_inv: "heap_inv empty_heap"
  by (auto simp: empty_heap_def memory_init_def heap_inv_def block_addr_def intro!: exI [of _ 0])

theorem malloc_first_fit_witness:
  "heap_inv empty_heap \<and> fst (malloc 5000 empty_heap) = 0x1060000
   \<and> memory_status (snd (malloc 5000 empty_heap)) 1 \<and> \<not> memory_status (snd (malloc 5000 empty_heap)) 2"
proof -
  have v: "valid_size 5000" "nblocks 5000 = 2" by (simp_all add: valid_size_def nblocks_def)
  have run: "free_run (memory_status empty_heap) 2 0"
    by (simp add: empty_heap_def memory_init_def free_run_def)
  then have "\<exists>i. free_run (memory_status empty_heap) 2 i" by blast
  with malloc_first_fit [OF empty_heap_inv v(1)] v obtain i where i:
    "\<forall>j < i. \<not> free_run (memory_status empty_heap) 2 j" "fst (malloc 5000 empty_heap) = block_addr i"
    "memory_status (snd (malloc 5000 empty_heap)) = (\<lambda>b. b \<in> {i..<i + 2} \<or> memory_status empty_heap b)"
    by auto
  with run have "i = 0" by blast
  with i empty_heap_inv show ?thesis
    by (simp add: block_addr_def empty_heap_def memory_init_def)
qed

text \<open>
  C3: two successive allocations never overlap each other or a block that was in use, and
  freeing the second restores exactly the blocks of the state before it, so that memory is neither
  shared nor lost.
\<close>

theorem malloc_free_separation:
  assumes "heap_inv s" and "valid_size n" and "valid_size m"
    and "malloc n s = (p, t)" and "p \<noteq> 0" and "malloc m t = (q, u)" and "q \<noteq> 0"
  shows "(\<exists>a b. p = block_addr a \<and> q = block_addr b
      \<and> obj_blocks a n \<inter> obj_blocks b m = {}
      \<and> (obj_blocks a n \<union> obj_blocks b m) \<inter> used_blocks s = {})
    \<and> used_blocks (free q m u) = used_blocks t \<and> heap_inv (free q m u)"
proof -
  have t: "heap_inv t" using malloc_inv [OF assms(1,2)] assms(4) by simp
  obtain a b where ab: "p = block_addr a" "q = block_addr b" "obj_blocks a n \<inter> obj_blocks b m = {}"
    using kheap.alloc_disjoint [OF assms] by blast
  obtain a' where "p = block_addr a'" "a' + nblocks n \<le> 8192" "obj_blocks a' n \<inter> used_blocks s = {}"
    "used_blocks t = used_blocks s \<union> obj_blocks a' n"
    using kheap.alloc_fresh [OF assms(1,2)] assms(4,5) by auto
  moreover obtain b' where "q = block_addr b'" "b' + nblocks m \<le> 8192"
    "obj_blocks b' m \<inter> used_blocks t = {}"
    using kheap.alloc_fresh [OF t assms(3)] assms(6,7) by auto
  ultimately show ?thesis
    using kheap.alloc_dealloc [OF t assms(3,6,7)] by blast
qed

theorem malloc_free_separation_witness:
  "\<exists>a b. fst (malloc 10 empty_heap) = block_addr a
      \<and> fst (malloc 20 (snd (malloc 10 empty_heap))) = block_addr b
      \<and> obj_blocks a 10 \<inter> obj_blocks b 20 = {}"
proof -
  have v: "valid_size 10" "valid_size 20" by (simp_all add: valid_size_def)
  have n: "nblocks 10 = 1" "nblocks 20 = 1" by (simp_all add: nblocks_def)
  let ?t = "snd (malloc 10 empty_heap)"
  have h1: "has_run (memory_status empty_heap) (nblocks 10)"
    by (auto simp: has_run_def free_run_def empty_heap_def memory_init_def n intro: exI [of _ 0])
  have "\<not> memory_status ?t 0 \<or> \<not> memory_status ?t 1"
    unfolding malloc_unfold [OF empty_heap_inv v(1)] using h1 n
    by (auto simp: Let_def empty_heap_def memory_init_def)
  then have "free_run (memory_status ?t) 1 0 \<or> free_run (memory_status ?t) 1 1"
    by (auto simp: free_run_def le_Suc_eq less_Suc_eq)
  then have h2: "has_run (memory_status ?t) (nblocks 20)" by (auto simp: has_run_def n)
  have t: "heap_inv ?t" using malloc_inv [OF empty_heap_inv v(1)] .
  show ?thesis
    using malloc_free_separation [OF empty_heap_inv v, of "fst (malloc 10 empty_heap)" ?t]
      malloc_nonnull [OF empty_heap_inv v(1) h1] malloc_nonnull [OF t v(2) h2] by (metis prod.collapse)
qed

end
