(* ===== verification/Paging.thy ===== *)
theory Paging
  imports Memory
begin

text \<open>
  Page directories and page tables, \<^verbatim>\<open>src/paging.c\<close> and
  \<^verbatim>\<open>src/paging.h\<close>. Directories and tables live in physical pages obtained from
  the heap of theory Memory; the state keeps, for every physical address, the entries of the
  directory or table stored there. \<open>V_KERNEL_OFFSET\<close> is 0 in the source. The
  TLB invalidations issued are logged in order. The framebuffer's address and size, which
  \<open>new_page\<close> asks the GUI for, are arguments.
\<close>

section \<open>Model\<close>

record page_dir_entry_t =
  pde_present :: bool
  pde_rw :: bool
  pde_user :: bool
  pde_address :: "20 word"

record page_table_entry_t =
  pte_present :: bool
  pte_rw :: bool
  pte_user :: bool
  pte_w_through :: bool
  pte_no_cache :: bool
  pte_pat :: bool
  pte_address :: "20 word"

record page_t = heap_t +
  page_dirs :: "u32 \<Rightarrow> nat \<Rightarrow> page_dir_entry_t"
  page_tables :: "u32 \<Rightarrow> nat \<Rightarrow> page_table_entry_t"
  kernel_page_dir :: u32
  current_page_dir :: u32
  pat_enabled :: bool
  invlpg_log :: "u32 list"

definition zero_pde :: page_dir_entry_t where
  "zero_pde = \<lparr>pde_present = False, pde_rw = False, pde_user = False, pde_address = 0\<rparr>"

definition zero_pte :: page_table_entry_t where
  "zero_pte = \<lparr>pte_present = False, pte_rw = False, pte_user = False, pte_w_through = False,
     pte_no_cache = False, pte_pat = False, pte_address = 0\<rparr>"

abbreviation (input) PAGE_SIZE :: u32 where "PAGE_SIZE \<equiv> 0x1000"
abbreviation (input) PAGE_MASK :: u32 where "PAGE_MASK \<equiv> 0xFFF"

definition page_align_up :: "u32 \<Rightarrow> u32" where
  "page_align_up addr = (addr + PAGE_MASK) AND NOT PAGE_MASK"

definition page_align_down :: "u32 \<Rightarrow> u32" where
  "page_align_down addr = addr AND NOT PAGE_MASK"

definition frame_no :: "u32 \<Rightarrow> 20 word" where
  "frame_no a = ucast (drop_bit 12 a)"

definition frame_addr :: "20 word \<Rightarrow> u32" where
  "frame_addr f = push_bit 12 (ucast f)"

abbreviation table_at :: "'a page_t_scheme \<Rightarrow> u32 \<Rightarrow> nat \<Rightarrow> u32" where
  "table_at s dir i \<equiv> frame_addr (pde_address (page_dirs s dir i))"

definition set_pte :: "u32 \<Rightarrow> nat \<Rightarrow> page_table_entry_t \<Rightarrow> 'a page_t_scheme \<Rightarrow> 'a page_t_scheme" where
  "set_pte pt i e s = s\<lparr>page_tables := (page_tables s)(pt := (page_tables s pt)(i := e))\<rparr>"

definition set_pde :: "u32 \<Rightarrow> nat \<Rightarrow> page_dir_entry_t \<Rightarrow> 'a page_t_scheme \<Rightarrow> 'a page_t_scheme" where
  "set_pde d i e s = s\<lparr>page_dirs := (page_dirs s)(d := (page_dirs s d)(i := e))\<rparr>"

definition invlpg :: "u32 \<Rightarrow> 'a page_t_scheme \<Rightarrow> 'a page_t_scheme" where
  "invlpg vaddr s = s\<lparr>invlpg_log := invlpg_log s @ [vaddr]\<rparr>"

definition unmap :: "u32 \<Rightarrow> u32 \<Rightarrow> 'a page_t_scheme \<Rightarrow> bool \<times> 'a page_t_scheme" where
  "unmap dir vaddr s =
     (let index = unat vaddr div 0x1000;
          dir_index = index div 1024;
          table_index = index mod 1024;
          d = page_dirs s dir dir_index
      in if pde_present d \<and> pde_address d \<noteq> 0 then
           let page_table = frame_addr (pde_address d);
               e = page_tables s page_table table_index
           in if pte_present e then
                let s1 = set_pte page_table table_index (e\<lparr>pte_present := False\<rparr>) s
                in (True, if dir = current_page_dir s then invlpg vaddr s1 else s1)
              else (False, s)
         else (False, s))"

text \<open>The addresses a loop \<open>for(addr = start; addr < end; addr += PAGE_SIZE)\<close> visits.\<close>

definition page_range :: "u32 \<Rightarrow> u32 \<Rightarrow> u32 list" where
  "page_range start end =
     map (\<lambda>i. start + of_nat i * PAGE_SIZE) [0..<(unat end - unat start + 0xFFF) div 0x1000]"

fun unmap_loop :: "u32 \<Rightarrow> u32 list \<Rightarrow> int \<Rightarrow> 'a page_t_scheme \<Rightarrow> int \<times> 'a page_t_scheme" where
  "unmap_loop dir [] mapped s = (mapped, s)"
| "unmap_loop dir (addr # addrs) mapped s =
     (case unmap dir addr s of
        (True, s') \<Rightarrow> unmap_loop dir addrs (mapped + 1) s'
      | (False, s') \<Rightarrow> unmap_loop dir addrs mapped s')"

definition unmap_size :: "u32 \<Rightarrow> u32 \<Rightarrow> u32 \<Rightarrow> 'a page_t_scheme \<Rightarrow> int \<times> 'a page_t_scheme" where
  "unmap_size dir vaddr sz s =
     (let vstart = page_align_down vaddr;
          vend = page_align_up (vstart + sz)
      in unmap_loop dir (page_range vstart vend) 0 s)"

text \<open>The first half of \<open>map\<close>: make sure the directory entry has a table.\<close>

definition map_ensure_table :: "u32 \<Rightarrow> nat \<Rightarrow> 'a page_t_scheme \<Rightarrow> bool \<times> 'a page_t_scheme" where
  "map_ensure_table dir dir_index s =
     (let d = page_dirs s dir dir_index
      in if \<not> pde_present d \<or> pde_address d = 0 then
           let (page_table, s1) = malloc 4096 s
           in if page_table = 0 then (False, s1)
              else (True, set_pde dir dir_index
                     (d\<lparr>pde_address := frame_no page_table, pde_present := True, pde_rw := True,
                        pde_user := True\<rparr>)
                     (s1\<lparr>page_tables := (page_tables s1)(page_table := (\<lambda>_. zero_pte))\<rparr>))
         else (True, s))"

definition map_page :: "u32 \<Rightarrow> u32 \<Rightarrow> u32 \<Rightarrow> int \<Rightarrow> int \<Rightarrow> int \<Rightarrow> 'a page_t_scheme \<Rightarrow> bool \<times> 'a page_t_scheme" where
  "map_page dir addr vaddr user rw no_cache s =
     (if dir = 0 then (False, s)
      else let index = unat vaddr div 0x1000;
               dir_index = index div 1024;
               table_index = index mod 1024
           in case map_ensure_table dir dir_index s of
                (False, s1) \<Rightarrow> (False, s1)
              | (True, s1) \<Rightarrow>
                  let page_table = table_at s1 dir dir_index;
                      e = page_tables s1 page_table table_index;
                      was_present = pte_present e;
                      s2 = set_pte page_table table_index
                             (e\<lparr>pte_present := True, pte_rw := odd rw, pte_user := odd user,
                                pte_address := frame_no addr, pte_no_cache := odd no_cache\<rparr>) s1
                  in (True, if was_present \<and> dir = current_page_dir s2 then invlpg vaddr s2 else s2))"

fun map_loop :: "u32 \<Rightarrow> (u32 \<times> u32) list \<Rightarrow> int \<Rightarrow> int \<Rightarrow> int \<Rightarrow> int \<Rightarrow> 'a page_t_scheme \<Rightarrow> int \<times> 'a page_t_scheme" where
  "map_loop dir [] user rw no_cache mapped s = (mapped, s)"
| "map_loop dir ((paddr, vaddr) # rest) user rw no_cache mapped s =
     (case map_page dir paddr vaddr user rw no_cache s of
        (False, s') \<Rightarrow> (mapped, s')
      | (True, s') \<Rightarrow> map_loop dir rest user rw no_cache (mapped + 1) s')"

definition map_size :: "u32 \<Rightarrow> u32 \<Rightarrow> u32 \<Rightarrow> u32 \<Rightarrow> int \<Rightarrow> int \<Rightarrow> int \<Rightarrow> 'a page_t_scheme \<Rightarrow> int \<times> 'a page_t_scheme" where
  "map_size dir phys_addr virt_addr sz user rw no_cache s =
     (let phys_start = page_align_down phys_addr;
          virt_start = page_align_down virt_addr;
          phys_end = page_align_up (phys_addr + sz);
          ps = page_range phys_start phys_end
      in map_loop dir (zip ps (map (\<lambda>i. virt_start + of_nat i * PAGE_SIZE) [0..<length ps]))
           user rw no_cache 0 s)"

definition page_getphysical :: "u32 \<Rightarrow> u32 \<Rightarrow> 'a page_t_scheme \<Rightarrow> u32" where
  "page_getphysical dir vaddr s =
     (let dir_index = unat (drop_bit 22 vaddr);
          table_index = unat (drop_bit 12 vaddr AND 0x3FF);
          d = page_dirs s dir dir_index
      in if \<not> pde_present d then - 1
         else let e = page_tables s (frame_addr (pde_address d)) table_index
              in if \<not> pte_present e then - 1
                 else frame_addr (pte_address e) + (vaddr AND 0xFFF))"

abbreviation (input) PAGE_USERRW :: int where "PAGE_USERRW \<equiv> 2"
abbreviation (input) PAGE_USERREAD :: int where "PAGE_USERREAD \<equiv> 1"
abbreviation (input) PAGE_NOTPRESENT :: int where "PAGE_NOTPRESENT \<equiv> 0"
abbreviation (input) PAGE_KERNELREAD :: int where "PAGE_KERNELREAD \<equiv> - 1"
abbreviation (input) PAGE_KERNELRW :: int where "PAGE_KERNELRW \<equiv> - 2"

definition page_checkmapping :: "u32 \<Rightarrow> u32 \<Rightarrow> 'a page_t_scheme \<Rightarrow> int" where
  "page_checkmapping dir vaddr s =
     (let dir_index = unat (drop_bit 22 vaddr);
          table_index = unat (drop_bit 12 vaddr AND 0x3FF);
          d = page_dirs s dir dir_index
      in if \<not> pde_present d then PAGE_NOTPRESENT
         else let e = page_tables s (frame_addr (pde_address d)) table_index
              in if \<not> pte_present e then PAGE_NOTPRESENT
                 else if \<not> pte_user e then (if pte_rw e then PAGE_KERNELRW else PAGE_KERNELREAD)
                 else (if pte_rw e then PAGE_USERRW else PAGE_USERREAD))"

fun page_set_memtype_loop :: "u32 \<Rightarrow> u32 \<Rightarrow> nat list \<Rightarrow> u8 \<Rightarrow> 'a page_t_scheme \<Rightarrow> bool \<times> 'a page_t_scheme" where
  "page_set_memtype_loop dir vaddr [] pat_index s = (True, s)"
| "page_set_memtype_loop dir vaddr (i # is) pat_index s =
     (let index = unat (vaddr + of_nat i * 0x1000) div 0x1000;
          dir_index = index div 1024;
          table_index = index mod 1024;
          d = page_dirs s dir dir_index
      in if \<not> pde_present d \<or> pde_address d = 0 then (False, s)
         else let page_table = frame_addr (pde_address d);
                  e = page_tables s page_table table_index
              in page_set_memtype_loop dir vaddr is pat_index
                   (set_pte page_table table_index
                     (e\<lparr>pte_w_through := bit pat_index 0, pte_no_cache := bit pat_index 1,
                        pte_pat := bit pat_index 2\<rparr>) s))"

definition page_set_memtype :: "u32 \<Rightarrow> u32 \<Rightarrow> u32 \<Rightarrow> u8 \<Rightarrow> 'a page_t_scheme \<Rightarrow> bool \<times> 'a page_t_scheme" where
  "page_set_memtype dir vaddr sz pat_index s =
     (if \<not> pat_enabled s then (False, s)
      else page_set_memtype_loop dir vaddr [0..<unat (sz + 0xFFF) div 0x1000] pat_index s)"

definition free_page_dir :: "u32 \<Rightarrow> 'a page_t_scheme \<Rightarrow> 'a page_t_scheme" where
  "free_page_dir dir s =
     free dir 4096 (fold (\<lambda>i t. if pde_present (page_dirs t dir i) \<and> pde_address (page_dirs t dir i) \<noteq> 0
                                then free (table_at t dir i) 4096 t else t) [0..<1024] s)"

text \<open>\<open>ok &= map(dir, i*0x1000, i*0x1000, 0, 0, 0)\<close> over a range of page numbers.\<close>

fun identity_map :: "u32 \<Rightarrow> nat list \<Rightarrow> bool \<Rightarrow> 'a page_t_scheme \<Rightarrow> bool \<times> 'a page_t_scheme" where
  "identity_map dir [] ok s = (ok, s)"
| "identity_map dir (i # is) ok s =
     (let (r, s') = map_page dir (of_nat i * 0x1000) (of_nat i * 0x1000) 0 0 0 s
      in identity_map dir is (ok \<and> r) s')"

definition new_page :: "u32 \<Rightarrow> u32 \<Rightarrow> 'a page_t_scheme \<Rightarrow> u32 \<times> 'a page_t_scheme" where
  "new_page fb fb_size s =
     (let (dir, s1) = malloc 4096 s
      in if dir = 0 then (0, s1)
         else let s2 = s1\<lparr>page_dirs := (page_dirs s1)(dir := (\<lambda>_. zero_pde))\<rparr>;
                  (ok3, s3) = identity_map dir [0x1000..<0x1060] True s2;
                  (ok4, s4) = identity_map dir [0x1060..<0x3060] ok3 s3;
                  (ok5, s5) = identity_map dir
                     [unat fb div 0x1000..<unat (fb + fb_size + 0xFFF) div 0x1000] ok4 s4;
                  s6 = snd (page_set_memtype dir fb fb_size 1 s5)
              in if \<not> ok5 then (0, free_page_dir dir s6) else (dir, s6))"

definition swap_pagedir :: "u32 \<Rightarrow> 'a page_t_scheme \<Rightarrow> 'a page_t_scheme" where
  "swap_pagedir dir s = s\<lparr>current_page_dir := dir\<rparr>"

section \<open>Addresses\<close>

lemma mask_12: "(0xFFF :: u32) = mask 12"
  by (simp add: mask_eq_exp_minus_1)

lemma frame_addr_no: "frame_addr (frame_no a) = a AND NOT 0xFFF"
  unfolding frame_addr_def frame_no_def mask_12
  by (rule bit_word_eqI) (auto simp: bit_simps)

lemma aligned_id: "unat a mod 4096 = 0 \<Longrightarrow> a AND NOT 0xFFF = a" for a :: u32
proof -
  assume "unat a mod 4096 = 0"
  then have "unat (take_bit 12 a) = 0" by (simp add: take_bit_eq_mod unat_mod)
  then have "take_bit 12 a = 0" by (simp only: unat_eq_0)
  then have "\<not> bit a n" if "n < 12" for n using that by (metis bit_0_eq bit_take_bit_iff bot_apply bot_bool_def)
  then have "a AND NOT (mask 12) = a"
    by (intro bit_word_eqI) (use not_less in \<open>auto simp: bit_simps\<close>)
  then show ?thesis by (simp add: mask_12)
qed

lemma frame_addr_no_block: "b \<le> 8192 \<Longrightarrow> frame_addr (frame_no (block_addr b)) = block_addr b"
  unfolding frame_addr_no by (rule aligned_id) (simp add: unat_block_addr)

lemma frame_no_block: "b \<le> 8192 \<Longrightarrow> frame_no (block_addr b) \<noteq> 0"
  using frame_addr_no_block [of b] block_addr_neq_0 [of b] by (auto simp: frame_addr_def)

lemma page_index:
  "unat (drop_bit 22 v) = unat v div 0x1000 div 1024"
  "unat (drop_bit 12 v AND 0x3FF) = unat v div 0x1000 mod 1024" for v :: u32
proof -
  show "unat (drop_bit 22 v) = unat v div 0x1000 div 1024"
    by (simp add: drop_bit_eq_div unat_div div_mult2_eq [symmetric])
  have "(0x3FF :: u32) = mask 10" by (simp add: mask_eq_exp_minus_1)
  then have "drop_bit 12 v AND 0x3FF = take_bit 10 (drop_bit 12 v)" by (simp only: take_bit_eq_mask)
  then show "unat (drop_bit 12 v AND 0x3FF) = unat v div 0x1000 mod 1024"
    by (simp add: drop_bit_eq_div unat_div unat_mod take_bit_eq_mod)
qed

text \<open>The number of the page an address lies in.\<close>

definition page_no :: "u32 \<Rightarrow> nat" where
  "page_no v = unat v div 0x1000"

lemma page_no_less: "page_no v div 1024 < 1024"
proof -
  have "unat v < 2 ^ 32" using unsigned_less [of v] by simp
  then show ?thesis by (simp add: page_no_def div_mult2_eq [symmetric] less_mult_imp_div_less)
qed

lemmas page_no_defs = page_no_def [symmetric]

section \<open>Invariant\<close>

text \<open>
  \<open>D\<close> is the set of page directories in use. Every directory and every page table they point
  to is a page of the heap that is marked allocated, no table is used by two directory entries
  (of one directory or of two), and no table is a directory.
\<close>

definition used_page :: "'a heap_t_scheme \<Rightarrow> u32 \<Rightarrow> bool" where
  "used_page s p \<longleftrightarrow> (\<exists>b < 8192. p = block_addr b \<and> memory_status s b)"

definition page_inv :: "u32 set \<Rightarrow> 'a page_t_scheme \<Rightarrow> bool" where
  "page_inv D s \<longleftrightarrow> heap_inv s
     \<and> (\<forall>d\<in>D. used_page s d)
     \<and> (\<forall>d\<in>D. \<forall>i<1024. pde_present (page_dirs s d i) \<longrightarrow>
          pde_address (page_dirs s d i) \<noteq> 0 \<and> used_page s (table_at s d i) \<and> table_at s d i \<notin> D)
     \<and> (\<forall>d\<in>D. \<forall>e\<in>D. \<forall>i<1024. \<forall>j<1024.
          pde_present (page_dirs s d i) \<and> pde_present (page_dirs s e j)
          \<and> table_at s d i = table_at s e j \<longrightarrow> d = e \<and> i = j)"

text \<open>The entry that translates page \<open>n\<close> of directory \<open>d\<close>, if there is one.\<close>

definition pte_of :: "'a page_t_scheme \<Rightarrow> u32 \<Rightarrow> nat \<Rightarrow> page_table_entry_t option" where
  "pte_of s d n =
     (if pde_present (page_dirs s d (n div 1024))
        \<and> pte_present (page_tables s (table_at s d (n div 1024)) (n mod 1024))
      then Some (page_tables s (table_at s d (n div 1024)) (n mod 1024)) else None)"

lemma page_getphysical_pte:
  "page_getphysical d v s = (case pte_of s d (page_no v) of None \<Rightarrow> - 1
     | Some e \<Rightarrow> frame_addr (pte_address e) + (v AND 0xFFF))"
  by (simp add: page_getphysical_def page_index pte_of_def page_no_def Let_def)

lemma page_checkmapping_pte:
  "page_checkmapping d v s = (case pte_of s d (page_no v) of None \<Rightarrow> PAGE_NOTPRESENT
     | Some e \<Rightarrow> if \<not> pte_user e then (if pte_rw e then PAGE_KERNELRW else PAGE_KERNELREAD)
                 else (if pte_rw e then PAGE_USERRW else PAGE_USERREAD))"
  by (simp add: page_checkmapping_def page_index pte_of_def page_no_def Let_def)

lemma set_pte_simps [simp]:
  "page_dirs (set_pte pt i e s) = page_dirs s"
  "memory_status (set_pte pt i e s) = memory_status s"
  "heap_head (set_pte pt i e s) = heap_head s"
  "page_tables (set_pte pt i e s) = (page_tables s)(pt := (page_tables s pt)(i := e))"
  "current_page_dir (set_pte pt i e s) = current_page_dir s"
  by (simp_all add: set_pte_def)

lemma set_pde_simps [simp]:
  "page_tables (set_pde d i e s) = page_tables s"
  "memory_status (set_pde d i e s) = memory_status s"
  "heap_head (set_pde d i e s) = heap_head s"
  "page_dirs (set_pde d i e s) = (page_dirs s)(d := (page_dirs s d)(i := e))"
  "current_page_dir (set_pde d i e s) = current_page_dir s"
  by (simp_all add: set_pde_def)

lemma invlpg_simps [simp]:
  "page_tables (invlpg v s) = page_tables s" "page_dirs (invlpg v s) = page_dirs s"
  "memory_status (invlpg v s) = memory_status s" "heap_head (invlpg v s) = heap_head s"
  "current_page_dir (invlpg v s) = current_page_dir s"
  by (simp_all add: invlpg_def)

text \<open>The invariant and the translations depend on heap, directories and tables only.\<close>

lemma heap_inv_cong:
  "heap_head s = heap_head t \<Longrightarrow> memory_status s = memory_status t \<Longrightarrow> heap_inv s = heap_inv t"
  by (simp add: heap_inv_def)

lemma page_inv_cong:
  assumes "heap_head s = heap_head t" "memory_status s = memory_status t" "page_dirs s = page_dirs t"
  shows "page_inv D s = page_inv D t"
proof -
  have "heap_inv s = heap_inv t" using assms by (intro heap_inv_cong)
  with assms show ?thesis by (simp add: page_inv_def used_page_def)
qed

lemma page_inv_set_pte [simp]: "page_inv D (set_pte pt i e s) = page_inv D s"
  by (rule page_inv_cong) simp_all

lemma page_inv_invlpg [simp]: "page_inv D (invlpg v s) = page_inv D s"
  by (rule page_inv_cong) simp_all

lemma pte_of_invlpg [simp]: "pte_of (invlpg v s) = pte_of s"
  by (simp add: fun_eq_iff pte_of_def)

text \<open>Writing an entry changes the translation of one page of one directory.\<close>

lemma pte_of_set_pte:
  assumes inv: "page_inv D s" and d: "d \<in> D" and n: "n div 1024 < 1024"
    and p: "pde_present (page_dirs s d (n div 1024))"
    and d': "d' \<in> D" and n': "n' div 1024 < 1024"
  shows "pte_of (set_pte (table_at s d (n div 1024)) (n mod 1024) e s) d' n' =
    (if d' = d \<and> n' = n then (if pte_present e then Some e else None) else pte_of s d' n')"
proof (cases "d' = d \<and> n' = n")
  case True
  with p show ?thesis by (simp add: pte_of_def)
next
  case False
  show ?thesis
  proof (cases "pde_present (page_dirs s d' (n' div 1024)) \<and> table_at s d' (n' div 1024) = table_at s d (n div 1024)")
    case True
    then have "d' = d" "n' div 1024 = n div 1024"
      using inv d d' n n' p unfolding page_inv_def by blast+
    with False have "n' mod 1024 \<noteq> n mod 1024" by (metis div_mult_mod_eq)
    with True False show ?thesis by (simp add: pte_of_def)
  next
    case f: False
    with False show ?thesis by (auto simp: pte_of_def)
  qed
qed

section \<open>Mapping and unmapping one page\<close>

lemma malloc_page_fields [simp]:
  "page_dirs (snd (malloc n s)) = page_dirs s" "page_tables (snd (malloc n s)) = page_tables s"
  "current_page_dir (snd (malloc n s)) = current_page_dir s"
  "kernel_page_dir (snd (malloc n s)) = kernel_page_dir s"
  by (simp_all add: malloc_def Let_def split: option.splits)

lemma free_page_fields [simp]:
  "page_dirs (free p n s) = page_dirs s" "page_tables (free p n s) = page_tables s"
  "current_page_dir (free p n s) = current_page_dir s"
  "kernel_page_dir (free p n s) = kernel_page_dir s"
  by (simp_all add: free_def Let_def)

lemma used_page_blocks: "used_page s (block_addr b) \<longleftrightarrow> b \<in> used_blocks s" if "b < 8192"
  using that by (auto simp: used_page_def used_blocks_def block_addr_inj)

text \<open>A page from the heap is new to every directory and every table.\<close>

lemma malloc_new_page:
  fixes s :: "'a page_t_scheme"
  assumes inv: "heap_inv s" and nz: "fst (malloc 4096 s) \<noteq> 0"
  obtains b where "b < 8192" "fst (malloc 4096 s) = block_addr b" "\<not> used_page s (block_addr b)"
    "\<And>p. used_page (snd (malloc 4096 s)) p \<longleftrightarrow> p = block_addr b \<or> used_page s p"
    "heap_inv (snd (malloc 4096 s))"
proof -
  obtain b where b: "fst (malloc 4096 s) = block_addr b" "b < 8192" "b \<notin> used_blocks s"
    "used_blocks (snd (malloc 4096 s)) = insert b (used_blocks s)"
    using kheap.alloc_page [OF inv _ _ nz] by auto
  have "used_page (snd (malloc 4096 s)) p \<longleftrightarrow> p = block_addr b \<or> used_page s p" for p
    using b(2,4) by (auto simp: used_page_def used_blocks_def set_eq_iff)
  with b inv show ?thesis
    by (intro that [of b]) (simp_all add: used_page_blocks malloc_inv valid_size_def)
qed

lemma page_inv_parts:
  assumes "page_inv D s"
  shows "heap_inv s" "\<And>d. d \<in> D \<Longrightarrow> used_page s d"
    "\<And>d i. d \<in> D \<Longrightarrow> i < 1024 \<Longrightarrow> pde_present (page_dirs s d i) \<Longrightarrow> pde_address (page_dirs s d i) \<noteq> 0"
    "\<And>d i. d \<in> D \<Longrightarrow> i < 1024 \<Longrightarrow> pde_present (page_dirs s d i) \<Longrightarrow> used_page s (table_at s d i)"
    "\<And>d i. d \<in> D \<Longrightarrow> i < 1024 \<Longrightarrow> pde_present (page_dirs s d i) \<Longrightarrow> table_at s d i \<notin> D"
  using assms by (simp_all add: page_inv_def)

definition add_table :: "u32 \<Rightarrow> nat \<Rightarrow> u32 \<Rightarrow> 'a page_t_scheme \<Rightarrow> 'a page_t_scheme" where
  "add_table dir i pt s = set_pde dir i
     ((page_dirs s dir i)\<lparr>pde_address := frame_no pt, pde_present := True, pde_rw := True, pde_user := True\<rparr>)
     (s\<lparr>page_tables := (page_tables s)(pt := (\<lambda>_. zero_pte))\<rparr>)"

lemma map_ensure_table_cases:
  fixes s :: "'a page_t_scheme"
  assumes inv: "page_inv D s" and d: "d \<in> D" and i: "i < 1024"
  obtains (old) "map_ensure_table d i s = (True, s)" "pde_present (page_dirs s d i)"
  | (full) "map_ensure_table d i s = (False, s)" "fst (malloc 4096 s) = 0"
  | (new) b where "\<not> pde_present (page_dirs s d i)" "b < 8192" "\<not> used_page s (block_addr b)"
      "\<And>p. used_page (snd (malloc 4096 s)) p \<longleftrightarrow> p = block_addr b \<or> used_page s p"
      "heap_inv (snd (malloc 4096 s))"
      "map_ensure_table d i s = (True, add_table d i (block_addr b) (snd (malloc 4096 s)))"
proof (cases "pde_present (page_dirs s d i)")
  case True
  with page_inv_parts(3) [OF inv d i] show ?thesis
    by (intro old) (simp_all add: map_ensure_table_def)
next
  case False
  show ?thesis
  proof (cases "fst (malloc 4096 s) = 0")
    case True
    with page_inv_parts(1) [OF inv] have "snd (malloc 4096 s) = s"
      by (intro kheap.alloc_fail) (simp_all add: valid_size_def)
    with True False show ?thesis
      by (intro full) (simp_all add: map_ensure_table_def Let_def split_beta)
  next
    case nz: False
    obtain b where b: "b < 8192" "fst (malloc 4096 s) = block_addr b" "\<not> used_page s (block_addr b)"
      "\<And>p. used_page (snd (malloc 4096 s)) p \<longleftrightarrow> p = block_addr b \<or> used_page s p"
      "heap_inv (snd (malloc 4096 s))"
      using malloc_new_page [OF page_inv_parts(1) [OF inv] nz] by blast
    have "map_ensure_table d i s = (True, add_table d i (block_addr b) (snd (malloc 4096 s)))"
      using False nz b(2) by (simp add: map_ensure_table_def add_table_def Let_def split_beta)
    with False b show ?thesis by (intro new) auto
  qed
qed

lemma add_table_inv:
  assumes inv: "page_inv D s" and d: "d \<in> D" and i: "i < 1024"
    and np: "\<not> pde_present (page_dirs s d i)" and b: "b < 8192" "\<not> used_page s (block_addr b)"
    and h: "heap_inv t" and u: "\<And>p. used_page t p \<longleftrightarrow> p = block_addr b \<or> used_page s p"
    and e: "page_dirs t = page_dirs s" "page_tables t = page_tables s"
  shows "page_inv D (add_table d i (block_addr b) t)"
    and "d' \<in> D \<Longrightarrow> n div 1024 < 1024 \<Longrightarrow> pte_of (add_table d i (block_addr b) t) d' n = pte_of s d' n"
proof -
  note P = page_inv_parts [OF inv]
  let ?t = "add_table d i (block_addr b) t"
  have new: "table_at ?t d i = block_addr b" "pde_present (page_dirs ?t d i)"
    using b by (simp_all add: add_table_def frame_addr_no_block)
  have addr: "pde_address (page_dirs ?t d i) \<noteq> 0"
    using b frame_no_block [of b] by (simp add: add_table_def)
  have old: "page_dirs ?t d' j = page_dirs s d' j" if "(d', j) \<noteq> (d, i)" for d' j
    using that e by (auto simp: add_table_def)
  have up: "used_page ?t p \<longleftrightarrow> p = block_addr b \<or> used_page s p" for p
    using u [of p] by (simp add: used_page_def add_table_def)
  have fresh: "block_addr b \<notin> D" using P(2) b by blast
  have tab: "table_at s d' j \<noteq> block_addr b"
    if "d' \<in> D" "j < 1024" "pde_present (page_dirs s d' j)" for d' j
    using P(4) [OF that] b by auto
  have hi: "heap_inv ?t" using h by (simp add: add_table_def heap_inv_def)
  have A: "pde_address (page_dirs ?t d' j) \<noteq> 0 \<and> used_page ?t (table_at ?t d' j) \<and> table_at ?t d' j \<notin> D"
    if "d' \<in> D" "j < 1024" "pde_present (page_dirs ?t d' j)" for d' j
  proof (cases "(d', j) = (d, i)")
    case True
    with new addr fresh show ?thesis by (simp add: up)
  next
    case False
    with that P(3-5) [of d' j] show ?thesis by (simp add: old up)
  qed
  have B: "d1 = d2 \<and> j1 = j2"
    if "d1 \<in> D" "d2 \<in> D" "j1 < 1024" "j2 < 1024" "pde_present (page_dirs ?t d1 j1)"
      "pde_present (page_dirs ?t d2 j2)" "table_at ?t d1 j1 = table_at ?t d2 j2" for d1 d2 j1 j2
  proof (cases "(d1, j1) = (d, i) \<or> (d2, j2) = (d, i)")
    case True
    show ?thesis
    proof (rule ccontr)
      assume ne: "\<not> (d1 = d2 \<and> j1 = j2)"
      with True consider "(d1, j1) = (d, i)" "(d2, j2) \<noteq> (d, i)" | "(d2, j2) = (d, i)" "(d1, j1) \<noteq> (d, i)"
        by auto
      then show False
        using that new tab [of d1 j1] tab [of d2 j2] old [of d1 j1] old [of d2 j2] by cases auto
    qed
  next
    case False
    with that old [of d1 j1] old [of d2 j2] inv show ?thesis unfolding page_inv_def by metis
  qed
  have U: "\<forall>d\<in>D. used_page ?t d" using P(2) by (simp add: up)
  show "page_inv D ?t" unfolding page_inv_def using hi U A B by blast
  show "pte_of ?t d' n = pte_of s d' n" if "d' \<in> D" "n div 1024 < 1024"
  proof (cases "(d', n div 1024) = (d, i)")
    case True
    with np new show ?thesis by (simp add: pte_of_def) (simp add: add_table_def zero_pte_def)
  next
    case False
    have "page_tables ?t p = page_tables s p" if "p \<noteq> block_addr b" for p
      using that e by (simp add: add_table_def)
    with old [OF False] tab [OF that] show ?thesis by (auto simp: pte_of_def)
  qed
qed

lemma map_ensure_table_spec:
  assumes inv: "page_inv D s" and d: "d \<in> D" and i: "i < 1024"
    and r: "map_ensure_table d i s = (ok, t)"
  shows "page_inv D t" and "ok \<Longrightarrow> pde_present (page_dirs t d i)" and "\<not> ok \<Longrightarrow> t = s"
    and "current_page_dir t = current_page_dir s"
    and "d' \<in> D \<Longrightarrow> n div 1024 < 1024 \<Longrightarrow> pte_of t d' n = pte_of s d' n"
proof -
  have "page_inv D t \<and> (ok \<longrightarrow> pde_present (page_dirs t d i)) \<and> (\<not> ok \<longrightarrow> t = s)
    \<and> current_page_dir t = current_page_dir s
    \<and> (d' \<in> D \<longrightarrow> n div 1024 < 1024 \<longrightarrow> pte_of t d' n = pte_of s d' n)"
  proof (cases rule: map_ensure_table_cases [OF inv d i])
    case 1
    with inv r show ?thesis by simp
  next
    case 2
    with inv r show ?thesis by simp
  next
    case (3 b)
    with r have t: "t = add_table d i (block_addr b) (snd (malloc 4096 s))" "ok" by simp_all
    note at = add_table_inv [OF inv d i 3(1-3,5,4)]
    show ?thesis using at t by (simp add: add_table_def)
  qed
  then show "page_inv D t" "ok \<Longrightarrow> pde_present (page_dirs t d i)" "\<not> ok \<Longrightarrow> t = s"
    "current_page_dir t = current_page_dir s"
    "d' \<in> D \<Longrightarrow> n div 1024 < 1024 \<Longrightarrow> pte_of t d' n = pte_of s d' n" by blast+
qed

lemma map_page_spec:
  assumes inv: "page_inv D s" and d: "d \<in> D" and r: "map_page d pa va user rw nc s = (ok, t)"
  shows "page_inv D t" and "\<not> ok \<Longrightarrow> t = s" and "current_page_dir t = current_page_dir s"
    and "ok \<Longrightarrow> \<exists>e. pte_of t d (page_no va) = Some e \<and> frame_addr (pte_address e) = pa AND NOT 0xFFF
        \<and> pte_rw e = odd rw \<and> pte_user e = odd user \<and> pte_no_cache e = odd nc"
    and "d' \<in> D \<Longrightarrow> n div 1024 < 1024 \<Longrightarrow> (d', n) \<noteq> (d, page_no va) \<Longrightarrow> pte_of t d' n = pte_of s d' n"
proof -
  let ?i = "page_no va div 1024" and ?j = "page_no va mod 1024"
  have nz: "d \<noteq> 0"
    using page_inv_parts(2) [OF inv d] block_addr_neq_0 by (auto simp: used_page_def)
  obtain ok1 s1 where e: "map_ensure_table d ?i s = (ok1, s1)" by fastforce
  note E = map_ensure_table_spec [OF inv d page_no_less e]
  have "page_inv D t \<and> (\<not> ok \<longrightarrow> t = s) \<and> current_page_dir t = current_page_dir s
    \<and> (ok \<longrightarrow> (\<exists>e. pte_of t d (page_no va) = Some e \<and> frame_addr (pte_address e) = pa AND NOT 0xFFF
        \<and> pte_rw e = odd rw \<and> pte_user e = odd user \<and> pte_no_cache e = odd nc))
    \<and> (\<forall>d' n. d' \<in> D \<longrightarrow> n div 1024 < 1024 \<longrightarrow> (d', n) \<noteq> (d, page_no va) \<longrightarrow> pte_of t d' n = pte_of s d' n)"
  proof (cases ok1)
    case False
    with r nz e have "t = s1" "\<not> ok" by (simp_all add: map_page_def page_no_def Let_def)
    with E False inv show ?thesis by simp
  next
    case True
    let ?x = "(page_tables s1 (table_at s1 d ?i) ?j)\<lparr>pte_present := True, pte_rw := odd rw,
      pte_user := odd user, pte_address := frame_no pa, pte_no_cache := odd nc\<rparr>"
    let ?s2 = "set_pte (table_at s1 d ?i) ?j ?x s1"
    have t: "ok" "t = ?s2 \<or> t = invlpg va ?s2"
      using r nz e True by (auto simp: map_page_def page_no_def Let_def split: if_splits)
    have P: "pte_of t d' n = (if d' = d \<and> n = page_no va then Some ?x else pte_of s1 d' n)"
      if "d' \<in> D" "n div 1024 < 1024" for d' n
      using t pte_of_set_pte [OF E(1) d page_no_less E(2) [OF True] that, of ?x] by auto
    have "page_inv D t" "current_page_dir t = current_page_dir s" using t E(1,4) by auto
    moreover have "pte_of t d (page_no va) = Some ?x" using P [OF d page_no_less] by simp
    ultimately show ?thesis using t(1) P E(5) by (simp add: frame_addr_no)
  qed
  then show "page_inv D t" "\<not> ok \<Longrightarrow> t = s" "current_page_dir t = current_page_dir s"
    "ok \<Longrightarrow> \<exists>e. pte_of t d (page_no va) = Some e \<and> frame_addr (pte_address e) = pa AND NOT 0xFFF
        \<and> pte_rw e = odd rw \<and> pte_user e = odd user \<and> pte_no_cache e = odd nc"
    "d' \<in> D \<Longrightarrow> n div 1024 < 1024 \<Longrightarrow> (d', n) \<noteq> (d, page_no va) \<Longrightarrow> pte_of t d' n = pte_of s d' n"
    by blast+
qed

lemma unmap_spec:
  assumes inv: "page_inv D s" and d: "d \<in> D" and r: "unmap d va s = (ok, t)"
  shows "page_inv D t" and "ok \<longleftrightarrow> pte_of s d (page_no va) \<noteq> None"
    and "memory_status t = memory_status s" and "page_dirs t = page_dirs s"
    and "d' \<in> D \<Longrightarrow> n div 1024 < 1024 \<Longrightarrow>
      pte_of t d' n = (if d' = d \<and> n = page_no va then None else pte_of s d' n)"
proof -
  let ?i = "page_no va div 1024" and ?j = "page_no va mod 1024"
  let ?x = "(page_tables s (table_at s d ?i) ?j)\<lparr>pte_present := False\<rparr>"
  let ?s2 = "set_pte (table_at s d ?i) ?j ?x s"
  have addr: "pde_present (page_dirs s d ?i) \<Longrightarrow> pde_address (page_dirs s d ?i) \<noteq> 0"
    using page_inv_parts(3) [OF inv d page_no_less] .
  have "page_inv D t \<and> (ok \<longleftrightarrow> pte_of s d (page_no va) \<noteq> None)
    \<and> memory_status t = memory_status s \<and> page_dirs t = page_dirs s
    \<and> (\<forall>d' n. d' \<in> D \<longrightarrow> n div 1024 < 1024 \<longrightarrow>
      pte_of t d' n = (if d' = d \<and> n = page_no va then None else pte_of s d' n))"
  proof (cases "pte_of s d (page_no va)")
    case None
    with r addr have "t = s" "\<not> ok"
      by (auto simp: unmap_def pte_of_def page_no_def Let_def split: if_splits)
    with None inv show ?thesis by simp
  next
    case (Some e)
    then have p: "pde_present (page_dirs s d ?i)" by (auto simp: pte_of_def split: if_splits)
    have t: "ok" "t = ?s2 \<or> t = invlpg va ?s2"
      using r Some p addr by (auto simp: unmap_def pte_of_def page_no_def Let_def split: if_splits)
    have "pte_of t d' n = (if d' = d \<and> n = page_no va then None else pte_of s d' n)"
      if "d' \<in> D" "n div 1024 < 1024" for d' n
      using t pte_of_set_pte [OF inv d page_no_less p that, of ?x] by auto
    with t Some inv show ?thesis by auto
  qed
  then show "page_inv D t" "ok \<longleftrightarrow> pte_of s d (page_no va) \<noteq> None"
    "memory_status t = memory_status s" "page_dirs t = page_dirs s"
    "d' \<in> D \<Longrightarrow> n div 1024 < 1024 \<Longrightarrow>
      pte_of t d' n = (if d' = d \<and> n = page_no va then None else pte_of s d' n)" by blast+
qed

text \<open>Which pages mapping takes: only tables of the directory itself.\<close>

definition own_table :: "'a page_t_scheme \<Rightarrow> u32 \<Rightarrow> u32 \<Rightarrow> bool" where
  "own_table s d p \<longleftrightarrow> (\<exists>i<1024. pde_present (page_dirs s d i) \<and> p = table_at s d i)"

definition keeps_dir :: "u32 \<Rightarrow> 'a page_t_scheme \<Rightarrow> 'a page_t_scheme \<Rightarrow> bool" where
  "keeps_dir d s t \<longleftrightarrow> (\<forall>d'. d' \<noteq> d \<longrightarrow> page_dirs t d' = page_dirs s d')
     \<and> (\<forall>i. pde_present (page_dirs s d i) \<longrightarrow> page_dirs t d i = page_dirs s d i)
     \<and> (\<forall>p. used_page t p \<longleftrightarrow> used_page s p \<or> own_table t d p)
     \<and> (\<forall>p. used_page s p \<and> own_table t d p \<longrightarrow> own_table s d p)"

lemma own_table_keeps: "keeps_dir d s t \<Longrightarrow> own_table s d p \<Longrightarrow> own_table t d p"
  by (auto simp: keeps_dir_def own_table_def)

lemma keeps_dir_trans: "keeps_dir d s t \<Longrightarrow> keeps_dir d t u \<Longrightarrow> keeps_dir d s u"
proof -
  assume a: "keeps_dir d s t" "keeps_dir d t u"
  have "used_page u p \<longleftrightarrow> used_page s p \<or> own_table u d p" for p
    using a own_table_keeps [OF a(2), of p] by (auto simp: keeps_dir_def)
  moreover have "own_table s d p" if "used_page s p" "own_table u d p" for p
    using a that by (auto simp: keeps_dir_def)
  ultimately show ?thesis using a by (auto simp: keeps_dir_def)
qed

lemma keeps_dir_refl: "page_inv D s \<Longrightarrow> d \<in> D \<Longrightarrow> keeps_dir d s s"
  by (auto simp: keeps_dir_def own_table_def page_inv_def)

lemma keeps_dir_cong:
  "keeps_dir d s t \<Longrightarrow> page_dirs u = page_dirs t \<Longrightarrow> memory_status u = memory_status t \<Longrightarrow> keeps_dir d s u"
  by (simp add: keeps_dir_def own_table_def used_page_def)

lemma map_ensure_table_keeps:
  assumes inv: "page_inv D s" and d: "d \<in> D" and i: "i < 1024"
  shows "keeps_dir d s (snd (map_ensure_table d i s))"
proof (cases rule: map_ensure_table_cases [OF inv d i])
  case 1
  with keeps_dir_refl [OF inv d] show ?thesis by simp
next
  case 2
  with keeps_dir_refl [OF inv d] show ?thesis by simp
next
  case (3 b)
  let ?t = "add_table d i (block_addr b) (snd (malloc 4096 s))"
  have u: "used_page ?t p \<longleftrightarrow> p = block_addr b \<or> used_page s p" for p
    using 3(4) [of p] by (simp add: used_page_def add_table_def)
  have "own_table ?t d (block_addr b)"
    using i 3(2) by (auto simp: own_table_def add_table_def frame_addr_no_block)
  moreover have "own_table ?t d p \<Longrightarrow> p = block_addr b \<or> used_page s p \<and> own_table s d p" for p
    using page_inv_parts(4) [OF inv d] 3(2)
    by (auto simp: own_table_def add_table_def frame_addr_no_block split: if_splits)
  ultimately show ?thesis
    using 3(1,6) 3(3) u unfolding keeps_dir_def by (auto simp: add_table_def)
qed

lemma map_page_keeps:
  assumes inv: "page_inv D s" and d: "d \<in> D"
  shows "keeps_dir d s (snd (map_page d pa va user rw nc s))"
proof (cases "d = 0")
  case True
  with keeps_dir_refl [OF inv d] show ?thesis by (simp add: map_page_def)
next
  case False
  obtain ok s1 where e: "map_ensure_table d (page_no va div 1024) s = (ok, s1)" by fastforce
  have k: "keeps_dir d s s1" using map_ensure_table_keeps [OF inv d page_no_less, of va] e by simp
  show ?thesis
    by (rule keeps_dir_cong [OF k])
      (use False e in \<open>auto simp: map_page_def page_no_def Let_def split: bool.splits\<close>)
qed

section \<open>Ranges of pages\<close>

lemma page_no_add:
  assumes "unat v mod 4096 = 0" "unat v + i * 4096 < 2 ^ 32"
  shows "page_no (v + of_nat i * 0x1000) = page_no v + i"
    and "unat (v + of_nat i * 0x1000) = unat v + i * 4096"
proof -
  have "unat (of_nat (i * 4096) :: u32) = i * 4096" using assms by (intro unat_of_nat_u32) simp
  then have "unat (v + of_nat (i * 4096)) = unat v + i * 4096"
    using assms by (simp only: unat_word_ariths) (simp add: mod_less)
  then show "unat (v + of_nat i * 0x1000) = unat v + i * 4096" by simp
  then show "page_no (v + of_nat i * 0x1000) = page_no v + i"
    by (simp add: page_no_def)
qed

lemma unat_align: "unat (a AND NOT 0xFFF) = unat a - unat a mod 4096" for a :: u32
proof -
  have "a AND NOT 0xFFF = push_bit 12 (drop_bit 12 a)"
    unfolding mask_12 by (rule bit_word_eqI) (auto simp: bit_simps)
  also have "\<dots> = a - take_bit 12 a" using bits_ident [of 12 a] by (metis add_diff_cancel_right')
  finally have e: "a AND NOT 0xFFF = a - a mod 0x1000" by (simp only: take_bit_eq_mod) simp
  have "a mod 0x1000 \<le> a" by (simp add: word_le_nat_alt unat_mod)
  then have "unat (a - a mod 0x1000) = unat a - unat (a mod 0x1000)" by (rule unat_sub)
  then show ?thesis by (simp only: e) (simp add: unat_mod)
qed

lemma page_align_down_id: "unat v mod 4096 = 0 \<Longrightarrow> page_align_down v = v"
  unfolding page_align_down_def by (rule aligned_id)

lemma unat_page_align_up:
  assumes "unat v + 0xFFF < 2 ^ 32"
  shows "unat (page_align_up v) = (unat v + 0xFFF) div 4096 * 4096"
proof -
  have "unat (v + 0xFFF) = unat v + 0xFFF"
    using assms by (subst unat_add_lem [THEN iffD1]) simp_all
  then show ?thesis unfolding page_align_up_def unat_align by (simp add: minus_mod_eq_div_mult)
qed

lemma page_align_up_id: "unat v mod 4096 = 0 \<Longrightarrow> page_align_up v = v"
proof -
  assume a: "unat v mod 4096 = 0"
  have "unat v < 2 ^ 32" using unsigned_less [of v] by simp
  moreover obtain q where q: "unat v = 4096 * q" using a by auto
  ultimately have "unat v + 0xFFF < 2 ^ 32" by simp
  from unat_page_align_up [OF this] q have "unat (page_align_up v) = unat v" by simp
  then show ?thesis by (simp only: word_unat_eq_iff)
qed

text \<open>Running \<open>map\<close> over a list of pages.\<close>

lemma map_loop_spec:
  assumes "page_inv D s" "d \<in> D" "map_loop d ps user rw nc m s = (m', t)"
    "distinct (map (\<lambda>p. page_no (snd p)) ps)"
  shows "page_inv D t \<and> (\<exists>k \<le> length ps. m' = m + int k
    \<and> (\<forall>p \<in> set (take k ps). \<exists>e. pte_of t d (page_no (snd p)) = Some e
         \<and> frame_addr (pte_address e) = fst p AND NOT 0xFFF
         \<and> pte_rw e = odd rw \<and> pte_user e = odd user \<and> pte_no_cache e = odd nc)
    \<and> (\<forall>d' n. d' \<in> D \<and> n div 1024 < 1024 \<and> \<not> (d' = d \<and> n \<in> (\<lambda>p. page_no (snd p)) ` set (take k ps))
         \<longrightarrow> pte_of t d' n = pte_of s d' n))"
  using assms
proof (induction d ps user rw nc m s rule: map_loop.induct)
  case (1 dir user rw nc m s)
  then show ?case by auto
next
  case (2 dir paddr vaddr rest user rw nc m s)
  obtain ok s1 where r: "map_page dir paddr vaddr user rw nc s = (ok, s1)" by fastforce
  note M = map_page_spec [OF "2.prems"(1,2) r]
  show ?case
  proof (cases ok)
    case False
    with r M(2) "2.prems" show ?thesis by (auto intro!: exI [of _ 0])
  next
    case True
    have r1: "map_loop dir rest user rw nc (m + 1) s1 = (m', t)" using "2.prems"(3) r True by simp
    have dist: "distinct (map (\<lambda>p. page_no (snd p)) rest)" "page_no vaddr \<notin> (\<lambda>p. page_no (snd p)) ` set rest"
      using "2.prems"(4) by auto
    have "map_page dir paddr vaddr user rw nc s = (True, s1)" using r True by simp
    from "2.IH" [OF this [symmetric] refl M(1) "2.prems"(2) r1 dist(1)]
    obtain k where k: "page_inv D t" "k \<le> length rest" "m' = m + 1 + int k"
      "\<forall>p \<in> set (take k rest). \<exists>e. pte_of t dir (page_no (snd p)) = Some e
         \<and> frame_addr (pte_address e) = fst p AND NOT 0xFFF
         \<and> pte_rw e = odd rw \<and> pte_user e = odd user \<and> pte_no_cache e = odd nc"
      "\<forall>d' n. d' \<in> D \<and> n div 1024 < 1024 \<and> \<not> (d' = dir \<and> n \<in> (\<lambda>p. page_no (snd p)) ` set (take k rest))
         \<longrightarrow> pte_of t d' n = pte_of s1 d' n" by blast
    have "page_no vaddr \<notin> (\<lambda>p. page_no (snd p)) ` set (take k rest)"
      using dist(2) by (auto dest: in_set_takeD)
    then have "pte_of t dir (page_no vaddr) = pte_of s1 dir (page_no vaddr)"
      using k(5) "2.prems"(2) page_no_less [of vaddr] by blast
    with M(4) [OF True] k(4) have A: "\<forall>p \<in> set (take (Suc k) ((paddr, vaddr) # rest)).
       \<exists>e. pte_of t dir (page_no (snd p)) = Some e \<and> frame_addr (pte_address e) = fst p AND NOT 0xFFF
         \<and> pte_rw e = odd rw \<and> pte_user e = odd user \<and> pte_no_cache e = odd nc" by auto
    have B: "pte_of t d' n = pte_of s d' n"
      if "d' \<in> D" "n div 1024 < 1024"
        "\<not> (d' = dir \<and> n \<in> (\<lambda>p. page_no (snd p)) ` set (take (Suc k) ((paddr, vaddr) # rest)))" for d' n
      using that k(5) M(5) [OF that(1,2)] by auto
    show ?thesis using k(1-3) A B by (intro conjI exI [of _ "Suc k"]) auto
  qed
qed

lemma unmap_loop_spec:
  assumes "page_inv D s" "d \<in> D" "unmap_loop d vs m s = (m', t)" "distinct (map page_no vs)"
  shows "page_inv D t \<and> m' = m + int (length (filter (\<lambda>v. pte_of s d (page_no v) \<noteq> None) vs))
    \<and> memory_status t = memory_status s \<and> page_dirs t = page_dirs s
    \<and> (\<forall>d' n. d' \<in> D \<and> n div 1024 < 1024 \<longrightarrow>
         pte_of t d' n = (if d' = d \<and> n \<in> page_no ` set vs then None else pte_of s d' n))"
  using assms
proof (induction d vs m s rule: unmap_loop.induct)
  case (1 dir m s)
  then show ?case by auto
next
  case (2 dir v vs m s)
  obtain ok s1 where r: "unmap dir v s = (ok, s1)" by fastforce
  note U = unmap_spec [OF "2.prems"(1,2) r]
  let ?m = "if ok then m + 1 else m"
  have r1: "unmap_loop dir vs ?m s1 = (m', t)" using "2.prems"(3) r by (auto split: if_splits)
  have dist: "distinct (map page_no vs)" "page_no v \<notin> page_no ` set vs" using "2.prems"(4) by auto
  have IH: "page_inv D t \<and> m' = ?m + int (length (filter (\<lambda>v. pte_of s1 dir (page_no v) \<noteq> None) vs))
    \<and> memory_status t = memory_status s1 \<and> page_dirs t = page_dirs s1
    \<and> (\<forall>d' n. d' \<in> D \<and> n div 1024 < 1024 \<longrightarrow>
         pte_of t d' n = (if d' = dir \<and> n \<in> page_no ` set vs then None else pte_of s1 d' n))"
    using "2.IH" r U(1) "2.prems"(2) r1 dist(1) by (cases ok) auto
  have "filter (\<lambda>v. pte_of s1 dir (page_no v) \<noteq> None) vs = filter (\<lambda>v. pte_of s dir (page_no v) \<noteq> None) vs"
    using U(5) [OF "2.prems"(2) page_no_less] dist(2) by (intro filter_cong) (auto simp: image_iff)
  with IH U show ?case by (auto simp: U(2))
qed

lemma page_range_aligned:
  assumes "unat v mod 4096 = 0" "unat v + n * 4096 < 2 ^ 32"
  shows "page_range v (v + of_nat n * 0x1000) = map (\<lambda>i. v + of_nat i * 0x1000) [0..<n]"
  using page_no_add(2) [OF assms] by (simp add: page_range_def)

lemma page_align_up_add:
  assumes "unat v mod 4096 = 0" "unat v + n * 4096 < 2 ^ 32"
  shows "page_align_up (v + of_nat n * 0x1000) = v + of_nat n * 0x1000"
  by (rule page_align_up_id) (use assms page_no_add(2) [OF assms] in simp)

lemma page_nos_range:
  assumes "unat v mod 4096 = 0" "unat v + n * 4096 < 2 ^ 32"
  shows "map page_no (map (\<lambda>i. v + of_nat i * 0x1000) [0..<n]) = map (\<lambda>i. page_no v + i) [0..<n]"
  using assms by (auto intro!: page_no_add(1))

text \<open>\<open>free_page_dir\<close> gives back the directory and its tables, and nothing else.\<close>

lemma free_used_page:
  assumes "heap_inv s" "b < 8192"
  shows "heap_inv (free (block_addr b) 4096 s)"
    "used_page (free (block_addr b) 4096 s) p \<longleftrightarrow> used_page s p \<and> p \<noteq> block_addr b"
proof -
  have v: "valid_size 4096" "nblocks 4096 = 1" by (simp_all add: valid_size_def nblocks_def)
  note f = free_inv [OF assms(1) v(1), of b]
  show "heap_inv (free (block_addr b) 4096 s)" using f v assms(2) by simp
  show "used_page (free (block_addr b) 4096 s) p \<longleftrightarrow> used_page s p \<and> p \<noteq> block_addr b"
  proof -
    have st: "memory_status (free (block_addr b) 4096 s) c \<longleftrightarrow> memory_status s c \<and> c \<noteq> b" for c
      using f(2) v assms(2) by auto
    show ?thesis unfolding used_page_def st
      using assms(2) block_addr_inj [of _ b] by (metis less_imp_le_nat)
  qed
qed

lemma free_tables:
  assumes inv: "page_inv D s" and d: "d \<in> D" and n: "n \<le> 1024"
    and t: "t = fold (\<lambda>i t. if pde_present (page_dirs t d i) \<and> pde_address (page_dirs t d i) \<noteq> 0
                        then free (table_at t d i) 4096 t else t) [0..<n] s"
  shows "heap_inv t \<and> page_dirs t = page_dirs s \<and> page_tables t = page_tables s
    \<and> (\<forall>p. used_page t p \<longleftrightarrow> used_page s p \<and> \<not> (\<exists>i<n. pde_present (page_dirs s d i) \<and> p = table_at s d i))"
  using n t
proof (induction n arbitrary: t)
  case 0
  then show ?case using page_inv_parts(1) [OF inv] by simp
next
  case (Suc n)
  define u where "u = fold (\<lambda>i t. if pde_present (page_dirs t d i) \<and> pde_address (page_dirs t d i) \<noteq> 0
                        then free (table_at t d i) 4096 t else t) [0..<n] s"
  have IH: "heap_inv u" "page_dirs u = page_dirs s" "page_tables u = page_tables s"
    "\<forall>p. used_page u p \<longleftrightarrow> used_page s p \<and> \<not> (\<exists>i<n. pde_present (page_dirs s d i) \<and> p = table_at s d i)"
    using Suc.IH [OF _ u_def] Suc.prems by simp_all
  show ?case
  proof (cases "pde_present (page_dirs s d n)")
    case False
    with Suc.prems have "t = u" by (simp add: u_def [symmetric] IH)
    with IH False show ?thesis by (auto simp: less_Suc_eq)
  next
    case True
    obtain b where b: "b < 8192" "table_at s d n = block_addr b"
      using page_inv_parts(4) [OF inv d _ True] Suc.prems by (auto simp: used_page_def)
    have "t = free (block_addr b) 4096 u"
      using Suc.prems True page_inv_parts(3) [OF inv d _ True] b by (simp add: u_def [symmetric] IH)
    with IH True b free_used_page [OF IH(1) b(1)] show ?thesis by (auto simp: less_Suc_eq)
  qed
qed

lemma free_page_dir_spec:
  assumes inv: "page_inv D s" and d: "d \<in> D"
  shows "page_inv (D - {d}) (free_page_dir d s)"
    and "page_dirs (free_page_dir d s) = page_dirs s" and "page_tables (free_page_dir d s) = page_tables s"
    and "used_page (free_page_dir d s) p \<longleftrightarrow> used_page s p \<and> p \<noteq> d \<and> \<not> own_table s d p"
proof -
  let ?t = "fold (\<lambda>i t. if pde_present (page_dirs t d i) \<and> pde_address (page_dirs t d i) \<noteq> 0
                        then free (table_at t d i) 4096 t else t) [0..<1024] s"
  have T: "heap_inv ?t" "page_dirs ?t = page_dirs s" "page_tables ?t = page_tables s"
    "\<And>p. used_page ?t p \<longleftrightarrow> used_page s p \<and> \<not> own_table s d p"
    using free_tables [OF inv d order_refl refl] unfolding own_table_def by blast+
  obtain b where b: "b < 8192" "d = block_addr b" using page_inv_parts(2) [OF inv d] by (auto simp: used_page_def)
  have F: "free_page_dir d s = free (block_addr b) 4096 ?t"
    unfolding free_page_dir_def b(2) [symmetric] ..
  show dirs: "page_dirs (free_page_dir d s) = page_dirs s" "page_tables (free_page_dir d s) = page_tables s"
    using T by (simp_all add: F)
  show used: "used_page (free_page_dir d s) p \<longleftrightarrow> used_page s p \<and> p \<noteq> d \<and> \<not> own_table s d p" for p
    using T(4) [of p] free_used_page(2) [OF T(1) b(1), of p] b unfolding F by blast
  have not_own: "\<not> own_table s d (table_at s d' i)"
    if "d' \<in> D - {d}" "i < 1024" "pde_present (page_dirs s d' i)" for d' i
    using that inv d unfolding own_table_def page_inv_def by (metis Diff_iff insertI1)
  have "\<forall>d'\<in>D. \<not> own_table s d d'"
    using page_inv_parts(5) [OF inv d] by (auto simp: own_table_def)
  then have A: "\<forall>d'\<in>D - {d}. used_page (free_page_dir d s) d'"
    using used page_inv_parts(2) [OF inv] by blast
  have B: "used_page (free_page_dir d s) (table_at s d' i)"
    if "d' \<in> D - {d}" "i < 1024" "pde_present (page_dirs s d' i)" for d' i
    using used [of "table_at s d' i"] not_own [OF that] page_inv_parts(4,5) [OF inv, of d' i] that d by blast
  have H: "heap_inv (free_page_dir d s)" using free_used_page(1) [OF T(1) b(1)] F by simp
  show "page_inv (D - {d}) (free_page_dir d s)"
    unfolding page_inv_def dirs
    using H A B page_inv_parts(3,5) [OF inv] inv [unfolded page_inv_def] by blast
qed

section \<open>New address spaces\<close>

text \<open>What \<open>new_page\<close> puts into a directory: identity mappings that user code cannot use.\<close>

definition kernel_only :: "'a page_t_scheme \<Rightarrow> u32 \<Rightarrow> bool" where
  "kernel_only s d \<longleftrightarrow> (\<forall>n e. n < 2 ^ 20 \<and> pte_of s d n = Some e \<longrightarrow>
     \<not> pte_user e \<and> \<not> pte_rw e \<and> frame_addr (pte_address e) = of_nat n * 0x1000)"

lemma page_no_of_nat: "n < 2 ^ 20 \<Longrightarrow> page_no (of_nat n * 0x1000) = n"
  using page_no_add(1) [of 0 n] by (simp add: page_no_def)

lemma page_of_nat_aligned: "n < 2 ^ 20 \<Longrightarrow> (of_nat n * 0x1000 :: u32) AND NOT 0xFFF = of_nat n * 0x1000"
  using page_no_add(2) [of 0 n] by (intro aligned_id) simp

lemma identity_map_spec:
  assumes "page_inv D s" "d \<in> D" "identity_map d is ok s = (ok', t)" "\<forall>n\<in>set is. n < 2 ^ 20"
    "kernel_only s d"
  shows "page_inv D t \<and> keeps_dir d s t \<and> kernel_only t d \<and> (ok' \<longrightarrow> ok)
    \<and> (\<forall>n < 2 ^ 20. pte_of s d n \<noteq> None \<longrightarrow> pte_of t d n \<noteq> None)
    \<and> (ok' \<longrightarrow> (\<forall>n\<in>set is. pte_of t d n \<noteq> None))
    \<and> (\<forall>d' n. d' \<in> D \<and> d' \<noteq> d \<and> n div 1024 < 1024 \<longrightarrow> pte_of t d' n = pte_of s d' n)"
  using assms
proof (induction d "is" ok s rule: identity_map.induct)
  case (1 dir ok s)
  then show ?case by (auto intro: keeps_dir_refl)
next
  case (2 dir i "is" ok s)
  obtain r s1 where m: "map_page dir (of_nat i * 0x1000) (of_nat i * 0x1000) 0 0 0 s = (r, s1)" by fastforce
  note M = map_page_spec [OF "2.prems"(1,2) m]
  have i: "i < 2 ^ 20" using "2.prems"(4) by simp
  have pn: "page_no (of_nat i * 0x1000) = i" using i by (rule page_no_of_nat)
  have pm: "pte_of s1 dir n = pte_of s dir n" if "n < 2 ^ 20" "n \<noteq> i \<or> \<not> r" for n
  proof (cases r)
    case True
    with that M(5) [OF "2.prems"(2), of n] show ?thesis by (simp add: pn less_mult_imp_div_less)
  qed (use M(2) in simp)
  have ko: "kernel_only s1 dir"
    unfolding kernel_only_def
  proof (intro allI impI)
    fix n e assume n: "n < 2 ^ 20 \<and> pte_of s1 dir n = Some e"
    show "\<not> pte_user e \<and> \<not> pte_rw e \<and> frame_addr (pte_address e) = of_nat n * 0x1000"
    proof (cases "n = i \<and> r")
      case True
      with n M(4) pn page_of_nat_aligned [OF i] show ?thesis by auto
    next
      case False
      with n pm "2.prems"(5) show ?thesis unfolding kernel_only_def by auto
    qed
  qed
  have keep: "pte_of s1 dir n \<noteq> None" if "n < 2 ^ 20" "pte_of s dir n \<noteq> None" for n
    using that pm [of n] M(4) pn by (cases "n = i \<and> r") auto
  have "identity_map dir is (ok \<and> r) s1 = (ok', t)" using "2.prems"(3) m by simp
  with "2.IH" [OF m [symmetric] refl M(1) "2.prems"(2)] "2.prems"(4) ko
  have IH: "page_inv D t \<and> keeps_dir dir s1 t \<and> kernel_only t dir \<and> (ok' \<longrightarrow> ok \<and> r)
    \<and> (\<forall>n < 2 ^ 20. pte_of s1 dir n \<noteq> None \<longrightarrow> pte_of t dir n \<noteq> None)
    \<and> (ok' \<longrightarrow> (\<forall>n\<in>set is. pte_of t dir n \<noteq> None))
    \<and> (\<forall>d' n. d' \<in> D \<and> d' \<noteq> dir \<and> n div 1024 < 1024 \<longrightarrow> pte_of t d' n = pte_of s1 d' n)"
    by auto
  moreover have "keeps_dir dir s s1" using map_page_keeps [OF "2.prems"(1,2)] m by (metis snd_conv)
  moreover have "r \<Longrightarrow> pte_of s1 dir i \<noteq> None" using M(4) pn by auto
  ultimately show ?case
    using keep M(5) i keeps_dir_trans [of dir s s1 t] by auto
qed

definition pte_same_frame :: "page_table_entry_t option \<Rightarrow> page_table_entry_t option \<Rightarrow> bool" where
  "pte_same_frame x y \<longleftrightarrow> rel_option (\<lambda>a b. pte_user a = pte_user b \<and> pte_rw a = pte_rw b
     \<and> pte_address a = pte_address b) x y"

lemma pte_same_frame_refl [simp]: "pte_same_frame x x"
  by (cases x) (auto simp: pte_same_frame_def)

lemma pte_same_frame_trans: "pte_same_frame x y \<Longrightarrow> pte_same_frame y z \<Longrightarrow> pte_same_frame x z"
  by (cases x; cases y; cases z) (auto simp: pte_same_frame_def)

lemma memtype_loop_spec:
  assumes "page_inv D s" "d \<in> D" "page_set_memtype_loop d v is p s = (ok, t)"
  shows "page_inv D t \<and> page_dirs t = page_dirs s \<and> memory_status t = memory_status s
    \<and> (\<forall>n < 2 ^ 20. pte_same_frame (pte_of t d n) (pte_of s d n))
    \<and> (\<forall>d' n. d' \<in> D \<and> d' \<noteq> d \<and> n div 1024 < 1024 \<longrightarrow> pte_of t d' n = pte_of s d' n)"
  using assms
proof (induction d v "is" p s rule: page_set_memtype_loop.induct)
  case (1 dir v p s)
  then show ?case by (auto)
next
  case (2 dir v i "is" p s)
  let ?va = "v + of_nat i * 0x1000"
  let ?i = "page_no ?va div 1024" and ?j = "page_no ?va mod 1024"
  let ?x = "(page_tables s (table_at s dir ?i) ?j)\<lparr>pte_w_through := bit p 0, pte_no_cache := bit p 1, pte_pat := bit p 2\<rparr>"
  let ?s = "set_pte (table_at s dir ?i) ?j ?x s"
  show ?case
  proof (cases "pde_present (page_dirs s dir ?i)")
    case False
    with "2.prems" show ?thesis by (auto simp: page_no_def Let_def)
  next
    case True
    with page_inv_parts(3) [OF "2.prems"(1,2) page_no_less] have ad: "pde_address (page_dirs s dir ?i) \<noteq> 0" .
    have r: "page_set_memtype_loop dir v is p ?s = (ok, t)"
      using "2.prems"(3) True ad by (simp add: page_no_def Let_def)
    have IH: "page_inv D t \<and> page_dirs t = page_dirs ?s \<and> memory_status t = memory_status ?s
      \<and> (\<forall>n < 2 ^ 20. pte_same_frame (pte_of t dir n) (pte_of ?s dir n))
      \<and> (\<forall>d' n. d' \<in> D \<and> d' \<noteq> dir \<and> n div 1024 < 1024 \<longrightarrow> pte_of t d' n = pte_of ?s d' n)"
      using "2.IH" True ad "2.prems" r by (simp add: page_no_def Let_def)
    note S = pte_of_set_pte [OF "2.prems"(1,2) page_no_less True, where e = ?x]
    have C: "pte_same_frame (pte_of ?s dir n) (pte_of s dir n)" if "n < 2 ^ 20" for n
      using S [OF "2.prems"(2), of n] that True
      by (auto simp: less_mult_imp_div_less pte_of_def pte_same_frame_def)
    have "pte_same_frame (pte_of t dir n) (pte_of s dir n)" if "n < 2 ^ 20" for n
      using IH C [OF that] that pte_same_frame_trans by blast
    moreover have "pte_of t d' n = pte_of s d' n" if "d' \<in> D" "d' \<noteq> dir" "n div 1024 < 1024" for d' n
      using IH S [OF that(1) that(3)] that by simp
    moreover have "page_dirs t = page_dirs s" "memory_status t = memory_status s" "page_inv D t"
      using IH by simp_all
    ultimately show ?thesis by blast
  qed
qed

lemma map_size_aligned:
  assumes "unat pa mod 4096 = 0" "unat pa + n * 4096 < 2 ^ 32" "unat va mod 4096 = 0"
  shows "map_size d pa va (of_nat n * 0x1000) user rw nc s =
    map_loop d (map (\<lambda>i. (pa + of_nat i * 0x1000, va + of_nat i * 0x1000)) [0..<n]) user rw nc 0 s"
  unfolding map_size_def Let_def page_align_down_id [OF assms(1)] page_align_down_id [OF assms(3)]
    page_align_up_add [OF assms(1,2)] page_range_aligned [OF assms(1,2)]
  by (simp add: zip_map_map zip_same_conv_map comp_def)

lemma unmap_size_aligned:
  assumes "unat va mod 4096 = 0" "unat va + n * 4096 < 2 ^ 32"
  shows "unmap_size d va (of_nat n * 0x1000) s = unmap_loop d (map (\<lambda>i. va + of_nat i * 0x1000) [0..<n]) 0 s"
  unfolding unmap_size_def Let_def page_align_down_id [OF assms(1)] page_align_up_add [OF assms]
    page_range_aligned [OF assms] ..

text \<open>The pages a range of \<open>n\<close> pages from \<open>va\<close> covers.\<close>

definition in_pages :: "u32 \<Rightarrow> nat \<Rightarrow> u32 \<Rightarrow> bool" where
  "in_pages va n v \<longleftrightarrow> page_no va \<le> page_no v \<and> page_no v < page_no va + n"

lemma map_size_spec:
  assumes inv: "page_inv D s" "d \<in> D"
    and pa: "unat pa mod 4096 = 0" "unat pa + n * 4096 < 2 ^ 32"
    and va: "unat va mod 4096 = 0" "unat va + n * 4096 < 2 ^ 32"
    and r: "map_size d pa va (of_nat n * 0x1000) user rw nc s = (m, t)"
  shows "page_inv D t \<and> (\<exists>k\<le>n. m = int k
    \<and> (\<forall>i<k. \<exists>e. pte_of t d (page_no va + i) = Some e \<and> frame_addr (pte_address e) = pa + of_nat i * 0x1000
         \<and> pte_rw e = odd rw \<and> pte_user e = odd user \<and> pte_no_cache e = odd nc)
    \<and> (\<forall>d' j. d' \<in> D \<and> j div 1024 < 1024 \<and> \<not> (d' = d \<and> page_no va \<le> j \<and> j < page_no va + k)
         \<longrightarrow> pte_of t d' j = pte_of s d' j))"
proof -
  let ?f = "\<lambda>i. (pa + of_nat i * 0x1000, va + of_nat i * 0x1000)"
  let ?ps = "map ?f [0..<n]"
  have pn: "page_no (snd (?f i)) = page_no va + i" if "i < n" for i
    using page_no_add(1) [of va i] va that by simp
  have d: "distinct (map (\<lambda>p. page_no (snd p)) ?ps)"
    using page_no_add(1) [of va] va by (auto simp: distinct_map inj_on_def)
  have al: "(pa + of_nat i * 0x1000) AND NOT 0xFFF = pa + of_nat i * 0x1000" if "i < n" for i
    by (rule aligned_id) (use page_no_add(2) [of pa i] pa that in simp)
  from map_loop_spec [OF inv r [unfolded map_size_aligned [OF pa va(1)]] d]
  obtain k where k: "page_inv D t" "k \<le> n" "m = int k"
    "\<forall>p \<in> set (take k ?ps). \<exists>e. pte_of t d (page_no (snd p)) = Some e
         \<and> frame_addr (pte_address e) = fst p AND NOT 0xFFF
         \<and> pte_rw e = odd rw \<and> pte_user e = odd user \<and> pte_no_cache e = odd nc"
    "\<forall>d' j. d' \<in> D \<and> j div 1024 < 1024 \<and> \<not> (d' = d \<and> j \<in> (\<lambda>p. page_no (snd p)) ` set (take k ?ps))
         \<longrightarrow> pte_of t d' j = pte_of s d' j" by auto
  have tk: "take k ?ps = map ?f [0..<k]" using k(2) by (simp add: take_map min_def)
  have im: "(\<lambda>p. page_no (snd p)) ` set (take k ?ps) = {page_no va..<page_no va + k}"
  proof -
    have "(\<lambda>p. page_no (snd p)) ` set (take k ?ps) = (\<lambda>i. page_no va + i) ` {0..<k}"
      unfolding tk using pn k(2) by (auto simp: image_image intro!: image_cong)
    then show ?thesis by (simp add: add.commute)
  qed
  have "\<exists>e. pte_of t d (page_no va + i) = Some e \<and> frame_addr (pte_address e) = pa + of_nat i * 0x1000
         \<and> pte_rw e = odd rw \<and> pte_user e = odd user \<and> pte_no_cache e = odd nc" if "i < k" for i
  proof -
    have "?f i \<in> set (take k ?ps)" unfolding tk using that by auto
    from bspec [OF k(4) this] pn [of i] al [of i] that k(2) show ?thesis by simp
  qed
  moreover have "\<forall>d' j. d' \<in> D \<and> j div 1024 < 1024 \<and> \<not> (d' = d \<and> page_no va \<le> j \<and> j < page_no va + k)
         \<longrightarrow> pte_of t d' j = pte_of s d' j" using k(5) unfolding im by simp
  ultimately show ?thesis using k(1-3) by blast
qed

lemma unmap_size_spec:
  assumes inv: "page_inv D s" "d \<in> D"
    and va: "unat va mod 4096 = 0" "unat va + n * 4096 < 2 ^ 32"
    and r: "unmap_size d va (of_nat n * 0x1000) s = (m, t)"
  shows "page_inv D t \<and> memory_status t = memory_status s
    \<and> (\<forall>d' j. d' \<in> D \<and> j div 1024 < 1024 \<longrightarrow> pte_of t d' j =
        (if d' = d \<and> page_no va \<le> j \<and> j < page_no va + n then None else pte_of s d' j))"
proof -
  let ?vs = "map (\<lambda>i. va + of_nat i * 0x1000) [0..<n]"
  have d: "distinct (map page_no ?vs)" unfolding page_nos_range [OF va] by (simp add: distinct_map)
  have "page_no ` set ?vs = set (map page_no ?vs)" by (simp only: set_map)
  also have "\<dots> = {page_no va..<page_no va + n}"
    unfolding page_nos_range [OF va] by (simp add: add.commute)
  finally have "page_no ` set ?vs = {page_no va..<page_no va + n}" .
  with unmap_loop_spec [OF inv r [unfolded unmap_size_aligned [OF va]] d] show ?thesis by auto
qed

section \<open>A new address space\<close>

lemma page_no_split: "of_nat (page_no v) * 0x1000 + (v AND 0xFFF) = v"
proof -
  have v: "unat v < 2 ^ 32" using unsigned_less [of v, where ?'a = nat] by simp
  then have "unat (of_nat (unat v div 4096) :: u32) = unat v div 4096" by (intro unat_of_nat_u32) simp
  moreover from v have "unat v div 4096 * 4096 mod 4294967296 = unat v div 4096 * 4096"
    "unat v mod 4294967296 = unat v" by auto
  ultimately show ?thesis
    by (simp add: word_unat_eq_iff page_no_def mask_12 unat_word_ariths unsigned_take_bit_eq
        flip: take_bit_eq_mask) (simp add: take_bit_eq_mod)
qed

lemma malloc_null_state:
  assumes "heap_inv s" "fst (malloc 4096 s) = 0"
  shows "snd (malloc 4096 s) = s"
  using assms by (intro kheap.alloc_fail) (simp_all add: valid_size_def)

lemma kernel_only_memtype:
  assumes "kernel_only s d" "\<forall>n < 2 ^ 20. pte_same_frame (pte_of t d n) (pte_of s d n)"
  shows "kernel_only t d"
  unfolding kernel_only_def
proof (intro allI impI)
  fix n e assume n: "n < 2 ^ 20 \<and> pte_of t d n = Some e"
  with assms(2) have "pte_same_frame (Some e) (pte_of s d n)" by metis
  then obtain e' where "pte_of s d n = Some e'" "pte_user e = pte_user e'" "pte_rw e = pte_rw e'"
    "pte_address e = pte_address e'" by (auto simp: pte_same_frame_def option_rel_Some1)
  with assms(1) n show "\<not> pte_user e \<and> \<not> pte_rw e \<and> frame_addr (pte_address e) = of_nat n * 0x1000"
    unfolding kernel_only_def by auto
qed

lemma pte_same_frame_None: "pte_same_frame x y \<Longrightarrow> x \<noteq> None \<longleftrightarrow> y \<noteq> None"
  by (cases x; cases y) (simp_all add: pte_same_frame_def)

text \<open>The steps that build an address space, as one relation that chains.\<close>

definition dir_grows :: "u32 set \<Rightarrow> u32 \<Rightarrow> 'a page_t_scheme \<Rightarrow> 'a page_t_scheme \<Rightarrow> bool" where
  "dir_grows D d s t \<longleftrightarrow> page_inv D t \<and> keeps_dir d s t \<and> kernel_only t d
     \<and> (\<forall>n < 2 ^ 20. pte_of s d n \<noteq> None \<longrightarrow> pte_of t d n \<noteq> None)
     \<and> (\<forall>d' n. d' \<in> D \<and> d' \<noteq> d \<and> n div 1024 < 1024 \<longrightarrow> pte_of t d' n = pte_of s d' n)"

lemma dir_grows_trans: "dir_grows D d s t \<Longrightarrow> dir_grows D d t u \<Longrightarrow> dir_grows D d s u"
  unfolding dir_grows_def using keeps_dir_trans [of d s t u] by simp

lemma identity_map_grows:
  assumes "page_inv D s" "d \<in> D" "kernel_only s d" "identity_map d is ok s = (ok', t)" "\<forall>n\<in>set is. n < 2 ^ 20"
  shows "dir_grows D d s t" "ok' \<longrightarrow> ok" "ok' \<longrightarrow> (\<forall>n\<in>set is. pte_of t d n \<noteq> None)"
  using identity_map_spec [OF assms(1,2,4,5,3)] unfolding dir_grows_def by blast+

lemma memtype_grows:
  assumes "page_inv D s" "d \<in> D" "kernel_only s d"
  shows "dir_grows D d s (snd (page_set_memtype d v sz p s))"
proof (cases "pat_enabled s")
  case False
  with assms keeps_dir_refl show ?thesis by (auto simp: page_set_memtype_def dir_grows_def)
next
  case True
  obtain ok t where r: "page_set_memtype_loop d v [0..<unat (sz + 0xFFF) div 0x1000] p s = (ok, t)" by fastforce
  note M = memtype_loop_spec [OF assms(1,2) r]
  then have "\<forall>n < 2 ^ 20. pte_same_frame (pte_of t d n) (pte_of s d n)" by blast
  then have "\<forall>n < 2 ^ 20. pte_of s d n \<noteq> None \<longrightarrow> pte_of t d n \<noteq> None" "kernel_only t d"
    using pte_same_frame_None kernel_only_memtype [OF assms(3)] by blast+
  moreover have "keeps_dir d s t" using M keeps_dir_cong [OF keeps_dir_refl [OF assms(1,2)]] by metis
  ultimately show ?thesis using M True r by (simp add: dir_grows_def page_set_memtype_def)
qed

text \<open>The pages every address space has: kernel, kernel heap and framebuffer.\<close>

definition kernel_pages :: "u32 \<Rightarrow> u32 \<Rightarrow> nat set" where
  "kernel_pages fb fb_size = {0x1000..<0x3060} \<union> {unat fb div 0x1000..<unat (fb + fb_size + 0xFFF) div 0x1000}"

lemma new_page_start:
  fixes s :: "'a page_t_scheme"
  assumes inv: "page_inv D s" and nz: "fst (malloc 4096 s) \<noteq> 0"
  defines "dir \<equiv> fst (malloc 4096 s)" and "s1 \<equiv> snd (malloc 4096 s)"
  defines "s2 \<equiv> s1\<lparr>page_dirs := (page_dirs s1)(dir := (\<lambda>_. zero_pde))\<rparr>"
  shows "page_inv (insert dir D) s2" "kernel_only s2 dir" "dir \<notin> D" "\<not> used_page s dir"
    "\<And>p. used_page s2 p \<longleftrightarrow> p = dir \<or> used_page s p"
    "\<And>d n. d \<in> D \<Longrightarrow> pte_of s2 d n = pte_of s d n"
proof -
  obtain b where b: "dir = block_addr b" "\<not> used_page s (block_addr b)"
    "\<And>p. used_page s1 p \<longleftrightarrow> p = block_addr b \<or> used_page s p" "heap_inv s1"
    using malloc_new_page [OF page_inv_parts(1) [OF inv] nz] unfolding dir_def s1_def by metis
  show nD: "dir \<notin> D" and nu: "\<not> used_page s dir" using b(1,2) page_inv_parts(2) [OF inv] by auto
  show u: "used_page s2 p \<longleftrightarrow> p = dir \<or> used_page s p" for p
    using b(1) b(3) [of p] by (simp add: used_page_def s2_def)
  have d: "page_dirs s2 d = (if d = dir then (\<lambda>_. zero_pde) else page_dirs s d)" for d
    by (simp add: s2_def s1_def)
  have "heap_inv s2" using b(4) heap_inv_cong [of s2 s1] by (simp add: s2_def)
  then show "page_inv (insert dir D) s2"
    using inv nD nu unfolding page_inv_def u d by (auto simp: zero_pde_def)
  show "kernel_only s2 dir" by (simp add: kernel_only_def pte_of_def d zero_pde_def)
  show "pte_of s2 d n = pte_of s d n" if "d \<in> D" for d n
    using that nD by (auto simp: pte_of_def d) (simp_all add: s2_def s1_def)
qed

lemma new_page_spec:
  fixes s :: "'a page_t_scheme"
  assumes inv: "page_inv D s" and nz: "fst (malloc 4096 s) \<noteq> 0" and r: "new_page fb fb_size s = (res, t)"
  defines "dir \<equiv> fst (malloc 4096 s)"
  obtains u ok s2 where "page_inv (insert dir D) s2" "\<And>p. used_page s2 p \<longleftrightarrow> p = dir \<or> used_page s p"
    "\<And>d n. d \<in> D \<Longrightarrow> pte_of s2 d n = pte_of s d n" "dir \<notin> D" "\<not> used_page s dir"
    "dir_grows (insert dir D) dir s2 u" "ok \<longrightarrow> (\<forall>n\<in>kernel_pages fb fb_size. pte_of u dir n \<noteq> None)"
    "(res, t) = (if ok then (dir, u) else (0, free_page_dir dir u))"
    "\<And>i. \<not> pde_present (page_dirs s2 dir i)"
proof -
  let ?s1 = "snd (malloc 4096 s)"
  define s2 where "s2 = ?s1\<lparr>page_dirs := (page_dirs ?s1)(dir := (\<lambda>_. zero_pde))\<rparr>"
  note N = new_page_start [OF inv nz, folded dir_def, folded s2_def]
  let ?fb = "[unat fb div 0x1000..<unat (fb + fb_size + 0xFFF) div 0x1000]"
  define ks where "ks = [0x1000..<(0x1060::nat)]"
  define hs where "hs = [0x1060..<(0x3060::nat)]"
  have le: "\<forall>n\<in>set ks. n < 2 ^ 20" "\<forall>n\<in>set hs. n < 2 ^ 20"
    unfolding ks_def hs_def set_upt by auto
  have fb: "\<forall>n\<in>set ?fb. n < 2 ^ 20"
    using unsigned_less [of "fb + fb_size + 0xFFF", where ?'a = nat] by (auto simp: div_less_iff_less_mult)
  obtain ok3 s3 where 3: "identity_map dir ks True s2 = (ok3, s3)" by fastforce
  note I3 = identity_map_grows [OF N(1) insertI1 N(2) 3 le(1)]
  obtain ok4 s4 where 4: "identity_map dir hs ok3 s3 = (ok4, s4)" by fastforce
  have J3: "page_inv (insert dir D) s3" "kernel_only s3 dir" using I3 by (auto simp: dir_grows_def)
  note I4 = identity_map_grows [OF J3(1) insertI1 J3(2) 4 le(2)]
  obtain ok5 s5 where 5: "identity_map dir ?fb ok4 s4 = (ok5, s5)" by fastforce
  have J4: "page_inv (insert dir D) s4" "kernel_only s4 dir" using I4 by (auto simp: dir_grows_def)
  note I5 = identity_map_grows [OF J4(1) insertI1 J4(2) 5 fb]
  have J5: "page_inv (insert dir D) s5" "kernel_only s5 dir" using I5 by (auto simp: dir_grows_def)
  define u where "u = snd (page_set_memtype dir fb fb_size 1 s5)"
  note I6 = memtype_grows [OF J5(1) insertI1 J5(2), of fb fb_size 1, folded u_def]
  have g: "dir_grows (insert dir D) dir s3 u" "dir_grows (insert dir D) dir s4 u"
    using dir_grows_trans [OF I5(1) I6] dir_grows_trans [OF I4(1)] by auto
  have "dir_grows (insert dir D) dir s2 u" by (rule dir_grows_trans [OF I3(1) g(1)])
  moreover have "ok5 \<longrightarrow> (\<forall>n\<in>kernel_pages fb fb_size. pte_of u dir n \<noteq> None)"
    proof (intro impI ballI)
    fix n assume ok: ok5 and n: "n \<in> kernel_pages fb fb_size"
    then have ok4 ok3 using I4(2) I5(2) by auto
    from n consider "n \<in> set ks" | "n \<in> set hs" | "n \<in> set ?fb"
      unfolding kernel_pages_def set_upt ks_def hs_def by fastforce
    then show "pte_of u dir n \<noteq> None"
    proof cases
      case 1
      with I3(3) \<open>ok3\<close> g(1) le(1) show ?thesis unfolding dir_grows_def by blast
    next
      case 2
      with I4(3) \<open>ok4\<close> g(2) le(2) show ?thesis unfolding dir_grows_def by blast
    next
      case 3
      with I5(3) ok I6 fb show ?thesis unfolding dir_grows_def by blast
    qed
  qed
  moreover have "(res, t) = (if ok5 then (dir, u) else (0, free_page_dir dir u))"
  proof -
    obtain s1 where m: "malloc 4096 s = (dir, s1)" unfolding dir_def by (metis prod.collapse)
    have "s2 = s1\<lparr>page_dirs := (page_dirs s1)(dir := (\<lambda>_. zero_pde))\<rparr>" "dir \<noteq> 0"
      using nz m unfolding s2_def by simp_all
    then show ?thesis using r 3 4 5 m unfolding new_page_def u_def
      unfolding ks_def [symmetric] hs_def [symmetric] by (auto simp add: Let_def split: if_splits)
  qed
  moreover have "\<not> pde_present (page_dirs s2 dir i)" for i by (simp add: s2_def zero_pde_def)
  ultimately show ?thesis using that N by blast
qed

lemma new_page_translation:
  assumes "kernel_only u d"
  shows "page_checkmapping d v u \<in> {PAGE_NOTPRESENT, PAGE_KERNELREAD}"
    "pte_of u d (page_no v) \<noteq> None \<Longrightarrow> page_getphysical d v u = v"
proof -
  have n: "page_no v < 2 ^ 20" using page_no_less [of v] by simp
  have v: "of_nat (page_no v) * 0x1000 + (v AND 0xFFF) = v" by (rule page_no_split)
  show "page_checkmapping d v u \<in> {PAGE_NOTPRESENT, PAGE_KERNELREAD}"
    "pte_of u d (page_no v) \<noteq> None \<Longrightarrow> page_getphysical d v u = v"
    using assms n v unfolding kernel_only_def page_getphysical_pte page_checkmapping_pte
    by (auto split: option.splits)
qed

section \<open>Properties\<close>

text \<open>
  C4: a successful \<open>map\<close> makes every address of the virtual page translate to the same
  offset of the physical page, with exactly the access the caller asked for, and changes the
  translation of no other page of that directory and of no page of any other directory; a failed one
  changes no translation at all. Both keep the structure of the directories and tables sound.
\<close>

theorem map_page_isolated:
  assumes "page_inv D s" and "d \<in> D" and "map_page d pa va user rw nc s = (ok, t)"
  shows "page_inv D t
    \<and> (ok \<longrightarrow> (\<forall>v. page_no v = page_no va \<longrightarrow>
         page_getphysical d v t = (pa AND NOT 0xFFF) + (v AND 0xFFF)
         \<and> page_checkmapping d v t = (if odd user then (if odd rw then PAGE_USERRW else PAGE_USERREAD)
              else (if odd rw then PAGE_KERNELRW else PAGE_KERNELREAD))))
    \<and> (\<forall>d' v. d' \<in> D \<and> (d' \<noteq> d \<or> page_no v \<noteq> page_no va \<or> \<not> ok) \<longrightarrow>
         page_getphysical d' v t = page_getphysical d' v s
         \<and> page_checkmapping d' v t = page_checkmapping d' v s)"
proof -
  note M = map_page_spec [OF assms]
  have other: "page_getphysical d' v t = page_getphysical d' v s
      \<and> page_checkmapping d' v t = page_checkmapping d' v s"
    if "d' \<in> D" "d' \<noteq> d \<or> page_no v \<noteq> page_no va \<or> \<not> ok" for d' v
  proof -
    have "pte_of t d' (page_no v) = pte_of s d' (page_no v)"
      using that M(2) M(5) [OF that(1) page_no_less, of v] by (cases ok) auto
    then show ?thesis by (simp add: page_getphysical_pte page_checkmapping_pte)
  qed
  have "page_getphysical d v t = (pa AND NOT 0xFFF) + (v AND 0xFFF)
         \<and> page_checkmapping d v t = (if odd user then (if odd rw then PAGE_USERRW else PAGE_USERREAD)
              else (if odd rw then PAGE_KERNELRW else PAGE_KERNELREAD))"
    if "ok" "page_no v = page_no va" for v
    using M(4) [OF that(1)] that(2) by (auto simp: page_getphysical_pte page_checkmapping_pte)
  with other M(1) show ?thesis by blast
qed

text \<open>A state with one empty page directory, at the first block of the heap.\<close>

definition one_dir :: page_t where
  "one_dir = \<lparr>heap_head = block_addr 1, memory_status = (\<lambda>b. b = 0),
     page_dirs = (\<lambda>_ _. zero_pde), page_tables = (\<lambda>_ _. zero_pte),
     kernel_page_dir = block_addr 0, current_page_dir = 0, pat_enabled = False, invlpg_log = []\<rparr>"

lemma one_dir_inv: "page_inv {block_addr 0} one_dir"
  by (auto simp: page_inv_def one_dir_def heap_inv_def used_page_def zero_pde_def intro!: exI [of _ 1])

lemma one_dir_malloc: "fst (malloc 4096 one_dir) \<noteq> 0"
proof (rule malloc_nonnull)
  show "heap_inv one_dir" using one_dir_inv by (simp add: page_inv_def)
  show "valid_size 4096" by (simp add: valid_size_def)
  show "has_run (memory_status one_dir) (nblocks 4096)"
    by (auto simp: has_run_def free_run_def one_dir_def nblocks_def intro!: exI [of _ 1])
qed

lemma one_dir_map: "fst (map_page (block_addr 0) pa va 1 1 0 one_dir)"
proof -
  have "block_addr 0 \<noteq> 0" by (rule block_addr_neq_0) simp
  moreover have "fst (map_ensure_table (block_addr 0) (unat va div 0x1000 div 1024) one_dir)"
    using one_dir_malloc by (simp add: map_ensure_table_def Let_def split_beta)
  ultimately show ?thesis
    by (auto simp: map_page_def Let_def split: prod.splits bool.splits)
qed

theorem map_page_isolated_witness:
  "page_getphysical (block_addr 0) 0x8000123
     (snd (map_page (block_addr 0) 0x2000000 0x8000000 1 1 0 one_dir)) = 0x2000123
   \<and> page_checkmapping (block_addr 0) 0x9000000
     (snd (map_page (block_addr 0) 0x2000000 0x8000000 1 1 0 one_dir)) = 0"
proof -
  let ?r = "map_page (block_addr 0) 0x2000000 0x8000000 1 1 0 one_dir"
  obtain t where r: "?r = (True, t)" using one_dir_map by (metis (full_types) prod.collapse)
  have "page_checkmapping (block_addr 0) 0x9000000 one_dir = 0"
    by (simp add: page_checkmapping_def one_dir_def zero_pde_def)
  with map_page_isolated [OF one_dir_inv _ r] r show ?thesis by (simp add: page_no_def)
qed

text \<open>
  Mapping and then unmapping a range. \<open>map_size\<close> on \<open>n\<close> aligned pages reports how many
  pages it mapped; exactly those translate page by page to the physical range with the requested
  access, and no other translation of any directory has changed. \<open>unmap_size\<close> of the range then
  leaves every page of it absent and every other page of every directory as it was before both calls.
\<close>

theorem map_unmap_size:
  assumes "page_inv D s" and "d \<in> D"
    and "unat pa mod 4096 = 0" and "unat pa + n * 4096 < 2 ^ 32"
    and "unat va mod 4096 = 0" and "unat va + n * 4096 < 2 ^ 32"
    and "map_size d pa va (of_nat n * 0x1000) user rw nc s = (m, t)"
    and "unmap_size d va (of_nat n * 0x1000) t = (m', u)"
  shows "page_inv D t \<and> page_inv D u \<and> (\<exists>k\<le>n. m = int k
    \<and> (\<forall>i<k. \<forall>v. page_no v = page_no va + i \<longrightarrow>
         page_getphysical d v t = pa + of_nat i * 0x1000 + (v AND 0xFFF)
         \<and> page_checkmapping d v t = (if odd user then (if odd rw then PAGE_USERRW else PAGE_USERREAD)
              else (if odd rw then PAGE_KERNELRW else PAGE_KERNELREAD)))
    \<and> (\<forall>d' v. d' \<in> D \<and> \<not> (d' = d \<and> in_pages va k v) \<longrightarrow> page_getphysical d' v t = page_getphysical d' v s
         \<and> page_checkmapping d' v t = page_checkmapping d' v s))
    \<and> (\<forall>d' v. d' \<in> D \<longrightarrow> (if d' = d \<and> in_pages va n v
         then page_getphysical d' v u = - 1 \<and> page_checkmapping d' v u = PAGE_NOTPRESENT
         else page_getphysical d' v u = page_getphysical d' v s
           \<and> page_checkmapping d' v u = page_checkmapping d' v s))"
proof -
  obtain k where k: "page_inv D t" "k \<le> n" "m = int k"
    "\<And>i. i < k \<Longrightarrow> \<exists>e. pte_of t d (page_no va + i) = Some e
       \<and> frame_addr (pte_address e) = pa + of_nat i * 0x1000 \<and> pte_rw e = odd rw \<and> pte_user e = odd user"
    "\<And>d' v. d' \<in> D \<Longrightarrow> \<not> (d' = d \<and> in_pages va k v) \<Longrightarrow> pte_of t d' (page_no v) = pte_of s d' (page_no v)"
    using map_size_spec [OF assms(1-7)] page_no_less unfolding in_pages_def by blast
  note U = unmap_size_spec [OF k(1) assms(2,5,6,8)]
  have u: "pte_of u d' (page_no v) = (if d' = d \<and> in_pages va n v then None else pte_of s d' (page_no v))"
    if "d' \<in> D" for d' v
    using U k(2,5) that page_no_less [of v] by (auto simp: in_pages_def)
  have "\<forall>i<k. \<forall>v. page_no v = page_no va + i \<longrightarrow>
         page_getphysical d v t = pa + of_nat i * 0x1000 + (v AND 0xFFF)
         \<and> page_checkmapping d v t = (if odd user then (if odd rw then PAGE_USERRW else PAGE_USERREAD)
              else (if odd rw then PAGE_KERNELRW else PAGE_KERNELREAD))"
    using k(4) by (fastforce simp: page_getphysical_pte page_checkmapping_pte)
  moreover have "\<forall>d' v. d' \<in> D \<and> \<not> (d' = d \<and> in_pages va k v) \<longrightarrow> page_getphysical d' v t = page_getphysical d' v s
         \<and> page_checkmapping d' v t = page_checkmapping d' v s"
    using k(5) by (simp add: page_getphysical_pte page_checkmapping_pte)
  moreover have "\<forall>d' v. d' \<in> D \<longrightarrow> (if d' = d \<and> in_pages va n v
         then page_getphysical d' v u = - 1 \<and> page_checkmapping d' v u = PAGE_NOTPRESENT
         else page_getphysical d' v u = page_getphysical d' v s
           \<and> page_checkmapping d' v u = page_checkmapping d' v s)"
  proof (intro allI impI)
    fix d' v assume "d' \<in> D"
    from u [OF this, of v] show "if d' = d \<and> in_pages va n v
         then page_getphysical d' v u = - 1 \<and> page_checkmapping d' v u = PAGE_NOTPRESENT
         else page_getphysical d' v u = page_getphysical d' v s
           \<and> page_checkmapping d' v u = page_checkmapping d' v s"
      unfolding page_getphysical_pte page_checkmapping_pte by (cases "d' = d \<and> in_pages va n v") auto
  qed
  ultimately show ?thesis using k(1-3) U by blast
qed

theorem map_unmap_size_witness:
  "page_checkmapping (block_addr 0) 0x8001000 (snd (unmap_size (block_addr 0) 0x8000000 0x3000
     (snd (map_size (block_addr 0) 0x2000000 0x8000000 0x3000 1 1 0 one_dir)))) = PAGE_NOTPRESENT"
proof -
  obtain m t where t: "map_size (block_addr 0) 0x2000000 0x8000000 (of_nat 3 * 0x1000) 1 1 0 one_dir = (m, t)"
    by fastforce
  obtain m' u where u: "unmap_size (block_addr 0) 0x8000000 (of_nat 3 * 0x1000) t = (m', u)" by fastforce
  show ?thesis using map_unmap_size [OF one_dir_inv _ _ _ _ _ t u] t u
    by (simp add: in_pages_def page_no_def)
qed

text \<open>
  C6: \<open>new_page\<close> is all or nothing. When it returns a directory, that directory is new, the
  kernel, the kernel heap and the framebuffer are mapped in it one to one, nothing it maps is accessible
  to user code, and no other address space has changed. When it returns NULL, because the heap ran out
  at any point, every page it had taken is back in the heap and no address space has changed.
\<close>

theorem new_page_complete:
  assumes "page_inv D s" and "new_page fb fb_size s = (dir, t)"
  shows "if dir = 0
    then page_inv D t \<and> used_page t = used_page s
       \<and> (\<forall>d\<in>D. \<forall>v. page_getphysical d v t = page_getphysical d v s
            \<and> page_checkmapping d v t = page_checkmapping d v s)
    else dir \<notin> D \<and> page_inv (insert dir D) t
       \<and> (\<forall>v. page_checkmapping dir v t \<in> {PAGE_NOTPRESENT, PAGE_KERNELREAD})
       \<and> (\<forall>v. page_no v \<in> kernel_pages fb fb_size \<longrightarrow> page_getphysical dir v t = v)
       \<and> (\<forall>d\<in>D. \<forall>v. page_getphysical d v t = page_getphysical d v s
            \<and> page_checkmapping d v t = page_checkmapping d v s)"
proof (cases "fst (malloc 4096 s) = 0")
  case True
  with assms(2) have "dir = 0" "t = snd (malloc 4096 s)" by (simp_all add: new_page_def Let_def split_beta)
  with malloc_null_state [OF page_inv_parts(1) [OF assms(1)] True] assms(1) show ?thesis by simp
next
  case False
  let ?d = "fst (malloc 4096 s)"
  obtain u ok s2 where N: "page_inv (insert ?d D) s2" "\<And>p. used_page s2 p \<longleftrightarrow> p = ?d \<or> used_page s p"
    "\<And>d n. d \<in> D \<Longrightarrow> pte_of s2 d n = pte_of s d n" "?d \<notin> D" "\<not> used_page s ?d"
    "dir_grows (insert ?d D) ?d s2 u" "ok \<longrightarrow> (\<forall>n\<in>kernel_pages fb fb_size. pte_of u ?d n \<noteq> None)"
    "(dir, t) = (if ok then (?d, u) else (0, free_page_dir ?d u))" "\<And>i. \<not> pde_present (page_dirs s2 ?d i)"
    by (rule new_page_spec [OF assms(1) False assms(2)]) (rule that)
  have inv: "page_inv (insert ?d D) u" and ko: "kernel_only u ?d" and kp: "keeps_dir ?d s2 u"
    using N(6) by (simp_all add: dir_grows_def)
  have same: "pte_of u d (page_no v) = pte_of s d (page_no v)" if "d \<in> D" for d v
    using N(3,4,6) that page_no_less unfolding dir_grows_def by (metis insertCI)
  show ?thesis
  proof (cases ok)
    case True
    with N(8) have "dir = ?d" "t = u" by auto
    moreover have "\<forall>v. page_no v \<in> kernel_pages fb fb_size \<longrightarrow> page_getphysical ?d v u = v"
      using new_page_translation(2) [OF ko] N(7) True by blast
    moreover have "\<forall>d\<in>D. \<forall>v. page_getphysical d v u = page_getphysical d v s
            \<and> page_checkmapping d v u = page_checkmapping d v s"
      using same by (simp add: page_getphysical_pte page_checkmapping_pte)
    ultimately show ?thesis using N(4) inv False new_page_translation(1) [OF ko] by simp
  next
    case no: False
    note F = free_page_dir_spec [OF inv insertI1]
    have t: "dir = 0" "t = free_page_dir ?d u" using N(8) no by auto
    have "used_page t p \<longleftrightarrow> used_page s p" for p
    proof -
      have "\<not> own_table s2 ?d p" using N(9) by (simp add: own_table_def)
      with F(4) [of p] kp N(2) [of p] N(5) show ?thesis unfolding t keeps_dir_def by metis
    qed
    then have "used_page t = used_page s" by auto
    moreover have "page_inv D t" using F(1) N(4) t by simp
    moreover have "pte_of t d (page_no v) = pte_of s d (page_no v)" if "d \<in> D" for d v
    proof -
      have "pte_of t d (page_no v) = pte_of u d (page_no v)" unfolding pte_of_def t(2) F(2,3) ..
      with same [OF that, of v] show ?thesis by simp
    qed
    ultimately show ?thesis using t by (simp add: page_getphysical_pte page_checkmapping_pte)
  qed
qed

theorem new_page_complete_witness:
  "page_inv {block_addr 0} one_dir
   \<and> page_checkmapping (block_addr 0) 0x1000000 (snd (new_page 0xFD000000 0x300000 one_dir)) = PAGE_NOTPRESENT"
proof -
  obtain dir t where r: "new_page 0xFD000000 0x300000 one_dir = (dir, t)" by (rule prod.exhaust)
  have "page_checkmapping (block_addr 0) 0x1000000 one_dir = PAGE_NOTPRESENT"
    by (simp add: page_checkmapping_def one_dir_def zero_pde_def)
  with new_page_complete [OF one_dir_inv r] one_dir_inv r show ?thesis by (cases "dir = 0") auto
qed

end
