(* ===== verification/Linked.thy ===== *)
theory Linked
  imports Prelude
begin

text \<open>
  Singly linked lists in C memory. A list is given by its next pointer, a function from a node to the
  next node or \<^const>\<open>None\<close> for NULL, and its first node. \<open>is_list\<close> says which sequence of nodes
  the list has; the lemmas say what the pointer updates the kernel uses (push at the front, append at the
  tail, unlink a node after a search for its predecessor) do to that sequence. The search itself,
  \<open>find_prev\<close>, is the loop the kernel writes at every unlink; it is total on every well-formed list.
\<close>

fun is_list :: "('a \<Rightarrow> 'a option) \<Rightarrow> 'a option \<Rightarrow> 'a list \<Rightarrow> bool" where
  "is_list nx p [] \<longleftrightarrow> p = None"
| "is_list nx p (x # xs) \<longleftrightarrow> p = Some x \<and> is_list nx (nx x) xs"

lemma is_list_None [simp]: "is_list nx None xs \<longleftrightarrow> xs = []"
  by (cases xs) auto

lemma is_list_Some: "is_list nx (Some x) xs \<longleftrightarrow> (\<exists>ys. xs = x # ys \<and> is_list nx (nx x) ys)"
  by (cases xs) auto

lemma is_list_unique: "is_list nx p xs \<Longrightarrow> is_list nx p ys \<Longrightarrow> xs = ys"
  by (induction xs arbitrary: p ys) (auto, metis is_list.elims(2) option.distinct(1) option.sel)

lemma is_list_append: "is_list nx p (xs @ y # ys) \<Longrightarrow> is_list nx (Some y) (y # ys)"
  by (induction xs arbitrary: p) auto

text \<open>A list that ends cannot visit a node twice.\<close>

lemma is_list_distinct: "is_list nx p xs \<Longrightarrow> distinct xs"
proof (induction xs arbitrary: p)
  case Nil
  show ?case by simp
next
  case (Cons x xs)
  have "x \<notin> set xs"
  proof
    assume "x \<in> set xs"
    then obtain us vs where xs: "xs = us @ x # vs" by (meson split_list)
    with Cons.prems have "is_list nx (Some x) (x # vs)" using is_list_append [of nx "nx x" us x vs] by simp
    moreover have "is_list nx (Some x) (x # xs)" using Cons.prems by simp
    ultimately have "vs = xs" using is_list_unique by blast
    with xs show False by (metis append_Cons append_self_conv2 length_append_singleton length_Cons
          add_Suc_right length_append less_add_Suc2 less_irrefl)
  qed
  with Cons show ?case by auto
qed

lemma is_list_cong: "is_list nx p xs \<Longrightarrow> (\<And>x. x \<in> set xs \<Longrightarrow> nx' x = nx x) \<Longrightarrow> is_list nx' p xs"
  by (induction xs arbitrary: p) auto

lemma is_list_upd [simp]: "y \<notin> set xs \<Longrightarrow> is_list (nx(y := q)) p xs = is_list nx p xs"
  by (induction xs arbitrary: p) auto

lemma is_list_push: "is_list nx p xs \<Longrightarrow> y \<notin> set xs \<Longrightarrow> is_list (nx(y := p)) (Some y) (y # xs)"
  by simp

lemma is_list_last:
  "is_list nx p xs \<Longrightarrow> xs \<noteq> [] \<Longrightarrow> nx (last xs) = None"
  by (induction xs arbitrary: p) auto

lemma is_list_snoc:
  assumes "is_list nx p xs" "xs \<noteq> []" "y \<notin> set xs" "nx y = None"
  shows "is_list (nx(last xs := Some y)) p (xs @ [y])"
  using assms
proof (induction xs arbitrary: p)
  case Nil
  then show ?case by simp
next
  case (Cons x xs)
  then have "x \<notin> set xs" using is_list_distinct by fastforce
  with Cons show ?case by (cases "xs = []") auto
qed

text \<open>Unlinking a node, at the front or after its predecessor.\<close>

lemma is_list_unlink:
  assumes "is_list nx p (xs @ y # ys)" "xs \<noteq> []"
  shows "is_list (nx(last xs := nx y)) p (xs @ ys)"
  using assms
proof (induction xs arbitrary: p)
  case Nil
  then show ?case by simp
next
  case (Cons x xs)
  then have d: "distinct (x # xs @ y # ys)" using is_list_distinct by fastforce
  show ?case
  proof (cases "xs = []")
    case True
    have "is_list (nx(x := nx y)) (nx y) ys" using Cons.prems d True by (simp del: fun_upd_apply)
    with Cons.prems True show ?thesis by (simp add: fun_upd_def)
  next
    case False
    with d have "x \<noteq> last xs" using last_in_set by fastforce
    with Cons False show ?thesis by auto
  qed
qed

lemma is_list_split: "is_list nx p (xs @ ys) \<Longrightarrow> is_list nx (if xs = [] then p else nx (last xs)) ys"
  by (induction xs arbitrary: p) (auto split: if_splits)

text \<open>Inserting a node between two parts of a list.\<close>

lemma is_list_insert:
  assumes "is_list nx p (us @ vs)" "us \<noteq> []" "y \<notin> set (us @ vs)"
  shows "is_list ((nx(y := nx (last us)))(last us := Some y)) p (us @ y # vs)"
  using assms
proof (induction us arbitrary: p)
  case Nil
  then show ?case by simp
next
  case (Cons x us)
  then have d: "distinct (x # us @ vs)" using is_list_distinct by fastforce
  show ?case
  proof (cases "us = []")
    case True
    have "is_list ((nx(y := nx x))(x := Some y)) (nx x) vs" using Cons.prems d True by (simp del: fun_upd_apply)
    with Cons.prems True show ?thesis by (auto simp: fun_upd_def)
  next
    case False
    with d have "x \<noteq> last us" "x \<noteq> y" using last_in_set Cons.prems(3) by fastforce+
    with Cons False show ?thesis by auto
  qed
qed

text \<open>
  The search loop \<open>prev = NULL; cur = head; while(cur && cur != x) { prev = cur; cur = cur->next; }\<close>.
  It may not end on a cyclic list: no result is \<^const>\<open>None\<close>.
\<close>

partial_function (option) find_prev ::
    "('a \<Rightarrow> 'a option) \<Rightarrow> 'a \<Rightarrow> 'a option \<Rightarrow> 'a option \<Rightarrow> ('a option \<times> 'a option) option" where
  "find_prev nx x prev cur =
     (case cur of None \<Rightarrow> Some (prev, None)
      | Some c \<Rightarrow> if c = x then Some (prev, Some c) else find_prev nx x (Some c) (nx c))"

lemma find_prev_absent:
  "is_list nx p xs \<Longrightarrow> x \<notin> set xs \<Longrightarrow>
     find_prev nx x prev p = Some (if xs = [] then prev else Some (last xs), None)"
proof (induction xs arbitrary: p prev)
  case Nil
  then show ?case by (subst find_prev.simps) simp
next
  case (Cons y ys)
  then show ?case by (subst find_prev.simps) auto
qed

lemma find_prev_found:
  "is_list nx p (xs @ x # ys) \<Longrightarrow> x \<notin> set xs \<Longrightarrow>
     find_prev nx x prev p = Some (if xs = [] then prev else Some (last xs), Some x)"
proof (induction xs arbitrary: p prev)
  case Nil
  then show ?case by (subst find_prev.simps) simp
next
  case (Cons y ys)
  then show ?case by (subst find_prev.simps) auto
qed

end
