(* ===== verification/Kstate.thy ===== *)
theory Kstate
  imports Kqueue Paging Linked
begin

text \<open>
  The state of the kernel above paging: kernel objects, processes and tasks (\<open>kobj.h\<close>,
  \<open>tasks.h\<close>, \<open>ksync.h\<close>, \<open>shared.h\<close>, \<open>dma.h\<close>, \<open>registers_t.h\<close>). A structure
  that \<open>malloc\<close> returns is a function of its address, with address 0 for NULL; a task is its index
  in \<open>tasks[]\<close>; a mutex is the address of the structure it is embedded in. The record extends the
  state of paging, which extends the state of the heap, so every operation of those components applies
  to it as it is.
\<close>

section \<open>Kernel objects\<close>

datatype kobj_type_t = KOBJ_DMA | KOBJ_PCI | KOBJ_SHARED | KOBJ_FILE | KOBJ_NONE

record kobj_inst_t =
  ki_uid :: u32
  ki_type :: kobj_type_t
  ki_data :: u32
  ki_ref_count :: int
  ki_handle_count :: int
  ki_stopped :: bool

record kobj_ref_t =
  kr_uid :: u32
  kr_inst :: u32
  kr_data :: u32
  kr_rights :: u32

record kobj_mapping_t =
  km_paddr :: u32
  km_size :: u32
  km_no_cache :: bool

text \<open>The private data of shared memory and DMA objects: \<open>shared_block_t\<close> and \<open>dma_t\<close>.\<close>

record shared_block_t =
  sb_size :: u32
  sb_paddr :: u32

record vm_region_t =
  vr_vaddr :: u32
  vr_inst :: u32
  vr_size :: u32
  vr_flags :: u32
  vr_next :: u32

text \<open>
  A PCI device: the fields of \<open>pci_device_t\<close> that are used, and the registers of its configuration
  space behind them (command, BAR1, and the size mask BAR1 answers a probe with).
\<close>

record pci_device_t =
  pd_vendor :: u16
  pd_device :: u16
  pd_inst :: u32
  pd_bar1 :: u32
  pd_bar1_size :: u32
  pd_hw_cmd :: u32
  pd_hw_bar1 :: u32
  pd_hw_mask :: u32

section \<open>Open files and pipes\<close>

record fs_file_data_t =
  fd_file_size :: u32
  fd_first_cluster :: u32

record fs_pipe_t =
  pp_buf :: "u8 list"
  pp_read_pos :: nat
  pp_write_pos :: nat
  pp_size :: nat
  pp_writer_count :: int
  pp_ref_count :: int
  pp_read_waiting_task :: int
  pp_write_waiting_task :: int
  pp_read_waiting_uid :: u32
  pp_write_waiting_uid :: u32
  pp_read_buf :: u32
  pp_read_size :: nat
  pp_write_buf :: u32
  pp_write_size :: nat

datatype fs_type_t = FS_TYPE_FILE | FS_TYPE_DIR | FS_TYPE_TERM | FS_TYPE_PIPE

record fs_file_t =
  ff_filename :: "u8 list"
  ff_flags :: u32
  ff_type :: fs_type_t
  ff_window_index :: int
  ff_window_uid :: u32
  ff_current_pos :: u32
  ff_data :: u32
  ff_pipe :: u32

section \<open>Processes\<close>

record process_t =
  pr_uid :: u32
  pr_prog_start :: u32
  pr_prog_entry :: u32
  pr_prog_size :: u32
  pr_privileged :: bool
  pr_page_dir :: u32
  pr_kobj :: "nat \<Rightarrow> u32"
  pr_kobj_count :: int
  pr_regions :: u32
  pr_stdio :: "nat \<Rightarrow> int"
  pr_no_allocated :: int
  pr_heap_start :: u32
  pr_heap_end :: u32

section \<open>Tasks\<close>

datatype task_event_type_t =
  E_NONE | E_DRAGGED | E_CLICK | E_RELEASE | E_RIGHTCLICK | E_KEYPRESS | E_KEYRELEASE | E_HOVER
| E_SCROLL | E_RESIZE | E_CLOSE | E_CHECKCMD | E_MOUSEOUT | E_MSG | E_EVENT

record task_event_t =
  ev_type :: task_event_type_t
  ev_addr :: u32
  ev_args :: "u32 list"
  ev_argc :: nat

datatype task_pause_reason_t =
  PAUSE_NONE | PAUSE_SNOOZE | PAUSE_LAUNCH | PAUSE_READ | PAUSE_SLEEP | PAUSE_FUTEX | PAUSE_ESCALATE
| PAUSE_MSG_WRITE | PAUSE_CRASH | PAUSE_MSG_CALL | PAUSE_MSG_RECEIVE | PAUSE_KSYNC | PAUSE_KTHREAD

record registers_t =
  r_ds :: u32   r_edi :: u32  r_esi :: u32  r_ebp :: u32  r_esp :: u32
  r_ebx :: u32  r_edx :: u32  r_ecx :: u32  r_eax :: u32  r_err_code :: u32
  r_eip :: u32  r_cs :: u32   r_eflags :: u32  r_useresp :: u32  r_ss :: u32

record task_state_t =
  ts_enabled :: bool
  ts_reserved :: bool
  ts_paused :: bool
  ts_pause_reason :: task_pause_reason_t
  ts_wake_pending :: bool
  ts_crashed :: bool
  ts_kill_pending :: bool
  ts_task_uid :: u32
  ts_kernel_stack_top :: u32
  ts_kernel_esp :: u32
  ts_registers :: registers_t
  ts_routine_return_regs :: registers_t
  ts_checkcmd_buffer :: u32
  ts_routine :: task_event_type_t
  ts_in_syscall :: bool
  ts_event_queue :: "task_event_t kqueue_t"
  ts_mutex :: "u32 option"
  ts_mutex_next_waiter :: "nat option"
  ts_owned_mutexes :: "u32 option"
  ts_process :: u32

record kmutex_t =
  mx_owner :: "nat option"
  mx_waiters :: "nat option"
  mx_waiters_tail :: "nat option"
  mx_owned_next :: "u32 option"

section \<open>The kernel\<close>

record kern_t = page_t +
  phys_mem :: "u32 \<Rightarrow> u8"
  kobj_insts :: "u32 \<Rightarrow> kobj_inst_t"
  kobj_refs :: "u32 \<Rightarrow> kobj_ref_t"
  shared_blocks :: "u32 \<Rightarrow> shared_block_t"
  vm_regions :: "u32 \<Rightarrow> vm_region_t"
  fs_files :: "u32 \<Rightarrow> fs_file_t"
  fs_file_data :: "u32 \<Rightarrow> fs_file_data_t"
  fs_pipes :: "u32 \<Rightarrow> fs_pipe_t"
  processes :: "u32 \<Rightarrow> process_t"
  tasks :: "nat \<Rightarrow> task_state_t"
  kmutexes :: "u32 \<Rightarrow> kmutex_t"
  current_task :: int
  switching :: bool
  tss_esp0 :: u32
  kobj_uid_counter :: u32
  kobj_ref_uid_counter :: u32
  pci_devices :: "u32 \<Rightarrow> pci_device_t"
  pci_device_list :: "u32 list"

abbreviation (input) TOTAL_TASKS :: int where "TOTAL_TASKS \<equiv> 16"
abbreviation (input) PROCESS_MAX_KOBJ :: nat where "PROCESS_MAX_KOBJ \<equiv> 64"
abbreviation (input) TASK_EVENT_MAX_ARGS :: nat where "TASK_EVENT_MAX_ARGS \<equiv> 4"
abbreviation (input) KSTACK_SIZE :: u32 where "KSTACK_SIZE \<equiv> 0x4000"
abbreviation (input) VM_START :: u32 where "VM_START \<equiv> 0xA0000000"
abbreviation (input) VM_END :: u32 where "VM_END \<equiv> 0xC0000000"

text \<open>Assignments through a pointer.\<close>

definition upd_inst :: "u32 \<Rightarrow> (kobj_inst_t \<Rightarrow> kobj_inst_t) \<Rightarrow> 'a kern_t_scheme \<Rightarrow> 'a kern_t_scheme" where
  "upd_inst i f s = s\<lparr>kobj_insts := (kobj_insts s)(i := f (kobj_insts s i))\<rparr>"

definition upd_process :: "u32 \<Rightarrow> (process_t \<Rightarrow> process_t) \<Rightarrow> 'a kern_t_scheme \<Rightarrow> 'a kern_t_scheme" where
  "upd_process p f s = s\<lparr>processes := (processes s)(p := f (processes s p))\<rparr>"

definition upd_region :: "u32 \<Rightarrow> (vm_region_t \<Rightarrow> vm_region_t) \<Rightarrow> 'a kern_t_scheme \<Rightarrow> 'a kern_t_scheme" where
  "upd_region r f s = s\<lparr>vm_regions := (vm_regions s)(r := f (vm_regions s r))\<rparr>"

definition upd_task :: "nat \<Rightarrow> (task_state_t \<Rightarrow> task_state_t) \<Rightarrow> 'a kern_t_scheme \<Rightarrow> 'a kern_t_scheme" where
  "upd_task t f s = s\<lparr>tasks := (tasks s)(t := f (tasks s t))\<rparr>"

definition upd_mutex :: "u32 \<Rightarrow> (kmutex_t \<Rightarrow> kmutex_t) \<Rightarrow> 'a kern_t_scheme \<Rightarrow> 'a kern_t_scheme" where
  "upd_mutex m f s = s\<lparr>kmutexes := (kmutexes s)(m := f (kmutexes s m))\<rparr>"

definition upd_pipe :: "u32 \<Rightarrow> (fs_pipe_t \<Rightarrow> fs_pipe_t) \<Rightarrow> 'a kern_t_scheme \<Rightarrow> 'a kern_t_scheme" where
  "upd_pipe p f s = s\<lparr>fs_pipes := (fs_pipes s)(p := f (fs_pipes s p))\<rparr>"

definition upd_file :: "u32 \<Rightarrow> (fs_file_t \<Rightarrow> fs_file_t) \<Rightarrow> 'a kern_t_scheme \<Rightarrow> 'a kern_t_scheme" where
  "upd_file p f s = s\<lparr>fs_files := (fs_files s)(p := f (fs_files s p))\<rparr>"

definition upd_pci :: "u32 \<Rightarrow> (pci_device_t \<Rightarrow> pci_device_t) \<Rightarrow> 'a kern_t_scheme \<Rightarrow> 'a kern_t_scheme" where
  "upd_pci d f s = s\<lparr>pci_devices := (pci_devices s)(d := f (pci_devices s d))\<rparr>"

definition upd_shared :: "u32 \<Rightarrow> (shared_block_t \<Rightarrow> shared_block_t) \<Rightarrow> 'a kern_t_scheme \<Rightarrow> 'a kern_t_scheme" where
  "upd_shared b f s = s\<lparr>shared_blocks := (shared_blocks s)(b := f (shared_blocks s b))\<rparr>"

lemmas kern_upds = upd_pci_def upd_shared_def upd_pipe_def upd_file_def upd_inst_def upd_process_def upd_region_def upd_task_def upd_mutex_def

section \<open>What the heap leaves alone\<close>

lemma malloc_kern_fields [simp]:
  fixes s :: "'a kern_t_scheme"
  shows "kobj_insts (snd (malloc n s)) = kobj_insts s" "kobj_refs (snd (malloc n s)) = kobj_refs s"
    "shared_blocks (snd (malloc n s)) = shared_blocks s" "vm_regions (snd (malloc n s)) = vm_regions s"
    "processes (snd (malloc n s)) = processes s" "tasks (snd (malloc n s)) = tasks s"
    "kmutexes (snd (malloc n s)) = kmutexes s" "current_task (snd (malloc n s)) = current_task s"
    "kobj_uid_counter (snd (malloc n s)) = kobj_uid_counter s"
    "kobj_ref_uid_counter (snd (malloc n s)) = kobj_ref_uid_counter s"
    "phys_mem (snd (malloc n s)) = phys_mem s" "switching (snd (malloc n s)) = switching s"
    "tss_esp0 (snd (malloc n s)) = tss_esp0 s" "pci_devices (snd (malloc n s)) = pci_devices s"
    "pci_device_list (snd (malloc n s)) = pci_device_list s" "fs_files (snd (malloc n s)) = fs_files s"
    "fs_file_data (snd (malloc n s)) = fs_file_data s" "fs_pipes (snd (malloc n s)) = fs_pipes s"
  by (simp_all add: malloc_def Let_def split: option.splits)

lemma free_kern_fields [simp]:
  fixes s :: "'a kern_t_scheme"
  shows "kobj_insts (free a n s) = kobj_insts s" "kobj_refs (free a n s) = kobj_refs s"
    "shared_blocks (free a n s) = shared_blocks s" "vm_regions (free a n s) = vm_regions s"
    "processes (free a n s) = processes s" "tasks (free a n s) = tasks s"
    "kmutexes (free a n s) = kmutexes s" "current_task (free a n s) = current_task s"
    "kobj_uid_counter (free a n s) = kobj_uid_counter s"
    "kobj_ref_uid_counter (free a n s) = kobj_ref_uid_counter s"
    "phys_mem (free a n s) = phys_mem s" "switching (free a n s) = switching s"
    "tss_esp0 (free a n s) = tss_esp0 s" "pci_devices (free a n s) = pci_devices s"
    "pci_device_list (free a n s) = pci_device_list s" "fs_files (free a n s) = fs_files s"
    "fs_file_data (free a n s) = fs_file_data s" "fs_pipes (free a n s) = fs_pipes s"
  by (simp_all add: free_def Let_def)

section \<open>The state at boot\<close>

text \<open>All of \<open>.bss\<close> is zero, the heap is empty and \<open>current_task\<close> is -1.\<close>

definition zero_regs :: registers_t where
  "zero_regs = \<lparr>r_ds = 0, r_edi = 0, r_esi = 0, r_ebp = 0, r_esp = 0, r_ebx = 0, r_edx = 0, r_ecx = 0,
     r_eax = 0, r_err_code = 0, r_eip = 0, r_cs = 0, r_eflags = 0, r_useresp = 0, r_ss = 0\<rparr>"

definition zero_event :: task_event_t where
  "zero_event = \<lparr>ev_type = E_NONE, ev_addr = 0, ev_args = [0, 0, 0, 0], ev_argc = 0\<rparr>"

definition zero_task :: task_state_t where
  "zero_task = \<lparr>ts_enabled = False, ts_reserved = False, ts_paused = False, ts_pause_reason = PAUSE_NONE,
     ts_wake_pending = False, ts_crashed = False, ts_kill_pending = False, ts_task_uid = 0,
     ts_kernel_stack_top = 0, ts_kernel_esp = 0, ts_registers = zero_regs, ts_routine_return_regs = zero_regs,
     ts_checkcmd_buffer = 0, ts_routine = E_NONE, ts_in_syscall = False,
     ts_event_queue = kqueue_init (replicate 64 zero_event) 64, ts_mutex = None, ts_mutex_next_waiter = None,
     ts_owned_mutexes = None, ts_process = 0\<rparr>"

definition zero_mutex :: kmutex_t where
  "zero_mutex = \<lparr>mx_owner = None, mx_waiters = None, mx_waiters_tail = None, mx_owned_next = None\<rparr>"

definition zero_inst :: kobj_inst_t where
  "zero_inst = \<lparr>ki_uid = 0, ki_type = KOBJ_NONE, ki_data = 0, ki_ref_count = 0, ki_handle_count = 0,
     ki_stopped = False\<rparr>"

definition zero_process :: process_t where
  "zero_process = \<lparr>pr_uid = 0, pr_prog_start = 0, pr_prog_entry = 0, pr_prog_size = 0, pr_privileged = False,
     pr_page_dir = 0, pr_kobj = (\<lambda>_. 0), pr_kobj_count = 0, pr_regions = 0, pr_stdio = (\<lambda>_. - 1),
     pr_no_allocated = 0, pr_heap_start = 0, pr_heap_end = 0\<rparr>"

definition zero_pipe :: fs_pipe_t where
  "zero_pipe = \<lparr>pp_buf = replicate 4096 0, pp_read_pos = 0, pp_write_pos = 0, pp_size = 0, pp_writer_count = 0,
     pp_ref_count = 0, pp_read_waiting_task = 0, pp_write_waiting_task = 0, pp_read_waiting_uid = 0,
     pp_write_waiting_uid = 0, pp_read_buf = 0, pp_read_size = 0, pp_write_buf = 0, pp_write_size = 0\<rparr>"

definition zero_file :: fs_file_t where
  "zero_file = \<lparr>ff_filename = [], ff_flags = 0, ff_type = FS_TYPE_FILE, ff_window_index = 0, ff_window_uid = 0,
     ff_current_pos = 0, ff_data = 0, ff_pipe = 0\<rparr>"

definition boot_kern :: kern_t where
  "boot_kern = \<lparr>heap_head = HEAP_KERNEL, memory_status = (\<lambda>_. False),
     page_dirs = (\<lambda>_ _. zero_pde), page_tables = (\<lambda>_ _. zero_pte), kernel_page_dir = 0,
     current_page_dir = 0, pat_enabled = False, invlpg_log = [], phys_mem = (\<lambda>_. 0),
     kobj_insts = (\<lambda>_. zero_inst),
     kobj_refs = (\<lambda>_. \<lparr>kr_uid = 0, kr_inst = 0, kr_data = 0, kr_rights = 0\<rparr>),
     shared_blocks = (\<lambda>_. \<lparr>sb_size = 0, sb_paddr = 0\<rparr>),
     vm_regions = (\<lambda>_. \<lparr>vr_vaddr = 0, vr_inst = 0, vr_size = 0, vr_flags = 0, vr_next = 0\<rparr>),
     fs_files = (\<lambda>_. zero_file), fs_file_data = (\<lambda>_. \<lparr>fd_file_size = 0, fd_first_cluster = 0\<rparr>),
     fs_pipes = (\<lambda>_. zero_pipe),
     processes = (\<lambda>_. zero_process), tasks = (\<lambda>_. zero_task), kmutexes = (\<lambda>_. zero_mutex),
     current_task = - 1, switching = False, tss_esp0 = 0, kobj_uid_counter = 1, kobj_ref_uid_counter = 1,
     pci_devices = (\<lambda>_. \<lparr>pd_vendor = 0, pd_device = 0, pd_inst = 0, pd_bar1 = 0, pd_bar1_size = 0, pd_hw_cmd = 0,
       pd_hw_bar1 = 0, pd_hw_mask = 0\<rparr>), pci_device_list = []\<rparr>"

end
