(* ===== verification/Sched.thy ===== *)
theory Sched
  imports Kstate
begin

text \<open>
  Pausing, waking and choosing tasks (\<open>tasks.c\<close>): the pause state of a task with the latched wake,
  the allocation of task slots, and the round-robin choice of the next task. \<open>next_task\<close> is a loop
  that need not end when no task is current, so it is a partial function; with a current task it is
  total, never skips a task that can run, and returns -1 only when none can.
\<close>

section \<open>Model\<close>

definition task_pause :: "nat \<Rightarrow> task_pause_reason_t \<Rightarrow> 'a kern_t_scheme \<Rightarrow> 'a kern_t_scheme" where
  "task_pause t reason = upd_task t (\<lambda>x. x\<lparr>ts_paused := True, ts_pause_reason := reason\<rparr>)"

definition task_resume :: "nat \<Rightarrow> 'a kern_t_scheme \<Rightarrow> 'a kern_t_scheme" where
  "task_resume t = upd_task t (\<lambda>x. x\<lparr>ts_paused := False, ts_pause_reason := PAUSE_NONE\<rparr>)"

definition task_unsnooze :: "nat \<Rightarrow> 'a kern_t_scheme \<Rightarrow> bool \<times> 'a kern_t_scheme" where
  "task_unsnooze t s =
     (if \<not> ts_paused (tasks s t) \<or> ts_pause_reason (tasks s t) \<noteq> PAUSE_SNOOZE then (False, s)
      else (True, task_resume t s))"

definition task_wake :: "nat \<Rightarrow> 'a kern_t_scheme \<Rightarrow> 'a kern_t_scheme" where
  "task_wake t s =
     (case task_unsnooze t s of
        (True, s') \<Rightarrow> s'
      | (False, s') \<Rightarrow> upd_task t (\<lambda>x. x\<lparr>ts_wake_pending := True\<rparr>) s')"

definition task_exists :: "'a kern_t_scheme \<Rightarrow> bool" where
  "task_exists s \<longleftrightarrow> (\<exists>i\<in>set [0..<16]. ts_enabled (tasks s i) \<and> \<not> ts_paused (tasks s i))"

fun get_free_task_loop :: "nat list \<Rightarrow> 'a kern_t_scheme \<Rightarrow> int \<times> 'a kern_t_scheme" where
  "get_free_task_loop [] s = (- 1, s)"
| "get_free_task_loop (i # is) s =
     (if \<not> ts_enabled (tasks s i) \<and> \<not> ts_reserved (tasks s i) \<and> int i \<noteq> current_task s
      then (int i, upd_task i (\<lambda>x. x\<lparr>ts_reserved := True\<rparr>) s)
      else get_free_task_loop is s)"

definition get_free_task_index :: "'a kern_t_scheme \<Rightarrow> int \<times> 'a kern_t_scheme" where
  "get_free_task_index s = get_free_task_loop [0..<16] s"

definition task_unreserve :: "int \<Rightarrow> 'a kern_t_scheme \<Rightarrow> 'a kern_t_scheme" where
  "task_unreserve t s =
     (if t < 0 \<or> t \<ge> TOTAL_TASKS then s else upd_task (nat t) (\<lambda>x. x\<lparr>ts_reserved := False\<rparr>) s)"

definition task_resumable :: "task_state_t \<Rightarrow> bool \<Rightarrow> bool" where
  "task_resumable t resume_kernel \<longleftrightarrow>
     ts_enabled t \<and> \<not> ts_paused t \<and> (resume_kernel \<or> ts_kernel_esp t = 0)"

text \<open>The \<open>do\<close> loop of \<open>next_task\<close>, from the value of \<open>task\<close> before its increment.\<close>

partial_function (option) next_task_loop :: "bool \<Rightarrow> 'a kern_t_scheme \<Rightarrow> int \<Rightarrow> int option" where
  "next_task_loop resume_kernel s task0 =
     (let task = (task0 + 1) mod TOTAL_TASKS;
          ok = task_resumable (tasks s (nat task)) resume_kernel
      in if task = current_task s \<and> \<not> ok then Some (- 1)
         else if ok then Some task
         else next_task_loop resume_kernel s task)"

definition next_task :: "bool \<Rightarrow> 'a kern_t_scheme \<Rightarrow> int option" where
  "next_task resume_kernel s = next_task_loop resume_kernel s (current_task s)"

section \<open>The round robin\<close>

text \<open>How many steps of the scan lie from one task slot to another: between 1 and 16.\<close>

definition slot_dist :: "int \<Rightarrow> int \<Rightarrow> nat" where
  "slot_dist a b = nat ((b - a - 1) mod 16) + 1"

lemma slot_dist_bounds: "1 \<le> slot_dist a b" "slot_dist a b \<le> 16"
  by (auto simp: slot_dist_def)

lemma mod16_diff:
  fixes x c :: int
  assumes "0 \<le> x" "x < 16" "0 \<le> c" "c \<le> 16"
  shows "(x - c) mod 16 = (if c \<le> x then x - c else x - c + 16)"
proof (cases "c \<le> x")
  case False
  have "(x - c) mod 16 = (x - c + 16) mod 16" by simp
  with False assms show ?thesis by (simp del: mod_add_self2)
qed (use assms in simp)

lemma slot_dist_Suc:
  assumes "0 \<le> t" "t < 16"
  shows "slot_dist a t = (if (a + 1) mod 16 = t then 1 else Suc (slot_dist ((a + 1) mod 16) t))"
proof -
  obtain q c where "a + 1 = q * 16 + c" "0 \<le> c" "c < 16"
    by (metis div_mult_mod_eq pos_mod_sign pos_mod_bound zero_less_numeral)
  then have c: "a = q * 16 + c - 1" "(a + 1) mod 16 = c" by auto
  have "(t - a - 1) mod 16 = (t - c) mod 16" 
  proof -
    have "t - a - 1 = (t - c) + (- q) * 16" unfolding c(1) by simp
    then show ?thesis by (simp only: mod_mult_self1)
  qed
  then have "(t - a - 1) mod 16 = (if c = t then 0 else (t - c - 1) mod 16 + 1)"
    using mod16_diff [of t c] mod16_diff [of t "c + 1"] assms \<open>0 \<le> c\<close> \<open>c < 16\<close>
    by (simp add: diff_diff_eq)
  then show ?thesis unfolding c(2) slot_dist_def by (auto simp: nat_add_distrib)
qed

text \<open>The scan from any slot ends: it meets a task that can run, or the current task that cannot.\<close>

lemma next_task_loop_spec:
  assumes "0 \<le> current_task s" "current_task s < 16"
  shows "\<exists>r. next_task_loop k s a = Some r
    \<and> (r \<noteq> - 1 \<longrightarrow> 0 \<le> r \<and> r < 16 \<and> task_resumable (tasks s (nat r)) k \<and> slot_dist a r \<le> slot_dist a (current_task s)
        \<and> (\<forall>t. 0 \<le> t \<and> t < 16 \<and> task_resumable (tasks s (nat t)) k \<longrightarrow> slot_dist a r \<le> slot_dist a t))
    \<and> (r = - 1 \<longrightarrow> (\<forall>t. 0 \<le> t \<and> t < 16 \<and> slot_dist a t \<le> slot_dist a (current_task s)
        \<longrightarrow> \<not> task_resumable (tasks s (nat t)) k))"
  using assms
proof (induction "slot_dist a (current_task s)" arbitrary: a)
  case 0
  then show ?case using slot_dist_bounds(1) [of a "current_task s"] by simp
next
  case (Suc n)
  let ?t = "(a + 1) mod 16"
  have t: "0 \<le> ?t" "?t < 16" by auto
  show ?case
  proof (cases "task_resumable (tasks s (nat ?t)) k")
    case True
    then have "next_task_loop k s a = Some ?t" by (subst next_task_loop.simps) (simp add: Let_def)
    moreover have "slot_dist a ?t = 1" using slot_dist_Suc [OF t, of a] by simp
    ultimately show ?thesis using True t slot_dist_bounds(1) by auto
  next
    case no: False
    show ?thesis
    proof (cases "?t = current_task s")
      case True
      then have "next_task_loop k s a = Some (- 1)" using no by (subst next_task_loop.simps) (simp add: Let_def)
      moreover have "slot_dist a (current_task s) = 1" using slot_dist_Suc [of "current_task s" a] True Suc.prems by simp
      moreover have "x = ?t" if "0 \<le> x" "x < 16" "slot_dist a x \<le> 1" for x
        using slot_dist_Suc [OF that(1,2), of a] that(3) slot_dist_bounds(1) [of ?t x] by (auto split: if_splits)
      ultimately show ?thesis using no by auto
    next
      case False
      then have l: "next_task_loop k s a = next_task_loop k s ?t"
        using no by (subst next_task_loop.simps) (simp add: Let_def)
      have d: "slot_dist a x = Suc (slot_dist ?t x)" if "0 \<le> x" "x < 16" "x \<noteq> ?t" for x
        using slot_dist_Suc [OF that(1,2), of a] that(3) by simp
      have "n = slot_dist ?t (current_task s)" using d [of "current_task s"] Suc.hyps(2) Suc.prems False by simp
      from Suc.hyps(1) [OF this Suc.prems] obtain r where r: "next_task_loop k s ?t = Some r"
        "r \<noteq> - 1 \<longrightarrow> 0 \<le> r \<and> r < 16 \<and> task_resumable (tasks s (nat r)) k
           \<and> slot_dist ?t r \<le> slot_dist ?t (current_task s)
           \<and> (\<forall>t. 0 \<le> t \<and> t < 16 \<and> task_resumable (tasks s (nat t)) k \<longrightarrow> slot_dist ?t r \<le> slot_dist ?t t)"
        "r = - 1 \<longrightarrow> (\<forall>t. 0 \<le> t \<and> t < 16 \<and> slot_dist ?t t \<le> slot_dist ?t (current_task s)
           \<longrightarrow> \<not> task_resumable (tasks s (nat t)) k)" by blast
      show ?thesis
      proof (intro exI [of _ r] conjI impI)
        show "next_task_loop k s a = Some r" using l r(1) by simp
        assume n: "r \<noteq> - 1"
        show "0 \<le> r" "r < 16" "task_resumable (tasks s (nat r)) k" using r(2) n by auto
        then have rt: "r \<noteq> ?t" using no by auto
        show "slot_dist a r \<le> slot_dist a (current_task s)"
          using r(2) n d [of r] d [of "current_task s"] rt False Suc.prems by auto
        show "\<forall>t. 0 \<le> t \<and> t < 16 \<and> task_resumable (tasks s (nat t)) k \<longrightarrow> slot_dist a r \<le> slot_dist a t"
        proof (intro allI impI)
          fix t assume a: "0 \<le> t \<and> t < 16 \<and> task_resumable (tasks s (nat t)) k"
          with no have "t \<noteq> ?t" by auto
          with a r(2) n d [of r] d [of t] rt show "slot_dist a r \<le> slot_dist a t" by auto
        qed
      next
        assume n: "r = - 1"
        show "\<forall>t. 0 \<le> t \<and> t < 16 \<and> slot_dist a t \<le> slot_dist a (current_task s) \<longrightarrow> \<not> task_resumable (tasks s (nat t)) k"
          using r(3) n no d False Suc.prems by (metis Suc_le_mono)
      qed
    qed
  qed
qed


lemma next_task_spec:
  assumes "0 \<le> current_task s" "current_task s < 16"
  shows "\<exists>r. next_task k s = Some r
    \<and> (r \<noteq> - 1 \<longrightarrow> 0 \<le> r \<and> r < 16 \<and> task_resumable (tasks s (nat r)) k
        \<and> (\<forall>t. 0 \<le> t \<and> t < 16 \<and> task_resumable (tasks s (nat t)) k \<longrightarrow>
             slot_dist (current_task s) r \<le> slot_dist (current_task s) t))
    \<and> (r = - 1 \<longrightarrow> (\<forall>t. 0 \<le> t \<and> t < 16 \<longrightarrow> \<not> task_resumable (tasks s (nat t)) k))"
proof -
  have "slot_dist (current_task s) (current_task s) = 16" by (simp add: slot_dist_def)
  with next_task_loop_spec [OF assms, of k "current_task s"] slot_dist_bounds(2) show ?thesis
    unfolding next_task_def by metis
qed

text \<open>Choosing another task brings a task that could have been chosen strictly closer.\<close>

lemma slot_dist_closer:
  assumes "0 \<le> t" "t < 16" "0 \<le> r" "r < 16" "slot_dist a r \<le> slot_dist a t" "r \<noteq> t"
  shows "slot_dist r t < slot_dist a t"
proof -
  obtain q c where "a + 1 = q * 16 + c" "0 \<le> c" "c < 16"
    by (metis div_mult_mod_eq pos_mod_sign pos_mod_bound zero_less_numeral)
  then have c: "a = q * 16 + c - 1" "0 \<le> c" "c < 16" by auto
  have m: "(x - a - 1) mod 16 = (x - c) mod 16" for x
  proof -
    have "x - a - 1 = (x - c) + (- q) * 16" unfolding c(1) by simp
    then show ?thesis by (simp only: mod_mult_self1)
  qed
  have "(r - c) mod 16 \<le> (t - c) mod 16" using assms(5) unfolding slot_dist_def m by simp
  moreover have red: "(x - c) mod 16 = (if c \<le> x then x - c else x - c + 16)" if "0 \<le> x" "x < 16" for x
    by (rule mod16_diff) (use c(2,3) that in auto)
  moreover have "(t - r - 1) mod 16 = (if r < t then t - r - 1 else t - r + 15)"
    using mod16_diff [of t "r + 1"] assms(1-4) by (auto simp: diff_diff_eq)
  ultimately have "(t - r - 1) mod 16 < (t - c) mod 16"
    unfolding red [OF assms(1,2)] red [OF assms(3,4)] using assms(1-4,6) c(2,3) by (auto split: if_splits)
  then show ?thesis unfolding slot_dist_def m by simp
qed

section \<open>Task slots\<close>

lemma get_free_task_loop_spec:
  assumes "get_free_task_loop is s = (r, t)"
  shows "(r = - 1 \<and> t = s \<and> (\<forall>i\<in>set is. ts_enabled (tasks s i) \<or> ts_reserved (tasks s i) \<or> int i = current_task s))
    \<or> (\<exists>i\<in>set is. r = int i \<and> \<not> ts_enabled (tasks s i) \<and> \<not> ts_reserved (tasks s i) \<and> int i \<noteq> current_task s
         \<and> t = upd_task i (\<lambda>x. x\<lparr>ts_reserved := True\<rparr>) s)"
  using assms by (induction "is" s rule: get_free_task_loop.induct) (auto split: if_splits)

section \<open>Properties\<close>

text \<open>
  C7: with a current task, \<open>next_task\<close> always returns. It returns -1 exactly when no task of the
  table can be resumed; otherwise it returns one that can, and no task that can be resumed lies between
  the current one and it in round-robin order.
\<close>

theorem next_task_round_robin:
  assumes "0 \<le> current_task s" and "current_task s < TOTAL_TASKS"
  shows "\<exists>r. next_task k s = Some r
    \<and> (r = - 1 \<longleftrightarrow> (\<forall>t<16. \<not> task_resumable (tasks s t) k))
    \<and> (r \<noteq> - 1 \<longrightarrow> 0 \<le> r \<and> r < TOTAL_TASKS \<and> task_resumable (tasks s (nat r)) k
        \<and> (\<forall>d. 0 < d \<and> d < slot_dist (current_task s) r \<longrightarrow>
             \<not> task_resumable (tasks s (nat ((current_task s + int d) mod TOTAL_TASKS))) k))"
proof -
  obtain r where r: "next_task k s = Some r"
    "r \<noteq> - 1 \<longrightarrow> 0 \<le> r \<and> r < 16 \<and> task_resumable (tasks s (nat r)) k
        \<and> (\<forall>t. 0 \<le> t \<and> t < 16 \<and> task_resumable (tasks s (nat t)) k \<longrightarrow>
             slot_dist (current_task s) r \<le> slot_dist (current_task s) t)"
    "r = - 1 \<longrightarrow> (\<forall>t. 0 \<le> t \<and> t < 16 \<longrightarrow> \<not> task_resumable (tasks s (nat t)) k)"
    using next_task_spec [of s k] assms by blast
  have "r = - 1 \<longleftrightarrow> (\<forall>t<16. \<not> task_resumable (tasks s t) k)"
  proof
    assume "r = - 1"
    with r(3) show "\<forall>t<16. \<not> task_resumable (tasks s t) k"
      by (metis nat_int of_nat_0_le_iff of_nat_less_iff of_nat_numeral)
  next
    assume "\<forall>t<16. \<not> task_resumable (tasks s t) k"
    with r(2) show "r = - 1" by (metis nat_less_iff of_nat_numeral)
  qed
  moreover have "\<not> task_resumable (tasks s (nat ((current_task s + int d) mod 16))) k"
    if "r \<noteq> - 1" "0 < d" "d < slot_dist (current_task s) r" for d
  proof
    let ?t = "(current_task s + int d) mod 16"
    assume "task_resumable (tasks s (nat ?t)) k"
    with r(2) that(1) have "slot_dist (current_task s) r \<le> slot_dist (current_task s) ?t" by simp
    moreover have "d \<le> 16" using that(3) slot_dist_bounds(2) [of "current_task s" r] by simp
    then have "slot_dist (current_task s) ?t = d"
    proof -
      have "(?t - current_task s - 1) mod 16 = (int d - 1) mod 16"
        using mod_diff_left_eq [of "current_task s + int d" 16 "current_task s + 1"]
        by (simp add: diff_diff_eq)
      also have "\<dots> = int d - 1" using that(2) \<open>d \<le> 16\<close> by simp
      finally show ?thesis using that(2) by (simp add: slot_dist_def nat_diff_distrib)
    qed
    ultimately show False using that(3) by simp
  qed
  ultimately show ?thesis using r(1,2) by auto
qed

text \<open>Task 3 alone is enabled, and current.\<close>

definition one_task :: kern_t where
  "one_task = upd_task 3 (\<lambda>x. x\<lparr>ts_enabled := True\<rparr>) (boot_kern\<lparr>current_task := 3\<rparr>)"

lemma one_task_simps [simp]:
  "current_task one_task = 3" "tasks one_task t = (if t = 3 then zero_task\<lparr>ts_enabled := True\<rparr> else zero_task)"
  by (simp_all add: one_task_def boot_kern_def upd_task_def)

lemma one_task_resumable: "task_resumable (tasks one_task t) k \<longleftrightarrow> t = 3"
  by (simp add: task_resumable_def zero_task_def)

theorem next_task_round_robin_witness: "next_task False one_task = Some 3"
proof -
  have "\<not> (\<forall>t<16. t \<noteq> (3 :: nat))" by auto
  moreover have "0 \<le> (3 :: int)" "(3 :: int) < 16" by simp_all
  ultimately have "\<exists>r. next_task False one_task = Some r \<and> (r \<noteq> - 1 \<longrightarrow> 0 \<le> r \<and> nat r = 3) \<and> r \<noteq> - 1"
    using next_task_round_robin [of one_task False] unfolding one_task_resumable one_task_simps(1) by blast
  then obtain r where r: "next_task False one_task = Some r" "0 \<le> r" "nat r = 3" by blast
  then have "r = 3" by simp
  with r(1) show ?thesis by simp
qed

text \<open>
  C8: the scheduler is fair. Take any run in which each state is followed by one whose current
  task is the one \<open>next_task\<close> chose, whatever else happened to the tasks in between. A task that
  stays resumable is the current task after at most 16 of these choices.
\<close>

theorem next_task_fair:
  assumes "\<And>n. 0 \<le> current_task (run n) \<and> current_task (run n) < TOTAL_TASKS"
    and "\<And>n. next_task k (run n) = Some (current_task (run (Suc n)))"
    and "t < 16" and "\<And>n. task_resumable (tasks (run n) t) k"
  shows "\<exists>m<16. current_task (run (n + Suc m)) = int t"
proof -
  have "\<exists>m < slot_dist (current_task (run n)) (int t). current_task (run (n + Suc m)) = int t" for n
  proof (induction "slot_dist (current_task (run n)) (int t)" arbitrary: n rule: less_induct)
    case less
    let ?r = "current_task (run (Suc n))"
    have r: "0 \<le> ?r" "?r < 16" using assms(1) [of "Suc n"] by auto
    have "slot_dist (current_task (run n)) ?r \<le> slot_dist (current_task (run n)) (int t)"
      using next_task_spec [of "run n" k] assms(1) [of n] assms(2) [of n] assms(3,4) r by force
    show ?case
    proof (cases "?r = int t")
      case True
      with slot_dist_bounds(1) show ?thesis by (intro exI [of _ 0]) (simp add: Suc_le_eq)
    next
      case False
      have c: "slot_dist ?r (int t) < slot_dist (current_task (run n)) (int t)"
        by (rule slot_dist_closer) (use r assms(3) False \<open>slot_dist _ ?r \<le> _\<close> in auto)
      from less [OF this] obtain m where "m < slot_dist ?r (int t)" "current_task (run (Suc n + Suc m)) = int t"
        by auto
      with c show ?thesis by (intro exI [of _ "Suc m"]) auto
    qed
  qed
  with slot_dist_bounds(2) show ?thesis by (meson order_less_le_trans)
qed

lemma one_task_next: "next_task True one_task = Some 3"
  unfolding next_task_def by (simp add: next_task_loop.simps Let_def task_resumable_def zero_task_def)

theorem next_task_fair_witness: "\<exists>m<16. current_task ((\<lambda>_. one_task) (0 + Suc m)) = int 3"
  by (rule next_task_fair [where k = True])
    (simp_all add: one_task_next one_task_resumable del: one_task_simps(2))

end
