(* ===== verification/Ksync.thy ===== *)
theory Ksync
  imports Sched
begin

text \<open>
  Kernel mutexes (\<open>ksync.c\<close>). A mutex has an owner, a queue of waiting tasks linked through
  \<open>mutex_next_waiter\<close> with a tail pointer, and is itself linked into the list of mutexes its owner
  holds, through \<open>owned_next\<close>. The model keeps every one of these pointers. A task blocks inside
  \<open>kmutex_wait\<close>: \<open>kmutex_lock\<close> therefore has the outcomes panic, acquired and parked, and
  \<open>kmutex_lock_resume\<close> is the rest of the function when the parked task runs again. The call of
  \<open>kernel_yield_to\<close> that ends \<open>kmutex_unlock_yield\<close> is returned as the task to yield to.
\<close>

section \<open>Model\<close>

datatype 's lock_result = Lock_panic | Lock_done 's | Lock_parked 's

text \<open>\<open>kmutex_wait\<close> up to the first \<open>kernel_block\<close>.\<close>

definition kmutex_wait :: "u32 \<Rightarrow> nat \<Rightarrow> 'a kern_t_scheme \<Rightarrow> 'a kern_t_scheme" where
  "kmutex_wait m task s =
     (let s1 = upd_task task (\<lambda>x. x\<lparr>ts_mutex := Some m, ts_mutex_next_waiter := None\<rparr>) s;
          s2 = (case mx_waiters_tail (kmutexes s1 m) of
                  Some tail \<Rightarrow> upd_task tail (\<lambda>x. x\<lparr>ts_mutex_next_waiter := Some task\<rparr>) s1
                | None \<Rightarrow> upd_mutex m (\<lambda>x. x\<lparr>mx_waiters := Some task\<rparr>) s1);
          s3 = upd_mutex m (\<lambda>x. x\<lparr>mx_waiters_tail := Some task\<rparr>) s2
      in task_pause task PAUSE_KSYNC s3)"

definition kmutex_claim :: "u32 \<Rightarrow> nat \<Rightarrow> 'a kern_t_scheme \<Rightarrow> 'a kern_t_scheme" where
  "kmutex_claim m task s =
     (let s1 = upd_mutex m (\<lambda>x. x\<lparr>mx_owner := Some task, mx_owned_next := ts_owned_mutexes (tasks s task)\<rparr>) s
      in upd_task task (\<lambda>x. x\<lparr>ts_owned_mutexes := Some m\<rparr>) s1)"

definition kmutex_wake :: "u32 \<Rightarrow> bool \<Rightarrow> 'a kern_t_scheme \<Rightarrow> nat option \<times> 'a kern_t_scheme" where
  "kmutex_wake m wake s =
     (case mx_waiters (kmutexes s m) of
        None \<Rightarrow> (None, s)
      | Some task \<Rightarrow>
          let nxt = ts_mutex_next_waiter (tasks s task);
              s1 = upd_mutex m (\<lambda>x. x\<lparr>mx_waiters := nxt\<rparr>) s;
              s2 = (if nxt = None then upd_mutex m (\<lambda>x. x\<lparr>mx_waiters_tail := None\<rparr>) s1 else s1);
              s3 = upd_task task (\<lambda>x. x\<lparr>ts_mutex := None, ts_mutex_next_waiter := None\<rparr>) s2;
              s4 = task_resume task s3
          in (if wake then Some task else None, kmutex_claim m task s4))"

definition kmutex_release :: "nat \<Rightarrow> u32 \<Rightarrow> bool \<Rightarrow> 'a kern_t_scheme \<Rightarrow> (nat option \<times> 'a kern_t_scheme) option" where
  "kmutex_release task m wake s =
     (case find_prev (\<lambda>x. mx_owned_next (kmutexes s x)) m None (ts_owned_mutexes (tasks s task)) of
        None \<Rightarrow> None
      | Some (prev, cur) \<Rightarrow>
          let nxt = mx_owned_next (kmutexes s m);
              s1 = (if cur = None then s
                    else case prev of
                      Some p \<Rightarrow> upd_mutex p (\<lambda>x. x\<lparr>mx_owned_next := nxt\<rparr>) s
                    | None \<Rightarrow> upd_task task (\<lambda>x. x\<lparr>ts_owned_mutexes := nxt\<rparr>) s);
              s2 = upd_mutex m (\<lambda>x. x\<lparr>mx_owned_next := None, mx_owner := None\<rparr>) s1
          in Some (kmutex_wake m wake s2))"

text \<open>The current task is \<open>get_current_task_state()\<close>.\<close>

definition kmutex_lock :: "u32 \<Rightarrow> 'a kern_t_scheme \<Rightarrow> 'a kern_t_scheme lock_result" where
  "kmutex_lock m s =
     (let task = nat (current_task s)
      in if \<not> ts_in_syscall (tasks s task) then Lock_panic
         else if mx_owner (kmutexes s m) = Some task then Lock_panic
         else if mx_owner (kmutexes s m) = None then Lock_done (kmutex_claim m task s)
         else Lock_parked (kmutex_wait m task s))"

text \<open>
  From \<open>kernel_block\<close> returning in \<open>kmutex_wait\<close>: park again while \<open>task->mutex\<close> is
  set (the task was resumed by someone else), and queue again while it is not the owner.
\<close>

definition kmutex_lock_resume :: "u32 \<Rightarrow> nat \<Rightarrow> 'a kern_t_scheme \<Rightarrow> 'a kern_t_scheme lock_result" where
  "kmutex_lock_resume m task s =
     (if ts_mutex (tasks s task) \<noteq> None then Lock_parked (task_pause task PAUSE_KSYNC s)
      else if mx_owner (kmutexes s m) \<noteq> Some task then Lock_parked (kmutex_wait m task s)
      else Lock_done s)"

definition kmutex_unlock :: "u32 \<Rightarrow> 'a kern_t_scheme \<Rightarrow> (bool \<times> 'a kern_t_scheme) option" where
  "kmutex_unlock m s =
     (let task = nat (current_task s)
      in if mx_owner (kmutexes s m) \<noteq> Some task then Some (False, s)
         else map_option (\<lambda>(_, s'). (True, s')) (kmutex_release task m False s))"

definition kmutex_unlock_yield :: "u32 \<Rightarrow> 'a kern_t_scheme \<Rightarrow> (bool \<times> nat option \<times> 'a kern_t_scheme) option" where
  "kmutex_unlock_yield m s =
     (let task = nat (current_task s)
      in if mx_owner (kmutexes s m) \<noteq> Some task then Some (False, None, s)
         else map_option (\<lambda>(y, s'). (True, y, s')) (kmutex_release task m True s))"

text \<open>The two halves of \<open>ksync_cleanup_task\<close>.\<close>

definition ksync_leave_queue :: "nat \<Rightarrow> 'a kern_t_scheme \<Rightarrow> 'a kern_t_scheme option" where
  "ksync_leave_queue task s =
     (case ts_mutex (tasks s task) of
        None \<Rightarrow> Some s
      | Some m \<Rightarrow>
          (case find_prev (\<lambda>t. ts_mutex_next_waiter (tasks s t)) task None (mx_waiters (kmutexes s m)) of
             None \<Rightarrow> None
           | Some (prev, cur) \<Rightarrow>
               let nxt = ts_mutex_next_waiter (tasks s task);
                   s1 = (if cur = None then s
                         else let s1 = (case prev of
                                  Some p \<Rightarrow> upd_task p (\<lambda>x. x\<lparr>ts_mutex_next_waiter := nxt\<rparr>) s
                                | None \<Rightarrow> upd_mutex m (\<lambda>x. x\<lparr>mx_waiters := nxt\<rparr>) s)
                              in if mx_waiters_tail (kmutexes s1 m) = Some task
                                 then upd_mutex m (\<lambda>x. x\<lparr>mx_waiters_tail := prev\<rparr>) s1 else s1)
               in Some (upd_task task (\<lambda>x. x\<lparr>ts_mutex := None, ts_mutex_next_waiter := None\<rparr>) s1)))"

partial_function (option) ksync_release_all :: "nat \<Rightarrow> 'a kern_t_scheme \<Rightarrow> 'a kern_t_scheme option" where
  "ksync_release_all task s =
     (case ts_owned_mutexes (tasks s task) of
        None \<Rightarrow> Some s
      | Some m \<Rightarrow> (case kmutex_release task m False s of
                     None \<Rightarrow> None
                   | Some r \<Rightarrow> ksync_release_all task (snd r)))"

definition ksync_cleanup_task :: "nat \<Rightarrow> 'a kern_t_scheme \<Rightarrow> 'a kern_t_scheme option" where
  "ksync_cleanup_task task s =
     (case ksync_leave_queue task s of None \<Rightarrow> None | Some s' \<Rightarrow> ksync_release_all task s')"

section \<open>The pointers of the mutexes\<close>

definition nextw :: "'a kern_t_scheme \<Rightarrow> nat \<Rightarrow> nat option" where
  "nextw s t = ts_mutex_next_waiter (tasks s t)"
definition waits :: "'a kern_t_scheme \<Rightarrow> nat \<Rightarrow> u32 option" where
  "waits s t = ts_mutex (tasks s t)"
definition owned :: "'a kern_t_scheme \<Rightarrow> nat \<Rightarrow> u32 option" where
  "owned s t = ts_owned_mutexes (tasks s t)"
definition onext :: "'a kern_t_scheme \<Rightarrow> u32 \<Rightarrow> u32 option" where
  "onext s m = mx_owned_next (kmutexes s m)"
definition owner :: "'a kern_t_scheme \<Rightarrow> u32 \<Rightarrow> nat option" where
  "owner s m = mx_owner (kmutexes s m)"
definition whead :: "'a kern_t_scheme \<Rightarrow> u32 \<Rightarrow> nat option" where
  "whead s m = mx_waiters (kmutexes s m)"
definition wtail :: "'a kern_t_scheme \<Rightarrow> u32 \<Rightarrow> nat option" where
  "wtail s m = mx_waiters_tail (kmutexes s m)"

lemma upd_task_fields [simp]:
  "nextw (upd_task t f s) = (nextw s)(t := ts_mutex_next_waiter (f (tasks s t)))"
  "waits (upd_task t f s) = (waits s)(t := ts_mutex (f (tasks s t)))"
  "owned (upd_task t f s) = (owned s)(t := ts_owned_mutexes (f (tasks s t)))"
  "onext (upd_task t f s) = onext s" "owner (upd_task t f s) = owner s"
  "whead (upd_task t f s) = whead s" "wtail (upd_task t f s) = wtail s"
  by (auto simp: fun_eq_iff upd_task_def nextw_def waits_def owned_def onext_def owner_def whead_def wtail_def)

lemma upd_mutex_fields [simp]:
  "nextw (upd_mutex m f s) = nextw s" "waits (upd_mutex m f s) = waits s" "owned (upd_mutex m f s) = owned s"
  "onext (upd_mutex m f s) = (onext s)(m := mx_owned_next (f (kmutexes s m)))"
  "owner (upd_mutex m f s) = (owner s)(m := mx_owner (f (kmutexes s m)))"
  "whead (upd_mutex m f s) = (whead s)(m := mx_waiters (f (kmutexes s m)))"
  "wtail (upd_mutex m f s) = (wtail s)(m := mx_waiters_tail (f (kmutexes s m)))"
  by (auto simp: fun_eq_iff upd_mutex_def nextw_def waits_def owned_def onext_def owner_def whead_def wtail_def)

lemmas fold_fields =
  nextw_def [symmetric] waits_def [symmetric] owned_def [symmetric] onext_def [symmetric]
  owner_def [symmetric] whead_def [symmetric] wtail_def [symmetric]

lemma fold_onext: "(\<lambda>x. mx_owned_next (kmutexes s x)) = onext s"
  and fold_nextw: "(\<lambda>x. ts_mutex_next_waiter (tasks s x)) = nextw s"
  by (simp_all add: fun_eq_iff onext_def nextw_def)

lemma pause_fields [simp]:
  "nextw (task_pause t r s) = nextw s" "waits (task_pause t r s) = waits s" "owned (task_pause t r s) = owned s"
  "onext (task_pause t r s) = onext s" "owner (task_pause t r s) = owner s" "whead (task_pause t r s) = whead s"
  "wtail (task_pause t r s) = wtail s"
  "nextw (task_resume t s) = nextw s" "waits (task_resume t s) = waits s" "owned (task_resume t s) = owned s"
  "onext (task_resume t s) = onext s" "owner (task_resume t s) = owner s" "whead (task_resume t s) = whead s"
  "wtail (task_resume t s) = wtail s"
  by (simp_all add: task_pause_def task_resume_def fold_fields fun_upd_idem_iff)

text \<open>
  \<open>ksync_rep W H s\<close>: in \<open>s\<close> every mutex \<open>m\<close> has the queue \<open>W m\<close> of waiting tasks and every
  task \<open>t\<close> holds the mutexes \<open>H t\<close>; the pointers represent exactly these sequences.
\<close>

definition ksync_rep :: "(u32 \<Rightarrow> nat list) \<Rightarrow> (nat \<Rightarrow> u32 list) \<Rightarrow> 'a kern_t_scheme \<Rightarrow> bool" where
  "ksync_rep W H s \<longleftrightarrow>
     (\<forall>m. is_list (nextw s) (whead s m) (W m) \<and> wtail s m = (if W m = [] then None else Some (last (W m))))
     \<and> (\<forall>t m. waits s t = Some m \<longleftrightarrow> t \<in> set (W m))
     \<and> (\<forall>t. is_list (onext s) (owned s t) (H t))
     \<and> (\<forall>m t. owner s m = Some t \<longleftrightarrow> m \<in> set (H t))"

lemma ksync_repD:
  assumes "ksync_rep W H s"
  shows "is_list (nextw s) (whead s m) (W m)" "wtail s m = (if W m = [] then None else Some (last (W m)))"
    "waits s t = Some m \<longleftrightarrow> t \<in> set (W m)" "is_list (onext s) (owned s t) (H t)"
    "owner s m = Some t \<longleftrightarrow> m \<in> set (H t)"
  using assms by (auto simp: ksync_rep_def)

lemma ksync_rep_cong:
  assumes "ksync_rep W H s" "nextw t = nextw s" "waits t = waits s" "owned t = owned s" "onext t = onext s"
    "owner t = owner s" "whead t = whead s" "wtail t = wtail s"
  shows "ksync_rep W H t"
  using assms by (simp add: ksync_rep_def)

lemma owner_None: "ksync_rep W H s \<Longrightarrow> owner s m = None \<longleftrightarrow> (\<forall>t. m \<notin> set (H t))"
  by (metis ksync_repD(5) not_None_eq)

lemma waits_None: "ksync_rep W H s \<Longrightarrow> waits s t = None \<longleftrightarrow> (\<forall>m. t \<notin> set (W m))"
  by (metis ksync_repD(3) not_None_eq)

lemma queue_unique: "ksync_rep W H s \<Longrightarrow> t \<in> set (W m) \<Longrightarrow> t \<in> set (W m') \<Longrightarrow> m = m'"
  by (metis ksync_repD(3) option.inject)

lemma owner_unique: "ksync_rep W H s \<Longrightarrow> m \<in> set (H t) \<Longrightarrow> m \<in> set (H t') \<Longrightarrow> t = t'"
  by (metis ksync_repD(5) option.inject)

lemma kmutex_claim_rep:
  assumes rep: "ksync_rep W H s" and free: "owner s m = None"
  shows "ksync_rep W (H(t := m # H t)) (kmutex_claim m t s)"
proof -
  have n: "m \<notin> set (H t')" for t' using free owner_None [OF rep] by blast
  show ?thesis
    unfolding ksync_rep_def kmutex_claim_def Let_def
    using ksync_repD [OF rep] n by (auto simp: fold_fields)
qed

lemma kmutex_wait_fields:
  "nextw (kmutex_wait m t s) = (case wtail s m of None \<Rightarrow> (nextw s)(t := None)
     | Some l \<Rightarrow> (nextw s)(t := None, l := Some t))"
  "waits (kmutex_wait m t s) = (waits s)(t := Some m)"
  "owned (kmutex_wait m t s) = owned s" "onext (kmutex_wait m t s) = onext s" "owner (kmutex_wait m t s) = owner s"
  "whead (kmutex_wait m t s) = (if wtail s m = None then (whead s)(m := Some t) else whead s)"
  "wtail (kmutex_wait m t s) = (wtail s)(m := Some t)"
  by (simp_all add: kmutex_wait_def Let_def fold_fields fun_eq_iff split: option.splits)

text \<open>Parking appends the task to the queue.\<close>

lemma kmutex_wait_rep:
  assumes rep: "ksync_rep W H s" and free: "waits s t = None"
  shows "ksync_rep (W(m := W m @ [t])) H (kmutex_wait m t s)"
proof -
  let ?s = "kmutex_wait m t s"
  note R = ksync_repD [OF rep]
  have n: "t \<notin> set (W m')" for m' using free waits_None [OF rep] by blast
  have q: "is_list (nextw ?s) (whead ?s m') ((W(m := W m @ [t])) m')" for m'
  proof (cases "W m = []")
    case True
    with R(2) [of m] have "wtail s m = None" by simp
    with n R(1) True show ?thesis by (auto simp: kmutex_wait_fields)
  next
    case False
    with R(2) [of m] have l: "wtail s m = Some (last (W m))" by simp
    show ?thesis
    proof (cases "m' = m")
      case True
      have "is_list ((nextw s)(t := None)) (whead s m) (W m)" using R(1) [of m] n by simp
      then have "is_list ((nextw s)(t := None, last (W m) := Some t)) (whead s m) (W m @ [t])"
        using is_list_snoc [of "(nextw s)(t := None)" "whead s m" "W m" t] False n by simp
      with l True show ?thesis by (simp add: kmutex_wait_fields)
    next
      case ne: False
      have "last (W m) \<notin> set (W m')" using queue_unique [OF rep, of "last (W m)" m m'] False ne by auto
      then show ?thesis using l R(1) [of m'] n ne by (simp add: kmutex_wait_fields)
    qed
  qed
  have "wtail ?s m' = (if (W(m := W m @ [t])) m' = [] then None else Some (last ((W(m := W m @ [t])) m')))" for m'
    using R(2) [of m'] by (simp add: kmutex_wait_fields)
  moreover have "waits ?s t' = Some m' \<longleftrightarrow> t' \<in> set ((W(m := W m @ [t])) m')" for t' m'
    using R(3) [of t' m'] n by (auto simp: kmutex_wait_fields)
  ultimately show ?thesis using q R(4,5) by (simp add: ksync_rep_def kmutex_wait_fields)
qed

text \<open>Waking takes the first task of the queue and makes it the owner.\<close>

lemma kmutex_wake_empty: "ksync_rep W H s \<Longrightarrow> W m = [] \<Longrightarrow> kmutex_wake m w s = (None, s)"
  using ksync_repD(1) [of W H s m] by (simp add: kmutex_wake_def fold_fields)

lemma kmutex_wake_rep:
  assumes rep: "ksync_rep W H s" and free: "owner s m = None" and w: "W m = t # ts"
  shows "fst (kmutex_wake m w s) = (if w then Some t else None)"
    "ksync_rep (W(m := ts)) (H(t := m # H t)) (snd (kmutex_wake m w s))"
proof -
  note R = ksync_repD [OF rep]
  have hd: "whead s m = Some t" "is_list (nextw s) (nextw s t) ts" using R(1) [of m] w by auto
  then show "fst (kmutex_wake m w s) = (if w then Some t else None)"
    by (simp add: kmutex_wake_def fold_fields Let_def)
  define s4 where "s4 = task_resume t (upd_task t (\<lambda>x. x\<lparr>ts_mutex := None, ts_mutex_next_waiter := None\<rparr>)
      (let s1 = upd_mutex m (\<lambda>x. x\<lparr>mx_waiters := nextw s t\<rparr>) s
       in if nextw s t = None then upd_mutex m (\<lambda>x. x\<lparr>mx_waiters_tail := None\<rparr>) s1 else s1))"
  have k: "snd (kmutex_wake m w s) = kmutex_claim m t s4"
    using hd(1) by (simp add: kmutex_wake_def s4_def fold_fields Let_def)
  have f: "nextw s4 = (nextw s)(t := None)" "waits s4 = (waits s)(t := None)" "owned s4 = owned s"
    "onext s4 = onext s" "owner s4 = owner s" "whead s4 = (whead s)(m := nextw s t)"
    "wtail s4 = (if nextw s t = None then (wtail s)(m := None) else wtail s)"
    by (simp_all add: s4_def Let_def fold_fields fun_eq_iff)
  have d: "t \<notin> set ts" using is_list_distinct [OF R(1) [of m]] w by simp
  have o: "t \<notin> set (W m')" if "m' \<noteq> m" for m' using queue_unique [OF rep, of t m m'] w that by auto
  have e: "nextw s t = None \<longleftrightarrow> ts = []" using hd(2) by (cases ts) auto
  have em: "W m' = [] \<Longrightarrow> whead s m' = None" for m' using R(1) [of m'] by simp
  have "ksync_rep (W(m := ts)) H s4"
    unfolding ksync_rep_def f using R hd(2) d o e w em by (auto simp: queue_unique [OF rep])
  then show "ksync_rep (W(m := ts)) (H(t := m # H t)) (snd (kmutex_wake m w s))"
    unfolding k by (rule kmutex_claim_rep) (simp add: f free)
qed



text \<open>Taking a mutex out of its owner's list, before it is handed on.\<close>

definition kmutex_disown :: "nat \<Rightarrow> u32 \<Rightarrow> u32 option \<Rightarrow> 'a kern_t_scheme \<Rightarrow> 'a kern_t_scheme" where
  "kmutex_disown t m prev s = upd_mutex m (\<lambda>x. x\<lparr>mx_owned_next := None, mx_owner := None\<rparr>)
     (case prev of Some p \<Rightarrow> upd_mutex p (\<lambda>x. x\<lparr>mx_owned_next := onext s m\<rparr>) s
      | None \<Rightarrow> upd_task t (\<lambda>x. x\<lparr>ts_owned_mutexes := onext s m\<rparr>) s)"

lemma kmutex_disown_fields:
  "nextw (kmutex_disown t m prev s) = nextw s" "waits (kmutex_disown t m prev s) = waits s"
  "whead (kmutex_disown t m prev s) = whead s" "wtail (kmutex_disown t m prev s) = wtail s"
  "owner (kmutex_disown t m prev s) = (owner s)(m := None)"
  "owned (kmutex_disown t m prev s) = (case prev of None \<Rightarrow> (owned s)(t := onext s m) | _ \<Rightarrow> owned s)"
  "onext (kmutex_disown t m prev s) = (case prev of None \<Rightarrow> (onext s)(m := None)
     | Some p \<Rightarrow> (onext s)(p := onext s m, m := None))"
  by (simp_all add: kmutex_disown_def fold_fields fun_eq_iff split: option.splits)

lemma kmutex_disown_rep:
  assumes rep: "ksync_rep W H s" and m: "H t = xs @ m # ys"
  shows "ksync_rep W (H(t := xs @ ys)) (kmutex_disown t m (if xs = [] then None else Some (last xs)) s)"
proof -
  note R = ksync_repD [OF rep]
  let ?s = "kmutex_disown t m (if xs = [] then None else Some (last xs)) s"
  have l: "is_list (onext s) (owned s t) (xs @ m # ys)" using R(4) [of t] m by simp
  then have d: "m \<notin> set xs" "m \<notin> set ys" using is_list_distinct by fastforce+
  have o: "x \<notin> set (H t')" if "t' \<noteq> t" "x \<in> set (xs @ m # ys)" for t' x
    using owner_unique [OF rep, of x t t'] m that by auto
  have "is_list (onext ?s) (owned ?s t) (xs @ ys)"
  proof (cases "xs = []")
    case True
    then show ?thesis using l d by (simp add: kmutex_disown_fields)
  next
    case False
    have "is_list ((onext s)(last xs := onext s m)) (owned s t) (xs @ ys)" by (rule is_list_unlink [OF l False])
    then show ?thesis using False d by (simp add: kmutex_disown_fields)
  qed
  moreover have "is_list (onext ?s) (owned ?s t') (H t')" if "t' \<noteq> t" for t'
  proof -
    have "m \<notin> set (H t')" "xs \<noteq> [] \<Longrightarrow> last xs \<notin> set (H t')" using o [OF that] by auto
    then show ?thesis using R(4) [of t'] that by (cases "xs = []") (simp_all add: kmutex_disown_fields)
  qed
  moreover have "owner ?s x = Some t' \<longleftrightarrow> x \<in> set ((H(t := xs @ ys)) t')" for x t'
    using R(5) [of x t'] m d o [of t' m] by (auto simp: kmutex_disown_fields)
  moreover obtain u where u: "u = ?s" by blast
  ultimately have "ksync_rep W (H(t := xs @ ys)) u"
    using R(1-3) unfolding u [symmetric] ksync_rep_def
    by (simp add: u kmutex_disown_fields(1-4) split del: if_split) (simp add: u [symmetric])
  then show ?thesis unfolding u .
qed

lemma kmutex_release_eq:
  assumes rep: "ksync_rep W H s" and m: "H t = xs @ m # ys"
  shows "kmutex_release t m w s = Some (kmutex_wake m w (kmutex_disown t m (if xs = [] then None else Some (last xs)) s))"
proof -
  have l: "is_list (onext s) (owned s t) (xs @ m # ys)" using ksync_repD(4) [OF rep, of t] m by simp
  then have "m \<notin> set xs" using is_list_distinct by fastforce
  from find_prev_found [OF l this, of None] show ?thesis
    unfolding kmutex_release_def kmutex_disown_def fold_onext fold_fields
    by (simp add: Let_def)
qed

text \<open>Releasing: the mutex leaves its owner and goes to the first waiting task, if there is one.\<close>

lemma kmutex_release_rep:
  assumes rep: "ksync_rep W H s" and m: "m \<in> set (H t)"
  obtains y u where "kmutex_release t m w s = Some (y, u)"
    "W m = [] \<Longrightarrow> y = None \<and> ksync_rep W (H(t := remove1 m (H t))) u"
    "\<And>t' ts. W m = t' # ts \<Longrightarrow> y = (if w then Some t' else None)
       \<and> ksync_rep (W(m := ts)) ((H(t := remove1 m (H t)))(t' := m # (H(t := remove1 m (H t))) t')) u"
proof -
  obtain xs ys where H: "H t = xs @ m # ys" "m \<notin> set xs" using m by (meson split_list_first)
  let ?s = "kmutex_disown t m (if xs = [] then None else Some (last xs)) s"
  have r: "remove1 m (H t) = xs @ ys" using H by (simp add: remove1_append)
  have rep1: "ksync_rep W (H(t := remove1 m (H t))) ?s" unfolding r by (rule kmutex_disown_rep [OF rep H(1)])
  have o: "owner ?s m = None" by (simp add: kmutex_disown_fields)
  show ?thesis
  proof (rule that)
    show "kmutex_release t m w s = Some (fst (kmutex_wake m w ?s), snd (kmutex_wake m w ?s))"
      using kmutex_release_eq [OF rep H(1), of w] by simp
    show "fst (kmutex_wake m w ?s) = None \<and> ksync_rep W (H(t := remove1 m (H t))) (snd (kmutex_wake m w ?s))"
      if "W m = []" using kmutex_wake_empty [OF rep1 that] rep1 by simp
    show "fst (kmutex_wake m w ?s) = (if w then Some t' else None)
       \<and> ksync_rep (W(m := ts)) ((H(t := remove1 m (H t)))(t' := m # (H(t := remove1 m (H t))) t')) (snd (kmutex_wake m w ?s))"
      if "W m = t' # ts" for t' ts using kmutex_wake_rep [OF rep1 o that] by simp
  qed
qed


lemma owner_same:
  assumes "ksync_rep W H s" "ksync_rep W' H' u" "\<And>t. x \<in> set (H' t) \<longleftrightarrow> x \<in> set (H t)"
  shows "owner u x = owner s x"
proof (cases "owner s x")
  case None
  then have "owner u x = None" unfolding owner_None [OF assms(1)] owner_None [OF assms(2)] assms(3) .
  with None show ?thesis by simp
next
  case (Some t)
  then have "owner u x = Some t" unfolding ksync_repD(5) [OF assms(1)] ksync_repD(5) [OF assms(2)] assms(3) .
  with Some show ?thesis by simp
qed

lemma kmutex_handoff:
  assumes rep: "ksync_rep W H s" and m: "m \<in> set (H t)" and t: "t \<notin> set (W m)"
  obtains u H' where "kmutex_release t m w s = Some (if w \<and> W m \<noteq> [] then Some (hd (W m)) else None, u)"
    "ksync_rep (W(m := tl (W m))) H' u" "H' t = remove1 m (H t)"
    "owner u = (owner s)(m := if W m = [] then None else Some (hd (W m)))"
proof -
  obtain y u where r: "kmutex_release t m w s = Some (y, u)"
    and e: "W m = [] \<Longrightarrow> y = None \<and> ksync_rep W (H(t := remove1 m (H t))) u"
    and ne: "\<And>t' ts. W m = t' # ts \<Longrightarrow> y = (if w then Some t' else None)
       \<and> ksync_rep (W(m := ts)) ((H(t := remove1 m (H t)))(t' := m # (H(t := remove1 m (H t))) t')) u"
    using kmutex_release_rep [OF rep m, of w thesis] by blast
  have d: "m \<notin> set (remove1 m (H t))" using is_list_distinct [OF ksync_repD(4) [OF rep, of t]] by simp
  have oth: "m \<notin> set (H t')" if "t' \<noteq> t" for t' using owner_unique [OF rep m, of t'] that by auto
  show ?thesis
  proof (cases "W m")
    case Nil
    have rep1: "ksync_rep W (H(t := remove1 m (H t))) u" and y: "y = None" using e Nil by auto
    have "owner u x = ((owner s)(m := None)) x" for x
    proof (cases "x = m")
      case True
      with d oth have "owner u x = None" unfolding owner_None [OF rep1] by auto
      with True show ?thesis by simp
    next
      case False
      then show ?thesis using owner_same [OF rep rep1, of x] by (simp add: in_set_remove1)
    qed
    then have "owner u = (owner s)(m := None)" by blast
    moreover have "W(m := tl (W m)) = W" using Nil by (simp add: fun_upd_idem)
    ultimately show ?thesis using r rep1 y Nil by (intro that [of u "H(t := remove1 m (H t))"]) simp_all
  next
    case (Cons t' ts)
    have tt: "t' \<noteq> t" using t Cons by auto
    let ?H = "(H(t := remove1 m (H t)))(t' := m # H t')"
    have rep1: "ksync_rep (W(m := ts)) ?H u" and y: "y = (if w then Some t' else None)" using ne [OF Cons] tt by auto
    have "owner u x = ((owner s)(m := Some t')) x" for x
    proof (cases "x = m")
      case True
      with ksync_repD(5) [OF rep1, of m t'] show ?thesis by simp
    next
      case False
      then show ?thesis using owner_same [OF rep rep1, of x] tt by (simp add: in_set_remove1)
    qed
    then have "owner u = (owner s)(m := Some t')" by blast
    then show ?thesis using r rep1 y Cons tt by (intro that [of u ?H]) simp_all
  qed
qed

text \<open>An ending task leaves the queue it waits in, wherever it stands there.\<close>

lemma ksync_leave_queue_rep:
  assumes rep: "ksync_rep W H s"
  obtains u where "ksync_leave_queue t s = Some u" "ksync_rep (\<lambda>m. remove1 t (W m)) H u" "waits u t = None"
proof (cases "waits s t")
  case None
  then have "t \<notin> set (W m)" for m using waits_None [OF rep] by blast
  with rep None show ?thesis
    by (intro that [of s]) (simp_all add: ksync_leave_queue_def fold_fields remove1_idem)
next
  case (Some m)
  note R = ksync_repD [OF rep]
  obtain xs ys where W: "W m = xs @ t # ys" "t \<notin> set xs" using Some R(3) [of t m] by (meson split_list_first)
  have l: "is_list (nextw s) (whead s m) (xs @ t # ys)" using R(1) [of m] W by simp
  have d: "t \<notin> set ys" using is_list_distinct [OF l] by simp
  define prev where "prev = (if xs = [] then None else Some (last xs))"
  have fp: "find_prev (nextw s) t None (whead s m) = Some (prev, Some t)"
    unfolding prev_def by (rule find_prev_found [OF l W(2)])
  define u where "u = upd_task t (\<lambda>x. x\<lparr>ts_mutex := None, ts_mutex_next_waiter := None\<rparr>)
     (let s1 = (case prev of Some p \<Rightarrow> upd_task p (\<lambda>x. x\<lparr>ts_mutex_next_waiter := nextw s t\<rparr>) s
                | None \<Rightarrow> upd_mutex m (\<lambda>x. x\<lparr>mx_waiters := nextw s t\<rparr>) s)
      in if wtail s1 m = Some t then upd_mutex m (\<lambda>x. x\<lparr>mx_waiters_tail := prev\<rparr>) s1 else s1)"
  have k: "ksync_leave_queue t s = Some u"
    using Some fp unfolding ksync_leave_queue_def fold_nextw fold_fields u_def by (simp add: Let_def)
  have tl: "wtail s m = Some t \<longleftrightarrow> ys = []" using R(2) [of m] W d by (auto simp: last_append split: if_splits)
  have f: "nextw u = (case prev of None \<Rightarrow> nextw s | Some p \<Rightarrow> (nextw s)(p := nextw s t))(t := None)"
    "whead u = (if prev = None then (whead s)(m := nextw s t) else whead s)"
    "wtail u = (if ys = [] then (wtail s)(m := prev) else wtail s)"
    "waits u = (waits s)(t := None)" "owned u = owned s" "onext u = onext s" "owner u = owner s"
    unfolding u_def using tl
    by (cases prev; simp add: Let_def fold_fields fun_eq_iff)+
  have o: "x \<notin> set (W m')" if "m' \<noteq> m" "x \<in> set (W m)" for x m' using queue_unique [OF rep, of x m m'] that by auto
  have rm: "remove1 t (W m') = (if m' = m then xs @ ys else W m')" for m'
    using W o [of m' t] by (auto simp: remove1_append remove1_idem)
  have q: "is_list (nextw u) (whead u m') (remove1 t (W m'))" for m'
  proof (cases "m' = m")
    case True
    show ?thesis
    proof (cases "xs = []")
      case True
      with l d rm [of m] \<open>m' = m\<close> show ?thesis by (simp add: f prev_def)
    next
      case False
      have "is_list ((nextw s)(last xs := nextw s t)) (whead s m) (xs @ ys)" by (rule is_list_unlink [OF l False])
      with False d W(2) rm [of m] \<open>m' = m\<close> show ?thesis by (simp add: f prev_def)
    qed
  next
    case False
    have "t \<notin> set (W m')" "xs \<noteq> [] \<Longrightarrow> last xs \<notin> set (W m')" using o [OF False] W by auto
    then show ?thesis using R(1) [of m'] False rm [of m'] by (cases "xs = []") (simp_all add: f prev_def)
  qed
  have "wtail u m' = (if remove1 t (W m') = [] then None else Some (last (remove1 t (W m'))))" for m'
    unfolding rm using R(2) [of m'] W by (auto simp: f prev_def last_append)
  moreover have "waits u t' = Some m' \<longleftrightarrow> t' \<in> set (remove1 t (W m'))" for t' m'
    unfolding rm using R(3) [of t' m'] W d o [of m' t] by (auto simp: f)
  ultimately have "ksync_rep (\<lambda>m. remove1 t (W m)) H u"
    using q R(4,5) unfolding ksync_rep_def f(5-7) by simp
  with k show ?thesis by (intro that [of u]) (simp_all add: f)
qed

text \<open>Handing on all mutexes of a task ends, since no released mutex comes back to it.\<close>

lemma ksync_release_all_rep:
  assumes "ksync_rep W H s" "\<And>m. t \<notin> set (W m)"
  shows "\<exists>u W' H'. ksync_release_all t s = Some u \<and> ksync_rep W' H' u \<and> H' t = []
    \<and> (\<forall>m. W' m = (if m \<in> set (H t) then tl (W m) else W m))
    \<and> (\<forall>m. owner u m = (if m \<in> set (H t) then (if W m = [] then None else Some (hd (W m))) else owner s m))"
  using assms
proof (induction "length (H t)" arbitrary: s W H rule: less_induct)
  case less
  show ?case
  proof (cases "H t")
    case Nil
    then have "owned s t = None" using ksync_repD(4) [OF less.prems(1), of t] by simp
    then have "ksync_release_all t s = Some s" by (subst ksync_release_all.simps) (simp add: fold_fields)
    with less.prems Nil show ?thesis by fastforce
  next
    case (Cons m ms)
    have o: "owned s t = Some m" using ksync_repD(4) [OF less.prems(1), of t] Cons by simp
    have nm: "m \<notin> set ms" using is_list_distinct [OF ksync_repD(4) [OF less.prems(1)], of t] Cons by simp
    obtain u H1 where r: "kmutex_release t m False s = Some (None, u)" and
      1: "ksync_rep (W(m := tl (W m))) H1 u" "H1 t = ms"
        "owner u = (owner s)(m := if W m = [] then None else Some (hd (W m)))"
      using kmutex_handoff [OF less.prems(1), of m t False thesis] less.prems(2) [of m] Cons by auto
    have s: "ksync_release_all t s = ksync_release_all t u"
      using o r by (subst ksync_release_all.simps) (simp add: fold_fields)
    define W1 where W1: "W1 = W(m := tl (W m))"
    have "t \<notin> set (W1 x)" for x
    proof (cases "x = m")
      case True
      then show ?thesis using less.prems(2) [of m] W1 by (cases "W m") auto
    qed (use less.prems(2) [of x] W1 in simp)
    from less.hyps [OF _ 1(1) [folded W1] this] 1(2) Cons obtain v W2 H2 where
      2: "ksync_release_all t u = Some v" "ksync_rep W2 H2 v" "H2 t = []"
        "\<forall>x. W2 x = (if x \<in> set ms then tl (W1 x) else W1 x)"
        "\<forall>x. owner v x = (if x \<in> set ms then (if W1 x = [] then None else Some (hd (W1 x))) else owner u x)"
      by (metis length_Cons lessI)
    show ?thesis
      by (rule exI [of _ v], rule exI [of _ W2], rule exI [of _ H2])
        (use 2 s 1(3) W1 Cons nm in auto)
  qed
qed


section \<open>Tasks using mutexes\<close>

text \<open>
  A configuration: which task is parked inside \<open>kmutex_lock\<close> of which mutex, which task has
  returned from \<open>kmutex_lock\<close> of which mutex and not yet unlocked it, and the kernel state. The steps
  are the calls of the current task, the continuation of a parked task when it is scheduled (for whatever
  reason it was resumed), the end of any task, and any other activity of the kernel, which leaves the
  pointers of mutexes alone.
\<close>

type_synonym 'a ksync_conf = "(nat \<Rightarrow> u32 option) \<times> (nat \<times> u32) set \<times> 'a kern_t_scheme"

inductive ksync_step :: "'a ksync_conf \<Rightarrow> 'a ksync_conf \<Rightarrow> bool" where
  lock: "t = nat (current_task s) \<Longrightarrow> P t = None \<Longrightarrow> kmutex_lock m s = Lock_done s' \<Longrightarrow>
     ksync_step (P, L, s) (P, insert (t, m) L, s')"
| park: "t = nat (current_task s) \<Longrightarrow> P t = None \<Longrightarrow> kmutex_lock m s = Lock_parked s' \<Longrightarrow>
     ksync_step (P, L, s) (P(t := Some m), L, s')"
| acquire: "P t = Some m \<Longrightarrow> kmutex_lock_resume m t s = Lock_done s' \<Longrightarrow>
     ksync_step (P, L, s) (P(t := None), insert (t, m) L, s')"
| park_again: "P t = Some m \<Longrightarrow> kmutex_lock_resume m t s = Lock_parked s' \<Longrightarrow>
     ksync_step (P, L, s) (P, L, s')"
| unlock: "t = nat (current_task s) \<Longrightarrow> P t = None \<Longrightarrow> kmutex_unlock m s = Some (True, s') \<Longrightarrow>
     ksync_step (P, L, s) (P, L - {(t, m)}, s')"
| unlock_yield: "t = nat (current_task s) \<Longrightarrow> P t = None \<Longrightarrow> kmutex_unlock_yield m s = Some (True, y, s') \<Longrightarrow>
     ksync_step (P, L, s) (P, L - {(t, m)}, s')"
| cleanup: "ksync_cleanup_task t s = Some s' \<Longrightarrow>
     ksync_step (P, L, s) (P(t := None), L - {t} \<times> UNIV, s')"
| other: "nextw s' = nextw s \<Longrightarrow> waits s' = waits s \<Longrightarrow> owned s' = owned s \<Longrightarrow> onext s' = onext s \<Longrightarrow>
     owner s' = owner s \<Longrightarrow> whead s' = whead s \<Longrightarrow> wtail s' = wtail s \<Longrightarrow>
     ksync_step (P, L, s) (P, L, s')"

definition ksync_ok :: "'a ksync_conf \<Rightarrow> (u32 \<Rightarrow> nat list) \<Rightarrow> (nat \<Rightarrow> u32 list) \<Rightarrow> bool" where
  "ksync_ok c W H \<longleftrightarrow> (case c of (P, L, s) \<Rightarrow> ksync_rep W H s
     \<and> (\<forall>m. W m \<noteq> [] \<longrightarrow> owner s m \<noteq> None)
     \<and> (\<forall>t m. (t, m) \<in> L \<longrightarrow> owner s m = Some t)
     \<and> (\<forall>t m. owner s m = Some t \<longrightarrow> (t, m) \<in> L \<or> P t = Some m)
     \<and> (\<forall>t m. t \<in> set (W m) \<longrightarrow> P t = Some m)
     \<and> (\<forall>t m. P t = Some m \<longrightarrow> t \<in> set (W m) \<or> owner s m = Some t))"

lemma ksync_okD:
  assumes "ksync_ok (P, L, s) W H"
  shows "ksync_rep W H s" "W m \<noteq> [] \<Longrightarrow> owner s m \<noteq> None" "(t, m) \<in> L \<Longrightarrow> owner s m = Some t"
    "owner s m = Some t \<Longrightarrow> (t, m) \<in> L \<or> P t = Some m" "t \<in> set (W m) \<Longrightarrow> P t = Some m"
    "P t = Some m \<Longrightarrow> t \<in> set (W m) \<or> owner s m = Some t"
    "P t = None \<Longrightarrow> waits s t = None"
proof -
  show rep: "ksync_rep W H s" using assms by (simp add: ksync_ok_def)
  show "P t = None \<Longrightarrow> waits s t = None" using assms unfolding waits_None [OF rep] by (auto simp: ksync_ok_def)
qed (use assms in \<open>auto simp: ksync_ok_def\<close>)

lemma kmutex_claim_fields [simp]:
  "owner (kmutex_claim m t s) = (owner s)(m := Some t)" "waits (kmutex_claim m t s) = waits s"
  by (simp_all add: kmutex_claim_def Let_def fold_fields)

lemma lock_ok:
  assumes ok: "ksync_ok (P, L, s) W H" and t: "P t = None" and o: "owner s m = None"
  shows "ksync_ok (P, insert (t, m) L, kmutex_claim m t s) W (H(t := m # H t))"
  using kmutex_claim_rep [OF ksync_okD(1) [OF ok] o] ksync_okD(2-7) [OF ok] o t
  unfolding ksync_ok_def by (auto, metis option.distinct(1))

lemma park_ok:
  assumes ok: "ksync_ok (P, L, s) W H" and t: "P t = None" and o: "owner s m \<noteq> None"
  shows "ksync_ok (P(t := Some m), L, kmutex_wait m t s) (W(m := W m @ [t])) H"
proof -
  have "owner s m' = Some t \<Longrightarrow> (t, m') \<in> L" for m' using ksync_okD(4) [OF ok, of m' t] t by auto
  then show ?thesis
    using kmutex_wait_rep [OF ksync_okD(1) [OF ok] ksync_okD(7) [OF ok t], of m] ksync_okD(2-7) [OF ok] o t
    unfolding ksync_ok_def by (auto simp: kmutex_wait_fields)
qed


lemma release_ok:
  assumes ok: "ksync_ok (P, L, s) W H" and t: "P t = None" and o: "owner s m = Some t"
  obtains u H' where "kmutex_release t m w s = Some (if w \<and> W m \<noteq> [] then Some (hd (W m)) else None, u)"
    "ksync_ok (P, L - {(t, m)}, u) (W(m := tl (W m))) H'"
    "owner u = (owner s)(m := if W m = [] then None else Some (hd (W m)))"
proof -
  note rep = ksync_okD(1) [OF ok] and K = ksync_okD(2-6) [OF ok]
  have mt: "m \<in> set (H t)" using ksync_repD(5) [OF rep, of m t] o by simp
  have nt: "t \<notin> set (W x)" for x using K(4) [of t x] t by auto
  obtain u H' where r: "kmutex_release t m w s = Some (if w \<and> W m \<noteq> [] then Some (hd (W m)) else None, u)"
    and 1: "ksync_rep (W(m := tl (W m))) H' u"
      "owner u = (owner s)(m := if W m = [] then None else Some (hd (W m)))"
    using kmutex_handoff [OF rep mt nt, of w thesis] by blast
  have hd: "W m \<noteq> [] \<Longrightarrow> P (hd (W m)) = Some m" using K(4) by (meson hd_in_set)
  have sub: "x \<in> set ((W(m := tl (W m))) m') \<Longrightarrow> x \<in> set (W m')" for x m'
    by (cases "W m") (auto split: if_splits)
  have keep: "x \<in> set ((W(m := tl (W m))) m') \<or> W m \<noteq> [] \<and> m' = m \<and> x = hd (W m)" if "x \<in> set (W m')" for x m'
    using that by (cases "W m") auto
  have "ksync_ok (P, L - {(t, m)}, u) (W(m := tl (W m))) H'"
    unfolding ksync_ok_def prod.case
  proof (intro conjI allI impI)
    show "ksync_rep (W(m := tl (W m))) H' u" by (rule 1)
    fix x m'
    show "(W(m := tl (W m))) m' \<noteq> [] \<Longrightarrow> owner u m' \<noteq> None" using K(1) [of m'] by (cases "W m") (auto simp: 1(2))
    show "(x, m') \<in> L - {(t, m)} \<Longrightarrow> owner u m' = Some x" using K(2) [of x m'] o by (auto simp: 1(2))
    show "owner u m' = Some x \<Longrightarrow> (x, m') \<in> L - {(t, m)} \<or> P x = Some m'"
      using K(3) [of m' x] o hd by (auto simp: 1(2) split: if_splits)
    show "x \<in> set ((W(m := tl (W m))) m') \<Longrightarrow> P x = Some m'" using sub K(4) by blast
    show "P x = Some m' \<Longrightarrow> x \<in> set ((W(m := tl (W m))) m') \<or> owner u m' = Some x"
      using K(5) [of x m'] keep [of x m'] o t by (auto simp: 1(2))
  qed
  then show ?thesis by (rule that [OF r _ 1(2)])
qed

lemma cleanup_ok:
  assumes ok: "ksync_ok (P, L, s) W H" and r: "ksync_cleanup_task t s = Some s'"
  shows "\<exists>W' H'. ksync_ok (P(t := None), L - {t} \<times> UNIV, s') W' H'"
proof -
  note rep = ksync_okD(1) [OF ok] and K = ksync_okD(2-6) [OF ok]
  obtain u where u: "ksync_leave_queue t s = Some u" "ksync_rep (\<lambda>m. remove1 t (W m)) H u"
    using ksync_leave_queue_rep [OF rep, of t thesis] by blast
  have dist: "distinct (W m)" for m using is_list_distinct ksync_repD(1) [OF rep] by blast
  then have n: "t \<notin> set (remove1 t (W m))" for m by simp
  from ksync_release_all_rep [OF u(2) n] r u(1) obtain W' H' where
    1: "ksync_rep W' H' s'" "H' t = []" "\<And>m. W' m = (if m \<in> set (H t) then tl (remove1 t (W m)) else remove1 t (W m))"
      "\<And>m. owner s' m = (if m \<in> set (H t) then (if remove1 t (W m) = [] then None else Some (hd (remove1 t (W m))))
         else owner u m)" by (auto simp: ksync_cleanup_task_def)
  have ou: "owner u m = owner s m" for m by (rule owner_same [OF rep u(2)]) simp
  have Ht: "m \<in> set (H t) \<longleftrightarrow> owner s m = Some t" for m using ksync_repD(5) [OF rep, of m t] by simp
  have sub: "x \<in> set (W' m) \<Longrightarrow> x \<in> set (W m) \<and> x \<noteq> t" for x m
    using dist [of m] 1(3) [of m] n [of m] notin_set_remove1 [of x "W m" t]
    by (cases "remove1 t (W m)") (auto split: if_splits)
  have "ksync_ok (P(t := None), L - {t} \<times> UNIV, s') W' H'"
    unfolding ksync_ok_def prod.case
  proof (intro conjI allI impI)
    show "ksync_rep W' H' s'" by (rule 1)
    fix x m
    show "W' m \<noteq> [] \<Longrightarrow> owner s' m \<noteq> None"
      using K(1) [of m] 1(3) [of m] 1(4) [of m] ou [of m] by (cases "W m") (auto split: if_splits)
    show "(x, m) \<in> L - {t} \<times> UNIV \<Longrightarrow> owner s' m = Some x" using K(2) [of x m] 1(4) [of m] ou [of m] Ht [of m] by auto
    show "owner s' m = Some x \<Longrightarrow> (x, m) \<in> L - {t} \<times> UNIV \<or> (P(t := None)) x = Some m"
    proof (cases "m \<in> set (H t)")
      case True
      assume "owner s' m = Some x"
      with True 1(4) [of m] have "x \<in> set (remove1 t (W m))" by (auto split: if_splits)
      then show ?thesis using n [of m] notin_set_remove1 [of x "W m" t] K(4) [of x m] by auto
    next
      case False
      assume "owner s' m = Some x"
      with False 1(4) [of m] ou [of m] Ht [of m] K(3) [of m x] show ?thesis by auto
    qed
    show "x \<in> set (W' m) \<Longrightarrow> (P(t := None)) x = Some m" using sub K(4) by auto
    show "x \<in> set (W' m) \<or> owner s' m = Some x" if "(P(t := None)) x = Some m"
    proof -
      have x: "x \<noteq> t" "x \<in> set (W m) \<or> owner s m = Some x" using that K(5) [of x m] by (auto split: if_splits)
      then have "x \<in> set (remove1 t (W m)) \<or> owner s m = Some x" by (simp add: in_set_remove1)
      then show ?thesis using x(1) 1(3,4) [of m] ou [of m] Ht [of m] by (cases "remove1 t (W m)") auto
    qed
  qed
  then show ?thesis by blast
qed


text \<open>Every step keeps the queues, the owners and the parked tasks consistent.\<close>

lemma ksync_step_ok:
  assumes "ksync_step c c'" "ksync_ok c W H"
  shows "\<exists>W' H'. ksync_ok c' W' H'"
  using assms
proof cases
  case (lock t s P m s' L)
  then have "owner s m = None" "s' = kmutex_claim m t s"
    by (auto simp: kmutex_lock_def Let_def owner_def split: if_splits)
  with lock assms(2) lock_ok show ?thesis by blast
next
  case (park t s P m s' L)
  then have "owner s m \<noteq> None" "s' = kmutex_wait m t s"
    by (auto simp: kmutex_lock_def Let_def owner_def split: if_splits)
  with park assms(2) park_ok show ?thesis by blast
next
  case (acquire P t m s s' L)
  then have o: "owner s m = Some t" "s' = s" "waits s t = None"
    by (auto simp: kmutex_lock_resume_def waits_def owner_def split: if_splits)
  have ok: "ksync_ok (P, L, s) W H" using assms(2) acquire by simp
  have "owner s x = Some t \<Longrightarrow> (t, x) \<in> L \<or> x = m" for x using ksync_okD(4) [OF ok, of x t] acquire(3) by auto
  then have "ksync_ok (P(t := None), insert (t, m) L, s) W H"
    using ok acquire(3) o waits_None [OF ksync_okD(1) [OF ok], of t] unfolding ksync_ok_def by auto
  with acquire o show ?thesis by blast
next
  case (park_again P t m s s' L)
  have ok: "ksync_ok (P, L, s) W H" using assms(2) park_again by simp
  have "waits s t \<noteq> None"
  proof
    assume w: "waits s t = None"
    then have "owner s m = Some t" using ksync_okD(6) [OF ok park_again(3)] waits_None [OF ksync_okD(1) [OF ok]] by blast
    with w park_again(4) show False by (simp add: kmutex_lock_resume_def waits_def owner_def)
  qed
  then have "s' = task_pause t PAUSE_KSYNC s" using park_again(4) by (simp add: kmutex_lock_resume_def waits_def)
  then have "ksync_ok (P, L, s') W H"
    using ok ksync_rep_cong [of W H s s'] by (simp add: ksync_ok_def)
  with park_again show ?thesis by blast
next
  case (unlock t s P m s' L)
  then have o: "owner s m = Some t" by (auto simp: kmutex_unlock_def Let_def owner_def split: if_splits)
  have ok: "ksync_ok (P, L, s) W H" using assms(2) unlock by simp
  obtain u H' where "kmutex_release t m False s = Some (None, u)" "ksync_ok (P, L - {(t, m)}, u) (W(m := tl (W m))) H'"
    by (rule release_ok [OF ok unlock(4) o, where w = False]) simp
  with unlock o show ?thesis by (auto simp: kmutex_unlock_def Let_def owner_def)
next
  case (unlock_yield t s P m y s' L)
  then have o: "owner s m = Some t" by (auto simp: kmutex_unlock_yield_def Let_def owner_def split: if_splits)
  have ok: "ksync_ok (P, L, s) W H" using assms(2) unlock_yield by simp
  obtain z u H' where "kmutex_release t m True s = Some (z, u)" "ksync_ok (P, L - {(t, m)}, u) (W(m := tl (W m))) H'"
    by (rule release_ok [OF ok unlock_yield(4) o, where w = True]) blast
  with unlock_yield o show ?thesis by (auto simp: kmutex_unlock_yield_def Let_def owner_def)
next
  case (cleanup t s s' P L)
  with assms(2) cleanup_ok show ?thesis by blast
next
  case (other s' s P L)
  then have "ksync_ok (P, L, s') W H"
    using assms(2) ksync_rep_cong [of W H s s'] by (simp add: ksync_ok_def)
  with other show ?thesis by blast
qed

lemma ksync_reachable_ok:
  assumes "ksync_step\<^sup>*\<^sup>* (\<lambda>_. None, {}, s0) c" "\<And>t. tasks s0 t = zero_task" "\<And>m. kmutexes s0 m = zero_mutex"
  shows "\<exists>W H. ksync_ok c W H"
  using assms(1)
proof (induction rule: rtranclp_induct)
  case base
  have "ksync_ok (\<lambda>_. None, {}, s0) (\<lambda>_. []) (\<lambda>_. [])"
    by (simp add: ksync_ok_def ksync_rep_def whead_def wtail_def waits_def owned_def owner_def assms(2,3)
        zero_task_def zero_mutex_def)
  then show ?case by blast
next
  case (step c c')
  then show ?case using ksync_step_ok by blast
qed


lemma kmutex_wake_resumes:
  assumes "whead s m = Some t"
  shows "\<not> ts_paused (tasks (snd (kmutex_wake m w s)) t)"
  using assms by (simp add: kmutex_wake_def kmutex_claim_def task_resume_def kern_upds whead_def Let_def)

section \<open>Properties\<close>


text \<open>Task 0 in a system call, the first to lock.\<close>

definition first_lock :: kern_t where
  "first_lock = upd_task 0 (\<lambda>x. x\<lparr>ts_enabled := True, ts_in_syscall := True\<rparr>) (boot_kern\<lparr>current_task := 0\<rparr>)"

lemma first_lock_run:
  "ksync_step\<^sup>*\<^sup>* (\<lambda>_. None, {}, boot_kern) (\<lambda>_. None, {(0, 0x100)}, kmutex_claim 0x100 0 first_lock)"
proof -
  have f: "nextw first_lock = nextw boot_kern" "waits first_lock = waits boot_kern" "owned first_lock = owned boot_kern"
    "onext first_lock = onext boot_kern" "owner first_lock = owner boot_kern" "whead first_lock = whead boot_kern"
    "wtail first_lock = wtail boot_kern"
    by (simp_all add: fun_eq_iff nextw_def waits_def owned_def onext_def owner_def whead_def wtail_def first_lock_def upd_task_def)
  have "ksync_step (\<lambda>_. None, {}, boot_kern) (\<lambda>_. None, {}, first_lock)" by (rule ksync_step.other [OF f])
  moreover have "kmutex_lock 0x100 first_lock = Lock_done (kmutex_claim 0x100 0 first_lock)"
    by (simp add: kmutex_lock_def first_lock_def upd_task_def boot_kern_def zero_mutex_def Let_def)
  then have "ksync_step (\<lambda>_. None, {}, first_lock) (\<lambda>_. None, {(0, 0x100)}, kmutex_claim 0x100 0 first_lock)"
    by (intro ksync_step.lock) (simp_all add: first_lock_def upd_task_def)
  ultimately show ?thesis by (meson converse_rtranclp_into_rtranclp rtranclp.rtrancl_refl)
qed


text \<open>
  Unlocking hands the mutex on in the order of arrival. When the current task has acquired
  \<open>m\<close>, whose queue is \<open>W m\<close>, \<open>kmutex_unlock\<close> returns true; the first waiting task is the
  new owner, runnable and out of the queue, or nobody owns \<open>m\<close> if none waits; the rest of the queue
  keeps its order, and owner and queue of every other mutex are unchanged.
\<close>

theorem kmutex_unlock_fifo:
  assumes "ksync_step\<^sup>*\<^sup>* (\<lambda>_. None, {}, s0) (P, L, s)"
    and "\<And>t. tasks s0 t = zero_task" and "\<And>m. kmutexes s0 m = zero_mutex"
    and "P (nat (current_task s)) = None" and "(nat (current_task s), m) \<in> L"
  shows "\<exists>W H s' H'. ksync_rep W H s \<and> kmutex_unlock m s = Some (True, s')
    \<and> ksync_rep (W(m := tl (W m))) H' s'
    \<and> (\<forall>x. mx_owner (kmutexes s' x) =
         (if x = m then (if W m = [] then None else Some (hd (W m))) else mx_owner (kmutexes s x)))
    \<and> (W m \<noteq> [] \<longrightarrow> \<not> ts_paused (tasks s' (hd (W m))))"
proof -
  let ?t = "nat (current_task s)"
  obtain W H where ok: "ksync_ok (P, L, s) W H" using ksync_reachable_ok [OF assms(1-3)] by blast
  have rep: "ksync_rep W H s" and o: "owner s m = Some ?t" using ksync_okD(1,3) [OF ok] assms(5) by auto
  obtain u H' where u: "kmutex_release ?t m False s = Some (None, u)" "ksync_ok (P, L - {(?t, m)}, u) (W(m := tl (W m))) H'"
    "owner u = (owner s)(m := if W m = [] then None else Some (hd (W m)))"
    using release_ok [OF ok assms(4) o, of False thesis] by auto
  have "\<not> ts_paused (tasks u (hd (W m)))" if "W m \<noteq> []"
  proof -
    obtain xs ys where H: "H ?t = xs @ m # ys"
      using ksync_repD(5) [OF rep, of m ?t] o by (meson split_list)
    have "whead s m = Some (hd (W m))" using ksync_repD(1) [OF rep, of m] that by (cases "W m") auto
    with kmutex_release_eq [OF rep H, of False] u(1) kmutex_wake_resumes show ?thesis
      by (metis kmutex_disown_fields(3) option.inject snd_conv)
  qed
  moreover have "kmutex_unlock m s = Some (True, u)" using u(1) o by (simp add: kmutex_unlock_def owner_def Let_def)
  ultimately show ?thesis
    using rep ksync_okD(1) [OF u(2)] fun_cong [OF u(3)] unfolding owner_def
    by (intro exI [of _ W] exI [of _ H] exI [of _ u] exI [of _ H']) auto
qed

theorem kmutex_unlock_fifo_witness:
  "\<exists>s'. kmutex_unlock 0x100 (kmutex_claim 0x100 0 first_lock) = Some (True, s')"
  using kmutex_unlock_fifo [OF first_lock_run, of "0x100"]
  by (auto simp: boot_kern_def first_lock_def kmutex_claim_def kern_upds Let_def)

text \<open>
  C11: \<open>ksync_cleanup_task\<close> always ends, and leaves no trace of the ended task: it waits in no
  queue and holds no mutex; each mutex it held belongs to the first task waiting for it, or to nobody; the
  other waiting tasks keep their order and every other mutex its owner.
\<close>

theorem ksync_cleanup_complete:
  assumes "ksync_rep W H s"
  shows "\<exists>u W' H'. ksync_cleanup_task t s = Some u \<and> ksync_rep W' H' u
    \<and> H' t = [] \<and> ts_mutex (tasks u t) = None
    \<and> (\<forall>m. W' m = (if m \<in> set (H t) then tl (remove1 t (W m)) else remove1 t (W m)))
    \<and> (\<forall>m. mx_owner (kmutexes u m) =
         (if m \<in> set (H t) then (if remove1 t (W m) = [] then None else Some (hd (remove1 t (W m))))
          else mx_owner (kmutexes s m)))"
proof -
  obtain v where v: "ksync_leave_queue t s = Some v" "ksync_rep (\<lambda>m. remove1 t (W m)) H v"
    using ksync_leave_queue_rep [OF assms, of t thesis] by blast
  have n: "t \<notin> set (remove1 t (W m))" for m using is_list_distinct [OF ksync_repD(1) [OF assms]] by simp
  obtain u W' H' where u: "ksync_release_all t v = Some u" "ksync_rep W' H' u" "H' t = []"
    "\<And>m. W' m = (if m \<in> set (H t) then tl (remove1 t (W m)) else remove1 t (W m))"
    "\<And>m. owner u m = (if m \<in> set (H t) then (if remove1 t (W m) = [] then None else Some (hd (remove1 t (W m))))
       else owner v m)" using ksync_release_all_rep [OF v(2) n] by blast
  have "t \<notin> set (W' m)" for m using u(4) [of m] n [of m] by (cases "remove1 t (W m)") auto
  then have "waits u t = None" using waits_None [OF u(2)] by blast
  moreover have "owner v m = owner s m" for m by (rule owner_same [OF assms v(2)]) simp
  ultimately show ?thesis using u v(1) unfolding waits_def owner_def
    by (intro exI [of _ u] exI [of _ W'] exI [of _ H']) (simp add: ksync_cleanup_task_def)
qed

lemma boot_rep: "ksync_rep (\<lambda>_. []) (\<lambda>_. []) boot_kern"
  by (simp add: ksync_rep_def whead_def wtail_def waits_def owned_def owner_def boot_kern_def zero_task_def zero_mutex_def)

theorem ksync_cleanup_complete_witness:
  "\<exists>u. ksync_cleanup_task 0 (kmutex_claim 0x100 0 boot_kern) = Some u \<and> mx_owner (kmutexes u 0x100) = None"
proof -
  have "ksync_rep (\<lambda>_. []) ((\<lambda>_. [])(0 := [0x100])) (kmutex_claim 0x100 0 boot_kern)"
    using kmutex_claim_rep [OF boot_rep, of "0x100" 0] by (simp add: owner_def boot_kern_def zero_mutex_def)
  from ksync_cleanup_complete [OF this, of 0] show ?thesis by auto
qed

end
