(* ===== verification/Usermem.thy ===== *)
theory Usermem
  imports Sched
begin

text \<open>
  Access of the kernel to the memory of a user task (\<open>tasks.c\<close>): demand paging of the heap, the
  validation of pointers that come from user space, and the copies in both directions. An access of the
  kernel goes through the page directory of the task; an access to a page that is not present is a page
  fault, the value \<^const>\<open>None\<close>. The theorems say that validated copies never fault, never reach
  memory the user could not reach itself, and transfer exactly the bytes they report.
\<close>

section \<open>Model\<close>

abbreviation task_proc :: "'a kern_t_scheme \<Rightarrow> nat \<Rightarrow> process_t" where
  "task_proc s t \<equiv> processes s (ts_process (tasks s t))"

definition task_addr_demand_paged :: "'a kern_t_scheme \<Rightarrow> nat \<Rightarrow> u32 \<Rightarrow> bool" where
  "task_addr_demand_paged s t addr \<longleftrightarrow>
     addr \<ge> pr_heap_start (task_proc s t) \<and> addr < pr_heap_end (task_proc s t)"

definition zero_frame :: "u32 \<Rightarrow> nat \<Rightarrow> 'a kern_t_scheme \<Rightarrow> 'a kern_t_scheme" where
  "zero_frame p n s = s\<lparr>phys_mem := (\<lambda>a. if a - p < of_nat n then 0 else phys_mem s a)\<rparr>"

definition task_demand_map :: "u32 \<Rightarrow> u32 \<Rightarrow> 'a kern_t_scheme \<Rightarrow> bool \<times> 'a kern_t_scheme" where
  "task_demand_map process addr0 s =
     (let addr = addr0 AND NOT PAGE_MASK;
          dir = pr_page_dir (processes s process);
          mapping = page_checkmapping dir addr s
      in if mapping = PAGE_USERRW then (True, s)
         else if mapping \<noteq> PAGE_NOTPRESENT then (False, s)
         else let (page, s1) = malloc 0x1000 s
              in if page = 0 then (False, s1)
                 else let s2 = zero_frame page 0x1000 s1;
                          (ok, s3) = map_page dir page addr 1 1 0 s2
                      in if \<not> ok then (False, free page 0x1000 s3)
                         else (True, invlpg addr s3))"

text \<open>The pages of a range, and the result of \<open>task_prefault\<close> when it stops at page \<open>i\<close>.\<close>

definition range_pages :: "u32 \<Rightarrow> int \<Rightarrow> nat" where
  "range_pages vaddr len = (nat len + unat (vaddr AND PAGE_MASK) + 0xFFF) div 0x1000"

definition range_page :: "u32 \<Rightarrow> nat \<Rightarrow> u32" where
  "range_page vaddr i = (vaddr AND NOT PAGE_MASK) + of_nat i * PAGE_SIZE"

fun task_prefault_loop :: "nat \<Rightarrow> u32 \<Rightarrow> int \<Rightarrow> nat list \<Rightarrow> 'a kern_t_scheme \<Rightarrow> int \<times> 'a kern_t_scheme" where
  "task_prefault_loop t vaddr sz [] s = (sz, s)"
| "task_prefault_loop t vaddr sz (i # is) s =
     (let page_addr = range_page vaddr i;
          stop = (if i = 0 then 0 else s32 (uint (page_addr - vaddr)))
      in if page_checkmapping (pr_page_dir (task_proc s t)) page_addr s = PAGE_USERRW
         then task_prefault_loop t vaddr sz is s
         else if \<not> task_addr_demand_paged s t page_addr then (stop, s)
         else case task_demand_map (ts_process (tasks s t)) page_addr s of
                (False, s') \<Rightarrow> (stop, s')
              | (True, s') \<Rightarrow> task_prefault_loop t vaddr sz is s')"

definition task_prefault :: "nat \<Rightarrow> u32 \<Rightarrow> int \<Rightarrow> 'a kern_t_scheme \<Rightarrow> int \<times> 'a kern_t_scheme" where
  "task_prefault t mem sz s = task_prefault_loop t mem sz [0..<range_pages mem sz] s"

text \<open>Whether the kernel accepts a page for reading or writing on behalf of the task.\<close>

definition page_accepted :: "'a kern_t_scheme \<Rightarrow> nat \<Rightarrow> bool \<Rightarrow> u32 \<Rightarrow> bool" where
  "page_accepted s t rw page_addr \<longleftrightarrow>
     page_checkmapping (pr_page_dir (task_proc s t)) page_addr s \<ge> (if rw then PAGE_USERRW else PAGE_USERREAD)
     \<or> (rw \<and> task_addr_demand_paged s t page_addr)"

definition task_validate_mem :: "nat \<Rightarrow> u32 \<Rightarrow> int \<Rightarrow> bool \<Rightarrow> 'a kern_t_scheme \<Rightarrow> bool" where
  "task_validate_mem t mem len rw s =
     (if len < 0 then False
      else if len = 0 then True
      else list_all (\<lambda>i. page_accepted s t rw (range_page mem i)) [0..<range_pages mem len])"

definition task_validate_maxsize :: "nat \<Rightarrow> u32 \<Rightarrow> int \<Rightarrow> bool \<Rightarrow> 'a kern_t_scheme \<Rightarrow> int" where
  "task_validate_maxsize t mem mx rw s =
     (if mx < 0 then - 1
      else if mx = 0 then 0
      else let maxpages = length (takeWhile (\<lambda>i. page_accepted s t rw (range_page mem i)) [0..<range_pages mem mx])
           in if maxpages = 0 then 0
              else let maxsize = s32 (int maxpages * 0x1000 - uint (mem AND PAGE_MASK))
                   in if maxsize < mx then maxsize else mx)"

text \<open>\<open>strnlen\<close> on memory the kernel reads through the page directory of the task.\<close>

fun user_strnlen :: "(u32 \<Rightarrow> u8) \<Rightarrow> u32 \<Rightarrow> nat \<Rightarrow> nat" where
  "user_strnlen rd v 0 = 0"
| "user_strnlen rd v (Suc n) = (if rd v = 0 then 0 else Suc (user_strnlen rd (v + 1) n))"

definition user_byte :: "u32 \<Rightarrow> 'a kern_t_scheme \<Rightarrow> u32 \<Rightarrow> u8" where
  "user_byte dir s v = phys_mem s (page_getphysical dir v s)"

definition task_validate_str :: "nat \<Rightarrow> u32 \<Rightarrow> int \<Rightarrow> 'a kern_t_scheme \<Rightarrow> int" where
  "task_validate_str t str maxlen s =
     (if maxlen < 0 then - 1
      else if maxlen = 0 then 0
      else let dir = pr_page_dir (task_proc s t);
               maxpages = length (takeWhile (\<lambda>i. page_checkmapping dir (range_page str i) s \<ge> PAGE_USERREAD)
                                   [0..<range_pages str maxlen])
           in if maxpages = 0 then - 1
              else let mappedsize = s32 (int maxpages * 0x1000 - uint (str AND PAGE_MASK));
                       limit = (if mappedsize < maxlen then mappedsize else maxlen);
                       len = int (user_strnlen (user_byte dir s) str (nat limit))
                   in if len = limit then (if limit < maxlen then - 1 else - 2) else len)"

text \<open>\<open>memcpy\<close> to and from virtual memory; \<^const>\<open>None\<close> is a page fault.\<close>

fun store_bytes :: "u32 \<Rightarrow> u32 \<Rightarrow> u8 list \<Rightarrow> 'a kern_t_scheme \<Rightarrow> 'a kern_t_scheme option" where
  "store_bytes dir v [] s = Some s"
| "store_bytes dir v (b # bs) s =
     (if page_checkmapping dir v s = PAGE_NOTPRESENT then None
      else store_bytes dir (v + 1) bs (s\<lparr>phys_mem := (phys_mem s)(page_getphysical dir v s := b)\<rparr>))"

fun load_bytes :: "u32 \<Rightarrow> u32 \<Rightarrow> nat \<Rightarrow> 'a kern_t_scheme \<Rightarrow> u8 list option" where
  "load_bytes dir v 0 s = Some []"
| "load_bytes dir v (Suc n) s =
     (if page_checkmapping dir v s = PAGE_NOTPRESENT then None
      else map_option (Cons (user_byte dir s v)) (load_bytes dir (v + 1) n s))"

text \<open>A buffer of the kernel itself is identity mapped.\<close>

fun store_kernel :: "u32 \<Rightarrow> u8 list \<Rightarrow> 'a kern_t_scheme \<Rightarrow> 'a kern_t_scheme" where
  "store_kernel a [] s = s"
| "store_kernel a (b # bs) s = store_kernel (a + 1) bs (s\<lparr>phys_mem := (phys_mem s)(a := b)\<rparr>)"

definition copy_to_task :: "int \<Rightarrow> u32 \<Rightarrow> u8 list \<Rightarrow> 'a kern_t_scheme \<Rightarrow> (int \<times> 'a kern_t_scheme) option" where
  "copy_to_task task dest src s =
     (if task < 0 then Some (s32 (int (length src)), store_kernel dest src s)
      else let t = nat task;
               sz = s32 (int (length src));
               maxsize = task_validate_maxsize t dest sz True s
           in if maxsize < 0 \<or> (src \<noteq> [] \<and> maxsize = 0) then Some (- 1, s)
              else let (m, s1) = task_prefault t dest maxsize s
                   in if src \<noteq> [] \<and> m = 0 then Some (- 1, s1)
                      else let old_dir = current_page_dir s1;
                               task_dir = pr_page_dir (task_proc s1 t);
                               s2 = (if task_dir \<noteq> old_dir then swap_pagedir task_dir s1 else s1)
                           in case store_bytes task_dir dest (take (nat m) src) s2 of
                                None \<Rightarrow> None
                              | Some s3 \<Rightarrow> Some (m, if task_dir \<noteq> old_dir then swap_pagedir old_dir s3 else s3))"

text \<open>The destination in the kernel receives the bytes returned.\<close>

definition copy_from_task :: "int \<Rightarrow> u32 \<Rightarrow> nat \<Rightarrow> 'a kern_t_scheme \<Rightarrow> (int \<times> u8 list) option" where
  "copy_from_task task src sz s =
     (if task < 0 then Some (s32 (int sz), map (\<lambda>i. phys_mem s (src + of_nat i)) [0..<sz])
      else let t = nat task;
               maxsize = task_validate_maxsize t src (s32 (int sz)) False s
           in if maxsize < 0 \<or> (sz > 0 \<and> maxsize = 0) then Some (- 1, [])
              else map_option (Pair maxsize) (load_bytes (pr_page_dir (task_proc s t)) src (nat maxsize) s))"

section \<open>Addresses of a range\<close>

lemma unat_and_mask: "unat (v AND 0xFFF) = unat v mod 4096" for v :: u32
  by (simp add: mask_12 unsigned_take_bit_eq flip: take_bit_eq_mask) (simp add: take_bit_eq_mod)

lemma unat_u32_less: "unat (v :: u32) < 2 ^ 32"
  using unsigned_less [of v, where ?'a = nat] by simp

lemma mod_pages: "(4096 * q + r) mod 4294967296 = 4096 * (q mod 1048576) + r" if "r < 4096" for q r :: nat
proof -
  have "(4096 * q + r) mod (4096 * 1048576) = 4096 * ((4096 * q + r) div 4096 mod 1048576) + (4096 * q + r) mod 4096"
    by (rule mod_mult2_eq)
  with that show ?thesis by simp
qed

lemma range_page_of:
  "(v + of_nat k) AND NOT 0xFFF = range_page v ((unat (v AND 0xFFF) + k) div 4096)"
proof -
  obtain q r where v: "unat v = 4096 * q + r" "r < 4096"
    by (metis mult_div_mod_eq mod_less_divisor zero_less_numeral)
  have "unat v + k = 4096 * (q + (r + k) div 4096) + (r + k) mod 4096"
    using v(1) mult_div_mod_eq [of 4096 "r + k"] by (simp add: distrib_left)
  moreover have "unat (v + of_nat k) = (unat v + k) mod 4294967296"
    by (simp add: unat_word_ariths unsigned_of_nat take_bit_eq_mod mod_simps)
  ultimately have "unat (v + of_nat k) = (4096 * (q + (r + k) div 4096) + (r + k) mod 4096) mod 4294967296"
    by metis
  then have a: "unat (v + of_nat k) = 4096 * ((q + (r + k) div 4096) mod 1048576) + (r + k) mod 4096"
    by (subst (asm) mod_pages) simp_all
  have "unat (v AND NOT 0xFFF) = 4096 * q" unfolding unat_align v(1) using v(2) by simp
  then have "unat (range_page v i) = (4096 * q + 4096 * i) mod 4294967296" for i
    by (simp add: range_page_def unat_word_ariths unsigned_of_nat take_bit_eq_mod mod_simps mult.commute)
  then have "unat (range_page v i) = 4096 * ((q + i) mod 1048576)" for i
    using mod_pages [of 0 "q + i"] by (simp add: distrib_left)
  moreover have "unat (v AND 0xFFF) = r" using v by (simp add: unat_and_mask)
  ultimately show ?thesis unfolding word_unat_eq_iff unat_align a by simp
qed

lemma page_no_align: "page_no (v AND NOT 0xFFF) = page_no v"
  unfolding page_no_def unat_align by (simp add: minus_mod_eq_mult_div)

lemma checkmapping_align: "page_checkmapping d (v AND NOT 0xFFF) s = page_checkmapping d v s"
  by (simp only: page_checkmapping_pte page_no_align)

text \<open>The bytes of a range lie exactly in its pages.\<close>

lemma range_pages_iff:
  assumes "0 < len"
  shows "(\<forall>i < range_pages v len. Q (range_page v i)) \<longleftrightarrow> (\<forall>k < nat len. Q ((v + of_nat k) AND NOT 0xFFF))"
proof -
  let ?o = "unat (v AND 0xFFF)"
  have o: "?o < 4096" by (simp add: unat_and_mask)
  have n: "range_pages v len = (nat len + ?o + 4095) div 4096" by (simp add: range_pages_def)
  have "\<exists>k < nat len. (?o + k) div 4096 = i" if "i < range_pages v len" for i
  proof (cases "i = 0")
    case True
    with assms o show ?thesis by (intro exI [of _ 0]) simp
  next
    case False
    have "Suc i * 4096 \<le> nat len + ?o + 4095" using that n by (metis Suc_leI less_eq_div_iff_mult_less_eq zero_less_numeral)
    then have "i * 4096 - ?o < nat len" using False o by simp
    moreover have "(?o + (i * 4096 - ?o)) div 4096 = i"
      using False o by (cases i) simp_all
    ultimately show ?thesis by blast
  qed
  moreover have "(?o + k) div 4096 < range_pages v len" if "k < nat len" for k
  proof -
    have "(?o + k) div 4096 \<le> (nat len + ?o - 1) div 4096" using that by (intro div_le_mono) simp
    also have "\<dots> < (nat len + ?o + 4095) div 4096"
    proof -
      have "nat len + ?o + 4095 = (nat len + ?o - 1) + 4096" using assms by simp
      then show ?thesis by (metis div_add_self2 less_add_one zero_neq_numeral)
    qed
    finally show ?thesis using n by simp
  qed
  ultimately show ?thesis unfolding range_page_of by metis
qed

section \<open>Validation\<close>

lemma validate_mem_bytes:
  assumes "0 \<le> len"
  shows "task_validate_mem t v len rw s \<longleftrightarrow>
    (\<forall>k < nat len. page_accepted s t rw ((v + of_nat k) AND NOT 0xFFF))"
proof (cases "len = 0")
  case False
  with assms range_pages_iff [of len v "page_accepted s t rw"] show ?thesis
    unfolding task_validate_mem_def by (simp add: list_all_iff Ball_def)
qed (simp add: task_validate_mem_def)


text \<open>
  The part of a range before its first page that is not accepted, as \<open>task_validate_maxsize\<close> and
  \<open>task_validate_str\<close> compute it.
\<close>

definition mapped_prefix :: "(u32 \<Rightarrow> bool) \<Rightarrow> u32 \<Rightarrow> int \<Rightarrow> int" where
  "mapped_prefix Q v mx =
     (let n = length (takeWhile (\<lambda>i. Q (range_page v i)) [0..<range_pages v mx])
      in if n = 0 then 0
         else let z = s32 (int n * 0x1000 - uint (v AND 0xFFF)) in if z < mx then z else mx)"

lemma mapped_prefix_spec:
  assumes mx: "0 < mx" "mx \<le> 0x7FFFE000"
  shows "0 \<le> mapped_prefix Q v mx \<and> mapped_prefix Q v mx \<le> mx
    \<and> (\<forall>k < nat (mapped_prefix Q v mx). Q ((v + of_nat k) AND NOT 0xFFF))
    \<and> (mapped_prefix Q v mx < mx \<longrightarrow> \<not> Q ((v + of_nat (nat (mapped_prefix Q v mx))) AND NOT 0xFFF))"
proof -
  let ?o = "unat (v AND 0xFFF)" and ?p = "range_pages v mx"
  define n where "n = length (takeWhile (\<lambda>i. Q (range_page v i)) [0..<?p])"
  have o: "?o < 4096" "uint (v AND 0xFFF) = int ?o" by (simp add: unat_and_mask) (rule uint_nat)
  have p: "?p = (nat mx + ?o + 4095) div 4096" by (simp add: range_pages_def)
  have np: "n \<le> ?p" unfolding n_def by (metis length_takeWhile_le length_upt diff_zero)
  have le: "?p * 4096 \<le> nat mx + ?o + 4095" unfolding p by simp
  have ge: "nat mx + ?o \<le> ?p * 4096" unfolding p using div_mult_mod_eq [of "nat mx + ?o + 4095" 4096] mod_less_divisor [of 4096 "nat mx + ?o + 4095"] by linarith
  have Q: "Q (range_page v i)" if "i < n" for i
  proof -
    have "takeWhile (\<lambda>i. Q (range_page v i)) [0..<?p] ! i = i"
      using that np unfolding n_def by (simp add: takeWhile_nth)
    with that show ?thesis unfolding n_def by (metis nth_mem set_takeWhileD)
  qed
  have nQ: "\<not> Q (range_page v n)" if "n < ?p"
    using nth_length_takeWhile [of "\<lambda>i. Q (range_page v i)" "[0..<?p]"] that unfolding n_def by simp
  show ?thesis
  proof (cases "n = 0")
    case True
    then have r: "mapped_prefix Q v mx = 0" by (simp add: mapped_prefix_def n_def [symmetric])
    have "0 < ?p" using ge mx by (cases ?p) auto
    with nQ True o have "\<not> Q ((v + of_nat 0) AND NOT 0xFFF)" unfolding range_page_of by simp
    with r mx show ?thesis by simp
  next
    case False
    have "n * 4096 \<le> nat mx + ?o + 4095" using np le by (meson mult_le_mono1 order_trans)
    then have "int n * 4096 \<le> mx + int ?o + 4095" using mx by linarith
    then have b: "int (n * 4096) - int ?o < 2 ^ 31" using mx by simp
    have "?o \<le> n * 4096" using False o(1) by (cases n) simp_all
    then have e: "int n * 0x1000 - uint (v AND 0xFFF) = int (n * 4096 - ?o)" unfolding o(2) by (simp add: of_nat_diff)
    have "int (n * 4096 - ?o) < 2 ^ 31" using b \<open>?o \<le> n * 4096\<close> by (simp only: of_nat_diff)
    then have z: "s32 (int n * 0x1000 - uint (v AND 0xFFF)) = int (n * 4096 - ?o)"
      unfolding e by (intro s32_id) simp_all
    define r where "r = (if int (n * 4096 - ?o) < mx then int (n * 4096 - ?o) else mx)"
    have r: "mapped_prefix Q v mx = r"
      using False z by (simp add: mapped_prefix_def n_def [symmetric] r_def Let_def)
    have rn: "nat r \<le> n * 4096 - ?o" unfolding r_def by (simp add: nat_le_iff)
    have "(?o + k) div 4096 < n" if "k < nat r" for k
    proof -
      have "?o + k < n * 4096" using that rn by linarith
      then show ?thesis by (simp add: div_less_iff_less_mult)
    qed
    then have a: "\<forall>k < nat r. Q ((v + of_nat k) AND NOT 0xFFF)" unfolding range_page_of using Q by blast
    have "\<not> Q ((v + of_nat (nat r)) AND NOT 0xFFF)" if "r < mx"
    proof -
      have e: "r = int (n * 4096 - ?o)" and l: "int (n * 4096 - ?o) < mx" using that unfolding r_def by (auto split: if_splits)
      have on: "?o \<le> n * 4096" using False o(1) by (cases n) simp_all
      have "n \<noteq> ?p"
      proof
        assume "n = ?p"
        then have "nat mx + ?o \<le> n * 4096" using ge by simp
        then have "nat mx \<le> n * 4096 - ?o" by linarith
        then show False using l by (simp add: nat_le_iff)
      qed
      with np have "n < ?p" by simp
      moreover have "(?o + nat r) div 4096 = n"
      proof -
        have "?o + nat r = n * 4096" unfolding e nat_int using on by (rule le_add_diff_inverse)
        then show ?thesis by simp
      qed
      ultimately show ?thesis unfolding range_page_of using nQ by simp
    qed
    moreover have "0 \<le> r" "r \<le> mx" using mx unfolding r_def by auto
    ultimately show ?thesis using a unfolding r by simp
  qed
qed

lemma validate_maxsize_prefix:
  "0 < mx \<Longrightarrow> task_validate_maxsize t v mx rw s = mapped_prefix (page_accepted s t rw) v mx"
  by (simp add: task_validate_maxsize_def mapped_prefix_def Let_def)


section \<open>Demand paging\<close>

lemma map_page_kern_fields [simp]:
  fixes s :: "'a kern_t_scheme"
  shows "processes (snd (map_page d pa va user rw nc s)) = processes s"
    "tasks (snd (map_page d pa va user rw nc s)) = tasks s"
    "phys_mem (snd (map_page d pa va user rw nc s)) = phys_mem s"
    "kobj_insts (snd (map_page d pa va user rw nc s)) = kobj_insts s"
    "fs_pipes (snd (map_page d pa va user rw nc s)) = fs_pipes s"
  by (auto simp: map_page_def map_ensure_table_def set_pte_def set_pde_def invlpg_def Let_def split_beta
      split: bool.splits)

lemma invlpg_kern_fields [simp]:
  fixes s :: "'a kern_t_scheme"
  shows "processes (invlpg v s) = processes s" "tasks (invlpg v s) = tasks s" "phys_mem (invlpg v s) = phys_mem s"
    "fs_pipes (invlpg v s) = fs_pipes s"
  by (simp_all add: invlpg_def)

text \<open>
  What adding pages to user memory keeps: the structure of the page directories, every translation that
  existed, and the contents of every frame that was in use.
\<close>

definition grows_user :: "u32 set \<Rightarrow> 'a kern_t_scheme \<Rightarrow> 'a kern_t_scheme \<Rightarrow> bool" where
  "grows_user D s t \<longleftrightarrow> page_inv D t \<and> processes t = processes s \<and> tasks t = tasks s \<and> fs_pipes t = fs_pipes s
     \<and> (\<forall>d\<in>D. \<forall>v. page_checkmapping d v s \<noteq> PAGE_NOTPRESENT \<longrightarrow>
          page_checkmapping d v t = page_checkmapping d v s \<and> page_getphysical d v t = page_getphysical d v s)
     \<and> (\<forall>p. used_page s p \<longrightarrow> used_page t p)
     \<and> (\<forall>x. used_page s (x AND NOT 0xFFF) \<longrightarrow> phys_mem t x = phys_mem s x)"

lemma grows_user_refl: "page_inv D s \<Longrightarrow> grows_user D s s"
  by (simp add: grows_user_def)

lemma grows_user_trans: "grows_user D s t \<Longrightarrow> grows_user D t u \<Longrightarrow> grows_user D s u"
  unfolding grows_user_def by simp

lemma page_inv_malloc:
  assumes inv: "page_inv D s" and nz: "fst (malloc 4096 s) \<noteq> 0"
  obtains b where "b < 8192" "fst (malloc 4096 s) = block_addr b" "\<not> used_page s (block_addr b)"
    "\<And>p. used_page (snd (malloc 4096 s)) p \<longleftrightarrow> p = block_addr b \<or> used_page s p"
    "page_inv D (snd (malloc 4096 s))"
proof -
  obtain b where b: "b < 8192" "fst (malloc 4096 s) = block_addr b" "\<not> used_page s (block_addr b)"
    "\<And>p. used_page (snd (malloc 4096 s)) p \<longleftrightarrow> p = block_addr b \<or> used_page s p"
    "heap_inv (snd (malloc 4096 s))"
    using malloc_new_page [OF page_inv_parts(1) [OF inv] nz, of thesis] by blast
  have "page_inv D (snd (malloc 4096 s))" using inv b(4,5) unfolding page_inv_def by simp
  with b show ?thesis by (intro that) auto
qed

lemma page_frame_eq:
  assumes "b < 8192" "(x :: u32) - block_addr b < 0x1000"
  shows "x AND NOT 0xFFF = block_addr b"
proof -
  have ub: "unat (block_addr b) = 0x1060000 + b * 4096" using assms(1) by (intro unat_block_addr) simp
  define k where "k = unat (x - block_addr b)"
  have k: "k < 4096" using assms(2) by (simp add: k_def word_less_nat_alt)
  have "x = block_addr b + of_nat k" by (simp add: k_def)
  then have "unat x = unat (block_addr b) + k" using ub k assms(1)
    by (simp add: unat_word_ariths unsigned_of_nat take_bit_eq_mod)
  then have "unat x = 4096 * (4192 + b) + k" using ub by simp
  then show ?thesis unfolding word_unat_eq_iff unat_align using ub k by (simp only: mod_mult_self4 mod_less) simp
qed

lemma task_demand_map_spec:
  fixes s :: "'a kern_t_scheme"
  assumes inv: "page_inv D s" and d: "pr_page_dir (processes s p) \<in> D" and r: "task_demand_map p a s = (ok, t)"
  shows "grows_user D s t" and "ok \<Longrightarrow> page_checkmapping (pr_page_dir (processes s p)) a t = PAGE_USERRW"
proof -
  let ?dir = "pr_page_dir (processes s p)" and ?a = "a AND NOT 0xFFF"
  have "grows_user D s t \<and> (ok \<longrightarrow> page_checkmapping ?dir a t = PAGE_USERRW)"
  proof (cases "page_checkmapping ?dir ?a s = PAGE_NOTPRESENT")
    case False
    with r have "t = s" "ok \<longrightarrow> page_checkmapping ?dir ?a s = PAGE_USERRW"
      by (auto simp: task_demand_map_def Let_def split: if_splits)
    then show ?thesis using grows_user_refl [OF inv] unfolding checkmapping_align by simp
  next
    case np: True
    show ?thesis
    proof (cases "fst (malloc 4096 s) = 0")
      case True
      with r np have "t = snd (malloc 4096 s)" "\<not> ok"
        by (auto simp: task_demand_map_def Let_def split_beta)
      with malloc_null_state [OF page_inv_parts(1) [OF inv] True] grows_user_refl [OF inv] show ?thesis by simp
    next
      case nz: False
      let ?s1 = "snd (malloc 4096 s)"
      obtain b where b: "b < 8192" "fst (malloc 4096 s) = block_addr b" "\<not> used_page s (block_addr b)"
        "\<And>p. used_page ?s1 p \<longleftrightarrow> p = block_addr b \<or> used_page s p" "page_inv D ?s1"
        using page_inv_malloc [OF inv nz, of thesis] by blast
      define s2 where "s2 = zero_frame (block_addr b) 4096 ?s1"
      have f2: "processes s2 = processes s" "tasks s2 = tasks s" "fs_pipes s2 = fs_pipes s"
        "page_checkmapping d v s2 = page_checkmapping d v s" "page_getphysical d v s2 = page_getphysical d v s"
        "used_page s2 = used_page ?s1" for d v
        by (simp_all add: s2_def zero_frame_def page_checkmapping_def page_getphysical_def used_page_def fun_eq_iff Let_def)
      have m2: "used_page s (x AND NOT 0xFFF) \<Longrightarrow> phys_mem s2 x = phys_mem s x" for x
        using page_frame_eq [OF b(1), of x] b(3) by (auto simp: s2_def zero_frame_def)
      have inv2: "page_inv D s2" using b(5) page_inv_cong [of s2 ?s1 D] by (simp add: s2_def zero_frame_def)
      obtain ok' s3 where m: "map_page ?dir (block_addr b) ?a 1 1 0 s2 = (ok', s3)" by fastforce
      have s3: "processes s3 = processes s2" "tasks s3 = tasks s2" "phys_mem s3 = phys_mem s2" "fs_pipes s3 = fs_pipes s2"
        using map_page_kern_fields(1,2,3,5) [of ?dir "block_addr b" ?a 1 1 0 s2] unfolding m snd_conv by blast+
      have res: "ok = ok'" "t = (if ok' then invlpg ?a s3 else free (block_addr b) 4096 s3)"
        using r np nz b(2) m by (auto simp: task_demand_map_def Let_def split_beta s2_def split: if_splits)
      note M = map_page_spec [OF inv2 d m]
      show ?thesis
      proof (cases ok')
        case True
        have pt: "pte_of s3 d' (page_no v) = pte_of s2 d' (page_no v)"
          if "d' \<in> D" "page_checkmapping d' v s \<noteq> PAGE_NOTPRESENT" for d' v
        proof (rule M(5) [OF that(1) page_no_less])
          show "(d', page_no v) \<noteq> (?dir, page_no ?a)"
            using np that(2) unfolding page_checkmapping_pte by auto
        qed
        have t: "t = invlpg ?a s3" using res True by simp
        have up: "used_page s2 p \<Longrightarrow> used_page s3 p" for p
          using map_page_keeps [OF inv2 d, of "block_addr b" ?a 1 1 0] m by (simp add: keeps_dir_def)
        have "page_checkmapping d' v t = page_checkmapping d' v s \<and> page_getphysical d' v t = page_getphysical d' v s"
          if "d' \<in> D" "page_checkmapping d' v s \<noteq> PAGE_NOTPRESENT" for d' v
        proof -
          have "page_checkmapping d' v t = page_checkmapping d' v s2 \<and> page_getphysical d' v t = page_getphysical d' v s2"
            unfolding t page_checkmapping_pte page_getphysical_pte pte_of_invlpg pt [OF that] by simp
          then show ?thesis by (simp add: f2)
        qed
        moreover have "page_checkmapping ?dir a t = PAGE_USERRW"
          using M(4) [OF True] unfolding t page_checkmapping_pte pte_of_invlpg page_no_align by auto
        moreover have "used_page t = used_page s3" by (simp add: t used_page_def fun_eq_iff)
        ultimately show ?thesis
          unfolding grows_user_def using M(1) f2 s3 m2 up b(4) res True by (simp add: t)
      next
        case False
        then have s32: "s3 = s2" using M(2) by simp
        have t: "t = free (block_addr b) 4096 s2" using res False s32 by simp
        note F = free_used_page [OF page_inv_parts(1) [OF inv2] b(1)]
        have u: "used_page t p \<longleftrightarrow> used_page s p" for p unfolding t F(2) f2(6) b(4) using b(3) by auto
        have "page_inv D t"
          using inv F(1) unfolding page_inv_def u by (simp add: t s2_def zero_frame_def)
        moreover have "page_checkmapping d' v t = page_checkmapping d' v s2" "page_getphysical d' v t = page_getphysical d' v s2"
          for d' v by (simp_all add: t page_checkmapping_def page_getphysical_def Let_def)
        ultimately show ?thesis
          unfolding grows_user_def using f2 m2 u res(1) False by (simp add: t)
      qed
    qed
  qed
  then show "grows_user D s t" "ok \<Longrightarrow> page_checkmapping ?dir a t = PAGE_USERRW" by auto
qed


lemma int_less_u32: "int n < 2 ^ 31 \<Longrightarrow> n < 2 ^ 32"
  by simp

lemma prefault_stop:
  assumes "0 < i" "i < range_pages v sz" "0 \<le> sz" "sz \<le> 0x7FFFE000"
  shows "s32 (uint (range_page v i - v)) = int (i * 4096 - unat (v AND 0xFFF))"
    "int (i * 4096 - unat (v AND 0xFFF)) < sz"
proof -
  let ?o = "unat (v AND 0xFFF)"
  have o: "?o < 4096" by (simp add: unat_and_mask)
  then have le: "?o \<le> i * 4096" using assms(1) by (cases i) simp_all
  have "Suc i * 4096 \<le> nat sz + ?o + 4095"
    using assms(2) by (metis Suc_leI less_eq_div_iff_mult_less_eq zero_less_numeral range_pages_def)
  then have lt: "i * 4096 < nat sz + ?o" by simp
  then show sz: "int (i * 4096 - ?o) < sz" using le assms(3) by linarith
  have "unat v < 2 ^ 32" by (rule unat_u32_less)
  then have "unat (v AND NOT 0xFFF) + unat (v AND 0xFFF) = unat v" "unat v mod 4294967296 = unat v"
    unfolding unat_align unat_and_mask by simp_all
  then have "v = (v AND NOT 0xFFF) + (v AND 0xFFF)" unfolding word_unat_eq_iff unat_word_ariths by simp
  then have "range_page v i - v = of_nat i * 0x1000 - (v AND 0xFFF)"
    unfolding range_page_def by (metis add_diff_cancel_left)
  also have "\<dots> = of_nat (i * 4096 - ?o)"
    using le by (simp add: of_nat_diff)
  finally have e: "range_page v i - v = of_nat (i * 4096 - ?o)" .
  have "sz < 2 ^ 31" using assms(4) by simp
  with sz have b: "int (i * 4096 - ?o) < 2 ^ 31" by (rule less_trans)
  then have "i * 4096 - ?o < 2 ^ 32" by (rule int_less_u32)
  then have "uint (range_page v i - v) = int (i * 4096 - ?o)" unfolding e by (rule uint_of_nat_u32)
  then show "s32 (uint (range_page v i - v)) = int (i * 4096 - ?o)" using b by (metis s32_id of_nat_0_le_iff
    order_trans neg_le_0_iff_le zero_le_numeral zero_le_power)
qed

lemma task_prefault_loop_spec:
  fixes s :: "'a kern_t_scheme"
  assumes "page_inv D s" "pr_page_dir (task_proc s t) \<in> D" "0 \<le> sz" "sz \<le> 0x7FFFE000"
    "task_prefault_loop t v sz [i..<range_pages v sz] s = (m, u)" "i \<le> range_pages v sz"
    "\<And>j. j < i \<Longrightarrow> page_checkmapping (pr_page_dir (task_proc s t)) (range_page v j) s = PAGE_USERRW"
  shows "grows_user D s u \<and> 0 \<le> m \<and> m \<le> sz
    \<and> (\<forall>k < nat m. page_checkmapping (pr_page_dir (task_proc s t)) (v + of_nat k) u = PAGE_USERRW)"
  using assms
proof (induction "range_pages v sz - i" arbitrary: i s)
  case 0
  let ?dir = "pr_page_dir (task_proc s t)"
  from 0 have i: "i = range_pages v sz" by simp
  then have r: "m = sz" "u = s" using 0 by auto
  have "page_checkmapping ?dir (v + of_nat k) u = PAGE_USERRW" if "k < nat sz" for k
  proof -
    have "0 < sz" using that by simp
    from iffD1 [OF range_pages_iff [OF this, of v "\<lambda>a. page_checkmapping ?dir a s = PAGE_USERRW"]]
    show ?thesis using 0(8) that i r unfolding checkmapping_align by simp
  qed
  then show ?case using 0 r grows_user_refl by simp
next
  case (Suc x)
  let ?dir = "pr_page_dir (task_proc s t)" and ?p = "range_page v i"
  have lt: "i < range_pages v sz" using Suc(2) by simp
  then have l: "[i..<range_pages v sz] = i # [Suc i..<range_pages v sz]" by (rule upt_conv_Cons)
  let ?stop = "if i = 0 then 0 else s32 (uint (?p - v))"
  have stop: "0 \<le> ?stop \<and> ?stop \<le> sz \<and> (\<forall>k < nat ?stop. page_checkmapping ?dir (v + of_nat k) s = PAGE_USERRW)"
  proof (cases "i = 0")
    case False
    let ?o = "unat (v AND 0xFFF)"
    note P = prefault_stop [OF _ lt Suc.prems(3,4)]
    have "page_checkmapping ?dir (v + of_nat k) s = PAGE_USERRW" if "k < i * 4096 - ?o" for k
    proof -
      have "(?o + k) div 4096 < i" using that by (simp add: div_less_iff_less_mult)
      from Suc.prems(7) [OF this] show ?thesis unfolding range_page_of [symmetric] checkmapping_align .
    qed
    with P False show ?thesis by simp
  qed (use Suc.prems in simp)
  show ?case
  proof (cases "page_checkmapping ?dir ?p s = PAGE_USERRW")
    case True
    then have r: "task_prefault_loop t v sz [Suc i..<range_pages v sz] s = (m, u)"
      using Suc.prems(5) unfolding l by (simp add: Let_def)
    show ?thesis
      by (rule Suc.hyps(1) [OF _ Suc.prems(1-4) r])
        (use Suc(2) lt True Suc.prems(7) in \<open>auto simp: less_Suc_eq\<close>)
  next
    case no: False
    show ?thesis
    proof (cases "task_addr_demand_paged s t ?p")
      case False
      then have "m = ?stop" "u = s" using Suc.prems(5) no unfolding l by (simp_all add: Let_def)
      with stop grows_user_refl [OF Suc.prems(1)] show ?thesis by simp
    next
      case dp: True
      obtain ok s' where dm: "task_demand_map (ts_process (tasks s t)) ?p s = (ok, s')" by fastforce
      note G = task_demand_map_spec [OF Suc.prems(1,2) dm]
      have same: "tasks s' = tasks s" "processes s' = processes s" "page_inv D s'" using G(1) by (simp_all add: grows_user_def)
      have keep: "page_checkmapping ?dir a s' = PAGE_USERRW" if "page_checkmapping ?dir a s = PAGE_USERRW" for a
        using G(1) Suc.prems(2) that by (simp add: grows_user_def)
      show ?thesis
      proof (cases ok)
        case False
        then have "m = ?stop" "u = s'" using Suc.prems(5) no dp dm unfolding l by (simp_all add: Let_def)
        with stop keep G(1) show ?thesis by simp
      next
        case True
        then have r: "task_prefault_loop t v sz [Suc i..<range_pages v sz] s' = (m, u)"
          using Suc.prems(5) no dp dm unfolding l by (simp add: Let_def)
        have d: "pr_page_dir (task_proc s' t) = ?dir" by (simp add: same)
        have "grows_user D s' u \<and> 0 \<le> m \<and> m \<le> sz
            \<and> (\<forall>k < nat m. page_checkmapping (pr_page_dir (task_proc s' t)) (v + of_nat k) u = PAGE_USERRW)"
        proof (rule Suc.hyps(1) [OF _ same(3) _ Suc.prems(3,4) r])
          show "x = range_pages v sz - Suc i" using Suc(2) by simp
          show "pr_page_dir (task_proc s' t) \<in> D" using Suc.prems(2) d by simp
          show "Suc i \<le> range_pages v sz" using lt by simp
          show "page_checkmapping (pr_page_dir (task_proc s' t)) (range_page v j) s' = PAGE_USERRW" if "j < Suc i" for j
            using that G(2) [OF True] keep Suc.prems(7) unfolding d by (auto simp: less_Suc_eq)
        qed
        with grows_user_trans [OF G(1)] d show ?thesis by simp
      qed
    qed
  qed
qed

section \<open>Copies\<close>

lemma page_phys_mem [simp]:
  "page_checkmapping d v (s\<lparr>phys_mem := m\<rparr>) = page_checkmapping d v s"
  "page_getphysical d v (s\<lparr>phys_mem := m\<rparr>) = page_getphysical d v s"
  by (simp_all add: page_checkmapping_def page_getphysical_def Let_def)

text \<open>Where the bytes of a range live.\<close>

abbreviation phys_of :: "u32 \<Rightarrow> u32 \<Rightarrow> 'a kern_t_scheme \<Rightarrow> nat \<Rightarrow> u32" where
  "phys_of d v s k \<equiv> page_getphysical d (v + of_nat k) s"

lemma store_bytes_spec:
  assumes "\<forall>k < length bs. page_checkmapping d (v + of_nat k) s \<noteq> PAGE_NOTPRESENT"
  shows "\<exists>m. store_bytes d v bs s = Some (s\<lparr>phys_mem := m\<rparr>)
    \<and> (\<forall>a. a \<notin> phys_of d v s ` {..<length bs} \<longrightarrow> m a = phys_mem s a)
    \<and> (inj_on (phys_of d v s) {..<length bs} \<longrightarrow> (\<forall>k < length bs. m (phys_of d v s k) = bs ! k))"
  using assms
proof (induction bs arbitrary: v s)
  case Nil
  have "store_bytes d v [] s = Some (s\<lparr>phys_mem := phys_mem s\<rparr>)" by simp
  then show ?case by (intro exI [of _ "phys_mem s"]) simp
next
  case (Cons b bs)
  let ?s = "s\<lparr>phys_mem := (phys_mem s)(page_getphysical d v s := b)\<rparr>"
  have sh: "phys_of d (v + 1) s k = phys_of d v s (Suc k)" for k by (simp add: algebra_simps)
  have p: "page_checkmapping d (v + of_nat k) s \<noteq> PAGE_NOTPRESENT" if "k < Suc (length bs)" for k
    using Cons.prems that by simp
  have "\<forall>k < length bs. page_checkmapping d (v + 1 + of_nat k) ?s \<noteq> PAGE_NOTPRESENT"
    using p [of "Suc _"] by (simp add: algebra_simps)
  from Cons.IH [OF this] obtain m where m: "store_bytes d (v + 1) bs ?s = Some (?s\<lparr>phys_mem := m\<rparr>)"
    "\<forall>a. a \<notin> phys_of d (v + 1) ?s ` {..<length bs} \<longrightarrow> m a = phys_mem ?s a"
    "inj_on (phys_of d (v + 1) ?s) {..<length bs} \<longrightarrow> (\<forall>k < length bs. m (phys_of d (v + 1) ?s k) = bs ! k)" by blast
  have r: "store_bytes d v (b # bs) s = Some (s\<lparr>phys_mem := m\<rparr>)" using m(1) p [of 0] by simp
  have "m a = phys_mem s a" if "a \<notin> phys_of d v s ` {..<length (b # bs)}" for a
  proof -
    have "phys_of d v s ` {..<Suc (length bs)} = insert (phys_of d v s 0) (phys_of d (v + 1) s ` {..<length bs})"
      unfolding lessThan_Suc_eq_insert_0 sh by (simp add: image_image del: of_nat_Suc)
    with that m(2) show ?thesis by simp
  qed
  moreover have "m (phys_of d v s k) = (b # bs) ! k"
    if inj: "inj_on (phys_of d v s) {..<length (b # bs)}" and k: "k < length (b # bs)" for k
  proof (cases k)
    case 0
    have "phys_of d v s 0 \<notin> phys_of d (v + 1) s ` {..<length bs}"
      unfolding sh using inj by (fastforce dest!: inj_onD)
    with m(2) 0 show ?thesis by simp
  next
    case (Suc j)
    have "inj_on (phys_of d (v + 1) s) {..<length bs}"
    proof (rule inj_onI)
      fix x y assume xy: "x \<in> {..<length bs}" "y \<in> {..<length bs}" "phys_of d (v + 1) s x = phys_of d (v + 1) s y"
      then have "phys_of d v s (Suc x) = phys_of d v s (Suc y)" unfolding sh by simp
      from inj_onD [OF inj this] xy show "x = y" by simp
    qed
    then have "m (phys_of d (v + 1) s j) = bs ! j" using m(3) k Suc by simp
    then show ?thesis unfolding sh by (simp add: Suc)
  qed
  ultimately show ?case using r by blast
qed

lemma load_bytes_spec:
  assumes "\<forall>k < n. page_checkmapping d (v + of_nat k) s \<noteq> PAGE_NOTPRESENT"
  shows "load_bytes d v n s = Some (map (\<lambda>k. phys_mem s (phys_of d v s k)) [0..<n])"
  using assms
proof (induction n arbitrary: v)
  case (Suc n)
  have "page_checkmapping d v s \<noteq> PAGE_NOTPRESENT" using Suc.prems [rule_format, of 0] by simp
  moreover have "\<forall>k < n. page_checkmapping d (v + 1 + of_nat k) s \<noteq> PAGE_NOTPRESENT"
  proof (intro allI impI)
    fix k assume "k < n"
    then show "page_checkmapping d (v + 1 + of_nat k) s \<noteq> PAGE_NOTPRESENT"
      using Suc.prems [rule_format, of "Suc k"] by (simp add: algebra_simps)
  qed
  ultimately show ?case using Suc.IH [of "v + 1"]
    by (simp add: user_byte_def upt_conv_Cons map_Suc_upt [symmetric] algebra_simps del: upt_Suc)
qed simp


text \<open>A copy to user memory, step by step: validate, fault in, store.\<close>

lemma copy_to_task_spec:
  fixes s :: "'a kern_t_scheme"
  assumes inv: "page_inv D s" and d: "pr_page_dir (task_proc s (nat task)) \<in> D" and t: "0 \<le> task"
    and len: "length src \<le> 0x7FFFE000"
  obtains n s1 m u where "copy_to_task task dest src s = Some (n, u)" "grows_user D s s1"
    "n = - 1 \<and> u = s1 \<or> 0 \<le> n \<and> n \<le> int (length src) \<and> u = s1\<lparr>phys_mem := m\<rparr>
      \<and> (\<forall>k < nat n. page_checkmapping (pr_page_dir (task_proc s (nat task))) (dest + of_nat k) s1 = PAGE_USERRW)
      \<and> (\<forall>a. a \<notin> phys_of (pr_page_dir (task_proc s (nat task))) dest s1 ` {..<nat n} \<longrightarrow> m a = phys_mem s1 a)
      \<and> (inj_on (phys_of (pr_page_dir (task_proc s (nat task))) dest s1) {..<nat n} \<longrightarrow>
           (\<forall>k < nat n. m (phys_of (pr_page_dir (task_proc s (nat task))) dest s1 k) = src ! k))"
proof -
  let ?t = "nat task" and ?dir = "pr_page_dir (task_proc s (nat task))"
  have sz: "s32 (int (length src)) = int (length src)" using len by (intro s32_id) simp_all
  define mx where "mx = task_validate_maxsize ?t dest (int (length src)) True s"
  show ?thesis
  proof (cases "mx < 0 \<or> (src \<noteq> [] \<and> mx = 0)")
    case True
    then have "copy_to_task task dest src s = Some (- 1, s)" using t sz by (simp add: copy_to_task_def mx_def Let_def)
    with grows_user_refl [OF inv] show ?thesis using that by blast
  next
    case ok: False
    have mx: "0 \<le> mx" "mx \<le> int (length src)"
    proof -
      show "0 \<le> mx" using ok by simp
      show "mx \<le> int (length src)"
      proof (cases "src = []")
        case False
        then show ?thesis unfolding mx_def
          using validate_maxsize_prefix [of "int (length src)" ?t dest True s]
            mapped_prefix_spec [of "int (length src)" "page_accepted s ?t True" dest] len by simp
      qed (simp add: mx_def task_validate_maxsize_def)
    qed
    obtain n s1 where pf: "task_prefault ?t dest mx s = (n, s1)" by fastforce
    have P: "grows_user D s s1 \<and> 0 \<le> n \<and> n \<le> mx
        \<and> (\<forall>k < nat n. page_checkmapping ?dir (dest + of_nat k) s1 = PAGE_USERRW)"
      by (rule task_prefault_loop_spec [where i = 0]) (use inv d mx len pf in \<open>auto simp: task_prefault_def\<close>)
    show ?thesis
    proof (cases "src \<noteq> [] \<and> n = 0")
      case True
      then have "copy_to_task task dest src s = Some (- 1, s1)"
        using t sz ok pf by (simp add: copy_to_task_def mx_def [symmetric] Let_def)
      with P show ?thesis using that by blast
    next
      case False
      have fr: "tasks s1 = tasks s" "processes s1 = processes s" using P by (simp_all add: grows_user_def)
      let ?s2 = "if ?dir \<noteq> current_page_dir s1 then swap_pagedir ?dir s1 else s1"
      have sw: "page_checkmapping x v ?s2 = page_checkmapping x v s1" "page_getphysical x v ?s2 = page_getphysical x v s1"
        "phys_mem ?s2 = phys_mem s1" for x v
        by (simp_all add: swap_pagedir_def page_checkmapping_def page_getphysical_def Let_def)
      have "nat n \<le> length src" using P mx by (simp add: nat_le_iff)
      then have l: "length (take (nat n) src) = nat n" by simp
      from store_bytes_spec [of "take (nat n) src" ?dir dest ?s2]
      obtain m where m: "store_bytes ?dir dest (take (nat n) src) ?s2 = Some (?s2\<lparr>phys_mem := m\<rparr>)"
        "\<forall>a. a \<notin> phys_of ?dir dest s1 ` {..<nat n} \<longrightarrow> m a = phys_mem s1 a"
        "inj_on (phys_of ?dir dest s1) {..<nat n} \<longrightarrow> (\<forall>k < nat n. m (phys_of ?dir dest s1 k) = take (nat n) src ! k)"
        using P unfolding l sw by auto
      have "copy_to_task task dest src s = Some (n, s1\<lparr>phys_mem := m\<rparr>)"
        using t sz ok pf False m(1) fr
        by (auto simp: copy_to_task_def mx_def [symmetric] Let_def swap_pagedir_def split: if_splits)
      with P mx m(2,3) show ?thesis by (intro that [of n _ s1 m]) auto
    qed
  qed
qed

section \<open>Properties\<close>




text \<open>A process with one page of its heap at 0x8000000 to be faulted in.\<close>

definition one_process :: kern_t where
  "one_process = boot_kern\<lparr>heap_head := block_addr 1, memory_status := (\<lambda>b. b = 0),
     processes := (\<lambda>_. zero_process\<lparr>pr_page_dir := block_addr 0, pr_heap_start := 0x8000000,
       pr_heap_end := 0x8001000\<rparr>)\<rparr>"

lemma one_process_inv: "page_inv {block_addr 0} one_process"
  by (auto simp: page_inv_def one_process_def boot_kern_def heap_inv_def used_page_def zero_pde_def intro!: exI [of _ 1])

lemma one_process_dir: "pr_page_dir (task_proc one_process t) = block_addr 0"
  by (simp add: one_process_def)


text \<open>
  What the kernel writes to a task it reads back. If \<open>copy_to_task\<close> reports \<open>n > 0\<close>
  bytes and no two of these bytes share a frame, then \<open>copy_from_task\<close> of the same \<open>n\<close> bytes
  succeeds and returns the first \<open>n\<close> bytes of the source.
\<close>

theorem copy_roundtrip:
  fixes s :: "'a kern_t_scheme"
  assumes "page_inv D s" and "pr_page_dir (task_proc s (nat task)) \<in> D" and "0 \<le> task"
    and "length src \<le> 0x7FFFE000" and "copy_to_task task dest src s = Some (n, u)" and "0 < n"
    and "inj_on (\<lambda>k. page_getphysical (pr_page_dir (task_proc s (nat task))) (dest + of_nat k) u) {..<nat n}"
  shows "copy_from_task task dest (nat n) u = Some (n, take (nat n) src)"
proof -
  let ?d = "pr_page_dir (task_proc s (nat task))" and ?t = "nat task"
  obtain s1 m where c: "grows_user D s s1" "n \<le> int (length src)" "u = s1\<lparr>phys_mem := m\<rparr>"
    "\<forall>k < nat n. page_checkmapping ?d (dest + of_nat k) s1 = PAGE_USERRW"
    "inj_on (phys_of ?d dest s1) {..<nat n} \<longrightarrow> (\<forall>k < nat n. m (phys_of ?d dest s1 k) = src ! k)"
    using copy_to_task_spec [OF assms(1-4), of dest thesis] assms(5,6) by auto
  have d: "pr_page_dir (task_proc u ?t) = ?d" using c(1,3) by (simp add: grows_user_def)
  have n: "nat n \<le> length src" "n \<le> 0x7FFFE000" using c(2) assms(4) by linarith+
  have mx: "task_validate_maxsize ?t dest n False u = n"
  proof -
    have "page_accepted u ?t False ((dest + of_nat k) AND NOT 0xFFF)" if "k < nat n" for k
      using c(3,4) that d by (simp only: page_accepted_def checkmapping_align) simp
    then show ?thesis
      using mapped_prefix_spec [OF assms(6) n(2), of "page_accepted u ?t False" dest]
      by (metis validate_maxsize_prefix assms(6) order_le_imp_less_or_eq nat_mono_iff)
  qed
  have "load_bytes ?d dest (nat n) u = Some (map (\<lambda>k. phys_mem u (phys_of ?d dest u k)) [0..<nat n])"
    by (rule load_bytes_spec) (use c(3,4) in simp)
  also have "map (\<lambda>k. phys_mem u (phys_of ?d dest u k)) [0..<nat n] = take (nat n) src"
    using c(3,5) assms(7) n(1) by (intro nth_equalityI) auto
  finally have l: "load_bytes ?d dest (nat n) u = Some (take (nat n) src)" .
  have "s32 (int (nat n)) = n" using assms(6) n(2) by simp
  then show ?thesis using assms(3,6) mx l d by (simp add: copy_from_task_def Let_def)
qed

text \<open>A process whose page at 0x8000000 is present, in the third block of the heap.\<close>

definition mapped_process :: kern_t where
  "mapped_process = boot_kern\<lparr>heap_head := block_addr 3, memory_status := (\<lambda>b. b < 3), current_page_dir := block_addr 0,
     page_dirs := (\<lambda>_ i. if i = 32 then zero_pde\<lparr>pde_present := True, pde_address := frame_no (block_addr 1)\<rparr> else zero_pde),
     page_tables := (\<lambda>_ i. if i = 0 then zero_pte\<lparr>pte_present := True, pte_user := True, pte_rw := True,
       pte_address := frame_no (block_addr 2)\<rparr> else zero_pte),
     processes := (\<lambda>_. zero_process\<lparr>pr_page_dir := block_addr 0\<rparr>)\<rparr>"

lemma mapped_process_inv: "page_inv {block_addr 0} mapped_process"
proof -
  have "used_page mapped_process (block_addr b)" if "b < 3" for b
    unfolding used_page_def using that by (intro exI [of _ b]) (simp add: mapped_process_def)
  then have "used_page mapped_process (block_addr 0)" "used_page mapped_process (block_addr 1)" by simp_all
  moreover have "heap_inv mapped_process" by (auto simp: heap_inv_def mapped_process_def intro!: exI [of _ 3])
  moreover have "block_addr 1 \<noteq> block_addr 0" by (simp add: block_addr_inj)
  moreover have "table_at mapped_process d i = block_addr 1 \<and> i = 32 \<and> pde_address (page_dirs mapped_process d i) \<noteq> 0"
    if "pde_present (page_dirs mapped_process d i)" for d i
    using that frame_no_block [of 1] frame_addr_no_block [of 1]
    by (auto simp: mapped_process_def zero_pde_def split: if_splits)
  ultimately show ?thesis unfolding page_inv_def by (simp only: singleton_iff ball_simps) metis
qed

lemma mapped_process_page:
  assumes "page_no v = 0x8000"
  shows "page_checkmapping (block_addr 0) v mapped_process = PAGE_USERRW"
    "page_getphysical (block_addr 0) v mapped_process = block_addr 2 + (v AND 0xFFF)"
  using assms frame_addr_no_block [of 2]
  by (simp_all add: page_checkmapping_pte page_getphysical_pte pte_of_def mapped_process_def zero_pde_def zero_pte_def)

theorem copy_roundtrip_witness:
  "\<exists>u. copy_to_task 0 0x8000000 [7, 8] mapped_process = Some (2, u)
     \<and> copy_from_task 0 0x8000000 2 u = Some (2, [7, 8])"
proof -
  note M = mapped_process_page [unfolded page_no_def]
  have d: "pr_page_dir (task_proc mapped_process t) = block_addr 0" for t by (simp add: mapped_process_def)
  define u where "u = mapped_process\<lparr>phys_mem := (phys_mem mapped_process)(block_addr 2 := 7, block_addr 2 + 1 := 8)\<rparr>"
  have cur: "current_page_dir mapped_process = block_addr 0" by (simp add: mapped_process_def)
  have c: "copy_to_task 0 0x8000000 [7, 8] mapped_process = Some (2, u)"
    using M [of "0x8000000"] M [of "0x8000001"]
    by (simp add: copy_to_task_def task_validate_maxsize_def task_prefault_def range_pages_def range_page_def
        page_accepted_def d u_def Let_def cur)
  have "copy_from_task 0 0x8000000 (nat 2) u = Some (2, take (nat 2) [7, 8])"
  proof (rule copy_roundtrip [OF mapped_process_inv _ _ _ c])
    show "inj_on (\<lambda>k. page_getphysical (pr_page_dir (task_proc mapped_process (nat 0))) (0x8000000 + of_nat k) u) {..<nat 2}"
    proof -
      have g: "page_getphysical (block_addr 0) 0x8000000 u = block_addr 2"
        "page_getphysical (block_addr 0) 0x8000001 u = block_addr 2 + 1"
        using M(2) [of "0x8000000"] M(2) [of "0x8000001"] by (simp_all add: u_def)
      have "{..<nat 2} = {0, 1}" by auto
      with g show ?thesis by (simp add: d)
    qed
  qed (simp_all add: d)
  with c show ?thesis by auto
qed

end
