(* ===== verification/Pipe.thy ===== *)
theory Pipe
  imports Usermem
begin

text \<open>
  Pipes and the close of open files (\<open>fs.c\<close>). A pipe is a ring of 4096 bytes between two open
  files; \<open>fs_pipe_fill\<close> copies from the memory of the writing task into the ring in contiguous runs,
  \<open>fs_pipe_drain\<close> from the ring into the memory of the reading task. A full or empty pipe parks the
  task's identity in the pipe, and \<open>fs_pipe_wake_reader\<close> and \<open>fs_pipe_wake_writer\<close> finish its
  transfer later. The result \<^const>\<open>None\<close> of a transfer is a page fault or a loop that does not end;
  the theorems exclude both. The abstraction of a pipe is the sequence of bytes it holds.
\<close>

section \<open>Model\<close>

abbreviation (input) FS_PIPE_BUF_SIZE :: nat where "FS_PIPE_BUF_SIZE \<equiv> 4096"
abbreviation (input) FS_FLAG_WRITEONLY :: u32 where "FS_FLAG_WRITEONLY \<equiv> 1"
abbreviation (input) FS_EOF :: int where "FS_EOF \<equiv> 0"
abbreviation (input) FS_ERROR :: int where "FS_ERROR \<equiv> - 1"
abbreviation (input) FS_BLOCKING :: int where "FS_BLOCKING \<equiv> - 2"
abbreviation (input) FS_WRITE_WAIT :: int where "FS_WRITE_WAIT \<equiv> - 3"

partial_function (option) fs_pipe_drain_loop ::
    "u32 \<Rightarrow> int \<Rightarrow> u32 \<Rightarrow> nat \<Rightarrow> nat \<Rightarrow> 'a kern_t_scheme \<Rightarrow> (nat \<times> 'a kern_t_scheme) option" where
  "fs_pipe_drain_loop pipe task dest mx rd s =
     (let p = fs_pipes s pipe
      in if rd < mx \<and> pp_size p > 0 then
           let run = FS_PIPE_BUF_SIZE - pp_read_pos p;
               chunk = min (min (mx - rd) run) (pp_size p)
           in case copy_to_task task (dest + of_nat rd) (take chunk (drop (pp_read_pos p) (pp_buf p))) s of
                None \<Rightarrow> None
              | Some (written, s1) \<Rightarrow>
                  if written < 0 then Some (rd, s1)
                  else let w = nat written;
                           s2 = upd_pipe pipe (\<lambda>x. x\<lparr>pp_read_pos := (pp_read_pos x + w) mod FS_PIPE_BUF_SIZE,
                                                    pp_size := pp_size x - w\<rparr>) s1
                       in if w < chunk then Some (rd + w, s2)
                          else fs_pipe_drain_loop pipe task dest mx (rd + w) s2
         else Some (rd, s))"

definition fs_pipe_drain :: "u32 \<Rightarrow> int \<Rightarrow> u32 \<Rightarrow> nat \<Rightarrow> 'a kern_t_scheme \<Rightarrow> (nat \<times> 'a kern_t_scheme) option" where
  "fs_pipe_drain pipe task dest mx s = fs_pipe_drain_loop pipe task dest mx 0 s"

text \<open>Writing a run of bytes into the ring at its write position.\<close>

definition put_run :: "nat \<Rightarrow> u8 list \<Rightarrow> u8 list \<Rightarrow> u8 list" where
  "put_run pos bs buf = take pos buf @ bs @ drop (pos + length bs) buf"

partial_function (option) fs_pipe_fill_loop ::
    "u32 \<Rightarrow> int \<Rightarrow> u32 \<Rightarrow> nat \<Rightarrow> nat \<Rightarrow> 'a kern_t_scheme \<Rightarrow> (nat \<times> 'a kern_t_scheme) option" where
  "fs_pipe_fill_loop pipe task src mx wr s =
     (let p = fs_pipes s pipe
      in if wr < mx \<and> pp_size p < FS_PIPE_BUF_SIZE then
           let run = FS_PIPE_BUF_SIZE - pp_write_pos p;
               space = FS_PIPE_BUF_SIZE - pp_size p;
               chunk = min (min (mx - wr) run) space
           in case copy_from_task task (src + of_nat wr) chunk s of
                None \<Rightarrow> None
              | Some (rd, bs) \<Rightarrow>
                  if rd < 0 then Some (wr, s)
                  else let r = nat rd;
                           s2 = upd_pipe pipe (\<lambda>x. x\<lparr>pp_buf := put_run (pp_write_pos x) bs (pp_buf x),
                                                    pp_write_pos := (pp_write_pos x + r) mod FS_PIPE_BUF_SIZE,
                                                    pp_size := pp_size x + r\<rparr>) s
                       in if r < chunk then Some (wr + r, s2)
                          else fs_pipe_fill_loop pipe task src mx (wr + r) s2
         else Some (wr, s))"

definition fs_pipe_fill :: "u32 \<Rightarrow> int \<Rightarrow> u32 \<Rightarrow> nat \<Rightarrow> 'a kern_t_scheme \<Rightarrow> (nat \<times> 'a kern_t_scheme) option" where
  "fs_pipe_fill pipe task src mx s = fs_pipe_fill_loop pipe task src mx 0 s"

text \<open>The pipe branches of \<open>fs_write\<close> and \<open>fs_read\<close>.\<close>

definition fs_write_pipe :: "u32 \<Rightarrow> u32 \<Rightarrow> nat \<Rightarrow> int \<Rightarrow> 'a kern_t_scheme \<Rightarrow> (int \<times> 'a kern_t_scheme) option" where
  "fs_write_pipe file buffer sz task s =
     (let pipe = ff_pipe (fs_files s file)
      in if pipe = 0 then Some (FS_ERROR, s)
         else if pp_size (fs_pipes s pipe) = FS_PIPE_BUF_SIZE then
           (if task < 0 then Some (FS_ERROR, s)
            else Some (FS_WRITE_WAIT, upd_pipe pipe (\<lambda>x. x\<lparr>pp_write_waiting_task := task,
                         pp_write_waiting_uid := ts_task_uid (tasks s (nat task))\<rparr>) s))
         else case fs_pipe_fill pipe task buffer sz s of
                None \<Rightarrow> None
              | Some (written, s1) \<Rightarrow>
                  if written = 0 \<and> sz > 0 then Some (FS_ERROR, s1) else Some (s32 (int written), s1))"

definition fs_read_pipe :: "u32 \<Rightarrow> u32 \<Rightarrow> nat \<Rightarrow> int \<Rightarrow> 'a kern_t_scheme \<Rightarrow> (int \<times> 'a kern_t_scheme) option" where
  "fs_read_pipe file buffer sz task s =
     (let pipe = ff_pipe (fs_files s file)
      in if pipe = 0 then Some (FS_ERROR, s)
         else case fs_pipe_drain pipe task buffer sz s of
                None \<Rightarrow> None
              | Some (rd, s1) \<Rightarrow>
                  if rd > 0 then Some (s32 (int rd), s1)
                  else if pp_size (fs_pipes s1 pipe) > 0 \<and> sz > 0 then Some (FS_ERROR, s1)
                  else if pp_writer_count (fs_pipes s1 pipe) = 0 then Some (FS_EOF, s1)
                  else Some (FS_BLOCKING, upd_pipe pipe (\<lambda>x. x\<lparr>pp_read_waiting_task := task,
                               pp_read_waiting_uid := ts_task_uid (tasks s1 (nat task))\<rparr>) s1))"

definition set_ebx :: "nat \<Rightarrow> int \<Rightarrow> 'a kern_t_scheme \<Rightarrow> 'a kern_t_scheme" where
  "set_ebx t v = upd_task t (\<lambda>x. x\<lparr>ts_registers := (ts_registers x)\<lparr>r_ebx := of_int v\<rparr>\<rparr>)"

definition fs_pipe_wake_reader :: "u32 \<Rightarrow> 'a kern_t_scheme \<Rightarrow> (bool \<times> 'a kern_t_scheme) option" where
  "fs_pipe_wake_reader pipe s =
     (let p = fs_pipes s pipe; reader = pp_read_waiting_task p; t = nat reader
      in if reader < 0 then Some (False, s)
         else if \<not> ts_enabled (tasks s t) \<or> ts_task_uid (tasks s t) \<noteq> pp_read_waiting_uid p
         then Some (False, upd_pipe pipe (\<lambda>x. x\<lparr>pp_read_waiting_task := - 1\<rparr>) s)
         else case (if pp_read_buf p \<noteq> 0
                    then map_option (\<lambda>(n, s1). set_ebx t (int n) s1)
                           (fs_pipe_drain pipe reader (pp_read_buf p) (pp_read_size p) s)
                    else Some (set_ebx t FS_ERROR s)) of
                None \<Rightarrow> None
              | Some s1 \<Rightarrow> Some (True, upd_pipe pipe (\<lambda>x. x\<lparr>pp_read_waiting_task := - 1\<rparr>) (task_resume t s1)))"

definition fs_pipe_wake_writer :: "u32 \<Rightarrow> 'a kern_t_scheme \<Rightarrow> (bool \<times> 'a kern_t_scheme) option" where
  "fs_pipe_wake_writer pipe s =
     (let p = fs_pipes s pipe; writer = pp_write_waiting_task p; t = nat writer
      in if writer < 0 then Some (False, s)
         else if \<not> ts_enabled (tasks s t) \<or> ts_task_uid (tasks s t) \<noteq> pp_write_waiting_uid p
         then Some (False, upd_pipe pipe (\<lambda>x. x\<lparr>pp_write_waiting_task := - 1\<rparr>) s)
         else case (if pp_write_buf p \<noteq> 0
                    then map_option (\<lambda>(n, s1). set_ebx t (int n) s1)
                           (fs_pipe_fill pipe writer (pp_write_buf p) (pp_write_size p) s)
                    else Some (set_ebx t FS_ERROR s)) of
                None \<Rightarrow> None
              | Some s1 \<Rightarrow> Some (True, upd_pipe pipe (\<lambda>x. x\<lparr>pp_write_waiting_task := - 1\<rparr>) (task_resume t s1)))"

text \<open>\<open>fs_close_locked\<close>: waking whoever waits on the pipe, then dropping the references.\<close>

definition close_wake_reader :: "u32 \<Rightarrow> 'a kern_t_scheme \<Rightarrow> 'a kern_t_scheme" where
  "close_wake_reader pipe s =
     (let p = fs_pipes s pipe; t = nat (pp_read_waiting_task p)
      in if pp_read_waiting_task p = - 1 then s
         else upd_pipe pipe (\<lambda>x. x\<lparr>pp_read_waiting_task := - 1\<rparr>)
                (if ts_enabled (tasks s t) \<and> ts_task_uid (tasks s t) = pp_read_waiting_uid p
                 then set_ebx t FS_EOF (task_resume t s) else s))"

definition close_wake_writer :: "u32 \<Rightarrow> 'a kern_t_scheme \<Rightarrow> 'a kern_t_scheme" where
  "close_wake_writer pipe s =
     (let p = fs_pipes s pipe; t = nat (pp_write_waiting_task p)
      in if pp_write_waiting_task p = - 1 then s
         else upd_pipe pipe (\<lambda>x. x\<lparr>pp_write_waiting_task := - 1, pp_write_buf := 0, pp_write_size := 0\<rparr>)
                (if ts_enabled (tasks s t) \<and> ts_task_uid (tasks s t) = pp_write_waiting_uid p
                 then set_ebx t FS_EOF (task_resume t s) else s))"

definition fs_close_locked :: "u32 \<Rightarrow> 'a kern_t_scheme \<Rightarrow> 'a kern_t_scheme" where
  "fs_close_locked file s =
     (let f = fs_files s file;
          pipe = ff_pipe f;
          s1 = (if ff_data f \<noteq> 0 then free (ff_data f) 8 s else s);
          s2 = (if pipe \<noteq> 0 then
                  let a = (if ff_flags f AND FS_FLAG_WRITEONLY \<noteq> 0
                           then upd_pipe pipe (\<lambda>x. x\<lparr>pp_writer_count := pp_writer_count x - 1\<rparr>) s1 else s1);
                      b = close_wake_writer pipe (close_wake_reader pipe a);
                      c = (if pp_ref_count (fs_pipes b pipe) > 0
                           then upd_pipe pipe (\<lambda>x. x\<lparr>pp_ref_count := pp_ref_count x - 1\<rparr>) b else b)
                  in if pp_ref_count (fs_pipes c pipe) = 0 then free pipe 4148 c else c
                else s1)
      in free file 288 s2)"

definition fs_file_alloc :: "u8 list \<Rightarrow> u32 \<Rightarrow> 'a kern_t_scheme \<Rightarrow> u32 \<times> 'a kern_t_scheme" where
  "fs_file_alloc path flags s =
     (let (file, s1) = malloc 288 s
      in if file = 0 then (0, s1)
         else (file, upd_file file (\<lambda>x. x\<lparr>ff_window_index := - 1, ff_data := 0, ff_pipe := 0,
                       ff_current_pos := 0, ff_flags := flags, ff_filename := path\<rparr>) s1))"

section \<open>The bytes of a pipe\<close>

definition pipe_inv :: "fs_pipe_t \<Rightarrow> bool" where
  "pipe_inv p \<longleftrightarrow> length (pp_buf p) = 4096 \<and> pp_read_pos p < 4096 \<and> pp_size p \<le> 4096
     \<and> pp_write_pos p = (pp_read_pos p + pp_size p) mod 4096"

definition pipe_bytes :: "fs_pipe_t \<Rightarrow> u8 list" where
  "pipe_bytes p = map (\<lambda>i. pp_buf p ! ((pp_read_pos p + i) mod 4096)) [0..<pp_size p]"

lemma length_pipe_bytes [simp]: "length (pipe_bytes p) = pp_size p"
  by (simp add: pipe_bytes_def)

text \<open>Positions in a ring of \<open>N\<close> bytes.\<close>

lemma ring_mod: "x < 2 * N \<Longrightarrow> x mod N = (if x < N then x else x - N)" for x N :: nat
  by (auto simp: mod_if)

lemma ring_apart:
  fixes r N :: nat
  assumes "r < N" "i < z" "z + l \<le> N" "(r + z) mod N + l \<le> N"
  shows "\<not> ((r + z) mod N \<le> (r + i) mod N \<and> (r + i) mod N < (r + z) mod N + l)"
  using assms by (auto simp: ring_mod split: if_splits)

lemma ring_inside:
  fixes r N :: nat
  assumes "r < N" "z \<le> i" "i < z + l" "z + l \<le> N" "(r + z) mod N + l \<le> N"
  shows "(r + i) mod N = (r + z) mod N + (i - z)"
  using assms by (auto simp: ring_mod split: if_splits)

text \<open>Taking a contiguous run from the front.\<close>

lemma pipe_take_run:
  assumes "pipe_inv p" "n \<le> pp_size p" "n \<le> 4096 - pp_read_pos p"
  shows "take n (drop (pp_read_pos p) (pp_buf p)) = take n (pipe_bytes p)"
  using assms by (intro nth_equalityI) (auto simp: pipe_inv_def pipe_bytes_def)

lemma pipe_drop_run:
  assumes "pipe_inv p" "n \<le> pp_size p"
  defines "q \<equiv> p\<lparr>pp_read_pos := (pp_read_pos p + n) mod 4096, pp_size := pp_size p - n\<rparr>"
  shows "pipe_inv q" "pipe_bytes q = drop n (pipe_bytes p)"
proof -
  have "((pp_read_pos p + n) mod 4096 + (pp_size p - n)) mod 4096 = (pp_read_pos p + pp_size p) mod 4096"
    using assms(2) by (metis mod_add_left_eq add.assoc le_add_diff_inverse)
  then show "pipe_inv q" using assms by (auto simp: pipe_inv_def)
  show "pipe_bytes q = drop n (pipe_bytes p)"
    using assms(2) by (intro nth_equalityI) (auto simp: q_def pipe_bytes_def mod_simps add.assoc)
qed

lemma pipe_put_run:
  assumes inv: "pipe_inv p" and n: "length bs \<le> 4096 - pp_write_pos p" "length bs \<le> 4096 - pp_size p"
  defines "q \<equiv> p\<lparr>pp_buf := put_run (pp_write_pos p) bs (pp_buf p),
     pp_write_pos := (pp_write_pos p + length bs) mod 4096, pp_size := pp_size p + length bs\<rparr>"
  shows "pipe_inv q" "pipe_bytes q = pipe_bytes p @ bs"
proof -
  let ?w = "pp_write_pos p" and ?r = "pp_read_pos p" and ?z = "pp_size p"
  have w: "?w < 4096" "?w = (?r + ?z) mod 4096" and b: "length (pp_buf p) = 4096" and r: "?r < 4096"
    using inv by (auto simp: pipe_inv_def)
  have len: "length (put_run ?w bs (pp_buf p)) = 4096" using b n(1) w(1) by (simp add: put_run_def)
  show "pipe_inv q" using inv n len w by (auto simp: q_def pipe_inv_def mod_simps add.assoc)
  have at: "put_run ?w bs (pp_buf p) ! j = (if ?w \<le> j \<and> j < ?w + length bs then bs ! (j - ?w) else pp_buf p ! j)"
    if "j < 4096" for j
    using that b w(1) n(1) by (auto simp: put_run_def nth_append)
  show "pipe_bytes q = pipe_bytes p @ bs"
  proof (rule nth_equalityI)
    show "length (pipe_bytes q) = length (pipe_bytes p @ bs)" by (simp add: q_def)
    fix i assume "i < length (pipe_bytes q)"
    then have i: "i < ?z + length bs" by (simp add: q_def)
    let ?j = "(?r + i) mod 4096"
    have q: "pipe_bytes q ! i = put_run ?w bs (pp_buf p) ! ?j" using i by (simp add: q_def pipe_bytes_def)
    show "pipe_bytes q ! i = (pipe_bytes p @ bs) ! i"
    proof (cases "i < ?z")
      case True
      have "\<not> (?w \<le> ?j \<and> ?j < ?w + length bs)"
        unfolding w(2) by (rule ring_apart) (use r True n w inv in \<open>auto simp: pipe_inv_def\<close>)
      then show ?thesis unfolding q using at [of ?j] True by (auto simp: nth_append pipe_bytes_def)
    next
      case False
      have "?j = ?w + (i - ?z)"
        unfolding w(2) by (rule ring_inside [where l = "length bs"]) (use r False i n w inv in \<open>auto simp: pipe_inv_def\<close>)
      moreover define d where "d = i - ?z"
      ultimately have "?j = ?w + d" "d < length bs" "?j < 4096" using False i by auto
      then show ?thesis unfolding q using at [of ?j] False by (simp add: nth_append d_def [symmetric])
    qed
  qed
qed


section \<open>Writing into a pipe\<close>

text \<open>The bytes of a range of user memory.\<close>

definition user_bytes :: "'a kern_t_scheme \<Rightarrow> nat \<Rightarrow> u32 \<Rightarrow> nat \<Rightarrow> u8 list" where
  "user_bytes s t v n = map (\<lambda>k. user_byte (pr_page_dir (task_proc s t)) s (v + of_nat k)) [0..<n]"

lemma length_user_bytes [simp]: "length (user_bytes s t v n) = n"
  by (simp add: user_bytes_def)

lemma user_bytes_add: "user_bytes s t v (m + n) = user_bytes s t v m @ user_bytes s t (v + of_nat m) n"
  by (rule nth_equalityI) (auto simp: user_bytes_def nth_append algebra_simps of_nat_diff)

text \<open>Whether a byte of user memory can be read on behalf of the task.\<close>

abbreviation readable :: "'a kern_t_scheme \<Rightarrow> nat \<Rightarrow> u32 \<Rightarrow> bool" where
  "readable s t v \<equiv> page_accepted s t False (v AND NOT 0xFFF)"

lemma copy_from_task_spec:
  assumes "0 \<le> task" "0 < sz" "sz \<le> 0x7FFFE000"
  shows "\<exists>n. 0 \<le> n \<and> n \<le> sz
    \<and> copy_from_task task v sz s = Some (if n = 0 then (- 1, []) else (int n, user_bytes s (nat task) v n))
    \<and> (n < sz \<longrightarrow> \<not> readable s (nat task) (v + of_nat n))"
proof -
  let ?t = "nat task"
  define mx where "mx = task_validate_maxsize ?t v (int sz) False s"
  have M: "0 \<le> mx" "mx \<le> int sz" "\<forall>k < nat mx. readable s ?t (v + of_nat k)"
    "mx < int sz \<longrightarrow> \<not> readable s ?t (v + of_nat (nat mx))"
    using mapped_prefix_spec [of "int sz" "page_accepted s ?t False" v] assms
      validate_maxsize_prefix [of "int sz" ?t v False s] unfolding mx_def by auto
  have "\<forall>k < nat mx. page_checkmapping (pr_page_dir (task_proc s ?t)) (v + of_nat k) s \<noteq> PAGE_NOTPRESENT"
    using M(3) by (auto simp only: page_accepted_def checkmapping_align split: if_splits)
  from load_bytes_spec [OF this]
  have l: "load_bytes (pr_page_dir (task_proc s ?t)) v (nat mx) s = Some (user_bytes s ?t v (nat mx))"
    by (simp add: user_bytes_def user_byte_def)
  have "s32 (int sz) = int sz" using assms(3) by (intro s32_id) simp_all
  then have "copy_from_task task v sz s =
      Some (if nat mx = 0 then (- 1, []) else (int (nat mx), user_bytes s ?t v (nat mx)))"
    using assms(1,2) M(1) l by (simp add: copy_from_task_def mx_def [symmetric] Let_def)
  with M show ?thesis by (intro exI [of _ "nat mx"]) auto
qed

lemma upd_pipe_simps [simp]:
  "fs_pipes (upd_pipe p f s) = (fs_pipes s)(p := f (fs_pipes s p))" "tasks (upd_pipe p f s) = tasks s"
  "processes (upd_pipe p f s) = processes s" "page_inv D (upd_pipe p f s) = page_inv D s"
  "page_checkmapping d v (upd_pipe p f s) = page_checkmapping d v s"
  "page_getphysical d v (upd_pipe p f s) = page_getphysical d v s" "phys_mem (upd_pipe p f s) = phys_mem s"
  "user_bytes (upd_pipe p f s) = user_bytes s" "page_accepted (upd_pipe p f s) = page_accepted s"
proof -
  show pc: "page_checkmapping d v (upd_pipe p f s) = page_checkmapping d v s" for d v
    by (simp add: upd_pipe_def page_checkmapping_def Let_def)
  show pg: "page_getphysical d v (upd_pipe p f s) = page_getphysical d v s" for d v
    by (simp add: upd_pipe_def page_getphysical_def Let_def)
  show "page_inv D (upd_pipe p f s) = page_inv D s" by (rule page_inv_cong) (simp_all add: upd_pipe_def)
  show "user_bytes (upd_pipe p f s) = user_bytes s"
    unfolding user_bytes_def user_byte_def pg fun_eq_iff by (simp add: upd_pipe_def)
  show "page_accepted (upd_pipe p f s) = page_accepted s"
    unfolding page_accepted_def pc fun_eq_iff task_addr_demand_paged_def by (simp add: upd_pipe_def)
qed (simp_all add: upd_pipe_def)

lemma upd_pipe_upd_pipe [simp]: "upd_pipe p f (upd_pipe p g s) = upd_pipe p (\<lambda>x. f (g x)) s"
  by (simp add: upd_pipe_def)

lemma fs_pipe_fill_loop_spec:
  assumes "pipe_inv (fs_pipes s pipe)" "0 \<le> task" "wr \<le> mx"
  shows "\<exists>n q. wr \<le> n \<and> n \<le> mx \<and> fs_pipe_fill_loop pipe task src mx wr s = Some (n, upd_pipe pipe (\<lambda>_. q) s)
    \<and> pipe_inv q \<and> pipe_bytes q = pipe_bytes (fs_pipes s pipe) @ user_bytes s (nat task) (src + of_nat wr) (n - wr)
    \<and> (n < mx \<longrightarrow> pp_size q = 4096 \<or> \<not> readable s (nat task) (src + of_nat n))
    \<and> q = (fs_pipes s pipe)\<lparr>pp_buf := pp_buf q, pp_write_pos := pp_write_pos q, pp_size := pp_size q\<rparr>"
  using assms
proof (induction "mx - wr" arbitrary: wr s rule: less_induct)
  case less
  let ?p = "fs_pipes s pipe"
  have idem: "upd_pipe pipe (\<lambda>_. ?p) s = s" by (simp add: upd_pipe_def)
  show ?case
  proof (cases "wr < mx \<and> pp_size ?p < 4096")
    case False
    then have "fs_pipe_fill_loop pipe task src mx wr s = Some (wr, upd_pipe pipe (\<lambda>_. ?p) s)"
      by (subst fs_pipe_fill_loop.simps) (auto simp: Let_def idem)
    with False less.prems show ?thesis
      by (intro exI [of _ wr] exI [of _ ?p]) (auto simp: user_bytes_def pipe_inv_def)
  next
    case True
    define chunk where "chunk = min (min (mx - wr) (4096 - pp_write_pos ?p)) (4096 - pp_size ?p)"
    have w: "pp_write_pos ?p < 4096" using less.prems(1) by (simp add: pipe_inv_def)
    have c: "0 < chunk" "chunk \<le> mx - wr" "chunk \<le> 4096 - pp_write_pos ?p" "chunk \<le> 4096 - pp_size ?p"
      using True w by (auto simp: chunk_def)
    have le_c: "chunk \<le> 0x7FFFE000" using c(4) by linarith
    obtain n where n: "n \<le> chunk"
      "copy_from_task task (src + of_nat wr) chunk s =
         Some (if n = 0 then (- 1, []) else (int n, user_bytes s (nat task) (src + of_nat wr) n))"
      "n < chunk \<longrightarrow> \<not> readable s (nat task) (src + of_nat wr + of_nat n)"
      using copy_from_task_spec [OF less.prems(2) c(1), of "src + of_nat wr" s] le_c by blast
    show ?thesis
    proof (cases "n = 0")
      case z: True
      have "fs_pipe_fill_loop pipe task src mx wr s = Some (wr, upd_pipe pipe (\<lambda>_. ?p) s)"
        using True n(2) z idem by (subst fs_pipe_fill_loop.simps) (simp add: Let_def chunk_def)
      with z n(3) c(1) less.prems show ?thesis
        by (intro exI [of _ wr] exI [of _ ?p]) (auto simp: user_bytes_def)
    next
      case nz: False
      define q where "q = ?p\<lparr>pp_buf := put_run (pp_write_pos ?p) (user_bytes s (nat task) (src + of_nat wr) n) (pp_buf ?p),
         pp_write_pos := (pp_write_pos ?p + n) mod 4096, pp_size := pp_size ?p + n\<rparr>"
      have Q: "pipe_inv q" "pipe_bytes q = pipe_bytes ?p @ user_bytes s (nat task) (src + of_nat wr) n"
        using pipe_put_run [OF less.prems(1), of "user_bytes s (nat task) (src + of_nat wr) n"] n(1) c(3,4)
        by (auto simp: q_def)
      let ?s = "upd_pipe pipe (\<lambda>_. q) s"
      have st: "fs_pipe_fill_loop pipe task src mx wr s =
          (if n < chunk then Some (wr + n, ?s) else fs_pipe_fill_loop pipe task src mx (wr + n) ?s)"
        using True n(2) nz by (subst fs_pipe_fill_loop.simps) (simp add: Let_def chunk_def q_def upd_pipe_def)
      show ?thesis
      proof (cases "n < chunk")
        case True
        then show ?thesis using st Q n(3) c(2)
          by (intro exI [of _ "wr + n"] exI [of _ q]) (auto simp: q_def algebra_simps)
      next
        case False
        have le: "wr + n \<le> mx" using n(1) c(2) True by linarith
        have dec: "mx - (wr + n) < mx - wr" using nz True by linarith
        from less.hyps [OF dec _ less.prems(2) le, of ?s] Q(1) obtain m r where
          r: "wr + n \<le> m" "m \<le> mx" "fs_pipe_fill_loop pipe task src mx (wr + n) ?s = Some (m, upd_pipe pipe (\<lambda>_. r) ?s)"
            "pipe_inv r" "pipe_bytes r = pipe_bytes q @ user_bytes s (nat task) (src + of_nat (wr + n)) (m - (wr + n))"
            "m < mx \<longrightarrow> pp_size r = 4096 \<or> \<not> readable s (nat task) (src + of_nat m)"
            "r = q\<lparr>pp_buf := pp_buf r, pp_write_pos := pp_write_pos r, pp_size := pp_size r\<rparr>" by auto
        have "user_bytes s (nat task) (src + of_nat wr) (m - wr) =
            user_bytes s (nat task) (src + of_nat wr) n @ user_bytes s (nat task) (src + of_nat (wr + n)) (m - (wr + n))"
          using user_bytes_add [of s "nat task" "src + of_nat wr" n "m - (wr + n)"] r(1) by (simp add: add.assoc)
        then have "pipe_bytes r = pipe_bytes ?p @ user_bytes s (nat task) (src + of_nat wr) (m - wr)"
          using r(5) Q(2) by simp
        moreover have "r = ?p\<lparr>pp_buf := pp_buf r, pp_write_pos := pp_write_pos r, pp_size := pp_size r\<rparr>"
          using r(7) by (simp add: q_def)
        ultimately show ?thesis using st False r by (intro exI [of _ m] exI [of _ r]) auto
      qed
    qed
  qed
qed

section \<open>Reading from a pipe\<close>

text \<open>Whatever the reader's buffer, exactly the reported number of bytes leaves the pipe.\<close>

lemma fs_pipe_drain_loop_safe:
  fixes s :: "'a kern_t_scheme"
  assumes "pipe_inv (fs_pipes s pipe)" "0 \<le> task" "rd \<le> mx" "page_inv D s" "pr_page_dir (task_proc s (nat task)) \<in> D"
  shows "\<exists>n u. rd \<le> n \<and> n \<le> mx \<and> n - rd \<le> pp_size (fs_pipes s pipe) \<and> fs_pipe_drain_loop pipe task dest mx rd s = Some (n, u)
    \<and> page_inv D u \<and> pipe_inv (fs_pipes u pipe) \<and> pipe_bytes (fs_pipes u pipe) = drop (n - rd) (pipe_bytes (fs_pipes s pipe))
    \<and> tasks u = tasks s \<and> processes u = processes s \<and> (\<forall>p. p \<noteq> pipe \<longrightarrow> fs_pipes u p = fs_pipes s p)"
  using assms
proof (induction "mx - rd" arbitrary: rd s rule: less_induct)
  case less
  let ?p = "fs_pipes s pipe"
  show ?case
  proof (cases "rd < mx \<and> pp_size ?p > 0")
    case False
    then have "fs_pipe_drain_loop pipe task dest mx rd s = Some (rd, s)"
      by (subst fs_pipe_drain_loop.simps) (auto simp: Let_def)
    with less.prems show ?thesis by (intro exI [of _ rd] exI [of _ s]) auto
  next
    case True
    define chunk where "chunk = min (min (mx - rd) (4096 - pp_read_pos ?p)) (pp_size ?p)"
    have r: "pp_read_pos ?p < 4096" "pp_size ?p \<le> 4096" "length (pp_buf ?p) = 4096" using less.prems(1) by (simp_all add: pipe_inv_def)
    have c: "0 < chunk" "chunk \<le> mx - rd" "chunk \<le> 4096 - pp_read_pos ?p" "chunk \<le> pp_size ?p"
      using True r by (auto simp: chunk_def)
    let ?src = "take chunk (drop (pp_read_pos ?p) (pp_buf ?p))"
    have l: "length ?src = chunk" using c(3) r by simp
    have lb: "length ?src \<le> 0x7FFFE000" using l c(4) r(2) by linarith
    obtain n s1 u1 where k: "copy_to_task task (dest + of_nat rd) ?src s = Some (n, u1)" "grows_user D s s1"
      "n = - 1 \<and> u1 = s1 \<or> 0 \<le> n \<and> n \<le> int chunk \<and> (\<exists>m. u1 = s1\<lparr>phys_mem := m\<rparr>)"
      using copy_to_task_spec [OF less.prems(4,5,2) lb, of "dest + of_nat rd" thesis] unfolding l by blast
    have pi: "page_inv D (s1\<lparr>phys_mem := m\<rparr>) = page_inv D s1" for m by (rule page_inv_cong) simp_all
    have f: "page_inv D u1" "fs_pipes u1 = fs_pipes s" "tasks u1 = tasks s" "processes u1 = processes s"
      using k(2,3) by (auto simp: grows_user_def pi)
    show ?thesis
    proof (cases "n < 0")
      case neg: True
      then have "fs_pipe_drain_loop pipe task dest mx rd s = Some (rd, u1)"
        using True k(1) by (subst fs_pipe_drain_loop.simps) (simp add: Let_def chunk_def)
      with f less.prems show ?thesis by (intro exI [of _ rd] exI [of _ u1]) auto
    next
      case nn: False
      then have n: "nat n \<le> chunk" using k(3) by auto
      let ?q = "?p\<lparr>pp_read_pos := (pp_read_pos ?p + nat n) mod 4096, pp_size := pp_size ?p - nat n\<rparr>"
      define s2 where "s2 = upd_pipe pipe (\<lambda>x. x\<lparr>pp_read_pos := (pp_read_pos x + nat n) mod 4096, pp_size := pp_size x - nat n\<rparr>) u1"
      have q: "fs_pipes s2 = (fs_pipes s)(pipe := ?q)" by (simp add: s2_def f)
      note Q = pipe_drop_run [OF less.prems(1), of "nat n"]
      have st: "fs_pipe_drain_loop pipe task dest mx rd s =
          (if nat n < chunk then Some (rd + nat n, s2) else fs_pipe_drain_loop pipe task dest mx (rd + nat n) s2)"
        using True k(1) nn by (subst fs_pipe_drain_loop.simps) (simp add: Let_def chunk_def s2_def)
      have f2: "page_inv D s2" "tasks s2 = tasks s" "processes s2 = processes s" using f by (simp_all add: s2_def)
      show ?thesis
      proof (cases "nat n < chunk")
        case True
        with st Q n c q f2 show ?thesis by (intro exI [of _ "rd + nat n"] exI [of _ s2]) auto
      next
        case False
        then have ne: "nat n = chunk" using n by simp
        have le: "rd + nat n \<le> mx" and dec: "mx - (rd + nat n) < mx - rd" using ne c True by auto
        have inv2: "pipe_inv (fs_pipes s2 pipe)" using Q n c q by simp
        have dir: "pr_page_dir (task_proc s2 (nat task)) \<in> D" using less.prems(5) f2 by simp
        from less.hyps [OF dec inv2 less.prems(2) le f2(1) dir] obtain m u where
          u: "rd + nat n \<le> m" "m \<le> mx" "m - (rd + nat n) \<le> pp_size ?q" "fs_pipe_drain_loop pipe task dest mx (rd + nat n) s2 = Some (m, u)"
            "page_inv D u" "pipe_inv (fs_pipes u pipe)" "pipe_bytes (fs_pipes u pipe) = drop (m - (rd + nat n)) (pipe_bytes ?q)"
            "tasks u = tasks s" "processes u = processes s" "\<forall>p. p \<noteq> pipe \<longrightarrow> fs_pipes u p = fs_pipes s p"
          using q f2 by auto
        have "pipe_bytes (fs_pipes u pipe) = drop (m - rd) (pipe_bytes ?p)"
          using u(1,7) Q(2) n c by simp
        moreover have "m - rd \<le> pp_size ?p" using u(1,3) n c by simp
        ultimately show ?thesis using st False u by (intro exI [of _ m] exI [of _ u]) auto
      qed
    qed
  qed
qed

lemma prefault_mapped:
  assumes "\<forall>i\<in>set is. page_checkmapping (pr_page_dir (task_proc s t)) (range_page v i) s = PAGE_USERRW"
  shows "task_prefault_loop t v sz is s = (sz, s)"
  using assms by (induction "is") (simp_all add: Let_def)

lemma copy_to_task_mapped:
  assumes t: "0 \<le> task" and ne: "src \<noteq> []" and len: "length src \<le> 0x7FFFE000"
    and ok: "\<forall>k < length src. page_checkmapping (pr_page_dir (task_proc s (nat task))) (dest + of_nat k) s = PAGE_USERRW"
  shows "\<exists>m. copy_to_task task dest src s = Some (int (length src), s\<lparr>phys_mem := m\<rparr>)
    \<and> (\<forall>a. a \<notin> phys_of (pr_page_dir (task_proc s (nat task))) dest s ` {..<length src} \<longrightarrow> m a = phys_mem s a)
    \<and> (inj_on (phys_of (pr_page_dir (task_proc s (nat task))) dest s) {..<length src} \<longrightarrow>
         (\<forall>k < length src. m (phys_of (pr_page_dir (task_proc s (nat task))) dest s k) = src ! k))"
proof -
  let ?t = "nat task" and ?d = "pr_page_dir (task_proc s (nat task))"
  have sz: "s32 (int (length src)) = int (length src)" using len by (intro s32_id) simp_all
  have pos: "0 < int (length src)" using ne by simp
  have acc: "page_accepted s ?t True ((dest + of_nat k) AND NOT 0xFFF)" if "k < length src" for k
    using ok that by (simp only: page_accepted_def checkmapping_align) simp
  have lenb: "int (length src) \<le> 0x7FFFE000" using len by linarith
  define r where "r = task_validate_maxsize ?t dest (int (length src)) True s"
  have "0 \<le> r" "r \<le> int (length src)"
    "r < int (length src) \<longrightarrow> \<not> page_accepted s ?t True ((dest + of_nat (nat r)) AND NOT 0xFFF)"
    using mapped_prefix_spec [OF pos lenb, of "page_accepted s ?t True" dest]
    unfolding r_def validate_maxsize_prefix [OF pos] by blast+
  then have v: "task_validate_maxsize ?t dest (int (length src)) True s = int (length src)"
    using acc [of "nat r"] unfolding r_def by linarith
  have "\<forall>i < range_pages dest (int (length src)). page_checkmapping ?d (range_page dest i) s = PAGE_USERRW"
    using ok unfolding range_pages_iff [OF pos, where Q = "\<lambda>a. page_checkmapping ?d a s = PAGE_USERRW"] checkmapping_align
    by simp
  then have pf: "task_prefault ?t dest (int (length src)) s = (int (length src), s)"
    unfolding task_prefault_def by (intro prefault_mapped) auto
  let ?s2 = "if ?d \<noteq> current_page_dir s then swap_pagedir ?d s else s"
  have sw: "page_checkmapping x v ?s2 = page_checkmapping x v s" "page_getphysical x v ?s2 = page_getphysical x v s"
    "phys_mem ?s2 = phys_mem s" for x v
    by (simp_all add: swap_pagedir_def page_checkmapping_def page_getphysical_def Let_def)
  from store_bytes_spec [of src ?d dest ?s2] ok obtain m where m: "store_bytes ?d dest src ?s2 = Some (?s2\<lparr>phys_mem := m\<rparr>)"
    "\<forall>a. a \<notin> phys_of ?d dest s ` {..<length src} \<longrightarrow> m a = phys_mem s a"
    "inj_on (phys_of ?d dest s) {..<length src} \<longrightarrow> (\<forall>k < length src. m (phys_of ?d dest s k) = src ! k)"
    unfolding sw by auto
  have "copy_to_task task dest src s = Some (int (length src), s\<lparr>phys_mem := m\<rparr>)"
    using t sz v pf ne m(1) by (auto simp: copy_to_task_def Let_def swap_pagedir_def split: if_splits)
  with m(2,3) show ?thesis by blast
qed


lemma fs_pipe_drain_loop_mapped:
  fixes s :: "'a kern_t_scheme"
  assumes "pipe_inv (fs_pipes s pipe)" "0 \<le> task" "rd \<le> mx"
    "\<forall>k < min mx (rd + pp_size (fs_pipes s pipe)).
       page_checkmapping (pr_page_dir (task_proc s (nat task))) (dest + of_nat k) s = PAGE_USERRW"
  shows "\<exists>m q. fs_pipe_drain_loop pipe task dest mx rd s =
      Some (min mx (rd + pp_size (fs_pipes s pipe)), upd_pipe pipe (\<lambda>_. q) (s\<lparr>phys_mem := m\<rparr>))
    \<and> pipe_inv q \<and> pipe_bytes q = drop (mx - rd) (pipe_bytes (fs_pipes s pipe))
    \<and> (\<forall>a. a \<notin> phys_of (pr_page_dir (task_proc s (nat task))) dest s ` {rd..<min mx (rd + pp_size (fs_pipes s pipe))}
         \<longrightarrow> m a = phys_mem s a)
    \<and> (inj_on (phys_of (pr_page_dir (task_proc s (nat task))) dest s) {rd..<min mx (rd + pp_size (fs_pipes s pipe))} \<longrightarrow>
         (\<forall>k. rd \<le> k \<and> k < min mx (rd + pp_size (fs_pipes s pipe)) \<longrightarrow>
            m (phys_of (pr_page_dir (task_proc s (nat task))) dest s k) = pipe_bytes (fs_pipes s pipe) ! (k - rd)))"
  using assms
proof (induction "mx - rd" arbitrary: rd s rule: less_induct)
  case less
  let ?p = "fs_pipes s pipe" and ?d = "pr_page_dir (task_proc s (nat task))"
  let ?n = "min mx (rd + pp_size ?p)"
  show ?case
  proof (cases "rd < mx \<and> pp_size ?p > 0")
    case False
    then have n: "?n = rd" using less.prems(3) by auto
    have "upd_pipe pipe (\<lambda>_. ?p) (s\<lparr>phys_mem := phys_mem s\<rparr>) = s" by (simp add: upd_pipe_def)
    then have "fs_pipe_drain_loop pipe task dest mx rd s = Some (?n, upd_pipe pipe (\<lambda>_. ?p) (s\<lparr>phys_mem := phys_mem s\<rparr>))"
      using False n by (subst fs_pipe_drain_loop.simps) (auto simp: Let_def)
    with less.prems False n show ?thesis
      by (intro exI [of _ "phys_mem s"] exI [of _ ?p]) (auto simp: pipe_bytes_def)
  next
    case True
    define chunk where "chunk = min (min (mx - rd) (4096 - pp_read_pos ?p)) (pp_size ?p)"
    have r: "pp_read_pos ?p < 4096" "pp_size ?p \<le> 4096" "length (pp_buf ?p) = 4096" using less.prems(1) by (simp_all add: pipe_inv_def)
    have c: "0 < chunk" "chunk \<le> mx - rd" "chunk \<le> 4096 - pp_read_pos ?p" "chunk \<le> pp_size ?p"
      using True r by (auto simp: chunk_def)
    let ?src = "take chunk (drop (pp_read_pos ?p) (pp_buf ?p))"
    have l: "length ?src = chunk" using c(3) r by simp
    have src: "?src = take chunk (pipe_bytes ?p)" by (rule pipe_take_run [OF less.prems(1) c(4,3)])
    have lb: "length ?src \<le> 0x7FFFE000" "?src \<noteq> []" using l c r(2) by (linarith, auto)
    have sh: "phys_of ?d (dest + of_nat rd) s k = phys_of ?d dest s (rd + k)" for k by (simp add: add.assoc)
    have mapped: "\<forall>k < length ?src. page_checkmapping ?d (dest + of_nat rd + of_nat k) s = PAGE_USERRW"
    proof (intro allI impI)
      fix k assume "k < length ?src"
      then have "k < chunk" using l by linarith
      then have "rd + k < ?n" using c by linarith
      from less.prems(4) [rule_format, OF this] show "page_checkmapping ?d (dest + of_nat rd + of_nat k) s = PAGE_USERRW"
        by (simp add: add.assoc)
    qed
    obtain m1 where k: "copy_to_task task (dest + of_nat rd) ?src s = Some (int chunk, s\<lparr>phys_mem := m1\<rparr>)"
      "\<forall>a. a \<notin> phys_of ?d (dest + of_nat rd) s ` {..<chunk} \<longrightarrow> m1 a = phys_mem s a"
      "inj_on (phys_of ?d (dest + of_nat rd) s) {..<chunk} \<longrightarrow>
         (\<forall>k < chunk. m1 (phys_of ?d (dest + of_nat rd) s k) = ?src ! k)"
      using copy_to_task_mapped [OF less.prems(2) lb(2,1) mapped] unfolding l by blast
    let ?q = "?p\<lparr>pp_read_pos := (pp_read_pos ?p + chunk) mod 4096, pp_size := pp_size ?p - chunk\<rparr>"
    define s2 where "s2 = upd_pipe pipe (\<lambda>_. ?q) (s\<lparr>phys_mem := m1\<rparr>)"
    note Q = pipe_drop_run [OF less.prems(1) c(4)]
    have st: "fs_pipe_drain_loop pipe task dest mx rd s = fs_pipe_drain_loop pipe task dest mx (rd + chunk) s2"
      using True k(1) by (subst fs_pipe_drain_loop.simps) (simp add: Let_def chunk_def [symmetric] s2_def upd_pipe_def)
    have f2: "fs_pipes s2 pipe = ?q" "task_proc s2 x = task_proc s x" "page_checkmapping d v s2 = page_checkmapping d v s"
      "page_getphysical d v s2 = page_getphysical d v s" "phys_mem s2 = m1" for d v x
      by (simp_all add: s2_def)
    have n2: "min mx (rd + chunk + pp_size (fs_pipes s2 pipe)) = ?n" using c f2(1) by simp
    have dec: "mx - (rd + chunk) < mx - rd" and le: "rd + chunk \<le> mx" using c by auto
    obtain m q where u: "fs_pipe_drain_loop pipe task dest mx (rd + chunk) s2 = Some (?n, upd_pipe pipe (\<lambda>_. q) (s2\<lparr>phys_mem := m\<rparr>))"
      "pipe_inv q" "pipe_bytes q = drop (mx - (rd + chunk)) (pipe_bytes ?q)"
      "\<forall>a. a \<notin> phys_of ?d dest s ` {rd + chunk..<?n} \<longrightarrow> m a = m1 a"
      "inj_on (phys_of ?d dest s) {rd + chunk..<?n} \<longrightarrow>
         (\<forall>k. rd + chunk \<le> k \<and> k < ?n \<longrightarrow> m (phys_of ?d dest s k) = pipe_bytes ?q ! (k - (rd + chunk)))"
      using less.hyps [OF dec _ less.prems(2) le, of s2, unfolded n2, unfolded f2] Q(1) less.prems(4) by blast
    have cn: "rd + chunk \<le> ?n" using c by simp
    have st2: "fs_pipe_drain_loop pipe task dest mx rd s = Some (?n, upd_pipe pipe (\<lambda>_. q) (s\<lparr>phys_mem := m\<rparr>))"
      using st u(1) by (simp add: s2_def upd_pipe_def)
    have "pipe_bytes q = drop (mx - rd) (pipe_bytes ?p)" using u(3) Q(2) c by simp
    moreover have "m a = phys_mem s a" if "a \<notin> phys_of ?d dest s ` {rd..<?n}" for a
    proof -
      have "a \<notin> phys_of ?d dest s ` {rd + chunk..<?n}" using that by auto
      moreover have "a \<notin> phys_of ?d (dest + of_nat rd) s ` {..<chunk}"
      proof
        assume "a \<in> phys_of ?d (dest + of_nat rd) s ` {..<chunk}"
        then obtain j where "j < chunk" "a = phys_of ?d dest s (rd + j)" unfolding sh by auto
        moreover from this have "rd + j \<in> {rd..<?n}" using cn by simp
        ultimately show False using that by blast
      qed
      ultimately show ?thesis using u(4) k(2) by simp
    qed
    moreover have "m (phys_of ?d dest s j) = pipe_bytes ?p ! (j - rd)"
      if inj: "inj_on (phys_of ?d dest s) {rd..<?n}" and j: "rd \<le> j" "j < ?n" for j
    proof (cases "rd + chunk \<le> j")
      case True
      have "inj_on (phys_of ?d dest s) {rd + chunk..<?n}" by (rule inj_on_subset [OF inj]) auto
      then have "m (phys_of ?d dest s j) = pipe_bytes ?q ! (j - (rd + chunk))" using u(5) True j by blast
      then show ?thesis using Q(2) True c j by simp
    next
      case False
      then obtain i where i: "j = rd + i" "i < chunk" using j by (metis add_less_cancel_left le_Suc_ex not_le)
      have "phys_of ?d dest s j \<notin> phys_of ?d dest s ` {rd + chunk..<?n}"
      proof
        assume "phys_of ?d dest s j \<in> phys_of ?d dest s ` {rd + chunk..<?n}"
        then obtain x where x: "x \<in> {rd + chunk..<?n}" "phys_of ?d dest s j = phys_of ?d dest s x" by blast
        then have "j = x" using inj_onD [OF inj x(2)] j by auto
        with x False show False by simp
      qed
      then have "m (phys_of ?d dest s j) = m1 (phys_of ?d dest s j)" using u(4) by blast
      moreover have "inj_on (phys_of ?d (dest + of_nat rd) s) {..<chunk}"
      proof (rule inj_onI)
        fix x y assume xy: "x \<in> {..<chunk}" "y \<in> {..<chunk}" "phys_of ?d (dest + of_nat rd) s x = phys_of ?d (dest + of_nat rd) s y"
        then have "phys_of ?d dest s (rd + x) = phys_of ?d dest s (rd + y)" unfolding sh by blast
        from inj_onD [OF inj this] xy cn show "x = y" by simp
      qed
      then have "m1 (phys_of ?d dest s j) = ?src ! i" using k(3) i unfolding sh by simp
      ultimately show ?thesis using i c unfolding src by simp
    qed
    ultimately show ?thesis using st2 u(2) by blast
  qed
qed

section \<open>Properties\<close>

text \<open>
  C15: writing to a pipe appends. \<open>fs_pipe_fill\<close> always returns; the pipe then holds its
  old bytes followed by exactly the reported number of bytes of the writer's memory, in order, across
  the wrap of the ring; nothing else in the kernel has changed. It stops short of the request only when the
  pipe is full or the next byte of the buffer is not readable for the writer.
\<close>

theorem pipe_fill_appends:
  assumes "pipe_inv (fs_pipes s pipe)" and "0 \<le> task"
  shows "\<exists>n q. n \<le> mx \<and> fs_pipe_fill pipe task src mx s = Some (n, upd_pipe pipe (\<lambda>_. q) s)
    \<and> pipe_inv q \<and> pipe_bytes q = pipe_bytes (fs_pipes s pipe) @ user_bytes s (nat task) src n
    \<and> (n < mx \<longrightarrow> pp_size q = FS_PIPE_BUF_SIZE
         \<or> \<not> page_accepted s (nat task) False (page_align_down (src + of_nat n)))
    \<and> q = (fs_pipes s pipe)\<lparr>pp_buf := pp_buf q, pp_write_pos := pp_write_pos q, pp_size := pp_size q\<rparr>"
  using fs_pipe_fill_loop_spec [OF assms, of 0 mx src] by (auto simp: fs_pipe_fill_def page_align_down_def)

lemma zero_pipe_inv: "pipe_inv zero_pipe" "pipe_bytes zero_pipe = []"
  by (simp_all add: zero_pipe_def pipe_inv_def pipe_bytes_def)

theorem pipe_fill_appends_witness:
  "pipe_inv (fs_pipes boot_kern 0x1070000)
   \<and> (\<exists>n q. fs_pipe_fill 0x1070000 0 0x8000000 10 boot_kern = Some (n, upd_pipe 0x1070000 (\<lambda>_. q) boot_kern) \<and> length (pipe_bytes q) = n)"
proof -
  have i: "pipe_inv (fs_pipes boot_kern 0x1070000)" "pipe_bytes (fs_pipes boot_kern 0x1070000) = []"
    using zero_pipe_inv by (simp_all add: boot_kern_def)
  from pipe_fill_appends [OF i(1), of 0 10 "0x8000000"] i(2) obtain n q where
    "fs_pipe_fill 0x1070000 0 0x8000000 10 boot_kern = Some (n, upd_pipe 0x1070000 (\<lambda>_. q) boot_kern)"
    "pipe_bytes q = user_bytes boot_kern 0 0x8000000 n" by auto
  with i(1) show ?thesis by (metis length_user_bytes)
qed

text \<open>
  C16: reading from a pipe takes from the front. \<open>fs_pipe_drain\<close> into memory mapped for the
  reader returns the smaller of the request and the size of the pipe; exactly these oldest bytes have left
  the pipe and, when no two bytes of the buffer share a frame, stand in the reader's buffer in order; no
  other byte of memory has changed.
\<close>

theorem pipe_drain_takes:
  fixes s :: "'a kern_t_scheme"
  assumes "pipe_inv (fs_pipes s pipe)" and "0 \<le> task"
    and "n = min mx (pp_size (fs_pipes s pipe))" and "dir = pr_page_dir (task_proc s (nat task))"
    and "\<forall>k<n. page_checkmapping dir (dest + of_nat k) s = PAGE_USERRW"
  shows "\<exists>m q. fs_pipe_drain pipe task dest mx s = Some (n, upd_pipe pipe (\<lambda>_. q) (s\<lparr>phys_mem := m\<rparr>))
    \<and> pipe_inv q \<and> pipe_bytes (fs_pipes s pipe) = take n (pipe_bytes (fs_pipes s pipe)) @ pipe_bytes q
    \<and> (\<forall>a. m a \<noteq> phys_mem s a \<longrightarrow> (\<exists>k<n. a = page_getphysical dir (dest + of_nat k) s))
    \<and> (inj_on (\<lambda>k. page_getphysical dir (dest + of_nat k) s) {..<n} \<longrightarrow>
         (\<forall>k<n. m (page_getphysical dir (dest + of_nat k) s) = pipe_bytes (fs_pipes s pipe) ! k))"
proof -
  have n: "min mx (0 + pp_size (fs_pipes s pipe)) = n" using assms(3) by simp
  obtain m q where u: "fs_pipe_drain pipe task dest mx s = Some (n, upd_pipe pipe (\<lambda>_. q) (s\<lparr>phys_mem := m\<rparr>))"
    "pipe_inv q" "pipe_bytes q = drop mx (pipe_bytes (fs_pipes s pipe))"
    "\<forall>a. a \<notin> phys_of dir dest s ` {0..<n} \<longrightarrow> m a = phys_mem s a"
    "inj_on (phys_of dir dest s) {0..<n} \<longrightarrow> (\<forall>k. 0 \<le> k \<and> k < n \<longrightarrow>
       m (phys_of dir dest s k) = pipe_bytes (fs_pipes s pipe) ! (k - 0))"
    using fs_pipe_drain_loop_mapped [OF assms(1,2), of 0 mx dest] assms(5)
    unfolding n assms(4) [symmetric] fs_pipe_drain_def by auto
  have "take n (pipe_bytes (fs_pipes s pipe)) @ pipe_bytes q = pipe_bytes (fs_pipes s pipe)"
    unfolding u(3) assms(3) by (cases "mx \<le> pp_size (fs_pipes s pipe)") simp_all
  then show ?thesis using u by (intro exI [of _ m] exI [of _ q]) (auto simp: atLeast0LessThan)
qed

text \<open>The pipe of a process with a mapped page, holding three bytes.\<close>

definition three_bytes :: kern_t where
  "three_bytes = upd_pipe 0x1070000 (\<lambda>p. p\<lparr>pp_buf := [1, 2, 3] @ replicate 4093 0, pp_size := 3, pp_write_pos := 3\<rparr>) mapped_process"

theorem pipe_drain_takes_witness:
  "\<exists>u. fs_pipe_drain 0x1070000 0 0x8000000 2 three_bytes = Some (2, u)"
proof -
  have p: "fs_pipes three_bytes 0x1070000 = zero_pipe\<lparr>pp_buf := [1, 2, 3] @ replicate 4093 0, pp_size := 3, pp_write_pos := 3\<rparr>"
    by (simp add: three_bytes_def mapped_process_def boot_kern_def)
  have d: "pr_page_dir (task_proc three_bytes (nat 0)) = block_addr 0" by (simp add: three_bytes_def mapped_process_def)
  have m: "page_checkmapping (block_addr 0) v three_bytes = PAGE_USERRW" if "page_no v = 0x8000" for v
    using mapped_process_page(1) [OF that] by (simp add: three_bytes_def)
  have "\<forall>k<2. page_checkmapping (block_addr 0) (0x8000000 + of_nat k) three_bytes = PAGE_USERRW"
  proof (intro allI impI)
    fix k :: nat assume "k < 2"
    then show "page_checkmapping (block_addr 0) (0x8000000 + of_nat k) three_bytes = PAGE_USERRW"
      by (intro m) (auto simp: page_no_def less_2_cases_iff)
  qed
  moreover have "pipe_inv (fs_pipes three_bytes 0x1070000)" unfolding p by (simp add: pipe_inv_def zero_pipe_def)
  ultimately show ?thesis
    using pipe_drain_takes [of three_bytes "0x1070000" 0 2 2 "block_addr 0" "0x8000000"] d p by auto
qed

end
