(* ===== verification/Handles.thy ===== *)
theory Handles
  imports Pipe
begin

text \<open>
  Kernel objects and the handles of processes (\<open>kobj.c\<close>, \<open>shared.c\<close>, \<open>dma.c\<close>,
  \<open>pci.c\<close> and the handle table of \<open>tasks.c\<close>). An instance counts its handles, and its
  references of any kind; a handle is a slot of the process together with check bits from the identity of
  the reference in that slot, so that a handle whose slot has been reused is refused. The table
  \<open>kobjs\<close> of callbacks per type is a record of functions, as in the code.
\<close>

section \<open>Model\<close>

record 's kobj_t =
  ko_default_rights :: u32
  ko_connect :: "(u32 \<Rightarrow> u32 \<Rightarrow> 's \<Rightarrow> bool \<times> 's) option"
  ko_stop :: "(u32 \<Rightarrow> 's \<Rightarrow> 's) option"
  ko_close :: "(u32 \<Rightarrow> u32 \<Rightarrow> bool \<Rightarrow> 's \<Rightarrow> 's) option"
  ko_free :: "(u32 \<Rightarrow> 's \<Rightarrow> 's) option"
  ko_map :: "(u32 \<Rightarrow> int \<Rightarrow> 's \<Rightarrow> kobj_mapping_t option) option"

subsection \<open>The callbacks\<close>

definition shared_map :: "u32 \<Rightarrow> int \<Rightarrow> 'a kern_t_scheme \<Rightarrow> kobj_mapping_t option" where
  "shared_map inst index s =
     (if index \<noteq> 0 then None
      else let block = shared_blocks s (ki_data (kobj_insts s inst))
           in Some \<lparr>km_paddr = sb_paddr block, km_size = sb_size block, km_no_cache = False\<rparr>)"

definition shared_connect :: "u32 \<Rightarrow> u32 \<Rightarrow> 'a kern_t_scheme \<Rightarrow> bool \<times> 'a kern_t_scheme" where
  "shared_connect ref process s = (True, s)"

definition shared_free_inst :: "u32 \<Rightarrow> 'a kern_t_scheme \<Rightarrow> 'a kern_t_scheme" where
  "shared_free_inst inst s =
     (let data = ki_data (kobj_insts s inst); block = shared_blocks s data
      in free data 8 (free (sb_paddr block) (s32 (uint (sb_size block))) s))"

definition dma_map :: "u32 \<Rightarrow> int \<Rightarrow> 'a kern_t_scheme \<Rightarrow> kobj_mapping_t option" where
  "dma_map inst index s =
     (if index \<noteq> 0 then None
      else let dma = shared_blocks s (ki_data (kobj_insts s inst))
           in Some \<lparr>km_paddr = sb_paddr dma, km_size = sb_size dma, km_no_cache = False\<rparr>)"

definition dma_cleanup :: "u32 \<Rightarrow> 'a kern_t_scheme \<Rightarrow> 'a kern_t_scheme" where
  "dma_cleanup inst s =
     (let data = ki_data (kobj_insts s inst); dma = shared_blocks s data
      in free data 8 (if sb_size dma \<noteq> 0 then free (sb_paddr dma) (s32 (uint (sb_size dma))) s else s))"

definition pci_map :: "u32 \<Rightarrow> int \<Rightarrow> 'a kern_t_scheme \<Rightarrow> kobj_mapping_t option" where
  "pci_map inst index s =
     (if index \<noteq> 1 then None
      else let device = pci_devices s (ki_data (kobj_insts s inst))
           in Some \<lparr>km_paddr = pd_bar1 device, km_size = pd_bar1_size device, km_no_cache = True\<rparr>)"

text \<open>Bits 1 (memory space) and 2 (bus mastering) of the command register.\<close>

definition pci_disable_device :: "u32 \<Rightarrow> 'a kern_t_scheme \<Rightarrow> 'a kern_t_scheme" where
  "pci_disable_device device = upd_pci device (\<lambda>d. d\<lparr>pd_hw_cmd := pd_hw_cmd d AND NOT 6\<rparr>)"

definition pci_stop :: "u32 \<Rightarrow> 'a kern_t_scheme \<Rightarrow> 'a kern_t_scheme" where
  "pci_stop inst s = pci_disable_device (ki_data (kobj_insts s inst)) s"

definition pci_free_inst :: "u32 \<Rightarrow> 'a kern_t_scheme \<Rightarrow> 'a kern_t_scheme" where
  "pci_free_inst inst s = upd_pci (ki_data (kobj_insts s inst)) (\<lambda>d. d\<lparr>pd_inst := 0\<rparr>) s"

definition fs_free :: "u32 \<Rightarrow> 'a kern_t_scheme \<Rightarrow> 'a kern_t_scheme" where
  "fs_free inst s = fs_close_locked (ki_data (kobj_insts s inst)) s"

definition fs_connect :: "u32 \<Rightarrow> u32 \<Rightarrow> 'a kern_t_scheme \<Rightarrow> bool \<times> 'a kern_t_scheme" where
  "fs_connect ref process s = (True, s)"

abbreviation (input) KOBJ_RIGHT_READ :: u32 where "KOBJ_RIGHT_READ \<equiv> 2"
abbreviation (input) KOBJ_RIGHT_WRITE :: u32 where "KOBJ_RIGHT_WRITE \<equiv> 4"
abbreviation (input) KOBJ_RIGHTS_ALL :: u32 where "KOBJ_RIGHTS_ALL \<equiv> 0xFFFFFFFF"

fun kobjs :: "kobj_type_t \<Rightarrow> 'a kern_t_scheme kobj_t" where
  "kobjs KOBJ_DMA = \<lparr>ko_default_rights = KOBJ_RIGHT_READ OR KOBJ_RIGHT_WRITE, ko_connect = None, ko_stop = None,
     ko_close = None, ko_free = Some dma_cleanup, ko_map = Some dma_map\<rparr>"
| "kobjs KOBJ_PCI = \<lparr>ko_default_rights = KOBJ_RIGHT_READ OR KOBJ_RIGHT_WRITE, ko_connect = None, ko_stop = Some pci_stop,
     ko_close = None, ko_free = Some pci_free_inst, ko_map = Some pci_map\<rparr>"
| "kobjs KOBJ_SHARED = \<lparr>ko_default_rights = KOBJ_RIGHTS_ALL, ko_connect = Some shared_connect, ko_stop = None,
     ko_close = None, ko_free = Some shared_free_inst, ko_map = Some shared_map\<rparr>"
| "kobjs KOBJ_FILE = \<lparr>ko_default_rights = KOBJ_RIGHTS_ALL, ko_connect = Some fs_connect, ko_stop = None,
     ko_close = None, ko_free = Some fs_free, ko_map = None\<rparr>"
| "kobjs KOBJ_NONE = \<lparr>ko_default_rights = 0, ko_connect = None, ko_stop = None, ko_close = None, ko_free = None,
     ko_map = None\<rparr>"

abbreviation obj_of :: "'a kern_t_scheme \<Rightarrow> u32 \<Rightarrow> 'a kern_t_scheme kobj_t" where
  "obj_of s inst \<equiv> kobjs (ki_type (kobj_insts s inst))"

subsection \<open>Instances and references\<close>

definition create_kobj_inst :: "kobj_type_t \<Rightarrow> u32 \<Rightarrow> 'a kern_t_scheme \<Rightarrow> u32 \<times> 'a kern_t_scheme" where
  "create_kobj_inst type data s =
     (if type = KOBJ_NONE then (0, s)
      else let (kobj, s1) = malloc 24 s
           in if kobj = 0 then (0, s1)
              else (kobj, upd_inst kobj (\<lambda>_. \<lparr>ki_uid = kobj_uid_counter s1, ki_type = type, ki_data = data,
                      ki_ref_count = 0, ki_handle_count = 0, ki_stopped = False\<rparr>)
                      (s1\<lparr>kobj_uid_counter := kobj_uid_counter s1 + 1\<rparr>)))"

definition kobj_stop :: "u32 \<Rightarrow> 'a kern_t_scheme \<Rightarrow> 'a kern_t_scheme" where
  "kobj_stop inst s =
     (case ko_stop (obj_of s inst) of
        Some stop \<Rightarrow> if ki_stopped (kobj_insts s inst) then s
                     else upd_inst inst (\<lambda>i. i\<lparr>ki_stopped := True\<rparr>) (stop inst s)
      | None \<Rightarrow> s)"

definition free_kobj_inst :: "u32 \<Rightarrow> 'a kern_t_scheme \<Rightarrow> 'a kern_t_scheme" where
  "free_kobj_inst inst s =
     (let s1 = kobj_stop inst s;
          s2 = (case ko_free (obj_of s1 inst) of Some f \<Rightarrow> f inst s1 | None \<Rightarrow> s1)
      in free inst 24 s2)"

definition kobj_add_ref :: "u32 \<Rightarrow> 'a kern_t_scheme \<Rightarrow> 'a kern_t_scheme" where
  "kobj_add_ref inst = upd_inst inst (\<lambda>i. i\<lparr>ki_ref_count := ki_ref_count i + 1\<rparr>)"

definition kobj_release_ref :: "u32 \<Rightarrow> 'a kern_t_scheme \<Rightarrow> 'a kern_t_scheme" where
  "kobj_release_ref inst s =
     (let s1 = upd_inst inst (\<lambda>i. i\<lparr>ki_ref_count := ki_ref_count i - 1\<rparr>) s
      in if ki_ref_count (kobj_insts s1 inst) = 0 then free_kobj_inst inst s1 else s1)"

definition KOBJ_HANDLE_CHECK :: "u32 \<Rightarrow> u32" where
  "KOBJ_HANDLE_CHECK uid = uid AND 0x7FFF"

text \<open>The uid of the next reference: a uid with blank check bits is skipped.\<close>

definition next_ref_uid :: "u32 \<Rightarrow> u32" where
  "next_ref_uid c = (if KOBJ_HANDLE_CHECK c = 0 then c + 1 else c)"

definition create_kobj_ref :: "u32 \<Rightarrow> 'a kern_t_scheme \<Rightarrow> u32 \<times> 'a kern_t_scheme" where
  "create_kobj_ref inst s =
     (let (ref, s1) = malloc 16 s
      in if ref = 0 then (0, s1)
         else let s2 = upd_inst inst (\<lambda>i. i\<lparr>ki_handle_count := ki_handle_count i + 1\<rparr>) (kobj_add_ref inst s1);
                  uid = next_ref_uid (kobj_ref_uid_counter s2)
              in (ref, s2\<lparr>kobj_ref_uid_counter := uid + 1,
                    kobj_refs := (kobj_refs s2)(ref := \<lparr>kr_uid = uid, kr_inst = inst, kr_data = 0,
                      kr_rights = ko_default_rights (obj_of s2 inst)\<rparr>)\<rparr>))"

definition kobj_release :: "u32 \<Rightarrow> u32 \<Rightarrow> bool \<Rightarrow> 'a kern_t_scheme \<Rightarrow> bool \<times> 'a kern_t_scheme" where
  "kobj_release ref process ending s =
     (if ref = 0 then (False, s)
      else let inst = kr_inst (kobj_refs s ref)
           in if inst = 0 then (False, s)
              else let s1 = (case ko_close (obj_of s inst) of Some f \<Rightarrow> f ref process ending s | None \<Rightarrow> s);
                       s2 = upd_inst inst (\<lambda>i. i\<lparr>ki_handle_count := ki_handle_count i - 1\<rparr>) s1;
                       s3 = (if ki_handle_count (kobj_insts s2 inst) = 0 then kobj_stop inst s2 else s2)
                   in (True, free ref 16 (kobj_release_ref inst s3)))"

subsection \<open>The handles of a process\<close>

text \<open>Bits 0 to 15 of a handle are the slot, bits 16 to 30 the check bits.\<close>

definition process_get_kobj :: "u32 \<Rightarrow> int \<Rightarrow> 'a kern_t_scheme \<Rightarrow> u32" where
  "process_get_kobj process h s =
     (if process = 0 \<or> h < 0 then 0
      else let index = nat (h mod 0x10000)
           in if index \<ge> PROCESS_MAX_KOBJ then 0
              else let ref = pr_kobj (processes s process) index
                   in if ref = 0 \<or> kr_inst (kobj_refs s ref) = 0 then 0
                      else if h div 0x10000 \<noteq> uint (KOBJ_HANDLE_CHECK (kr_uid (kobj_refs s ref))) then 0
                      else ref)"

definition process_get_kobj_type :: "u32 \<Rightarrow> int \<Rightarrow> kobj_type_t \<Rightarrow> 'a kern_t_scheme \<Rightarrow> u32" where
  "process_get_kobj_type process h type s =
     (let ref = process_get_kobj process h s
      in if ref = 0 \<or> ki_type (kobj_insts s (kr_inst (kobj_refs s ref))) \<noteq> type then 0 else ref)"

definition first_free_slot :: "(nat \<Rightarrow> u32) \<Rightarrow> nat" where
  "first_free_slot table = length (takeWhile (\<lambda>h. table h \<noteq> 0) [0..<PROCESS_MAX_KOBJ])"

definition process_acquire_kobj :: "u32 \<Rightarrow> u32 \<Rightarrow> 'a kern_t_scheme \<Rightarrow> int \<times> 'a kern_t_scheme" where
  "process_acquire_kobj process inst s =
     (let h = first_free_slot (pr_kobj (processes s process))
      in if h = PROCESS_MAX_KOBJ then (- 1, s)
         else let (ref, s1) = create_kobj_ref inst s
              in if ref = 0 then (- 1, s1)
                 else (int h + uint (KOBJ_HANDLE_CHECK (kr_uid (kobj_refs s1 ref))) * 0x10000,
                       upd_process process (\<lambda>p. p\<lparr>pr_kobj := (pr_kobj p)(h := ref), pr_kobj_count := pr_kobj_count p + 1\<rparr>) s1))"

definition process_release_kobj :: "u32 \<Rightarrow> int \<Rightarrow> 'a kern_t_scheme \<Rightarrow> bool \<times> 'a kern_t_scheme" where
  "process_release_kobj process h s =
     (let ref = process_get_kobj process h s
      in if ref = 0 then (False, s)
         else case kobj_release ref process False s of
                (False, s1) \<Rightarrow> (False, s1)
              | (True, s1) \<Rightarrow>
                  (True, upd_process process (\<lambda>p. p\<lparr>pr_kobj := (pr_kobj p)(nat (h mod 0x10000) := 0),
                                                  pr_kobj_count := pr_kobj_count p - 1\<rparr>) s1))"

text \<open>One slot in one of the two passes of \<open>process_release_kobjs\<close>.\<close>

definition release_slot :: "u32 \<Rightarrow> bool \<Rightarrow> nat \<Rightarrow> 'a kern_t_scheme \<Rightarrow> 'a kern_t_scheme" where
  "release_slot process device_pass i s =
     (let ref = pr_kobj (processes s process) i
      in if ref = 0 then s
         else if (ko_stop (obj_of s (kr_inst (kobj_refs s ref))) \<noteq> None) \<noteq> device_pass then s
         else case kobj_release ref process True s of
                (False, s1) \<Rightarrow> s1
              | (True, s1) \<Rightarrow>
                  upd_process process (\<lambda>p. p\<lparr>pr_kobj := (pr_kobj p)(i := 0), pr_kobj_count := pr_kobj_count p - 1\<rparr>) s1)"

definition process_release_kobjs :: "u32 \<Rightarrow> 'a kern_t_scheme \<Rightarrow> 'a kern_t_scheme" where
  "process_release_kobjs process s =
     fold (release_slot process False) [0..<PROCESS_MAX_KOBJ] (fold (release_slot process True) [0..<PROCESS_MAX_KOBJ] s)"

definition process_copy_kobj :: "u32 \<Rightarrow> u32 \<Rightarrow> int \<Rightarrow> 'a kern_t_scheme \<Rightarrow> int \<times> 'a kern_t_scheme" where
  "process_copy_kobj send_process receive_process handle s =
     (let ref = process_get_kobj send_process handle s
      in if ref = 0 then (- 1, s)
         else let inst = kr_inst (kobj_refs s ref)
              in case ko_connect (obj_of s inst) of
                   None \<Rightarrow> (- 1, s)
                 | Some connect \<Rightarrow>
                     let (h, s1) = process_acquire_kobj receive_process inst s
                     in if h < 0 then (- 2, s1)
                        else let new_ref = process_get_kobj receive_process h s1;
                                 (success, s2) = connect new_ref receive_process s1
                             in if \<not> success then (- 1, snd (process_release_kobj receive_process h s2)) else (h, s2))"

section \<open>What the callbacks leave alone\<close>

lemma close_wake_reader_frame [simp]:
  "kobj_refs (close_wake_reader q s) = kobj_refs s" "processes (close_wake_reader q s) = processes s"
  "kobj_insts (close_wake_reader q s) = kobj_insts s" "shared_blocks (close_wake_reader q s) = shared_blocks s"
  "fs_files (close_wake_reader q s) = fs_files s" "memory_status (close_wake_reader q s) = memory_status s"
  "heap_head (close_wake_reader q s) = heap_head s" "pci_devices (close_wake_reader q s) = pci_devices s"
  "kobj_ref_uid_counter (close_wake_reader q s) = kobj_ref_uid_counter s" "vm_regions (close_wake_reader q s) = vm_regions s"
  "r \<noteq> q \<Longrightarrow> fs_pipes (close_wake_reader q s) r = fs_pipes s r"
  "pp_ref_count (fs_pipes (close_wake_reader q s) r) = pp_ref_count (fs_pipes s r)"
  by (simp_all add: close_wake_reader_def Let_def kern_upds set_ebx_def task_resume_def)

lemma close_wake_writer_frame [simp]:
  "kobj_refs (close_wake_writer q s) = kobj_refs s" "processes (close_wake_writer q s) = processes s"
  "kobj_insts (close_wake_writer q s) = kobj_insts s" "shared_blocks (close_wake_writer q s) = shared_blocks s"
  "fs_files (close_wake_writer q s) = fs_files s" "memory_status (close_wake_writer q s) = memory_status s"
  "heap_head (close_wake_writer q s) = heap_head s" "pci_devices (close_wake_writer q s) = pci_devices s"
  "kobj_ref_uid_counter (close_wake_writer q s) = kobj_ref_uid_counter s" "vm_regions (close_wake_writer q s) = vm_regions s"
  "r \<noteq> q \<Longrightarrow> fs_pipes (close_wake_writer q s) r = fs_pipes s r"
  "pp_ref_count (fs_pipes (close_wake_writer q s) r) = pp_ref_count (fs_pipes s r)"
  by (simp_all add: close_wake_writer_def Let_def kern_upds set_ebx_def task_resume_def)

lemma fs_close_locked_frame [simp]:
  "kobj_refs (fs_close_locked f s) = kobj_refs s" "processes (fs_close_locked f s) = processes s"
  "kobj_insts (fs_close_locked f s) = kobj_insts s" "shared_blocks (fs_close_locked f s) = shared_blocks s"
  "fs_files (fs_close_locked f s) = fs_files s" "pci_devices (fs_close_locked f s) = pci_devices s"
  "kobj_ref_uid_counter (fs_close_locked f s) = kobj_ref_uid_counter s"
  "vm_regions (fs_close_locked f s) = vm_regions s"
  by (simp_all add: fs_close_locked_def Let_def upd_pipe_def)

lemmas callback_defs = dma_cleanup_def pci_stop_def pci_disable_device_def pci_free_inst_def
  shared_free_inst_def fs_free_def upd_pci_def

lemma kobj_stop_frame [simp]:
  "kobj_refs (kobj_stop k s) = kobj_refs s" "processes (kobj_stop k s) = processes s"
  "shared_blocks (kobj_stop k s) = shared_blocks s" "fs_files (kobj_stop k s) = fs_files s"
  "fs_pipes (kobj_stop k s) = fs_pipes s" "memory_status (kobj_stop k s) = memory_status s"
  "heap_head (kobj_stop k s) = heap_head s"
  "kobj_ref_uid_counter (kobj_stop k s) = kobj_ref_uid_counter s" "vm_regions (kobj_stop k s) = vm_regions s"
  "k' \<noteq> k \<Longrightarrow> kobj_insts (kobj_stop k s) k' = kobj_insts s k'"
  "ki_type (kobj_insts (kobj_stop k s) k') = ki_type (kobj_insts s k')"
  "ki_data (kobj_insts (kobj_stop k s) k') = ki_data (kobj_insts s k')"
  "ki_ref_count (kobj_insts (kobj_stop k s) k') = ki_ref_count (kobj_insts s k')"
  "ki_handle_count (kobj_insts (kobj_stop k s) k') = ki_handle_count (kobj_insts s k')"
  by (cases "ki_type (kobj_insts s k)"; simp add: kobj_stop_def callback_defs upd_inst_def)+

lemma free_kobj_inst_frame [simp]:
  "kobj_refs (free_kobj_inst k s) = kobj_refs s" "processes (free_kobj_inst k s) = processes s"
  "shared_blocks (free_kobj_inst k s) = shared_blocks s" "fs_files (free_kobj_inst k s) = fs_files s"
  "kobj_ref_uid_counter (free_kobj_inst k s) = kobj_ref_uid_counter s" "vm_regions (free_kobj_inst k s) = vm_regions s"
  "k' \<noteq> k \<Longrightarrow> kobj_insts (free_kobj_inst k s) k' = kobj_insts s k'"
  by (cases "ki_type (kobj_insts s k)"; simp add: free_kobj_inst_def Let_def callback_defs)+

lemma kobj_release_ref_frame [simp]:
  "kobj_refs (kobj_release_ref k s) = kobj_refs s" "processes (kobj_release_ref k s) = processes s"
  "shared_blocks (kobj_release_ref k s) = shared_blocks s" "fs_files (kobj_release_ref k s) = fs_files s"
  "kobj_ref_uid_counter (kobj_release_ref k s) = kobj_ref_uid_counter s" "vm_regions (kobj_release_ref k s) = vm_regions s"
  "k' \<noteq> k \<Longrightarrow> kobj_insts (kobj_release_ref k s) k' = kobj_insts s k'"
  by (simp_all add: kobj_release_ref_def Let_def upd_inst_def)

lemma ko_close_none [simp]: "ko_close (kobjs t) = None"
  by (cases t) simp_all

section \<open>Who owns which block\<close>

text \<open>
  A ledger assigns blocks of the heap to their owner: a reference, an instance (with everything
  its type's free function releases), or a pipe, which the instances of its two ends share.
\<close>

datatype owner_t = ORef u32 | OInst u32 | OPipe u32 | ORegion u32

type_synonym ledger_t = "nat \<Rightarrow> owner_t option"

definition ledger :: "ledger_t \<Rightarrow> 'a kern_t_scheme \<Rightarrow> bool" where
  "ledger L s \<longleftrightarrow> heap_inv s \<and> (\<forall>b w. L b = Some w \<longrightarrow> b < 8192 \<and> memory_status s b)"

definition held :: "ledger_t \<Rightarrow> owner_t \<Rightarrow> u32 \<Rightarrow> int \<Rightarrow> bool" where
  "held L w a n \<longleftrightarrow> valid_size n \<and> (\<exists>b. a = block_addr b \<and> b + nblocks n \<le> 8192 \<and> (\<forall>c\<in>obj_blocks b n. L c = Some w))"

definition drop_owners :: "owner_t set \<Rightarrow> ledger_t \<Rightarrow> ledger_t" where
  "drop_owners W L = (\<lambda>b. case L b of None \<Rightarrow> None | Some w \<Rightarrow> if w \<in> W then None else Some w)"

lemma drop_owners_Some [simp]: "drop_owners W L b = Some w \<longleftrightarrow> L b = Some w \<and> w \<notin> W"
  by (auto simp: drop_owners_def split: option.splits)

lemma drop_owners_held: "held L w a n \<Longrightarrow> w \<notin> W \<Longrightarrow> held (drop_owners W L) w a n"
  by (auto simp: held_def)

lemma held_update: "held L w a n \<Longrightarrow> L b = None \<Longrightarrow> held (L(b \<mapsto> v)) w a n"
  by (fastforce simp: held_def)

lemma held_inj: "held L w a n \<Longrightarrow> held L v a m \<Longrightarrow> w = v"
proof -
  assume w: "held L w a n" and v: "held L v a m"
  obtain b where b: "a = block_addr b" "b + nblocks n \<le> 8192" "\<forall>c\<in>obj_blocks b n. L c = Some w" "valid_size n"
    using w by (auto simp: held_def)
  obtain c where c: "a = block_addr c" "c + nblocks m \<le> 8192" "\<forall>d\<in>obj_blocks c m. L d = Some v" "valid_size m"
    using v by (auto simp: held_def)
  have "b = c" using b c block_addr_inj [of b c] by auto
  moreover have "b \<in> obj_blocks b n" "c \<in> obj_blocks c m"
    using nblocks_pos b(4) c(4) by (auto simp: obj_blocks_def)
  ultimately show "w = v" using b(3) c(3) by auto
qed

lemma held_nonnull: "held L w a n \<Longrightarrow> a \<noteq> 0"
  using block_addr_neq_0 by (fastforce simp: held_def)

lemma ledger_drop: "ledger L s \<Longrightarrow> ledger (drop_owners W L) s"
  by (simp add: ledger_def)

lemma ledger_free:
  assumes led: "ledger (drop_owners W L) s" and a: "held L w a n" "w \<in> W"
  shows "ledger (drop_owners W L) (free a n s)"
proof -
  obtain b where b: "a = block_addr b" "b + nblocks n \<le> 8192" "valid_size n" "\<And>c. c \<in> obj_blocks b n \<Longrightarrow> L c = Some w"
    using a(1) by (auto simp: held_def)
  have inv: "heap_inv s" using led by (simp add: ledger_def)
  have out: "drop_owners W L c = Some v \<Longrightarrow> c \<notin> obj_blocks b n" for c v
    using b(4) [of c] a(2) by auto
  have "memory_status (free a n s) c" if "drop_owners W L c = Some v" for c v
    using out [OF that] led that free_inv(2) [OF inv b(3,2)] b(1) by (auto simp: ledger_def obj_blocks_def)
  then show ?thesis
    using led free_inv(1) [OF inv b(3,2)] b(1) by (auto simp: ledger_def)
qed

lemma ledger_cong:
  "heap_head s' = heap_head s \<Longrightarrow> memory_status s' = memory_status s \<Longrightarrow> ledger L s' = ledger L s"
  by (simp add: ledger_def heap_inv_def)

lemma ledger_malloc:
  assumes led: "ledger L s" and m: "malloc n s = (a, s1)" "a \<noteq> 0" and n: "0 < n" "n \<le> 4096"
  obtains b where "a = block_addr b" "b < 8192" "L b = None" "ledger (L(b \<mapsto> w)) s1" "held (L(b \<mapsto> w)) w a n"
proof -
  have inv: "heap_inv s" using led by (simp add: ledger_def)
  have v: "valid_size n" using n by (simp add: valid_size_def)
  have "(n + 4095) div 4096 = 1" using n by (auto simp: div_pos_geq)
  then have one: "nblocks n = 1" by (simp add: nblocks_def)
  obtain b where b: "a = block_addr b" "b < 8192" "b \<notin> used_blocks s" "used_blocks s1 = insert b (used_blocks s)"
    using kheap.alloc_page [OF inv n] m by auto
  have none: "L b = None" using led b(2,3) by (cases "L b") (auto simp: ledger_def used_blocks_def)
  have i1: "heap_inv s1" using malloc_inv [OF inv v] m by simp
  have "c < 8192 \<and> memory_status s1 c" if "(L(b \<mapsto> w)) c = Some x" for c x
  proof -
    have "c \<in> used_blocks s1" using that led b(4) by (auto simp: ledger_def used_blocks_def split: if_splits)
    then show ?thesis by (simp add: used_blocks_def)
  qed
  then have "ledger (L(b \<mapsto> w)) s1" using i1 by (auto simp: ledger_def)
  moreover have "held (L(b \<mapsto> w)) w a n"
    using b v by (auto simp: held_def one obj_blocks_def intro!: exI [of _ b])
  ultimately show thesis using that b none by blast
qed

subsection \<open>The blocks of an instance\<close>

definition inst_held :: "ledger_t \<Rightarrow> 'a kern_t_scheme \<Rightarrow> u32 \<Rightarrow> bool" where
  "inst_held L s k \<longleftrightarrow> held L (OInst k) k 24 \<and>
     (let data = ki_data (kobj_insts s k)
      in case ki_type (kobj_insts s k) of
           KOBJ_PCI \<Rightarrow> True
         | KOBJ_NONE \<Rightarrow> False
         | KOBJ_FILE \<Rightarrow> held L (OInst k) data 288
             \<and> (ff_data (fs_files s data) \<noteq> 0 \<longrightarrow> held L (OInst k) (ff_data (fs_files s data)) 8)
             \<and> (ff_pipe (fs_files s data) \<noteq> 0 \<longrightarrow> held L (OPipe (ff_pipe (fs_files s data))) (ff_pipe (fs_files s data)) 4148)
         | _ \<Rightarrow> held L (OInst k) data 8
             \<and> held L (OInst k) (sb_paddr (shared_blocks s data)) (s32 (uint (sb_size (shared_blocks s data)))))"

text \<open>The pipe an instance is an end of, 0 for none.\<close>

definition inst_pipe :: "'a kern_t_scheme \<Rightarrow> u32 \<Rightarrow> u32" where
  "inst_pipe s k = (if ki_type (kobj_insts s k) = KOBJ_FILE then ff_pipe (fs_files s (ki_data (kobj_insts s k))) else 0)"

text \<open>What goes when an instance is freed: its own blocks, and its pipe with the last end.\<close>

definition inst_owners :: "'a kern_t_scheme \<Rightarrow> u32 \<Rightarrow> owner_t set" where
  "inst_owners s k = insert (OInst k)
     (if inst_pipe s k \<noteq> 0 \<and> pp_ref_count (fs_pipes s (inst_pipe s k)) \<le> 1 then {OPipe (inst_pipe s k)} else {})"

lemma fs_close_ledger:
  assumes led: "ledger (drop_owners W L) s"
    and f: "held L (OInst k) f 288" and d: "ff_data (fs_files s f) \<noteq> 0 \<Longrightarrow> held L (OInst k) (ff_data (fs_files s f)) 8"
    and q: "ff_pipe (fs_files s f) \<noteq> 0 \<Longrightarrow> held L (OPipe (ff_pipe (fs_files s f))) (ff_pipe (fs_files s f)) 4148"
    and W: "OInst k \<in> W"
      "ff_pipe (fs_files s f) \<noteq> 0 \<Longrightarrow> pp_ref_count (fs_pipes s (ff_pipe (fs_files s f))) \<le> 1 \<Longrightarrow> OPipe (ff_pipe (fs_files s f)) \<in> W"
  shows "ledger (drop_owners W L) (fs_close_locked f s)"
proof -
  let ?M = "drop_owners W L" and ?q = "ff_pipe (fs_files s f)"
  define s1 where "s1 = (if ff_data (fs_files s f) \<noteq> 0 then free (ff_data (fs_files s f)) 8 s else s)"
  have s1: "ledger ?M s1" "fs_pipes s1 = fs_pipes s" using led d W(1) by (auto simp: s1_def intro: ledger_free)
  define a where "a = (if ff_flags (fs_files s f) AND FS_FLAG_WRITEONLY \<noteq> 0
    then upd_pipe ?q (\<lambda>x. x\<lparr>pp_writer_count := pp_writer_count x - 1\<rparr>) s1 else s1)"
  define b where "b = close_wake_writer ?q (close_wake_reader ?q a)"
  define c where "c = (if pp_ref_count (fs_pipes b ?q) > 0
    then upd_pipe ?q (\<lambda>x. x\<lparr>pp_ref_count := pp_ref_count x - 1\<rparr>) b else b)"
  have a: "heap_head a = heap_head s1" "memory_status a = memory_status s1"
    "pp_ref_count (fs_pipes a ?q) = pp_ref_count (fs_pipes s1 ?q)"
    by (simp_all add: a_def upd_pipe_def)
  have b: "heap_head b = heap_head s1" "memory_status b = memory_status s1"
    "pp_ref_count (fs_pipes b ?q) = pp_ref_count (fs_pipes s ?q)"
    using a s1(2) by (simp_all add: b_def)
  have c: "heap_head c = heap_head s1" "memory_status c = memory_status s1"
    "pp_ref_count (fs_pipes c ?q) = 0 \<Longrightarrow> pp_ref_count (fs_pipes s ?q) \<le> 1"
    using b by (auto simp: c_def upd_pipe_def split: if_splits)
  have lc: "ledger ?M c" using s1(1) ledger_cong [OF c(1,2)] by blast
  have "ledger ?M (if pp_ref_count (fs_pipes c ?q) = 0 then free ?q 4148 c else c)" if "?q \<noteq> 0"
    using lc ledger_free [OF lc q [OF that]] W(2) [OF that] c(3) by auto
  then have "ledger ?M (if ?q \<noteq> 0 then if pp_ref_count (fs_pipes c ?q) = 0 then free ?q 4148 c else c else s1)"
    using s1(1) by simp
  then have "ledger ?M (free f 288 (if ?q \<noteq> 0 then if pp_ref_count (fs_pipes c ?q) = 0 then free ?q 4148 c else c else s1))"
    by (rule ledger_free) (use f W in auto)
  moreover have "fs_close_locked f s =
      free f 288 (if ?q \<noteq> 0 then if pp_ref_count (fs_pipes c ?q) = 0 then free ?q 4148 c else c else s1)"
    unfolding fs_close_locked_def Let_def s1_def [symmetric] a_def [symmetric] b_def [symmetric] c_def [symmetric] ..
  ultimately show ?thesis by simp
qed

lemma free_kobj_inst_ledger:
  assumes led: "ledger (drop_owners W L) s" and k: "inst_held L s k" and W: "inst_owners s k \<subseteq> W"
  shows "ledger (drop_owners W L) (free_kobj_inst k s)"
proof -
  let ?M = "drop_owners W L" and ?d = "ki_data (kobj_insts s k)" and ?s1 = "kobj_stop k s"
  have l1: "ledger ?M ?s1" using led by (subst ledger_cong [of _ s]) simp_all
  have k24: "held L (OInst k) k 24" and oW: "OInst k \<in> W" using k W by (auto simp: inst_held_def inst_owners_def)
  have "ledger ?M (case ko_free (obj_of ?s1 k) of Some f \<Rightarrow> f k ?s1 | None \<Rightarrow> ?s1)"
  proof (cases "ki_type (kobj_insts s k)")
    case KOBJ_DMA
    with k l1 oW show ?thesis
      by (auto simp: inst_held_def dma_cleanup_def Let_def intro!: ledger_free)
  next
    case KOBJ_PCI
    then show ?thesis using l1 by (simp add: pci_free_inst_def upd_pci_def ledger_def heap_inv_def)
  next
    case KOBJ_SHARED
    with k l1 oW show ?thesis
      by (auto simp: inst_held_def shared_free_inst_def Let_def intro!: ledger_free)
  next
    case KOBJ_FILE
    have "ledger ?M (fs_close_locked ?d ?s1)"
    proof (rule fs_close_ledger [OF l1, where k = k])
      show "OPipe (ff_pipe (fs_files ?s1 ?d)) \<in> W" if "ff_pipe (fs_files ?s1 ?d) \<noteq> 0"
        "pp_ref_count (fs_pipes ?s1 (ff_pipe (fs_files ?s1 ?d))) \<le> 1"
        using W that KOBJ_FILE by (auto simp: inst_owners_def inst_pipe_def)
    qed (use k KOBJ_FILE oW in \<open>auto simp: inst_held_def Let_def\<close>)
    then show ?thesis using KOBJ_FILE by (simp add: fs_free_def)
  next
    case KOBJ_NONE
    then show ?thesis using l1 by simp
  qed
  then show ?thesis unfolding free_kobj_inst_def Let_def by (rule ledger_free) (use k24 oW in auto)
qed

subsection \<open>The invariant of instances\<close>

text \<open>
  \<open>K\<close> is the set of the instances that exist, \<open>C k\<close> the number of references to
  instance \<open>k\<close>.
\<close>

definition kobj_core :: "ledger_t \<Rightarrow> u32 set \<Rightarrow> (u32 \<Rightarrow> nat) \<Rightarrow> 'a kern_t_scheme \<Rightarrow> bool" where
  "kobj_core L K C s \<longleftrightarrow> ledger L s \<and> finite K
     \<and> (\<forall>k\<in>K. inst_held L s k \<and> ki_ref_count (kobj_insts s k) = int (C k)
         \<and> (inst_pipe s k \<noteq> 0 \<longrightarrow>
              int (card {j \<in> K. inst_pipe s j = inst_pipe s k}) \<le> pp_ref_count (fs_pipes s (inst_pipe s k))))"

lemma inst_held_cong:
  assumes "ki_data (kobj_insts s' k) = ki_data (kobj_insts s k)" "ki_type (kobj_insts s' k) = ki_type (kobj_insts s k)"
    "fs_files s' = fs_files s" "shared_blocks s' = shared_blocks s"
  shows "inst_held L s' k = inst_held L s k"
  unfolding inst_held_def Let_def assms ..

lemma inst_pipe_cong:
  assumes "ki_data (kobj_insts s' k) = ki_data (kobj_insts s k)" "ki_type (kobj_insts s' k) = ki_type (kobj_insts s k)"
    "fs_files s' = fs_files s"
  shows "inst_pipe s' k = inst_pipe s k"
  unfolding inst_pipe_def by (simp add: assms)

lemma inst_held_drop:
  assumes "inst_held L s k" "OInst k \<notin> W" "inst_pipe s k \<noteq> 0 \<Longrightarrow> OPipe (inst_pipe s k) \<notin> W"
  shows "inst_held (drop_owners W L) s k"
  using assms unfolding inst_held_def inst_pipe_def Let_def
  by (auto split: kobj_type_t.splits intro: drop_owners_held)

lemma inst_held_update: "inst_held L s k \<Longrightarrow> L b = None \<Longrightarrow> inst_held (L(b \<mapsto> w)) s k"
  unfolding inst_held_def Let_def by (auto split: kobj_type_t.splits intro: held_update)

lemma free_kobj_inst_pipes:
  "pp_ref_count (fs_pipes (free_kobj_inst k s) q) =
     (if q \<noteq> 0 \<and> q = inst_pipe s k \<and> 0 < pp_ref_count (fs_pipes s q)
      then pp_ref_count (fs_pipes s q) - 1 else pp_ref_count (fs_pipes s q))"
proof -
  have "pp_ref_count (fs_pipes (fs_close_locked f t) q) =
     (if q \<noteq> 0 \<and> q = ff_pipe (fs_files t f) \<and> 0 < pp_ref_count (fs_pipes t q)
      then pp_ref_count (fs_pipes t q) - 1 else pp_ref_count (fs_pipes t q))" for f and t :: "'a kern_t_scheme"
    by (simp add: fs_close_locked_def Let_def upd_pipe_def)
  then show ?thesis
    by (cases "ki_type (kobj_insts s k)")
      (auto simp: free_kobj_inst_def Let_def callback_defs inst_pipe_def)
qed

lemma card_users_remove:
  assumes "finite K" "k \<in> K" "P k"
  shows "card {j \<in> K - {k}. P j} = card {j \<in> K. P j} - 1" "0 < card {j \<in> K. P j}"
proof -
  have "{j \<in> K - {k}. P j} = {j \<in> K. P j} - {k}" by blast
  then show "card {j \<in> K - {k}. P j} = card {j \<in> K. P j} - 1" using assms by simp
  show "0 < card {j \<in> K. P j}" using assms by (auto simp: card_gt_0_iff)
qed

lemma free_inst_core:
  assumes core: "kobj_core L K C s" and k: "k \<in> K"
  shows "kobj_core (drop_owners (inst_owners s k) L) (K - {k}) C (free_kobj_inst k s)"
proof -
  let ?W = "inst_owners s k" and ?s' = "free_kobj_inst k s"
  have led: "ledger (drop_owners ?W L) ?s'"
    using free_kobj_inst_ledger [OF ledger_drop, of L s k ?W] core k by (auto simp: kobj_core_def)
  have fin: "finite K" using core by (simp add: kobj_core_def)
  have pipe: "inst_pipe ?s' j = inst_pipe s j" if "j \<noteq> k" for j
    using that by (intro inst_pipe_cong) simp_all
  have inst: "inst_held (drop_owners ?W L) ?s' j \<and> ki_ref_count (kobj_insts ?s' j) = int (C j) \<and>
     (inst_pipe ?s' j \<noteq> 0 \<longrightarrow>
       int (card {i \<in> K - {k}. inst_pipe ?s' i = inst_pipe ?s' j}) \<le> pp_ref_count (fs_pipes ?s' (inst_pipe ?s' j)))"
    if j: "j \<in> K" "j \<noteq> k" for j
  proof -
    let ?q = "inst_pipe s j"
    have hj: "inst_held L s j" and cj: "ki_ref_count (kobj_insts s j) = int (C j)"
      and uj: "?q \<noteq> 0 \<Longrightarrow> int (card {i \<in> K. inst_pipe s i = ?q}) \<le> pp_ref_count (fs_pipes s ?q)"
      using core j by (auto simp: kobj_core_def)
    have users: "{i \<in> K - {k}. inst_pipe ?s' i = ?q} = {i \<in> K - {k}. inst_pipe s i = ?q}"
      using pipe by auto
    have jin: "0 < card {i \<in> K - {k}. inst_pipe s i = ?q}" using j fin by (auto simp: card_gt_0_iff)
    have "pp_ref_count (fs_pipes s ?q) > 1" if "?q \<noteq> 0" "inst_pipe s k = ?q"
      using uj [OF that(1)] jin card_users_remove [OF fin k, of "\<lambda>i. inst_pipe s i = ?q"] that(2) by linarith
    then have "OPipe ?q \<notin> ?W" if "?q \<noteq> 0" using that by (auto simp: inst_owners_def split: if_splits)
    then have "inst_held (drop_owners ?W L) s j"
      by (rule inst_held_drop [OF hj, rotated]) (use j in \<open>auto simp: inst_owners_def split: if_splits\<close>)
    then have "inst_held (drop_owners ?W L) ?s' j"
      using j(2) by (subst inst_held_cong [of _ _ s]) simp_all
    moreover have "int (card {i \<in> K - {k}. inst_pipe s i = ?q}) \<le> pp_ref_count (fs_pipes ?s' ?q)" if q: "?q \<noteq> 0"
    proof (cases "inst_pipe s k = ?q")
      case True
      then show ?thesis
        using card_users_remove [OF fin k, of "\<lambda>i. inst_pipe s i = ?q"] uj [OF q] jin q
        unfolding free_kobj_inst_pipes by (simp split: if_splits)
    next
      case False
      then have "{i \<in> K - {k}. inst_pipe s i = ?q} = {i \<in> K. inst_pipe s i = ?q}" by auto
      then show ?thesis using uj [OF q] False unfolding free_kobj_inst_pipes by simp
    qed
    ultimately show ?thesis using j(2) cj pipe [OF j(2)] users by simp
  qed
  show ?thesis unfolding kobj_core_def using led fin inst by blast
qed

lemma kobj_core_update:
  assumes core: "kobj_core L K C s"
    and upd: "kobj_insts s' = (kobj_insts s)(k := i)" "ki_data i = ki_data (kobj_insts s k)"
      "ki_type i = ki_type (kobj_insts s k)" "k \<in> K \<Longrightarrow> ki_ref_count i = int n"
    and same: "heap_head s' = heap_head s" "memory_status s' = memory_status s" "fs_files s' = fs_files s"
      "shared_blocks s' = shared_blocks s" "fs_pipes s' = fs_pipes s"
  shows "kobj_core L K (C(k := n)) s'"
proof -
  have d: "ki_data (kobj_insts s' j) = ki_data (kobj_insts s j)" "ki_type (kobj_insts s' j) = ki_type (kobj_insts s j)" for j
    using upd(1-3) by (auto simp: fun_upd_def)
  have "inst_held L s' j = inst_held L s j" "inst_pipe s' j = inst_pipe s j" for j
    using inst_held_cong [OF d same(3,4)] inst_pipe_cong [OF d same(3)] by auto
  then show ?thesis using core upd(1,4) same(5) unfolding kobj_core_def ledger_cong [OF same(1,2)]
    by (simp add: fun_upd_def)
qed

definition released :: "u32 \<Rightarrow> (u32 \<Rightarrow> nat) \<Rightarrow> 'a kern_t_scheme \<Rightarrow> owner_t set" where
  "released k C s = (if C k = 1 then inst_owners s k else {})"

lemma release_ref_core:
  assumes core: "kobj_core L K C s" and k: "k \<in> K" "0 < C k"
  shows "kobj_core (drop_owners (released k C s) L) (if C k = 1 then K - {k} else K) (C(k := C k - 1)) (kobj_release_ref k s)"
    and "C k \<noteq> 1 \<Longrightarrow> ki_handle_count (kobj_insts (kobj_release_ref k s) k) = ki_handle_count (kobj_insts s k)"
proof -
  define s1 where "s1 = upd_inst k (\<lambda>i. i\<lparr>ki_ref_count := ki_ref_count i - 1\<rparr>) s"
  have ck: "ki_ref_count (kobj_insts s k) = int (C k)" using core k by (simp add: kobj_core_def)
  have c1: "kobj_core L K (C(k := C k - 1)) s1"
    by (rule kobj_core_update [OF core, where i = "(kobj_insts s k)\<lparr>ki_ref_count := ki_ref_count (kobj_insts s k) - 1\<rparr>"])
      (use ck k in \<open>auto simp: s1_def upd_inst_def\<close>)
  have z: "ki_ref_count (kobj_insts s1 k) = 0 \<longleftrightarrow> C k = 1" using ck k(2) by (auto simp: s1_def upd_inst_def)
  have eq: "kobj_release_ref k s = (if C k = 1 then free_kobj_inst k s1 else s1)"
    using z by (simp add: kobj_release_ref_def Let_def s1_def [symmetric])
  have own: "inst_owners s1 k = inst_owners s k"
    by (simp add: inst_owners_def inst_pipe_def s1_def upd_inst_def)
  have "drop_owners {} L = L" by (auto simp: drop_owners_def fun_eq_iff split: option.splits)
  then show "kobj_core (drop_owners (released k C s) L) (if C k = 1 then K - {k} else K) (C(k := C k - 1)) (kobj_release_ref k s)"
    using c1 free_inst_core [OF c1 k(1)] own by (cases "C k = 1") (simp_all add: eq released_def)
  show "C k \<noteq> 1 \<Longrightarrow> ki_handle_count (kobj_insts (kobj_release_ref k s) k) = ki_handle_count (kobj_insts s k)"
    by (simp add: eq s1_def upd_inst_def)
qed

section \<open>The invariant of handles\<close>

definition slots :: "'a kern_t_scheme \<Rightarrow> (u32 \<times> nat) set" where
  "slots s = {(p, i). i < PROCESS_MAX_KOBJ \<and> pr_kobj (processes s p) i \<noteq> 0}"

definition slot_ref :: "'a kern_t_scheme \<Rightarrow> u32 \<times> nat \<Rightarrow> u32" where
  "slot_ref s x = pr_kobj (processes s (fst x)) (snd x)"

definition slot_inst :: "'a kern_t_scheme \<Rightarrow> u32 \<times> nat \<Rightarrow> u32" where
  "slot_inst s x = kr_inst (kobj_refs s (slot_ref s x))"

definition handles_of :: "'a kern_t_scheme \<Rightarrow> u32 \<Rightarrow> (u32 \<times> nat) set" where
  "handles_of s k = {x \<in> slots s. slot_inst s x = k}"

text \<open>\<open>M k\<close> is the number of references to instance \<open>k\<close> other than handles: its mappings.\<close>

definition kobj_inv :: "ledger_t \<Rightarrow> u32 set \<Rightarrow> (u32 \<Rightarrow> nat) \<Rightarrow> 'a kern_t_scheme \<Rightarrow> bool" where
  "kobj_inv L K M s \<longleftrightarrow> kobj_core L K (\<lambda>k. card (handles_of s k) + M k) s
     \<and> finite (slots s) \<and> inj_on (slot_ref s) (slots s)
     \<and> (\<forall>x\<in>slots s. held L (ORef (slot_ref s x)) (slot_ref s x) 16 \<and> slot_inst s x \<in> K)
     \<and> (\<forall>k\<in>K. ki_handle_count (kobj_insts s k) = int (card (handles_of s k)))"

lemma slots_iff: "(p, i) \<in> slots s \<longleftrightarrow> i < 64 \<and> pr_kobj (processes s p) i \<noteq> 0"
  by (simp add: slots_def)

lemma kobj_inv_inst_nonnull: "kobj_inv L K M s \<Longrightarrow> k \<in> K \<Longrightarrow> k \<noteq> 0"
  by (auto simp: kobj_inv_def kobj_core_def inst_held_def dest: held_nonnull)

lemma slots_cong: "processes s' = processes s \<Longrightarrow> slots s' = slots s \<and> slot_ref s' = slot_ref s"
  by (auto simp: slots_def slot_ref_def fun_eq_iff)

text \<open>What a handle resolves to, in terms of slots.\<close>

lemma process_get_kobj_iff:
  "process_get_kobj p h s = r \<and> r \<noteq> 0 \<longleftrightarrow>
     p \<noteq> 0 \<and> 0 \<le> h \<and> (p, nat (h mod 0x10000)) \<in> slots s \<and> slot_ref s (p, nat (h mod 0x10000)) = r
     \<and> slot_inst s (p, nat (h mod 0x10000)) \<noteq> 0 \<and> h div 0x10000 = uint (KOBJ_HANDLE_CHECK (kr_uid (kobj_refs s r)))"
  by (auto simp: process_get_kobj_def Let_def slots_def slot_ref_def slot_inst_def)

lemma process_get_kobj_cong:
  assumes "(p, nat (h mod 0x10000)) \<in> slots s \<longleftrightarrow> (p, nat (h mod 0x10000)) \<in> slots s'"
    and "(p, nat (h mod 0x10000)) \<in> slots s \<Longrightarrow> slot_ref s' (p, nat (h mod 0x10000)) = slot_ref s (p, nat (h mod 0x10000))"
    and "(p, nat (h mod 0x10000)) \<in> slots s \<Longrightarrow>
      kobj_refs s' (slot_ref s (p, nat (h mod 0x10000))) = kobj_refs s (slot_ref s (p, nat (h mod 0x10000)))"
  shows "process_get_kobj p h s' = process_get_kobj p h s"
proof -
  define i where "i = nat (h mod 0x10000)"
  have a: "i < 64 \<Longrightarrow> pr_kobj (processes s p) i \<noteq> 0 \<longleftrightarrow> pr_kobj (processes s' p) i \<noteq> 0"
    "i < 64 \<Longrightarrow> pr_kobj (processes s p) i \<noteq> 0 \<Longrightarrow> pr_kobj (processes s' p) i = pr_kobj (processes s p) i
       \<and> kobj_refs s' (pr_kobj (processes s p) i) = kobj_refs s (pr_kobj (processes s p) i)"
    using assms unfolding i_def [symmetric] slots_iff slot_ref_def fst_conv snd_conv by blast+
  show ?thesis unfolding process_get_kobj_def Let_def i_def [symmetric] using a by (cases "i < 64") auto
qed

subsection \<open>Releasing a handle\<close>

definition clear_slot :: "u32 \<times> nat \<Rightarrow> 'a kern_t_scheme \<Rightarrow> 'a kern_t_scheme" where
  "clear_slot x = upd_process (fst x) (\<lambda>p. p\<lparr>pr_kobj := (pr_kobj p)(snd x := 0), pr_kobj_count := pr_kobj_count p - 1\<rparr>)"

lemma clear_slot_slots: "slots (clear_slot x s) = slots s - {x}"
  by (auto simp: clear_slot_def upd_process_def slots_def split: if_splits)

lemma clear_slot_ref: "y \<noteq> x \<Longrightarrow> slot_ref (clear_slot x s) y = slot_ref s y"
  by (cases x; cases y) (auto simp: clear_slot_def upd_process_def slot_ref_def)

lemma clear_slot_frame [simp]:
  "kobj_refs (clear_slot x s) = kobj_refs s" "kobj_insts (clear_slot x s) = kobj_insts s"
  "fs_files (clear_slot x s) = fs_files s" "fs_pipes (clear_slot x s) = fs_pipes s"
  "shared_blocks (clear_slot x s) = shared_blocks s" "memory_status (clear_slot x s) = memory_status s"
  "heap_head (clear_slot x s) = heap_head s" "kobj_ref_uid_counter (clear_slot x s) = kobj_ref_uid_counter s"
  by (simp_all add: clear_slot_def upd_process_def)

lemma kobj_core_cong:
  assumes "kobj_insts s' = kobj_insts s" "heap_head s' = heap_head s" "memory_status s' = memory_status s"
    "fs_files s' = fs_files s" "shared_blocks s' = shared_blocks s" "fs_pipes s' = fs_pipes s"
  shows "kobj_core L K C s' = kobj_core L K C s"
proof -
  have "inst_held L s' j = inst_held L s j" "inst_pipe s' j = inst_pipe s j" for j
    by (rule inst_held_cong inst_pipe_cong; simp add: assms)+
  then show ?thesis unfolding kobj_core_def ledger_cong [OF assms(2,3)] by (simp add: assms)
qed

lemma kobj_core_C_cong: "(\<And>k. k \<in> K \<Longrightarrow> C' k = C k) \<Longrightarrow> kobj_core L K C' s = kobj_core L K C s"
  by (auto simp: kobj_core_def)

lemma free_ref_core:
  assumes core: "kobj_core L K C s" and r: "held L (ORef r) r 16"
  shows "kobj_core (drop_owners {ORef r} L) K C (free r 16 s)"
proof -
  have led: "ledger (drop_owners {ORef r} L) (free r 16 s)"
    by (rule ledger_free [OF ledger_drop r]) (use core in \<open>auto simp: kobj_core_def\<close>)
  have "inst_held (drop_owners {ORef r} L) (free r 16 s) k = inst_held (drop_owners {ORef r} L) s k" for k
    by (rule inst_held_cong) simp_all
  moreover have "inst_pipe (free r 16 s) k = inst_pipe s k" for k by (rule inst_pipe_cong) simp_all
  ultimately show ?thesis
    using core led unfolding kobj_core_def by (auto intro: inst_held_drop)
qed

lemma drop_owners_drop: "drop_owners V (drop_owners W L) = drop_owners (V \<union> W) L"
  by (auto simp: drop_owners_def fun_eq_iff split: option.splits)

lemma handles_of_clear:
  assumes x: "x \<in> slots s" and k: "slot_inst s x = k" and fin: "finite (slots s)"
    and s': "processes s' = processes s" "kobj_refs s' = kobj_refs s"
  shows "handles_of (clear_slot x s') j = handles_of s j - {x}" and "0 < card (handles_of s k)"
    and "card (handles_of (clear_slot x s') j) = (card (handles_of s j)) - (if j = k then 1 else 0)"
proof -
  have sl: "slots (clear_slot x s') = slots s - {x}" "\<And>y. y \<noteq> x \<Longrightarrow> slot_ref (clear_slot x s') y = slot_ref s y"
    using slots_cong [OF s'(1)] by (simp_all add: clear_slot_slots clear_slot_ref)
  show h: "handles_of (clear_slot x s') j = handles_of s j - {x}"
    using sl s'(2) by (auto simp: handles_of_def slot_inst_def)
  have f: "finite (handles_of s j)" "finite (handles_of s k)"
    using fin by (auto simp: handles_of_def intro: finite_subset)
  have "x \<in> handles_of s k" using x k by (simp add: handles_of_def)
  then show "0 < card (handles_of s k)" using f(2) card_gt_0_iff by blast
  show "card (handles_of (clear_slot x s') j) = (card (handles_of s j)) - (if j = k then 1 else 0)"
    using x k f unfolding h by (auto simp: handles_of_def)
qed

text \<open>The references to an instance: its handles and its mappings.\<close>

definition refs_to :: "(u32 \<Rightarrow> nat) \<Rightarrow> 'a kern_t_scheme \<Rightarrow> u32 \<Rightarrow> nat" where
  "refs_to M s k = card (handles_of s k) + M k"

lemma stopped_core:
  assumes core: "kobj_core L K C s" and k: "k \<in> K"
    and s3: "s3 = (if b then kobj_stop k s2 else s2)" "s2 = upd_inst k (\<lambda>i. i\<lparr>ki_handle_count := ki_handle_count i - 1\<rparr>) s"
  shows "kobj_core L K C s3" and "inst_owners s3 k = inst_owners s k"
    and "ki_handle_count (kobj_insts s3 k) = ki_handle_count (kobj_insts s k) - 1"
    and "j \<noteq> k \<Longrightarrow> kobj_insts s3 j = kobj_insts s j"
    and "processes s3 = processes s" "kobj_refs s3 = kobj_refs s" "kobj_ref_uid_counter s3 = kobj_ref_uid_counter s"
proof -
  show other: "kobj_insts s3 j = kobj_insts s j" if "j \<noteq> k" for j
    using that by (simp add: s3 upd_inst_def)
  show "inst_owners s3 k = inst_owners s k"
    by (simp add: inst_owners_def inst_pipe_def s3 upd_inst_def)
  show "ki_handle_count (kobj_insts s3 k) = ki_handle_count (kobj_insts s k) - 1"
    by (simp add: s3 upd_inst_def)
  have "kobj_core L K (C(k := C k)) s3"
    by (rule kobj_core_update [OF core, where i = "kobj_insts s3 k"])
      (use core k other in \<open>auto simp: fun_eq_iff s3 upd_inst_def kobj_core_def\<close>)
  then show "kobj_core L K C s3" by simp
qed (simp_all add: s3 upd_inst_def)

lemma kobj_release_inv:
  assumes inv: "kobj_inv L K M s" and x: "x \<in> slots s"
  obtains s1 where "kobj_release (slot_ref s x) p e s = (True, s1)" "processes s1 = processes s" "kobj_refs s1 = kobj_refs s"
    "kobj_ref_uid_counter s1 = kobj_ref_uid_counter s"
    "kobj_inv (drop_owners (insert (ORef (slot_ref s x)) (released (slot_inst s x) (refs_to M s) s)) L)
       (if refs_to M s (slot_inst s x) = 1 then K - {slot_inst s x} else K) M (clear_slot x s1)"
proof -
  define r k C where "r = slot_ref s x" and "k = slot_inst s x" and "C = refs_to M s"
  note inv' = inv [unfolded kobj_inv_def, folded refs_to_def, folded C_def]
  have core: "kobj_core L K C s" and fin: "finite (slots s)" and inj: "inj_on (slot_ref s) (slots s)"
    using inv' by (auto simp: C_def refs_to_def [abs_def])
  have rk: "held L (ORef r) r 16" "k \<in> K" "kr_inst (kobj_refs s r) = k"
    using inv x by (auto simp: kobj_inv_def r_def k_def slot_inst_def)
  have nz: "r \<noteq> 0" "k \<noteq> 0"
    using held_nonnull [OF rk(1)] kobj_inv_inst_nonnull [OF inv rk(2)] by auto
  define s2 where "s2 = upd_inst k (\<lambda>i. i\<lparr>ki_handle_count := ki_handle_count i - 1\<rparr>) s"
  define s3 where "s3 = (if ki_handle_count (kobj_insts s2 k) = 0 then kobj_stop k s2 else s2)"
  note st = stopped_core [OF core rk(2) s3_def s2_def]
  define W K' where "W = released k C s" and "K' = (if C k = 1 then K - {k} else K)"
  have pos: "0 < card (handles_of s k)" "0 < C k"
    using handles_of_clear(2) [OF x _ fin] by (auto simp: k_def C_def refs_to_def)
  have W3: "released k C s3 = W" using st(2) by (simp add: released_def W_def)
  note c3 = release_ref_core [OF st(1) rk(2) pos(2), unfolded W3, folded K'_def]
  define s4 where "s4 = free r 16 (kobj_release_ref k s3)"
  have rW: "ORef r \<notin> W" by (auto simp: W_def released_def inst_owners_def)
  have "kobj_core (drop_owners {ORef r} (drop_owners W L)) K' (C(k := C k - 1)) s4"
    unfolding s4_def by (rule free_ref_core [OF c3(1) drop_owners_held [OF rk(1) rW]])
  then have c4: "kobj_core (drop_owners (insert (ORef r) W) L) K' (C(k := C k - 1)) (clear_slot x s4)"
    by (subst kobj_core_cong [of _ s4]) (simp_all add: drop_owners_drop)
  have s4: "processes s4 = processes s" "kobj_refs s4 = kobj_refs s" "kobj_ref_uid_counter s4 = kobj_ref_uid_counter s"
    using st(5-7) by (simp_all add: s4_def)
  note hc = handles_of_clear [OF x k_def [symmetric] fin s4(1,2)]
  have sl: "slots (clear_slot x s4) = slots s - {x}" "\<And>y. y \<noteq> x \<Longrightarrow> slot_ref (clear_slot x s4) y = slot_ref s y"
    using slots_cong [OF s4(1)] by (simp_all add: clear_slot_slots clear_slot_ref)
  have C': "card (handles_of (clear_slot x s4) j) + M j = (C(k := C k - 1)) j" for j
    using hc(3) [of j] pos by (auto simp: C_def refs_to_def)
  have counts: "ki_handle_count (kobj_insts (clear_slot x s4) j) = int (card (handles_of (clear_slot x s4) j))"
    if j: "j \<in> K'" for j
  proof (cases "j = k")
    case True
    then have "C k \<noteq> 1" using j by (auto simp: K'_def split: if_splits)
    then show ?thesis
      using True hc(3) [of k] pos(1) st(3) c3(2) inv rk(2) by (auto simp: s4_def kobj_inv_def)
  next
    case False
    then have "kobj_insts s4 j = kobj_insts s j" using st(4) by (simp add: s4_def)
    moreover have "j \<in> K" using j by (auto simp: K'_def split: if_splits)
    ultimately show ?thesis using False hc(3) [of j] inv by (auto simp: kobj_inv_def)
  qed
  have refs: "held (drop_owners (insert (ORef r) W) L) (ORef (slot_ref s y)) (slot_ref s y) 16 \<and> slot_inst s y \<in> K'"
    if y: "y \<in> slots s" "y \<noteq> x" for y
  proof -
    have "slot_ref s y \<noteq> r" using inj x y by (auto simp: inj_on_def r_def)
    then have "ORef (slot_ref s y) \<notin> insert (ORef r) W" by (auto simp: W_def released_def inst_owners_def)
    moreover have "slot_inst s y \<noteq> k" if "C k = 1"
    proof
      assume "slot_inst s y = k"
      then have "{x, y} \<subseteq> handles_of s k" using x y by (auto simp: handles_of_def k_def)
      moreover have "finite (handles_of s k)" using fin by (auto simp: handles_of_def intro: finite_subset)
      ultimately have "card {x, y} \<le> card (handles_of s k)" by (rule card_mono [rotated])
      then show False using that y(2) by (auto simp: C_def refs_to_def)
    qed
    ultimately show ?thesis using inv y(1) by (auto simp: kobj_inv_def K'_def intro: drop_owners_held)
  qed
  have "kobj_inv (drop_owners (insert (ORef r) W) L) K' M (clear_slot x s4)"
    unfolding kobj_inv_def C'
  proof (intro conjI)
    show "kobj_core (drop_owners (insert (ORef r) W) L) K' (\<lambda>j. (C(k := C k - 1)) j) (clear_slot x s4)" using c4 .
    show "finite (slots (clear_slot x s4))" using fin sl by simp
    show "inj_on (slot_ref (clear_slot x s4)) (slots (clear_slot x s4))"
      using inj sl by (auto simp: inj_on_def)
    show "\<forall>y\<in>slots (clear_slot x s4). held (drop_owners (insert (ORef r) W) L) (ORef (slot_ref (clear_slot x s4) y))
        (slot_ref (clear_slot x s4) y) 16 \<and> slot_inst (clear_slot x s4) y \<in> K'"
      using refs sl s4(2) by (auto simp: slot_inst_def)
  qed (use counts in blast)
  moreover have "kobj_release r p e s = (True, s4)"
    using nz rk(3) by (simp add: kobj_release_def Let_def s2_def [symmetric] s3_def s4_def)
  ultimately show thesis
    using that [of s4] s4 unfolding r_def k_def C_def W_def K'_def by blast
qed

lemma process_release_kobj_eq:
  assumes inv: "kobj_inv L K M s" and r: "process_get_kobj p h s \<noteq> 0"
  obtains x s1 where "x = (p, nat (h mod 0x10000))" "x \<in> slots s" "slot_ref s x = process_get_kobj p h s"
    "process_release_kobj p h s = (True, clear_slot x s1)"
    "processes s1 = processes s" "kobj_refs s1 = kobj_refs s"
    "kobj_inv (drop_owners (insert (ORef (slot_ref s x)) (released (slot_inst s x) (refs_to M s) s)) L)
       (if refs_to M s (slot_inst s x) = 1 then K - {slot_inst s x} else K) M (clear_slot x s1)"
proof -
  define x where "x = (p, nat (h mod 0x10000))"
  have x: "x \<in> slots s" "slot_ref s x = process_get_kobj p h s"
    using process_get_kobj_iff [of p h s "process_get_kobj p h s"] r by (auto simp: x_def)
  obtain s1 where s1: "kobj_release (slot_ref s x) p False s = (True, s1)" "processes s1 = processes s"
    "kobj_refs s1 = kobj_refs s"
    "kobj_inv (drop_owners (insert (ORef (slot_ref s x)) (released (slot_inst s x) (refs_to M s) s)) L)
       (if refs_to M s (slot_inst s x) = 1 then K - {slot_inst s x} else K) M (clear_slot x s1)"
    using kobj_release_inv [OF inv x(1), of p False] by blast
  have "process_release_kobj p h s = (True, clear_slot x s1)"
    using s1(1) r x(2) by (simp add: process_release_kobj_def Let_def clear_slot_def x_def)
  then show thesis using that x_def x s1(2-4) by blast
qed

subsection \<open>Acquiring a handle\<close>

lemma first_free_slot_less:
  assumes "first_free_slot table \<noteq> 64"
  shows "first_free_slot table < 64" "table (first_free_slot table) = 0"
proof -
  let ?P = "\<lambda>h. table h \<noteq> 0"
  have "length (takeWhile ?P [0..<64]) \<le> length [0..<64]" by (rule length_takeWhile_le)
  then show lt: "first_free_slot table < 64" using assms by (simp add: first_free_slot_def)
  then have "length (takeWhile ?P [0..<64]) < length [0..<64]" by (simp add: first_free_slot_def)
  from nth_length_takeWhile [OF this] lt show "table (first_free_slot table) = 0"
    by (simp add: first_free_slot_def)
qed

lemma uint_KOBJ_HANDLE_CHECK: "uint (KOBJ_HANDLE_CHECK u) = uint u mod 0x8000"
proof -
  have "(0x7FFF :: u32) = mask 15" by (simp add: mask_eq_exp_minus_1)
  then have "KOBJ_HANDLE_CHECK u = take_bit 15 u" by (simp add: KOBJ_HANDLE_CHECK_def take_bit_eq_mask)
  then show ?thesis by (simp add: unsigned_take_bit_eq) (simp add: take_bit_eq_mod)
qed

lemma handle_parts:
  assumes "i < 64"
  shows "(int i + uint (KOBJ_HANDLE_CHECK u) * 0x10000) mod 0x10000 = int i"
    and "(int i + uint (KOBJ_HANDLE_CHECK u) * 0x10000) div 0x10000 = uint (KOBJ_HANDLE_CHECK u)"
    and "0 \<le> int i + uint (KOBJ_HANDLE_CHECK u) * 0x10000"
  using assms by (simp_all add: mod_pos_pos_trivial)

lemma create_kobj_ref_eq:
  assumes c: "create_kobj_ref k s = (r, s')" and r: "r \<noteq> 0"
  obtains s1 where "malloc 16 s = (r, s1)"
    "kobj_refs s' = (kobj_refs s)(r := \<lparr>kr_uid = next_ref_uid (kobj_ref_uid_counter s), kr_inst = k, kr_data = 0,
       kr_rights = ko_default_rights (obj_of s k)\<rparr>)"
    "kobj_insts s' = (kobj_insts s)(k := (kobj_insts s k)\<lparr>ki_ref_count := ki_ref_count (kobj_insts s k) + 1,
       ki_handle_count := ki_handle_count (kobj_insts s k) + 1\<rparr>)"
    "processes s' = processes s" "fs_files s' = fs_files s" "fs_pipes s' = fs_pipes s" "shared_blocks s' = shared_blocks s"
    "heap_head s' = heap_head s1" "memory_status s' = memory_status s1"
    "kobj_ref_uid_counter s' = next_ref_uid (kobj_ref_uid_counter s) + 1" "pci_devices s' = pci_devices s"
proof -
  obtain a s1 where m: "malloc 16 s = (a, s1)" by fastforce
  have a: "a = r" using c r m by (auto simp: create_kobj_ref_def Let_def split: if_splits)
  have f: "kobj_refs s1 = kobj_refs s" "kobj_insts s1 = kobj_insts s" "processes s1 = processes s" "fs_files s1 = fs_files s"
    "fs_pipes s1 = fs_pipes s" "shared_blocks s1 = shared_blocks s" "kobj_ref_uid_counter s1 = kobj_ref_uid_counter s"
    "pci_devices s1 = pci_devices s"
    using malloc_kern_fields [of 16 s] m by simp_all
  have s': "s' = snd (create_kobj_ref k s)" using c by simp
  show thesis
    by (rule that [OF m [unfolded a]])
      (use r a m f in \<open>simp_all add: s' create_kobj_ref_def Let_def kobj_add_ref_def upd_inst_def fun_eq_iff\<close>)
qed

lemma process_acquire_kobj_cases:
  obtains (fail) "process_acquire_kobj p k s = (- 1, snd (process_acquire_kobj p k s))"
      "snd (process_acquire_kobj p k s) = s \<or> snd (process_acquire_kobj p k s) = snd (malloc 16 s) \<and> fst (malloc 16 s) = 0"
  | (ok) i r s1 where "i < 64" "pr_kobj (processes s p) i = 0" "create_kobj_ref k s = (r, s1)" "r \<noteq> 0"
      "process_acquire_kobj p k s = (int i + uint (KOBJ_HANDLE_CHECK (kr_uid (kobj_refs s1 r))) * 0x10000,
         upd_process p (\<lambda>q. q\<lparr>pr_kobj := (pr_kobj q)(i := r), pr_kobj_count := pr_kobj_count q + 1\<rparr>) s1)"
proof -
  let ?i = "first_free_slot (pr_kobj (processes s p))"
  obtain r s1 where c: "create_kobj_ref k s = (r, s1)" by fastforce
  show thesis
  proof (cases "?i = 64 \<or> r = 0")
    case True
    then have "process_acquire_kobj p k s = (- 1, if ?i = 64 then s else s1)"
      using c by (auto simp: process_acquire_kobj_def Let_def)
    moreover have "r = 0 \<Longrightarrow> s1 = snd (malloc 16 s) \<and> fst (malloc 16 s) = 0"
      using c by (auto simp: create_kobj_ref_def Let_def split: prod.splits if_splits)
    ultimately show thesis using fail True by auto
  next
    case False
    with ok [OF first_free_slot_less [of "pr_kobj (processes s p)"] c] c show thesis
      by (simp add: process_acquire_kobj_def Let_def)
  qed
qed

lemma kobj_core_malloc:
  assumes core: "kobj_core L K C s" and b: "L b = None" and led: "ledger (L(b \<mapsto> w)) s1"
    and k: "kobj_insts s' = (kobj_insts s)(k := i)" "ki_data i = ki_data (kobj_insts s k)"
      "ki_type i = ki_type (kobj_insts s k)" "k \<in> K \<Longrightarrow> ki_ref_count i = int n"
    and same: "heap_head s' = heap_head s1" "memory_status s' = memory_status s1" "fs_files s' = fs_files s"
      "shared_blocks s' = shared_blocks s" "fs_pipes s' = fs_pipes s"
  shows "kobj_core (L(b \<mapsto> w)) K (C(k := n)) s'"
proof -
  have d: "ki_data (kobj_insts s' j) = ki_data (kobj_insts s j)" "ki_type (kobj_insts s' j) = ki_type (kobj_insts s j)" for j
    using k(1-3) by (auto simp: fun_upd_def)
  have "inst_held (L(b \<mapsto> w)) s' j = inst_held (L(b \<mapsto> w)) s j" "inst_pipe s' j = inst_pipe s j" for j
    using inst_held_cong [OF d same(3,4)] inst_pipe_cong [OF d same(3)] by auto
  moreover have "ledger (L(b \<mapsto> w)) s'" using led ledger_cong [OF same(1,2)] by blast
  moreover have "\<forall>j\<in>K. inst_held (L(b \<mapsto> w)) s j" using core b by (auto simp: kobj_core_def intro: inst_held_update)
  ultimately show ?thesis
    using core k(1,4) same(5) unfolding kobj_core_def by (simp del: fun_upd_apply add: fun_upd_apply [of "kobj_insts s"] fun_upd_apply [of C])
qed

lemma slots_set:
  assumes s': "processes s' = (processes s)(p := q)" "pr_kobj q = (pr_kobj (processes s p))(i := r)" "r \<noteq> 0" "i < 64"
    "pr_kobj (processes s p) i = 0"
  shows "slots s' = insert (p, i) (slots s)" "slot_ref s' (p, i) = r" "y \<noteq> (p, i) \<Longrightarrow> slot_ref s' y = slot_ref s y"
    "(p, i) \<notin> slots s"
  using assms by (auto simp: slots_def slot_ref_def split: if_splits)

lemma process_acquire_kobj_inv:
  assumes inv: "kobj_inv L K M s" and k: "k \<in> K" and p: "p \<noteq> 0"
    and a: "process_acquire_kobj p k s = (h, s')" and h: "h \<noteq> - 1"
  obtains i r b where "i < 64" "(p, i) \<notin> slots s" "slots s' = insert (p, i) (slots s)" "slot_ref s' (p, i) = r"
    "\<And>y. y \<noteq> (p, i) \<Longrightarrow> slot_ref s' y = slot_ref s y" "r \<noteq> 0" "r \<notin> slot_ref s ` slots s"
    "kobj_refs s' = (kobj_refs s)(r := \<lparr>kr_uid = next_ref_uid (kobj_ref_uid_counter s), kr_inst = k, kr_data = 0,
       kr_rights = ko_default_rights (obj_of s k)\<rparr>)"
    "h = int i + uint (KOBJ_HANDLE_CHECK (next_ref_uid (kobj_ref_uid_counter s))) * 0x10000"
    "L b = None" "kobj_inv (L(b \<mapsto> ORef r)) K M s'"
  using process_acquire_kobj_cases [of p k s]
proof cases
  case fail
  then show ?thesis using a h by simp
next
  case (ok i r s1)
  obtain s0 where s0: "malloc 16 s = (r, s0)"
    and refs: "kobj_refs s1 = (kobj_refs s)(r := \<lparr>kr_uid = next_ref_uid (kobj_ref_uid_counter s), kr_inst = k, kr_data = 0,
       kr_rights = ko_default_rights (obj_of s k)\<rparr>)"
    and insts: "kobj_insts s1 = (kobj_insts s)(k := (kobj_insts s k)\<lparr>ki_ref_count := ki_ref_count (kobj_insts s k) + 1,
       ki_handle_count := ki_handle_count (kobj_insts s k) + 1\<rparr>)"
    and same: "processes s1 = processes s" "fs_files s1 = fs_files s" "fs_pipes s1 = fs_pipes s"
      "shared_blocks s1 = shared_blocks s" "heap_head s1 = heap_head s0" "memory_status s1 = memory_status s0"
    by (rule create_kobj_ref_eq [OF ok(3,4)])
  have core: "kobj_core L K (\<lambda>k. card (handles_of s k) + M k) s" and fin: "finite (slots s)"
    and inj: "inj_on (slot_ref s) (slots s)" using inv by (auto simp: kobj_inv_def)
  have led: "ledger L s" using core by (simp add: kobj_core_def)
  obtain b where b: "L b = None" "ledger (L(b \<mapsto> ORef r)) s0" "held (L(b \<mapsto> ORef r)) (ORef r) r 16" "r = block_addr b" "b < 8192"
    using ledger_malloc [OF led s0 ok(4), where w = "ORef r"] by auto
  have s': "s' = upd_process p (\<lambda>q. q\<lparr>pr_kobj := (pr_kobj q)(i := r), pr_kobj_count := pr_kobj_count q + 1\<rparr>) s1"
    and hi: "h = int i + uint (KOBJ_HANDLE_CHECK (next_ref_uid (kobj_ref_uid_counter s))) * 0x10000"
    using a ok(5) refs by simp_all
  obtain q where proc: "processes s' = (processes s)(p := q)" and q: "pr_kobj q = (pr_kobj (processes s p))(i := r)"
    using same(1) by (simp add: s' upd_process_def)
  note sl = slots_set [OF proc q ok(4,1,2)]
  have fresh: "slot_ref s y \<noteq> r" if "y \<in> slots s" for y
  proof
    assume y: "slot_ref s y = r"
    have "held L (ORef (slot_ref s y)) (slot_ref s y) 16" using inv that by (simp add: kobj_inv_def)
    then have "held L (ORef r) r 16" unfolding y .
    then obtain c where "r = block_addr c" "c + nblocks 16 \<le> 8192" "\<forall>d\<in>obj_blocks c 16. L d = Some (ORef r)"
      unfolding held_def by blast
    moreover have "nblocks 16 = 1" by (simp add: nblocks_def)
    ultimately show False using b block_addr_inj [of b c] by (auto simp: obj_blocks_def)
  qed
  have refs': "kobj_refs s' = kobj_refs s1" by (simp add: s' upd_process_def)
  have inst: "slot_inst s' y = (if y = (p, i) then k else slot_inst s y)" if "y \<in> slots s'" for y
    using that sl(1) sl(2) sl(3) [of y] fresh [of y] by (cases "y = (p, i)") (simp_all add: slot_inst_def refs' refs)
  have hd: "handles_of s' j = (if j = k then insert (p, i) (handles_of s j) else handles_of s j)" for j
    using sl(1,4) inst by (auto simp: handles_of_def)
  have finh: "finite (handles_of s j)" for j using fin by (auto simp: handles_of_def intro: finite_subset)
  have nin: "(p, i) \<notin> handles_of s j" for j using sl(4) by (simp add: handles_of_def)
  have cd: "card (handles_of s' j) = card (handles_of s j) + (if j = k then 1 else 0)" for j
    using hd [of j] finh [of j] nin [of j] by (cases "j = k") simp_all
  have cnt: "ki_ref_count (kobj_insts s k) = int (card (handles_of s k) + M k)"
    using core k by (simp add: kobj_core_def)
  have "kobj_core (L(b \<mapsto> ORef r)) K ((\<lambda>k. card (handles_of s k) + M k)(k := card (handles_of s k) + M k + 1)) s'"
    by (rule kobj_core_malloc [OF core b(1,2), where i = "kobj_insts s1 k"])
      (use insts same cnt in \<open>simp_all add: s' upd_process_def\<close>)
  then have core': "kobj_core (L(b \<mapsto> ORef r)) K (\<lambda>j. card (handles_of s' j) + M j) s'"
    by (subst kobj_core_C_cong) (auto simp: cd)
  have "kobj_inv (L(b \<mapsto> ORef r)) K M s'"
    unfolding kobj_inv_def
  proof (intro conjI ballI)
    show "finite (slots s')" using fin sl(1) by simp
    have e: "slot_ref s' y = slot_ref s y" if "y \<in> slots s" for y
      by (rule sl(3)) (use sl(4) that in auto)
    have "inj_on (slot_ref s') (slots s)" using inj by (simp add: inj_on_cong [OF e])
    moreover have "r \<notin> slot_ref s' ` slots s" using e fresh by (auto simp: image_iff)
    ultimately show "inj_on (slot_ref s') (slots s')" using sl(1,2,4) by simp
    show "ki_handle_count (kobj_insts s' j) = int (card (handles_of s' j))" if "j \<in> K" for j
      using inv that insts cd [of j] by (cases "j = k") (simp_all add: kobj_inv_def s' upd_process_def)
    show "held (L(b \<mapsto> ORef r)) (ORef (slot_ref s' y)) (slot_ref s' y) 16" if "y \<in> slots s'" for y
      using that sl b(3) inv by (cases "y = (p, i)") (auto simp: kobj_inv_def intro: held_update b(1))
    show "slot_inst s' y \<in> K" if "y \<in> slots s'" for y
      using inst [OF that] that sl(1) k inv by (auto simp: kobj_inv_def)
  qed (rule core')
  then show ?thesis
    using that [of i r b] ok(1) sl ok(4) refs refs' hi b(1) fresh by fastforce
qed

section \<open>Handles resolve to what they were given for\<close>



section \<open>Stale handles\<close>

text \<open>Any sequence of the operations on handles, by any processes.\<close>

datatype kobj_op = Op_acquire u32 u32 | Op_release u32 int | Op_copy u32 u32 int | Op_end u32

fun kobj_op_step :: "kobj_op \<Rightarrow> 'a kern_t_scheme \<Rightarrow> 'a kern_t_scheme" where
  "kobj_op_step (Op_acquire p k) s = snd (process_acquire_kobj p k s)"
| "kobj_op_step (Op_release p h) s = snd (process_release_kobj p h s)"
| "kobj_op_step (Op_copy p q h) s = snd (process_copy_kobj p q h s)"
| "kobj_op_step (Op_end p) s = process_release_kobjs p s"

text \<open>
  Slot \<open>x\<close> is empty or holds a reference issued after \<open>u\<close>; \<open>age u s\<close> counts the
  identities used up since \<open>u\<close>.
\<close>

definition age :: "u32 \<Rightarrow> 'a kern_t_scheme \<Rightarrow> nat" where
  "age u s = unat (kobj_ref_uid_counter s - u)"

definition newer :: "u32 \<Rightarrow> u32 \<times> nat \<Rightarrow> 'a kern_t_scheme \<Rightarrow> bool" where
  "newer u x s \<longleftrightarrow> 0 < age u s \<and> (x \<in> slots s \<longrightarrow>
     0 < unat (kr_uid (kobj_refs s (slot_ref s x)) - u) \<and> unat (kr_uid (kobj_refs s (slot_ref s x)) - u) < age u s)"

definition shrinks :: "'a kern_t_scheme \<Rightarrow> 'a kern_t_scheme \<Rightarrow> bool" where
  "shrinks s s' \<longleftrightarrow> kobj_refs s' = kobj_refs s \<and> kobj_ref_uid_counter s' = kobj_ref_uid_counter s
     \<and> slots s' \<subseteq> slots s \<and> (\<forall>x\<in>slots s'. slot_ref s' x = slot_ref s x)"

lemma shrinks_newer: "shrinks s s' \<Longrightarrow> newer u x s \<Longrightarrow> newer u x s' \<and> age u s' = age u s"
  by (auto simp: shrinks_def newer_def age_def)

lemma shrinks_trans: "shrinks s t \<Longrightarrow> shrinks t u \<Longrightarrow> shrinks s u"
  by (auto simp: shrinks_def)

lemma kobj_release_frame:
  "processes (snd (kobj_release r p e s)) = processes s" "kobj_refs (snd (kobj_release r p e s)) = kobj_refs s"
  "kobj_ref_uid_counter (snd (kobj_release r p e s)) = kobj_ref_uid_counter s"
  by (simp_all add: kobj_release_def Let_def upd_inst_def)

lemma shrinks_clear:
  assumes "processes s1 = processes s" "kobj_refs s1 = kobj_refs s" "kobj_ref_uid_counter s1 = kobj_ref_uid_counter s"
  shows "shrinks s (clear_slot x s1)" "shrinks s s1"
proof -
  have "slots s1 = slots s" "slot_ref s1 = slot_ref s" using slots_cong [OF assms(1)] by auto
  then show "shrinks s (clear_slot x s1)" "shrinks s s1"
    using assms(2,3) by (auto simp: shrinks_def clear_slot_slots clear_slot_ref)
qed

lemma process_release_kobj_shrinks: "shrinks s (snd (process_release_kobj p h s))"
proof -
  define r x where "r = process_get_kobj p h s" and "x = (p, nat (h mod 0x10000))"
  obtain b s1 where k: "kobj_release r p False s = (b, s1)" by fastforce
  note sh = shrinks_clear [of "snd (kobj_release r p False s)" s, OF kobj_release_frame, unfolded k snd_conv]
  have "shrinks s s" by (simp add: shrinks_def)
  with sh(1) [of x] sh(2) k show ?thesis
    by (cases b) (auto simp: process_release_kobj_def Let_def r_def [symmetric] clear_slot_def x_def)
qed

lemma release_slot_shrinks: "shrinks s (release_slot p d i s)"
proof -
  define r where "r = pr_kobj (processes s p) i"
  obtain b s1 where k: "kobj_release r p True s = (b, s1)" by fastforce
  note sh = shrinks_clear [of "snd (kobj_release r p True s)" s, OF kobj_release_frame, unfolded k snd_conv]
  have "shrinks s s" by (simp add: shrinks_def)
  with sh(1) [of "(p, i)"] sh(2) k show ?thesis
    by (cases b) (auto simp: release_slot_def Let_def r_def [symmetric] clear_slot_def)
qed

lemma process_release_kobjs_shrinks: "shrinks s (process_release_kobjs p s)"
proof -
  have "shrinks s (fold (release_slot p d) xs s)" for d xs and s :: "'a kern_t_scheme"
  proof (induction xs arbitrary: s)
    case Nil
    then show ?case by (simp add: shrinks_def)
  next
    case (Cons i xs)
    then show ?case using shrinks_trans [OF release_slot_shrinks [of s p d i] Cons.IH] by simp
  qed
  then show ?thesis unfolding process_release_kobjs_def by (blast intro: shrinks_trans)
qed

lemma next_ref_uid_age:
  assumes "0 < age u s" "age u s + 2 < 2 ^ 32"
  defines "v \<equiv> next_ref_uid (kobj_ref_uid_counter s)"
  shows "unat (v - u) \<in> {age u s, age u s + 1}" "unat (v + 1 - u) = unat (v - u) + 1"
proof -
  define d where "d = kobj_ref_uid_counter s - u"
  have d: "unat d = age u s" by (simp add: d_def age_def)
  have plus: "unat (w + 1) = unat w + 1" if "unat w + 1 < 2 ^ 32" for w :: u32
    using that by (subst unat_add_lem [THEN iffD1]) simp_all
  have "v - u = d \<or> v - u = d + 1" by (auto simp: v_def next_ref_uid_def d_def)
  then show in2: "unat (v - u) \<in> {age u s, age u s + 1}" using plus [of d] d assms(2) by auto
  have "unat ((v - u) + 1) = unat (v - u) + 1" using in2 assms(2) by (intro plus) auto
  then show "unat (v + 1 - u) = unat (v - u) + 1" unfolding diff_add_eq .
qed

lemma process_acquire_kobj_newer:
  assumes n: "newer u x s" and a: "age u s + 2 < 2 ^ 32"
  shows "newer u x (snd (process_acquire_kobj p k s)) \<and> age u (snd (process_acquire_kobj p k s)) \<le> age u s + 2"
  using process_acquire_kobj_cases [of p k s]
proof cases
  case fail
  have "shrinks s s" by (simp add: shrinks_def)
  moreover have "shrinks s (snd (malloc 16 s))" using slots_cong [of "snd (malloc 16 s)" s] by (simp add: shrinks_def)
  ultimately have "shrinks s (snd (process_acquire_kobj p k s))" using fail(2) by auto
  then show ?thesis using shrinks_newer [OF _ n] by auto
next
  case (ok i r s1)
  let ?v = "next_ref_uid (kobj_ref_uid_counter s)" and ?s' = "snd (process_acquire_kobj p k s)"
  have c: "kobj_refs s1 = (kobj_refs s)(r := \<lparr>kr_uid = ?v, kr_inst = k, kr_data = 0,
      kr_rights = ko_default_rights (obj_of s k)\<rparr>)" "processes s1 = processes s" "kobj_ref_uid_counter s1 = ?v + 1"
    using create_kobj_ref_eq [OF ok(3,4)] by auto
  obtain q where s': "kobj_refs ?s' = kobj_refs s1" "kobj_ref_uid_counter ?s' = ?v + 1"
    "processes ?s' = (processes s)(p := q)" "pr_kobj q = (pr_kobj (processes s p))(i := r)"
    using ok(5) c(2,3) by (simp add: upd_process_def)
  note sl = slots_set [OF s'(3,4) ok(4,1,2)]
  have age: "0 < age u s" using n by (simp add: newer_def)
  note v = next_ref_uid_age [OF age a]
  have age': "age u ?s' = unat (?v - u) + 1" using v(2) s'(2) by (simp add: age_def)
  have le: "age u s \<le> unat (?v - u)" "unat (?v - u) \<le> age u s + 1" using v(1) by auto
  have "0 < unat (kr_uid (kobj_refs ?s' (slot_ref ?s' x)) - u) \<and> unat (kr_uid (kobj_refs ?s' (slot_ref ?s' x)) - u) < age u ?s'"
    if x: "x \<in> slots ?s'"
  proof (cases "slot_ref ?s' x = r")
    case True
    then have "kr_uid (kobj_refs ?s' (slot_ref ?s' x)) = ?v" using s'(1) c(1) by simp
    then show ?thesis using age age' le by simp
  next
    case False
    then have "x \<noteq> (p, i)" using sl(2) by auto
    then have "slot_ref ?s' x = slot_ref s x" "x \<in> slots s" using sl(3) [of x] sl(1) x by auto
    then show ?thesis using n s'(1) c(1) age' le False by (simp add: newer_def)
  qed
  then show ?thesis using age' le by (simp add: newer_def)
qed

lemma connect_same: "ko_connect (kobjs t) = Some c \<Longrightarrow> c r p s = (True, s)"
  by (cases t) (auto simp: shared_connect_def fs_connect_def)

lemma process_copy_kobj_state: "snd (process_copy_kobj p q h s) \<in> {s, snd (process_acquire_kobj q (kr_inst (kobj_refs s (process_get_kobj p h s))) s)}"
  by (auto simp: process_copy_kobj_def Let_def connect_same split: option.splits prod.splits)

lemma kobj_op_step_newer:
  assumes n: "newer u x s" and a: "age u s + 2 < 2 ^ 32"
  shows "newer u x (kobj_op_step op s) \<and> age u (kobj_op_step op s) \<le> age u s + 2"
proof (cases op)
  case (Op_acquire p k)
  then show ?thesis using process_acquire_kobj_newer [OF n a] by simp
next
  case (Op_release p h)
  then show ?thesis using shrinks_newer [OF process_release_kobj_shrinks n] by simp
next
  case (Op_copy p q h)
  then show ?thesis using process_copy_kobj_state [of p q h s] process_acquire_kobj_newer [OF n a] n by auto
next
  case (Op_end p)
  then show ?thesis using shrinks_newer [OF process_release_kobjs_shrinks n] by simp
qed

lemma kobj_ops_newer:
  "newer u x s \<Longrightarrow> age u s + 2 * length ops < 2 ^ 32 \<Longrightarrow>
     newer u x (fold kobj_op_step ops s) \<and> age u (fold kobj_op_step ops s) \<le> age u s + 2 * length ops"
proof (induction ops arbitrary: s)
  case Nil
  then show ?case by simp
next
  case (Cons op ops)
  have "newer u x (kobj_op_step op s) \<and> age u (kobj_op_step op s) \<le> age u s + 2"
    using kobj_op_step_newer [OF Cons.prems(1)] Cons.prems(2) by simp
  with Cons.IH [of "kobj_op_step op s"] Cons.prems(2) show ?case by force
qed

lemma check_distinguishes:
  assumes "uint (KOBJ_HANDLE_CHECK v) = uint (KOBJ_HANDLE_CHECK u)" "unat (v - u) < 0x8000"
  shows "v = u"
proof -
  have "uint (v - u) = (uint v - uint u) mod 2 ^ 32" by (simp add: uint_word_ariths)
  then have "uint (v - u) mod 0x8000 = (uint v - uint u) mod 2 ^ 32 mod 0x8000" by simp
  also have "\<dots> = (uint v - uint u) mod 0x8000" by (simp add: mod_mod_cancel)
  also have "\<dots> = (uint v mod 0x8000 - uint u mod 0x8000) mod 0x8000" by (rule mod_diff_eq [symmetric])
  also have "\<dots> = 0" using assms(1) by (simp add: uint_KOBJ_HANDLE_CHECK)
  finally have "uint (v - u) mod 0x8000 = 0" .
  moreover have "int (unat (v - u)) < 0x8000" using assms(2) by linarith
  then have "uint (v - u) < 0x8000" by (simp only: uint_nat)
  ultimately have "uint (v - u) = 0" using mod_pos_pos_trivial [of "uint (v - u)" "0x8000"] by simp
  then show ?thesis by (simp add: uint_0_iff)
qed

text \<open>
  C19: a handle that has been closed is refused. Once a handle is released it resolves to nothing,
  and keeps resolving to nothing whatever handles any process then acquires, copies or releases, also when
  its slot is used again, as long as fewer than 32768 reference identities have been
  issued since the handle's own (an operation issues at most two).
\<close>

theorem stale_handle_refused:
  assumes "process_get_kobj p h s = r" and "r \<noteq> 0"
    and "0 < age (kr_uid (kobj_refs s r)) s"
    and "age (kr_uid (kobj_refs s r)) s + 2 * length ops \<le> 0x8000"
  shows "process_get_kobj p h (fold kobj_op_step ops (snd (process_release_kobj p h s))) = 0"
proof -
  define x u s' where "x = (p, nat (h mod 0x10000))" and "u = kr_uid (kobj_refs s r)"
    and "s' = snd (process_release_kobj p h s)"
  have r: "slot_inst s x \<noteq> 0" "slot_ref s x = r" "h div 0x10000 = uint (KOBJ_HANDLE_CHECK u)"
    using process_get_kobj_iff [of p h s r] assms(1,2) by (simp_all add: x_def u_def)
  obtain b s1 where k: "kobj_release r p False s = (b, s1)" by fastforce
  then have "b" using assms(2) r(1,2) by (auto simp: kobj_release_def Let_def slot_inst_def split: if_splits)
  then have "s' = clear_slot x s1"
    using k assms(1,2) by (simp add: s'_def process_release_kobj_def clear_slot_def x_def)
  then have "x \<notin> slots s'" by (simp add: clear_slot_slots)
  moreover have "age u s' = age u s"
    using process_release_kobj_shrinks [of s p h] by (simp add: s'_def shrinks_def age_def)
  ultimately have n: "newer u x s'" "age u s' + 2 * length ops \<le> 0x8000"
    using assms(3,4) by (simp_all add: newer_def u_def)
  define t where "t = fold kobj_op_step ops s'"
  have t: "newer u x t" "age u t \<le> 0x8000" using kobj_ops_newer [OF n(1), of ops] n(2) by (simp_all add: t_def)
  have "process_get_kobj p h t = 0"
  proof (rule ccontr)
    define v where "v = kr_uid (kobj_refs t (slot_ref t x))"
    assume "process_get_kobj p h t \<noteq> 0"
    then have "x \<in> slots t" "h div 0x10000 = uint (KOBJ_HANDLE_CHECK v)"
      using process_get_kobj_iff [of p h t "process_get_kobj p h t"] by (auto simp: x_def v_def)
    then have g: "0 < unat (v - u)" "unat (v - u) < age u t" "uint (KOBJ_HANDLE_CHECK v) = uint (KOBJ_HANDLE_CHECK u)"
      using t(1) r(3) unfolding newer_def v_def by (blast, blast, simp)
    have "v = u" by (rule check_distinguishes [OF g(3) less_le_trans [OF g(2) t(2)]])
    then show False using g(1) by simp
  qed
  then show ?thesis by (simp add: t_def s'_def)
qed

section \<open>An example\<close>

text \<open>A kernel with one instance and no handle, and the same kernel after a process has acquired a handle.\<close>

definition one_inst :: kern_t where
  "one_inst = snd (create_kobj_inst KOBJ_PCI 0 boot_kern)"

definition one_handle :: kern_t where
  "one_handle = snd (process_acquire_kobj 0x2000 0x1060000 one_inst)"

lemma nblocks_small: "size_blocks 24 = 1" "size_blocks 16 = 1"
  by (simp_all add: size_blocks_def s32_def)

lemma mark_one: "mark_blocks v (int b) 1 st = (if b < 8192 then st(b := v) else st)"
  by (simp add: mark_blocks_def mark_block_def)

lemma one_inst_eq: "one_inst = boot_kern\<lparr>memory_status := (\<lambda>_. False)(0 := True), heap_head := 0x1061000, kobj_uid_counter := 2,
    kobj_insts := (\<lambda>_. zero_inst)(0x1060000 := \<lparr>ki_uid = 1, ki_type = KOBJ_PCI, ki_data = 0, ki_ref_count = 0,
      ki_handle_count = 0, ki_stopped = False\<rparr>)\<rparr>"
  using mark_one [of True 0]
  by (simp add: one_inst_def create_kobj_inst_def malloc_def nblocks_small boot_kern_def malloc_search.simps upd_inst_def)

lemma malloc_one_inst: "malloc 16 one_inst = (0x1061000, one_inst\<lparr>memory_status := (\<lambda>_. False)(0 := True, 1 := True), heap_head := 0x1062000\<rparr>)"
  using mark_one [of True 1]
  by (simp add: malloc_def nblocks_small one_inst_eq boot_kern_def malloc_search.simps)

lemma one_inst_fields: "processes one_inst = (\<lambda>_. zero_process)" "kobj_ref_uid_counter one_inst = 1"
  "ki_type (kobj_insts one_inst 0x1060000) = KOBJ_PCI"
  by (simp_all add: one_inst_eq boot_kern_def)

lemma one_handle_eq: "process_acquire_kobj 0x2000 0x1060000 one_inst = (0x10000, one_handle)"
  "kobj_ref_uid_counter one_handle = 2" "processes one_handle 0x2000 = zero_process\<lparr>pr_kobj := (\<lambda>_. 0)(0 := 0x1061000), pr_kobj_count := 1\<rparr>"
  "kobj_refs one_handle 0x1061000 = \<lparr>kr_uid = 1, kr_inst = 0x1060000, kr_data = 0, kr_rights = 6\<rparr>"
proof -
  have "first_free_slot (\<lambda>_. 0) = 0" by (simp add: first_free_slot_def upt_rec)
  then show "process_acquire_kobj 0x2000 0x1060000 one_inst = (0x10000, one_handle)" "kobj_ref_uid_counter one_handle = 2"
    "processes one_handle 0x2000 = zero_process\<lparr>pr_kobj := (\<lambda>_. 0)(0 := 0x1061000), pr_kobj_count := 1\<rparr>"
    "kobj_refs one_handle 0x1061000 = \<lparr>kr_uid = 1, kr_inst = 0x1060000, kr_data = 0, kr_rights = 6\<rparr>"
    unfolding one_handle_def
    by (simp_all add: process_acquire_kobj_def create_kobj_ref_def malloc_one_inst one_inst_fields
        kobj_add_ref_def upd_inst_def upd_process_def next_ref_uid_def KOBJ_HANDLE_CHECK_def zero_process_def)
qed

lemma one_inst_inv: "kobj_inv ((\<lambda>_. None)(0 \<mapsto> OInst 0x1060000)) {0x1060000} (\<lambda>_. 0) one_inst"
proof -
  let ?L = "(\<lambda>_. None)(0 \<mapsto> OInst 0x1060000)"
  have hi: "heap_inv one_inst"
    by (auto simp: heap_inv_def one_inst_eq block_addr_def intro!: exI [of _ 1])
  have "held ?L (OInst 0x1060000) 0x1060000 24"
    by (auto simp: held_def valid_size_def nblocks_def obj_blocks_def block_addr_def intro!: exI [of _ 0])
  then have k: "inst_held ?L one_inst 0x1060000" by (simp add: inst_held_def one_inst_eq)
  have sl: "slots one_inst = {}" by (auto simp: slots_def one_inst_eq boot_kern_def zero_process_def)
  then have h: "handles_of one_inst k = {}" for k by (simp add: handles_of_def)
  have "ledger ?L one_inst" using hi by (auto simp: ledger_def one_inst_eq split: if_splits)
  then show ?thesis using k sl h by (simp add: kobj_inv_def kobj_core_def one_inst_eq inst_pipe_def)
qed


lemma one_handle_get: "process_get_kobj 0x2000 0x10000 one_handle = 0x1061000"
  by (simp add: process_get_kobj_def one_handle_eq KOBJ_HANDLE_CHECK_def)

lemma one_handle_inv: "\<exists>L. kobj_inv L {0x1060000} (\<lambda>_. 0) one_handle"
  by (rule process_acquire_kobj_inv [OF one_inst_inv _ _ one_handle_eq(1)]) auto


theorem stale_handle_refused_witness:
  "process_get_kobj 0x2000 0x10000 (fold kobj_op_step [Op_acquire 0x2000 0x1060000, Op_copy 0x2000 0x3000 0x10000]
     (snd (process_release_kobj 0x2000 0x10000 one_handle))) = 0"
  by (rule stale_handle_refused [OF one_handle_get]) (simp_all add: one_handle_eq age_def)

end
