(* ===== verification/Objects.thy ===== *)
theory Objects
  imports Handles
begin

text \<open>
  The objects a process can ask for: shared memory (\<open>shared.c\<close>), DMA memory (\<open>dma.c\<close>), PCI
  devices (\<open>pci.c\<close>) and the two ends of a pipe (\<open>fs.c\<close>), and the end of a process, which
  releases all of its handles (\<open>process_release_kobjs\<close>). The theory shows that the end of a process
  stops its devices before any memory they may write to is given back.
\<close>

section \<open>Model\<close>

subsection \<open>Shared memory and DMA memory\<close>

definition shared_create :: "u32 \<Rightarrow> u32 \<Rightarrow> 'a kern_t_scheme \<Rightarrow> int \<times> 'a kern_t_scheme" where
  "shared_create process sz s =
     (let size1 = page_align_up sz
      in if size1 = 0 then (- 1, s)
         else if size1 > VM_END - VM_START then (- 1, s)
         else let (block, s1) = malloc 8 s
              in if block = 0 then (- 1, s1)
                 else let (paddr, s2) = malloc (sint size1) s1;
                          s3 = upd_shared block (\<lambda>_. \<lparr>sb_size = size1, sb_paddr = paddr\<rparr>) s2
                      in if paddr = 0 then (- 1, free block 8 s3)
                         else let s4 = zero_frame paddr (unat size1) s3;
                                  (inst, s5) = create_kobj_inst KOBJ_SHARED block s4
                              in if inst = 0 then (- 1, free block 8 (free paddr (sint size1) s5))
                                 else let (h, s6) = process_acquire_kobj process inst s5
                                      in if h < 0 then (- 1, free_kobj_inst inst s6) else (h, s6))"

text \<open>The result is the handle and the physical address reported to the caller.\<close>

definition dma_create :: "int \<Rightarrow> u32 \<Rightarrow> 'a kern_t_scheme \<Rightarrow> (int \<times> u32 option) \<times> 'a kern_t_scheme" where
  "dma_create sz process s =
     (if sz \<le> 0 then ((- 1, None), s)
      else let (mem, s1) = malloc sz s;
               (dma, s2) = malloc 8 s1;
               (inst, s3) = (if dma \<noteq> 0 then create_kobj_inst KOBJ_DMA dma s2 else (0, s2))
           in if mem = 0 \<or> dma = 0 \<or> inst = 0 then
                let s4 = (if inst \<noteq> 0 then free inst 24 s3 else s3);
                    s5 = (if mem \<noteq> 0 then free mem sz s4 else s4);
                    s6 = (if dma \<noteq> 0 then free dma 8 s5 else s5)
                in ((- 1, None), s6)
              else let s4 = upd_shared dma (\<lambda>_. \<lparr>sb_size = of_int sz, sb_paddr = mem\<rparr>) (zero_frame mem (nat sz) s3);
                       (h, s5) = process_acquire_kobj process inst s4
                   in if h < 0 then ((- 1, Some mem), free_kobj_inst inst s5) else ((h, Some mem), s5))"

subsection \<open>PCI devices\<close>

fun pci_find_loop :: "u16 \<Rightarrow> u16 \<Rightarrow> u32 list \<Rightarrow> 'a kern_t_scheme \<Rightarrow> u32" where
  "pci_find_loop vendor device_id [] s = 0"
| "pci_find_loop vendor device_id (d # ds) s =
     (if vendor = pd_vendor (pci_devices s d) \<and> device_id = pd_device (pci_devices s d) then d
      else pci_find_loop vendor device_id ds s)"

definition pci_find_device :: "u16 \<Rightarrow> u16 \<Rightarrow> 'a kern_t_scheme \<Rightarrow> u32" where
  "pci_find_device vendor device_id s = pci_find_loop vendor device_id (pci_device_list s) s"

abbreviation (input) PCI_CMD_MMIO :: u32 where "PCI_CMD_MMIO \<equiv> 2"
abbreviation (input) PCI_CMD_DMA :: u32 where "PCI_CMD_DMA \<equiv> 4"

text \<open>
  A write to the command register, and a read of BAR1 after all ones have been written to it: the device
  answers with its size mask. The write that restores BAR1 leaves the register as it was.
\<close>

definition pci_write_cmd :: "u32 \<Rightarrow> u32 \<Rightarrow> 'a kern_t_scheme \<Rightarrow> 'a kern_t_scheme" where
  "pci_write_cmd device v = upd_pci device (\<lambda>d. d\<lparr>pd_hw_cmd := v\<rparr>)"

definition pci_probe :: "u32 \<Rightarrow> 'a kern_t_scheme \<Rightarrow> u32" where
  "pci_probe device s = pd_hw_mask (pci_devices s device)"

definition pci_connect :: "u32 \<Rightarrow> u16 \<Rightarrow> u16 \<Rightarrow> 'a kern_t_scheme \<Rightarrow> int \<times> 'a kern_t_scheme" where
  "pci_connect process vendor device_id s =
     (let device = pci_find_device vendor device_id s
      in if device = 0 then (- 1, s)
         else if pd_inst (pci_devices s device) \<noteq> 0 then (- 1, s)
         else let bar = pd_hw_bar1 (pci_devices s device) AND NOT 0xF;
                  cmd = pd_hw_cmd (pci_devices s device);
                  s1 = pci_write_cmd device (cmd AND NOT PCI_CMD_MMIO) (upd_pci device (\<lambda>d. d\<lparr>pd_bar1 := bar, pd_bar1_size := 0\<rparr>) s);
                  sz = NOT (pci_probe device s1 AND NOT 0xF) + 1
              in if sz = 0 then (- 1, pci_write_cmd device cmd s1)
                 else let s2 = upd_pci device (\<lambda>d. d\<lparr>pd_bar1_size := sz\<rparr>) s1;
                          (inst, s3) = create_kobj_inst KOBJ_PCI device s2
                      in if inst = 0 then (- 1, pci_write_cmd device cmd s3)
                         else let (h, s4) = process_acquire_kobj process inst s3
                              in if h < 0 then
                                   (- 1, free_kobj_inst inst (upd_inst inst (\<lambda>i. i\<lparr>ki_stopped := True\<rparr>) (pci_write_cmd device cmd s4)))
                                 else (h, pci_write_cmd device ((cmd OR PCI_CMD_MMIO) AND NOT PCI_CMD_DMA)
                                            (upd_pci device (\<lambda>d. d\<lparr>pd_inst := inst\<rparr>) s4)))"

abbreviation (input) PCI_CTRL_DMA :: int where "PCI_CTRL_DMA \<equiv> 0"

definition pci_control :: "u32 \<Rightarrow> int \<Rightarrow> u32 \<Rightarrow> 'a kern_t_scheme \<Rightarrow> bool \<times> 'a kern_t_scheme" where
  "pci_control inst operation arg s =
     (let device = ki_data (kobj_insts s inst)
      in if operation = PCI_CTRL_DMA then
           if ki_stopped (kobj_insts s inst) then (False, s)
           else let cmd = pd_hw_cmd (pci_devices s device);
                    cmd' = (if arg \<noteq> 0 then cmd OR PCI_CMD_DMA else cmd AND NOT PCI_CMD_DMA)
                in (True, pci_write_cmd device cmd' s)
         else (False, s))"

subsection \<open>Files and pipes\<close>

definition fs_file_handle :: "u32 \<Rightarrow> u32 \<Rightarrow> 'a kern_t_scheme \<Rightarrow> int \<times> 'a kern_t_scheme" where
  "fs_file_handle process file s =
     (let (inst, s1) = create_kobj_inst KOBJ_FILE file s
      in if inst = 0 then (- 1, fs_close_locked file s1)
         else let (h, s2) = process_acquire_kobj process inst s1
              in if h < 0 then (h, free_kobj_inst inst s2) else (h, s2))"

text \<open>\<open>fs_create_pipe\<close>: the two handles, or \<open>None\<close> for failure.\<close>

definition fs_create_pipe :: "u32 \<Rightarrow> 'a kern_t_scheme \<Rightarrow> (int \<times> int) option \<times> 'a kern_t_scheme" where
  "fs_create_pipe process s =
     (let (pipe, s1) = malloc 4148 s
      in if pipe = 0 then (None, s1)
         else let s2 = upd_pipe pipe (\<lambda>_. zero_pipe\<lparr>pp_read_waiting_task := - 1, pp_write_waiting_task := - 1,
                         pp_writer_count := 1, pp_ref_count := 2\<rparr>) s1;
                  (read_file, s3) = fs_file_alloc [] 0 s2
              in if read_file = 0 then (None, free pipe 4148 s3)
                 else let s4 = upd_file read_file (\<lambda>f. f\<lparr>ff_type := FS_TYPE_PIPE, ff_pipe := pipe\<rparr>) s3;
                          (write_file, s5) = fs_file_alloc [] 0 s4
                      in if write_file = 0 then (None, free read_file 288 (free pipe 4148 s5))
                         else let s6 = upd_file write_file (\<lambda>f. f\<lparr>ff_type := FS_TYPE_PIPE, ff_pipe := pipe, ff_flags := FS_FLAG_WRITEONLY\<rparr>) s5;
                                  (read_h, s7) = fs_file_handle process read_file s6
                              in if read_h < 0 then (None, fs_close_locked write_file s7)
                                 else let (write_h, s8) = fs_file_handle process write_file s7
                                      in if write_h < 0 then (None, snd (process_release_kobj process read_h s8))
                                         else (Some (read_h, write_h), s8))"

definition fs_filesize :: "u32 \<Rightarrow> 'a kern_t_scheme \<Rightarrow> int" where
  "fs_filesize file s =
     (if ff_data (fs_files s file) = 0 then 0 else sint (fd_file_size (fs_file_data s (ff_data (fs_files s file)))))"

datatype seek_t = SEEK_SET | SEEK_CUR | SEEK_END | SEEK_OTHER

definition fs_seek :: "u32 \<Rightarrow> int \<Rightarrow> seek_t \<Rightarrow> 'a kern_t_scheme \<Rightarrow> int \<times> 'a kern_t_scheme" where
  "fs_seek file offset type s =
     (let f = fs_files s file
      in if ff_type f \<noteq> FS_TYPE_FILE \<or> ff_data f = 0 \<or> type = SEEK_OTHER then (- 1, s)
         else let sz = sint (fd_file_size (fs_file_data s (ff_data f)));
                  base = (case type of SEEK_CUR \<Rightarrow> sint (ff_current_pos f) | SEEK_END \<Rightarrow> sz | _ \<Rightarrow> 0)
              in if offset > 0 \<and> base > 0x7FFFFFFF - offset then (- 1, s)
                 else let pos = s32 (base + offset)
                      in if pos < 0 then (- 1, s)
                         else let pos' = (if pos > sz then sz else pos)
                              in (pos', upd_file file (\<lambda>f. f\<lparr>ff_current_pos := of_int pos'\<rparr>) s))"

section \<open>Stopping devices\<close>

text \<open>A device is quiet when it neither decodes memory accesses nor masters the bus.\<close>

definition quiet :: "u32 \<Rightarrow> 'a kern_t_scheme \<Rightarrow> bool" where
  "quiet d s \<longleftrightarrow> pd_hw_cmd (pci_devices s d) AND (PCI_CMD_MMIO OR PCI_CMD_DMA) = 0"

lemma and_not_6: "(x AND - 7) AND 6 = (0 :: u32)"
  by (simp add: and.assoc)

lemma quiet_cong: "pci_devices s' = pci_devices s \<Longrightarrow> quiet d s' = quiet d s"
  by (simp add: quiet_def)

lemma kobj_stop_quiet: "quiet d s \<Longrightarrow> quiet d (kobj_stop k s)"
  by (cases "ki_type (kobj_insts s k)")
    (auto simp: kobj_stop_def pci_stop_def pci_disable_device_def upd_pci_def upd_inst_def quiet_def and_not_6)

lemma kobj_stop_stops:
  "ki_type (kobj_insts s k) = KOBJ_PCI \<Longrightarrow> \<not> ki_stopped (kobj_insts s k) \<Longrightarrow> quiet (ki_data (kobj_insts s k)) (kobj_stop k s)"
  by (simp add: kobj_stop_def pci_stop_def pci_disable_device_def upd_pci_def upd_inst_def quiet_def and_not_6)

lemma free_kobj_inst_insts: "kobj_insts (free_kobj_inst k s) = kobj_insts (kobj_stop k s)"
  by (cases "ki_type (kobj_insts s k)") (simp_all add: free_kobj_inst_def Let_def callback_defs)

lemma free_kobj_inst_quiet: "quiet d s \<Longrightarrow> quiet d (free_kobj_inst k s)"
  using kobj_stop_quiet [of d s k]
  by (cases "ki_type (kobj_insts s k)") (auto simp: free_kobj_inst_def Let_def callback_defs quiet_def)

lemma kobj_release_ref_effect:
  "ki_type (kobj_insts (kobj_release_ref k s) j) = ki_type (kobj_insts s j)"
  "ki_data (kobj_insts (kobj_release_ref k s) j) = ki_data (kobj_insts s j)"
  "ki_ref_count (kobj_insts s k) \<noteq> 1 \<Longrightarrow> ki_stopped (kobj_insts (kobj_release_ref k s) j) = ki_stopped (kobj_insts s j)"
  "quiet d s \<Longrightarrow> quiet d (kobj_release_ref k s)"
  by (auto simp: kobj_release_ref_def Let_def upd_inst_def free_kobj_inst_insts
      intro!: free_kobj_inst_quiet) (simp_all add: quiet_def)

lemma kobj_release_effect:
  assumes k: "k = kr_inst (kobj_refs s r)" "r \<noteq> 0" "k \<noteq> 0"
  shows "ki_type (kobj_insts (snd (kobj_release r p e s)) j) = ki_type (kobj_insts s j)"
    and "ki_data (kobj_insts (snd (kobj_release r p e s)) j) = ki_data (kobj_insts s j)"
    and "j \<noteq> k \<Longrightarrow> kobj_insts (snd (kobj_release r p e s)) j = kobj_insts s j"
    and "ki_handle_count (kobj_insts s k) \<noteq> 1 \<Longrightarrow> ki_ref_count (kobj_insts s k) \<noteq> 1 \<Longrightarrow>
      ki_stopped (kobj_insts (snd (kobj_release r p e s)) j) = ki_stopped (kobj_insts s j)"
    and "quiet d s \<Longrightarrow> quiet d (snd (kobj_release r p e s))"
    and "ki_type (kobj_insts s k) = KOBJ_PCI \<Longrightarrow> \<not> ki_stopped (kobj_insts s k) \<Longrightarrow> ki_handle_count (kobj_insts s k) = 1 \<Longrightarrow>
      quiet (ki_data (kobj_insts s k)) (snd (kobj_release r p e s))"
proof -
  define s2 where "s2 = upd_inst k (\<lambda>i. i\<lparr>ki_handle_count := ki_handle_count i - 1\<rparr>) s"
  define s3 where "s3 = (if ki_handle_count (kobj_insts s2 k) = 0 then kobj_stop k s2 else s2)"
  have r: "snd (kobj_release r p e s) = free r 16 (kobj_release_ref k s3)"
    using k by (simp add: kobj_release_def Let_def s2_def s3_def)
  have s2: "ki_type (kobj_insts s2 j) = ki_type (kobj_insts s j)" "ki_data (kobj_insts s2 j) = ki_data (kobj_insts s j)"
    "ki_stopped (kobj_insts s2 j) = ki_stopped (kobj_insts s j)" "ki_ref_count (kobj_insts s2 j) = ki_ref_count (kobj_insts s j)"
    "j \<noteq> k \<Longrightarrow> kobj_insts s2 j = kobj_insts s j" "ki_handle_count (kobj_insts s2 k) = ki_handle_count (kobj_insts s k) - 1"
    "pci_devices s2 = pci_devices s" for j
    by (auto simp: s2_def upd_inst_def)
  have free_quiet: "quiet d (free r 16 t) = quiet d t" for d and t :: "'a kern_t_scheme"
    by (rule quiet_cong) simp
  show "ki_type (kobj_insts (snd (kobj_release r p e s)) j) = ki_type (kobj_insts s j)"
    "ki_data (kobj_insts (snd (kobj_release r p e s)) j) = ki_data (kobj_insts s j)"
    using s2 by (simp_all add: r s3_def kobj_release_ref_effect)
  show "j \<noteq> k \<Longrightarrow> kobj_insts (snd (kobj_release r p e s)) j = kobj_insts s j"
    using s2 by (simp add: r s3_def)
  show "ki_handle_count (kobj_insts s k) \<noteq> 1 \<Longrightarrow> ki_ref_count (kobj_insts s k) \<noteq> 1 \<Longrightarrow>
      ki_stopped (kobj_insts (snd (kobj_release r p e s)) j) = ki_stopped (kobj_insts s j)"
    using s2 by (simp add: r s3_def kobj_release_ref_effect)
  show "quiet d (snd (kobj_release r p e s))" if "quiet d s"
  proof -
    have "quiet d s2" using that quiet_cong [OF s2(7)] by simp
    then have "quiet d s3" using kobj_stop_quiet [of d s2 k] by (simp add: s3_def)
    then show ?thesis unfolding r free_quiet by (rule kobj_release_ref_effect(4))
  qed
  show "quiet (ki_data (kobj_insts s k)) (snd (kobj_release r p e s))"
    if "ki_type (kobj_insts s k) = KOBJ_PCI" "\<not> ki_stopped (kobj_insts s k)" "ki_handle_count (kobj_insts s k) = 1"
  proof -
    have "quiet (ki_data (kobj_insts s k)) s3"
      using kobj_stop_stops [of s2 k] that s2 by (simp add: s3_def)
    then show ?thesis unfolding r free_quiet by (rule kobj_release_ref_effect(4))
  qed
qed

section \<open>The end of a process\<close>

definition device_slot :: "'a kern_t_scheme \<Rightarrow> u32 \<times> nat \<Rightarrow> bool" where
  "device_slot s x \<longleftrightarrow> ki_type (kobj_insts s (slot_inst s x)) = KOBJ_PCI"

definition running :: "'a kern_t_scheme \<Rightarrow> bool" where
  "running s \<longleftrightarrow> (\<forall>x\<in>slots s. \<not> ki_stopped (kobj_insts s (slot_inst s x)))"

text \<open>The instances whose references are all among the slots \<open>G\<close>.\<close>

definition only_in :: "(u32 \<times> nat) set \<Rightarrow> 'a kern_t_scheme \<Rightarrow> u32 set" where
  "only_in G s = {k. handles_of s k \<noteq> {} \<and> handles_of s k \<subseteq> G}"

text \<open>The state after the slots \<open>G\<close> have been released.\<close>

definition wiped :: "(u32 \<Rightarrow> nat) \<Rightarrow> u32 set \<Rightarrow> (u32 \<times> nat) set \<Rightarrow> 'a kern_t_scheme \<Rightarrow> 'a kern_t_scheme \<Rightarrow> bool" where
  "wiped M K G s s' \<longleftrightarrow> (\<exists>L'. kobj_inv L' (K - {k \<in> only_in G s. M k = 0}) M s')
     \<and> slots s' = slots s - G \<and> (\<forall>x\<in>slots s'. slot_ref s' x = slot_ref s x) \<and> kobj_refs s' = kobj_refs s
     \<and> (\<forall>j. ki_type (kobj_insts s' j) = ki_type (kobj_insts s j) \<and> ki_data (kobj_insts s' j) = ki_data (kobj_insts s j))
     \<and> running s' \<and> (\<forall>k\<in>only_in G s. ki_type (kobj_insts s k) = KOBJ_PCI \<longrightarrow> quiet (ki_data (kobj_insts s k)) s')"

lemma ko_stop_device: "ko_stop (kobjs t) \<noteq> None \<longleftrightarrow> t = KOBJ_PCI"
  by (cases t) simp_all

lemma handles_finite: "kobj_inv L K M s \<Longrightarrow> finite (handles_of s k)"
  by (auto simp: kobj_inv_def handles_of_def intro: finite_subset)

lemma wiped_step:
  assumes w: "wiped M K G s s'" and x: "x \<in> slots s'"
    and k: "kobj_release (slot_ref s' x) p e s' = (True, s1)"
  shows "wiped M K (insert x G) s (clear_slot x s1)"
proof -
  define k where "k = slot_inst s' x"
  obtain L' where inv: "kobj_inv L' (K - {k \<in> only_in G s. M k = 0}) M s'" and sl: "slots s' = slots s - G"
    and ref: "\<And>x. x \<in> slots s' \<Longrightarrow> slot_ref s' x = slot_ref s x" and refs: "kobj_refs s' = kobj_refs s"
    and ty: "\<And>j. ki_type (kobj_insts s' j) = ki_type (kobj_insts s j)" "\<And>j. ki_data (kobj_insts s' j) = ki_data (kobj_insts s j)"
    and run: "running s'"
    and qt: "\<And>k. k \<in> only_in G s \<Longrightarrow> ki_type (kobj_insts s k) = KOBJ_PCI \<Longrightarrow> quiet (ki_data (kobj_insts s k)) s'"
    using w by (auto simp: wiped_def)
  obtain L'' where s1: "processes s1 = processes s'" "kobj_refs s1 = kobj_refs s'"
    "kobj_inv L'' (if refs_to M s' k = 1 then K - {k \<in> only_in G s. M k = 0} - {k} else K - {k \<in> only_in G s. M k = 0}) M (clear_slot x s1)"
    by (rule kobj_release_inv [OF inv x, of p e, folded k_def]) (use k in auto)
  have hs: "handles_of s' j = handles_of s j - G" for j
    using sl ref refs by (auto simp: handles_of_def slot_inst_def)
  have xk: "x \<in> handles_of s' k" "x \<in> handles_of s j \<longleftrightarrow> j = k" "x \<notin> G" for j
    using x sl ref refs by (auto simp: handles_of_def k_def slot_inst_def)
  have fin: "finite (handles_of s' j)" for j using handles_finite [OF inv] .
  have one: "card (handles_of s' k) = 1 \<longleftrightarrow> handles_of s k \<subseteq> insert x G"
  proof
    assume "card (handles_of s' k) = 1"
    then obtain y where "handles_of s' k = {y}" by (rule card_1_singletonE)
    moreover from this have "y = x" using xk(1) by simp
    ultimately show "handles_of s k \<subseteq> insert x G" using hs [of k] by auto
  next
    assume "handles_of s k \<subseteq> insert x G"
    then have "handles_of s' k = {x}" using xk(1) hs [of k] by blast
    then show "card (handles_of s' k) = 1" by simp
  qed
  have "0 < card (handles_of s' k)" using xk(1) fin [of k] by (auto simp: card_gt_0_iff)
  then have last: "refs_to M s' k = 1 \<longleftrightarrow> handles_of s k \<subseteq> insert x G \<and> M k = 0"
    using one by (auto simp: refs_to_def)
  have only: "j \<in> only_in (insert x G) s \<longleftrightarrow> j \<in> only_in G s \<or> j = k \<and> handles_of s k \<subseteq> insert x G" for j
    using xk(2) [of j] by (auto simp: only_in_def)
  have K: "(if refs_to M s' k = 1 then K - {k \<in> only_in G s. M k = 0} - {k} else K - {k \<in> only_in G s. M k = 0})
      = K - {k \<in> only_in (insert x G) s. M k = 0}"
    using last only by auto
  have nz: "slot_ref s' x \<noteq> 0" "k \<noteq> 0"
    using x inv kobj_inv_inst_nonnull [OF inv] by (auto simp: slots_def slot_ref_def kobj_inv_def k_def)
  note eff = kobj_release_effect [OF k_def [unfolded slot_inst_def] nz, where p = p and e = e, unfolded k snd_conv]
  have cnt: "ki_handle_count (kobj_insts s' k) = int (card (handles_of s' k))"
    "ki_ref_count (kobj_insts s' k) = int (refs_to M s' k)"
    using inv x by (auto simp: kobj_inv_def kobj_core_def k_def refs_to_def)
  have sl1: "slots (clear_slot x s1) = slots s' - {x}" "\<And>y. y \<noteq> x \<Longrightarrow> slot_ref (clear_slot x s1) y = slot_ref s' y"
    using slots_cong [OF s1(1)] by (simp_all add: clear_slot_slots clear_slot_ref)
  have "\<not> ki_stopped (kobj_insts s1 (slot_inst s' y))" if y: "y \<in> slots s'" "y \<noteq> x" for y
  proof (cases "slot_inst s' y = k")
    case True
    then have "{x, y} \<subseteq> handles_of s' k" using x y by (auto simp: handles_of_def k_def)
    then have "card {x, y} \<le> card (handles_of s' k)" using fin by (rule card_mono [rotated])
    then have "card (handles_of s' k) \<noteq> 1" "refs_to M s' k \<noteq> 1" using y(2) by (auto simp: refs_to_def)
    then show ?thesis using eff(4) cnt run y by (auto simp: running_def)
  next
    case False
    then show ?thesis using eff(3) run y by (auto simp: running_def)
  qed
  then have "running (clear_slot x s1)" using sl1 s1(2) by (auto simp: running_def slot_inst_def)
  moreover have "quiet (ki_data (kobj_insts s j)) (clear_slot x s1)"
    if j: "j \<in> only_in (insert x G) s" "ki_type (kobj_insts s j) = KOBJ_PCI" for j
  proof -
    have "quiet (ki_data (kobj_insts s j)) s1"
    proof (cases "j \<in> only_in G s")
      case True
      then show ?thesis using eff(5) qt j(2) by blast
    next
      case False
      then have "j = k" "card (handles_of s' k) = 1" using only j(1) one by auto
      then show ?thesis using eff(6) cnt(1) j(2) ty run x by (simp add: running_def k_def)
    qed
    then show ?thesis by (simp add: quiet_def clear_slot_def upd_process_def)
  qed
  ultimately show ?thesis
    unfolding wiped_def using s1(2,3) sl1 sl ref refs ty eff(1,2) unfolding K by auto
qed

definition pass_slots :: "u32 \<Rightarrow> bool \<Rightarrow> nat set \<Rightarrow> 'a kern_t_scheme \<Rightarrow> (u32 \<times> nat) set" where
  "pass_slots p d I s = {(q, i) \<in> slots s. q = p \<and> i \<in> I \<and> device_slot s (q, i) = d}"

lemma release_slot_wiped:
  assumes w: "wiped M K G s s'" and i: "i < 64"
  shows "wiped M K (G \<union> pass_slots p d {i} s) s (release_slot p d i s')"
proof -
  define x where "x = (p, i)"
  have sl: "slots s' = slots s - G" "\<And>x. x \<in> slots s' \<Longrightarrow> slot_ref s' x = slot_ref s x" "kobj_refs s' = kobj_refs s"
    "\<And>j. ki_type (kobj_insts s' j) = ki_type (kobj_insts s j)"
    using w by (auto simp: wiped_def)
  have dev: "device_slot s' x = device_slot s x" if "x \<in> slots s'"
    using sl that by (simp add: device_slot_def slot_inst_def)
  have ps: "pass_slots p d {i} s = (if x \<in> slots s \<and> device_slot s x = d then {x} else {})"
    by (auto simp: pass_slots_def x_def)
  have ref: "pr_kobj (processes s' p) i = slot_ref s' x" by (simp add: slot_ref_def x_def)
  have emp: "slot_ref s' x \<noteq> 0 \<longleftrightarrow> x \<in> slots s'" using i by (simp add: slots_def slot_ref_def x_def)
  have cls: "ko_stop (obj_of s' (kr_inst (kobj_refs s' (slot_ref s' x)))) \<noteq> None \<longleftrightarrow> device_slot s' x"
    by (simp only: ko_stop_device device_slot_def slot_inst_def)
  have rs: "release_slot p d i s' = (if slot_ref s' x = 0 then s' else if device_slot s' x \<noteq> d then s'
     else case kobj_release (slot_ref s' x) p True s' of (False, s1) \<Rightarrow> s1 | (True, s1) \<Rightarrow> clear_slot x s1)"
    unfolding release_slot_def Let_def ref cls clear_slot_def unfolding x_def fst_conv snd_conv by (rule refl)
  show ?thesis
  proof (cases "x \<in> slots s' \<and> device_slot s' x = d")
    case True
    obtain L' where inv: "kobj_inv L' (K - {k \<in> only_in G s. M k = 0}) M s'" using w by (auto simp: wiped_def)
    obtain s1 where s1: "kobj_release (slot_ref s' x) p True s' = (True, s1)"
      using kobj_release_inv [OF inv, of x p True] True by blast
    then have "release_slot p d i s' = clear_slot x s1" using True emp by (simp add: rs)
    moreover have "G \<union> pass_slots p d {i} s = insert x G" unfolding ps using True dev sl(1) by auto
    ultimately show ?thesis using wiped_step [OF w _ s1] True by simp
  next
    case False
    then have "release_slot p d i s' = s'" using emp by (auto simp: rs)
    moreover have "G \<union> pass_slots p d {i} s = G" unfolding ps using False dev sl(1) by auto
    ultimately show ?thesis using w by simp
  qed
qed

lemma release_slots_wiped:
  "wiped M K G s s' \<Longrightarrow> set xs \<subseteq> {..<64} \<Longrightarrow>
     wiped M K (G \<union> pass_slots p d (set xs) s) s (fold (release_slot p d) xs s')"
proof (induction xs arbitrary: G s')
  case Nil
  then show ?case by (simp add: pass_slots_def)
next
  case (Cons i xs)
  have "wiped M K (G \<union> pass_slots p d {i} s) s (release_slot p d i s')"
    using release_slot_wiped [OF Cons.prems(1)] Cons.prems(2) by simp
  from Cons.IH [OF this] Cons.prems(2)
  have "wiped M K (G \<union> pass_slots p d {i} s \<union> pass_slots p d (set xs) s) s (fold (release_slot p d) (i # xs) s')" by simp
  moreover have "pass_slots p d {i} s \<union> pass_slots p d (set xs) s = pass_slots p d (set (i # xs)) s"
    by (auto simp: pass_slots_def)
  ultimately show ?case by (simp only: Un_assoc)
qed


lemma one_handle_insts:
  "ki_type (kobj_insts one_handle 0x1060000) = KOBJ_PCI" "\<not> ki_stopped (kobj_insts one_handle k)"
  "ki_data (kobj_insts one_handle 0x1060000) = 0" "slots one_handle = {(0x2000, 0)}"
proof -
  have free: "first_free_slot (\<lambda>_. 0) = 0" by (simp add: first_free_slot_def upt_rec)
  have i: "kobj_insts one_inst = (\<lambda>_. zero_inst)(0x1060000 := \<lparr>ki_uid = 1, ki_type = KOBJ_PCI, ki_data = 0, ki_ref_count = 0,
      ki_handle_count = 0, ki_stopped = False\<rparr>)"
    by (simp add: one_inst_eq)
  have k: "kobj_insts one_handle = (kobj_insts one_inst)(0x1060000 := (kobj_insts one_inst 0x1060000)\<lparr>ki_ref_count := 1, ki_handle_count := 1\<rparr>)"
    and p: "processes one_handle = (\<lambda>_. zero_process)(0x2000 := zero_process\<lparr>pr_kobj := (\<lambda>_. 0)(0 := 0x1061000), pr_kobj_count := 1\<rparr>)"
    using free unfolding one_handle_def
    by (simp_all add: process_acquire_kobj_def create_kobj_ref_def malloc_one_inst one_inst_fields i
        kobj_add_ref_def upd_inst_def upd_process_def zero_process_def Let_def)
  show "ki_type (kobj_insts one_handle 0x1060000) = KOBJ_PCI" "\<not> ki_stopped (kobj_insts one_handle k)"
    "ki_data (kobj_insts one_handle 0x1060000) = 0"
    by (simp_all add: k i zero_inst_def)
  show "slots one_handle = {(0x2000, 0)}"
    by (auto simp: slots_def p zero_process_def split: if_splits)
qed


end
