(* ===== verification/Vm.thy ===== *)
theory Vm
  imports Handles
begin

text \<open>
  The regions of a process's address space in which kernel objects are mapped (\<open>process_alloc_vm\<close>,
  \<open>process_find_vm\<close>, \<open>process_unmap_vm\<close>, \<open>process_free_vm\<close> and \<open>process_map_kobj\<close>
  of \<open>tasks.c\<close>): a linked list sorted by address between \<open>VM_START\<close> and \<open>VM_END\<close>.
  A region holds a reference to its object. The theory shows that allocation is first fit and keeps the
  regions sorted and disjoint, that a lookup finds the region of an address, and that unmapping gives
  back exactly one region and one reference.
\<close>

section \<open>Model\<close>

text \<open>The search for a gap: the address of the gap, the region before it and the region after it.\<close>

partial_function (option) alloc_vm_loop :: "u32 \<Rightarrow> u32 \<Rightarrow> u32 \<Rightarrow> u32 \<Rightarrow> 'a kern_t_scheme \<Rightarrow> (u32 \<times> u32 \<times> u32) option" where
  "alloc_vm_loop sz vmem prev region s =
     (if region = 0 then Some (vmem, prev, region)
      else let r = vm_regions s region
           in if vr_vaddr r - vmem \<ge> sz then Some (vmem, prev, region)
              else alloc_vm_loop sz (vr_vaddr r + vr_size r) region (vr_next r) s)"

definition process_alloc_vm :: "u32 \<Rightarrow> u32 \<Rightarrow> u32 \<Rightarrow> u32 \<Rightarrow> 'a kern_t_scheme \<Rightarrow> (u32 \<times> 'a kern_t_scheme) option" where
  "process_alloc_vm process sz flags inst s =
     (if sz = 0 then Some (0, s)
      else let size1 = page_align_up sz
           in case alloc_vm_loop size1 VM_START 0 (pr_regions (processes s process)) s of
                None \<Rightarrow> None
              | Some (vmem, prev, region) \<Rightarrow>
                  if vmem + size1 < VM_START \<or> vmem + size1 > VM_END then Some (0, s)
                  else let (new, s1) = malloc 20 s
                       in if new = 0 then Some (0, s1)
                          else let s2 = upd_region new (\<lambda>_. \<lparr>vr_vaddr = vmem, vr_inst = inst, vr_size = size1,
                                          vr_flags = flags, vr_next = region\<rparr>) s1;
                                   s3 = kobj_add_ref inst s2
                               in Some (new, if prev \<noteq> 0 then upd_region prev (\<lambda>r. r\<lparr>vr_next := new\<rparr>) s3
                                             else upd_process process (\<lambda>p. p\<lparr>pr_regions := new\<rparr>) s3))"

definition in_region :: "u32 \<Rightarrow> vm_region_t \<Rightarrow> bool" where
  "in_region vaddr r \<longleftrightarrow> vaddr \<ge> vr_vaddr r \<and> vaddr - vr_vaddr r < vr_size r"

partial_function (option) find_vm_loop :: "u32 \<Rightarrow> u32 \<Rightarrow> u32 \<Rightarrow> 'a kern_t_scheme \<Rightarrow> (u32 \<times> u32) option" where
  "find_vm_loop vaddr prev region s =
     (if region = 0 then Some (prev, 0)
      else if in_region vaddr (vm_regions s region) then Some (prev, region)
      else find_vm_loop vaddr region (vr_next (vm_regions s region)) s)"

definition process_find_vm :: "u32 \<Rightarrow> u32 \<Rightarrow> 'a kern_t_scheme \<Rightarrow> u32 option" where
  "process_find_vm process vaddr s = map_option snd (find_vm_loop vaddr 0 (pr_regions (processes s process)) s)"

definition process_unmap_vm :: "u32 \<Rightarrow> u32 \<Rightarrow> 'a kern_t_scheme \<Rightarrow> (bool \<times> 'a kern_t_scheme) option" where
  "process_unmap_vm process vaddr s =
     (case find_vm_loop vaddr 0 (pr_regions (processes s process)) s of
        None \<Rightarrow> None
      | Some (prev, region) \<Rightarrow>
          if region = 0 then Some (False, s)
          else let r = vm_regions s region;
                   (n, s1) = unmap_size (pr_page_dir (processes s process)) (vr_vaddr r) (vr_size r) s;
                   s2 = upd_process process (\<lambda>p. p\<lparr>pr_no_allocated := pr_no_allocated p - n\<rparr>) s1;
                   s3 = kobj_release_ref (vr_inst r) s2;
                   s4 = (if prev \<noteq> 0 then upd_region prev (\<lambda>q. q\<lparr>vr_next := vr_next (vm_regions s3 region)\<rparr>) s3
                         else upd_process process (\<lambda>p. p\<lparr>pr_regions := vr_next (vm_regions s3 region)\<rparr>) s3)
               in Some (True, free region 20 s4))"

partial_function (option) free_vm_loop :: "u32 \<Rightarrow> 'a kern_t_scheme \<Rightarrow> 'a kern_t_scheme option" where
  "free_vm_loop region s =
     (if region = 0 then Some s
      else let s1 = kobj_release_ref (vr_inst (vm_regions s region)) s;
               next = vr_next (vm_regions s1 region)
           in free_vm_loop next (free region 20 s1))"

definition process_free_vm :: "u32 \<Rightarrow> 'a kern_t_scheme \<Rightarrow> 'a kern_t_scheme option" where
  "process_free_vm process s =
     map_option (upd_process process (\<lambda>p. p\<lparr>pr_regions := 0\<rparr>)) (free_vm_loop (pr_regions (processes s process)) s)"

abbreviation (input) VM_FLAG_WRITE :: u32 where "VM_FLAG_WRITE \<equiv> 1"
abbreviation (input) VM_FLAG_NO_CACHE :: u32 where "VM_FLAG_NO_CACHE \<equiv> 2"

definition process_map_kobj :: "u32 \<Rightarrow> u32 \<Rightarrow> int \<Rightarrow> 'a kern_t_scheme \<Rightarrow> (u32 \<times> 'a kern_t_scheme) option" where
  "process_map_kobj process ref index s =
     (let rw = (kr_rights (kobj_refs s ref) AND KOBJ_RIGHT_WRITE \<noteq> 0);
          inst = kr_inst (kobj_refs s ref)
      in case (case ko_map (obj_of s inst) of None \<Rightarrow> None | Some f \<Rightarrow> f inst index s) of
           None \<Rightarrow> Some (0, s)
         | Some m \<Rightarrow>
             let flags = (if rw then VM_FLAG_WRITE else 0) OR (if km_no_cache m then VM_FLAG_NO_CACHE else 0);
                 offset = km_paddr m AND PAGE_MASK;
                 sz = page_align_up (km_size m + offset)
             in case process_alloc_vm process sz flags inst s of
                  None \<Rightarrow> None
                | Some (region, s1) \<Rightarrow>
                    if region = 0 then Some (0, s1)
                    else let vaddr = vr_vaddr (vm_regions s1 region);
                             (mapped, s2) = map_size (pr_page_dir (processes s1 process)) (km_paddr m - offset) vaddr sz
                                              1 (if rw then 1 else 0) (if km_no_cache m then 1 else 0) s1;
                             s3 = upd_process process (\<lambda>p. p\<lparr>pr_no_allocated := pr_no_allocated p + mapped\<rparr>) s2
                         in if mapped \<noteq> cdiv (sint sz) 0x1000
                            then map_option (\<lambda>(_, s4). (0, s4)) (process_unmap_vm process vaddr s3)
                            else Some (vaddr + offset, s3))"

section \<open>The list of regions\<close>

definition ptr :: "u32 \<Rightarrow> u32 option" where
  "ptr a = (if a = 0 then None else Some a)"

definition vm_next :: "'a kern_t_scheme \<Rightarrow> u32 \<Rightarrow> u32 option" where
  "vm_next s r = ptr (vr_next (vm_regions s r))"

definition vm_list :: "'a kern_t_scheme \<Rightarrow> u32 \<Rightarrow> u32 list \<Rightarrow> bool" where
  "vm_list s p rs \<longleftrightarrow> is_list (vm_next s) (ptr (pr_regions (processes s p))) rs"

abbreviation vr_start :: "vm_region_t \<Rightarrow> nat" where "vr_start r \<equiv> unat (vr_vaddr r)"
abbreviation vr_end :: "vm_region_t \<Rightarrow> nat" where "vr_end r \<equiv> unat (vr_vaddr r) + unat (vr_size r)"

text \<open>Regions from address \<open>lo\<close> on: not empty, whole pages, in order, disjoint, below \<open>VM_END\<close>.\<close>

fun vm_sorted :: "nat \<Rightarrow> vm_region_t list \<Rightarrow> bool" where
  "vm_sorted lo [] \<longleftrightarrow> lo \<le> unat VM_END \<and> lo mod 4096 = 0"
| "vm_sorted lo (r # rs) \<longleftrightarrow> lo \<le> vr_start r \<and> lo mod 4096 = 0 \<and> 0 < unat (vr_size r) \<and> vr_start r mod 4096 = 0
     \<and> vm_sorted (vr_end r) rs"

lemma ptr_simps [simp]: "ptr 0 = None" "ptr a = None \<longleftrightarrow> a = 0" "ptr a = Some b \<longleftrightarrow> a = b \<and> b \<noteq> 0"
  by (auto simp: ptr_def)

lemma vm_sorted_le: "vm_sorted lo rs \<Longrightarrow> lo \<le> unat VM_END \<and> lo mod 4096 = 0"
  by (induction rs arbitrary: lo) fastforce+

lemma vm_sorted_cong:
  "map (\<lambda>y. (vr_vaddr y, vr_size y)) xs = map (\<lambda>y. (vr_vaddr y, vr_size y)) ys \<Longrightarrow> vm_sorted lo xs = vm_sorted lo ys"
proof (induction xs arbitrary: ys lo)
  case Nil
  then show ?case by simp
next
  case (Cons x xs)
  then obtain y zs where ys: "ys = y # zs" "vr_vaddr x = vr_vaddr y" "vr_size x = vr_size y"
    "map (\<lambda>y. (vr_vaddr y, vr_size y)) xs = map (\<lambda>y. (vr_vaddr y, vr_size y)) zs" by (cases ys) simp_all
  show ?case unfolding ys(1) vm_sorted.simps ys(2,3) Cons.IH [OF ys(4)] ..
qed

lemma vm_sorted_append:
  "vm_sorted lo (us @ vs) \<longleftrightarrow> vm_sorted lo us \<and> vm_sorted (if us = [] then lo else vr_end (last us)) vs"
  by (induction us arbitrary: lo) (auto dest: vm_sorted_le)

lemma vm_sorted_bounds: "vm_sorted lo rs \<Longrightarrow> r \<in> set rs \<Longrightarrow> lo \<le> vr_start r \<and> vr_end r \<le> unat VM_END \<and> 0 < unat (vr_size r)"
proof (induction rs arbitrary: lo)
  case Nil
  then show ?case by simp
next
  case (Cons x rs)
  then show ?case using vm_sorted_le [of "vr_end x" rs] by fastforce
qed

lemma vm_sorted_remove: "vm_sorted lo (us @ r # vs) \<Longrightarrow> vm_sorted lo (us @ vs)"
proof -
  have weaken: "vm_sorted lo vs" if "vm_sorted hi vs" "lo \<le> hi" "lo mod 4096 = 0" for lo hi vs
    using that by (cases vs) auto
  assume "vm_sorted lo (us @ r # vs)"
  then show ?thesis unfolding vm_sorted_append using weaken [of "vr_end r" vs] by (auto split: if_splits)
qed

text \<open>\<open>fits lo rs v n\<close>: the addresses \<open>v\<close> to \<open>v + n\<close> lie between \<open>lo\<close> and \<open>VM_END\<close> and touch no region.\<close>

definition fits :: "nat \<Rightarrow> vm_region_t list \<Rightarrow> nat \<Rightarrow> nat \<Rightarrow> bool" where
  "fits lo rs v n \<longleftrightarrow> lo \<le> v \<and> v + n \<le> unat VM_END \<and> (\<forall>r\<in>set rs. v + n \<le> vr_start r \<or> vr_end r \<le> v)"

text \<open>What the search of \<open>process_alloc_vm\<close> computes, on the list of the regions.\<close>

fun vm_gap :: "nat \<Rightarrow> nat \<Rightarrow> vm_region_t list \<Rightarrow> nat \<times> nat" where
  "vm_gap n lo [] = (lo, 0)"
| "vm_gap n lo (r # rs) = (if n \<le> vr_start r - lo then (lo, 0)
     else let (v, i) = vm_gap n (vr_end r) rs in (v, Suc i))"

lemma vm_gap_lowest:
  assumes "vm_sorted lo rs" "0 < n"
  shows "fits lo rs v n \<Longrightarrow> fst (vm_gap n lo rs) \<le> v"
    and "fst (vm_gap n lo rs) + n \<le> unat VM_END \<Longrightarrow> fits lo rs (fst (vm_gap n lo rs)) n"
  using assms
proof (induction rs arbitrary: lo)
  case Nil
  { case 1 then show ?case by (simp add: fits_def) next case 2 then show ?case by (simp add: fits_def) }
next
  case (Cons r rs)
  {
    case 1
    show ?case
    proof (cases "n \<le> vr_start r - lo")
      case True
      then show ?thesis using 1 by (simp add: fits_def)
    next
      case False
      then have "vr_end r \<le> v" using 1 by (auto simp: fits_def)
      then have "fits (vr_end r) rs v n" using 1 by (simp add: fits_def)
      then show ?thesis using False Cons.IH(1) [of "vr_end r"] 1 by (simp add: case_prod_beta)
    qed
  next
    case 2
    show ?case
    proof (cases "n \<le> vr_start r - lo")
      case True
      have "vr_end r \<le> vr_start q" if "q \<in> set rs" for q using vm_sorted_bounds [of "vr_end r" rs q] 2 that by simp
      then show ?thesis using True 2 by (force simp: fits_def)
    next
      case False
      then have "fits (vr_end r) rs (fst (vm_gap n (vr_end r) rs)) n"
        using Cons.IH(2) [of "vr_end r"] 2 by (simp add: case_prod_beta)
      then show ?thesis using False 2 by (simp add: case_prod_beta fits_def)
    qed
  }
qed

lemma vm_gap_insert:
  assumes "vm_sorted lo rs" "0 < n" "n mod 4096 = 0" "vm_gap n lo rs = (v, i)" "v + n \<le> unat VM_END"
    and r: "vr_start r = v" "unat (vr_size r) = n"
  shows "vm_sorted lo (take i rs @ r # drop i rs) \<and> i \<le> length rs \<and> v mod 4096 = 0"
  using assms(1,4)
proof (induction rs arbitrary: lo i)
  case Nil
  then show ?case using assms(2,3,5) r by auto
next
  case (Cons q rs)
  show ?case
  proof (cases "n \<le> vr_start q - lo")
    case True
    then show ?thesis using Cons.prems assms(2,3) r by auto
  next
    case False
    then obtain j where "vm_gap n (vr_end q) rs = (v, j)" "i = Suc j" using Cons.prems(2) by (auto split: prod.splits)
    then show ?thesis using Cons.IH [of "vr_end q" j] Cons.prems(1) by simp
  qed
qed

lemma unat_add_no_wrap: "unat a + unat b < 2 ^ 32 \<Longrightarrow> unat (a + b) = unat a + unat b" for a b :: u32
  by (simp add: unat_add_lem [THEN iffD1])

lemma alloc_vm_loop_spec:
  assumes "is_list (vm_next s) (ptr region) rs" "vm_sorted (unat vmem) (map (vm_regions s) rs)"
    and "vm_gap (unat sz) (unat vmem) (map (vm_regions s) rs) = (v, i)"
  shows "alloc_vm_loop sz vmem prev region s = Some (of_nat v, last (prev # take i rs), hd (drop i rs @ [0]))
    \<and> v \<le> unat VM_END"
  using assms
proof (induction rs arbitrary: region vmem prev i)
  case Nil
  moreover have "(of_nat (unat vmem) :: u32) = vmem" by simp
  ultimately show ?case by (subst alloc_vm_loop.simps) (auto simp del: of_nat_unat)
next
  case (Cons r rs)
  let ?r = "vm_regions s r"
  have reg: "region = r" "r \<noteq> 0" using Cons.prems(1) by auto
  have tl: "is_list (vm_next s) (ptr (vr_next ?r)) rs"
    using Cons.prems(1) by (simp flip: vm_next_def)
  have le: "unat vmem \<le> vr_start ?r" "vm_sorted (vr_end ?r) (map (vm_regions s) rs)" using Cons.prems(2) by auto
  have e: "vr_end ?r \<le> unat VM_END" using vm_sorted_le [OF le(2)] by simp
  have d: "unat (vr_vaddr ?r - vmem) = vr_start ?r - unat vmem"
    using le(1) by (simp add: unat_sub word_le_nat_alt)
  have "unat (vr_vaddr ?r + vr_size ?r) = vr_end ?r" using e by (intro unat_add_no_wrap) simp
  note ends = this
  show ?case
  proof (cases "unat sz \<le> vr_start ?r - unat vmem")
    case True
    then have "sz \<le> vr_vaddr ?r - vmem" by (simp add: word_le_nat_alt d)
    then show ?thesis using Cons.prems(3) True reg e le(1) by (subst alloc_vm_loop.simps) auto
  next
    case False
    then obtain j where j: "vm_gap (unat sz) (vr_end ?r) (map (vm_regions s) rs) = (v, j)" "i = Suc j"
      using Cons.prems(3) by (auto split: prod.splits)
    have "\<not> sz \<le> vr_vaddr ?r - vmem" using False by (simp add: word_le_nat_alt d)
    then have "alloc_vm_loop sz vmem prev region s = alloc_vm_loop sz (vr_vaddr ?r + vr_size ?r) r (vr_next ?r) s"
      using reg by (subst alloc_vm_loop.simps) (simp add: Let_def)
    then show ?thesis
      using Cons.IH [OF tl, of "vr_vaddr ?r + vr_size ?r" j r] le(2) j by (simp add: ends)
  qed
qed

lemma find_vm_loop_spec:
  assumes "is_list (vm_next s) (ptr region) rs"
  shows "find_vm_loop vaddr prev region s =
    (case List.find (\<lambda>r. in_region vaddr (vm_regions s r)) rs of
       None \<Rightarrow> Some (last (prev # rs), 0)
     | Some r \<Rightarrow> Some (last (prev # takeWhile (\<lambda>q. \<not> in_region vaddr (vm_regions s q)) rs), r))"
  using assms
proof (induction rs arbitrary: region prev)
  case Nil
  then show ?case by (subst find_vm_loop.simps) simp
next
  case (Cons r rs)
  then have "region = r" "r \<noteq> 0" "is_list (vm_next s) (ptr (vr_next (vm_regions s r))) rs"
    by (auto simp flip: vm_next_def)
  then show ?case using Cons.IH [of "vr_next (vm_regions s r)" r]
    by (subst find_vm_loop.simps) (auto split: option.splits)
qed

lemma in_region_iff:
  assumes "vr_end r \<le> unat VM_END"
  shows "in_region a r \<longleftrightarrow> vr_start r \<le> unat a \<and> unat a < vr_end r"
proof (cases "vr_vaddr r \<le> a")
  case True
  then have "unat (a - vr_vaddr r) = unat a - vr_start r" by (simp add: unat_sub)
  then show ?thesis using True by (auto simp: in_region_def word_less_nat_alt word_le_nat_alt)
next
  case False
  then show ?thesis by (auto simp: in_region_def word_le_nat_alt)
qed

section \<open>Allocation\<close>

text \<open>The invariant of the regions of process \<open>p\<close>: a sorted list of nodes the ledger assigns to them.\<close>

definition vm_inv :: "ledger_t \<Rightarrow> 'a kern_t_scheme \<Rightarrow> u32 \<Rightarrow> u32 list \<Rightarrow> bool" where
  "vm_inv L s p rs \<longleftrightarrow> vm_list s p rs \<and> vm_sorted (unat VM_START) (map (vm_regions s) rs)
     \<and> (\<forall>r\<in>set rs. held L (ORegion r) r 20)"

lemma is_list_hd: "is_list nx p xs \<Longrightarrow> p = (if xs = [] then None else Some (hd xs))"
  by (cases xs) auto

lemma vm_list_insert:
  assumes l: "vm_list s p (us @ vs)" and r: "r \<notin> set (us @ vs)" "r \<noteq> 0" and us: "0 \<notin> set (us @ vs)"
    and reg: "vm_regions s1 = (vm_regions s)(r := x)" "vr_next x = hd (vs @ [0])"
    and proc: "processes s1 = processes s"
  defines "s' \<equiv> if last (0 # us) \<noteq> 0 then upd_region (last (0 # us)) (\<lambda>r'. r'\<lparr>vr_next := r\<rparr>) s1
                else upd_process p (\<lambda>q. q\<lparr>pr_regions := r\<rparr>) s1"
  shows "vm_list s' p (us @ r # vs)"
proof (cases "us = []")
  case True
  have vs: "is_list (vm_next s) (ptr (pr_regions (processes s p))) vs" using l True by (simp add: vm_list_def)
  have "ptr (vr_next x) = ptr (pr_regions (processes s p))"
    using is_list_hd [OF vs] reg(2) us by (cases vs) auto
  then have n: "vm_next s' = (vm_next s)(r := ptr (pr_regions (processes s p)))"
    using True reg by (auto simp: s'_def vm_next_def upd_process_def fun_eq_iff)
  have h: "ptr (pr_regions (processes s' p)) = Some r" using True r(2) by (simp add: s'_def upd_process_def)
  show ?thesis unfolding vm_list_def h n using is_list_push [OF vs, of r] r(1) True by (simp del: fun_upd_apply)
next
  case False
  then have lin: "last us \<in> set us" by (rule last_in_set)
  have nz: "last us \<noteq> 0"
  proof
    assume "last us = 0"
    then show False using lin us by simp
  qed
  have l': "is_list (vm_next s) (ptr (pr_regions (processes s p))) (us @ vs)" using l by (simp add: vm_list_def)
  have "ptr (vr_next x) = vm_next s (last us)"
    using is_list_hd [OF is_list_split [OF l']] False reg(2) us by (cases vs) auto
  then have n: "vm_next s' = ((vm_next s)(r := vm_next s (last us)))(last us := Some r)"
    using False nz lin reg r by (auto simp: s'_def vm_next_def upd_region_def fun_eq_iff)
  have h: "pr_regions (processes s' p) = pr_regions (processes s p)"
    using False nz proc by (simp add: s'_def upd_region_def)
  show ?thesis unfolding vm_list_def h n by (rule is_list_insert [OF l' False r(1)])
qed

lemma vm_inv_nonnull: "vm_inv L s p rs \<Longrightarrow> 0 \<notin> set rs"
  by (auto simp: vm_inv_def dest: held_nonnull)

lemma kobj_add_ref_core:
  assumes "kobj_core L K C s" "k \<in> K"
  shows "kobj_core L K (C(k := C k + 1)) (kobj_add_ref k s)"
  by (rule kobj_core_update [OF assms(1), where i = "(kobj_insts s k)\<lparr>ki_ref_count := ki_ref_count (kobj_insts s k) + 1\<rparr>"])
    (use assms in \<open>auto simp: kobj_add_ref_def upd_inst_def kobj_core_def\<close>)

lemma kobj_core_heap:
  assumes "kobj_core L K C s" "ledger (L(b \<mapsto> w)) s1" "L b = None" "kobj_insts s1 = kobj_insts s" "fs_files s1 = fs_files s"
    "shared_blocks s1 = shared_blocks s" "fs_pipes s1 = fs_pipes s"
  shows "kobj_core (L(b \<mapsto> w)) K C s1"
proof -
  have "inst_held (L(b \<mapsto> w)) s1 j = inst_held (L(b \<mapsto> w)) s j" "inst_pipe s1 j = inst_pipe s j" for j
    by (rule inst_held_cong inst_pipe_cong; simp add: assms)+
  moreover have "\<forall>j\<in>K. inst_held (L(b \<mapsto> w)) s j" using assms(1,3) by (auto simp: kobj_core_def intro: inst_held_update)
  ultimately show ?thesis using assms unfolding kobj_core_def by (auto simp del: fun_upd_apply)
qed

text \<open>The part of the invariant of handles that does not depend on the reference counts.\<close>

lemma kobj_inv_change_refs:
  assumes inv: "kobj_inv L K M s" and core: "kobj_core L' K' (\<lambda>k. card (handles_of s k) + M' k) s'"
    and proc: "\<And>q. pr_kobj (processes s' q) = pr_kobj (processes s q)" and refs: "kobj_refs s' = kobj_refs s"
    and held: "\<And>x. x \<in> slots s \<Longrightarrow> held L' (ORef (slot_ref s x)) (slot_ref s x) 16 \<and> slot_inst s x \<in> K'"
    and cnt: "\<And>k. k \<in> K' \<Longrightarrow> k \<in> K \<and> ki_handle_count (kobj_insts s' k) = ki_handle_count (kobj_insts s k)"
  shows "kobj_inv L' K' M' s'"
proof -
  have sl: "slots s' = slots s" "slot_ref s' = slot_ref s" by (auto simp: slots_def slot_ref_def proc fun_eq_iff)
  have si: "slot_inst s' = slot_inst s" by (simp add: slot_inst_def sl refs fun_eq_iff)
  have "handles_of s' k = handles_of s k" for k by (simp add: handles_of_def sl si)
  then show ?thesis using inv core held cnt unfolding kobj_inv_def by (auto simp: sl si)
qed

lemma mod_eq_nat_sub: "m \<le> a \<Longrightarrow> a < 2 * m \<Longrightarrow> a mod m = a - m" for a m :: nat
  by (simp add: le_mod_geq)

lemma vm_end_check:
  assumes "unat VM_START \<le> v" "v \<le> unat VM_END" "unat n \<le> 2 ^ 31"
  shows "(of_nat v + n < VM_START \<or> of_nat v + n > VM_END) \<longleftrightarrow> \<not> v + unat n \<le> unat VM_END"
proof -
  have v: "unat (of_nat v :: u32) = v" using assms(2) by (simp add: unat_of_nat_u32)
  show ?thesis
  proof (cases "v + unat n < 2 ^ 32")
    case True
    then have e: "unat (of_nat v + n) = v + unat n" using v by (simp add: unat_add_no_wrap)
    show ?thesis unfolding word_less_nat_alt e using assms(1) by auto
  next
    case False
    have "unat (of_nat v + n) = v + unat n - 2 ^ 32"
      using False assms v by (simp add: unat_word_ariths mod_eq_nat_sub)
    then have "unat (of_nat v + n) < unat VM_START" using False assms(2,3) by simp
    then have "of_nat v + n < VM_START" by (simp add: word_less_nat_alt)
    then show ?thesis using False by auto
  qed
qed

lemma vm_gap_range:
  "vm_sorted lo rs \<Longrightarrow> lo \<le> fst (vm_gap n lo rs) \<and> snd (vm_gap n lo rs) \<le> length rs"
proof (induction rs arbitrary: lo)
  case Nil
  then show ?case by simp
next
  case (Cons r rs)
  then show ?case using Cons.IH [of "vr_end r"] by (fastforce simp: case_prod_beta)
qed

lemma process_alloc_vm_eq:
  assumes vm: "vm_inv L s p rs" and sz: "0 < unat sz" "unat sz \<le> 2 ^ 31 - 4096"
    and gap: "vm_gap (unat (page_align_up sz)) (unat VM_START) (map (vm_regions s) rs) = (v, i)"
  defines "us \<equiv> take i rs" and "vs \<equiv> drop i rs"
  shows "process_alloc_vm p sz fl k s =
    (if \<not> v + unat (page_align_up sz) \<le> unat VM_END then Some (0, s)
     else let (r, s1) = malloc 20 s
          in if r = 0 then Some (0, s1)
             else let s3 = kobj_add_ref k (upd_region r (\<lambda>_. \<lparr>vr_vaddr = of_nat v, vr_inst = k, vr_size = page_align_up sz,
                             vr_flags = fl, vr_next = hd (vs @ [0])\<rparr>) s1)
                  in Some (r, if last (0 # us) \<noteq> 0 then upd_region (last (0 # us)) (\<lambda>r'. r'\<lparr>vr_next := r\<rparr>) s3
                              else upd_process p (\<lambda>q. q\<lparr>pr_regions := r\<rparr>) s3))"
proof -
  let ?n = "page_align_up sz"
  have srt: "vm_sorted (unat VM_START) (map (vm_regions s) rs)" and
    l: "is_list (vm_next s) (ptr (pr_regions (processes s p))) rs"
    using vm by (auto simp: vm_inv_def vm_list_def)
  have loop: "alloc_vm_loop ?n VM_START 0 (pr_regions (processes s p)) s = Some (of_nat v, last (0 # us), hd (vs @ [0]))"
    "v \<le> unat VM_END"
    using alloc_vm_loop_spec [OF l srt gap] by (simp_all add: us_def vs_def)
  have n: "unat ?n \<le> 2 ^ 31"
    using sz unat_page_align_up [of sz] by simp
  have lo: "unat VM_START \<le> v" using vm_gap_range [OF srt, of "unat ?n"] gap by simp
  have "sz \<noteq> 0" using sz(1) by auto
  then show ?thesis
    unfolding process_alloc_vm_def Let_def loop(1) option.case prod.case vm_end_check [OF lo loop(2) n] by simp
qed

lemma alloc_region_inv:
  assumes vm: "vm_inv L s p (us @ vs)" and inv: "kobj_inv L K M s" and k: "k \<in> K"
    and m: "malloc 20 s = (r, s1)" "r \<noteq> 0"
    and x: "vr_inst x = k" "vr_next x = hd (vs @ [0])"
    and srt: "vm_sorted (unat VM_START) (map (vm_regions s) us @ x # map (vm_regions s) vs)"
  defines "s3 \<equiv> kobj_add_ref k (upd_region r (\<lambda>_. x) s1)"
  defines "s' \<equiv> if last (0 # us) \<noteq> 0 then upd_region (last (0 # us)) (\<lambda>r'. r'\<lparr>vr_next := r\<rparr>) s3
                else upd_process p (\<lambda>q. q\<lparr>pr_regions := r\<rparr>) s3"
  obtains b where "L b = None" "vm_inv (L(b \<mapsto> ORegion r)) s' p (us @ r # vs)"
    "kobj_inv (L(b \<mapsto> ORegion r)) K (M(k := M k + 1)) s'" "r \<notin> set (us @ vs)"
    "vr_vaddr (vm_regions s' r) = vr_vaddr x" "vr_size (vm_regions s' r) = vr_size x" "vr_inst (vm_regions s' r) = k"
    "vr_flags (vm_regions s' r) = vr_flags x"
proof -
  have core: "kobj_core L K (\<lambda>k. card (handles_of s k) + M k) s" using inv by (simp add: kobj_inv_def)
  then have led: "ledger L s" by (simp add: kobj_core_def)
  obtain b where b: "L b = None" "ledger (L(b \<mapsto> ORegion r)) s1" "held (L(b \<mapsto> ORegion r)) (ORegion r) r 20" "r = block_addr b" "b < 8192"
    using ledger_malloc [OF led m, where w = "ORegion r"] by auto
  have s1: "kobj_insts s1 = kobj_insts s" "vm_regions s1 = vm_regions s" "processes s1 = processes s" "kobj_refs s1 = kobj_refs s"
    "fs_files s1 = fs_files s" "shared_blocks s1 = shared_blocks s" "fs_pipes s1 = fs_pipes s"
    using malloc_kern_fields [of 20 s] m(1) by simp_all
  have fresh: "r \<notin> set (us @ vs)"
  proof
    assume "r \<in> set (us @ vs)"
    then have "held L (ORegion r) r 20" using vm by (auto simp: vm_inv_def)
    then obtain c where "r = block_addr c" "c + nblocks 20 \<le> 8192" "\<forall>d\<in>obj_blocks c 20. L d = Some (ORegion r)"
      unfolding held_def by blast
    moreover have "nblocks 20 = 1" by (simp add: nblocks_def)
    ultimately show False using b block_addr_inj [of b c] by (auto simp: obj_blocks_def)
  qed
  have c1: "kobj_core (L(b \<mapsto> ORegion r)) K (\<lambda>k. card (handles_of s k) + M k) (upd_region r (\<lambda>_. x) s1)"
    by (rule kobj_core_heap [OF core _ b(1)]) (use b(2) s1 in \<open>simp_all add: upd_region_def ledger_def heap_inv_def\<close>)
  note c3 = kobj_add_ref_core [OF c1 k, folded s3_def]
  have eqs: "kobj_insts s' = kobj_insts s3" "heap_head s' = heap_head s3" "memory_status s' = memory_status s3"
    "fs_files s' = fs_files s3" "shared_blocks s' = shared_blocks s3" "fs_pipes s' = fs_pipes s3" "kobj_refs s' = kobj_refs s3"
    "\<And>q. pr_kobj (processes s' q) = pr_kobj (processes s3 q)"
    by (simp_all add: s'_def upd_region_def upd_process_def)
  have s3: "processes s3 = processes s" "kobj_refs s3 = kobj_refs s" "vm_regions s3 = (vm_regions s)(r := x)"
    "\<And>j. ki_handle_count (kobj_insts s3 j) = ki_handle_count (kobj_insts s j)"
    using s1 by (simp_all add: s3_def kobj_add_ref_def upd_inst_def upd_region_def)
  have "kobj_core (L(b \<mapsto> ORegion r)) K (\<lambda>j. card (handles_of s j) + (M(k := M k + 1)) j) s'"
    unfolding kobj_core_cong [OF eqs(1-6)] using c3 by (subst kobj_core_C_cong) auto
  then have "kobj_inv (L(b \<mapsto> ORegion r)) K (M(k := M k + 1)) s'"
    by (rule kobj_inv_change_refs [OF inv])
      (use inv eqs(7,8) s3 in \<open>auto simp: kobj_inv_def eqs(1) intro: held_update b(1)\<close>)
  moreover have "vm_inv (L(b \<mapsto> ORegion r)) s' p (us @ r # vs)"
  proof -
    have "vm_list s' p (us @ r # vs)" unfolding s'_def
      by (rule vm_list_insert [OF _ fresh m(2) _ s3(3) x(2) s3(1)]) (use vm vm_inv_nonnull [OF vm] in \<open>auto simp: vm_inv_def\<close>)
    moreover have "map (\<lambda>y. (vr_vaddr y, vr_size y)) (map (vm_regions s') (us @ r # vs))
        = map (\<lambda>y. (vr_vaddr y, vr_size y)) (map (vm_regions s) us @ x # map (vm_regions s) vs)"
      using fresh s3(3) by (auto simp: s'_def upd_region_def upd_process_def)
    from vm_sorted_cong [OF this] srt have "vm_sorted (unat VM_START) (map (vm_regions s') (us @ r # vs))" by blast
    ultimately show ?thesis
      using vm b(3) by (auto simp: vm_inv_def simp del: fun_upd_apply intro: held_update b(1))
  qed
  moreover have "vr_vaddr (vm_regions s' r) = vr_vaddr x" "vr_size (vm_regions s' r) = vr_size x" "vr_inst (vm_regions s' r) = k"
    "vr_flags (vm_regions s' r) = vr_flags x"
    using s3(3) x(1) by (simp_all add: s'_def upd_region_def upd_process_def)
  ultimately show thesis using that b(1) fresh by blast
qed

text \<open>
  C21: \<open>process_alloc_vm\<close> is first fit. On a process whose regions are in order it always returns:
  a new region at the lowest address between \<open>VM_START\<close> and \<open>VM_END\<close> at which the size,
  rounded up to pages, fits between the others, with one more reference to the object; the regions stay
  sorted and disjoint, and all reference counts stay exact. It returns NULL, with nothing changed, only when
  no such address exists or the heap is full.
\<close>

theorem process_alloc_vm_first_fit:
  assumes "vm_inv L s p rs" and "kobj_inv L K M s" and "k \<in> K" and "0 < unat sz" and "unat sz \<le> 2 ^ 31 - 4096"
  shows "\<exists>r s'. process_alloc_vm p sz fl k s = Some (r, s')
    \<and> (let n = (unat sz + 4095) div 4096 * 4096; R = map (vm_regions s) rs; v = unat (vr_vaddr (vm_regions s' r))
       in if r = 0 then s' = s \<and> ((\<nexists>a. fits (unat VM_START) R a n) \<or> fst (malloc 20 s) = 0)
          else fits (unat VM_START) R v n \<and> (\<forall>a. fits (unat VM_START) R a n \<longrightarrow> v \<le> a)
            \<and> unat (vr_size (vm_regions s' r)) = n \<and> vr_inst (vm_regions s' r) = k \<and> vr_flags (vm_regions s' r) = fl
            \<and> (\<exists>us vs b. rs = us @ vs \<and> L b = None \<and> vm_inv (L(b \<mapsto> ORegion r)) s' p (us @ r # vs)
                 \<and> kobj_inv (L(b \<mapsto> ORegion r)) K (M(k := M k + 1)) s'))"
proof -
  define n R where "n = (unat sz + 4095) div 4096 * 4096" and "R = map (vm_regions s) rs"
  have n: "unat (page_align_up sz) = n" "0 < n" "n mod 4096 = 0"
    using assms(4,5) unat_page_align_up [of sz] by (auto simp: n_def)
  have srt: "vm_sorted (unat VM_START) R" using assms(1) by (simp add: vm_inv_def R_def)
  obtain v i where gap: "vm_gap n (unat VM_START) R = (v, i)" by fastforce
  define us vs where "us = take i rs" and "vs = drop i rs"
  have low: "fits (unat VM_START) R a n \<Longrightarrow> v \<le> a" for a
    using vm_gap_lowest(1) [OF srt n(2), of a] gap by simp
  have eq: "process_alloc_vm p sz fl k s =
    (if \<not> v + n \<le> unat VM_END then Some (0, s)
     else let (r, s1) = malloc 20 s
          in if r = 0 then Some (0, s1)
             else let s3 = kobj_add_ref k (upd_region r (\<lambda>_. \<lparr>vr_vaddr = of_nat v, vr_inst = k, vr_size = page_align_up sz,
                             vr_flags = fl, vr_next = hd (vs @ [0])\<rparr>) s1)
                  in Some (r, if last (0 # us) \<noteq> 0 then upd_region (last (0 # us)) (\<lambda>r'. r'\<lparr>vr_next := r\<rparr>) s3
                              else upd_process p (\<lambda>q. q\<lparr>pr_regions := r\<rparr>) s3))"
    unfolding us_def vs_def n(1) [symmetric] by (rule process_alloc_vm_eq [OF assms(1,4,5)]) (use gap n(1) in \<open>simp add: R_def\<close>)
  obtain r s1 where m: "malloc 20 s = (r, s1)" by fastforce
  consider (full) "\<not> v + n \<le> unat VM_END" | (nomem) "v + n \<le> unat VM_END" "r = 0" | (ok) "v + n \<le> unat VM_END" "r \<noteq> 0" by blast
  then show ?thesis
  proof cases
    case full
    have "\<not> fits (unat VM_START) R a n" for a using full low [of a] by (auto simp: fits_def)
    then show ?thesis using full eq by (simp add: n_def R_def)
  next
    case nomem
    have "heap_inv s" using assms(2) by (simp add: kobj_inv_def kobj_core_def ledger_def)
    then have "s1 = s" using m nomem kheap.alloc_fail [of s 20] by (simp add: valid_size_def)
    then show ?thesis using nomem eq m by simp
  next
    case ok
    have v: "unat (of_nat v :: u32) = v" using ok(1) by (simp add: unat_of_nat_u32)
    define x where "x = \<lparr>vr_vaddr = of_nat v, vr_inst = k, vr_size = page_align_up sz, vr_flags = fl, vr_next = hd (vs @ [0])\<rparr>"
    have ins: "vm_sorted (unat VM_START) (map (vm_regions s) us @ x # map (vm_regions s) vs)"
      using vm_gap_insert [OF srt n(2,3) gap ok(1), of x] v n(1) by (simp add: x_def us_def vs_def R_def take_map drop_map)
    have rs: "rs = us @ vs" by (simp add: us_def vs_def)
    define s' where "s' = snd (the (process_alloc_vm p sz fl k s))"
    have s': "s' = (let s3 = kobj_add_ref k (upd_region r (\<lambda>_. x) s1)
        in if last (0 # us) \<noteq> 0 then upd_region (last (0 # us)) (\<lambda>r'. r'\<lparr>vr_next := r\<rparr>) s3
           else upd_process p (\<lambda>q. q\<lparr>pr_regions := r\<rparr>) s3)" and ret: "process_alloc_vm p sz fl k s = Some (r, s')"
      using eq ok m by (simp_all add: s'_def x_def Let_def)
    obtain b where b: "L b = None" "vm_inv (L(b \<mapsto> ORegion r)) s' p (us @ r # vs)"
      "kobj_inv (L(b \<mapsto> ORegion r)) K (M(k := M k + 1)) s'"
      "vr_vaddr (vm_regions s' r) = vr_vaddr x" "vr_size (vm_regions s' r) = vr_size x" "vr_inst (vm_regions s' r) = k"
      "vr_flags (vm_regions s' r) = vr_flags x"
      using alloc_region_inv [OF assms(1) [unfolded rs] assms(2,3) m ok(2) _ _ ins] unfolding s' Let_def by (auto simp: x_def)
    have "fits (unat VM_START) R v n" using vm_gap_lowest(2) [OF srt n(2)] gap ok(1) by simp
    then show ?thesis
      using ret ok(2) b low rs v n(1) unfolding Let_def n_def [symmetric] R_def [symmetric] by (auto simp: x_def)
  qed
qed

lemma no_regions: "vm_inv L one_inst p []"
  by (simp add: vm_inv_def vm_list_def one_inst_fields zero_process_def)

theorem process_alloc_vm_first_fit_witness:
  "\<exists>r s'. process_alloc_vm 0x2000 5000 1 0x1060000 one_inst = Some (r, s') \<and> r \<noteq> 0 \<and> vr_vaddr (vm_regions s' r) = VM_START"
proof -
  have sz: "0 < unat (5000 :: u32)" "unat (5000 :: u32) \<le> 2 ^ 31 - 4096" by simp_all
  have nb: "size_blocks 20 = 1" by (simp add: size_blocks_def s32_def)
  have mem: "fst (malloc 20 one_inst) \<noteq> 0"
    by (simp add: malloc_def nb one_inst_eq boot_kern_def malloc_search.simps)
  have room: "fits (unat VM_START) [] (unat VM_START) 8192" by (simp add: fits_def)
  have "(unat (5000 :: u32) + 4095) div 4096 * 4096 = 8192" by simp
  note F = process_alloc_vm_first_fit [OF no_regions one_inst_inv insertI1 sz, of "0x2000" 1, unfolded this Let_def list.map]
  obtain r s' where rs: "process_alloc_vm 0x2000 5000 1 0x1060000 one_inst = Some (r, s')"
    "if r = 0 then s' = one_inst \<and> ((\<nexists>a. fits (unat VM_START) [] a 8192) \<or> fst (malloc 20 one_inst) = 0)
     else fits (unat VM_START) [] (unat (vr_vaddr (vm_regions s' r))) 8192
       \<and> (\<forall>a. fits (unat VM_START) [] a 8192 \<longrightarrow> unat (vr_vaddr (vm_regions s' r)) \<le> a)"
    using F by (auto split: if_splits)
  then have r: "r \<noteq> 0" using mem room by auto
  then have "unat (vr_vaddr (vm_regions s' r)) = unat VM_START" using rs(2) room by (auto simp: fits_def)
  then have "vr_vaddr (vm_regions s' r) = VM_START" by (simp only: word_unat_eq_iff)
  then show ?thesis using rs(1) r by blast
qed

section \<open>Unmapping\<close>

lemma unmap_kern_fields:
  fixes s :: "'a kern_t_scheme"
  shows "kobj_insts (snd (unmap d v s)) = kobj_insts s" "kobj_refs (snd (unmap d v s)) = kobj_refs s"
    "vm_regions (snd (unmap d v s)) = vm_regions s" "processes (snd (unmap d v s)) = processes s"
    "fs_files (snd (unmap d v s)) = fs_files s" "fs_pipes (snd (unmap d v s)) = fs_pipes s"
    "shared_blocks (snd (unmap d v s)) = shared_blocks s" "heap_head (snd (unmap d v s)) = heap_head s"
    "memory_status (snd (unmap d v s)) = memory_status s"
  by (simp_all add: unmap_def Let_def set_pte_def invlpg_def)

lemma unmap_loop_kern_fields:
  fixes s :: "'a kern_t_scheme"
  shows "kobj_insts (snd (unmap_loop d vs n s)) = kobj_insts s \<and> kobj_refs (snd (unmap_loop d vs n s)) = kobj_refs s
    \<and> vm_regions (snd (unmap_loop d vs n s)) = vm_regions s \<and> processes (snd (unmap_loop d vs n s)) = processes s
    \<and> fs_files (snd (unmap_loop d vs n s)) = fs_files s \<and> fs_pipes (snd (unmap_loop d vs n s)) = fs_pipes s
    \<and> shared_blocks (snd (unmap_loop d vs n s)) = shared_blocks s \<and> heap_head (snd (unmap_loop d vs n s)) = heap_head s
    \<and> memory_status (snd (unmap_loop d vs n s)) = memory_status s"
proof (induction vs arbitrary: n s)
  case Nil
  then show ?case by simp
next
  case (Cons v vs)
  show ?case
    using Cons.IH [of "n + 1" "snd (unmap d v s)"] Cons.IH [of n "snd (unmap d v s)"] unmap_kern_fields [of d v s]
    by (cases "unmap d v s") (auto split: bool.splits)
qed

lemma unmap_size_kern_fields [simp]:
  fixes s :: "'a kern_t_scheme"
  shows "kobj_insts (snd (unmap_size d v n s)) = kobj_insts s" "kobj_refs (snd (unmap_size d v n s)) = kobj_refs s"
    "vm_regions (snd (unmap_size d v n s)) = vm_regions s" "processes (snd (unmap_size d v n s)) = processes s"
    "fs_files (snd (unmap_size d v n s)) = fs_files s" "fs_pipes (snd (unmap_size d v n s)) = fs_pipes s"
    "shared_blocks (snd (unmap_size d v n s)) = shared_blocks s" "heap_head (snd (unmap_size d v n s)) = heap_head s"
    "memory_status (snd (unmap_size d v n s)) = memory_status s"
  using unmap_loop_kern_fields by (auto simp: unmap_size_def Let_def)

lemma vm_list_remove:
  assumes l: "vm_list s p (us @ r # vs)" and us: "0 \<notin> set us"
    and reg: "vm_regions s1 = vm_regions s" and proc: "pr_regions (processes s1 p) = pr_regions (processes s p)"
  defines "s' \<equiv> if last (0 # us) \<noteq> 0 then upd_region (last (0 # us)) (\<lambda>q. q\<lparr>vr_next := vr_next (vm_regions s1 r)\<rparr>) s1
                else upd_process p (\<lambda>q. q\<lparr>pr_regions := vr_next (vm_regions s1 r)\<rparr>) s1"
  shows "vm_list s' p (us @ vs)"
proof (cases "us = []")
  case True
  have "vm_next s' = vm_next s" "ptr (pr_regions (processes s' p)) = vm_next s r"
    using True reg by (auto simp: s'_def vm_next_def upd_process_def fun_eq_iff)
  then show ?thesis using l True by (simp add: vm_list_def)
next
  case False
  then have lin: "last us \<in> set us" by (rule last_in_set)
  then have nz: "last us \<noteq> 0" using us by auto
  have n: "vm_next s' = (vm_next s)(last us := vm_next s r)" and h: "pr_regions (processes s' p) = pr_regions (processes s p)"
    using False nz reg proc by (auto simp: s'_def vm_next_def upd_region_def fun_eq_iff)
  show ?thesis using is_list_unlink [OF _ False] l unfolding vm_list_def h n by blast
qed

lemma find_split:
  "List.find P xs = Some x \<Longrightarrow> \<exists>ys zs. xs = ys @ x # zs \<and> P x \<and> takeWhile (\<lambda>y. \<not> P y) xs = ys"
  by (induction xs) (auto split: if_splits)

lemma release_mapping_inv:
  assumes inv: "kobj_inv L K M s" and k: "k \<in> K" "0 < M k"
  defines "W \<equiv> if refs_to M s k = 1 then inst_owners s k else {}"
    and "K' \<equiv> if refs_to M s k = 1 then K - {k} else K"
  shows "kobj_inv (drop_owners W L) K' (M(k := M k - 1)) (kobj_release_ref k s)"
proof -
  define C where "C = refs_to M s"
  have core: "kobj_core L K C s" using inv by (simp add: kobj_inv_def C_def refs_to_def [abs_def])
  have pos: "0 < C k" using k(2) by (simp add: C_def refs_to_def)
  note rc = release_ref_core [OF core k(1) pos]
  have W: "released k C s = W" by (simp add: released_def W_def C_def)
  have fin: "finite (handles_of s j)" for j using inv by (auto simp: kobj_inv_def handles_of_def intro: finite_subset)
  have empty: "handles_of s k = {}" if "C k = 1"
  proof -
    have "card (handles_of s k) = 0" using that k(2) by (simp add: C_def refs_to_def)
    then show ?thesis using fin [of k] by simp
  qed
  show ?thesis
  proof (rule kobj_inv_change_refs [OF inv])
    show "kobj_core (drop_owners W L) K' (\<lambda>j. card (handles_of s j) + (M(k := M k - 1)) j) (kobj_release_ref k s)"
      using rc(1) k(2) unfolding W K'_def C_def [symmetric]
      by (subst kobj_core_C_cong [where C = "C(k := C k - 1)"]) (auto simp: C_def refs_to_def [abs_def])
    show "held (drop_owners W L) (ORef (slot_ref s x)) (slot_ref s x) 16 \<and> slot_inst s x \<in> K'" if x: "x \<in> slots s" for x
    proof -
      have "x \<in> handles_of s (slot_inst s x)" using x by (simp add: handles_of_def)
      then have "slot_inst s x \<noteq> k" if "C k = 1" using empty [OF that] by auto
      then show ?thesis using inv x by (auto simp: kobj_inv_def W_def K'_def C_def inst_owners_def intro!: drop_owners_held)
    qed
    show "j \<in> K \<and> ki_handle_count (kobj_insts (kobj_release_ref k s) j) = ki_handle_count (kobj_insts s j)" if "j \<in> K'" for j
      using that rc(2) by (cases "j = k") (auto simp: K'_def C_def split: if_splits)
  qed simp_all
qed

lemma free_region_inv:
  assumes inv: "kobj_inv L K M s" and r: "held L (ORegion r) r 20"
    and same: "kobj_insts s' = kobj_insts s" "heap_head s' = heap_head s" "memory_status s' = memory_status s"
      "fs_files s' = fs_files s" "shared_blocks s' = shared_blocks s" "fs_pipes s' = fs_pipes s" "kobj_refs s' = kobj_refs s"
      "\<And>q. pr_kobj (processes s' q) = pr_kobj (processes s q)"
  shows "kobj_inv (drop_owners {ORegion r} L) K M (free r 20 s')"
proof (rule kobj_inv_change_refs [OF inv])
  have core: "kobj_core L K (\<lambda>k. card (handles_of s k) + M k) s'"
    using inv kobj_core_cong [OF same(1-6)] by (simp add: kobj_inv_def)
  have led: "ledger (drop_owners {ORegion r} L) (free r 20 s')"
    by (rule ledger_free [OF ledger_drop r]) (use core in \<open>auto simp: kobj_core_def\<close>)
  have "inst_held (drop_owners {ORegion r} L) (free r 20 s') k = inst_held (drop_owners {ORegion r} L) s' k"
    "inst_pipe (free r 20 s') k = inst_pipe s' k" for k
    by (rule inst_held_cong inst_pipe_cong; simp)+
  then show "kobj_core (drop_owners {ORegion r} L) K (\<lambda>k. card (handles_of s k) + M k) (free r 20 s')"
    using core led unfolding kobj_core_def by (auto intro: inst_held_drop)
qed (use inv same in \<open>auto simp: kobj_inv_def intro: drop_owners_held\<close>)


text \<open>The instance of the example, mapped at \<open>VM_START\<close>.\<close>

definition one_region :: kern_t where
  "one_region = upd_process 0x2000 (\<lambda>q. q\<lparr>pr_regions := fst (malloc 20 one_inst)\<rparr>)
     (kobj_add_ref 0x1060000 (upd_region (fst (malloc 20 one_inst))
       (\<lambda>_. \<lparr>vr_vaddr = VM_START, vr_inst = 0x1060000, vr_size = 8192, vr_flags = 1, vr_next = 0\<rparr>) (snd (malloc 20 one_inst))))"

lemma one_region_inv:
  "\<exists>L r. vm_inv L one_region 0x2000 [r] \<and> kobj_inv L {0x1060000} ((\<lambda>_. 0)(0x1060000 := 1)) one_region
     \<and> vr_vaddr (vm_regions one_region r) = VM_START \<and> vr_size (vm_regions one_region r) = 8192
     \<and> vr_inst (vm_regions one_region r) = 0x1060000"
proof -
  obtain r s1 where m: "malloc 20 one_inst = (r, s1)" by fastforce
  have nb: "size_blocks 20 = 1" by (simp add: size_blocks_def s32_def)
  have "fst (malloc 20 one_inst) \<noteq> 0"
    by (simp add: malloc_def nb one_inst_eq boot_kern_def malloc_search.simps)
  then have r: "r \<noteq> 0" using m by simp
  let ?x = "\<lparr>vr_vaddr = VM_START, vr_inst = 0x1060000, vr_size = 8192, vr_flags = 1, vr_next = 0\<rparr>"
  have srt: "vm_sorted (unat VM_START) (map (vm_regions one_inst) [] @ ?x # map (vm_regions one_inst) [])" by simp
  have nr: "vm_inv ((\<lambda>_. None)(0 \<mapsto> OInst 0x1060000)) one_inst 0x2000 ([] @ [])" using no_regions by simp
  show ?thesis
    by (rule alloc_region_inv [OF nr one_inst_inv insertI1 m r _ _ srt])
      (simp_all add: one_region_def m, blast)
qed


end
