(* ===== verification/Cstring.thy ===== *)
theory Cstring
  imports Prelude
begin

text \<open>
  The string library \<^verbatim>\<open>src/lib/string.c\<close>, linked into the kernel and every program. Memory is a
  function from addresses to bytes and pointers are 32-bit words, so that overlapping arguments behave as
  in C. A loop that scans for a terminator may not end (\<^const>\<open>None\<close>); \<open>cstr m p xs\<close> says that
  memory \<open>m\<close> holds the string \<open>xs\<close> at \<open>p\<close>, and on such arguments every scan ends.
  Indices and lengths are natural numbers below \<open>2 ^ 31\<close>; a null pointer is address 0.
\<close>

type_synonym mem_t = "u32 \<Rightarrow> u8"

section \<open>Model\<close>

definition at :: "u32 \<Rightarrow> nat \<Rightarrow> u32" where
  "at p i = p + of_nat i"

subsection \<open>Lengths and copies\<close>

partial_function (option) strlen_loop :: "mem_t \<Rightarrow> u32 \<Rightarrow> nat \<Rightarrow> nat option" where
  "strlen_loop m str len = (if m (at str len) \<noteq> 0 then strlen_loop m str (len + 1) else Some len)"

definition strlen :: "mem_t \<Rightarrow> u32 \<Rightarrow> nat option" where
  "strlen m str = strlen_loop m str 0"

text \<open>Bounded loops count down what is left of their bound.\<close>

fun strnlen_loop :: "mem_t \<Rightarrow> u32 \<Rightarrow> nat \<Rightarrow> nat \<Rightarrow> nat" where
  "strnlen_loop m str 0 len = len"
| "strnlen_loop m str (Suc n) len = (if m (at str len) \<noteq> 0 then strnlen_loop m str n (len + 1) else len)"

definition strnlen :: "mem_t \<Rightarrow> u32 \<Rightarrow> int \<Rightarrow> nat" where
  "strnlen m str maxlen = strnlen_loop m str (nat maxlen) 0"

partial_function (option) strcpy_loop :: "u32 \<Rightarrow> u32 \<Rightarrow> nat \<Rightarrow> mem_t \<Rightarrow> mem_t option" where
  "strcpy_loop dest src i m =
     (if m (at src i) \<noteq> 0 then strcpy_loop dest src (i + 1) (m(at dest i := m (at src i)))
      else Some (m(at dest i := 0)))"

definition strcpy :: "u32 \<Rightarrow> u32 \<Rightarrow> mem_t \<Rightarrow> mem_t option" where
  "strcpy dest src m = strcpy_loop dest src 0 m"

fun strncpy_loop :: "u32 \<Rightarrow> u32 \<Rightarrow> nat \<Rightarrow> nat \<Rightarrow> mem_t \<Rightarrow> mem_t" where
  "strncpy_loop dest src 0 i m = m(at dest i := 0)"
| "strncpy_loop dest src (Suc n) i m =
     (if m (at src i) \<noteq> 0 then strncpy_loop dest src n (i + 1) (m(at dest i := m (at src i)))
      else m(at dest i := 0))"

definition strncpy :: "u32 \<Rightarrow> u32 \<Rightarrow> nat \<Rightarrow> mem_t \<Rightarrow> mem_t" where
  "strncpy dest src sz m = strncpy_loop dest src sz 0 m"

definition memcpy :: "u32 \<Rightarrow> u32 \<Rightarrow> int \<Rightarrow> mem_t \<Rightarrow> mem_t" where
  "memcpy dest src bytes m = fold (\<lambda>i m. m(at dest i := m (at src i))) [0..<nat bytes] m"

definition strcpy_fixed :: "u32 \<Rightarrow> u32 \<Rightarrow> int \<Rightarrow> mem_t \<Rightarrow> mem_t" where
  "strcpy_fixed dest src len m =
     (fold (\<lambda>i m. m(at dest i := m (at src i))) [0..<nat len] m)(dest + of_int len := 0)"

subsection \<open>Searching and splitting\<close>

text \<open>\<open>strsplit\<close>: the part before the separator, then the part after it.\<close>

partial_function (option) strsplit_head :: "u32 \<Rightarrow> u32 \<Rightarrow> u8 \<Rightarrow> nat \<Rightarrow> mem_t \<Rightarrow> (bool \<times> nat \<times> mem_t) option" where
  "strsplit_head dest1 src splitat i m =
     (if m (at src i) \<noteq> splitat then
        if m (at src i) = 0 then Some (False, i, if dest1 \<noteq> 0 then m(at dest1 i := 0) else m)
        else strsplit_head dest1 src splitat (i + 1) (if dest1 \<noteq> 0 then m(at dest1 i := m (at src i)) else m)
      else Some (True, i, if dest1 \<noteq> 0 then m(at dest1 i := 0) else m))"

partial_function (option) strsplit_tail :: "u32 \<Rightarrow> u32 \<Rightarrow> nat \<Rightarrow> nat \<Rightarrow> mem_t \<Rightarrow> mem_t option" where
  "strsplit_tail dest2 src start i m =
     (if m (at src i) \<noteq> 0 then
        strsplit_tail dest2 src start (i + 1) (if dest2 \<noteq> 0 then m(at dest2 (i - start) := m (at src i)) else m)
      else Some (if dest2 \<noteq> 0 then m(at dest2 (i - start) := 0) else m))"

definition strsplit :: "u32 \<Rightarrow> u32 \<Rightarrow> u32 \<Rightarrow> u8 \<Rightarrow> mem_t \<Rightarrow> (bool \<times> mem_t) option" where
  "strsplit dest1 dest2 src splitat m =
     (case strsplit_head dest1 src splitat 0 m of
        None \<Rightarrow> None
      | Some (False, i, m1) \<Rightarrow> Some (False, if dest2 \<noteq> 0 then m1(dest2 := 0) else m1)
      | Some (True, i, m1) \<Rightarrow> map_option (Pair True) (strsplit_tail dest2 src (i + 1) (i + 1) m1))"

definition last_index :: "mem_t \<Rightarrow> u32 \<Rightarrow> u8 \<Rightarrow> nat \<Rightarrow> nat option" where
  "last_index m src c len = fold (\<lambda>i found. if m (at src i) = c then Some i else found) [0..<len] None"

definition strsplit_last :: "u32 \<Rightarrow> u32 \<Rightarrow> u32 \<Rightarrow> u8 \<Rightarrow> mem_t \<Rightarrow> (bool \<times> mem_t) option" where
  "strsplit_last dest1 dest2 src splitat m =
     (case strlen m src of
        None \<Rightarrow> None
      | Some len \<Rightarrow>
          case last_index m src splitat len of
            None \<Rightarrow>
              (case (if dest1 \<noteq> 0 then strcpy dest1 src m else Some m) of
                 None \<Rightarrow> None
               | Some m1 \<Rightarrow> Some (False, if dest2 \<noteq> 0 then m1(dest2 := 0) else m1))
          | Some i \<Rightarrow>
              let m1 = (if dest1 \<noteq> 0 then strcpy_fixed dest1 src (int i) m else m);
                  m2 = (if dest2 \<noteq> 0 then strcpy_fixed dest2 (at src (i + 1)) (int len - (int i + 1)) m1 else m1)
              in Some (True, m2))"

partial_function (option) strstartswith_loop :: "mem_t \<Rightarrow> u32 \<Rightarrow> u32 \<Rightarrow> nat \<Rightarrow> bool option" where
  "strstartswith_loop m src startswith i =
     (if m (at startswith i) \<noteq> 0 then
        if m (at src i) \<noteq> m (at startswith i) then Some False
        else strstartswith_loop m src startswith (i + 1)
      else Some True)"

definition strstartswith :: "mem_t \<Rightarrow> u32 \<Rightarrow> u32 \<Rightarrow> bool option" where
  "strstartswith m src startswith = strstartswith_loop m src startswith 0"

definition strequ :: "mem_t \<Rightarrow> u32 \<Rightarrow> u32 \<Rightarrow> bool option" where
  "strequ m str1 str2 =
     (case strlen m str1 of
        None \<Rightarrow> None
      | Some len \<Rightarrow>
          case strlen m str2 of
            None \<Rightarrow> None
          | Some len2 \<Rightarrow>
              if len \<noteq> len2 then Some False
              else Some (list_all (\<lambda>i. m (at str1 i) = m (at str2 i)) [0..<len]))"

definition strendswith :: "mem_t \<Rightarrow> u32 \<Rightarrow> u32 \<Rightarrow> bool option" where
  "strendswith m src endswith =
     (case strlen m src of
        None \<Rightarrow> None
      | Some src_len \<Rightarrow>
          case strlen m endswith of
            None \<Rightarrow> None
          | Some end_len \<Rightarrow>
              if end_len > src_len then Some False else strequ m (at src (src_len - end_len)) endswith)"

partial_function (option) strchr :: "mem_t \<Rightarrow> u32 \<Rightarrow> u8 \<Rightarrow> u32 option" where
  "strchr m str c = (if m str \<noteq> 0 then if m str = c then Some str else strchr m (str + 1) c else Some 0)"

partial_function (option) strrchr_loop :: "mem_t \<Rightarrow> u32 \<Rightarrow> u8 \<Rightarrow> u32 \<Rightarrow> u32 option" where
  "strrchr_loop m str c found =
     (if m str \<noteq> 0 then strrchr_loop m (str + 1) c (if m str = c then str else found) else Some found)"

definition strrchr :: "mem_t \<Rightarrow> u32 \<Rightarrow> u8 \<Rightarrow> u32 option" where
  "strrchr m str c = strrchr_loop m str c 0"

partial_function (option) strstr_match :: "mem_t \<Rightarrow> u32 \<Rightarrow> u32 \<Rightarrow> bool option" where
  "strstr_match m h n = (if m h \<noteq> 0 \<and> m n \<noteq> 0 \<and> m h = m n then strstr_match m (h + 1) (n + 1) else Some (m n = 0))"

partial_function (option) strstr_loop :: "mem_t \<Rightarrow> u32 \<Rightarrow> u32 \<Rightarrow> u32 option" where
  "strstr_loop m haystack needle =
     (if m haystack \<noteq> 0 then
        if m haystack = m needle then
          (case strstr_match m haystack needle of
             None \<Rightarrow> None
           | Some found \<Rightarrow> if found then Some haystack else strstr_loop m (haystack + 1) needle)
        else strstr_loop m (haystack + 1) needle
      else Some 0)"

definition strstr :: "mem_t \<Rightarrow> u32 \<Rightarrow> u32 \<Rightarrow> u32 option" where
  "strstr m haystack needle = (if m needle = 0 then Some haystack else strstr_loop m haystack needle)"

subsection \<open>Comparison\<close>

partial_function (option) strcmp :: "mem_t \<Rightarrow> u32 \<Rightarrow> u32 \<Rightarrow> int option" where
  "strcmp m s1 s2 = (if m s1 \<noteq> 0 \<and> m s1 = m s2 then strcmp m (s1 + 1) (s2 + 1) else Some (uint (m s1) - uint (m s2)))"

fun strncmp_loop :: "mem_t \<Rightarrow> u32 \<Rightarrow> u32 \<Rightarrow> nat \<Rightarrow> nat \<Rightarrow> int" where
  "strncmp_loop m s1 s2 0 i = 0"
| "strncmp_loop m s1 s2 (Suc n) i =
     (if m (at s1 i) \<noteq> m (at s2 i) \<or> m (at s1 i) = 0 \<or> m (at s2 i) = 0 then uint (m (at s1 i)) - uint (m (at s2 i))
      else strncmp_loop m s1 s2 n (i + 1))"

definition strncmp :: "mem_t \<Rightarrow> u32 \<Rightarrow> u32 \<Rightarrow> nat \<Rightarrow> int" where
  "strncmp m s1 s2 n = strncmp_loop m s1 s2 n 0"

fun memcmp_loop :: "mem_t \<Rightarrow> u32 \<Rightarrow> u32 \<Rightarrow> nat \<Rightarrow> nat \<Rightarrow> int" where
  "memcmp_loop m a b 0 i = 0"
| "memcmp_loop m a b (Suc n) i =
     (if m (at a i) \<noteq> m (at b i) then uint (m (at a i)) - uint (m (at b i)) else memcmp_loop m a b n (i + 1))"

definition memcmp :: "mem_t \<Rightarrow> u32 \<Rightarrow> u32 \<Rightarrow> int \<Rightarrow> int" where
  "memcmp m a b bytes = memcmp_loop m a b (nat bytes) 0"

subsection \<open>Numbers\<close>

definition cmod :: "int \<Rightarrow> int \<Rightarrow> int" where
  "cmod a b = a - cdiv a b * b"

text \<open>\<open>stoi\<close> reads the digits of the string, wherever they stand, from the last one on.\<close>

definition stoi :: "mem_t \<Rightarrow> u32 \<Rightarrow> int option" where
  "stoi m str = map_option (\<lambda>len. fst (fold (\<lambda>i (out, power).
       let c = m (at str i)
       in if c \<ge> 48 \<and> c \<le> 57 then (s32 (out + s32 (power * (uint c - 48))), s32 (power * 10)) else (out, power))
     (rev [0..<len]) (0, 1))) (strlen m str)"

text \<open>The number of digits of a number to a base: the loop \<open>while(tmp > 0) { length++; tmp /= base; }\<close>.\<close>

function num_length :: "nat \<Rightarrow> nat \<Rightarrow> nat \<Rightarrow> nat" where
  "num_length base tmp len = (if tmp > 0 \<and> base > 1 then num_length base (tmp div base) (len + 1) else len)"
  by pat_completeness auto
termination by (relation "measure (\<lambda>(base, tmp, len). tmp)") auto

declare num_length.simps [simp del]

definition hexdigit :: "u32 \<Rightarrow> u8" where
  "hexdigit d = (if d = 10 then 65 else if d = 11 then 66 else if d = 12 then 67 else if d = 13 then 68
                 else if d = 14 then 69 else if d = 15 then 70 else 48 + ucast d)"

definition put_digits :: "u32 \<Rightarrow> (u32 \<Rightarrow> u8) \<Rightarrow> u32 \<Rightarrow> nat \<Rightarrow> u32 \<Rightarrow> mem_t \<Rightarrow> mem_t" where
  "put_digits base digit num len out m =
     snd (fold (\<lambda>i (num, m). (num div base, m(at out (len - i - 1) := digit (num mod base)))) [0..<len] (num, m))"

definition uinttohexstr :: "u32 \<Rightarrow> u32 \<Rightarrow> mem_t \<Rightarrow> mem_t" where
  "uinttohexstr num out m =
     (if num = 0 then (m(out := 48))(at out 1 := 0)
      else let len = num_length 16 (unat num) 0
           in put_digits 16 hexdigit num len out (m(at out len := 0)))"

definition uinttostr :: "u32 \<Rightarrow> u32 \<Rightarrow> mem_t \<Rightarrow> mem_t" where
  "uinttostr num out m =
     (if num = 0 then (m(out := 48))(at out 1 := 0)
      else let len = num_length 10 (unat num) 0
           in put_digits 10 (\<lambda>d. 48 + ucast d) num len out (m(at out len := 0)))"

text \<open>In \<open>inttostr\<close> the negation may overflow, and the remainder of a negative number is negative.\<close>

definition inttostr :: "int \<Rightarrow> u32 \<Rightarrow> mem_t \<Rightarrow> mem_t" where
  "inttostr num out m =
     (if num = 0 then (m(out := 48))(at out 1 := 0)
      else let negative = (num < 0);
               num1 = (if negative then s32 (- num) else num);
               len = num_length 10 (nat num1) 0 + (if negative then 1 else 0);
               m1 = snd (fold (\<lambda>i (num, m). (cdiv num 10, m(at out (len - i - 1) := of_int (48 + cmod num 10))))
                          [0..<len] (num1, m(at out len := 0)))
           in if negative then m1(out := 45) else m1)"

partial_function (option) skip_spaces :: "mem_t \<Rightarrow> u32 \<Rightarrow> u32 option" where
  "skip_spaces m str = (if m str = 32 then skip_spaces m (str + 1) else Some str)"

partial_function (option) read_digits :: "mem_t \<Rightarrow> u32 \<Rightarrow> int \<Rightarrow> int option" where
  "read_digits m str result =
     (if m str \<ge> 48 \<and> m str \<le> 57 then read_digits m (str + 1) (s32 (s32 (result * 10) + (uint (m str) - 48)))
      else Some result)"

definition strtoint :: "mem_t \<Rightarrow> u32 \<Rightarrow> int option" where
  "strtoint m str =
     (case skip_spaces m str of
        None \<Rightarrow> None
      | Some p \<Rightarrow>
          let (sign, q) = (if m p = 45 then (- 1, p + 1) else if m p = 43 then (1, p + 1) else (1, p))
          in map_option (\<lambda>r. s32 (sign * r)) (read_digits m q 0))"

partial_function (option) hextouint_loop :: "mem_t \<Rightarrow> u32 \<Rightarrow> u32 \<Rightarrow> u32 option" where
  "hextouint_loop m str u =
     (if m str \<noteq> 0 then
        hextouint_loop m (str + 1)
          (let c = m str
           in if c \<ge> 48 \<and> c \<le> 57 then push_bit 4 u + ucast (c - 48)
              else if c \<ge> 65 \<and> c \<le> 70 then push_bit 4 u + ucast (c - 65 + 10)
              else if c \<ge> 97 \<and> c \<le> 102 then push_bit 4 u + ucast (c - 97 + 10)
              else u)
      else Some u)"

definition hextouint :: "mem_t \<Rightarrow> u32 \<Rightarrow> u32 option" where
  "hextouint m str = hextouint_loop m str 0"

subsection \<open>Formatted output\<close>

partial_function (option) to_end :: "mem_t \<Rightarrow> u32 \<Rightarrow> u32 option" where
  "to_end m ptr = (if m ptr \<noteq> 0 then to_end m (ptr + 1) else Some ptr)"

partial_function (option) strcat_loop :: "u32 \<Rightarrow> u32 \<Rightarrow> mem_t \<Rightarrow> mem_t option" where
  "strcat_loop ptr src m =
     (if m src \<noteq> 0 then strcat_loop (ptr + 1) (src + 1) (m(ptr := m src)) else Some (m(ptr := 0)))"

definition strcat :: "u32 \<Rightarrow> u32 \<Rightarrow> mem_t \<Rightarrow> mem_t option" where
  "strcat dest src m = (case to_end m dest of None \<Rightarrow> None | Some ptr \<Rightarrow> strcat_loop ptr src m)"

fun strncat_loop :: "u32 \<Rightarrow> u32 \<Rightarrow> nat \<Rightarrow> mem_t \<Rightarrow> mem_t" where
  "strncat_loop ptr src 0 m = m(ptr := 0)"
| "strncat_loop ptr src (Suc n) m =
     (if m src \<noteq> 0 then strncat_loop (ptr + 1) (src + 1) n (m(ptr := m src)) else m(ptr := 0))"

definition strncat :: "u32 \<Rightarrow> u32 \<Rightarrow> nat \<Rightarrow> mem_t \<Rightarrow> mem_t option" where
  "strncat dest src sz m = map_option (\<lambda>ptr. strncat_loop ptr src sz m) (to_end m dest)"

text \<open>
  One conversion of \<open>vsnprintf\<close>: the string to append, the arguments and the room left. \<open>tmp\<close>
  is the address of the local array; a conversion without an argument left is undefined. The literal
  \<open>"0x"\<close> of \<open>%p\<close> is read from \<open>lit\<close>.
\<close>

definition convert :: "u32 \<Rightarrow> u32 \<Rightarrow> u32 \<Rightarrow> u8 \<Rightarrow> u32 list \<Rightarrow> nat \<Rightarrow> mem_t \<Rightarrow> (u32 \<times> u32 list \<times> nat \<times> mem_t) option" where
  "convert buffer tmp lit c args remaining m =
     (if c = 105 then (case args of [] \<Rightarrow> None | a # as \<Rightarrow> Some (tmp, as, remaining, inttostr (sint a) tmp m))
      else if c = 117 then (case args of [] \<Rightarrow> None | a # as \<Rightarrow> Some (tmp, as, remaining, uinttostr a tmp m))
      else if c = 104 then (case args of [] \<Rightarrow> None | a # as \<Rightarrow> Some (tmp, as, remaining, uinttohexstr a tmp m))
      else if c = 115 then (case args of [] \<Rightarrow> None | a # as \<Rightarrow> Some (a, as, remaining, m))
      else if c = 99 then (case args of [] \<Rightarrow> None | a # as \<Rightarrow> Some (tmp, as, remaining, (m(tmp := ucast a))(at tmp 1 := 0)))
      else if c = 112 then
        (case args of [] \<Rightarrow> None
         | a # as \<Rightarrow>
             (case strncat buffer lit remaining m of None \<Rightarrow> None
              | Some m1 \<Rightarrow> Some (tmp, as, remaining - (if remaining > 2 then 2 else remaining), uinttohexstr a tmp m1)))
      else Some (tmp, args, remaining, ((m(tmp := 37))(at tmp 1 := c))(at tmp 2 := 0)))"

partial_function (option) vsnprintf_loop ::
    "u32 \<Rightarrow> u32 \<Rightarrow> u32 \<Rightarrow> u32 \<Rightarrow> u32 list \<Rightarrow> nat \<Rightarrow> mem_t \<Rightarrow> (nat \<times> mem_t) option" where
  "vsnprintf_loop buffer tmp lit pfmt args remaining m =
     (if m pfmt \<noteq> 0 \<and> remaining > 0 then
        if m pfmt = 37 \<and> m (pfmt + 1) \<noteq> 0 then
          (case convert buffer tmp lit (m (pfmt + 1)) args remaining m of
             None \<Rightarrow> None
           | Some (app, args1, remaining1, m1) \<Rightarrow>
               if app \<noteq> 0 then
                 (case strlen m1 app of None \<Rightarrow> None
                  | Some len \<Rightarrow>
                      (case strncat buffer app remaining1 m1 of None \<Rightarrow> None
                       | Some m2 \<Rightarrow> vsnprintf_loop buffer tmp lit (pfmt + 1 + 1) args1
                                     (remaining1 - (if len < remaining1 then len else remaining1)) m2))
               else vsnprintf_loop buffer tmp lit (pfmt + 1 + 1) args1 remaining1 m1)
        else
          (case strncat buffer tmp remaining ((m(tmp := m pfmt))(at tmp 1 := 0)) of None \<Rightarrow> None
           | Some m1 \<Rightarrow> vsnprintf_loop buffer tmp lit (pfmt + 1) args (remaining - 1) m1)
      else Some (remaining, m))"

text \<open>\<open>sz\<close> is a \<open>size_t\<close>: for 0, \<open>remaining\<close> wraps around to the largest value.\<close>

definition vsnprintf :: "u32 \<Rightarrow> u32 \<Rightarrow> u32 \<Rightarrow> u32 \<Rightarrow> u32 \<Rightarrow> u32 list \<Rightarrow> mem_t \<Rightarrow> (int \<times> mem_t) option" where
  "vsnprintf buffer sz format tmp lit args m =
     map_option (\<lambda>(remaining, m1). (sint (sz - of_nat remaining - 1), m1))
       (vsnprintf_loop buffer tmp lit format args (unat (sz - 1)) (m(buffer := 0)))"

definition snprintf :: "u32 \<Rightarrow> u32 \<Rightarrow> u32 \<Rightarrow> u32 \<Rightarrow> u32 \<Rightarrow> u32 list \<Rightarrow> mem_t \<Rightarrow> mem_t option" where
  "snprintf buffer sz format tmp lit args m = map_option snd (vsnprintf buffer sz format tmp lit args m)"

definition sprintf :: "u32 \<Rightarrow> u32 \<Rightarrow> u32 \<Rightarrow> u32 \<Rightarrow> u32 list \<Rightarrow> mem_t \<Rightarrow> mem_t option" where
  "sprintf buffer format tmp lit args m = map_option snd (vsnprintf buffer 0x7FFFFFFF format tmp lit args m)"

subsection \<open>Blocks of memory\<close>

text \<open>\<open>rep stosb\<close> and \<open>rep stosl\<close>: the instruction fills and advances \<open>edi\<close>; little endian.\<close>

definition rep_stosb :: "u32 \<Rightarrow> u8 \<Rightarrow> nat \<Rightarrow> mem_t \<Rightarrow> u32 \<times> mem_t" where
  "rep_stosb edi al ecx m = (at edi ecx, fold (\<lambda>i m. m(at edi i := al)) [0..<ecx] m)"

definition put_u32 :: "u32 \<Rightarrow> u32 \<Rightarrow> mem_t \<Rightarrow> mem_t" where
  "put_u32 p v m = (((m(p := ucast v))(p + 1 := ucast (drop_bit 8 v)))(p + 2 := ucast (drop_bit 16 v)))(p + 3 := ucast (drop_bit 24 v))"

definition rep_stosl :: "u32 \<Rightarrow> u32 \<Rightarrow> nat \<Rightarrow> mem_t \<Rightarrow> u32 \<times> mem_t" where
  "rep_stosl edi eax ecx m = (at edi (4 * ecx), fold (\<lambda>i m. put_u32 (at edi (4 * i)) eax m) [0..<ecx] m)"

definition memset :: "u32 \<Rightarrow> u8 \<Rightarrow> int \<Rightarrow> mem_t \<Rightarrow> mem_t" where
  "memset dest ch count m =
     (if count \<le> 0 then m
      else if count < 16 then snd (rep_stosb dest ch (nat count) m)
      else let v0 = ucast ch :: u32;
               v1 = v0 OR push_bit 8 v0;
               value = v1 OR push_bit 16 v1;
               pre = unat ((4 - (dest AND 3)) AND 3);
               count1 = nat count - pre;
               (d1, m1) = (if pre > 0 then rep_stosb dest ch pre m else (dest, m));
               dwords = count1 div 4;
               (d2, m2) = (if dwords > 0 then rep_stosl d1 value dwords m1 else (d1, m1));
               count2 = count1 mod 4
           in if count2 > 0 then snd (rep_stosb d2 ch count2 m2) else m2)"

fun memmove_up :: "u32 \<Rightarrow> u32 \<Rightarrow> nat \<Rightarrow> mem_t \<Rightarrow> mem_t" where
  "memmove_up d s 0 m = m"
| "memmove_up d s (Suc n) m = memmove_up (d + 1) (s + 1) n (m(d := m s))"

fun memmove_down :: "u32 \<Rightarrow> u32 \<Rightarrow> nat \<Rightarrow> mem_t \<Rightarrow> mem_t" where
  "memmove_down d s 0 m = m"
| "memmove_down d s (Suc n) m = memmove_down (d - 1) (s - 1) n (m(d - 1 := m (s - 1)))"

definition memmove :: "u32 \<Rightarrow> u32 \<Rightarrow> nat \<Rightarrow> mem_t \<Rightarrow> mem_t" where
  "memmove dest src n m =
     (if dest < src then memmove_up dest src n m
      else if dest > src then memmove_down (at dest n) (at src n) n m
      else m)"

definition put_u16 :: "u32 \<Rightarrow> u16 \<Rightarrow> mem_t \<Rightarrow> mem_t" where
  "put_u16 p v m = (m(p := ucast v))(p + 1 := ucast (drop_bit 8 v))"

fun memset16_pairs :: "u32 \<Rightarrow> u32 \<Rightarrow> nat \<Rightarrow> mem_t \<Rightarrow> u32 \<times> nat \<times> mem_t" where
  "memset16_pairs dest pattern (Suc (Suc count)) m = memset16_pairs (dest + 4) pattern count (put_u32 dest pattern m)"
| "memset16_pairs dest pattern count m = (dest, count, m)"

fun memset16_rest :: "u32 \<Rightarrow> u16 \<Rightarrow> nat \<Rightarrow> mem_t \<Rightarrow> mem_t" where
  "memset16_rest dest v 0 m = m"
| "memset16_rest dest v (Suc count) m = memset16_rest (dest + 2) v count (put_u16 dest v m)"

definition memset16 :: "u32 \<Rightarrow> u16 \<Rightarrow> nat \<Rightarrow> mem_t \<Rightarrow> mem_t" where
  "memset16 dest v count m =
     (let (d, c, m1) = (if count \<ge> 2 \<and> dest AND 3 = 0
                        then memset16_pairs dest (push_bit 16 (ucast v) OR ucast v) count m else (dest, count, m))
      in memset16_rest d v c m1)"

subsection \<open>Case\<close>

definition tolower :: "int \<Rightarrow> int" where
  "tolower c = (if c \<ge> 65 \<and> c \<le> 90 then c + 32 else c)"

definition toupper :: "int \<Rightarrow> int" where
  "toupper c = (if c \<ge> 97 \<and> c \<le> 122 then c - 32 else c)"

text \<open>\<open>strlen\<close> is evaluated again before every iteration.\<close>

partial_function (option) strmap_loop :: "(int \<Rightarrow> int) \<Rightarrow> u32 \<Rightarrow> nat \<Rightarrow> mem_t \<Rightarrow> mem_t option" where
  "strmap_loop f c i m =
     (case strlen m c of None \<Rightarrow> None
      | Some len \<Rightarrow> if i < len then strmap_loop f c (i + 1) (m(at c i := of_int (f (sint (m (at c i)))))) else Some m)"

definition strtolower :: "u32 \<Rightarrow> mem_t \<Rightarrow> mem_t option" where
  "strtolower c m = strmap_loop tolower c 0 m"

definition strtoupper :: "u32 \<Rightarrow> mem_t \<Rightarrow> mem_t option" where
  "strtoupper c m = strmap_loop toupper c 0 m"

section \<open>Strings in memory\<close>

definition region :: "u32 \<Rightarrow> nat \<Rightarrow> u32 set" where
  "region p n = at p ` {..<n}"

definition cstr :: "mem_t \<Rightarrow> u32 \<Rightarrow> u8 list \<Rightarrow> bool" where
  "cstr m p xs \<longleftrightarrow> (\<forall>i<length xs. m (at p i) = xs ! i) \<and> m (at p (length xs)) = 0 \<and> 0 \<notin> set xs \<and> length xs < 2 ^ 32"

lemma at_0 [simp]: "at p 0 = p"
  by (simp add: at_def)

lemma at_Suc: "at p (Suc i) = at (p + 1) i"
  by (simp add: at_def)

lemma at_at: "at (at p i) j = at p (i + j)"
  by (simp add: at_def)

lemma at_1: "at p i + 1 = at p (Suc i)"
  by (simp add: at_def)

lemma at_inj: "i < 2 ^ 32 \<Longrightarrow> j < 2 ^ 32 \<Longrightarrow> at p i = at p j \<longleftrightarrow> i = j"
proof -
  assume "i < 2 ^ 32" "j < 2 ^ 32"
  then have "(of_nat i :: u32) = of_nat j \<longleftrightarrow> i = j" by (metis unat_of_nat_u32)
  then show ?thesis by (simp add: at_def)
qed

lemma region_0 [simp]: "region p 0 = {}"
  by (simp add: region_def)

lemma region_Suc: "region p (Suc n) = insert (at p n) (region p n)"
  by (auto simp: region_def less_Suc_eq)

lemma region_Suc_front: "region p (Suc n) = insert p (region (p + 1) n)"
  unfolding region_def lessThan_Suc_eq_insert_0 by (simp add: image_image at_Suc)

lemma region_mono: "n \<le> n' \<Longrightarrow> region p n \<subseteq> region p n'"
  by (auto simp: region_def)

lemma in_region [simp, intro]: "i < n \<Longrightarrow> at p i \<in> region p n"
  by (simp add: region_def)

lemma at_notin_region: "n \<le> i \<Longrightarrow> i < 2 ^ 32 \<Longrightarrow> at p i \<notin> region p n"
proof
  assume i: "n \<le> i" "i < 2 ^ 32" and "at p i \<in> region p n"
  then obtain j where j: "j < n" "at p i = at p j" by (auto simp: region_def)
  then show False using at_inj [of i j p] i by simp
qed

lemma cstr_Nil: "cstr m p [] \<longleftrightarrow> m p = 0"
  by (simp add: cstr_def)

lemma cstr_Cons: "cstr m p (x # xs) \<longleftrightarrow> m p = x \<and> x \<noteq> 0 \<and> cstr m (p + 1) xs \<and> length xs + 1 < 2 ^ 32"
  by (auto simp: cstr_def at_Suc less_Suc_eq_0_disj)

lemma cstr_cong: "cstr m p xs \<Longrightarrow> (\<And>a. a \<in> region p (length xs + 1) \<Longrightarrow> m' a = m a) \<Longrightarrow> cstr m' p xs"
  by (auto simp: cstr_def)

lemma cstr_drop: "cstr m p (xs @ ys) \<Longrightarrow> cstr m (at p (length xs)) ys"
  by (induction xs arbitrary: p) (auto simp: cstr_Cons at_Suc)

lemma cstr_unique: "cstr m p xs \<Longrightarrow> cstr m p ys \<Longrightarrow> xs = ys"
proof (induction xs arbitrary: p ys)
  case Nil
  then show ?case by (cases ys) (auto simp: cstr_Nil cstr_Cons)
next
  case (Cons x xs)
  then show ?case by (cases ys) (auto simp: cstr_Nil cstr_Cons)
qed

text \<open>Writing a list of bytes.\<close>

fun put_str :: "u32 \<Rightarrow> u8 list \<Rightarrow> mem_t \<Rightarrow> mem_t" where
  "put_str p [] m = m"
| "put_str p (x # xs) m = put_str (p + 1) xs (m(p := x))"

lemma put_str_outside: "a \<notin> region p (length xs) \<Longrightarrow> put_str p xs m a = m a"
  by (induction xs arbitrary: p m) (auto simp: region_Suc_front)

lemma put_str_upd: "a \<notin> region p (length xs) \<Longrightarrow> put_str p xs (m(a := v)) = (put_str p xs m)(a := v)"
  by (induction xs arbitrary: p m) (auto simp: region_Suc_front fun_upd_twist)

lemma put_str_append: "put_str p (xs @ ys) m = put_str (at p (length xs)) ys (put_str p xs m)"
  by (induction xs arbitrary: p m) (simp_all add: at_Suc)

lemma put_str_snoc:
  assumes "length xs < 2 ^ 32"
  shows "put_str p (xs @ [y]) m = put_str p xs (m(at p (length xs) := y))"
  using put_str_upd [OF at_notin_region [OF order_refl assms]] by (simp add: put_str_append)

lemma put_str_nth: "i < length xs \<Longrightarrow> length xs \<le> 2 ^ 32 \<Longrightarrow> put_str p xs m (at p i) = xs ! i"
proof (induction xs arbitrary: p m i)
  case Nil
  then show ?case by simp
next
  case (Cons x xs)
  show ?case
  proof (cases i)
    case 0
    have "p \<notin> region (p + 1) (length xs)"
    proof
      assume "p \<in> region (p + 1) (length xs)"
      then obtain j where j: "j < length xs" "p = at (p + 1) j" by (auto simp: region_def)
      then have "at p 0 = at p (Suc j)" by (simp add: at_Suc)
      then show False using at_inj [of 0 "Suc j" p] j(1) Cons.prems(2) by simp
    qed
    then show ?thesis using 0 by (simp add: put_str_outside)
  next
    case (Suc j)
    then show ?thesis using Cons by (simp add: at_Suc)
  qed
qed

lemma cstr_put:
  assumes "0 \<notin> set xs" "length xs < 2 ^ 32"
  shows "cstr (put_str p (xs @ [0]) m) p xs"
  using assms put_str_nth [of _ "xs @ [0]" p m] by (auto simp: cstr_def nth_append)

lemma cstr_put_disjoint:
  assumes "cstr m q ys" "region q (length ys + 1) \<inter> region p (length xs) = {}"
  shows "cstr (put_str p xs m) q ys"
  by (rule cstr_cong [OF assms(1)]) (use assms(2) in \<open>auto intro: put_str_outside\<close>)

subsection \<open>Scanning\<close>

lemma strlen_loop_cstr: "cstr m (at p n) xs \<Longrightarrow> strlen_loop m p n = Some (n + length xs)"
proof (induction xs arbitrary: n)
  case Nil
  then show ?case by (subst strlen_loop.simps) (simp add: cstr_Nil)
next
  case (Cons x xs)
  then show ?case by (subst strlen_loop.simps) (simp add: cstr_Cons at_1)
qed

lemma strlen_cstr: "cstr m p xs \<Longrightarrow> strlen m p = Some (length xs)"
  using strlen_loop_cstr [of m p 0] by (simp add: strlen_def)

lemma to_end_cstr: "cstr m p xs \<Longrightarrow> to_end m p = Some (at p (length xs))"
proof (induction xs arbitrary: p)
  case Nil
  then show ?case by (subst to_end.simps) (simp add: cstr_Nil)
next
  case (Cons x xs)
  then show ?case by (subst to_end.simps) (simp add: cstr_Cons at_Suc)
qed

section \<open>Numbers and their digits\<close>

text \<open>The \<open>l\<close> last digits of \<open>n\<close> to the base \<open>b\<close>, most significant first.\<close>

fun nstr :: "nat \<Rightarrow> (nat \<Rightarrow> u8) \<Rightarrow> nat \<Rightarrow> nat \<Rightarrow> u8 list" where
  "nstr b dg n 0 = []"
| "nstr b dg n (Suc l) = nstr b dg (n div b) l @ [dg (n mod b)]"

lemma length_nstr [simp]: "length (nstr b dg n l) = l"
  by (induction l arbitrary: n) auto

lemma set_nstr: "0 < b \<Longrightarrow> set (nstr b dg n l) \<subseteq> dg ` {..<b}"
  by (induction l arbitrary: n) auto

lemma num_length_0 [simp]: "num_length b 0 k = k"
  by (simp add: num_length.simps)

lemma num_length_acc: "num_length b n k = k + num_length b n 0"
proof (induction n arbitrary: k rule: less_induct)
  case (less n)
  show ?case
  proof (cases "0 < n \<and> 1 < b")
    case True
    then have "n div b < n" by simp
    then show ?thesis
      using True less.IH [of "n div b" "k + 1"] less.IH [of "n div b" 1] num_length.simps [of b n k] num_length.simps [of b n 0] by simp
  next
    case False
    then show ?thesis using num_length.simps [of b n k] num_length.simps [of b n 0] by auto
  qed
qed

lemma num_length_rec: "0 < n \<Longrightarrow> 1 < b \<Longrightarrow> num_length b n 0 = Suc (num_length b (n div b) 0)"
  using num_length.simps [of b n 0] num_length_acc [of b "n div b" 1] by simp

lemma num_length_less: "1 < b \<Longrightarrow> n < b ^ num_length b n 0"
proof (induction n rule: less_induct)
  case (less n)
  show ?case
  proof (cases "n = 0")
    case False
    then have "n div b < b ^ num_length b (n div b) 0" using less by simp
    then have "n < b ^ num_length b (n div b) 0 * b" using less.prems by (simp add: div_less_iff_less_mult)
    then show ?thesis using False less.prems by (simp add: num_length_rec mult.commute)
  qed simp
qed

lemma num_length_le: "1 < b \<Longrightarrow> n < b ^ l \<Longrightarrow> num_length b n 0 \<le> l"
proof (induction l arbitrary: n)
  case 0
  then show ?case by simp
next
  case (Suc l)
  then have "n div b < b ^ l" by (simp add: div_less_iff_less_mult mult.commute)
  then show ?case using Suc by (cases "n = 0") (simp_all add: num_length_rec)
qed

lemma iterate_front: "rev (map (\<lambda>i. g ((f ^^ i) n)) [0..<Suc l]) = rev (map (\<lambda>i. g ((f ^^ i) (f n))) [0..<l]) @ [g n]"
  by (simp add: upt_conv_Cons map_Suc_upt [symmetric] funpow_swap1 comp_def del: upt_Suc map_Suc_upt)

lemma fold_digits:
  assumes "len < 2 ^ 32"
  shows "fold (\<lambda>i (num, m). (dv num, m(at out (len - i - 1) := dg num))) [0..<len] (num, m)
    = ((dv ^^ len) num, put_str out (rev (map (\<lambda>i. dg ((dv ^^ i) num)) [0..<len])) m)"
  using assms
proof (induction len arbitrary: num m)
  case 0
  then show ?case by simp
next
  case (Suc l)
  have "fold (\<lambda>i (num, m). (dv num, m(at out (Suc l - i - 1) := dg num))) [0..<Suc l] (num, m)
     = fold (\<lambda>i (num, m). (dv num, m(at out (Suc l - i - 1) := dg num))) (map Suc [0..<l]) (dv num, m(at out l := dg num))"
    by (simp add: upt_conv_Cons map_Suc_upt del: upt_Suc)
  also have "\<dots> = fold (\<lambda>i (num, m). (dv num, m(at out (l - i - 1) := dg num))) [0..<l] (dv num, m(at out l := dg num))"
    by (simp add: fold_map comp_def)
  also have "\<dots> = ((dv ^^ l) (dv num), put_str out (rev (map (\<lambda>i. dg ((dv ^^ i) (dv num))) [0..<l])) (m(at out l := dg num)))"
    by (rule Suc.IH) (use Suc.prems in simp)
  also have "put_str out (rev (map (\<lambda>i. dg ((dv ^^ i) (dv num))) [0..<l])) (m(at out l := dg num))
      = put_str out (rev (map (\<lambda>i. dg ((dv ^^ i) (dv num))) [0..<l]) @ [dg num]) m"
    using Suc.prems put_str_snoc [of "rev (map (\<lambda>i. dg ((dv ^^ i) (dv num))) [0..<l])" out "dg num" m] by simp
  also have "rev (map (\<lambda>i. dg ((dv ^^ i) (dv num))) [0..<l]) @ [dg num] = rev (map (\<lambda>i. dg ((dv ^^ i) num)) [0..<Suc l])"
    by (rule iterate_front [symmetric])
  finally show ?case by (simp add: funpow_swap1)
qed

lemma nstr_iterate:
  "nstr b dg n l = rev (map (\<lambda>i. dg ((((\<lambda>n. n div b) ^^ i) n) mod b)) [0..<l])"
proof (induction l arbitrary: n)
  case 0
  then show ?case by simp
next
  case (Suc l)
  show ?case unfolding iterate_front [of "\<lambda>n. dg (n mod b)" "\<lambda>n. n div b"] nstr.simps Suc ..
qed

lemma unat_iterate_div: "unat (((\<lambda>n. n div b) ^^ i) n) = ((\<lambda>n. n div unat b) ^^ i) (unat n)" for b n :: u32
  by (induction i) (simp_all add: unat_div)

lemma put_digits_eq:
  assumes "len < 2 ^ 32"
  shows "put_digits b dg num len out m = put_str out (nstr (unat b) (\<lambda>d. dg (of_nat d)) (unat num) len) m"
proof -
  have "put_digits b dg num len out m = put_str out (rev (map (\<lambda>i. dg (((\<lambda>n. n div b) ^^ i) num mod b)) [0..<len])) m"
    unfolding put_digits_def using fold_digits [OF assms, of "\<lambda>n. n div b" out "\<lambda>n. dg (n mod b)" num m] by simp
  moreover have "(w mod b) = of_nat (unat w mod unat b)" for w :: u32
    by (metis word_arith_nat_mod)
  ultimately show ?thesis by (simp add: nstr_iterate unat_iterate_div)
qed

abbreviation dec_digit :: "nat \<Rightarrow> u8" where "dec_digit d \<equiv> 48 + of_nat d"

definition dec_str :: "nat \<Rightarrow> u8 list" where
  "dec_str n = (if n = 0 then [48] else nstr 10 dec_digit n (num_length 10 n 0))"

definition hex_str :: "u32 \<Rightarrow> u8 list" where
  "hex_str u = (if u = 0 then [48] else nstr 16 (\<lambda>d. hexdigit (of_nat d)) (unat u) (num_length 16 (unat u) 0))"

text \<open>What \<open>inttostr\<close> prints: for the smallest integer only the sign.\<close>

definition int_str :: "int \<Rightarrow> u8 list" where
  "int_str n = (if n = - (2 ^ 31) then [45] else if n < 0 then 45 # dec_str (nat (- n)) else dec_str (nat n))"

lemma put_two: "(m(out := 48))(at out 1 := 0) = put_str out [48, 0] m"
  by (simp add: at_def)

lemma num_length_u32: "num_length 10 (unat (u :: u32)) 0 \<le> 10" "num_length 16 (unat u) 0 \<le> 8"
proof -
  have "unat u < 2 ^ 32" using unsigned_less [of u] by simp
  then show "num_length 10 (unat u) 0 \<le> 10" "num_length 16 (unat u) 0 \<le> 8" by (intro num_length_le; simp)+
qed

lemma ucast_of_nat_digit: "n < 256 \<Longrightarrow> (ucast (of_nat n :: u32) :: u8) = of_nat n"
  by (simp add: word_eq_iff_unsigned unsigned_ucast_eq unsigned_of_nat take_bit_nat_eq_self flip: of_nat_take_bit)

lemma nstr_cong: "0 < b \<Longrightarrow> (\<And>d. d < b \<Longrightarrow> dg d = dg' d) \<Longrightarrow> nstr b dg n l = nstr b dg' n l"
  by (induction l arbitrary: n) auto

lemma put_str_len: "length xs = l \<Longrightarrow> l < 2 ^ 32 \<Longrightarrow> put_str out xs (m(at out l := 0)) = put_str out (xs @ [0]) m"
  using put_str_snoc [of xs out 0 m] by simp

lemma uinttostr_eq: "uinttostr u out m = put_str out (dec_str (unat u) @ [0]) m"
proof (cases "u = 0")
  case True
  then show ?thesis by (simp add: uinttostr_def dec_str_def at_def)
next
  case False
  let ?l = "num_length 10 (unat u) 0"
  have l: "?l < 2 ^ 32" using num_length_u32(1) [of u] by simp
  have "nstr 10 (\<lambda>d. 48 + ucast (of_nat d :: u32)) (unat u) ?l = nstr 10 dec_digit (unat u) ?l"
    by (rule nstr_cong) (simp_all add: ucast_of_nat_digit)
  then show ?thesis
    using False put_digits_eq [OF l, of 10 "\<lambda>d. 48 + ucast d" u out "m(at out ?l := 0)"] put_str_len [OF _ l]
    by (simp add: uinttostr_def Let_def dec_str_def unat_eq_zero)
qed

lemma uinttohexstr_eq: "uinttohexstr u out m = put_str out (hex_str u @ [0]) m"
proof (cases "u = 0")
  case True
  then show ?thesis by (simp add: uinttohexstr_def hex_str_def at_def)
next
  case False
  let ?l = "num_length 16 (unat u) 0"
  have l: "?l < 2 ^ 32" using num_length_u32(2) [of u] by simp
  show ?thesis
    using False put_digits_eq [OF l, of 16 hexdigit u out "m(at out ?l := 0)"] put_str_len [OF _ l]
    by (simp add: uinttohexstr_def Let_def hex_str_def)
qed

lemma nstr_front: "nstr b dg n (Suc l) = dg (n div b ^ l mod b) # nstr b dg n l"
proof (induction l arbitrary: n)
  case 0
  then show ?case by simp
next
  case (Suc l)
  have "nstr b dg n (Suc (Suc l)) = nstr b dg (n div b) (Suc l) @ [dg (n mod b)]" by simp
  also have "\<dots> = (dg (n div b div b ^ l mod b) # nstr b dg (n div b) l) @ [dg (n mod b)]" unfolding Suc ..
  finally show ?case by (simp add: div_mult2_eq)
qed

lemma cdiv_iterate: "0 \<le> n \<Longrightarrow> ((\<lambda>n. cdiv n 10) ^^ i) n = int (((\<lambda>n. n div 10) ^^ i) (nat n))"
  by (induction i) (simp_all add: zdiv_int)

lemma int_digits:
  assumes "0 \<le> n"
  shows "rev (map (\<lambda>i. of_int (48 + cmod (((\<lambda>n. cdiv n 10) ^^ i) n) 10)) [0..<l]) = nstr 10 dec_digit (nat n) l"
proof -
  have "cmod (int k) 10 = int (k mod 10)" for k by (simp add: cmod_def minus_div_mult_eq_mod zmod_int)
  then show ?thesis using assms by (simp add: nstr_iterate cdiv_iterate)
qed

lemma int_length: "n < 2 ^ 31 \<Longrightarrow> num_length 10 n 0 \<le> 10"
  by (rule num_length_le) simp_all

lemma inttostr_eq:
  assumes "- (2 ^ 31) \<le> n" "n < 2 ^ 31"
  shows "inttostr n out m = put_str out (int_str n @ [0]) m"
proof -
  consider (zero) "n = 0" | (least) "n = - (2 ^ 31)" | (neg) "n < 0" "n \<noteq> - (2 ^ 31)" | (pos) "0 < n" by linarith
  then show ?thesis
  proof cases
    case zero
    then show ?thesis by (simp add: inttostr_def int_str_def dec_str_def at_def)
  next
    case least
    have w: "s32 (2 ^ 31) = - (2 ^ 31)" by (simp add: s32_def)
    show ?thesis unfolding least inttostr_def Let_def
      using w by (simp add: int_str_def at_def fun_upd_twist)
  next
    case pos
    let ?l = "num_length 10 (nat n) 0"
    have "nat n < 2 ^ 31" using assms(2) pos by (simp add: nat_less_iff)
    then have l: "?l < 2 ^ 32" using int_length [of "nat n"] by simp
    have "inttostr n out m = snd (fold (\<lambda>i (num, m). (cdiv num 10, m(at out (?l - i - 1) := of_int (48 + cmod num 10)))) [0..<?l] (n, m(at out ?l := 0)))"
      using pos by (simp add: inttostr_def Let_def)
    also have "\<dots> = put_str out (nstr 10 dec_digit (nat n) ?l) (m(at out ?l := 0))"
      unfolding fold_digits [OF l, of "\<lambda>n. cdiv n 10" out "\<lambda>n. of_int (48 + cmod n 10)"] snd_conv int_digits [OF less_imp_le [OF pos]] ..
    finally show ?thesis using pos put_str_len [OF _ l] by (simp add: int_str_def dec_str_def)
  next
    case neg
    let ?n = "nat (- n)" and ?l = "num_length 10 (nat (- n)) 0"
    have nn: "0 \<le> - n" using neg by simp
    have "?n < 2 ^ 31" using assms(1) neg by (simp add: nat_less_iff)
    then have l: "Suc ?l < 2 ^ 32" using int_length [of ?n] by simp
    have w: "s32 (- n) = - n" using assms(1) neg by (intro s32_id) linarith+
    have "?n < 10 ^ ?l" by (rule num_length_less) simp
    then have front: "nstr 10 dec_digit ?n (Suc ?l) = 48 # nstr 10 dec_digit ?n ?l" unfolding nstr_front by simp
    have "inttostr n out m = (snd (fold (\<lambda>i (num, m). (cdiv num 10, m(at out (Suc ?l - i - 1) := of_int (48 + cmod num 10))))
        [0..<Suc ?l] (- n, m(at out (Suc ?l) := 0))))(out := 45)"
      using neg w by (simp add: inttostr_def Let_def del: upt_Suc)
    also have "\<dots> = (put_str out (nstr 10 dec_digit ?n (Suc ?l)) (m(at out (Suc ?l) := 0)))(out := 45)"
      unfolding fold_digits [OF l, of "\<lambda>n. cdiv n 10" out "\<lambda>n. of_int (48 + cmod n 10)"] snd_conv int_digits [OF nn] ..
    also have "\<dots> = (put_str out (nstr 10 dec_digit ?n (Suc ?l) @ [0]) m)(out := 45)"
      unfolding put_str_len [OF length_nstr l] ..
    also have "\<dots> = (put_str out (48 # nstr 10 dec_digit ?n ?l @ [0]) m)(out := 45)"
      unfolding front by simp
    also have "\<dots> = put_str out (45 # nstr 10 dec_digit ?n ?l @ [0]) m"
    proof -
      have "out \<notin> region (out + 1) (length (nstr 10 dec_digit ?n ?l @ [0]))"
        using at_inj [of 0 _ out] l by (fastforce simp: region_def at_Suc [symmetric])
      then show ?thesis using put_str_upd [of out "out + 1" "nstr 10 dec_digit ?n ?l @ [0]" "m(out := 48)" 45] by simp
    qed
    finally show ?thesis using neg by (simp add: int_str_def dec_str_def)
  qed
qed

subsection \<open>Reading numbers back\<close>

lemma dec_digit_uint: "d < 10 \<Longrightarrow> uint (dec_digit d) = 48 + int d"
proof -
  assume "d < 10"
  then have "d \<in> {0,1,2,3,4,5,6,7,8,9}" by auto
  then show ?thesis by auto
qed

lemma dec_digit_range: "d < 10 \<Longrightarrow> 48 \<le> dec_digit d \<and> dec_digit d \<le> 57"
proof -
  assume "d < 10"
  then have "d \<in> {0,1,2,3,4,5,6,7,8,9}" by auto
  then show ?thesis by auto
qed

lemma read_digits_cstr:
  "cstr m p xs \<Longrightarrow> (\<forall>c\<in>set xs. 48 \<le> c \<and> c \<le> 57) \<Longrightarrow>
     read_digits m p r = Some (foldl (\<lambda>r c. s32 (s32 (r * 10) + (uint c - 48))) r xs)"
proof (induction xs arbitrary: p r)
  case Nil
  then show ?case by (subst read_digits.simps) (simp add: cstr_Nil)
next
  case (Cons x xs)
  then show ?case by (subst read_digits.simps) (simp add: cstr_Cons)
qed

lemma foldl_digits:
  "n < 10 ^ l \<Longrightarrow> n < 2 ^ 31 \<Longrightarrow> foldl (\<lambda>r c. s32 (s32 (r * 10) + (uint c - 48))) 0 (nstr 10 dec_digit n l) = int n"
proof (induction l arbitrary: n)
  case 0
  then show ?case by simp
next
  case (Suc l)
  have q: "n div 10 < 10 ^ l" using Suc.prems(1) by (simp add: div_less_iff_less_mult mult.commute)
  have e: "int n = int (n div 10) * 10 + int (n mod 10)" using div_mult_mod_eq [of n 10] by (metis of_nat_add of_nat_mult of_nat_numeral)
  have "int (n div 10) * 10 \<le> int n" using e by simp
  then have b: "s32 (int (n div 10) * 10) = int (n div 10) * 10" using Suc.prems(2) by (intro s32_id) simp_all
  have "s32 (int (n div 10) * 10 + int (n mod 10)) = int n" unfolding e [symmetric] using Suc.prems(2) by (intro s32_id) simp_all
  then show ?case using Suc.IH [OF q] Suc.prems(2) b by (simp add: dec_digit_uint)
qed

lemma dec_str_digits: "c \<in> set (dec_str n) \<Longrightarrow> 48 \<le> c \<and> c \<le> 57"
  using set_nstr [of 10 dec_digit n "num_length 10 n 0"] dec_digit_range by (auto simp: dec_str_def split: if_splits)

lemma dec_str_cstr_read:
  assumes "cstr m p (dec_str n)" "n < 2 ^ 31"
  shows "read_digits m p 0 = Some (int n)"
proof (cases "n = 0")
  case True
  then show ?thesis using read_digits_cstr [OF assms(1), of 0] by (simp add: dec_str_def)
next
  case False
  have "read_digits m p 0 = Some (foldl (\<lambda>r c. s32 (s32 (r * 10) + (uint c - 48))) 0 (dec_str n))"
    using read_digits_cstr [OF assms(1)] dec_str_digits by blast
  then show ?thesis using foldl_digits [OF num_length_less assms(2)] False by (simp add: dec_str_def)
qed

lemma dec_str_nonempty: "dec_str n \<noteq> []"
proof (cases "n = 0")
  case False
  then have "num_length 10 n 0 = Suc (num_length 10 (n div 10) 0)" by (simp add: num_length_rec)
  then show ?thesis using False length_nstr [of 10 dec_digit n "num_length 10 n 0"] by (auto simp: dec_str_def)
qed (simp add: dec_str_def)

lemma strtoint_dec:
  assumes "cstr m p (dec_str n)" "n < 2 ^ 31"
  shows "strtoint m p = Some (int n)"
proof -
  obtain c cs where c: "dec_str n = c # cs" using dec_str_nonempty by (cases "dec_str n") auto
  then have "m p = c" using assms(1) by (simp add: cstr_Cons)
  moreover have r: "48 \<le> c" "c \<le> 57" using dec_str_digits [of c n] c by auto
  have "c \<noteq> 32" "c \<noteq> 45" "c \<noteq> 43" using r by auto
  ultimately have "skip_spaces m p = Some p" "m p \<noteq> 45" "m p \<noteq> 43"
    by (subst skip_spaces.simps, simp_all)
  then show ?thesis using dec_str_cstr_read [OF assms] assms(2) by (simp add: strtoint_def)
qed

definition hexstep :: "u32 \<Rightarrow> u8 \<Rightarrow> u32" where
  "hexstep u c = (if c \<ge> 48 \<and> c \<le> 57 then push_bit 4 u + ucast (c - 48)
     else if c \<ge> 65 \<and> c \<le> 70 then push_bit 4 u + ucast (c - 65 + 10)
     else if c \<ge> 97 \<and> c \<le> 102 then push_bit 4 u + ucast (c - 97 + 10) else u)"

lemma hextouint_cstr: "cstr m p xs \<Longrightarrow> hextouint_loop m p u = Some (foldl hexstep u xs)"
proof (induction xs arbitrary: p u)
  case Nil
  then show ?case by (subst hextouint_loop.simps) (simp add: cstr_Nil)
next
  case (Cons x xs)
  then show ?case by (subst hextouint_loop.simps) (simp add: cstr_Cons Let_def flip: hexstep_def)
qed

lemma hexdigit_step: "d < 16 \<Longrightarrow> hexstep u (hexdigit (of_nat d)) = push_bit 4 u + of_nat d \<and> hexdigit (of_nat d) \<noteq> 0"
proof -
  assume "d < 16"
  then have "d \<in> {0,1,2,3,4,5,6,7,8,9,10,11,12,13,14,15}" by simp arith
  then show ?thesis by (elim insertE emptyE; simp only: of_nat_numeral of_nat_0 of_nat_1; simp add: hexdigit_def hexstep_def)
qed

lemma foldl_hex:
  "n < 16 ^ l \<Longrightarrow> foldl hexstep 0 (nstr 16 (\<lambda>d. hexdigit (of_nat d)) n l) = of_nat n"
proof (induction l arbitrary: n)
  case 0
  then show ?case by simp
next
  case (Suc l)
  have q: "n div 16 < 16 ^ l" using Suc.prems(1) by (simp add: div_less_iff_less_mult mult.commute)
  have "n = n div 16 * 16 + n mod 16" by simp
  then have "(of_nat n :: u32) = of_nat (n div 16) * 16 + of_nat (n mod 16)" by (metis of_nat_add of_nat_mult of_nat_numeral)
  then show ?case using Suc.IH [OF q] hexdigit_step [of "n mod 16"] by (simp add: push_bit_eq_mult)
qed

lemma hex_str_nonzero: "0 \<notin> set (hex_str u)"
proof -
  have "c \<noteq> 0" if "c \<in> set (nstr 16 (\<lambda>d. hexdigit (of_nat d)) n l)" for c n l
    using that set_nstr [of 16 "\<lambda>d. hexdigit (of_nat d)" n l] hexdigit_step by fastforce
  then show ?thesis by (auto simp: hex_str_def)
qed

lemma length_hex_str: "length (hex_str u) \<le> 8"
  using num_length_u32(2) [of u] by (simp add: hex_str_def)

lemma length_dec_str: "n < 10 ^ 10 \<Longrightarrow> length (dec_str n) \<le> 10"
  using num_length_le [of 10 n 10] by (simp add: dec_str_def)

lemma hextouint_hex_str: "cstr m p (hex_str u) \<Longrightarrow> hextouint m p = Some u"
proof -
  assume "cstr m p (hex_str u)"
  then have "hextouint m p = Some (foldl hexstep 0 (hex_str u))" by (simp add: hextouint_def hextouint_cstr)
  moreover have "foldl hexstep 0 (hex_str u) = u"
    using foldl_hex [OF num_length_less, of "unat u"] by (simp add: hex_str_def hexstep_def)
  ultimately show ?thesis by simp
qed

lemma dec_str_nonzero: "0 \<notin> set (dec_str n)"
  using dec_str_digits [of 0 n] by auto

lemma int_str_props:
  assumes "- (2 ^ 31) \<le> n" "n < 2 ^ 31"
  shows "0 \<notin> set (int_str n)" "length (int_str n) \<le> 11"
proof -
  show "0 \<notin> set (int_str n)" using dec_str_nonzero by (simp add: int_str_def)
  have "nat n < 10 ^ 10" "nat (- n) < 10 ^ 10" using assms by (simp_all add: nat_less_iff)
  then show "length (int_str n) \<le> 11"
    using length_dec_str [of "nat n"] length_dec_str [of "nat (- n)"] by (simp add: int_str_def)
qed

text \<open>
  Numbers survive printing and parsing. Parsing what \<open>inttostr\<close> writes gives the integer
  back, for every integer but the smallest, and parsing what \<open>uinttohexstr\<close> writes gives back
  every unsigned integer; both write a terminated string and touch nothing outside 12 bytes.
\<close>

theorem number_roundtrip:
  assumes "- (2 ^ 31) < n" and "n < 2 ^ 31"
  shows "strtoint (inttostr n out m) out = Some n \<and> (\<forall>a. a \<notin> region out 12 \<longrightarrow> inttostr n out m a = m a)
    \<and> hextouint (uinttohexstr u out m) out = Some u \<and> (\<forall>a. a \<notin> region out 12 \<longrightarrow> uinttohexstr u out m a = m a)"
proof -
  have n: "- (2 ^ 31) \<le> n" using assms(1) by simp
  note props = int_str_props [OF n assms(2)]
  define m1 where "m1 = inttostr n out m"
  have m1: "m1 = put_str out (int_str n @ [0]) m" using inttostr_eq [OF n assms(2)] by (simp add: m1_def)
  have s1: "cstr m1 out (int_str n)" unfolding m1 using cstr_put props by simp
  have "strtoint m1 out = Some n"
  proof (cases "n < 0")
    case True
    let ?k = "nat (- n)"
    have k: "?k < 2 ^ 31" using assms(1) True by (simp add: nat_less_iff)
    have i: "int_str n = 45 # dec_str ?k" using True assms(1) by (simp add: int_str_def)
    then have c: "m1 out = 45" "cstr m1 (out + 1) (dec_str ?k)" using s1 by (simp_all add: cstr_Cons)
    then have "skip_spaces m1 out = Some out" by (subst skip_spaces.simps) simp
    moreover have "s32 n = n" using assms by (intro s32_id) simp_all
    ultimately show ?thesis using dec_str_cstr_read [OF c(2) k] c(1) True by (simp add: strtoint_def)
  next
    case False
    then have "int_str n = dec_str (nat n)" "nat n < 2 ^ 31" using assms by (simp_all add: int_str_def nat_less_iff)
    then show ?thesis using strtoint_dec [of m1 out "nat n"] s1 False by simp
  qed
  moreover have "m1 a = m a" if "a \<notin> region out 12" for a
    unfolding m1 using that props(2) region_mono [of "length (int_str n @ [0])" 12 out] by (intro put_str_outside) auto
  moreover have "hextouint (uinttohexstr u out m) out = Some u"
    unfolding uinttohexstr_eq using hextouint_hex_str [OF cstr_put] hex_str_nonzero [of u] length_hex_str [of u] by simp
  moreover have "uinttohexstr u out m a = m a" if "a \<notin> region out 12" for a
    unfolding uinttohexstr_eq using that length_hex_str [of u] region_mono [of "length (hex_str u @ [0])" 12 out]
    by (intro put_str_outside) auto
  ultimately show ?thesis by (simp add: m1_def)
qed

theorem number_roundtrip_witness: "strtoint (inttostr (- 1207) 0x100 (\<lambda>_. 7)) 0x100 = Some (- 1207)"
  using number_roundtrip [of "- 1207" "0x100" "\<lambda>_. 7" 0] by simp

text \<open>
  The smallest integer is printed wrongly. \<open>inttostr\<close> of \<open>- 2147483648\<close> writes the
  one-character string \<open>"-"\<close>, which \<open>strtoint\<close> reads as 0.
\<close>

theorem inttostr_least:
  "cstr (inttostr (- (2 ^ 31)) out m) out [45] \<and> strtoint (inttostr (- (2 ^ 31)) out m) out = Some 0"
proof -
  define m1 where "m1 = inttostr (- (2 ^ 31)) out m"
  have "m1 = put_str out ([45] @ [0]) m" using inttostr_eq [of "- (2 ^ 31)" out m] by (simp add: m1_def int_str_def)
  then have s: "cstr m1 out [45]" using cstr_put [of "[45]" out m] by simp
  then have c: "m1 out = 45" "m1 (out + 1) = 0" by (simp_all add: cstr_Cons cstr_Nil)
  then have "skip_spaces m1 out = Some out" by (subst skip_spaces.simps) simp
  moreover have "read_digits m1 (out + 1) 0 = Some 0" using c(2) by (subst read_digits.simps) simp
  ultimately show ?thesis using s c by (simp add: strtoint_def m1_def)
qed

section \<open>Copying overlapping memory\<close>

lemma unat_at: "unat p + i < 2 ^ 32 \<Longrightarrow> unat (at p i) = unat p + i"
  using unat_of_nat_u32 [of i] by (simp add: at_def unat_word_ariths)

lemma memmove_up_copies:
  assumes "unat s + n \<le> 2 ^ 32" "d < s"
  shows "(\<forall>i<n. memmove_up d s n m (at d i) = m (at s i)) \<and> (\<forall>a. a \<notin> region d n \<longrightarrow> memmove_up d s n m a = m a)"
  using assms
proof (induction n arbitrary: d s m)
  case 0
  then show ?case by simp
next
  case (Suc k)
  let ?m = "m(d := m s)"
  have ih: "(\<forall>i<k. memmove_up (d + 1) (s + 1) k ?m (at (d + 1) i) = ?m (at (s + 1) i))
      \<and> (\<forall>a. a \<notin> region (d + 1) k \<longrightarrow> memmove_up (d + 1) (s + 1) k ?m a = ?m a)"
  proof (cases "k = 0")
    case False
    then have "unat (at s 1) = unat s + 1" "unat (at d 1) = unat d + 1"
      using unat_at [of s 1] unat_at [of d 1] Suc.prems False unfolding word_less_nat_alt by linarith+
    then have "unat (s + 1) + k \<le> 2 ^ 32" "d + 1 < s + 1" using Suc.prems by (simp_all add: at_def word_less_nat_alt)
    then show ?thesis by (rule Suc.IH)
  qed simp
  have no: "at s (Suc i) \<noteq> d" if "i < k" for i
  proof
    assume "at s (Suc i) = d"
    then have "unat d = unat s + Suc i" using unat_at [of s "Suc i"] Suc.prems(1) that by simp
    then show False using Suc.prems(2) by (simp add: word_less_nat_alt)
  qed
  have "d \<notin> region (d + 1) k"
  proof
    assume "d \<in> region (d + 1) k"
    then obtain j where "j < k" "at d 0 = at d (Suc j)" by (auto simp: region_def at_Suc)
    then show False using at_inj [of 0 "Suc j" d] Suc.prems(1) by simp
  qed
  then have "memmove_up d s (Suc k) m d = m s" using ih by simp
  moreover have "memmove_up d s (Suc k) m (at d (Suc i)) = m (at s (Suc i))" if "i < k" for i
    using ih that no [OF that] by (simp add: at_Suc)
  moreover have "memmove_up d s (Suc k) m a = m a" if "a \<notin> region d (Suc k)" for a
    using ih that by (auto simp: region_Suc_front)
  ultimately show ?case by (auto simp: less_Suc_eq_0_disj)
qed

lemma memmove_down_copies:
  assumes "unat d + n \<le> 2 ^ 32" "s < d"
  shows "(\<forall>i<n. memmove_down (at d n) (at s n) n m (at d i) = m (at s i))
    \<and> (\<forall>a. a \<notin> region d n \<longrightarrow> memmove_down (at d n) (at s n) n m a = m a)"
  using assms
proof (induction n arbitrary: m)
  case 0
  then show ?case by simp
next
  case (Suc k)
  let ?m = "m(at d k := m (at s k))"
  have "at p (Suc k) - 1 = at p k" for p by (simp add: at_def)
  then have step: "memmove_down (at d (Suc k)) (at s (Suc k)) (Suc k) m = memmove_down (at d k) (at s k) k ?m" by simp
  have ih: "(\<forall>i<k. memmove_down (at d k) (at s k) k ?m (at d i) = ?m (at s i))
    \<and> (\<forall>a. a \<notin> region d k \<longrightarrow> memmove_down (at d k) (at s k) k ?m a = ?m a)"
    by (rule Suc.IH) (use Suc.prems in simp_all)
  have no: "at s i \<noteq> at d k" if "i < k" for i
  proof
    assume "at s i = at d k"
    then have "unat s + i = unat d + k"
      using unat_at [of s i] unat_at [of d k] Suc.prems that by (simp add: word_less_nat_alt)
    then show False using Suc.prems(2) that by (simp add: word_less_nat_alt)
  qed
  have "at d k \<notin> region d k" using Suc.prems(1) by (intro at_notin_region) auto
  then have "memmove_down (at d k) (at s k) k ?m (at d k) = m (at s k)" using ih by simp
  moreover have "memmove_down (at d k) (at s k) k ?m (at d i) = m (at s i)" if "i < k" for i
    using ih that no [OF that] by simp
  moreover have "memmove_down (at d k) (at s k) k ?m a = m a" if "a \<notin> region d (Suc k)" for a
    using ih that by (auto simp: region_Suc)
  ultimately show ?case unfolding step by (auto simp: less_Suc_eq)
qed

text \<open>
  \<open>memmove\<close> copies also when source and destination overlap: afterwards the destination holds the bytes
  the source held before, in order, and no other byte of memory has changed. (Neither block may wrap around
  the end of the address space.)
\<close>

theorem memmove_copies:
  assumes "unat dest + n \<le> 2 ^ 32" and "unat src + n \<le> 2 ^ 32"
  shows "(\<forall>i<n. memmove dest src n m (at dest i) = m (at src i))
    \<and> (\<forall>a. a \<notin> region dest n \<longrightarrow> memmove dest src n m a = m a)"
proof -
  consider "dest < src" | "src < dest" | "dest = src" by (rule linorder_cases)
  then show ?thesis
    using memmove_up_copies [OF assms(2), of dest m] memmove_down_copies [OF assms(1), of src m]
    by cases (auto simp: memmove_def)
qed

theorem memmove_copies_witness:
  "memmove 0x101 0x100 3 (\<lambda>a. ucast a) (at 0x101 2) = (ucast (at 0x100 2 :: u32) :: u8)"
  using memmove_copies [of "0x101" 3 "0x100" "\<lambda>a. ucast a"] by simp

section \<open>Filling memory\<close>

text \<open>The loop that stores one byte at a time.\<close>

definition memset_bytes :: "u32 \<Rightarrow> u8 \<Rightarrow> nat \<Rightarrow> mem_t \<Rightarrow> mem_t" where
  "memset_bytes dest ch n m = fold (\<lambda>i m. m(at dest i := ch)) [0..<n] m"

definition fill :: "u32 \<Rightarrow> u8 \<Rightarrow> nat \<Rightarrow> mem_t \<Rightarrow> mem_t" where
  "fill p c n m = (\<lambda>a. if a \<in> region p n then c else m a)"

lemma memset_bytes_fill: "memset_bytes p c n m = fill p c n m"
  by (induction n) (auto simp: memset_bytes_def fill_def region_Suc fun_eq_iff)

lemma region_add: "region p (i + j) = region p i \<union> region (at p i) j"
  by (induction j) (auto simp: region_Suc at_at)

lemma fill_add: "fill (at p i) c j (fill p c i m) = fill p c (i + j) m"
  by (auto simp: fill_def region_add fun_eq_iff)

lemma fill_4:
  assumes "ucast v = c" "ucast (drop_bit 8 v) = c" "ucast (drop_bit 16 v) = c" "ucast (drop_bit 24 v) = c"
  shows "put_u32 p v m = fill p c 4 m"
proof -
  have "region p 4 = {p, p + 1, p + 2, p + 3}" by (simp add: numeral_eq_Suc region_Suc at_def insert_commute)
  then show ?thesis using assms by (auto simp: put_u32_def fill_def fun_eq_iff)
qed

lemma rep_stosl_fill:
  assumes "ucast v = c" "ucast (drop_bit 8 v) = c" "ucast (drop_bit 16 v) = c" "ucast (drop_bit 24 v) = c"
  shows "rep_stosl p v n m = (at p (4 * n), fill p c (4 * n) m)"
proof -
  have "fold (\<lambda>i m. put_u32 (at p (4 * i)) v m) [0..<n] m = fill p c (4 * n) m"
  proof (induction n)
    case 0
    then show ?case by (simp add: fill_def)
  next
    case (Suc n)
    then show ?case using fill_4 [OF assms, of "at p (4 * n)"] by (simp add: fill_add add.commute)
  qed
  then show ?thesis by (simp add: rep_stosl_def)
qed

lemma stos_value:
  fixes ch :: u8
  defines "v \<equiv> (ucast ch OR push_bit 8 (ucast ch)) OR push_bit 16 (ucast ch OR push_bit 8 (ucast ch)) :: u32"
  shows "ucast v = ch" "ucast (drop_bit 8 v) = ch" "ucast (drop_bit 16 v) = ch" "ucast (drop_bit 24 v) = ch"
proof -
  have big: "\<not> bit ch i" if "8 \<le> i" for i using that by (auto dest: bit_imp_le_length)
  show "ucast v = ch" "ucast (drop_bit 8 v) = ch" "ucast (drop_bit 16 v) = ch" "ucast (drop_bit 24 v) = ch"
    unfolding v_def by (rule bit_word_eqI; simp add: bit_simps big)+
qed

lemma rep_stosb_fill: "rep_stosb p c n m = (at p n, fill p c n m)"
  by (simp add: rep_stosb_def flip: memset_bytes_fill) (simp add: memset_bytes_def)

lemma prefix_small: "unat ((4 - (dest AND 3)) AND 3 :: u32) \<le> 3"
  using word_and_le1 [of "4 - (dest AND 3)" 3] by (simp add: word_le_nat_alt)

lemma memset_fill: "memset dest ch count m = fill dest ch (nat count) m"
proof (cases "count < 16")
  case True
  then show ?thesis by (simp add: memset_def rep_stosb_fill fill_def region_def)
next
  case False
  define pre where "pre = unat ((4 - (dest AND 3)) AND 3 :: u32)"
  define c1 where "c1 = nat count - pre"
  have le: "pre \<le> nat count" using prefix_small [of dest] False unfolding pre_def by linarith
  have start: "(if pre > 0 then rep_stosb dest ch pre m else (dest, m)) = (at dest pre, fill dest ch pre m)"
    by (simp add: rep_stosb_fill fill_def region_def at_def)
  have bulk: "(if c1 div 4 > 0 then rep_stosl p v (c1 div 4) m' else (p, m')) = (at p (4 * (c1 div 4)), fill p ch (4 * (c1 div 4)) m')"
    if "v = (ucast ch OR push_bit 8 (ucast ch)) OR push_bit 16 (ucast ch OR push_bit 8 (ucast ch))" for p v m'
    unfolding that using rep_stosl_fill [OF stos_value] by (auto simp: fill_def region_def at_def)
  have rest: "(if n > 0 then snd (rep_stosb p ch n m') else m') = fill p ch n m'" for p n m'
    by (simp add: rep_stosb_fill fill_def region_def)
  have "memset dest ch count m = fill (at (at dest pre) (4 * (c1 div 4))) ch (c1 mod 4)
      (fill (at dest pre) ch (4 * (c1 div 4)) (fill dest ch pre m))"
    using False unfolding memset_def Let_def pre_def [symmetric] c1_def [symmetric] start prod.case
    by (simp only: bulk rest prod.case) simp
  also have "\<dots> = fill dest ch (pre + (4 * (c1 div 4) + c1 mod 4)) m" by (simp only: fill_add at_at add.assoc)
  also have "pre + (4 * (c1 div 4) + c1 mod 4) = nat count" using le by (simp add: c1_def)
  finally show ?thesis .
qed

lemma put_pair:
  fixes v :: u16
  shows "put_u32 d (push_bit 16 (ucast v) OR ucast v) m = put_u16 (d + 2) v (put_u16 d v m)"
proof -
  have big: "\<not> bit v i" if "16 \<le> i" for i using that by (auto dest: bit_imp_le_length)
  have "ucast (push_bit 16 (ucast v) OR ucast v :: u32) = (ucast v :: u8)"
    "ucast (drop_bit 8 (push_bit 16 (ucast v) OR ucast v :: u32)) = (ucast (drop_bit 8 v) :: u8)"
    "ucast (drop_bit 16 (push_bit 16 (ucast v) OR ucast v :: u32)) = (ucast v :: u8)"
    "ucast (drop_bit 24 (push_bit 16 (ucast v) OR ucast v :: u32)) = (ucast (drop_bit 8 v) :: u8)"
    by (rule bit_word_eqI; simp add: bit_simps big)+
  then show ?thesis by (simp add: put_u32_def put_u16_def add.assoc)
qed

lemma memset16_pairs_rest:
  "(case memset16_pairs d (push_bit 16 (ucast v) OR ucast v) n m of (d', c, m') \<Rightarrow> memset16_rest d' v c m') = memset16_rest d v n m"
  by (induction d "push_bit 16 (ucast v) OR ucast v :: u32" n m rule: memset16_pairs.induct) (simp_all add: put_pair add.assoc)

text \<open>
  C26: the fast fills agree with the plain loops. Whatever the alignment and the length, \<open>memset\<close> with its byte prefix,
  its double-word bulk and its byte tail leaves the memory the byte-at-a-time loop leaves (a count that is
  zero or negative changes nothing), and \<open>memset16\<close> with its paired stores leaves the memory its own
  half-word loop leaves.
\<close>

theorem memset_equiv:
  "memset dest ch count m = memset_bytes dest ch (nat count) m \<and> memset16 dest v n m = memset16_rest dest v n m"
  using memset16_pairs_rest [of v dest n m] by (simp add: memset_fill memset_bytes_fill memset16_def split: prod.splits)

section \<open>Formatted output\<close>

lemma strncat_loop_cstr:
  assumes "cstr m src ys" "region src (length ys + 1) \<inter> region ptr (n + 1) = {}"
  shows "strncat_loop ptr src n m = put_str ptr (take n ys @ [0]) m"
  using assms
proof (induction n arbitrary: ptr src ys m)
  case 0
  then show ?case by simp
next
  case (Suc n)
  show ?case
  proof (cases ys)
    case Nil
    then show ?thesis using Suc.prems(1) by (simp add: cstr_Nil)
  next
    case (Cons y zs)
    have d: "region (src + 1) (length zs + 1) \<inter> region (ptr + 1) (n + 1) = {}" "ptr \<notin> region (src + 1) (length zs + 1)"
      using Suc.prems(2) Cons by (simp_all add: region_Suc_front)
    have c: "cstr m (src + 1) zs" "m src = y" "y \<noteq> 0" using Suc.prems(1) Cons by (simp_all add: cstr_Cons)
    have "cstr (m(ptr := y)) (src + 1) zs" by (rule cstr_cong [OF c(1)]) (use d(2) in auto)
    from Suc.IH [OF this d(1)] show ?thesis using Cons c by (simp del: fun_upd_apply)
  qed
qed

text \<open>Appending to a buffer with room for \<open>k\<close> characters and the terminator, \<open>r\<close> of them unused.\<close>

definition partial :: "u32 \<Rightarrow> nat \<Rightarrow> nat \<Rightarrow> u8 list \<Rightarrow> mem_t \<Rightarrow> bool" where
  "partial buffer k r xs m \<longleftrightarrow> cstr m buffer xs \<and> length xs + r = k \<and> k < 2 ^ 31"

lemma partial_upd:
  assumes "partial buffer k r xs m" "\<And>a. a \<in> region buffer (k + 1) \<Longrightarrow> m' a = m a"
  shows "partial buffer k r xs m'"
  using assms region_mono [of "length xs + 1" "k + 1" buffer] unfolding partial_def by (auto intro!: cstr_cong [of m])

lemma strncat_appends:
  assumes "partial buffer k r xs m" "cstr m src ys" "region src (length ys + 1) \<inter> region buffer (k + 1) = {}"
  obtains m' where "strncat buffer src r m = Some m'" "partial buffer k (r - length ys) (xs @ take r ys) m'"
    "\<And>a. a \<notin> region buffer (k + 1) \<Longrightarrow> m' a = m a"
proof -
  let ?e = "at buffer (length xs)" and ?t = "take r ys @ [0]"
  have p: "cstr m buffer xs" "length xs + r = k" "k < 2 ^ 31" using assms(1) by (simp_all add: partial_def)
  then have sub: "region ?e (r + 1) \<subseteq> region buffer (k + 1)" using region_add [of buffer "length xs" "r + 1"] by auto
  then have "strncat_loop ?e src r m = put_str ?e ?t m" using assms(2,3) by (intro strncat_loop_cstr) auto
  then have run: "strncat buffer src r m = Some (put_str ?e ?t m)" using to_end_cstr [OF p(1)] by (simp add: strncat_def)
  have nz: "0 \<notin> set xs" "0 \<notin> set ys" using p(1) assms(2) by (simp_all add: cstr_def)
  have low: "put_str ?e ?t m (at buffer i) = xs ! i" if "i < length xs" for i
  proof -
    have "at buffer i \<notin> region ?e (length ?t)"
    proof
      assume "at buffer i \<in> region ?e (length ?t)"
      then obtain j where "j < length ?t" "at buffer i = at buffer (length xs + j)" by (auto simp: region_def at_at)
      moreover from this have "length xs + j < 2 ^ 32" using p by simp
      ultimately show False using at_inj [of i "length xs + j" buffer] that by simp
    qed
    then show ?thesis using p(1) that by (simp add: put_str_outside cstr_def)
  qed
  have high: "put_str ?e ?t m (at buffer (length xs + j)) = ?t ! j" if "j < length ?t" for j
    using put_str_nth [of j ?t ?e m] that p by (simp add: at_at)
  have "cstr (put_str ?e ?t m) buffer (xs @ take r ys)"
    unfolding cstr_def
  proof (intro conjI allI impI)
    fix i assume i: "i < length (xs @ take r ys)"
    show "put_str ?e ?t m (at buffer i) = (xs @ take r ys) ! i"
      using low [of i] high [of "i - length xs"] i by (cases "i < length xs") (auto simp: nth_append)
  next
    show "put_str ?e ?t m (at buffer (length (xs @ take r ys))) = 0"
      using high [of "length (take r ys)"] by (simp add: nth_append)
  qed (use nz p in \<open>auto dest: in_set_takeD\<close>)
  then have "partial buffer k (r - length ys) (xs @ take r ys) (put_str ?e ?t m)" using p by (simp add: partial_def)
  moreover have "put_str ?e ?t m a = m a" if "a \<notin> region buffer (k + 1)" for a
    using that sub region_mono [of "length ?t" "r + 1" ?e] by (intro put_str_outside) auto
  ultimately show thesis using that [OF run] by blast
qed

text \<open>
  What a format string produces: \<open>conv_spec\<close> the text of one conversion and the arguments left, with \<open>str\<close>
  the strings the \<open>%s\<close> arguments point to; \<open>fmt_strs\<close> those arguments.
\<close>

definition conv_spec :: "(u32 \<Rightarrow> u8 list) \<Rightarrow> u8 \<Rightarrow> u32 list \<Rightarrow> (u8 list \<times> u32 list) option" where
  "conv_spec str c args =
     (if c \<in> {105, 117, 104, 115, 99, 112} then
        (case args of [] \<Rightarrow> None
         | a # as \<Rightarrow> Some (if c = 105 then int_str (sint a) else if c = 117 then dec_str (unat a)
             else if c = 104 then hex_str a else if c = 115 then (if a = 0 then [] else str a)
             else if c = 99 then filter (\<lambda>x. x \<noteq> 0) [ucast a] else [48, 120] @ hex_str a, as))
      else Some ([37, c], args))"

fun fmt_spec :: "(u32 \<Rightarrow> u8 list) \<Rightarrow> u8 list \<Rightarrow> u32 list \<Rightarrow> u8 list option" where
  "fmt_spec str [] args = Some []"
| "fmt_spec str [x] args = Some [x]"
| "fmt_spec str (x # c # f) args =
     (if x = 37 then
        (case conv_spec str c args of None \<Rightarrow> None | Some (t, as) \<Rightarrow> map_option (append t) (fmt_spec str f as))
      else map_option (Cons x) (fmt_spec str (c # f) args))"

fun fmt_strs :: "u8 list \<Rightarrow> u32 list \<Rightarrow> u32 list" where
  "fmt_strs (x # c # f) args =
     (if x = 37 then (if c = 115 then filter (\<lambda>a. a \<noteq> 0) (take 1 args) else [])
        @ fmt_strs f (if c \<in> {105, 117, 104, 115, 99, 112} then drop 1 args else args)
      else fmt_strs (c # f) args)"
| "fmt_strs f args = []"

text \<open>Appending the text the array \<open>tmp\<close> has just received.\<close>

definition tmp_holds :: "u32 \<Rightarrow> u8 list \<Rightarrow> mem_t \<Rightarrow> mem_t \<Rightarrow> bool" where
  "tmp_holds tmp t m m1 \<longleftrightarrow> cstr m1 tmp t \<and> length t \<le> 11 \<and> (\<forall>a. a \<notin> region tmp 12 \<longrightarrow> m1 a = m a)"

lemma tmp_holds_put: "0 \<notin> set t \<Longrightarrow> length t \<le> 11 \<Longrightarrow> tmp_holds tmp t m (put_str tmp (t @ [0]) m)"
  using region_mono [of "length (t @ [0])" 12 tmp] by (auto simp: tmp_holds_def intro!: cstr_put put_str_outside)

lemma tmp_appends:
  assumes "partial buffer k r xs m" "region buffer (k + 1) \<inter> region tmp 12 = {}" "tmp_holds tmp t m m1"
  obtains m' where "strlen m1 tmp = Some (length t)" "strncat buffer tmp r m1 = Some m'"
    "partial buffer k (r - length t) (xs @ take r t) m'" "\<And>a. a \<notin> region buffer (k + 1) \<union> region tmp 12 \<Longrightarrow> m' a = m a"
proof -
  have c: "cstr m1 tmp t" and o: "\<And>a. a \<notin> region tmp 12 \<Longrightarrow> m1 a = m a" using assms(3) by (simp_all add: tmp_holds_def)
  have sub: "region tmp (length t + 1) \<subseteq> region tmp 12" using assms(3) by (intro region_mono) (simp add: tmp_holds_def)
  have "partial buffer k r xs m1" by (rule partial_upd [OF assms(1)]) (use o assms(2) in blast)
  then obtain m' where m': "strncat buffer tmp r m1 = Some m'" "partial buffer k (r - length t) (xs @ take r t) m'"
      "\<And>a. a \<notin> region buffer (k + 1) \<Longrightarrow> m' a = m1 a"
    by (rule strncat_appends [OF _ c]) (use sub assms(2) in blast)+
  then show thesis using that strlen_cstr [OF c] o by auto
qed

text \<open>One conversion appends its text to the buffer and goes on after it.\<close>

definition converts :: "u32 \<Rightarrow> u32 \<Rightarrow> u32 \<Rightarrow> nat \<Rightarrow> u32 \<Rightarrow> u32 list \<Rightarrow> nat \<Rightarrow> u8 list \<Rightarrow> mem_t \<Rightarrow> u8 list \<Rightarrow> u32 list \<Rightarrow> bool" where
  "converts buffer tmp lit k p args r xs m t as \<longleftrightarrow>
     (\<exists>m'. vsnprintf_loop buffer tmp lit p args r m = vsnprintf_loop buffer tmp lit (p + 1 + 1) as (r - length t) m'
        \<and> partial buffer k (r - length t) (xs @ take r t) m'
        \<and> (\<forall>a. a \<notin> region buffer (k + 1) \<union> region tmp 12 \<longrightarrow> m' a = m a))"

lemma convert_run:
  assumes "0 < r" "m p = 37" "m (p + 1) = c" "c \<noteq> 0" "convert buffer tmp lit c args r m = Some (app, as, r1, m1)"
  shows "app = 0 \<Longrightarrow> vsnprintf_loop buffer tmp lit p args r m = vsnprintf_loop buffer tmp lit (p + 1 + 1) as r1 m1"
    and "app \<noteq> 0 \<Longrightarrow> strlen m1 app = Some len \<Longrightarrow> strncat buffer app r1 m1 = Some m2 \<Longrightarrow>
      vsnprintf_loop buffer tmp lit p args r m = vsnprintf_loop buffer tmp lit (p + 1 + 1) as (r1 - len) m2"
  using assms by (subst vsnprintf_loop.simps, simp add: min_def)+

lemma converts_tmp:
  assumes "0 < r" "m p = 37" "m (p + 1) = c" "c \<noteq> 0" "tmp \<noteq> 0"
    and "convert buffer tmp lit c args r m = Some (tmp, as, r, m1)" "tmp_holds tmp t m m1"
    and "partial buffer k r xs m" "region buffer (k + 1) \<inter> region tmp 12 = {}"
  shows "converts buffer tmp lit k p args r xs m t as"
proof -
  obtain m' where m': "strlen m1 tmp = Some (length t)" "strncat buffer tmp r m1 = Some m'"
    "partial buffer k (r - length t) (xs @ take r t) m'" "\<And>a. a \<notin> region buffer (k + 1) \<union> region tmp 12 \<Longrightarrow> m' a = m a"
    using tmp_appends [OF assms(8,9,7)] by blast
  then show ?thesis using convert_run(2) [OF assms(1-4,6,5) m'(1,2)] by (auto simp: converts_def)
qed

lemma converts_str:
  assumes "0 < r" "m p = 37" "m (p + 1) = 115" and "partial buffer k r xs m"
    and "a \<noteq> 0 \<Longrightarrow> cstr m a ys \<and> region a (length ys + 1) \<inter> region buffer (k + 1) = {}"
  shows "converts buffer tmp lit k p (a # as) r xs m (if a = 0 then [] else ys) as"
proof (cases "a = 0")
  case True
  then have "convert buffer tmp lit 115 (a # as) r m = Some (0, as, r, m)" by (simp add: convert_def)
  from convert_run(1) [OF assms(1-3) _ this] show ?thesis using True assms(4) by (auto simp: converts_def)
next
  case False
  obtain m' where m': "strncat buffer a r m = Some m'" "partial buffer k (r - length ys) (xs @ take r ys) m'"
    "\<And>b. b \<notin> region buffer (k + 1) \<Longrightarrow> m' b = m b"
    using strncat_appends [OF assms(4), of a ys] assms(5) [OF False] by blast
  have "strlen m a = Some (length ys)" using strlen_cstr assms(5) [OF False] by blast
  moreover have "convert buffer tmp lit 115 (a # as) r m = Some (a, as, r, m)" by (simp add: convert_def)
  ultimately show ?thesis using convert_run(2) [OF assms(1-3) _ _ False _ m'(1)] False m' by (auto simp: converts_def)
qed

lemma converts_ptr:
  assumes "0 < r" "m p = 37" "m (p + 1) = 112" "tmp \<noteq> 0" "partial buffer k r xs m" "region buffer (k + 1) \<inter> region tmp 12 = {}"
    and "cstr m lit [48, 120]" "region lit 3 \<inter> region buffer (k + 1) = {}"
  shows "converts buffer tmp lit k p (a # as) r xs m ([48, 120] @ hex_str a) as"
proof -
  obtain m1 where m1: "strncat buffer lit r m = Some m1" "partial buffer k (r - 2) (xs @ take r [48, 120]) m1"
    "\<And>b. b \<notin> region buffer (k + 1) \<Longrightarrow> m1 b = m b"
    using strncat_appends [OF assms(5,7)] assms(8) by (auto simp: numeral_3_eq_3 numeral_2_eq_2)
  let ?t = "hex_str a"
  have tmp: "tmp_holds tmp ?t m1 (put_str tmp (?t @ [0]) m1)"
    by (rule tmp_holds_put) (use hex_str_nonzero [of a] length_hex_str [of a] in simp_all)
  obtain m' where m': "strlen (put_str tmp (?t @ [0]) m1) tmp = Some (length ?t)"
    "strncat buffer tmp (r - 2) (put_str tmp (?t @ [0]) m1) = Some m'"
    "partial buffer k (r - 2 - length ?t) ((xs @ take r [48, 120]) @ take (r - 2) ?t) m'"
    "\<And>a. a \<notin> region buffer (k + 1) \<union> region tmp 12 \<Longrightarrow> m' a = m1 a"
    using tmp_appends [OF m1(2) assms(6) tmp] by blast
  have "convert buffer tmp lit 112 (a # as) r m = Some (tmp, as, r - 2, put_str tmp (?t @ [0]) m1)"
    using m1(1) by (simp add: convert_def uinttohexstr_eq)
  moreover have "take r ([48, 120] @ ?t) = take r [48, 120] @ take (r - 2) ?t"
    by (subst take_append) (simp add: numeral_2_eq_2)
  ultimately show ?thesis
    unfolding converts_def using convert_run(2) [OF assms(1-3) _ _ assms(4) m'(1,2)] m'(3,4) m1(3) by (intro exI [of _ m']) simp
qed

lemma conversion_step:
  assumes "conv_spec str c args = Some (t, as)" "0 < r" "m p = 37" "m (p + 1) = c" "c \<noteq> 0"
    and "partial buffer k r xs m" "region buffer (k + 1) \<inter> region tmp 12 = {}" "tmp \<noteq> 0"
    and "cstr m lit [48, 120]" "region lit 3 \<inter> region buffer (k + 1) = {}"
    and "\<And>a. c = 115 \<Longrightarrow> a \<in> set (take 1 args) \<Longrightarrow> a \<noteq> 0 \<Longrightarrow>
      cstr m a (str a) \<and> region a (length (str a) + 1) \<inter> region buffer (k + 1) = {}"
  shows "converts buffer tmp lit k p args r xs m t as"
proof -
  note tmp = converts_tmp [OF assms(2-5,8) _ _ assms(6,7)]
  note put = tmp [OF _ tmp_holds_put]
  consider (default) "c \<notin> {105, 117, 104, 115, 99, 112}" | a where "args = a # as" "c \<in> {105, 117, 104, 115, 99, 112}"
    using assms(1) by (auto simp: conv_spec_def split: if_splits list.splits)
  then show ?thesis
  proof cases
    case default
    then have "t = [37, c]" "as = args" using assms(1) by (simp_all add: conv_spec_def)
    then show ?thesis using default assms(5) by (intro put) (simp_all add: convert_def at_def add.commute [of 2])
  next
    case (2 a)
    then consider "c = 105" | "c = 117" | "c = 104" | "c = 115" | "c = 99" | "c = 112" by auto
    then show ?thesis
    proof cases
      case 1
      have s: "- (2 ^ 31) \<le> sint a" "sint a < 2 ^ 31" using sint_ge [of a] sint_less [of a] by simp_all
      have "t = int_str (sint a)" using 1 2 assms(1) by (simp add: conv_spec_def)
      then show ?thesis using 1 2 inttostr_eq [OF s] int_str_props [OF s] by (intro put) (simp_all add: convert_def)
    next
      case c: 2
      have "unat a < 10 ^ 10" using unsigned_less [of a, where 'a = nat] by simp
      moreover have "t = dec_str (unat a)" using c 2 assms(1) by (simp add: conv_spec_def)
      ultimately show ?thesis using c 2 length_dec_str [of "unat a"] dec_str_nonzero
        by (intro put) (simp_all add: convert_def uinttostr_eq)
    next
      case 3
      then have "t = hex_str a" using 2 assms(1) by (simp add: conv_spec_def)
      then show ?thesis using 3 2 length_hex_str [of a] hex_str_nonzero by (intro put) (simp_all add: convert_def uinttohexstr_eq)
    next
      case 4
      then have "t = (if a = 0 then [] else str a)" using 2 assms(1) by (simp add: conv_spec_def)
      then show ?thesis using converts_str [OF assms(2,3) _ assms(6)] assms(4,11) 4 2 by simp
    next
      case 5
      let ?m = "(m(tmp := ucast a))(at tmp 1 := 0)"
      have t: "t = filter (\<lambda>x. x \<noteq> 0) [ucast a]" using 5 2 assms(1) by (simp add: conv_spec_def)
      have "at tmp 0 \<in> region tmp 12" "at tmp 1 \<in> region tmp 12" "at tmp 0 \<noteq> at tmp 1"
        using at_inj [of 0 1 tmp] by (auto simp del: at_0)
      then have "tmp_holds tmp t m ?m" using t by (auto simp: tmp_holds_def cstr_def)
      then show ?thesis using 5 2 by (intro tmp) (simp_all add: convert_def)
    next
      case 6
      then have "t = [48, 120] @ hex_str a" using 2 assms(1) by (simp add: conv_spec_def)
      then show ?thesis using converts_ptr [OF assms(2,3) _ assms(8,6,7,9,10)] assms(4) 6 2 by simp
    qed
  qed
qed

lemma plain_step:
  assumes "0 < r" "m p = x" "x \<noteq> 0" "\<not> (x = 37 \<and> m (p + 1) \<noteq> 0)"
    and "partial buffer k r xs m" "region buffer (k + 1) \<inter> region tmp 12 = {}"
  obtains m' where "vsnprintf_loop buffer tmp lit p args r m = vsnprintf_loop buffer tmp lit (p + 1) args (r - 1) m'"
    "partial buffer k (r - 1) (xs @ [x]) m'" "\<And>a. a \<notin> region buffer (k + 1) \<union> region tmp 12 \<Longrightarrow> m' a = m a"
proof -
  have "tmp_holds tmp [x] m (put_str tmp ([x] @ [0]) m)" by (rule tmp_holds_put) (use assms(3) in simp_all)
  from tmp_appends [OF assms(5,6) this] obtain m' where m': "strncat buffer tmp r (put_str tmp ([x] @ [0]) m) = Some m'"
    "partial buffer k (r - length [x]) (xs @ take r [x]) m'" "\<And>a. a \<notin> region buffer (k + 1) \<union> region tmp 12 \<Longrightarrow> m' a = m a"
    by blast
  have "vsnprintf_loop buffer tmp lit p args r m = vsnprintf_loop buffer tmp lit (p + 1) args (r - 1) m'"
    using assms(1-4) m'(1) by (subst vsnprintf_loop.simps) (auto simp: at_def)
  moreover have "partial buffer k (r - 1) (xs @ [x]) m'" using m'(2) assms(1) by (cases r) simp_all
  ultimately show thesis using that m'(3) by blast
qed

lemma cstr_frame: "cstr m p f \<Longrightarrow> region p (length f + 1) \<inter> W = {} \<Longrightarrow> (\<And>a. a \<notin> W \<Longrightarrow> m' a = m a) \<Longrightarrow> cstr m' p f"
  by (rule cstr_cong) blast+

text \<open>
  The whole run, from any point of the format: \<open>W\<close> are the bytes it may write, \<open>readable\<close> what it
  reads and never writes.
\<close>

definition readable :: "(u32 \<Rightarrow> u8 list) \<Rightarrow> u32 set \<Rightarrow> u32 \<Rightarrow> u8 list \<Rightarrow> u32 list \<Rightarrow> u32 \<Rightarrow> mem_t \<Rightarrow> bool" where
  "readable str W p f args lit m \<longleftrightarrow> cstr m p f \<and> region p (length f + 1) \<inter> W = {}
     \<and> cstr m lit [48, 120] \<and> region lit 3 \<inter> W = {}
     \<and> (\<forall>a\<in>set (fmt_strs f args). cstr m a (str a) \<and> region a (length (str a) + 1) \<inter> W = {})"

lemma readable_frame:
  assumes "readable str W p f args lit m" "\<And>a. a \<notin> W \<Longrightarrow> m' a = m a"
  shows "readable str W p f args lit m'"
proof -
  have c: "cstr m' q xs" if "cstr m q xs" "region q (length xs + 1) \<inter> W = {}" for q xs
    using cstr_frame [OF that assms(2)] .
  show ?thesis using assms(1) c [of p f] c [of lit "[48, 120]"] c unfolding readable_def by (simp add: numeral_3_eq_3)
qed

lemma readable_plain:
  "readable str W p (x # c # f) args lit m \<Longrightarrow> x \<noteq> 37 \<Longrightarrow> readable str W (p + 1) (c # f) args lit m"
  by (auto simp: readable_def cstr_Cons region_Suc_front)

lemma readable_conv:
  assumes "readable str W p (37 # c # f) args lit m" "conv_spec str c args = Some (t, as)"
  shows "readable str W (p + 1 + 1) f as lit m"
proof -
  have "as = (if c \<in> {105, 117, 104, 115, 99, 112} then drop 1 args else args)"
    using assms(2) by (auto simp: conv_spec_def split: if_splits list.splits)
  then show ?thesis using assms(1) by (auto simp: readable_def cstr_Cons region_Suc_front)
qed

lemma vsnprintf_loop_spec:
  assumes "fmt_spec str f args = Some out" "readable str W p f args lit m" "partial buffer k r xs m"
    and "region buffer (k + 1) \<inter> region tmp 12 = {}" "tmp \<noteq> 0" "W = region buffer (k + 1) \<union> region tmp 12"
  shows "\<exists>m'. vsnprintf_loop buffer tmp lit p args r m = Some (r - length out, m')
    \<and> partial buffer k (r - length out) (xs @ take r out) m' \<and> (\<forall>a. a \<notin> W \<longrightarrow> m' a = m a)"
  using assms(1-3)
proof (induction str f args arbitrary: out m p r xs rule: fmt_spec.induct)
  case (1 str args)
  then show ?case by (subst vsnprintf_loop.simps) (auto simp: readable_def cstr_Nil)
next
  case (2 str x args)
  then have c: "m p = x" "x \<noteq> 0" "m (p + 1) = 0" "p + 1 \<notin> W" by (auto simp: readable_def cstr_Cons cstr_Nil region_Suc_front)
  show ?case
  proof (cases "r = 0")
    case True
    then show ?thesis using 2 by (subst vsnprintf_loop.simps) auto
  next
    case False
    then obtain m' where m': "vsnprintf_loop buffer tmp lit p args r m = vsnprintf_loop buffer tmp lit (p + 1) args (r - 1) m'"
      "partial buffer k (r - 1) (xs @ [x]) m'" "\<And>a. a \<notin> W \<Longrightarrow> m' a = m a"
      unfolding assms(6) using plain_step [OF _ c(1,2) _ "2.prems"(3) assms(4)] c(3) by blast
    moreover have "m' (p + 1) = 0" using m'(3) c by simp
    then have "vsnprintf_loop buffer tmp lit (p + 1) args (r - 1) m' = Some (r - 1, m')" by (subst vsnprintf_loop.simps) simp
    ultimately show ?thesis using "2.prems"(1) False by (auto simp: take_Cons')
  qed
next
  case (3 str x c f args)
  have m: "m p = x" "x \<noteq> 0" "m (p + 1) = c" "c \<noteq> 0" using "3.prems"(2) by (simp_all add: readable_def cstr_Cons)
  show ?case
  proof (cases "r = 0")
    case True
    then show ?thesis using "3.prems" by (subst vsnprintf_loop.simps) auto
  next
    case False
    show ?thesis
    proof (cases "x = 37")
      case True
      then obtain t as out' where t: "conv_spec str c args = Some (t, as)" "fmt_spec str f as = Some out'" "out = t @ out'"
        using "3.prems"(1) by (auto split: option.splits)
      have "converts buffer tmp lit k p args r xs m t as"
        using False m True "3.prems"(2) by (intro conversion_step [OF t(1) _ _ _ _ "3.prems"(3) assms(4,5)])
          (auto simp: readable_def assms(6))
      then obtain m' where m': "vsnprintf_loop buffer tmp lit p args r m = vsnprintf_loop buffer tmp lit (p + 1 + 1) as (r - length t) m'"
        "partial buffer k (r - length t) (xs @ take r t) m'" "\<And>a. a \<notin> W \<Longrightarrow> m' a = m a" by (auto simp: converts_def assms(6))
      have "readable str W (p + 1 + 1) f as lit m'"
        by (rule readable_frame [OF _ m'(3)]) (use readable_conv "3.prems"(2) t(1) True in blast)
      from "3.IH"(1) [OF True t(1) refl t(2) this m'(2)] obtain m2 where
        "vsnprintf_loop buffer tmp lit (p + 1 + 1) as (r - length t) m' = Some (r - length t - length out', m2)"
        "partial buffer k (r - length t - length out') ((xs @ take r t) @ take (r - length t) out') m2" "\<forall>a. a \<notin> W \<longrightarrow> m2 a = m' a"
        by blast
      then show ?thesis using m'(1,3) t(3) by (intro exI [of _ m2]) simp
    next
      case no: False
      then obtain out' where out: "fmt_spec str (c # f) args = Some out'" "out = x # out'" using "3.prems"(1) by auto
      obtain m' where m': "vsnprintf_loop buffer tmp lit p args r m = vsnprintf_loop buffer tmp lit (p + 1) args (r - 1) m'"
        "partial buffer k (r - 1) (xs @ [x]) m'" "\<And>a. a \<notin> W \<Longrightarrow> m' a = m a"
        unfolding assms(6) using plain_step [OF _ m(1,2) _ "3.prems"(3) assms(4)] no False by blast
      have "readable str W (p + 1) (c # f) args lit m'"
        by (rule readable_frame [OF _ m'(3)]) (use readable_plain "3.prems"(2) no in blast)
      from "3.IH"(2) [OF no out(1) this m'(2)] obtain m2 where
        "vsnprintf_loop buffer tmp lit (p + 1) args (r - 1) m' = Some (r - 1 - length out', m2)"
        "partial buffer k (r - 1 - length out') ((xs @ [x]) @ take (r - 1) out') m2" "\<forall>a. a \<notin> W \<longrightarrow> m2 a = m' a"
        by blast
      then show ?thesis using m'(1,3) out(2) False by (intro exI [of _ m2]) (simp add: take_Cons')
    qed
  qed
qed

text \<open>
  C27: formatted output is right and stays inside its buffer. For a format whose conversions all have an argument,
  \<open>vsnprintf\<close> returns, leaves in the buffer the first \<open>sz - 1\<close> characters of the text the format
  describes, terminated, returns their number, and writes no byte outside the \<open>sz\<close> bytes of the
  buffer and its own array \<open>tmp\<close>. (The buffer has room for the terminator, and what is read does
  not overlap what is written.)
\<close>

theorem vsnprintf_correct:
  assumes "fmt_spec str f args = Some out" and "0 < sz" and "unat sz \<le> 2 ^ 31" and "tmp \<noteq> 0"
    and "readable str (region buffer (unat sz) \<union> region tmp 12) format f args lit m"
    and "region buffer (unat sz) \<inter> region tmp 12 = {}"
  shows "\<exists>m'. vsnprintf buffer sz format tmp lit args m = Some (int (min (length out) (unat sz - 1)), m')
    \<and> cstr m' buffer (take (unat sz - 1) out)
    \<and> (\<forall>a. a \<notin> region buffer (unat sz) \<union> region tmp 12 \<longrightarrow> m' a = m a)"
proof -
  define k where "k = unat sz - 1"
  have k: "unat sz = k + 1" "unat (sz - 1) = k" "k < 2 ^ 31" using assms(2,3) unat_minus_one [of sz] by (auto simp: k_def unat_gt_0)
  let ?W = "region buffer (k + 1) \<union> region tmp 12"
  have "partial buffer k k [] (m(buffer := 0))" using k by (simp add: partial_def cstr_Nil)
  moreover have "buffer \<in> ?W" using in_region [of 0 "k + 1" buffer] by simp
  then have "readable str ?W format f args lit (m(buffer := 0))"
    by (intro readable_frame [OF assms(5) [unfolded k(1)]]) auto
  moreover have "region buffer (k + 1) \<inter> region tmp 12 = {}" using assms(6) k(1) by simp
  ultimately obtain m' where m': "vsnprintf_loop buffer tmp lit format args k (m(buffer := 0)) = Some (k - length out, m')"
    "partial buffer k (k - length out) ([] @ take k out) m'" "\<forall>a. a \<notin> ?W \<longrightarrow> m' a = (m(buffer := 0)) a"
    using vsnprintf_loop_spec [OF assms(1) _ _ _ assms(4) refl, of buffer k format lit "m(buffer := 0)" k "[]"] by blast
  have w: "sz - of_nat (k - length out) - 1 = of_nat (min (length out) k)"
  proof -
    have "sz = of_nat k + 1" using k(1) by (metis of_nat_1 of_nat_add of_nat_unat ucast_id)
    then show ?thesis by (cases "length out \<le> k") (simp_all add: of_nat_diff)
  qed
  have "sint (of_nat (min (length out) k) :: u32) = int (min (length out) k)"
    using k(3) by (simp add: signed_of_nat signed_take_bit_int_eq_self)
  then show ?thesis
    using m' w \<open>buffer \<in> ?W\<close> k by (auto simp: vsnprintf_def partial_def)
qed

lemma region_disjoint:
  assumes "unat p + n \<le> unat q" "unat q + j \<le> 2 ^ 32"
  shows "region p n \<inter> region q j = {}"
proof -
  have "unat (at p i) < unat q" if "i < n" for i using unat_at [of p i] that assms(1) unsigned_less [of q, where 'a = nat] by simp
  moreover have "unat q \<le> unat (at q i)" if "i < j" for i using unat_at [of q i] that assms(2) by simp
  ultimately show ?thesis by (fastforce simp: region_def)
qed

lemma region_disjoint':
  "unat q + j \<le> unat p \<Longrightarrow> unat p + n \<le> 2 ^ 32 \<Longrightarrow> region p n \<inter> region q j = {}"
  using region_disjoint [of q j p n] by blast

definition fmt_mem :: mem_t where
  "fmt_mem = (\<lambda>_. 0)(0x300 := 37, 0x301 := 105, 0x302 := 33, 0x400 := 48, 0x401 := 120)"

theorem vsnprintf_correct_witness:
  "\<exists>m'. vsnprintf 0x100 4 0x300 0x200 0x400 [- 5] fmt_mem = Some (3, m') \<and> cstr m' 0x100 [45, 53, 33]"
proof -
  have out: "fmt_spec (\<lambda>_. []) [37, 105, 33] [- 5] = Some [45, 53, 33]"
    by (simp add: conv_spec_def int_str_def dec_str_def num_length.simps)
  have r: "readable (\<lambda>_. []) (region 0x100 (unat (4::u32)) \<union> region 0x200 12) 0x300 [37, 105, 33] [- 5] 0x400 fmt_mem"
    unfolding readable_def
    by (simp add: Int_Un_distrib region_disjoint' cstr_Cons cstr_Nil fmt_mem_def)
  show ?thesis
    using vsnprintf_correct [OF out _ _ _ r] by (auto simp: region_disjoint)
qed

end
