(* ===== verification/Qsort.thy ===== *)
theory Qsort
  imports Cstring "HOL-Library.Multiset" "HOL-Library.Monad_Syntax"
begin

text \<open>
  The sorting routine of the user library, \<^verbatim>\<open>src/usr/lib/sort.c\<close>: a quicksort with Hoare's
  partition around the middle element and a comparison function as its argument. The array is a list of
  elements (the \<open>size\<close> bytes of an element are one value); reading outside it is undefined
  (\<^const>\<open>None\<close>), as is a comparison that does not return. Every loop is a
  \<open>partial_function\<close>, so that the theorems show termination.
\<close>

section \<open>Model\<close>

definition elem :: "'a list \<Rightarrow> int \<Rightarrow> 'a option" where
  "elem arr i = (if 0 \<le> i \<and> i < int (length arr) then Some (arr ! nat i) else None)"

definition swap_elems :: "'a list \<Rightarrow> int \<Rightarrow> int \<Rightarrow> 'a list" where
  "swap_elems arr a b = (let temp = arr ! nat a; arr1 = arr[nat a := arr ! nat b] in arr1[nat b := temp])"

partial_function (option) scan_up :: "('a \<Rightarrow> 'a \<Rightarrow> int option) \<Rightarrow> 'a list \<Rightarrow> 'a \<Rightarrow> int \<Rightarrow> int option" where
  "scan_up cmp arr pivot i =
     do { x \<leftarrow> elem arr (i + 1);
          c \<leftarrow> cmp x pivot;
          if c < 0 then scan_up cmp arr pivot (i + 1) else Some (i + 1) }"

partial_function (option) scan_down :: "('a \<Rightarrow> 'a \<Rightarrow> int option) \<Rightarrow> 'a list \<Rightarrow> 'a \<Rightarrow> int \<Rightarrow> int option" where
  "scan_down cmp arr pivot j =
     do { x \<leftarrow> elem arr (j - 1);
          c \<leftarrow> cmp x pivot;
          if c > 0 then scan_down cmp arr pivot (j - 1) else Some (j - 1) }"

partial_function (option) partition_loop ::
    "('a \<Rightarrow> 'a \<Rightarrow> int option) \<Rightarrow> 'a list \<Rightarrow> 'a \<Rightarrow> int \<Rightarrow> int \<Rightarrow> (int \<times> 'a list) option" where
  "partition_loop cmp arr pivot i j =
     do { i1 \<leftarrow> scan_up cmp arr pivot i;
          j1 \<leftarrow> scan_down cmp arr pivot j;
          if i1 \<ge> j1 then Some (j1, arr) else partition_loop cmp (swap_elems arr i1 j1) pivot i1 j1 }"

definition partition_c :: "('a \<Rightarrow> 'a \<Rightarrow> int option) \<Rightarrow> 'a list \<Rightarrow> int \<Rightarrow> int \<Rightarrow> (int \<times> 'a list) option" where
  "partition_c cmp arr low high =
     do { pivot \<leftarrow> elem arr (low + cdiv (high - low) 2);
          partition_loop cmp arr pivot (low - 1) (high + 1) }"

partial_function (option) quicksort :: "('a \<Rightarrow> 'a \<Rightarrow> int option) \<Rightarrow> 'a list \<Rightarrow> int \<Rightarrow> int \<Rightarrow> 'a list option" where
  "quicksort cmp arr low high =
     (if low < high then
        do { (pi, arr1) \<leftarrow> partition_c cmp arr low high;
             arr2 \<leftarrow> quicksort cmp arr1 low pi;
             quicksort cmp arr2 (pi + 1) high }
      else Some arr)"

definition sort_c :: "('a \<Rightarrow> 'a \<Rightarrow> int option) \<Rightarrow> 'a list \<Rightarrow> int \<Rightarrow> 'a list option" where
  "sort_c cmp arr n = quicksort cmp arr 0 (n - 1)"

definition cmp_int :: "int \<Rightarrow> int \<Rightarrow> int option" where
  "cmp_int a b = Some (of_bool (a > b) - of_bool (a < b))"

definition cmp_str :: "mem_t \<Rightarrow> u32 \<Rightarrow> u32 \<Rightarrow> int option" where
  "cmp_str m a b = strcmp m a b"

definition sorti :: "int list \<Rightarrow> int \<Rightarrow> int list option" where
  "sorti arr n = sort_c cmp_int arr n"

definition sortstr :: "mem_t \<Rightarrow> u32 list \<Rightarrow> int \<Rightarrow> u32 list option" where
  "sortstr m arr n = sort_c (cmp_str m) arr n"

section \<open>Permuting a segment\<close>

definition seg_perm :: "int \<Rightarrow> int \<Rightarrow> 'a list \<Rightarrow> 'a list \<Rightarrow> bool" where
  "seg_perm low high arr arr' \<longleftrightarrow> mset arr' = mset arr
     \<and> (\<forall>k. 0 \<le> k \<and> k < int (length arr) \<and> (k < low \<or> high < k) \<longrightarrow> arr' ! nat k = arr ! nat k)"

lemma seg_perm_refl [simp]: "seg_perm low high arr arr"
  by (simp add: seg_perm_def)

lemma seg_perm_length: "seg_perm low high arr arr' \<Longrightarrow> length arr' = length arr"
  by (auto simp: seg_perm_def dest: mset_eq_length)

lemma seg_perm_set: "seg_perm low high arr arr' \<Longrightarrow> set arr' = set arr"
  by (auto simp: seg_perm_def dest: mset_eq_setD)

lemma seg_perm_trans: "seg_perm low high arr arr1 \<Longrightarrow> seg_perm low high arr1 arr2 \<Longrightarrow> seg_perm low high arr arr2"
  using seg_perm_length [of low high arr arr1] by (simp add: seg_perm_def)

lemma seg_perm_wider: "seg_perm low high arr arr1 \<Longrightarrow> low' \<le> low \<Longrightarrow> high \<le> high' \<Longrightarrow> seg_perm low' high' arr arr1"
  by (auto simp: seg_perm_def)

lemma seg_perm_swap:
  assumes "low \<le> a" "a < b" "b \<le> high" "0 \<le> low" "high < int (length arr)"
  shows "seg_perm low high arr (swap_elems arr a b)"
proof -
  have "mset (swap_elems arr a b) = mset arr"
    unfolding swap_elems_def Let_def using assms by (intro mset_swap) auto
  then show ?thesis using assms by (auto simp: seg_perm_def swap_elems_def Let_def nth_list_update)
qed

lemma mset_segments:
  assumes "0 \<le> low" "low \<le> high + 1" "high < int (length arr)"
  shows "mset arr = image_mset (\<lambda>k. arr ! nat k) (mset [0..low - 1]) + image_mset (\<lambda>k. arr ! nat k) (mset [low..high])
    + image_mset (\<lambda>k. arr ! nat k) (mset [high + 1..int (length arr) - 1])"
proof -
  have "arr = map (\<lambda>k. arr ! nat k) [0..int (length arr) - 1]" by (rule nth_equalityI) auto
  then have "mset arr = image_mset (\<lambda>k. arr ! nat k) (mset [0..int (length arr) - 1])" by (metis mset_map)
  also have "[0..int (length arr) - 1] = [0..low - 1] @ [low..high] @ [high + 1..int (length arr) - 1]"
  proof (cases "low \<le> high")
    case True
    then show ?thesis
      using assms upto_split1 [of 0 low "int (length arr) - 1"] upto_split2 [of low high "int (length arr) - 1"] by simp
  next
    case False
    then have "low = high + 1" using assms by simp
    moreover have "high = int (length arr) - 1 \<or> high + 1 \<le> int (length arr) - 1" using assms by arith
    ultimately show ?thesis using assms upto_split1 [of 0 low "int (length arr) - 1"] by auto
  qed
  finally show ?thesis by simp
qed

lemma seg_perm_values:
  assumes "seg_perm low high arr arr'" "0 \<le> low" "high < int (length arr)" "low \<le> k" "k \<le> high"
  shows "\<exists>l. low \<le> l \<and> l \<le> high \<and> arr' ! nat k = arr ! nat l"
proof -
  let ?I = "\<lambda>arr :: 'a list. image_mset (\<lambda>k. arr ! nat k)"
  note len = seg_perm_length [OF assms(1)]
  have out: "?I arr' (mset ks) = ?I arr (mset ks)" if "\<forall>k\<in>set ks. 0 \<le> k \<and> k < int (length arr) \<and> (k < low \<or> high < k)" for ks
    using assms(1) that by (intro image_mset_cong) (auto simp: seg_perm_def)
  have "?I arr' (mset [low..high]) = ?I arr (mset [low..high])"
    using mset_segments [of low high arr] mset_segments [of low high arr'] assms out [of "[0..low - 1]"]
      out [of "[high + 1..int (length arr) - 1]"] len by (simp add: seg_perm_def)
  moreover have "arr' ! nat k \<in># ?I arr' (mset [low..high])" using assms(4,5) by auto
  ultimately have "arr' ! nat k \<in># ?I arr (mset [low..high])" by simp
  then show ?thesis by auto
qed

section \<open>Comparison functions\<close>

text \<open>
  What \<open>sort\<close> relies on: on the elements of the array, the function returns, and its sign says how
  two elements stand in a total order.
\<close>

locale comparator =
  fixes cmp :: "'a \<Rightarrow> 'a \<Rightarrow> int option" and ok :: "'a \<Rightarrow> bool" and le :: "'a \<Rightarrow> 'a \<Rightarrow> bool"
  assumes cmp_sign: "ok x \<Longrightarrow> ok y \<Longrightarrow> \<exists>c. cmp x y = Some c \<and> (c < 0 \<longleftrightarrow> \<not> le y x) \<and> (c > 0 \<longleftrightarrow> \<not> le x y)"
    and le_total: "ok x \<Longrightarrow> ok y \<Longrightarrow> le x y \<or> le y x"
    and le_trans: "ok x \<Longrightarrow> ok y \<Longrightarrow> ok z \<Longrightarrow> le x y \<Longrightarrow> le y z \<Longrightarrow> le x z"
begin

lemma scan_up_stops:
  assumes "i < s" "0 \<le> i + 1" "s < int (length arr)" "\<forall>x\<in>set arr. ok x" "ok pivot" "le pivot (arr ! nat s)"
  shows "\<exists>i1. scan_up cmp arr pivot i = Some i1 \<and> i < i1 \<and> i1 \<le> s \<and> le pivot (arr ! nat i1)
    \<and> (\<forall>k. i < k \<and> k < i1 \<longrightarrow> le (arr ! nat k) pivot)"
  using assms(1,2)
proof (induction "nat (s - i)" arbitrary: i rule: less_induct)
  case less
  let ?x = "arr ! nat (i + 1)"
  have e: "elem arr (i + 1) = Some ?x" "ok ?x" using less.prems assms(3,4) by (auto simp: elem_def)
  obtain c where c: "cmp ?x pivot = Some c" "c < 0 \<longleftrightarrow> \<not> le pivot ?x" using cmp_sign [OF e(2) assms(5)] by blast
  show ?case
  proof (cases "c < 0")
    case True
    then have "i + 1 \<noteq> s" using c assms(6) by auto
    then obtain i1 where i1: "scan_up cmp arr pivot (i + 1) = Some i1" "i + 1 < i1" "i1 \<le> s" "le pivot (arr ! nat i1)"
      "\<forall>k. i + 1 < k \<and> k < i1 \<longrightarrow> le (arr ! nat k) pivot" using less.hyps [of "i + 1"] less.prems by auto
    have "le ?x pivot" using le_total [OF e(2) assms(5)] c True by blast
    moreover have "scan_up cmp arr pivot i = Some i1" using e c True i1(1) by (subst scan_up.simps) simp
    moreover have "le (arr ! nat k) pivot" if "i < k" "k < i1" for k
      using that i1(5) calculation(1) by (cases "k = i + 1") auto
    ultimately show ?thesis using i1(2-4) by auto
  next
    case False
    have "scan_up cmp arr pivot i = Some (i + 1)" using e c False by (subst scan_up.simps) simp
    then show ?thesis using False c less.prems by auto
  qed
qed

lemma scan_down_stops:
  assumes "t < j" "0 \<le> t" "j \<le> int (length arr)" "\<forall>x\<in>set arr. ok x" "ok pivot" "le (arr ! nat t) pivot"
  shows "\<exists>j1. scan_down cmp arr pivot j = Some j1 \<and> t \<le> j1 \<and> j1 < j \<and> le (arr ! nat j1) pivot
    \<and> (\<forall>k. j1 < k \<and> k < j \<longrightarrow> le pivot (arr ! nat k))"
  using assms(1,3)
proof (induction "nat (j - t)" arbitrary: j rule: less_induct)
  case less
  let ?x = "arr ! nat (j - 1)"
  have e: "elem arr (j - 1) = Some ?x" "ok ?x" using less.prems assms(2,4) by (auto simp: elem_def)
  obtain c where c: "cmp ?x pivot = Some c" "c > 0 \<longleftrightarrow> \<not> le ?x pivot" using cmp_sign [OF e(2) assms(5)] by blast
  show ?case
  proof (cases "c > 0")
    case True
    then have "j - 1 \<noteq> t" using c assms(6) by auto
    then obtain j1 where j1: "scan_down cmp arr pivot (j - 1) = Some j1" "t \<le> j1" "j1 < j - 1" "le (arr ! nat j1) pivot"
      "\<forall>k. j1 < k \<and> k < j - 1 \<longrightarrow> le pivot (arr ! nat k)" using less.hyps [of "j - 1"] less.prems by auto
    have "le pivot ?x" using le_total [OF e(2) assms(5)] c True by blast
    moreover have "scan_down cmp arr pivot j = Some j1" using e c True j1(1) by (subst scan_down.simps) simp
    moreover have "le pivot (arr ! nat k)" if "j1 < k" "k < j" for k
      using that j1(5) calculation(1) by (cases "k = j - 1") auto
    ultimately show ?thesis using j1(2-4) by auto
  next
    case False
    have "scan_down cmp arr pivot j = Some (j - 1)" using e c False by (subst scan_down.simps) simp
    then show ?thesis using False c less.prems by auto
  qed
qed

text \<open>
  Hoare's partition: between two rounds everything up to \<open>i\<close> is at most the pivot, everything from
  \<open>j\<close> on at least, and each scan has an element that stops it.
\<close>

definition split_at :: "int \<Rightarrow> int \<Rightarrow> 'a \<Rightarrow> int \<Rightarrow> int \<Rightarrow> 'a list \<Rightarrow> bool" where
  "split_at low high pivot i j arr \<longleftrightarrow> (\<forall>k. low \<le> k \<and> k \<le> i \<longrightarrow> le (arr ! nat k) pivot)
     \<and> (\<forall>k. j \<le> k \<and> k \<le> high \<longrightarrow> le pivot (arr ! nat k))"

lemma partition_loop_splits:
  assumes "0 \<le> low" "high < int (length arr)" "\<forall>x\<in>set arr. ok x" "ok pivot"
    and "low - 1 \<le> i" "i < j" "j \<le> high + 1" "split_at low high pivot i j arr"
    and "\<exists>s. i < s \<and> s \<le> high \<and> le pivot (arr ! nat s) \<and> (j \<le> high \<or> s < high)"
    and "\<exists>t. low \<le> t \<and> t < j \<and> le (arr ! nat t) pivot"
  shows "\<exists>j1 arr1. partition_loop cmp arr pivot i j = Some (j1, arr1) \<and> seg_perm low high arr arr1
    \<and> low \<le> j1 \<and> j1 < high \<and> split_at low high pivot j1 (j1 + 1) arr1"
  using assms(2,3,5-10)
proof (induction "nat (j - i)" arbitrary: i j arr rule: less_induct)
  case less
  obtain s where s: "i < s" "s \<le> high" "le pivot (arr ! nat s)" "j \<le> high \<or> s < high" using less.prems(7) by blast
  obtain t where t: "low \<le> t" "t < j" "le (arr ! nat t) pivot" using less.prems(8) by blast
  obtain i1 where i1: "scan_up cmp arr pivot i = Some i1" "i < i1" "i1 \<le> s" "le pivot (arr ! nat i1)"
    "\<forall>k. i < k \<and> k < i1 \<longrightarrow> le (arr ! nat k) pivot"
    using scan_up_stops [of i s arr pivot] s less.prems assms(1,4) by auto
  obtain j1 where j1: "scan_down cmp arr pivot j = Some j1" "t \<le> j1" "j1 < j" "le (arr ! nat j1) pivot"
    "\<forall>k. j1 < k \<and> k < j \<longrightarrow> le pivot (arr ! nat k)"
    using scan_down_stops [of t j arr pivot] t less.prems assms(1,4) by auto
  have up: "le (arr ! nat k) pivot" if "low \<le> k" "k < i1" for k
    using that i1(5) less.prems(6) by (cases "k \<le> i") (auto simp: split_at_def)
  have down: "le pivot (arr ! nat k)" if "j1 < k" "k \<le> high" for k
    using that j1(5) less.prems(6) by (cases "j \<le> k") (auto simp: split_at_def)
  show ?case
  proof (cases "i1 \<ge> j1")
    case True
    have "partition_loop cmp arr pivot i j = Some (j1, arr)" using i1(1) j1(1) True by (subst partition_loop.simps) simp
    moreover have "j1 < high" using s i1 j1 less.prems True by linarith
    moreover have "split_at low high pivot j1 (j1 + 1) arr"
      unfolding split_at_def
    proof (intro conjI allI impI)
      fix k assume "low \<le> k \<and> k \<le> j1"
      then show "le (arr ! nat k) pivot" using up [of k] j1(4) True by (cases "k = j1") auto
    next
      fix k assume "j1 + 1 \<le> k \<and> k \<le> high"
      then show "le pivot (arr ! nat k)" using down [of k] by simp
    qed
    ultimately show ?thesis using t j1 by auto
  next
    case False
    let ?arr = "swap_elems arr i1 j1"
    have perm: "seg_perm low high arr ?arr"
      using False i1 j1 less.prems assms(1) by (intro seg_perm_swap) auto
    have vals: "?arr ! nat k = (if k = i1 then arr ! nat j1 else if k = j1 then arr ! nat i1 else arr ! nat k)"
      if "low \<le> k" "k \<le> high" for k
      using that False i1(2) j1(3) less.prems assms(1) by (auto simp: swap_elems_def Let_def nth_list_update)
    have in_range: "low \<le> i1" "i1 < j1" "j1 \<le> high" using False i1 j1 less.prems by linarith+
    have split: "split_at low high pivot i1 j1 ?arr"
      unfolding split_at_def
    proof (intro conjI allI impI)
      fix k assume "low \<le> k \<and> k \<le> i1"
      then show "le (?arr ! nat k) pivot" using up [of k] vals [of k] j1(4) in_range by (cases "k = i1") auto
    next
      fix k assume "j1 \<le> k \<and> k \<le> high"
      then show "le pivot (?arr ! nat k)" using down [of k] vals [of k] i1(4) in_range by (cases "k = j1") auto
    qed
    have "\<exists>j2 arr2. partition_loop cmp ?arr pivot i1 j1 = Some (j2, arr2) \<and> seg_perm low high ?arr arr2
        \<and> low \<le> j2 \<and> j2 < high \<and> split_at low high pivot j2 (j2 + 1) arr2"
    proof (rule less.hyps)
      show "\<exists>s. i1 < s \<and> s \<le> high \<and> le pivot (?arr ! nat s) \<and> (j1 \<le> high \<or> s < high)"
        using vals [of j1] i1(4) in_range by (intro exI [of _ j1]) auto
      show "\<exists>t. low \<le> t \<and> t < j1 \<and> le (?arr ! nat t) pivot"
        using vals [of i1] j1(4) in_range by (intro exI [of _ i1]) auto
    qed (use less.prems in_range i1 j1 split seg_perm_length [OF perm] seg_perm_set [OF perm] in auto)
    moreover have "partition_loop cmp arr pivot i j = partition_loop cmp ?arr pivot i1 j1"
      using i1(1) j1(1) False by (subst partition_loop.simps) simp
    ultimately show ?thesis using seg_perm_trans [OF perm] by auto
  qed
qed

lemma partition_splits:
  assumes "0 \<le> low" "low < high" "high < int (length arr)" "\<forall>x\<in>set arr. ok x"
  obtains pi arr1 pivot where "partition_c cmp arr low high = Some (pi, arr1)" "seg_perm low high arr arr1" "low \<le> pi" "pi < high"
    "split_at low high pivot pi (pi + 1) arr1" "ok pivot"
proof -
  let ?mid = "low + cdiv (high - low) 2"
  let ?p = "arr ! nat ?mid"
  have mid: "low \<le> ?mid" "?mid < high" using assms(2) by simp_all
  then have e: "elem arr ?mid = Some ?p" "ok ?p" using assms by (auto simp: elem_def)
  have refl: "le ?p ?p" using le_total [OF e(2) e(2)] by simp
  have "\<exists>j1 arr1. partition_loop cmp arr ?p (low - 1) (high + 1) = Some (j1, arr1) \<and> seg_perm low high arr arr1
    \<and> low \<le> j1 \<and> j1 < high \<and> split_at low high ?p j1 (j1 + 1) arr1"
  proof (rule partition_loop_splits [OF assms(1,3,4) e(2)])
    show "\<exists>s. low - 1 < s \<and> s \<le> high \<and> le ?p (arr ! nat s) \<and> (high + 1 \<le> high \<or> s < high)"
      using mid refl by (intro exI [of _ ?mid]) auto
    show "\<exists>t. low \<le> t \<and> t < high + 1 \<and> le (arr ! nat t) ?p"
      using mid refl by (intro exI [of _ ?mid]) auto
  qed (use assms(2) in \<open>auto simp: split_at_def\<close>)
  then show thesis using that e by (auto simp: partition_c_def)
qed

definition seg_sorted :: "int \<Rightarrow> int \<Rightarrow> 'a list \<Rightarrow> bool" where
  "seg_sorted low high arr \<longleftrightarrow> (\<forall>k l. low \<le> k \<and> k \<le> l \<and> l \<le> high \<longrightarrow> le (arr ! nat k) (arr ! nat l))"

lemma quicksort_sorts:
  assumes "0 \<le> low" "high < int (length arr)" "\<forall>x\<in>set arr. ok x"
  shows "\<exists>arr'. quicksort cmp arr low high = Some arr' \<and> seg_perm low high arr arr' \<and> seg_sorted low high arr'"
  using assms
proof (induction "nat (high - low)" arbitrary: low high arr rule: less_induct)
  case less
  show ?case
  proof (cases "low < high")
    case False
    have "le (arr ! nat k) (arr ! nat l)" if "low \<le> k" "k \<le> l" "l \<le> high" for k l
    proof -
      have "l = k" using that False by simp
      then show ?thesis using le_total [of "arr ! nat k" "arr ! nat k"] less.prems that by auto
    qed
    then show ?thesis using False by (subst quicksort.simps) (auto simp: seg_sorted_def)
  next
    case True
    obtain pi arr1 pivot where p: "partition_c cmp arr low high = Some (pi, arr1)" "seg_perm low high arr arr1" "low \<le> pi" "pi < high"
      "split_at low high pivot pi (pi + 1) arr1" "ok pivot"
      using partition_splits [OF less.prems(1) True less.prems(2,3)] by blast
    note 1 = seg_perm_length [OF p(2)] seg_perm_set [OF p(2)]
    obtain arr2 where q2: "quicksort cmp arr1 low pi = Some arr2" "seg_perm low pi arr1 arr2" "seg_sorted low pi arr2"
      using less.hyps [of pi low arr1] less.prems p(3,4) 1 by auto
    note 2 = seg_perm_length [OF q2(2)] seg_perm_set [OF q2(2)]
    obtain arr3 where q3: "quicksort cmp arr2 (pi + 1) high = Some arr3" "seg_perm (pi + 1) high arr2 arr3" "seg_sorted (pi + 1) high arr3"
      using less.hyps [of high "pi + 1" arr2] less.prems p(3,4) 1 2 by auto
    have run: "quicksort cmp arr low high = Some arr3" using True p(1) q2(1) q3(1) by (subst quicksort.simps) simp
    have "seg_perm low high arr2 arr3" "seg_perm low high arr1 arr2"
      using seg_perm_wider [OF q3(2), of low high] seg_perm_wider [OF q2(2), of low high] p(3,4) by simp_all
    then have perm: "seg_perm low high arr arr3" using seg_perm_trans p(2) by blast
    have ok: "ok (arr3 ! nat k)" if "low \<le> k" "k \<le> high" for k
      using that less.prems seg_perm_length [OF perm] seg_perm_set [OF perm] by (metis (full_types) nat_less_iff nth_mem order.strict_trans1 order_trans)
    have left: "arr3 ! nat k = arr2 ! nat k" if "low \<le> k" "k \<le> pi" for k
      using q3(2) that less.prems p(4) 1 2 by (auto simp: seg_perm_def)
    have below: "le (arr3 ! nat k) pivot" if k: "low \<le> k" "k \<le> pi" for k
    proof -
      obtain l where "low \<le> l" "l \<le> pi" "arr2 ! nat k = arr1 ! nat l"
        using seg_perm_values [OF q2(2) _ _ k] less.prems p(4) 1 by auto
      then show ?thesis using left [OF k] p(5) by (simp add: split_at_def)
    qed
    have above: "le pivot (arr3 ! nat k)" if k: "pi + 1 \<le> k" "k \<le> high" for k
    proof -
      obtain l where l: "pi + 1 \<le> l" "l \<le> high" "arr3 ! nat k = arr2 ! nat l"
        using seg_perm_values [OF q3(2) _ _ k] less.prems p(3) 1 2 by auto
      moreover have "arr2 ! nat l = arr1 ! nat l" using q2(2) l less.prems p(3) 1 by (auto simp: seg_perm_def)
      ultimately show ?thesis using p(5) by (simp add: split_at_def)
    qed
    have "le (arr3 ! nat k) (arr3 ! nat l)" if "low \<le> k" "k \<le> l" "l \<le> high" for k l
    proof -
      consider "l \<le> pi" | "pi + 1 \<le> k" | "k \<le> pi" "pi + 1 \<le> l" by linarith
      then show ?thesis
      proof cases
        case 1
        then show ?thesis using q2(3) left that by (simp add: seg_sorted_def)
      next
        case 2
        then show ?thesis using q3(3) that by (simp add: seg_sorted_def)
      next
        case 3
        show ?thesis by (rule le_trans [OF _ p(6)]) (use ok below above 3 that in auto)
      qed
    qed
    then show ?thesis using run perm by (auto simp: seg_sorted_def)
  qed
qed

lemma sort_c_sorts:
  assumes "\<forall>x\<in>set arr. ok x"
  shows "\<exists>arr'. sort_c cmp arr (int (length arr)) = Some arr' \<and> mset arr' = mset arr
    \<and> (\<forall>k l. k \<le> l \<and> l < length arr \<longrightarrow> le (arr' ! k) (arr' ! l))"
proof -
  obtain arr' where a: "quicksort cmp arr 0 (int (length arr) - 1) = Some arr'" "seg_perm 0 (int (length arr) - 1) arr arr'"
    "seg_sorted 0 (int (length arr) - 1) arr'"
    using quicksort_sorts [of 0 "int (length arr) - 1" arr] assms by auto
  have "le (arr' ! k) (arr' ! l)" if "k \<le> l" "l < length arr" for k l
    using a(3) that unfolding seg_sorted_def by (metis nat_int of_nat_0_le_iff of_nat_le_iff of_nat_less_iff zle_diff1_eq)
  then show ?thesis using a by (auto simp: sort_c_def seg_perm_def)
qed

end

text \<open>Integers.\<close>

interpretation ints: comparator cmp_int "\<lambda>_. True" "(\<le>)"
  by unfold_locales (auto simp: cmp_int_def)

text \<open>Strings in memory, byte by byte.\<close>

fun str_le :: "u8 list \<Rightarrow> u8 list \<Rightarrow> bool" where
  "str_le [] ys = True"
| "str_le (x # xs) [] = False"
| "str_le (x # xs) (y # ys) = (x < y \<or> (x = y \<and> str_le xs ys))"

lemma str_le_total: "str_le xs ys \<or> str_le ys xs"
  by (induction xs ys rule: str_le.induct) auto

lemma str_le_trans: "str_le xs ys \<Longrightarrow> str_le ys zs \<Longrightarrow> str_le xs zs"
proof (induction xs arbitrary: ys zs)
  case (Cons x xs)
  then show ?case by (cases ys; cases zs) (auto intro: order.strict_trans)
qed simp

lemma strcmp_sign:
  assumes "cstr m p xs" "cstr m q ys"
  shows "\<exists>c. strcmp m p q = Some c \<and> (c < 0 \<longleftrightarrow> \<not> str_le ys xs) \<and> (c > 0 \<longleftrightarrow> \<not> str_le xs ys)"
  using assms
proof (induction xs ys arbitrary: p q rule: str_le.induct)
  case (1 ys)
  then show ?case by (subst strcmp.simps) (cases ys; auto simp: cstr_Nil cstr_Cons order_less_le unsigned_eq_0_iff)
next
  case (2 x xs)
  then show ?case by (subst strcmp.simps) (auto simp: cstr_Nil cstr_Cons order_less_le unsigned_eq_0_iff)
next
  case (3 x xs y ys)
  show ?case
  proof (cases "x = y")
    case True
    then have "strcmp m p q = strcmp m (p + 1) (q + 1)" using 3(2,3) by (subst strcmp.simps) (simp add: cstr_Cons)
    then show ?thesis using 3 True by (simp add: cstr_Cons)
  next
    case False
    then have "strcmp m p q = Some (uint x - uint y)" using 3(2,3) by (subst strcmp.simps) (simp add: cstr_Cons)
    then show ?thesis using False by (auto simp: word_less_def not_less_iff_gr_or_eq word_uint_eq_iff)
  qed
qed

definition str_at_le :: "mem_t \<Rightarrow> u32 \<Rightarrow> u32 \<Rightarrow> bool" where
  "str_at_le m p q \<longleftrightarrow> (\<exists>xs ys. cstr m p xs \<and> cstr m q ys \<and> str_le xs ys)"

interpretation strs: comparator "cmp_str m" "\<lambda>p. \<exists>xs. cstr m p xs" "str_at_le m" for m
proof unfold_locales
  have iff: "str_at_le m p q \<longleftrightarrow> str_le xs ys" if "cstr m p xs" "cstr m q ys" for p q xs ys
    unfolding str_at_le_def using that cstr_unique by blast
  fix x y z
  assume x: "\<exists>xs. cstr m x xs" and y: "\<exists>xs. cstr m y xs"
  then obtain xs ys where s: "cstr m x xs" "cstr m y ys" by blast
  show "\<exists>c. cmp_str m x y = Some c \<and> (c < 0 \<longleftrightarrow> \<not> str_at_le m y x) \<and> (c > 0 \<longleftrightarrow> \<not> str_at_le m x y)"
    using strcmp_sign [OF s] s by (simp add: cmp_str_def iff)
  show "str_at_le m x y \<or> str_at_le m y x" using str_le_total [of xs ys] s by (simp add: iff)
  assume z: "\<exists>xs. cstr m z xs" "str_at_le m x y" "str_at_le m y z"
  then obtain zs where "cstr m z zs" by blast
  then show "str_at_le m x z" using z s str_le_trans [of xs ys zs] by (simp add: iff)
qed

section \<open>Properties\<close>

text \<open>
  C28: sorting returns and sorts. \<open>sorti\<close> on an array of integers ends with a sorted permutation of it, and
  \<open>sortstr\<close> on an array of pointers to strings with a permutation of the pointers in which the
  strings are in lexicographic order of their bytes.
\<close>

theorem sort_correct:
  assumes "\<forall>p\<in>set ptrs. \<exists>xs. cstr m p xs"
  shows "(\<exists>arr'. sorti arr (int (length arr)) = Some arr' \<and> mset arr' = mset arr \<and> sorted arr')
    \<and> (\<exists>ptrs'. sortstr m ptrs (int (length ptrs)) = Some ptrs' \<and> mset ptrs' = mset ptrs
        \<and> (\<forall>k l. k \<le> l \<and> l < length ptrs \<longrightarrow> str_at_le m (ptrs' ! k) (ptrs' ! l)))"
proof
  obtain arr' where a: "sort_c cmp_int arr (int (length arr)) = Some arr'" "mset arr' = mset arr"
      "\<forall>k l. k \<le> l \<and> l < length arr \<longrightarrow> arr' ! k \<le> arr' ! l"
    using ints.sort_c_sorts [of arr] by auto
  moreover have "sorted arr'" using a(3) mset_eq_length [OF a(2)] by (simp add: sorted_iff_nth_mono)
  ultimately show "\<exists>arr'. sorti arr (int (length arr)) = Some arr' \<and> mset arr' = mset arr \<and> sorted arr'"
    by (simp add: sorti_def)
qed (use strs.sort_c_sorts [OF assms] in \<open>simp add: sortstr_def\<close>)

theorem sort_correct_witness: "\<exists>arr'. sorti [3, 1, 2] 3 = Some arr' \<and> sorted arr' \<and> mset arr' = {#1, 2, 3#}"
  using sort_correct [of "[]" "\<lambda>_. 0" "[3, 1, 2]"] by (auto simp: add_mset_commute)

end
