(* ===== verification/Umap.thy ===== *)
theory Umap
  imports Prelude
begin

text \<open>
  The hash map of the user library, \<^verbatim>\<open>src/usr/lib/map.c\<close>: open addressing with linear probing in
  a table whose size is a power of two. A key is the list of the bytes of its string; the array of a key
  in the table holds at most \<open>KEY_MAX_LEN\<close> of them. The three loops of the source that walk from
  the hash of a key to its entry, to an unused entry or once around the table are
  \<open>map_probe\<close>.
\<close>

section \<open>Model\<close>

definition KEY_MAX_LEN :: nat where
  "KEY_MAX_LEN = 31"

record map_entry_t =
  key :: "u8 list"
  me_value :: u32
  occupied :: bool

record map_t =
  table :: "map_entry_t list"
  map_size :: u32
  map_count :: u32

partial_function (option) map_power :: "u32 \<Rightarrow> u32 \<Rightarrow> u32 option" where
  "map_power sz pw = (if pw < sz then map_power sz (push_bit 1 pw) else Some pw)"

definition map_init :: "u32 \<Rightarrow> map_t option" where
  "map_init sz =
     map_option (\<lambda>pw. \<lparr> table = replicate (unat pw) \<lparr> key = [], me_value = 0, occupied = False \<rparr>, map_size = pw, map_count = 0 \<rparr>)
       (map_power sz 1)"

definition hash_fnv1a :: "u8 list \<Rightarrow> u32" where
  "hash_fnv1a k = fold (\<lambda>c hash. (hash XOR ucast c) * 16777619) k 2166136261"

datatype probe = Found u32 | Unused u32 | Full

partial_function (option) map_probe :: "map_t \<Rightarrow> u8 list \<Rightarrow> u32 \<Rightarrow> u32 \<Rightarrow> probe option" where
  "map_probe mp k start index =
     (if unat index \<ge> length (table mp) then None
      else if occupied (table mp ! unat index) then
        if key (table mp ! unat index) = k then Some (Found index)
        else if (index + 1) AND (map_size mp - 1) = start then Some Full
        else map_probe mp k start ((index + 1) AND (map_size mp - 1))
      else Some (Unused index))"

definition map_start :: "map_t \<Rightarrow> u8 list \<Rightarrow> u32" where
  "map_start mp k = hash_fnv1a k AND (map_size mp - 1)"

definition map_insert :: "map_t \<Rightarrow> u8 list \<Rightarrow> u32 \<Rightarrow> map_t option" where
  "map_insert mp k v =
     (case map_probe mp k (map_start mp k) (map_start mp k) of
        None \<Rightarrow> None
      | Some (Found index) \<Rightarrow> Some (mp\<lparr> table := (table mp)[unat index := (table mp ! unat index)\<lparr> me_value := v \<rparr>] \<rparr>)
      | Some Full \<Rightarrow> Some mp
      | Some (Unused index) \<Rightarrow>
          Some (mp\<lparr> table := (table mp)[unat index := \<lparr> key = take KEY_MAX_LEN k, me_value = v, occupied = True \<rparr>],
                     map_count := map_count mp + 1 \<rparr>))"

definition map_lookup :: "map_t \<Rightarrow> u8 list \<Rightarrow> u32 option" where
  "map_lookup mp k =
     (case map_probe mp k (map_start mp k) (map_start mp k) of
        None \<Rightarrow> None
      | Some (Found index) \<Rightarrow> Some (me_value (table mp ! unat index))
      | Some _ \<Rightarrow> Some 0)"

definition map_remove :: "map_t \<Rightarrow> u8 list \<Rightarrow> (bool \<times> map_t) option" where
  "map_remove mp k =
     (case map_probe mp k (map_start mp k) (map_start mp k) of
        None \<Rightarrow> None
      | Some (Found index) \<Rightarrow>
          Some (True, mp\<lparr> table := (table mp)[unat index := (table mp ! unat index)\<lparr> occupied := False \<rparr>],
                          map_count := map_count mp - 1 \<rparr>)
      | Some _ \<Rightarrow> Some (False, mp))"

declare map_power.simps [code] map_probe.simps [code]

section \<open>Invariant\<close>

text \<open>The \<open>d\<close>-th entry of the probe sequence of a key, in a table of \<open>n\<close> entries.\<close>

definition slot :: "nat \<Rightarrow> u8 list \<Rightarrow> nat \<Rightarrow> nat" where
  "slot n k d = (unat (hash_fnv1a k) + d) mod n"

definition used :: "map_t \<Rightarrow> nat set" where
  "used mp = {i. i < length (table mp) \<and> occupied (table mp ! i)}"

definition sized :: "map_t \<Rightarrow> bool" where
  "sized mp \<longleftrightarrow> (\<exists>b\<le>31. length (table mp) = 2 ^ b \<and> map_size mp = 2 ^ b)"

text \<open>
  Every entry in use holds a key of its own, is reached from the hash of its key through entries in
  use, and is counted.
\<close>

definition map_wf :: "map_t \<Rightarrow> bool" where
  "map_wf mp \<longleftrightarrow> sized mp
     \<and> map_count mp = of_nat (card (used mp))
     \<and> (\<forall>i\<in>used mp. length (key (table mp ! i)) \<le> KEY_MAX_LEN)
     \<and> (\<forall>i\<in>used mp. \<forall>j\<in>used mp. key (table mp ! i) = key (table mp ! j) \<longrightarrow> i = j)
     \<and> (\<forall>i\<in>used mp. \<exists>d<length (table mp). i = slot (length (table mp)) (key (table mp ! i)) d
          \<and> (\<forall>e<d. slot (length (table mp)) (key (table mp ! i)) e \<in> used mp))"

text \<open>The finite map a table stands for.\<close>

definition map_abs :: "map_t \<Rightarrow> u8 list \<rightharpoonup> u32" where
  "map_abs mp k = (if \<exists>i\<in>used mp. key (table mp ! i) = k
     then Some (me_value (table mp ! (THE i. i \<in> used mp \<and> key (table mp ! i) = k))) else None)"

section \<open>Probing\<close>

lemma sized_pos: "sized mp \<Longrightarrow> 0 < length (table mp)"
  by (auto simp: sized_def)

lemma and_size:
  assumes "sized mp"
  shows "unat (w AND (map_size mp - 1)) = unat w mod length (table mp)"
proof -
  obtain b where b: "b \<le> 31" "length (table mp) = 2 ^ b" "map_size mp = 2 ^ b" using assms by (auto simp: sized_def)
  have "w AND (map_size mp - 1) = take_bit b w" unfolding b(3) by (simp add: take_bit_eq_mask mask_eq_decr_exp)
  moreover have "unat (take_bit b w) = take_bit b (unat w)" using b(1) by (intro unsigned_take_bit_eq)
  ultimately show ?thesis unfolding b(2) by (simp add: take_bit_eq_mod)
qed

lemma unat_start: "sized mp \<Longrightarrow> unat (map_start mp k) = slot (length (table mp)) k 0"
  by (simp add: map_start_def and_size slot_def)

lemma unat_next:
  assumes "sized mp" "unat index = slot (length (table mp)) k d"
  shows "unat ((index + 1) AND (map_size mp - 1)) = slot (length (table mp)) k (Suc d)"
proof -
  have "length (table mp) \<le> 2 ^ 31" using assms(1) power_increasing [of _ 31 "2::nat"] by (auto simp: sized_def)
  moreover have "unat index < length (table mp)" using assms sized_pos by (simp add: slot_def)
  ultimately have "unat (index + 1) = unat index + 1" by (simp add: unat_word_ariths)
  then show ?thesis unfolding and_size [OF assms(1)] using assms(2) by (simp add: slot_def mod_Suc_eq)
qed

lemma slot_inj:
  assumes "d < n" "e < n" "slot n k d = slot n k e"
  shows "d = e"
proof -
  have le: "x = y" if "x \<le> y" "y < n" "slot n k x = slot n k y" for x y
  proof -
    have "n dvd y - x" using that mod_eq_dvd_iff_nat [of "unat (hash_fnv1a k) + x" "unat (hash_fnv1a k) + y" n] by (simp add: slot_def)
    then show ?thesis using that nat_dvd_not_less [of "y - x" n] by (cases "x = y") auto
  qed
  show ?thesis using le [of d e] le [of e d] assms by (cases "d \<le> e") auto
qed

text \<open>What a probe that looked at \<open>e\<close> entries has found.\<close>

definition passed :: "map_t \<Rightarrow> u8 list \<Rightarrow> nat \<Rightarrow> bool" where
  "passed mp k e \<longleftrightarrow> (\<forall>x<e. slot (length (table mp)) k x \<in> used mp \<and> key (table mp ! slot (length (table mp)) k x) \<noteq> k)"

fun probe_ok :: "map_t \<Rightarrow> u8 list \<Rightarrow> nat \<Rightarrow> probe \<Rightarrow> bool" where
  "probe_ok mp k e (Found i) = (e < length (table mp) \<and> unat i = slot (length (table mp)) k e \<and> unat i \<in> used mp \<and> key (table mp ! unat i) = k)"
| "probe_ok mp k e (Unused i) = (e < length (table mp) \<and> unat i = slot (length (table mp)) k e \<and> unat i \<notin> used mp)"
| "probe_ok mp k e Full = (e = length (table mp))"

lemma probe_from:
  assumes "sized mp" "d < length (table mp)" "unat start = slot (length (table mp)) k 0"
    and "unat index = slot (length (table mp)) k d" "passed mp k d"
  shows "\<exists>e r. map_probe mp k start index = Some r \<and> passed mp k e \<and> probe_ok mp k e r"
  using assms(2,4,5)
proof (induction "length (table mp) - d" arbitrary: d index rule: less_induct)
  case less
  let ?n = "length (table mp)"
  have i: "unat index < ?n" using less.prems(2) sized_pos [OF assms(1)] by (simp add: slot_def)
  consider (unused) "unat index \<notin> used mp" | (found) "unat index \<in> used mp" "key (table mp ! unat index) = k"
    | (other) "unat index \<in> used mp" "key (table mp ! unat index) \<noteq> k" by blast
  then show ?case
  proof cases
    case unused
    then have "map_probe mp k start index = Some (Unused index)" using i by (subst map_probe.simps) (simp add: used_def)
    then show ?thesis using unused less.prems by (intro exI [of _ d] exI [of _ "Unused index"]) simp
  next
    case found
    then have "map_probe mp k start index = Some (Found index)" by (subst map_probe.simps) (simp add: used_def)
    then show ?thesis using found less.prems by (intro exI [of _ d] exI [of _ "Found index"]) simp
  next
    case other
    let ?next = "(index + 1) AND (map_size mp - 1)"
    have next_slot: "unat ?next = slot ?n k (Suc d)" by (rule unat_next [OF assms(1) less.prems(2)])
    have step: "map_probe mp k start index = (if ?next = start then Some Full else map_probe mp k start ?next)"
      using other by (subst map_probe.simps) (simp add: used_def)
    have past: "passed mp k (Suc d)" using less.prems other by (auto simp: passed_def less_Suc_eq)
    show ?thesis
    proof (cases "Suc d = ?n")
      case True
      then have "unat ?next = unat start" using next_slot assms(3) by (simp add: slot_def)
      then have "map_probe mp k start index = Some Full" using step by (simp add: word_unat_eq_iff)
      then show ?thesis using True past by (intro exI [of _ ?n] exI [of _ Full]) simp
    next
      case False
      then have lt: "Suc d < ?n" using less.prems by simp
      then have "?next \<noteq> start" using next_slot assms(3) slot_inj [OF lt sized_pos [OF assms(1)], of k] by auto
      then show ?thesis using step less.hyps [OF _ lt next_slot past] lt by simp
    qed
  qed
qed

lemma probe_start:
  assumes "sized mp"
  obtains e r where "map_probe mp k (map_start mp k) (map_start mp k) = Some r" "passed mp k e" "probe_ok mp k e r"
proof -
  have "passed mp k 0" by (simp add: passed_def)
  from probe_from [OF assms sized_pos [OF assms] unat_start [OF assms] unat_start [OF assms] this] show thesis
    using that by blast
qed

text \<open>In a well-formed table a key in use is found, and a found key is in use.\<close>

lemma map_abs_entry:
  assumes "map_wf mp" "i \<in> used mp"
  shows "map_abs mp (key (table mp ! i)) = Some (me_value (table mp ! i))"
proof -
  have "(THE j. j \<in> used mp \<and> key (table mp ! j) = key (table mp ! i)) = i"
    using assms by (intro the_equality) (auto simp: map_wf_def)
  then show ?thesis using assms(2) by (auto simp: map_abs_def)
qed

lemma probe_abs:
  assumes "map_wf mp"
  obtains (found) i where "map_probe mp k (map_start mp k) (map_start mp k) = Some (Found i)" "unat i \<in> used mp"
      "key (table mp ! unat i) = k" "map_abs mp k = Some (me_value (table mp ! unat i))"
  | (unused) i e where "map_probe mp k (map_start mp k) (map_start mp k) = Some (Unused i)" "unat i < length (table mp)"
      "unat i \<notin> used mp" "unat i = slot (length (table mp)) k e" "e < length (table mp)" "passed mp k e" "map_abs mp k = None"
  | (full) "map_probe mp k (map_start mp k) (map_start mp k) = Some Full" "card (used mp) = length (table mp)" "map_abs mp k = None"
proof -
  let ?n = "length (table mp)"
  have sz: "sized mp" using assms by (simp add: map_wf_def)
  obtain e r where r: "map_probe mp k (map_start mp k) (map_start mp k) = Some r" "passed mp k e" "probe_ok mp k e r"
    using probe_start [OF sz] by blast
  have absent: "map_abs mp k = None" if "e = ?n \<or> e < ?n \<and> slot ?n k e \<notin> used mp"
  proof (rule ccontr)
    assume "map_abs mp k \<noteq> None"
    then obtain i where i: "i \<in> used mp" "key (table mp ! i) = k" by (auto simp: map_abs_def split: if_splits)
    then obtain d where d: "d < ?n" "i = slot ?n k d" "\<forall>x<d. slot ?n k x \<in> used mp" using assms by (auto simp: map_wf_def)
    then have "\<not> d < e" using r(2) i by (auto simp: passed_def)
    then show False using that d i by (cases "e = d") auto
  qed
  show thesis
  proof (cases r)
    case (Found i)
    then show thesis using found r map_abs_entry [OF assms, of "unat i"] by auto
  next
    case (Unused i)
    then show thesis using unused [of i e] r absent sized_pos [OF sz] by (auto simp: slot_def)
  next
    case Full
    then have "slot ?n k ` {..<?n} \<subseteq> used mp" using r by (auto simp: passed_def)
    moreover have "card (slot ?n k ` {..<?n}) = ?n" using slot_inj [of _ ?n _ k] by (simp add: card_image inj_on_def)
    moreover have "used mp \<subseteq> {..<?n}" by (auto simp: used_def)
    ultimately have "card (used mp) = ?n"
      by (metis card_lessThan card_mono finite_lessThan finite_subset le_antisym)
    then show thesis using full r Full absent by simp
  qed
qed

section \<open>Operations\<close>

lemma used_update:
  assumes "i < length (table mp)" "occupied e"
  shows "used (mp\<lparr> table := (table mp)[i := e] \<rparr>) = insert i (used mp)"
  using assms by (auto simp: used_def nth_list_update)

lemma update_value:
  fixes v :: u32
  assumes "map_wf mp" "i \<in> used mp"
  defines "mp' \<equiv> mp\<lparr> table := (table mp)[i := (table mp ! i)\<lparr> me_value := v \<rparr>] \<rparr>"
  shows "map_wf mp'" "map_abs mp' = (map_abs mp)(key (table mp ! i) \<mapsto> v)"
proof -
  have i: "i < length (table mp)" "occupied (table mp ! i)" using assms(2) by (auto simp: used_def)
  have u: "used mp' = used mp" using used_update [of i mp "(table mp ! i)\<lparr> me_value := v \<rparr>"] i assms(2) by (auto simp: mp'_def)
  have k: "key (table mp' ! j) = key (table mp ! j)" if "j \<in> used mp" for j
    using that i by (auto simp: mp'_def nth_list_update)
  have len: "length (table mp') = length (table mp)" "map_size mp' = map_size mp" "map_count mp' = map_count mp" by (simp_all add: mp'_def)
  show wf: "map_wf mp'" using assms(1) unfolding map_wf_def u len by (simp add: k sized_def len)
  show "map_abs mp' = (map_abs mp)(key (table mp ! i) \<mapsto> v)"
  proof
    fix x
    consider j where "j \<in> used mp" "key (table mp ! j) = x" | "\<forall>j\<in>used mp. key (table mp ! j) \<noteq> x" by blast
    then show "map_abs mp' x = ((map_abs mp)(key (table mp ! i) \<mapsto> v)) x"
    proof cases
      case 1
      then have "map_abs mp' x = Some (me_value (table mp' ! j))" "map_abs mp x = Some (me_value (table mp ! j))"
        using map_abs_entry [OF wf, of j] map_abs_entry [OF assms(1), of j] by (simp_all add: u k)
      moreover have "j = i" if "x = key (table mp ! i)" using assms(1,2) 1 that by (auto simp: map_wf_def)
      ultimately show ?thesis using 1 i by (cases "j = i") (auto simp: mp'_def)
    next
      case 2
      then show ?thesis using assms(2) by (auto simp: map_abs_def u k)
    qed
  qed
qed

lemma insert_entry:
  fixes v :: u32
  assumes "map_wf mp" "map_abs mp k = None" "length k \<le> KEY_MAX_LEN"
    and "i < length (table mp)" "i \<notin> used mp" "i = slot (length (table mp)) k e" "e < length (table mp)" "passed mp k e"
  defines "mp' \<equiv> mp\<lparr> table := (table mp)[i := \<lparr> key = k, me_value = v, occupied = True \<rparr>], map_count := map_count mp + 1 \<rparr>"
  shows "map_wf mp'" "map_abs mp' = (map_abs mp)(k \<mapsto> v)"
proof -
  let ?n = "length (table mp)"
  have "used mp' = used (mp\<lparr> table := (table mp)[i := \<lparr> key = k, me_value = v, occupied = True \<rparr>] \<rparr>)"
    by (simp add: mp'_def used_def)
  then have u: "used mp' = insert i (used mp)" using used_update [OF assms(4)] by simp
  have old: "table mp' ! j = table mp ! j" if "j \<in> used mp" for j using that assms(5) by (cases "j = i") (simp_all add: mp'_def)
  have new: "table mp' ! i = \<lparr> key = k, me_value = v, occupied = True \<rparr>" using assms(4) by (simp add: mp'_def)
  have len: "length (table mp') = ?n" "map_size mp' = map_size mp" "map_count mp' = map_count mp + 1" by (simp_all add: mp'_def)
  have fresh: "key (table mp ! j) \<noteq> k" if "j \<in> used mp" for j using assms(2) that by (auto simp: map_abs_def split: if_splits)
  have fin: "finite (used mp)" by (simp add: used_def)
  show wf: "map_wf mp'"
    unfolding map_wf_def
  proof (intro conjI)
    show "sized mp'" using assms(1) by (simp add: map_wf_def sized_def len)
    show "map_count mp' = of_nat (card (used mp'))" using assms(1,5) fin by (simp add: map_wf_def u len add.commute)
    show "\<forall>j\<in>used mp'. length (key (table mp' ! j)) \<le> KEY_MAX_LEN"
      using assms(1,3) by (auto simp: map_wf_def u old new)
    show "\<forall>j\<in>used mp'. \<forall>l\<in>used mp'. key (table mp' ! j) = key (table mp' ! l) \<longrightarrow> j = l"
      using assms(1) fresh by (auto simp: map_wf_def u old new)
    show "\<forall>j\<in>used mp'. \<exists>d<length (table mp'). j = slot (length (table mp')) (key (table mp' ! j)) d
        \<and> (\<forall>x<d. slot (length (table mp')) (key (table mp' ! j)) x \<in> used mp')"
    proof
      fix j assume "j \<in> used mp'"
      then consider "j = i" | "j \<in> used mp" by (auto simp: u)
      then show "\<exists>d<length (table mp'). j = slot (length (table mp')) (key (table mp' ! j)) d
          \<and> (\<forall>x<d. slot (length (table mp')) (key (table mp' ! j)) x \<in> used mp')"
      proof cases
        case 1
        then have "key (table mp' ! j) = k" "j = slot ?n k e" using new assms(6) by simp_all
        then show ?thesis using assms(7,8) by (intro exI [of _ e]) (simp add: len u passed_def)
      next
        case 2
        then obtain d where "d < ?n" "j = slot ?n (key (table mp ! j)) d" "\<forall>x<d. slot ?n (key (table mp ! j)) x \<in> used mp"
          using assms(1) by (auto simp: map_wf_def)
        then show ?thesis using 2 by (intro exI [of _ d]) (simp add: old len u)
      qed
    qed
  qed
  show "map_abs mp' = (map_abs mp)(k \<mapsto> v)"
  proof
    fix x
    consider "x = k" | j where "j \<in> used mp" "key (table mp ! j) = x" "x \<noteq> k" | "x \<noteq> k" "\<forall>j\<in>used mp. key (table mp ! j) \<noteq> x" by blast
    then show "map_abs mp' x = ((map_abs mp)(k \<mapsto> v)) x"
    proof cases
      case 1
      then show ?thesis using map_abs_entry [OF wf, of i] by (simp add: u new)
    next
      case 2
      then show ?thesis using map_abs_entry [OF wf, of j] map_abs_entry [OF assms(1), of j] by (simp add: u old)
    next
      case 3
      then show ?thesis by (auto simp: map_abs_def u old new)
    qed
  qed
qed

lemma map_power_returns:
  assumes "sz \<le> 2 ^ 31" "b \<le> 31"
  shows "\<exists>c\<le>31. map_power sz (2 ^ b) = Some (2 ^ c) \<and> sz \<le> 2 ^ c"
  using assms(2)
proof (induction "31 - b" arbitrary: b)
  case 0
  then have "b = 31" by simp
  then show ?case using assms(1) by (subst map_power.simps) auto
next
  case (Suc n)
  show ?case
  proof (cases "(2 ^ b :: u32) < sz")
    case True
    have "push_bit 1 (2 ^ b :: u32) = 2 * 2 ^ b" by (simp add: push_bit_eq_mult mult.commute)
    moreover have "\<exists>c\<le>31. map_power sz (2 ^ Suc b) = Some (2 ^ c) \<and> sz \<le> 2 ^ c" using Suc.hyps(1) [of "Suc b"] Suc.hyps(2) by simp
    ultimately show ?thesis using True by (subst map_power.simps) (simp add: mult.commute)
  next
    case False
    then show ?thesis using Suc.prems by (subst map_power.simps) auto
  qed
qed

lemma map_init_wf:
  assumes "sz \<le> 2 ^ 31"
  shows "\<exists>mp. map_init sz = Some mp \<and> map_wf mp \<and> map_abs mp = Map.empty \<and> sz \<le> map_size mp"
proof -
  obtain c where c: "c \<le> 31" "map_power sz 1 = Some (2 ^ c)" "sz \<le> 2 ^ c" using map_power_returns [OF assms, of 0] by auto
  have "unat (2 ^ c :: u32) = 2 ^ c" using c(1) unat_of_nat_u32 [of "2 ^ c"] power_strict_increasing [of c 32 "2 :: nat"] by simp
  moreover define mp where "mp = \<lparr> table = replicate (2 ^ c) \<lparr> key = [], me_value = 0, occupied = False \<rparr>, map_size = 2 ^ c, map_count = 0 \<rparr>"
  ultimately have run: "map_init sz = Some mp" using c(2) by (simp add: map_init_def)
  have "used mp = {}" by (auto simp: used_def mp_def)
  then show ?thesis using run c by (auto simp: map_wf_def map_abs_def sized_def mp_def)
qed


definition one_key :: map_t where
  "one_key = \<lparr> table = [\<lparr> key = [97], me_value = 7, occupied = True \<rparr>], map_size = 1, map_count = 1 \<rparr>"


text \<open>
  Removing a key ends the probe sequences that pass through its entry: \<open>"e"\<close> is stored behind
  \<open>"a"\<close>, and no longer found once \<open>"a"\<close> is removed.
\<close>

lemma map_remove_hides:
  "(case map_init 4 of None \<Rightarrow> None | Some mp0 \<Rightarrow>
     (case map_insert mp0 [97] 5 of None \<Rightarrow> None | Some mp1 \<Rightarrow>
       (case map_insert mp1 [101] 7 of None \<Rightarrow> None | Some mp2 \<Rightarrow>
         (case map_remove mp2 [97] of None \<Rightarrow> None | Some (removed, mp3) \<Rightarrow>
           Some (map_lookup mp2 [101], removed, map_lookup mp3 [101]))))) = Some (Some 7, True, Some 0)"
  by code_simp

end
