(* ===== verification/Uheap.thy ===== *)
theory Uheap
  imports Kstate
begin

text \<open>
  The heap of a program: \<open>malloc\<close>, \<open>free\<close> and their helpers of \<^verbatim>\<open>src/usr/lib/stdlib.c\<close>
  (here \<open>umalloc\<close> and \<open>ufree\<close>, the kernel has functions of the same names) over the system
  call \<open>sbrk\<close> (\<open>api_sbrk\<close> of \<^verbatim>\<open>src/api.c\<close>). The headers of the blocks are kept by their
  address; they form a singly linked list in the order of their addresses. The theory shows that the blocks
  never overlap, that an allocation returns aligned memory nobody uses, and that freeing gives back one
  block and merges free neighbours.
\<close>

section \<open>Model\<close>

record block_t =
  blk_size :: u32
  is_free :: bool
  blk_next :: "u32 option"
  magic :: u32

record uheap_t =
  headers :: "u32 \<Rightarrow> block_t"
  heap_list_head :: "u32 option"
  uheap_start :: u32
  uheap_end :: u32

definition BLOCK_MAGIC :: u32 where
  "BLOCK_MAGIC = 0xDEADBEEF"

definition ALIGNMENT :: u32 where
  "ALIGNMENT = 8"

definition sizeof_block :: u32 where
  "sizeof_block = 16"

definition ALIGN :: "u32 \<Rightarrow> u32" where
  "ALIGN sz = (sz + (ALIGNMENT - 1)) AND NOT (ALIGNMENT - 1)"

text \<open>
  The bounds of the heap as \<open>api_sbrk\<close> changes them; a heap that shrinks also has its pages unmapped,
  which happens to no block: the library never shrinks it.
\<close>

definition sbrk :: "u32 \<Rightarrow> uheap_t \<Rightarrow> u32 \<times> uheap_t" where
  "sbrk increment h =
     (let delta = sint increment;
          old_heapsize = sint (uheap_end h - uheap_start h);
          new_heapsize = s32 (old_heapsize + delta)
      in if new_heapsize < 0 then (- 1, h)
         else let new_end = page_align_up (uheap_start h + of_int new_heapsize)
              in if new_end \<ge> VM_START then (- 1, h)
                 else (uheap_end h, h\<lparr> uheap_end := uheap_start h + of_int new_heapsize \<rparr>))"

definition upd_block :: "u32 \<Rightarrow> (block_t \<Rightarrow> block_t) \<Rightarrow> uheap_t \<Rightarrow> uheap_t" where
  "upd_block a f h = h\<lparr> headers := (headers h)(a := f (headers h a)) \<rparr>"

partial_function (option) find_free_block :: "u32 \<Rightarrow> uheap_t \<Rightarrow> u32 option \<Rightarrow> u32 option option" where
  "find_free_block sz h current =
     (case current of None \<Rightarrow> Some None
      | Some c \<Rightarrow> if is_free (headers h c) \<and> blk_size (headers h c) \<ge> sz then Some (Some c)
                  else find_free_block sz h (blk_next (headers h c)))"

partial_function (option) last_block :: "uheap_t \<Rightarrow> u32 \<Rightarrow> u32 option" where
  "last_block h current =
     (case blk_next (headers h current) of None \<Rightarrow> Some current | Some n \<Rightarrow> last_block h n)"

definition use_block :: "u32 \<Rightarrow> u32 \<Rightarrow> uheap_t \<Rightarrow> uheap_t" where
  "use_block sz block h =
     (let h1 = upd_block block (\<lambda>b. b\<lparr> is_free := False \<rparr>) h;
          remaining = blk_size (headers h1 block) - sz
      in if remaining > sizeof_block + ALIGNMENT then
           let new_block = block + sizeof_block + sz;
               h2 = upd_block new_block (\<lambda>_. \<lparr> blk_size = remaining - sizeof_block, is_free = True,
                      blk_next = blk_next (headers h1 block), magic = BLOCK_MAGIC \<rparr>) h1
           in upd_block block (\<lambda>b. b\<lparr> blk_size := sz, blk_next := Some new_block \<rparr>) h2
         else h1)"

definition umalloc :: "u32 \<Rightarrow> uheap_t \<Rightarrow> (u32 \<times> uheap_t) option" where
  "umalloc size0 h =
     (if size0 = 0 then Some (0, h)
      else let sz = ALIGN size0
           in case find_free_block sz h (heap_list_head h) of
                None \<Rightarrow> None
              | Some (Some block) \<Rightarrow> Some (block + sizeof_block, use_block sz block h)
              | Some None \<Rightarrow>
                  (let (block, h1) = sbrk (sizeof_block + sz) h
                   in if block = - 1 then Some (0, h1)
                      else let h2 = upd_block block (\<lambda>_. \<lparr> blk_size = sz, is_free = False, blk_next = None, magic = BLOCK_MAGIC \<rparr>) h1
                           in case heap_list_head h2 of
                                None \<Rightarrow> Some (block + sizeof_block, h2\<lparr> heap_list_head := Some block \<rparr>)
                              | Some current \<Rightarrow>
                                  map_option (\<lambda>l. (block + sizeof_block, upd_block l (\<lambda>b. b\<lparr> blk_next := Some block \<rparr>) h2))
                                    (last_block h2 current)))"

partial_function (option) coalesce_loop :: "uheap_t \<Rightarrow> u32 option \<Rightarrow> uheap_t option" where
  "coalesce_loop h current =
     (case current of None \<Rightarrow> Some h
      | Some c \<Rightarrow>
          (case blk_next (headers h c) of None \<Rightarrow> Some h
           | Some n \<Rightarrow>
               if is_free (headers h c) \<and> is_free (headers h n) \<and> c + sizeof_block + blk_size (headers h c) = n then
                 coalesce_loop (upd_block c (\<lambda>b. b\<lparr> blk_size := blk_size b + (sizeof_block + blk_size (headers h n)),
                                               blk_next := blk_next (headers h n) \<rparr>) h) current
               else coalesce_loop h (Some n)))"

definition coalesce_free_blocks :: "uheap_t \<Rightarrow> uheap_t option" where
  "coalesce_free_blocks h = coalesce_loop h (heap_list_head h)"

datatype free_result = Freed | Null_pointer | Invalid_pointer | Already_freed

definition ufree :: "u32 \<Rightarrow> uheap_t \<Rightarrow> (free_result \<times> uheap_t) option" where
  "ufree ptr h =
     (if ptr = 0 then Some (Null_pointer, h)
      else let block = ptr - sizeof_block
           in if magic (headers h block) \<noteq> BLOCK_MAGIC then Some (Invalid_pointer, h)
              else if is_free (headers h block) then Some (Already_freed, h)
              else map_option (Pair Freed) (coalesce_free_blocks (upd_block block (\<lambda>b. b\<lparr> is_free := True \<rparr>) h)))"

partial_function (option) used_blocks_loop :: "uheap_t \<Rightarrow> u32 option \<Rightarrow> nat \<Rightarrow> nat option" where
  "used_blocks_loop h current count =
     (case current of None \<Rightarrow> Some count
      | Some c \<Rightarrow> used_blocks_loop h (blk_next (headers h c)) (if \<not> is_free (headers h c) then count + 1 else count))"

definition used_blocks :: "uheap_t \<Rightarrow> nat option" where
  "used_blocks h = used_blocks_loop h (heap_list_head h) 0"

declare find_free_block.simps [code] last_block.simps [code] coalesce_loop.simps [code] used_blocks_loop.simps [code]

section \<open>Invariant\<close>

text \<open>Blocks one after the other between two addresses, each with its header.\<close>

fun chain :: "(u32 \<Rightarrow> nat) \<Rightarrow> nat \<Rightarrow> nat \<Rightarrow> u32 list \<Rightarrow> bool" where
  "chain sz lo hi [] \<longleftrightarrow> lo \<le> hi"
| "chain sz lo hi (a # as) \<longleftrightarrow> lo \<le> unat a \<and> chain sz (unat a + 16 + sz a) hi as"

abbreviation bsize :: "uheap_t \<Rightarrow> u32 \<Rightarrow> nat" where
  "bsize h a \<equiv> unat (blk_size (headers h a))"

definition heap_wf :: "uheap_t \<Rightarrow> u32 list \<Rightarrow> bool" where
  "heap_wf h bs \<longleftrightarrow> is_list (\<lambda>a. blk_next (headers h a)) (heap_list_head h) bs
     \<and> chain (bsize h) (unat (uheap_start h)) (unat (uheap_end h)) bs
     \<and> 0 < uheap_start h \<and> uheap_start h \<le> 0x7FFFF000 \<and> uheap_end h \<le> VM_START
     \<and> unat (uheap_end h) - unat (uheap_start h) < 2 ^ 31 \<and> 8 dvd unat (uheap_end h)
     \<and> (\<forall>a\<in>set bs. magic (headers h a) = BLOCK_MAGIC \<and> 8 dvd unat a \<and> 8 dvd bsize h a)"

text \<open>The blocks a program holds, with their sizes.\<close>

definition in_use :: "uheap_t \<Rightarrow> u32 list \<Rightarrow> (u32 \<times> nat) set" where
  "in_use h bs = {(a, bsize h a) | a. a \<in> set bs \<and> \<not> is_free (headers h a)}"

subsection \<open>Chains of blocks\<close>

lemma chain_append: "chain sz lo hi (xs @ ys) \<longleftrightarrow> (\<exists>mid. chain sz lo mid xs \<and> chain sz mid hi ys)"
proof (induction xs arbitrary: lo)
  case Nil
  show ?case by (cases ys) (auto intro: order_trans)
qed auto

lemma chain_le: "chain sz lo hi xs \<Longrightarrow> lo \<le> hi"
  by (induction xs arbitrary: lo) force+

lemma chain_cong: "chain sz lo hi xs \<Longrightarrow> (\<And>a. a \<in> set xs \<Longrightarrow> sz' a = sz a) \<Longrightarrow> chain sz' lo hi xs"
  by (induction xs arbitrary: lo) auto

lemma chain_mono: "chain sz lo hi xs \<Longrightarrow> lo' \<le> lo \<Longrightarrow> hi \<le> hi' \<Longrightarrow> chain sz lo' hi' xs"
  by (induction xs arbitrary: lo lo') force+

lemma chain_bounds: "chain sz lo hi xs \<Longrightarrow> a \<in> set xs \<Longrightarrow> lo \<le> unat a \<and> unat a + 16 + sz a \<le> hi"
proof (induction xs arbitrary: lo)
  case (Cons b bs)
  then show ?case using chain_le [of sz _ hi bs] by fastforce
qed simp

lemma chain_disjoint:
  assumes "chain sz lo hi xs" "a \<in> set xs" "b \<in> set xs" "a \<noteq> b"
  shows "unat a + 16 + sz a \<le> unat b \<or> unat b + 16 + sz b \<le> unat a"
  using assms
proof (induction xs arbitrary: lo)
  case (Cons x xs)
  then show ?case using chain_bounds [of sz "unat x + 16 + sz x" hi xs] by fastforce
qed simp

lemma chain_at:
  "chain sz lo hi (us @ a # vs) \<longleftrightarrow> (\<exists>m. chain sz lo m us \<and> m \<le> unat a) \<and> chain sz (unat a + 16 + sz a) hi vs"
  by (auto simp: chain_append)

lemma chain_upto: "(\<exists>m. chain sz lo m us \<and> m \<le> n) \<longleftrightarrow> chain sz lo n us"
  using chain_mono [of sz lo _ us lo n] by blast

lemmas chain_split = chain_at [unfolded chain_upto]

subsection \<open>Growing the heap\<close>

lemma page_align_up_ge:
  assumes "unat v \<le> 0xFFFFF000"
  shows "v \<le> page_align_up v"
proof -
  have "unat v \<le> (unat v + 0xFFF) div 4096 * 4096" by linarith
  moreover have "unat (page_align_up v) = (unat v + 0xFFF) div 4096 * 4096" using assms by (intro unat_page_align_up) simp
  ultimately show ?thesis by (simp add: word_le_nat_alt)
qed

lemma s32_above: "2 ^ 31 \<le> x \<Longrightarrow> x < 2 ^ 32 \<Longrightarrow> s32 x < 0"
proof -
  assume x: "2 ^ 31 \<le> x" "x < 2 ^ 32"
  have "(x + 2 ^ 31) mod 2 ^ 32 = (x + 2 ^ 31 - 2 ^ 32) mod 2 ^ 32" by (rule minus_mod_self2 [symmetric])
  also have "\<dots> = x - 2 ^ 31" using x by simp
  finally show ?thesis using x by (simp add: s32_def)
qed

lemma sbrk_grows:
  assumes "heap_wf h bs" "unat inc < 2 ^ 31"
  shows "sbrk inc h = (- 1, h) \<or> (sbrk inc h = (uheap_end h, h\<lparr> uheap_end := uheap_end h + inc \<rparr>)
     \<and> unat (uheap_end h + inc) = unat (uheap_end h) + unat inc \<and> uheap_end h + inc \<le> VM_START
     \<and> unat (uheap_end h) + unat inc - unat (uheap_start h) < 2 ^ 31)"
proof -
  let ?s = "uheap_start h" and ?e = "uheap_end h"
  have wf: "unat ?s \<le> unat ?e" "unat ?s \<le> 0x7FFFF000" "unat ?e - unat ?s < 2 ^ 31"
    using assms(1) chain_le by (auto simp: heap_wf_def word_le_nat_alt)
  define old i where "old = unat ?e - unat ?s" and "i = unat inc"
  have "unat (?e - ?s) = old" using wf(1) by (simp add: old_def unat_sub_if_size word_le_nat_alt)
  then have old: "sint (?e - ?s) = int old" using wf(3) sint_small [of "?e - ?s"] by (simp add: old_def)
  have inc: "sint inc = int i" using assms(2) unfolding i_def by (rule sint_small)
  show ?thesis
  proof (cases "old + i < 2 ^ 31")
    case True
    then have s: "s32 (int old + int i) = int (old + i)" using s32_id [of "int (old + i)"] by simp
    have addr: "?s + of_int (int (old + i)) = ?e + inc" using wf(1) by (simp add: old_def i_def of_nat_diff)
    have top: "unat ?e + i < 0xFFFFF000" using True wf unfolding old_def by simp
    then have u: "unat (?e + inc) = unat ?e + unat inc" by (simp add: unat_word_ariths i_def)
    then have "?e + inc \<le> page_align_up (?e + inc)" using top by (intro page_align_up_ge) (simp add: i_def)
    moreover have "unat ?e + unat inc - unat ?s < 2 ^ 31" using True wf(1) by (simp add: old_def i_def)
    moreover have "sbrk inc h = (if VM_START \<le> page_align_up (?e + inc) then (- 1, h) else (?e, h\<lparr> uheap_end := ?e + inc \<rparr>))"
      unfolding sbrk_def Let_def old inc s addr by simp
    ultimately show ?thesis using u by (auto simp: not_le)
  next
    case False
    moreover have "old + i < 2 ^ 32" using wf(3) assms(2) by (simp add: i_def old_def)
    ultimately have "s32 (int old + int i) < 0" by (intro s32_above) simp_all
    then show ?thesis unfolding sbrk_def Let_def old inc by simp
  qed
qed

lemma unat_align8: "unat (a AND NOT 7) = unat a - unat a mod 8" for a :: u32
proof -
  have "(7 :: u32) = mask 3" by (simp add: mask_eq_exp_minus_1)
  then have "a AND NOT 7 = a AND NOT (mask 3)" by metis
  also have "\<dots> = push_bit 3 (drop_bit 3 a)" by (rule bit_word_eqI) (auto simp: bit_simps)
  also have "\<dots> = a - take_bit 3 a" using bits_ident [of 3 a] by (metis add_diff_cancel_right')
  finally have e: "a AND NOT 7 = a - a mod 8" by (simp only: take_bit_eq_mod) simp
  have "a mod 8 \<le> a" by (simp add: word_le_nat_alt unat_mod)
  then have "unat (a - a mod 8) = unat a - unat (a mod 8)" by (rule unat_sub)
  then show ?thesis by (simp only: e) (simp add: unat_mod)
qed

section \<open>Allocating\<close>

lemma ALIGN_7: "ALIGN sz = (sz + 7) AND NOT 7"
  by (simp add: ALIGN_def ALIGNMENT_def)

lemma ALIGN_bounds:
  assumes "0 < sz" "unat sz \<le> 2 ^ 31 - 32"
  shows "sz \<le> ALIGN sz" "8 dvd unat (ALIGN sz)" "unat (ALIGN sz) < unat sz + 8"
proof -
  have "unat (sz + 7) = unat sz + 7" using assms(2) by (simp add: unat_word_ariths)
  then have a: "unat (ALIGN sz) = (unat sz + 7) div 8 * 8"
    unfolding ALIGN_7 unat_align8 by (simp add: minus_mod_eq_div_mult)
  have "unat sz \<le> (unat sz + 7) div 8 * 8" by linarith
  then show "sz \<le> ALIGN sz" unfolding word_le_nat_alt a .
  show "8 dvd unat (ALIGN sz)" unfolding a by simp
  show "unat (ALIGN sz) < unat sz + 8" unfolding a by linarith
qed

lemma find_free_block_spec:
  assumes "is_list (\<lambda>a. blk_next (headers h a)) p bs"
  shows "(find_free_block sz h p = Some None \<and> (\<forall>a\<in>set bs. is_free (headers h a) \<longrightarrow> blk_size (headers h a) < sz))
    \<or> (\<exists>us a vs. find_free_block sz h p = Some (Some a) \<and> bs = us @ a # vs \<and> is_free (headers h a) \<and> sz \<le> blk_size (headers h a)
        \<and> (\<forall>b\<in>set us. is_free (headers h b) \<longrightarrow> blk_size (headers h b) < sz))"
  using assms
proof (induction bs arbitrary: p)
  case Nil
  then show ?case by (subst (1) find_free_block.simps) simp
next
  case (Cons b bs)
  show ?case
  proof (cases "is_free (headers h b) \<and> sz \<le> blk_size (headers h b)")
    case True
    then have "find_free_block sz h p = Some (Some b)" using Cons.prems by (subst find_free_block.simps) simp
    then show ?thesis using True by (intro disjI2 exI [of _ "[]"]) auto
  next
    case False
    then have run: "find_free_block sz h p = find_free_block sz h (blk_next (headers h b))"
      using Cons.prems by (subst find_free_block.simps) auto
    have no: "is_free (headers h b) \<longrightarrow> blk_size (headers h b) < sz" using False by auto
    have "is_list (\<lambda>a. blk_next (headers h a)) (blk_next (headers h b)) bs" using Cons.prems by simp
    from Cons.IH [OF this] consider
        "find_free_block sz h (blk_next (headers h b)) = Some None" "\<forall>a\<in>set bs. is_free (headers h a) \<longrightarrow> blk_size (headers h a) < sz"
      | us a vs where "find_free_block sz h (blk_next (headers h b)) = Some (Some a)" "bs = us @ a # vs" "is_free (headers h a)"
          "sz \<le> blk_size (headers h a)" "\<forall>b\<in>set us. is_free (headers h b) \<longrightarrow> blk_size (headers h b) < sz"
      by blast
    then show ?thesis
    proof cases
      case 1
      then show ?thesis using run no by simp
    next
      case (2 us a vs)
      then show ?thesis using run no by (intro disjI2 exI [of _ "b # us"]) auto
    qed
  qed
qed

lemma last_block_spec:
  "is_list (\<lambda>a. blk_next (headers h a)) (Some p) bs \<Longrightarrow> last_block h p = Some (last bs)"
proof (induction bs arbitrary: p)
  case (Cons b bs)
  show ?case
  proof (cases bs)
    case Nil
    then show ?thesis using Cons.prems by (subst last_block.simps) simp
  next
    case (Cons c cs)
    then show ?thesis using Cons.IH [of c] Cons.prems by (subst last_block.simps) simp
  qed
qed simp

text \<open>Marking a block used or free leaves the layout alone.\<close>

lemma headers_upd [simp]: "headers (upd_block a f h) x = (if x = a then f (headers h a) else headers h x)"
  by (simp add: upd_block_def)

lemma upd_block_fields [simp]:
  "heap_list_head (upd_block a f h) = heap_list_head h" "uheap_start (upd_block a f h) = uheap_start h"
  "uheap_end (upd_block a f h) = uheap_end h"
  by (simp_all add: upd_block_def)

lemma heap_wf_flag: "heap_wf (upd_block a (\<lambda>b. b\<lparr> is_free := v \<rparr>) h) bs = heap_wf h bs"
proof -
  let ?h = "upd_block a (\<lambda>b. b\<lparr> is_free := v \<rparr>) h"
  have "(\<lambda>x. blk_next (headers ?h x)) = (\<lambda>x. blk_next (headers h x))" "bsize ?h = bsize h"
    "(\<lambda>x. magic (headers ?h x)) = (\<lambda>x. magic (headers h x))" by (auto simp: fun_eq_iff)
  then show ?thesis unfolding heap_wf_def by (simp add: fun_eq_iff)
qed

lemma heap_wf_block:
  assumes "heap_wf h bs" "a \<in> set bs"
  shows "unat a + 16 + bsize h a \<le> 0xA0000000" "unat (a + 16) = unat a + 16" "a \<noteq> 0" "magic (headers h a) = BLOCK_MAGIC"
proof -
  have e: "unat a + 16 + bsize h a \<le> unat (uheap_end h)" "unat (uheap_start h) \<le> unat a"
    using assms chain_bounds unfolding heap_wf_def by blast+
  moreover have "unat (uheap_end h) \<le> 0xA0000000" "0 < unat (uheap_start h)"
    using assms(1) by (simp_all add: heap_wf_def word_le_nat_alt word_less_nat_alt)
  ultimately show "unat a + 16 + bsize h a \<le> 0xA0000000" "a \<noteq> 0" by auto
  then show "unat (a + 16) = unat a + 16" by (simp add: unat_word_ariths)
  show "magic (headers h a) = BLOCK_MAGIC" using assms by (simp add: heap_wf_def)
qed

lemma use_block_wf:
  assumes wf: "heap_wf h (us @ a # vs)" and "is_free (headers h a)" "sz \<le> blk_size (headers h a)" "8 dvd unat sz"
  shows "\<exists>bs'. heap_wf (use_block sz a h) bs' \<and> set (us @ a # vs) \<subseteq> set bs'
    \<and> unat sz \<le> bsize (use_block sz a h) a
    \<and> in_use (use_block sz a h) bs' = insert (a, bsize (use_block sz a h) a) (in_use h (us @ a # vs))"
proof -
  let ?bs = "us @ a # vs" and ?b = "headers h a"
  define h1 where "h1 = upd_block a (\<lambda>b. b\<lparr> is_free := False \<rparr>) h"
  define remaining where "remaining = blk_size ?b - sz"
  have le: "unat sz \<le> bsize h a" using assms(3) by (simp add: word_le_nat_alt)
  have rem: "unat remaining = bsize h a - unat sz" using assms(3) unfolding remaining_def by (rule unat_sub)
  have d: "distinct ?bs" using wf is_list_distinct unfolding heap_wf_def by blast
  note blk = heap_wf_block [OF wf, of a, simplified]
  show ?thesis
  proof (cases "remaining > 24")
    case False
    then have h': "use_block sz a h = h1" by (simp add: use_block_def h1_def remaining_def sizeof_block_def ALIGNMENT_def)
    have "in_use h1 ?bs = insert (a, bsize h1 a) (in_use h ?bs)"
      using assms(2) d by (auto simp: in_use_def h1_def)
    then show ?thesis unfolding h' using wf le by (intro exI [of _ ?bs]) (simp add: h1_def heap_wf_flag)
  next
    case True
    define new where "new = a + 16 + sz"
    define h' where "h' = use_block sz a h"
    have r: "24 < unat remaining" using True by (simp add: word_less_nat_alt)
    have new: "unat new = unat a + 16 + unat sz" using blk(1,2) le unfolding new_def by (simp add: unat_word_ariths)
    have in_new: "unat a < unat new" "unat new < unat a + 16 + bsize h a" using new r rem by linarith+
    have fresh: "new \<notin> set ?bs"
    proof
      assume n: "new \<in> set ?bs"
      moreover have "new \<noteq> a" using in_new by auto
      ultimately have "unat new + 16 + bsize h new \<le> unat a \<or> unat a + 16 + bsize h a \<le> unat new"
        using chain_disjoint wf unfolding heap_wf_def by (metis in_set_conv_decomp)
      then show False using in_new by linarith
    qed
    have hd: "headers h' a = ?b\<lparr> is_free := False, blk_size := sz, blk_next := Some new \<rparr>"
      "headers h' new = \<lparr> blk_size = remaining - 16, is_free = True, blk_next = blk_next ?b, magic = BLOCK_MAGIC \<rparr>"
      "\<And>x. x \<noteq> a \<Longrightarrow> x \<noteq> new \<Longrightarrow> headers h' x = headers h x"
      "heap_list_head h' = heap_list_head h" "uheap_start h' = uheap_start h" "uheap_end h' = uheap_end h"
      using True fresh unfolding h'_def use_block_def Let_def remaining_def new_def sizeof_block_def ALIGNMENT_def
      by (auto simp: add.assoc)
    let ?bs' = "(us @ [a]) @ new # vs"
    have "(\<lambda>x. blk_next (headers h' x)) = ((\<lambda>x. blk_next (headers h x))(new := blk_next ?b))(a := Some new)"
      using hd(1-3) fresh by (auto simp: fun_eq_iff)
    then have list: "is_list (\<lambda>x. blk_next (headers h' x)) (heap_list_head h') ?bs'"
      using is_list_insert [of "\<lambda>x. blk_next (headers h x)" "heap_list_head h" "us @ [a]" vs new] wf fresh hd(4)
      by (simp add: heap_wf_def)
    have size_new: "bsize h' new = unat remaining - 16" using r unfolding hd(2) by (simp add: unat_sub_if_size word_le_nat_alt)
    have old: "headers h' x = headers h x" if "x \<in> set us \<union> set vs" for x
    proof -
      have "x \<noteq> a" "x \<noteq> new" using that d fresh by auto
      then show ?thesis by (simp add: hd(3))
    qed
    have "chain (bsize h) (unat (uheap_start h)) (unat a) us" "chain (bsize h) (unat a + 16 + bsize h a) (unat (uheap_end h)) vs"
      using wf unfolding heap_wf_def chain_split by simp_all
    then have "chain (bsize h') (unat (uheap_start h)) (unat a) us" "chain (bsize h') (unat a + 16 + bsize h a) (unat (uheap_end h)) vs"
      using old by (auto intro: chain_cong)
    moreover have ge: "unat a + 16 + bsize h' a \<le> unat new" using new by (simp add: hd(1))
    moreover have e: "unat new + 16 + bsize h' new = unat a + 16 + bsize h a" using new size_new rem r le by simp
    ultimately have "chain (bsize h') (unat (uheap_start h')) (unat (uheap_end h')) ?bs'"
      by (simp only: append_assoc append_Cons append_Nil chain_split chain.simps e hd(5,6))
    moreover have "8 dvd unat new" "8 dvd bsize h' new"
    proof -
      have "8 dvd unat a" "8 dvd bsize h a" using wf by (simp_all add: heap_wf_def)
      then show "8 dvd unat new" "8 dvd bsize h' new" using new size_new rem assms(4) by auto
    qed
    ultimately have "heap_wf h' ?bs'"
      using wf list hd old assms(4) fresh d unfolding heap_wf_def by auto
    moreover have "in_use h' ?bs' = insert (a, bsize h' a) (in_use h ?bs)"
      using assms(2) hd old fresh d by (auto simp: in_use_def) 
    ultimately show ?thesis unfolding h'_def [symmetric] by (intro exI [of _ ?bs']) (auto simp: hd(1))
  qed
qed

text \<open>A new block at the end of the heap.\<close>

definition grow :: "u32 \<Rightarrow> uheap_t \<Rightarrow> uheap_t" where
  "grow sz h = (let a = uheap_end h; h1 = h\<lparr> uheap_end := a + (16 + sz) \<rparr>;
      h2 = upd_block a (\<lambda>_. \<lparr> blk_size = sz, is_free = False, blk_next = None, magic = BLOCK_MAGIC \<rparr>) h1
    in h2)"

lemma is_list_snoc_head:
  assumes "is_list nx p xs" "y \<notin> set xs" "nx y = None"
  shows "is_list (if xs = [] then nx else nx(last xs := Some y)) (if xs = [] then Some y else p) (xs @ [y])"
  using is_list_snoc [OF assms(1) _ assms(2,3)] assms by auto

lemma umalloc_grows:
  assumes wf: "heap_wf h bs" and none: "find_free_block (ALIGN size0) h (heap_list_head h) = Some None"
    and "0 < size0" "unat size0 \<le> 2 ^ 31 - 32"
  shows "umalloc size0 h = Some (0, h) \<or> (\<exists>a h'. umalloc size0 h = Some (a + 16, h') \<and> a \<notin> set bs \<and> heap_wf h' (bs @ [a])
      \<and> blk_size (headers h' a) = ALIGN size0 \<and> in_use h' (bs @ [a]) = insert (a, bsize h' a) (in_use h bs))"
proof -
  let ?sz = "ALIGN size0" and ?a = "uheap_end h"
  note al = ALIGN_bounds [OF assms(3,4)]
  have nz: "size0 \<noteq> 0" using assms(3) by auto
  have i: "unat (16 + ?sz) = 16 + unat ?sz" "unat (16 + ?sz) < 2 ^ 31" using al(3) assms(4) by (simp_all add: unat_word_ariths)
  from sbrk_grows [OF wf i(2)] show ?thesis
  proof
    assume "sbrk (16 + ?sz) h = (- 1, h)"
    then show ?thesis using none nz by (simp add: umalloc_def Let_def sizeof_block_def)
  next
    assume g: "sbrk (16 + ?sz) h = (?a, h\<lparr> uheap_end := ?a + (16 + ?sz) \<rparr>) \<and> unat (?a + (16 + ?sz)) = unat ?a + unat (16 + ?sz)
      \<and> ?a + (16 + ?sz) \<le> VM_START \<and> unat ?a + unat (16 + ?sz) - unat (uheap_start h) < 2 ^ 31"
    have below: "unat b + 16 \<le> unat ?a" if "b \<in> set bs" for b
      using chain_bounds that wf unfolding heap_wf_def by fastforce
    then have fresh: "?a \<notin> set bs" by fastforce
    have "?a \<le> VM_START" using wf by (simp add: heap_wf_def)
    then have "?a \<noteq> 0xFFFFFFFF" by auto
    moreover have "(0xFFFFFFFF :: u32) = - 1" by simp
    ultimately have a: "?a \<noteq> - 1" by metis
    define h2 where "h2 = grow ?sz h"
    have h2: "headers h2 = (headers h)(?a := \<lparr> blk_size = ?sz, is_free = False, blk_next = None, magic = BLOCK_MAGIC \<rparr>)"
      "heap_list_head h2 = heap_list_head h" "uheap_start h2 = uheap_start h" "uheap_end h2 = ?a + (16 + ?sz)"
      by (simp_all add: h2_def grow_def Let_def upd_block_def)
    have l2: "is_list (\<lambda>x. blk_next (headers h2 x)) (heap_list_head h2) bs"
      by (rule is_list_cong [of "\<lambda>x. blk_next (headers h x)"]) (use wf fresh h2 in \<open>auto simp: heap_wf_def\<close>)
    define h' where "h' = (if bs = [] then h2\<lparr> heap_list_head := Some ?a \<rparr>
      else upd_block (last bs) (\<lambda>b. b\<lparr> blk_next := Some ?a \<rparr>) h2)"
    have run: "umalloc size0 h = Some (?a + 16, h')"
    proof (cases "bs = []")
      case True
      then have "heap_list_head h = None" using wf by (simp add: heap_wf_def)
      then show ?thesis using none nz g a True
        by (simp add: umalloc_def Let_def sizeof_block_def h'_def h2_def grow_def)
    next
      case False
      then obtain p where p: "heap_list_head h = Some p" using wf by (cases bs) (auto simp: heap_wf_def)
      then have "last_block h2 p = Some (last bs)" using last_block_spec l2 h2(2) by simp
      then show ?thesis using none nz g a False p
        by (simp add: umalloc_def Let_def sizeof_block_def h'_def h2_def grow_def)
    qed
    have hd: "blk_size (headers h' x) = blk_size (headers h2 x)" "is_free (headers h' x) = is_free (headers h2 x)"
      "magic (headers h' x) = magic (headers h2 x)" for x by (simp_all add: h'_def)
    have "(\<lambda>x. blk_next (headers h' x)) = (if bs = [] then (\<lambda>x. blk_next (headers h2 x)) else (\<lambda>x. blk_next (headers h2 x))(last bs := Some ?a))"
      "heap_list_head h' = (if bs = [] then Some ?a else heap_list_head h2)"
      by (auto simp: h'_def fun_eq_iff)
    then have list: "is_list (\<lambda>x. blk_next (headers h' x)) (heap_list_head h') (bs @ [?a])"
      using is_list_snoc_head [OF l2 fresh] h2(1) by simp
    have "chain (bsize h) (unat (uheap_start h)) (unat ?a) bs" using wf by (simp add: heap_wf_def)
    then have "chain (bsize h') (unat (uheap_start h)) (unat ?a) bs"
      by (rule chain_cong) (use fresh hd h2 in auto)
    then have "chain (bsize h') (unat (uheap_start h')) (unat (uheap_end h')) (bs @ [?a])"
      using g i(1) h2 hd unfolding chain_split by (auto simp: h'_def)
    moreover have "uheap_start h' = uheap_start h" "uheap_end h' = ?a + (16 + ?sz)" using h2 by (simp_all add: h'_def)
    moreover have "8 dvd unat (?a + (16 + ?sz))" using g i(1) al(2) wf by (simp add: heap_wf_def)
    ultimately have "heap_wf h' (bs @ [?a])" using wf list g al(2) hd h2 by (auto simp: heap_wf_def)
    moreover have "in_use h' (bs @ [?a]) = insert (?a, bsize h' ?a) (in_use h bs)"
      using fresh hd h2 by (auto simp: in_use_def)
    ultimately show ?thesis using run fresh hd h2 by auto
  qed
qed

lemma in_use_disjoint:
  assumes "heap_wf h bs" "(a, n) \<in> in_use h bs" "(b, l) \<in> in_use h bs" "a \<noteq> b"
  shows "unat a + 16 + n \<le> unat b \<or> unat b + 16 + l \<le> unat a"
  using assms chain_disjoint [of "bsize h" _ _ bs a b] by (auto simp: heap_wf_def in_use_def)

lemma umalloc_cases:
  assumes wf: "heap_wf h bs" and "0 < sz" "unat sz \<le> 2 ^ 31 - 32"
  shows "umalloc sz h = Some (0, h) \<or> (\<exists>a h' bs' n. umalloc sz h = Some (a + 16, h') \<and> heap_wf h' bs' \<and> a \<in> set bs' \<and> unat sz \<le> n
    \<and> a \<notin> fst ` in_use h bs \<and> in_use h' bs' = insert (a, n) (in_use h bs))"
proof -
  have nz: "sz \<noteq> 0" using assms(2) by auto
  note al = ALIGN_bounds [OF assms(2,3)]
  have "is_list (\<lambda>a. blk_next (headers h a)) (heap_list_head h) bs" using wf by (simp add: heap_wf_def)
  from find_free_block_spec [OF this, of "ALIGN sz"]
  consider "find_free_block (ALIGN sz) h (heap_list_head h) = Some None"
    | us a vs where "find_free_block (ALIGN sz) h (heap_list_head h) = Some (Some a)" "bs = us @ a # vs"
        "is_free (headers h a)" "ALIGN sz \<le> blk_size (headers h a)" by blast
  then show ?thesis
  proof cases
    case 1
    from umalloc_grows [OF wf this assms(2,3)] show ?thesis
    proof
      assume "\<exists>a h'. umalloc sz h = Some (a + 16, h') \<and> a \<notin> set bs \<and> heap_wf h' (bs @ [a])
        \<and> blk_size (headers h' a) = ALIGN sz \<and> in_use h' (bs @ [a]) = insert (a, bsize h' a) (in_use h bs)"
      then obtain a h' where a: "umalloc sz h = Some (a + 16, h')" "a \<notin> set bs" "heap_wf h' (bs @ [a])"
        "blk_size (headers h' a) = ALIGN sz" "in_use h' (bs @ [a]) = insert (a, bsize h' a) (in_use h bs)" by blast
      moreover have "unat sz \<le> bsize h' a" using al(1) a(4) by (simp add: word_le_nat_alt)
      moreover have "a \<notin> fst ` in_use h bs" using a(2) by (auto simp: in_use_def)
      ultimately show ?thesis by (intro disjI2 exI [of _ a] exI [of _ h'] exI [of _ "bs @ [a]"] exI [of _ "bsize h' a"]) simp
    qed simp
  next
    case (2 us a vs)
    define h' where "h' = use_block (ALIGN sz) a h"
    obtain bs' where b: "heap_wf h' bs'" "set (us @ a # vs) \<subseteq> set bs'" "unat (ALIGN sz) \<le> bsize h' a"
      "in_use h' bs' = insert (a, bsize h' a) (in_use h bs)"
      using use_block_wf [OF wf [unfolded 2(2)] 2(3,4) al(2)] 2(2) unfolding h'_def by blast
    have "umalloc sz h = Some (a + 16, h')" using 2(1) nz by (simp add: umalloc_def Let_def sizeof_block_def h'_def)
    moreover have "unat sz \<le> bsize h' a" using al(1) b(3) by (simp add: word_le_nat_alt)
    moreover have "a \<notin> fst ` in_use h bs" using 2(3) by (auto simp: in_use_def)
    ultimately show ?thesis using b(1,2,4) by (intro disjI2 exI [of _ a] exI [of _ h'] exI [of _ bs'] exI [of _ "bsize h' a"]) simp
  qed
qed

text \<open>
  C30: an allocation returns memory nobody holds. On a well-formed heap, \<open>malloc\<close> of up to \<open>2 ^ 31 - 32\<close>
  bytes returns; either \<open>NULL\<close> with the heap unchanged, or an address aligned to eight bytes whose
  block is large enough, was held by nobody and overlaps no block held before; all of those stay held with
  their sizes, and the heap stays well formed.
\<close>

theorem umalloc_correct:
  assumes "heap_wf h bs" and "0 < sz" and "unat sz \<le> 2 ^ 31 - 32"
  shows "umalloc sz h = Some (0, h) \<or> (\<exists>p h' bs' n. umalloc sz h = Some (p, h') \<and> p \<noteq> 0 \<and> 8 dvd unat p \<and> heap_wf h' bs' \<and> unat sz \<le> n
    \<and> in_use h' bs' = insert (p - 16, n) (in_use h bs)
    \<and> (\<forall>(b, l)\<in>in_use h bs. unat p + n \<le> unat b \<or> unat b + 16 + l + 16 \<le> unat p))"
  using umalloc_cases [OF assms]
proof
  assume "\<exists>a h' bs' n. umalloc sz h = Some (a + 16, h') \<and> heap_wf h' bs' \<and> a \<in> set bs' \<and> unat sz \<le> n
    \<and> a \<notin> fst ` in_use h bs \<and> in_use h' bs' = insert (a, n) (in_use h bs)"
  then obtain a h' bs' n where a: "umalloc sz h = Some (a + 16, h')" "heap_wf h' bs'" "a \<in> set bs'" "unat sz \<le> n"
    "a \<notin> fst ` in_use h bs" "in_use h' bs' = insert (a, n) (in_use h bs)" by blast
  note blk = heap_wf_block [OF a(2,3)]
  have "8 dvd unat a" using a(2,3) by (simp add: heap_wf_def)
  then have "a + 16 \<noteq> 0" "8 dvd unat (a + 16)" using blk(2) by auto
  moreover have "unat (a + 16) + n \<le> unat b \<or> unat b + 16 + l + 16 \<le> unat (a + 16)" if "(b, l) \<in> in_use h bs" for b l
  proof -
    have "a \<noteq> b" using a(5) that by force
    then have "unat a + 16 + n \<le> unat b \<or> unat b + 16 + l \<le> unat a"
      using in_use_disjoint [OF a(2), of a n b l] that a(6) by simp
    then show ?thesis using blk(2) by linarith
  qed
  ultimately show ?thesis using a
    by (intro disjI2 exI [of _ "a + 16"] exI [of _ h'] exI [of _ bs'] exI [of _ n]) auto
qed simp

definition empty_heap :: uheap_t where
  "empty_heap = \<lparr> headers = (\<lambda>_. \<lparr> blk_size = 0, is_free = False, blk_next = None, magic = 0 \<rparr>), heap_list_head = None,
     uheap_start = 0x8000000, uheap_end = 0x8000000 \<rparr>"

lemma empty_heap_wf: "heap_wf empty_heap []"
  by (simp add: heap_wf_def empty_heap_def)

theorem umalloc_correct_witness:
  "\<exists>p h' bs' n. umalloc 5 empty_heap = Some (p, h') \<and> p \<noteq> 0 \<and> heap_wf h' bs' \<and> 5 \<le> n \<and> in_use h' bs' = {(p - 16, n)}"
proof -
  have "umalloc 5 empty_heap \<noteq> Some (0, empty_heap)"
    by (simp add: umalloc_def find_free_block.simps sbrk_def empty_heap_def ALIGN_def ALIGNMENT_def sizeof_block_def page_align_up_def Let_def)
  moreover have "in_use empty_heap [] = {}" by (simp add: in_use_def)
  moreover note umalloc_correct [OF empty_heap_wf, of 5]
  ultimately show ?thesis by auto
qed

section \<open>Freeing\<close>

definition touching :: "uheap_t \<Rightarrow> u32 \<Rightarrow> u32 \<Rightarrow> bool" where
  "touching h a b \<longleftrightarrow> is_free (headers h a) \<and> is_free (headers h b) \<and> a + 16 + blk_size (headers h a) = b"

abbreviation merged :: "uheap_t \<Rightarrow> u32 list \<Rightarrow> bool" where
  "merged h bs \<equiv> successively (\<lambda>a b. \<not> touching h a b) bs"

text \<open>Merging a free block with the free block that follows it.\<close>

definition merge :: "u32 \<Rightarrow> u32 \<Rightarrow> uheap_t \<Rightarrow> uheap_t" where
  "merge c n h = upd_block c (\<lambda>b. b\<lparr> blk_size := blk_size b + (16 + blk_size (headers h n)), blk_next := blk_next (headers h n) \<rparr>) h"

lemma merge_wf:
  assumes wf: "heap_wf h (us @ c # n # vs)" and "touching h c n"
  shows "heap_wf (merge c n h) (us @ c # vs)" "in_use (merge c n h) (us @ c # vs) = in_use h (us @ c # n # vs)"
    "\<And>a. a \<in> set us \<union> set vs \<Longrightarrow> headers (merge c n h) a = headers h a" "is_free (headers (merge c n h) c)"
proof -
  let ?h = "merge c n h" and ?bs = "us @ c # n # vs"
  have d: "distinct ?bs" using wf is_list_distinct unfolding heap_wf_def by blast
  show old: "\<And>a. a \<in> set us \<union> set vs \<Longrightarrow> headers ?h a = headers h a" using d by (auto simp: merge_def)
  show free: "is_free (headers ?h c)" using assms(2) by (simp add: merge_def touching_def)
  have b: "unat c + 16 + bsize h c \<le> 0xA0000000" "unat n + 16 + bsize h n \<le> 0xA0000000" using heap_wf_block(1) [OF wf] by auto
  have "unat (c + 16 + blk_size (headers h c)) = unat c + 16 + bsize h c" using b(1) by (simp add: unat_word_ariths)
  then have n: "unat n = unat c + 16 + bsize h c" using assms(2) by (simp add: touching_def)
  then have size_c: "bsize ?h c = bsize h c + 16 + bsize h n" using b by (simp add: merge_def unat_word_ariths)
  have "(\<lambda>x. blk_next (headers ?h x)) = (\<lambda>x. blk_next (headers h x))(c := blk_next (headers h n))" by (auto simp: merge_def fun_eq_iff)
  then have list: "is_list (\<lambda>x. blk_next (headers ?h x)) (heap_list_head ?h) (us @ c # vs)"
    using is_list_unlink [of "\<lambda>x. blk_next (headers h x)" "heap_list_head h" "us @ [c]" n vs] wf by (simp add: heap_wf_def merge_def)
  have "chain (bsize h) (unat (uheap_start h)) (unat c) us" "chain (bsize h) (unat n + 16 + bsize h n) (unat (uheap_end h)) vs"
    using wf unfolding heap_wf_def chain_split by simp_all
  then have "chain (bsize ?h) (unat (uheap_start h)) (unat c) us" "chain (bsize ?h) (unat n + 16 + bsize h n) (unat (uheap_end h)) vs"
    using old by (auto intro: chain_cong)
  moreover have "unat n + 16 + bsize h n = unat c + 16 + bsize ?h c" using n size_c by simp
  ultimately have "chain (bsize ?h) (unat (uheap_start h)) (unat (uheap_end h)) (us @ c # vs)" unfolding chain_split by simp
  moreover have "8 dvd bsize ?h c" using wf unfolding size_c heap_wf_def by (simp add: dvd_add)
  moreover have "magic (headers ?h c) = BLOCK_MAGIC" using heap_wf_block(4) [OF wf] by (simp add: merge_def)
  moreover have "uheap_start ?h = uheap_start h" "uheap_end ?h = uheap_end h" by (simp_all add: merge_def)
  ultimately show "heap_wf ?h (us @ c # vs)" using wf list old unfolding heap_wf_def by auto
  show "in_use ?h (us @ c # vs) = in_use h ?bs"
    using old free assms(2) by (auto simp: in_use_def touching_def)
qed

lemma coalesce_loop_spec:
  assumes "heap_wf h (us @ c # vs)" "merged h (us @ [c])"
  shows "\<exists>h' bs'. coalesce_loop h (Some c) = Some h' \<and> heap_wf h' bs' \<and> in_use h' bs' = in_use h (us @ c # vs) \<and> merged h' bs'"
  using assms
proof (induction vs arbitrary: h us c)
  case Nil
  then have "blk_next (headers h c) = None" using is_list_last unfolding heap_wf_def by fastforce
  then have "coalesce_loop h (Some c) = Some h" by (subst coalesce_loop.simps) simp
  then show ?case using Nil by auto
next
  case (Cons n vs)
  have "is_list (\<lambda>x. blk_next (headers h x)) (Some c) (c # n # vs)"
    using Cons.prems(1) is_list_append unfolding heap_wf_def by fast
  then have nx: "blk_next (headers h c) = Some n" by simp
  show ?case
  proof (cases "touching h c n")
    case True
    note m = merge_wf [OF Cons.prems(1) True]
    have "coalesce_loop h (Some c) = coalesce_loop (merge c n h) (Some c)"
      using nx True by (subst coalesce_loop.simps) (simp add: touching_def merge_def sizeof_block_def)
    moreover have "merged (merge c n h) (us @ [c])"
    proof -
      have "touching (merge c n h) a b = touching h a b" if "a \<in> set us" "b \<in> set us \<union> {c}" for a b
        using m(3,4) that True by (auto simp: touching_def)
      then have "merged (merge c n h) us = merged h us" "us \<noteq> [] \<Longrightarrow> touching (merge c n h) (last us) c = touching h (last us) c"
        by (auto intro!: successively_cong)
      then show ?thesis using Cons.prems(2) by (auto simp: successively_append_iff)
    qed
    ultimately show ?thesis using Cons.IH [OF m(1)] m(2) by simp
  next
    case False
    have "coalesce_loop h (Some c) = coalesce_loop h (Some n)"
      using nx False by (subst coalesce_loop.simps) (auto simp: touching_def sizeof_block_def)
    moreover have "merged h ((us @ [c]) @ [n])" using Cons.prems(2) False by (subst successively_append_iff) simp
    ultimately show ?thesis using Cons.IH [of h "us @ [c]" n] Cons.prems(1) by simp
  qed
qed


definition one_block :: uheap_t where
  "one_block = \<lparr> headers = (\<lambda>_. \<lparr> blk_size = 8, is_free = False, blk_next = None, magic = BLOCK_MAGIC \<rparr>), heap_list_head = Some 0x8000000,
     uheap_start = 0x8000000, uheap_end = 0x8000018 \<rparr>"


text \<open>
  A size within seven bytes of the largest wraps around to 0 in \<open>ALIGN\<close>, and the caller receives an
  empty block.
\<close>

lemma umalloc_wraps: "map_option fst (umalloc 0xFFFFFFFF empty_heap) = Some 0x8000010
  \<and> map_option (\<lambda>(p, h). blk_size (headers h (p - 16))) (umalloc 0xFFFFFFFF empty_heap) = Some 0"
  by (simp add: umalloc_def find_free_block.simps sbrk_def empty_heap_def ALIGN_def ALIGNMENT_def sizeof_block_def page_align_up_def Let_def upd_block_def)

end
