(* ===== verification/Ata.thy ===== *)
theory Ata
  imports Prelude
begin

text \<open>
  The disk as the driver \<^verbatim>\<open>src/ata.c\<close> presents it to the file system: reads and writes of bytes by
  address, built from transfers of up to 256 sectors. The drive is the bytes of its sectors and a fate for
  every command: \<open>fate n = None\<close> when command number \<open>n\<close> succeeds, \<open>Some k\<close> when it
  fails after \<open>k\<close> sectors (for a write, these have reached the disk). \<open>heap_ok\<close> says in the same way which
  allocations of a buffer succeed. The polling of status registers and the yields while the drive is busy are not
  modelled. The theory shows that a write that succeeds stores exactly its bytes, that one that fails
  changes nothing outside its range, and that a read returns what is stored.
\<close>

section \<open>Model\<close>

record ata_t =
  disk :: "nat \<Rightarrow> u8"
  ata_base_lba :: u32
  ata_partition_sectors :: u32
  fate :: "nat \<Rightarrow> nat option"
  ata_ops :: nat
  heap_ok :: "nat \<Rightarrow> bool"
  heap_ops :: nat

definition write_bytes :: "nat \<Rightarrow> u8 list \<Rightarrow> (nat \<Rightarrow> u8) \<Rightarrow> nat \<Rightarrow> u8" where
  "write_bytes p xs f a = (if p \<le> a \<and> a < p + length xs then xs ! (a - p) else f a)"

definition read_bytes :: "(nat \<Rightarrow> u8) \<Rightarrow> nat \<Rightarrow> nat \<Rightarrow> u8 list" where
  "read_bytes f p n = map (\<lambda>i. f (p + i)) [0..<n]"

definition buf_malloc :: "'a ata_t_scheme \<Rightarrow> bool \<times> 'a ata_t_scheme" where
  "buf_malloc d = (heap_ok d (heap_ops d), d\<lparr> heap_ops := heap_ops d + 1 \<rparr>)"

text \<open>The checks of \<open>ata_readwrite\<close>, and where on the disk its first sector is (28-bit addressing).\<close>

definition ata_accepts :: "u32 \<Rightarrow> nat \<Rightarrow> 'a ata_t_scheme \<Rightarrow> bool" where
  "ata_accepts lba sectors d \<longleftrightarrow>
     \<not> (ata_partition_sectors d \<noteq> 0 \<and> lba + of_nat sectors > ata_partition_sectors d) \<and> \<not> (sectors = 0 \<or> sectors > 256)"

definition sector_addr :: "u32 \<Rightarrow> 'a ata_t_scheme \<Rightarrow> nat" where
  "sector_addr lba d = (unat (lba + ata_base_lba d) mod 2 ^ 28) * 512"

definition ata_read_sectors :: "u32 \<Rightarrow> nat \<Rightarrow> 'a ata_t_scheme \<Rightarrow> u8 list option \<times> 'a ata_t_scheme" where
  "ata_read_sectors lba sectors d =
     (if \<not> ata_accepts lba sectors d then (None, d)
      else (case fate d (ata_ops d) of
              None \<Rightarrow> Some (read_bytes (disk d) (sector_addr lba d) (512 * sectors))
            | Some k \<Rightarrow> None, d\<lparr> ata_ops := ata_ops d + 1 \<rparr>))"

definition ata_write_sectors :: "u32 \<Rightarrow> u8 list \<Rightarrow> nat \<Rightarrow> 'a ata_t_scheme \<Rightarrow> bool \<times> 'a ata_t_scheme" where
  "ata_write_sectors lba buf sectors d =
     (if \<not> ata_accepts lba sectors d then (False, d)
      else (fate d (ata_ops d) = None,
            d\<lparr> ata_ops := ata_ops d + 1,
               disk := write_bytes (sector_addr lba d)
                 (take (512 * (case fate d (ata_ops d) of None \<Rightarrow> sectors | Some k \<Rightarrow> min k sectors)) buf) (disk d) \<rparr>))"

function ata_read_chunks :: "u32 \<Rightarrow> nat \<Rightarrow> nat \<Rightarrow> u8 list \<Rightarrow> 'a ata_t_scheme \<Rightarrow> u8 list option \<times> 'a ata_t_scheme" where
  "ata_read_chunks start i count acc d =
     (if i < count then
        let n = (if i + 256 > count then count - i else 256)
        in case ata_read_sectors (start + of_nat i) n d of
             (None, d1) \<Rightarrow> (None, d1)
           | (Some b, d1) \<Rightarrow> ata_read_chunks start (i + 256) count (acc @ b) d1
      else (Some acc, d))"
  by pat_completeness auto
termination by (relation "measure (\<lambda>(start, i, count, acc, d). count - i)") auto

definition ata_read_exact_into :: "u32 \<Rightarrow> u32 \<Rightarrow> 'a ata_t_scheme \<Rightarrow> u8 list option \<times> 'a ata_t_scheme" where
  "ata_read_exact_into addr bytes d =
     (if bytes = 0 then (Some [], d)
      else let startSector = addr div 512;
               offset = addr mod 512;
               endAddr = addr + bytes;
               endSector = (endAddr + 511) div 512;
               sectorCount = endSector - startSector
           in if sectorCount = 1 then
                (case ata_read_sectors startSector 1 d of
                   (None, d1) \<Rightarrow> (None, d1)
                 | (Some b, d1) \<Rightarrow> (Some (take (unat bytes) (drop (unat offset) b)), d1))
              else if offset = 0 \<and> bytes mod 512 = 0 \<and> bytes div 512 \<le> 256 then
                ata_read_sectors startSector (unat (bytes div 512)) d
              else
                (case buf_malloc d of
                   (False, d1) \<Rightarrow> (None, d1)
                 | (True, d1) \<Rightarrow>
                     (case ata_read_chunks startSector 0 (unat sectorCount) [] d1 of
                        (None, d2) \<Rightarrow> (None, d2)
                      | (Some b, d2) \<Rightarrow> (Some (take (unat bytes) (drop (unat offset) b)), d2))))"

definition ata_read_exact :: "u32 \<Rightarrow> u32 \<Rightarrow> 'a ata_t_scheme \<Rightarrow> u8 list option \<times> 'a ata_t_scheme" where
  "ata_read_exact addr bytes d =
     (case buf_malloc d of (False, d1) \<Rightarrow> (None, d1) | (True, d1) \<Rightarrow> ata_read_exact_into addr bytes d1)"

function ata_write_chunks :: "u32 \<Rightarrow> nat \<Rightarrow> nat \<Rightarrow> u8 list \<Rightarrow> 'a ata_t_scheme \<Rightarrow> bool \<times> 'a ata_t_scheme" where
  "ata_write_chunks start i count buf d =
     (if i < count then
        let n = (if i + 256 > count then count - i else 256)
        in case ata_write_sectors (start + of_nat i) (take (512 * n) (drop (i * 512) buf)) n d of
             (False, d1) \<Rightarrow> (False, d1)
           | (True, d1) \<Rightarrow> ata_write_chunks start (i + 256) count buf d1
      else (True, d))"
  by pat_completeness auto
termination by (relation "measure (\<lambda>(start, i, count, buf, d). count - i)") auto

declare ata_read_chunks.simps [simp del] ata_write_chunks.simps [simp del]

text \<open>The size of a write is the length of its buffer.\<close>

definition ata_write_exact :: "u32 \<Rightarrow> u8 list \<Rightarrow> 'a ata_t_scheme \<Rightarrow> bool \<times> 'a ata_t_scheme" where
  "ata_write_exact addr buf d =
     (if length buf = 0 then (True, d)
      else if length buf mod 512 \<noteq> 0 then (False, d)
      else if addr mod 512 \<noteq> 0 then (False, d)
      else ata_write_chunks (addr div 512) 0 (length buf div 512) buf d)"

subsection \<open>Partitions\<close>

text \<open>The little-endian number of \<open>n\<close> bytes at offset \<open>i\<close>.\<close>

fun le :: "u8 list \<Rightarrow> nat \<Rightarrow> nat \<Rightarrow> nat" where
  "le b i 0 = 0"
| "le b i (Suc n) = unat (b ! i) + 256 * le b (i + 1) n"

fun mbr_entries :: "u8 list \<Rightarrow> nat list \<Rightarrow> bool \<Rightarrow> 'a ata_t_scheme \<Rightarrow> bool \<times> 'a ata_t_scheme" where
  "mbr_entries m [] any_entries d = (\<not> any_entries, d)"
| "mbr_entries m (i # is) any_entries d =
     (let e = 0x1BE + i * 16
      in if m ! (e + 4) = 0 then mbr_entries m is any_entries d
         else if m ! (e + 4) \<noteq> 0x7F then mbr_entries m is True d
         else let starting_lba = of_nat (le m (e + 8) 4) :: u32; sectors = of_nat (le m (e + 0xC) 4) :: u32
              in if sectors = 0 \<or> starting_lba + sectors > 2 ^ 28 then (False, d)
                 else (True, d\<lparr> ata_base_lba := starting_lba, ata_partition_sectors := sectors \<rparr>))"

definition ata_check_mbr :: "'a ata_t_scheme \<Rightarrow> bool \<times> 'a ata_t_scheme" where
  "ata_check_mbr d =
     (case ata_read_sectors 0 1 (d\<lparr> ata_base_lba := 0 \<rparr>) of
        (None, d1) \<Rightarrow> (False, d1)
      | (Some m, d1) \<Rightarrow> if m ! 510 \<noteq> 0x55 \<or> m ! 511 \<noteq> 0xAA then (False, d1) else mbr_entries m [0..<4] False d1)"

definition GPT_TYPE_GUID :: "u8 list" where
  "GPT_TYPE_GUID = [0x2E, 0xEB, 0x59, 0xBE, 0xC0, 0x91, 0x56, 0x4F, 0x8F, 0xEF, 0x11, 0x9A, 0x41, 0xDA, 0x9F, 0xAA]"

fun gpt_entries :: "u32 \<Rightarrow> nat \<Rightarrow> nat list \<Rightarrow> u8 list \<Rightarrow> 'a ata_t_scheme \<Rightarrow> bool \<times> 'a ata_t_scheme" where
  "gpt_entries start_lba entry_size [] sec d = (False, d)"
| "gpt_entries start_lba entry_size (i # is) sec d =
     (let per_sector = 512 div entry_size
      in case (if i mod per_sector = 0 then ata_read_sectors (start_lba + of_nat (i div per_sector)) 1 d else (Some sec, d)) of
           (None, d1) \<Rightarrow> (False, d1)
         | (Some sec1, d1) \<Rightarrow>
             let e = (i mod per_sector) * entry_size;
                 starting = le sec1 (e + 32) 8;
                 ending = le sec1 (e + 40) 8
             in if take 16 (drop e sec1) \<noteq> GPT_TYPE_GUID then gpt_entries start_lba entry_size is sec1 d1
                else if starting > ending then (False, d1)
                else if ending \<ge> 2 ^ 28 then (False, d1)
                else (True, d1\<lparr> ata_base_lba := of_nat starting, ata_partition_sectors := of_nat (ending - starting + 1) \<rparr>))"

definition ata_check_gpt :: "'a ata_t_scheme \<Rightarrow> bool \<times> 'a ata_t_scheme" where
  "ata_check_gpt d =
     (case ata_read_sectors 1 1 d of
        (None, d1) \<Rightarrow> (False, d1)
      | (Some s, d1) \<Rightarrow>
          if take 8 s \<noteq> [0x45, 0x46, 0x49, 0x20, 0x50, 0x41, 0x52, 0x54] then (False, d1)
          else let start_lba = of_nat (le s 0x48 4) :: u32;
                   count = of_nat (le s 0x50 4) :: u32;
                   entry_size = le s 0x54 4
               in if entry_size < 128 \<or> 512 mod entry_size \<noteq> 0 \<or> start_lba \<ge> 2 ^ 28 then (False, d1)
                  else if sint count > 128 then (False, d1)
                  else gpt_entries start_lba entry_size [0..<nat (sint count)] s d1)"

text \<open>Neither kind of partition table: the kernel hangs (\<^const>\<open>None\<close>).\<close>

definition ata_find_partition :: "'a ata_t_scheme \<Rightarrow> 'a ata_t_scheme option" where
  "ata_find_partition d =
     (case ata_check_gpt d of
        (True, d1) \<Rightarrow> Some d1
      | (False, d1) \<Rightarrow> (case ata_check_mbr d1 of (True, d2) \<Rightarrow> Some d2 | (False, d2) \<Rightarrow> None))"

section \<open>What transfers leave alone\<close>

text \<open>Whatever extends the state of the disk is not touched by any transfer.\<close>

lemma more_malloc [simp]: "ata_t.more (snd (buf_malloc d)) = ata_t.more d"
  by (simp add: buf_malloc_def)

lemma more_read_sectors [simp]: "ata_t.more (snd (ata_read_sectors lba n d)) = ata_t.more d"
  by (simp add: ata_read_sectors_def)

lemma more_write_sectors [simp]: "ata_t.more (snd (ata_write_sectors lba buf n d)) = ata_t.more d"
  by (simp add: ata_write_sectors_def)

lemma more_read_chunks [simp]: "ata_t.more (snd (ata_read_chunks start i count acc d)) = ata_t.more d"
proof (induction start i count acc d rule: ata_read_chunks.induct)
  case (1 start i count acc d)
  define n where "n = (if i + 256 > count then count - i else 256)"
  show ?case
  proof (cases "i < count")
    case True
    obtain r d1 where r: "ata_read_sectors (start + of_nat i) n d = (r, d1)" by fastforce
    then have "ata_t.more d1 = ata_t.more d" using more_read_sectors [of "start + of_nat i" n d] by simp
    then show ?thesis using 1 [OF True n_def] r True
      by (subst ata_read_chunks.simps) (auto simp: n_def [symmetric] Let_def split: option.splits)
  qed (simp add: ata_read_chunks.simps)
qed

lemma more_write_chunks [simp]: "ata_t.more (snd (ata_write_chunks start i count buf d)) = ata_t.more d"
proof (induction start i count buf d rule: ata_write_chunks.induct)
  case (1 start i count buf d)
  define n where "n = (if i + 256 > count then count - i else 256)"
  show ?case
  proof (cases "i < count")
    case True
    obtain r d1 where r: "ata_write_sectors (start + of_nat i) (take (512 * n) (drop (i * 512) buf)) n d = (r, d1)" by fastforce
    then have "ata_t.more d1 = ata_t.more d" using more_write_sectors [of "start + of_nat i" "take (512 * n) (drop (i * 512) buf)" n d] by simp
    then show ?thesis using 1 [OF True n_def] r True
      by (subst ata_write_chunks.simps) (auto simp: n_def [symmetric] Let_def split: bool.splits)
  qed (simp add: ata_write_chunks.simps)
qed

lemma more_cut: "ata_t.more (snd (case x of (None, d1) \<Rightarrow> (None, d1) | (Some b, d1) \<Rightarrow> (Some (f b), d1))) = ata_t.more (snd x)"
  by (auto split: prod.splits option.splits)

lemma more_alloc:
  assumes "\<And>d1. ata_t.more (snd (g d1)) = ata_t.more d1"
  shows "ata_t.more (snd (case buf_malloc d of (False, d1) \<Rightarrow> (None, d1) | (True, d1) \<Rightarrow> g d1)) = ata_t.more d"
  using assms by (auto simp: buf_malloc_def split: bool.splits)

lemma more_read_exact_into [simp]: "ata_t.more (snd (ata_read_exact_into addr n d)) = ata_t.more d"
  by (simp add: ata_read_exact_into_def Let_def more_cut more_alloc)

lemma more_read_exact [simp]: "ata_t.more (snd (ata_read_exact addr n d)) = ata_t.more d"
  by (auto simp: ata_read_exact_def buf_malloc_def split: bool.splits)

lemma more_write_exact [simp]: "ata_t.more (snd (ata_write_exact addr buf d)) = ata_t.more d"
  by (simp add: ata_write_exact_def)

section \<open>Bytes on the disk\<close>

lemma length_read_bytes [simp]: "length (read_bytes f p n) = n"
  by (simp add: read_bytes_def)

lemma nth_read_bytes [simp]: "i < n \<Longrightarrow> read_bytes f p n ! i = f (p + i)"
  by (simp add: read_bytes_def)

lemma read_bytes_append: "read_bytes f p (m + n) = read_bytes f p m @ read_bytes f (p + m) n"
  by (rule nth_equalityI) (auto simp: nth_append)

lemma take_drop_read_bytes: "i + n \<le> m \<Longrightarrow> take n (drop i (read_bytes f p m)) = read_bytes f (p + i) n"
  by (rule nth_equalityI) (auto simp: add.assoc)

lemma read_bytes_cong: "(\<And>a. p \<le> a \<Longrightarrow> a < p + n \<Longrightarrow> f a = g a) \<Longrightarrow> read_bytes f p n = read_bytes g p n"
  by (rule nth_equalityI) auto

lemma read_write_bytes: "read_bytes (write_bytes p xs f) p (length xs) = xs"
  by (rule nth_equalityI) (auto simp: write_bytes_def)

lemma write_bytes_outside: "a < p \<or> p + length xs \<le> a \<Longrightarrow> write_bytes p xs f a = f a"
  by (auto simp: write_bytes_def)

lemma write_bytes_append: "write_bytes (p + length xs) ys (write_bytes p xs f) = write_bytes p (xs @ ys) f"
  by (auto simp: write_bytes_def fun_eq_iff nth_append)

lemma write_bytes_Nil [simp]: "write_bytes p [] f = f"
  by (auto simp: write_bytes_def fun_eq_iff)

section \<open>Transfers\<close>

text \<open>
  The driver's view of an address: a range of bytes that lies in the partition, and where its first byte is
  on the disk.
\<close>

definition abs_addr :: "'a ata_t_scheme \<Rightarrow> nat \<Rightarrow> nat" where
  "abs_addr d a = unat (ata_base_lba d) * 512 + a"

definition in_partition :: "'a ata_t_scheme \<Rightarrow> nat \<Rightarrow> nat \<Rightarrow> bool" where
  "in_partition d a n \<longleftrightarrow> a + n \<le> 2 ^ 32 - 512 \<and> unat (ata_base_lba d) + (a + n + 511) div 512 \<le> 2 ^ 28
     \<and> (ata_partition_sectors d \<noteq> 0 \<longrightarrow> (a + n + 511) div 512 \<le> unat (ata_partition_sectors d))"

lemma sector_addr_eq:
  assumes "in_partition d a n" "512 * s < a + n"
  shows "sector_addr (of_nat s) d = abs_addr d (512 * s)"
proof -
  have s: "s < (a + n + 511) div 512" using assms(2) by linarith
  then have lt: "unat (ata_base_lba d) + s < 2 ^ 28" using assms(1) by (simp add: in_partition_def)
  then have "unat (of_nat s :: u32) = s" by (intro unat_of_nat_u32) simp
  then have "unat (of_nat s + ata_base_lba d) = s + unat (ata_base_lba d)" using lt by (simp add: unat_word_ariths)
  then show ?thesis using lt by (simp add: sector_addr_def abs_addr_def add.commute distrib_right)
qed

lemma ata_accepts_in:
  assumes "in_partition d a n" "512 * (s + k) \<le> a + n + 511" "0 < k" "k \<le> 256"
  shows "ata_accepts (of_nat s) k d"
proof -
  have "s + k \<le> (a + n + 511) div 512" using assms(2) by (simp add: less_eq_div_iff_mult_less_eq mult.commute)
  moreover from this have "s + k < 2 ^ 32" using assms(1) by (simp add: in_partition_def)
  then have "unat (of_nat (s + k) :: u32) = s + k" by (rule unat_of_nat_u32)
  ultimately show ?thesis using assms unfolding ata_accepts_def in_partition_def by (auto simp: word_less_nat_alt)
qed

text \<open>Only the counters of commands and allocations have moved on.\<close>

definition same_disk :: "'a ata_t_scheme \<Rightarrow> 'a ata_t_scheme \<Rightarrow> bool" where
  "same_disk d d' \<longleftrightarrow> (\<exists>k l. d' = d\<lparr> ata_ops := k, heap_ops := l \<rparr>)"

lemma same_disk_fields:
  "same_disk d d' \<Longrightarrow> disk d' = disk d \<and> ata_base_lba d' = ata_base_lba d \<and> ata_partition_sectors d' = ata_partition_sectors d
     \<and> fate d' = fate d \<and> heap_ok d' = heap_ok d"
  by (auto simp: same_disk_def)

lemma same_disk_cong:
  "same_disk d d' \<Longrightarrow> in_partition d' a n = in_partition d a n \<and> abs_addr d' a = abs_addr d a"
  by (auto simp: same_disk_def in_partition_def abs_addr_def)

lemma same_disk_refl [simp]: "same_disk d d"
  unfolding same_disk_def by (intro exI [of _ "ata_ops d"] exI [of _ "heap_ops d"]) simp

lemma same_disk_trans: "same_disk d d1 \<Longrightarrow> same_disk d1 d2 \<Longrightarrow> same_disk d d2"
  unfolding same_disk_def by (elim exE) (auto intro!: exI)

lemma same_disk_malloc: "buf_malloc d = (ok, d1) \<Longrightarrow> same_disk d d1"
  unfolding same_disk_def buf_malloc_def by (intro exI [of _ "ata_ops d"] exI [of _ "heap_ops d + 1"]) auto

text \<open>A read leaves the disk alone wherever it reads.\<close>

lemma same_disk_read_sectors: "same_disk d (snd (ata_read_sectors lba n d))"
  unfolding ata_read_sectors_def by (simp add: same_disk_def) (metis ata_t.surjective ata_t.update_convs(5) ata_t.update_convs(7))

lemma same_disk_read_chunks: "same_disk d (snd (ata_read_chunks start i count acc d))"
proof (induction start i count acc d rule: ata_read_chunks.induct)
  case (1 start i count acc d)
  define n where "n = (if i + 256 > count then count - i else 256)"
  obtain r d1 where r: "ata_read_sectors (start + of_nat i) n d = (r, d1)" by fastforce
  have sd: "same_disk d d1" using same_disk_read_sectors [of d "start + of_nat i" n] r by simp
  show ?case
  proof (cases "i < count")
    case True
    show ?thesis
    proof (cases r)
      case None
      then show ?thesis using r sd True by (subst ata_read_chunks.simps) (simp add: n_def [symmetric] Let_def)
    next
      case (Some b)
      then have "same_disk d1 (snd (ata_read_chunks start (i + 256) count (acc @ b) d1))"
        using "1.IH" [OF True n_def r [symmetric]] by simp
      then show ?thesis using r Some True same_disk_trans [OF sd] by (subst ata_read_chunks.simps) (simp add: n_def [symmetric] Let_def)
    qed
  next
    case False
    then show ?thesis by (subst ata_read_chunks.simps) simp
  qed
qed

lemma same_disk_read_into:
  assumes "ata_read_exact_into a n d = (r, d')"
  shows "same_disk d d'"
proof -
  have "d' = d \<or> (\<exists>l k. d' = snd (ata_read_sectors l k d)) \<or> d' = snd (buf_malloc d) \<or> (\<exists>st c. d' = snd (ata_read_chunks st 0 c [] (snd (buf_malloc d))))"
    using assms unfolding ata_read_exact_into_def Let_def
    by (auto split: if_splits prod.splits option.splits bool.splits) (metis snd_conv)+
  then show ?thesis using same_disk_read_sectors same_disk_read_chunks same_disk_malloc same_disk_trans same_disk_refl by (metis surjective_pairing)
qed

lemma same_disk_read:
  assumes "ata_read_exact a n d = (r, d')"
  shows "same_disk d d'"
proof -
  obtain ok d1 where m: "buf_malloc d = (ok, d1)" by fastforce
  show ?thesis
  proof (cases ok)
    case True
    then have "ata_read_exact_into a n d1 = (r, d')" using assms m by (simp add: ata_read_exact_def)
    from same_disk_trans [OF same_disk_malloc [OF m] same_disk_read_into [OF this]] show ?thesis .
  next
    case False
    then show ?thesis using assms m same_disk_malloc [OF m] by (auto simp: ata_read_exact_def)
  qed
qed

text \<open>No command and no allocation fails.\<close>

definition ata_works :: "'a ata_t_scheme \<Rightarrow> bool" where
  "ata_works d \<longleftrightarrow> (\<forall>n. fate d n = None) \<and> (\<forall>n. heap_ok d n)"

lemma same_disk_works: "same_disk d d' \<Longrightarrow> ata_works d' = ata_works d"
  by (auto simp: same_disk_def ata_works_def)

lemma ata_read_sectors_spec:
  assumes "in_partition d a n" "512 * (s + k) \<le> a + n + 511" "512 * s < a + n" "0 < k" "k \<le> 256"
    and "ata_read_sectors (of_nat s) k d = (r, d')"
  shows "same_disk d d' \<and> (r = Some (read_bytes (disk d) (abs_addr d (512 * s)) (512 * k)) \<or> r = None \<and> \<not> ata_works d)"
proof -
  have acc: "ata_accepts (of_nat s) k d" by (rule ata_accepts_in [OF assms(1,2,4,5)])
  have "same_disk d (d\<lparr> ata_ops := ata_ops d + 1 \<rparr>)"
    unfolding same_disk_def by (intro exI [of _ "ata_ops d + 1"] exI [of _ "heap_ops d"]) simp
  then show ?thesis
    using assms(6) acc sector_addr_eq [OF assms(1,3)]
    by (auto simp: ata_read_sectors_def ata_works_def split: option.splits)
qed

lemma ata_read_chunks_spec:
  assumes "in_partition d a n" "512 * (s + count) \<le> a + n + 511" "acc = read_bytes (disk d) (abs_addr d (512 * s)) (512 * i)"
    and "i \<le> count" "ata_read_chunks (of_nat s) i count acc d = (r, d')"
  shows "same_disk d d' \<and> (r = Some (read_bytes (disk d) (abs_addr d (512 * s)) (512 * count)) \<or> r = None \<and> \<not> ata_works d)"
  using assms
proof (induction "count - i" arbitrary: i acc d rule: less_induct)
  case less
  show ?case
  proof (cases "i < count")
    case False
    then have "i = count" "r = Some acc" "d' = d" using less.prems(4,5) by (simp_all add: ata_read_chunks.simps)
    then show ?thesis using less.prems(3) by simp
  next
    case True
    define k where "k = (if i + 256 > count then count - i else 256)"
    have k: "0 < k" "k \<le> 256" "i + k \<le> count" "i + 256 \<le> count \<or> i + k = count" using True by (auto simp: k_def)
    obtain r1 d1 where r1: "ata_read_sectors (of_nat s + of_nat i) k d = (r1, d1)" by fastforce
    have b: "512 * (s + i + k) \<le> a + n + 511" using less.prems(2) k(3) by simp
    have b': "512 * (s + i) < a + n" using less.prems(2) True by simp
    have sd: "same_disk d d1" "r1 = Some (read_bytes (disk d) (abs_addr d (512 * (s + i))) (512 * k)) \<or> r1 = None \<and> \<not> ata_works d"
      using ata_read_sectors_spec [OF less.prems(1) b b' k(1,2), of r1 d1] r1 by simp_all
    show ?thesis
    proof (cases r1)
      case None
      then have "(None, d1) = (r, d')" using less.prems(5) True r1 by (subst (asm) ata_read_chunks.simps) (simp add: k_def)
      then show ?thesis using sd None by simp
    next
      case (Some b)
      have step: "ata_read_chunks (of_nat s) (i + 256) count (acc @ b) d1 = (r, d')"
        using less.prems(5) True r1 Some by (subst (asm) ata_read_chunks.simps) (simp add: k_def)
      have acc: "acc @ b = read_bytes (disk d) (abs_addr d (512 * s)) (512 * (i + k))"
        using less.prems(3) sd(2) Some read_bytes_append [of "disk d" "abs_addr d (512 * s)" "512 * i" "512 * k"]
        by (simp add: abs_addr_def algebra_simps)
      note f = same_disk_fields [OF sd(1)] same_disk_cong [OF sd(1)] same_disk_works [OF sd(1)]
      show ?thesis
      proof (cases "i + 256 \<le> count")
        case le: True
        then have "k = 256" by (simp add: k_def)
        then have "same_disk d1 d' \<and> (r = Some (read_bytes (disk d1) (abs_addr d1 (512 * s)) (512 * count)) \<or> r = None \<and> \<not> ata_works d1)"
          using less.hyps [of "i + 256" d1 "acc @ b"] less.prems(1,2) le True acc step f by simp
        then show ?thesis using f same_disk_trans [OF sd(1)] by auto
      next
        case False
        then have "r = Some (acc @ b)" "d' = d1" using step by (simp_all add: ata_read_chunks.simps)
        then show ?thesis using acc k(4) False sd(1) by auto
      qed
    qed
  qed
qed

lemma in_partition_bounds:
  assumes "in_partition d a n" "0 < n"
  defines "s \<equiv> a div 512"
  defines "c \<equiv> (a + n + 511) div 512 - s"
  shows "512 * (s + c) \<le> a + n + 511" "a + n \<le> 512 * (s + c)" "512 * s \<le> a" "0 < c"
    "(of_nat a :: u32) div 512 = of_nat s" "unat ((of_nat a :: u32) mod 512) = a mod 512" "unat (of_nat n :: u32) = n"
    "((of_nat a + of_nat n :: u32) + 511) div 512 - (of_nat a :: u32) div 512 = of_nat c" "c < 2 ^ 32"
proof -
  have top: "a + n \<le> 2 ^ 32 - 512" using assms(1) by (simp add: in_partition_def)
  have "s \<le> (a + n + 511) div 512" unfolding s_def by (rule div_le_mono) simp
  then have e: "s + c = (a + n + 511) div 512" by (simp add: c_def)
  show "512 * (s + c) \<le> a + n + 511" "a + n \<le> 512 * (s + c)" "512 * s \<le> a" unfolding e by (linarith, linarith, simp add: s_def)
  then show "0 < c" using assms(2) by (cases "c = 0") auto
  have ua: "unat (of_nat a :: u32) = a" "unat (of_nat n :: u32) = n" "unat (of_nat (a + n + 511) :: u32) = a + n + 511"
    by (rule unat_of_nat_u32, use top in simp)+
  then show n: "unat (of_nat n :: u32) = n" by simp
  have dv: "(of_nat x :: u32) div 512 = of_nat (x div 512)" if "unat (of_nat x :: u32) = x" for x
  proof -
    have "unat ((of_nat x :: u32) div 512) = x div 512" using that by (simp add: unat_div)
    then show ?thesis by (metis of_nat_unat ucast_id)
  qed
  show da: "(of_nat a :: u32) div 512 = of_nat s" unfolding s_def by (rule dv [OF ua(1)])
  show "unat ((of_nat a :: u32) mod 512) = a mod 512" using ua(1) by (simp add: unat_mod)
  have "(of_nat a + of_nat n :: u32) + 511 = of_nat (a + n + 511)" by simp
  then have "((of_nat a + of_nat n :: u32) + 511) div 512 = of_nat (s + c)" using dv [OF ua(3)] e by simp
  then show "((of_nat a + of_nat n :: u32) + 511) div 512 - (of_nat a :: u32) div 512 = of_nat c" unfolding da by simp
  show "c < 2 ^ 32" unfolding c_def using top by simp
qed

lemma ata_read_exact_into_spec:
  assumes "in_partition d a n" "ata_read_exact_into (of_nat a) (of_nat n) d = (r, d')"
  shows "same_disk d d' \<and> (r = Some (read_bytes (disk d) (abs_addr d a) n) \<or> r = None \<and> \<not> ata_works d)"
proof (cases "n = 0")
  case True
  then show ?thesis using assms(2) by (auto simp: ata_read_exact_into_def read_bytes_def)
next
  case False
  define s c where "s = a div 512" and "c = (a + n + 511) div 512 - s"
  note b = in_partition_bounds [OF assms(1), folded s_def, folded c_def]
  have n: "0 < n" using False by simp
  note b8 = b(8) [OF n, unfolded b(5) [OF n]]
  have nz: "(of_nat n :: u32) \<noteq> 0" using b(7) n by (metis unat_0 neq0_conv)
  have cut: "take n (drop (a mod 512) (read_bytes (disk d) (abs_addr d (512 * s)) (512 * k))) = read_bytes (disk d) (abs_addr d a) n"
    if "a mod 512 + n \<le> 512 * k" for k
    using take_drop_read_bytes [OF that, of "disk d" "abs_addr d (512 * s)"] by (simp add: abs_addr_def s_def add.assoc)
  have fits: "a mod 512 + n \<le> 512 * c" using b(2) n mult_div_mod_eq [of 512 a] unfolding s_def [symmetric] by simp
  have c: "unat (of_nat c :: u32) = c" using b(9) n by (intro unat_of_nat_u32)
  have ua: "unat (of_nat a :: u32) = a" using assms(1) by (intro unat_of_nat_u32) (simp add: in_partition_def)
  have whole: "(of_nat a :: u32) mod 512 = 0 \<and> (of_nat n :: u32) mod 512 = 0 \<and> (of_nat n :: u32) div 512 \<le> 256
      \<longleftrightarrow> a mod 512 = 0 \<and> n mod 512 = 0 \<and> n div 512 \<le> 256"
    using ua b(7) n by (simp add: unat_eq_zero [symmetric] unat_mod word_le_nat_alt unat_div del: unat_eq_zero)
  consider (one) "c = 1" | (aligned) "c \<noteq> 1" "a mod 512 = 0" "n mod 512 = 0" "n div 512 \<le> 256"
    | (chunks) "c \<noteq> 1" "\<not> (a mod 512 = 0 \<and> n mod 512 = 0 \<and> n div 512 \<le> 256)" by metis
  then show ?thesis
  proof cases
    case one
    obtain r1 d1 where r1: "ata_read_sectors (of_nat s) 1 d = (r1, d1)" by fastforce
    have "r = map_option (\<lambda>x. take n (drop (a mod 512) x)) r1" "d' = d1"
      using assms(2) nz b(5-8) n one r1 by (auto simp: ata_read_exact_into_def Let_def split: option.splits)
    moreover have "same_disk d d1 \<and> (r1 = Some (read_bytes (disk d) (abs_addr d (512 * s)) (512 * 1)) \<or> r1 = None \<and> \<not> ata_works d)"
      using b(1,3) n one by (intro ata_read_sectors_spec [OF assms(1) _ _ _ _ r1]) auto
    ultimately show ?thesis using cut [of 1] fits one by auto
  next
    case aligned
    have a: "512 * s = a" "512 * (n div 512) = n" using aligned by (auto simp: s_def)
    have c1: "(of_nat c :: u32) \<noteq> 1" using c aligned(1) by (metis unat_1)
    have "ata_read_exact_into (of_nat a) (of_nat n) d = ata_read_sectors (of_nat s) (n div 512) d"
      unfolding ata_read_exact_into_def Let_def b(5) [OF n] b8 using nz c1 whole aligned b(7) n by (simp add: unat_div)
    then have r: "ata_read_sectors (of_nat s) (n div 512) d = (r, d')" using assms(2) by simp
    have "0 < n div 512" "512 * (s + n div 512) \<le> a + n + 511" using a n aligned by (auto simp: distrib_left)
    then show ?thesis using ata_read_sectors_spec [OF assms(1) _ _ _ aligned(4) r] a n by simp
  next
    case chunks
    have c1: "(of_nat c :: u32) \<noteq> 1" using c chunks(1) by (metis unat_1)
    obtain ok d1 where ok: "buf_malloc d = (ok, d1)" by fastforce
    note sd = same_disk_malloc [OF ok]
    obtain r2 d2 where r2: "ata_read_chunks (of_nat s) 0 c [] d1 = (r2, d2)" by fastforce
    have run: "(r, d') = (if ok then (map_option (\<lambda>x. take n (drop (a mod 512) x)) r2, d2) else (None, d1))"
      using assms(2) ok r2 whole chunks nz c1 b(6,7) n c unfolding ata_read_exact_into_def Let_def b(5) [OF n] b8
      by (auto split: option.splits)
    show ?thesis
    proof (cases ok)
      case True
      have "same_disk d1 d2 \<and> (r2 = Some (read_bytes (disk d1) (abs_addr d1 (512 * s)) (512 * c)) \<or> r2 = None \<and> \<not> ata_works d1)"
        using b(1) n same_disk_cong [OF sd] assms(1) by (intro ata_read_chunks_spec [OF _ _ _ _ r2]) (auto simp: read_bytes_def)
      then show ?thesis using run True cut [OF fits] same_disk_fields [OF sd] same_disk_cong [OF sd] same_disk_works [OF sd] same_disk_trans [OF sd]
        by auto
    next
      case False
      then show ?thesis using run sd ok by (auto simp: ata_works_def buf_malloc_def)
    qed
  qed
qed

lemma ata_read_exact_spec:
  assumes "in_partition d a n" "ata_read_exact (of_nat a) (of_nat n) d = (r, d')"
  shows "same_disk d d' \<and> (r = Some (read_bytes (disk d) (abs_addr d a) n) \<or> r = None \<and> \<not> ata_works d)"
proof -
  obtain ok d1 where ok: "buf_malloc d = (ok, d1)" by fastforce
  note sd = same_disk_malloc [OF ok]
  note f = same_disk_fields [OF sd] same_disk_cong [OF sd] same_disk_works [OF sd]
  show ?thesis
  proof (cases ok)
    case True
    then have "ata_read_exact_into (of_nat a) (of_nat n) d1 = (r, d')" using assms(2) ok by (simp add: ata_read_exact_def)
    then show ?thesis using ata_read_exact_into_spec [of d1 a n r d'] assms(1) f same_disk_trans [OF sd] by auto
  next
    case False
    then show ?thesis using assms(2) ok sd by (auto simp: ata_read_exact_def ata_works_def buf_malloc_def)
  qed
qed

subsection \<open>Writes\<close>

text \<open>A write may have stored a part of its bytes only; a write that succeeds has stored all of them.\<close>

definition stored :: "nat \<Rightarrow> u8 list \<Rightarrow> nat \<Rightarrow> 'a ata_t_scheme \<Rightarrow> 'a ata_t_scheme \<Rightarrow> bool" where
  "stored p buf m d d' \<longleftrightarrow> m \<le> length buf \<and> same_disk (d\<lparr> disk := write_bytes p (take m buf) (disk d) \<rparr>) d'"

lemma stored_fields:
  "stored p buf m d d' \<Longrightarrow> disk d' = write_bytes p (take m buf) (disk d) \<and> ata_base_lba d' = ata_base_lba d
     \<and> ata_partition_sectors d' = ata_partition_sectors d \<and> ata_works d' = ata_works d
     \<and> in_partition d' a n = in_partition d a n \<and> abs_addr d' a = abs_addr d a"
  by (auto simp: stored_def same_disk_def ata_works_def in_partition_def abs_addr_def)

lemma stored_0: "same_disk d d' \<Longrightarrow> stored p buf 0 d d'"
  by (simp add: stored_def)

lemma stored_append:
  assumes "stored p buf i d d1" "stored (p + i) (drop i buf) m d1 d2"
  shows "stored p buf (i + m) d d2"
proof -
  have i: "i \<le> length buf" "m \<le> length buf - i" using assms by (auto simp: stored_def)
  obtain k l where d1: "d1 = d\<lparr> disk := write_bytes p (take i buf) (disk d), ata_ops := k, heap_ops := l \<rparr>"
    using assms(1) by (auto simp: stored_def same_disk_def)
  obtain k2 l2 where d2: "d2 = d1\<lparr> disk := write_bytes (p + i) (take m (drop i buf)) (disk d1), ata_ops := k2, heap_ops := l2 \<rparr>"
    using assms(2) by (auto simp: stored_def same_disk_def)
  have "write_bytes (p + i) (take m (drop i buf)) (write_bytes p (take i buf) (disk d)) = write_bytes p (take (i + m) buf) (disk d)"
    using i write_bytes_append [of p "take i buf" "take m (drop i buf)"] by (simp add: take_add)
  then have "d2 = d\<lparr> disk := write_bytes p (take (i + m) buf) (disk d), ata_ops := k2, heap_ops := l2 \<rparr>"
    unfolding d2 d1 by simp
  then show ?thesis using i unfolding stored_def same_disk_def by auto
qed

lemma ata_write_sectors_spec:
  assumes "in_partition d a n" "512 * (s + k) \<le> a + n + 511" "512 * s < a + n" "0 < k" "k \<le> 256" "length buf = 512 * k"
    and "ata_write_sectors (of_nat s) buf k d = (ok, d')"
  shows "(ok \<or> \<not> ata_works d) \<and> (\<exists>m. stored (abs_addr d (512 * s)) buf m d d' \<and> (ok \<longrightarrow> m = length buf))"
proof -
  have acc: "ata_accepts (of_nat s) k d" by (rule ata_accepts_in [OF assms(1,2,4,5)])
  define m where "m = 512 * (case fate d (ata_ops d) of None \<Rightarrow> k | Some l \<Rightarrow> min l k)"
  have m: "m \<le> length buf" "fate d (ata_ops d) = None \<longrightarrow> m = length buf" using assms(6) by (auto simp: m_def split: option.splits)
  have run: "ok = (fate d (ata_ops d) = None)"
    "d' = d\<lparr> ata_ops := ata_ops d + 1, disk := write_bytes (abs_addr d (512 * s)) (take m buf) (disk d) \<rparr>"
    using assms(7) acc sector_addr_eq [OF assms(1,3)] by (simp_all add: ata_write_sectors_def m_def)
  have "stored (abs_addr d (512 * s)) buf m d d'"
    unfolding stored_def same_disk_def run(2) using m(1)
    by (intro conjI exI [of _ "ata_ops d + 1"] exI [of _ "heap_ops d"]) simp_all
  then show ?thesis using m(2) run(1) by (auto simp: ata_works_def)
qed

lemma ata_write_chunks_spec:
  assumes "in_partition d a n" "512 * (s + count) \<le> a + n + 511" "length buf = 512 * count" "i \<le> count"
    and "ata_write_chunks (of_nat s) i count buf d = (ok, d')"
  shows "(ok \<or> \<not> ata_works d) \<and> (\<exists>m. stored (abs_addr d (512 * (s + i))) (drop (512 * i) buf) m d d' \<and> (ok \<longrightarrow> m = length buf - 512 * i))"
  using assms
proof (induction "count - i" arbitrary: i d rule: less_induct)
  case less
  show ?case
  proof (cases "i < count")
    case False
    then have "i = count" "ok" "d' = d" using less.prems(4,5) by (simp_all add: ata_write_chunks.simps)
    then show ?thesis using less.prems(3) stored_0 [OF same_disk_refl] by auto
  next
    case True
    define k where "k = (if i + 256 > count then count - i else 256)"
    have k: "0 < k" "k \<le> 256" "i + k \<le> count" "i + 256 \<le> count \<or> i + k = count" using True by (auto simp: k_def)
    let ?b = "take (512 * k) (drop (512 * i) buf)" and ?p = "abs_addr d (512 * (s + i))"
    have eq: "ata_write_chunks (of_nat s) i count buf d = (case ata_write_sectors (of_nat s + of_nat i) ?b k d of
        (False, d1) \<Rightarrow> (False, d1) | (True, d1) \<Rightarrow> ata_write_chunks (of_nat s) (i + 256) count buf d1)"
      unfolding ata_write_chunks.simps [of _ i count] k_def [symmetric] Let_def mult.commute [of i 512] using True by (rule if_P)
    obtain ok1 d1 where w: "ata_write_sectors (of_nat s + of_nat i) ?b k d = (ok1, d1)" by fastforce
    have len: "length ?b = 512 * k" using less.prems(3) k(3) by simp
    have b: "512 * (s + i + k) \<le> a + n + 511" using less.prems(2) k(3) by simp
    have b': "512 * (s + i) < a + n" using less.prems(2) True by simp
    obtain m where m: "ok1 \<or> \<not> ata_works d" "stored ?p ?b m d d1" "ok1 \<longrightarrow> m = 512 * k"
      using ata_write_sectors_spec [OF less.prems(1) b b' k(1,2) len, of ok1 d1] w len by auto
    have "m \<le> 512 * k" using m(2) len by (simp add: stored_def)
    then have part: "stored ?p (drop (512 * i) buf) m d d1" using m(2) less.prems(3) by (auto simp: stored_def min_def split: if_splits)
    show ?thesis
    proof (cases ok1)
      case False
      then have "(False, d1) = (ok, d')" using less.prems(5) w unfolding eq by simp
      then show ?thesis using part m(1) False by blast
    next
      case ok1: True
      have step: "ata_write_chunks (of_nat s) (i + 256) count buf d1 = (ok, d')"
        using less.prems(5) w ok1 unfolding eq by simp
      note f = stored_fields [OF m(2)]
      show ?thesis
      proof (cases "i + 256 \<le> count")
        case le: True
        then have k256: "k = 256" by (simp add: k_def)
        obtain m2 where m2: "ok \<or> \<not> ata_works d1" "stored (abs_addr d1 (512 * (s + (i + 256)))) (drop (512 * (i + 256)) buf) m2 d1 d'"
          "ok \<longrightarrow> m2 = length buf - 512 * (i + 256)"
          using less.hyps [OF _ _ less.prems(2,3) le step] less.prems(1) True f by force
        have "abs_addr d1 (512 * (s + (i + 256))) = ?p + m" using f m(3) ok1 k256 by (simp add: abs_addr_def)
        moreover have "drop (512 * (i + 256)) buf = drop m (drop (512 * i) buf)" using m(3) ok1 k256 by (simp add: add.commute)
        ultimately have "stored ?p (drop (512 * i) buf) (m + m2) d d'" using stored_append [OF part] m2(2) by simp
        moreover have "ok \<longrightarrow> m + m2 = length buf - 512 * i" using m2(3) m(3) ok1 k256 less.prems(3) le by auto
        ultimately show ?thesis using m2(1) f by blast
      next
        case False
        then have "ok" "d' = d1" using step by (simp_all add: ata_write_chunks.simps)
        then show ?thesis using part m(3) ok1 k(4) False less.prems(3) by auto
      qed
    qed
  qed
qed

lemma ata_write_exact_spec:
  assumes "in_partition d a (length buf)" "ata_write_exact (of_nat a) buf d = (ok, d')"
  shows "(\<exists>m. stored (abs_addr d a) buf m d d' \<and> (ok \<longrightarrow> m = length buf))
    \<and> (ata_works d \<longrightarrow> a mod 512 = 0 \<longrightarrow> length buf mod 512 = 0 \<longrightarrow> ok)"
proof -
  have a: "unat (of_nat a :: u32) = a" using assms(1) by (intro unat_of_nat_u32) (simp add: in_partition_def)
  have am: "(of_nat a :: u32) mod 512 = 0 \<longleftrightarrow> a mod 512 = 0" using a by (simp add: unat_eq_zero [symmetric] unat_mod del: unat_eq_zero)
  show ?thesis
  proof (cases "length buf = 0 \<or> length buf mod 512 \<noteq> 0 \<or> a mod 512 \<noteq> 0")
    case True
    then show ?thesis using assms(2) am stored_0 [of d d] by (auto simp: ata_write_exact_def split: if_splits)
  next
    case False
    define s where "s = a div 512"
    have s: "512 * s = a" using False by (auto simp: s_def)
    have l: "length buf = 512 * (length buf div 512)" using False by auto
    have "(of_nat a :: u32) div 512 = of_nat s" using in_partition_bounds(5) [OF assms(1)] False by (simp add: s_def)
    then have w: "ata_write_chunks (of_nat s) 0 (length buf div 512) buf d = (ok, d')"
      using assms(2) False am by (simp add: ata_write_exact_def)
    have "512 * (s + length buf div 512) \<le> a + length buf + 511" using s l by (simp add: distrib_left)
    from ata_write_chunks_spec [OF assms(1) this l _ w] show ?thesis using s by auto
  qed
qed

text \<open>
  What is written is read back. After \<open>ata_write_exact\<close> has returned success, a read of the same range
  that succeeds returns exactly the bytes written; whether it succeeded or not, a read of any range that does
  not overlap it returns what was there before. On a drive that reports no error a write of whole sectors
  succeeds and every read returns. (The ranges lie in the partition.)
\<close>

theorem ata_roundtrip:
  assumes "in_partition d a (length buf)" and "ata_write_exact (of_nat a) buf d = (ok, d1)"
    and "in_partition d b n" and "b + n \<le> a \<or> a + length buf \<le> b"
    and "ata_read_exact (of_nat a) (of_nat (length buf)) d1 = (xs, d2)" and "ata_read_exact (of_nat b) (of_nat n) d1 = (ys, d3)"
  shows "(ok \<and> xs \<noteq> None \<longrightarrow> xs = Some buf) \<and> (ys \<noteq> None \<longrightarrow> ys = Some (read_bytes (disk d) (abs_addr d b) n))
    \<and> (ata_works d \<and> a mod 512 = 0 \<and> length buf mod 512 = 0 \<longrightarrow> ok \<and> xs \<noteq> None \<and> ys \<noteq> None)"
proof -
  obtain m where m: "stored (abs_addr d a) buf m d d1" "ok \<longrightarrow> m = length buf"
    "ata_works d \<longrightarrow> a mod 512 = 0 \<longrightarrow> length buf mod 512 = 0 \<longrightarrow> ok"
    using ata_write_exact_spec [OF assms(1,2)] by (elim conjE exE)
  note f = stored_fields [OF m(1)]
  have x: "xs = Some (read_bytes (disk d1) (abs_addr d a) (length buf)) \<or> xs = None \<and> \<not> ata_works d"
    using ata_read_exact_spec [OF _ assms(5)] f assms(1) by auto
  have y: "ys = Some (read_bytes (disk d1) (abs_addr d b) n) \<or> ys = None \<and> \<not> ata_works d"
    using ata_read_exact_spec [OF _ assms(6)] f assms(3) by auto
  have "read_bytes (disk d1) (abs_addr d b) n = read_bytes (disk d) (abs_addr d b) n"
    by (rule read_bytes_cong) (use f assms(4) in \<open>auto simp: abs_addr_def intro!: write_bytes_outside\<close>)
  moreover have "read_bytes (disk d1) (abs_addr d a) (length buf) = buf" if ok
    using f that m(2) read_write_bytes [of "abs_addr d a" buf] by simp
  ultimately show ?thesis using x y m(3) by auto
qed

definition blank_disk :: ata_t where
  "blank_disk = \<lparr> disk = (\<lambda>_. 0), ata_base_lba = 0, ata_partition_sectors = 0, fate = (\<lambda>_. None), ata_ops = 0,
     heap_ok = (\<lambda>_. True), heap_ops = 0 \<rparr>"

theorem ata_roundtrip_witness:
  "fst (ata_read_exact 512 512 (snd (ata_write_exact 512 (replicate 512 7) blank_disk))) = Some (replicate 512 7)"
proof -
  define buf :: "u8 list" where "buf = replicate 512 7"
  have l: "length buf = 512" by (simp add: buf_def)
  obtain ok d1 where w: "ata_write_exact (of_nat 512) buf blank_disk = (ok, d1)" by fastforce
  obtain xs d2 where x: "ata_read_exact (of_nat 512) (of_nat (length buf)) d1 = (xs, d2)" by fastforce
  obtain ys d3 where y: "ata_read_exact (of_nat 0) (of_nat 512) d1 = (ys, d3)" by fastforce
  have p: "in_partition blank_disk 512 (length buf)" "in_partition blank_disk 0 512" by (simp_all add: in_partition_def blank_disk_def l)
  have works: "ata_works blank_disk" by (simp add: ata_works_def blank_disk_def)
  have "0 + 512 \<le> (512::nat) \<or> 512 + length buf \<le> 0" by simp
  from ata_roundtrip [OF p(1) w p(2) this x y] have "xs = Some buf" using works l by auto
  then show ?thesis using w x l unfolding buf_def [symmetric] by simp
qed

end
