(* ===== verification/Fat.thy ===== *)
theory Fat
  imports Ata Linked
begin

text \<open>
  The file allocation table of the FAT16 driver \<^verbatim>\<open>src/fat.c\<close>: the geometry of the volume, the cached
  table with its dirty entries, flushing it to every copy on the disk, and the chains of clusters it holds,
  which \<open>fat_extend_cluster_chain\<close> and \<open>fat_shrink_cluster_chain\<close> grow and cut. The table
  is a list of 16-bit entries. Every function runs with the lock of the file system held, so no other task
  changes the table or the disk at the points where the code yields.
\<close>

section \<open>Model\<close>

subsection \<open>The volume\<close>

record fat_t = ata_t +
  bytesPerSector :: u16
  sectorsPerCluster :: u8
  noReservedSectors :: u16
  noTables :: u8
  noRootEntries :: u16
  sectorsPerFat :: u16
  noSectors :: u32
  noClusters :: u32
  rootSize :: u32
  rootSector :: u32
  firstDataSector :: u32
  tableSize :: u32
  fat_table :: "u16 list"
  dirty_clusters :: "bool list"

definition baseAddr :: u32 where
  "baseAddr = 512000"

definition fat_get_info :: "'a fat_t_scheme \<Rightarrow> bool \<times> 'a fat_t_scheme" where
  "fat_get_info d =
     (case ata_read_exact baseAddr 512 d of
        (None, d1) \<Rightarrow> (False, d1)
      | (Some buf, d1) \<Rightarrow>
          let bps = of_nat (le buf 11 2) :: u16;
              spc = of_nat (le buf 13 1) :: u8;
              reserved = of_nat (le buf 14 2) :: u16;
              tables = of_nat (le buf 16 1) :: u8;
              rootEntries = of_nat (le buf 17 2) :: u16;
              small = of_nat (le buf 19 2) :: u16;
              spf = of_nat (le buf 22 2) :: u16;
              large = of_nat (le buf 32 4) :: u32
          in if bps = 0 \<or> spc = 0 \<or> tables = 0 \<or> spf = 0 then (False, d1)
             else let sectors = (if small = 0 then large else ucast small);
                      root = ((ucast rootEntries * 32) + (ucast bps - 1)) div ucast bps :: u32;
                      rootSect = ucast reserved + ucast tables * ucast spf :: u32;
                      firstData = rootSect + root
                  in if sectors \<le> firstData then (False, d1)
                     else let clusters = (sectors - firstData) div ucast spc + 2;
                              fatEntries = (ucast spf * ucast bps) div 2 :: u32
                          in (True, d1\<lparr> bytesPerSector := bps, sectorsPerCluster := spc, noReservedSectors := reserved,
                                noTables := tables, noRootEntries := rootEntries, sectorsPerFat := spf, noSectors := sectors,
                                rootSize := root, rootSector := rootSect, firstDataSector := firstData,
                                noClusters := (if clusters > fatEntries then fatEntries else clusters) \<rparr>))"

fun words_of :: "u8 list \<Rightarrow> u16 list" where
  "words_of (l # h # bs) = (ucast l OR push_bit 8 (ucast h)) # words_of bs"
| "words_of bs = []"

definition bytes_of :: "u16 list \<Rightarrow> u8 list" where
  "bytes_of ws = concat (map (\<lambda>w. [ucast w, ucast (drop_bit 8 w)]) ws)"

definition fat_setup :: "'a fat_t_scheme \<Rightarrow> bool \<times> 'a fat_t_scheme" where
  "fat_setup d =
     (case fat_get_info d of
        (False, d1) \<Rightarrow> (False, d1)
      | (True, d1) \<Rightarrow>
          let newTableSize = ucast (sectorsPerFat d1) * ucast (bytesPerSector d1) :: u32;
              fatTableAddr = baseAddr + ucast (noReservedSectors d1) * ucast (bytesPerSector d1)
          in case ata_read_exact fatTableAddr newTableSize d1 of
               (None, d2) \<Rightarrow> (False, d2)
             | (Some buf, d2) \<Rightarrow>
                 (case buf_malloc d2 of
                    (False, d3) \<Rightarrow> (False, d3)
                  | (True, d3) \<Rightarrow> (True, d3\<lparr> fat_table := words_of buf, tableSize := newTableSize,
                                      dirty_clusters := replicate (unat (newTableSize div 2)) False \<rparr>)))"

definition clusterSize :: "'a fat_t_scheme \<Rightarrow> u32" where
  "clusterSize d = ucast (sectorsPerCluster d) * ucast (bytesPerSector d)"

text \<open>The address of a cluster: \<open>baseAddr + ((c - 2) * sectorsPerCluster + firstDataSector) * bytesPerSector\<close>.\<close>

definition clusterAddr :: "u16 \<Rightarrow> 'a fat_t_scheme \<Rightarrow> u32" where
  "clusterAddr c d = baseAddr + ((ucast c - 2) * ucast (sectorsPerCluster d) + firstDataSector d) * ucast (bytesPerSector d)"

subsection \<open>The cached table\<close>

definition fat_table_addr :: "nat \<Rightarrow> 'a fat_t_scheme \<Rightarrow> u32" where
  "fat_table_addr table d =
     (let fatTableAddr = baseAddr + ucast (noReservedSectors d) * ucast (bytesPerSector d)
      in fatTableAddr + of_nat table * ucast (sectorsPerFat d) * ucast (bytesPerSector d))"

definition fat_valid_cluster :: "u16 \<Rightarrow> 'a fat_t_scheme \<Rightarrow> bool" where
  "fat_valid_cluster cluster d \<longleftrightarrow> \<not> (cluster \<ge> 0xFFF8 \<or> cluster = 0xFFF7 \<or> cluster < 2 \<or> ucast cluster \<ge> noClusters d)"

definition entry :: "'a fat_t_scheme \<Rightarrow> u16 \<Rightarrow> u16" where
  "entry d c = fat_table d ! unat c"

definition fat_table_update_cluster :: "u32 \<Rightarrow> u16 \<Rightarrow> 'a fat_t_scheme \<Rightarrow> bool \<times> 'a fat_t_scheme" where
  "fat_table_update_cluster clusterNo v d =
     (if clusterNo \<ge> noClusters d \<or> clusterNo \<ge> tableSize d div 2 then (False, d)
      else (True, d\<lparr> dirty_clusters := (dirty_clusters d)[unat clusterNo := True],
                     fat_table := (fat_table d)[unat clusterNo := v] \<rparr>))"

definition fat_table_flush_write :: "u32 \<Rightarrow> u32 \<Rightarrow> 'a fat_t_scheme \<Rightarrow> bool \<times> 'a fat_t_scheme" where
  "fat_table_flush_write firstSector count d =
     (let byteOffset = firstSector * 512; sz = count * 512
      in fold (\<lambda>i (ok, d). let (w, d1) = ata_write_exact (fat_table_addr i d + byteOffset)
                                  (take (unat sz) (drop (unat byteOffset) (bytes_of (fat_table d)))) d
                          in (ok \<and> w, d1)) [0..<unat (noTables d)] (True, d))"

definition clean_entries :: "nat \<Rightarrow> nat \<Rightarrow> 'a fat_t_scheme \<Rightarrow> 'a fat_t_scheme" where
  "clean_entries lo hi d =
     d\<lparr> dirty_clusters := map (\<lambda>c. if lo \<le> c \<and> c < hi then False else dirty_clusters d ! c) [0..<length (dirty_clusters d)] \<rparr>"

text \<open>One sector of the loop of \<open>fat_table_flush_cache\<close>: its entries become clean, a run of dirty sectors grows or is written.\<close>

definition flush_sector :: "nat \<Rightarrow> nat \<Rightarrow> u32 \<times> u32 \<times> bool \<times> 'a fat_t_scheme \<Rightarrow> u32 \<times> u32 \<times> bool \<times> 'a fat_t_scheme" where
  "flush_sector entries sec = (\<lambda>(runStart, runLen, ok, d).
     let from = sec * 256;
         to = (if (sec + 1) * 256 > entries then entries else (sec + 1) * 256);
         sectorDirty = (\<exists>c\<in>{from..<to}. dirty_clusters d ! c);
         d1 = clean_entries from to d
     in if sectorDirty then (if runLen = 0 then of_nat sec else runStart, runLen + 1, ok, d1)
        else if runLen > 0 then (let (w, d2) = fat_table_flush_write runStart runLen d1 in (runStart, 0, ok \<and> w, d2))
        else (runStart, runLen, ok, d1))"

definition fat_table_flush_cache :: "u32 \<Rightarrow> u32 \<Rightarrow> 'a fat_t_scheme \<Rightarrow> bool \<times> 'a fat_t_scheme" where
  "fat_table_flush_cache start end0 d =
     (let entries = tableSize d div 2
      in if start \<ge> entries then (True, d)
         else let end1 = (if end0 \<ge> entries then entries - 1 else end0);
                  (runStart, runLen, ok, d1) =
                    fold (flush_sector (unat entries)) [unat (start div 256)..<unat (end1 div 256) + 1] (0, 0, True, d)
              in if runLen > 0 then (let (w, d2) = fat_table_flush_write runStart runLen d1 in (ok \<and> w, d2)) else (ok, d1))"

definition fat_table_flush_cache_all :: "'a fat_t_scheme \<Rightarrow> bool \<times> 'a fat_t_scheme" where
  "fat_table_flush_cache_all d = fat_table_flush_cache 0 (tableSize d div 2 - 1) d"

definition fat_free_clusters :: "'a fat_t_scheme \<Rightarrow> u32" where
  "fat_free_clusters d = of_nat (length (filter (\<lambda>i. fat_table d ! i = 0) [2..<unat (noClusters d)]))"

definition fat_max_file_size :: "'a fat_t_scheme \<Rightarrow> u32" where
  "fat_max_file_size d = (if noClusters d < 3 then 0 else (noClusters d - 2) * clusterSize d)"

subsection \<open>Chains of clusters\<close>

text \<open>
  The loop that frees a chain from a cluster on; it also returns the least and the greatest cluster and the
  number of clusters freed, and whether every update succeeded.
\<close>

partial_function (option) free_chain ::
    "u16 \<Rightarrow> u32 \<Rightarrow> u32 \<Rightarrow> nat \<Rightarrow> bool \<Rightarrow> 'a fat_t_scheme \<Rightarrow> (u32 \<times> u32 \<times> nat \<times> bool \<times> 'a fat_t_scheme) option" where
  "free_chain cur mn mx freed ok d =
     (if fat_valid_cluster cur d then
        let next = entry d cur;
            (w, d1) = fat_table_update_cluster (ucast cur) 0 d
        in free_chain next (if ucast cur < mn then ucast cur else mn) (if ucast cur > mx then ucast cur else mx)
             (freed + 1) (ok \<and> w) d1
      else Some (mn, mx, freed, ok, d))"

definition fat_unwind_chain :: "u16 \<Rightarrow> u16 \<Rightarrow> 'a fat_t_scheme \<Rightarrow> 'a fat_t_scheme option" where
  "fat_unwind_chain lastCluster origTail d =
     (if \<not> fat_valid_cluster lastCluster d then Some d
      else let cur = entry d lastCluster
           in if cur = origTail then Some d
              else let (w, d1) = fat_table_update_cluster (ucast lastCluster) origTail d
                   in map_option (\<lambda>(mn, mx, freed, ok, d2). d2) (free_chain cur 0 0 0 True d1))"

text \<open>At most \<open>n\<close> steps along a chain.\<close>

fun follow :: "nat \<Rightarrow> u16 \<Rightarrow> 'a fat_t_scheme \<Rightarrow> u16" where
  "follow 0 cur d = cur"
| "follow (Suc n) cur d = (if \<not> fat_valid_cluster (entry d cur) d then cur else follow n (entry d cur) d)"

definition fat_shrink_cluster_chain :: "u16 \<Rightarrow> u32 \<Rightarrow> u32 \<Rightarrow> 'a fat_t_scheme \<Rightarrow> (int \<times> 'a fat_t_scheme) option" where
  "fat_shrink_cluster_chain startCluster oldSize newSize d =
     (if \<not> fat_valid_cluster startCluster d then Some (- 1, d)
      else let bytesPerCluster = clusterSize d;
               oldClusters = (oldSize + bytesPerCluster - 1) div bytesPerCluster;
               newClusters = (newSize + bytesPerCluster - 1) div bytesPerCluster
           in if newClusters \<ge> oldClusters then Some (0, d)
              else let cur = follow (unat newClusters - 1) startCluster d;
                       toFree = entry d cur;
                       (ok, d1) = fat_table_update_cluster (ucast cur) 0xFFFF d
                   in case free_chain toFree (ucast cur) (ucast cur) 0 ok d1 of
                        None \<Rightarrow> None
                      | Some (mn, mx, freed, ok1, d2) \<Rightarrow>
                          let (w, d3) = fat_table_flush_cache mn mx d2
                          in Some (if ok1 \<and> w then int freed else - 1, d3))"

text \<open>The search for a free cluster; a 16-bit counter may never reach the end.\<close>

partial_function (option) find_free :: "u16 \<Rightarrow> 'a fat_t_scheme \<Rightarrow> u16 option" where
  "find_free freeCluster d =
     (if ucast freeCluster < noClusters d \<and> entry d freeCluster \<noteq> 0 then find_free (freeCluster + 1) d else Some freeCluster)"

text \<open>The bytes after the end of the file in its last cluster are zeroed before the file grows over them.\<close>

definition zero_gap :: "u16 \<Rightarrow> u32 \<Rightarrow> u32 \<Rightarrow> 'a fat_t_scheme \<Rightarrow> bool \<times> 'a fat_t_scheme" where
  "zero_gap lastCluster oldSize newSize d =
     (let bytesPerCluster = clusterSize d
      in if oldSize mod bytesPerCluster \<noteq> 0 \<or> oldSize = 0 then
           let from = oldSize mod bytesPerCluster;
               to0 = newSize - (oldSize - from);
               to = (if to0 > bytesPerCluster then bytesPerCluster else to0);
               gapAddr = clusterAddr lastCluster d;
               (gapBuf, d1) =
                 (if from = 0 then (let (ok, d1) = buf_malloc d in (if ok then Some (replicate (unat bytesPerCluster) 0) else None, d1))
                  else (let (b, d1) = ata_read_exact gapAddr bytesPerCluster d
                        in (map_option (\<lambda>b. take (unat from) b @ replicate (unat (to - from)) 0 @ drop (unat to) b) b, d1)))
           in case gapBuf of None \<Rightarrow> (False, d1) | Some b \<Rightarrow> ata_write_exact gapAddr b d1
         else (True, d))"

text \<open>
  The loop that appends clusters: \<open>n\<close> more are needed. The last component says whether it went through; then
  the tail of the chain, the number of clusters appended and the range of entries changed are returned.
\<close>

fun extend_loop :: "nat \<Rightarrow> u16 \<Rightarrow> u16 \<Rightarrow> u16 \<Rightarrow> u16 \<Rightarrow> nat \<Rightarrow> int \<Rightarrow> int \<Rightarrow> 'a fat_t_scheme
    \<Rightarrow> (int \<times> int \<times> nat \<times> bool \<times> 'a fat_t_scheme) option" where
  "extend_loop 0 lastCluster origTail searchFrom prev allocated mn mx d = Some (mn, mx, allocated, True, d)"
| "extend_loop (Suc n) lastCluster origTail searchFrom prev allocated mn mx d =
     (case find_free searchFrom d of
        None \<Rightarrow> None
      | Some freeCluster \<Rightarrow>
          if ucast freeCluster \<ge> noClusters d then
            map_option (\<lambda>d1. (mn, mx, allocated, False, d1)) (fat_unwind_chain lastCluster origTail d)
          else
            let mn1 = (if uint freeCluster < mn then uint freeCluster else mn);
                mx1 = (if uint freeCluster > mx then uint freeCluster else mx);
                (w, d1) = ata_write_exact (clusterAddr freeCluster d) (replicate (unat (clusterSize d)) 0) d
            in if \<not> w then map_option (\<lambda>d2. (mn1, mx1, allocated, False, d2)) (fat_unwind_chain lastCluster origTail d1)
               else let (u1, d2) = fat_table_update_cluster (ucast freeCluster) 0xFFFF d1;
                        (u2, d3) = (if u1 then fat_table_update_cluster (ucast prev) freeCluster d2 else (False, d2))
                    in if \<not> u1 \<or> \<not> u2 then map_option (\<lambda>d4. (mn1, mx1, allocated, False, d4)) (fat_unwind_chain lastCluster origTail d3)
                       else extend_loop n lastCluster origTail (freeCluster + 1) freeCluster (allocated + 1) mn1 mx1 d3)"

definition fat_extend_cluster_chain :: "u16 \<Rightarrow> u32 \<Rightarrow> u32 \<Rightarrow> 'a fat_t_scheme \<Rightarrow> (int \<times> 'a fat_t_scheme) option" where
  "fat_extend_cluster_chain startCluster oldSize newSize d =
     (let bytesPerCluster = clusterSize d;
          oldClusters0 = (oldSize + bytesPerCluster - 1) div bytesPerCluster;
          newClusters = (newSize + bytesPerCluster - 1) div bytesPerCluster;
          oldClusters = (if oldClusters0 = 0 then 1 else oldClusters0)
      in if newSize \<le> oldSize then Some (0, d)
         else if \<not> fat_valid_cluster startCluster d then Some (- 1, d)
         else
           let lastCluster = follow (unat oldClusters - 1) startCluster d;
               (gap, d1) = zero_gap lastCluster oldSize newSize d
           in if \<not> gap then Some (- 1, d1)
              else if newClusters \<le> oldClusters then Some (0, d1)
              else let needed = newClusters - oldClusters
                   in if needed > fat_free_clusters d1 then Some (- 1, d1)
                      else let origTail = entry d1 lastCluster;
                               (ok, d2) = buf_malloc d1
                           in if \<not> ok then Some (- 1, d2)
                              else case extend_loop (unat needed) lastCluster origTail 2 lastCluster 0 (uint lastCluster) (uint lastCluster) d2 of
                                     None \<Rightarrow> None
                                   | Some (mn, mx, allocated, False, d3) \<Rightarrow> Some (- 1, d3)
                                   | Some (mn, mx, allocated, True, d3) \<Rightarrow>
                                       let (w, d4) = fat_table_flush_cache (of_int mn) (of_int mx) d3
                                       in if \<not> w then
                                            map_option (\<lambda>d5. (- 1, snd (fat_table_flush_cache (of_int mn) (of_int mx) d5)))
                                              (fat_unwind_chain lastCluster origTail d4)
                                          else Some (int allocated, d4))"

section \<open>Invariant\<close>

text \<open>
  The cached table covers every cluster of a FAT16 volume: cluster numbers stay below \<open>0xFFF7\<close>.
\<close>

definition fat_wf :: "'a fat_t_scheme \<Rightarrow> bool" where
  "fat_wf d \<longleftrightarrow> length (fat_table d) = unat (tableSize d) div 2 \<and> length (dirty_clusters d) = length (fat_table d)
     \<and> unat (noClusters d) \<le> length (fat_table d) \<and> noClusters d \<le> 0xFFF7"

text \<open>Every field except the disk, the cached table and its dirty flags.\<close>

definition same_volume :: "'a fat_t_scheme \<Rightarrow> 'a fat_t_scheme \<Rightarrow> bool" where
  "same_volume d d' \<longleftrightarrow> bytesPerSector d' = bytesPerSector d \<and> sectorsPerCluster d' = sectorsPerCluster d
     \<and> noReservedSectors d' = noReservedSectors d \<and> noTables d' = noTables d \<and> noRootEntries d' = noRootEntries d
     \<and> sectorsPerFat d' = sectorsPerFat d \<and> noSectors d' = noSectors d \<and> noClusters d' = noClusters d
     \<and> rootSize d' = rootSize d \<and> rootSector d' = rootSector d \<and> firstDataSector d' = firstDataSector d
     \<and> tableSize d' = tableSize d \<and> length (fat_table d') = length (fat_table d)
     \<and> length (dirty_clusters d') = length (dirty_clusters d)"

lemma same_volume_refl [simp]: "same_volume d d"
  by (simp add: same_volume_def)

lemma same_volume_trans: "same_volume d d1 \<Longrightarrow> same_volume d1 d2 \<Longrightarrow> same_volume d d2"
  by (simp add: same_volume_def)

lemma same_volume_wf: "same_volume d d' \<Longrightarrow> fat_wf d' = fat_wf d"
  by (simp add: same_volume_def fat_wf_def)

lemma same_volume_valid: "same_volume d d' \<Longrightarrow> fat_valid_cluster c d' = fat_valid_cluster c d"
  by (simp add: same_volume_def fat_valid_cluster_def)

text \<open>Transfers change neither the volume nor the cached table.\<close>

lemma more_same:
  fixes d d' :: "'a fat_t_scheme"
  assumes "ata_t.more d' = ata_t.more d"
  shows "same_volume d d' \<and> fat_table d' = fat_table d \<and> dirty_clusters d' = dirty_clusters d"
  using assms by (cases d; cases d') (simp add: same_volume_def)

lemma ata_write_fat:
  fixes d :: "'a fat_t_scheme"
  assumes "ata_write_exact a buf d = (ok, d1)"
  shows "same_volume d d1 \<and> fat_table d1 = fat_table d \<and> dirty_clusters d1 = dirty_clusters d"
  using more_same [of d1 d] more_write_exact [of a buf d] assms by simp

lemma ata_read_fat:
  fixes d :: "'a fat_t_scheme"
  assumes "ata_read_exact a n d = (r, d1)"
  shows "same_volume d d1 \<and> fat_table d1 = fat_table d \<and> dirty_clusters d1 = dirty_clusters d"
  using more_same [of d1 d] more_read_exact [of a n d] assms by simp

lemma malloc_fat:
  fixes d :: "'a fat_t_scheme"
  assumes "buf_malloc d = (ok, d1)"
  shows "same_volume d d1 \<and> fat_table d1 = fat_table d \<and> dirty_clusters d1 = dirty_clusters d"
  using more_same [of d1 d] more_malloc [of d] assms by simp

lemma flush_write_fat:
  assumes "fat_table_flush_write first count d = (ok, d1)"
  shows "same_volume d d1 \<and> fat_table d1 = fat_table d \<and> dirty_clusters d1 = dirty_clusters d"
proof -
  let ?f = "\<lambda>i (ok, d). let (w, d1) = ata_write_exact (fat_table_addr i d + first * 512)
      (take (unat (count * 512)) (drop (unat (first * 512)) (bytes_of (fat_table d)))) d in (ok \<and> w, d1)"
  have "same_volume d (snd (fold ?f is (b, d))) \<and> fat_table (snd (fold ?f is (b, d))) = fat_table d
      \<and> dirty_clusters (snd (fold ?f is (b, d))) = dirty_clusters d" for "is" and d :: "'a fat_t_scheme" and b
  proof (induction "is" arbitrary: d b)
    case (Cons i "is")
    obtain w e where w: "ata_write_exact (fat_table_addr i d + first * 512)
        (take (unat (count * 512)) (drop (unat (first * 512)) (bytes_of (fat_table d)))) d = (w, e)" by fastforce
    then show ?case using Cons.IH [of e "b \<and> w"] ata_write_fat [OF w] by (auto intro: same_volume_trans)
  qed simp
  from this [of d "[0..<unat (noTables d)]" True] show ?thesis using assms by (simp add: fat_table_flush_write_def Let_def)
qed

lemma clean_entries_fat: "same_volume d (clean_entries lo hi d) \<and> fat_table (clean_entries lo hi d) = fat_table d"
  by (simp add: clean_entries_def same_volume_def)

lemma flush_sector_fat:
  assumes "flush_sector n sec (rs, rl, ok, d) = (rs1, rl1, ok1, d1)"
  shows "same_volume d d1 \<and> fat_table d1 = fat_table d"
proof -
  define e where "e = clean_entries (sec * 256) (if (sec + 1) * 256 > n then n else (sec + 1) * 256) d"
  have e: "same_volume d e" "fat_table e = fat_table d" unfolding e_def by (simp_all only: clean_entries_fat)
  have "d1 = e \<or> (\<exists>a b w. fat_table_flush_write a b e = (w, d1))"
    using assms unfolding flush_sector_def Let_def prod.case e_def [symmetric] by (auto split: if_splits prod.splits)
  then show ?thesis using e flush_write_fat same_volume_trans by metis
qed

lemma fold_flush_fat:
  assumes "fold (flush_sector n) secs (rs, rl, ok, d) = (rs1, rl1, ok1, d1)"
  shows "same_volume d d1 \<and> fat_table d1 = fat_table d"
  using assms
proof (induction secs arbitrary: rs rl ok d)
  case (Cons sec secs)
  obtain rs' rl' ok' d' where s: "flush_sector n sec (rs, rl, ok, d) = (rs', rl', ok', d')" by (cases "flush_sector n sec (rs, rl, ok, d)") auto
  then show ?case using Cons flush_sector_fat [OF s] same_volume_trans by fastforce
qed simp

lemma flush_cache_fat:
  assumes "fat_table_flush_cache start end0 d = (ok, d1)"
  shows "same_volume d d1 \<and> fat_table d1 = fat_table d"
proof -
  define entries where "entries = tableSize d div 2"
  define end1 where "end1 = (if end0 \<ge> entries then entries - 1 else end0)"
  obtain rs rl ok0 e where f: "fold (flush_sector (unat entries)) [unat (start div 256)..<unat (end1 div 256) + 1] (0, 0, True, d) = (rs, rl, ok0, e)"
    by (metis prod_cases4)
  have "d1 = d \<or> d1 = e \<or> (\<exists>w. fat_table_flush_write rs rl e = (w, d1))"
    using assms f unfolding fat_table_flush_cache_def Let_def entries_def [symmetric] end1_def [symmetric]
    by (auto split: if_splits prod.splits)
  then show ?thesis using fold_flush_fat [OF f] flush_write_fat same_volume_trans same_volume_refl by metis
qed

end
