(* ===== verification/Fatsync.thy ===== *)
theory Fatsync
  imports Fat
begin

text \<open>
  The cached file allocation table of \<^verbatim>\<open>src/fat.c\<close> and its copies on the disk: an entry that is not
  marked dirty is the same in the cache and in every copy, updates keep this, and a flush that succeeds writes what is
  dirty. The volume has sectors of 512 bytes, the size the flush writes in.
\<close>

section \<open>The copies of the table\<close>

definition table_base :: "'a fat_t_scheme \<Rightarrow> nat" where
  "table_base d = 512000 + unat (noReservedSectors d) * 512"

definition volume_fits :: "'a fat_t_scheme \<Rightarrow> bool" where
  "volume_fits d \<longleftrightarrow> fat_wf d \<and> bytesPerSector d = 512 \<and> unat (tableSize d) = unat (sectorsPerFat d) * 512
     \<and> in_partition d (table_base d) (unat (noTables d) * unat (tableSize d))"

text \<open>Byte \<open>b\<close> of copy \<open>i\<close> is the one of the cached table.\<close>

definition sync :: "nat \<Rightarrow> nat \<Rightarrow> 'a fat_t_scheme \<Rightarrow> bool" where
  "sync i b d \<longleftrightarrow> disk d (abs_addr d (table_base d + i * unat (tableSize d) + b)) = bytes_of (fat_table d) ! b"

definition coherent :: "'a fat_t_scheme \<Rightarrow> bool" where
  "coherent d \<longleftrightarrow> (\<forall>i<unat (noTables d). \<forall>b<unat (tableSize d). dirty_clusters d ! (b div 2) \<or> sync i b d)"

text \<open>The same volume on the same drive, with the same cached table; the disk differs in the copies of the table only.\<close>

definition same_fat :: "'a fat_t_scheme \<Rightarrow> 'a fat_t_scheme \<Rightarrow> bool" where
  "same_fat d d' \<longleftrightarrow> same_volume d d' \<and> fat_table d' = fat_table d \<and> ata_base_lba d' = ata_base_lba d
     \<and> ata_partition_sectors d' = ata_partition_sectors d \<and> ata_works d' = ata_works d
     \<and> (\<forall>a. a < table_base d \<or> table_base d + unat (noTables d) * unat (tableSize d) \<le> a
          \<longrightarrow> disk d' (abs_addr d a) = disk d (abs_addr d a))"

lemma same_fat_refl [simp]: "same_fat d d"
  by (simp add: same_fat_def)

lemma same_fat_trans: "same_fat d d1 \<Longrightarrow> same_fat d1 d2 \<Longrightarrow> same_fat d d2"
  by (auto simp: same_fat_def table_base_def abs_addr_def same_volume_def)

lemma same_fat_fields:
  assumes "same_fat d d'"
  shows "volume_fits d' = volume_fits d" "table_base d' = table_base d" "abs_addr d' a = abs_addr d a"
    "tableSize d' = tableSize d" "noTables d' = noTables d" "fat_table d' = fat_table d" "ata_works d' = ata_works d"
    "length (dirty_clusters d') = length (dirty_clusters d)"
  using assms same_volume_wf [of d d']
  by (auto simp: same_fat_def same_volume_def volume_fits_def table_base_def abs_addr_def in_partition_def)

lemma length_bytes_of [simp]: "length (bytes_of ws) = 2 * length ws"
  by (induction ws) (simp_all add: bytes_of_def)

lemma bytes_of_Cons: "bytes_of (w # ws) = ucast w # ucast (drop_bit 8 w) # bytes_of ws"
  by (simp add: bytes_of_def)

lemma words_of_bytes_of [simp]: "words_of (bytes_of ws) = ws"
proof (induction ws)
  case (Cons w ws)
  have "(ucast (ucast w :: u8) :: u16) OR push_bit 8 (ucast (ucast (drop_bit 8 w) :: u8)) = w"
    by (rule bit_word_eqI) (auto simp: bit_simps)
  then show ?case using Cons by (simp add: bytes_of_Cons)
qed (simp add: bytes_of_def)

lemma nth_bytes_of: "bytes_of (ws[c := v]) ! b = bytes_of ws ! b" if "b div 2 \<noteq> c" "b < 2 * length ws"
  using that
proof (induction ws arbitrary: b c)
  case (Cons w ws)
  show ?case
  proof (cases c)
    case 0
    then have "b \<noteq> 0 \<and> b \<noteq> 1" using Cons.prems(1) by auto
    then obtain n where "b = Suc (Suc n)" by (metis One_nat_def not0_implies_Suc)
    then show ?thesis using 0 by (simp add: bytes_of_Cons)
  next
    case (Suc k)
    show ?thesis
    proof (cases "b < 2")
      case True
      then have "b = 0 \<or> b = 1" by auto
      then show ?thesis using Suc by (auto simp: bytes_of_Cons)
    next
      case False
      then obtain n where n: "b = Suc (Suc n)" by (metis One_nat_def Suc_1 less_2_cases_iff not0_implies_Suc)
      then have "n div 2 \<noteq> k" "n < 2 * length ws" using Cons.prems Suc by auto
      then show ?thesis using Cons.IH Suc n by (simp add: bytes_of_Cons)
    qed
  qed
qed simp

lemma bytes_of_entry:
  "c < length ws \<Longrightarrow> bytes_of ws ! (2 * c) = ucast (ws ! c) \<and> bytes_of ws ! (2 * c + 1) = ucast (drop_bit 8 (ws ! c))"
proof (induction c arbitrary: ws)
  case (Suc c)
  then obtain w ws' where "ws = w # ws'" by (cases ws) auto
  then show ?case using Suc by (simp add: bytes_of_Cons)
qed (auto simp: bytes_of_Cons neq_Nil_conv)

section \<open>Writing a run of sectors\<close>

lemma fits_table:
  assumes "volume_fits d"
  shows "length (bytes_of (fat_table d)) = unat (tableSize d)" "unat (tableSize d) < 2 ^ 32" "unat (tableSize d) mod 512 = 0"
proof -
  show "unat (tableSize d) < 2 ^ 32" using unsigned_less [of "tableSize d", where 'a = nat] by simp
  have "even (unat (tableSize d))" using assms by (simp add: volume_fits_def)
  then show "length (bytes_of (fat_table d)) = unat (tableSize d)" using assms by (auto simp: volume_fits_def fat_wf_def)
  show "unat (tableSize d) mod 512 = 0" using assms by (simp add: volume_fits_def)
qed

lemma fat_table_addr_eq:
  assumes "volume_fits d"
  shows "fat_table_addr i d + of_nat s * 512 = of_nat (table_base d + i * unat (tableSize d) + 512 * s)"
proof -
  have bps: "bytesPerSector d = 512" and ts: "unat (tableSize d) = unat (sectorsPerFat d) * 512"
    using assms by (simp_all add: volume_fits_def)
  have "fat_table_addr i d + of_nat s * 512
      = 512000 + ucast (noReservedSectors d) * 512 + of_nat i * ucast (sectorsPerFat d) * 512 + of_nat s * 512"
    unfolding fat_table_addr_def baseAddr_def Let_def bps by simp
  also have "\<dots> = of_nat (table_base d + i * (unat (sectorsPerFat d) * 512) + 512 * s)"
    unfolding table_base_def of_nat_add of_nat_mult of_nat_unat by simp
  finally show ?thesis unfolding ts .
qed

lemma copy_in_partition:
  assumes "volume_fits d" "i < unat (noTables d)" "512 * s + n \<le> unat (tableSize d)"
  shows "in_partition d (table_base d + i * unat (tableSize d) + 512 * s) n"
proof -
  have "(i + 1) * unat (tableSize d) \<le> unat (noTables d) * unat (tableSize d)" using assms(2) by (intro mult_le_mono1) simp
  then have "table_base d + i * unat (tableSize d) + 512 * s + n \<le> table_base d + unat (noTables d) * unat (tableSize d)"
    using assms(3) by simp
  then show ?thesis using assms(1) div_le_mono [of "table_base d + i * unat (tableSize d) + 512 * s + n + 511" _ 512]
    unfolding volume_fits_def in_partition_def by (meson add_le_mono1 dual_order.trans nat_add_left_cancel_le)
qed


text \<open>Part of the cached table written to its place in copy \<open>i\<close> keeps what is in step, whether the write succeeds or not.\<close>

lemma write_copy:
  assumes fits: "volume_fits d" and i: "i < unat (noTables d)" and k: "512 * (s + k) \<le> unat (tableSize d)"
    and w: "ata_write_exact (fat_table_addr i d + of_nat s * 512) (take (512 * k) (drop (512 * s) (bytes_of (fat_table d)))) d = (ok, d')"
  shows "same_fat d d'" "dirty_clusters d' = dirty_clusters d" "ata_works d \<longrightarrow> ok"
    "\<forall>j b. b < unat (tableSize d) \<longrightarrow> sync j b d \<longrightarrow> sync j b d'"
    "ok \<longrightarrow> (\<forall>b. 512 * s \<le> b \<longrightarrow> b < 512 * (s + k) \<longrightarrow> sync i b d')"
proof -
  let ?T = "unat (tableSize d)" and ?bs = "bytes_of (fat_table d)"
  define buf where "buf = take (512 * k) (drop (512 * s) ?bs)"
  define p where "p = table_base d + i * ?T + 512 * s"
  note t = fits_table [OF fits]
  have len: "length buf = 512 * k" using k t(1) by (simp add: buf_def)
  have part: "in_partition d p (length buf)" unfolding p_def len using k by (intro copy_in_partition [OF fits i]) simp
  have w': "ata_write_exact (of_nat p) buf d = (ok, d')"
    using w unfolding fat_table_addr_eq [OF fits] buf_def [symmetric] p_def [symmetric] .
  obtain m where m: "stored (abs_addr d p) buf m d d'" "ok \<longrightarrow> m = length buf"
    "ata_works d \<longrightarrow> p mod 512 = 0 \<longrightarrow> length buf mod 512 = 0 \<longrightarrow> ok"
    using ata_write_exact_spec [OF part w'] by (elim conjE exE)
  note f = stored_fields [OF m(1)]
  have vol: "same_volume d d'" "fat_table d' = fat_table d" "dirty_clusters d' = dirty_clusters d" using ata_write_fat [OF w] by simp_all
  then show "dirty_clusters d' = dirty_clusters d" by simp
  have m': "m \<le> 512 * k" using m(1) len by (simp add: stored_def)
  have "(i + 1) * ?T \<le> unat (noTables d) * ?T" using i by (intro mult_le_mono1) simp
  then have "table_base d \<le> p" "p + m \<le> table_base d + unat (noTables d) * ?T" using k m' by (auto simp: p_def)
  then have "disk d' (abs_addr d a) = disk d (abs_addr d a)" if "a < table_base d \<or> table_base d + unat (noTables d) * ?T \<le> a" for a
    using f that m' len by (auto simp: abs_addr_def intro!: write_bytes_outside)
  then show same: "same_fat d d'" using vol f by (simp add: same_fat_def)
  note g = same_fat_fields [OF same]
  have "?T = unat (sectorsPerFat d) * 512" "table_base d = (1000 + unat (noReservedSectors d)) * 512"
    using fits by (simp_all add: volume_fits_def table_base_def)
  then have "p = 512 * (1000 + unat (noReservedSectors d) + i * unat (sectorsPerFat d) + s)" by (simp add: p_def algebra_simps)
  then show "ata_works d \<longrightarrow> ok" using m(3) len by simp
  have new: "disk d' (abs_addr d (table_base d + j * ?T + b)) = (if j = i \<and> 512 * s \<le> b \<and> b < 512 * s + m then ?bs ! b
      else disk d (abs_addr d (table_base d + j * ?T + b)))" if "b < ?T" for j b
  proof -
    have "(p \<le> table_base d + j * ?T + b \<and> table_base d + j * ?T + b < p + m) = (j = i \<and> 512 * s \<le> b \<and> b < 512 * s + m)"
    proof (cases "j = i")
      case False
      then have "(j + 1) * ?T \<le> i * ?T \<or> (i + 1) * ?T \<le> j * ?T" by (metis Suc_eq_plus1 Suc_leI linorder_neqE_nat mult_le_mono1)
      then show ?thesis using False that k m' by (auto simp: p_def)
    qed (auto simp: p_def)
    moreover have "take m buf ! (b - 512 * s) = ?bs ! b" if "512 * s \<le> b" "b < 512 * s + m"
      using that m' k t(1) by (simp add: buf_def)
    ultimately show ?thesis using f m' len by (auto simp: write_bytes_def abs_addr_def p_def)
  qed
  show "\<forall>j b. b < ?T \<longrightarrow> sync j b d \<longrightarrow> sync j b d'" using new g by (simp add: sync_def)
  show "ok \<longrightarrow> (\<forall>b. 512 * s \<le> b \<longrightarrow> b < 512 * (s + k) \<longrightarrow> sync i b d')"
    using new g m(2) len k by (simp add: sync_def)
qed

lemma flush_write_spec:
  fixes d :: "'a fat_t_scheme"
  assumes fits: "volume_fits d" and k: "512 * (s + k) \<le> unat (tableSize d)"
    and w: "fat_table_flush_write (of_nat s) (of_nat k) d = (ok, d')"
  shows "same_fat d d' \<and> dirty_clusters d' = dirty_clusters d \<and> (ata_works d \<longrightarrow> ok)
    \<and> (\<forall>i b. b < unat (tableSize d) \<longrightarrow> sync i b d \<longrightarrow> sync i b d')
    \<and> (ok \<longrightarrow> (\<forall>i<unat (noTables d). \<forall>b. 512 * s \<le> b \<longrightarrow> b < 512 * (s + k) \<longrightarrow> sync i b d'))"
proof -
  define f where "f i = (\<lambda>(ok, d :: 'a fat_t_scheme). let (w, d1) = ata_write_exact (fat_table_addr i d + of_nat s * 512)
      (take (512 * k) (drop (512 * s) (bytes_of (fat_table d)))) d in (ok \<and> w, d1))" for i
  have "same_fat d (snd (fold f [0..<n] (True, d))) \<and> dirty_clusters (snd (fold f [0..<n] (True, d))) = dirty_clusters d
      \<and> (ata_works d \<longrightarrow> fst (fold f [0..<n] (True, d)))
      \<and> (\<forall>i b. b < unat (tableSize d) \<longrightarrow> sync i b d \<longrightarrow> sync i b (snd (fold f [0..<n] (True, d))))
      \<and> (fst (fold f [0..<n] (True, d)) \<longrightarrow>
          (\<forall>i<n. \<forall>b. 512 * s \<le> b \<longrightarrow> b < 512 * (s + k) \<longrightarrow> sync i b (snd (fold f [0..<n] (True, d)))))"
    if "n \<le> unat (noTables d)" for n
    using that
  proof (induction n)
    case (Suc n)
    obtain ok1 e where e: "fold f [0..<n] (True, d) = (ok1, e)" by fastforce
    obtain w e1 where w: "ata_write_exact (fat_table_addr n e + of_nat s * 512)
      (take (512 * k) (drop (512 * s) (bytes_of (fat_table e)))) e = (w, e1)" by fastforce
    have run: "fold f [0..<Suc n] (True, d) = (ok1 \<and> w, e1)" using e w by (simp add: f_def)
    have IH: "same_fat d e" "dirty_clusters e = dirty_clusters d" "ata_works d \<longrightarrow> ok1"
      "\<forall>i b. b < unat (tableSize d) \<longrightarrow> sync i b d \<longrightarrow> sync i b e"
      "ok1 \<longrightarrow> (\<forall>i<n. \<forall>b. 512 * s \<le> b \<longrightarrow> b < 512 * (s + k) \<longrightarrow> sync i b e)"
      using Suc e by auto
    note g = same_fat_fields [OF IH(1)]
    have "n < unat (noTables e)" "512 * (s + k) \<le> unat (tableSize e)" "volume_fits e" using g fits k Suc.prems by simp_all
    note c = write_copy [OF this(3,1,2) w]
    have "\<forall>i<Suc n. \<forall>b. 512 * s \<le> b \<longrightarrow> b < 512 * (s + k) \<longrightarrow> sync i b e1" if "ok1 \<and> w"
      using that IH(5) c(4,5) k unfolding g(4) less_Suc_eq by (metis dual_order.strict_trans1)
    then show ?case unfolding run fst_conv snd_conv
      using IH(1-4) c(1-4) g same_fat_trans [OF IH(1) c(1)] by simp
  qed simp
  moreover have "unat (of_nat s * 512 :: u32) = 512 * s" "unat (of_nat k * 512 :: u32) = 512 * k"
    using unat_of_nat_u32 [of "512 * s"] unat_of_nat_u32 [of "512 * k"] k fits_table(2) [OF fits] by (simp_all add: mult.commute)
  then have "fold f [0..<unat (noTables d)] (True, d) = (ok, d')"
    using w unfolding fat_table_flush_write_def f_def Let_def by simp
  ultimately show ?thesis by fastforce
qed


section \<open>The loop of the flush\<close>

lemma clean_entries_sync:
  "same_fat d (clean_entries lo hi d)" "sync i b (clean_entries lo hi d) = sync i b d"
  "c < length (dirty_clusters d) \<Longrightarrow> dirty_clusters (clean_entries lo hi d) ! c = (dirty_clusters d ! c \<and> \<not> (lo \<le> c \<and> c < hi))"
  by (auto simp: clean_entries_def same_fat_def same_volume_def sync_def table_base_def abs_addr_def ata_works_def)

text \<open>
  Before sector \<open>h\<close>, with sectors \<open>r\<close> to \<open>r + l\<close> collected but not yet written: every byte is dirty, in
  step, or in the run.
\<close>

definition flush_inv :: "'a fat_t_scheme \<Rightarrow> nat \<Rightarrow> nat \<Rightarrow> u32 \<times> u32 \<times> bool \<times> 'a fat_t_scheme \<Rightarrow> bool" where
  "flush_inv d0 lo h = (\<lambda>(rs, rl, ok, d). same_fat d0 d \<and> (ata_works d0 \<longrightarrow> ok)
     \<and> (\<forall>c<length (dirty_clusters d). 256 * lo \<le> c \<longrightarrow> c < 256 * h \<longrightarrow> \<not> dirty_clusters d ! c)
     \<and> (\<exists>r l. rs = of_nat r \<and> rl = of_nat l \<and> (l = 0 \<or> r + l = h)
        \<and> (ok \<and> coherent d0 \<longrightarrow> (\<forall>i<unat (noTables d0). \<forall>b<unat (tableSize d0). dirty_clusters d ! (b div 2) \<or> sync i b d \<or> 512 * r \<le> b \<and> b < 512 * (r + l)))))"

lemma flush_invI:
  assumes "same_fat d0 d" "ata_works d0 \<longrightarrow> ok"
    and "\<forall>c<length (dirty_clusters d). 256 * lo \<le> c \<longrightarrow> c < 256 * h \<longrightarrow> \<not> dirty_clusters d ! c"
    and "rs = of_nat r" "rl = of_nat l" "l = 0 \<or> r + l = h"
    and "ok \<Longrightarrow> coherent d0 \<Longrightarrow> \<forall>i<unat (noTables d0). \<forall>b<unat (tableSize d0). dirty_clusters d ! (b div 2) \<or> sync i b d \<or> 512 * r \<le> b \<and> b < 512 * (r + l)"
  shows "flush_inv d0 lo h (rs, rl, ok, d)"
  unfolding flush_inv_def prod.case using assms by blast

text \<open>Writing the run.\<close>

lemma flush_run:
  assumes fits: "volume_fits d0" and inv: "flush_inv d0 lo h (rs, rl, ok, d)" and h: "512 * h \<le> unat (tableSize d0)" and rl: "rl > 0"
    and cl: "\<forall>c<length (dirty_clusters d). 256 * lo \<le> c \<longrightarrow> c < 256 * h' \<longrightarrow> \<not> dirty_clusters d ! c"
    and w: "fat_table_flush_write rs rl d = (ok', d')"
  shows "flush_inv d0 lo h' (rs, 0, ok \<and> ok', d')"
proof -
  obtain r l where rl': "rs = of_nat r" "rl = of_nat l" "l = 0 \<or> r + l = h"
    and st: "ok \<and> coherent d0 \<longrightarrow> (\<forall>i<unat (noTables d0). \<forall>b<unat (tableSize d0). dirty_clusters d ! (b div 2) \<or> sync i b d \<or> 512 * r \<le> b \<and> b < 512 * (r + l))"
    and same: "same_fat d0 d" and ok: "ata_works d0 \<longrightarrow> ok"
    using inv unfolding flush_inv_def prod.case by blast
  note g = same_fat_fields [OF same]
  have "r + l = h" using rl rl' by auto
  then have k: "512 * (r + l) \<le> unat (tableSize d)" using h g by simp
  have fd: "volume_fits d" using fits g by simp
  have f: "same_fat d d'" "dirty_clusters d' = dirty_clusters d" "ata_works d \<longrightarrow> ok'"
    "\<forall>i b. b < unat (tableSize d) \<longrightarrow> sync i b d \<longrightarrow> sync i b d'"
    "ok' \<longrightarrow> (\<forall>i<unat (noTables d). \<forall>b. 512 * r \<le> b \<longrightarrow> b < 512 * (r + l) \<longrightarrow> sync i b d')"
    using flush_write_spec [OF fd k, of ok' d'] w rl'(1,2) by simp_all
  have st': "\<forall>i<unat (noTables d0). \<forall>b<unat (tableSize d0). dirty_clusters d' ! (b div 2) \<or> sync i b d'" if "ok \<and> ok'" "coherent d0"
    using st f(2,4,5) that g(4,5) by metis
  show ?thesis
    using same_fat_trans [OF same f(1)] ok f(2,3) cl g(7) st' rl'(1) by (intro flush_invI [of _ _ _ _ _ _ r _ 0]) auto
qed

lemma flush_sector_inv:
  assumes fits: "volume_fits d0" and inv: "flush_inv d0 lo h st" and h: "lo \<le> h" "512 * (h + 1) \<le> unat (tableSize d0)"
  shows "flush_inv d0 lo (h + 1) (flush_sector (unat (tableSize d0) div 2) h st)"
proof -
  obtain rs rl ok d where st: "st = (rs, rl, ok, d)" by (cases st)
  let ?T = "unat (tableSize d0)"
  obtain r l where rl: "rs = of_nat r" "rl = of_nat l" "l = 0 \<or> r + l = h"
    and sy: "ok \<and> coherent d0 \<longrightarrow> (\<forall>i<unat (noTables d0). \<forall>b<?T. dirty_clusters d ! (b div 2) \<or> sync i b d \<or> 512 * r \<le> b \<and> b < 512 * (r + l))"
    and same: "same_fat d0 d" and ok: "ata_works d0 \<longrightarrow> ok"
    and cl: "\<forall>c<length (dirty_clusters d). 256 * lo \<le> c \<longrightarrow> c < 256 * h \<longrightarrow> \<not> dirty_clusters d ! c"
    using inv unfolding flush_inv_def st prod.case by blast
  note g = same_fat_fields [OF same]
  have len: "length (dirty_clusters d) = ?T div 2" using fits g(8) by (simp add: volume_fits_def fat_wf_def)
  have T: "?T < 2 ^ 32" by (rule fits_table(2) [OF fits])
  have l0: "rl = 0 \<longleftrightarrow> l = 0" using rl h(2) T unat_of_nat_u32 [of l] by (auto simp: unat_eq_0 [symmetric])
  have top: "(if (h + 1) * 256 > ?T div 2 then ?T div 2 else (h + 1) * 256) = 256 * (h + 1)" using h(2) by auto
  define e where "e = clean_entries (256 * h) (256 * (h + 1)) d"
  define sd where "sd = (\<exists>c\<in>{256 * h..<256 * (h + 1)}. dirty_clusters d ! c)"
  have step: "flush_sector (?T div 2) h st = (if sd then (if rl = 0 then of_nat h else rs, rl + 1, ok, e)
      else if rl > 0 then (let (w, d2) = fat_table_flush_write rs rl e in (rs, 0, ok \<and> w, d2)) else (rs, rl, ok, e))"
    unfolding st flush_sector_def prod.case Let_def top sd_def e_def by (simp add: mult.commute)
  have e: "same_fat d0 e" unfolding e_def by (rule same_fat_trans [OF same clean_entries_sync(1)])
  have sye: "sync i b e = sync i b d" for i b unfolding e_def by (rule clean_entries_sync(2))
  have dty: "dirty_clusters e ! c = (dirty_clusters d ! c \<and> \<not> (256 * h \<le> c \<and> c < 256 * (h + 1)))" if "c < ?T div 2" for c
    using clean_entries_sync(3) [of c d] that len by (simp add: e_def)
  have cle: "\<forall>c<length (dirty_clusters e). 256 * lo \<le> c \<longrightarrow> c < 256 * (h + 1) \<longrightarrow> \<not> dirty_clusters e ! c"
  proof (intro allI impI)
    fix c assume c: "c < length (dirty_clusters e)" "256 * lo \<le> c" "c < 256 * (h + 1)"
    then have "c < ?T div 2" using len same_fat_fields(8) [OF e] g(8) by simp
    then show "\<not> dirty_clusters e ! c" using dty c cl len by (cases "c < 256 * h") auto
  qed
  have half: "b div 2 < ?T div 2" if "b < ?T" for b using that h(2) fits_table(3) [OF fits] by auto
  show ?thesis
  proof (cases sd)
    case True
    define r' where "r' = (if l = 0 then h else r)"
    have "r' + (l + 1) = h + 1" "(if rl = 0 then of_nat h else rs) = of_nat r'" "rl + 1 = of_nat (l + 1)"
      using rl l0 by (auto simp: r'_def)
    moreover have "\<forall>i<unat (noTables d0). \<forall>b<?T. dirty_clusters e ! (b div 2) \<or> sync i b e \<or> 512 * r' \<le> b \<and> b < 512 * (r' + (l + 1))" if ok "coherent d0"
    proof (intro allI impI)
      fix i b assume ib: "i < unat (noTables d0)" "b < ?T"
      have "256 * h \<le> b div 2 \<and> b div 2 < 256 * (h + 1) \<Longrightarrow> 512 * r' \<le> b \<and> b < 512 * (r' + (l + 1))" using rl(3) by (auto simp: r'_def)
      moreover have "512 * r \<le> b \<and> b < 512 * (r + l) \<Longrightarrow> 512 * r' \<le> b \<and> b < 512 * (r' + (l + 1))" by (auto simp: r'_def)
      ultimately show "dirty_clusters e ! (b div 2) \<or> sync i b e \<or> 512 * r' \<le> b \<and> b < 512 * (r' + (l + 1))"
        using sy that ib dty [OF half [OF ib(2)]] sye by blast
    qed
    ultimately show ?thesis unfolding step if_P [OF True] using e ok cle by (intro flush_invI [of _ _ _ _ _ _ r' _ "l + 1"]) auto
  next
    case False
    have dty': "dirty_clusters e ! c = dirty_clusters d ! c" if "c < ?T div 2" for c using dty that False by (auto simp: sd_def)
    have inv': "flush_inv d0 lo (h + 1) (rs, rl, ok, e)" if "l = 0"
      unfolding flush_inv_def prod.case using e ok cle rl sy dty' [OF half] sye that by blast
    have inv'': "flush_inv d0 lo h (rs, rl, ok, e)"
      unfolding flush_inv_def prod.case using e ok cle rl sy dty' [OF half] sye by (auto simp del: of_nat_add)
    show ?thesis
    proof (cases "rl > 0")
      case True
      obtain w d2 where w: "fat_table_flush_write rs rl e = (w, d2)" by fastforce
      have "flush_inv d0 lo (h + 1) (rs, 0, ok \<and> w, d2)" using flush_run [OF fits inv'' _ True cle w] h(2) by simp
      then show ?thesis unfolding step using False True w by simp
    next
      case False
      then have "l = 0" using l0 word_gt_0 [of rl] by metis
      then show ?thesis unfolding step using \<open>\<not> sd\<close> False inv' by simp
    qed
  qed
qed


lemma fold_flush_inv:
  assumes "volume_fits d0" "flush_inv d0 lo lo st" "lo \<le> h" "512 * h \<le> unat (tableSize d0)"
  shows "flush_inv d0 lo h (fold (flush_sector (unat (tableSize d0) div 2)) [lo..<h] st)"
  using assms(3,4)
proof (induction "h - lo" arbitrary: h)
  case 0
  then show ?case using assms(2) by simp
next
  case (Suc n)
  then obtain k where h: "h = Suc k" "lo \<le> k" by (cases h) auto
  then have "flush_inv d0 lo k (fold (flush_sector (unat (tableSize d0) div 2)) [lo..<k] st)" using Suc by simp
  from flush_sector_inv [OF assms(1) this h(2)] show ?case using h Suc.prems(2) by simp
qed

lemma flush_cache_spec:
  assumes fits: "volume_fits d" and start: "unat start < unat (tableSize d) div 2"
    and run: "fat_table_flush_cache start end0 d = (ok, d')"
  shows "same_fat d d'" "ata_works d \<longrightarrow> ok" "ok \<longrightarrow> coherent d \<longrightarrow> coherent d'"
    "\<forall>c. unat start \<le> c \<longrightarrow> c \<le> unat end0 \<longrightarrow> c < unat (tableSize d) div 2 \<longrightarrow> \<not> dirty_clusters d' ! c"
proof -
  let ?T = "unat (tableSize d)"
  define entries where "entries = tableSize d div 2"
  have en: "unat entries = ?T div 2" by (simp add: entries_def unat_div)
  have pos: "entries \<noteq> 0" using start en by auto
  define end1 where "end1 = (if end0 \<ge> entries then entries - 1 else end0)"
  have e1: "unat end1 = min (unat end0) (?T div 2 - 1)"
    using start en pos unat_sub [of 1 entries] by (auto simp: end1_def word_le_nat_alt)
  define lo h where "lo = unat start div 256" and "h = unat end1 div 256 + 1"
  obtain q where q: "?T = 512 * q" using fits_table(3) [OF fits] by (auto simp: mod_eq_0_iff_dvd elim: dvdE)
  have "unat end1 < 256 * q" using e1 start q by auto
  then have "unat end1 div 256 < q" by (simp add: div_less_iff_less_mult mult.commute)
  then have h: "512 * h \<le> ?T" by (simp add: h_def q)
  obtain rs rl ok0 e where f: "fold (flush_sector (?T div 2)) [lo..<h] (0, 0, True, d) = (rs, rl, ok0, e)" by (metis prod_cases4)
  have "flush_inv d lo lo (0, 0, True, d)" by (intro flush_invI [of _ _ _ _ _ _ 0 _ 0]) (auto simp: coherent_def)
  then have inv: "flush_inv d lo (max lo h) (rs, rl, ok0, e)"
  proof (cases "lo \<le> h")
    case True
    then show ?thesis using fold_flush_inv [OF fits \<open>flush_inv d lo lo (0, 0, True, d)\<close> True h] f by simp
  qed (use f in auto)
  have step: "fat_table_flush_cache start end0 d =
      (if rl > 0 then (let (w, d2) = fat_table_flush_write rs rl e in (ok0 \<and> w, d2)) else (ok0, e))"
    using start f unfolding fat_table_flush_cache_def Let_def entries_def [symmetric] end1_def [symmetric]
    by (simp add: en word_le_nat_alt unat_div lo_def h_def)
  have cl: "\<forall>c<length (dirty_clusters e). 256 * lo \<le> c \<longrightarrow> c < 256 * max lo h \<longrightarrow> \<not> dirty_clusters e ! c"
    using inv by (simp add: flush_inv_def)
  have fin: "flush_inv d lo (max lo h) (rs, 0, ok, d')"
  proof (cases "rl > 0")
    case True
    obtain w d2 where w: "fat_table_flush_write rs rl e = (w, d2)" by fastforce
    have "512 * max lo h \<le> ?T" using h start by (auto simp: lo_def)
    from flush_run [OF fits inv this True cl w] show ?thesis using run step True w by simp
  next
    case False
    then show ?thesis using run step inv by (simp add: word_gt_0)
  qed
  then show "same_fat d d'" "ata_works d \<longrightarrow> ok" by (simp_all add: flush_inv_def)
  note g = same_fat_fields [OF this(1)]
  obtain r l where r: "rs = of_nat r" "(0::u32) = of_nat l" "l = 0 \<or> r + l = max lo h"
    "ok \<and> coherent d \<longrightarrow> (\<forall>i<unat (noTables d). \<forall>b<?T. dirty_clusters d' ! (b div 2) \<or> sync i b d' \<or> 512 * r \<le> b \<and> b < 512 * (r + l))"
    using fin unfolding flush_inv_def prod.case by blast
  have "l < 2 ^ 32" using r(3) h start fits_table(2) [OF fits] by (auto simp: lo_def max_def split: if_splits)
  then have "l = 0" using r(2) unat_of_nat_u32 [of l] by (metis unat_0)
  then show "ok \<longrightarrow> coherent d \<longrightarrow> coherent d'" unfolding coherent_def [of d'] g(4,5) using r(4) by (metis add_0_right not_le)
  show "\<forall>c. unat start \<le> c \<longrightarrow> c \<le> unat end0 \<longrightarrow> c < ?T div 2 \<longrightarrow> \<not> dirty_clusters d' ! c"
  proof (intro allI impI)
    fix c assume c: "unat start \<le> c" "c \<le> unat end0" "c < ?T div 2"
    then have "256 * lo \<le> c" "c < 256 * h" using e1 by (auto simp: lo_def h_def)
    moreover have "c < length (dirty_clusters d')" using g(8) c(3) fits by (simp add: volume_fits_def fat_wf_def)
    ultimately show "\<not> dirty_clusters d' ! c" using fin by (simp add: flush_inv_def)
  qed
qed

lemma flush_cache_frame:
  assumes fits: "volume_fits d" and run: "fat_table_flush_cache start end0 d = (ok, d')"
  shows "same_fat d d'" "ata_works d \<longrightarrow> ok" "ok \<longrightarrow> coherent d \<longrightarrow> coherent d'"
    "\<forall>c. unat start \<le> c \<longrightarrow> c \<le> unat end0 \<longrightarrow> c < unat (tableSize d) div 2 \<longrightarrow> \<not> dirty_clusters d' ! c"
proof -
  have "same_fat d d' \<and> (ata_works d \<longrightarrow> ok) \<and> (ok \<longrightarrow> coherent d \<longrightarrow> coherent d')
    \<and> (\<forall>c. unat start \<le> c \<longrightarrow> c \<le> unat end0 \<longrightarrow> c < unat (tableSize d) div 2 \<longrightarrow> \<not> dirty_clusters d' ! c)"
  proof (cases "unat start < unat (tableSize d) div 2")
    case True
    show ?thesis using flush_cache_spec [OF fits True run] by simp
  next
    case False
    then have "(ok, d') = (True, d)" using run by (simp add: fat_table_flush_cache_def Let_def word_le_nat_alt unat_div)
    then show ?thesis using False by simp
  qed
  then show "same_fat d d'" "ata_works d \<longrightarrow> ok" "ok \<longrightarrow> coherent d \<longrightarrow> coherent d'"
    "\<forall>c. unat start \<le> c \<longrightarrow> c \<le> unat end0 \<longrightarrow> c < unat (tableSize d) div 2 \<longrightarrow> \<not> dirty_clusters d' ! c" by simp_all
qed

lemma update_coherent:
  assumes fits: "volume_fits d" and coh: "coherent d" and u: "fat_table_update_cluster c v d = (ok, d')"
  shows "volume_fits d' \<and> coherent d'"
proof (cases ok)
  case True
  then have d': "d' = d\<lparr> dirty_clusters := (dirty_clusters d)[unat c := True], fat_table := (fat_table d)[unat c := v] \<rparr>"
    using u by (auto simp: fat_table_update_cluster_def split: if_splits)
  have same: "volume_fits d' = volume_fits d"
    by (simp add: d' volume_fits_def fat_wf_def table_base_def in_partition_def)
  have "dirty_clusters d' ! (b div 2) \<or> sync i b d'" if "i < unat (noTables d)" "b < unat (tableSize d)" for i b
  proof (cases "b div 2 = unat c")
    case True
    have "b div 2 < length (dirty_clusters d)" using that(2) fits_table(1) [OF fits] fits by (simp add: volume_fits_def fat_wf_def)
    then show ?thesis using True by (simp add: d')
  next
    case False
    then have "bytes_of (fat_table d') ! b = bytes_of (fat_table d) ! b"
      using nth_bytes_of [OF False, of "fat_table d" v] that(2) fits_table(1) [OF fits] by (simp add: d')
    then show ?thesis using coh that False by (auto simp: coherent_def sync_def d' table_base_def abs_addr_def)
  qed
  then show ?thesis using fits same by (simp add: coherent_def d')
next
  case False
  then show ?thesis using u assms(1,2) by (auto simp: fat_table_update_cluster_def split: if_splits)
qed


section \<open>Mounting again\<close>

text \<open>What the boot sector says of a volume.\<close>

definition geometry :: "'a fat_t_scheme \<Rightarrow> u16 \<times> u8 \<times> u16 \<times> u8 \<times> u16 \<times> u16 \<times> u32 \<times> u32 \<times> u32 \<times> u32 \<times> u32" where
  "geometry d = (bytesPerSector d, sectorsPerCluster d, noReservedSectors d, noTables d, noRootEntries d, sectorsPerFat d,
     noSectors d, rootSize d, rootSector d, firstDataSector d, noClusters d)"

lemma get_info_boot:
  assumes "ata_read_exact baseAddr 512 d = (Some buf, e)" "ata_read_exact baseAddr 512 d' = (Some buf, e')"
    and "fat_get_info d = (True, f)"
  shows "\<exists>f'. fat_get_info d' = (True, f') \<and> geometry f' = geometry f \<and> disk f' = disk e' \<and> ata_base_lba f' = ata_base_lba e'
    \<and> ata_partition_sectors f' = ata_partition_sectors e' \<and> ata_works f' = ata_works e'"
  using assms unfolding fat_get_info_def Let_def
  by (auto simp: geometry_def ata_works_def split: if_splits)

text \<open>The drive as it was, after a read.\<close>

lemma read_in_partition:
  assumes "in_partition d a n" "ata_works d"
  shows "\<exists>e. ata_read_exact (of_nat a) (of_nat n) d = (Some (read_bytes (disk d) (abs_addr d a) n), e) \<and> same_disk d e"
  using ata_read_exact_spec [OF assms(1)] assms(2) by (metis surj_pair)

lemma fat_setup_reads:
  assumes works: "ata_works d" and boot: "in_partition d 512000 512" and info: "fat_get_info d = (True, f)" and bps: "bytesPerSector f = 512"
    and tab: "in_partition d (table_base f) (unat (sectorsPerFat f) * 512)"
  shows "\<exists>d2. fat_setup d = (True, d2) \<and> geometry d2 = geometry f \<and> tableSize d2 = of_nat (unat (sectorsPerFat f) * 512)
    \<and> fat_table d2 = words_of (read_bytes (disk d) (abs_addr d (table_base f)) (unat (sectorsPerFat f) * 512))
    \<and> (\<forall>c<length (dirty_clusters d2). \<not> dirty_clusters d2 ! c)"
proof -
  obtain e where e: "ata_read_exact baseAddr 512 d = (Some (read_bytes (disk d) (abs_addr d 512000) 512), e)" "same_disk d e"
    using read_in_partition [OF boot works] by (auto simp: baseAddr_def)
  obtain f' where "fat_get_info d = (True, f')" "disk f' = disk e" "ata_base_lba f' = ata_base_lba e"
    "ata_partition_sectors f' = ata_partition_sectors e" "ata_works f' = ata_works e" using get_info_boot [OF e(1) e(1) info] by auto
  then have f: "disk f = disk d" "ata_base_lba f = ata_base_lba d" "ata_partition_sectors f = ata_partition_sectors d" "ata_works f"
    using info same_disk_fields [OF e(2)] same_disk_works [OF e(2)] works by auto
  then have abs: "abs_addr f = abs_addr d" and inf: "in_partition f (table_base f) (unat (sectorsPerFat f) * 512)"
    using tab by (auto simp: abs_addr_def in_partition_def fun_eq_iff)
  obtain g where g: "ata_read_exact (of_nat (table_base f)) (of_nat (unat (sectorsPerFat f) * 512)) f
      = (Some (read_bytes (disk d) (abs_addr d (table_base f)) (unat (sectorsPerFat f) * 512)), g)" "same_disk f g"
    using read_in_partition [OF inf f(4)] f(1) abs by auto
  have "baseAddr + ucast (noReservedSectors f) * ucast (bytesPerSector f) = of_nat (table_base f)"
    unfolding bps table_base_def baseAddr_def of_nat_add of_nat_mult of_nat_unat by simp
  moreover have "ucast (sectorsPerFat f) * ucast (bytesPerSector f) = (of_nat (unat (sectorsPerFat f) * 512) :: u32)"
    unfolding bps of_nat_mult of_nat_unat by simp
  moreover have "buf_malloc g = (True, g\<lparr> heap_ops := heap_ops g + 1 \<rparr>)"
    using same_disk_works [OF g(2)] f(4) by (simp add: buf_malloc_def ata_works_def)
  ultimately have "fat_setup d = (True, g\<lparr> heap_ops := heap_ops g + 1,
      fat_table := words_of (read_bytes (disk d) (abs_addr d (table_base f)) (unat (sectorsPerFat f) * 512)),
      tableSize := of_nat (unat (sectorsPerFat f) * 512),
      dirty_clusters := replicate (unat ((of_nat (unat (sectorsPerFat f) * 512) :: u32) div 2)) False \<rparr>)"
    unfolding fat_setup_def info using g(1) by (simp only: prod.case bool.case option.case Let_def)
  moreover have "geometry g = geometry f" using more_same [of g f] more_read_exact g(1) ata_read_fat [OF g(1)]
    by (simp add: same_volume_def geometry_def)
  ultimately show ?thesis by (auto simp: geometry_def)
qed

section \<open>Properties\<close>

text \<open>A volume of 100 sectors with one table and empty clusters.\<close>

definition boot_byte :: "nat \<Rightarrow> u8" where
  "boot_byte a = (if a = 512012 then 2 else if a \<in> {512013, 512014, 512016, 512022} then 1 else if a = 512017 then 16 else if a = 512019 then 100 else 0)"

definition small_volume :: fat_t where
  "small_volume = ata_t.extend (blank_disk\<lparr> disk := boot_byte \<rparr>)
     \<lparr> bytesPerSector = 512, sectorsPerCluster = 1, noReservedSectors = 1, noTables = 1, noRootEntries = 16, sectorsPerFat = 1,
       noSectors = 100, noClusters = 99, rootSize = 1, rootSector = 2, firstDataSector = 3, tableSize = 512,
       fat_table = replicate 256 0, dirty_clusters = replicate 256 False \<rparr>"

lemmas small_simps = small_volume_def blank_disk_def ata_t.defs

lemma small_table_base: "table_base small_volume = 512512"
  by (simp add: small_simps table_base_def)

lemma bytes_of_zero: "b < 2 * n \<Longrightarrow> bytes_of (replicate n 0) ! b = 0"
proof (induction n arbitrary: b)
  case (Suc n)
  then have "b = 0 \<or> b = 1 \<or> (\<exists>c. b = c + 2 \<and> c < 2 * n)" by presburger
  then show ?case using Suc.IH by (auto simp: bytes_of_Cons)
qed simp

lemma small_fits: "volume_fits small_volume"
  unfolding volume_fits_def small_table_base by (simp add: small_simps fat_wf_def in_partition_def)

lemma small_coherent: "coherent small_volume"
  unfolding coherent_def sync_def small_table_base
  by (simp add: small_simps abs_addr_def boot_byte_def bytes_of_zero)

lemma small_works: "ata_works small_volume"
  by (simp add: small_simps ata_works_def)

text \<open>
  C33: the cached table is coherent with its copies on the disk. An update of an entry keeps every clean entry equal to
  all its copies; so does a flush of a range of entries that succeeds, and it leaves both bytes of every entry of
  the range, in every copy, equal to the cached one. A flush never changes the cached table nor a byte outside the copies,
  and on a drive that reports no error it succeeds.
\<close>

theorem fat_flush_coherent:
  assumes "volume_fits d" and "coherent d" and "fat_table_update_cluster k v d = (u, d0)"
    and "fat_table_flush_cache start end0 d0 = (ok, d1)"
  shows "coherent d0 \<and> fat_table d1 = fat_table d0 \<and> (ata_works d0 \<longrightarrow> ok)
    \<and> (\<forall>a. a < table_base d \<or> table_base d + unat (noTables d) * unat (tableSize d) \<le> a \<longrightarrow> disk d1 (abs_addr d a) = disk d (abs_addr d a))
    \<and> (ok \<longrightarrow> coherent d1 \<and> (\<forall>c i. unat start \<le> c \<and> c \<le> unat end0 \<and> c < length (fat_table d) \<and> i < unat (noTables d) \<longrightarrow>
          read_bytes (disk d1) (abs_addr d (table_base d + i * unat (tableSize d) + 2 * c)) 2 = bytes_of [fat_table d0 ! c]))"
proof -
  have f0: "volume_fits d0" and c0: "coherent d0" using update_coherent [OF assms(1-3)] by simp_all
  have d0: "disk d0 = disk d" "noTables d0 = noTables d" "tableSize d0 = tableSize d" "table_base d0 = table_base d" "abs_addr d0 = abs_addr d"
    "length (fat_table d0) = length (fat_table d)"
    using assms(3) by (auto simp: fat_table_update_cluster_def table_base_def abs_addr_def fun_eq_iff split: if_splits)
  have len: "length (fat_table d0) = unat (tableSize d0) div 2" using f0 by (simp add: volume_fits_def fat_wf_def)
  have s: "same_fat d0 d1 \<and> (ata_works d0 \<longrightarrow> ok) \<and> (ok \<longrightarrow> coherent d1) \<and> (\<forall>c. unat start \<le> c \<longrightarrow> c \<le> unat end0 \<longrightarrow>
      c < length (fat_table d0) \<longrightarrow> \<not> dirty_clusters d1 ! c)"
    using flush_cache_frame [OF f0 assms(4)] c0 len by simp
  then have same: "same_fat d0 d1" by simp
  note g = same_fat_fields [OF same]
  have "read_bytes (disk d1) (abs_addr d (table_base d + i * unat (tableSize d) + 2 * c)) 2 = bytes_of [fat_table d0 ! c]"
    if ok "unat start \<le> c" "c \<le> unat end0" "c < length (fat_table d)" "i < unat (noTables d)" for c i
  proof -
    have b: "2 * c < unat (tableSize d)" "2 * c + 1 < unat (tableSize d)" using that(4) fits_table(1) [OF f0] d0 by auto
    have nd: "\<not> dirty_clusters d1 ! c" "coherent d1" using s that d0(6) by auto
    have "sync i (2 * c) d1" using nd b(1) that(5) unfolding coherent_def g(4,5) d0(2,3)
      by (metis nonzero_mult_div_cancel_left zero_neq_numeral)
    moreover have "(2 * c + 1) div 2 = c" by simp
    then have "sync i (2 * c + 1) d1" using nd b(2) that(5) unfolding coherent_def g(4,5) d0(2,3) by metis
    ultimately have "disk d1 (abs_addr d (table_base d + i * unat (tableSize d) + 2 * c)) = ucast (fat_table d0 ! c)"
      "disk d1 (abs_addr d (table_base d + i * unat (tableSize d) + (2 * c + 1))) = ucast (drop_bit 8 (fat_table d0 ! c))"
      using that(4) bytes_of_entry [of c "fat_table d0"] unfolding sync_def g d0 by simp_all
    moreover have "read_bytes f a 2 = [f a, f (a + 1)]" for f a by (simp add: read_bytes_def numeral_2_eq_2)
    moreover have "abs_addr d x + 1 = abs_addr d (x + 1)" for x by (simp add: abs_addr_def)
    ultimately show ?thesis by (simp add: bytes_of_def add.assoc)
  qed
  then show ?thesis using s c0 g(6) d0 unfolding same_fat_def by simp
qed


theorem fat_flush_coherent_witness:
  "read_bytes (disk (snd (fat_table_flush_cache 0 255 (snd (fat_table_update_cluster 5 0xFFFF small_volume))))) 512522 2 = [0xFF, 0xFF]"
proof -
  obtain u d0 where u: "fat_table_update_cluster 5 0xFFFF small_volume = (u, d0)" by fastforce
  obtain ok d1 where f: "fat_table_flush_cache 0 255 d0 = (ok, d1)" by fastforce
  have d0: "fat_table d0 ! 5 = 0xFFFF" "ata_works d0" using u by (auto simp: fat_table_update_cluster_def small_simps ata_works_def)
  have sm: "5 < length (fat_table small_volume)" "0 < unat (noTables small_volume)" by (simp_all add: small_simps)
  have "\<forall>c i. unat (0::u32) \<le> c \<and> c \<le> unat (255::u32) \<and> c < length (fat_table small_volume) \<and> i < unat (noTables small_volume) \<longrightarrow>
      read_bytes (disk d1) (abs_addr small_volume (table_base small_volume + i * unat (tableSize small_volume) + 2 * c)) 2 = bytes_of [fat_table d0 ! c]"
    using fat_flush_coherent [OF small_fits small_coherent u f] d0(2) by (elim conjE) simp
  from this [rule_format, of 5 0]
  have "read_bytes (disk d1) (abs_addr small_volume (table_base small_volume + 0 * unat (tableSize small_volume) + 2 * 5)) 2 = bytes_of [fat_table d0 ! 5]"
    using sm by simp
  then show ?thesis using u f d0(1) by (simp add: small_table_base) (simp add: small_simps abs_addr_def bytes_of_def)
qed

text \<open>
  C34: a flushed table survives a reboot. The volume was mounted, so its boot sector describes it. When the whole table is
  flushed on a drive that reports no error, mounting the volume again with \<open>fat_setup\<close> succeeds and gives the
  same geometry and exactly the cached table of before, with no entry dirty.
\<close>

theorem fat_remount:
  assumes "volume_fits d" and "coherent d" and "ata_works d" and "0 < unat (noReservedSectors d)" and "0 < unat (tableSize d)"
    and "0 < unat (noTables d)"
    and "fat_get_info d = (True, f)" and "geometry f = geometry d" and "fat_table_flush_cache_all d = (ok, d1)"
  shows "ok \<and> (\<exists>d2. fat_setup d1 = (True, d2) \<and> geometry d2 = geometry d \<and> tableSize d2 = tableSize d
    \<and> fat_table d2 = fat_table d \<and> (\<forall>c<length (dirty_clusters d2). \<not> dirty_clusters d2 ! c))"
proof -
  let ?T = "unat (tableSize d)"
  have T: "?T = unat (sectorsPerFat d) * 512" "bytesPerSector d = 512" using assms(1) by (simp_all add: volume_fits_def)
  have half: "unat (0::u32) < ?T div 2" using T assms(5) by simp
  have fl: "fat_table_flush_cache 0 (tableSize d div 2 - 1) d = (ok, d1)" using assms(9) by (simp add: fat_table_flush_cache_all_def)
  note fs = flush_cache_spec [OF assms(1) half fl]
  note g = same_fat_fields [OF fs(1)]
  have ok: ok using fs(2) assms(3) by simp
  have base: "512000 + 512 \<le> table_base d" using assms(4) by (simp add: table_base_def)
  have part: "in_partition d (table_base d) (unat (noTables d) * ?T)" using assms(1) unfolding volume_fits_def by (elim conjE)
  have cut: "in_partition d a n" if "a + n \<le> table_base d + unat (noTables d) * ?T" for a n
    using part that div_le_mono [of "a + n + 511" "table_base d + unat (noTables d) * ?T + 511" 512] unfolding in_partition_def by linarith
  have geo: "in_partition d1 a n = in_partition d a n" for a n using fs(1) by (simp add: same_fat_def in_partition_def)
  have boot: "in_partition d 512000 512" "in_partition d1 512000 512" using cut base geo by simp_all
  have "read_bytes (disk d1) (abs_addr d1 512000) 512 = read_bytes (disk d) (abs_addr d 512000) 512"
  proof (rule nth_equalityI)
    fix i assume "i < length (read_bytes (disk d1) (abs_addr d1 512000) 512)"
    then have i: "i < 512" by simp
    then have "disk d1 (abs_addr d (512000 + i)) = disk d (abs_addr d (512000 + i))" using fs(1) base by (simp add: same_fat_def)
    then show "read_bytes (disk d1) (abs_addr d1 512000) 512 ! i = read_bytes (disk d) (abs_addr d 512000) 512 ! i"
      using i g(3) by (simp add: abs_addr_def add.assoc)
  qed simp
  then obtain e e1 where "ata_read_exact baseAddr 512 d = (Some (read_bytes (disk d) (abs_addr d 512000) 512), e)"
    "ata_read_exact baseAddr 512 d1 = (Some (read_bytes (disk d) (abs_addr d 512000) 512), e1)"
    using read_in_partition [OF boot(1) assms(3)] read_in_partition [OF boot(2)] g(7) assms(3) by (auto simp: baseAddr_def)
  from get_info_boot [OF this assms(7)] obtain f1 where f1: "fat_get_info d1 = (True, f1)" "geometry f1 = geometry d" using assms(8) by auto
  then have eq: "bytesPerSector f1 = 512" "sectorsPerFat f1 = sectorsPerFat d" "table_base f1 = table_base d"
    using T by (simp_all add: geometry_def table_base_def)
  have one: "?T \<le> unat (noTables d) * ?T" using mult_le_mono1 [of 1 "unat (noTables d)" ?T] assms(6) by simp
  have "in_partition d1 (table_base f1) (unat (sectorsPerFat f1) * 512)"
    unfolding eq geo T(1) [symmetric] using one by (intro cut) simp
  from fat_setup_reads [OF _ boot(2) f1(1) eq(1) this] obtain d2 where d2: "fat_setup d1 = (True, d2)" "geometry d2 = geometry d"
    "tableSize d2 = of_nat ?T" "fat_table d2 = words_of (read_bytes (disk d1) (abs_addr d1 (table_base d)) ?T)"
    "\<forall>c<length (dirty_clusters d2). \<not> dirty_clusters d2 ! c"
    using g(7) assms(3) f1(2) eq T(1) by auto
  have "read_bytes (disk d1) (abs_addr d1 (table_base d)) ?T = bytes_of (fat_table d)"
  proof (rule nth_equalityI)
    fix b assume "b < length (read_bytes (disk d1) (abs_addr d1 (table_base d)) ?T)"
    then have b: "b < ?T" by simp
    have "b div 2 < ?T div 2" using b T(1) by (simp add: div_less_iff_less_mult)
    moreover have "unat (tableSize d div 2 - 1) = ?T div 2 - 1" using half by (simp add: unat_sub unat_div word_le_nat_alt)
    ultimately have "\<not> dirty_clusters d1 ! (b div 2)" using fs(4) by simp
    then have "sync 0 b d1" using fs(3) assms(2) ok b assms(6) g by (auto simp: coherent_def [of d1])
    then show "read_bytes (disk d1) (abs_addr d1 (table_base d)) ?T ! b = bytes_of (fat_table d) ! b"
      using b g by (simp add: sync_def abs_addr_def add.assoc)
  qed (use fits_table(1) [OF assms(1)] in simp)
  then show ?thesis using ok d2 by (simp add: of_nat_unat)
qed


lemma le_1: "le b i 1 = unat (b ! i)"
  by simp

lemma le_2: "le b i 2 = unat (b ! i) + 256 * unat (b ! (i + 1))"
  by (simp add: numeral_2_eq_2)

lemma small_info: "\<exists>f. fat_get_info small_volume = (True, f) \<and> geometry f = geometry small_volume"
proof -
  have "in_partition small_volume 512000 512" by (simp add: small_simps in_partition_def)
  from read_in_partition [OF this small_works] obtain e where
    e: "ata_read_exact baseAddr 512 small_volume = (Some (read_bytes boot_byte 512000 512), e)"
    by (auto simp: baseAddr_def small_simps abs_addr_def)
  define buf where "buf = read_bytes boot_byte 512000 512"
  have b: "buf ! 11 = 0" "buf ! 12 = 2" "buf ! 13 = 1" "buf ! 14 = 1" "buf ! 15 = 0" "buf ! 16 = 1" "buf ! 17 = 16" "buf ! 18 = 0"
    "buf ! 19 = 100" "buf ! 20 = 0" "buf ! 22 = 1" "buf ! 23 = 0"
    by (simp_all add: buf_def boot_byte_def)
  have l: "le buf 11 2 = 512" "le buf 13 1 = 1" "le buf 14 2 = 1" "le buf 16 1 = 1" "le buf 17 2 = 16" "le buf 19 2 = 100" "le buf 22 2 = 1"
    using le_2 [of buf] le_1 [of buf] by (simp_all add: b)
  show ?thesis
    unfolding fat_get_info_def e buf_def [symmetric] prod.case option.case Let_def l by (simp add: geometry_def small_simps)
qed

theorem fat_remount_witness:
  "\<exists>d1 d2. fat_table_flush_cache_all small_volume = (True, d1) \<and> fat_setup d1 = (True, d2) \<and> fat_table d2 = replicate 256 0"
proof -
  obtain f where f: "fat_get_info small_volume = (True, f)" "geometry f = geometry small_volume" using small_info by blast
  obtain ok d1 where fl: "fat_table_flush_cache_all small_volume = (ok, d1)" by fastforce
  have "0 < unat (noReservedSectors small_volume)" "0 < unat (tableSize small_volume)" "0 < unat (noTables small_volume)"
    "fat_table small_volume = replicate 256 0" by (simp_all add: small_simps)
  from fat_remount [OF small_fits small_coherent small_works this(1-3) f fl] this(4) show ?thesis using fl by metis
qed

end
