(* ===== verification/Fatdata.thy ===== *)
theory Fatdata
  imports Fatsync
begin

text \<open>
  The data clusters of a volume of \<^verbatim>\<open>src/fat.c\<close>: where they lie on the disk, that they overlap neither each
  other nor the copies of the allocation table, and what reading and writing one of them does to the rest.
\<close>

section \<open>The data area\<close>

definition data_base :: "'a fat_t_scheme \<Rightarrow> nat" where
  "data_base d = 512000 + unat (firstDataSector d) * 512"

definition data_fits :: "'a fat_t_scheme \<Rightarrow> bool" where
  "data_fits d \<longleftrightarrow> volume_fits d \<and> sectorsPerCluster d \<noteq> 0 \<and> table_base d + unat (noTables d) * unat (tableSize d) \<le> data_base d
     \<and> in_partition d (data_base d) ((unat (noClusters d) - 2) * unat (clusterSize d))"

lemma data_fits_wf: "data_fits d \<Longrightarrow> volume_fits d" "data_fits d \<Longrightarrow> fat_wf d"
  unfolding data_fits_def volume_fits_def by blast+

text \<open>The bytes of a cluster, and of the clusters of a file.\<close>

definition cluster_data :: "u16 \<Rightarrow> 'a fat_t_scheme \<Rightarrow> u8 list" where
  "cluster_data c d = read_bytes (disk d) (abs_addr d (data_base d + (unat c - 2) * unat (clusterSize d))) (unat (clusterSize d))"

definition file_data :: "u16 list \<Rightarrow> 'a fat_t_scheme \<Rightarrow> u8 list" where
  "file_data cs d = concat (map (\<lambda>c. cluster_data c d) cs)"

text \<open>The same volume on the same drive.\<close>

definition same_drive :: "'a fat_t_scheme \<Rightarrow> 'a fat_t_scheme \<Rightarrow> bool" where
  "same_drive d d' \<longleftrightarrow> same_volume d d' \<and> ata_base_lba d' = ata_base_lba d \<and> ata_partition_sectors d' = ata_partition_sectors d
     \<and> ata_works d' = ata_works d"

lemma same_drive_refl [simp]: "same_drive d d"
  by (simp add: same_drive_def)

lemma same_drive_trans: "same_drive d d1 \<Longrightarrow> same_drive d1 d2 \<Longrightarrow> same_drive d d2"
  by (auto simp: same_drive_def intro: same_volume_trans)

lemma same_fat_drive: "same_fat d d' \<Longrightarrow> same_drive d d'"
  by (simp add: same_fat_def same_drive_def)

lemma same_drive_fields:
  assumes "same_drive d d'"
  shows "data_fits d' = data_fits d" "volume_fits d' = volume_fits d" "fat_wf d' = fat_wf d" "table_base d' = table_base d" "data_base d' = data_base d"
    "abs_addr d' = abs_addr d" "tableSize d' = tableSize d" "noTables d' = noTables d" "noClusters d' = noClusters d"
    "clusterSize d' = clusterSize d" "clusterAddr c d' = clusterAddr c d" "ata_works d' = ata_works d"
    "fat_valid_cluster c d' = fat_valid_cluster c d" "in_partition d' = in_partition d" "same_volume d d'"
  using assms same_volume_wf [of d d']
  by (auto simp: same_drive_def same_volume_def volume_fits_def data_fits_def table_base_def data_base_def abs_addr_def in_partition_def
    clusterSize_def clusterAddr_def fat_valid_cluster_def fun_eq_iff)

lemma length_cluster_data [simp]: "length (cluster_data c d) = unat (clusterSize d)"
  by (simp add: cluster_data_def)

lemma length_file_data: "length (file_data cs d) = length cs * unat (clusterSize d)"
  by (induction cs) (simp_all add: file_data_def)

lemma file_data_append: "file_data (xs @ ys) d = file_data xs d @ file_data ys d"
  by (simp add: file_data_def)

lemma file_data_cong: "(\<And>c. c \<in> set cs \<Longrightarrow> cluster_data c d' = cluster_data c d) \<Longrightarrow> file_data cs d' = file_data cs d"
  by (simp add: file_data_def cong: map_cong)

lemma cluster_size:
  assumes "data_fits d"
  shows "unat (clusterSize d) = unat (sectorsPerCluster d) * 512" "0 < unat (clusterSize d)" "unat (clusterSize d) \<le> 2 ^ 17"
proof -
  have s: "unat (sectorsPerCluster d) < 256" using unsigned_less [of "sectorsPerCluster d", where 'a = nat] by simp
  have b: "bytesPerSector d = 512" using assms by (simp add: data_fits_def volume_fits_def)
  have "clusterSize d = of_nat (unat (sectorsPerCluster d) * 512)"
    unfolding clusterSize_def b of_nat_mult of_nat_unat by simp
  then show e: "unat (clusterSize d) = unat (sectorsPerCluster d) * 512" using unat_of_nat_u32 [of "unat (sectorsPerCluster d) * 512"] s by simp
  then show "unat (clusterSize d) \<le> 2 ^ 17" using s by simp
  have "0 < unat (sectorsPerCluster d)" using assms by (auto simp: data_fits_def unat_gt_0)
  then show "0 < unat (clusterSize d)" using e by simp
qed

lemma cluster_addr:
  assumes "data_fits d" "fat_valid_cluster c d"
  shows "clusterAddr c d = of_nat (data_base d + (unat c - 2) * unat (clusterSize d))"
proof -
  have b: "bytesPerSector d = 512" using assms by (simp add: data_fits_def volume_fits_def)
  have c: "2 \<le> unat c" using assms(2) by (auto simp: fat_valid_cluster_def not_less word_le_nat_alt)
  have "(ucast c :: u32) - 2 = of_nat (unat c - 2)" using c by (simp add: of_nat_diff of_nat_unat)
  then have "clusterAddr c d = of_nat (512000 + ((unat c - 2) * unat (sectorsPerCluster d) + unat (firstDataSector d)) * 512)"
    unfolding clusterAddr_def baseAddr_def b of_nat_add of_nat_mult of_nat_unat by simp
  then show ?thesis unfolding cluster_size(1) [OF assms(1)] data_base_def by (simp add: algebra_simps)
qed

lemma cluster_in_partition:
  assumes "data_fits d" "fat_valid_cluster c d"
  shows "in_partition d (data_base d + (unat c - 2) * unat (clusterSize d)) (unat (clusterSize d))"
proof -
  have "unat c < 2 ^ 32" using unsigned_less [of c, where 'a = nat] by simp
  then have "unat (ucast c :: u32) = unat c" by (simp add: unsigned_ucast_eq take_bit_nat_eq_self)
  then have "unat c < unat (noClusters d)" "2 \<le> unat c" using assms(2) by (auto simp: fat_valid_cluster_def not_less not_le word_less_nat_alt word_le_nat_alt)
  then have "(unat c - 2 + 1) * unat (clusterSize d) \<le> (unat (noClusters d) - 2) * unat (clusterSize d)" by (intro mult_le_mono1) simp
  then have "data_base d + (unat c - 2) * unat (clusterSize d) + unat (clusterSize d) \<le> data_base d + (unat (noClusters d) - 2) * unat (clusterSize d)"
    by simp
  moreover have "in_partition d (data_base d) ((unat (noClusters d) - 2) * unat (clusterSize d))"
    using assms(1) unfolding data_fits_def by (elim conjE)
  ultimately show ?thesis
    using div_le_mono [of "data_base d + (unat c - 2) * unat (clusterSize d) + unat (clusterSize d) + 511"
        "data_base d + (unat (noClusters d) - 2) * unat (clusterSize d) + 511" 512]
    unfolding in_partition_def by linarith
qed

text \<open>Reading and writing a cluster.\<close>

lemma read_cluster:
  assumes "data_fits d" "fat_valid_cluster c d" "ata_read_exact (clusterAddr c d) (clusterSize d) d = (r, d')"
  shows "same_drive d d'" "fat_table d' = fat_table d" "dirty_clusters d' = dirty_clusters d" "disk d' = disk d"
    "r = Some (cluster_data c d) \<or> r = None \<and> \<not> ata_works d"
proof -
  have s: "same_disk d d' \<and> (r = Some (cluster_data c d) \<or> r = None \<and> \<not> ata_works d)"
    using ata_read_exact_spec [OF cluster_in_partition [OF assms(1,2)], of r d'] assms(3) cluster_addr [OF assms(1,2)]
    by (simp add: cluster_data_def of_nat_unat)
  then show "r = Some (cluster_data c d) \<or> r = None \<and> \<not> ata_works d" "disk d' = disk d" using same_disk_fields by blast+
  show "same_drive d d'" "fat_table d' = fat_table d" "dirty_clusters d' = dirty_clusters d"
    using s same_disk_fields [of d d'] same_disk_works [of d d'] ata_read_fat [OF assms(3)] by (auto simp: same_drive_def)
qed

lemma write_cluster:
  assumes fits: "data_fits d" and c: "fat_valid_cluster c d" and len: "length buf = unat (clusterSize d)"
    and w: "ata_write_exact (clusterAddr c d) buf d = (ok, d')"
  shows "same_drive d d'" "fat_table d' = fat_table d" "dirty_clusters d' = dirty_clusters d" "ata_works d \<longrightarrow> ok"
    "\<forall>i<unat (noTables d). \<forall>b<unat (tableSize d). sync i b d' = sync i b d"
    "\<forall>x. fat_valid_cluster x d \<longrightarrow> x \<noteq> c \<longrightarrow> cluster_data x d' = cluster_data x d"
    "\<exists>m\<le>length buf. cluster_data c d' = take m buf @ drop m (cluster_data c d) \<and> (ok \<longrightarrow> m = length buf)"
proof -
  let ?S = "unat (clusterSize d)"
  define p where "p = data_base d + (unat c - 2) * ?S"
  have part: "in_partition d p (length buf)" unfolding p_def len by (rule cluster_in_partition [OF fits c])
  have w': "ata_write_exact (of_nat p) buf d = (ok, d')" using w cluster_addr [OF fits c] by (simp add: p_def)
  obtain m where m: "stored (abs_addr d p) buf m d d'" "ok \<longrightarrow> m = length buf"
    "ata_works d \<longrightarrow> p mod 512 = 0 \<longrightarrow> length buf mod 512 = 0 \<longrightarrow> ok"
    using ata_write_exact_spec [OF part w'] by (elim conjE exE)
  note f = stored_fields [OF m(1)]
  have m': "m \<le> length buf" using m(1) by (simp add: stored_def)
  have vol: "same_volume d d'" "fat_table d' = fat_table d" "dirty_clusters d' = dirty_clusters d" using ata_write_fat [OF w] by simp_all
  then show "fat_table d' = fat_table d" "dirty_clusters d' = dirty_clusters d" by simp_all
  show same: "same_drive d d'" using vol f by (simp add: same_drive_def)
  note g = same_drive_fields [OF same]
  note S = cluster_size [OF fits]
  have "p = 512 * (1000 + unat (firstDataSector d) + (unat c - 2) * unat (sectorsPerCluster d))" by (simp add: p_def data_base_def S(1) algebra_simps)
  then show "ata_works d \<longrightarrow> ok" using m(3) len S(1) by simp
  show "\<forall>i<unat (noTables d). \<forall>b<unat (tableSize d). sync i b d' = sync i b d"
  proof (intro allI impI)
    fix i b assume ib: "i < unat (noTables d)" "b < unat (tableSize d)"
    have "(i + 1) * unat (tableSize d) \<le> unat (noTables d) * unat (tableSize d)" using ib by (intro mult_le_mono1) simp
    then have "table_base d + i * unat (tableSize d) + b < p" using ib fits unfolding p_def data_fits_def by simp
    then show "sync i b d' = sync i b d" using f g vol(2) by (simp add: sync_def abs_addr_def write_bytes_outside)
  qed
  have other: "cluster_data x d' = cluster_data x d" if "fat_valid_cluster x d" "x \<noteq> c" for x
  proof -
    have "2 \<le> unat x" "2 \<le> unat c" using that c by (auto simp: fat_valid_cluster_def not_less word_le_nat_alt)
    then have "unat x - 2 \<noteq> unat c - 2" using that(2) by (simp add: word_unat_eq_iff)
    then have "(unat x - 2 + 1) * ?S \<le> (unat c - 2) * ?S \<or> (unat c - 2 + 1) * ?S \<le> (unat x - 2) * ?S"
      by (metis Suc_eq_plus1 Suc_leI linorder_neqE_nat mult_le_mono1)
    then show ?thesis unfolding cluster_data_def g
      by (intro read_bytes_cong) (use f m' len in \<open>auto simp: abs_addr_def p_def intro!: write_bytes_outside\<close>)
  qed
  then show "\<forall>x. fat_valid_cluster x d \<longrightarrow> x \<noteq> c \<longrightarrow> cluster_data x d' = cluster_data x d" by simp
  have "cluster_data c d' = take m buf @ drop m (cluster_data c d)"
    unfolding cluster_data_def g p_def [symmetric]
    by (rule nth_equalityI) (use f m' len in \<open>auto simp: write_bytes_def nth_append\<close>)
  then show "\<exists>m\<le>length buf. cluster_data c d' = take m buf @ drop m (cluster_data c d) \<and> (ok \<longrightarrow> m = length buf)"
    using m(2) m' by blast
qed

end
