(* ===== verification/Fatchain.thy ===== *)
theory Fatchain
  imports Fatdata
begin

text \<open>
  The chains of clusters of \<^verbatim>\<open>src/fat.c\<close>: what \<open>fat_extend_cluster_chain\<close> and
  \<open>fat_shrink_cluster_chain\<close> do to the table, to the clusters of the file and to everything else.
\<close>

section \<open>Chains\<close>

text \<open>
  The clusters of a file, from its first one to the one whose entry marks the end.
\<close>

definition next_of :: "'a fat_t_scheme \<Rightarrow> u16 \<Rightarrow> u16 option" where
  "next_of d c = (if fat_valid_cluster (entry d c) d then Some (entry d c) else None)"

definition chain :: "'a fat_t_scheme \<Rightarrow> u16 list \<Rightarrow> bool" where
  "chain d cs \<longleftrightarrow> cs \<noteq> [] \<and> is_list (next_of d) (Some (hd cs)) cs \<and> (\<forall>c\<in>set cs. fat_valid_cluster c d)
     \<and> entry d (last cs) \<ge> 0xFFF8"

lemma valid_bounds:
  assumes "fat_wf d" "fat_valid_cluster c d"
  shows "unat c < length (fat_table d)" "unat c < unat (noClusters d)" "c \<noteq> 0" "c < 0xFFF7"
    "unat (ucast c :: u32) = unat c" "ucast c < noClusters d" "ucast c < tableSize d div 2"
proof -
  have "unat c < 2 ^ 32" using unsigned_less [of c, where 'a = nat] by simp
  then have u: "unat (ucast c :: u32) = unat c" by (simp add: unsigned_ucast_eq take_bit_nat_eq_self)
  then show "unat (ucast c :: u32) = unat c" .
  have v: "(ucast c :: u32) < noClusters d" "2 \<le> c" "c \<noteq> 0xFFF7" "c < 0xFFF8"
    using assms(2) by (auto simp: fat_valid_cluster_def not_le not_less)
  then show "ucast c < noClusters d" "c \<noteq> 0" by auto
  have n: "unat c < unat (noClusters d)" using v(1) u by (simp add: word_less_nat_alt)
  then show "unat c < unat (noClusters d)" "unat c < length (fat_table d)" using assms(1) by (simp_all add: fat_wf_def)
  then show "ucast c < tableSize d div 2" using assms(1) u by (simp add: fat_wf_def word_less_nat_alt unat_div)
  have "unat (noClusters d) \<le> 0xFFF7" using assms(1) by (simp add: fat_wf_def word_le_nat_alt)
  then show "c < 0xFFF7" using n by (simp add: word_less_nat_alt)
qed

lemma update_ok:
  assumes "fat_wf d" "fat_valid_cluster c d"
  shows "fat_table_update_cluster (ucast c) v d
    = (True, d\<lparr> dirty_clusters := (dirty_clusters d)[unat c := True], fat_table := (fat_table d)[unat c := v] \<rparr>)"
  using valid_bounds [OF assms] by (simp add: fat_table_update_cluster_def not_le)

lemma entry_update: "unat c < length (fat_table d) \<Longrightarrow> entry (d\<lparr> dirty_clusters := D, fat_table := (fat_table d)[unat c := v] \<rparr>) x = (if x = c then v else entry d x)"
  by (auto simp: entry_def nth_list_update word_unat_eq_iff)

lemma update_volume: "same_volume d (d\<lparr> dirty_clusters := (dirty_clusters d)[i := True], fat_table := (fat_table d)[j := v] \<rparr>)"
  by (simp add: same_volume_def)

text \<open>The effect of a table update on the links between clusters.\<close>

lemma update_step:
  assumes "fat_wf d" "fat_valid_cluster c d" "fat_table_update_cluster (ucast c) v d = (ok, d1)"
  shows "ok" "same_volume d d1" "\<And>x. entry d1 x = (if x = c then v else entry d x)"
    "next_of d1 = (next_of d)(c := (if fat_valid_cluster v d then Some v else None))" "disk d1 = disk d"
    "same_drive d d1" "volume_fits d \<longrightarrow> coherent d \<longrightarrow> coherent d1"
proof -
  have d1: "ok" "d1 = d\<lparr> dirty_clusters := (dirty_clusters d)[unat c := True], fat_table := (fat_table d)[unat c := v] \<rparr>"
    using assms(3) update_ok [OF assms(1,2)] by auto
  then show "ok" "disk d1 = disk d" by simp_all
  show v: "same_volume d d1" using d1 update_volume by simp
  then show "same_drive d d1" by (simp add: d1 same_drive_def ata_works_def)
  show "volume_fits d \<longrightarrow> coherent d \<longrightarrow> coherent d1" using update_coherent [OF _ _ assms(3)] by blast
  show e: "\<And>x. entry d1 x = (if x = c then v else entry d x)"
    unfolding d1(2) using entry_update valid_bounds(1) [OF assms(1,2)] by blast
  show "next_of d1 = (next_of d)(c := (if fat_valid_cluster v d then Some v else None))"
    using e same_volume_valid [OF v] by (auto simp: next_of_def fun_eq_iff)
qed

lemma free_chain_spec:
  assumes "fat_wf d" "\<forall>c\<in>set cs. fat_valid_cluster c d" "is_list (next_of d) (if fat_valid_cluster cur d then Some cur else None) cs"
  shows "\<exists>mn' mx' d'. free_chain cur mn mx freed ok d = Some (mn', mx', freed + length cs, ok, d') \<and> same_drive d d'
    \<and> disk d' = disk d \<and> (volume_fits d \<longrightarrow> coherent d \<longrightarrow> coherent d') \<and> mn' \<le> mn \<and> mx \<le> mx' \<and> (\<forall>c\<in>set cs. mn' \<le> ucast c \<and> ucast c \<le> mx') \<and> (\<forall>x. entry d' x = (if x \<in> set cs then 0 else entry d x))"
  using assms
proof (induction cs arbitrary: cur mn mx freed d)
  case Nil
  then have "\<not> fat_valid_cluster cur d" by (auto split: if_splits)
  then show ?case by (subst free_chain.simps) simp
next
  case (Cons c cs)
  then have cur: "fat_valid_cluster cur d" "cur = c" by (auto split: if_splits)
  have nx: "is_list (next_of d) (next_of d c) cs" using Cons.prems(3) cur by simp
  have c: "c \<notin> set cs" using is_list_distinct [OF Cons.prems(3)] by simp
  obtain w d1 where w: "fat_table_update_cluster (ucast c) 0 d = (w, d1)" by fastforce
  have "fat_valid_cluster c d" using cur by simp
  note s = update_step [OF Cons.prems(1) this w]
  define mn1 mx1 where "mn1 = (if ucast c < mn then ucast c else mn)" and "mx1 = (if ucast c > mx then ucast c else mx)"
  have run: "free_chain cur mn mx freed ok d = free_chain (entry d c) mn1 mx1 (freed + 1) ok d1"
    using cur w s(1) by (subst free_chain.simps) (simp add: mn1_def mx1_def)
  have "is_list (next_of d1) (next_of d c) cs" using nx c unfolding s(4) by simp
  then have nx1: "is_list (next_of d1) (if fat_valid_cluster (entry d c) d1 then Some (entry d c) else None) cs"
    using same_volume_valid [OF s(2)] by (simp add: next_of_def)
  have "fat_wf d1" "\<forall>c\<in>set cs. fat_valid_cluster c d1"
    using Cons.prems(1,2) same_volume_wf [OF s(2)] same_volume_valid [OF s(2)] by simp_all
  from Cons.IH [OF this nx1, of mn1 mx1 "freed + 1"] obtain mn' mx' d' where
    r: "free_chain (entry d c) mn1 mx1 (freed + 1) ok d1 = Some (mn', mx', freed + 1 + length cs, ok, d')"
    "same_drive d1 d'" "disk d' = disk d1" "\<forall>x. entry d' x = (if x \<in> set cs then 0 else entry d1 x)"
    "volume_fits d1 \<longrightarrow> coherent d1 \<longrightarrow> coherent d'" "mn' \<le> mn1" "mx1 \<le> mx'" "\<forall>c\<in>set cs. mn' \<le> ucast c \<and> ucast c \<le> mx'" by blast
  have coh: "volume_fits d \<longrightarrow> coherent d \<longrightarrow> coherent d'" using r(5) s(7) same_drive_fields(2) [OF s(6)] by simp
  have "mn1 \<le> mn" "mn1 \<le> ucast c" "mx \<le> mx1" "ucast c \<le> mx1" by (auto simp: mn1_def mx1_def)
  then have "mn' \<le> mn" "mx \<le> mx'" "\<forall>x\<in>set (c # cs). mn' \<le> ucast x \<and> ucast x \<le> mx'" using r(6-8) by auto
  then show ?case using run r(1-4) coh s(3,5) same_drive_trans [OF s(6)] by (intro exI [of _ mn'] exI [of _ mx'] exI [of _ d']) auto
qed

text \<open>Two tables of the same volume that agree on every entry are equal.\<close>

lemma table_eqI:
  assumes "same_volume d d'" "fat_wf d" "unat (tableSize d) \<le> 2 ^ 17" "\<And>x. entry d' x = entry d x"
  shows "fat_table d' = fat_table d"
proof (rule nth_equalityI)
  show "length (fat_table d') = length (fat_table d)" using assms(1) by (simp add: same_volume_def)
  fix i assume "i < length (fat_table d')"
  then have "i < 2 ^ 16" using assms by (simp add: same_volume_def fat_wf_def)
  then have "unat (of_nat i :: u16) = i" by (simp add: unsigned_of_nat take_bit_nat_eq_self)
  then show "fat_table d' ! i = fat_table d ! i" using assms(4) [of "of_nat i"] by (simp add: entry_def)
qed

lemma chain_follow:
  assumes "is_list (next_of d) (Some c) cs"
  shows "follow n c d = cs ! min n (length cs - 1)"
  using assms
proof (induction n arbitrary: c cs)
  case 0
  then show ?case by (auto simp: is_list_Some)
next
  case (Suc n)
  then obtain ys where cs: "cs = c # ys" "is_list (next_of d) (next_of d c) ys" by (auto simp: is_list_Some)
  show ?case
  proof (cases "fat_valid_cluster (entry d c) d")
    case True
    then have nx: "is_list (next_of d) (Some (entry d c)) ys" using cs(2) by (simp add: next_of_def)
    show ?thesis using Suc.IH [OF nx] nx True cs(1) by (cases ys) auto
  next
    case False
    then show ?thesis using cs by (simp add: next_of_def)
  qed
qed

lemma chain_last: "chain d cs \<Longrightarrow> follow (length cs - 1) (hd cs) d = last cs"
  using chain_follow [of d "hd cs" cs "length cs - 1"] by (simp add: chain_def last_conv_nth)

lemma end_mark_invalid: "v \<ge> 0xFFF8 \<Longrightarrow> \<not> fat_valid_cluster v d"
  by (simp add: fat_valid_cluster_def)

lemma chain_entry_nonzero:
  assumes "chain d cs" "c \<in> set cs"
  shows "entry d c \<noteq> 0"
proof (cases "c = last cs")
  case True
  then show ?thesis using assms(1) by (auto simp: chain_def)
next
  case False
  obtain us vs where cs: "cs = us @ c # vs" using assms(2) by (meson split_list)
  then have "vs \<noteq> []" using False by auto
  moreover have "is_list (next_of d) (next_of d c) vs"
    using assms(1) is_list_append [of "next_of d" "Some (hd cs)" us c vs] cs by (simp add: chain_def)
  ultimately have "fat_valid_cluster (entry d c) d" by (cases vs) (auto simp: next_of_def split: if_splits)
  then show ?thesis by (auto simp: fat_valid_cluster_def)
qed

subsection \<open>Growing a chain\<close>

text \<open>
  While \<open>fat_extend_cluster_chain\<close> runs, the chain is the old one followed by clusters that were free;
  nothing else in the table has changed.
\<close>

definition grown :: "'a fat_t_scheme \<Rightarrow> u16 list \<Rightarrow> u16 list \<Rightarrow> 'a fat_t_scheme \<Rightarrow> bool" where
  "grown d0 cs new d \<longleftrightarrow> same_drive d0 d \<and> chain d (cs @ new) \<and> (\<forall>c\<in>set new. entry d0 c = 0)
     \<and> (\<forall>x. x \<notin> set new \<longrightarrow> x \<noteq> last cs \<or> new = [] \<longrightarrow> entry d x = entry d0 x)"

lemma grown_0: "chain d0 cs \<Longrightarrow> grown d0 cs [] d0"
  by (simp add: grown_def)

lemma grown_cong:
  assumes "grown d0 cs new d" "same_drive d d'" "fat_table d' = fat_table d"
  shows "grown d0 cs new d'"
proof -
  have e: "entry d' = entry d" using assms(3) by (simp add: entry_def fun_eq_iff)
  then have "next_of d' = next_of d" using same_drive_fields(13) [OF assms(2)] by (simp add: next_of_def fun_eq_iff)
  then have "chain d' (cs @ new) = chain d (cs @ new)" using e same_drive_fields(13) [OF assms(2)] by (simp add: chain_def)
  then show ?thesis using assms(1) e same_drive_trans [OF _ assms(2)] by (simp add: grown_def)
qed

lemma grown_append:
  assumes wf: "fat_wf d" and g: "grown d0 cs new d" "cs \<noteq> []" and f: "fat_valid_cluster f d" "entry d f = 0"
    and u: "fat_table_update_cluster (ucast f) 0xFFFF d = (ok1, d1)" "fat_table_update_cluster (ucast (last (cs @ new))) f d1 = (ok2, d2)"
  shows "ok1" "ok2" "grown d0 cs (new @ [f]) d2" "fat_wf d2" "same_drive d d2" "disk d2 = disk d" "volume_fits d \<longrightarrow> coherent d \<longrightarrow> coherent d2"
proof -
  let ?l = "last (cs @ new)"
  have ch: "chain d (cs @ new)" using g by (simp add: grown_def)
  have fresh: "f \<notin> set (cs @ new)" using chain_entry_nonzero [OF ch] f(2) by blast
  have l: "?l \<in> set (cs @ new)" using g(2) by (intro last_in_set) simp
  then have vl: "fat_valid_cluster ?l d" using ch by (simp add: chain_def)
  note s1 = update_step [OF wf f(1) u(1)]
  have wf1: "fat_wf d1" using wf same_volume_wf [OF s1(2)] by simp
  have v1: "fat_valid_cluster ?l d1" "fat_valid_cluster f d1" using vl f(1) same_volume_valid [OF s1(2)] by simp_all
  note s2 = update_step [OF wf1 v1(1) u(2)]
  show "ok1" "ok2" by (rule s1(1), rule s2(1))
  have vol: "same_volume d d2" using same_volume_trans [OF s1(2) s2(2)] .
  show "fat_wf d2" using wf same_volume_wf [OF vol] by simp
  show drv: "same_drive d d2" using same_drive_trans [OF s1(6) s2(6)] .
  show "disk d2 = disk d" using s1(5) s2(5) by simp
  show "volume_fits d \<longrightarrow> coherent d \<longrightarrow> coherent d2" using s1(7) s2(7) same_drive_fields(2) [OF s1(6)] by simp
  have nx: "next_of d2 = ((next_of d)(f := None))(?l := Some f)"
    using s1(4) s2(4) v1(2) by (simp add: end_mark_invalid)
  have "is_list ((next_of d)(f := None)) (Some (hd (cs @ new))) (cs @ new)" using ch fresh by (simp add: chain_def)
  from is_list_snoc [OF this _ fresh] have "is_list (next_of d2) (Some (hd (cs @ new))) ((cs @ new) @ [f])"
    using nx g(2) by simp
  moreover have e: "entry d2 x = (if x = ?l then f else if x = f then 0xFFFF else entry d x)" for x
    using s1(3) s2(3) by simp
  ultimately have "chain d2 (cs @ new @ [f])"
    using ch f(1) fresh g(2) l same_volume_valid [OF vol] by (auto simp: chain_def)
  moreover have "entry d0 f = 0"
  proof -
    have "f \<noteq> last cs" using fresh g(2) by auto
    then show ?thesis using g(1) f(2) fresh by (auto simp: grown_def)
  qed
  moreover have "entry d2 x = entry d0 x" if "x \<notin> set (new @ [f])" "x \<noteq> last cs" for x
  proof -
    have "x \<noteq> ?l" using that by (cases "new = []") auto
    then show ?thesis using e [of x] that g(1) by (auto simp: grown_def)
  qed
  ultimately show "grown d0 cs (new @ [f]) d2"
    using g(1) same_drive_trans [OF _ drv] by (auto simp: grown_def)
qed

text \<open>The free clusters from \<open>f\<close> on.\<close>

definition frees :: "nat \<Rightarrow> 'a fat_t_scheme \<Rightarrow> nat" where
  "frees f d = length (filter (\<lambda>i. fat_table d ! i = 0) [f..<unat (noClusters d)])"

lemma frees_step: "f < unat (noClusters d) \<Longrightarrow> frees f d = (if fat_table d ! f = 0 then 1 else 0) + frees (Suc f) d"
  by (simp add: frees_def upt_conv_Cons)

lemma find_free_spec:
  assumes "fat_wf d" "2 \<le> unat f" "unat f \<le> unat (noClusters d)"
  shows "\<exists>g. find_free f d = Some g \<and> unat f \<le> unat g \<and> unat g \<le> unat (noClusters d)
    \<and> (unat g < unat (noClusters d) \<longrightarrow> entry d g = 0 \<and> fat_valid_cluster g d)
    \<and> (0 < frees (unat f) d \<longrightarrow> unat g < unat (noClusters d) \<and> frees (unat f) d = Suc (frees (Suc (unat g)) d))"
  using assms(2,3)
proof (induction "unat (noClusters d) - unat f" arbitrary: f rule: less_induct)
  case less
  have n: "unat (noClusters d) \<le> 0xFFF7" using assms(1) by (simp add: fat_wf_def word_le_nat_alt)
  have "unat f < 2 ^ 32" using unsigned_less [of f, where 'a = nat] by simp
  then have u: "unat (ucast f :: u32) = unat f" by (simp add: unsigned_ucast_eq take_bit_nat_eq_self)
  show ?case
  proof (cases "unat f < unat (noClusters d) \<and> entry d f \<noteq> 0")
    case True
    have run: "find_free f d = find_free (f + 1) d" using u True by (subst find_free.simps) (simp add: word_less_nat_alt)
    have f1: "unat (f + 1) = Suc (unat f)" using True n by (simp add: unat_word_ariths)
    have lt: "unat (noClusters d) - unat (f + 1) < unat (noClusters d) - unat f" unfolding f1 using True by linarith
    have same: "frees (unat f) d = frees (Suc (unat f)) d" using frees_step [of "unat f" d] True by (simp add: entry_def)
    have "2 \<le> unat (f + 1)" "unat (f + 1) \<le> unat (noClusters d)" using less.prems True f1 by simp_all
    from less.hyps [OF lt this] obtain g where g: "find_free (f + 1) d = Some g" "Suc (unat f) \<le> unat g" "unat g \<le> unat (noClusters d)"
      "unat g < unat (noClusters d) \<longrightarrow> entry d g = 0 \<and> fat_valid_cluster g d"
      "0 < frees (Suc (unat f)) d \<longrightarrow> unat g < unat (noClusters d) \<and> frees (Suc (unat f)) d = Suc (frees (Suc (unat g)) d)"
      unfolding f1 by (elim exE conjE)
    then show ?thesis unfolding run same using Suc_leD [OF g(2)] by (intro exI [of _ g] conjI)
  next
    case False
    then have run: "find_free f d = Some f" using u by (subst find_free.simps) (auto simp: word_less_nat_alt)
    have "fat_valid_cluster f d" if "unat f < unat (noClusters d)"
      using that less.prems(1) n u by (auto simp: fat_valid_cluster_def word_less_nat_alt word_le_nat_alt)
    moreover have "unat f < unat (noClusters d) \<and> frees (unat f) d = Suc (frees (Suc (unat f)) d)" if "0 < frees (unat f) d"
    proof -
      have "unat f < unat (noClusters d)" using that by (cases "unat f < unat (noClusters d)") (auto simp: frees_def)
      then show ?thesis using frees_step [of "unat f" d] False by (simp add: entry_def)
    qed
    ultimately show ?thesis using run False less.prems by auto
  qed
qed

lemma unwind_restores:
  assumes wf: "fat_wf d0" and ch: "chain d0 cs" and g: "grown d0 cs new d" and sz: "unat (tableSize d0) \<le> 2 ^ 17"
  shows "\<exists>d'. fat_unwind_chain (last cs) (entry d0 (last cs)) d = Some d' \<and> same_drive d0 d' \<and> fat_table d' = fat_table d0 \<and> disk d' = disk d
    \<and> (volume_fits d \<longrightarrow> coherent d \<longrightarrow> coherent d')"
proof (cases "new = []")
  case True
  have drv: "same_drive d0 d" using g by (simp add: grown_def)
  note vol = same_drive_fields(15) [OF drv]
  have "entry d x = entry d0 x" for x using g True by (simp add: grown_def)
  then show ?thesis using table_eqI [OF vol wf sz] drv by (simp add: fat_unwind_chain_def Let_def)
next
  case False
  have drv: "same_drive d0 d" and chd: "chain d (cs @ new)" using g by (simp_all add: grown_def)
  note vol = same_drive_fields(15) [OF drv]
  have cs: "cs \<noteq> []" using ch by (simp add: chain_def)
  have wfd: "fat_wf d" using wf same_volume_wf [OF vol] by simp
  have vl: "fat_valid_cluster (last cs) d" using chd cs by (auto simp: chain_def)
  have "is_list (next_of d) (next_of d (last cs)) new"
    using is_list_split [of "next_of d" "Some (hd (cs @ new))" cs new] chd cs by (simp add: chain_def)
  then have nx: "next_of d (last cs) = Some (hd new)" "is_list (next_of d) (Some (hd new)) new" using False by (cases new; auto)+
  then have hd: "entry d (last cs) = hd new" "fat_valid_cluster (hd new) d" by (auto simp: next_of_def split: if_splits)
  have eoc: "entry d0 (last cs) \<ge> 0xFFF8" using ch by (simp add: chain_def)
  then have ne: "hd new \<noteq> entry d0 (last cs)" using hd(2) end_mark_invalid by metis
  obtain w d1 where w: "fat_table_update_cluster (ucast (last cs)) (entry d0 (last cs)) d = (w, d1)" by fastforce
  note s = update_step [OF wfd vl w]
  have "distinct (cs @ new)" using is_list_distinct chd unfolding chain_def by blast
  then have dist: "last cs \<notin> set new" using last_in_set [OF cs] by auto
  have "is_list (next_of d1) (Some (hd new)) new" using nx(2) dist unfolding s(4) by simp
  moreover have v1: "fat_valid_cluster x d1 = fat_valid_cluster x d" for x using same_volume_valid [OF s(2)] by simp
  ultimately have "is_list (next_of d1) (if fat_valid_cluster (hd new) d1 then Some (hd new) else None) new" using hd(2) by simp
  moreover have "fat_wf d1" "\<forall>c\<in>set new. fat_valid_cluster c d1"
    using wfd same_volume_wf [OF s(2)] chd v1 by (simp_all add: chain_def)
  ultimately obtain mn mx d' where r: "free_chain (hd new) 0 0 0 True d1 = Some (mn, mx, 0 + length new, True, d')" "same_drive d1 d'"
    "\<forall>x. entry d' x = (if x \<in> set new then 0 else entry d1 x)" "disk d' = disk d1" "volume_fits d1 \<longrightarrow> coherent d1 \<longrightarrow> coherent d'"
    using free_chain_spec [of d1 new "hd new" 0 0 0 True] by blast
  have drv': "same_drive d0 d'" using same_drive_trans [OF same_drive_trans [OF drv s(6)] r(2)] .
  note vol' = same_drive_fields(15) [OF drv']
  have "entry d' x = entry d0 x" for x
    using r(3) s(3) g by (cases "x = last cs") (auto simp: grown_def dist)
  then have "fat_table d' = fat_table d0" using table_eqI [OF vol' wf sz] by blast
  moreover have "fat_unwind_chain (last cs) (entry d0 (last cs)) d = Some d'"
    using vl hd ne w r(1) by (simp add: fat_unwind_chain_def Let_def)
  moreover have "volume_fits d \<longrightarrow> coherent d \<longrightarrow> coherent d'" using s(7) r(5) same_drive_fields(2) [OF s(6)] by simp
  ultimately show ?thesis using drv' r(4) s(5) by simp
qed


lemma cluster_data_disk: "same_drive d d' \<Longrightarrow> disk d' = disk d \<Longrightarrow> cluster_data c d' = cluster_data c d"
  using same_drive_fields [of d d'] by (simp add: cluster_data_def)

lemma malloc_frame:
  fixes d :: "'a fat_t_scheme"
  assumes "buf_malloc d = (ok, d')"
  shows "same_drive d d'" "fat_table d' = fat_table d" "disk d' = disk d" "coherent d' = coherent d" "dirty_clusters d' = dirty_clusters d"
proof -
  have d': "d' = d\<lparr> heap_ops := heap_ops d + 1 \<rparr>" using assms by (simp add: buf_malloc_def)
  show "same_drive d d'" "fat_table d' = fat_table d" "disk d' = disk d" "dirty_clusters d' = dirty_clusters d" "coherent d' = coherent d"
    unfolding d' by (simp_all add: same_drive_def same_volume_def ata_works_def coherent_def sync_def table_base_def abs_addr_def)
qed

text \<open>
  While the loop runs, the clusters that were in use keep their bytes and the new ones hold zeros.
\<close>

definition zeroed :: "'a fat_t_scheme \<Rightarrow> u16 list \<Rightarrow> 'a fat_t_scheme \<Rightarrow> bool" where
  "zeroed d0 new d \<longleftrightarrow> coherent d \<and> (\<forall>x. fat_valid_cluster x d0 \<longrightarrow> entry d0 x \<noteq> 0 \<longrightarrow> cluster_data x d = cluster_data x d0)
     \<and> (\<forall>c\<in>set new. cluster_data c d = replicate (unat (clusterSize d0)) 0)"

lemma zeroed_disk:
  assumes "zeroed d0 new d" "same_drive d d'" "disk d' = disk d" "coherent d'"
  shows "zeroed d0 new d'"
  using assms cluster_data_disk [OF assms(2,3)] by (simp add: zeroed_def)

lemma coherent_cong:
  assumes "coherent d" "same_drive d d'" "dirty_clusters d' = dirty_clusters d"
    and "\<forall>i<unat (noTables d). \<forall>b<unat (tableSize d). sync i b d' = sync i b d"
  shows "coherent d'"
  using assms same_drive_fields [OF assms(2)] by (simp add: coherent_def)

lemma chain_grown_used: "chain d0 cs \<Longrightarrow> grown d0 cs new d \<Longrightarrow> c \<in> set cs \<Longrightarrow> c \<notin> set new"
  using chain_entry_nonzero by (fastforce simp: grown_def)

text \<open>Zeroing a free cluster and hanging it at the end of the chain.\<close>

lemma extend_step:
  assumes fits: "data_fits d0" and ch: "chain d0 cs" and g: "grown d0 cs new d" and z: "zeroed d0 new d"
    and f: "fat_valid_cluster f d" "entry d f = 0"
    and w: "ata_write_exact (clusterAddr f d) (replicate (unat (clusterSize d)) 0) d = (w, d1)"
    and u: "fat_table_update_cluster (ucast f) 0xFFFF d1 = (ok1, d2)" "fat_table_update_cluster (ucast (last (cs @ new))) f d2 = (ok2, d3)"
  shows "ata_works d0 \<longrightarrow> w" "grown d0 cs new d1" "zeroed d0 new d1" "ok1" "ok2" "grown d0 cs (new @ [f]) d3" "w \<Longrightarrow> zeroed d0 (new @ [f]) d3"
    "frees (Suc (unat f)) d3 = frees (Suc (unat f)) d"
proof -
  have drv: "same_drive d0 d" and chd: "chain d (cs @ new)" using g by (simp_all add: grown_def)
  note e = same_drive_fields [OF drv]
  have cs: "cs \<noteq> []" using ch by (simp add: chain_def)
  have fd: "data_fits d" using fits e by simp
  note wf = data_fits_wf(2) [OF fd] data_fits_wf(1) [OF fd]
  note c = write_cluster [OF fd f(1) _ w, simplified]
  show "ata_works d0 \<longrightarrow> w" using c(4) e by simp
  show g1: "grown d0 cs new d1" by (rule grown_cong [OF g c(1,2)])
  have used: "f \<notin> set (cs @ new)" using chain_entry_nonzero [OF chd] f(2) by blast
  have f0: "entry d0 f = 0"
  proof -
    have "f \<noteq> last cs" using used cs by auto
    then show ?thesis using g f(2) used by (auto simp: grown_def)
  qed
  have coh1: "coherent d1" using coherent_cong [OF _ c(1,3,5)] z by (simp add: zeroed_def)
  have vnew: "\<forall>x\<in>set new. fat_valid_cluster x d" using chd by (simp add: chain_def)
  have keep: "cluster_data x d1 = cluster_data x d0" if "fat_valid_cluster x d0" "entry d0 x \<noteq> 0" for x
  proof -
    have "x \<noteq> f" "fat_valid_cluster x d" using that f0 e(13) by auto
    then have "cluster_data x d1 = cluster_data x d" using c(6) by simp
    then show ?thesis using z that by (simp add: zeroed_def)
  qed
  have zn: "cluster_data x d1 = replicate (unat (clusterSize d0)) 0" if "x \<in> set new" for x
  proof -
    have "x \<noteq> f" "fat_valid_cluster x d" using that used vnew by auto
    then have "cluster_data x d1 = cluster_data x d" using c(6) by simp
    then show ?thesis using z that by (simp add: zeroed_def)
  qed
  show z1: "zeroed d0 new d1" using coh1 keep zn by (simp add: zeroed_def)
  have e1: "fat_wf d1" "fat_valid_cluster f d1" "entry d1 f = 0" "volume_fits d1"
    using wf f same_drive_fields [OF c(1)] c(2) by (simp_all add: entry_def)
  note a = grown_append [OF e1(1) g1 cs e1(2,3) u]
  show "ok1" "ok2" "grown d0 cs (new @ [f]) d3" by (rule a(1), rule a(2), rule a(3))
  have coh3: "coherent d3" using a(7) e1(4) coh1 by simp
  show "zeroed d0 (new @ [f]) d3" if w
  proof -
    have "cluster_data f d1 = replicate (unat (clusterSize d0)) 0" using c(7) that e(10) by auto
    then have "zeroed d0 (new @ [f]) d1" using z1 by (auto simp: zeroed_def)
    then show ?thesis by (rule zeroed_disk [OF _ a(5,6) coh3])
  qed
  have ee: "entry d3 x = 0 \<longleftrightarrow> entry d x = 0" if "x \<noteq> f" for x
  proof -
    have l: "last (cs @ new) \<in> set (cs @ new)" using cs by (intro last_in_set) simp
    have vl: "fat_valid_cluster (last (cs @ new)) d" using chd l by (simp add: chain_def)
    note v12 = update_step(2) [OF e1(1,2) u(1)]
    have s2: "fat_wf d2" "fat_valid_cluster (last (cs @ new)) d2"
      using e1(1) same_volume_wf [OF v12] vl same_volume_valid [OF v12] same_drive_fields(13) [OF c(1)] by simp_all
    have "entry d3 x = (if x = last (cs @ new) then f else entry d1 x)"
      using update_step(3) [OF e1(1,2) u(1)] update_step(3) [OF s2 u(2)] that by simp
    moreover have "f \<noteq> 0" using f(1) by (auto simp: fat_valid_cluster_def)
    ultimately show ?thesis using chain_entry_nonzero [OF chd l] c(2) by (auto simp: entry_def)
  qed
  have len: "noClusters d3 = noClusters d" using same_drive_fields(9) [OF c(1)] same_drive_fields(9) [OF a(5)] by simp
  have nc: "unat (noClusters d) \<le> 0xFFF7" using wf by (simp add: fat_wf_def word_le_nat_alt)
  have "fat_table d3 ! i = 0 \<longleftrightarrow> fat_table d ! i = 0" if "Suc (unat f) \<le> i" "i < unat (noClusters d)" for i
  proof -
    have i: "unat (of_nat i :: u16) = i" using that nc by (simp add: unsigned_of_nat take_bit_nat_eq_self)
    then have "(of_nat i :: u16) \<noteq> f" using that by auto
    then show ?thesis using ee [of "of_nat i"] i by (simp add: entry_def)
  qed
  then show "frees (Suc (unat f)) d3 = frees (Suc (unat f)) d"
    unfolding frees_def len by (intro arg_cong [of _ _ length] filter_cong) auto
qed


text \<open>The range of entries that the loop has touched.\<close>

definition covered :: "int \<Rightarrow> int \<Rightarrow> u16 list \<Rightarrow> bool" where
  "covered mn mx cs \<longleftrightarrow> (\<forall>c\<in>set cs. mn \<le> uint c \<and> uint c \<le> mx)"

lemma extend_loop_spec:
  assumes fits: "data_fits d0" and ch: "chain d0 cs" and sz: "unat (tableSize d0) \<le> 2 ^ 17"
    and "grown d0 cs new d" "zeroed d0 new d" "2 \<le> unat from0" "unat from0 \<le> unat (noClusters d0)" "allocated = length new"
    and "covered mn mx (last cs # new)" "0 \<le> mn" "mx < 2 ^ 16"
  shows "\<exists>mn' mx' alloc' ok d'. extend_loop n (last cs) (entry d0 (last cs)) from0 (last (cs @ new)) allocated mn mx d = Some (mn', mx', alloc', ok, d')
    \<and> (if ok then \<exists>new'. grown d0 cs new' d' \<and> zeroed d0 new' d' \<and> length new' = length new + n \<and> alloc' = length new'
              \<and> covered mn' mx' (last cs # new') \<and> 0 \<le> mn' \<and> mx' < 2 ^ 16
       else same_drive d0 d' \<and> fat_table d' = fat_table d0 \<and> zeroed d0 [] d')
    \<and> (ata_works d0 \<longrightarrow> n \<le> frees (unat from0) d \<longrightarrow> ok)"
  using assms(4-11)
proof (induction n arbitrary: new d from0 allocated mn mx)
  case 0
  then show ?case by auto
next
  case (Suc n)
  have drv: "same_drive d0 d" using Suc.prems(1) by (simp add: grown_def)
  note e = same_drive_fields [OF drv]
  have cs: "cs \<noteq> []" using ch by (simp add: chain_def)
  note wf = data_fits_wf [OF fits]
  have wfd: "fat_wf d" using wf(2) e by simp
  have unw: "\<exists>d'. fat_unwind_chain (last cs) (entry d0 (last cs)) x = Some d' \<and> same_drive d0 d' \<and> fat_table d' = fat_table d0 \<and> zeroed d0 [] d'"
    if gx: "grown d0 cs new x" and zx: "zeroed d0 new x" for x
  proof -
    obtain d' where d': "fat_unwind_chain (last cs) (entry d0 (last cs)) x = Some d'" "same_drive d0 d'" "fat_table d' = fat_table d0"
      "disk d' = disk x" "volume_fits x \<longrightarrow> coherent x \<longrightarrow> coherent d'" using unwind_restores [OF wf(2) ch gx sz] by blast
    have "same_drive d0 x" using gx by (simp add: grown_def)
    then have "coherent d'" "\<And>c. cluster_data c d' = cluster_data c x"
      using d' wf(1) zx same_drive_fields [OF \<open>same_drive d0 x\<close>] same_drive_fields [OF d'(2)] by (auto simp: zeroed_def cluster_data_def)
    then show ?thesis using d'(1-3) zx by (auto simp: zeroed_def)
  qed
  obtain g where g: "find_free from0 d = Some g" "unat from0 \<le> unat g" "unat g \<le> unat (noClusters d)"
    "unat g < unat (noClusters d) \<longrightarrow> entry d g = 0 \<and> fat_valid_cluster g d"
    "0 < frees (unat from0) d \<longrightarrow> unat g < unat (noClusters d) \<and> frees (unat from0) d = Suc (frees (Suc (unat g)) d)"
    using find_free_spec [OF wfd] Suc.prems(3,4) e by metis
  have ug: "unat (ucast g :: u32) = unat g"
    using unsigned_less [of g, where 'a = nat] by (simp add: unsigned_ucast_eq take_bit_nat_eq_self)
  show ?case
  proof (cases "unat g < unat (noClusters d)")
    case False
    then have "noClusters d \<le> ucast g" using ug by (simp add: word_le_nat_alt)
    moreover obtain x where "fat_unwind_chain (last cs) (entry d0 (last cs)) d = Some x" "same_drive d0 x" "fat_table x = fat_table d0" "zeroed d0 [] x"
      using unw [OF Suc.prems(1,2)] by blast
    ultimately show ?thesis using g(1,5) False by auto
  next
    case True
    then have lt: "\<not> noClusters d \<le> ucast g" using ug by (simp add: word_le_nat_alt)
    have f: "fat_valid_cluster g d" "entry d g = 0" using g(4) True by simp_all
    define mn1 mx1 where "mn1 = (if uint g < mn then uint g else mn)" and "mx1 = (if uint g > mx then uint g else mx)"
    obtain w d1 where w: "ata_write_exact (clusterAddr g d) (replicate (unat (clusterSize d)) 0) d = (w, d1)" by fastforce
    obtain ok1 d2 where u1: "fat_table_update_cluster (ucast g) 0xFFFF d1 = (ok1, d2)" by fastforce
    obtain ok2 d3 where u2: "fat_table_update_cluster (ucast (last (cs @ new))) g d2 = (ok2, d3)" by fastforce
    note st = extend_step [OF fits ch Suc.prems(1,2) f w u1 u2]
    show ?thesis
    proof (cases w)
      case False
      moreover obtain x where "fat_unwind_chain (last cs) (entry d0 (last cs)) d1 = Some x" "same_drive d0 x" "fat_table x = fat_table d0" "zeroed d0 [] x"
        using unw [OF st(2,3)] by blast
      ultimately show ?thesis using g(1) lt w st(1) by (auto simp: Let_def)
    next
      case w': True
      have "unat (g + 1) = unat g + 1" using True wfd by (simp add: unat_word_ariths fat_wf_def word_le_nat_alt)
      then have from1: "2 \<le> unat (g + 1)" "unat (g + 1) \<le> unat (noClusters d0)" "unat (g + 1) = Suc (unat g)"
        using True g(2) Suc.prems(3) e by simp_all
      have run: "extend_loop (Suc n) (last cs) (entry d0 (last cs)) from0 (last (cs @ new)) allocated mn mx d
          = extend_loop n (last cs) (entry d0 (last cs)) (g + 1) (last (cs @ new @ [g])) (allocated + 1) mn1 mx1 d3"
        using g(1) lt w w' u1 u2 st(4,5) by (simp add: Let_def mn1_def mx1_def)
      have len: "length (new @ [g]) + n = length new + Suc n" "allocated + 1 = length (new @ [g])" using Suc.prems(5) by simp_all
      have "uint g < 2 ^ 16" using unsigned_less [of g, where 'a = int] by simp
      then have rng: "covered mn1 mx1 (last cs # new @ [g])" "0 \<le> mn1" "mx1 < 2 ^ 16" using Suc.prems(6-8) by (auto simp: covered_def mn1_def mx1_def)
      have "n \<le> frees (unat (g + 1)) d3" if "Suc n \<le> frees (unat from0) d" using that g(5) st(8) from1(3) by simp
      then show ?thesis unfolding run using Suc.IH [OF st(6) st(7) [OF w'] from1(1,2) len(2) rng] unfolding len(1) by blast
    qed
  qed
qed


subsection \<open>The end of the last cluster\<close>

text \<open>The bytes of a file of size \<open>n\<close> in its last cluster, and the clusters it has.\<close>

definition tail_bytes :: "nat \<Rightarrow> nat \<Rightarrow> nat" where
  "tail_bytes S n = (if n = 0 then 0 else if n mod S = 0 then S else n mod S)"

definition clusters_for :: "nat \<Rightarrow> nat \<Rightarrow> nat" where
  "clusters_for S n = max 1 ((n + S - 1) div S)"

lemma tail_bytes_split:
  assumes "0 < S"
  shows "n = (clusters_for S n - 1) * S + tail_bytes S n" "tail_bytes S n \<le> S"
proof -
  show "tail_bytes S n \<le> S" using assms by (simp add: tail_bytes_def less_imp_le)
  show "n = (clusters_for S n - 1) * S + tail_bytes S n"
  proof (cases "n = 0")
    case False
    define q r where "q = n div S" and "r = n mod S"
    have n: "n = q * S + r" "r < S" using assms by (simp_all add: q_def r_def)
    show ?thesis
    proof (cases "r = 0")
      case True
      then obtain p where p: "q = Suc p" using n False by (cases q) auto
      have "(n + S - 1) div S = q" using n True assms by (intro div_nat_eqI) (auto simp: mult.commute)
      moreover have "tail_bytes S n = S" using True False by (simp add: tail_bytes_def r_def)
      moreover have "n = S + p * S" using n p True by simp
      ultimately show ?thesis using p by (simp add: clusters_for_def)
    next
      case r: False
      have "(n + S - 1) div S = Suc q" using n r by (intro div_nat_eqI) (auto simp: mult.commute)
      moreover have "tail_bytes S n = r" using r False by (simp add: tail_bytes_def r_def)
      ultimately show ?thesis using n by (simp add: clusters_for_def)
    qed
  qed (use assms in \<open>simp add: clusters_for_def tail_bytes_def\<close>)
qed

lemma zero_gap_spec:
  assumes fits: "data_fits d" and c: "fat_valid_cluster c d" and lt: "unat oldSize < unat newSize"
    and run: "zero_gap c oldSize newSize d = (ok, d')"
  defines "S \<equiv> unat (clusterSize d)"
  defines "k \<equiv> tail_bytes S (unat oldSize)"
  defines "t \<equiv> min S (k + (unat newSize - unat oldSize))"
  shows "same_drive d d' \<and> fat_table d' = fat_table d \<and> dirty_clusters d' = dirty_clusters d \<and> (ata_works d \<longrightarrow> ok)
    \<and> (coherent d \<longrightarrow> coherent d') \<and> (\<forall>x. fat_valid_cluster x d \<longrightarrow> x \<noteq> c \<longrightarrow> cluster_data x d' = cluster_data x d)
    \<and> take k (cluster_data c d') = take k (cluster_data c d)
    \<and> (ok \<longrightarrow> take t (cluster_data c d') = take k (cluster_data c d) @ replicate (t - k) 0)"
proof (cases "oldSize mod clusterSize d \<noteq> 0 \<or> oldSize = 0")
  case False
  then have z: "ok" "d' = d" using run by (simp_all add: zero_gap_def Let_def)
  have "unat oldSize mod S = 0" "unat oldSize \<noteq> 0" using False by (auto simp: S_def unat_mod [symmetric] unat_eq_0)
  then have "k = S" "t = S" by (simp_all add: k_def t_def tail_bytes_def)
  then show ?thesis using z by (simp add: S_def)
next
  case True
  note S = cluster_size [OF fits, folded S_def]
  define from0 where "from0 = oldSize mod clusterSize d"
  define to0 where "to0 = newSize - (oldSize - from0)"
  define to1 where "to1 = (if to0 > clusterSize d then clusterSize d else to0)"
  have uf: "unat from0 = unat oldSize mod S" by (simp add: from0_def unat_mod S_def)
  have k: "unat from0 = k" using True uf unfolding k_def tail_bytes_def S_def
    by (auto simp: unat_mod [symmetric] unat_eq_0)
  have kS: "k < S" using uf k S(2) by simp
  have kold: "k \<le> unat oldSize" using uf k by (metis mod_less_eq_dividend)
  have "unat (oldSize - from0) = unat oldSize - k" using k kold by (simp add: unat_sub word_le_nat_alt)
  then have "unat to0 = unat newSize - (unat oldSize - k)" using lt unfolding to0_def by (subst unat_sub) (simp_all add: word_le_nat_alt)
  then have t: "unat to1 = t" using kold lt by (auto simp: to1_def t_def word_less_nat_alt S_def)
  have tk: "k \<le> t" using kS by (simp add: t_def)
  have dif: "unat (to1 - from0) = t - k" using t k tk by (simp add: unat_sub word_le_nat_alt)
  define rd where "rd = (if from0 = 0 then (let (ok, d1) = buf_malloc d in (if ok then Some (replicate S 0) else None, d1))
      else (let (b, d1) = ata_read_exact (clusterAddr c d) (clusterSize d) d
            in (map_option (\<lambda>b. take k b @ replicate (t - k) 0 @ drop t b) b, d1)))"
  obtain gap d1 where rd1: "rd = (gap, d1)" by fastforce
  have step: "(ok, d') = (case gap of None \<Rightarrow> (False, d1) | Some b \<Rightarrow> ata_write_exact (clusterAddr c d) b d1)"
    using run True rd1 unfolding zero_gap_def Let_def rd_def from0_def [symmetric] to0_def [symmetric] to1_def [symmetric] k t dif S_def
    by (simp split: if_splits prod.splits)
  have r: "same_drive d d1 \<and> fat_table d1 = fat_table d \<and> dirty_clusters d1 = dirty_clusters d \<and> disk d1 = disk d \<and> (gap = None \<longrightarrow> \<not> ata_works d)
      \<and> (\<forall>b. gap = Some b \<longrightarrow> length b = S \<and> take k b = take k (cluster_data c d) \<and> take t b = take k (cluster_data c d) @ replicate (t - k) 0)"
  proof (cases "from0 = 0")
    case True
    then have "k = 0" using k by simp
    then show ?thesis using rd1 True malloc_fat [of d "fst (buf_malloc d)" "snd (buf_malloc d)"]
      by (auto simp: rd_def buf_malloc_def same_drive_def ata_works_def t_def split: if_splits)
  next
    case False
    obtain b where b: "ata_read_exact (clusterAddr c d) (clusterSize d) d = (b, d1)" "gap = map_option (\<lambda>b. take k b @ replicate (t - k) 0 @ drop t b) b"
      using rd1 False by (auto simp: rd_def split: prod.splits)
    note rc = read_cluster [OF fits c b(1)]
    have "length (take k x @ replicate (t - k) 0 @ drop t x) = S \<and> take k (take k x @ replicate (t - k) 0 @ drop t x) = take k x
        \<and> take t (take k x @ replicate (t - k) 0 @ drop t x) = take k x @ replicate (t - k) 0" if "length x = S" for x
      using that kS tk by (simp add: t_def min_def)
    from this [of "cluster_data c d"] show ?thesis using rc(1-4) rc(5) b(2) unfolding S_def by (elim disjE) (simp_all only: option.map length_cluster_data option.inject, auto)
  qed
  show ?thesis
  proof (cases gap)
    case None
    have "coherent d \<longrightarrow> coherent d1" using r by (auto simp: coherent_def sync_def same_drive_fields [of d d1])
    then show ?thesis using step None r cluster_data_disk [of d d1] by auto
  next
    case (Some b)
    note e = same_drive_fields [of d d1]
    have fd: "data_fits d1" and c1: "fat_valid_cluster c d1" and lb: "length b = unat (clusterSize d1)" using r fits c e Some by (auto simp: S_def)
    have w: "ata_write_exact (clusterAddr c d1) b d1 = (ok, d')" using step Some r e by simp
    note wc = write_cluster [OF fd c1 lb w]
    have dr: "same_drive d d'" using r wc(1) same_drive_trans by blast
    have cd: "cluster_data x d1 = cluster_data x d" for x using r cluster_data_disk by blast
    obtain m where m: "m \<le> length b" "cluster_data c d' = take m b @ drop m (cluster_data c d)" "ok \<longrightarrow> m = length b" using wc(7) cd by auto
    have b: "length b = S" "take k b = take k (cluster_data c d)" "take t b = take k (cluster_data c d) @ replicate (t - k) 0" using r Some by auto
    have "take k (take m b @ drop m (cluster_data c d)) = take k (cluster_data c d)"
    proof (cases "k \<le> m")
      case True
      then show ?thesis using m(1) b(2) by simp
    next
      case False
      then have "take m b = take m (cluster_data c d)" using b(2) by (metis min.absorb2 nat_le_linear take_take min.commute)
      then show ?thesis by simp
    qed
    moreover have "coherent d \<longrightarrow> coherent d'"
    proof
      assume "coherent d"
      then have "coherent d1" using r by (auto simp: coherent_def sync_def e)
      then show "coherent d'" using coherent_cong [OF _ wc(1,3,5)] by simp
    qed
    moreover have "ok \<longrightarrow> cluster_data c d' = b" using m b(1) by (auto simp: S_def)
    ultimately show ?thesis using r wc(2-4,6) m(2) b(3) dr cd e by auto
  qed
qed


lemma same_fat_cluster:
  assumes "data_fits d" "same_fat d d'"
  shows "cluster_data c d' = cluster_data c d"
proof -
  have "table_base d + unat (noTables d) * unat (tableSize d) \<le> data_base d + (unat c - 2) * unat (clusterSize d) + i" for i
    using assms(1) unfolding data_fits_def by (elim conjE) simp
  then have "disk d' (abs_addr d (data_base d + (unat c - 2) * unat (clusterSize d) + i)) = disk d (abs_addr d (data_base d + (unat c - 2) * unat (clusterSize d) + i))" for i
    using assms(2) unfolding same_fat_def by blast
  then show ?thesis using same_drive_fields [OF same_fat_drive [OF assms(2)]]
    by (intro nth_equalityI) (simp_all add: cluster_data_def abs_addr_def add.assoc)
qed

subsection \<open>Extending a file\<close>

text \<open>What a file is worth after it grew: the old bytes, then zeros.\<close>

lemma grown_data:
  assumes S: "0 < S" and old: "length cs = clusters_for S old" and lt: "old < n" and new: "n \<le> (length cs + length new) * S"
    and len: "\<And>c. length (f c) = S" "\<And>c. length (g c) = S" and last: "take (min S (tail_bytes S old + (n - old))) (g (last cs)) = take (tail_bytes S old) (f (last cs))
      @ replicate (min S (tail_bytes S old + (n - old)) - tail_bytes S old) (0::u8)"
    and same: "\<forall>c\<in>set (butlast cs). g c = f c" and zero: "\<forall>c\<in>set new. g c = replicate S 0" and cs: "cs \<noteq> []"
  shows "take n (concat (map g (cs @ new))) = take old (concat (map f cs)) @ replicate (n - old) 0"
proof -
  define A where "A = concat (map f (butlast cs))"
  have "length (concat (map f xs)) = length xs * S" for xs using len(1) by (induction xs) auto
  then have lA: "length A = (length cs - 1) * S" by (simp add: A_def)
  have A': "concat (map g (butlast cs)) = A" unfolding A_def using same by (metis map_eq_conv)
  have ne: "cs = butlast cs @ [last cs]" using cs by simp
  have f: "concat (map f cs) = A @ f (last cs)" by (subst ne, unfold A_def) simp
  have z: "concat (map g new) = replicate (length new * S) 0" using zero by (induction new) (auto simp: replicate_add)
  have g: "concat (map g (cs @ new)) = A @ g (last cs) @ replicate (length new * S) 0"
    unfolding map_append concat_append z by (subst ne, simp add: A')
  define k where "k = tail_bytes S old"
  have k: "old = length A + k" "k \<le> S" using tail_bytes_split [OF S, of old] old lA by (simp_all add: k_def)
  have nl: "n - length A = k + (n - old)" using lt k by simp
  have old': "take old (concat (map f cs)) = A @ take k (f (last cs))" using f k by simp
  have "take (k + (n - old)) (g (last cs) @ replicate (length new * S) 0) = take k (f (last cs)) @ replicate (n - old) 0"
  proof (cases "k + (n - old) \<le> S")
    case True
    then show ?thesis using last len(2) unfolding k_def [symmetric] by simp
  next
    case False
    then have gl: "g (last cs) = take k (f (last cs)) @ replicate (S - k) 0" using last len(2) unfolding k_def [symmetric] by simp
    define m where "m = n - old"
    have "k + m - S \<le> length new * S" using new nl lA cs unfolding m_def by (cases cs) (auto simp: distrib_right)
    then have m: "min m (S - k + length new * S) = m" using False k(2) by (simp add: m_def)
    have "g (last cs) @ replicate (length new * S) 0 = take k (f (last cs)) @ replicate (S - k + length new * S) 0"
      unfolding gl replicate_add by simp
    moreover have "length (take k (f (last cs))) = k" using len(1) k(2) by simp
    ultimately have "take (k + m) (g (last cs) @ replicate (length new * S) 0) = take k (f (last cs)) @ replicate m 0"
      using m by (simp only: take_append take_replicate) simp
    then show ?thesis unfolding m_def .
  qed
  moreover have "length A \<le> n" using lt k(1) by linarith
  then have "take n (A @ xs) = A @ take (n - length A) xs" for xs by simp
  ultimately show ?thesis unfolding g old' nl by (simp only: append_assoc)
qed


lemma uint_of_entry:
  assumes "fat_wf d" "fat_valid_cluster c d" "0 \<le> mn" "mx < 2 ^ 16" "mn \<le> uint c" "uint c \<le> mx"
  shows "unat (of_int mn :: u32) \<le> unat c" "unat c \<le> unat (of_int mx :: u32)" "unat c < unat (tableSize d) div 2"
proof -
  have "uint (of_int mn :: u32) = mn" "uint (of_int mx :: u32) = mx"
    using assms(3-6) unsigned_less [of c, where 'a = int] by (simp_all add: unsigned_of_int take_bit_int_eq_self)
  then show "unat (of_int mn :: u32) \<le> unat c" "unat c \<le> unat (of_int mx :: u32)"
    using assms(5,6) by (simp_all only: unat_eq_nat_uint nat_mono)
  show "unat c < unat (tableSize d) div 2" using valid_bounds(1) [OF assms(1,2)] assms(1) by (simp add: fat_wf_def)
qed

text \<open>The part of \<open>fat_extend_cluster_chain\<close> after its buffer is allocated.\<close>

lemma extend_tail:
  assumes fits: "data_fits d" and coh: "coherent d" and ch: "chain d cs" and sz: "unat (tableSize d) \<le> 2 ^ 17"
  shows "\<exists>r d'. (case extend_loop m (last cs) (entry d (last cs)) 2 (last cs) 0 (uint (last cs)) (uint (last cs)) d of
      None \<Rightarrow> None
    | Some (mn, mx, allocated, False, d3) \<Rightarrow> Some (- 1, d3)
    | Some (mn, mx, allocated, True, d3) \<Rightarrow>
        let (w, d4) = fat_table_flush_cache (of_int mn) (of_int mx) d3
        in if \<not> w then map_option (\<lambda>d5. (- 1, snd (fat_table_flush_cache (of_int mn) (of_int mx) d5))) (fat_unwind_chain (last cs) (entry d (last cs)) d4)
           else Some (int allocated, d4)) = Some (r, d')
    \<and> same_drive d d' \<and> (\<forall>x. fat_valid_cluster x d \<longrightarrow> entry d x \<noteq> 0 \<longrightarrow> cluster_data x d' = cluster_data x d)
    \<and> (r = - 1 \<longrightarrow> fat_table d' = fat_table d)
    \<and> (r \<noteq> - 1 \<longrightarrow> (\<exists>new. r = int (length new) \<and> length new = m \<and> grown d cs new d' \<and> zeroed d new d'
          \<and> (\<forall>c\<in>set (last cs # new). \<not> dirty_clusters d' ! unat c)))
    \<and> (ata_works d \<longrightarrow> m \<le> frees 2 d \<longrightarrow> r \<noteq> - 1)"
proof -
  note wf = data_fits_wf [OF fits]
  have cs: "cs \<noteq> []" using ch by (simp add: chain_def)
  have z: "zeroed d [] d" using coh by (simp add: zeroed_def)
  have vl: "fat_valid_cluster (last cs) d" using ch cs by (simp add: chain_def)
  have u2: "unat (2 :: u16) = 2" by simp
  have lu: "uint (last cs) < 2 ^ 16" using unsigned_less [of "last cs", where 'a = int] by simp
  have two: "2 \<le> unat (noClusters d)"
    using vl valid_bounds(2) [OF wf(2) vl] by (auto simp: fat_valid_cluster_def word_le_nat_alt not_less)
  obtain mn mx al ok d3 where lo: "extend_loop m (last cs) (entry d (last cs)) 2 (last cs) 0 (uint (last cs)) (uint (last cs)) d = Some (mn, mx, al, ok, d3)"
    "if ok then \<exists>new'. grown d cs new' d3 \<and> zeroed d new' d3 \<and> length new' = m \<and> al = length new'
              \<and> covered mn mx (last cs # new') \<and> 0 \<le> mn \<and> mx < 2 ^ 16
       else same_drive d d3 \<and> fat_table d3 = fat_table d \<and> zeroed d [] d3"
    "ata_works d \<longrightarrow> m \<le> frees 2 d \<longrightarrow> ok"
    using extend_loop_spec [OF fits ch sz grown_0 [OF ch] z, of 2 0 "uint (last cs)" "uint (last cs)" m, unfolded append_Nil2 list.size add_0 u2] two lu
    unfolding covered_def by auto
  show ?thesis
  proof (cases ok)
    case False
    then show ?thesis using lo by (auto simp: zeroed_def)
  next
    case True
    then obtain new where new: "grown d cs new d3" "zeroed d new d3" "length new = m" "al = length new" "covered mn mx (last cs # new)" "0 \<le> mn" "mx < 2 ^ 16"
      using lo(2) by auto
    have drv: "same_drive d d3" and chd: "chain d3 (cs @ new)" using new(1) by (simp_all add: grown_def)
    note e = same_drive_fields [OF drv]
    have f3: "data_fits d3" using fits e by simp
    obtain w d4 where fl: "fat_table_flush_cache (of_int mn) (of_int mx) d3 = (w, d4)" by fastforce
    note ff = flush_cache_frame [OF data_fits_wf(1) [OF f3] fl]
    have drv4: "same_drive d3 d4" "fat_table d4 = fat_table d3" using same_fat_drive [OF ff(1)] same_fat_fields(6) [OF ff(1)] by simp_all
    have g4: "grown d cs new d4" by (rule grown_cong [OF new(1) drv4])
    have cd4: "cluster_data c d4 = cluster_data c d3" for c by (rule same_fat_cluster [OF f3 ff(1)])
    show ?thesis
    proof (cases w)
      case True
      have "coherent d4" using ff(3) True new(2) by (simp add: zeroed_def)
      then have z4: "zeroed d new d4" using new(2) cd4 by (simp add: zeroed_def)
      have "\<not> dirty_clusters d4 ! unat c" if "c \<in> set (last cs # new)" for c
      proof -
        have v: "fat_valid_cluster c d3" using that chd cs by (auto simp: chain_def)
        have "mn \<le> uint c" "uint c \<le> mx" using that new(5) by (auto simp: covered_def)
        from uint_of_entry [OF data_fits_wf(2) [OF f3] v new(6,7) this] show ?thesis using ff(4) by blast
      qed
      then show ?thesis using lo(1) \<open>ok\<close> fl True new(3,4) g4 z4 same_drive_trans [OF drv drv4(1)] by (auto simp: zeroed_def)
    next
      case False
      obtain d5 where d5: "fat_unwind_chain (last cs) (entry d (last cs)) d4 = Some d5" "same_drive d d5" "fat_table d5 = fat_table d" "disk d5 = disk d4"
        using unwind_restores [OF wf(2) ch g4 sz] by blast
      obtain w6 d6 where fl6: "fat_table_flush_cache (of_int mn) (of_int mx) d5 = (w6, d6)" by fastforce
      have f5: "data_fits d5" using fits same_drive_fields(1) [OF d5(2)] by simp
      note f6 = flush_cache_frame(1) [OF data_fits_wf(1) [OF f5] fl6]
      have drv45: "abs_addr d4 = abs_addr d5" "data_base d4 = data_base d5" "clusterSize d4 = clusterSize d5"
        using same_drive_fields [OF d5(2)] same_drive_fields [OF same_drive_trans [OF drv drv4(1)]] by simp_all
      have "cluster_data c d6 = cluster_data c d3" for c
        using same_fat_cluster [OF f5 f6] cd4 [of c] d5(4) drv45 by (simp add: cluster_data_def)
      moreover have "\<not> ata_works d" using ff(2) False e by simp
      ultimately show ?thesis using lo(1) \<open>ok\<close> fl False d5 fl6 same_fat_fields(6) [OF f6] same_drive_trans [OF d5(2) same_fat_drive [OF f6]] new(2)
        by (auto simp: zeroed_def)
    qed
  qed
qed


lemma clusters_word:
  assumes "data_fits d" "unat sz + unat (clusterSize d) \<le> 2 ^ 32"
  shows "unat ((sz + clusterSize d - 1) div clusterSize d) = (unat sz + unat (clusterSize d) - 1) div unat (clusterSize d)"
proof -
  have S: "0 < unat (clusterSize d)" by (rule cluster_size(2) [OF assms(1)])
  then have "1 \<le> unat (clusterSize d)" by simp
  then have one: "unat (clusterSize d - 1) = unat (clusterSize d) - 1" by (subst unat_sub) (simp_all add: word_le_nat_alt)
  have "unat (sz + (clusterSize d - 1)) = unat sz + (unat (clusterSize d) - 1)"
    using assms(2) S one by (subst unat_plus_simple [THEN iffD1]) (auto simp: word_le_nat_alt unat_word_ariths)
  then show ?thesis using S by (simp add: unat_div add_diff_eq)
qed

lemma free_clusters_frees: "fat_wf d \<Longrightarrow> unat (fat_free_clusters d) = frees 2 d"
proof -
  assume "fat_wf d"
  then have "unat (noClusters d) \<le> 0xFFF7" by (simp add: fat_wf_def word_le_nat_alt)
  moreover have "frees 2 d \<le> unat (noClusters d) - 2" unfolding frees_def by (metis length_filter_le length_upt)
  ultimately have "frees 2 d < 2 ^ 32" by simp
  then show ?thesis unfolding fat_free_clusters_def frees_def [symmetric] by (rule unat_of_nat_u32)
qed

lemma old_bytes_kept:
  assumes S: "0 < S" and old: "length cs = clusters_for S old" and len: "\<And>c. length (f c) = S" "\<And>c. length (g c) = S"
    and last: "take (tail_bytes S old) (g (last cs)) = take (tail_bytes S old) (f (last cs))"
    and same: "\<forall>c\<in>set (butlast cs). g c = f c" and cs: "cs \<noteq> []"
  shows "take old (concat (map g cs)) = take old (concat (map f cs))"
proof -
  have ne: "cs = butlast cs @ [last cs]" using cs by simp
  have A: "concat (map g (butlast cs)) = concat (map f (butlast cs))" using same by (metis map_eq_conv)
  have "length (concat (map f xs)) = length xs * S" for xs using len(1) by (induction xs) auto
  then have lA: "length (concat (map f (butlast cs))) = (length cs - 1) * S" by simp
  have o: "old = (length cs - 1) * S + tail_bytes S old" using tail_bytes_split(1) [OF S, of old] old by simp
  have "take old (concat (map h cs)) = concat (map h (butlast cs)) @ take (old - length (concat (map h (butlast cs)))) (h (last cs))"
    if "length (concat (map h (butlast cs))) \<le> old" for h
    using that by (subst ne) simp
  then show ?thesis using A lA o last by (metis diff_add_inverse le_add1)
qed

text \<open>
  C35: growing a file. The chain \<open>cs\<close> holds a file of \<open>oldSize\<close> bytes. \<open>fat_extend_cluster_chain\<close> returns; in every
  case the old bytes of the file and all clusters in use by others keep their contents. When it reports failure, the
  cached table is exactly as before. Otherwise it returns the number of clusters it added: they were free, they come after
  the old ones in the chain, no other entry of the table has changed, the chain has the clusters the new size needs,
  its new links are on the disk (clean in a coherent cache), and the first \<open>newSize\<close> bytes of the file are the
  old ones followed by zeros. On a drive without errors with enough free clusters it does not fail.
\<close>

theorem fat_extend_file:
  assumes "data_fits d" and "coherent d" and "chain d cs" and "unat (tableSize d) \<le> 2 ^ 17"
    and "length cs = clusters_for (unat (clusterSize d)) (unat oldSize)" and "unat oldSize < unat newSize" and "unat newSize \<le> 2 ^ 32 - 2 ^ 17"
  shows "\<exists>r d'. fat_extend_cluster_chain (hd cs) oldSize newSize d = Some (r, d')
    \<and> take (unat oldSize) (file_data cs d') = take (unat oldSize) (file_data cs d)
    \<and> (\<forall>x. fat_valid_cluster x d \<and> entry d x \<noteq> 0 \<and> x \<notin> set cs \<longrightarrow> cluster_data x d' = cluster_data x d)
    \<and> (r = - 1 \<longrightarrow> fat_table d' = fat_table d)
    \<and> (r \<noteq> - 1 \<longrightarrow> (\<exists>new. r = int (length new) \<and> chain d' (cs @ new) \<and> (\<forall>c\<in>set new. entry d c = 0)
          \<and> (\<forall>x. x \<notin> set new \<and> (x \<noteq> last cs \<or> new = []) \<longrightarrow> entry d' x = entry d x)
          \<and> length (cs @ new) = clusters_for (unat (clusterSize d)) (unat newSize)
          \<and> coherent d' \<and> (new \<noteq> [] \<longrightarrow> (\<forall>c\<in>set (last cs # new). \<not> dirty_clusters d' ! unat c))
          \<and> take (unat newSize) (file_data (cs @ new) d') = take (unat oldSize) (file_data cs d) @ replicate (unat newSize - unat oldSize) 0))
    \<and> (ata_works d \<and> clusters_for (unat (clusterSize d)) (unat newSize) - length cs \<le> unat (fat_free_clusters d) \<longrightarrow> r \<noteq> - 1)"
proof -
  define S where "S = unat (clusterSize d)"
  note sz = cluster_size [OF assms(1), folded S_def]
  note wf = data_fits_wf [OF assms(1)]
  define k where "k = tail_bytes S (unat oldSize)"
  define t where "t = min S (k + (unat newSize - unat oldSize))"
  define q where "q = clusters_for S (unat newSize) - length cs"
  have cs: "cs \<noteq> []" using assms(3) by (simp add: chain_def)
  have hd: "fat_valid_cluster (hd cs) d" and vl: "fat_valid_cluster (last cs) d" using assms(3) cs by (simp_all add: chain_def)
  define oc where "oc = (let oc0 = (oldSize + clusterSize d - 1) div clusterSize d in if oc0 = 0 then 1 else oc0)"
  define nc where "nc = (newSize + clusterSize d - 1) div clusterSize d"
  have un: "unat nc = clusters_for S (unat newSize)"
    using clusters_word [OF assms(1), of newSize] assms(6,7) sz by (simp add: nc_def clusters_for_def S_def max_def Suc_leI div_greater_zero_iff)
  have uo: "unat oc = length cs"
    using clusters_word [OF assms(1), of oldSize] assms(5-7) sz
    by (auto simp: oc_def Let_def clusters_for_def S_def max_def unat_eq_0 [symmetric] simp del: unat_eq_zero)
  have fo: "follow (unat oc - 1) (hd cs) d = last cs" using chain_last [OF assms(3)] uo by simp
  obtain gap d1 where gp: "zero_gap (last cs) oldSize newSize d = (gap, d1)" by fastforce
  have z: "same_drive d d1" "fat_table d1 = fat_table d" "dirty_clusters d1 = dirty_clusters d" "ata_works d \<longrightarrow> gap" "coherent d1"
    "\<forall>x. fat_valid_cluster x d \<longrightarrow> x \<noteq> last cs \<longrightarrow> cluster_data x d1 = cluster_data x d"
    "take k (cluster_data (last cs) d1) = take k (cluster_data (last cs) d)"
    "gap \<longrightarrow> take t (cluster_data (last cs) d1) = take k (cluster_data (last cs) d) @ replicate (t - k) 0"
    using zero_gap_spec [OF assms(1) vl assms(6) gp] assms(2) unfolding S_def [symmetric] k_def [symmetric] t_def [symmetric] by blast+
  have e1: "entry d1 = entry d" "noClusters d1 = noClusters d" using z(1,2) same_drive_fields(9) by (auto simp: entry_def fun_eq_iff)
  have dist: "last cs \<notin> set (butlast cs)" using is_list_distinct assms(3) cs unfolding chain_def
    by (metis append_butlast_last_id distinct_append disjoint_iff list.set_intros(1))
  have vb: "\<forall>c\<in>set (butlast cs). fat_valid_cluster c d \<and> c \<noteq> last cs" using assms(3) dist by (auto simp: chain_def dest: in_set_butlastD)
  have gr: "grown d cs [] d1" by (rule grown_cong [OF grown_0 [OF assms(3)] z(1,2)])
  have keep: "take (unat oldSize) (file_data cs d') = take (unat oldSize) (file_data cs d)
      \<and> (\<forall>x. fat_valid_cluster x d \<and> entry d x \<noteq> 0 \<and> x \<notin> set cs \<longrightarrow> cluster_data x d' = cluster_data x d)"
    if dr: "same_drive d d'" and cd: "\<forall>x. fat_valid_cluster x d \<longrightarrow> entry d x \<noteq> 0 \<longrightarrow> cluster_data x d' = cluster_data x d1" for d'
  proof -
    have "cluster_data c d' = cluster_data c d1" if "c \<in> set cs" for c using that cd assms(3) chain_entry_nonzero [OF assms(3)] by (auto simp: chain_def)
    moreover from this have "\<forall>c\<in>set (butlast cs). cluster_data c d' = cluster_data c d" using z(6) vb by (metis in_set_butlastD)
    ultimately have "take (unat oldSize) (concat (map (\<lambda>c. cluster_data c d') cs)) = take (unat oldSize) (concat (map (\<lambda>c. cluster_data c d) cs))"
      using z(7) cs same_drive_fields(10) [OF dr] sz(2) assms(5) unfolding k_def
      by (intro old_bytes_kept [of S]) (auto simp: S_def)
    moreover have "cluster_data x d' = cluster_data x d" if "fat_valid_cluster x d" "entry d x \<noteq> 0" "x \<notin> set cs" for x
      using that cd z(6) cs by (metis last_in_set)
    ultimately show ?thesis by (simp add: file_data_def)
  qed
  have grow: "take (unat newSize) (file_data (cs @ new) d') = take (unat oldSize) (file_data cs d) @ replicate (unat newSize - unat oldSize) 0"
    if gap and dr: "same_drive d d'" and cd: "\<forall>x. fat_valid_cluster x d \<longrightarrow> entry d x \<noteq> 0 \<longrightarrow> cluster_data x d' = cluster_data x d1"
      and zn: "\<forall>c\<in>set new. cluster_data c d' = replicate S 0" and ln: "clusters_for S (unat newSize) \<le> length (cs @ new)" for d' new
  proof -
    have c1: "cluster_data c d' = cluster_data c d1" if "c \<in> set cs" for c using that cd assms(3) chain_entry_nonzero [OF assms(3)] by (auto simp: chain_def)
    have "unat newSize \<le> clusters_for S (unat newSize) * S"
      using tail_bytes_split [OF sz(2), of "unat newSize"] by (cases "clusters_for S (unat newSize)") (auto simp: clusters_for_def)
    then have le: "unat newSize \<le> (length cs + length new) * S" using mult_le_mono1 [OF ln, of S] by (simp only: length_append)
    have l: "take (min S (tail_bytes S (unat oldSize) + (unat newSize - unat oldSize))) (cluster_data (last cs) d')
        = take (tail_bytes S (unat oldSize)) (cluster_data (last cs) d)
        @ replicate (min S (tail_bytes S (unat oldSize) + (unat newSize - unat oldSize)) - tail_bytes S (unat oldSize)) 0"
      using z(8) \<open>gap\<close> c1 cs unfolding t_def k_def by simp
    have b: "\<forall>c\<in>set (butlast cs). cluster_data c d' = cluster_data c d" using c1 z(6) vb by (metis in_set_butlastD)
    have len: "length (cluster_data c d) = S" "length (cluster_data c d') = S" for c using same_drive_fields(10) [OF dr] by (simp_all add: S_def)
    show ?thesis unfolding file_data_def
      by (rule grown_data [OF sz(2) assms(5) [folded S_def] assms(6) le len l b zn cs])
  qed
  have run: "fat_extend_cluster_chain (hd cs) oldSize newSize d =
     (if \<not> gap then Some (- 1, d1) else if nc \<le> oc then Some (0, d1) else if nc - oc > fat_free_clusters d1 then Some (- 1, d1)
      else let (ok, d2) = buf_malloc d1 in if \<not> ok then Some (- 1, d2)
        else (case extend_loop (unat (nc - oc)) (last cs) (entry d1 (last cs)) 2 (last cs) 0 (uint (last cs)) (uint (last cs)) d2 of
          None \<Rightarrow> None
        | Some (mn, mx, allocated, False, d3) \<Rightarrow> Some (- 1, d3)
        | Some (mn, mx, allocated, True, d3) \<Rightarrow>
            let (w, d4) = fat_table_flush_cache (of_int mn) (of_int mx) d3
            in if \<not> w then map_option (\<lambda>d5. (- 1, snd (fat_table_flush_cache (of_int mn) (of_int mx) d5)))
                 (fat_unwind_chain (last cs) (entry d1 (last cs)) d4)
               else Some (int allocated, d4)))"
    using assms(6) hd unfolding fat_extend_cluster_chain_def Let_def oc_def [unfolded Let_def, symmetric] nc_def [symmetric] fo gp prod.case
    by (simp add: word_le_nat_alt)
  have mono: "clusters_for S (unat oldSize) \<le> clusters_for S (unat newSize)"
    unfolding clusters_for_def using assms(6) by (intro max.mono div_le_mono) simp_all
  have free: "fat_free_clusters d1 = fat_free_clusters d" using z(2) e1(2) by (simp add: fat_free_clusters_def)
  have needed: "unat (nc - oc) = q" if "\<not> nc \<le> oc" using that un uo by (simp add: q_def unat_sub word_le_nat_alt)
  consider (early) "\<not> gap \<or> nc \<le> oc \<or> nc - oc > fat_free_clusters d1" | (late) gap "\<not> nc \<le> oc" "\<not> nc - oc > fat_free_clusters d1" by blast
  then show ?thesis
  proof cases
    case early
    have kp: "take (unat oldSize) (file_data cs d1) = take (unat oldSize) (file_data cs d)
      \<and> (\<forall>x. fat_valid_cluster x d \<and> entry d x \<noteq> 0 \<and> x \<notin> set cs \<longrightarrow> cluster_data x d1 = cluster_data x d)"
      by (rule keep [OF z(1)]) simp
    show ?thesis
    proof (cases "gap \<and> nc \<le> oc")
      case True
      then have "unat nc = length cs" using un uo mono assms(5) by (simp add: word_le_nat_alt S_def)
      then have "length (cs @ []) = clusters_for S (unat newSize)" using un by simp
      moreover have "take (unat newSize) (file_data (cs @ []) d1) = take (unat oldSize) (file_data cs d) @ replicate (unat newSize - unat oldSize) 0"
        using True un uo by (intro grow z(1)) (simp_all add: word_le_nat_alt)
      ultimately show ?thesis using run True kp gr z(5) unfolding grown_def S_def [symmetric]
        by (intro exI [of _ 0] exI [of _ d1] conjI impI) (auto intro!: exI [of _ "[]"])
    next
      case False
      then have "fat_extend_cluster_chain (hd cs) oldSize newSize d = Some (- 1, d1)" using run early by auto
      moreover have "\<not> (ata_works d \<and> q \<le> unat (fat_free_clusters d))" using False early z(4) needed free by (auto simp: word_less_nat_alt [of "fat_free_clusters d"])
      ultimately show ?thesis using kp z(2) unfolding S_def [symmetric] q_def [symmetric] by blast
    qed
  next
    case late
    obtain ok d2 where ml: "buf_malloc d1 = (ok, d2)" by fastforce
    note m = malloc_frame [OF ml]
    have d2: "same_drive d d2" "fat_table d2 = fat_table d" "coherent d2" "\<And>c. cluster_data c d2 = cluster_data c d1"
      using same_drive_trans [OF z(1) m(1)] m(2,4) z(2,5) cluster_data_disk [OF m(1,3)] by simp_all
    have f2: "data_fits d2" and c2: "chain d2 cs" and t2: "unat (tableSize d2) \<le> 2 ^ 17"
      using assms(1,4) same_drive_fields [OF d2(1)] grown_cong [OF grown_0 [OF assms(3)] d2(1,2)] by (simp_all add: grown_def)
    have e2: "entry d2 = entry d" "frees 2 d2 = frees 2 d" using d2(2) same_drive_fields(9) [OF d2(1)] by (auto simp: entry_def fun_eq_iff frees_def)
    have enough: "q \<le> frees 2 d"
      using late needed [OF late(2)] free free_clusters_frees [OF wf(2)] by (simp add: word_less_nat_alt not_less)
    show ?thesis
    proof (cases ok)
      case False
      then have "\<not> ata_works d" using ml same_drive_fields(12) [OF z(1)] by (auto simp: buf_malloc_def ata_works_def)
      moreover have "fat_extend_cluster_chain (hd cs) oldSize newSize d = Some (- 1, d2)" using run late ml False by simp
      ultimately show ?thesis using keep [OF d2(1)] d2(2,4) by auto
    next
      case True
      have run2: "fat_extend_cluster_chain (hd cs) oldSize newSize d =
         (case extend_loop q (last cs) (entry d (last cs)) 2 (last cs) 0 (uint (last cs)) (uint (last cs)) d2 of
          None \<Rightarrow> None
        | Some (mn, mx, allocated, False, d3) \<Rightarrow> Some (- 1, d3)
        | Some (mn, mx, allocated, True, d3) \<Rightarrow>
            let (w, d4) = fat_table_flush_cache (of_int mn) (of_int mx) d3
            in if \<not> w then map_option (\<lambda>d5. (- 1, snd (fat_table_flush_cache (of_int mn) (of_int mx) d5)))
                 (fat_unwind_chain (last cs) (entry d (last cs)) d4)
               else Some (int allocated, d4))"
        unfolding run ml e1(1) needed [OF late(2)] Let_def prod.case using late True by (simp only: simp_thms if_True if_False)
      obtain r d' where r: "fat_extend_cluster_chain (hd cs) oldSize newSize d = Some (r, d')" "same_drive d2 d'"
        "\<forall>x. fat_valid_cluster x d2 \<longrightarrow> entry d2 x \<noteq> 0 \<longrightarrow> cluster_data x d' = cluster_data x d2"
        "r = - 1 \<longrightarrow> fat_table d' = fat_table d2"
        "r \<noteq> - 1 \<longrightarrow> (\<exists>new. r = int (length new) \<and> length new = q \<and> grown d2 cs new d' \<and> zeroed d2 new d'
          \<and> (\<forall>c\<in>set (last cs # new). \<not> dirty_clusters d' ! unat c))"
        "ata_works d2 \<longrightarrow> q \<le> frees 2 d2 \<longrightarrow> r \<noteq> - 1"
        using extend_tail [OF f2 d2(3) c2 t2, of q] unfolding run2 e2(1) by (elim exE conjE)
      have drv: "same_drive d d'" using same_drive_trans [OF d2(1) r(2)] .
      have cd: "\<forall>x. fat_valid_cluster x d \<longrightarrow> entry d x \<noteq> 0 \<longrightarrow> cluster_data x d' = cluster_data x d1"
        using r(3) d2(4) same_drive_fields(13) [OF d2(1)] e2(1) by simp
      have "\<exists>new. r = int (length new) \<and> chain d' (cs @ new) \<and> (\<forall>c\<in>set new. entry d c = 0)
          \<and> (\<forall>x. x \<notin> set new \<and> (x \<noteq> last cs \<or> new = []) \<longrightarrow> entry d' x = entry d x)
          \<and> length (cs @ new) = clusters_for S (unat newSize)
          \<and> coherent d' \<and> (new \<noteq> [] \<longrightarrow> (\<forall>c\<in>set (last cs # new). \<not> dirty_clusters d' ! unat c))
          \<and> take (unat newSize) (file_data (cs @ new) d') = take (unat oldSize) (file_data cs d) @ replicate (unat newSize - unat oldSize) 0" if rn: "r \<noteq> - 1"
      proof -
        obtain new where new: "r = int (length new)" "length new = q" "grown d2 cs new d'" "zeroed d2 new d'"
          "\<forall>c\<in>set (last cs # new). \<not> dirty_clusters d' ! unat c" using r(5) rn by blast
        have ln: "length (cs @ new) = clusters_for S (unat newSize)" using new(2) mono assms(5) by (simp add: q_def S_def)
        have "take (unat newSize) (file_data (cs @ new) d') = take (unat oldSize) (file_data cs d) @ replicate (unat newSize - unat oldSize) 0"
          using new(4) ln same_drive_fields(10) [OF d2(1)] late(1) by (intro grow drv cd) (auto simp: zeroed_def S_def)
        then show ?thesis using new ln e2(1) unfolding grown_def zeroed_def by (intro exI [of _ new]) auto
      qed
      moreover have "ata_works d \<longrightarrow> r \<noteq> - 1" using r(6) enough e2(2) same_drive_fields(12) [OF d2(1)] by simp
      ultimately show ?thesis using r(1,4) keep [OF drv cd] d2(2) unfolding S_def [symmetric] by (intro exI [of _ r] exI [of _ d']) auto
    qed
  qed
qed


lemma small_chain:
  assumes "fat_table_update_cluster 2 0xFFFF small_volume = (u, d)"
  shows "data_fits d" "coherent d" "chain d [2]" "ata_works d" "unat (clusterSize d) = 512" "unat (tableSize d) = 512" "1 \<le> unat (fat_free_clusters d)"
    "entry d 2 = 0xFFFF"
proof -
  have d: "d = small_volume\<lparr> dirty_clusters := (replicate 256 False)[2 := True], fat_table := (replicate 256 0)[2 := 0xFFFF] \<rparr>"
    using assms by (auto simp: fat_table_update_cluster_def small_simps)
  show c: "coherent d" using update_coherent [OF small_fits small_coherent assms] by simp
  have v: "volume_fits d" using update_coherent [OF small_fits small_coherent assms] by simp
  show S: "unat (clusterSize d) = 512" "unat (tableSize d) = 512" by (simp_all add: d clusterSize_def small_simps)
  have tb: "table_base d = 512512" by (simp add: d table_base_def small_simps)
  have db: "data_base d = 513536" by (simp add: d data_base_def small_simps)
  show "data_fits d" unfolding data_fits_def tb db S using v by (simp add: d small_simps in_partition_def)
  then have wf: "fat_wf d" by (rule data_fits_wf)
  show "ata_works d" by (simp add: d small_simps ata_works_def)
  show e: "entry d 2 = 0xFFFF" by (simp add: d entry_def small_simps)
  have "fat_valid_cluster 2 d" "\<not> fat_valid_cluster 0xFFFF d" by (simp_all add: d fat_valid_cluster_def small_simps)
  then show "chain d [2]" using e by (simp add: chain_def next_of_def)
  have "frees 2 d = 1 + frees 4 d" using frees_step [of 2 d] frees_step [of 3 d] by (simp add: d small_simps)
  then show "1 \<le> unat (fat_free_clusters d)" using free_clusters_frees [OF wf] by simp
qed

theorem fat_extend_file_witness:
  "\<exists>c d'. fat_extend_cluster_chain 2 100 1000 (snd (fat_table_update_cluster 2 0xFFFF small_volume)) = Some (1, d') \<and> chain d' [2, c]"
proof -
  obtain u d where u: "fat_table_update_cluster 2 0xFFFF small_volume = (u, d)" by fastforce
  note s = small_chain [OF u]
  have n: "clusters_for 512 100 = 1" "clusters_for 512 1000 = 2" by (simp_all add: clusters_for_def)
  have "unat (tableSize d) \<le> 2 ^ 17" "length [2 :: u16] = clusters_for (unat (clusterSize d)) (unat (100::u32))"
    "unat (100::u32) < unat (1000::u32)" "unat (1000::u32) \<le> 2 ^ 32 - 2 ^ 17" using s(5,6) n by simp_all
  from fat_extend_file [OF s(1-3) this] obtain r d' where r: "fat_extend_cluster_chain 2 100 1000 d = Some (r, d')"
    "r \<noteq> - 1 \<longrightarrow> (\<exists>new. r = int (length new) \<and> chain d' ([2] @ new) \<and> length ([2] @ new) = clusters_for (unat (clusterSize d)) (unat (1000::u32)))"
    "r \<noteq> - 1"
    using s(4,5,7) n by (elim exE conjE) auto
  then obtain new where new: "r = int (length new)" "chain d' (2 # new)" "length new = 1" using s(5) n by auto
  then obtain c where "new = [c]" by (cases new) auto
  then show ?thesis using r(1) new u by auto
qed

subsection \<open>Shrinking a file\<close>

lemma is_list_cut: "is_list nx p (xs @ ys) \<Longrightarrow> xs \<noteq> [] \<Longrightarrow> is_list (nx(last xs := None)) p xs"
proof (induction xs arbitrary: p)
  case (Cons x xs)
  have "x \<notin> set xs" using is_list_distinct [OF Cons.prems(1)] by simp
  then show ?case using Cons by (cases "xs = []") (auto simp: is_list_Some)
qed simp

text \<open>
  Shrinking a file. With \<open>cs\<close> the chain of a file of \<open>oldSize\<close> bytes, \<open>fat_shrink_cluster_chain\<close> returns. If the new
  size needs as many clusters as the old one it changes nothing and returns 0. Otherwise the chain becomes its first
  clusters, as many as the new size needs but at least one; the entries of exactly the others become free, no
  other entry changes, and no data cluster changes. It returns the number of clusters freed once all this is on
  the disk, and fails only when the drive reports an error.
\<close>

theorem fat_shrink_file:
  fixes oldSize newSize :: u32
  assumes "data_fits d" and "coherent d" and "chain d cs"
    and "length cs = clusters_for (unat (clusterSize d)) (unat oldSize)" and "unat newSize \<le> unat oldSize" and "unat oldSize \<le> 2 ^ 32 - 2 ^ 17"
  defines "m \<equiv> clusters_for (unat (clusterSize d)) (unat newSize)"
  shows "\<exists>r d'. fat_shrink_cluster_chain (hd cs) oldSize newSize d = Some (r, d')
    \<and> (\<forall>x. cluster_data x d' = cluster_data x d) \<and> chain d' (take m cs)
    \<and> (\<forall>c\<in>set (drop m cs). entry d' c = 0) \<and> (\<forall>x. x \<notin> set (drop m cs) \<and> x \<noteq> cs ! (m - 1) \<longrightarrow> entry d' x = entry d x)
    \<and> (r \<noteq> - 1 \<longrightarrow> r = int (length (drop m cs)) \<and> coherent d'
         \<and> (drop m cs \<noteq> [] \<longrightarrow> (\<forall>c\<in>set (drop (m - 1) cs). \<not> dirty_clusters d' ! unat c)))
    \<and> (ata_works d \<longrightarrow> r \<noteq> - 1)"
proof -
  define S where "S = unat (clusterSize d)"
  note wf = data_fits_wf [OF assms(1)]
  note S = cluster_size [OF assms(1), folded S_def]
  define oc nc where "oc = (oldSize + clusterSize d - 1) div clusterSize d" and "nc = (newSize + clusterSize d - 1) div clusterSize d"
  have uo: "unat oc = (unat oldSize + S - 1) div S" and un: "unat nc = (unat newSize + S - 1) div S"
    using clusters_word [OF assms(1), of oldSize] clusters_word [OF assms(1), of newSize] assms(5,6) S by (simp_all add: oc_def nc_def S_def)
  have lo: "length cs = max 1 (unat oc)" and m: "m = max 1 (unat nc)" using assms(4) uo un by (simp_all add: clusters_for_def S_def m_def)
  have cs: "cs \<noteq> []" "fat_valid_cluster (hd cs) d" "is_list (next_of d) (Some (hd cs)) cs" "\<forall>c\<in>set cs. fat_valid_cluster c d"
    using assms(3) by (auto simp: chain_def)
  show ?thesis
  proof (cases "nc \<ge> oc")
    case True
    have "unat nc \<le> unat oc" unfolding uo un using assms(5) by (intro div_le_mono) simp
    then have "m = length cs" using True lo m by (simp add: word_le_nat_alt)
    moreover have "fat_shrink_cluster_chain (hd cs) oldSize newSize d = Some (0, d)"
      using True cs(2) unfolding fat_shrink_cluster_chain_def Let_def oc_def [symmetric] nc_def [symmetric] by simp
    ultimately show ?thesis using assms(2,3) by simp
  next
    case False
    then have ml: "1 \<le> m" "m \<le> length cs" using lo m by (auto simp: word_le_nat_alt)
    define xs ys where "xs = take m cs" and "ys = drop m cs"
    have split: "cs = xs @ ys" "xs \<noteq> []" using ml cs(1) by (simp_all add: xs_def ys_def)
    have cur: "last xs = cs ! (m - 1)" using ml last_conv_nth [OF split(2)] by (simp add: xs_def min_def)
    have fo: "follow (unat nc - 1) (hd cs) d = last xs"
      using chain_follow [OF cs(3), of "unat nc - 1"] ml m cur by (simp add: min_def max_def split: if_splits)
    have vl: "fat_valid_cluster (last xs) d" and vy: "\<forall>c\<in>set ys. fat_valid_cluster c d" using cs(4) split by auto
    have dist: "distinct (xs @ ys)" using is_list_distinct [OF cs(3)] split(1) by simp
    then have ly: "last xs \<notin> set ys" using last_in_set [OF split(2)] by auto
    obtain ok d1 where u: "fat_table_update_cluster (ucast (last xs)) 0xFFFF d = (ok, d1)" by fastforce
    note st = update_step [OF wf(2) vl u]
    have nx1: "next_of d1 = (next_of d)(last xs := None)" using st(4) by (simp add: end_mark_invalid)
    have e1: "fat_valid_cluster x d1 = fat_valid_cluster x d" for x using same_drive_fields(13) [OF st(6)] .
    have "is_list (next_of d) (next_of d (last xs)) ys" using is_list_split [of "next_of d" _ xs ys] cs(3) split by simp
    then have nxt: "is_list (next_of d1) (if fat_valid_cluster (entry d (last xs)) d1 then Some (entry d (last xs)) else None) ys"
      using ly nx1 e1 by (simp add: next_of_def)
    obtain mn mx d2 where fc: "free_chain (entry d (last xs)) (ucast (last xs)) (ucast (last xs)) 0 ok d1 = Some (mn, mx, 0 + length ys, ok, d2)"
      "same_drive d1 d2" "disk d2 = disk d1" "volume_fits d1 \<longrightarrow> coherent d1 \<longrightarrow> coherent d2" "mn \<le> ucast (last xs)" "ucast (last xs) \<le> mx"
      "\<forall>c\<in>set ys. mn \<le> ucast c \<and> ucast c \<le> mx" "\<forall>x. entry d2 x = (if x \<in> set ys then 0 else entry d1 x)"
      using free_chain_spec [of d1 ys, OF _ _ nxt] vy e1 wf(2) same_drive_fields(3) [OF st(6)] by blast
    obtain w d3 where fl: "fat_table_flush_cache mn mx d2 = (w, d3)" by fastforce
    have drv: "same_drive d d2" using same_drive_trans [OF st(6) fc(2)] .
    have v2: "data_fits d2" using assms(1) same_drive_fields(1) [OF drv] by simp
    note ff = flush_cache_frame [OF data_fits_wf(1) [OF v2] fl]
    have coh: "coherent d2" using fc(4) st(7) wf(1) assms(2) same_drive_fields(2) [OF st(6)] by simp
    have e3: "entry d3 x = (if x \<in> set ys then 0 else if x = last xs then 0xFFFF else entry d x)" for x
      using fc(8) st(3) ly same_fat_fields(6) [OF ff(1)] by (simp add: entry_def)
    have v3: "fat_valid_cluster x d3 = fat_valid_cluster x d" for x
      using same_drive_fields(13) [OF same_drive_trans [OF drv same_fat_drive [OF ff(1)]]] .
    have "is_list ((next_of d)(last xs := None)) (Some (hd cs)) xs" using is_list_cut [of "next_of d" _ xs ys] cs(3) split by simp
    moreover have "next_of d3 x = ((next_of d)(last xs := None)) x" if "x \<in> set xs" for x
      using that dist e3 v3 end_mark_invalid [of "0xFFFF" d] by (auto simp: next_of_def)
    ultimately have "is_list (next_of d3) (Some (hd xs)) xs" using is_list_cong split by (metis hd_append)
    then have ch3: "chain d3 xs" using split cs(4) v3 e3 ly by (simp add: chain_def)
    have cd: "cluster_data x d3 = cluster_data x d" for x
      using same_fat_cluster [OF v2 ff(1)] cluster_data_disk [OF drv] fc(3) st(5) by simp
    have clean: "\<not> dirty_clusters d3 ! unat c" if "c \<in> set (last xs # ys)" for c
    proof -
      have v: "fat_valid_cluster c d2" using that vl vy same_drive_fields(13) [OF drv] by auto
      note b = valid_bounds [OF data_fits_wf(2) [OF v2] v]
      have "mn \<le> ucast c" "ucast c \<le> mx" using that fc(5-7) by auto
      then have "unat mn \<le> unat c" "unat c \<le> unat mx" using b(5) by (simp_all add: word_le_nat_alt)
      moreover have "unat c < unat (tableSize d2) div 2" using b(7,5) by (simp add: word_less_nat_alt unat_div)
      ultimately show ?thesis using ff(4) by blast
    qed
    have tl: "drop (m - 1) cs = last xs # ys" using Cons_nth_drop_Suc [of "m - 1" cs] ml cur by (simp add: ys_def)
    have run: "fat_shrink_cluster_chain (hd cs) oldSize newSize d = Some (if w then int (length ys) else - 1, d3)"
      using False cs(2) st(1) fc(1) fl u unfolding fat_shrink_cluster_chain_def Let_def oc_def [symmetric] nc_def [symmetric] fo by simp
    have "w \<longrightarrow> coherent d3" "ata_works d \<longrightarrow> w" using ff(2,3) coh same_drive_fields(12) [OF drv] by simp_all
    then show ?thesis unfolding xs_def [symmetric] ys_def [symmetric] tl cur [symmetric] run using cd ch3 e3 clean by auto
  qed
qed

theorem fat_shrink_file_witness:
  "\<exists>d'. fat_shrink_cluster_chain 2 100 0 (snd (fat_table_update_cluster 2 0xFFFF small_volume)) = Some (0, d') \<and> chain d' [2]"
proof -
  obtain u d where u: "fat_table_update_cluster 2 0xFFFF small_volume = (u, d)" by fastforce
  note s = small_chain [OF u]
  have n: "clusters_for 512 100 = 1" "clusters_for 512 0 = 1" by (simp_all add: clusters_for_def)
  have "length [2 :: u16] = clusters_for (unat (clusterSize d)) (unat (100::u32))" "unat (0::u32) \<le> unat (100::u32)" "unat (100::u32) \<le> 2 ^ 32 - 2 ^ 17"
    using s(5) n by simp_all
  from fat_shrink_file [OF s(1-3) this] show ?thesis using s(4,5) n u by auto
qed

end
