(* ===== verification/Fatdir.thy ===== *)
theory Fatdir
  imports Fatchain "HOL-Library.Monad_Syntax"
begin

text \<open>
  The directories of the FAT16 driver \<^verbatim>\<open>src/fat.c\<close>: entries in their 8.3 form, searching and updating a
  directory, and the resolution of paths. Strings are lists of bytes without their terminator. The result
  \<^const>\<open>None\<close> of an operation is undefined behaviour: a string that does not fit the array on the stack it is
  copied to, or a write through the result of an allocation that failed and is not checked.
\<close>

section \<open>Model\<close>

subsection \<open>Strings\<close>

type_synonym str = "u8 list"

definition strsplit_s :: "u8 \<Rightarrow> str \<Rightarrow> bool \<times> str \<times> str" where
  "strsplit_s splitat src =
     (let h = takeWhile (\<lambda>c. c \<noteq> splitat) src
      in if length h = length src then (False, src, []) else (True, h, drop (length h + 1) src))"

definition strsplit_last_s :: "u8 \<Rightarrow> str \<Rightarrow> bool \<times> str \<times> str" where
  "strsplit_last_s splitat src =
     (case fold (\<lambda>i found. if src ! i = splitat then Some i else found) [0..<length src] None of
        None \<Rightarrow> (False, src, [])
      | Some i \<Rightarrow> (True, take i src, drop (i + 1) src))"

definition upper :: "str \<Rightarrow> str" where
  "upper = map (\<lambda>c. if 97 \<le> c \<and> c \<le> 122 then c - 32 else c)"

text \<open>A string fits an array of \<open>n\<close> characters together with its terminator.\<close>

definition fits :: "nat \<Rightarrow> str \<Rightarrow> bool" where
  "fits n s \<longleftrightarrow> length s < n"

text \<open>The string in a field of fixed length, ended by the first space or zero.\<close>

definition field_str :: "str \<Rightarrow> str" where
  "field_str = takeWhile (\<lambda>c. c \<noteq> 32 \<and> c \<noteq> 0)"

subsection \<open>Directory entries\<close>

record fat_dir_t =
  filename :: "u8 list"
  attributes :: u8
  reserved :: u8
  creationTimeFine :: u8
  creationTime :: u16
  creationDate :: u16
  lastAccessDate :: u16
  dir_zero :: u16
  lastModifyTime :: u16
  lastModifyDate :: u16
  firstClusterNo :: u16
  fileSize :: u32

definition le_bytes :: "nat \<Rightarrow> nat \<Rightarrow> u8 list" where
  "le_bytes n v = map (\<lambda>i. of_nat (v div 256 ^ i)) [0..<n]"

definition dir_of :: "u8 list \<Rightarrow> fat_dir_t" where
  "dir_of b = \<lparr> filename = take 11 b, attributes = b ! 11, reserved = b ! 12, creationTimeFine = b ! 13,
     creationTime = of_nat (le b 14 2), creationDate = of_nat (le b 16 2), lastAccessDate = of_nat (le b 18 2),
     dir_zero = of_nat (le b 20 2), lastModifyTime = of_nat (le b 22 2), lastModifyDate = of_nat (le b 24 2),
     firstClusterNo = of_nat (le b 26 2), fileSize = of_nat (le b 28 4) \<rparr>"

definition dir_bytes :: "fat_dir_t \<Rightarrow> u8 list" where
  "dir_bytes e = filename e @ [attributes e, reserved e, creationTimeFine e] @ le_bytes 2 (unat (creationTime e))
     @ le_bytes 2 (unat (creationDate e)) @ le_bytes 2 (unat (lastAccessDate e)) @ le_bytes 2 (unat (dir_zero e))
     @ le_bytes 2 (unat (lastModifyTime e)) @ le_bytes 2 (unat (lastModifyDate e)) @ le_bytes 2 (unat (firstClusterNo e))
     @ le_bytes 4 (unat (fileSize e))"

definition empty_dir :: fat_dir_t where
  "empty_dir = dir_of (replicate 32 0)"

text \<open>Entry \<open>i\<close> of the buffer of a directory, and the buffer with it replaced.\<close>

definition dir_entry :: "u8 list \<Rightarrow> nat \<Rightarrow> fat_dir_t" where
  "dir_entry buf i = dir_of (take 32 (drop (32 * i) buf))"

definition put_entry :: "nat \<Rightarrow> fat_dir_t \<Rightarrow> u8 list \<Rightarrow> u8 list" where
  "put_entry i e buf = take (32 * i) buf @ dir_bytes e @ drop (32 * i + 32) buf"

definition entry_name :: "fat_dir_t \<Rightarrow> str" where
  "entry_name e = field_str (take 8 (filename e))"

definition entry_ext :: "fat_dir_t \<Rightarrow> str" where
  "entry_ext e = field_str (drop 8 (filename e))"

definition fat_entry_matches_filename :: "fat_dir_t \<Rightarrow> str \<Rightarrow> str \<Rightarrow> bool" where
  "fat_entry_matches_filename e name ext \<longleftrightarrow> upper (entry_name e) = upper name \<and> upper (entry_ext e) = upper ext"

subsection \<open>Reading a directory\<close>

definition rootDirAddr :: "'a fat_t_scheme \<Rightarrow> u32" where
  "rootDirAddr d = rootSector d * ucast (bytesPerSector d) + baseAddr"

definition fat_read_root :: "'a fat_t_scheme \<Rightarrow> u8 list option \<times> 'a fat_t_scheme" where
  "fat_read_root d = ata_read_exact (rootDirAddr d) (32 * ucast (noRootEntries d)) d"

text \<open>The buffer of a directory: where it is on the disk, its size and its number of entries.\<close>

definition dir_place :: "bool \<Rightarrow> u16 \<Rightarrow> 'a fat_t_scheme \<Rightarrow> u32 \<times> u32 \<times> nat" where
  "dir_place inroot clusterNo d =
     (if inroot then (rootDirAddr d, 32 * ucast (noRootEntries d), unat (noRootEntries d))
      else (clusterAddr clusterNo d, clusterSize d, unat (clusterSize d div 32)))"

text \<open>The entries before the first unused one, without the deleted ones.\<close>

definition live :: "u8 list \<Rightarrow> nat \<Rightarrow> nat list" where
  "live buf n = filter (\<lambda>i. filename (dir_entry buf i) ! 0 \<noteq> 0xE5) (takeWhile (\<lambda>i. filename (dir_entry buf i) ! 0 \<noteq> 0) [0..<n])"

definition fat_get_dir_size :: "u16 \<Rightarrow> 'a fat_t_scheme \<Rightarrow> int \<times> 'a fat_t_scheme" where
  "fat_get_dir_size clusterNo d =
     (let (addr, sz, n) = dir_place (clusterNo = 0) clusterNo d
      in case ata_read_exact addr sz d of
           (None, d1) \<Rightarrow> (- 1, d1)
         | (Some buf, d1) \<Rightarrow> (int (length (live buf n)), d1))"

definition fat_read_dir :: "u16 \<Rightarrow> 'a fat_t_scheme \<Rightarrow> fat_dir_t list option \<times> 'a fat_t_scheme" where
  "fat_read_dir clusterNo d =
     (case ata_read_exact (clusterAddr clusterNo d) (clusterSize d) d of
        (None, d1) \<Rightarrow> (None, d1)
      | (Some buf, d1) \<Rightarrow> (Some (map (dir_entry buf) (live buf (unat (clusterSize d div 32)))), d1))"

definition find_entry :: "u8 list \<Rightarrow> nat \<Rightarrow> str \<Rightarrow> str \<Rightarrow> nat option" where
  "find_entry buf n name ext = List.find (\<lambda>i. fat_entry_matches_filename (dir_entry buf i) name ext) (live buf n)"

text \<open>The copy of an entry that a search returns is allocated.\<close>

definition new_copy :: "fat_dir_t \<Rightarrow> 'a fat_t_scheme \<Rightarrow> (fat_dir_t option \<times> 'a fat_t_scheme) option" where
  "new_copy e d = (let (ok, d1) = buf_malloc d in if ok then Some (Some e, d1) else None)"

definition fat_find_in_root :: "str \<Rightarrow> str \<Rightarrow> 'a fat_t_scheme \<Rightarrow> (fat_dir_t option \<times> 'a fat_t_scheme) option" where
  "fat_find_in_root name ext d =
     (case fat_read_root d of
        (None, d1) \<Rightarrow> Some (None, d1)
      | (Some buf, d1) \<Rightarrow>
          let (ok, d2) = buf_malloc d1
          in case find_entry buf (unat (noRootEntries d)) name ext of
               None \<Rightarrow> Some (None, d2)
             | Some i \<Rightarrow> if ok then Some (Some (dir_entry buf i), d2) else None)"

definition fat_find_in_dir :: "u16 \<Rightarrow> str \<Rightarrow> str \<Rightarrow> 'a fat_t_scheme \<Rightarrow> (fat_dir_t option \<times> 'a fat_t_scheme) option" where
  "fat_find_in_dir clusterNo name ext d =
     (case ata_read_exact (clusterAddr clusterNo d) (clusterSize d) d of
        (None, d1) \<Rightarrow> Some (None, d1)
      | (Some buf, d1) \<Rightarrow>
          if take 2 name = [46, 46] then new_copy (dir_entry buf 1) d1
          else (case find_entry buf (unat (clusterSize d div 32)) name ext of
                  None \<Rightarrow> Some (None, d1)
                | Some i \<Rightarrow> new_copy (dir_entry buf i) d1))"

definition fat_update_in_dir :: "u16 \<Rightarrow> str \<Rightarrow> str \<Rightarrow> fat_dir_t \<Rightarrow> 'a fat_t_scheme \<Rightarrow> bool \<times> 'a fat_t_scheme" where
  "fat_update_in_dir clusterNo name ext e d =
     (let (addr, sz, n) = dir_place (clusterNo = 0) clusterNo d
      in case ata_read_exact addr sz d of
           (None, d1) \<Rightarrow> (False, d1)
         | (Some buf, d1) \<Rightarrow>
             (case find_entry buf n name ext of
                None \<Rightarrow> (False, d1)
              | Some i \<Rightarrow> ata_write_exact addr (put_entry i e buf) d1))"

subsection \<open>Paths\<close>

text \<open>
  \<open>fat_follow_path_chain\<close> returns the directory it was given (the same pointer), a fresh copy of an entry, or \<open>NULL\<close>.
\<close>

datatype followed = Same | Found fat_dir_t | Missing

definition found_of :: "fat_dir_t option \<times> 'd \<Rightarrow> followed \<times> 'd" where
  "found_of r = (case fst r of None \<Rightarrow> Missing | Some e \<Rightarrow> Found e, snd r)"

definition fat_follow_path_chain :: "str \<Rightarrow> fat_dir_t option \<Rightarrow> 'a fat_t_scheme \<Rightarrow> (followed \<times> 'a fat_t_scheme) option" where
  "fat_follow_path_chain pathElement dir d =
     (if length pathElement = 0 then Some (Same, d)
      else if length pathElement > 12 then Some (Missing, d)
      else if pathElement = [46] then Some (Same, d)
      else let (r, name, ext) = (if pathElement = [46, 46] then (False, pathElement, []) else strsplit_s 46 pathElement)
           in if \<not> fits 9 name \<or> \<not> fits 4 ext then None
              else map_option found_of
                (case dir of None \<Rightarrow> fat_find_in_root name ext d | Some e \<Rightarrow> fat_find_in_dir (firstClusterNo e) name ext d))"

lemma strsplit_shorter: "strsplit_s c s = (True, h, t) \<Longrightarrow> length t < length s"
proof -
  assume "strsplit_s c s = (True, h, t)"
  then have "t = drop (length (takeWhile (\<lambda>x. x \<noteq> c) s) + 1) s" "s \<noteq> []"
    by (auto simp: strsplit_s_def Let_def split: if_splits)
  then show ?thesis by (cases s) auto
qed

text \<open>
  The loop over the elements of a path: \<open>i\<close> is their number so far, \<open>cur\<close> the current directory (\<^const>\<open>None\<close> is \<open>NULL\<close>,
  the root). It ends with \<^const>\<open>None\<close> when an element is missing, or with the directory reached and the last element.
\<close>

function parse_loop :: "str \<Rightarrow> fat_dir_t option \<Rightarrow> nat \<Rightarrow> 'a fat_t_scheme \<Rightarrow> ((fat_dir_t option \<times> str) option \<times> 'a fat_t_scheme) option" where
  "parse_loop pathRemaining cur i d =
     (case strsplit_s 47 pathRemaining of
        (False, h, t) \<Rightarrow> Some (Some (cur, pathRemaining), d)
      | (True, pathElement, tmp) \<Rightarrow>
          (case fat_follow_path_chain pathElement cur d of
             None \<Rightarrow> None
           | Some (f, d1) \<Rightarrow>
               if f = Same \<or> f = Missing \<and> cur = None then parse_loop tmp (if i = 0 then None else cur) (i + 1) d1
               else (case f of Found e \<Rightarrow> parse_loop tmp (Some e) (i + 1) d1 | _ \<Rightarrow> Some (None, d1))))"
  by pat_completeness auto
termination by (relation "measure (\<lambda>(p, cur, i, d). length p)") (auto dest: strsplit_shorter [OF sym])

declare parse_loop.simps [simp del]

definition fat_parse_path :: "str \<Rightarrow> bool \<Rightarrow> 'a fat_t_scheme \<Rightarrow> (fat_dir_t option \<times> 'a fat_t_scheme) option" where
  "fat_parse_path path isFile d =
     (let (ok1, d1) = buf_malloc d; (ok2, d2) = buf_malloc d1; (ok3, d3) = buf_malloc d2
      in if \<not> ok1 \<or> \<not> ok2 \<or> \<not> ok3 then None
         else case parse_loop path None 0 d3 of
                None \<Rightarrow> None
              | Some (None, d4) \<Rightarrow> Some (None, d4)
              | Some (Some (cur, rest), d4) \<Rightarrow>
                  if \<not> isFile then Some (cur, d4)
                  else (case fat_follow_path_chain rest cur d4 of
                          None \<Rightarrow> None
                        | Some (f, d5) \<Rightarrow> Some (case f of Same \<Rightarrow> cur | Found e \<Rightarrow> Some e | Missing \<Rightarrow> None, d5)))"


section \<open>Reading leaves the volume alone\<close>

text \<open>What reads and allocations leave alone.\<close>

definition unchanged :: "'a fat_t_scheme \<Rightarrow> 'a fat_t_scheme \<Rightarrow> bool" where
  "unchanged d d' \<longleftrightarrow> same_drive d d' \<and> fat_table d' = fat_table d \<and> dirty_clusters d' = dirty_clusters d \<and> disk d' = disk d"

lemma unchanged_refl [simp]: "unchanged d d"
  by (simp add: unchanged_def)

lemma unchanged_trans: "unchanged d d1 \<Longrightarrow> unchanged d1 d2 \<Longrightarrow> unchanged d d2"
  by (auto simp: unchanged_def intro: same_drive_trans)

lemma unchanged_fields:
  assumes "unchanged d d'"
  shows "entry d' = entry d" "next_of d' = next_of d" "cluster_data c d' = cluster_data c d" "file_data cs d' = file_data cs d" "chain d' cs = chain d cs"
    "data_fits d' = data_fits d" "ata_works d' = ata_works d" "fat_valid_cluster c d' = fat_valid_cluster c d" "clusterSize d' = clusterSize d"
proof -
  have dr: "same_drive d d'" using assms by (simp add: unchanged_def)
  note e = same_drive_fields [OF dr]
  show en: "entry d' = entry d" using assms by (simp add: unchanged_def entry_def fun_eq_iff)
  show nx: "next_of d' = next_of d" using en e(13) by (simp add: next_of_def fun_eq_iff)
  show "chain d' cs = chain d cs" using nx en e(13) by (simp add: chain_def)
  have cd: "cluster_data c d' = cluster_data c d" for c using cluster_data_disk [OF dr] assms by (simp add: unchanged_def)
  then show "cluster_data c d' = cluster_data c d" "file_data cs d' = file_data cs d" by (simp_all add: file_data_def)
  show "data_fits d' = data_fits d" "ata_works d' = ata_works d" "fat_valid_cluster c d' = fat_valid_cluster c d" "clusterSize d' = clusterSize d" using e by simp_all
qed

lemma unchanged_read:
  assumes "data_fits d" "fat_valid_cluster c d" "ata_read_exact (clusterAddr c d) (clusterSize d) d = (r, d')"
  shows "unchanged d d'" "r = Some (cluster_data c d) \<or> r = None \<and> \<not> ata_works d"
  using read_cluster [OF assms] by (simp_all add: unchanged_def)

lemma unchanged_malloc: "buf_malloc d = (ok, d') \<Longrightarrow> unchanged d d'" for d :: "'a fat_t_scheme"
  using malloc_frame [of d ok d'] by (simp add: unchanged_def)

lemma unchanged_read_any:
  fixes d :: "'a fat_t_scheme"
  assumes "ata_read_exact a n d = (r, d')"
  shows "unchanged d d'"
proof -
  have "same_volume d d'" "fat_table d' = fat_table d" "dirty_clusters d' = dirty_clusters d" using ata_read_fat [OF assms] by simp_all
  moreover have "ata_base_lba d' = ata_base_lba d" "ata_partition_sectors d' = ata_partition_sectors d" "ata_works d' = ata_works d" "disk d' = disk d"
    using same_disk_read [OF assms] by (auto simp: same_disk_def ata_works_def)
  ultimately show ?thesis by (simp add: unchanged_def same_drive_def)
qed

lemma unchanged_find_root: "fat_find_in_root name ext d = Some (r, d') \<Longrightarrow> unchanged d d'"
  unfolding fat_find_in_root_def fat_read_root_def Let_def
  by (auto split: prod.splits option.splits if_splits dest!: unchanged_read_any unchanged_malloc intro: unchanged_trans)

lemma unchanged_find_dir: "fat_find_in_dir c name ext d = Some (r, d') \<Longrightarrow> unchanged d d'"
  unfolding fat_find_in_dir_def new_copy_def Let_def
  by (auto split: prod.splits option.splits if_splits dest!: unchanged_read_any unchanged_malloc intro: unchanged_trans)

lemma unchanged_follow: "fat_follow_path_chain el dir d = Some (f, d') \<Longrightarrow> unchanged d d'"
  unfolding fat_follow_path_chain_def Let_def
  by (auto simp: found_of_def split: prod.splits option.splits if_splits dest: unchanged_find_root unchanged_find_dir)

section \<open>Entries and buffers\<close>

lemma le_bytes_Suc: "le_bytes (Suc n) v = of_nat v # le_bytes n (v div 256)"
proof -
  have "[0..<Suc n] = 0 # map Suc [0..<n]" by (simp add: upt_conv_Cons map_Suc_upt del: upt_Suc)
  then show ?thesis by (simp add: le_bytes_def div_mult2_eq del: upt_Suc)
qed

lemma length_le_bytes [simp]: "length (le_bytes n v) = n"
  by (simp add: le_bytes_def)

lemma le_le_bytes: "le (xs @ le_bytes n v @ ys) (length xs) n = v mod 256 ^ n"
proof (induction n arbitrary: xs v)
  case (Suc n)
  have "le (xs @ le_bytes (Suc n) v @ ys) (length xs) (Suc n) = v mod 256 + 256 * le ((xs @ [of_nat v]) @ le_bytes n (v div 256) @ ys) (length (xs @ [of_nat v])) n"
    by (simp add: le_bytes_Suc unsigned_of_nat take_bit_eq_mod)
  also have "\<dots> = v mod 256 + 256 * (v div 256 mod 256 ^ n)" using Suc.IH [of "xs @ [of_nat v]" "v div 256"] by simp
  finally show ?case by (simp add: mod_mult2_eq)
qed simp

lemma length_dir_bytes: "length (filename e) = 11 \<Longrightarrow> length (dir_bytes e) = 32"
  by (simp add: dir_bytes_def)

lemma of_nat_unat_mod:
  "of_nat (unat w mod 256 ^ 2) = w" "of_nat (unat v mod 256 ^ 4) = v" for w :: u16 and v :: u32
  using unsigned_less [of w, where 'a = nat] unsigned_less [of v, where 'a = nat] by simp_all

text \<open>Reading an entry back from its bytes.\<close>

lemma dir_of_bytes:
  assumes "length (filename e) = 11"
  shows "dir_of (dir_bytes e) = e"
proof -
  note b = dir_bytes_def [of e]
  let ?n = "filename e @ [attributes e, reserved e, creationTimeFine e]"
  define w where "w x = le_bytes 2 (unat (x :: u16))" for x
  have w: "length (w x) = 2" for x by (simp add: w_def)
  have le: "le (xs @ w x @ ys) (length xs) 2 = unat x mod 256 ^ 2" for xs ys x using le_le_bytes [of xs 2 "unat x" ys] by (simp add: w_def)
  note b' = b [folded w_def]
  have "le (dir_bytes e) 14 2 = unat (creationTime e) mod 256 ^ 2"
    using le [of ?n "creationTime e"] unfolding b' by (simp add: assms)
  moreover have "le (dir_bytes e) 16 2 = unat (creationDate e) mod 256 ^ 2"
    using le [of "?n @ w (creationTime e)" "creationDate e"] unfolding b' by (simp add: assms w)
  moreover have "le (dir_bytes e) 18 2 = unat (lastAccessDate e) mod 256 ^ 2"
    using le [of "?n @ w (creationTime e) @ w (creationDate e)" "lastAccessDate e"] unfolding b' by (simp add: assms w)
  moreover have "le (dir_bytes e) 20 2 = unat (dir_zero e) mod 256 ^ 2"
    using le [of "?n @ w (creationTime e) @ w (creationDate e) @ w (lastAccessDate e)" "dir_zero e"] unfolding b' by (simp add: assms w)
  moreover have "le (dir_bytes e) 22 2 = unat (lastModifyTime e) mod 256 ^ 2"
    using le [of "?n @ w (creationTime e) @ w (creationDate e) @ w (lastAccessDate e) @ w (dir_zero e)" "lastModifyTime e"]
    unfolding b' by (simp add: assms w)
  moreover have "le (dir_bytes e) 24 2 = unat (lastModifyDate e) mod 256 ^ 2"
    using le [of "?n @ w (creationTime e) @ w (creationDate e) @ w (lastAccessDate e) @ w (dir_zero e) @ w (lastModifyTime e)" "lastModifyDate e"]
    unfolding b' by (simp add: assms w)
  moreover have "le (dir_bytes e) 26 2 = unat (firstClusterNo e) mod 256 ^ 2"
    using le [of "?n @ w (creationTime e) @ w (creationDate e) @ w (lastAccessDate e) @ w (dir_zero e) @ w (lastModifyTime e) @ w (lastModifyDate e)" "firstClusterNo e"]
    unfolding b' by (simp add: assms w)
  moreover have "le (dir_bytes e) 28 4 = unat (fileSize e) mod 256 ^ 4"
    using le_le_bytes [of "?n @ w (creationTime e) @ w (creationDate e) @ w (lastAccessDate e) @ w (dir_zero e) @ w (lastModifyTime e) @ w (lastModifyDate e) @ w (firstClusterNo e)" 4 "unat (fileSize e)" "[]"]
    unfolding b' by (simp add: assms w)
  moreover have "take 11 (dir_bytes e) = filename e" "dir_bytes e ! 11 = attributes e" "dir_bytes e ! 12 = reserved e" "dir_bytes e ! 13 = creationTimeFine e"
    by (simp_all add: b assms nth_append)
  ultimately show ?thesis unfolding dir_of_def by (simp only: of_nat_unat_mod) simp
qed

lemma length_put_entry: "length (filename e) = 11 \<Longrightarrow> 32 * i + 32 \<le> length buf \<Longrightarrow> length (put_entry i e buf) = length buf"
  by (simp add: put_entry_def length_dir_bytes)

lemma dir_entry_put:
  assumes "length (filename e) = 11" "32 * n \<le> length buf" "i < n" "j < n"
  shows "dir_entry (put_entry i e buf) j = (if j = i then e else dir_entry buf j)"
proof (cases "j = i")
  case True
  have "drop (32 * i) (put_entry i e buf) = dir_bytes e @ drop (32 * i + 32) buf" using assms by (simp add: put_entry_def)
  then show ?thesis using True assms(1) by (simp add: dir_entry_def length_dir_bytes dir_of_bytes)
next
  case False
  have "take 32 (drop (32 * j) (put_entry i e buf)) = take 32 (drop (32 * j) buf)"
  proof (cases "j < i")
    case True
    then have "32 * j + 32 \<le> 32 * i" by simp
    then show ?thesis using assms by (simp add: put_entry_def drop_take min_absorb1)
  next
    case False
    then have "32 * i + 32 \<le> 32 * j" using \<open>j \<noteq> i\<close> by simp
    then obtain k where k: "32 * j = 32 * i + 32 + k" using le_Suc_ex by blast
    have l: "length (take (32 * i) buf) = 32 * i" "length (dir_bytes e) = 32" using assms by (simp_all add: length_dir_bytes)
    have "drop (32 * j) (put_entry i e buf) = drop (32 * j) buf"
      unfolding put_entry_def k using l by (simp add: add.assoc add.commute)
    then show ?thesis by simp
  qed
  then show ?thesis using False by (simp add: dir_entry_def)
qed

end
