(* ===== verification/Fatfile.thy ===== *)
theory Fatfile
  imports Fatdir Usermem
begin

text \<open>
  The operations on files of \<^verbatim>\<open>src/fat.c\<close>: creating, resizing, reading, writing, renaming and deleting. They work
  on the state \<open>d\<close> of the volume; reading and writing also use the memory of a task, in the state \<open>s\<close> of the
  kernel. Where the code yields to other tasks the lock of the file system is held, so \<open>d\<close> stays as it is, and the
  parameter \<open>env\<close> is what the other tasks do to \<open>s\<close>.
\<close>

section \<open>Model\<close>

subsection \<open>Creating\<close>

definition name_field :: "str \<Rightarrow> str \<Rightarrow> u8 list" where
  "name_field name ext = take 8 (name @ replicate 8 32) @ take 3 (ext @ replicate 3 32)"

text \<open>The search for a place for a new entry.\<close>

datatype placed = Exists | Placed nat | Full

fun free_slot :: "u8 list \<Rightarrow> u8 list \<Rightarrow> nat list \<Rightarrow> placed" where
  "free_slot buf fname [] = Full"
| "free_slot buf fname (i # is) =
     (if filename (dir_entry buf i) = fname then Exists
      else if filename (dir_entry buf i) ! 0 = 0 then Placed i
      else free_slot buf fname is)"

text \<open>A path split into the path of the parent, \<open>/\<close> for the root, and the last element.\<close>

definition split_path :: "str \<Rightarrow> str \<times> str" where
  "split_path path = (case strsplit_last_s 47 path of (r, parent, name) \<Rightarrow> (if parent = [] then [47] else parent, name))"

definition release_cluster :: "u16 \<Rightarrow> 'a fat_t_scheme \<Rightarrow> 'a fat_t_scheme" where
  "release_cluster c d =
     (let (u, d1) = fat_table_update_cluster (ucast c) 0 d in snd (fat_table_flush_cache (ucast c) (ucast c) d1))"

definition fat_new_file :: "str \<Rightarrow> 'a fat_t_scheme \<Rightarrow> (bool \<times> 'a fat_t_scheme) option" where
  "fat_new_file path d =
     (let (parentpath, full) = split_path path; inroot = (parentpath = [47])
      in if \<not> fits 256 parentpath \<or> \<not> fits 256 full then None
         else if length full > 11 then Some (False, d)
         else do {
           (parent, d1) \<leftarrow> fat_parse_path parentpath True d;
           if \<not> inroot \<and> parent = None then Some (False, d1)
           else let (ok, d2) = buf_malloc d1; (r, name, ext) = strsplit_s 46 (upper full)
                in if \<not> ok \<or> \<not> fits 9 name \<or> \<not> fits 4 ext then None
                   else do {
                     freeCluster \<leftarrow> find_free 2 d2;
                     if ucast freeCluster \<ge> noClusters d2 then Some (False, d2)
                     else let e = empty_dir\<lparr> filename := name_field name ext, attributes := 0x20, firstClusterNo := freeCluster \<rparr>;
                              (addr, sz, n) = dir_place inroot (if inroot then 0 else firstClusterNo (the parent)) d2
                          in case ata_read_exact addr sz d2 of
                               (None, d3) \<Rightarrow> Some (False, d3)
                             | (Some buf, d3) \<Rightarrow>
                                 (case free_slot buf (filename e) [0..<n] of
                                    Exists \<Rightarrow> Some (False, d3)
                                  | place \<Rightarrow>
                                      let (found, d4) =
                                        (case place of
                                           Placed i \<Rightarrow>
                                             let (w, d4) = ata_write_exact addr (put_entry i e buf) d3
                                             in if \<not> w then (False, d4)
                                                else let (u, d5) = fat_table_update_cluster (ucast freeCluster) 0xFFFF d4
                                                     in if \<not> u then (False, d5)
                                                        else fat_table_flush_cache (ucast freeCluster) (ucast freeCluster) d5
                                         | _ \<Rightarrow> (False, d3))
                                      in Some (found, if \<not> found \<and> entry d4 freeCluster \<noteq> 0 then release_cluster freeCluster d4 else d4)) } })"

definition dot_entries :: "u16 \<Rightarrow> u16 \<Rightarrow> u8 list" where
  "dot_entries self parent =
     dir_bytes (empty_dir\<lparr> filename := 46 # replicate 10 32, attributes := 0x12, firstClusterNo := self \<rparr>)
     @ dir_bytes (empty_dir\<lparr> filename := 46 # 46 # replicate 9 32, attributes := 0x12, firstClusterNo := parent \<rparr>)"

text \<open>
  The name of a new directory is eight bytes of the array it was copied to: after a shorter name and its terminator
  these are whatever the stack held there, the parameter \<open>junk\<close>.
\<close>

definition dir_name_bytes :: "str \<Rightarrow> (nat \<Rightarrow> u8) \<Rightarrow> u8 list" where
  "dir_name_bytes dirname junk =
     map (\<lambda>i. if i < length dirname then upper dirname ! i else if i = length dirname then 0 else junk i) [0..<8]"

definition fat_new_dir :: "(nat \<Rightarrow> u8) \<Rightarrow> str \<Rightarrow> 'a fat_t_scheme \<Rightarrow> (bool \<times> 'a fat_t_scheme) option" where
  "fat_new_dir junk path d =
     (let (parentpath, dirname) = split_path path; inroot = (parentpath = [47])
      in if \<not> fits 256 parentpath \<or> \<not> fits 256 dirname then None
         else if length dirname > 8 then Some (False, d)
         else do {
           (parent, d1) \<leftarrow> (if inroot then Some (None, d) else fat_parse_path parentpath True d);
           if \<not> inroot \<and> parent = None then Some (False, d1)
           else let (ok, d2) = buf_malloc d1
                in if \<not> ok then None
                   else do {
                     freeCluster \<leftarrow> find_free 2 d2;
                     if ucast freeCluster \<ge> noClusters d2 then Some (False, d2)
                     else let (u, d3) = fat_table_update_cluster (ucast freeCluster) 0xFFFF d2
                          in if \<not> u then Some (False, d3)
                             else let parentCluster = (if inroot then 0 else firstClusterNo (the parent));
                                      e = empty_dir\<lparr> filename := dir_name_bytes dirname junk @ replicate 3 32, attributes := 0x10, firstClusterNo := freeCluster \<rparr>;
                                      (okb, d4) = buf_malloc d3
                                  in if \<not> okb then None
                                     else let dots = dot_entries freeCluster parentCluster;
                                              cbuf = dots @ replicate (unat (clusterSize d4) - length dots) 0;
                                              (w, d5) = ata_write_exact (clusterAddr freeCluster d4) cbuf d4
                                          in if \<not> w then Some (False, snd (fat_table_update_cluster (ucast freeCluster) 0 d5))
                                             else let (addr, sz, n) = dir_place inroot parentCluster d5;
                                                      (buf, d6) = ata_read_exact addr sz d5;
                                                      (success, d7) =
                                                        (case buf of
                                                           None \<Rightarrow> (False, d6)
                                                         | Some b \<Rightarrow>
                                                             (case free_slot b (filename e) [0..<n] of
                                                                Placed i \<Rightarrow>
                                                                  let (w2, d7) = ata_write_exact addr (put_entry i e b) d6
                                                                  in if \<not> w2 then (False, d7)
                                                                     else fat_table_flush_cache (ucast freeCluster) (ucast freeCluster) d7
                                                              | _ \<Rightarrow> (False, d6)))
                                                  in Some (success, if success then d7 else release_cluster freeCluster d7) } })"


subsection \<open>Resizing\<close>

definition in_root :: "str \<Rightarrow> bool" where
  "in_root path = (case strsplit_last_s 47 path of (r, parent, name) \<Rightarrow> parent = [47] \<or> parent = [])"

text \<open>The new size of a file is stored in its entry.\<close>

definition store_size :: "str \<Rightarrow> fat_dir_t \<Rightarrow> u32 \<Rightarrow> int \<Rightarrow> 'a fat_t_scheme \<Rightarrow> (int \<times> 'a fat_t_scheme) option" where
  "store_size path dir sz result d =
     do { (parentDir, d1) \<leftarrow> fat_parse_path path False d;
          if \<not> in_root path \<and> parentDir = None then Some (- 3, d1)
          else let firstCluster = (if in_root path then 0 else firstClusterNo (the parentDir));
                   (ok, d2) = fat_update_in_dir firstCluster (entry_name dir) (entry_ext dir) (dir\<lparr> fileSize := sz \<rparr>) d1
               in Some (if ok then result else - 3, d2) }"

definition fat_resize_file :: "str \<Rightarrow> u32 \<Rightarrow> 'a fat_t_scheme \<Rightarrow> (int \<times> 'a fat_t_scheme) option" where
  "fat_resize_file path sz d =
     do { (file, d1) \<leftarrow> fat_parse_path path True d;
          case file of
            None \<Rightarrow> Some (- 1, d1)
          | Some dir \<Rightarrow>
              if \<not> fits 256 (fst (snd (strsplit_last_s 47 path))) then None
              else if sz < fileSize dir then
                do { (freed, d2) \<leftarrow> fat_shrink_cluster_chain (firstClusterNo dir) (fileSize dir) sz d1;
                     if freed < 0 then Some (- 2, d2) else store_size path dir sz 0 d2 }
              else if sz > fileSize dir then
                do { (allocated, d2) \<leftarrow> fat_extend_cluster_chain (firstClusterNo dir) (fileSize dir) sz d1;
                     if allocated < 0 then Some (- 2, d2) else store_size path dir sz 0 d2 }
              else Some (0, d1) }"

subsection \<open>Writing\<close>

text \<open>The \<open>n\<close> clusters before an offset; \<^const>\<open>None\<close> when the chain ends before.\<close>

fun skip_clusters :: "nat \<Rightarrow> u16 \<Rightarrow> 'a fat_t_scheme \<Rightarrow> u16 option" where
  "skip_clusters 0 cur d = Some cur"
| "skip_clusters (Suc n) cur d = (if \<not> fat_valid_cluster (entry d cur) d then None else skip_clusters n (entry d cur) d)"

text \<open>The bytes at the buffer of the caller; \<^const>\<open>None\<close> is a page fault.\<close>

definition buffer_bytes :: "int \<Rightarrow> u32 \<Rightarrow> nat \<Rightarrow> 'k kern_t_scheme \<Rightarrow> u8 list option" where
  "buffer_bytes task buffer n s =
     (if task < 0 then Some (map (\<lambda>i. phys_mem s (buffer + of_nat i)) [0..<n]) else load_bytes (current_page_dir s) buffer n s)"

text \<open>
  One cluster: part of it is read first and written back, a whole one is written at once. The result says whether
  the write succeeded, \<^const>\<open>None\<close> that the cluster could not be read.
\<close>

definition put_cluster :: "u16 \<Rightarrow> nat \<Rightarrow> nat \<Rightarrow> u8 list \<Rightarrow> 'a fat_t_scheme \<Rightarrow> bool option \<times> 'a fat_t_scheme" where
  "put_cluster curCluster write_offset bytesRemaining bytes d =
     (if write_offset > 0 \<or> bytesRemaining < unat (clusterSize d) then
        (case ata_read_exact (clusterAddr curCluster d) (clusterSize d) d of
           (None, d1) \<Rightarrow> (None, d1)
         | (Some b, d1) \<Rightarrow>
             let (w, d2) = ata_write_exact (clusterAddr curCluster d) (take write_offset b @ bytes @ drop (write_offset + length bytes) b) d1
             in (Some w, d2))
      else let (w, d1) = ata_write_exact (clusterAddr curCluster d) bytes d in (Some w, d1))"

text \<open>
  The loop over the clusters: it returns the number of bytes written, or \<^const>\<open>None\<close> in that place when a cluster could
  not be read (result \<open>-4\<close>).
\<close>

partial_function (option) write_loop ::
    "('k kern_t_scheme \<Rightarrow> 'k kern_t_scheme) \<Rightarrow> int \<Rightarrow> u32 \<Rightarrow> u16 \<Rightarrow> nat \<Rightarrow> nat \<Rightarrow> nat \<Rightarrow> 'a fat_t_scheme \<Rightarrow> 'k kern_t_scheme
      \<Rightarrow> (nat option \<times> 'a fat_t_scheme \<times> 'k kern_t_scheme) option" where
  "write_loop env task buffer curCluster write_offset bytesRemaining bytesWritten d s =
     (if bytesRemaining > 0 then
        let csize = unat (clusterSize d);
            consumed = (if csize - write_offset > bytesRemaining then bytesRemaining else csize - write_offset)
        in if task \<ge> 0 \<and> \<not> task_validate_mem (nat task) (buffer + of_nat bytesWritten) (int consumed) False s
           then Some (Some bytesWritten, d, s)
           else do {
             bytes \<leftarrow> buffer_bytes task (buffer + of_nat bytesWritten) consumed s;
             case put_cluster curCluster write_offset bytesRemaining bytes d of
               (None, d1) \<Rightarrow> Some (None, d1, s)
             | (Some w, d1) \<Rightarrow>
                 if \<not> w then Some (Some bytesWritten, d1, s)
                 else if \<not> fat_valid_cluster (entry d1 curCluster) d1 then Some (Some (bytesWritten + consumed), d1, s)
                 else write_loop env task buffer (entry d1 curCluster) 0 (bytesRemaining - consumed) (bytesWritten + consumed) d1 (env s) }
      else Some (Some bytesWritten, d, s))"

definition fat_write_file_at :: "('k kern_t_scheme \<Rightarrow> 'k kern_t_scheme) \<Rightarrow> str \<Rightarrow> u32 \<Rightarrow> u32 \<Rightarrow> u32 \<Rightarrow> int \<Rightarrow> 'a fat_t_scheme \<Rightarrow> 'k kern_t_scheme
    \<Rightarrow> (int \<times> 'a fat_t_scheme \<times> 'k kern_t_scheme) option" where
  "fat_write_file_at env path buffer offset sz task d s =
     do { (file, d1) \<leftarrow> fat_parse_path path True d;
          case file of
            None \<Rightarrow> Some (- 1, d1, s)
          | Some dir \<Rightarrow>
              if \<not> fits 256 (fst (snd (strsplit_last_s 47 path))) then None
              else if \<not> fat_valid_cluster (firstClusterNo dir) d1 then Some (- 1, d1, s)
              else do {
                (allocated, d2) \<leftarrow> (if offset + sz > fileSize dir then fat_extend_cluster_chain (firstClusterNo dir) (fileSize dir) (offset + sz) d1
                                  else Some (0, d1));
                if allocated < 0 then Some (- 2, d2, s)
                else case skip_clusters (unat (offset div clusterSize d2)) (firstClusterNo dir) d2 of
                       None \<Rightarrow> Some (- 3, d2, s)
                     | Some cur \<Rightarrow>
                         do { (w, d3, s1) \<leftarrow> write_loop env task buffer cur (unat (offset mod clusterSize d2)) (unat sz) 0 d2 s;
                              case w of
                                None \<Rightarrow> Some (- 4, d3, s1)
                              | Some written \<Rightarrow>
                                  if offset + of_nat written > fileSize dir then
                                    map_option (\<lambda>(r, d4). (r, d4, s1)) (store_size path dir (offset + of_nat written) (s32 (int written)) d3)
                                  else Some (s32 (int written), d3, s1) } } }"

subsection \<open>Reading\<close>

partial_function (option) read_user_loop ::
    "('k kern_t_scheme \<Rightarrow> 'k kern_t_scheme) \<Rightarrow> int \<Rightarrow> u32 \<Rightarrow> nat \<Rightarrow> u16 \<Rightarrow> nat \<Rightarrow> nat \<Rightarrow> 'a fat_t_scheme \<Rightarrow> 'k kern_t_scheme
      \<Rightarrow> (nat \<times> 'a fat_t_scheme \<times> 'k kern_t_scheme) option" where
  "read_user_loop env task buffer sz curCluster offset readBytes d s =
     (let diskAddr = clusterAddr curCluster d + of_nat offset;
          rest = unat (clusterSize d) - offset;
          clusterReadSize = (if readBytes + rest > sz then sz - readBytes else rest)
      in case ata_read_exact_into diskAddr (of_nat clusterReadSize) d of
           (None, d1) \<Rightarrow> Some (readBytes, d1, s)
         | (Some bytes, d1) \<Rightarrow>
             do { (written, s1) \<leftarrow> copy_to_task task (buffer + of_nat readBytes) bytes s;
                  if written < 0 then Some (readBytes, d1, s1)
                  else let readBytes1 = readBytes + nat written
                       in if readBytes1 \<ge> sz \<or> nat written < clusterReadSize then Some (readBytes1, d1, s1)
                          else if \<not> fat_valid_cluster (entry d1 curCluster) d1 then Some (readBytes1, d1, s1)
                          else read_user_loop env task buffer sz (entry d1 curCluster) 0 readBytes1 d1 (env s1) })"

definition fat_read_file_user :: "('k kern_t_scheme \<Rightarrow> 'k kern_t_scheme) \<Rightarrow> u16 \<Rightarrow> u32 \<Rightarrow> u32 \<Rightarrow> u32 \<Rightarrow> int \<Rightarrow> 'a fat_t_scheme \<Rightarrow> 'k kern_t_scheme
    \<Rightarrow> (int \<times> 'a fat_t_scheme \<times> 'k kern_t_scheme) option" where
  "fat_read_file_user env clusterNo buffer offset sz task d s =
     (if \<not> fat_valid_cluster clusterNo d then Some (- 1, d, s)
      else if sz = 0 then Some (0, d, s)
      else case skip_clusters (unat (offset div clusterSize d)) clusterNo d of
             None \<Rightarrow> Some (- 1, d, s)
           | Some cur \<Rightarrow>
               let (ok, d1) = buf_malloc d
               in if \<not> ok then Some (- 1, d1, s)
                  else map_option (\<lambda>(n, d2, s2). (if n > 0 then s32 (int n) else - 1, d2, s2))
                    (read_user_loop env task buffer (unat sz) cur (unat (offset mod clusterSize d)) 0 d1 s))"

text \<open>The number of clusters of a chain, counted by 16-bit integers.\<close>

partial_function (option) count_clusters :: "u16 \<Rightarrow> u16 \<Rightarrow> 'a fat_t_scheme \<Rightarrow> u16 option" where
  "count_clusters c clusterCount d =
     (if ucast clusterCount \<le> noClusters d then
        if \<not> fat_valid_cluster (entry d c) d then Some clusterCount
        else count_clusters (entry d c) (clusterCount + 1) d
      else Some clusterCount)"

partial_function (option) read_loop :: "u16 \<Rightarrow> nat \<Rightarrow> u8 list \<Rightarrow> 'a fat_t_scheme \<Rightarrow> (u8 list option \<times> 'a fat_t_scheme) option" where
  "read_loop c allocate contents d =
     (case ata_read_exact (clusterAddr c d) (clusterSize d) d of
        (None, d1) \<Rightarrow> Some (None, d1)
      | (Some buf, d1) \<Rightarrow>
          let contents1 = contents @ take (allocate - length contents) buf
          in if length contents + length buf > allocate then Some (Some contents1, d1)
             else if \<not> fat_valid_cluster (entry d1 c) d1 then Some (Some contents1, d1)
             else read_loop (entry d1 c) allocate contents1 d1)"

text \<open>The buffer \<open>fat_read_file\<close> returns has \<open>allocate\<close> bytes, of which these are read from the disk.\<close>

definition fat_read_file :: "u16 \<Rightarrow> u32 \<Rightarrow> 'a fat_t_scheme \<Rightarrow> ((nat \<times> u8 list) option \<times> 'a fat_t_scheme) option" where
  "fat_read_file clusterNo sz d =
     (if \<not> fat_valid_cluster clusterNo d then Some (None, d)
      else do {
        clusterCount \<leftarrow> count_clusters clusterNo 1 d;
        if ucast clusterCount \<ge> noClusters d then Some (None, d)
        else let fileSizeDisk = ucast clusterCount * ucast (sectorsPerCluster d) * ucast (bytesPerSector d);
                 allocate = unat (if sz = 0 then fileSizeDisk else sz);
                 (ok, d1) = buf_malloc d
             in if \<not> ok then Some (None, d1)
                else do { (r, d2) \<leftarrow> read_loop clusterNo allocate [] d1; Some (map_option (Pair allocate) r, d2) } })"


subsection \<open>Renaming\<close>

text \<open>
  \<open>fat_rename\<close> looks at the character before the end of the parent's path; when that path is empty, this is the byte
  before its array, the parameter \<open>before\<close>. \<open>strncpy\<close> writes the eleven bytes of the name and a terminator after
  them, in the byte of the attributes.
\<close>

definition renamed :: "str \<Rightarrow> str \<Rightarrow> fat_dir_t \<Rightarrow> fat_dir_t" where
  "renamed newfile newext e = e\<lparr> filename := name_field newfile newext, attributes := 0 \<rparr>"

definition rename_entries :: "str \<Rightarrow> str \<Rightarrow> str \<Rightarrow> str \<Rightarrow> nat \<Rightarrow> u8 list \<Rightarrow> bool \<times> u8 list" where
  "rename_entries name ext newfile newext n buf =
     fold (\<lambda>i (m, b). if fat_entry_matches_filename (dir_entry b i) name ext then (True, put_entry i (renamed newfile newext (dir_entry b i)) b)
                     else (m, b)) [0..<n] (False, buf)"

definition fat_rename :: "u8 \<Rightarrow> str \<Rightarrow> str \<Rightarrow> 'a fat_t_scheme \<Rightarrow> (bool \<times> 'a fat_t_scheme) option" where
  "fat_rename before path newname d =
     (let (r, parent, oldname) = strsplit_last_s 47 path; (r2, name, ext) = strsplit_s 46 oldname
      in if \<not> fits 512 parent \<or> \<not> fits 16 oldname \<or> \<not> fits 9 name \<or> \<not> fits 4 ext then None
         else let lastchar = (if parent = [] then before else last parent);
                  parentpath = (if lastchar \<noteq> 47 then parent @ [47] else parent)
              in if \<not> fits 512 parentpath then None else do {
                (place, d1) \<leftarrow> (if parentpath = [47] then Some (Some (dir_place True 0 d), d)
                               else do { (dir, d1) \<leftarrow> fat_parse_path parentpath False d;
                                         Some (map_option (\<lambda>e. dir_place False (firstClusterNo e) d1) dir, d1) });
                case place of
                  None \<Rightarrow> Some (False, d1)
                | Some (addr, sz, n) \<Rightarrow>
                    (case ata_read_exact addr sz d1 of
                       (None, d2) \<Rightarrow> Some (False, d2)
                     | (Some buf, d2) \<Rightarrow>
                         let (r3, newfile, newext) = strsplit_s 46 newname;
                             (m, buf1) = rename_entries name ext newfile newext n buf
                         in if m \<and> (\<not> fits 9 newfile \<or> \<not> fits 4 newext) then None
                            else if m then Some (ata_write_exact addr buf1 d2) else Some (False, d2)) })"

subsection \<open>Deleting\<close>

definition free_file_chain :: "u16 \<Rightarrow> 'a fat_t_scheme \<Rightarrow> (bool \<times> 'a fat_t_scheme) option" where
  "free_file_chain head d =
     (case free_chain head (ucast head) (ucast head) 0 True d of
        None \<Rightarrow> None
      | Some (mn, mx, freed, ok, d1) \<Rightarrow> let (w, d2) = fat_table_flush_cache mn mx d1 in Some (ok \<and> w, d2))"

definition delete_entry :: "str \<Rightarrow> fat_dir_t \<Rightarrow> str \<Rightarrow> 'a fat_t_scheme \<Rightarrow> (bool \<times> 'a fat_t_scheme) option" where
  "delete_entry path file ext d =
     (let parentpath = fst (split_path path); inroot = (parentpath = [47])
      in if \<not> fits 256 parentpath then None
         else do {
           (parent, d1) \<leftarrow> (if inroot then Some (None, d) else fat_parse_path parentpath True d);
           if \<not> inroot \<and> parent = None then Some (False, d1)
           else let parentCluster = (if inroot then 0 else firstClusterNo (the parent));
                    deleted = file\<lparr> filename := (filename file)[0 := 0xE5] \<rparr>;
                    (ok, d2) = fat_update_in_dir parentCluster (entry_name file) ext deleted d1
                in if ok then free_file_chain (firstClusterNo file) d2 else Some (False, d2) })"

definition fat_delete_file :: "str \<Rightarrow> 'a fat_t_scheme \<Rightarrow> (bool \<times> 'a fat_t_scheme) option" where
  "fat_delete_file path d =
     do { (file, d1) \<leftarrow> fat_parse_path path True d;
          case file of None \<Rightarrow> Some (False, d1) | Some f \<Rightarrow> delete_entry path f (entry_ext f) d1 }"

definition dir_empty :: "u8 list \<Rightarrow> nat \<Rightarrow> bool" where
  "dir_empty buf n \<longleftrightarrow>
     list_all (\<lambda>i. filename (dir_entry buf i) ! 0 = 46 \<and> (filename (dir_entry buf i) ! 1 = 32 \<or> filename (dir_entry buf i) ! 1 = 46)) (live buf n)"

definition fat_delete_dir :: "str \<Rightarrow> 'a fat_t_scheme \<Rightarrow> (bool \<times> 'a fat_t_scheme) option" where
  "fat_delete_dir path d =
     do { (dir, d1) \<leftarrow> fat_parse_path path True d;
          case dir of
            None \<Rightarrow> Some (False, d1)
          | Some e \<Rightarrow>
              if attributes e AND 0x10 = 0 then Some (False, d1)
              else (case ata_read_exact (clusterAddr (firstClusterNo e) d1) (clusterSize d1) d1 of
                      (None, d2) \<Rightarrow> Some (False, d2)
                    | (Some buf, d2) \<Rightarrow>
                        if \<not> dir_empty buf (unat (clusterSize d2 div 32)) then Some (False, d2)
                        else if \<not> fits 256 (snd (split_path path)) then None
                        else delete_entry path e [] d2) }"

declare write_loop.simps [code] read_user_loop.simps [code] read_loop.simps [code] count_clusters.simps [code] find_free.simps [code] free_chain.simps [code]


section \<open>Reading a file\<close>

text \<open>A chain has fewer clusters than the volume.\<close>

lemma chain_length:
  assumes "fat_wf d" "chain d cs"
  shows "length cs + 2 \<le> unat (noClusters d)" "length cs < 2 ^ 16"
proof -
  have dist: "distinct (map unat cs)"
    using is_list_distinct [of "next_of d" "Some (hd cs)" cs] assms(2) by (auto simp: chain_def distinct_map inj_on_def word_unat_eq_iff)
  have "unat ` set cs \<subseteq> {2..<unat (noClusters d)}"
  proof
    fix x assume "x \<in> unat ` set cs"
    then obtain c where c: "c \<in> set cs" "x = unat c" by auto
    then have v: "fat_valid_cluster c d" using assms(2) by (simp add: chain_def)
    then show "x \<in> {2..<unat (noClusters d)}"
      using valid_bounds(2) [OF assms(1) v] c(2) by (auto simp: fat_valid_cluster_def word_le_nat_alt not_less)
  qed
  then have "length cs \<le> unat (noClusters d) - 2" using card_mono [of "{2..<unat (noClusters d)}" "unat ` set cs"] distinct_card [OF dist] by simp
  moreover have "2 \<le> unat (noClusters d)"
  proof -
    have v: "fat_valid_cluster (hd cs) d" using assms(2) by (simp add: chain_def)
    show ?thesis using valid_bounds(2) [OF assms(1) v] v by (auto simp: fat_valid_cluster_def word_le_nat_alt not_less)
  qed
  moreover have "unat (noClusters d) \<le> 0xFFF7" using assms(1) by (simp add: fat_wf_def word_le_nat_alt)
  ultimately show "length cs + 2 \<le> unat (noClusters d)" "length cs < 2 ^ 16" by simp_all
qed

lemma ucast_of_nat_u16: "n < 2 ^ 16 \<Longrightarrow> unat (ucast (of_nat n :: u16) :: u32) = n"
  by (simp add: unsigned_ucast_eq unsigned_of_nat take_bit_nat_eq_self)

lemma count_clusters_spec:
  assumes "is_list (next_of d) (Some c) cs" "k + length cs \<le> unat (noClusters d)" "unat (noClusters d) < 2 ^ 16" "0 < k"
  shows "count_clusters c (of_nat k) d = Some (of_nat (k + length cs - 1))"
  using assms(1,2,4)
proof (induction cs arbitrary: c k)
  case (Cons x xs)
  then have nx: "c = x" "is_list (next_of d) (next_of d c) xs" by auto
  have le: "(ucast (of_nat k :: u16) :: u32) \<le> noClusters d" using ucast_of_nat_u16 [of k] Cons.prems(2) assms(3) by (simp add: word_le_nat_alt)
  show ?case
  proof (cases "fat_valid_cluster (entry d c) d")
    case True
    then have "is_list (next_of d) (Some (entry d c)) xs" using nx(2) by (simp add: next_of_def)
    from Cons.IH [OF this, of "k + 1"] show ?thesis using True le Cons.prems(2) by (subst count_clusters.simps) (simp add: add.commute)
  next
    case False
    then have "xs = []" using nx(2) by (simp add: next_of_def)
    then show ?thesis using False le by (subst count_clusters.simps) simp
  qed
qed simp

lemma read_loop_spec:
  assumes "data_fits d" "is_list (next_of d) (Some c) cs" "\<forall>x\<in>set cs. fat_valid_cluster x d" "length acc \<le> n"
  shows "\<exists>r d'. read_loop c n acc d = Some (r, d') \<and> unchanged d d'
    \<and> (r = Some (acc @ take (n - length acc) (file_data cs d)) \<or> r = None \<and> \<not> ata_works d)"
  using assms
proof (induction cs arbitrary: c acc d)
  case (Cons x xs)
  then have x: "c = x" "is_list (next_of d) (next_of d c) xs" by auto
  have v: "fat_valid_cluster c d" using Cons.prems(3) x by simp
  obtain b d1 where b: "ata_read_exact (clusterAddr c d) (clusterSize d) d = (b, d1)" by fastforce
  note u = unchanged_read [OF Cons.prems(1) v b] and f = unchanged_fields [OF unchanged_read(1) [OF Cons.prems(1) v b]]
  show ?case
  proof (cases b)
    case None
    then show ?thesis using u b by (subst read_loop.simps) auto
  next
    case (Some buf)
    then have buf: "buf = cluster_data c d" using u(2) by simp
    define acc1 where "acc1 = acc @ take (n - length acc) buf"
    have fd: "file_data (x # xs) d = buf @ file_data xs d" by (simp add: file_data_def buf x)
    have run: "read_loop c n acc d = (if length acc + length buf > n then Some (Some acc1, d1)
             else if \<not> fat_valid_cluster (entry d1 c) d1 then Some (Some acc1, d1) else read_loop (entry d1 c) n acc1 d1)"
      using b Some by (subst read_loop.simps) (simp add: acc1_def)
    show ?thesis
    proof (cases "length acc + length buf > n \<or> \<not> fat_valid_cluster (entry d1 c) d1")
      case True
      moreover have "length acc + length buf > n \<or> xs = []" using True x(2) f by (auto simp: next_of_def)
      then have "take (n - length acc) (file_data (x # xs) d) = take (n - length acc) buf" using fd by (auto simp: file_data_def)
      ultimately show ?thesis using run u(1) by (auto simp: acc1_def)
    next
      case False
      then have nx: "is_list (next_of d1) (Some (entry d1 c)) xs" using x(2) f by (simp add: next_of_def)
      have "data_fits d1" "\<forall>x\<in>set xs. fat_valid_cluster x d1" "length acc1 \<le> n" using Cons.prems f False by (auto simp: acc1_def)
      from Cons.IH [OF this(1) nx this(2,3)] obtain r d' where r: "read_loop (entry d1 c) n acc1 d1 = Some (r, d')" "unchanged d1 d'"
        "r = Some (acc1 @ take (n - length acc1) (file_data xs d1)) \<or> r = None \<and> \<not> ata_works d1" by blast
      have "acc1 @ take (n - length acc1) (file_data xs d1) = acc @ take (n - length acc) (file_data (x # xs) d)"
        using False fd f by (simp add: acc1_def min_def)
      then show ?thesis using run False r f unchanged_trans [OF u(1) r(2)] by auto
    qed
  qed
qed simp

text \<open>
  Reading a file. On a chain \<open>cs\<close>, \<open>fat_read_file\<close> returns, changes neither the table nor the disk, and the buffer
  it returns holds the bytes of the clusters in the order of the chain, up to the size asked for (all of them when the
  size is 0). It returns no buffer only when the drive reports an error or memory runs out.
\<close>

theorem fat_read_file_bytes:
  assumes "data_fits d" and "chain d cs"
  shows "\<exists>r d'. fat_read_file (hd cs) sz d = Some (r, d') \<and> fat_table d' = fat_table d \<and> disk d' = disk d
    \<and> (let n = (if sz = 0 then length (file_data cs d) else unat sz) in r = Some (n, take n (file_data cs d)) \<or> r = None \<and> \<not> ata_works d)"
proof -
  note wf = data_fits_wf(2) [OF assms(1)]
  note len = chain_length [OF wf assms(2)]
  have nc: "unat (noClusters d) < 2 ^ 16" using wf by (simp add: fat_wf_def word_le_nat_alt)
  have ch: "is_list (next_of d) (Some (hd cs)) cs" "\<forall>c\<in>set cs. fat_valid_cluster c d" "cs \<noteq> []" "fat_valid_cluster (hd cs) d"
    using assms(2) by (auto simp: chain_def)
  have cnt: "count_clusters (hd cs) 1 d = Some (of_nat (length cs))" using count_clusters_spec [OF ch(1), of 1] len nc by simp
  have ul: "unat (ucast (of_nat (length cs) :: u16) :: u32) = length cs" by (rule ucast_of_nat_u16 [OF len(2)])
  then have lt: "\<not> noClusters d \<le> ucast (of_nat (length cs) :: u16)" using len(1) by (simp add: word_le_nat_alt)
  have "(unat (noClusters d) - 2) * unat (clusterSize d) < 2 ^ 32"
    using assms(1) unfolding data_fits_def in_partition_def by (elim conjE) simp
  moreover have "length cs * unat (clusterSize d) \<le> (unat (noClusters d) - 2) * unat (clusterSize d)" using len(1) by (intro mult_le_mono1) simp
  ultimately have small: "length cs * unat (clusterSize d) < 2 ^ 32" by linarith
  have "(ucast (of_nat (length cs) :: u16) :: u32) * ucast (sectorsPerCluster d) * ucast (bytesPerSector d) = of_nat (length cs) * clusterSize d"
    using ul by (simp add: clusterSize_def mult.assoc) (metis ul of_nat_unat ucast_id)
  also have "\<dots> = of_nat (length cs * unat (clusterSize d))" by (metis of_nat_mult of_nat_unat ucast_id)
  finally have fsd: "unat ((ucast (of_nat (length cs) :: u16) :: u32) * ucast (sectorsPerCluster d) * ucast (bytesPerSector d)) = length (file_data cs d)"
    using unat_of_nat_u32 [OF small] by (simp add: length_file_data)
  define n where "n = (if sz = 0 then length (file_data cs d) else unat sz)"
  obtain ok d1 where ml: "buf_malloc d = (ok, d1)" by fastforce
  note u1 = unchanged_malloc [OF ml] and f1 = unchanged_fields [OF unchanged_malloc [OF ml]]
  have run: "fat_read_file (hd cs) sz d = (if \<not> ok then Some (None, d1)
      else do { (r, d2) \<leftarrow> read_loop (hd cs) n [] d1; Some (map_option (Pair n) r, d2) })"
    using ch(4) cnt lt ml fsd unfolding fat_read_file_def n_def by (simp add: Let_def)
  show ?thesis
  proof (cases ok)
    case False
    then have "\<not> ata_works d" using ml by (auto simp: buf_malloc_def ata_works_def)
    then show ?thesis using run False u1 by (auto simp: unchanged_def Let_def)
  next
    case True
    have "data_fits d1" "is_list (next_of d1) (Some (hd cs)) cs" "\<forall>x\<in>set cs. fat_valid_cluster x d1" using assms(1) ch f1 by simp_all
    from read_loop_spec [OF this, of "[]" n] obtain r d2 where r: "read_loop (hd cs) n [] d1 = Some (r, d2)" "unchanged d1 d2"
      "r = Some (take n (file_data cs d)) \<or> r = None \<and> \<not> ata_works d" using f1 by auto
    then show ?thesis using run True unchanged_trans [OF u1 r(2)] unfolding n_def [symmetric] by (auto simp: unchanged_def Let_def)
  qed
qed


section \<open>Writing a file\<close>

text \<open>Only the clusters \<open>cs\<close> have been written to.\<close>

definition wrote :: "u16 list \<Rightarrow> 'a fat_t_scheme \<Rightarrow> 'a fat_t_scheme \<Rightarrow> bool" where
  "wrote cs d d' \<longleftrightarrow> same_drive d d' \<and> fat_table d' = fat_table d \<and> dirty_clusters d' = dirty_clusters d \<and> (coherent d \<longrightarrow> coherent d')
     \<and> (\<forall>x. fat_valid_cluster x d \<longrightarrow> x \<notin> set cs \<longrightarrow> cluster_data x d' = cluster_data x d)"

lemma coherent_unchanged: "unchanged d d' \<Longrightarrow> coherent d \<Longrightarrow> coherent d'"
  unfolding unchanged_def using same_drive_fields [of d d'] by (auto simp: coherent_def sync_def)

lemma wrote_unchanged: "unchanged d d' \<Longrightarrow> wrote cs d d'"
  using coherent_unchanged [of d d'] unchanged_fields(3) [of d d'] by (auto simp: wrote_def unchanged_def)

lemma wrote_trans:
  assumes "wrote cs d d1" "wrote cs d1 d2"
  shows "wrote cs d d2"
  using assms same_drive_trans [of d d1 d2] same_drive_fields(13) [of d d1] by (auto simp: wrote_def)

lemma wrote_mono: "wrote cs d d' \<Longrightarrow> set cs \<subseteq> set cs' \<Longrightarrow> wrote cs' d d'"
  unfolding wrote_def by blast

lemma wrote_fields:
  assumes "wrote cs d d'"
  shows "entry d' = entry d" "next_of d' = next_of d" "data_fits d' = data_fits d" "ata_works d' = ata_works d"
    "fat_valid_cluster c d' = fat_valid_cluster c d" "clusterSize d' = clusterSize d"
proof -
  have dr: "same_drive d d'" using assms by (simp add: wrote_def)
  show en: "entry d' = entry d" using assms by (simp add: wrote_def entry_def fun_eq_iff)
  show "next_of d' = next_of d" using en same_drive_fields(13) [OF dr] by (simp add: next_of_def fun_eq_iff)
  show "data_fits d' = data_fits d" "ata_works d' = ata_works d" "fat_valid_cluster c d' = fat_valid_cluster c d" "clusterSize d' = clusterSize d"
    using same_drive_fields [OF dr] by simp_all
qed

lemma wrote_cluster:
  assumes "data_fits d" "fat_valid_cluster c d" "length buf = unat (clusterSize d)" "ata_write_exact (clusterAddr c d) buf d = (ok, d')"
  shows "wrote [c] d d'"
  using write_cluster [OF assms] coherent_cong [of d d'] by (simp add: wrote_def)

lemma nth_overwritten:
  "length xs = length ys \<Longrightarrow> m \<le> length xs \<Longrightarrow> i < length ys \<Longrightarrow> (take m xs @ drop m ys) ! i = (if i < m then xs ! i else ys ! i)"
  by (simp add: nth_append)

lemma put_cluster_spec:
  assumes fits: "data_fits d" and c: "fat_valid_cluster c d" and b: "off + length bytes \<le> unat (clusterSize d)"
    and full: "off = 0 \<longrightarrow> \<not> rem < unat (clusterSize d) \<longrightarrow> length bytes = unat (clusterSize d)"
    and run: "put_cluster c off rem bytes d = (r, d')"
  shows "wrote [c] d d' \<and> (r = None \<longrightarrow> cluster_data c d' = cluster_data c d) \<and> (ata_works d \<longrightarrow> r = Some True)
    \<and> (\<forall>i<unat (clusterSize d). i < off \<or> off + length bytes \<le> i \<longrightarrow> cluster_data c d' ! i = cluster_data c d ! i)
    \<and> (r = Some True \<longrightarrow> (\<forall>i<length bytes. cluster_data c d' ! (off + i) = bytes ! i))"
proof -
  let ?S = "unat (clusterSize d)"
  let ?new = "take off (cluster_data c d) @ bytes @ drop (off + length bytes) (cluster_data c d)"
  have len: "length ?new = ?S" using b by simp
  have nth: "\<forall>i<?S. i < off \<or> off + length bytes \<le> i \<longrightarrow> ?new ! i = cluster_data c d ! i" "\<forall>i<length bytes. ?new ! (off + i) = bytes ! i"
    using b by (auto simp: nth_append)
  have wr: "wrote [c] d d2 \<and> (ata_works d \<longrightarrow> w)
      \<and> (\<forall>i<?S. i < off \<or> off + length bytes \<le> i \<longrightarrow> cluster_data c d2 ! i = cluster_data c d ! i)
      \<and> (w \<longrightarrow> (\<forall>i<length bytes. cluster_data c d2 ! (off + i) = bytes ! i))"
    if d1: "unchanged d d1" and w: "ata_write_exact (clusterAddr c d) ?new d1 = (w, d2)" for d1 d2 w
  proof -
    note f = unchanged_fields [OF d1]
    have ca: "clusterAddr c d = clusterAddr c d1" using d1 same_drive_fields(11) [of d d1] by (simp add: unchanged_def)
    have fit1: "data_fits d1" and c1: "fat_valid_cluster c d1" and l1: "length ?new = unat (clusterSize d1)" using fits c len f by simp_all
    have w1: "ata_write_exact (clusterAddr c d1) ?new d1 = (w, d2)" using w ca by simp
    note wc = write_cluster [OF fit1 c1 l1 w1]
    obtain m where m: "cluster_data c d2 = take m ?new @ drop m (cluster_data c d)" "w \<longrightarrow> m = length ?new" "m \<le> length ?new" using wc(7) f(3) by auto
    have "cluster_data c d2 ! i = (if i < m then ?new ! i else cluster_data c d ! i)" if "i < ?S" for i
      unfolding m(1) by (rule nth_overwritten) (use that m(3) len in simp_all)
    note at = this
    have "cluster_data c d2 ! i = cluster_data c d ! i" if "i < ?S" "i < off \<or> off + length bytes \<le> i" for i
      using at [OF that(1)] nth(1) [rule_format, OF that] by (metis (no_types, lifting))
    moreover have "cluster_data c d2 ! (off + i) = bytes ! i" if "w" "i < length bytes" for i
    proof -
      have "off + i < ?S" "off + i < m" using that b m(2) len by linarith+
      then show ?thesis using at nth(2) [rule_format, OF that(2)] by (metis (no_types, lifting))
    qed
    moreover have "wrote [c] d d2" using wrote_trans [OF wrote_unchanged [OF d1] wrote_cluster [OF fit1 c1 l1 w1]] .
    ultimately show ?thesis using wc(4) f(7) by simp
  qed
  show ?thesis
  proof (cases "off > 0 \<or> rem < ?S")
    case True
    obtain b1 d1 where b1: "ata_read_exact (clusterAddr c d) (clusterSize d) d = (b1, d1)" by fastforce
    note u = unchanged_read [OF fits c b1]
    show ?thesis
    proof (cases b1)
      case None
      then show ?thesis using run True b1 u wrote_unchanged [OF u(1)] unchanged_fields(3) [OF u(1)] by (auto simp: put_cluster_def)
    next
      case (Some x)
      then have x: "x = cluster_data c d" using u(2) by simp
      obtain w d2 where w: "ata_write_exact (clusterAddr c d) ?new d1 = (w, d2)" by fastforce
      then have "r = Some w" "d' = d2" using run True b1 Some x by (auto simp: put_cluster_def Let_def)
      then show ?thesis using wr [OF u(1) w] by auto
    qed
  next
    case False
    then have "?new = bytes" using full by simp
    obtain w d2 where w: "ata_write_exact (clusterAddr c d) ?new d = (w, d2)" by fastforce
    then have "r = Some w" "d' = d2" using run False \<open>?new = bytes\<close> by (auto simp: put_cluster_def Let_def)
    then show ?thesis using wr [OF unchanged_refl w] by auto
  qed
qed


text \<open>The buffer of the caller holds \<open>src\<close> and stays readable while other tasks run.\<close>

definition provides :: "('k kern_t_scheme \<Rightarrow> 'k kern_t_scheme) \<Rightarrow> int \<Rightarrow> u32 \<Rightarrow> u8 list \<Rightarrow> 'k kern_t_scheme \<Rightarrow> bool" where
  "provides env task buffer src s \<longleftrightarrow> (\<forall>j k n. k + n \<le> length src \<longrightarrow>
     buffer_bytes task (buffer + of_nat k) n ((env ^^ j) s) = Some (take n (drop k src))
     \<and> (task \<ge> 0 \<longrightarrow> task_validate_mem (nat task) (buffer + of_nat k) (int n) False ((env ^^ j) s)))"

lemma provides_env:
  assumes "provides env task buffer src s"
  shows "provides env task buffer src (env s)"
proof -
  have "(env ^^ j) (env s) = (env ^^ Suc j) s" for j by (simp add: funpow_swap1)
  then show ?thesis using assms unfolding provides_def by (simp only:) blast
qed

lemma write_loop_spec:
  fixes d :: "'a fat_t_scheme"
  assumes "data_fits d" "is_list (next_of d) (Some c) cs" "\<forall>x\<in>set cs. fat_valid_cluster x d" "off < unat (clusterSize d)"
    and "off + rem \<le> length cs * unat (clusterSize d)" "length src = done + rem" "provides env task buffer src s"
  shows "\<exists>w d' s'. write_loop env task buffer c off rem done d s = Some (w, d', s') \<and> wrote cs d d' \<and> (ata_works d \<longrightarrow> w = Some (done + rem))
    \<and> (\<forall>i<length (file_data cs d). i < off \<or> off + rem \<le> i \<longrightarrow> file_data cs d' ! i = file_data cs d ! i)
    \<and> (\<forall>n. w = Some n \<longrightarrow> done \<le> n \<and> n \<le> done + rem \<and> (\<forall>i<n - done. file_data cs d' ! (off + i) = src ! (done + i)))"
  using assms
proof (induction cs arbitrary: c off rem "done" d s)
  case (Cons x xs)
  let ?S = "unat (clusterSize d)"
  have x: "c = x" "is_list (next_of d) (next_of d c) xs" "c \<notin> set xs" using Cons.prems(2) is_list_distinct [OF Cons.prems(2)] by auto
  have v: "fat_valid_cluster c d" using Cons.prems(3) x by simp
  have fd: "file_data (x # xs) e = cluster_data c e @ file_data xs e" for e :: "'a fat_t_scheme" by (simp add: file_data_def x)
  have at_hd: "file_data (x # xs) e ! i = cluster_data c e ! i" if "i < ?S" "clusterSize e = clusterSize d" for i and e :: "'a fat_t_scheme"
    using that by (simp add: fd nth_append)
  have at_tl: "file_data (x # xs) e ! i = file_data xs e ! (i - ?S)" if "\<not> i < ?S" "clusterSize e = clusterSize d" for i and e :: "'a fat_t_scheme"
    using that by (simp add: fd nth_append)
  show ?case
  proof (cases "rem = 0")
    case True
    then show ?thesis by (subst write_loop.simps) (auto simp: wrote_unchanged)
  next
    case False
    define k where "k = (if ?S - off > rem then rem else ?S - off)"
    have k: "0 < k" "k \<le> rem" "off + k \<le> ?S" "k = rem \<or> off + k = ?S" using False Cons.prems(4) by (auto simp: k_def)
    define bytes where "bytes = take k (drop done src)"
    have lb: "length bytes = k" using k Cons.prems(6) by (simp add: bytes_def)
    have pr: "buffer_bytes task (buffer + of_nat done) k s = Some bytes" "task \<ge> 0 \<longrightarrow> task_validate_mem (nat task) (buffer + of_nat done) (int k) False s"
      using Cons.prems(7) [unfolded provides_def, rule_format, of "done" k 0] k Cons.prems(6) by (simp_all add: bytes_def)
    obtain r d1 where p: "put_cluster c off rem bytes d = (r, d1)" by fastforce
    have full: "off = 0 \<longrightarrow> \<not> rem < ?S \<longrightarrow> length bytes = ?S" using lb k by (auto simp: k_def)
    have b: "off + length bytes \<le> ?S" using lb k by simp
    have ps: "wrote [c] d d1" "r = None \<longrightarrow> cluster_data c d1 = cluster_data c d" "ata_works d \<longrightarrow> r = Some True"
      "\<forall>i<?S. i < off \<or> off + k \<le> i \<longrightarrow> cluster_data c d1 ! i = cluster_data c d ! i" "r = Some True \<longrightarrow> (\<forall>i<k. cluster_data c d1 ! (off + i) = bytes ! i)"
      using put_cluster_spec [OF Cons.prems(1) v b full p] lb by simp_all
    note f = wrote_fields [OF ps(1)]
    have wx: "wrote (x # xs) d d1" using wrote_mono [OF ps(1)] x by simp
    have xs1: "file_data xs d1 = file_data xs d" using ps(1) x Cons.prems(3) by (intro file_data_cong) (auto simp: wrote_def)
    have keep: "file_data (x # xs) d1 ! i = file_data (x # xs) d ! i" if "i < length (file_data (x # xs) d)" "i < off \<or> off + rem \<le> i" for i
    proof (cases "i < ?S")
      case True
      have "i < off \<or> off + k \<le> i" using that(2) k(2) by linarith
      then show ?thesis using ps(4) [rule_format, OF True] at_hd [OF True f(6)] at_hd [OF True refl] by simp
    next
      case False
      then show ?thesis using xs1 at_tl [OF False f(6)] at_tl [OF False refl] by simp
    qed
    have new: "file_data (x # xs) d1 ! (off + i) = src ! (done + i)" if "r = Some True" "i < k" for i
    proof -
      have "off + i < ?S" using that(2) k(3) by linarith
      moreover have "bytes ! i = src ! (done + i)" using that(2) k(2) Cons.prems(6) by (simp add: bytes_def)
      ultimately show ?thesis using ps(5) that at_hd [OF _ f(6)] by simp
    qed
    have run: "write_loop env task buffer c off rem done d s =
        (case r of None \<Rightarrow> Some (None, d1, s)
         | Some w \<Rightarrow> if \<not> w then Some (Some done, d1, s) else if \<not> fat_valid_cluster (entry d1 c) d1 then Some (Some (done + k), d1, s)
             else write_loop env task buffer (entry d1 c) 0 (rem - k) (done + k) d1 (env s))"
      unfolding write_loop.simps [of env task buffer c off rem "done" d s] Let_def k_def [symmetric] using False pr p
      by (cases r) auto
    show ?thesis
    proof (cases "r = Some True \<and> fat_valid_cluster (entry d1 c) d1")
      case stop: False
      have "k = rem" if "r = Some True"
      proof -
        have "xs = []" using that stop x(2) f by (auto simp: next_of_def)
        then show ?thesis using Cons.prems(5) k by auto
      qed
      then show ?thesis using run stop keep new wx ps(3) k by (cases r) (auto split: if_splits)
    next
      case go: True
      then have "is_list (next_of d1) (Some (entry d1 c)) xs" "\<forall>x\<in>set xs. fat_valid_cluster x d1" "data_fits d1"
        using x(2) f Cons.prems(1,3) by (simp_all add: next_of_def)
      moreover have "0 < unat (clusterSize d1)" "0 + (rem - k) \<le> length xs * unat (clusterSize d1)" "length src = (done + k) + (rem - k)"
        using Cons.prems(4,5,6) k f by auto
      ultimately obtain w d' s' where IH: "write_loop env task buffer (entry d1 c) 0 (rem - k) (done + k) d1 (env s) = Some (w, d', s')"
        "wrote xs d1 d'" "ata_works d1 \<longrightarrow> w = Some (done + k + (rem - k))"
        "\<forall>i<length (file_data xs d1). rem - k \<le> i \<longrightarrow> file_data xs d' ! i = file_data xs d1 ! i"
        "\<forall>n. w = Some n \<longrightarrow> done + k \<le> n \<and> n \<le> done + k + (rem - k) \<and> (\<forall>i<n - (done + k). file_data xs d' ! i = src ! (done + k + i))"
        using Cons.IH [of d1 "entry d1 c" 0 "rem - k" "done + k" "env s"] provides_env [OF Cons.prems(7)] by auto
      have c': "cluster_data c d' = cluster_data c d1" using IH(2) v f x(3) by (simp add: wrote_def)
      have w': "wrote (x # xs) d d'" using wrote_trans [OF wx wrote_mono [OF IH(2)]] by auto
      have S': "clusterSize d' = clusterSize d" using wrote_fields(6) [OF w'] .
      have "file_data (x # xs) d' ! i = file_data (x # xs) d ! i" if "i < length (file_data (x # xs) d)" "i < off \<or> off + rem \<le> i" for i
      proof (cases "i < ?S")
        case True
        then have "file_data (x # xs) d' ! i = file_data (x # xs) d1 ! i" using c' at_hd [OF True S'] at_hd [OF True f(6)] by simp
        then show ?thesis using keep [OF that] by simp
      next
        case False
        then have "rem - k \<le> i - ?S" "i - ?S < length (file_data xs d1)" using that k Cons.prems(4) f by (auto simp: fd length_file_data)
        then show ?thesis using IH(4) xs1 at_tl [OF False S'] at_tl [OF False refl] by simp
      qed
      moreover have "file_data (x # xs) d' ! (off + i) = src ! (done + i)" if "w = Some n" "i < n - done" for n i
      proof (cases "i < k")
        case True
        then have lt: "off + i < ?S" using k by simp
        then have "file_data (x # xs) d' ! (off + i) = file_data (x # xs) d1 ! (off + i)" using c' at_hd [OF lt S'] at_hd [OF lt f(6)] by simp
        then show ?thesis using new go True by simp
      next
        case False
        then have S: "off + k = ?S" using k that IH(5) by auto
        then have "\<not> off + i < ?S" "off + i - ?S = i - k" using False by linarith+
        then have "file_data (x # xs) d' ! (off + i) = file_data xs d' ! (i - k)" using at_tl [OF _ S'] by simp
        moreover have "i - k < n - (done + k)" using that False by linarith
        ultimately show ?thesis using IH(5) that(1) False by simp
      qed
      moreover have "write_loop env task buffer c off rem done d s = Some (w, d', s')" using run go IH(1) by simp
      ultimately show ?thesis using w' IH(3,5) f k by (intro exI [of _ w] exI [of _ d'] exI [of _ s']) fastforce
    qed
  qed
qed simp


lemma skip_clusters_spec:
  assumes "is_list (next_of d) (Some c) (us @ x # vs)"
  shows "skip_clusters (length us) c d = Some x"
  using assms
proof (induction us arbitrary: c)
  case (Cons u us)
  then have u: "c = u" "is_list (next_of d) (next_of d c) (us @ x # vs)" by auto
  then have "fat_valid_cluster (entry d c) d" by (cases us) (auto simp: next_of_def split: if_splits)
  moreover from this have "next_of d c = Some (entry d c)" by (simp add: next_of_def)
  ultimately show ?case using Cons.IH [of "entry d c"] u by simp
qed simp

text \<open>
  C38: writing into a file. The clusters \<open>cs\<close> of the file reach to the end of the range, and the buffer of the caller holds
  \<open>src\<close>. Skipping to the cluster of the offset and writing cluster by cluster returns; the table, the clusters of
  all other files and all bytes of this one outside the range keep their values, and when the loop reports \<open>n\<close>
  bytes these are the first \<open>n\<close> bytes of \<open>src\<close>, at the offset. On a drive without errors it writes all of them.
\<close>

theorem fat_write_bytes:
  assumes "data_fits d" and "chain d cs" and "offset + length src \<le> length cs * unat (clusterSize d)" and "offset < length cs * unat (clusterSize d)"
    and "provides env task buffer src s"
  shows "\<exists>cur w d' s'. skip_clusters (offset div unat (clusterSize d)) (hd cs) d = Some cur
    \<and> write_loop env task buffer cur (offset mod unat (clusterSize d)) (length src) 0 d s = Some (w, d', s')
    \<and> fat_table d' = fat_table d \<and> (coherent d \<longrightarrow> coherent d') \<and> (\<forall>x. fat_valid_cluster x d \<and> x \<notin> set cs \<longrightarrow> cluster_data x d' = cluster_data x d)
    \<and> (\<forall>i<length (file_data cs d). i < offset \<or> offset + length src \<le> i \<longrightarrow> file_data cs d' ! i = file_data cs d ! i)
    \<and> (\<forall>n. w = Some n \<longrightarrow> n \<le> length src \<and> take n (drop offset (file_data cs d')) = take n src) \<and> (ata_works d \<longrightarrow> w = Some (length src))"
proof -
  define S where "S = unat (clusterSize d)"
  note S = cluster_size(2) [OF assms(1), folded S_def]
  define q where "q = offset div S"
  have q: "q < length cs" using assms(4) S by (simp add: q_def S_def div_less_iff_less_mult)
  define us vs where "us = take q cs" and "vs = drop (Suc q) cs"
  have cs: "cs = us @ cs ! q # vs" "length us = q" using q by (simp_all add: us_def vs_def id_take_nth_drop)
  have ch: "is_list (next_of d) (Some (hd cs)) cs" "\<forall>c\<in>set cs. fat_valid_cluster c d" using assms(2) by (auto simp: chain_def)
  have sk: "skip_clusters q (hd cs) d = Some (cs ! q)" using skip_clusters_spec [of d "hd cs" us "cs ! q" vs] ch(1) cs by metis
  have nx: "is_list (next_of d) (Some (cs ! q)) (cs ! q # vs)" using is_list_append [of "next_of d" "Some (hd cs)" us "cs ! q" vs] ch(1) cs(1) by metis
  have vv: "\<forall>x\<in>set (cs ! q # vs). fat_valid_cluster x d" using ch(2) cs(1) by (metis Un_iff set_append)
  have om: "offset mod S < S" "offset = q * S + offset mod S" using S by (simp_all add: q_def)
  have "length cs = q + length (cs ! q # vs)" using cs by (metis length_append)
  then have fit: "offset mod S + length src \<le> length (cs ! q # vs) * S" using assms(3) om unfolding S_def [symmetric] by (simp add: distrib_right)
  obtain w d' s' where w: "write_loop env task buffer (cs ! q) (offset mod S) (length src) 0 d s = Some (w, d', s')" "wrote (cs ! q # vs) d d'"
    "ata_works d \<longrightarrow> w = Some (length src)"
    "\<forall>i<length (file_data (cs ! q # vs) d). i < offset mod S \<or> offset mod S + length src \<le> i \<longrightarrow> file_data (cs ! q # vs) d' ! i = file_data (cs ! q # vs) d ! i"
    "\<forall>n. w = Some n \<longrightarrow> n \<le> length src \<and> (\<forall>i<n. file_data (cs ! q # vs) d' ! (offset mod S + i) = src ! i)"
    using write_loop_spec [OF assms(1) nx vv _ _ _ assms(5), of "offset mod S" "length src" 0] om(1) fit unfolding S_def by auto
  have "distinct (us @ cs ! q # vs)" using is_list_distinct [OF ch(1)] cs(1) by metis
  then have us: "file_data us d' = file_data us d" using w(2) ch(2) cs(1) unfolding wrote_def
    by (intro file_data_cong) (metis Un_iff disjoint_iff distinct_append set_append)
  have fd: "file_data cs e = file_data us e @ file_data (cs ! q # vs) e" for e :: "'a fat_t_scheme" by (subst cs(1)) (simp add: file_data_append)
  have S': "clusterSize d' = clusterSize d" by (rule wrote_fields(6) [OF w(2)])
  have lu: "length (file_data us e) = q * S" if "clusterSize e = clusterSize d" for e :: "'a fat_t_scheme" using that cs(2) by (simp add: length_file_data S_def)
  have keep: "file_data cs d' ! i = file_data cs d ! i" if "i < length (file_data cs d)" "i < offset \<or> offset + length src \<le> i" for i
  proof (cases "i < q * S")
    case True
    then show ?thesis using us lu [OF S'] lu [OF refl] by (simp add: fd nth_append)
  next
    case False
    then have "i - q * S < length (file_data (cs ! q # vs) d)" "i - q * S < offset mod S \<or> offset mod S + length src \<le> i - q * S"
      using that om(2) lu [OF refl] by (auto simp: fd)
    then have "file_data (cs ! q # vs) d' ! (i - q * S) = file_data (cs ! q # vs) d ! (i - q * S)" using w(4) by blast
    then show ?thesis using False us lu [OF S'] lu [OF refl] by (simp add: fd nth_append)
  qed
  have new: "take n (drop offset (file_data cs d')) = take n src" if "w = Some n" for n
  proof (rule nth_equalityI)
    have n: "n \<le> length src" using w(5) that by blast
    have "length (file_data cs d') = length cs * S" using S' by (simp add: length_file_data S_def)
    then show "length (take n (drop offset (file_data cs d'))) = length (take n src)" using n assms(3) by (simp add: S_def)
    then have l: "length (take n (drop offset (file_data cs d'))) = n" using n by simp
    fix i assume "i < length (take n (drop offset (file_data cs d')))"
    then have i: "i < n" using l by simp
    have "file_data cs d' ! (offset + i) = file_data (cs ! q # vs) d' ! (offset mod S + i)"
    proof -
      have "\<not> offset + i < q * S" "offset + i - q * S = offset mod S + i" using om(2) by linarith+
      then show ?thesis using lu [OF S'] by (simp add: fd nth_append)
    qed
    then show "take n (drop offset (file_data cs d')) ! i = take n src ! i" using w(5) that i l n by simp
  qed
  have "\<forall>x. fat_valid_cluster x d \<and> x \<notin> set cs \<longrightarrow> cluster_data x d' = cluster_data x d"
    using w(2) cs(1) unfolding wrote_def by (metis Un_iff set_append)
  moreover have "fat_table d' = fat_table d" "coherent d \<longrightarrow> coherent d'" using w(2) by (simp_all add: wrote_def)
  ultimately show ?thesis using sk w(1,3,5) keep new unfolding S_def [symmetric] q_def [symmetric] by blast
qed


text \<open>A file of one cluster on the small volume; the caller is the kernel, with its bytes at address 0.\<close>

lemma small_provides: "provides (\<lambda>s. s) (- 1) 0 (map (\<lambda>i. phys_mem s (of_nat i)) [0..<3]) s"
proof -
  have "((\<lambda>s. s) ^^ j) s = s" for j by (induction j) auto
  moreover have "map (\<lambda>i. phys_mem s (of_nat k + of_nat i)) [0..<n] = take n (drop k (map (\<lambda>i. phys_mem s (of_nat i)) [0..<3]))" if "k + n \<le> 3" for k n
    by (rule nth_equalityI) (use that in auto)
  ultimately show ?thesis by (simp add: provides_def buffer_bytes_def)
qed

theorem fat_read_file_bytes_witness:
  "\<exists>xs d'. fat_read_file 2 0 (snd (fat_table_update_cluster 2 0xFFFF small_volume)) = Some (Some (512, xs), d') \<and> length xs = 512"
proof -
  obtain u d where u: "fat_table_update_cluster 2 0xFFFF small_volume = (u, d)" by fastforce
  note s = small_chain [OF u]
  have l: "length (file_data [2] d) = 512" using s(5) by (simp add: length_file_data)
  show ?thesis using fat_read_file_bytes [OF s(1,3), of 0] s(4) u l by (auto simp: Let_def)
qed

theorem fat_write_bytes_witness:
  "\<exists>w d' s'. write_loop (\<lambda>s. s) (- 1) 0 2 100 3 0 (snd (fat_table_update_cluster 2 0xFFFF small_volume)) one_process = Some (Some w, d', s') \<and> w = 3"
proof -
  obtain u d where u: "fat_table_update_cluster 2 0xFFFF small_volume = (u, d)" by fastforce
  note s = small_chain [OF u]
  define src where "src = map (\<lambda>i. phys_mem one_process (of_nat i)) [0..<3]"
  have l: "length src = 3" by (simp add: src_def)
  have "(100::nat) + length src \<le> length [2 :: u16] * unat (clusterSize d)" "(100::nat) < length [2 :: u16] * unat (clusterSize d)" using s(5) l by simp_all
  from fat_write_bytes [OF s(1,3) this small_provides [of one_process, folded src_def]] obtain w d' s' where
    "write_loop (\<lambda>s. s) (- 1) 0 2 100 3 0 d one_process = Some (w, d', s')" "w = Some 3"
    using s(4,5) l by (elim exE conjE) auto
  then show ?thesis using u by auto
qed

end
