(* ===== verification/Fatlookup.thy ===== *)
theory Fatlookup
  imports Fatfile
begin

text \<open>
  What the operations on directories of \<^verbatim>\<open>src/fat.c\<close> do to the names in them. A directory is the bytes of its place
  on the disk, and stands for the map from names, compared without case, to its live entries; updating an entry and
  deleting a file act on that map.
\<close>

section \<open>The bytes of a directory\<close>

text \<open>The directory of cluster \<open>c\<close>, the root when \<open>c\<close> is 0: where it is, its size, and its number of entries.\<close>

definition dir_addr :: "u16 \<Rightarrow> 'a fat_t_scheme \<Rightarrow> nat" where
  "dir_addr c d = unat (fst (dir_place (c = 0) c d))"

definition dir_size :: "u16 \<Rightarrow> 'a fat_t_scheme \<Rightarrow> nat" where
  "dir_size c d = unat (fst (snd (dir_place (c = 0) c d)))"

definition dir_count :: "u16 \<Rightarrow> 'a fat_t_scheme \<Rightarrow> nat" where
  "dir_count c d = snd (snd (dir_place (c = 0) c d))"

definition dir_data :: "u16 \<Rightarrow> 'a fat_t_scheme \<Rightarrow> u8 list" where
  "dir_data c d = read_bytes (disk d) (abs_addr d (dir_addr c d)) (dir_size c d)"

text \<open>The directory lies in the partition, in whole sectors.\<close>

definition dir_fits :: "u16 \<Rightarrow> 'a fat_t_scheme \<Rightarrow> bool" where
  "dir_fits c d \<longleftrightarrow> in_partition d (dir_addr c d) (dir_size c d) \<and> dir_addr c d mod 512 = 0 \<and> dir_size c d mod 512 = 0"

text \<open>The entry a name stands for.\<close>

definition lookup :: "u16 \<Rightarrow> str \<Rightarrow> str \<Rightarrow> 'a fat_t_scheme \<Rightarrow> fat_dir_t option" where
  "lookup c name ext d = map_option (dir_entry (dir_data c d)) (find_entry (dir_data c d) (dir_count c d) name ext)"

lemma dir_place_eq: "dir_place (c = 0) c d = (of_nat (dir_addr c d), of_nat (dir_size c d), dir_count c d)"
  by (simp add: dir_addr_def dir_size_def dir_count_def of_nat_unat prod_eq_iff)

lemma length_dir_data [simp]: "length (dir_data c d) = dir_size c d"
  by (simp add: dir_data_def)

lemma dir_count_size: "32 * dir_count c d \<le> dir_size c d"
proof (cases "c = 0")
  case True
  let ?n = "noRootEntries d"
  have n: "unat ?n < 65536" using unsigned_less [of ?n, where 'a = nat] by simp
  have "(32 * ucast ?n :: u32) = of_nat (32 * unat ?n)" by (simp add: of_nat_unat)
  then have "unat (32 * ucast ?n :: u32) = 32 * unat ?n" using unat_of_nat_u32 [of "32 * unat ?n"] n by simp
  then show ?thesis using True by (simp add: dir_count_def dir_size_def dir_place_def)
next
  case False
  then show ?thesis by (simp add: dir_count_def dir_size_def dir_place_def unat_div)
qed

lemma same_drive_dir:
  assumes "same_drive d d'"
  shows "dir_addr c d' = dir_addr c d" "dir_size c d' = dir_size c d" "dir_count c d' = dir_count c d" "dir_fits c d' = dir_fits c d"
proof -
  have "dir_place i c d' = dir_place i c d" for i
    using assms same_drive_fields [OF assms] by (simp add: dir_place_def rootDirAddr_def same_drive_def same_volume_def)
  then show "dir_addr c d' = dir_addr c d" "dir_size c d' = dir_size c d" "dir_count c d' = dir_count c d" "dir_fits c d' = dir_fits c d"
    using same_drive_fields(14) [OF assms] by (simp_all add: dir_addr_def dir_size_def dir_count_def dir_fits_def)
qed

lemma dir_data_cong:
  assumes "same_drive d d'" "\<And>a. dir_addr c d \<le> a \<Longrightarrow> a < dir_addr c d + dir_size c d \<Longrightarrow> disk d' (abs_addr d a) = disk d (abs_addr d a)"
  shows "dir_data c d' = dir_data c d" "lookup c name ext d' = lookup c name ext d"
proof -
  note f = same_drive_dir [OF assms(1), of c] and g = same_drive_fields(6) [OF assms(1)]
  show "dir_data c d' = dir_data c d"
    unfolding dir_data_def f g by (rule nth_equalityI) (use assms(2) in \<open>auto simp: abs_addr_def add.assoc\<close>)
  then show "lookup c name ext d' = lookup c name ext d" by (simp add: lookup_def f)
qed

lemma unchanged_lookup: "unchanged d d' \<Longrightarrow> lookup c name ext d' = lookup c name ext d"
  using dir_data_cong(2) [of d d' c name ext] by (simp add: unchanged_def)

lemma read_dir:
  assumes "dir_fits c d" "ata_read_exact (of_nat (dir_addr c d)) (of_nat (dir_size c d)) d = (r, d')"
  shows "unchanged d d'" "r = Some (dir_data c d) \<or> r = None \<and> \<not> ata_works d"
  using ata_read_exact_spec [OF _ assms(2)] assms unchanged_read_any [OF assms(2)] by (simp_all add: dir_fits_def dir_data_def)

section \<open>Searching\<close>

definition key_of :: "str \<Rightarrow> str \<Rightarrow> str \<times> str" where
  "key_of name ext = (upper name, upper ext)"

definition key :: "fat_dir_t \<Rightarrow> str \<times> str" where
  "key e = key_of (entry_name e) (entry_ext e)"

lemma matches_key: "fat_entry_matches_filename e name ext \<longleftrightarrow> key e = key_of name ext"
  by (simp add: fat_entry_matches_filename_def key_def key_of_def)

lemma live_iff: "i \<in> set (live buf n) \<Longrightarrow> i < n \<and> filename (dir_entry buf i) ! 0 \<noteq> 0 \<and> filename (dir_entry buf i) ! 0 \<noteq> 0xE5"
  by (auto simp: live_def dest: set_takeWhileD)

lemma find_entry_Some:
  "find_entry buf n name ext = Some i \<Longrightarrow> i \<in> set (live buf n) \<and> key (dir_entry buf i) = key_of name ext"
  by (auto simp: find_entry_def matches_key find_Some_iff)

text \<open>Replacing a live entry by one that is not free keeps the scan; by a deleted one it takes it out.\<close>

lemma live_put:
  assumes "length (filename e) = 11" "32 * n \<le> length buf" "i \<in> set (live buf n)" "filename e ! 0 \<noteq> 0"
  shows "live (put_entry i e buf) n = filter (\<lambda>j. j \<noteq> i \<or> filename e ! 0 \<noteq> 0xE5) (live buf n)"
proof -
  note i = live_iff [OF assms(3)]
  have e: "dir_entry (put_entry i e buf) j = (if j = i then e else dir_entry buf j)" if "j \<in> set [0..<n]" for j
    using dir_entry_put [OF assms(1,2), of i j] i that by simp
  have t: "takeWhile (\<lambda>j. filename (dir_entry (put_entry i e buf) j) ! 0 \<noteq> 0) [0..<n] = takeWhile (\<lambda>j. filename (dir_entry buf j) ! 0 \<noteq> 0) [0..<n]"
    using e i assms(4) by (intro takeWhile_cong) auto
  show ?thesis unfolding live_def t filter_filter
    using e i by (intro filter_cong) (auto dest!: set_takeWhileD split: if_splits)
qed

lemma find_filter: "\<not> P i \<Longrightarrow> List.find P (filter (\<lambda>j. j \<noteq> i \<or> b) xs) = List.find P xs"
  by (induction xs) auto

lemma find_put_other:
  assumes "length (filename e) = 11" "32 * n \<le> length buf" "find_entry buf n name ext = Some i" "filename e ! 0 \<noteq> 0"
    and "filename e ! 0 = 0xE5 \<or> key e = key_of name ext" and "key_of name' ext' \<noteq> key_of name ext"
  shows "find_entry (put_entry i e buf) n name' ext' = find_entry buf n name' ext'"
    and "map_option (dir_entry (put_entry i e buf)) (find_entry buf n name' ext') = map_option (dir_entry buf) (find_entry buf n name' ext')"
proof -
  note i = find_entry_Some [OF assms(3)]
  have l: "i < n" using live_iff i by blast
  let ?b = "put_entry i e buf" and ?L = "filter (\<lambda>j. j \<noteq> i \<or> filename e ! 0 \<noteq> 0xE5) (live buf n)"
  have e: "dir_entry ?b j = (if j = i then e else dir_entry buf j)" if "j \<in> set (live buf n)" for j
    using dir_entry_put [OF assms(1,2) l, of j] live_iff [OF that] by simp
  have "find_entry ?b n name' ext' = List.find (\<lambda>j. key (dir_entry buf j) = key_of name' ext') ?L"
    unfolding find_entry_def matches_key live_put [OF assms(1,2) conjunct1 [OF i] assms(4)]
    by (rule find_cong [OF refl]) (use e i assms(5,6) in auto)
  also have "\<dots> = find_entry buf n name' ext'"
    unfolding find_entry_def matches_key by (rule find_filter) (use i assms(6) in simp)
  finally show "find_entry ?b n name' ext' = find_entry buf n name' ext'" .
  show "map_option (dir_entry ?b) (find_entry buf n name' ext') = map_option (dir_entry buf) (find_entry buf n name' ext')"
    using e i assms(6) find_entry_Some [of buf n name' ext'] by (cases "find_entry buf n name' ext'") auto
qed

lemma find_put_same:
  assumes "length (filename e) = 11" "32 * n \<le> length buf" "find_entry buf n name ext = Some i" "filename e ! 0 \<noteq> 0" "filename e ! 0 \<noteq> 0xE5"
    and "key e = key_of name ext"
  shows "find_entry (put_entry i e buf) n name ext = Some i" "dir_entry (put_entry i e buf) i = e"
proof -
  note i = find_entry_Some [OF assms(3)]
  have l: "i < n" using live_iff i by blast
  have e: "dir_entry (put_entry i e buf) j = (if j = i then e else dir_entry buf j)" if "j \<in> set (live buf n)" for j
    using dir_entry_put [OF assms(1,2) l, of j] live_iff [OF that] by simp
  have "find_entry (put_entry i e buf) n name ext = find_entry buf n name ext"
    unfolding find_entry_def matches_key live_put [OF assms(1,2) conjunct1 [OF i] assms(4)]
    using assms(5) by (intro find_cong) (use e i assms(6) in auto)
  then show "find_entry (put_entry i e buf) n name ext = Some i" "dir_entry (put_entry i e buf) i = e" using assms(3) e i by simp_all
qed

text \<open>The searches of the code return the entry a name stands for.\<close>

lemma find_in_root_lookup:
  assumes "dir_fits 0 d" "fat_find_in_root name ext d = Some (r, d')"
  shows "r = lookup 0 name ext d \<or> r = None \<and> \<not> ata_works d"
proof -
  obtain b d1 where b: "fat_read_root d = (b, d1)" by fastforce
  have "dir_place True 0 d = (of_nat (dir_addr 0 d), of_nat (dir_size 0 d), dir_count 0 d)" using dir_place_eq [of 0 d] by simp
  then have "ata_read_exact (of_nat (dir_addr 0 d)) (of_nat (dir_size 0 d)) d = (b, d1)" "dir_count 0 d = unat (noRootEntries d)"
    using b by (simp_all add: fat_read_root_def dir_place_def)
  from read_dir(2) [OF assms(1) this(1)] this(2) show ?thesis
    using assms(2) b by (auto simp: fat_find_in_root_def lookup_def split: prod.splits option.splits if_splits)
qed

lemma find_in_dir_lookup:
  assumes "dir_fits c d" "c \<noteq> 0" "take 2 name \<noteq> [46, 46]" "fat_find_in_dir c name ext d = Some (r, d')"
  shows "r = lookup c name ext d \<or> r = None \<and> \<not> ata_works d"
proof -
  obtain b d1 where b: "ata_read_exact (clusterAddr c d) (clusterSize d) d = (b, d1)" by fastforce
  have "dir_place False c d = (of_nat (dir_addr c d), of_nat (dir_size c d), dir_count c d)" using dir_place_eq [of c d] assms(2) by simp
  then have "ata_read_exact (of_nat (dir_addr c d)) (of_nat (dir_size c d)) d = (b, d1)" using b by (simp add: dir_place_def)
  moreover have "dir_count c d = unat (clusterSize d div 32)" using assms(2) by (simp add: dir_count_def dir_place_def)
  ultimately have "ata_read_exact (of_nat (dir_addr c d)) (of_nat (dir_size c d)) d = (b, d1)" "dir_count c d = unat (clusterSize d div 32)" .
  from read_dir(2) [OF assms(1) this(1)] this(2) show ?thesis
    using assms(3,4) b by (auto simp: fat_find_in_dir_def lookup_def new_copy_def split: prod.splits option.splits if_splits)
qed

section \<open>Updating an entry\<close>

lemma update_spec:
  fixes d :: "'a fat_t_scheme"
  assumes "dir_fits c d" "length (filename e) = 11" "fat_update_in_dir c name ext e d = (ok, d')"
  shows "same_drive d d'" "fat_table d' = fat_table d" "dirty_clusters d' = dirty_clusters d"
    "\<forall>a. a < dir_addr c d \<or> dir_addr c d + dir_size c d \<le> a \<longrightarrow> disk d' (abs_addr d a) = disk d (abs_addr d a)"
    "ok \<longrightarrow> (\<exists>i. find_entry (dir_data c d) (dir_count c d) name ext = Some i \<and> dir_data c d' = put_entry i e (dir_data c d))"
    "lookup c name ext d = None \<longrightarrow> \<not> ok \<and> disk d' = disk d"
    "ata_works d \<longrightarrow> ok = (lookup c name ext d \<noteq> None)"
proof -
  obtain b d1 where b: "ata_read_exact (of_nat (dir_addr c d)) (of_nat (dir_size c d)) d = (b, d1)" by fastforce
  note r = read_dir [OF assms(1) b]
  have un: "same_drive d d1" "fat_table d1 = fat_table d" "dirty_clusters d1 = dirty_clusters d" "disk d1 = disk d" using r(1) by (simp_all add: unchanged_def)
  note f1 = same_drive_fields [OF un(1)] and g1 = same_drive_dir [OF un(1)]
  let ?b = "dir_data c d" and ?n = "dir_count c d"
  have run: "(ok, d') = (case b of None \<Rightarrow> (False, d1) | Some buf \<Rightarrow> (case find_entry buf ?n name ext of None \<Rightarrow> (False, d1)
      | Some i \<Rightarrow> ata_write_exact (of_nat (dir_addr c d)) (put_entry i e buf) d1))"
    using assms(3) b by (simp add: fat_update_in_dir_def dir_place_eq split: option.splits)
  define P where "P \<longleftrightarrow> same_drive d d' \<and> fat_table d' = fat_table d \<and> dirty_clusters d' = dirty_clusters d
    \<and> (\<forall>a. a < dir_addr c d \<or> dir_addr c d + dir_size c d \<le> a \<longrightarrow> disk d' (abs_addr d a) = disk d (abs_addr d a))
    \<and> (ok \<longrightarrow> (\<exists>i. find_entry ?b ?n name ext = Some i \<and> dir_data c d' = put_entry i e ?b))
    \<and> (find_entry ?b ?n name ext = None \<longrightarrow> \<not> ok \<and> disk d' = disk d) \<and> (ata_works d \<longrightarrow> ok = (find_entry ?b ?n name ext \<noteq> None))"
  have P
  proof (cases "b = None \<or> find_entry ?b ?n name ext = None")
    case True
    then have "\<not> ok" "d' = d1" using run r(2) by (auto split: option.splits)
    then show ?thesis using un r(2) True by (auto simp: P_def)
  next
    case False
    then obtain i where i: "b = Some ?b" "find_entry ?b ?n name ext = Some i" using r(2) by auto
    let ?w = "put_entry i e ?b"
    have w: "ata_write_exact (of_nat (dir_addr c d)) ?w d1 = (ok, d')" using run i by simp
    have il: "32 * i + 32 \<le> dir_size c d" using live_iff [OF conjunct1 [OF find_entry_Some [OF i(2)]]] dir_count_size [of c d] by linarith
    have len: "length ?w = dir_size c d" using length_put_entry [OF assms(2), of i ?b] il by simp
    then have part: "in_partition d1 (dir_addr c d) (length ?w)" using assms(1) f1(14) by (simp add: dir_fits_def)
    obtain m where m: "stored (abs_addr d1 (dir_addr c d)) ?w m d1 d'" "ok \<longrightarrow> m = length ?w"
      "ata_works d1 \<longrightarrow> dir_addr c d mod 512 = 0 \<longrightarrow> length ?w mod 512 = 0 \<longrightarrow> ok"
      using ata_write_exact_spec [OF part w] by (elim conjE exE)
    note sf = stored_fields [OF m(1)]
    have m': "m \<le> length ?w" using m(1) by (simp add: stored_def)
    have vol: "same_volume d1 d'" "fat_table d' = fat_table d1" "dirty_clusters d' = dirty_clusters d1" using ata_write_fat [OF w] by simp_all
    have drv: "same_drive d d'" using same_drive_trans [OF un(1), of d'] vol(1) sf by (simp add: same_drive_def)
    have dk: "disk d' = write_bytes (abs_addr d (dir_addr c d)) (take m ?w) (disk d)" using sf f1(6) un(4) by simp
    have out: "disk d' (abs_addr d a) = disk d (abs_addr d a)" if "a < dir_addr c d \<or> dir_addr c d + dir_size c d \<le> a" for a
      unfolding dk using that m' len by (intro write_bytes_outside) (auto simp: abs_addr_def)
    have "dir_data c d' = ?w" if ok
    proof -
      have "m = length ?w" using m(2) that by simp
      then show ?thesis using read_write_bytes [of "abs_addr d (dir_addr c d)" ?w "disk d"] len same_drive_dir [OF drv] same_drive_fields(6) [OF drv] dk
        by (simp add: dir_data_def)
    qed
    moreover have "ata_works d \<longrightarrow> ok" using m(3) f1(12) assms(1) len by (simp add: dir_fits_def)
    ultimately show ?thesis using drv vol un out i(2) by (simp add: P_def)
  qed
  then show "same_drive d d'" "fat_table d' = fat_table d" "dirty_clusters d' = dirty_clusters d"
    "\<forall>a. a < dir_addr c d \<or> dir_addr c d + dir_size c d \<le> a \<longrightarrow> disk d' (abs_addr d a) = disk d (abs_addr d a)"
    "ok \<longrightarrow> (\<exists>i. find_entry (dir_data c d) (dir_count c d) name ext = Some i \<and> dir_data c d' = put_entry i e (dir_data c d))"
    "lookup c name ext d = None \<longrightarrow> \<not> ok \<and> disk d' = disk d"
    "ata_works d \<longrightarrow> ok = (lookup c name ext d \<noteq> None)"
    unfolding P_def lookup_def by simp_all
qed

text \<open>
  C39: an updated entry is found again. When \<open>fat_update_in_dir\<close> returns success, the name stands for the new entry
  and every other name of the directory for the entry it stood for before; nothing outside the directory changes on
  the disk, and the table does not. A name that is not in the directory is refused and changes nothing; one that is
  there is updated, on a drive that reports no error. What a name stands for is what the searches of the code return:
  \<open>fat_find_in_root\<close>, and \<open>fat_find_in_dir\<close> for names that do not begin with two dots.
\<close>

theorem fat_update_find:
  fixes d :: "'a fat_t_scheme"
  assumes "dir_fits c d" and "length (filename e) = 11" and "fat_entry_matches_filename e name ext"
    and "filename e ! 0 \<noteq> 0" and "filename e ! 0 \<noteq> 0xE5" and "fat_update_in_dir c name ext e d = (ok, d')"
  shows "(ok \<longrightarrow> lookup c name ext d' = Some e
        \<and> (\<forall>name' ext'. \<not> fat_entry_matches_filename e name' ext' \<longrightarrow> lookup c name' ext' d' = lookup c name' ext' d))
    \<and> (lookup c name ext d = None \<longrightarrow> \<not> ok \<and> disk d' = disk d) \<and> (ata_works d \<longrightarrow> ok = (lookup c name ext d \<noteq> None))
    \<and> fat_table d' = fat_table d
    \<and> (\<forall>a. a < dir_addr c d \<or> dir_addr c d + dir_size c d \<le> a \<longrightarrow> disk d' (abs_addr d a) = disk d (abs_addr d a))
    \<and> (\<forall>name' ext' r d1. c = 0 \<and> fat_find_in_root name' ext' d' = Some (r, d1) \<longrightarrow> r = lookup 0 name' ext' d' \<or> r = None \<and> \<not> ata_works d)
    \<and> (\<forall>name' ext' r d1. c \<noteq> 0 \<and> take 2 name' \<noteq> [46, 46] \<and> fat_find_in_dir c name' ext' d' = Some (r, d1)
          \<longrightarrow> r = lookup c name' ext' d' \<or> r = None \<and> \<not> ata_works d)"
proof -
  note u = update_spec [OF assms(1,2,6)]
  note f = same_drive_fields [OF u(1)] and g = same_drive_dir [OF u(1)]
  have k: "key e = key_of name ext" using assms(3) by (simp add: matches_key)
  have n: "32 * dir_count c d \<le> length (dir_data c d)" using dir_count_size [of c d] by simp
  have 1: "lookup c name ext d' = Some e" "\<forall>name' ext'. \<not> fat_entry_matches_filename e name' ext' \<longrightarrow> lookup c name' ext' d' = lookup c name' ext' d" if ok: ok
  proof -
    obtain i where i: "find_entry (dir_data c d) (dir_count c d) name ext = Some i" "dir_data c d' = put_entry i e (dir_data c d)" using u(5) ok by blast
    show "lookup c name ext d' = Some e" using find_put_same [OF assms(2) n i(1) assms(4,5) k] i(2) by (simp add: lookup_def g)
    show "\<forall>name' ext'. \<not> fat_entry_matches_filename e name' ext' \<longrightarrow> lookup c name' ext' d' = lookup c name' ext' d"
      using find_put_other [OF assms(2) n i(1) assms(4)] k i(2) by (auto simp: lookup_def g matches_key)
  qed
  have 2: "r = lookup 0 name' ext' d' \<or> r = None \<and> \<not> ata_works d" if "c = 0" "fat_find_in_root name' ext' d' = Some (r, d1)" for name' ext' r d1
    using find_in_root_lookup [OF _ that(2)] assms(1) f(12) g(4) that(1) by simp
  have 3: "r = lookup c name' ext' d' \<or> r = None \<and> \<not> ata_works d"
    if "c \<noteq> 0" "take 2 name' \<noteq> [46, 46]" "fat_find_in_dir c name' ext' d' = Some (r, d1)" for name' ext' r d1
    using find_in_dir_lookup [OF _ that] assms(1) f(12) g(4) by simp
  show ?thesis using 1 2 3 u(2,4,6,7) by (intro conjI allI impI) blast+
qed

section \<open>Deleting a file of the root\<close>

text \<open>A name of eight and an extension of three characters at most, and how they are written.\<close>

definition short_name :: "str \<Rightarrow> str \<Rightarrow> bool" where
  "short_name name ext \<longleftrightarrow> name \<noteq> [] \<and> length name \<le> 8 \<and> length ext \<le> 3 \<and> 46 \<notin> set name \<and> 47 \<notin> set name \<and> 47 \<notin> set ext"

definition dotted :: "str \<Rightarrow> str \<Rightarrow> str" where
  "dotted name ext = (if ext = [] then name else name @ 46 # ext)"

definition root_fits :: "'a fat_t_scheme \<Rightarrow> bool" where
  "root_fits d \<longleftrightarrow> dir_fits 0 d \<and> table_base d + unat (noTables d) * unat (tableSize d) \<le> dir_addr 0 d \<and> dir_addr 0 d + dir_size 0 d \<le> data_base d"

definition names_distinct :: "u16 \<Rightarrow> 'a fat_t_scheme \<Rightarrow> bool" where
  "names_distinct c d \<longleftrightarrow> distinct (map (\<lambda>i. key (dir_entry (dir_data c d) i)) (live (dir_data c d) (dir_count c d)))"

lemma strsplit_none: "c \<notin> set s \<Longrightarrow> strsplit_s c s = (False, s, [])"
proof -
  assume "c \<notin> set s"
  then have t: "takeWhile (\<lambda>x. x \<noteq> c) s = s" by (auto simp: takeWhile_eq_all_conv)
  show ?thesis unfolding strsplit_s_def Let_def t by simp
qed

lemma strsplit_at: "c \<notin> set h \<Longrightarrow> strsplit_s c (h @ c # t) = (True, h, t)"
  by (simp add: strsplit_s_def Let_def takeWhile_append)

lemma split_root: "47 \<notin> set q \<Longrightarrow> split_path (47 # q) = ([47], q)"
proof -
  assume q: "47 \<notin> set q"
  let ?f = "\<lambda>i found. if (47 # q) ! i = 47 then Some i else found"
  have "fold ?f [1..<Suc n] (Some 0) = Some 0" if "n \<le> length q" for n
    using that q by (induction n) (auto simp: nth_Cons' in_set_conv_nth)
  then have "fold ?f [0..<Suc (length q)] None = Some 0" by (simp add: upt_conv_Cons del: upt_Suc)
  then show ?thesis by (simp add: split_path_def strsplit_last_s_def)
qed

lemma malloc_works: "ata_works d \<Longrightarrow> \<exists>d'. buf_malloc d = (True, d') \<and> unchanged d d' \<and> ata_works d'" for d :: "'a fat_t_scheme"
proof -
  assume w: "ata_works d"
  obtain ok d' where m: "buf_malloc d = (ok, d')" by fastforce
  then have ok using w by (auto simp: buf_malloc_def ata_works_def)
  then show ?thesis using m w unchanged_malloc [OF m] unchanged_fields(7) [OF unchanged_malloc [OF m]] by simp
qed

lemma unchanged_dir:
  "unchanged d d' \<Longrightarrow> dir_fits c d' = dir_fits c d" "unchanged d d' \<Longrightarrow> dir_data c d' = dir_data c d"
  "unchanged d d' \<Longrightarrow> dir_count c d' = dir_count c d"
  using same_drive_dir [of d d' c] dir_data_cong(1) [of d d' c] by (simp_all add: unchanged_def)

lemma find_in_root_works:
  assumes "dir_fits 0 d" "ata_works d"
  shows "\<exists>d'. fat_find_in_root name ext d = Some (lookup 0 name ext d, d') \<and> unchanged d d'"
proof -
  obtain b d1 where b: "fat_read_root d = (b, d1)" by fastforce
  have "dir_place True 0 d = (of_nat (dir_addr 0 d), of_nat (dir_size 0 d), dir_count 0 d)" using dir_place_eq [of 0 d] by simp
  then have rd: "ata_read_exact (of_nat (dir_addr 0 d)) (of_nat (dir_size 0 d)) d = (b, d1)" "dir_count 0 d = unat (noRootEntries d)"
    using b by (simp_all add: fat_read_root_def dir_place_def)
  note r = read_dir [OF assms(1) rd(1)]
  have "ata_works d1" using unchanged_fields(7) [OF r(1)] assms(2) by simp
  then obtain d2 where d2: "buf_malloc d1 = (True, d2)" "unchanged d1 d2" using malloc_works by blast
  show ?thesis using b r d2 rd(2) assms(2) unchanged_trans [OF r(1) d2(2)]
    by (auto simp: fat_find_in_root_def lookup_def split: option.splits)
qed

lemma follow_root:
  assumes "dir_fits 0 d" "ata_works d" "short_name name ext"
  shows "\<exists>d'. fat_follow_path_chain (dotted name ext) None d = Some (case lookup 0 name ext d of None \<Rightarrow> Missing | Some e \<Rightarrow> Found e, d') \<and> unchanged d d'"
proof -
  obtain d' where d': "fat_find_in_root name ext d = Some (lookup 0 name ext d, d')" "unchanged d d'" using find_in_root_works [OF assms(1,2)] by blast
  have "length (dotted name ext) \<le> 12" "dotted name ext \<noteq> []" "dotted name ext \<noteq> [46]" "dotted name ext \<noteq> [46, 46]" "fits 9 name" "fits 4 ext"
    using assms(3) by (auto simp: short_name_def dotted_def fits_def neq_Nil_conv)
  moreover have "snd (strsplit_s 46 (dotted name ext)) = (name, ext)"
    using assms(3) strsplit_none [of 46 name] strsplit_at [of 46 name ext] by (simp add: short_name_def dotted_def)
  then obtain r where "strsplit_s 46 (dotted name ext) = (r, name, ext)" by (metis prod.collapse)
  ultimately have "fat_follow_path_chain (dotted name ext) None d = map_option found_of (fat_find_in_root name ext d)"
    by (simp add: fat_follow_path_chain_def Let_def)
  then show ?thesis using d' by (simp add: found_of_def)
qed

lemma parse_root:
  assumes "dir_fits 0 d" "ata_works d" "short_name name ext"
  shows "\<exists>d'. fat_parse_path (47 # dotted name ext) True d = Some (lookup 0 name ext d, d') \<and> unchanged d d'"
proof -
  let ?q = "dotted name ext"
  have q: "47 \<notin> set ?q" using assms(3) by (auto simp: short_name_def dotted_def)
  obtain d1 where 1: "buf_malloc d = (True, d1)" "unchanged d d1" "ata_works d1" using malloc_works [OF assms(2)] by blast
  obtain d2 where 2: "buf_malloc d1 = (True, d2)" "unchanged d1 d2" "ata_works d2" using malloc_works [OF 1(3)] by blast
  obtain d3 where 3: "buf_malloc d2 = (True, d3)" "unchanged d2 d3" "ata_works d3" using malloc_works [OF 2(3)] by blast
  have u: "unchanged d d3" using unchanged_trans [OF 1(2) unchanged_trans [OF 2(2) 3(2)]] .
  have "parse_loop (47 # ?q) None 0 d3 = parse_loop ?q None 1 d3"
    using strsplit_at [of 47 "[]" ?q] by (subst parse_loop.simps) (simp add: fat_follow_path_chain_def)
  also have "\<dots> = Some (Some (None, ?q), d3)" using strsplit_none [OF q] by (subst parse_loop.simps) simp
  finally have p: "parse_loop (47 # ?q) None 0 d3 = Some (Some (None, ?q), d3)" .
  have "dir_fits 0 d3" "lookup 0 name ext d3 = lookup 0 name ext d" using assms(1) unchanged_dir(1) [OF u] unchanged_lookup [OF u] by simp_all
  with follow_root [OF _ 3(3) assms(3)] obtain d4
    where "fat_follow_path_chain ?q None d3 = Some (case lookup 0 name ext d of None \<Rightarrow> Missing | Some e \<Rightarrow> Found e, d4)" "unchanged d3 d4" by auto
  then show ?thesis using p 1 2 3 unchanged_trans [OF u] by (auto simp: fat_parse_path_def split: option.splits)
qed

lemma lookup_key: "key_of name ext = key_of name' ext' \<Longrightarrow> lookup c name ext d = lookup c name' ext' d"
  by (simp add: lookup_def find_entry_def matches_key)

lemma lookup_Some:
  assumes "lookup c name ext d = Some f"
  shows "length (filename f) = 11" "key f = key_of name ext"
proof -
  obtain i where i: "find_entry (dir_data c d) (dir_count c d) name ext = Some i" "f = dir_entry (dir_data c d) i" using assms by (auto simp: lookup_def)
  note f = find_entry_Some [OF i(1)]
  have "32 * i + 32 \<le> dir_size c d" using live_iff [OF conjunct1 [OF f]] dir_count_size [of c d] by linarith
  then show "length (filename f) = 11" using i(2) by (simp add: dir_entry_def dir_of_def)
  show "key f = key_of name ext" using f i(2) by simp
qed

text \<open>Marking the entry of a name as deleted.\<close>

lemma delete_mark:
  assumes "dir_fits c d" "lookup c name ext d = Some f" "fat_update_in_dir c (entry_name f) (entry_ext f) (f\<lparr> filename := (filename f)[0 := 0xE5] \<rparr>) d = (True, d')"
  shows "key_of name' ext' \<noteq> key_of name ext \<Longrightarrow> lookup c name' ext' d' = lookup c name' ext' d"
    and "names_distinct c d \<Longrightarrow> lookup c name ext d' = None"
proof -
  let ?e = "f\<lparr> filename := (filename f)[0 := 0xE5] \<rparr>" and ?b = "dir_data c d" and ?n = "dir_count c d"
  note l = lookup_Some [OF assms(2)]
  have e: "length (filename ?e) = 11" "filename ?e ! 0 = 0xE5" "filename ?e ! 0 \<noteq> 0" using l(1) by simp_all
  note u = update_spec [OF assms(1) e(1) assms(3)]
  note g = same_drive_dir [OF u(1)]
  have "key_of (entry_name f) (entry_ext f) = key_of name ext" using l(2) by (simp add: key_def)
  then have "find_entry ?b ?n (entry_name f) (entry_ext f) = find_entry ?b ?n name ext" by (simp add: find_entry_def matches_key)
  then obtain i where i: "find_entry ?b ?n name ext = Some i" "dir_data c d' = put_entry i ?e ?b" using u(5) by auto
  have n: "32 * ?n \<le> length ?b" using dir_count_size [of c d] by simp
  note fi = find_entry_Some [OF i(1)]
  show "lookup c name' ext' d' = lookup c name' ext' d" if "key_of name' ext' \<noteq> key_of name ext"
    using find_put_other [OF e(1) n i(1) e(3) disjI1 [OF e(2)] that] i(2) by (simp add: lookup_def g)
  show "lookup c name ext d' = None" if nd: "names_distinct c d"
  proof -
    have "live (put_entry i ?e ?b) ?n = filter (\<lambda>j. j \<noteq> i) (live ?b ?n)" using live_put [OF e(1) n conjunct1 [OF fi] e(3)] e(2) by simp
    moreover have "key (dir_entry (put_entry i ?e ?b) j) \<noteq> key_of name ext" if j: "j \<in> set (live ?b ?n)" "j \<noteq> i" for j
    proof -
      have "key (dir_entry ?b j) \<noteq> key (dir_entry ?b i)" using nd j fi by (auto simp: names_distinct_def distinct_map inj_on_def)
      then show ?thesis using dir_entry_put [OF e(1) n, of i j] live_iff [OF j(1)] live_iff [OF conjunct1 [OF fi]] j(2) fi by simp
    qed
    ultimately have "find_entry (put_entry i ?e ?b) ?n name ext = None" by (auto simp: find_entry_def matches_key find_None_iff)
    then show ?thesis using i(2) by (simp add: lookup_def g)
  qed
qed

lemma free_file_chain_works:
  assumes "data_fits d" "coherent d" "ata_works d" "chain d cs"
  shows "\<exists>d'. free_file_chain (hd cs) d = Some (True, d') \<and> coherent d' \<and> (\<forall>x. entry d' x = (if x \<in> set cs then 0 else entry d x))
    \<and> same_drive d d' \<and> (\<forall>a. table_base d + unat (noTables d) * unat (tableSize d) \<le> a \<longrightarrow> disk d' (abs_addr d a) = disk d (abs_addr d a))"
proof -
  note wf = data_fits_wf [OF assms(1)]
  have c: "\<forall>c\<in>set cs. fat_valid_cluster c d" "is_list (next_of d) (if fat_valid_cluster (hd cs) d then Some (hd cs) else None) cs"
    using assms(4) by (auto simp: chain_def)
  obtain mn mx d1 where f: "free_chain (hd cs) (ucast (hd cs)) (ucast (hd cs)) 0 True d = Some (mn, mx, 0 + length cs, True, d1)" "same_drive d d1" "disk d1 = disk d"
    "volume_fits d \<longrightarrow> coherent d \<longrightarrow> coherent d1" "\<forall>x. entry d1 x = (if x \<in> set cs then 0 else entry d x)"
    using free_chain_spec [OF wf(2) c, of "ucast (hd cs)" "ucast (hd cs)" 0 True] by blast
  obtain w d2 where fl: "fat_table_flush_cache mn mx d1 = (w, d2)" by fastforce
  note e = same_drive_fields [OF f(2)]
  have "volume_fits d1" using wf(1) e(2) by simp
  note ff = flush_cache_frame [OF this fl]
  have w: w using ff(2) e(12) assms(3) by simp
  have dk: "disk d2 (abs_addr d a) = disk d (abs_addr d a)" if "table_base d + unat (noTables d) * unat (tableSize d) \<le> a" for a
    using ff(1) f(3) e that unfolding same_fat_def by metis
  have "entry d2 x = entry d1 x" for x using same_fat_fields(6) [OF ff(1)] by (simp add: entry_def)
  then show ?thesis
    using f fl w ff(3) wf(1) assms(2) dk same_drive_trans [OF f(2) same_fat_drive [OF ff(1)]] by (auto simp: free_file_chain_def)
qed

text \<open>
  C40: deleting a file of the root, on a drive that reports no error. A name that is not there is refused and nothing
  changes. A file that is there, with the chain \<open>cs\<close>, is deleted: exactly the clusters of \<open>cs\<close> become free, every
  other name of the root keeps its entry and all clusters keep their bytes, the name is gone when the names of the root
  are distinct, and what the table says is on the disk.
\<close>

theorem fat_delete_root:
  fixes d :: "'a fat_t_scheme"
  assumes "data_fits d" and "root_fits d" and "coherent d" and "ata_works d" and "short_name name ext"
    and "\<And>f. lookup 0 name ext d = Some f \<Longrightarrow> chain d cs \<and> firstClusterNo f = hd cs"
  shows "\<exists>ok d'. fat_delete_file (47 # dotted name ext) d = Some (ok, d') \<and> ok = (lookup 0 name ext d \<noteq> None) \<and> coherent d'
    \<and> (\<forall>x. entry d' x = (if ok \<and> x \<in> set cs then 0 else entry d x)) \<and> (\<forall>x. cluster_data x d' = cluster_data x d)
    \<and> (\<forall>name' ext'. key_of name' ext' \<noteq> key_of name ext \<longrightarrow> lookup 0 name' ext' d' = lookup 0 name' ext' d)
    \<and> (names_distinct 0 d \<longrightarrow> lookup 0 name ext d' = None)"
proof -
  have root: "dir_fits 0 d" "table_base d + unat (noTables d) * unat (tableSize d) \<le> dir_addr 0 d" "dir_addr 0 d + dir_size 0 d \<le> data_base d"
    using assms(2) by (simp_all add: root_fits_def)
  obtain d1 where p: "fat_parse_path (47 # dotted name ext) True d = Some (lookup 0 name ext d, d1)" "unchanged d d1"
    using parse_root [OF root(1) assms(4,5)] by blast
  note u1 = unchanged_fields [OF p(2)] and l1 = unchanged_lookup [OF p(2)] and e1 = unchanged_dir [OF p(2)]
  have c1: "coherent d1" using coherent_unchanged [OF p(2) assms(3)] .
  show ?thesis
  proof (cases "lookup 0 name ext d")
    case None
    then show ?thesis using p u1 l1 c1 by (auto simp: fat_delete_file_def)
  next
    case (Some f)
    note ch = assms(6) [OF Some] and ls = lookup_Some [OF Some]
    let ?e = "f\<lparr> filename := (filename f)[0 := 0xE5] \<rparr>"
    obtain ok d2 where up: "fat_update_in_dir 0 (entry_name f) (entry_ext f) ?e d1 = (ok, d2)" by fastforce
    have fit1: "dir_fits 0 d1" "ata_works d1" "lookup 0 name ext d1 = Some f" using root(1) assms(4) e1 u1 l1 Some by simp_all
    have len: "length (filename ?e) = 11" using ls(1) by simp
    note us = update_spec [OF fit1(1) len up]
    have "lookup 0 (entry_name f) (entry_ext f) d1 = lookup 0 name ext d1" using ls(2) by (intro lookup_key) (simp add: key_def)
    then have ok: ok using us(7) fit1 by simp
    note dm = delete_mark [OF fit1(1,3) up [unfolded eqTrueI [OF ok]]]
    have drv: "same_drive d d2" using same_drive_trans [OF _ us(1)] p(2) by (simp add: unchanged_def)
    note g = same_drive_fields [OF drv] and gd = same_drive_dir [OF drv, of 0]
    have dk: "disk d2 (abs_addr d a) = disk d (abs_addr d a)" if "a < dir_addr 0 d \<or> dir_addr 0 d + dir_size 0 d \<le> a" for a
      using us(4) that p(2) same_drive_dir [of d d1 0] same_drive_fields(6) [of d d1] by (auto simp: unchanged_def)
    have tb: "fat_table d2 = fat_table d" "dirty_clusters d2 = dirty_clusters d" using us(2,3) p(2) by (simp_all add: unchanged_def)
    have en: "entry d2 = entry d" "next_of d2 = next_of d" using tb(1) g(13) by (simp_all add: entry_def next_of_def fun_eq_iff)
    have cl: "cluster_data x d2 = cluster_data x d" for x
      unfolding cluster_data_def g using dk root(3) by (intro nth_equalityI) (simp_all add: abs_addr_def add.assoc)
    have "sync i b d2 = sync i b d" if "i < unat (noTables d)" "b < unat (tableSize d)" for i b
    proof -
      have "(i + 1) * unat (tableSize d) \<le> unat (noTables d) * unat (tableSize d)" using that by (intro mult_le_mono1) simp
      then have "table_base d + i * unat (tableSize d) + b < dir_addr 0 d" using that root(2) by simp
      then show ?thesis using dk tb g by (simp add: sync_def)
    qed
    then have "coherent d2" using assms(3) tb g by (simp add: coherent_def)
    moreover have "chain d2 cs" using ch en g(13) by (simp add: chain_def)
    ultimately obtain d3 where fr: "free_file_chain (hd cs) d2 = Some (True, d3)" "coherent d3" "\<forall>x. entry d3 x = (if x \<in> set cs then 0 else entry d2 x)"
      "same_drive d2 d3" "\<forall>a. table_base d2 + unat (noTables d2) * unat (tableSize d2) \<le> a \<longrightarrow> disk d3 (abs_addr d2 a) = disk d2 (abs_addr d2 a)"
      using free_file_chain_works [of d2 cs] assms(1,4) g by auto
    have far: "disk d3 (abs_addr d a) = disk d2 (abs_addr d a)" if "dir_addr 0 d \<le> a" for a using fr(5) that root(2) unfolding g by simp
    have lk: "lookup 0 n x d3 = lookup 0 n x d2" for n x
      by (rule dir_data_cong(2) [OF fr(4)]) (use far in \<open>simp add: g gd\<close>)
    have cl3: "cluster_data x d3 = cluster_data x d2" for x
      unfolding cluster_data_def same_drive_fields [OF fr(4)] g using far root(3) by (intro nth_equalityI) (simp_all add: abs_addr_def add.assoc)
    have q: "47 \<notin> set (dotted name ext)" using assms(5) by (auto simp: short_name_def dotted_def)
    have "fat_delete_file (47 # dotted name ext) d = Some (True, d3)"
      using p Some ch fr(1) up ok by (simp add: fat_delete_file_def delete_entry_def split_root [OF q] fits_def)
    moreover have "names_distinct 0 d \<Longrightarrow> lookup 0 name ext d3 = None" using dm(2) lk e1 by (simp add: names_distinct_def)
    moreover have "key_of n x \<noteq> key_of name ext \<Longrightarrow> lookup 0 n x d3 = lookup 0 n x d" for n x using dm(1) lk l1 unchanged_lookup [OF p(2)] by simp
    ultimately show ?thesis using Some fr(2,3) en cl cl3 by auto
  qed
qed

section \<open>A volume with one file\<close>

definition file_a :: fat_dir_t where
  "file_a = empty_dir\<lparr> filename := [65, 32, 32, 32, 32, 32, 32, 32, 32, 32, 32], firstClusterNo := 2 \<rparr>"

definition one_file :: fat_t where
  "one_file = (let d = snd (fat_table_update_cluster 2 0xFFFF small_volume) in d\<lparr> disk := write_bytes 513024 (dir_bytes file_a) (disk d) \<rparr>)"

lemma file_a_matches: "fat_entry_matches_filename file_a [65] []"
  by (simp add: fat_entry_matches_filename_def entry_name_def entry_ext_def field_str_def file_a_def upper_def)

lemma one_file:
  shows "data_fits one_file" "root_fits one_file" "coherent one_file" "ata_works one_file" "chain one_file [2]"
    and "lookup 0 [65] [] one_file = Some file_a" "names_distinct 0 one_file" "entry one_file 2 = 0xFFFF"
proof -
  obtain u d where u: "fat_table_update_cluster 2 0xFFFF small_volume = (u, d)" by fastforce
  note s = small_chain [OF u]
  have d: "d = small_volume\<lparr> dirty_clusters := (replicate 256 False)[2 := True], fat_table := (replicate 256 0)[2 := 0xFFFF] \<rparr>"
    using u by (auto simp: fat_table_update_cluster_def small_simps)
  have o: "one_file = d\<lparr> disk := write_bytes 513024 (dir_bytes file_a) (disk d) \<rparr>" using u by (simp add: one_file_def)
  have dr: "same_drive d one_file" by (simp add: o same_drive_def same_volume_def ata_works_def)
  note f = same_drive_fields [OF dr]
  have tb: "table_base d = 512512" "data_base d = 513536" "noTables d = 1" by (simp_all add: d table_base_def data_base_def small_simps)
  show "data_fits one_file" "ata_works one_file" using s(1,4) f by simp_all
  show "entry one_file 2 = 0xFFFF" using s(8) by (simp add: o entry_def)
  have "entry one_file = entry d" by (simp add: o entry_def fun_eq_iff)
  then show "chain one_file [2]" using s(3) f(13) by (simp add: chain_def next_of_def fun_eq_iff split: if_splits)
  have pl: "dir_addr 0 one_file = 513024" "dir_size 0 one_file = 512" "dir_count 0 one_file = 16"
    by (simp_all add: o d dir_addr_def dir_size_def dir_count_def dir_place_def rootDirAddr_def baseAddr_def small_simps)
  have ab: "abs_addr one_file a = a" for a by (simp add: o d abs_addr_def small_simps)
  have "in_partition one_file 513024 512" by (simp add: o d in_partition_def small_simps)
  then have df: "dir_fits 0 one_file" by (simp add: dir_fits_def pl)
  then show "root_fits one_file" unfolding root_fits_def using pl f tb s(6) by simp
  have len: "length (dir_bytes file_a) = 32" by (simp add: length_dir_bytes file_a_def)
  have "sync i b one_file = sync i b d" if "i < 1" "b < 512" for i b
    using that f tb ab len by (simp add: sync_def o write_bytes_outside)
  then show "coherent one_file" using s(2,6) f tb by (simp add: coherent_def o)
  let ?b = "dir_data 0 one_file"
  have dk: "disk one_file = write_bytes 513024 (dir_bytes file_a) (disk d)" by (simp add: o)
  have "write_bytes 513024 (dir_bytes file_a) (disk d) (513024 + i) = (dir_bytes file_a @ replicate 480 0) ! i" if "i < 512" for i
    using that len by (cases "i < 32") (auto simp: write_bytes_def nth_append d small_simps boot_byte_def)
  then have b: "?b = dir_bytes file_a @ replicate 480 0"
    unfolding dir_data_def pl ab using dk by (intro nth_equalityI) (simp_all add: len)
  have e0: "dir_entry ?b 0 = file_a" using len by (simp add: b dir_entry_def dir_of_bytes file_a_def)
  have e1: "filename (dir_entry ?b (Suc 0)) ! 0 = 0" using len by (simp add: b dir_entry_def dir_of_def)
  have n: "[0..<16] = 0 # Suc 0 # [2..<16]" by (simp add: upt_conv_Cons)
  have lv: "live ?b 16 = [0]" unfolding live_def n using e0 e1 by (simp add: file_a_def)
  have "find_entry ?b 16 [65] [] = Some 0" using file_a_matches by (simp add: find_entry_def lv e0)
  then show "lookup 0 [65] [] one_file = Some file_a" by (simp add: lookup_def pl e0)
  show "names_distinct 0 one_file" by (simp add: names_distinct_def pl lv)
qed

text \<open>The size of the file is stored, and the file deleted.\<close>

theorem fat_update_find_witness:
  "\<exists>d'. fat_update_in_dir 0 [65] [] (file_a\<lparr> fileSize := 700 \<rparr>) one_file = (True, d') \<and> lookup 0 [65] [] d' = Some (file_a\<lparr> fileSize := 700 \<rparr>)"
proof -
  let ?e = "file_a\<lparr> fileSize := 700 \<rparr>"
  have e: "length (filename ?e) = 11" "fat_entry_matches_filename ?e [65] []" "filename ?e ! 0 \<noteq> 0" "filename ?e ! 0 \<noteq> 0xE5"
    using file_a_matches by (simp_all add: fat_entry_matches_filename_def entry_name_def entry_ext_def file_a_def)
  have "dir_fits 0 one_file" using one_file(2) by (simp add: root_fits_def)
  note t = fat_update_find [OF this e]
  obtain ok d' where u: "fat_update_in_dir 0 [65] [] ?e one_file = (ok, d')" by fastforce
  show ?thesis using t [OF u] u one_file(4,6) by auto
qed

theorem fat_delete_root_witness:
  "\<exists>d'. fat_delete_file [47, 65] one_file = Some (True, d') \<and> entry d' 2 = 0 \<and> lookup 0 [65] [] d' = None"
proof -
  have n: "short_name [65] []" "dotted [65] [] = [65]" by (simp_all add: short_name_def dotted_def)
  have "\<And>f. lookup 0 [65] [] one_file = Some f \<Longrightarrow> chain one_file [2] \<and> firstClusterNo f = hd [2]"
    using one_file(5,6) by (auto simp: file_a_def)
  from fat_delete_root [OF one_file(1-4) n(1) this] show ?thesis using one_file(6,7) n(2) by auto
qed

end
