(* ===== verification/Msgstate.thy ===== *)
theory Msgstate
  imports Usermem "HOL-Library.Monad_Syntax"
begin

text \<open>
  The data of message passing (\<^verbatim>\<open>src/msg.c\<close>, \<^verbatim>\<open>src/msg.h\<close>) and of the queues of callbacks of a task
  (\<^verbatim>\<open>src/tasks.c\<close>): ports, channels with a ring of messages in each direction, and the notification of a task by an
  event. The ports and channels live on the heap of the kernel and are named by their address, \<open>0\<close> for \<open>NULL\<close>. The fields
  of tasks and processes that belong to message passing are kept beside them, by the slot of the task and the address of the
  process; an array with a count is the list of the entries in use.
\<close>

section \<open>Data\<close>

abbreviation (input) MSG_MAX_CHANNELS :: nat where "MSG_MAX_CHANNELS \<equiv> 16"
abbreviation (input) MSG_MAX_LEN :: int where "MSG_MAX_LEN \<equiv> 124"
abbreviation (input) MSG_QUEUE_DEPTH :: int where "MSG_QUEUE_DEPTH \<equiv> 14"
abbreviation (input) MAX_TASK_THREADS :: nat where "MAX_TASK_THREADS \<equiv> 4"
abbreviation (input) PROCESS_MAX_PORTS :: nat where "PROCESS_MAX_PORTS \<equiv> 16"
abbreviation (input) TASK_MAX_CHANNELS :: nat where "TASK_MAX_CHANNELS \<equiv> 16"
abbreviation (input) MSG_MAX_HANDLES :: int where "MSG_MAX_HANDLES \<equiv> 4"
abbreviation (input) MSG_ERR_BASE :: u32 where "MSG_ERR_BASE \<equiv> 0xFFFFFF00"
abbreviation (input) MSG_EXPECT_REPLY :: u32 where "MSG_EXPECT_REPLY \<equiv> 1"
abbreviation (input) MSG_LAST_MSG :: u32 where "MSG_LAST_MSG \<equiv> 2"
abbreviation (input) MSG_REPLY :: u32 where "MSG_REPLY \<equiv> 4"
abbreviation (input) MSG_FLAG_CLOSED :: u32 where "MSG_FLAG_CLOSED \<equiv> 1"

datatype msg_err_t =
  MSG_ERR_NO_PRIVILEGE | MSG_ERR_DENIED | MSG_ERR_NAME_TAKEN | MSG_ERR_PORT_NOT_FOUND | MSG_ERR_CHANNEL_NOT_FOUND
| MSG_ERR_SELF | MSG_ERR_LIMIT | MSG_ERR_PORT_FULL | MSG_ERR_NOMEM | MSG_ERR_BUF_TOO_SMALL | MSG_ERR_QUEUE_FULL
| MSG_ERR_INVALID_BUF | MSG_ERR_TOO_LONG | MSG_ERR_EMPTY_MSG | MSG_ERR_INVALID_TASK | MSG_ERR_RECEIVE_QUEUE_FULL
| MSG_ERR_PEER_DISCONNECTED | MSG_ERR_DISCONNECTED | MSG_ERR_MSG_NOT_FOUND | MSG_ERR_TIMEOUT | MSG_ERR_INVALID_MSG
| MSG_ERR_TOO_MANY_HANDLES | MSG_ERR_PEER_INVALID_BUF | MSG_ERR_INVALID_HANDLES | MSG_ERR_PEER_INVALID_HANDLES
| MSG_ERR_PEER_INVALID_MSG

text \<open>The codes that a program sees: the errors are numbered down from -1.\<close>

definition err_codes :: "msg_err_t list" where
  "err_codes = [MSG_ERR_NO_PRIVILEGE, MSG_ERR_DENIED, MSG_ERR_NAME_TAKEN, MSG_ERR_PORT_NOT_FOUND, MSG_ERR_CHANNEL_NOT_FOUND,
     MSG_ERR_SELF, MSG_ERR_LIMIT, MSG_ERR_PORT_FULL, MSG_ERR_NOMEM, MSG_ERR_BUF_TOO_SMALL, MSG_ERR_QUEUE_FULL,
     MSG_ERR_INVALID_BUF, MSG_ERR_TOO_LONG, MSG_ERR_EMPTY_MSG, MSG_ERR_INVALID_TASK, MSG_ERR_RECEIVE_QUEUE_FULL,
     MSG_ERR_PEER_DISCONNECTED, MSG_ERR_DISCONNECTED, MSG_ERR_MSG_NOT_FOUND, MSG_ERR_TIMEOUT, MSG_ERR_INVALID_MSG,
     MSG_ERR_TOO_MANY_HANDLES, MSG_ERR_PEER_INVALID_BUF, MSG_ERR_INVALID_HANDLES, MSG_ERR_PEER_INVALID_HANDLES,
     MSG_ERR_PEER_INVALID_MSG]"

definition err_code :: "msg_err_t \<Rightarrow> int" where
  "err_code e = - 1 - int (length (takeWhile (\<lambda>x. x \<noteq> e) err_codes))"

text \<open>A message in a slot: its flags and the bytes in use.\<close>

record msg_obj_t =
  mo_flags :: u16
  mo_data :: "u8 list"

record msg_queue_t =
  mq_slots :: "msg_obj_t list"
  mq_head :: int
  mq_tail :: int
  mq_count :: int
  mq_reserved :: int

record msg_send_t =
  sm_buffer :: u32
  sm_size :: int
  sm_handles :: u32
  sm_handle_count :: int

record msg_recv_t =
  rm_buffer :: u32
  rm_buffer_size :: int
  rm_handles :: u32
  rm_handle_count :: int

text \<open>The queues are indexed by the direction: \<^const>\<open>True\<close> is from the server to the client.\<close>

record msg_channel_t =
  ch_uid :: u32
  ch_port_uid :: u32
  ch_client_uid :: u32
  ch_client_taskid :: int
  ch_client_taskuid :: u32
  ch_server_taskid :: int
  ch_server_taskuid :: u32
  ch_server_connected :: bool
  ch_client_connected :: bool
  ch_queues :: "bool \<Rightarrow> msg_queue_t"
  ch_server_unanswered :: int
  ch_client_blocked :: bool
  ch_server_blocked :: bool
  ch_client_flags :: u32
  ch_server_flags :: u32
  ch_client_notify_pending :: bool
  ch_server_notify_pending :: bool
  ch_call_uid :: u32
  ch_client_send_msg :: msg_send_t
  ch_client_recv_msg :: msg_recv_t
  ch_client_recv_msg_user :: u32

record msg_waiter_t =
  wt_active :: bool
  wt_task_id :: int
  wt_task_uid :: u32
  wt_recv_msg :: msg_recv_t
  wt_recv_msg_user :: u32

record msg_port_t =
  po_uid :: u32
  po_name :: "u8 list"
  po_owner_uid :: u32
  po_owner_taskid :: int
  po_owner_taskuid :: u32
  po_channels :: "u32 list"
  po_channel_count :: nat
  po_client_reserves :: bool
  po_waiters :: "msg_waiter_t list"

record msg_t = kern_t +
  ports :: "u32 list"
  msg_ports :: "u32 \<Rightarrow> msg_port_t"
  msg_channels :: "u32 \<Rightarrow> msg_channel_t"
  msg_uid_counter :: u32
  channel_uid_counter :: u32
  call_uid_counter :: u32
  ts_msg_func :: "nat \<Rightarrow> u32"
  ts_msg_channels :: "nat \<Rightarrow> u32 list"
  ts_msg_notify_pending :: "nat \<Rightarrow> bool"
  pr_ports :: "u32 \<Rightarrow> u32 list"

definition upd_port :: "u32 \<Rightarrow> (msg_port_t \<Rightarrow> msg_port_t) \<Rightarrow> 'a msg_t_scheme \<Rightarrow> 'a msg_t_scheme" where
  "upd_port p f s = s\<lparr> msg_ports := (msg_ports s)(p := f (msg_ports s p)) \<rparr>"

definition upd_channel :: "u32 \<Rightarrow> (msg_channel_t \<Rightarrow> msg_channel_t) \<Rightarrow> 'a msg_t_scheme \<Rightarrow> 'a msg_t_scheme" where
  "upd_channel c f s = s\<lparr> msg_channels := (msg_channels s)(c := f (msg_channels s c)) \<rparr>"

definition upd_queue :: "bool \<Rightarrow> (msg_queue_t \<Rightarrow> msg_queue_t) \<Rightarrow> msg_channel_t \<Rightarrow> msg_channel_t" where
  "upd_queue dir f c = c\<lparr> ch_queues := (ch_queues c)(dir := f (ch_queues c dir)) \<rparr>"

section \<open>Rings of messages\<close>

definition msg_queue_put :: "msg_obj_t \<Rightarrow> msg_queue_t \<Rightarrow> msg_queue_t" where
  "msg_queue_put obj q =
     (let i = (if mq_count q = 0 then 0 else (mq_tail q + 1) mod MSG_QUEUE_DEPTH);
          h = (if mq_count q = 0 then i else mq_head q)
      in q\<lparr> mq_count := mq_count q + 1, mq_head := h, mq_tail := i, mq_slots := (mq_slots q)[nat i := obj] \<rparr>)"

definition msg_queue_front :: "msg_queue_t \<Rightarrow> msg_obj_t" where
  "msg_queue_front q = mq_slots q ! nat (mq_head q)"

definition msg_queue_take :: "msg_queue_t \<Rightarrow> msg_queue_t" where
  "msg_queue_take q = q\<lparr> mq_head := (mq_head q + 1) mod MSG_QUEUE_DEPTH, mq_count := mq_count q - 1 \<rparr>"

section \<open>Looking up ports and channels\<close>

definition find_port_by_name :: "u8 list \<Rightarrow> 'a msg_t_scheme \<Rightarrow> u32 option" where
  "find_port_by_name name s = List.find (\<lambda>p. po_name (msg_ports s p) = name) (ports s)"

definition find_port_by_uid :: "u32 \<Rightarrow> 'a msg_t_scheme \<Rightarrow> u32 option" where
  "find_port_by_uid uid s = List.find (\<lambda>p. po_uid (msg_ports s p) = uid) (ports s)"

definition find_channel :: "u32 \<Rightarrow> u32 \<Rightarrow> 'a msg_t_scheme \<Rightarrow> nat option" where
  "find_channel port channel_uid s =
     (let p = msg_ports s port
      in List.find (\<lambda>i. po_channels p ! i \<noteq> 0 \<and> ch_uid (msg_channels s (po_channels p ! i)) = channel_uid) [0..<po_channel_count p])"

text \<open>The port, the index in it and the channel a program names by two identities.\<close>

definition lookup_channel :: "u32 \<Rightarrow> u32 \<Rightarrow> 'a msg_t_scheme \<Rightarrow> (u32 \<times> nat \<times> u32) option" where
  "lookup_channel port_uid channel_uid s =
     do { port \<leftarrow> find_port_by_uid port_uid s;
          c \<leftarrow> find_channel port channel_uid s;
          Some (port, c, po_channels (msg_ports s port) ! c) }"

definition msg_get_task :: "int \<Rightarrow> u32 \<Rightarrow> 'a msg_t_scheme \<Rightarrow> nat option" where
  "msg_get_task task_id task_uid s =
     (if task_id < 0 \<or> task_id \<ge> TOTAL_TASKS then None
      else let t = nat task_id
           in if \<not> ts_enabled (tasks s t) \<or> ts_task_uid (tasks s t) \<noteq> task_uid then None else Some t)"

section \<open>The queue of callbacks of a task\<close>

text \<open>\<open>memcpy\<close> of the arguments into the array of an event.\<close>

definition copy_args :: "u32 list \<Rightarrow> u32 list \<Rightarrow> u32 list" where
  "copy_args args old = args @ drop (length args) old"

text \<open>
  Events that replace or extend one that is queued: hover, scroll and drag events the last one of the same window, a message
  event any one of the same port and channel.
\<close>

definition coalesce :: "task_event_type_t \<Rightarrow> u32 \<Rightarrow> u32 list \<Rightarrow> task_event_t kqueue_t \<Rightarrow> task_event_t kqueue_t option" where
  "coalesce type addr args q =
     (let argc = length args; buf = q_buffer q
      in if type = E_HOVER \<or> type = E_SCROLL \<or> type = E_DRAGGED then
           (case kqueue_last q of
              None \<Rightarrow> None
            | Some i \<Rightarrow>
                let e = buf ! i
                in if ev_addr e = addr \<and> ev_type e = type \<and> ev_args e ! (argc - 1) = args ! (argc - 1) then
                     Some (q\<lparr> q_buffer := buf[i :=
                       (if type = E_SCROLL \<and> ev_argc e = 3 \<and> argc = 3
                        then e\<lparr> ev_args := [ev_args e ! 0 + args ! 0, args ! 1, args ! 2] @ drop 3 (ev_args e) \<rparr>
                        else e\<lparr> ev_args := copy_args args (ev_args e), ev_argc := argc \<rparr>)] \<rparr>)
                   else None)
         else if type = E_MSG then
           (case List.find (\<lambda>i. let e = buf ! i in ev_addr e = addr \<and> ev_type e = type \<and> ev_args e ! 0 = args ! 0 \<and> ev_args e ! 1 = args ! 1)
                   (map (\<lambda>n. kqueue_at q (int n)) [0..<nat (kqueue_count q)]) of
              None \<Rightarrow> None
            | Some i \<Rightarrow> Some (q\<lparr> q_buffer := buf[i := (buf ! i)\<lparr> ev_args := (ev_args (buf ! i))[2 := ev_args (buf ! i) ! 2 OR args ! 2] \<rparr>] \<rparr>))
         else None)"

definition task_queue_subroutine :: "nat \<Rightarrow> task_event_type_t \<Rightarrow> u32 \<Rightarrow> u32 list \<Rightarrow> 'a kern_t_scheme \<Rightarrow> bool \<times> 'a kern_t_scheme" where
  "task_queue_subroutine t type addr args s =
     (if \<not> ts_enabled (tasks s t) then (False, s)
      else if length args > TASK_EVENT_MAX_ARGS then (False, s)
      else let s1 = snd (task_unsnooze t s); q = ts_event_queue (tasks s1 t)
           in case coalesce type addr args q of
                Some q1 \<Rightarrow> (True, upd_task t (\<lambda>x. x\<lparr> ts_event_queue := q1 \<rparr>) s1)
              | None \<Rightarrow>
                  (case kqueue_reserve q of
                     (None, q1) \<Rightarrow> (False, s1)
                   | (Some i, q1) \<Rightarrow>
                       (True, upd_task t (\<lambda>x. x\<lparr> ts_event_queue := q1\<lparr> q_buffer := (q_buffer q1)[i :=
                         \<lparr> ev_type = type, ev_addr = addr, ev_args = copy_args args (ev_args (q_buffer q1 ! i)), ev_argc = length args \<rparr>] \<rparr> \<rparr>) s1)))"

section \<open>Notifications\<close>

datatype msg_notify_status_t = MSG_NOTIFY_DELIVERED | MSG_NOTIFY_NO_CALLBACK | MSG_NOTIFY_DROPPED

text \<open>\<open>call_msg_func\<close> without registers: the callback is queued.\<close>

definition queue_msg_func :: "nat \<Rightarrow> u32 \<Rightarrow> u32 \<Rightarrow> u32 \<Rightarrow> 'a msg_t_scheme \<Rightarrow> msg_notify_status_t \<times> 'a msg_t_scheme" where
  "queue_msg_func t port_uid channel_uid flags s =
     (if ts_msg_func s t = 0 then (MSG_NOTIFY_NO_CALLBACK, task_wake t s)
      else let (delivered, s1) = task_queue_subroutine t E_MSG (ts_msg_func s t) [port_uid, channel_uid, flags] s
           in (if delivered then MSG_NOTIFY_DELIVERED else MSG_NOTIFY_DROPPED, s1))"

definition msg_set_notify_pending :: "nat \<Rightarrow> u32 \<Rightarrow> bool \<Rightarrow> bool \<Rightarrow> 'a msg_t_scheme \<Rightarrow> 'a msg_t_scheme" where
  "msg_set_notify_pending t channel server pending s =
     (let s1 = upd_channel channel (\<lambda>c. if server then c\<lparr> ch_server_notify_pending := pending \<rparr> else c\<lparr> ch_client_notify_pending := pending \<rparr>) s
      in if pending then s1\<lparr> ts_msg_notify_pending := (ts_msg_notify_pending s1)(t := True) \<rparr> else s1)"

text \<open>The flags of one end of a channel, and the end with them cleared.\<close>

definition end_flags :: "bool \<Rightarrow> msg_channel_t \<Rightarrow> u32" where
  "end_flags server c = (if server then ch_server_flags c else ch_client_flags c)"

definition clear_flags :: "bool \<Rightarrow> u32 \<Rightarrow> 'a msg_t_scheme \<Rightarrow> 'a msg_t_scheme" where
  "clear_flags server channel = upd_channel channel (\<lambda>c. if server then c\<lparr> ch_server_flags := 0 \<rparr> else c\<lparr> ch_client_flags := 0 \<rparr>)"

text \<open>What follows every notification: one that was dropped is marked, one that was delivered clears the flags.\<close>

definition notified :: "nat \<Rightarrow> u32 \<Rightarrow> bool \<Rightarrow> msg_notify_status_t \<Rightarrow> 'a msg_t_scheme \<Rightarrow> 'a msg_t_scheme" where
  "notified t channel server st s =
     (let s1 = msg_set_notify_pending t channel server (st = MSG_NOTIFY_DROPPED) s
      in if st = MSG_NOTIFY_DELIVERED then clear_flags server channel s1 else s1)"

text \<open>One channel of the loops of \<open>msg_retry_task_notifications\<close>.\<close>

definition retry_channel :: "nat \<Rightarrow> bool \<Rightarrow> (msg_channel_t \<Rightarrow> u32) \<Rightarrow> u32 \<Rightarrow> 'a msg_t_scheme \<Rightarrow> 'a msg_t_scheme" where
  "retry_channel t server port_uid channel s =
     (let c = msg_channels s channel
      in if channel = 0 \<or> \<not> (if server then ch_server_notify_pending c else ch_client_notify_pending c) then s
         else let (st, s1) = queue_msg_func t (port_uid c) (ch_uid c) (end_flags server c) s in notified t channel server st s1)"

definition retry_port :: "nat \<Rightarrow> u32 \<Rightarrow> 'a msg_t_scheme \<Rightarrow> 'a msg_t_scheme" where
  "retry_port t port s =
     (let p = msg_ports s port
      in if port = 0 \<or> po_owner_taskuid p \<noteq> ts_task_uid (tasks s t) then s
         else fold (retry_channel t True (\<lambda>_. po_uid p)) (take (po_channel_count p) (po_channels p)) s)"

definition msg_retry_task_notifications :: "nat \<Rightarrow> 'a msg_t_scheme \<Rightarrow> 'a msg_t_scheme" where
  "msg_retry_task_notifications t s =
     (if \<not> ts_msg_notify_pending s t then s
      else let s1 = s\<lparr> ts_msg_notify_pending := (ts_msg_notify_pending s)(t := False) \<rparr>;
               s2 = fold (retry_channel t False ch_port_uid) (ts_msg_channels s1 t) s1
           in fold (retry_port t) (pr_ports s2 (ts_process (tasks s2 t))) s2)"

definition msg_notif_is_stale :: "nat \<Rightarrow> u32 \<Rightarrow> u32 \<Rightarrow> 'a msg_t_scheme \<Rightarrow> bool" where
  "msg_notif_is_stale t port_uid channel_uid s =
     (case lookup_channel port_uid channel_uid s of
        None \<Rightarrow> True
      | Some (port, i, channel) \<Rightarrow>
          let c = msg_channels s channel; uid = ts_task_uid (tasks s t); server = (uid = ch_server_taskuid c)
          in if uid \<noteq> ch_server_taskuid c \<and> uid \<noteq> ch_client_taskuid c then True
             else if \<not> (if server then ch_server_connected c else ch_client_connected c) then True
             else if mq_count (ch_queues c (\<not> server)) > 0 then False
             else if end_flags server c \<noteq> 0 then False
             else True)"

end
