(* ===== verification/Routine.thy ===== *)
theory Routine
  imports Msgstate
begin

text \<open>
  Switching to a task and calling one of its routines (\<^verbatim>\<open>src/tasks.c\<close>): the registers of the interrupted task are the
  argument and result \<open>regs\<close>. The result \<^const>\<open>None\<close> is an end of the model: a panic, a page fault of the kernel, a
  switch when no task is current, or one when no task can run (the code then starts the idle process). What a crash does
  to the windows of the task and to the window manager is the parameter \<open>gui\<close>.
\<close>

section \<open>Switching\<close>

definition save_and_load :: "int \<Rightarrow> registers_t \<Rightarrow> 'a kern_t_scheme \<Rightarrow> (registers_t \<times> 'a kern_t_scheme) option" where
  "save_and_load old regs s =
     (if old = current_task s then Some (regs, s)
      else if old < 0 then None
      else let new = nat (current_task s);
               s1 = upd_task (nat old) (\<lambda>x. x\<lparr> ts_registers := regs \<rparr>) (s\<lparr> tss_esp0 := ts_kernel_stack_top (tasks s new) \<rparr>)
           in Some (ts_registers (tasks s1 new), s1))"

definition load_pagedir :: "'a kern_t_scheme \<Rightarrow> 'a kern_t_scheme" where
  "load_pagedir s =
     (let dir = pr_page_dir (task_proc s (nat (current_task s))) in if dir \<noteq> current_page_dir s then swap_pagedir dir s else s)"

text \<open>\<open>switch_task\<close>; the third result is the stack of the kernel it resumes, when the task is parked there.\<close>

definition switch_task :: "registers_t \<Rightarrow> bool \<Rightarrow> 'a kern_t_scheme \<Rightarrow> (registers_t \<times> u32 option \<times> 'a kern_t_scheme) option" where
  "switch_task regs resume s =
     (if \<not> switching s then Some (regs, None, s)
      else do {
        t \<leftarrow> next_task resume s;
        if t = - 1 then None
        else do {
          (regs1, s1) \<leftarrow> save_and_load (current_task s) regs (load_pagedir (s\<lparr> current_task := t \<rparr>));
          let esp = ts_kernel_esp (tasks s1 (nat t));
          if esp \<noteq> 0 then Some (regs1, Some esp, upd_task (nat t) (\<lambda>x. x\<lparr> ts_kernel_esp := 0 \<rparr>) s1) else Some (regs1, None, s1) } })"

definition switch_to_task :: "int \<Rightarrow> registers_t \<Rightarrow> 'a kern_t_scheme \<Rightarrow> (bool \<times> registers_t \<times> 'a kern_t_scheme) option" where
  "switch_to_task index regs s =
     (if index < 0 \<or> index \<ge> TOTAL_TASKS then Some (False, regs, s)
      else let t = tasks s (nat index)
           in if \<not> ts_enabled t \<or> ts_paused t \<or> ts_kernel_esp t \<noteq> 0 then Some (False, regs, s)
              else do { (regs1, s1) \<leftarrow> save_and_load (current_task s) regs (load_pagedir (s\<lparr> current_task := index \<rparr>)); Some (True, regs1, s1) })"

section \<open>Crashes\<close>

record 's gui_t =
  gui_reset_windows :: "nat \<Rightarrow> 's \<Rightarrow> 's"
  gui_task_crash :: "nat \<Rightarrow> u32 \<Rightarrow> 's \<Rightarrow> 's"

text \<open>The registers are absent when the code passes \<open>NULL\<close>. A crash with them never resumes a task parked in the kernel.\<close>

definition pause_task :: "'a kern_t_scheme gui_t \<Rightarrow> nat \<Rightarrow> registers_t option \<Rightarrow> 'a kern_t_scheme \<Rightarrow> (registers_t option \<times> 'a kern_t_scheme) option" where
  "pause_task gui t regs s =
     (if t \<ge> 16 \<or> \<not> ts_enabled (tasks s t) then Some (regs, s)
      else let s1 = upd_task t (\<lambda>x. x\<lparr> ts_crashed := True \<rparr>) (task_pause t PAUSE_CRASH (gui_reset_windows gui t s))
           in case regs of
                Some r \<Rightarrow> if int t = current_task s1 \<or> \<not> task_exists s1
                          then map_option (\<lambda>(r1, e, s2). (Some r1, s2)) (switch_task r False s1) else Some (regs, s1)
              | None \<Rightarrow> Some (None, s1))"

definition crash_task :: "'a kern_t_scheme gui_t \<Rightarrow> registers_t option \<Rightarrow> nat \<Rightarrow> 'a kern_t_scheme \<Rightarrow> (registers_t option \<times> 'a kern_t_scheme) option" where
  "crash_task gui regs t s =
     do { (regs1, s1) \<leftarrow> pause_task gui t regs s; Some (regs1, gui_task_crash gui t (pr_uid (task_proc s1 t)) s1) }"

section \<open>Routines\<close>

definition word_bytes :: "u32 \<Rightarrow> u8 list" where
  "word_bytes w = [ucast w, ucast (drop_bit 8 w), ucast (drop_bit 16 w), ucast (drop_bit 24 w)]"

text \<open>The frame with the return address and the arguments is copied below the stack pointer of the task.\<close>

definition task_execute_subroutine ::
    "registers_t \<Rightarrow> task_event_type_t \<Rightarrow> u32 \<Rightarrow> u32 list \<Rightarrow> 'a kern_t_scheme \<Rightarrow> (bool \<times> registers_t \<times> 'a kern_t_scheme) option" where
  "task_execute_subroutine regs type addr args s =
     (if length args > TASK_EVENT_MAX_ARGS then None
      else let frame = concat (map word_bytes (r_eip regs # args)); size = of_nat (length frame)
           in do {
             (n, s1) \<leftarrow> copy_to_task (current_task s) (r_useresp regs - size) frame s;
             if n \<noteq> int (length frame) then Some (False, regs, s1)
             else Some (True, regs\<lparr> r_useresp := r_useresp regs - size, r_eip := addr \<rparr>,
               upd_task (nat (current_task s1)) (\<lambda>x. x\<lparr> ts_routine := type,
                 ts_checkcmd_buffer := (if type = E_CHECKCMD then args ! 0 else 0), ts_routine_return_regs := regs \<rparr>) s1) })"

definition drop_event :: "nat \<Rightarrow> 'a msg_t_scheme \<Rightarrow> 'a msg_t_scheme" where
  "drop_event t s = msg_retry_task_notifications t (upd_task t (\<lambda>x. x\<lparr> ts_event_queue := kqueue_drop (ts_event_queue x) \<rparr>) s)"

text \<open>One event that is not stale.\<close>

definition run_event :: "'a msg_t_scheme gui_t \<Rightarrow> registers_t \<Rightarrow> nat \<Rightarrow> task_event_t \<Rightarrow> 'a msg_t_scheme \<Rightarrow> (bool \<times> registers_t \<times> 'a msg_t_scheme) option" where
  "run_event gui regs t e s =
     do { (ok, regs1, s1) \<leftarrow> switch_to_task (int t) regs s;
          if \<not> ok then Some (False, regs1, s1)
          else do {
            (ok2, regs2, s2) \<leftarrow> task_execute_subroutine regs1 (ev_type e) (ev_addr e) (take (ev_argc e) (ev_args e)) s1;
            if \<not> ok2 then do { (r, s3) \<leftarrow> crash_task gui None t s2; Some (False, regs2, s3) }
            else Some (True, regs2, drop_event t s2) } }"

partial_function (option) task_execute_queued_loop ::
    "'a msg_t_scheme gui_t \<Rightarrow> registers_t \<Rightarrow> nat \<Rightarrow> 'a msg_t_scheme \<Rightarrow> (bool \<times> registers_t \<times> 'a msg_t_scheme) option" where
  "task_execute_queued_loop gui regs t s =
     (case kqueue_peek (ts_event_queue (tasks s t)) of
        None \<Rightarrow> Some (False, regs, s)
      | Some i \<Rightarrow>
          let e = q_buffer (ts_event_queue (tasks s t)) ! i
          in if ev_type e = E_MSG \<and> ev_args e ! 2 = 0 \<and> msg_notif_is_stale t (ev_args e ! 0) (ev_args e ! 1) s
             then task_execute_queued_loop gui regs t (drop_event t s)
             else run_event gui regs t e s)"

declare task_execute_queued_loop.simps [code]

definition task_execute_queued_subroutine ::
    "'a msg_t_scheme gui_t \<Rightarrow> registers_t \<Rightarrow> nat \<Rightarrow> 'a msg_t_scheme \<Rightarrow> (bool \<times> registers_t \<times> 'a msg_t_scheme) option" where
  "task_execute_queued_subroutine gui regs t s =
     (if ts_routine (tasks s t) \<noteq> E_NONE \<or> ts_crashed (tasks s t) then Some (False, regs, s)
      else task_execute_queued_loop gui regs t s)"

definition task_call_subroutine ::
    "'a msg_t_scheme gui_t \<Rightarrow> registers_t \<Rightarrow> nat \<Rightarrow> task_event_type_t \<Rightarrow> u32 \<Rightarrow> u32 list \<Rightarrow> 'a msg_t_scheme
      \<Rightarrow> (bool \<times> registers_t \<times> 'a msg_t_scheme) option" where
  "task_call_subroutine gui regs t type addr args s =
     (if \<not> ts_enabled (tasks s t) then Some (False, regs, s)
      else let s1 = snd (task_unsnooze t s); x = tasks s1 t
           in if ts_paused x \<or> ts_routine x \<noteq> E_NONE \<or> ts_kernel_esp x \<noteq> 0
              then let (q, s2) = task_queue_subroutine t type addr args s1 in Some (q, regs, s2)
              else do {
                (ok, regs1, s2) \<leftarrow> switch_to_task (int t) regs s1;
                if \<not> ok then Some (False, regs1, s2)
                else if kqueue_peek (ts_event_queue (tasks s2 t)) \<noteq> None then
                  let (queued, s3) = task_queue_subroutine t type addr args s2
                  in do {
                    (run, regs2, s4) \<leftarrow> task_execute_queued_subroutine gui regs1 (nat (current_task s3)) s3;
                    if \<not> run \<and> ts_crashed (tasks s4 t)
                    then do { (regs3, esp, s5) \<leftarrow> switch_task regs2 False s4; Some (queued, regs3, s5) }
                    else Some (queued, regs2, s4) }
                else do {
                  (ok2, regs2, s3) \<leftarrow> task_execute_subroutine regs1 type addr args s2;
                  if \<not> ok2 then do { (r, s4) \<leftarrow> crash_task gui (Some regs2) t s3; Some (False, the r, s4) }
                  else Some (True, regs2, s3) } })"

section \<open>Notifications with registers\<close>

text \<open>\<open>call_msg_func\<close>: with registers the routine is called at once, without them it is queued.\<close>

definition call_msg_func ::
    "'a msg_t_scheme gui_t \<Rightarrow> registers_t option \<Rightarrow> nat \<Rightarrow> u32 \<Rightarrow> u32 \<Rightarrow> u32 \<Rightarrow> 'a msg_t_scheme
      \<Rightarrow> (msg_notify_status_t \<times> registers_t option \<times> 'a msg_t_scheme) option" where
  "call_msg_func gui regs t port_uid channel_uid flags s =
     (case regs of
        None \<Rightarrow> let (st, s1) = queue_msg_func t port_uid channel_uid flags s in Some (st, None, s1)
      | Some r \<Rightarrow>
          if ts_msg_func s t = 0 then Some (MSG_NOTIFY_NO_CALLBACK, regs, task_wake t s)
          else do {
            (delivered, r1, s1) \<leftarrow> task_call_subroutine gui r t E_MSG (ts_msg_func s t) [port_uid, channel_uid, flags] s;
            Some (if delivered then MSG_NOTIFY_DELIVERED else MSG_NOTIFY_DROPPED, Some r1, s1) })"

text \<open>
  The return of a routine restores the registers, runs what is queued and queues notifications that were dropped. The
  buffer of a command is unmapped from the process and given back.
\<close>

definition unshare_heap_page :: "u32 \<Rightarrow> u32 \<Rightarrow> 'a kern_t_scheme \<Rightarrow> 'a kern_t_scheme" where
  "unshare_heap_page dir addr s = (let a = page_align_down addr in snd (map_page dir a a 0 0 0 s))"

definition cleanup_checkcmd_args :: "u32 \<Rightarrow> u32 \<Rightarrow> 'a kern_t_scheme \<Rightarrow> 'a kern_t_scheme" where
  "cleanup_checkcmd_args process buffer s =
     free buffer 128 (if process \<noteq> 0 then unshare_heap_page (pr_page_dir (processes s process)) buffer s else s)"

definition task_subroutine_end :: "'a msg_t_scheme gui_t \<Rightarrow> registers_t \<Rightarrow> 'a msg_t_scheme \<Rightarrow> (registers_t \<times> u32 option \<times> 'a msg_t_scheme) option" where
  "task_subroutine_end gui regs s =
     (let t = nat (current_task s); x = tasks s t
      in if ts_routine x = E_NONE then Some (regs, None, s)
         else let s1 = (if ts_routine x = E_CHECKCMD then cleanup_checkcmd_args (ts_process x) (ts_checkcmd_buffer x) s else s);
                  s2 = upd_task t (\<lambda>y. y\<lparr> ts_checkcmd_buffer := 0, ts_routine := E_NONE \<rparr>) s1
              in do {
                (run, regs1, s3) \<leftarrow> task_execute_queued_subroutine gui (ts_routine_return_regs x) t s2;
                let t1 = nat (current_task s3);
                let s4 = msg_retry_task_notifications t1 s3;
                if ts_paused (tasks s4 t1) then switch_task regs1 False s4 else Some (regs1, None, s4) })"

end
