(* ===== verification/Msg.thy ===== *)
theory Msg
  imports Routine
begin

text \<open>
  Message passing over ports (\<^verbatim>\<open>src/msg.c\<close>), the part with queues: creating and closing ports, connecting, sending,
  receiving and disconnecting. A result \<^const>\<open>Inl\<close> is an error code of the code; \<^const>\<open>None\<close> is an end of the model as in
  \<^verbatim>\<open>Routine\<close>, or a page fault of the kernel in the buffer of the caller. \<open>regs\<close> are the registers of the caller, absent
  where the code passes \<open>NULL\<close>.
\<close>

section \<open>Ports\<close>

definition zero_waiter :: msg_waiter_t where
  "zero_waiter = \<lparr> wt_active = False, wt_task_id = 0, wt_task_uid = 0,
     wt_recv_msg = \<lparr> rm_buffer = 0, rm_buffer_size = 0, rm_handles = 0, rm_handle_count = 0 \<rparr>, wt_recv_msg_user = 0 \<rparr>"

definition sys_prefix :: "u8 list" where
  "sys_prefix = [0x2F, 0x73, 0x79, 0x73, 0x2F]"

text \<open>Whether a file of that name exists is asked of the file system, the parameter \<open>fs_exists\<close>.\<close>

definition create_port :: "(u8 list \<Rightarrow> bool) \<Rightarrow> nat \<Rightarrow> u8 list \<Rightarrow> bool \<Rightarrow> 'a msg_t_scheme \<Rightarrow> (msg_err_t + u32) \<times> 'a msg_t_scheme" where
  "create_port fs_exists t name client_reserves s =
     (let process = ts_process (tasks s t); pr = processes s process
      in if take 5 name = sys_prefix \<and> \<not> pr_privileged pr then (Inl MSG_ERR_NO_PRIVILEGE, s)
         else if fs_exists name then (Inl MSG_ERR_NAME_TAKEN, s)
         else if find_port_by_name name s \<noteq> None then (Inl MSG_ERR_NAME_TAKEN, s)
         else if length (pr_ports s process) \<ge> PROCESS_MAX_PORTS then (Inl MSG_ERR_LIMIT, s)
         else if msg_uid_counter s \<ge> MSG_ERR_BASE then (Inl MSG_ERR_NOMEM, s)
         else let (port, s1) = malloc 332 s
              in if port = 0 then (Inl MSG_ERR_NOMEM, s1)
                 else let s2 = s1\<lparr> pr_ports := (pr_ports s1)(process := pr_ports s1 process @ [port]),
                             msg_uid_counter := msg_uid_counter s1 + 1, ports := port # ports s1,
                             msg_ports := (msg_ports s1)(port := \<lparr> po_uid = msg_uid_counter s1, po_name = take 31 name,
                               po_owner_uid = pr_uid pr, po_owner_taskid = int t, po_owner_taskuid = ts_task_uid (tasks s1 t),
                               po_channels = replicate MSG_MAX_CHANNELS 0, po_channel_count = 0, po_client_reserves = client_reserves,
                               po_waiters = replicate MAX_TASK_THREADS zero_waiter \<rparr>) \<rparr>
                      in (Inr (msg_uid_counter s1), s2))"

definition free_index :: "msg_port_t \<Rightarrow> nat option" where
  "free_index p = List.find (\<lambda>i. po_channels p ! i = 0) [0..<po_channel_count p]"

definition port_free_channel_exists :: "u32 \<Rightarrow> 'a msg_t_scheme \<Rightarrow> bool" where
  "port_free_channel_exists port s =
     (let p = msg_ports s port in po_channel_count p < MSG_MAX_CHANNELS \<or> free_index p \<noteq> None)"

definition port_claim_free_channel_index :: "u32 \<Rightarrow> 'a msg_t_scheme \<Rightarrow> nat option \<times> 'a msg_t_scheme" where
  "port_claim_free_channel_index port s =
     (let p = msg_ports s port
      in if po_channel_count p < MSG_MAX_CHANNELS
         then (Some (po_channel_count p), upd_port port (\<lambda>x. x\<lparr> po_channel_count := po_channel_count x + 1 \<rparr>) s)
         else (free_index p, s))"

text \<open>
  A new channel. The code leaves the slots, heads and tails of its empty queues and some fields of the messages of a pending call as the
  heap gave them; they are written before they are read and are zero here.
\<close>

definition zero_obj :: msg_obj_t where
  "zero_obj = \<lparr> mo_flags = 0, mo_data = [] \<rparr>"

definition empty_queue :: msg_queue_t where
  "empty_queue = \<lparr> mq_slots = replicate 14 zero_obj, mq_head = 0, mq_tail = 0, mq_count = 0, mq_reserved = 0 \<rparr>"

definition new_channel :: "u32 \<Rightarrow> msg_port_t \<Rightarrow> u32 \<Rightarrow> nat \<Rightarrow> u32 \<Rightarrow> msg_channel_t" where
  "new_channel uid p client_uid t task_uid =
     \<lparr> ch_uid = uid, ch_port_uid = po_uid p, ch_client_uid = client_uid, ch_client_taskid = int t, ch_client_taskuid = task_uid,
       ch_server_taskid = po_owner_taskid p, ch_server_taskuid = po_owner_taskuid p, ch_server_connected = True, ch_client_connected = True,
       ch_queues = (\<lambda>_. empty_queue), ch_server_unanswered = 0, ch_client_blocked = False, ch_server_blocked = False,
       ch_client_flags = 0, ch_server_flags = 0, ch_client_notify_pending = False, ch_server_notify_pending = False, ch_call_uid = 0,
       ch_client_send_msg = \<lparr> sm_buffer = 0, sm_size = 0, sm_handles = 0, sm_handle_count = 0 \<rparr>,
       ch_client_recv_msg = \<lparr> rm_buffer = 0, rm_buffer_size = 0, rm_handles = 0, rm_handle_count = 0 \<rparr>, ch_client_recv_msg_user = 0 \<rparr>"

text \<open>The result has the identity of the channel and that of the port, \<open>0\<close> when there is none.\<close>

definition port_connect :: "nat \<Rightarrow> u8 list \<Rightarrow> 'a msg_t_scheme \<Rightarrow> (msg_err_t + u32) \<times> u32 \<times> 'a msg_t_scheme" where
  "port_connect t name s =
     (case find_port_by_name name s of
        None \<Rightarrow> (Inl MSG_ERR_PORT_NOT_FOUND, 0, s)
      | Some port \<Rightarrow>
          let p = msg_ports s port; x = tasks s t; puid = po_uid p
          in if po_owner_taskuid p = ts_task_uid x then (Inl MSG_ERR_SELF, puid, s)
             else if length (ts_msg_channels s t) \<ge> TASK_MAX_CHANNELS then (Inl MSG_ERR_LIMIT, puid, s)
             else if channel_uid_counter s \<ge> MSG_ERR_BASE then (Inl MSG_ERR_NOMEM, puid, s)
             else if \<not> port_free_channel_exists port s then (Inl MSG_ERR_PORT_FULL, puid, s)
             else let (channel, s1) = malloc 3728 s
                  in if channel = 0 then (Inl MSG_ERR_NOMEM, puid, s1)
                     else case port_claim_free_channel_index port s1 of
                            (None, s2) \<Rightarrow> (Inl MSG_ERR_PORT_FULL, puid, free channel 3728 s2)
                          | (Some c, s2) \<Rightarrow>
                              let uid = channel_uid_counter s2;
                                  s3 = upd_port port (\<lambda>y. y\<lparr> po_channels := (po_channels y)[c := channel] \<rparr>) s2
                              in (Inr uid, puid, s3\<lparr> ts_msg_channels := (ts_msg_channels s3)(t := ts_msg_channels s3 t @ [channel]),
                                    channel_uid_counter := uid + 1,
                                    msg_channels := (msg_channels s3)(channel :=
                                      new_channel uid (msg_ports s3 port) (pr_uid (processes s3 (ts_process x))) t (ts_task_uid x)) \<rparr>))"

section \<open>Sending\<close>

text \<open>Which end of a channel a task is: \<^const>\<open>True\<close> for the server.\<close>

definition is_server :: "nat \<Rightarrow> msg_channel_t \<Rightarrow> 'a msg_t_scheme \<Rightarrow> bool" where
  "is_server t c s = (ts_task_uid (tasks s t) = ch_server_taskuid c)"

definition may_access :: "nat \<Rightarrow> msg_channel_t \<Rightarrow> 'a msg_t_scheme \<Rightarrow> bool" where
  "may_access t c s \<longleftrightarrow> ts_task_uid (tasks s t) = ch_server_taskuid c \<or> ts_task_uid (tasks s t) = ch_client_taskuid c"

text \<open>The checks of \<open>port_send\<close> on a channel, from the direction on.\<close>

definition reserve_slot :: "bool \<Rightarrow> bool \<Rightarrow> u32 \<Rightarrow> bool" where
  "reserve_slot client_reserves s2c flags \<longleftrightarrow> client_reserves \<and> \<not> s2c \<and> flags AND MSG_EXPECT_REPLY \<noteq> 0"

definition writing_in_reserved :: "bool \<Rightarrow> bool \<Rightarrow> u32 \<Rightarrow> msg_channel_t \<Rightarrow> bool" where
  "writing_in_reserved client_reserves s2c flags c \<longleftrightarrow> client_reserves \<and> s2c \<and> flags AND MSG_REPLY \<noteq> 0 \<and> ch_server_unanswered c > 0"

definition send_check :: "bool \<Rightarrow> bool \<Rightarrow> u32 \<Rightarrow> msg_channel_t \<Rightarrow> 'a msg_t_scheme \<Rightarrow> msg_err_t + nat" where
  "send_check client_reserves s2c flags c s =
     (let q = ch_queues c s2c; r = ch_queues c True
      in if (s2c \<and> \<not> ch_client_connected c) \<or> (\<not> s2c \<and> \<not> ch_server_connected c) then Inl MSG_ERR_PEER_DISCONNECTED
         else if (s2c \<and> \<not> ch_server_connected c) \<or> (\<not> s2c \<and> \<not> ch_client_connected c) then Inl MSG_ERR_DISCONNECTED
         else if mq_count q + mq_reserved q - (if writing_in_reserved client_reserves s2c flags c then 1 else 0) \<ge> MSG_QUEUE_DEPTH
         then Inl MSG_ERR_QUEUE_FULL
         else case msg_get_task (if s2c then ch_client_taskid c else ch_server_taskid c) (if s2c then ch_client_taskuid c else ch_server_taskuid c) s of
                None \<Rightarrow> Inl MSG_ERR_INVALID_TASK
              | Some recipient \<Rightarrow>
                  if reserve_slot client_reserves s2c flags \<and> mq_count r + mq_reserved r \<ge> MSG_QUEUE_DEPTH then Inl MSG_ERR_RECEIVE_QUEUE_FULL
                  else Inr recipient)"

text \<open>The channel with a message added.\<close>

definition send_store :: "bool \<Rightarrow> bool \<Rightarrow> u32 \<Rightarrow> u8 list \<Rightarrow> msg_channel_t \<Rightarrow> msg_channel_t" where
  "send_store client_reserves s2c flags bytes c =
     (let obj = \<lparr> mo_flags = ucast (flags AND (MSG_EXPECT_REPLY OR MSG_REPLY)), mo_data = bytes \<rparr>;
          c1 = (if reserve_slot client_reserves s2c flags then upd_queue True (\<lambda>q. q\<lparr> mq_reserved := mq_reserved q + 1 \<rparr>) c else c);
          c2 = upd_queue s2c (msg_queue_put obj) c1
      in if writing_in_reserved client_reserves s2c flags c
         then (upd_queue s2c (\<lambda>q. q\<lparr> mq_reserved := mq_reserved q - 1 \<rparr>) c2)\<lparr> ch_server_unanswered := ch_server_unanswered c2 - 1 \<rparr> else c2)"

definition port_send :: "'a msg_t_scheme gui_t \<Rightarrow> registers_t \<Rightarrow> nat \<Rightarrow> u32 \<Rightarrow> u32 \<Rightarrow> msg_send_t \<Rightarrow> u32 \<Rightarrow> 'a msg_t_scheme
    \<Rightarrow> ((msg_err_t + unit) \<times> registers_t \<times> 'a msg_t_scheme) option" where
  "port_send gui regs t port_uid channel_uid m flags s =
     (if sm_handle_count m > 0 then Some (Inl MSG_ERR_INVALID_MSG, regs, s)
      else case find_port_by_uid port_uid s of
        None \<Rightarrow> Some (Inl MSG_ERR_PORT_NOT_FOUND, regs, s)
      | Some port \<Rightarrow>
          (case find_channel port channel_uid s of
             None \<Rightarrow> Some (Inl MSG_ERR_CHANNEL_NOT_FOUND, regs, s)
           | Some i \<Rightarrow>
               if sm_size m > MSG_MAX_LEN then Some (Inl MSG_ERR_TOO_LONG, regs, s)
               else if sm_size m = 0 then Some (Inl MSG_ERR_EMPTY_MSG, regs, s)
               else let channel = po_channels (msg_ports s port) ! i; c = msg_channels s channel;
                        cr = po_client_reserves (msg_ports s port); s2c = is_server t c s
                    in if \<not> may_access t c s then Some (Inl MSG_ERR_DENIED, regs, s)
                       else case send_check cr s2c flags c s of
                              Inl e \<Rightarrow> Some (Inl e, regs, s)
                            | Inr recipient \<Rightarrow>
                                if sm_size m < 0 then None
                                else do {
                                  bytes \<leftarrow> load_bytes (current_page_dir s) (sm_buffer m) (nat (sm_size m)) s;
                                  let s1 = upd_channel channel (send_store cr s2c flags bytes) s;
                                  (st, r, s2) \<leftarrow> call_msg_func gui (Some regs) recipient port_uid channel_uid (end_flags (\<not> s2c) (msg_channels s1 channel)) s1;
                                  Some (Inr (), the r, notified recipient channel (\<not> s2c) st s2) }))"

section \<open>Receiving\<close>

definition msg_wait_on_receive :: "nat \<Rightarrow> u32 \<Rightarrow> u32 \<Rightarrow> 'a msg_t_scheme \<Rightarrow> bool \<times> 'a msg_t_scheme" where
  "msg_wait_on_receive t port_uid channel_uid s =
     (case lookup_channel port_uid channel_uid s of
        None \<Rightarrow> (False, s)
      | Some (port, i, channel) \<Rightarrow>
          let c = msg_channels s channel; server = is_server t c s
          in if \<not> may_access t c s then (False, s)
             else if mq_count (ch_queues c server) = 0 \<or> (server \<and> \<not> ch_client_connected c) \<or> (\<not> server \<and> \<not> ch_server_connected c)
             then (False, s)
             else (True, task_pause t PAUSE_MSG_WRITE (upd_channel channel
                    (\<lambda>y. if ts_task_uid (tasks s t) = ch_client_taskuid c then y\<lparr> ch_client_blocked := True \<rparr> else y\<lparr> ch_server_blocked := True \<rparr>) s)))"

text \<open>The other end is woken when it waits for room.\<close>

definition unblock :: "bool \<Rightarrow> u32 \<Rightarrow> 'a msg_t_scheme \<Rightarrow> 'a msg_t_scheme" where
  "unblock server channel s =
     (let c = msg_channels s channel
      in if server \<and> ch_client_blocked c then
           upd_channel channel (\<lambda>y. y\<lparr> ch_client_blocked := False \<rparr>)
             (let t = nat (ch_client_taskid c) in if ts_enabled (tasks s t) \<and> ts_task_uid (tasks s t) = ch_client_taskuid c then task_resume t s else s)
         else if \<not> server \<and> ch_server_blocked c then
           upd_channel channel (\<lambda>y. y\<lparr> ch_server_blocked := False \<rparr>)
             (let t = nat (ch_server_taskid c) in if ts_enabled (tasks s t) \<and> ts_task_uid (tasks s t) = ch_server_taskuid c then task_resume t s else s)
         else s)"

text \<open>On success the result is the length with the flags of the channel and of the message.\<close>

definition port_receive :: "nat \<Rightarrow> u32 \<Rightarrow> u32 \<Rightarrow> u32 \<Rightarrow> u32 \<Rightarrow> 'a msg_t_scheme \<Rightarrow> ((msg_err_t + nat \<times> u32 \<times> u32) \<times> 'a msg_t_scheme) option" where
  "port_receive t port_uid channel_uid buffer sz s =
     (case find_port_by_uid port_uid s of
        None \<Rightarrow> Some (Inl MSG_ERR_PORT_NOT_FOUND, s)
      | Some port \<Rightarrow>
          (case find_channel port channel_uid s of
             None \<Rightarrow> Some (Inl MSG_ERR_CHANNEL_NOT_FOUND, s)
           | Some i \<Rightarrow>
               let channel = po_channels (msg_ports s port) ! i; c = msg_channels s channel; server = is_server t c s; q = ch_queues c (\<not> server)
               in if \<not> may_access t c s then Some (Inl MSG_ERR_DENIED, s)
                  else if (server \<and> \<not> ch_server_connected c) \<or> (\<not> server \<and> \<not> ch_client_connected c) then Some (Inl MSG_ERR_DISCONNECTED, s)
                  else if mq_count q = 0 then Some (Inr (0, end_flags server c, 0), clear_flags server channel s)
                  else let m = msg_queue_front q
                       in if length (mo_data m) > unat sz then Some (Inl MSG_ERR_BUF_TOO_SMALL, s)
                          else do {
                            s1 \<leftarrow> store_bytes (current_page_dir s) buffer (mo_data m) s;
                            let s2 = upd_channel channel (\<lambda>y. upd_queue (\<not> server) msg_queue_take
                                       (if server \<and> po_client_reserves (msg_ports s port) \<and> ucast (mo_flags m) AND MSG_EXPECT_REPLY \<noteq> 0
                                        then y\<lparr> ch_server_unanswered := ch_server_unanswered y + 1 \<rparr> else y)) s1;
                            let s3 = unblock server channel s2;
                            let c3 = msg_channels s3 channel;
                            Some (Inr (length (mo_data m), end_flags server c3,
                                     ucast (mo_flags m) OR (if mq_count (ch_queues c3 (\<not> server)) = 0 then MSG_LAST_MSG else 0)),
                                  clear_flags server channel s3) }))"

section \<open>Closing\<close>

text \<open>An array with a count loses an element: the last one takes its place.\<close>

fun forget :: "u32 \<Rightarrow> u32 list \<Rightarrow> u32 list" where
  "forget x xs = (case List.find (\<lambda>i. xs ! i = x) [0..<length xs] of None \<Rightarrow> xs | Some i \<Rightarrow> butlast (xs[i := last xs]))"

definition task_forget_channel :: "nat \<Rightarrow> u32 \<Rightarrow> 'a msg_t_scheme \<Rightarrow> 'a msg_t_scheme" where
  "task_forget_channel t channel s = s\<lparr> ts_msg_channels := (ts_msg_channels s)(t := forget channel (ts_msg_channels s t)) \<rparr>"

definition process_forget_port :: "u32 \<Rightarrow> u32 \<Rightarrow> 'a msg_t_scheme \<Rightarrow> 'a msg_t_scheme" where
  "process_forget_port process port s = s\<lparr> pr_ports := (pr_ports s)(process := forget port (pr_ports s process)) \<rparr>"

definition msg_free_channel :: "u32 \<Rightarrow> nat \<Rightarrow> 'a msg_t_scheme \<Rightarrow> 'a msg_t_scheme" where
  "msg_free_channel port i s =
     (let channel = po_channels (msg_ports s port) ! i; c = msg_channels s channel
      in if channel = 0 then s
         else let s1 = (case msg_get_task (ch_client_taskid c) (ch_client_taskuid c) s of None \<Rightarrow> s | Some t \<Rightarrow> task_forget_channel t channel s)
              in free channel 3728 (upd_port port (\<lambda>p. p\<lparr> po_channels := (po_channels p)[i := 0] \<rparr>) s1))"

definition channel_has_waiting_send :: "msg_channel_t \<Rightarrow> bool" where
  "channel_has_waiting_send c \<longleftrightarrow> sm_buffer (ch_client_send_msg c) \<noteq> 0 \<or> sm_handle_count (ch_client_send_msg c) > 0"

definition set_ebx_u :: "nat \<Rightarrow> u32 \<Rightarrow> 'a kern_t_scheme \<Rightarrow> 'a kern_t_scheme" where
  "set_ebx_u t v = upd_task t (\<lambda>x. x\<lparr> ts_registers := (ts_registers x)\<lparr> r_ebx := v \<rparr> \<rparr>)"

definition err_word :: "msg_err_t \<Rightarrow> u32" where
  "err_word e = of_int (err_code e)"

text \<open>The server closes, or the port is destroyed: a client that waits for room or for a reply is woken, then notified.\<close>

definition close_server :: "'a msg_t_scheme gui_t \<Rightarrow> registers_t option \<Rightarrow> u32 \<Rightarrow> u32 \<Rightarrow> u32 \<Rightarrow> 'a msg_t_scheme \<Rightarrow> (registers_t option \<times> 'a msg_t_scheme) option" where
  "close_server gui regs port_uid channel_uid channel s =
     (let s0 = upd_channel channel (\<lambda>y. y\<lparr> ch_client_flags := ch_client_flags y OR MSG_FLAG_CLOSED \<rparr>) s; c = msg_channels s0 channel
      in do {
        (r, s4) \<leftarrow> (case msg_get_task (ch_client_taskid c) (ch_client_taskuid c) s0 of
          Some t \<Rightarrow>
            if ch_client_connected c then
              let s1 = (if ch_client_blocked c then upd_channel channel (\<lambda>y. y\<lparr> ch_client_blocked := False \<rparr>) (task_resume t s0) else s0);
                  s2 = (if ts_paused (tasks s1 t) \<and> ts_pause_reason (tasks s1 t) = PAUSE_MSG_CALL \<and> (channel_has_waiting_send c \<or> ch_call_uid c \<noteq> 0)
                        then task_resume t (set_ebx_u t (err_word MSG_ERR_PEER_DISCONNECTED) s1) else s1)
              in do { (st, r, s3) \<leftarrow> call_msg_func gui regs t port_uid channel_uid (ch_client_flags (msg_channels s2 channel)) s2;
                      Some (r, notified t channel False st s3) }
            else Some (regs, s0)
        | None \<Rightarrow> Some (regs, s0));
        Some (r, upd_channel channel (\<lambda>y. y\<lparr> ch_server_connected := False,
          ch_client_send_msg := (ch_client_send_msg y)\<lparr> sm_buffer := 0, sm_handle_count := 0 \<rparr>, ch_call_uid := 0 \<rparr>) s4) })"

definition close_client :: "'a msg_t_scheme gui_t \<Rightarrow> registers_t option \<Rightarrow> u32 \<Rightarrow> u32 \<Rightarrow> u32 \<Rightarrow> 'a msg_t_scheme \<Rightarrow> (registers_t option \<times> 'a msg_t_scheme) option" where
  "close_client gui regs port_uid channel_uid channel s =
     (let s0 = upd_channel channel (\<lambda>y. y\<lparr> ch_server_flags := ch_server_flags y OR MSG_FLAG_CLOSED \<rparr>) s; c = msg_channels s0 channel
      in do {
        (r, s4) \<leftarrow> (case msg_get_task (ch_server_taskid c) (ch_server_taskuid c) s0 of
          Some t \<Rightarrow>
            if ch_server_connected c then
              let s1 = (if ch_server_blocked c then upd_channel channel (\<lambda>y. y\<lparr> ch_server_blocked := False \<rparr>) (task_resume t s0) else s0)
              in do { (st, r, s3) \<leftarrow> call_msg_func gui regs t port_uid channel_uid (ch_server_flags (msg_channels s1 channel)) s1;
                      Some (r, notified t channel True st s3) }
            else Some (regs, s0)
        | None \<Rightarrow> Some (regs, s0));
        Some (r, upd_channel channel (\<lambda>y. y\<lparr> ch_client_connected := False,
          ch_client_send_msg := (ch_client_send_msg y)\<lparr> sm_buffer := 0, sm_handle_count := 0 \<rparr>,
          ch_client_recv_msg := (ch_client_recv_msg y)\<lparr> rm_buffer := 0, rm_handle_count := 0 \<rparr>, ch_client_recv_msg_user := 0, ch_call_uid := 0 \<rparr>) s4) })"

text \<open>The task is absent when the port is destroyed.\<close>

definition port_close_connection :: "'a msg_t_scheme gui_t \<Rightarrow> registers_t option \<Rightarrow> nat option \<Rightarrow> u32 \<Rightarrow> u32 \<Rightarrow> 'a msg_t_scheme
    \<Rightarrow> (bool \<times> registers_t option \<times> 'a msg_t_scheme) option" where
  "port_close_connection gui regs task port_uid channel_uid s =
     (case lookup_channel port_uid channel_uid s of
        None \<Rightarrow> Some (False, regs, s)
      | Some (port, i, channel) \<Rightarrow>
          let c = msg_channels s channel
          in if (case task of None \<Rightarrow> False | Some t \<Rightarrow> \<not> may_access t c s) then Some (False, regs, s)
             else do {
               (r, s1) \<leftarrow> (if (case task of None \<Rightarrow> True | Some t \<Rightarrow> is_server t c s)
                          then close_server gui regs port_uid channel_uid channel s else close_client gui regs port_uid channel_uid channel s);
               let c1 = msg_channels s1 channel;
               Some (True, r, if \<not> ch_server_connected c1 \<and> \<not> ch_client_connected c1 then msg_free_channel port i s1 else s1) })"

definition port_disconnect :: "'a msg_t_scheme gui_t \<Rightarrow> registers_t option \<Rightarrow> nat \<Rightarrow> u32 \<Rightarrow> u32 \<Rightarrow> 'a msg_t_scheme
    \<Rightarrow> (bool \<times> registers_t option \<times> 'a msg_t_scheme) option" where
  "port_disconnect gui regs t port_uid channel_uid s =
     (case lookup_channel port_uid channel_uid s of
        None \<Rightarrow> Some (False, regs, s)
      | Some (port, i, channel) \<Rightarrow>
          if \<not> may_access t (msg_channels s channel) s then Some (False, regs, s)
          else port_close_connection gui regs (Some t) port_uid channel_uid (task_forget_channel t channel s))"

text \<open>The loop of \<open>destroy_port\<close> over its channels, and the one that wakes threads waiting for a call.\<close>

fun close_channels :: "'a msg_t_scheme gui_t \<Rightarrow> u32 \<Rightarrow> nat list \<Rightarrow> registers_t option \<Rightarrow> 'a msg_t_scheme \<Rightarrow> (registers_t option \<times> 'a msg_t_scheme) option" where
  "close_channels gui port [] regs s = Some (regs, s)"
| "close_channels gui port (i # is) regs s =
     (let channel = po_channels (msg_ports s port) ! i
      in if channel = 0 then close_channels gui port is regs s
         else do {
           (ok, r, s1) \<leftarrow> port_close_connection gui regs None (po_uid (msg_ports s port)) (ch_uid (msg_channels s channel)) s;
           close_channels gui port is r (if po_channels (msg_ports s1 port) ! i = 0 then s1 else msg_free_channel port i s1) })"

definition wake_waiter :: "u32 \<Rightarrow> nat \<Rightarrow> 'a msg_t_scheme \<Rightarrow> 'a msg_t_scheme" where
  "wake_waiter port i s =
     (let w = po_waiters (msg_ports s port) ! i
      in if \<not> wt_active w then s
         else let s1 = upd_port port (\<lambda>p. p\<lparr> po_waiters := (po_waiters p)[i := w\<lparr> wt_active := False \<rparr>] \<rparr>) s
              in case msg_get_task (wt_task_id w) (wt_task_uid w) s1 of
                   None \<Rightarrow> s1
                 | Some t \<Rightarrow> if \<not> ts_paused (tasks s1 t) \<or> ts_pause_reason (tasks s1 t) \<noteq> PAUSE_MSG_RECEIVE then s1
                             else task_resume t (set_ebx_u t (err_word MSG_ERR_PORT_NOT_FOUND) s1))"

definition destroy_port :: "'a msg_t_scheme gui_t \<Rightarrow> registers_t option \<Rightarrow> u32 \<Rightarrow> 'a msg_t_scheme \<Rightarrow> (registers_t option \<times> 'a msg_t_scheme) option" where
  "destroy_port gui regs port s =
     do { (r, s1) \<leftarrow> close_channels gui port [0..<po_channel_count (msg_ports s port)] regs s;
          let s2 = fold (wake_waiter port) [0..<MAX_TASK_THREADS] s1;
          Some (r, free port 332 (s2\<lparr> ports := remove1 port (ports s2) \<rparr>)) }"

definition close_port :: "'a msg_t_scheme gui_t \<Rightarrow> registers_t option \<Rightarrow> nat \<Rightarrow> u32 \<Rightarrow> 'a msg_t_scheme \<Rightarrow> (bool \<times> registers_t option \<times> 'a msg_t_scheme) option" where
  "close_port gui regs t port_uid s =
     (case find_port_by_uid port_uid s of
        None \<Rightarrow> Some (False, regs, s)
      | Some port \<Rightarrow>
          let process = ts_process (tasks s t)
          in if po_owner_uid (msg_ports s port) \<noteq> pr_uid (processes s process) then Some (False, regs, s)
             else do { (r, s1) \<leftarrow> destroy_port gui regs port (process_forget_port process port s); Some (True, r, s1) })"

fun destroy_ports :: "'a msg_t_scheme gui_t \<Rightarrow> u32 list \<Rightarrow> 'a msg_t_scheme \<Rightarrow> 'a msg_t_scheme option" where
  "destroy_ports gui [] s = Some s"
| "destroy_ports gui (p # ps) s = do { (r, s1) \<leftarrow> destroy_port gui None p s; destroy_ports gui ps s1 }"

definition msg_cleanup_process :: "'a msg_t_scheme gui_t \<Rightarrow> u32 \<Rightarrow> 'a msg_t_scheme \<Rightarrow> 'a msg_t_scheme option" where
  "msg_cleanup_process gui process s =
     do { s1 \<leftarrow> destroy_ports gui (pr_ports s process) s; Some (s1\<lparr> pr_ports := (pr_ports s1)(process := []) \<rparr>) }"

text \<open>The end of a task: its channels, its places among the waiters, and the ports it owns.\<close>

definition close_first :: "'a msg_t_scheme gui_t \<Rightarrow> nat \<Rightarrow> 'a msg_t_scheme \<Rightarrow> 'a msg_t_scheme option" where
  "close_first gui t s =
     (let channel = hd (ts_msg_channels s t); c = msg_channels s channel
      in do {
        s1 \<leftarrow> (if channel \<noteq> 0 then map_option (\<lambda>(ok, r, s1). s1) (port_close_connection gui None (Some t) (ch_port_uid c) (ch_uid c) s) else Some s);
        Some (if length (ts_msg_channels s1 t) = length (ts_msg_channels s t) then task_forget_channel t channel s1 else s1) })"

partial_function (option) close_own_channels :: "'a msg_t_scheme gui_t \<Rightarrow> nat \<Rightarrow> 'a msg_t_scheme \<Rightarrow> 'a msg_t_scheme option" where
  "close_own_channels gui t s =
     (if ts_msg_channels s t = [] then Some s else do { s1 \<leftarrow> close_first gui t s; close_own_channels gui t s1 })"

declare close_own_channels.simps [code]

definition msg_remove_waiter :: "nat \<Rightarrow> u32 \<Rightarrow> 'a msg_t_scheme \<Rightarrow> 'a msg_t_scheme" where
  "msg_remove_waiter t port s =
     upd_port port (\<lambda>p. p\<lparr> po_waiters := map (\<lambda>w. if wt_active w \<and> wt_task_uid w = ts_task_uid (tasks s t) then w\<lparr> wt_active := False \<rparr> else w) (po_waiters p) \<rparr>) s"

fun close_own_ports :: "'a msg_t_scheme gui_t \<Rightarrow> nat \<Rightarrow> nat list \<Rightarrow> 'a msg_t_scheme \<Rightarrow> 'a msg_t_scheme option" where
  "close_own_ports gui t [] s = Some s"
| "close_own_ports gui t (i # is) s =
     (let process = ts_process (tasks s t); port = pr_ports s process ! i
      in if port = 0 \<or> po_owner_taskuid (msg_ports s port) \<noteq> ts_task_uid (tasks s t) then close_own_ports gui t is s
         else do { (r, s1) \<leftarrow> destroy_port gui None port (process_forget_port process port s); close_own_ports gui t is s1 })"

definition msg_cleanup_task :: "'a msg_t_scheme gui_t \<Rightarrow> nat \<Rightarrow> 'a msg_t_scheme \<Rightarrow> 'a msg_t_scheme option" where
  "msg_cleanup_task gui t s =
     do { s1 \<leftarrow> close_own_channels gui t s;
          let process = ts_process (tasks s1 t);
          let s2 = fold (msg_remove_waiter t) (filter (\<lambda>p. p \<noteq> 0) (pr_ports s1 process)) s1;
          close_own_ports gui t (rev [0..<length (pr_ports s2 process)]) s2 }"

end
