(* ===== verification/Calm.thy ===== *)
theory Calm
  imports Routine Handles
begin

text \<open>
  Operations of the kernel seen from message passing: they keep its state, which extends the state of the kernel, they keep the
  identity and the process of tasks and put no task into a synchronous call.
\<close>

section \<open>What the rest of the kernel leaves alone\<close>

text \<open>Operations of the kernel do not touch the state of message passing, which extends the state of the kernel.\<close>

lemma more_task [simp]:
  fixes s :: "'a kern_t_scheme"
  shows "kern_t.more (upd_task t f s) = kern_t.more s" "kern_t.more (task_pause t r s) = kern_t.more s" "kern_t.more (task_resume t s) = kern_t.more s"
    "kern_t.more (snd (task_unsnooze t s)) = kern_t.more s" "kern_t.more (task_wake t s) = kern_t.more s"
  by (simp_all add: upd_task_def task_pause_def task_resume_def task_unsnooze_def task_wake_def split: bool.splits prod.splits)

lemma more_heap [simp]:
  fixes s :: "'a kern_t_scheme"
  shows "kern_t.more (snd (malloc n s)) = kern_t.more s" "kern_t.more (free a n s) = kern_t.more s"
  by (simp_all add: malloc_def free_def Let_def split: option.splits)

lemma more_paging [simp]:
  fixes s :: "'a kern_t_scheme"
  shows "kern_t.more (snd (map_page d pa va user rw nc s)) = kern_t.more s" "kern_t.more (invlpg v s) = kern_t.more s"
    "kern_t.more (swap_pagedir d s) = kern_t.more s" "kern_t.more (zero_frame p n s) = kern_t.more s"
  by (auto simp: map_page_def map_ensure_table_def set_pte_def set_pde_def invlpg_def swap_pagedir_def zero_frame_def Let_def split_beta split: bool.splits)

lemma more_demand [simp]: "kern_t.more (snd (task_demand_map p a s)) = kern_t.more s" for s :: "'a kern_t_scheme"
proof -
  obtain page s1 where m: "malloc 0x1000 s = (page, s1)" by fastforce
  obtain ok s3 where p: "map_page (pr_page_dir (processes s p)) page (a AND NOT PAGE_MASK) 1 1 0 (zero_frame page 0x1000 s1) = (ok, s3)" by fastforce
  have "kern_t.more s1 = kern_t.more s" using more_heap(1) [of "0x1000" s] unfolding m by simp
  moreover have "kern_t.more s3 = kern_t.more s1"
    using more_paging(1) [of "pr_page_dir (processes s p)" page "a AND NOT PAGE_MASK" 1 1 0 "zero_frame page 0x1000 s1"] unfolding p by simp
  ultimately show ?thesis using p by (simp add: task_demand_map_def Let_def m split: prod.splits)
qed

lemma more_prefault [simp]: "kern_t.more (snd (task_prefault t v n s)) = kern_t.more s" for s :: "'a kern_t_scheme"
proof -
  have "kern_t.more (snd (task_prefault_loop t v n is s)) = kern_t.more s" for "is"
  proof (induction "is" arbitrary: s)
    case (Cons i "is")
    obtain ok s1 where d: "task_demand_map (ts_process (tasks s t)) (range_page v i) s = (ok, s1)" by fastforce
    have "kern_t.more s1 = kern_t.more s" using more_demand [of "ts_process (tasks s t)" "range_page v i" s] unfolding d by simp
    then show ?case using Cons d by (simp add: Let_def split: bool.splits)
  qed simp
  then show ?thesis by (simp add: task_prefault_def)
qed

lemma more_store: "store_bytes d v bs s = Some s' \<Longrightarrow> kern_t.more s' = kern_t.more s" for s :: "'a kern_t_scheme"
  by (induction bs arbitrary: v s) (auto split: if_splits)

lemma more_store_kernel [simp]: "kern_t.more (store_kernel a bs s) = kern_t.more s" for s :: "'a kern_t_scheme"
  by (induction bs arbitrary: a s) simp_all

lemma more_copy_to: "copy_to_task t v bs s = Some (n, s') \<Longrightarrow> kern_t.more s' = kern_t.more s" for s :: "'a kern_t_scheme"
proof -
  assume c: "copy_to_task t v bs s = Some (n, s')"
  define mx where "mx = task_validate_maxsize (nat t) v (s32 (int (length bs))) True s"
  obtain m s1 where p: "task_prefault (nat t) v mx s = (m, s1)" by fastforce
  have 1: "kern_t.more s1 = kern_t.more s" using more_prefault [of "nat t" v mx s] unfolding p by simp
  have 2: "kern_t.more s3 = kern_t.more s1" if "store_bytes d v xs (if b then swap_pagedir e s1 else s1) = Some s3" for d xs b e s3
    using more_store [OF that] by (simp split: if_splits)
  show ?thesis using c 1 unfolding copy_to_task_def Let_def mx_def [symmetric] p
    by (auto split: if_splits option.splits dest!: 2 [where b = True, simplified] 2 [where b = False, simplified])
qed

lemma more_switch:
  fixes s :: "'a kern_t_scheme"
  shows "switch_task regs r s = Some (regs', e, s') \<Longrightarrow> kern_t.more s' = kern_t.more s"
    "switch_to_task i regs s = Some (ok, regs', s') \<Longrightarrow> kern_t.more s' = kern_t.more s"
  by (auto simp: switch_task_def switch_to_task_def save_and_load_def load_pagedir_def Let_def bind_eq_Some_conv split: if_splits prod.splits)

lemma more_queue: "kern_t.more (snd (task_queue_subroutine t ty a args s)) = kern_t.more s" for s :: "'a kern_t_scheme"
  by (auto simp: task_queue_subroutine_def Let_def split: prod.splits option.splits)

lemma more_execute: "task_execute_subroutine regs ty a args s = Some (ok, regs', s') \<Longrightarrow> kern_t.more s' = kern_t.more s" for s :: "'a kern_t_scheme"
  by (auto simp: task_execute_subroutine_def Let_def bind_eq_Some_conv split: if_splits prod.splits dest: more_copy_to)


section \<open>Tasks in a call\<close>

definition waits :: "task_state_t \<Rightarrow> bool" where
  "waits x \<longleftrightarrow> ts_enabled x \<and> ts_paused x \<and> ts_pause_reason x = PAUSE_MSG_CALL"

text \<open>A step that keeps the state of message passing and the identity of tasks, and puts no task into a call.\<close>

definition calm :: "'a kern_t_scheme \<Rightarrow> 'a kern_t_scheme \<Rightarrow> bool" where
  "calm s s' \<longleftrightarrow> kern_t.more s' = kern_t.more s
     \<and> (\<forall>t. ts_task_uid (tasks s' t) = ts_task_uid (tasks s t) \<and> ts_enabled (tasks s' t) = ts_enabled (tasks s t)
            \<and> ts_process (tasks s' t) = ts_process (tasks s t) \<and> (waits (tasks s' t) \<longrightarrow> waits (tasks s t)))"

lemma calm_refl [simp]: "calm s s"
  by (simp add: calm_def)

lemma calm_trans: "calm s s1 \<Longrightarrow> calm s1 s2 \<Longrightarrow> calm s s2"
  by (simp add: calm_def)

lemma calm_tasks: "kern_t.more s' = kern_t.more s \<Longrightarrow> tasks s' = tasks s \<Longrightarrow> calm s s'"
  by (simp add: calm_def)

lemma calm_upd_task:
  "(\<And>x. ts_task_uid (f x) = ts_task_uid x) \<Longrightarrow> (\<And>x. ts_enabled (f x) = ts_enabled x) \<Longrightarrow> (\<And>x. ts_process (f x) = ts_process x)
    \<Longrightarrow> (\<And>x. waits (f x) \<Longrightarrow> waits x) \<Longrightarrow> calm s (upd_task t f s)"
  by (simp add: calm_def upd_task_def)

lemma calm_resume: "calm s (task_resume t s)"
  unfolding task_resume_def by (rule calm_upd_task) (auto simp: waits_def)

lemma calm_pause: "r \<noteq> PAUSE_MSG_CALL \<Longrightarrow> calm s (task_pause t r s)"
  unfolding task_pause_def by (rule calm_upd_task) (auto simp: waits_def)

lemma calm_set_ebx: "calm s (set_ebx t i s)"
  unfolding set_ebx_def by (rule calm_upd_task) (auto simp: waits_def)

lemma calm_heap [simp]: "calm s (snd (malloc n s))" "calm s (free a n s)" for s :: "'a kern_t_scheme"
  by (rule calm_tasks; simp)+

lemma calm_fold: "(\<And>x s. calm s (f x s)) \<Longrightarrow> calm s (fold f xs s)"
proof (induction xs arbitrary: s)
  case (Cons x xs)
  then show ?case using calm_trans by fastforce
qed simp

lemma calm_upds [simp]:
  "calm s (upd_inst i f s)" "calm s (upd_pipe p g s)" "calm s (upd_pci d h s)" "calm s (upd_process q k s)" for s :: "'a kern_t_scheme"
  by (rule calm_tasks; simp add: upd_inst_def upd_pipe_def upd_pci_def upd_process_def)+

lemma calm_close_wake: "calm s (close_wake_reader p s)" "calm s (close_wake_writer p s)"
proof -
  have 1: "calm s (if b then set_ebx t i (task_resume t s) else s)" for b t i
    by (simp add: calm_trans [OF calm_resume calm_set_ebx])
  show "calm s (close_wake_reader p s)" "calm s (close_wake_writer p s)"
    unfolding close_wake_reader_def close_wake_writer_def Let_def using calm_trans [OF 1 calm_upds(2)] by simp_all
qed

lemma calm_close: "calm s (fs_close_locked file s)"
proof -
  have f: "calm s (if b then free a n s else s)" for b a n and s :: "'a kern_t_scheme" by simp
  have u: "calm s (if b then upd_pipe p g s else s)" for b p g and s :: "'a kern_t_scheme" by simp
  show ?thesis unfolding fs_close_locked_def Let_def
    by (auto intro!: calm_trans [OF _ calm_heap(2)] calm_trans [OF _ calm_upds(2)] calm_trans [OF _ calm_close_wake(2)] calm_trans [OF _ calm_close_wake(1)])
qed

lemma calm_stop: "calm s (kobj_stop inst s)"
  by (cases "ki_type (kobj_insts s inst)") (auto simp: kobj_stop_def pci_stop_def pci_disable_device_def intro: calm_trans [OF calm_upds(3) calm_upds(1)])

lemma calm_free_inst: "calm s (free_kobj_inst inst s)" for s :: "'a kern_t_scheme"
proof -
  define s1 where "s1 = kobj_stop inst s"
  have "calm s s1" unfolding s1_def by (rule calm_stop)
  moreover have "calm s1 (case ko_free (obj_of s1 inst) of Some f \<Rightarrow> f inst s1 | None \<Rightarrow> s1)"
    by (cases "ki_type (kobj_insts s1 inst)")
      (auto simp: dma_cleanup_def pci_free_inst_def shared_free_inst_def fs_free_def Let_def intro: calm_close calm_trans [OF calm_heap(2) calm_heap(2)])
  ultimately show ?thesis unfolding free_kobj_inst_def Let_def s1_def [symmetric] by (intro calm_trans [OF _ calm_heap(2)]) (rule calm_trans)
qed

lemma calm_release_ref: "calm s (kobj_release_ref inst s)" for s :: "'a kern_t_scheme"
  unfolding kobj_release_ref_def Let_def by (auto intro: calm_trans [OF calm_upds(1) calm_free_inst])

lemma calm_kobj_release: "calm s (snd (kobj_release ref p e s))" for s :: "'a kern_t_scheme"
proof -
  let ?i = "kr_inst (kobj_refs s ref)"
  let ?s2 = "upd_inst ?i (\<lambda>i. i\<lparr>ki_handle_count := ki_handle_count i - 1\<rparr>) s"
  have "ko_close (obj_of s ?i) = None" by (cases "ki_type (kobj_insts s ?i)") simp_all
  moreover have "calm s (if ki_handle_count (kobj_insts ?s2 ?i) = 0 then kobj_stop ?i ?s2 else ?s2)"
    by (auto intro: calm_trans [OF calm_upds(1) calm_stop])
  ultimately show ?thesis unfolding kobj_release_def Let_def
    by (auto intro!: calm_trans [OF _ calm_heap(2)] calm_trans [OF _ calm_release_ref])
qed

lemma calm_release: "calm s (snd (process_release_kobj process h s))" for s :: "'a kern_t_scheme"
proof -
  have "calm s (snd (kobj_release ref p e s))" for ref p e by (rule calm_kobj_release)
  then show ?thesis unfolding process_release_kobj_def Let_def
    by (auto split: prod.split bool.split intro!: calm_trans [OF _ calm_upds(4)]) (metis snd_conv)+
qed

lemma calm_acquire: "calm s (snd (process_acquire_kobj process inst s))" for s :: "'a kern_t_scheme"
proof -
  have c: "calm s (snd (create_kobj_ref inst s))"
  proof -
    obtain a s1 where m: "malloc 16 s = (a, s1)" by fastforce
    have "calm s s1" using calm_heap(1) [of s 16] unfolding m by simp
    then show ?thesis by (auto simp: create_kobj_ref_def m Let_def kobj_add_ref_def calm_def upd_inst_def)
  qed
  obtain ref s1 where r: "create_kobj_ref inst s = (ref, s1)" by fastforce
  then have "calm s s1" using c by simp
  then show ?thesis unfolding process_acquire_kobj_def Let_def r by (auto intro: calm_trans [OF _ calm_upds(4)])
qed

lemma calm_copy_kobj: "calm s (snd (process_copy_kobj a b h s))" for s :: "'a kern_t_scheme"
proof -
  let ?i = "kr_inst (kobj_refs s (process_get_kobj a h s))"
  obtain n s1 where q: "process_acquire_kobj b ?i s = (n, s1)" by fastforce
  have c1: "calm s s1" using calm_acquire [of s b ?i] unfolding q by simp
  have "ko_connect (obj_of s ?i) = None \<or> ko_connect (obj_of s ?i) = Some shared_connect \<or> ko_connect (obj_of s ?i) = Some fs_connect"
    by (cases "ki_type (kobj_insts s ?i)") simp_all
  then show ?thesis using c1 unfolding process_copy_kobj_def Let_def q by (auto simp: shared_connect_def fs_connect_def)
qed

section \<open>Copying to user memory\<close>

lemma tasks_demand [simp]: "tasks (snd (task_demand_map p a s)) = tasks s" for s :: "'a kern_t_scheme"
proof -
  obtain page s1 where m: "malloc 0x1000 s = (page, s1)" by fastforce
  have "tasks s1 = tasks s" using arg_cong [OF m, of "\<lambda>x. tasks (snd x)"] by simp
  moreover obtain ok s3 where p: "map_page (pr_page_dir (processes s p)) page (a AND NOT PAGE_MASK) 1 1 0 (zero_frame page 0x1000 s1) = (ok, s3)" by fastforce
  moreover have "tasks s3 = tasks s1" using arg_cong [OF p, of "\<lambda>x. tasks (snd x)"] by (simp add: zero_frame_def)
  ultimately show ?thesis by (simp add: task_demand_map_def Let_def m split: prod.splits)
qed

lemma tasks_prefault [simp]: "tasks (snd (task_prefault t v n s)) = tasks s" for s :: "'a kern_t_scheme"
proof -
  have "tasks (snd (task_prefault_loop t v n is s)) = tasks s" for "is"
  proof (induction "is" arbitrary: s)
    case (Cons i "is")
    obtain ok s1 where d: "task_demand_map (ts_process (tasks s t)) (range_page v i) s = (ok, s1)" by fastforce
    have "tasks s1 = tasks s" using arg_cong [OF d, of "\<lambda>x. tasks (snd x)"] by simp
    then show ?case using Cons d by (simp add: Let_def split: bool.splits)
  qed simp
  then show ?thesis by (simp add: task_prefault_def)
qed

lemma tasks_store: "store_bytes d v bs s = Some s' \<Longrightarrow> tasks s' = tasks s" for s :: "'a kern_t_scheme"
  by (induction bs arbitrary: v s) (auto split: if_splits)

lemma tasks_store_kernel [simp]: "tasks (store_kernel a bs s) = tasks s" for s :: "'a kern_t_scheme"
  by (induction bs arbitrary: a s) simp_all

lemma calm_copy_to:
  fixes s :: "'a kern_t_scheme"
  assumes c: "copy_to_task t v bs s = Some (n, s')"
  shows "calm s s'"
proof (rule calm_tasks [OF more_copy_to [OF c]])
  define mx where "mx = task_validate_maxsize (nat t) v (s32 (int (length bs))) True s"
  obtain m s1 where p: "task_prefault (nat t) v mx s = (m, s1)" by fastforce
  have 1: "tasks s1 = tasks s" using tasks_prefault [of "nat t" v mx s] unfolding p by simp
  have 2: "tasks s3 = tasks s1" if "store_bytes d v xs (if b then swap_pagedir e s1 else s1) = Some s3" for d xs b e s3
    using tasks_store [OF that] by (simp add: swap_pagedir_def split: if_splits)
  show "tasks s' = tasks s" using c 1 unfolding copy_to_task_def Let_def mx_def [symmetric] p
    by (auto simp: swap_pagedir_def split: if_splits option.splits dest!: 2 [where b = True, simplified] 2 [where b = False, simplified])
qed

section \<open>Switching and routines\<close>

lemma calm_switch:
  fixes s :: "'a kern_t_scheme"
  shows "switch_task regs r s = Some (regs', e, s') \<Longrightarrow> calm s s'" "switch_to_task i regs s = Some (ok, regs', s') \<Longrightarrow> calm s s'"
proof -
  have ld: "calm s (load_pagedir (s\<lparr> current_task := n \<rparr>))" for n and s :: "'a kern_t_scheme"
    by (rule calm_tasks) (simp_all add: load_pagedir_def Let_def swap_pagedir_def)
  have sl: "calm s s'" if "save_and_load old regs s = Some (r, s')" for old regs r and s s' :: "'a kern_t_scheme"
  proof (cases "old = current_task s")
    case False
    then have "s' = upd_task (nat old) (\<lambda>x. x\<lparr> ts_registers := regs \<rparr>) (s\<lparr> tss_esp0 := ts_kernel_stack_top (tasks s (nat (current_task s))) \<rparr>)"
      using that by (auto simp: save_and_load_def Let_def split: if_splits)
    then show ?thesis by (simp add: calm_def upd_task_def waits_def)
  qed (use that in \<open>simp add: save_and_load_def\<close>)
  have ke: "calm s (upd_task t (\<lambda>x. x\<lparr> ts_kernel_esp := 0 \<rparr>) s)" for t and s :: "'a kern_t_scheme"
    by (rule calm_upd_task) (auto simp: waits_def)
  show "switch_task regs r s = Some (regs', e, s') \<Longrightarrow> calm s s'"
    by (auto simp: switch_task_def Let_def bind_eq_Some_conv split: if_splits prod.splits option.splits dest!: sl intro: calm_trans [OF ld] calm_trans [OF calm_trans [OF ld] ke])
  show "switch_to_task i regs s = Some (ok, regs', s') \<Longrightarrow> calm s s'"
    by (auto simp: switch_to_task_def Let_def bind_eq_Some_conv split: if_splits dest!: sl intro: calm_trans [OF ld])
qed

lemma calm_wake: "calm s (snd (task_unsnooze t s))" "calm s (task_wake t s)"
proof -
  show 1: "calm s (snd (task_unsnooze t s))" by (auto simp: task_unsnooze_def intro: calm_resume)
  have "calm s (upd_task t (\<lambda>x. x\<lparr> ts_wake_pending := True \<rparr>) s)" for s :: "'a kern_t_scheme" by (rule calm_upd_task) (auto simp: waits_def)
  then show "calm s (task_wake t s)" using 1 by (auto simp: task_wake_def split: prod.splits bool.splits intro: calm_trans)
qed

lemma calm_events: "calm s (upd_task t (\<lambda>x. x\<lparr> ts_event_queue := f x \<rparr>) s)"
  by (rule calm_upd_task) (auto simp: waits_def)

lemma calm_queue: "calm s (snd (task_queue_subroutine t ty a args s))"
  using calm_trans [OF calm_wake(1) calm_events] calm_wake(1)
  by (auto simp: task_queue_subroutine_def Let_def split: prod.splits option.splits)

lemma calm_execute: "task_execute_subroutine regs ty a args s = Some (ok, regs', s') \<Longrightarrow> calm s s'"
proof -
  have u: "calm s (upd_task t (\<lambda>x. x\<lparr> ts_routine := ty, ts_checkcmd_buffer := b, ts_routine_return_regs := r \<rparr>) s)" for t b r ty and s :: "'a kern_t_scheme"
    by (rule calm_upd_task) (auto simp: waits_def)
  show "task_execute_subroutine regs ty a args s = Some (ok, regs', s') \<Longrightarrow> calm s s'"
    unfolding task_execute_subroutine_def Let_def
    by (auto simp: bind_eq_Some_conv split: if_splits prod.splits dest!: calm_copy_to intro: calm_trans [OF _ u])
qed

end
