(* ===== verification/Msgframe.thy ===== *)
theory Msgframe
  imports Msg Calm
begin

text \<open>
  What the calls of routines and the notifications leave alone: of the state of message passing, ports, channels and their queues
  (only the flags of a channel and the marks of notifications to be repeated change); of the tasks, their identity. The locale
  \<open>msg_frame\<close> carries a relation through these operations; it is interpreted for both.
\<close>

section \<open>The state of message passing\<close>

text \<open>A channel without its flags and its marks of notifications to be repeated.\<close>

definition core :: "msg_channel_t \<Rightarrow> msg_channel_t" where
  "core c = c\<lparr> ch_client_flags := 0, ch_server_flags := 0, ch_client_notify_pending := False, ch_server_notify_pending := False \<rparr>"

definition same_msg :: "'a msg_t_scheme \<Rightarrow> 'a msg_t_scheme \<Rightarrow> bool" where
  "same_msg s s' \<longleftrightarrow> ports s' = ports s \<and> msg_ports s' = msg_ports s \<and> ts_msg_channels s' = ts_msg_channels s \<and> pr_ports s' = pr_ports s
     \<and> ts_msg_func s' = ts_msg_func s \<and> msg_uid_counter s' = msg_uid_counter s \<and> channel_uid_counter s' = channel_uid_counter s
     \<and> call_uid_counter s' = call_uid_counter s \<and> msg_t.more s' = msg_t.more s \<and> (\<forall>c. core (msg_channels s' c) = core (msg_channels s c))"

lemma same_msg_refl [simp]: "same_msg s s"
  by (simp add: same_msg_def)

lemma same_msg_trans: "same_msg s s1 \<Longrightarrow> same_msg s1 s2 \<Longrightarrow> same_msg s s2"
  by (simp add: same_msg_def)

lemma more_msg: "kern_t.more s' = kern_t.more s \<Longrightarrow> same_msg s s' \<and> msg_channels s' = msg_channels s" for s s' :: "'a msg_t_scheme"
  by (cases s; cases s') (simp add: same_msg_def)

lemmas same_more = conjunct1 [OF more_msg]

lemma core_fields:
  assumes "core c = core c'"
  shows "ch_queues c = ch_queues c'" "ch_server_unanswered c = ch_server_unanswered c'" "ch_uid c = ch_uid c'" "ch_server_taskuid c = ch_server_taskuid c'"
    "ch_client_taskuid c = ch_client_taskuid c'" "ch_server_connected c = ch_server_connected c'" "ch_client_connected c = ch_client_connected c'"
  using arg_cong [OF assms, of ch_queues] arg_cong [OF assms, of ch_server_unanswered] arg_cong [OF assms, of ch_uid]
    arg_cong [OF assms, of ch_server_taskuid] arg_cong [OF assms, of ch_client_taskuid] arg_cong [OF assms, of ch_server_connected]
    arg_cong [OF assms, of ch_client_connected] by (simp_all add: core_def)

lemma same_msg_upd: "(\<And>c. core (f c) = core c) \<Longrightarrow> same_msg s (upd_channel channel f s)"
  by (simp add: same_msg_def upd_channel_def)

section \<open>Frames\<close>

text \<open>The windows of a task that crashes keep the relation.\<close>

definition gui_keeps :: "('a msg_t_scheme \<Rightarrow> 'a msg_t_scheme \<Rightarrow> bool) \<Rightarrow> 'a msg_t_scheme gui_t \<Rightarrow> bool" where
  "gui_keeps R gui \<longleftrightarrow> (\<forall>t s. R s (gui_reset_windows gui t s)) \<and> (\<forall>t u s. R s (gui_task_crash gui t u s))"

text \<open>
  A preorder on states that contains the quiet steps of the kernel, the changes of flags and marks of a channel, and the marks of a task.
\<close>

locale msg_frame =
  fixes R :: "'a msg_t_scheme \<Rightarrow> 'a msg_t_scheme \<Rightarrow> bool"
  assumes trans: "R s s1 \<Longrightarrow> R s1 s2 \<Longrightarrow> R s s2"
    and kernel: "calm s s' \<Longrightarrow> R s s'"
    and marks: "(\<And>c. core (f c) = core c) \<Longrightarrow> R s (upd_channel channel f s)"
    and pending: "R s (s\<lparr> ts_msg_notify_pending := n \<rparr>)"
begin

lemma refl: "R s s"
  by (rule kernel) simp

lemma fold_keeps: "(\<And>x s. R s (f x s)) \<Longrightarrow> R s (fold f xs s)"
proof (induction xs arbitrary: s)
  case (Cons x xs)
  then show ?case using trans by fastforce
qed (simp add: refl)

lemma notified: "R s (notified t channel server st s)"
proof -
  let ?f = "\<lambda>p c. if server then c\<lparr> ch_server_notify_pending := p \<rparr> else c\<lparr> ch_client_notify_pending := p \<rparr>"
  have 1: "R s (upd_channel channel (?f p) s)" for p s by (rule marks) (simp add: core_def)
  have 2: "R s (msg_set_notify_pending t channel server p s)" for p
    unfolding msg_set_notify_pending_def Let_def by (rule if_split [THEN iffD2]) (intro conjI impI trans [OF 1 pending] 1)
  have 3: "R s (clear_flags server channel s)" for s
    unfolding clear_flags_def by (rule marks) (simp add: core_def)
  show ?thesis using 2 trans [OF 2 3] by (simp add: notified_def Let_def)
qed

lemma queue_msg: "queue_msg_func t p c f s = (st, s') \<Longrightarrow> R s s'"
  using calm_queue [of s t E_MSG "ts_msg_func s t" "[p, c, f]"] calm_wake(2)
  by (auto simp: queue_msg_func_def split: if_splits prod.splits intro!: kernel)

lemma retry_one: "R s (retry_channel t server pu channel s)"
  by (auto simp: retry_channel_def Let_def split: prod.splits intro: trans [OF queue_msg notified] refl)

lemma retry: "R s (msg_retry_task_notifications t s)"
proof -
  have 2: "R s (fold (retry_channel t b pu) xs s)" for b pu xs s by (rule fold_keeps) (rule retry_one)
  have 3: "R s (retry_port t p s)" for p s using 2 refl by (simp add: retry_port_def Let_def)
  have 4: "R s (fold (retry_port t) xs s)" for xs s by (rule fold_keeps) (rule 3)
  show ?thesis unfolding msg_retry_task_notifications_def Let_def
    using trans [OF pending trans [OF 2 4]] refl by simp
qed

lemma crash:
  assumes "gui_keeps R gui" "crash_task gui regs t s = Some (r, s')"
  shows "R s s'"
proof -
  obtain s1 where p: "pause_task gui t regs s = Some (r, s1)" "s' = gui_task_crash gui t (pr_uid (task_proc s1 t)) s1"
    using assms(2) by (auto simp: crash_task_def bind_eq_Some_conv)
  let ?c = "upd_task t (\<lambda>x. x\<lparr> ts_crashed := True \<rparr>) (task_pause t PAUSE_CRASH (gui_reset_windows gui t s))"
  have c: "calm u (upd_task t (\<lambda>x. x\<lparr> ts_crashed := True \<rparr>) u)" for u :: "'a msg_t_scheme" by (rule calm_upd_task) (auto simp: waits_def)
  have m: "R s ?c"
    by (rule trans [OF trans [OF _ kernel [OF calm_pause]] kernel [OF c]]) (use assms(1) in \<open>simp_all add: gui_keeps_def\<close>)
  have "s1 = s \<or> s1 = ?c \<or> (\<exists>r0 r1 e. switch_task r0 False ?c = Some (r1, e, s1))"
    using p(1) unfolding pause_task_def Let_def by (auto split: if_splits option.splits)
  then have "R s s1" using m trans [OF m kernel [OF calm_switch(1)]] refl by auto
  then show ?thesis using p(2) assms(1) trans unfolding gui_keeps_def by blast
qed

lemma dropped: "R s (drop_event t s)"
  unfolding drop_event_def by (rule trans [OF kernel [OF calm_events] retry])

lemma run:
  assumes "gui_keeps R gui" "run_event gui regs t e s = Some (ok, regs', s')"
  shows "R s s'"
proof -
  obtain ok1 r1 s1 where 1: "switch_to_task (int t) regs s = Some (ok1, r1, s1)" using assms(2) by (auto simp: run_event_def bind_eq_Some_conv)
  note m1 = kernel [OF calm_switch(2) [OF 1]]
  show ?thesis
  proof (cases ok1)
    case False
    then show ?thesis using assms(2) 1 m1 by (auto simp: run_event_def)
  next
    case True
    then obtain ok2 r2 s2 where 2: "task_execute_subroutine r1 (ev_type e) (ev_addr e) (take (ev_argc e) (ev_args e)) s1 = Some (ok2, r2, s2)"
      using assms(2) 1 by (auto simp: run_event_def bind_eq_Some_conv)
    note m2 = trans [OF m1 kernel [OF calm_execute [OF 2]]]
    show ?thesis
    proof (cases ok2)
      case False
      then obtain r where "crash_task gui None t s2 = Some (r, s')" using assms(2) 1 2 True by (auto simp: run_event_def bind_eq_Some_conv)
      then show ?thesis using trans [OF m2 crash [OF assms(1)]] by blast
    next
      case True
      then have "s' = drop_event t s2" using assms(2) 1 2 \<open>ok1\<close> by (auto simp: run_event_def)
      then show ?thesis using trans [OF m2 dropped] by simp
    qed
  qed
qed

lemma queued_loop:
  assumes "task_execute_queued_loop gui regs t s = Some r"
  shows "gui_keeps R gui \<longrightarrow> R s (snd (snd r))"
proof (rule task_execute_queued_loop.raw_induct [where P = "\<lambda>gui regs t s r. gui_keeps R gui \<longrightarrow> R s (snd (snd r))", OF _ assms])
  fix loop gui regs t s r
  assume IH: "\<And>gui regs t s r. loop gui regs t s = Some r \<Longrightarrow> gui_keeps R gui \<longrightarrow> R s (snd (snd r))"
    and body: "(case kqueue_peek (ts_event_queue (tasks s t)) of None \<Rightarrow> Some (False, regs, s)
      | Some i \<Rightarrow> let e = q_buffer (ts_event_queue (tasks s t)) ! i
          in if ev_type e = E_MSG \<and> ev_args e ! 2 = 0 \<and> msg_notif_is_stale t (ev_args e ! 0) (ev_args e ! 1) s
             then loop gui regs t (drop_event t s) else run_event gui regs t e s) = Some r"
  have "R s (snd (snd r))" if g: "gui_keeps R gui" and "loop gui regs t (drop_event t s) = Some r"
    using IH [OF that(2)] g trans [OF dropped] by blast
  moreover have "R s (snd (snd r))" if "gui_keeps R gui" "run_event gui regs t e s = Some r" for e
    using run [OF that(1), of regs t e s "fst r" "fst (snd r)" "snd (snd r)"] that(2) by simp
  ultimately show "gui_keeps R gui \<longrightarrow> R s (snd (snd r))" using body refl by (auto simp: Let_def split: option.splits if_splits)
qed

lemma execute_queued: "gui_keeps R gui \<Longrightarrow> task_execute_queued_subroutine gui regs t s = Some (ok, regs', s') \<Longrightarrow> R s s'"
  using queued_loop [of gui regs t s "(ok, regs', s')"] refl by (auto simp: task_execute_queued_subroutine_def split: if_splits)

lemma queue_subroutine: "task_queue_subroutine t ty a args s = (q, s') \<Longrightarrow> R s s'"
  using kernel [OF calm_queue [of s t ty a args]] by simp

lemma call_subroutine:
  assumes g: "gui_keeps R gui" and call: "task_call_subroutine gui regs t ty a args s = Some (ok, regs', s')"
  shows "R s s'"
proof -
  define s1 where "s1 = snd (task_unsnooze t s)"
  have m1: "R s s1" unfolding s1_def by (rule kernel) (rule calm_wake(1))
  show ?thesis
  proof (cases "\<not> ts_enabled (tasks s t) \<or> ts_paused (tasks s1 t) \<or> ts_routine (tasks s1 t) \<noteq> E_NONE \<or> ts_kernel_esp (tasks s1 t) \<noteq> 0")
    case True
    obtain q s2 where "task_queue_subroutine t ty a args s1 = (q, s2)" by fastforce
    then show ?thesis using call True trans [OF m1 queue_subroutine] refl unfolding task_call_subroutine_def Let_def s1_def [symmetric]
      by (auto split: if_splits)
  next
    case False
    then obtain ok1 r1 s2 where 1: "switch_to_task (int t) regs s1 = Some (ok1, r1, s2)"
      using call unfolding task_call_subroutine_def Let_def s1_def [symmetric] by (auto simp: bind_eq_Some_conv)
    note m2 = trans [OF m1 kernel [OF calm_switch(2) [OF 1]]]
    obtain q s3 where 2: "task_queue_subroutine t ty a args s2 = (q, s3)" by fastforce
    note m3 = trans [OF m2 queue_subroutine [OF 2]]
    consider (refused) "s' = s2"
      | (queued) ok2 r2 s4 where "task_execute_queued_subroutine gui r1 (nat (current_task s3)) s3 = Some (ok2, r2, s4)"
          "s' = s4 \<or> (\<exists>r3 e. switch_task r2 False s4 = Some (r3, e, s'))"
      | (executed) ok2 r2 s4 where "task_execute_subroutine r1 ty a args s2 = Some (ok2, r2, s4)"
          "s' = s4 \<or> (\<exists>r. crash_task gui (Some r2) t s4 = Some (r, s'))"
      using call False 1 2 unfolding task_call_subroutine_def Let_def s1_def [symmetric] by (auto simp: bind_eq_Some_conv split: if_splits)
    then show ?thesis
    proof cases
      case queued
      then show ?thesis using trans [OF m3 execute_queued [OF g queued(1)]] kernel [OF calm_switch(1)] trans by blast
    next
      case executed
      then show ?thesis using trans [OF m2 kernel [OF calm_execute [OF executed(1)]]] crash [OF g] trans by blast
    qed (use m2 in simp)
  qed
qed

lemma call_func: "gui_keeps R gui \<Longrightarrow> call_msg_func gui regs t p c f s = Some (st, r, s') \<Longrightarrow> R s s'"
  by (auto simp: call_msg_func_def bind_eq_Some_conv split: option.splits if_splits prod.splits
      dest: queue_msg call_subroutine intro: kernel [OF calm_wake(2)])

end

text \<open>The state of message passing is kept, except for flags and marks.\<close>

interpretation same: msg_frame same_msg
proof
  show "calm s s' \<Longrightarrow> same_msg s s'" for s s' :: "'a msg_t_scheme" by (rule same_more) (simp add: calm_def)
  show "(\<And>c. core (f c) = core c) \<Longrightarrow> same_msg s (upd_channel channel f s)" for f channel and s :: "'a msg_t_scheme"
    by (rule same_msg_upd)
qed (auto simp: same_msg_def)

abbreviation gui_ok :: "'a msg_t_scheme gui_t \<Rightarrow> bool" where
  "gui_ok \<equiv> gui_keeps same_msg"

lemmas gui_ok_def = gui_keeps_def

text \<open>The identity of tasks is kept, and no task is put into a call.\<close>

definition same_tasks :: "'a msg_t_scheme \<Rightarrow> 'a msg_t_scheme \<Rightarrow> bool" where
  "same_tasks s s' \<longleftrightarrow> (\<forall>t. ts_task_uid (tasks s' t) = ts_task_uid (tasks s t) \<and> ts_enabled (tasks s' t) = ts_enabled (tasks s t)
     \<and> (waits (tasks s' t) \<longrightarrow> waits (tasks s t)))"

interpretation idle: msg_frame same_tasks
  by unfold_locales (auto simp: same_tasks_def calm_def upd_channel_def)

end
