(* ===== verification/Msgflow.thy ===== *)
theory Msgflow
  imports Msgframe
begin

text \<open>
  The flow of messages. Each direction of a channel is a bounded queue: over any sequence of sends and receives by any tasks,
  what was received and what is queued is what was queued and what was sent, in that order. On a port whose clients
  reserve, every request that awaits a reply holds a slot for it, so a reply always finds room.
\<close>

section \<open>The ring\<close>

definition mq_inv :: "msg_queue_t \<Rightarrow> bool" where
  "mq_inv q \<longleftrightarrow> length (mq_slots q) = 14 \<and> 0 \<le> mq_count q \<and> mq_count q \<le> 14
     \<and> (0 < mq_count q \<longrightarrow> 0 \<le> mq_head q \<and> mq_head q < 14 \<and> mq_tail q = (mq_head q + mq_count q - 1) mod 14)"

definition mq_list :: "msg_queue_t \<Rightarrow> msg_obj_t list" where
  "mq_list q = map (\<lambda>i. mq_slots q ! nat ((mq_head q + int i) mod 14)) [0..<nat (mq_count q)]"

lemma length_mq_list [simp]: "length (mq_list q) = nat (mq_count q)"
  by (simp add: mq_list_def)

lemma mq_reserved_irrelevant [simp]:
  "mq_inv (q\<lparr> mq_reserved := r \<rparr>) = mq_inv q" "mq_list (q\<lparr> mq_reserved := r \<rparr>) = mq_list q"
  by (simp_all add: mq_inv_def mq_list_def)

lemma mod_14_neq: "0 \<le> (h::int) \<Longrightarrow> h < 14 \<Longrightarrow> i < n \<Longrightarrow> n < 14 \<Longrightarrow> 0 \<le> i \<Longrightarrow> (h + i) mod 14 \<noteq> (h + n) mod 14"
proof
  assume a: "0 \<le> h" "h < 14" "i < n" "n < 14" "0 \<le> i" and "(h + i) mod 14 = (h + n) mod 14"
  then have "14 dvd n - i" using mod_eq_dvd_iff [of "h + n" 14 "h + i"] by simp
  then show False using a zdvd_not_zless [of "n - i" 14] by simp
qed

lemma mq_put:
  assumes "mq_inv q" "mq_count q < 14"
  shows "mq_inv (msg_queue_put x q)" "mq_list (msg_queue_put x q) = mq_list q @ [x]" "mq_count (msg_queue_put x q) = mq_count q + 1"
    "mq_reserved (msg_queue_put x q) = mq_reserved q"
proof -
  show "mq_count (msg_queue_put x q) = mq_count q + 1" "mq_reserved (msg_queue_put x q) = mq_reserved q" by (simp_all add: msg_queue_put_def Let_def)
  let ?n = "mq_count q" and ?h = "mq_head q"
  show "mq_inv (msg_queue_put x q)"
  proof (cases "?n = 0")
    case False
    then have h: "0 \<le> ?h" "?h < 14" "mq_tail q = (?h + ?n - 1) mod 14" using assms by (auto simp: mq_inv_def)
    then have "(mq_tail q + 1) mod 14 = (?h + ?n) mod 14" using mod_add_left_eq [of "?h + ?n - 1" 14 1] by simp
    then show ?thesis using False assms h by (simp add: mq_inv_def msg_queue_put_def Let_def)
  qed (use assms in \<open>simp add: mq_inv_def msg_queue_put_def Let_def\<close>)
  show "mq_list (msg_queue_put x q) = mq_list q @ [x]"
  proof (cases "?n = 0")
    case True
    then show ?thesis using assms by (simp add: mq_list_def msg_queue_put_def Let_def mq_inv_def)
  next
    case False
    then have h: "0 \<le> ?h" "?h < 14" "mq_tail q = (?h + ?n - 1) mod 14" "0 < ?n" using assms by (auto simp: mq_inv_def)
    define j where "j = (?h + ?n) mod 14"
    have j: "(mq_tail q + 1) mod 14 = j" "0 \<le> j" "j < 14" using h(3) mod_add_left_eq [of "?h + ?n - 1" 14 1] by (simp_all add: j_def)
    have ne: "nat ((?h + int i) mod 14) \<noteq> nat j" if "i < nat ?n" for i
      using mod_14_neq [of ?h "int i" ?n] h that assms(2) eq_nat_nat_iff [of "(?h + int i) mod 14" "(?h + ?n) mod 14"] unfolding j_def by (simp add: zless_nat_eq_int_zless)
    have "mq_slots (msg_queue_put x q) ! nat ((?h + int i) mod 14) = mq_slots q ! nat ((?h + int i) mod 14)" if "i < nat ?n" for i
      using ne [OF that, symmetric] False by (simp add: msg_queue_put_def Let_def j)
    moreover have "mq_slots (msg_queue_put x q) ! nat ((?h + ?n) mod 14) = x"
      using False assms j by (simp add: msg_queue_put_def Let_def mq_inv_def j_def [symmetric])
    moreover have "mq_head (msg_queue_put x q) = ?h" "nat (mq_count (msg_queue_put x q)) = Suc (nat ?n)" "int (nat ?n) = ?n"
      using False h by (simp_all add: msg_queue_put_def Let_def)
    ultimately show ?thesis by (simp add: mq_list_def)
  qed
qed

lemma mq_take:
  assumes "mq_inv q" "mq_count q \<noteq> 0"
  shows "mq_inv (msg_queue_take q)" "mq_list q = msg_queue_front q # mq_list (msg_queue_take q)" "mq_count (msg_queue_take q) = mq_count q - 1"
    "mq_reserved (msg_queue_take q) = mq_reserved q"
proof -
  let ?n = "mq_count q" and ?h = "mq_head q"
  have h: "0 \<le> ?h" "?h < 14" "mq_tail q = (?h + ?n - 1) mod 14" "0 < ?n" using assms by (auto simp: mq_inv_def)
  show "mq_count (msg_queue_take q) = mq_count q - 1" "mq_reserved (msg_queue_take q) = mq_reserved q" by (simp_all add: msg_queue_take_def)
  have "mq_tail q = ((?h + 1) mod 14 + (?n - 1) - 1) mod 14" if "1 < ?n"
    using h(3) mod_add_left_eq [of "?h + 1" 14 "?n - 2"] by (simp add: algebra_simps)
  then show "mq_inv (msg_queue_take q)" using assms h by (simp add: mq_inv_def msg_queue_take_def)
  have "((?h + 1) mod 14 + int i) mod 14 = (?h + int (Suc i)) mod 14" for i using mod_add_left_eq [of "?h + 1" 14 "int i"] by (simp add: algebra_simps)
  moreover have "nat ?n = Suc (nat (?n - 1))" using h by simp
  ultimately show "mq_list q = msg_queue_front q # mq_list (msg_queue_take q)"
    using h by (simp add: mq_list_def msg_queue_take_def msg_queue_front_def upt_conv_Cons map_upt_shift del: upt_Suc)
qed

text \<open>The ring, with the test for room and for emptiness of its callers, is a bounded queue of fourteen messages.\<close>

definition ring_push :: "msg_obj_t \<Rightarrow> msg_queue_t \<Rightarrow> bool \<times> msg_queue_t" where
  "ring_push x q = (if mq_count q \<ge> MSG_QUEUE_DEPTH then (False, q) else (True, msg_queue_put x q))"

definition ring_pop :: "msg_queue_t \<Rightarrow> msg_obj_t option \<times> msg_queue_t" where
  "ring_pop q = (if mq_count q = 0 then (None, q) else (Some (msg_queue_front q), msg_queue_take q))"

interpretation ring: bounded_fifo ring_push ring_pop mq_list "\<lambda>_. 14" mq_inv
proof (unfold_locales, goal_cases)
  case (1 q)
  then have "mq_count q \<le> 14" by (simp add: mq_inv_def)
  then show ?case by simp
next
  case (2 q x)
  then show ?case by (auto simp: ring_push_def mq_inv_def)
next
  case (3 q x)
  then show ?case using mq_put(2) [of q x] by (simp add: ring_push_def mq_inv_def)
next
  case (4 q x)
  then show ?case using mq_put(1) [of q x] by (simp add: ring_push_def)
next
  case (5 q)
  then show ?case using mq_take(2) [of q] by (auto simp: ring_pop_def mq_list_def)
next
  case (6 q)
  then show ?case using mq_take(1) [of q] by (simp add: ring_pop_def)
qed

section \<open>Invariant of a channel\<close>

definition expects :: "msg_obj_t \<Rightarrow> bool" where
  "expects m \<longleftrightarrow> ucast (mo_flags m) AND MSG_EXPECT_REPLY \<noteq> (0 :: u32)"

definition awaiting :: "msg_queue_t \<Rightarrow> int" where
  "awaiting q = int (length (filter expects (mq_list q)))"

text \<open>
  On a port whose clients reserve, the slots reserved in the queue to the client are one for each request that the server has
  read and not answered and for each one still queued. The queue never holds more than its depth, reserved slots included.
\<close>

definition chan_inv :: "bool \<Rightarrow> msg_channel_t \<Rightarrow> bool" where
  "chan_inv cr c \<longleftrightarrow> mq_inv (ch_queues c False) \<and> mq_inv (ch_queues c True) \<and> mq_reserved (ch_queues c False) = 0
     \<and> 0 \<le> ch_server_unanswered c \<and> (\<not> cr \<longrightarrow> ch_server_unanswered c = 0)
     \<and> mq_reserved (ch_queues c True) = (if cr then ch_server_unanswered c + awaiting (ch_queues c False) else 0)
     \<and> mq_count (ch_queues c True) + mq_reserved (ch_queues c True) \<le> 14"

lemma awaiting_nonneg [simp]: "0 \<le> awaiting q"
  by (simp add: awaiting_def)

lemma chan_inv_core: "core c = core c' \<Longrightarrow> chan_inv cr c = chan_inv cr c'"
  using core_fields [of c c'] by (simp add: chan_inv_def)

lemma expects_flags: "expects \<lparr> mo_flags = ucast (flags AND (MSG_EXPECT_REPLY OR MSG_REPLY)), mo_data = b \<rparr> \<longleftrightarrow> flags AND MSG_EXPECT_REPLY \<noteq> 0" for flags :: u32
proof -
  have "(ucast (ucast (flags AND 5) :: u16) :: u32) AND 1 = flags AND 1"
    by (rule bit_word_eqI) (auto simp: bit_simps bit_numeral_rec)
  then show ?thesis by (simp add: expects_def)
qed

abbreviation the_obj :: "u32 \<Rightarrow> u8 list \<Rightarrow> msg_obj_t" where
  "the_obj flags b \<equiv> \<lparr> mo_flags = ucast (flags AND (MSG_EXPECT_REPLY OR MSG_REPLY)), mo_data = b \<rparr>"

lemma send_store_inv:
  assumes inv: "chan_inv cr c" and ok: "send_check cr s2c flags c s = Inr t"
  shows "chan_inv cr (send_store cr s2c flags b c)"
    "mq_list (ch_queues (send_store cr s2c flags b c) s2c) = mq_list (ch_queues c s2c) @ [the_obj flags b]"
    "mq_list (ch_queues (send_store cr s2c flags b c) (\<not> s2c)) = mq_list (ch_queues c (\<not> s2c))"
proof -
  let ?W = "writing_in_reserved cr s2c flags c" and ?R = "reserve_slot cr s2c flags"
  have room: "mq_count (ch_queues c s2c) + mq_reserved (ch_queues c s2c) - (if ?W then 1 else 0) < 14" and rr: "?R \<longrightarrow> mq_count (ch_queues c True) + mq_reserved (ch_queues c True) < 14"
    using ok by (auto simp: send_check_def Let_def split: if_splits option.splits)
  have q: "mq_inv (ch_queues c s2c)" using inv by (cases s2c) (simp_all add: chan_inv_def)
  have "0 \<le> mq_reserved (ch_queues c s2c)" "?W \<longrightarrow> 0 < mq_reserved (ch_queues c s2c)" "mq_count (ch_queues c s2c) + mq_reserved (ch_queues c s2c) \<le> 14"
    using inv by (cases s2c; simp add: chan_inv_def writing_in_reserved_def mq_inv_def add_pos_nonneg)+
  then have "mq_count (ch_queues c s2c) < 14" using room by (auto split: if_splits)
  note put = mq_put [OF q this, of "the_obj flags b"]
  let ?c = "send_store cr s2c flags b c"
  show l: "mq_list (ch_queues ?c s2c) = mq_list (ch_queues c s2c) @ [the_obj flags b]" "mq_list (ch_queues ?c (\<not> s2c)) = mq_list (ch_queues c (\<not> s2c))"
    using put(2) by (auto simp: send_store_def Let_def upd_queue_def reserve_slot_def)
  have aw: "awaiting (ch_queues ?c False) = awaiting (ch_queues c False) + (if \<not> s2c \<and> flags AND MSG_EXPECT_REPLY \<noteq> 0 then 1 else 0)"
    using l expects_flags [of flags b] by (cases s2c) (auto simp: awaiting_def)
  show "chan_inv cr ?c"
  proof (cases s2c)
    case True
    then show ?thesis using inv put room aw unfolding chan_inv_def
      by (cases ?W) (auto simp: send_store_def Let_def upd_queue_def reserve_slot_def writing_in_reserved_def)
  next
    case False
    then have nw: "\<not> ?W" by (simp add: writing_in_reserved_def)
    have rs: "?R \<longleftrightarrow> cr \<and> flags AND MSG_EXPECT_REPLY \<noteq> 0" using False by (simp add: reserve_slot_def)
    have "ch_queues ?c False = msg_queue_put (the_obj flags b) (ch_queues c False)"
      "ch_queues ?c True = (ch_queues c True)\<lparr> mq_reserved := mq_reserved (ch_queues c True) + (if ?R then 1 else 0) \<rparr>"
      "ch_server_unanswered ?c = ch_server_unanswered c"
      using False nw by (simp_all add: send_store_def Let_def upd_queue_def)
    then show ?thesis using inv put rr aw rs False by (auto simp: chan_inv_def)
  qed
qed

text \<open>Reading the message in front.\<close>

definition receive_store :: "bool \<Rightarrow> bool \<Rightarrow> msg_channel_t \<Rightarrow> msg_channel_t" where
  "receive_store cr server c =
     upd_queue (\<not> server) msg_queue_take
       (if server \<and> cr \<and> expects (msg_queue_front (ch_queues c (\<not> server))) then c\<lparr> ch_server_unanswered := ch_server_unanswered c + 1 \<rparr> else c)"

lemma receive_store_inv:
  assumes inv: "chan_inv cr c" and ne: "mq_count (ch_queues c (\<not> server)) \<noteq> 0"
  shows "chan_inv cr (receive_store cr server c)"
    "mq_list (ch_queues c (\<not> server)) = msg_queue_front (ch_queues c (\<not> server)) # mq_list (ch_queues (receive_store cr server c) (\<not> server))"
    "mq_list (ch_queues (receive_store cr server c) server) = mq_list (ch_queues c server)"
proof -
  have q: "mq_inv (ch_queues c (\<not> server))" using inv by (cases server) (simp_all add: chan_inv_def)
  note tk = mq_take [OF q ne]
  let ?c = "receive_store cr server c"
  have qs: "ch_queues ?c (\<not> server) = msg_queue_take (ch_queues c (\<not> server))" "ch_queues ?c server = ch_queues c server"
    by (auto simp: receive_store_def upd_queue_def)
  show "mq_list (ch_queues c (\<not> server)) = msg_queue_front (ch_queues c (\<not> server)) # mq_list (ch_queues ?c (\<not> server))"
    "mq_list (ch_queues ?c server) = mq_list (ch_queues c server)" using tk(2) qs by simp_all
  have un: "ch_server_unanswered ?c = ch_server_unanswered c + (if server \<and> cr \<and> expects (msg_queue_front (ch_queues c (\<not> server))) then 1 else 0)"
    by (cases server) (simp_all add: receive_store_def upd_queue_def)
  show "chan_inv cr ?c"
  proof (cases server)
    case True
    then have "awaiting (ch_queues c False) = (if expects (msg_queue_front (ch_queues c False)) then 1 else 0) + awaiting (msg_queue_take (ch_queues c False))"
      using tk(2) by (simp add: awaiting_def)
    then show ?thesis using inv tk qs un True by (auto simp: chan_inv_def)
  next
    case False
    then show ?thesis using inv tk qs un by (auto simp: chan_inv_def)
  qed
qed

lemma new_channel_inv: "chan_inv cr (new_channel uid p cu t tu)"
  by (simp add: chan_inv_def new_channel_def empty_queue_def mq_inv_def awaiting_def mq_list_def)

section \<open>Invariant of the ports\<close>

definition live_channel :: "'a msg_t_scheme \<Rightarrow> u32 \<Rightarrow> nat \<Rightarrow> u32 \<Rightarrow> bool" where
  "live_channel s p i c \<longleftrightarrow> p \<in> set (ports s) \<and> i < po_channel_count (msg_ports s p) \<and> po_channels (msg_ports s p) ! i = c \<and> c \<noteq> 0"

definition msg_inv :: "'a msg_t_scheme \<Rightarrow> bool" where
  "msg_inv s \<longleftrightarrow> (\<forall>p i c. live_channel s p i c \<longrightarrow> chan_inv (po_client_reserves (msg_ports s p)) (msg_channels s c))
     \<and> (\<forall>p i q j c. live_channel s p i c \<and> live_channel s q j c \<longrightarrow> p = q)"

abbreviation queued :: "u32 \<Rightarrow> bool \<Rightarrow> 'a msg_t_scheme \<Rightarrow> msg_obj_t list" where
  "queued c dir s \<equiv> mq_list (ch_queues (msg_channels s c) dir)"

lemma same_live: "same_msg s s' \<Longrightarrow> live_channel s' = live_channel s"
  by (simp add: fun_eq_iff live_channel_def same_msg_def)

lemma same_queued: "same_msg s s' \<Longrightarrow> queued c dir s' = queued c dir s"
  using core_fields(1) [of "msg_channels s' c" "msg_channels s c"] by (simp add: same_msg_def)

lemma same_inv: "same_msg s s' \<Longrightarrow> msg_inv s \<Longrightarrow> msg_inv s'"
  using chan_inv_core [of "msg_channels s' _" "msg_channels s _"] by (auto simp: msg_inv_def same_live) (auto simp: same_msg_def)

text \<open>Changing one live channel.\<close>

lemma upd_channel_inv:
  assumes "msg_inv s" "live_channel s p i c" "chan_inv (po_client_reserves (msg_ports s p)) (f (msg_channels s c))"
  shows "msg_inv (upd_channel c f s)"
proof -
  have l: "live_channel (upd_channel c f s) = live_channel s" by (simp add: fun_eq_iff live_channel_def upd_channel_def)
  have "chan_inv (po_client_reserves (msg_ports s q)) (msg_channels (upd_channel c f s) x)" if "live_channel s q j x" for q j x
  proof (cases "x = c")
    case True
    then have "q = p" using assms(1,2) that unfolding msg_inv_def by blast
    then show ?thesis using True assms(3) by (simp add: upd_channel_def)
  next
    case False
    then show ?thesis using assms(1) that by (auto simp: upd_channel_def msg_inv_def)
  qed
  then show ?thesis using assms(1) by (simp add: msg_inv_def l) (simp add: upd_channel_def)
qed

lemma find_channel_live:
  assumes "find_port_by_uid pu s = Some p" "find_channel p cu s = Some i"
  shows "live_channel s p i (po_channels (msg_ports s p) ! i)"
  using assms by (auto simp: find_port_by_uid_def find_channel_def Let_def live_channel_def find_Some_iff)

section \<open>Sending\<close>

text \<open>The channel, and the direction, that a task names.\<close>

definition channel_of :: "u32 \<Rightarrow> u32 \<Rightarrow> 'a msg_t_scheme \<Rightarrow> u32" where
  "channel_of port_uid channel_uid s = (case lookup_channel port_uid channel_uid s of None \<Rightarrow> 0 | Some (p, i, c) \<Rightarrow> c)"

lemma port_send_effect:
  assumes "port_send gui regs t pu cu m flags s = Some (Inr u, regs', s')" "gui_ok gui"
  shows "\<exists>p i b r. live_channel s p i (channel_of pu cu s) \<and> load_bytes (current_page_dir s) (sm_buffer m) (nat (sm_size m)) s = Some b
    \<and> send_check (po_client_reserves (msg_ports s p)) (is_server t (msg_channels s (channel_of pu cu s)) s) flags (msg_channels s (channel_of pu cu s)) s = Inr r
    \<and> same_msg (upd_channel (channel_of pu cu s) (send_store (po_client_reserves (msg_ports s p)) (is_server t (msg_channels s (channel_of pu cu s)) s) flags b) s) s'"
proof -
  obtain p where p: "find_port_by_uid pu s = Some p" using assms(1) by (auto simp: port_send_def split: if_splits option.splits)
  then obtain i where i: "find_channel p cu s = Some i" using assms(1) by (auto simp: port_send_def split: if_splits option.splits)
  define c where "c = po_channels (msg_ports s p) ! i"
  have c: "channel_of pu cu s = c" using p i by (simp add: channel_of_def lookup_channel_def c_def)
  let ?cr = "po_client_reserves (msg_ports s p)" and ?d = "is_server t (msg_channels s c) s"
  obtain r where ck: "send_check ?cr ?d flags (msg_channels s c) s = Inr r"
    using assms(1) p i by (auto simp: port_send_def Let_def c_def split: if_splits sum.splits)
  obtain b where b: "load_bytes (current_page_dir s) (sm_buffer m) (nat (sm_size m)) s = Some b"
    using assms(1) p i ck by (auto simp: port_send_def Let_def c_def bind_eq_Some_conv split: if_splits)
  define s1 where "s1 = upd_channel c (send_store ?cr ?d flags b) s"
  obtain st rr s2 where f: "call_msg_func gui (Some regs) r pu cu (end_flags (\<not> ?d) (msg_channels s1 c)) s1 = Some (st, rr, s2)"
    "s' = notified r c (\<not> ?d) st s2"
    using assms(1) p i ck b by (auto simp: port_send_def Let_def c_def s1_def bind_eq_Some_conv split: if_splits)
  have "same_msg s1 s'" using same_msg_trans [OF same.call_func [OF assms(2) f(1)] same.notified] f(2) by simp
  then show ?thesis unfolding c using find_channel_live [OF p i] ck b
    by (intro exI [of _ p] exI [of _ i] exI [of _ b] exI [of _ r]) (simp add: s1_def c_def)
qed

text \<open>A send that is refused changes nothing.\<close>

lemma port_send_refused:
  assumes "port_send gui regs t pu cu m flags s = Some (Inl e, regs', s')"
  shows "s' = s \<and> regs' = regs"
  using assms by (auto simp: port_send_def Let_def bind_eq_Some_conv split: if_splits option.splits sum.splits)

section \<open>Receiving\<close>

lemma same_unblock: "\<exists>f. (\<forall>x. ch_queues (f x) = ch_queues x \<and> ch_server_unanswered (f x) = ch_server_unanswered x) \<and> same_msg (upd_channel c f s) (unblock server c s)"
proof -
  have r: "same_msg s (if b then task_resume t s else s)" for b t s by (auto intro: same_more)
  have u: "same_msg (upd_channel c f s) (upd_channel c f s1)" if "same_msg s s1" "msg_channels s1 = msg_channels s" for f s1
    using that by (simp add: same_msg_def upd_channel_def)
  have m: "msg_channels (if b then task_resume t s else s) = msg_channels s" for b t using more_msg [of "task_resume t s" s] by auto
  consider (client) "server" "ch_client_blocked (msg_channels s c)" | (server) "\<not> server" "ch_server_blocked (msg_channels s c)"
    | (none) "unblock server c s = s" unfolding unblock_def Let_def by argo
  then show ?thesis
  proof cases
    case client
    then show ?thesis by (intro exI [of _ "\<lambda>y. y\<lparr> ch_client_blocked := False \<rparr>"]) (simp add: unblock_def Let_def u [OF r m])
  next
    case server
    then show ?thesis by (intro exI [of _ "\<lambda>y. y\<lparr> ch_server_blocked := False \<rparr>"]) (simp add: unblock_def Let_def u [OF r m])
  next
    case none
    have "upd_channel c (\<lambda>x. x) s = s" by (simp add: upd_channel_def)
    then show ?thesis using none by (intro exI [of _ "\<lambda>x. x"]) simp
  qed
qed

lemma upd_channel_twice: "upd_channel c g (upd_channel c f s) = upd_channel c (\<lambda>x. g (f x)) s"
  by (simp add: upd_channel_def)

lemma same_upd_queues:
  assumes "same_msg s s1" "msg_channels s1 = msg_channels s"
  shows "same_msg (upd_channel c f s) (upd_channel c f s1)"
  using assms by (simp add: same_msg_def upd_channel_def)

text \<open>The changes of the channel that \<open>port_receive\<close> makes, up to its flags.\<close>

lemma port_receive_effect:
  assumes "port_receive t pu cu buffer sz s = Some (Inr (n, cf, mf), s')" "n \<noteq> 0 \<or> mq_count (ch_queues (msg_channels s (channel_of pu cu s)) (\<not> is_server t (msg_channels s (channel_of pu cu s)) s)) \<noteq> 0"
  defines "c \<equiv> channel_of pu cu s"
  defines "server \<equiv> is_server t (msg_channels s c) s"
  shows "\<exists>p i y. live_channel s p i c \<and> mq_count (ch_queues (msg_channels s c) (\<not> server)) \<noteq> 0
    \<and> ch_queues y = ch_queues (receive_store (po_client_reserves (msg_ports s p)) server (msg_channels s c))
    \<and> ch_server_unanswered y = ch_server_unanswered (receive_store (po_client_reserves (msg_ports s p)) server (msg_channels s c))
    \<and> same_msg (upd_channel c (\<lambda>_. y) s) s' \<and> n = length (mo_data (msg_queue_front (ch_queues (msg_channels s c) (\<not> server))))"
proof -
  obtain p where p: "find_port_by_uid pu s = Some p" using assms(1) by (auto simp: port_receive_def split: option.splits)
  then obtain i where i: "find_channel p cu s = Some i" using assms(1) by (auto simp: port_receive_def split: option.splits)
  have c: "po_channels (msg_ports s p) ! i = c" using p i by (simp add: channel_of_def lookup_channel_def c_def)
  define x where "x = msg_channels s c"
  define m where "m = msg_queue_front (ch_queues x (\<not> server))"
  have ne: "mq_count (ch_queues x (\<not> server)) \<noteq> 0" using assms(1,2) p i c unfolding port_receive_def
    by (auto simp: Let_def x_def server_def c_def [symmetric] split: if_splits)
  let ?cr = "po_client_reserves (msg_ports s p)"
  obtain s1 where s1: "store_bytes (current_page_dir s) buffer (mo_data m) s = Some s1" "n = length (mo_data m)"
    "s' = clear_flags server c (unblock server c (upd_channel c (\<lambda>y. upd_queue (\<not> server) msg_queue_take
            (if server \<and> ?cr \<and> expects m then y\<lparr> ch_server_unanswered := ch_server_unanswered y + 1 \<rparr> else y)) s1))"
    using assms(1) p i c ne unfolding port_receive_def
    by (auto simp: Let_def x_def server_def m_def expects_def bind_eq_Some_conv split: if_splits)
  define f where "f = (\<lambda>y. upd_queue (\<not> server) msg_queue_take (if server \<and> ?cr \<and> expects m then y\<lparr> ch_server_unanswered := ch_server_unanswered y + 1 \<rparr> else y))"
  obtain g where g: "\<forall>z. ch_queues (g z) = ch_queues z \<and> ch_server_unanswered (g z) = ch_server_unanswered z"
    "same_msg (upd_channel c g (upd_channel c f s1)) (unblock server c (upd_channel c f s1))" using same_unblock by blast
  have "same_msg z (clear_flags server c z)" for z unfolding clear_flags_def by (rule same_msg_upd) (simp add: core_def)
  then have "same_msg (upd_channel c (\<lambda>z. g (f z)) s1) s'" using s1(3) same_msg_trans [OF g(2)] unfolding f_def [symmetric] upd_channel_twice by blast
  moreover have "same_msg (upd_channel c (\<lambda>z. g (f z)) s) (upd_channel c (\<lambda>z. g (f z)) s1)"
    using same_upd_queues more_msg [OF more_store [OF s1(1)]] by blast
  moreover have "upd_channel c (\<lambda>z. g (f z)) s = upd_channel c (\<lambda>_. g (f x)) s" by (simp add: upd_channel_def x_def)
  ultimately have "same_msg (upd_channel c (\<lambda>_. g (f x)) s) s'" using same_msg_trans by fastforce
  moreover have "f x = receive_store ?cr server x" by (simp add: f_def receive_store_def m_def)
  ultimately show ?thesis using find_channel_live [OF p i] c ne s1(2) g(1) unfolding x_def m_def
    by (intro exI [of _ p] exI [of _ i] exI [of _ "g (f (msg_channels s c))"]) (simp add: x_def)
qed

lemma port_receive_empty:
  assumes "port_receive t pu cu buffer sz s = Some (r, s')"
    and "\<not> isl r \<Longrightarrow> mq_count (ch_queues (msg_channels s (channel_of pu cu s)) (\<not> is_server t (msg_channels s (channel_of pu cu s)) s)) = 0"
  shows "same_msg s s'"
proof -
  have cl: "same_msg z (clear_flags b c z)" for z b c unfolding clear_flags_def by (rule same_msg_upd) (simp add: core_def)
  show ?thesis
  proof (cases "s' = s")
    case False
    then obtain p i where p: "find_port_by_uid pu s = Some p" "find_channel p cu s = Some i" "\<not> isl r"
      using assms(1) by (auto simp: port_receive_def Let_def bind_eq_Some_conv split: option.splits if_splits)
    then have "channel_of pu cu s = po_channels (msg_ports s p) ! i" by (simp add: channel_of_def lookup_channel_def)
    then show ?thesis using assms p cl by (auto simp: port_receive_def Let_def split: if_splits)
  qed simp
qed

section \<open>Runs\<close>

datatype msg_op =
  Op_send registers_t nat u32 u32 msg_send_t u32
| Op_receive nat u32 u32 u32 u32
| Op_wait nat u32 u32

datatype msg_log = Sent u32 bool msg_obj_t | Received u32 bool msg_obj_t

text \<open>
  An operation by any task, with what it sent or received: the channel, the direction and the message. The message sent is what
  the buffer of the sender holds, and the one received is the one whose bytes are stored in the buffer of the receiver.
\<close>

definition msg_step :: "'a msg_t_scheme gui_t \<Rightarrow> msg_op \<Rightarrow> 'a msg_t_scheme \<Rightarrow> (msg_log list \<times> 'a msg_t_scheme) option" where
  "msg_step gui op s =
     (case op of
        Op_send regs t pu cu m flags \<Rightarrow>
          do { (r, regs', s') \<leftarrow> port_send gui regs t pu cu m flags s;
               Some (case r of Inl e \<Rightarrow> []
                     | Inr _ \<Rightarrow> [Sent (channel_of pu cu s) (is_server t (msg_channels s (channel_of pu cu s)) s)
                                  (the_obj flags (the (load_bytes (current_page_dir s) (sm_buffer m) (nat (sm_size m)) s)))], s') }
      | Op_receive t pu cu buffer sz \<Rightarrow>
          do { (r, s') \<leftarrow> port_receive t pu cu buffer sz s;
               let c = channel_of pu cu s; let dir = (\<not> is_server t (msg_channels s c) s); let q = ch_queues (msg_channels s c) dir;
               Some (if isl r \<or> mq_count q = 0 then [] else [Received c dir (msg_queue_front q)], s') }
      | Op_wait t pu cu \<Rightarrow> Some ([], snd (msg_wait_on_receive t pu cu s)))"

fun msg_run :: "'a msg_t_scheme gui_t \<Rightarrow> msg_op list \<Rightarrow> 'a msg_t_scheme \<Rightarrow> (msg_log list \<times> 'a msg_t_scheme) option" where
  "msg_run gui [] s = Some ([], s)"
| "msg_run gui (op # ops) s = do { (l, s1) \<leftarrow> msg_step gui op s; (ls, s2) \<leftarrow> msg_run gui ops s1; Some (l @ ls, s2) }"

definition sent :: "u32 \<Rightarrow> bool \<Rightarrow> msg_log list \<Rightarrow> msg_obj_t list" where
  "sent c dir log = concat (map (\<lambda>l. case l of Sent x d m \<Rightarrow> if x = c \<and> d = dir then [m] else [] | _ \<Rightarrow> []) log)"

definition received :: "u32 \<Rightarrow> bool \<Rightarrow> msg_log list \<Rightarrow> msg_obj_t list" where
  "received c dir log = concat (map (\<lambda>l. case l of Received x d m \<Rightarrow> if x = c \<and> d = dir then [m] else [] | _ \<Rightarrow> []) log)"

lemma log_append: "sent c d (xs @ ys) = sent c d xs @ sent c d ys" "received c d (xs @ ys) = received c d xs @ received c d ys"
  by (simp_all add: sent_def received_def)

lemma queued_upd: "queued x d (upd_channel c f s) = (if x = c then mq_list (ch_queues (f (msg_channels s c)) d) else queued x d s)"
  by (simp add: upd_channel_def)

lemma live_upd: "live_channel (upd_channel c f s) = live_channel s" "msg_ports (upd_channel c f s) = msg_ports s"
  by (simp_all add: fun_eq_iff live_channel_def upd_channel_def)

definition step_ok :: "msg_log list \<Rightarrow> 'a msg_t_scheme \<Rightarrow> 'a msg_t_scheme \<Rightarrow> bool" where
  "step_ok log s s' \<longleftrightarrow> msg_inv s' \<and> live_channel s' = live_channel s \<and> msg_ports s' = msg_ports s
     \<and> (\<forall>x d. received x d log @ queued x d s' = queued x d s @ sent x d log)"

lemma step_ok_same: "msg_inv s \<Longrightarrow> same_msg s s' \<Longrightarrow> step_ok [] s s'"
  using same_inv [of s s'] same_live [of s s'] same_queued [of s s'] by (simp add: step_ok_def sent_def received_def same_msg_def)

lemma step_ok_trans: "step_ok l s s1 \<Longrightarrow> step_ok l' s1 s2 \<Longrightarrow> step_ok (l @ l') s s2"
proof -
  assume a: "step_ok l s s1" "step_ok l' s1 s2"
  have "received x d (l @ l') @ queued x d s2 = queued x d s @ sent x d (l @ l')" for x d
  proof -
    have "received x d l @ received x d l' @ queued x d s2 = received x d l @ queued x d s1 @ sent x d l'" using a(2) by (simp add: step_ok_def)
    also have "\<dots> = queued x d s @ sent x d l @ sent x d l'" using a(1) by (simp add: step_ok_def flip: append_assoc)
    finally show ?thesis by (simp add: log_append)
  qed
  then show ?thesis using a by (simp add: step_ok_def)
qed

lemma send_step:
  assumes "msg_inv s" "gui_ok gui" "port_send gui regs t pu cu m flags s = Some (Inr u, regs', s')"
  shows "step_ok [Sent (channel_of pu cu s) (is_server t (msg_channels s (channel_of pu cu s)) s)
      (the_obj flags (the (load_bytes (current_page_dir s) (sm_buffer m) (nat (sm_size m)) s)))] s s'"
proof -
  define c where "c = channel_of pu cu s"
  define dir where "dir = is_server t (msg_channels s c) s"
  obtain p i b r where e: "live_channel s p i c" "load_bytes (current_page_dir s) (sm_buffer m) (nat (sm_size m)) s = Some b"
    "send_check (po_client_reserves (msg_ports s p)) dir flags (msg_channels s c) s = Inr r"
    "same_msg (upd_channel c (send_store (po_client_reserves (msg_ports s p)) dir flags b) s) s'"
    using port_send_effect [OF assms(3,2)] unfolding c_def dir_def by blast
  let ?f = "send_store (po_client_reserves (msg_ports s p)) dir flags b"
  have ci: "chan_inv (po_client_reserves (msg_ports s p)) (msg_channels s c)" using assms(1) e(1) by (auto simp: msg_inv_def)
  note st = send_store_inv [OF ci e(3), of b]
  have q: "queued x d s' = queued x d s @ sent x d [Sent c dir (the_obj flags b)]" for x d
  proof -
    have "queued x d s' = queued x d (upd_channel c ?f s)" by (rule same_queued [OF e(4)])
    also have "\<dots> = queued x d s @ sent x d [Sent c dir (the_obj flags b)]"
      unfolding queued_upd using st(2,3) by (cases "d = dir") (auto simp: sent_def)
    finally show ?thesis .
  qed
  have "msg_inv s'" using same_inv [OF e(4) upd_channel_inv [OF assms(1) e(1), of ?f, OF st(1)]] .
  moreover have "live_channel s' = live_channel s" "msg_ports s' = msg_ports s" using same_live [OF e(4)] e(4) by (simp_all add: live_upd same_msg_def)
  ultimately show ?thesis using q e(2) unfolding step_ok_def c_def [symmetric] dir_def [symmetric] by (simp add: received_def)
qed

lemma receive_step:
  assumes "msg_inv s" "port_receive t pu cu buffer sz s = Some (r, s')"
  defines "c \<equiv> channel_of pu cu s"
  defines "dir \<equiv> \<not> is_server t (msg_channels s c) s"
  shows "step_ok (if isl r \<or> mq_count (ch_queues (msg_channels s c) dir) = 0 then [] else [Received c dir (msg_queue_front (ch_queues (msg_channels s c) dir))]) s s'"
proof (cases "isl r \<or> mq_count (ch_queues (msg_channels s c) dir) = 0")
  case True
  then have "same_msg s s'" using port_receive_empty [OF assms(2)] unfolding c_def dir_def by blast
  then show ?thesis using True step_ok_same [OF assms(1)] by simp
next
  case False
  then obtain n cf mf where r: "r = Inr (n, cf, mf)" by (cases r) auto
  define server where "server = is_server t (msg_channels s c) s"
  have d: "dir = (\<not> server)" by (simp add: dir_def server_def)
  obtain p i y where e: "live_channel s p i c" "mq_count (ch_queues (msg_channels s c) dir) \<noteq> 0"
    "ch_queues y = ch_queues (receive_store (po_client_reserves (msg_ports s p)) server (msg_channels s c))"
    "ch_server_unanswered y = ch_server_unanswered (receive_store (po_client_reserves (msg_ports s p)) server (msg_channels s c))"
    "same_msg (upd_channel c (\<lambda>_. y) s) s'"
    using port_receive_effect [OF assms(2) [unfolded r]] False unfolding c_def [symmetric] dir_def server_def by blast
  have ci: "chan_inv (po_client_reserves (msg_ports s p)) (msg_channels s c)" using assms(1) e(1) by (auto simp: msg_inv_def)
  note st = receive_store_inv [OF ci e(2) [unfolded d]]
  have y: "chan_inv (po_client_reserves (msg_ports s p)) y" using st(1) e(3,4) by (simp add: chan_inv_def)
  let ?m = "msg_queue_front (ch_queues (msg_channels s c) dir)"
  have q: "received x d [Received c dir ?m] @ queued x d s' = queued x d s" for x d
  proof -
    have "queued x d s' = queued x d (upd_channel c (\<lambda>_. y) s)" by (rule same_queued [OF e(5)])
    then show ?thesis unfolding queued_upd using st(2,3) e(3) d by (cases "d = dir") (auto simp: received_def)
  qed
  have "msg_inv s'" using same_inv [OF e(5) upd_channel_inv [OF assms(1) e(1), of "\<lambda>_. y", OF y]] .
  moreover have "live_channel s' = live_channel s" "msg_ports s' = msg_ports s" using same_live [OF e(5)] e(5) by (simp_all add: live_upd same_msg_def)
  ultimately show ?thesis using q False unfolding step_ok_def by (simp add: sent_def)
qed

lemma wait_step: "msg_inv s \<Longrightarrow> step_ok [] s (snd (msg_wait_on_receive t pu cu s))"
proof -
  assume inv: "msg_inv s"
  have r: "step_ok [] s (task_pause t PAUSE_MSG_WRITE (upd_channel c f s))"
    if l: "live_channel s p i c" and f: "\<And>x. ch_queues (f x) = ch_queues x" "\<And>x. ch_server_unanswered (f x) = ch_server_unanswered x" for p i c f
  proof -
    have "chan_inv (po_client_reserves (msg_ports s p)) (msg_channels s c)" using inv l by (auto simp: msg_inv_def)
    then have "chan_inv (po_client_reserves (msg_ports s p)) (f (msg_channels s c))" using f by (simp add: chan_inv_def)
    then have "msg_inv (upd_channel c f s)" by (rule upd_channel_inv [OF inv l])
    then have "step_ok [] s (upd_channel c f s)" by (auto simp: step_ok_def live_upd sent_def received_def queued_upd f)
    moreover have "step_ok [] (upd_channel c f s) (task_pause t PAUSE_MSG_WRITE (upd_channel c f s))"
      by (rule step_ok_same [OF \<open>msg_inv (upd_channel c f s)\<close> same_more]) simp
    ultimately show ?thesis using step_ok_trans [of "[]" s _ "[]"] by simp
  qed
  show ?thesis
  proof (cases "snd (msg_wait_on_receive t pu cu s) = s")
    case True
    then show ?thesis using step_ok_same [OF inv, of s] by simp
  next
    case False
    then obtain p i c where l: "lookup_channel pu cu s = Some (p, i, c)" by (auto simp: msg_wait_on_receive_def split: option.splits)
    then have "live_channel s p i c" using find_channel_live by (auto simp: lookup_channel_def bind_eq_Some_conv)
    then show ?thesis using l False r by (auto simp: msg_wait_on_receive_def Let_def split: if_splits)
  qed
qed

lemma msg_step_ok:
  assumes "msg_inv s" "gui_ok gui" "msg_step gui op s = Some (l, s')"
  shows "step_ok l s s'"
proof (cases op)
  case (Op_send regs t pu cu m flags)
  then obtain r regs' where r: "port_send gui regs t pu cu m flags s = Some (r, regs', s')" using assms(3) by (auto simp: msg_step_def bind_eq_Some_conv)
  show ?thesis
  proof (cases r)
    case (Inl e)
    then show ?thesis using assms(1,3) Op_send r port_send_refused [of gui regs t pu cu m flags s e regs' s'] step_ok_same [of s s] by (simp add: msg_step_def)
  next
    case (Inr u)
    then show ?thesis using assms(3) Op_send r send_step [OF assms(1,2)] by (auto simp: msg_step_def)
  qed
next
  case (Op_receive t pu cu buffer sz)
  then obtain r where r: "port_receive t pu cu buffer sz s = Some (r, s')" using assms(3) by (auto simp: msg_step_def bind_eq_Some_conv Let_def)
  show ?thesis using assms(3) Op_receive r receive_step [OF assms(1) r] by (simp add: msg_step_def Let_def)
next
  case (Op_wait t pu cu)
  then show ?thesis using assms(3) wait_step [OF assms(1)] by (auto simp: msg_step_def)
qed

lemma msg_run_ok: "msg_inv s \<Longrightarrow> gui_ok gui \<Longrightarrow> msg_run gui ops s = Some (l, s') \<Longrightarrow> step_ok l s s'"
proof (induction ops arbitrary: l s)
  case Nil
  then show ?case using step_ok_same [of s s] by simp
next
  case (Cons op ops)
  then obtain l1 s1 l2 where r: "msg_step gui op s = Some (l1, s1)" "msg_run gui ops s1 = Some (l2, s')" "l = l1 @ l2" by (auto simp: bind_eq_Some_conv)
  note a = msg_step_ok [OF Cons.prems(1,2) r(1)]
  then have "msg_inv s1" by (simp add: step_ok_def)
  from step_ok_trans [OF a Cons.IH [OF this Cons.prems(2) r(2)]] show ?case using r(3) by simp
qed


text \<open>
  C25: a reply always finds room. After any such sequence, when the server has read a request for which the client reserved
  and has not answered it, a send of the server marked as a reply is not refused because the queue is full: it is
  refused only if one end has disconnected or its task is gone, if the message is malformed or the channel is not its own,
  and otherwise the reply is queued, one request less is unanswered, and the slots reserved are those of the other requests.
\<close>

theorem reply_has_room:
  fixes s :: "'a msg_t_scheme"
  assumes "msg_inv s" and "gui_ok gui" and "msg_run gui ops s = Some (log, s1)"
    and "port_send gui regs t pu cu m flags s1 = Some (r, regs', s')"
  defines "c \<equiv> channel_of pu cu s1"
  assumes "is_server t (msg_channels s1 c) s1" and "flags AND MSG_REPLY \<noteq> 0" and "0 < ch_server_unanswered (msg_channels s1 c)" and "lookup_channel pu cu s1 \<noteq> None"
  shows "r \<noteq> Inl MSG_ERR_QUEUE_FULL \<and> r \<noteq> Inl MSG_ERR_RECEIVE_QUEUE_FULL
    \<and> (r = Inr () \<longrightarrow> ch_server_unanswered (msg_channels s' c) = ch_server_unanswered (msg_channels s1 c) - 1
         \<and> mq_reserved (ch_queues (msg_channels s' c) True) = ch_server_unanswered (msg_channels s' c) + awaiting (ch_queues (msg_channels s' c) False))"
proof -
  have inv: "msg_inv s1" using msg_run_ok [OF assms(1-3)] by (simp add: step_ok_def)
  obtain p i where l: "lookup_channel pu cu s1 = Some (p, i, c)" using assms(9) by (auto simp: c_def channel_of_def)
  then have f: "find_port_by_uid pu s1 = Some p" "find_channel p cu s1 = Some i" "po_channels (msg_ports s1 p) ! i = c"
    by (auto simp: lookup_channel_def bind_eq_Some_conv)
  have live: "live_channel s1 p i c" using find_channel_live [OF f(1,2)] f(3) by simp
  let ?cr = "po_client_reserves (msg_ports s1 p)" and ?x = "msg_channels s1 c"
  have ci: "chan_inv ?cr ?x" using inv live by (auto simp: msg_inv_def)
  have cr: ?cr using ci assms(8) by (auto simp: chan_inv_def)
  have w: "writing_in_reserved ?cr True flags ?x" using cr assms(7,8) by (simp add: writing_in_reserved_def)
  have "mq_count (ch_queues ?x True) + mq_reserved (ch_queues ?x True) \<le> 14" using ci by (simp add: chan_inv_def)
  then have "send_check ?cr True flags ?x s1 \<noteq> Inl MSG_ERR_QUEUE_FULL" "send_check ?cr True flags ?x s1 \<noteq> Inl MSG_ERR_RECEIVE_QUEUE_FULL"
    using w by (auto simp: send_check_def Let_def reserve_slot_def split: option.splits)
  then have "r \<noteq> Inl MSG_ERR_QUEUE_FULL" "r \<noteq> Inl MSG_ERR_RECEIVE_QUEUE_FULL"
    using assms(4,6) f by (auto simp: port_send_def Let_def bind_eq_Some_conv split: if_splits sum.splits)
  moreover have "ch_server_unanswered (msg_channels s' c) = ch_server_unanswered ?x - 1
      \<and> mq_reserved (ch_queues (msg_channels s' c) True) = ch_server_unanswered (msg_channels s' c) + awaiting (ch_queues (msg_channels s' c) False)" if ri: "r = Inr ()"
  proof -
    obtain q j b where e: "live_channel s1 q j c" "same_msg (upd_channel c (send_store (po_client_reserves (msg_ports s1 q)) True flags b) s1) s'"
      using port_send_effect [OF assms(4) [unfolded ri] assms(2)] assms(6) unfolding c_def [symmetric] by auto
    have "q = p" using inv live e(1) unfolding msg_inv_def by blast
    then have "core (msg_channels s' c) = core (send_store ?cr True flags b ?x)" using e(2) by (simp add: same_msg_def upd_channel_def)
    note k = core_fields [OF this]
    have "ch_server_unanswered (msg_channels s' c) = ch_server_unanswered ?x - 1"
      unfolding k(2) using w by (simp add: send_store_def Let_def upd_queue_def reserve_slot_def)
    moreover have "chan_inv ?cr (msg_channels s' c)"
      using send_step [OF inv assms(2) assms(4) [unfolded ri]] live unfolding step_ok_def msg_inv_def by metis
    ultimately show ?thesis using cr by (simp add: chan_inv_def)
  qed
  ultimately show ?thesis by blast
qed

section \<open>Two tasks with a channel\<close>

definition no_gui :: "msg_t gui_t" where
  "no_gui = \<lparr> gui_reset_windows = (\<lambda>_ s. s), gui_task_crash = (\<lambda>_ _ s. s) \<rparr>"

definition two_port :: msg_port_t where
  "two_port = \<lparr> po_uid = 5, po_name = [65], po_owner_uid = 0, po_owner_taskid = 1, po_owner_taskuid = 2, po_channels = [0x3000000],
     po_channel_count = 1, po_client_reserves = True, po_waiters = [] \<rparr>"

definition two_tasks :: msg_t where
  "two_tasks = kern_t.extend (mapped_process\<lparr> tasks := (\<lambda>t. if t < 2 then zero_task\<lparr> ts_enabled := True, ts_task_uid := of_nat t + 1 \<rparr> else zero_task) \<rparr>)
     \<lparr> ports = [0x2000000], msg_ports = (\<lambda>_. two_port), msg_channels = (\<lambda>_. new_channel 9 two_port 0 0 1), msg_uid_counter = 6,
       channel_uid_counter = 10, call_uid_counter = 1, ts_msg_func = (\<lambda>_. 0), ts_msg_channels = (\<lambda>_. []), ts_msg_notify_pending = (\<lambda>_. False), pr_ports = (\<lambda>_. []) \<rparr>"

lemma no_gui_ok: "gui_ok no_gui"
  by (simp add: gui_ok_def no_gui_def)

lemma two_tasks_fields [simp]:
  "ports two_tasks = [0x2000000]" "msg_ports two_tasks = (\<lambda>_. two_port)" "msg_channels two_tasks = (\<lambda>_. new_channel 9 two_port 0 0 1)"
  "ts_msg_func two_tasks = (\<lambda>_. 0)" "current_page_dir two_tasks = block_addr 0"
  "tasks two_tasks = (\<lambda>t. if t < 2 then zero_task\<lparr> ts_enabled := True, ts_task_uid := of_nat t + 1 \<rparr> else zero_task)"
  by (simp_all add: two_tasks_def kern_t.defs mapped_process_def boot_kern_def)

lemma two_tasks_inv: "msg_inv two_tasks"
  by (auto simp: msg_inv_def live_channel_def new_channel_inv)

definition hello :: msg_send_t where
  "hello = \<lparr> sm_buffer = 0x8000000, sm_size = 1, sm_handles = 0, sm_handle_count = 0 \<rparr>"

lemma two_tasks_load: "\<exists>b. load_bytes (block_addr 0) 0x8000000 1 two_tasks = Some [b]"
proof -
  have "page_dirs two_tasks = page_dirs mapped_process" "page_tables two_tasks = page_tables mapped_process" by (simp_all add: two_tasks_def kern_t.defs)
  then have "page_checkmapping (block_addr 0) 0x8000000 two_tasks = page_checkmapping (block_addr 0) 0x8000000 mapped_process"
    by (simp add: page_checkmapping_def Let_def)
  then show ?thesis using mapped_process_page(1) [of "0x8000000"] by (simp add: page_no_def)
qed

lemma two_tasks_channel: "channel_of 5 9 two_tasks = 0x3000000"
  by (simp add: channel_of_def lookup_channel_def find_port_by_uid_def find_channel_def two_port_def new_channel_def)

lemma two_tasks_send: "\<exists>regs' s'. port_send no_gui zero_regs 0 5 9 hello 1 two_tasks = Some (Inr (), regs', s')"
proof -
  obtain b where b: "load_bytes (block_addr 0) 0x8000000 1 two_tasks = Some [b]" using two_tasks_load by blast
  have l: "find_port_by_uid 5 two_tasks = Some 0x2000000" "find_channel 0x2000000 9 two_tasks = Some 0"
    by (simp_all add: find_port_by_uid_def find_channel_def two_port_def new_channel_def)
  let ?s = "upd_channel 0x3000000 (send_store True False 1 [b]) two_tasks"
  have "ts_msg_func ?s 1 = 0" by (simp add: upd_channel_def)
  then have "call_msg_func no_gui (Some zero_regs) 1 5 9 f ?s = Some (MSG_NOTIFY_NO_CALLBACK, Some zero_regs, task_wake 1 ?s)" for f
    by (simp add: call_msg_func_def)
  then show ?thesis using l b
    by (simp add: port_send_def hello_def Let_def may_access_def is_server_def send_check_def new_channel_def two_port_def empty_queue_def
        writing_in_reserved_def reserve_slot_def msg_get_task_def zero_task_def)
qed


text \<open>The server has read one request and owes a reply.\<close>

definition owing :: msg_t where
  "owing = two_tasks\<lparr> msg_channels := (\<lambda>_. (new_channel 9 two_port 0 0 1)\<lparr> ch_server_unanswered := 1,
     ch_queues := (\<lambda>d. if d then empty_queue\<lparr> mq_reserved := 1 \<rparr> else empty_queue) \<rparr>) \<rparr>"

lemma owing_fields [simp]:
  "ports owing = [0x2000000]" "msg_ports owing = (\<lambda>_. two_port)" "ts_msg_func owing = (\<lambda>_. 0)" "current_page_dir owing = block_addr 0"
  "tasks owing = tasks two_tasks" "msg_channels owing x = (new_channel 9 two_port 0 0 1)\<lparr> ch_server_unanswered := 1,
     ch_queues := (\<lambda>d. if d then empty_queue\<lparr> mq_reserved := 1 \<rparr> else empty_queue) \<rparr>"
  by (simp_all add: owing_def del: two_tasks_fields(6))

lemma owing_inv: "msg_inv owing"
  by (auto simp: msg_inv_def live_channel_def chan_inv_def new_channel_def empty_queue_def mq_inv_def awaiting_def mq_list_def two_port_def)

theorem reply_has_room_witness:
  "\<exists>regs' s'. port_send no_gui zero_regs 1 5 9 hello 4 owing = Some (Inr (), regs', s') \<and> ch_server_unanswered (msg_channels s' 0x3000000) = 0"
proof -
  have "load_bytes (block_addr 0) 0x8000000 1 owing = load_bytes (block_addr 0) 0x8000000 1 two_tasks"
    by (simp add: owing_def page_checkmapping_def user_byte_def page_getphysical_def Let_def)
  then obtain b where b: "load_bytes (block_addr 0) 0x8000000 1 owing = Some [b]" using two_tasks_load by auto
  have l: "find_port_by_uid 5 owing = Some 0x2000000" "find_channel 0x2000000 9 owing = Some 0"
    by (simp_all add: find_port_by_uid_def find_channel_def two_port_def new_channel_def)
  let ?s = "upd_channel 0x3000000 (send_store True True 4 [b]) owing"
  have "call_msg_func no_gui (Some zero_regs) 0 5 9 f ?s = Some (MSG_NOTIFY_NO_CALLBACK, Some zero_regs, task_wake 0 ?s)" for f
    by (simp add: call_msg_func_def upd_channel_def)
  then have "\<exists>regs' s'. port_send no_gui zero_regs 1 5 9 hello 4 owing = Some (Inr (), regs', s')" using l b
    by (simp add: port_send_def hello_def Let_def may_access_def is_server_def send_check_def new_channel_def two_port_def empty_queue_def
        writing_in_reserved_def reserve_slot_def msg_get_task_def zero_task_def)
  then obtain regs' s' where p: "port_send no_gui zero_regs 1 5 9 hello 4 owing = Some (Inr (), regs', s')" by blast
  have c: "lookup_channel 5 9 owing = Some (0x2000000, 0, 0x3000000)" using l by (simp add: lookup_channel_def two_port_def)
  then have c': "channel_of 5 9 owing = 0x3000000" by (simp add: channel_of_def)
  have "is_server 1 (msg_channels owing 0x3000000) owing" by (simp add: is_server_def new_channel_def two_port_def)
  with reply_has_room [OF owing_inv no_gui_ok, of "[]" "[]" owing zero_regs 1 5 9 hello 4 "Inr ()" regs' s'] show ?thesis
    using p c c' by (simp add: new_channel_def)
qed

end
