(* ===== verification/Msgcall.thy ===== *)
theory Msgcall
  imports Msg Handles
begin

text \<open>
  Synchronous calls (\<^verbatim>\<open>src/msg.c\<close>): a client calls a server over a channel and is paused until the reply. The call is
  copied to a server thread that waits in \<open>msg_receive\<close>, or stored in the channel until one comes. The kernel reads
  a \<open>msg_send_t\<close> or \<open>msg_recv_t\<close> through the pointer of the program where the code does; \<open>None\<close> is a page fault
  of the kernel.
\<close>

section \<open>Structures in user memory\<close>

definition bytes_word :: "u8 list \<Rightarrow> u32" where
  "bytes_word bs = foldr (\<lambda>b w. ucast b OR push_bit 8 w) bs 0"

definition load_word :: "u32 \<Rightarrow> 'a kern_t_scheme \<Rightarrow> u32 option" where
  "load_word v s = map_option bytes_word (load_bytes (current_page_dir s) v 4 s)"

definition load_send :: "u32 \<Rightarrow> 'a kern_t_scheme \<Rightarrow> msg_send_t option" where
  "load_send v s =
     do { b \<leftarrow> load_word v s; n \<leftarrow> load_word (v + 4) s; h \<leftarrow> load_word (v + 8) s; k \<leftarrow> load_word (v + 12) s;
          Some \<lparr> sm_buffer = b, sm_size = sint n, sm_handles = h, sm_handle_count = sint k \<rparr> }"

definition load_recv :: "u32 \<Rightarrow> 'a kern_t_scheme \<Rightarrow> msg_recv_t option" where
  "load_recv v s =
     do { b \<leftarrow> load_word v s; n \<leftarrow> load_word (v + 4) s; h \<leftarrow> load_word (v + 8) s; k \<leftarrow> load_word (v + 12) s;
          Some \<lparr> rm_buffer = b, rm_buffer_size = sint n, rm_handles = h, rm_handle_count = sint k \<rparr> }"

definition msg_validate_send :: "u32 \<Rightarrow> 'a kern_t_scheme \<Rightarrow> (msg_err_t + unit) option" where
  "msg_validate_send msg s =
     (let t = nat (current_task s)
      in if \<not> task_validate_mem t msg 16 False s then Some (Inl MSG_ERR_INVALID_MSG)
         else do {
           m \<leftarrow> load_send msg s;
           Some (if \<not> task_validate_mem t (sm_buffer m) (sm_size m) False s then Inl MSG_ERR_INVALID_BUF
                 else if sm_handle_count m > MSG_MAX_HANDLES then Inl MSG_ERR_TOO_MANY_HANDLES
                 else if sm_handle_count m < 0 then Inl MSG_ERR_INVALID_MSG
                 else if \<not> task_validate_mem t (sm_handles m) (4 * sm_handle_count m) False s then Inl MSG_ERR_INVALID_HANDLES
                 else Inr ()) })"

definition msg_validate_recv :: "u32 \<Rightarrow> 'a kern_t_scheme \<Rightarrow> (msg_err_t + unit) option" where
  "msg_validate_recv msg s =
     (let t = nat (current_task s)
      in if \<not> task_validate_mem t msg 36 True s then Some (Inl MSG_ERR_INVALID_MSG)
         else do {
           m \<leftarrow> load_recv msg s;
           Some (if \<not> task_validate_mem t (rm_buffer m) (rm_buffer_size m) True s then Inl MSG_ERR_INVALID_BUF
                 else if rm_handle_count m > MSG_MAX_HANDLES then Inl MSG_ERR_TOO_MANY_HANDLES
                 else if rm_handle_count m < 0 then Inl MSG_ERR_INVALID_MSG
                 else if \<not> task_validate_mem t (rm_handles m) (4 * rm_handle_count m) True s then Inl MSG_ERR_INVALID_HANDLES
                 else Inr ()) })"

section \<open>Waiting servers\<close>

definition add_waiter_slot :: "nat \<Rightarrow> msg_port_t \<Rightarrow> 'a msg_t_scheme \<Rightarrow> nat option" where
  "add_waiter_slot t p s =
     (let w = (\<lambda>i. po_waiters p ! i)
      in case List.find (\<lambda>i. wt_active (w i) \<and> wt_task_uid (w i) = ts_task_uid (tasks s t)) [0..<MAX_TASK_THREADS] of
           Some i \<Rightarrow> Some i
         | None \<Rightarrow> List.find (\<lambda>i. \<not> wt_active (w i) \<or> msg_get_task (wt_task_id (w i)) (wt_task_uid (w i)) s = None) [0..<MAX_TASK_THREADS])"

definition msg_add_waiter :: "u32 \<Rightarrow> nat \<Rightarrow> msg_recv_t \<Rightarrow> u32 \<Rightarrow> 'a msg_t_scheme \<Rightarrow> bool \<times> 'a msg_t_scheme" where
  "msg_add_waiter port t r user s =
     (case add_waiter_slot t (msg_ports s port) s of
        None \<Rightarrow> (False, s)
      | Some i \<Rightarrow> (True, upd_port port (\<lambda>p. p\<lparr> po_waiters := (po_waiters p)[i := \<lparr> wt_active = True, wt_task_id = int t,
            wt_task_uid = ts_task_uid (tasks s t), wt_recv_msg = r, wt_recv_msg_user = user \<rparr>] \<rparr>) s))"

text \<open>The first waiter that still waits; the ones before it are stale and are dropped.\<close>

definition drop_waiter :: "u32 \<Rightarrow> nat \<Rightarrow> 'a msg_t_scheme \<Rightarrow> 'a msg_t_scheme" where
  "drop_waiter port i = upd_port port (\<lambda>p. p\<lparr> po_waiters := (po_waiters p)[i := (po_waiters p ! i)\<lparr> wt_active := False \<rparr>] \<rparr>)"

fun find_waiter :: "u32 \<Rightarrow> nat list \<Rightarrow> 'a msg_t_scheme \<Rightarrow> nat option \<times> 'a msg_t_scheme" where
  "find_waiter port [] s = (None, s)"
| "find_waiter port (i # is) s =
     (let w = po_waiters (msg_ports s port) ! i
      in if \<not> wt_active w then find_waiter port is s
         else case msg_get_task (wt_task_id w) (wt_task_uid w) s of
                None \<Rightarrow> find_waiter port is (drop_waiter port i s)
              | Some t \<Rightarrow> if \<not> ts_paused (tasks s t) \<or> ts_pause_reason (tasks s t) \<noteq> PAUSE_MSG_RECEIVE
                          then find_waiter port is (drop_waiter port i s) else (Some i, s))"

definition msg_find_waiter :: "u32 \<Rightarrow> 'a msg_t_scheme \<Rightarrow> nat option \<times> 'a msg_t_scheme" where
  "msg_find_waiter port s = find_waiter port [0..<MAX_TASK_THREADS] s"

section \<open>Copying a message\<close>

record msg_copy_receipt_t =
  rc_bytes :: int
  rc_handles :: int
  rc_sender_status :: "msg_err_t option"
  rc_receiver_status :: "msg_err_t option"

definition msg_free_handles :: "u32 \<Rightarrow> int list \<Rightarrow> 'a kern_t_scheme \<Rightarrow> 'a kern_t_scheme" where
  "msg_free_handles process hs s = fold (\<lambda>h s. snd (process_release_kobj process h s)) hs s"

definition msg_copy_from_sender :: "nat \<Rightarrow> u32 \<Rightarrow> int \<Rightarrow> 'a kern_t_scheme \<Rightarrow> (int \<times> u8 list) option" where
  "msg_copy_from_sender send_task src sz s =
     (if int send_task = current_task s
      then if sz < 0 then None else map_option (Pair sz) (load_bytes (current_page_dir s) src (nat sz) s)
      else if sz < 0 then Some (- 1, []) else copy_from_task (int send_task) src (nat sz) s)"

definition to_task :: "nat \<Rightarrow> u32 \<Rightarrow> u8 list \<Rightarrow> int \<Rightarrow> 'a kern_t_scheme \<Rightarrow> (int \<times> 'a kern_t_scheme) option" where
  "to_task t dest bytes sz s = (if sz < 0 then Some (- 1, s) else copy_to_task (int t) dest bytes s)"

text \<open>The fields of the receiver's \<open>msg_recv_t\<close> that the kernel fills in, from offset 16 on.\<close>

definition msg_write_receipt :: "nat \<Rightarrow> u32 \<Rightarrow> msg_send_t \<Rightarrow> msg_copy_receipt_t \<Rightarrow> u32 \<Rightarrow> 'a kern_t_scheme \<Rightarrow> (bool \<times> 'a kern_t_scheme) option" where
  "msg_write_receipt t user m r call_uid s =
     do { (n, s1) \<leftarrow> copy_to_task (int t) (user + 16)
            (concat (map word_bytes [of_int (rc_bytes r), of_int (sm_size m), of_int (sm_handle_count m), of_int (rc_handles r), call_uid])) s;
          Some (n = 20, s1) }"

fun copy_handles :: "u32 \<Rightarrow> u32 \<Rightarrow> int list \<Rightarrow> int list \<Rightarrow> 'a kern_t_scheme \<Rightarrow> (int + int list) \<times> 'a kern_t_scheme" where
  "copy_handles sender receiver [] hs s = (Inr hs, s)"
| "copy_handles sender receiver (h # rest) hs s =
     (let (h1, s1) = process_copy_kobj sender receiver h s
      in if h1 < 0 then (Inl h1, msg_free_handles receiver hs s1) else copy_handles sender receiver rest (hs @ [h1]) s1)"

fun words_of_bytes :: "nat \<Rightarrow> u8 list \<Rightarrow> int list" where
  "words_of_bytes 0 bs = []"
| "words_of_bytes (Suc n) bs = sint (bytes_word (take 4 bs)) # words_of_bytes n (drop 4 bs)"

definition failed :: "msg_err_t option \<Rightarrow> msg_err_t \<Rightarrow> msg_copy_receipt_t \<Rightarrow> msg_copy_receipt_t" where
  "failed receiver sender r = r\<lparr> rc_sender_status := Some sender, rc_receiver_status := receiver \<rparr>"

text \<open>The buffer, with the receipt of the steps so far; \<open>sd\<close> and \<open>rd\<close> read the two structures.\<close>

definition copy_buffer :: "nat \<Rightarrow> nat \<Rightarrow> msg_send_t \<Rightarrow> msg_recv_t \<Rightarrow> msg_copy_receipt_t \<Rightarrow> 'a kern_t_scheme \<Rightarrow> (msg_copy_receipt_t \<times> 'a kern_t_scheme) option" where
  "copy_buffer st rt m r rc s =
     (if sm_buffer m = 0 then Some (rc, s)
      else let copy_len = min (rm_buffer_size r) (sm_size m)
           in do {
             (n, tmp) \<leftarrow> msg_copy_from_sender st (sm_buffer m) copy_len s;
             if n \<noteq> copy_len then Some (failed None MSG_ERR_INVALID_BUF rc, s)
             else do {
               (k, s1) \<leftarrow> to_task rt (rm_buffer r) tmp copy_len s;
               if k \<noteq> copy_len then Some (failed (Some MSG_ERR_INVALID_BUF) MSG_ERR_PEER_INVALID_BUF rc, s1)
               else Some (rc\<lparr> rc_bytes := copy_len \<rparr>, s1) } })"

text \<open>The handles; the result names those the receiver now has.\<close>

definition pass_handles :: "nat \<Rightarrow> nat \<Rightarrow> msg_send_t \<Rightarrow> msg_recv_t \<Rightarrow> msg_copy_receipt_t \<Rightarrow> 'a kern_t_scheme \<Rightarrow> (msg_copy_receipt_t \<times> int list \<times> 'a kern_t_scheme) option" where
  "pass_handles st rt m r rc s =
     (let n = min (sm_handle_count m) (rm_handle_count r); receiver = ts_process (tasks s rt)
      in if n \<le> 0 then Some (rc, [], s)
         else do {
           (k, bytes) \<leftarrow> msg_copy_from_sender st (sm_handles m) (4 * n) s;
           if k \<noteq> 4 * n then Some (failed None MSG_ERR_INVALID_HANDLES rc, [], s)
           else case copy_handles (ts_process (tasks s st)) receiver (words_of_bytes (nat n) bytes) [] s of
             (Inl h, s1) \<Rightarrow> Some (if h = - 2 then failed (Some MSG_ERR_LIMIT) MSG_ERR_PEER_INVALID_HANDLES rc
                                 else failed None MSG_ERR_INVALID_HANDLES rc, [], s1)
           | (Inr hs, s1) \<Rightarrow>
               do { (j, s2) \<leftarrow> copy_to_task (int rt) (rm_handles r) (concat (map (\<lambda>h. word_bytes (of_int h)) hs)) s1;
                    if j \<noteq> 4 * n then Some (failed (Some MSG_ERR_INVALID_HANDLES) MSG_ERR_PEER_INVALID_HANDLES rc, [], msg_free_handles receiver hs s2)
                    else Some (rc\<lparr> rc_handles := n \<rparr>, hs, s2) } })"

definition msg_do_copy :: "nat \<Rightarrow> nat \<Rightarrow> ('a kern_t_scheme \<Rightarrow> msg_send_t option) \<Rightarrow> ('a kern_t_scheme \<Rightarrow> msg_recv_t option) \<Rightarrow> u32 \<Rightarrow> u32
    \<Rightarrow> 'a kern_t_scheme \<Rightarrow> (msg_copy_receipt_t \<times> 'a kern_t_scheme) option" where
  "msg_do_copy st rt sd rd user call_uid s =
     do { m \<leftarrow> sd s; r \<leftarrow> rd s;
          (rc, s1) \<leftarrow> copy_buffer st rt m r \<lparr> rc_bytes = 0, rc_handles = 0, rc_sender_status = None, rc_receiver_status = None \<rparr> s;
          if rc_sender_status rc \<noteq> None then Some (rc, s1)
          else do {
            m1 \<leftarrow> sd s1; r1 \<leftarrow> rd s1;
            (rc1, hs, s2) \<leftarrow> pass_handles st rt m1 r1 rc s1;
            if rc_sender_status rc1 \<noteq> None then Some (rc1, s2)
            else do {
              m2 \<leftarrow> sd s2;
              (ok, s3) \<leftarrow> msg_write_receipt rt user m2 rc1 call_uid s2;
              if \<not> ok then Some (failed (Some MSG_ERR_INVALID_MSG) MSG_ERR_PEER_INVALID_MSG rc1, msg_free_handles (ts_process (tasks s3 rt)) hs s3)
              else Some (rc1, s3) } } }"

fun msg_check_handles :: "u32 \<Rightarrow> u32 \<Rightarrow> nat \<Rightarrow> 'a kern_t_scheme \<Rightarrow> bool option" where
  "msg_check_handles process handles 0 s = Some True"
| "msg_check_handles process handles (Suc n) s =
     do { h \<leftarrow> load_word handles s;
          let ref = process_get_kobj process (sint h) s;
          if ref = 0 \<or> ko_connect (obj_of s (kr_inst (kobj_refs s ref))) = None then Some False
          else msg_check_handles process (handles + 4) n s }"

section \<open>Call, receive, reply\<close>

definition find_own_channel :: "nat \<Rightarrow> u32 \<Rightarrow> 'a msg_t_scheme \<Rightarrow> u32 option" where
  "find_own_channel t channel_uid s = List.find (\<lambda>c. c \<noteq> 0 \<and> ch_uid (msg_channels s c) = channel_uid) (ts_msg_channels s t)"

text \<open>A call that is delivered to a waiting server thread at once.\<close>

definition call_waiter :: "registers_t \<Rightarrow> nat \<Rightarrow> u32 \<Rightarrow> u32 \<Rightarrow> u32 \<Rightarrow> nat \<Rightarrow> 'a msg_t_scheme \<Rightarrow> ((msg_err_t + unit) \<times> registers_t \<times> 'a msg_t_scheme) option" where
  "call_waiter regs t channel port send_msg i s =
     (let w = po_waiters (msg_ports s port) ! i; server = nat (wt_task_id w); call_uid = call_uid_counter s
      in do {
        (r, s1) \<leftarrow> msg_do_copy t server (load_send send_msg) (\<lambda>_. Some (wt_recv_msg w)) (wt_recv_msg_user w) call_uid (s\<lparr> call_uid_counter := call_uid + 1 \<rparr>);
        case rc_sender_status r of
          Some e \<Rightarrow>
            Some (Inl e, regs, case rc_receiver_status r of
              None \<Rightarrow> s1
            | Some e1 \<Rightarrow> task_resume server (set_ebx_u server (err_word e1) (drop_waiter port i s1)))
        | None \<Rightarrow>
            let s2 = upd_channel channel (\<lambda>c. c\<lparr> ch_call_uid := call_uid \<rparr>) (drop_waiter port i s1);
                s3 = task_resume server (task_pause t PAUSE_MSG_CALL (set_ebx_u server (of_int (rc_bytes r)) s2))
            in do { (ok, regs1, s4) \<leftarrow> switch_to_task (int server) regs s3; Some (Inr (), regs1, s4) } })"

definition msg_call :: "registers_t \<Rightarrow> nat \<Rightarrow> u32 \<Rightarrow> u32 \<Rightarrow> u32 \<Rightarrow> 'a msg_t_scheme \<Rightarrow> ((msg_err_t + unit) \<times> registers_t \<times> 'a msg_t_scheme) option" where
  "msg_call regs t channel_uid send_msg recv_msg s =
     do { m \<leftarrow> load_send send_msg s;
          if sm_size m > MSG_MAX_LEN then Some (Inl MSG_ERR_TOO_LONG, regs, s)
          else if sm_size m = 0 \<and> sm_handle_count m = 0 then Some (Inl MSG_ERR_EMPTY_MSG, regs, s)
          else case find_own_channel t channel_uid s of
            None \<Rightarrow> Some (Inl MSG_ERR_CHANNEL_NOT_FOUND, regs, s)
          | Some channel \<Rightarrow>
              let c = msg_channels s channel
              in case find_port_by_uid (ch_port_uid c) s of
                   None \<Rightarrow> Some (Inl MSG_ERR_PORT_NOT_FOUND, regs, s)
                 | Some port \<Rightarrow>
                     if ts_task_uid (tasks s t) \<noteq> ch_client_taskuid c then Some (Inl MSG_ERR_DENIED, regs, s)
                     else if \<not> ch_client_connected c then Some (Inl MSG_ERR_DISCONNECTED, regs, s)
                     else if \<not> ch_server_connected c then Some (Inl MSG_ERR_PEER_DISCONNECTED, regs, s)
                     else do {
                       ok \<leftarrow> msg_check_handles (ts_process (tasks s t)) (sm_handles m) (nat (sm_handle_count m)) s;
                       if \<not> ok then Some (Inl MSG_ERR_INVALID_HANDLES, regs, s)
                       else do {
                         r \<leftarrow> load_recv recv_msg s;
                         let s1 = upd_channel channel (\<lambda>c. c\<lparr> ch_client_recv_msg := r, ch_client_recv_msg_user := recv_msg \<rparr>) s;
                         case msg_find_waiter port s1 of
                           (None, s2) \<Rightarrow>
                             do { (regs1, esp, s3) \<leftarrow> switch_task regs False (task_pause t PAUSE_MSG_CALL (upd_channel channel (\<lambda>c. c\<lparr> ch_client_send_msg := m \<rparr>) s2));
                                  Some (Inr (), regs1, s3) }
                         | (Some i, s2) \<Rightarrow> call_waiter regs t channel port send_msg i s2 } } }"

text \<open>The loop of \<open>msg_receive\<close> over the channels; the inner \<open>None\<close> is its end with nothing to receive.\<close>

fun receive_stored :: "registers_t \<Rightarrow> nat \<Rightarrow> u32 \<Rightarrow> u32 \<Rightarrow> nat list \<Rightarrow> 'a msg_t_scheme \<Rightarrow> ((msg_err_t + unit) option \<times> registers_t \<times> 'a msg_t_scheme) option" where
  "receive_stored regs t port recv_msg [] s = Some (None, regs, s)"
| "receive_stored regs t port recv_msg (i # is) s =
     (let channel = po_channels (msg_ports s port) ! i; c = msg_channels s channel
      in if channel = 0 \<or> \<not> ch_server_connected c \<or> \<not> channel_has_waiting_send c then receive_stored regs t port recv_msg is s
         else case msg_get_task (ch_client_taskid c) (ch_client_taskuid c) s of
           None \<Rightarrow> receive_stored regs t port recv_msg is s
         | Some client \<Rightarrow>
             let m = ch_client_send_msg c; call_uid = call_uid_counter s;
                 s1 = (upd_channel channel (\<lambda>c. c\<lparr> ch_client_send_msg := m\<lparr> sm_buffer := 0, sm_handle_count := 0 \<rparr> \<rparr>) s)\<lparr> call_uid_counter := call_uid + 1 \<rparr>
             in do {
               (r, s2) \<leftarrow> msg_do_copy client t (\<lambda>_. Some m) (load_recv recv_msg) recv_msg call_uid s1;
               case rc_sender_status r of
                 Some e \<Rightarrow>
                   let s3 = task_resume client (set_ebx_u client (err_word e) s2)
                   in (case rc_receiver_status r of
                         Some e1 \<Rightarrow> Some (Some (Inl e1), regs, s3)
                       | None \<Rightarrow> receive_stored regs t port recv_msg is s3)
               | None \<Rightarrow> Some (Some (Inr ()), regs\<lparr> r_ebx := of_int (rc_bytes r) \<rparr>, upd_channel channel (\<lambda>c. c\<lparr> ch_call_uid := call_uid \<rparr>) s2) })"

definition msg_receive :: "registers_t \<Rightarrow> nat \<Rightarrow> u32 \<Rightarrow> u32 \<Rightarrow> 'a msg_t_scheme \<Rightarrow> ((msg_err_t + unit) \<times> registers_t \<times> 'a msg_t_scheme) option" where
  "msg_receive regs t port_uid recv_msg s =
     (case find_port_by_uid port_uid s of
        None \<Rightarrow> Some (Inl MSG_ERR_PORT_NOT_FOUND, regs, s)
      | Some port \<Rightarrow>
          if pr_uid (task_proc s t) \<noteq> po_owner_uid (msg_ports s port) then Some (Inl MSG_ERR_DENIED, regs, s)
          else do {
            (res, regs1, s1) \<leftarrow> receive_stored regs t port recv_msg [0..<po_channel_count (msg_ports s port)] s;
            case res of
              Some x \<Rightarrow> Some (x, regs1, s1)
            | None \<Rightarrow>
                do { r \<leftarrow> load_recv recv_msg s1;
                     case msg_add_waiter port t r recv_msg s1 of
                       (False, s2) \<Rightarrow> Some (Inl MSG_ERR_LIMIT, regs1, s2)
                     | (True, s2) \<Rightarrow>
                         do { (regs2, esp, s3) \<leftarrow> switch_task regs1 False (task_pause t PAUSE_MSG_RECEIVE s2); Some (Inr (), regs2, s3) } } })"

fun msg_get_peer_error :: "msg_err_t \<Rightarrow> msg_err_t" where
  "msg_get_peer_error MSG_ERR_INVALID_BUF = MSG_ERR_PEER_INVALID_BUF"
| "msg_get_peer_error MSG_ERR_INVALID_HANDLES = MSG_ERR_PEER_INVALID_HANDLES"
| "msg_get_peer_error _ = MSG_ERR_PEER_INVALID_MSG"

text \<open>The channel that awaits the reply to a call, over the ports of the process in order.\<close>

definition find_call :: "u32 \<Rightarrow> u32 \<Rightarrow> 'a msg_t_scheme \<Rightarrow> u32 option" where
  "find_call process call_uid s =
     List.find (\<lambda>c. c \<noteq> 0 \<and> ch_call_uid (msg_channels s c) = call_uid)
       (concat (map (\<lambda>p. take (po_channel_count (msg_ports s p)) (po_channels (msg_ports s p))) (filter (\<lambda>p. p \<noteq> 0) (pr_ports s process))))"

definition answer :: "nat \<Rightarrow> u32 \<Rightarrow> 'a kern_t_scheme \<Rightarrow> 'a kern_t_scheme" where
  "answer client v s = task_resume client (set_ebx_u client v s)"

definition reply_client :: "registers_t \<Rightarrow> nat \<Rightarrow> nat \<Rightarrow> u32 \<Rightarrow> u32 \<Rightarrow> 'a msg_t_scheme \<Rightarrow> ((msg_err_t + unit) \<times> registers_t \<times> 'a msg_t_scheme) option" where
  "reply_client regs t client channel send_msg s =
     do { v \<leftarrow> msg_validate_send send_msg s;
          case v of
            Inl e \<Rightarrow> Some (Inl e, regs, answer client (err_word (msg_get_peer_error e)) s)
          | Inr _ \<Rightarrow>
              do { m \<leftarrow> load_send send_msg s;
                   if sm_size m > MSG_MAX_LEN then Some (Inl MSG_ERR_TOO_LONG, regs, answer client (err_word MSG_ERR_PEER_INVALID_MSG) s)
                   else do {
                     ok \<leftarrow> msg_check_handles (ts_process (tasks s t)) (sm_handles m) (nat (sm_handle_count m)) s;
                     if \<not> ok then Some (Inl MSG_ERR_INVALID_HANDLES, regs, answer client (err_word MSG_ERR_PEER_INVALID_HANDLES) s)
                     else do {
                       (r, s1) \<leftarrow> msg_do_copy t client (load_send send_msg) (\<lambda>_. Some (ch_client_recv_msg (msg_channels s channel)))
                                    (ch_client_recv_msg_user (msg_channels s channel)) 0 s;
                       case rc_sender_status r of
                         Some e \<Rightarrow> Some (Inl e, regs, answer client (err_word (case rc_receiver_status r of Some e1 \<Rightarrow> e1 | None \<Rightarrow> msg_get_peer_error e)) s1)
                       | None \<Rightarrow>
                           do { (ok, regs1, s2) \<leftarrow> switch_to_task (int client) (regs\<lparr> r_ebx := of_int (rc_bytes r) \<rparr>) (answer client (of_int (rc_bytes r)) s1);
                                Some (Inr (), regs1, s2) } } } } }"

definition msg_reply :: "registers_t \<Rightarrow> nat \<Rightarrow> u32 \<Rightarrow> u32 \<Rightarrow> 'a msg_t_scheme \<Rightarrow> ((msg_err_t + unit) \<times> registers_t \<times> 'a msg_t_scheme) option" where
  "msg_reply regs t call_uid send_msg s =
     (if call_uid = 0 then Some (Inl MSG_ERR_MSG_NOT_FOUND, regs, s)
      else case find_call (ts_process (tasks s t)) call_uid s of
        None \<Rightarrow> Some (Inl MSG_ERR_MSG_NOT_FOUND, regs, s)
      | Some channel \<Rightarrow>
          let c = msg_channels s channel; s1 = upd_channel channel (\<lambda>c. c\<lparr> ch_call_uid := 0 \<rparr>) s
          in case msg_get_task (ch_client_taskid c) (ch_client_taskuid c) s1 of
               None \<Rightarrow> Some (Inl MSG_ERR_PEER_DISCONNECTED, regs, s1)
             | Some client \<Rightarrow>
                 if ts_pause_reason (tasks s1 client) \<noteq> PAUSE_MSG_CALL then Some (Inl MSG_ERR_PEER_DISCONNECTED, regs, s1)
                 else reply_client regs t client channel send_msg s1)"

end
