(* ===== verification/Msgwait.thy ===== *)
theory Msgwait
  imports Msgcall Msgframe
begin

text \<open>
  No call is lost. A client that is paused in a synchronous call always has an open channel on which the call is stored for
  a server thread, or on which a server owes the reply; when the server fails, refuses or closes, the client is woken.
\<close>

section \<open>Copying a message\<close>

lemma calm_set_ebx_u: "calm s (set_ebx_u t v s)"
  unfolding set_ebx_u_def by (rule calm_upd_task) (auto simp: waits_def)

lemma calm_free_handles: "calm s (msg_free_handles process hs s)"
  unfolding msg_free_handles_def by (rule calm_fold) (rule calm_release)

lemma calm_copy_handles: "calm s (snd (copy_handles a b hs acc s))" for s :: "'a kern_t_scheme"
proof (induction hs arbitrary: acc s)
  case (Cons h hs)
  obtain h1 s1 where q: "process_copy_kobj a b h s = (h1, s1)" by fastforce
  have c1: "calm s s1" using calm_copy_kobj [of s a b h] unfolding q by simp
  show ?case using q calm_trans [OF c1 calm_free_handles] calm_trans [OF c1 Cons.IH] by simp
qed simp

lemma calm_copy_buffer: "copy_buffer st rt m r rc s = Some (rc', s') \<Longrightarrow> calm s s'"
  by (auto simp: copy_buffer_def to_task_def Let_def bind_eq_Some_conv split: if_splits prod.splits dest: calm_copy_to)

lemma calm_pass_handles:
  assumes "pass_handles st rt m r rc s = Some (rc', hs, s')"
  shows "calm s s'"
proof -
  let ?p = "ts_process (tasks s rt)" and ?n = "min (sm_handle_count m) (rm_handle_count r)"
  show ?thesis
  proof (cases "?n \<le> 0")
    case True
    then show ?thesis using assms unfolding pass_handles_def Let_def by auto
  next
    case False
    then obtain k bytes where m: "msg_copy_from_sender st (sm_handles m) (4 * ?n) s = Some (k, bytes)"
      using assms unfolding pass_handles_def Let_def if_not_P [OF False] bind_eq_Some_conv by auto
    obtain x s1 where c: "copy_handles (ts_process (tasks s st)) ?p (words_of_bytes (nat ?n) bytes) [] s = (x, s1)" by fastforce
    have 1: "calm s s1" using calm_copy_handles [of s "ts_process (tasks s st)" ?p "words_of_bytes (nat ?n) bytes" "[]"] unfolding c by simp
    have "s' = s \<or> s' = s1 \<or> (\<exists>j s2. copy_to_task (int rt) (rm_handles r) (concat (map (\<lambda>h. word_bytes (of_int h)) (projr x))) s1 = Some (j, s2)
        \<and> (s' = s2 \<or> s' = msg_free_handles ?p (projr x) s2))"
      using assms unfolding pass_handles_def Let_def if_not_P [OF False] m
      by (auto simp: c bind_eq_Some_conv split: if_splits sum.splits)
    then show ?thesis using 1 calm_trans [OF calm_trans [OF 1 calm_copy_to] calm_free_handles] calm_trans [OF 1 calm_copy_to] by auto
  qed
qed

lemma calm_do_copy:
  assumes "msg_do_copy st rt sd rd user uid s = Some (rc, s')"
  shows "calm s s'"
proof -
  let ?z = "\<lparr> rc_bytes = 0, rc_handles = 0, rc_sender_status = None, rc_receiver_status = None \<rparr>"
  obtain m where m: "sd s = Some m" using assms unfolding msg_do_copy_def by (cases "sd s") simp_all
  obtain r where r: "rd s = Some r" using assms m unfolding msg_do_copy_def by (cases "rd s") simp_all
  obtain rc1 s1 where 1: "copy_buffer st rt m r ?z s = Some (rc1, s1)" using assms m r unfolding msg_do_copy_def by (cases "copy_buffer st rt m r ?z s") auto
  note c1 = calm_copy_buffer [OF 1]
  show ?thesis
  proof (cases "rc_sender_status rc1 = None")
    case False
    then show ?thesis using assms m r 1 c1 unfolding msg_do_copy_def by simp
  next
    case ok: True
    obtain m1 where m1: "sd s1 = Some m1" using assms m r 1 ok unfolding msg_do_copy_def by (cases "sd s1") simp_all
    obtain r1 where r1: "rd s1 = Some r1" using assms m r 1 ok m1 unfolding msg_do_copy_def by (cases "rd s1") simp_all
    obtain rc2 hs s2 where 2: "pass_handles st rt m1 r1 rc1 s1 = Some (rc2, hs, s2)"
      using assms m r 1 ok m1 r1 unfolding msg_do_copy_def by (cases "pass_handles st rt m1 r1 rc1 s1") auto
    note c2 = calm_trans [OF c1 calm_pass_handles [OF 2]]
    show ?thesis
    proof (cases "rc_sender_status rc2 = None")
      case False
      then show ?thesis using assms m r 1 ok m1 r1 2 c2 unfolding msg_do_copy_def by simp
    next
      case True
      then obtain m2 where m2: "sd s2 = Some m2" using assms m r 1 ok m1 r1 2 unfolding msg_do_copy_def by (cases "sd s2") simp_all
      obtain b s3 where 3: "msg_write_receipt rt user m2 rc2 uid s2 = Some (b, s3)"
        using assms m r 1 ok m1 r1 2 True m2 unfolding msg_do_copy_def by (cases "msg_write_receipt rt user m2 rc2 uid s2") auto
      then have c3: "calm s2 s3" by (auto simp: msg_write_receipt_def bind_eq_Some_conv dest: calm_copy_to)
      have "s' = s3 \<or> s' = msg_free_handles (ts_process (tasks s3 rt)) hs s3"
        using assms m r 1 ok m1 r1 2 True m2 3 unfolding msg_do_copy_def by (cases b) simp_all
      then show ?thesis using calm_trans [OF c2 c3] calm_trans [OF calm_trans [OF c2 c3] calm_free_handles] by auto
    qed
  qed
qed

lemma calm_answer: "calm s (answer t v s)"
  unfolding answer_def by (rule calm_trans [OF calm_set_ebx_u calm_resume])

lemma answered [simp]: "\<not> waits (tasks (answer t v s) t)"
  by (simp add: answer_def waits_def task_resume_def upd_task_def)

section \<open>Open calls\<close>

definition live :: "'a msg_t_scheme \<Rightarrow> u32 set" where
  "live s = {c. c \<noteq> 0 \<and> (\<exists>p\<in>set (ports s). c \<in> set (take (po_channel_count (msg_ports s p)) (po_channels (msg_ports s p))))}"

text \<open>The call of the task is stored on the channel, or a server owes the reply to it.\<close>

definition open_call :: "nat \<Rightarrow> u32 \<Rightarrow> msg_channel_t \<Rightarrow> bool" where
  "open_call t uid c \<longleftrightarrow> ch_client_taskid c = int t \<and> ch_client_taskuid c = uid \<and> ch_client_connected c \<and> ch_server_connected c
     \<and> (channel_has_waiting_send c \<or> ch_call_uid c \<noteq> 0)"

abbreviation outstanding :: "'a msg_t_scheme \<Rightarrow> nat \<Rightarrow> u32 \<Rightarrow> bool" where
  "outstanding s t channel \<equiv> open_call t (ts_task_uid (tasks s t)) (msg_channels s channel)"

definition no_lost :: "'a msg_t_scheme \<Rightarrow> bool" where
  "no_lost s \<longleftrightarrow> (\<forall>t<16. waits (tasks s t) \<longrightarrow> (\<exists>c\<in>live s. outstanding s t c))"

text \<open>The channels of a task are those it opened and are live; tasks, ports and the channels of a port have different identities.\<close>

definition port_channels :: "msg_port_t \<Rightarrow> (u32 \<Rightarrow> u32) \<Rightarrow> bool" where
  "port_channels p uid \<longleftrightarrow> po_channel_count p \<le> 16 \<and> length (po_channels p) = 16
     \<and> distinct (map uid (filter (\<lambda>c. c \<noteq> 0) (take (po_channel_count p) (po_channels p))))"

definition own_channels :: "'a msg_t_scheme \<Rightarrow> bool" where
  "own_channels s \<longleftrightarrow> (\<forall>t<16. ts_enabled (tasks s t) \<longrightarrow> distinct (ts_msg_channels s t)
       \<and> (\<forall>c\<in>set (ts_msg_channels s t). c \<in> live s \<and> ch_client_taskid (msg_channels s c) = int t \<and> ch_client_taskuid (msg_channels s c) = ts_task_uid (tasks s t)))
     \<and> (\<forall>t<16. \<forall>t'<16. ts_enabled (tasks s t) \<longrightarrow> ts_enabled (tasks s t') \<longrightarrow> ts_task_uid (tasks s t) = ts_task_uid (tasks s t') \<longrightarrow> t = t')
     \<and> distinct (map (\<lambda>p. po_uid (msg_ports s p)) (ports s)) \<and> (\<forall>p\<in>set (ports s). port_channels (msg_ports s p) (\<lambda>c. ch_uid (msg_channels s c)))
     \<and> (\<forall>c\<in>live s. ch_uid (msg_channels s c) < channel_uid_counter s) \<and> (\<forall>p\<in>set (ports s). po_uid (msg_ports s p) < msg_uid_counter s)"

definition call_part :: "msg_channel_t \<Rightarrow> bool \<times> bool \<times> msg_send_t \<times> u32" where
  "call_part c = (ch_client_connected c, ch_server_connected c, ch_client_send_msg c, ch_call_uid c)"

text \<open>Everything the invariant speaks of is kept, except calls on the channels \<open>X\<close>.\<close>

definition keeps :: "u32 set \<Rightarrow> 'a msg_t_scheme \<Rightarrow> 'a msg_t_scheme \<Rightarrow> bool" where
  "keeps X s s' \<longleftrightarrow> same_tasks s s' \<and> ports s' = ports s \<and> ts_msg_channels s' = ts_msg_channels s
     \<and> channel_uid_counter s' = channel_uid_counter s \<and> msg_uid_counter s' = msg_uid_counter s
     \<and> (\<forall>p. po_channels (msg_ports s' p) = po_channels (msg_ports s p) \<and> po_channel_count (msg_ports s' p) = po_channel_count (msg_ports s p)
            \<and> po_uid (msg_ports s' p) = po_uid (msg_ports s p))
     \<and> (\<forall>c. ch_client_taskid (msg_channels s' c) = ch_client_taskid (msg_channels s c) \<and> ch_client_taskuid (msg_channels s' c) = ch_client_taskuid (msg_channels s c)
            \<and> ch_server_taskuid (msg_channels s' c) = ch_server_taskuid (msg_channels s c) \<and> ch_uid (msg_channels s' c) = ch_uid (msg_channels s c)
            \<and> (c \<notin> X \<longrightarrow> call_part (msg_channels s' c) = call_part (msg_channels s c)))"

lemma core_call:
  assumes "core c = core c'"
  shows "call_part c = call_part c'" "ch_client_taskid c = ch_client_taskid c'"
  using arg_cong [OF assms, of ch_client_send_msg] arg_cong [OF assms, of ch_call_uid] arg_cong [OF assms, of ch_client_taskid] core_fields [OF assms]
  by (simp_all add: core_def call_part_def)

lemma keeps_same:
  assumes "same_msg s s'" "same_tasks s s'"
  shows "keeps X s s'"
proof -
  have "core (msg_channels s' c) = core (msg_channels s c)" for c using assms(1) by (simp add: same_msg_def)
  note c = core_call [OF this] core_fields [OF this]
  show ?thesis using assms unfolding keeps_def same_msg_def by (simp add: c)
qed

interpretation held: msg_frame "keeps X"
proof
  show "calm s s' \<Longrightarrow> keeps X s s'" for s s' :: "'a msg_t_scheme" using same.kernel idle.kernel keeps_same by blast
  show "(\<And>c. core (f c) = core c) \<Longrightarrow> keeps X s (upd_channel channel f s)" for f channel and s :: "'a msg_t_scheme"
    using same.marks idle.marks keeps_same by blast
  show "keeps X s (s\<lparr> ts_msg_notify_pending := n \<rparr>)" for n and s :: "'a msg_t_scheme" using same.pending idle.pending keeps_same by blast
  show "keeps X s s1 \<Longrightarrow> keeps X s1 s2 \<Longrightarrow> keeps X s s2" for s s1 s2 :: "'a msg_t_scheme"
    using idle.trans by (auto simp: keeps_def)
qed

lemma keeps_mono: "keeps X s s' \<Longrightarrow> X \<subseteq> Y \<Longrightarrow> keeps Y s s'"
  by (auto simp: keeps_def)

lemma keeps_upd:
  assumes "\<And>c. ch_client_taskid (f c) = ch_client_taskid c \<and> ch_client_taskuid (f c) = ch_client_taskuid c \<and> ch_server_taskuid (f c) = ch_server_taskuid c
      \<and> ch_uid (f c) = ch_uid c" "channel \<in> X \<or> (\<forall>c. call_part (f c) = call_part c)"
  shows "keeps X s (upd_channel channel f s)"
  using assms by (auto simp: keeps_def upd_channel_def same_tasks_def)

lemma keeps_port: "(\<And>p. po_channels (f p) = po_channels p \<and> po_channel_count (f p) = po_channel_count p \<and> po_uid (f p) = po_uid p) \<Longrightarrow> keeps X s (upd_port port f s)"
  by (simp add: keeps_def upd_port_def same_tasks_def)

lemma keeps_live: "keeps X s s' \<Longrightarrow> live s' = live s"
  by (simp add: keeps_def live_def)

lemma keeps_own: "keeps X s s' \<Longrightarrow> own_channels s \<Longrightarrow> own_channels s'"
  using keeps_live [of X s s'] by (simp add: keeps_def own_channels_def same_tasks_def port_channels_def)

lemma open_call_part: "call_part c = call_part c' \<Longrightarrow> ch_client_taskid c = ch_client_taskid c' \<Longrightarrow> ch_client_taskuid c = ch_client_taskuid c' \<Longrightarrow>
    open_call t u c = open_call t u c'"
  by (simp add: open_call_def call_part_def channel_has_waiting_send_def)

text \<open>The invariant is kept when the calls on the channels that change stay open, or their clients no longer wait.\<close>

lemma no_lost_keeps:
  assumes "no_lost s" "keeps X s s'" "\<And>t c. t < 16 \<Longrightarrow> waits (tasks s' t) \<Longrightarrow> c \<in> X \<Longrightarrow> outstanding s t c \<Longrightarrow> outstanding s' t c"
  shows "no_lost s'"
  unfolding no_lost_def
proof (intro allI impI)
  fix t :: nat
  assume t: "t < 16" "waits (tasks s' t)"
  then obtain c where c: "c \<in> live s" "outstanding s t c" using assms(1,2) unfolding no_lost_def keeps_def same_tasks_def by blast
  have u: "ts_task_uid (tasks s' t) = ts_task_uid (tasks s t)" using assms(2) by (simp add: keeps_def same_tasks_def)
  have "outstanding s' t c"
  proof (cases "c \<in> X")
    case False
    then have "open_call t w (msg_channels s' c) = open_call t w (msg_channels s c)" for w
      using assms(2) by (intro open_call_part) (simp_all add: keeps_def)
    then show ?thesis using c u by simp
  qed (use assms(3) t c in blast)
  then show "\<exists>c\<in>live s'. outstanding s' t c" using c keeps_live [OF assms(2)] by blast
qed

definition calls_inv :: "'a msg_t_scheme \<Rightarrow> bool" where
  "calls_inv s \<longleftrightarrow> no_lost s \<and> own_channels s"

lemma calls_keeps:
  assumes "calls_inv s" "keeps X s s'" "\<And>t c. t < 16 \<Longrightarrow> waits (tasks s' t) \<Longrightarrow> c \<in> X \<Longrightarrow> outstanding s t c \<Longrightarrow> outstanding s' t c"
  shows "calls_inv s'"
  using assms no_lost_keeps [of s X s'] keeps_own [of X s s'] unfolding calls_inv_def by blast

lemma calls_held: "calls_inv s \<Longrightarrow> keeps {} s s' \<Longrightarrow> calls_inv s'"
  by (rule calls_keeps [where X = "{}"]) auto

lemmas calls_calm = calls_held [OF _ held.kernel]

lemma calls_pause:
  assumes "calls_inv s" "c \<in> live s" "outstanding s t c"
  shows "calls_inv (task_pause t r s)"
proof -
  let ?s = "task_pause t r s"
  have e: "tasks ?s x = (if x = t then (tasks s t)\<lparr> ts_paused := True, ts_pause_reason := r \<rparr> else tasks s x)" for x
    by (simp add: task_pause_def upd_task_def)
  have m: "same_msg s ?s \<and> msg_channels ?s = msg_channels s" by (rule more_msg) simp
  then have l: "live ?s = live s" by (simp add: live_def same_msg_def)
  have "no_lost ?s" unfolding no_lost_def l
  proof (intro allI impI)
    fix x :: nat
    assume x: "x < 16" "waits (tasks ?s x)"
    show "\<exists>c\<in>live s. outstanding ?s x c"
      using x assms m e by (cases "x = t") (auto simp: calls_inv_def no_lost_def)
  qed
  moreover have "ts_enabled (tasks ?s x) = ts_enabled (tasks s x)" "ts_task_uid (tasks ?s x) = ts_task_uid (tasks s x)" for x by (simp_all add: e)
  then have "own_channels ?s" using assms(1) m l unfolding calls_inv_def own_channels_def same_msg_def by simp
  ultimately show ?thesis by (simp add: calls_inv_def)
qed

section \<open>Calls\<close>

lemma keeps_drop_waiter: "keeps X s (drop_waiter port i s)"
  unfolding drop_waiter_def by (rule keeps_port) simp

lemma keeps_find_waiter: "keeps X s (snd (find_waiter port is s))"
proof (induction "is" arbitrary: s)
  case (Cons i "is")
  then show ?case using held.trans [OF keeps_drop_waiter Cons.IH] held.refl
    by (auto simp: Let_def split: option.splits)
qed (simp add: held.refl)

lemma find_waiter_counter [simp]: "call_uid_counter (snd (find_waiter port is s)) = call_uid_counter s"
  by (induction "is" arbitrary: s) (auto simp: Let_def drop_waiter_def upd_port_def split: option.splits)

lemma keeps_counter: "keeps X s (s\<lparr> call_uid_counter := n \<rparr>)"
  by (simp add: keeps_def same_tasks_def)

lemma keeps_call_uid: "channel \<in> X \<Longrightarrow> keeps X s (upd_channel channel (\<lambda>c. c\<lparr> ch_call_uid := n \<rparr>) s)"
  by (rule keeps_upd) simp_all

lemma own_channel:
  assumes "own_channels s" "find_own_channel t uid s = Some c" "t < 16" "ts_enabled (tasks s t)"
  shows "c \<in> live s" "ch_client_taskid (msg_channels s c) = int t"
  using assms by (auto simp: own_channels_def find_own_channel_def find_Some_iff)

lemma call_waiter_calls:
  assumes inv: "calls_inv s" and c: "c \<in> live s" "ch_client_taskid (msg_channels s c) = int t" "ch_client_taskuid (msg_channels s c) = ts_task_uid (tasks s t)"
      "ch_client_connected (msg_channels s c)" "ch_server_connected (msg_channels s c)"
    and n: "call_uid_counter s \<noteq> 0" and call: "call_waiter regs t c port sm i s = Some (res, regs', s')"
  shows "calls_inv s'"
proof -
  let ?w = "po_waiters (msg_ports s port) ! i" and ?n = "call_uid_counter s"
  let ?v = "nat (wt_task_id ?w)" and ?s0 = "s\<lparr> call_uid_counter := ?n + 1 \<rparr>"
  obtain r s1 where 1: "msg_do_copy t ?v (load_send sm) (\<lambda>_. Some (wt_recv_msg ?w)) (wt_recv_msg_user ?w) ?n ?s0 = Some (r, s1)"
    using call unfolding call_waiter_def Let_def by (auto simp: bind_eq_Some_conv)
  have k1: "keeps X s s1" for X by (rule held.trans [OF keeps_counter held.kernel [OF calm_do_copy [OF 1]]])
  show ?thesis
  proof (cases "rc_sender_status r")
    case (Some e)
    then have "s' = s1 \<or> (\<exists>e1. s' = answer ?v (err_word e1) (drop_waiter port i s1))"
      using call 1 unfolding call_waiter_def Let_def by (auto simp: answer_def split: option.splits)
    then show ?thesis using calls_held [OF inv k1] calls_held [OF inv held.trans [OF held.trans [OF k1 keeps_drop_waiter] held.kernel [OF calm_answer]]] by auto
  next
    case None
    let ?s2 = "set_ebx_u ?v (of_int (rc_bytes r)) (upd_channel c (\<lambda>y. y\<lparr> ch_call_uid := ?n \<rparr>) (drop_waiter port i s1))"
    obtain ok where sw: "switch_to_task (int ?v) regs (task_resume ?v (task_pause t PAUSE_MSG_CALL ?s2)) = Some (ok, regs', s')"
      using call 1 None unfolding call_waiter_def Let_def by (auto simp: bind_eq_Some_conv)
    have kd: "keeps X s (drop_waiter port i s1)" for X by (rule held.trans [OF k1 keeps_drop_waiter])
    have k2: "keeps {c} s ?s2" by (rule held.trans [OF held.trans [OF kd keeps_call_uid] held.kernel [OF calm_set_ebx_u]]) simp
    have part: "call_part (msg_channels (drop_waiter port i s1) c) = call_part (msg_channels s c)"
      "ch_client_taskid (msg_channels (drop_waiter port i s1) c) = int t" "ch_client_taskuid (msg_channels (drop_waiter port i s1) c) = ts_task_uid (tasks s t)"
      using kd [of "{}"] c by (simp_all add: keeps_def)
    have ch: "msg_channels ?s2 c = (msg_channels (drop_waiter port i s1) c)\<lparr> ch_call_uid := ?n \<rparr>"
      using more_msg [of ?s2 "upd_channel c (\<lambda>y. y\<lparr> ch_call_uid := ?n \<rparr>) (drop_waiter port i s1)"] by (simp add: set_ebx_u_def upd_channel_def)
    have o: "open_call t' u (msg_channels ?s2 c) \<longleftrightarrow> int t' = int t \<and> u = ts_task_uid (tasks s t)" for t' u
      using c part n by (auto simp: open_call_def ch call_part_def)
    have u: "ts_task_uid (tasks ?s2 x) = ts_task_uid (tasks s x)" for x using k2 by (simp add: keeps_def same_tasks_def)
    have "calls_inv ?s2"
    proof (rule calls_keeps [OF inv k2])
      fix t' c' assume "outstanding s t' c'" "c' \<in> {c}"
      then show "outstanding ?s2 t' c'" using o u c by (simp add: open_call_def)
    qed
    then have "calls_inv (task_pause t PAUSE_MSG_CALL ?s2)"
      by (rule calls_pause [where c = c]) (use c o u keeps_live [OF k2] in simp_all)
    then show ?thesis using calls_calm calm_trans [OF calm_resume calm_switch(2) [OF sw]] by blast
  qed
qed

lemma msg_call_calls:
  assumes inv: "calls_inv s" and t: "t < 16" "ts_enabled (tasks s t)" and m: "load_send sm s = Some m" "sm_buffer m \<noteq> 0 \<or> sm_handle_count m > 0"
    and n: "call_uid_counter s \<noteq> 0" and call: "msg_call regs t uid sm rm s = Some (res, regs', s')"
  shows "calls_inv s'"
proof (cases "s' = s")
  case False
  then obtain c port where f: "find_own_channel t uid s = Some c" "find_port_by_uid (ch_port_uid (msg_channels s c)) s = Some port"
      "ch_client_taskuid (msg_channels s c) = ts_task_uid (tasks s t)" "ch_client_connected (msg_channels s c)" "ch_server_connected (msg_channels s c)"
    using call m(1) unfolding msg_call_def Let_def by (auto split: if_splits option.splits)
  obtain r where r: "load_recv rm s = Some r"
    using call m(1) f False unfolding msg_call_def Let_def by (auto simp: bind_eq_Some_conv split: if_splits)
  define s1 where "s1 = upd_channel c (\<lambda>y. y\<lparr> ch_client_recv_msg := r, ch_client_recv_msg_user := rm \<rparr>) s"
  obtain w s2 where w: "find_waiter port [0..<4] s1 = (w, s2)" by fastforce
  have k1: "keeps X s s1" for X unfolding s1_def by (rule keeps_upd) (simp_all add: call_part_def)
  have k2: "keeps X s s2" for X using held.trans [OF k1 keeps_find_waiter [of X s1 port "[0..<4]"]] unfolding w by simp
  note c = own_channel [OF _ f(1) t] 
  have own: "own_channels s" using inv by (simp add: calls_inv_def)
  have part: "call_part (msg_channels s2 c) = call_part (msg_channels s c)" "ch_client_taskid (msg_channels s2 c) = int t"
    "ch_client_taskuid (msg_channels s2 c) = ts_task_uid (tasks s2 t)" "c \<in> live s2"
    using k2 [of "{}"] c [OF own] f(3) keeps_live [OF k2] by (auto simp: keeps_def same_tasks_def)
  have inv2: "calls_inv s2" by (rule calls_held [OF inv k2])
  consider (stored) esp where "w = None" "switch_task regs False (task_pause t PAUSE_MSG_CALL (upd_channel c (\<lambda>y. y\<lparr> ch_client_send_msg := m \<rparr>) s2)) = Some (regs', esp, s')"
    | (sent) i where "w = Some i" "call_waiter regs t c port sm i s2 = Some (res, regs', s')"
    using call m(1) f r False w unfolding msg_call_def Let_def msg_find_waiter_def s1_def [symmetric]
    by (cases w) (auto simp: bind_eq_Some_conv s1_def split: if_splits)
  then show ?thesis
  proof cases
    case stored
    let ?s3 = "upd_channel c (\<lambda>y. y\<lparr> ch_client_send_msg := m \<rparr>) s2"
    have k3: "keeps {c} s2 ?s3" by (rule keeps_upd) simp_all
    have o: "open_call t' u (msg_channels ?s3 c) \<longleftrightarrow> t' = t \<and> u = ts_task_uid (tasks s2 t)" for t' u
      using part f m(2) by (auto simp: open_call_def upd_channel_def call_part_def channel_has_waiting_send_def)
    have tk: "tasks ?s3 = tasks s2" by (simp add: upd_channel_def)
    have "calls_inv ?s3"
    proof (rule calls_keeps [OF inv2 k3])
      fix t' c' assume a: "outstanding s2 t' c'" "c' \<in> {c}"
      then have "t' = t" using part by (simp add: open_call_def)
      then show "outstanding ?s3 t' c'" using a o tk by simp
    qed
    then have "calls_inv (task_pause t PAUSE_MSG_CALL ?s3)"
      by (rule calls_pause [where c = c]) (use part o tk keeps_live [OF k3] in simp_all)
    then show ?thesis using calls_calm calm_switch(1) [OF stored(2)] by blast
  next
    case sent
    have "call_uid_counter s2 = call_uid_counter s" using find_waiter_counter [of port "[0..<4]" s1] unfolding w by (simp add: s1_def upd_channel_def)
    then show ?thesis using call_waiter_calls [OF inv2 part(4,2,3) _ _ _ sent(2)] n f(4,5) part(1) by (simp add: call_part_def)
  qed
qed (use inv in simp)

section \<open>Receiving and replying\<close>

lemma keeps_counter_calm: "calm s s' \<Longrightarrow> call_uid_counter s' = call_uid_counter s" for s :: "'a msg_t_scheme"
  using more_msg [of s' s] by (simp add: calm_def same_msg_def)

lemma open_client:
  assumes "outstanding s t c" "t < 16" "waits (tasks s t)"
  shows "msg_get_task (ch_client_taskid (msg_channels s c)) (ch_client_taskuid (msg_channels s c)) s = Some t" "ts_pause_reason (tasks s t) = PAUSE_MSG_CALL"
  using assms by (simp_all add: open_call_def msg_get_task_def waits_def)

lemma receive_stored_calls:
  assumes "calls_inv s" "0 < call_uid_counter s" "unat (call_uid_counter s) + length is < 2 ^ 32"
    "receive_stored regs t port rm is s = Some (res, regs', s')"
  shows "calls_inv s'"
  using assms
proof (induction "is" arbitrary: s)
  case (Cons i "is")
  let ?c = "po_channels (msg_ports s port) ! i" and ?n = "call_uid_counter s"
  let ?m = "ch_client_send_msg (msg_channels s ?c)"
  define s1 where "s1 = (upd_channel ?c (\<lambda>c. c\<lparr> ch_client_send_msg := ?m\<lparr> sm_buffer := 0, sm_handle_count := 0 \<rparr> \<rparr>) s)\<lparr> call_uid_counter := ?n + 1 \<rparr>"
  consider (skip) "receive_stored regs t port rm is s = Some (res, regs', s')"
    | (copy) x r s2 where "msg_get_task (ch_client_taskid (msg_channels s ?c)) (ch_client_taskuid (msg_channels s ?c)) s = Some x"
        "msg_do_copy x t (\<lambda>_. Some ?m) (load_recv rm) rm ?n s1 = Some (r, s2)" "ch_server_connected (msg_channels s ?c)"
        "?c \<noteq> 0" "channel_has_waiting_send (msg_channels s ?c)"
    using Cons.prems(4) unfolding s1_def by (auto simp: Let_def bind_eq_Some_conv split: if_splits option.splits)
  then show ?case
  proof cases
    case skip
    then show ?thesis using Cons by simp
  next
    case copy
    have k1: "keeps {?c} s s1" unfolding s1_def by (rule held.trans [OF keeps_upd keeps_counter]) simp_all
    have k2: "keeps {?c} s s2" by (rule held.trans [OF k1 held.kernel [OF calm_do_copy [OF copy(2)]]])
    have n2: "call_uid_counter s2 = ?n + 1" using keeps_counter_calm [OF calm_do_copy [OF copy(2)]] by (simp add: s1_def)
    have ch: "msg_channels s2 ?c = (msg_channels s ?c)\<lparr> ch_client_send_msg := ?m\<lparr> sm_buffer := 0, sm_handle_count := 0 \<rparr> \<rparr>"
      using more_msg [of s2 s1] calm_do_copy [OF copy(2)] by (simp add: calm_def s1_def upd_channel_def)
    have client: "t' = x" if "outstanding s t' ?c" "t' < 16" "waits (tasks s t')" for t' using open_client(1) [OF that] copy(1) by simp
    have w: "waits (tasks s t')" if "waits (tasks s'' t')" "keeps {?c} s s''" for t' s'' using that by (simp add: keeps_def same_tasks_def)
    let ?f = "\<lambda>e. answer x (err_word e) s2"
    have k3: "keeps {?c} s (?f e)" for e by (rule held.trans [OF k2 held.kernel [OF calm_answer]])
    have f: "calls_inv (?f e)" for e
      by (rule calls_keeps [OF Cons.prems(1) k3]) (use client w [OF _ k3] answered in blast)
    have nf: "call_uid_counter (?f e) = ?n + 1" for e using keeps_counter_calm [OF calm_answer] n2 by metis
    consider (failed) e where "s' = ?f e" | (again) e where "receive_stored regs t port rm is (?f e) = Some (res, regs', s')"
      | (taken) "s' = upd_channel ?c (\<lambda>c. c\<lparr> ch_call_uid := ?n \<rparr>) s2"
      using Cons.prems(4) copy unfolding s1_def by (auto simp: Let_def answer_def split: if_splits option.splits)
    then show ?thesis
    proof cases
      case failed
      then show ?thesis using f by simp
    next
      case again
      have n: "unat (?n + 1) = unat ?n + 1" using Cons.prems(3) by (simp add: unat_word_ariths)
      show ?thesis
        by (rule Cons.IH [OF f _ _ again]) (use nf n Cons.prems(3) in \<open>simp_all add: word_less_nat_alt\<close>)
    next
      case taken
      have k4: "keeps {?c} s s'" unfolding taken by (rule held.trans [OF k2 keeps_call_uid]) simp
      have c4: "msg_channels s' ?c = (msg_channels s2 ?c)\<lparr> ch_call_uid := ?n \<rparr>" by (simp add: taken upd_channel_def)
      show ?thesis
      proof (rule calls_keeps [OF Cons.prems(1) k4])
        fix t' c' assume "outstanding s t' c'" "c' \<in> {?c}"
        moreover have "ts_task_uid (tasks s' t') = ts_task_uid (tasks s t')" using k4 by (simp add: keeps_def same_tasks_def)
        ultimately show "outstanding s' t' c'" using Cons.prems(2) by (auto simp: open_call_def c4 ch)
      qed
    qed
  qed
qed simp

lemma msg_receive_calls:
  assumes inv: "calls_inv s" and n: "0 < call_uid_counter s" "unat (call_uid_counter s) + 16 < 2 ^ 32"
    and rc: "msg_receive regs t port_uid rm s = Some (res, regs', s')"
  shows "calls_inv s'"
proof (cases "s' = s")
  case False
  then obtain port x regs1 s1 where 1: "find_port_by_uid port_uid s = Some port"
      "receive_stored regs t port rm [0..<po_channel_count (msg_ports s port)] s = Some (x, regs1, s1)"
    using rc unfolding msg_receive_def by (auto simp: bind_eq_Some_conv split: if_splits option.splits)
  have "po_channel_count (msg_ports s port) \<le> 16"
    using inv 1(1) by (auto simp: calls_inv_def own_channels_def port_channels_def find_port_by_uid_def find_Some_iff)
  then have inv1: "calls_inv s1" using receive_stored_calls [OF inv n(1) _ 1(2)] n(2) by simp
  have "s' = s1 \<or> (\<exists>r ok s2 e. msg_add_waiter port t r rm s1 = (ok, s2) \<and> (s' = s2 \<or> switch_task regs1 False (task_pause t PAUSE_MSG_RECEIVE s2) = Some (regs', e, s')))"
  proof (cases x)
    case None
    then obtain r where r: "load_recv rm s1 = Some r" using rc 1 False unfolding msg_receive_def by (auto simp: bind_eq_Some_conv split: if_splits)
    obtain ok s2 where a: "msg_add_waiter port t r rm s1 = (ok, s2)" by fastforce
    show ?thesis using rc 1 False None r a unfolding msg_receive_def by (cases ok) (auto simp: bind_eq_Some_conv split: if_splits)
  qed (use rc 1 False in \<open>auto simp: msg_receive_def split: if_splits\<close>)
  moreover have k: "keeps {} s1 s2" if "msg_add_waiter port t r rm s1 = (ok, s2)" for r ok s2
    using that keeps_port [of _ "{}" s1 port] held.refl by (auto simp: msg_add_waiter_def split: option.splits)
  moreover have "calm s2 s'" if "switch_task regs1 False (task_pause t PAUSE_MSG_RECEIVE s2) = Some (regs', e, s')" for s2 e
    by (rule calm_trans [OF calm_pause calm_switch(1) [OF that]]) simp
  ultimately show ?thesis using inv1 calls_held calls_calm by blast
qed (use inv in simp)

lemma reply_client_calm:
  assumes "reply_client regs t client c sm s = Some (res, regs', s')"
  obtains v s1 where "calm s s1" "calm (answer client v s1) s'"
proof -
  obtain e where e: "msg_validate_send sm s = Some e" using assms unfolding reply_client_def by (cases "msg_validate_send sm s") simp_all
  show ?thesis
  proof (cases e)
    case (Inl x)
    then have "s' = answer client (err_word (msg_get_peer_error x)) s" using assms e unfolding reply_client_def by simp
    then show ?thesis using that calm_refl by blast
  next
    case (Inr u)
    obtain m where m: "load_send sm s = Some m" using assms e Inr unfolding reply_client_def by (cases "load_send sm s") simp_all
    let ?h = "msg_check_handles (ts_process (tasks s t)) (sm_handles m) (nat (sm_handle_count m)) s"
    let ?d = "msg_do_copy t client (load_send sm) (\<lambda>_. Some (ch_client_recv_msg (msg_channels s c))) (ch_client_recv_msg_user (msg_channels s c)) 0 s"
    show ?thesis
    proof (cases "sm_size m > MSG_MAX_LEN \<or> ?h = Some False")
      case True
      then have "\<exists>v. s' = answer client v s" using assms e Inr m unfolding reply_client_def by (auto split: if_splits)
      then show ?thesis using that calm_refl by blast
    next
      case False
      then have h: "?h = Some True" using assms e Inr m unfolding reply_client_def by (auto simp: bind_eq_Some_conv)
      then obtain r s1 where d: "?d = Some (r, s1)" using assms e Inr m False unfolding reply_client_def by (cases ?d) auto
      show ?thesis
      proof (cases "rc_sender_status r")
        case None
        then obtain ok w where "switch_to_task (int client) w (answer client (of_int (rc_bytes r)) s1) = Some (ok, regs', s')"
          using assms e Inr m False h d unfolding reply_client_def by (auto simp: bind_eq_Some_conv)
        then show ?thesis using that [OF calm_do_copy [OF d] calm_switch(2)] by blast
      next
        case (Some x)
        then have "\<exists>v. s' = answer client v s1" using assms e Inr m False h d unfolding reply_client_def by auto
        then show ?thesis using that calm_do_copy [OF d] calm_refl by blast
      qed
    qed
  qed
qed

lemma msg_reply_calls:
  assumes inv: "calls_inv s" and r: "msg_reply regs t uid sm s = Some (res, regs', s')"
  shows "calls_inv s'"
proof (cases "s' = s")
  case False
  then obtain c where c: "find_call (ts_process (tasks s t)) uid s = Some c" using r unfolding msg_reply_def by (auto split: if_splits option.splits)
  define s1 where "s1 = upd_channel c (\<lambda>y. y\<lparr> ch_call_uid := 0 \<rparr>) s"
  have k1: "keeps {c} s s1" unfolding s1_def by (rule keeps_call_uid) simp
  have g: "msg_get_task i u s1 = msg_get_task i u s" for i u by (simp add: s1_def upd_channel_def msg_get_task_def)
  have tk: "tasks s1 = tasks s" by (simp add: s1_def upd_channel_def)
  let ?g = "msg_get_task (ch_client_taskid (msg_channels s c)) (ch_client_taskuid (msg_channels s c)) s"
  consider (gone) "s' = s1" "?g = None \<or> ts_pause_reason (tasks s (the ?g)) \<noteq> PAUSE_MSG_CALL"
    | (reply) x where "?g = Some x" "reply_client regs t x c sm s1 = Some (res, regs', s')"
  proof -
    have "(case msg_get_task (ch_client_taskid (msg_channels s c)) (ch_client_taskuid (msg_channels s c)) s1 of
        None \<Rightarrow> Some (Inl MSG_ERR_PEER_DISCONNECTED, regs, s1)
      | Some x \<Rightarrow> if ts_pause_reason (tasks s1 x) \<noteq> PAUSE_MSG_CALL then Some (Inl MSG_ERR_PEER_DISCONNECTED, regs, s1)
          else reply_client regs t x c sm s1) = Some (res, regs', s')"
      using r c False unfolding msg_reply_def s1_def by (simp add: Let_def split: if_splits)
    then show ?thesis using gone reply unfolding g tk by (auto split: if_splits option.splits)
  qed
  then show ?thesis
  proof cases
    case gone
    show ?thesis unfolding gone(1)
      by (rule calls_keeps [OF inv k1]) (use gone(2) open_client [of _ s c] tk in fastforce)
  next
    case reply
    obtain v s2 where 2: "calm s1 s2" "calm (answer x v s2) s'" by (rule reply_client_calm [OF reply(2)])
    have k2: "keeps {c} s (answer x v s2)" by (rule held.trans [OF k1 held.kernel [OF calm_trans [OF 2(1) calm_answer]]])
    have "calls_inv (answer x v s2)"
    proof (rule calls_keeps [OF inv k2])
      fix t' c' assume a: "t' < 16" "waits (tasks (answer x v s2) t')" "c' \<in> {c}" "outstanding s t' c'"
      then have "waits (tasks s t')" using k2 by (simp add: keeps_def same_tasks_def)
      then have "t' = x" using open_client(1) [of t' s c] a reply(1) by simp
      then show "outstanding (answer x v s2) t' c'" using a(2) by simp
    qed
    then show ?thesis by (rule calls_calm) (rule 2(2))
  qed
qed (use inv in simp)

section \<open>Messages\<close>

lemma keeps_send_store: "keeps X s (upd_channel c (send_store cr s2c flags bytes) s)"
  by (rule keeps_upd) (simp_all add: send_store_def upd_queue_def call_part_def Let_def)

lemma port_send_keeps:
  assumes g: "gui_keeps (keeps {}) gui" and p: "port_send gui regs t pu cu m flags s = Some (res, regs', s')"
  shows "keeps {} s s'"
proof (cases "s' = s")
  case False
  then obtain c cr b bytes x st r s2 where
      "call_msg_func gui (Some regs) x pu cu (end_flags (\<not> b) (msg_channels (upd_channel c (send_store cr b flags bytes) s) c))
         (upd_channel c (send_store cr b flags bytes) s) = Some (st, r, s2)" "s' = notified x c (\<not> b) st s2"
    using p unfolding port_send_def Let_def by (auto simp: bind_eq_Some_conv split: if_splits option.splits sum.splits)
  then show ?thesis using held.trans [OF held.trans [OF keeps_send_store held.call_func [OF g]] held.notified] by blast
qed (simp add: held.refl)

lemma keeps_unblock: "keeps X s (unblock server c s)"
proof -
  have r: "keeps X s (if b then task_resume t s else s)" for b t by (simp add: held.refl held.kernel [OF calm_resume])
  have f: "keeps X s (upd_channel c (\<lambda>y. y\<lparr> ch_client_blocked := False \<rparr>) s)" "keeps X s (upd_channel c (\<lambda>y. y\<lparr> ch_server_blocked := False \<rparr>) s)" for s :: "'a msg_t_scheme"
    by (rule keeps_upd; simp add: call_part_def)+
  show ?thesis unfolding unblock_def Let_def using held.trans [OF r f(1)] held.trans [OF r f(2)] by (simp add: held.refl)
qed

lemma calm_store: "store_bytes d v bs s = Some s' \<Longrightarrow> calm s s'"
  by (rule calm_tasks) (simp_all add: more_store tasks_store)

lemma port_receive_keeps:
  assumes p: "port_receive t pu cu buf sz s = Some (res, s')"
  shows "keeps {} s s'"
proof (cases "s' = s")
  case False
  have fl: "keeps {} s (clear_flags b c s)" for b c and s :: "'a msg_t_scheme" unfolding clear_flags_def by (rule held.marks) (simp add: core_def)
  obtain port where port: "find_port_by_uid pu s = Some port" using p False by (auto simp: port_receive_def split: option.splits)
  then obtain i where i: "find_channel port cu s = Some i" using p False by (auto simp: port_receive_def split: option.splits)
  define c where "c = po_channels (msg_ports s port) ! i"
  define sv where "sv = is_server t (msg_channels s c) s"
  define q where "q = ch_queues (msg_channels s c) (\<not> sv)"
  define up where "up = (\<lambda>y. upd_queue (\<not> sv) msg_queue_take (if sv \<and> po_client_reserves (msg_ports s port) \<and> ucast (mo_flags (msg_queue_front q)) AND MSG_EXPECT_REPLY \<noteq> 0
      then y\<lparr> ch_server_unanswered := ch_server_unanswered y + 1 \<rparr> else y))"
  have k: "keeps {} s (upd_channel c up s)" for s :: "'a msg_t_scheme" unfolding up_def by (rule keeps_upd) (simp_all add: upd_queue_def call_part_def)
  show ?thesis
  proof (cases "mq_count q = 0")
    case True
    then have "s' = clear_flags sv c s" using p False port i unfolding port_receive_def Let_def
      by (simp add: c_def [symmetric] sv_def [symmetric] q_def [symmetric] split: if_splits)
    then show ?thesis using fl by simp
  next
    case ne: False
    then obtain s1 where 1: "store_bytes (current_page_dir s) buf (mo_data (msg_queue_front q)) s = Some s1" "s' = clear_flags sv c (unblock sv c (upd_channel c up s1))"
      using p False unfolding port_receive_def port i option.case Let_def
      unfolding c_def [symmetric] unfolding sv_def [symmetric] unfolding q_def [symmetric] unfolding up_def [symmetric]
      by (cases "store_bytes (current_page_dir s) buf (mo_data (msg_queue_front q)) s") (auto split: if_splits)
    show ?thesis unfolding 1(2)
      by (rule held.trans [OF held.trans [OF held.trans [OF held.kernel [OF calm_store [OF 1(1)]] k] keeps_unblock] fl])
  qed
qed (simp add: held.refl)

lemma msg_wait_keeps: "msg_wait_on_receive t pu cu s = (ok, s') \<Longrightarrow> keeps {} s s'"
proof -
  have u: "keeps {} s (upd_channel c (\<lambda>y. if b then y\<lparr> ch_client_blocked := True \<rparr> else y\<lparr> ch_server_blocked := True \<rparr>) s)" for b c
    by (rule keeps_upd) (simp_all add: call_part_def)
  show "msg_wait_on_receive t pu cu s = (ok, s') \<Longrightarrow> keeps {} s s'"
    using held.trans [OF u held.kernel [OF calm_pause]] held.refl by (auto simp: msg_wait_on_receive_def Let_def split: option.splits if_splits)
qed

section \<open>Closing\<close>

lemma set_forget:
  assumes "distinct xs"
  shows "set (forget x xs) = set xs - {x}" "distinct (forget x xs)"
proof -
  have "set (forget x xs) = set xs - {x} \<and> distinct (forget x xs)"
  proof (cases "x \<in> set xs")
    case False
    then have "List.find (\<lambda>i. xs ! i = x) [0..<length xs] = None" by (auto simp: find_None_iff in_set_conv_nth)
    then show ?thesis using False assms by simp
  next
    case True
    then obtain i where i: "List.find (\<lambda>i. xs ! i = x) [0..<length xs] = Some i" "i < length xs" "xs ! i = x"
      by (cases "List.find (\<lambda>i. xs ! i = x) [0..<length xs]") (auto simp: find_None_iff find_Some_iff in_set_conv_nth)
    obtain ys l where xs: "xs = ys @ [l]" using True by (cases xs rule: rev_cases) auto
    show ?thesis
    proof (cases "i = length ys")
      case True
      then show ?thesis using i xs assms by auto
    next
      case False
      then have il: "i < length ys" "ys ! i = x" using i xs by (auto simp: nth_append)
      then have "forget x xs = ys[i := l]" using i xs by (simp add: list_update_append)
      moreover have "distinct (ys[i := l])" using assms xs by (auto intro: distinct_list_update)
      moreover have "set (ys[i := l]) = insert l (set ys - {x})" using il assms xs set_update_distinct [of ys i l] by simp
      ultimately show ?thesis using il assms xs by auto
    qed
  qed
  then show "set (forget x xs) = set xs - {x}" "distinct (forget x xs)" by simp_all
qed

lemma distinct_clear:
  "distinct (map g (filter (\<lambda>c. c \<noteq> 0) (take n xs))) \<Longrightarrow> distinct (map g (filter (\<lambda>c. c \<noteq> 0) (take n (xs[i := 0]))))" for xs :: "u32 list"
proof (induction xs arbitrary: n i)
  case (Cons x xs)
  have sub: "set (filter (\<lambda>c. c \<noteq> 0) (take m (xs[j := 0]))) \<subseteq> set (filter (\<lambda>c. c \<noteq> 0) (take m xs))" for m j
    using set_update_subset_insert [of "take m xs" j 0] by (auto simp: take_update_swap)
  show ?case
  proof (cases n)
    case (Suc m)
    then show ?thesis using Cons sub [of m "i - 1"] by (cases i) (auto split: if_splits)
  qed simp
qed simp

lemma calls_forget_channel: "calls_inv s \<Longrightarrow> t < 16 \<Longrightarrow> ts_enabled (tasks s t) \<Longrightarrow> calls_inv (task_forget_channel t c s)"
  using set_forget [of "ts_msg_channels s t" c]
  by (auto simp: calls_inv_def no_lost_def own_channels_def task_forget_channel_def live_def simp del: forget.simps)

text \<open>A channel that is closed on one side carries no open call, so its memory may be given back.\<close>

lemma calls_free_channel:
  assumes inv: "calls_inv s" and p: "port \<in> set (ports s)" and i: "i < po_channel_count (msg_ports s port)"
    and closed: "\<not> (ch_client_connected (msg_channels s (po_channels (msg_ports s port) ! i)) \<and> ch_server_connected (msg_channels s (po_channels (msg_ports s port) ! i)))"
  shows "calls_inv (msg_free_channel port i s)"
proof (cases "po_channels (msg_ports s port) ! i = 0")
  case False
  let ?P = "msg_ports s port" and ?c = "po_channels (msg_ports s port) ! i"
  define cl where "cl = msg_get_task (ch_client_taskid (msg_channels s ?c)) (ch_client_taskuid (msg_channels s ?c)) s"
  define s' where "s' = msg_free_channel port i s"
  have own: "own_channels s" and lost: "no_lost s" using inv by (simp_all add: calls_inv_def)
  define s1 where "s1 = (case cl of None \<Rightarrow> s | Some t \<Rightarrow> task_forget_channel t ?c s)"
  have "s' = free ?c 3728 (upd_port port (\<lambda>p. p\<lparr> po_channels := (po_channels p)[i := 0] \<rparr>) s1)"
    using False unfolding s'_def msg_free_channel_def Let_def s1_def cl_def by simp
  then have "same_msg (upd_port port (\<lambda>p. p\<lparr> po_channels := (po_channels p)[i := 0] \<rparr>) s1) s' \<and> msg_channels s' = msg_channels s1 \<and> tasks s' = tasks s"
    using more_msg [of s' "upd_port port (\<lambda>p. p\<lparr> po_channels := (po_channels p)[i := 0] \<rparr>) s1"] by (simp add: upd_port_def s1_def task_forget_channel_def split: option.splits)
  moreover have "msg_ports s1 = msg_ports s" "ports s1 = ports s" "msg_channels s1 = msg_channels s" "channel_uid_counter s1 = channel_uid_counter s" "msg_uid_counter s1 = msg_uid_counter s"
    "ts_msg_channels s1 = (case cl of None \<Rightarrow> ts_msg_channels s | Some t \<Rightarrow> (ts_msg_channels s)(t := forget ?c (ts_msg_channels s t)))"
    by (simp_all add: s1_def task_forget_channel_def split: option.splits del: forget.simps)
  ultimately have f: "tasks s' = tasks s" "msg_channels s' = msg_channels s" "ports s' = ports s"
    "msg_ports s' = (msg_ports s)(port := ?P\<lparr> po_channels := (po_channels ?P)[i := 0] \<rparr>)"
    "ts_msg_channels s' = (case cl of None \<Rightarrow> ts_msg_channels s | Some t \<Rightarrow> (ts_msg_channels s)(t := forget ?c (ts_msg_channels s t)))"
    "channel_uid_counter s' = channel_uid_counter s" "msg_uid_counter s' = msg_uid_counter s"
    by (simp_all add: same_msg_def upd_port_def)
  have len: "i < length (po_channels ?P)" using own p i by (auto simp: own_channels_def port_channels_def)
  have sub: "c \<in> set (take n (xs[i := 0]))" if "c \<in> set (take n xs)" "c \<noteq> xs ! i" for c n and xs :: "u32 list"
    using that by (auto simp: in_set_conv_nth) (metis nth_list_update_neq nth_take)
  have l1: "live s - {?c} \<subseteq> live s'"
  proof
    fix c assume "c \<in> live s - {?c}"
    then obtain p where "p \<in> set (ports s)" "c \<in> set (take (po_channel_count (msg_ports s p)) (po_channels (msg_ports s p)))" "c \<noteq> 0" "c \<noteq> ?c"
      by (auto simp: live_def)
    then show "c \<in> live s'" using sub [of c _ "po_channels ?P"] unfolding live_def f by (cases "p = port") (auto intro!: bexI [of _ p])
  qed
  have l2: "live s' \<subseteq> live s"
  proof
    fix c assume "c \<in> live s'"
    then obtain p where p: "p \<in> set (ports s)" "c \<in> set (take (po_channel_count (msg_ports s' p)) (po_channels (msg_ports s' p)))" "c \<noteq> 0"
      by (auto simp: live_def f)
    moreover have "set (take n (xs[i := 0])) \<subseteq> insert 0 (set (take n xs))" for n and xs :: "u32 list"
      using set_update_subset_insert [of "take n xs" i 0] by (simp add: take_update_swap)
    ultimately show "c \<in> live s" unfolding live_def by (cases "p = port") (auto simp: f intro!: bexI [of _ p])
  qed
  have "no_lost s'" unfolding no_lost_def
  proof (intro allI impI)
    fix t :: nat assume "t < 16" "waits (tasks s' t)"
    then obtain c where c: "c \<in> live s" "outstanding s t c" using lost by (auto simp: no_lost_def f)
    moreover have "c \<noteq> ?c" using c(2) closed by (auto simp: open_call_def)
    ultimately show "\<exists>c\<in>live s'. outstanding s' t c" using l1 f by auto
  qed
  moreover have "own_channels s'"
  proof -
    have mem: "set (ts_msg_channels s' t) \<subseteq> set (ts_msg_channels s t) - {?c} \<and> distinct (ts_msg_channels s' t)" if t: "t < 16" "ts_enabled (tasks s t)" for t
    proof (cases "?c \<in> set (ts_msg_channels s t)")
      case True
      then have "cl = Some t" using own t by (auto simp: own_channels_def cl_def msg_get_task_def)
      then show ?thesis using own t set_forget [of "ts_msg_channels s t" ?c] by (simp add: f own_channels_def del: forget.simps)
    next
      case False
      then show ?thesis using own t set_forget [of "ts_msg_channels s t" ?c] by (auto simp: f own_channels_def split: option.splits simp del: forget.simps)
    qed
    have "port_channels (msg_ports s' p') (\<lambda>c. ch_uid (msg_channels s' c))" if "p' \<in> set (ports s)" for p'
      using own that distinct_clear [of "\<lambda>c. ch_uid (msg_channels s c)"] by (auto simp: own_channels_def port_channels_def f)
    moreover have "c \<in> live s' \<and> ch_client_taskid (msg_channels s' c) = int t \<and> ch_client_taskuid (msg_channels s' c) = ts_task_uid (tasks s' t)"
      if "t < 16" "ts_enabled (tasks s t)" "c \<in> set (ts_msg_channels s' t)" for t c
      using mem [OF that(1,2)] that l1 own unfolding own_channels_def f(1,2) by blast
    moreover have "distinct (map (\<lambda>p. po_uid (msg_ports s' p)) (ports s))"
    proof -
      have "(\<lambda>p. po_uid (msg_ports s' p)) = (\<lambda>p. po_uid (msg_ports s p))" by (auto simp: f(4))
      then show ?thesis using own by (simp add: own_channels_def)
    qed
    moreover have "\<forall>c\<in>live s'. ch_uid (msg_channels s' c) < channel_uid_counter s'" "\<forall>p\<in>set (ports s). po_uid (msg_ports s' p) < msg_uid_counter s'"
      using own l2 unfolding own_channels_def f(2,4,6,7) by auto
    ultimately show ?thesis using own mem unfolding own_channels_def f(1,3) by simp
  qed
  ultimately show ?thesis unfolding s'_def calls_inv_def by simp
qed (use inv in \<open>simp add: msg_free_channel_def\<close>)

text \<open>When the server closes, a client in a call on the channel is woken.\<close>

lemma close_server_calls:
  assumes inv: "calls_inv s" and g: "gui_keeps (keeps {}) gui" and cl: "close_server gui regs pu cu c s = Some (r, s')"
  shows "calls_inv s'" "keeps {c} s s'" "\<not> ch_server_connected (msg_channels s' c)"
proof -
  define s0 where "s0 = upd_channel c (\<lambda>y. y\<lparr> ch_client_flags := ch_client_flags y OR MSG_FLAG_CLOSED \<rparr>) s"
  let ?y = "msg_channels s0 c"
  have k0: "keeps {} s s0" unfolding s0_def by (rule held.marks) (simp add: core_def)
  have y: "call_part ?y = call_part (msg_channels s c)" "ch_client_taskid ?y = ch_client_taskid (msg_channels s c)"
    "ch_client_taskuid ?y = ch_client_taskuid (msg_channels s c)" and tk: "tasks s0 = tasks s"
    by (simp_all add: s0_def upd_channel_def call_part_def)
  let ?g = "msg_get_task (ch_client_taskid ?y) (ch_client_taskuid ?y) s0"
  have get: "?g = Some t'" if "outstanding s t' c" "t' < 16" "waits (tasks s t')" for t'
    using open_client(1) [OF that] unfolding msg_get_task_def y(2,3) tk .
  let ?last = "\<lambda>y. y\<lparr> ch_server_connected := False, ch_client_send_msg := (ch_client_send_msg y)\<lparr> sm_buffer := 0, sm_handle_count := 0 \<rparr>, ch_call_uid := 0 \<rparr>"
  obtain s4 where 4: "keeps {} s s4" "s' = upd_channel c ?last s4" "\<forall>t'<16. waits (tasks s4 t') \<longrightarrow> \<not> outstanding s t' c"
  proof (cases "?g = None \<or> \<not> ch_client_connected ?y")
    case True
    then have s': "s' = upd_channel c ?last s0" using cl unfolding close_server_def Let_def s0_def [symmetric] by (auto split: option.splits)
    have "\<not> outstanding s t' c" if "t' < 16" "waits (tasks s0 t')" for t'
    proof
      assume o: "outstanding s t' c"
      then have "ch_client_connected ?y" using y(1) by (simp add: open_call_def call_part_def)
      then show False using True get [OF o] that tk by simp
    qed
    then show ?thesis using that [OF k0 s'] by blast
  next
    case False
    then obtain x where x: "?g = Some x" "ch_client_connected ?y" by auto
    define s1 where "s1 = (if ch_client_blocked ?y then upd_channel c (\<lambda>y. y\<lparr> ch_client_blocked := False \<rparr>) (task_resume x s0) else s0)"
    define s2 where "s2 = (if ts_paused (tasks s1 x) \<and> ts_pause_reason (tasks s1 x) = PAUSE_MSG_CALL \<and> (channel_has_waiting_send ?y \<or> ch_call_uid ?y \<noteq> 0)
        then answer x (err_word MSG_ERR_PEER_DISCONNECTED) s1 else s1)"
    have bl: "keeps {} s (upd_channel c (\<lambda>y. y\<lparr> ch_client_blocked := False \<rparr>) s)" for s :: "'a msg_t_scheme" by (rule keeps_upd) (simp_all add: call_part_def)
    have k1: "keeps {} s0 s1" unfolding s1_def by (simp add: held.refl held.trans [OF held.kernel [OF calm_resume] bl])
    have k2: "keeps {} s1 s2" unfolding s2_def by (simp add: held.refl held.kernel [OF calm_answer])
    have w2: "\<not> (channel_has_waiting_send ?y \<or> ch_call_uid ?y \<noteq> 0)" if "waits (tasks s2 x)"
      using that by (auto simp: s2_def waits_def split: if_splits) (auto simp: answer_def task_resume_def upd_task_def)
    obtain st r1 s3 where 3: "call_msg_func gui regs x pu cu (ch_client_flags (msg_channels s2 c)) s2 = Some (st, r1, s3)"
        "s' = upd_channel c ?last (notified x c False st s3)"
      using cl unfolding close_server_def Let_def s0_def [symmetric] x(1) option.case if_P [OF x(2)]
      unfolding s1_def [symmetric] answer_def [symmetric] unfolding s2_def [symmetric] by (auto simp: bind_eq_Some_conv)
    let ?s4 = "notified x c False st s3"
    have k24: "keeps {} s2 ?s4" by (rule held.trans [OF held.call_func [OF g 3(1)] held.notified])
    have k4: "keeps {} s ?s4" by (rule held.trans [OF held.trans [OF held.trans [OF k0 k1] k2] k24])
    have "\<not> outstanding s t' c" if "t' < 16" "waits (tasks ?s4 t')" for t'
    proof
      assume o: "outstanding s t' c"
      have "waits (tasks s t')" "waits (tasks s2 t')" using that(2) k4 k24 by (simp_all add: keeps_def same_tasks_def)
      then have "t' = x" using get [OF o that(1)] x by simp
      then show False using w2 \<open>waits (tasks s2 t')\<close> o y by (simp add: open_call_def call_part_def channel_has_waiting_send_def)
    qed
    then show ?thesis using that [OF k4 3(2)] by blast
  qed
  show k: "keeps {c} s s'" unfolding 4(2) by (rule held.trans [OF keeps_mono [OF 4(1)] keeps_upd]) simp_all
  have "waits (tasks s4 t)" if "waits (tasks s' t)" for t using that by (simp add: 4(2) upd_channel_def)
  then show "calls_inv s'" by (intro calls_keeps [OF inv k]) (use 4(3) in blast)
  show "\<not> ch_server_connected (msg_channels s' c)" by (simp add: 4(2) upd_channel_def)
qed

text \<open>A client that closes is not in a call.\<close>

lemma close_client_calls:
  assumes inv: "calls_inv s" and g: "gui_keeps (keeps {}) gui" and cl: "close_client gui regs pu cu c s = Some (r, s')"
    and t: "\<And>t. t < 16 \<Longrightarrow> waits (tasks s t) \<Longrightarrow> \<not> outstanding s t c"
  shows "calls_inv s'" "keeps {c} s s'" "\<not> ch_client_connected (msg_channels s' c)"
proof -
  define s0 where "s0 = upd_channel c (\<lambda>y. y\<lparr> ch_server_flags := ch_server_flags y OR MSG_FLAG_CLOSED \<rparr>) s"
  have k0: "keeps {} s s0" unfolding s0_def by (rule held.marks) (simp add: core_def)
  let ?last = "\<lambda>y. y\<lparr> ch_client_connected := False, ch_client_send_msg := (ch_client_send_msg y)\<lparr> sm_buffer := 0, sm_handle_count := 0 \<rparr>,
      ch_client_recv_msg := (ch_client_recv_msg y)\<lparr> rm_buffer := 0, rm_handle_count := 0 \<rparr>, ch_client_recv_msg_user := 0, ch_call_uid := 0 \<rparr>"
  obtain s4 where 4: "keeps {} s s4" "s' = upd_channel c ?last s4"
  proof (cases "s' = upd_channel c ?last s0")
    case True
    then show ?thesis using that k0 by blast
  next
    case False
    define s1 where "s1 = (\<lambda>x. if ch_server_blocked (msg_channels s0 c) then upd_channel c (\<lambda>y. y\<lparr> ch_server_blocked := False \<rparr>) (task_resume x s0) else s0)"
    have bl: "keeps {} s (upd_channel c (\<lambda>y. y\<lparr> ch_server_blocked := False \<rparr>) s)" for s :: "'a msg_t_scheme" by (rule keeps_upd) (simp_all add: call_part_def)
    have k1: "keeps {} s0 (s1 x)" for x unfolding s1_def by (simp add: held.refl held.trans [OF held.kernel [OF calm_resume] bl])
    obtain x st r1 s3 where "call_msg_func gui regs x pu cu (ch_server_flags (msg_channels (s1 x) c)) (s1 x) = Some (st, r1, s3)"
        "s' = upd_channel c ?last (notified x c True st s3)"
      using cl False unfolding close_client_def Let_def s0_def [symmetric]
      by (auto simp: bind_eq_Some_conv s1_def split: option.splits if_splits)
    then show ?thesis using that held.trans [OF held.trans [OF k0 k1] held.trans [OF held.call_func [OF g] held.notified]] by blast
  qed
  show k: "keeps {c} s s'" unfolding 4(2) by (rule held.trans [OF keeps_mono [OF 4(1)] keeps_upd]) simp_all
  have w: "waits (tasks s t)" if "waits (tasks s' t)" for t using that k by (simp add: keeps_def same_tasks_def)
  then show "calls_inv s'" by (intro calls_keeps [OF inv k]) (use t in blast)
  show "\<not> ch_client_connected (msg_channels s' c)" by (simp add: 4(2) upd_channel_def)
qed

lemma lookup_channel_Some:
  assumes "lookup_channel pu cu s = Some (port, i, c)"
  shows "port \<in> set (ports s)" "i < po_channel_count (msg_ports s port)" "c = po_channels (msg_ports s port) ! i" "c \<noteq> 0"
  using assms by (auto simp: lookup_channel_def bind_eq_Some_conv find_port_by_uid_def find_channel_def find_Some_iff Let_def)

text \<open>The ports of a state with some channels removed.\<close>

definition fewer :: "'a msg_t_scheme \<Rightarrow> 'a msg_t_scheme \<Rightarrow> bool" where
  "fewer s s' \<longleftrightarrow> ports s' = ports s \<and> (\<forall>p. po_channel_count (msg_ports s' p) = po_channel_count (msg_ports s p)
     \<and> (\<forall>j. po_channels (msg_ports s p) ! j = 0 \<longrightarrow> j < length (po_channels (msg_ports s p)) \<longrightarrow> po_channels (msg_ports s' p) ! j = 0)
     \<and> length (po_channels (msg_ports s' p)) = length (po_channels (msg_ports s p)))"

lemma fewer_trans: "fewer s s1 \<Longrightarrow> fewer s1 s2 \<Longrightarrow> fewer s s2"
  by (simp add: fewer_def)

lemma fewer_keeps: "keeps X s s' \<Longrightarrow> fewer s s'"
  by (simp add: fewer_def keeps_def)

lemma fewer_free:
  shows "fewer s (msg_free_channel port i s)"
    "i < length (po_channels (msg_ports s port)) \<Longrightarrow> po_channels (msg_ports (msg_free_channel port i s) port) ! i = 0"
proof -
  let ?c = "po_channels (msg_ports s port) ! i"
  have "ports (msg_free_channel port i s) = ports s \<and> (?c \<noteq> 0 \<longrightarrow> msg_ports (msg_free_channel port i s) = (msg_ports s)(port := (msg_ports s port)\<lparr> po_channels := (po_channels (msg_ports s port))[i := 0] \<rparr>))
      \<and> (?c = 0 \<longrightarrow> msg_free_channel port i s = s)"
  proof -
    define s1 where "s1 = (case msg_get_task (ch_client_taskid (msg_channels s ?c)) (ch_client_taskuid (msg_channels s ?c)) s of None \<Rightarrow> s | Some t \<Rightarrow> task_forget_channel t ?c s)"
    have "msg_ports s1 = msg_ports s" "ports s1 = ports s" by (simp_all add: s1_def task_forget_channel_def split: option.splits)
    moreover have "same_msg u (free a n u)" for a n and u :: "'a msg_t_scheme" by (rule same_more) simp
    then have "ports (free a n u) = ports u \<and> msg_ports (free a n u) = msg_ports u" for a n and u :: "'a msg_t_scheme" by (simp add: same_msg_def)
    ultimately show ?thesis unfolding msg_free_channel_def Let_def s1_def [symmetric] by (simp add: upd_port_def)
  qed
  note e = this
  show "po_channels (msg_ports (msg_free_channel port i s) port) ! i = 0" if "i < length (po_channels (msg_ports s port))"
    using e that by (cases "?c = 0") simp_all
  show "fewer s (msg_free_channel port i s)"
  proof (cases "?c = 0")
    case True
    then show ?thesis using e by (simp add: fewer_def)
  next
    case False
    have "xs[i := 0] ! j = 0" if "xs ! j = 0" "j < length xs" for j and xs :: "u32 list" using that by (cases "i = j") simp_all
    then show ?thesis using e False by (simp add: fewer_def)
  qed
qed

text \<open>The task that closes is running, or the port is destroyed.\<close>

lemma port_close_calls:
  assumes inv: "calls_inv s" and g: "gui_keeps (keeps {}) gui" and t: "\<And>t. task = Some t \<Longrightarrow> t < 16 \<and> ts_enabled (tasks s t) \<and> \<not> waits (tasks s t)"
    and cl: "port_close_connection gui regs task pu cu s = Some (ok, r, s')"
  shows "calls_inv s'" "fewer s s'"
    "task = None \<Longrightarrow> lookup_channel pu cu s = Some (port, i, c) \<Longrightarrow> po_channels (msg_ports s' port) ! i \<noteq> 0 \<Longrightarrow>
       po_channels (msg_ports s' port) ! i = c \<and> \<not> ch_server_connected (msg_channels s' c)"
proof -
  have "calls_inv s' \<and> fewer s s' \<and> (\<forall>port i c. task = None \<longrightarrow> lookup_channel pu cu s = Some (port, i, c) \<longrightarrow> po_channels (msg_ports s' port) ! i \<noteq> 0 \<longrightarrow>
       po_channels (msg_ports s' port) ! i = c \<and> \<not> ch_server_connected (msg_channels s' c))"
  proof (cases "lookup_channel pu cu s = None \<or> (\<exists>t. task = Some t \<and> \<not> may_access t (msg_channels s (snd (snd (the (lookup_channel pu cu s))))) s)")
    case True
    then have "s' = s \<and> (task = None \<longrightarrow> lookup_channel pu cu s = None)" using cl by (auto simp: port_close_connection_def split: option.splits)
    then show ?thesis using inv by (auto simp: fewer_def)
  next
    case False
    then obtain port i c where l: "lookup_channel pu cu s = Some (port, i, c)" by auto
    note lc = lookup_channel_Some [OF l]
    have acc: "may_access t (msg_channels s c) s" if "task = Some t" for t using False that l by simp
    let ?srv = "case task of None \<Rightarrow> True | Some t \<Rightarrow> is_server t (msg_channels s c) s"
    obtain s1 where 1: "(if ?srv then close_server gui regs pu cu c s else close_client gui regs pu cu c s) = Some (r, s1)"
        "s' = (if \<not> ch_server_connected (msg_channels s1 c) \<and> \<not> ch_client_connected (msg_channels s1 c) then msg_free_channel port i s1 else s1)"
    proof -
      have nd: "\<not> (case task of None \<Rightarrow> False | Some t \<Rightarrow> \<not> may_access t (msg_channels s c) s)" using acc by (auto split: option.splits)
      show ?thesis using that cl unfolding port_close_connection_def l option.case prod.case Let_def if_not_P [OF nd] by (auto simp: bind_eq_Some_conv)
    qed
    have "\<not> outstanding s t' c" if w: "t' < 16" "waits (tasks s t')" "\<not> ?srv" for t'
    proof
      assume o: "outstanding s t' c"
      obtain t0 where t0: "task = Some t0" "\<not> is_server t0 (msg_channels s c) s" using w(3) by (cases task) auto
      then have "ts_task_uid (tasks s t0) = ts_task_uid (tasks s t')" using acc [OF t0(1)] o by (simp add: may_access_def is_server_def open_call_def)
      then have "t0 = t'" using inv t [OF t0(1)] w(1,2) unfolding calls_inv_def own_channels_def waits_def by metis
      then show False using t [OF t0(1)] w(2) by simp
    qed
    then have s1: "calls_inv s1 \<and> keeps {c} s s1 \<and> (task = None \<longrightarrow> \<not> ch_server_connected (msg_channels s1 c))"
      using 1(1) close_server_calls [OF inv g, of regs pu cu c r s1] close_client_calls [OF inv g, of regs pu cu c r s1] by (auto split: if_splits option.splits)
    have same: "po_channels (msg_ports s1 port) = po_channels (msg_ports s port)" "po_channel_count (msg_ports s1 port) = po_channel_count (msg_ports s port)" "ports s1 = ports s"
      using s1 by (simp_all add: keeps_def)
    have len: "i < length (po_channels (msg_ports s port))" using inv lc by (auto simp: calls_inv_def own_channels_def port_channels_def)
    show ?thesis
    proof (cases "\<not> ch_server_connected (msg_channels s1 c) \<and> \<not> ch_client_connected (msg_channels s1 c)")
      case True
      then have s': "s' = msg_free_channel port i s1" using 1(2) by simp
      have "calls_inv s'" unfolding s' by (rule calls_free_channel) (use s1 lc same True in simp_all)
      then show ?thesis using fewer_trans [OF fewer_keeps fewer_free(1)] s1 fewer_free(2) [of i s1 port] same len l unfolding s' by auto
    next
      case False
      then have "s' = s1" using 1(2) by auto
      then show ?thesis using s1 fewer_keeps l lc(3) same by auto
    qed
  qed
  then show "calls_inv s'" "fewer s s'" "task = None \<Longrightarrow> lookup_channel pu cu s = Some (port, i, c) \<Longrightarrow> po_channels (msg_ports s' port) ! i \<noteq> 0 \<Longrightarrow>
       po_channels (msg_ports s' port) ! i = c \<and> \<not> ch_server_connected (msg_channels s' c)" by blast+
qed

lemma distinct_key_unique: "distinct (map g xs) \<Longrightarrow> x \<in> set xs \<Longrightarrow> y \<in> set xs \<Longrightarrow> g x = g y \<Longrightarrow> x = y"
  by (auto simp: distinct_map inj_on_def)

lemma lookup_own:
  assumes own: "own_channels s" and p: "port \<in> set (ports s)" and i: "i < po_channel_count (msg_ports s port)" and c: "c = po_channels (msg_ports s port) ! i" "c \<noteq> 0"
  shows "lookup_channel (po_uid (msg_ports s port)) (ch_uid (msg_channels s c)) s = Some (port, i, c)"
proof -
  let ?P = "msg_ports s port" and ?n = "po_channel_count (msg_ports s port)"
  have "find_port_by_uid (po_uid ?P) s = Some port"
  proof -
    have "\<exists>q. find_port_by_uid (po_uid ?P) s = Some q" using p by (cases "find_port_by_uid (po_uid ?P) s") (auto simp: find_port_by_uid_def find_None_iff)
    then obtain q where q: "find_port_by_uid (po_uid ?P) s = Some q" by blast
    then have "q \<in> set (ports s)" "po_uid (msg_ports s q) = po_uid ?P" by (auto simp: find_port_by_uid_def find_Some_iff)
    then have "q = port" using distinct_key_unique [of "\<lambda>p. po_uid (msg_ports s p)" "ports s" q port] own p by (auto simp: own_channels_def)
    then show ?thesis using q by simp
  qed
  moreover have "find_channel port (ch_uid (msg_channels s c)) s = Some i"
  proof -
    let ?Q = "\<lambda>i. po_channels ?P ! i \<noteq> 0 \<and> ch_uid (msg_channels s (po_channels ?P ! i)) = ch_uid (msg_channels s c)"
    have pc: "?n \<le> 16" "length (po_channels ?P) = 16" "distinct (map (\<lambda>c. ch_uid (msg_channels s c)) (filter (\<lambda>c. c \<noteq> 0) (take ?n (po_channels ?P))))"
      using own p by (auto simp: own_channels_def port_channels_def)
    have "j = i" if "j < ?n" "?Q j" for j
    proof (rule ccontr)
      assume ne: "j \<noteq> i"
      have *: False if "a < b" "b < ?n" "?Q a" "?Q b" for a b
      proof -
        let ?xs = "take ?n (po_channels ?P)"
        have "?xs = take b ?xs @ ?xs ! b # drop (Suc b) ?xs" using that pc by (intro id_take_nth_drop) simp
        then have "filter (\<lambda>c. c \<noteq> 0) ?xs = filter (\<lambda>c. c \<noteq> 0) (take b ?xs) @ filter (\<lambda>c. c \<noteq> 0) (?xs ! b # drop (Suc b) ?xs)" by (metis filter_append)
        then have dj: "(\<lambda>c. ch_uid (msg_channels s c)) ` set (filter (\<lambda>c. c \<noteq> 0) (take b ?xs)) \<inter> (\<lambda>c. ch_uid (msg_channels s c)) ` set (filter (\<lambda>c. c \<noteq> 0) (?xs ! b # drop (Suc b) ?xs)) = {}"
          using pc(3) by (simp only: map_append distinct_append set_map)
        have "?xs ! a \<in> set (filter (\<lambda>c. c \<noteq> 0) (take b ?xs))" using that pc by (auto simp: in_set_conv_nth intro!: exI [of _ a])
        moreover have "?xs ! b \<in> set (filter (\<lambda>c. c \<noteq> 0) (?xs ! b # drop (Suc b) ?xs))" using that by simp
        moreover have "ch_uid (msg_channels s (?xs ! a)) = ch_uid (msg_channels s (?xs ! b))" using that by simp
        ultimately show False using dj by blast
      qed
      show False using * [of i j] * [of j i] ne that i c by (metis linorder_neqE_nat)
    qed
    moreover have "\<exists>j. List.find ?Q [0..<?n] = Some j" using i c by (cases "List.find ?Q [0..<?n]") (auto simp: find_None_iff)
    ultimately show ?thesis unfolding find_channel_def Let_def by (auto simp: find_Some_iff)
  qed
  ultimately show ?thesis using c by (simp add: lookup_channel_def)
qed

lemma close_channels_calls:
  assumes "calls_inv s" "gui_keeps (keeps {}) gui" "port \<in> set (ports s)" "\<forall>i\<in>set is. i < po_channel_count (msg_ports s port)"
    "close_channels gui port is regs s = Some (r, s')"
  shows "calls_inv s' \<and> fewer s s' \<and> (\<forall>i\<in>set is. po_channels (msg_ports s' port) ! i = 0)"
  using assms
proof (induction "is" arbitrary: regs s)
  case (Cons i "is")
  let ?c = "po_channels (msg_ports s port) ! i"
  have len: "i < length (po_channels (msg_ports s port))" using Cons.prems(1,3,4) by (auto simp: calls_inv_def own_channels_def port_channels_def)
  obtain r1 s2 where 2: "calls_inv s2" "fewer s s2" "po_channels (msg_ports s2 port) ! i = 0" "close_channels gui port is r1 s2 = Some (r, s')"
  proof (cases "?c = 0")
    case True
    then show ?thesis using that [of s regs] Cons.prems by (simp add: fewer_def)
  next
    case False
    then obtain ok r1 s1 where 1: "port_close_connection gui regs None (po_uid (msg_ports s port)) (ch_uid (msg_channels s ?c)) s = Some (ok, r1, s1)"
        "close_channels gui port is r1 (if po_channels (msg_ports s1 port) ! i = 0 then s1 else msg_free_channel port i s1) = Some (r, s')"
      using Cons.prems(5) by (auto simp: Let_def bind_eq_Some_conv)
    have l: "lookup_channel (po_uid (msg_ports s port)) (ch_uid (msg_channels s ?c)) s = Some (port, i, ?c)"
      using Cons.prems(1,3,4) False by (intro lookup_own) (simp_all add: calls_inv_def)
    note pc = port_close_calls [OF Cons.prems(1,2) _ 1(1)]
    have p1: "calls_inv s1" "fewer s s1" using pc by blast+
    show ?thesis
    proof (cases "po_channels (msg_ports s1 port) ! i = 0")
      case True
      then show ?thesis using that p1 1(2) by simp
    next
      case ne: False
      then have "\<not> ch_server_connected (msg_channels s1 (po_channels (msg_ports s1 port) ! i))" using pc(3) [OF _ _ l] by auto
      then have "calls_inv (msg_free_channel port i s1)"
        using p1 Cons.prems(3,4) by (intro calls_free_channel) (simp_all add: fewer_def)
      moreover have "po_channels (msg_ports (msg_free_channel port i s1) port) ! i = 0" using fewer_free(2) [of i s1 port] p1(2) len by (simp add: fewer_def)
      ultimately show ?thesis using that [OF _ fewer_trans [OF p1(2) fewer_free(1)]] 1(2) ne by simp
    qed
  qed
  have n: "port \<in> set (ports s2)" "\<forall>i\<in>set is. i < po_channel_count (msg_ports s2 port)" using 2(2) Cons.prems(3,4) by (simp_all add: fewer_def)
  note ih = Cons.IH [OF 2(1) Cons.prems(2) n 2(4)]
  then have "po_channels (msg_ports s' port) ! i = 0" using 2(2,3) len unfolding fewer_def by simp
  then show ?case using ih fewer_trans [OF 2(2)] by simp
qed (simp add: fewer_def)

lemma calls_remove_port:
  assumes inv: "calls_inv s" and z: "\<forall>i<po_channel_count (msg_ports s port). po_channels (msg_ports s port) ! i = 0"
  shows "calls_inv (s\<lparr> ports := remove1 port (ports s) \<rparr>)"
proof -
  have d: "distinct (map (\<lambda>p. po_uid (msg_ports s p)) (ports s))" using inv by (simp add: calls_inv_def own_channels_def)
  then have st: "set (remove1 port (ports s)) = set (ports s) - {port}" by (auto simp: distinct_map)
  have "c = 0" if "c \<in> set (take (po_channel_count (msg_ports s port)) (po_channels (msg_ports s port)))" for c
    using that z by (auto simp: in_set_conv_nth)
  then have l: "live (s\<lparr> ports := remove1 port (ports s) \<rparr>) = live s" unfolding live_def by (auto simp: st)
  have "distinct (map (\<lambda>p. po_uid (msg_ports s p)) (remove1 port (ports s)))"
    using d by (auto simp: distinct_map st intro: inj_on_subset distinct_remove1)
  then show ?thesis using inv unfolding calls_inv_def no_lost_def own_channels_def l by (simp add: st)
qed

lemma keeps_wake_waiter: "keeps X s (wake_waiter port i s)"
proof -
  have u: "keeps X s (upd_port port (\<lambda>p. p\<lparr> po_waiters := f p \<rparr>) s)" for f by (rule keeps_port) simp
  then show ?thesis unfolding wake_waiter_def Let_def answer_def [symmetric]
    by (auto simp: held.refl split: option.splits intro: held.trans [OF u held.kernel [OF calm_answer]])
qed

lemma destroy_port_calls:
  assumes inv: "calls_inv s" and g: "gui_keeps (keeps {}) gui" and p: "port \<in> set (ports s)" and d: "destroy_port gui regs port s = Some (r, s')"
  shows "calls_inv s'"
proof -
  let ?is = "[0..<po_channel_count (msg_ports s port)]"
  obtain s1 where 1: "close_channels gui port ?is regs s = Some (r, s1)"
      "s' = (let s2 = fold (wake_waiter port) [0..<MAX_TASK_THREADS] s1 in free port 332 (s2\<lparr> ports := remove1 port (ports s2) \<rparr>))"
    using d by (auto simp: destroy_port_def bind_eq_Some_conv Let_def)
  define s2 where "s2 = fold (wake_waiter port) [0..<MAX_TASK_THREADS] s1"
  have c1: "calls_inv s1" "fewer s s1" "\<forall>i\<in>set ?is. po_channels (msg_ports s1 port) ! i = 0"
    using close_channels_calls [OF inv g p _ 1(1)] by auto
  have k: "keeps {} s1 s2" unfolding s2_def by (rule held.fold_keeps) (rule keeps_wake_waiter)
  have "calls_inv (s2\<lparr> ports := remove1 port (ports s2) \<rparr>)"
    by (rule calls_remove_port [OF calls_held [OF c1(1) k]]) (use c1 k in \<open>simp add: fewer_def keeps_def\<close>)
  then show ?thesis unfolding 1(2) Let_def s2_def [symmetric] by (rule calls_calm) simp
qed

section \<open>New ports and channels\<close>

text \<open>The allocator hands out memory that is not in use.\<close>

lemma create_port_calls:
  assumes inv: "calls_inv s" and fresh: "fst (malloc 332 s) \<notin> set (ports s)" and c: "create_port fs t name cr s = (res, s')"
  shows "calls_inv s'"
proof -
  obtain port s1 where m: "malloc 332 s = (port, s1)" by fastforce
  have c1: "calm s s1" using calm_heap(1) [of s 332] unfolding m by simp
  have e: "ports s1 = ports s" "msg_ports s1 = msg_ports s" "msg_channels s1 = msg_channels s" "ts_msg_channels s1 = ts_msg_channels s"
    "msg_uid_counter s1 = msg_uid_counter s" "channel_uid_counter s1 = channel_uid_counter s" "tasks s1 = tasks s"
    using more_msg [of s1 s] c1 arg_cong [OF m, of "\<lambda>x. tasks (snd x)"] by (simp_all add: calm_def same_msg_def)
  show ?thesis
  proof (cases "s' = s \<or> s' = s1")
    case True
    then show ?thesis using inv calls_calm [OF inv c1] by auto
  next
    case False
    let ?n = "msg_uid_counter s"
    define P where "P = \<lparr> po_uid = ?n, po_name = take 31 name, po_owner_uid = pr_uid (task_proc s t), po_owner_taskid = int t, po_owner_taskuid = ts_task_uid (tasks s t),
      po_channels = replicate 16 0, po_channel_count = 0, po_client_reserves = cr, po_waiters = replicate 4 zero_waiter \<rparr>"
    have P: "po_uid P = ?n" "po_channels P = replicate 16 0" "po_channel_count P = 0" by (simp_all add: P_def)
    have n: "?n < MSG_ERR_BASE" and s': "ports s' = port # ports s" "msg_ports s' = (msg_ports s)(port := P)" "msg_uid_counter s' = ?n + 1"
        "tasks s' = tasks s" "msg_channels s' = msg_channels s" "ts_msg_channels s' = ts_msg_channels s" "channel_uid_counter s' = channel_uid_counter s"
      using c False unfolding create_port_def Let_def m by (auto simp: e P_def not_le split: if_splits)
    have np: "port \<notin> set (ports s)" using fresh m by simp
    have l: "live s' = live s" using np by (auto simp: live_def s' P)
    have n1: "?n < ?n + 1" using n by (simp add: word_less_nat_alt unat_word_ariths)
    have own: "own_channels s" using inv by (simp add: calls_inv_def)
    have old: "msg_ports s' p = msg_ports s p" if "p \<in> set (ports s)" for p using that np by (auto simp: s')
    have new: "msg_ports s' port = P" by (simp add: s')
    have u: "\<forall>p\<in>set (ports s). po_uid (msg_ports s p) < ?n" using own by (simp add: own_channels_def)
    have mp: "map (\<lambda>p. po_uid (msg_ports s' p)) (ports s') = ?n # map (\<lambda>p. po_uid (msg_ports s p)) (ports s)" using old new P by (simp add: s'(1))
    have "distinct (map (\<lambda>p. po_uid (msg_ports s' p)) (ports s'))" unfolding mp using own u by (auto simp: own_channels_def)
    moreover have "\<forall>p\<in>set (ports s'). po_uid (msg_ports s' p) < msg_uid_counter s'" using old new P u n1 by (auto simp: s'(1,3) intro: less_trans)
    moreover have "\<forall>p\<in>set (ports s'). port_channels (msg_ports s' p) (\<lambda>c. ch_uid (msg_channels s' c))"
      using old new P own by (auto simp: s'(1,5) own_channels_def port_channels_def)
    ultimately have "own_channels s'" using own unfolding own_channels_def l s'(4-7) by blast
    then show ?thesis using inv unfolding calls_inv_def no_lost_def l s' by simp
  qed
qed

lemma insert_slot:
  fixes xs :: "u32 list"
  assumes "c \<noteq> 0" "n < length xs \<and> i = n \<and> m = Suc n \<or> i < n \<and> n \<le> length xs \<and> xs ! i = 0 \<and> m = n"
  obtains A B where "filter (\<lambda>x. x \<noteq> 0) (take m (xs[i := c])) = A @ c # B" "filter (\<lambda>x. x \<noteq> 0) (take n xs) = A @ B"
proof (cases "i = n")
  case True
  then have "take m (xs[i := c]) = take n xs @ [c]" using assms(2) by (auto simp: take_Suc_conv_app_nth)
  then show ?thesis using that [of "filter (\<lambda>x. x \<noteq> 0) (take n xs)" "[]"] assms(1) by simp
next
  case False
  then have i: "i < n" "n \<le> length xs" "xs ! i = 0" "m = n" using assms(2) by auto
  have "take n (xs[i := c]) = (take n xs)[i := c]" by (simp add: take_update_swap)
  also have "\<dots> = take i (take n xs) @ c # drop (Suc i) (take n xs)" using i by (intro upd_conv_take_nth_drop) simp
  finally have 1: "filter (\<lambda>x. x \<noteq> 0) (take m (xs[i := c])) = filter (\<lambda>x. x \<noteq> 0) (take i (take n xs)) @ c # filter (\<lambda>x. x \<noteq> 0) (drop (Suc i) (take n xs))"
    using assms(1) i(4) by simp
  have "take n xs = take i (take n xs) @ take n xs ! i # drop (Suc i) (take n xs)" using i by (intro id_take_nth_drop) simp
  then have "filter (\<lambda>x. x \<noteq> 0) (take n xs) = filter (\<lambda>x. x \<noteq> 0) (take i (take n xs)) @ filter (\<lambda>x. x \<noteq> 0) (take n xs ! i # drop (Suc i) (take n xs))"
    by (metis filter_append)
  then have "filter (\<lambda>x. x \<noteq> 0) (take n xs) = filter (\<lambda>x. x \<noteq> 0) (take i (take n xs)) @ filter (\<lambda>x. x \<noteq> 0) (drop (Suc i) (take n xs))"
    using i by simp
  then show ?thesis using that 1 by blast
qed

lemma live_filter: "live s = (\<Union>p\<in>set (ports s). set (filter (\<lambda>x. x \<noteq> 0) (take (po_channel_count (msg_ports s p)) (po_channels (msg_ports s p)))))"
  by (auto simp: live_def)

lemma port_connect_calls:
  assumes inv: "calls_inv s" and fresh: "fst (malloc 3728 s) \<notin> live s" and t: "t < 16" "ts_enabled (tasks s t)" and c: "port_connect t name s = (res, pu, s')"
  shows "calls_inv s'"
proof -
  obtain c s1 where m: "malloc 3728 s = (c, s1)" by fastforce
  have c1: "calm s s1" using calm_heap(1) [of s 3728] unfolding m by simp
  have e: "ports s1 = ports s" "msg_ports s1 = msg_ports s" "msg_channels s1 = msg_channels s" "ts_msg_channels s1 = ts_msg_channels s"
    "msg_uid_counter s1 = msg_uid_counter s" "channel_uid_counter s1 = channel_uid_counter s" "tasks s1 = tasks s"
    using more_msg [of s1 s] c1 arg_cong [OF m, of "\<lambda>x. tasks (snd x)"] by (simp_all add: calm_def same_msg_def)
  show ?thesis
  proof (cases "s' = s \<or> s' = s1 \<or> s' = free c 3728 s1")
    case True
    then show ?thesis using inv calls_calm [OF inv c1] calls_calm [OF inv calm_trans [OF c1 calm_heap(2)]] by auto
  next
    case False
    let ?u = "channel_uid_counter s"
    obtain port where p: "find_port_by_name name s = Some port" using c False unfolding port_connect_def by (auto split: option.splits)
    then have ps: "port \<in> set (ports s)" by (auto simp: find_port_by_name_def find_Some_iff)
    let ?P = "msg_ports s port" and ?n = "po_channel_count (msg_ports s port)" and ?xs = "po_channels (msg_ports s port)"
    have own: "own_channels s" using inv by (simp add: calls_inv_def)
    have pc: "?n \<le> 16" "length ?xs = 16" "distinct (map (\<lambda>c. ch_uid (msg_channels s c)) (filter (\<lambda>c. c \<noteq> 0) (take ?n ?xs)))"
      using own ps by (auto simp: own_channels_def port_channels_def)
    obtain i k x where u: "?u < MSG_ERR_BASE" "c \<noteq> 0" and i: "?n < length ?xs \<and> i = ?n \<and> k = Suc ?n \<or> i < ?n \<and> ?n \<le> length ?xs \<and> ?xs ! i = 0 \<and> k = ?n"
      and s': "ports s' = ports s" "msg_ports s' = (msg_ports s)(port := ?P\<lparr> po_channel_count := k, po_channels := ?xs[i := c] \<rparr>)"
        "ts_msg_channels s' = (ts_msg_channels s)(t := ts_msg_channels s t @ [c])" "msg_channels s' = (msg_channels s)(c := x)"
        "channel_uid_counter s' = ?u + 1" "msg_uid_counter s' = msg_uid_counter s" "tasks s' = tasks s"
      and x: "ch_uid x = ?u" "ch_client_taskid x = int t" "ch_client_taskuid x = ts_task_uid (tasks s t)"
    proof -
      have ne: "\<not> po_owner_taskuid ?P = ts_task_uid (tasks s t)" "\<not> length (ts_msg_channels s t) \<ge> TASK_MAX_CHANNELS" "\<not> ?u \<ge> MSG_ERR_BASE" "port_free_channel_exists port s" "c \<noteq> 0"
        using c False p m unfolding port_connect_def by (auto simp: Let_def split: if_splits)
      obtain j s2 where j: "port_claim_free_channel_index port s1 = (j, s2)" by fastforce
      have "s2 = s1 \<or> j \<noteq> None" using j by (auto simp: port_claim_free_channel_index_def Let_def split: if_splits)
      then obtain i where ji: "j = Some i" using c False p m ne j unfolding port_connect_def by (cases j) (auto simp: Let_def)
      obtain k where k: "s2 = upd_port port (\<lambda>x. x\<lparr> po_channel_count := k \<rparr>) s1" "?n < length ?xs \<and> i = ?n \<and> k = Suc ?n \<or> i < ?n \<and> ?n \<le> length ?xs \<and> ?xs ! i = 0 \<and> k = ?n"
      proof (cases "?n < 16")
        case True
        then have "i = ?n" "s2 = upd_port port (\<lambda>x. x\<lparr> po_channel_count := po_channel_count x + 1 \<rparr>) s1"
          using j ji by (simp_all add: port_claim_free_channel_index_def Let_def e)
        moreover from this have "s2 = upd_port port (\<lambda>x. x\<lparr> po_channel_count := Suc ?n \<rparr>) s1" by (simp add: upd_port_def e)
        ultimately show ?thesis using that [of "Suc ?n"] pc True by simp
      next
        case False
        then have f: "s2 = s1" "free_index ?P = Some i" using j ji by (auto simp: port_claim_free_channel_index_def Let_def e)
        have "upd_port port (\<lambda>x. x\<lparr> po_channel_count := ?n \<rparr>) s1 = s1" by (simp add: upd_port_def flip: e(2))
        moreover have "i < ?n" "?xs ! i = 0" using f(2) by (auto simp: free_index_def find_Some_iff)
        ultimately show ?thesis using that [of ?n] pc f(1) by simp
      qed
      show ?thesis
        using that [of i k "new_channel ?u (?P\<lparr> po_channel_count := k, po_channels := ?xs[i := c] \<rparr>) (pr_uid (processes s2 (ts_process (tasks s t)))) t (ts_task_uid (tasks s t))"]
          c p m ne j ji k unfolding port_connect_def by (auto simp: Let_def upd_port_def e new_channel_def not_le)
    qed
    obtain A B where AB: "filter (\<lambda>x. x \<noteq> 0) (take k (?xs[i := c])) = A @ c # B" "filter (\<lambda>x. x \<noteq> 0) (take ?n ?xs) = A @ B"
      by (rule insert_slot [OF u(2) i])
    have nl: "c \<notin> live s" using fresh m by simp
    have AB_live: "set A \<union> set B \<subseteq> live s" using ps AB(2) unfolding live_filter by (metis (no_types, lifting) UN_upper set_append)
    have l: "live s' = insert c (live s)"
    proof -
      have "(\<Union>p\<in>set (ports s). F' p) = insert c (\<Union>p\<in>set (ports s). F p)" if "\<And>p. p \<noteq> port \<Longrightarrow> F' p = F p" "F' port = insert c (F port)" for F F' :: "u32 \<Rightarrow> u32 set"
        using that ps by (auto split: if_splits) (metis insertE insertI2)+
      from this [of "\<lambda>p. set (filter (\<lambda>x. x \<noteq> 0) (take (po_channel_count (msg_ports s' p)) (po_channels (msg_ports s' p))))"
          "\<lambda>p. set (filter (\<lambda>x. x \<noteq> 0) (take (po_channel_count (msg_ports s p)) (po_channels (msg_ports s p))))"]
      show ?thesis unfolding live_filter s'(1) using AB by (simp add: s'(2))
    qed
    have u1: "?u < ?u + 1" using u by (simp add: word_less_nat_alt unat_word_ariths)
    have lt: "\<forall>d\<in>live s. ch_uid (msg_channels s d) < ?u" using own by (simp add: own_channels_def)
    have "no_lost s'" using inv nl unfolding no_lost_def calls_inv_def l by (fastforce simp: s')
    moreover have "own_channels s'"
    proof -
      have f: "port_channels (msg_ports s' p) (\<lambda>d. ch_uid (msg_channels s' d))" if p: "p \<in> set (ports s)" for p
      proof (cases "p = port")
        case True
        have "map (\<lambda>d. ch_uid (msg_channels s' d)) (A @ c # B) = map (\<lambda>d. ch_uid (msg_channels s d)) A @ ?u # map (\<lambda>d. ch_uid (msg_channels s d)) B"
          using AB_live nl x by (auto simp: s')
        moreover have "distinct (map (\<lambda>d. ch_uid (msg_channels s d)) A @ ?u # map (\<lambda>d. ch_uid (msg_channels s d)) B)"
          using pc(3) AB_live lt unfolding AB(2) by auto
        ultimately have "distinct (map (\<lambda>d. ch_uid (msg_channels s' d)) (filter (\<lambda>x. x \<noteq> 0) (take k (?xs[i := c]))))" unfolding AB(1) by (simp only:)
        moreover have "k \<le> 16" "length (?xs[i := c]) = 16" using pc i by auto
        moreover have "msg_ports s' p = ?P\<lparr> po_channel_count := k, po_channels := ?xs[i := c] \<rparr>" using True by (simp add: s'(2))
        ultimately show ?thesis by (simp add: port_channels_def)
      next
        case False
        let ?F = "filter (\<lambda>d. d \<noteq> 0) (take (po_channel_count (msg_ports s p)) (po_channels (msg_ports s p)))"
        have "c \<notin> set ?F" using nl p unfolding live_filter by blast
        then have F: "map (\<lambda>d. ch_uid (msg_channels s' d)) ?F = map (\<lambda>d. ch_uid (msg_channels s d)) ?F" by (auto simp: s'(4))
        have "msg_ports s' p = msg_ports s p" using False by (simp add: s'(2))
        then show ?thesis using own p unfolding own_channels_def port_channels_def by (simp only: F)
      qed
      have g: "distinct (ts_msg_channels s' a) \<and> (\<forall>d\<in>set (ts_msg_channels s' a). d \<in> live s' \<and> ch_client_taskid (msg_channels s' d) = int a
          \<and> ch_client_taskuid (msg_channels s' d) = ts_task_uid (tasks s a))" if a: "a < 16" "ts_enabled (tasks s a)" for a
      proof -
        have o: "distinct (ts_msg_channels s a)" "\<forall>d\<in>set (ts_msg_channels s a). d \<in> live s \<and> d \<noteq> c \<and> ch_client_taskid (msg_channels s d) = int a
            \<and> ch_client_taskuid (msg_channels s d) = ts_task_uid (tasks s a)" using own a nl by (auto simp: own_channels_def)
        then show ?thesis unfolding l s'(3,4) using x by (cases "a = t") auto
      qed
      have h: "map (\<lambda>p. po_uid (msg_ports s' p)) (ports s) = map (\<lambda>p. po_uid (msg_ports s p)) (ports s)" by (simp add: s'(2))
      have "\<forall>d\<in>live s'. ch_uid (msg_channels s' d) < channel_uid_counter s'" unfolding l s'(4,5) using x u1 lt by (auto intro: less_trans)
      moreover have "\<forall>p\<in>set (ports s). po_uid (msg_ports s' p) < msg_uid_counter s" using own by (auto simp: own_channels_def s'(2))
      ultimately show ?thesis using own f g unfolding own_channels_def s'(1,6,7) h by blast
    qed
    ultimately show ?thesis by (simp add: calls_inv_def)
  qed
qed

end
