(* ===== verification/Nolost.thy ===== *)
theory Nolost
  imports Msgwait Msgflow
begin

text \<open>
  All operations of message passing as steps, and the theorem that no synchronous call is lost over any sequence of them.
\<close>

section \<open>Steps\<close>

definition running :: "nat \<Rightarrow> 'a msg_t_scheme \<Rightarrow> bool" where
  "running t s \<longleftrightarrow> t < 16 \<and> ts_enabled (tasks s t) \<and> \<not> ts_paused (tasks s t)"

text \<open>
  The operations of \<^verbatim>\<open>src/msg.c\<close> as programs reach them. A validated message has a buffer or handles (the page at address 0 is not
  user memory); the counter of calls has not wrapped; the allocator hands out memory that is not in use.
\<close>

inductive ipc_step :: "'a msg_t_scheme gui_t \<Rightarrow> 'a msg_t_scheme \<Rightarrow> 'a msg_t_scheme \<Rightarrow> bool" for gui where
  create: "fst (malloc 332 s) \<notin> set (ports s) \<Longrightarrow> create_port fs_exists t name cr s = (res, s') \<Longrightarrow> ipc_step gui s s'"
| connect: "running t s \<Longrightarrow> fst (malloc 3728 s) \<notin> live s \<Longrightarrow> port_connect t name s = (res, pu, s') \<Longrightarrow> ipc_step gui s s'"
| send: "port_send gui regs t pu cu m flags s = Some (r, regs', s') \<Longrightarrow> ipc_step gui s s'"
| read: "port_receive t pu cu buf sz s = Some (x, s') \<Longrightarrow> ipc_step gui s s'"
| wait: "msg_wait_on_receive t pu cu s = (ok, s') \<Longrightarrow> ipc_step gui s s'"
| call: "running t s \<Longrightarrow> load_send sm s = Some m \<Longrightarrow> sm_buffer m \<noteq> 0 \<or> sm_handle_count m > 0 \<Longrightarrow> 0 < call_uid_counter s \<Longrightarrow>
    msg_call regs t uid sm rm s = Some (r, regs', s') \<Longrightarrow> ipc_step gui s s'"
| receive: "0 < call_uid_counter s \<Longrightarrow> unat (call_uid_counter s) + 16 < 2 ^ 32 \<Longrightarrow> msg_receive regs t pu rm s = Some (r, regs', s') \<Longrightarrow> ipc_step gui s s'"
| reply: "msg_reply regs t uid sm s = Some (r, regs', s') \<Longrightarrow> ipc_step gui s s'"
| disconnect: "running t s \<Longrightarrow> port_disconnect gui regs t pu cu s = Some (ok, r, s') \<Longrightarrow> ipc_step gui s s'"
| close: "close_port gui regs t pu s = Some (ok, r, s') \<Longrightarrow> ipc_step gui s s'"

lemma port_disconnect_calls:
  assumes inv: "calls_inv s" and g: "gui_keeps (keeps {}) gui" and t: "running t s" and d: "port_disconnect gui regs t pu cu s = Some (ok, r, s')"
  shows "calls_inv s'"
proof (cases "s' = s")
  case False
  then obtain c where c: "port_close_connection gui regs (Some t) pu cu (task_forget_channel t c s) = Some (ok, r, s')"
    using d by (auto simp: port_disconnect_def split: option.splits if_splits)
  have "calls_inv (task_forget_channel t c s)" using inv t by (intro calls_forget_channel) (simp_all add: running_def)
  then show ?thesis by (rule port_close_calls(1) [OF _ g _ c]) (use t in \<open>simp add: running_def waits_def task_forget_channel_def\<close>)
qed (use inv in simp)

lemma close_port_calls:
  assumes inv: "calls_inv s" and g: "gui_keeps (keeps {}) gui" and d: "close_port gui regs t pu s = Some (ok, r, s')"
  shows "calls_inv s'"
proof (cases "s' = s")
  case False
  then obtain port where p: "find_port_by_uid pu s = Some port" "destroy_port gui regs port (process_forget_port (ts_process (tasks s t)) port s) = Some (r, s')"
    using d by (auto simp: close_port_def Let_def bind_eq_Some_conv split: option.splits if_splits)
  have k: "keeps {} s (process_forget_port (ts_process (tasks s t)) port s)" by (simp add: process_forget_port_def keeps_def same_tasks_def)
  show ?thesis
    by (rule destroy_port_calls [OF calls_held [OF inv k] g _ p(2)]) (use p(1) k in \<open>auto simp: keeps_def find_port_by_uid_def find_Some_iff\<close>)
qed (use inv in simp)

lemma ipc_step_calls:
  assumes "ipc_step gui s s'" "gui_keeps (keeps {}) gui" "calls_inv s"
  shows "calls_inv s'"
  using assms
proof (cases rule: ipc_step.cases)
  case (send regs t pu cu m flags r regs')
  then show ?thesis using calls_held [OF assms(3) port_send_keeps [OF assms(2)]] by blast
next
  case (call t sm m regs uid rm r regs')
  then show ?thesis using msg_call_calls [OF assms(3), of t sm m regs uid rm r regs' s'] by (simp add: running_def)
next
  case (connect t name res pu)
  then show ?thesis using port_connect_calls [OF assms(3), of t name res pu s'] by (simp add: running_def)
next
  case (create fs_exists t name cr res)
  then show ?thesis by (intro create_port_calls [OF assms(3)])
next
  case (read t pu cu buf sz x)
  then show ?thesis by (intro calls_held [OF assms(3) port_receive_keeps])
next
  case (wait t pu cu ok)
  then show ?thesis by (intro calls_held [OF assms(3) msg_wait_keeps])
next
  case (receive regs t pu rm r regs')
  then show ?thesis by (intro msg_receive_calls [OF assms(3)])
next
  case (reply regs t uid sm r regs')
  then show ?thesis by (intro msg_reply_calls [OF assms(3)])
next
  case (disconnect t regs pu cu ok r)
  then show ?thesis by (intro port_disconnect_calls [OF assms(3,2)])
next
  case (close regs t pu ok r)
  then show ?thesis by (intro close_port_calls [OF assms(3,2)])
qed

section \<open>No call is lost\<close>

lemma reply_wakes:
  assumes "open_call t (ts_task_uid (tasks s t)) (msg_channels s c)" "t < 16" "waits (tasks s t)" "u \<noteq> 0"
    and f: "find_call (ts_process (tasks s v)) u s = Some c" and r: "msg_reply regs v u sm s = Some (res, regs', s')"
  shows "\<not> waits (tasks s' t)" "ts_enabled (tasks s' t)"
proof -
  define s1 where "s1 = upd_channel c (\<lambda>y. y\<lparr> ch_call_uid := 0 \<rparr>) s"
  note oc = open_client [OF assms(1-3)]
  have tk: "tasks s1 = tasks s" by (simp add: s1_def upd_channel_def)
  have g: "msg_get_task (ch_client_taskid (msg_channels s c)) (ch_client_taskuid (msg_channels s c)) s1 = Some t" "ts_pause_reason (tasks s1 t) = PAUSE_MSG_CALL"
    using oc unfolding msg_get_task_def tk .
  have "reply_client regs v t c sm s1 = Some (res, regs', s')"
    using r assms(4) f g unfolding msg_reply_def by (simp add: Let_def s1_def)
  then obtain w s2 where "calm s1 s2" "calm (answer t w s2) s'" by (rule reply_client_calm)
  then have c: "calm s1 (answer t w s2)" "calm (answer t w s2) s'" using calm_trans [OF _ calm_answer] by blast+
  show "\<not> waits (tasks s' t)" using c(2) answered [of t w s2] unfolding calm_def by blast
  show "ts_enabled (tasks s' t)" using calm_trans [OF c] assms(3) unfolding calm_def waits_def tk by blast
qed

text \<open>
  C23: no synchronous call is lost. After any sequence of operations by any tasks (ports created and closed, channels opened and
  closed, messages sent, read and waited for, calls, receives and replies), a task that is paused in a call has a channel, open on
  both ends and listed in a port, on which its call is stored for the server or a reply is owed to it; and any reply to the call on that
  channel, failed or not, wakes the task. (\<open>keeps {}\<close>: the windows of a crashed task have no part in message passing.)
\<close>

theorem no_lost_call:
  fixes s s' :: "'a msg_t_scheme"
  assumes "calls_inv s" and "gui_keeps (keeps {}) gui" and "(ipc_step gui)\<^sup>*\<^sup>* s s'"
    and "t < 16" and "ts_enabled (tasks s' t)" and "ts_paused (tasks s' t)" and "ts_pause_reason (tasks s' t) = PAUSE_MSG_CALL"
  shows "\<exists>port\<in>set (ports s'). \<exists>c\<in>set (take (po_channel_count (msg_ports s' port)) (po_channels (msg_ports s' port))).
    c \<noteq> 0 \<and> open_call t (ts_task_uid (tasks s' t)) (msg_channels s' c)
    \<and> (\<forall>v u regs sm res regs' s''. u \<noteq> 0 \<and> find_call (ts_process (tasks s' v)) u s' = Some c \<and> msg_reply regs v u sm s' = Some (res, regs', s'')
         \<longrightarrow> \<not> (ts_paused (tasks s'' t) \<and> ts_pause_reason (tasks s'' t) = PAUSE_MSG_CALL))"
proof -
  have inv: "calls_inv s'" using assms(3,1,2) by (induction rule: rtranclp_induct) (auto intro: ipc_step_calls)
  have w: "waits (tasks s' t)" using assms(5-7) by (simp add: waits_def)
  then obtain c where c: "c \<in> live s'" "open_call t (ts_task_uid (tasks s' t)) (msg_channels s' c)"
    using inv assms(4) by (auto simp: calls_inv_def no_lost_def)
  have k: "\<not> (ts_paused (tasks s'' t) \<and> ts_pause_reason (tasks s'' t) = PAUSE_MSG_CALL)"
    if "u \<noteq> 0" "find_call (ts_process (tasks s' v)) u s' = Some c" "msg_reply regs v u sm s' = Some (res, regs', s'')" for v u regs sm res regs' s''
  proof -
    show ?thesis using reply_wakes [OF c(2) assms(4) w that] by (simp add: waits_def)
  qed
  then show ?thesis using c unfolding live_def by blast
qed

text \<open>A client calls a server that does not wait yet: the message descriptor is at the start of its page.\<close>

definition call_port :: msg_port_t where
  "call_port = two_port\<lparr> po_channels := 0x3000000 # replicate 15 0, po_waiters := replicate 4 zero_waiter \<rparr>"

definition caller :: msg_t where
  "caller = two_tasks\<lparr> phys_mem := (\<lambda>_. 0)(block_addr 2 := 0x10, block_addr 2 + 3 := 0x08, block_addr 2 + 4 := 1), msg_ports := (\<lambda>_. call_port),
     ts_msg_channels := (\<lambda>t. if t = 0 then [0x3000000] else []) \<rparr>"

lemma caller_fields [simp]:
  "ports caller = [0x2000000]" "msg_ports caller = (\<lambda>_. call_port)" "msg_channels caller = (\<lambda>_. new_channel 9 two_port 0 0 1)"
  "ts_msg_channels caller = (\<lambda>t. if t = 0 then [0x3000000] else [])" "current_page_dir caller = block_addr 0" "call_uid_counter caller = 1"
  "tasks caller = (\<lambda>t. if t < 2 then zero_task\<lparr> ts_enabled := True, ts_task_uid := of_nat t + 1 \<rparr> else zero_task)"
  "phys_mem caller = (\<lambda>_. 0)(block_addr 2 := 0x10, block_addr 2 + 3 := 0x08, block_addr 2 + 4 := 1)" "switching caller = False"
  by (simp_all add: caller_def del: two_tasks_fields) (simp_all add: two_tasks_def kern_t.defs mapped_process_def boot_kern_def)

lemma caller_inv: "calls_inv caller"
proof -
  have c: "channel_uid_counter caller = 10" "msg_uid_counter caller = 6" by (simp_all add: caller_def two_tasks_def kern_t.defs)
  have l: "live caller = {0x3000000}" by (auto simp: live_def call_port_def two_port_def)
  have d: "a = b" if "a < 2" "b < 2" "of_nat a + 1 = (of_nat b + 1 :: u32)" for a b :: nat
    using that by (auto simp: less_2_cases_iff)
  have "own_channels caller" unfolding own_channels_def l
    by (auto simp: c call_port_def two_port_def new_channel_def port_channels_def zero_task_def less_2_cases_iff intro: d)
  then show ?thesis by (simp add: calls_inv_def no_lost_def waits_def zero_task_def)
qed

lemma caller_word:
  assumes "\<forall>k\<in>{0, 1, 2, 3}. page_no (v + k) = 0x8000"
  shows "load_word v caller = Some (bytes_word (map (\<lambda>k. phys_mem caller (block_addr 2 + (v + k AND 0xFFF))) [0, 1, 2, 3]))"
proof -
  have "page_dirs caller = page_dirs mapped_process" "page_tables caller = page_tables mapped_process" by (simp_all add: caller_def two_tasks_def kern_t.defs)
  then have "page_checkmapping d a caller = page_checkmapping d a mapped_process" "page_getphysical d a caller = page_getphysical d a mapped_process" for d a
    by (simp_all add: page_checkmapping_def page_getphysical_def Let_def)
  then have "page_checkmapping (block_addr 0) a caller = PAGE_USERRW" "page_getphysical (block_addr 0) a caller = block_addr 2 + (a AND 0xFFF)"
    if "page_no a = 0x8000" for a
    using mapped_process_page [OF that] by simp_all
  moreover have "page_no (v + of_nat k) = 0x8000" if "k < 4" for k
  proof -
    have "k = 0 \<or> k = 1 \<or> k = 2 \<or> k = 3" using that by arith
    then have "(of_nat k :: u32) \<in> {0, 1, 2, 3}" by auto
    then show ?thesis using assms by blast
  qed
  ultimately have a: "page_checkmapping (block_addr 0) (v + of_nat k) caller \<noteq> PAGE_NOTPRESENT"
    "page_getphysical (block_addr 0) (v + of_nat k) caller = block_addr 2 + (v + of_nat k AND 0xFFF)" if "k < 4" for k
    using that by simp_all
  have "load_bytes (block_addr 0) v 4 caller = Some (map (\<lambda>k. phys_mem caller (phys_of (block_addr 0) v caller k)) [0..<4])"
    by (rule load_bytes_spec) (use a(1) in blast)
  also have "map (\<lambda>k. phys_mem caller (phys_of (block_addr 0) v caller k)) [0..<4] = map (\<lambda>k. phys_mem caller (block_addr 2 + (v + of_nat k AND 0xFFF))) [0..<4]"
    by (rule map_cong [OF refl]) (simp add: a(2))
  finally show ?thesis by (simp add: load_word_def upt_rec)
qed

lemma caller_loads:
  "load_send 0x8000000 caller = Some \<lparr> sm_buffer = 0x8000010, sm_size = 1, sm_handles = 0, sm_handle_count = 0 \<rparr>"
  "load_recv 0x8000100 caller = Some \<lparr> rm_buffer = 0, rm_buffer_size = 0, rm_handles = 0, rm_handle_count = 0 \<rparr>"
  by (simp_all add: load_send_def load_recv_def caller_word page_no_def bytes_word_def block_addr_def)

lemma caller_call:
  "\<exists>s'. msg_call zero_regs 0 9 0x8000000 0x8000100 caller = Some (Inr (), zero_regs, s') \<and> tasks s' 0 = (tasks caller 0)\<lparr> ts_paused := True, ts_pause_reason := PAUSE_MSG_CALL \<rparr>"
proof -
  have f: "find_own_channel 0 9 caller = Some 0x3000000" "find_port_by_uid 5 caller = Some 0x2000000"
    by (simp_all add: find_own_channel_def find_port_by_uid_def new_channel_def call_port_def two_port_def)
  have w: "msg_find_waiter 0x2000000 (caller\<lparr> msg_channels := g \<rparr>) = (None, caller\<lparr> msg_channels := g \<rparr>)" for g
    by (simp add: msg_find_waiter_def upt_rec call_port_def zero_waiter_def)
  show ?thesis
    by (simp add: msg_call_def caller_loads f w Let_def new_channel_def two_port_def switch_task_def task_pause_def upd_task_def upd_channel_def zero_task_def)
qed

theorem no_lost_call_witness:
  "\<exists>s'. (ipc_step no_gui)\<^sup>*\<^sup>* caller s' \<and> ts_paused (tasks s' 0)
     \<and> (\<exists>port\<in>set (ports s'). \<exists>c\<in>set (take (po_channel_count (msg_ports s' port)) (po_channels (msg_ports s' port))).
          open_call 0 (ts_task_uid (tasks s' 0)) (msg_channels s' c))"
proof -
  obtain s' where c: "msg_call zero_regs 0 9 0x8000000 0x8000100 caller = Some (Inr (), zero_regs, s')"
    and t: "tasks s' 0 = (tasks caller 0)\<lparr> ts_paused := True, ts_pause_reason := PAUSE_MSG_CALL \<rparr>" using caller_call by blast
  have "ipc_step no_gui caller s'"
    by (rule ipc_step.call [OF _ caller_loads(1) _ _ c]) (simp_all add: running_def zero_task_def)
  then have r: "(ipc_step no_gui)\<^sup>*\<^sup>* caller s'" by simp
  have g: "gui_keeps (keeps {}) no_gui" by (simp add: gui_keeps_def no_gui_def held.refl)
  have p: "ts_enabled (tasks s' 0)" "ts_paused (tasks s' 0)" "ts_pause_reason (tasks s' 0) = PAUSE_MSG_CALL" using t by simp_all
  show ?thesis using no_lost_call [OF caller_inv g r _ p] r p(2) by auto
qed

end
