(* ===== verification/Timer.thy ===== *)
theory Timer
  imports Msgflow
begin

text \<open>
  Timer events (\<^verbatim>\<open>src/events.c\<close>): a list of events ordered by the time that is left until they fire. Times are the count of timer
  ticks, which wraps around; the time left is a signed difference. The list is that of the events from \<open>first_event\<close>
  on. A callback of the kernel is the parameter \<open>kcall\<close>.
\<close>

section \<open>Model\<close>

record event_t =
  et_time :: u32
  et_msg :: u32
  et_callback :: u32
  et_task :: int
  et_task_uid :: u32

record clock_t = msg_t +
  timer_i :: u32
  events_active :: bool
  first_event :: "(u32 \<times> event_t) list"

text \<open>An event of the list comes with its address on the heap.\<close>

definition event_time_until :: "u32 \<Rightarrow> u32 \<times> event_t \<Rightarrow> int" where
  "event_time_until now e = sint (et_time (snd e) - now)"

fun insert_event :: "u32 \<Rightarrow> u32 \<times> event_t \<Rightarrow> (u32 \<times> event_t) list \<Rightarrow> (u32 \<times> event_t) list" where
  "insert_event now e [] = [e]"
| "insert_event now e (x # xs) =
     (if event_time_until now e < event_time_until now x then e # x # xs else x # insert_event now e xs)"

definition events_add :: "int \<Rightarrow> u32 \<Rightarrow> u32 \<Rightarrow> int \<Rightarrow> 'a clock_t_scheme \<Rightarrow> 'a clock_t_scheme" where
  "events_add delta callback msg taskid s0 =
     (let s = s0\<lparr> events_active := True \<rparr>; (event, s1) = malloc 24 s
      in if event = 0 then s1
         else s1\<lparr> first_event := insert_event (timer_i s1) (event, \<lparr> et_time = timer_i s1 + of_int delta, et_msg = msg, et_callback = callback,
                et_task = taskid, et_task_uid = (if taskid \<ge> 0 then ts_task_uid (tasks s1 (nat taskid)) else 0) \<rparr>) (first_event s1) \<rparr>)"

definition event_fire :: "'a clock_t_scheme gui_t \<Rightarrow> (u32 \<Rightarrow> registers_t \<Rightarrow> u32 \<Rightarrow> 'a clock_t_scheme \<Rightarrow> (registers_t \<times> 'a clock_t_scheme) option)
    \<Rightarrow> registers_t \<Rightarrow> event_t \<Rightarrow> 'a clock_t_scheme \<Rightarrow> (registers_t \<times> 'a clock_t_scheme) option" where
  "event_fire gui kcall regs e s =
     (if et_callback e = 0 then Some (regs, s)
      else if et_task e \<ge> 0 then
        let t = nat (et_task e)
        in if ts_task_uid (tasks s t) \<noteq> et_task_uid e then Some (regs, s)
           else map_option snd (task_call_subroutine gui regs t E_EVENT (et_callback e) [et_msg e] s)
      else kcall (et_callback e) regs (et_msg e) s)"

text \<open>The first event: it is taken off the list before it fires, and released after.\<close>

definition fire_first :: "'a clock_t_scheme gui_t \<Rightarrow> (u32 \<Rightarrow> registers_t \<Rightarrow> u32 \<Rightarrow> 'a clock_t_scheme \<Rightarrow> (registers_t \<times> 'a clock_t_scheme) option)
    \<Rightarrow> registers_t \<Rightarrow> u32 \<times> event_t \<Rightarrow> 'a clock_t_scheme \<Rightarrow> (registers_t \<times> 'a clock_t_scheme) option" where
  "fire_first gui kcall regs x s =
     (let e = snd x; s1 = s\<lparr> first_event := tl (first_event s) \<rparr>
      in if et_task e \<ge> 0 \<and> \<not> ts_enabled (tasks s (nat (et_task e))) then Some (regs, free (fst x) 24 s1)
         else map_option (\<lambda>(r, s2). (r, free (fst x) 24 s2)) (event_fire gui kcall regs e s1))"

partial_function (option) events_check :: "'a clock_t_scheme gui_t \<Rightarrow> (u32 \<Rightarrow> registers_t \<Rightarrow> u32 \<Rightarrow> 'a clock_t_scheme \<Rightarrow> (registers_t \<times> 'a clock_t_scheme) option)
    \<Rightarrow> registers_t \<Rightarrow> 'a clock_t_scheme \<Rightarrow> (registers_t \<times> 'a clock_t_scheme) option" where
  "events_check gui kcall regs s =
     (if \<not> events_active s \<or> first_event s = [] then Some (regs, s)
      else if event_time_until (timer_i s) (hd (first_event s)) \<le> 0
      then do { (r, s1) \<leftarrow> fire_first gui kcall regs (hd (first_event s)) s; events_check gui kcall r s1 }
      else Some (regs, s))"

declare events_check.simps [code]

section \<open>The order of the events\<close>

abbreviation until :: "'a clock_t_scheme \<Rightarrow> u32 \<times> event_t \<Rightarrow> int" where
  "until s \<equiv> event_time_until (timer_i s)"

definition events_sorted :: "'a clock_t_scheme \<Rightarrow> bool" where
  "events_sorted s \<longleftrightarrow> sorted (map (until s) (first_event s))"

lemma set_insert_event: "set (insert_event now e xs) = insert e (set xs)"
  by (induction xs) auto

lemma sorted_insert_event: "sorted (map (event_time_until now) xs) \<Longrightarrow> sorted (map (event_time_until now) (insert_event now e xs))"
proof (induction xs)
  case (Cons x xs)
  then show ?case by (auto simp: set_insert_event)
qed simp

text \<open>It goes behind all events that fire no later, so equal times fire in the order they were added.\<close>

lemma insert_event_split:
  "sorted (map (event_time_until now) xs) \<Longrightarrow> insert_event now e xs =
     filter (\<lambda>x. event_time_until now x \<le> event_time_until now e) xs @ [e] @ filter (\<lambda>x. event_time_until now e < event_time_until now x) xs"
proof (induction xs)
  case (Cons x xs)
  show ?case
  proof (cases "event_time_until now e < event_time_until now x")
    case True
    then have "\<forall>y\<in>set (x # xs). event_time_until now e < event_time_until now y" using Cons.prems by auto
    then have "filter (\<lambda>x. event_time_until now x \<le> event_time_until now e) (x # xs) = []"
      "filter (\<lambda>x. event_time_until now e < event_time_until now x) (x # xs) = x # xs" by (auto simp: filter_empty_conv not_le filter_id_conv)
    then show ?thesis using True by simp
  next
    case False
    then show ?thesis using Cons by auto
  qed
qed simp

lemma sint_diff_step:
  fixes x :: u32
  assumes "- (2 ^ 31) \<le> sint x - int k" "sint x - int k < 2 ^ 31"
  shows "sint (x - of_nat k) = sint x - int k"
proof -
  have "x - of_nat k = word_of_int (sint x - int k)" by simp
  then have "sint (x - of_nat k) = signed_take_bit 31 (sint x - int k)" by (simp only: sint_sbintrunc') simp
  then show ?thesis using assms by (simp add: signed_take_bit_int_eq_self)
qed

text \<open>The order stays as time passes, until an event is \<open>2 ^ 31\<close> ticks overdue.\<close>

lemma until_later:
  assumes "- (2 ^ 31) \<le> event_time_until now x - int k"
  shows "event_time_until (now + of_nat k) x = event_time_until now x - int k"
proof -
  have "event_time_until now x < 2 ^ 31" unfolding event_time_until_def using sint_less [of "et_time (snd x) - now"] by simp
  moreover have "et_time (snd x) - (now + of_nat k) = (et_time (snd x) - now) - of_nat k" by simp
  ultimately show ?thesis using assms sint_diff_step [of "et_time (snd x) - now" k] unfolding event_time_until_def by (simp only: diff_add_eq_diff_diff_swap)
qed

lemma sorted_later:
  assumes "sorted (map (event_time_until now) xs)" "\<forall>x\<in>set xs. - (2 ^ 31) \<le> event_time_until now x - int k"
  shows "sorted (map (event_time_until (now + of_nat k)) xs)"
  using assms by (induction xs) (auto simp: until_later)

section \<open>Firing\<close>

fun fire_all :: "'a clock_t_scheme gui_t \<Rightarrow> (u32 \<Rightarrow> registers_t \<Rightarrow> u32 \<Rightarrow> 'a clock_t_scheme \<Rightarrow> (registers_t \<times> 'a clock_t_scheme) option)
    \<Rightarrow> registers_t \<Rightarrow> (u32 \<times> event_t) list \<Rightarrow> 'a clock_t_scheme \<Rightarrow> (registers_t \<times> 'a clock_t_scheme) option" where
  "fire_all gui kcall regs [] s = Some (regs, s)"
| "fire_all gui kcall regs (x # xs) s = do { (r, s1) \<leftarrow> fire_first gui kcall regs x s; fire_all gui kcall r xs s1 }"

definition same_clock :: "'a clock_t_scheme \<Rightarrow> 'a clock_t_scheme \<Rightarrow> bool" where
  "same_clock s s' \<longleftrightarrow> first_event s' = first_event s \<and> timer_i s' = timer_i s \<and> events_active s' = events_active s"

text \<open>Callbacks of the kernel that add no events.\<close>

definition kcall_ok :: "(u32 \<Rightarrow> registers_t \<Rightarrow> u32 \<Rightarrow> 'a clock_t_scheme \<Rightarrow> (registers_t \<times> 'a clock_t_scheme) option) \<Rightarrow> bool" where
  "kcall_ok kcall \<longleftrightarrow> (\<forall>cb regs m s r s'. kcall cb regs m s = Some (r, s') \<longrightarrow> same_clock s s')"

lemma same_msg_clock: "same_msg s s' \<Longrightarrow> same_clock s s'" for s s' :: "'a clock_t_scheme"
  by (cases s; cases s') (simp add: same_msg_def same_clock_def)

lemma same_clock_free: "same_clock s (free a n s)" for s :: "'a clock_t_scheme"
  by (rule same_msg_clock) (rule same_more, simp)

lemma event_fire_clock: "gui_ok gui \<Longrightarrow> kcall_ok kcall \<Longrightarrow> event_fire gui kcall regs e s = Some (r, s') \<Longrightarrow> same_clock s s'"
  by (auto simp: event_fire_def Let_def kcall_ok_def same_clock_def dest!: same.call_subroutine same_msg_clock split: if_splits)

lemma fire_first_clock:
  assumes "gui_ok gui" "kcall_ok kcall" "fire_first gui kcall regs x s = Some (r, s')"
  shows "first_event s' = tl (first_event s)" "timer_i s' = timer_i s" "events_active s' = events_active s"
proof -
  let ?s = "s\<lparr> first_event := tl (first_event s) \<rparr>"
  obtain s2 where "same_clock ?s s2" "s' = free (fst x) 24 s2"
  proof (cases "et_task (snd x) \<ge> 0 \<and> \<not> ts_enabled (tasks s (nat (et_task (snd x))))")
    case True
    then show ?thesis using that [of ?s] assms(3) by (simp add: fire_first_def Let_def same_clock_def)
  next
    case False
    then obtain s2 where e: "event_fire gui kcall regs (snd x) ?s = Some (r, s2)" "s' = free (fst x) 24 s2"
      using assms(3) unfolding fire_first_def Let_def if_not_P [OF False] by auto
    then show ?thesis using that event_fire_clock [OF assms(1,2)] by blast
  qed
  then show "first_event s' = tl (first_event s)" "timer_i s' = timer_i s" "events_active s' = events_active s"
    using same_clock_free [of s2 "fst x" 24] by (simp_all add: same_clock_def)
qed

lemma events_check_fires:
  assumes "gui_ok gui" "kcall_ok kcall" "events_active s" "first_event s = xs @ ys" "\<forall>x\<in>set xs. until s x \<le> 0" "ys = [] \<or> 0 < until s (hd ys)"
  shows "events_check gui kcall regs s = fire_all gui kcall regs xs s \<and> (\<forall>r s'. fire_all gui kcall regs xs s = Some (r, s') \<longrightarrow> first_event s' = ys)"
  using assms(3-6)
proof (induction xs arbitrary: regs s)
  case Nil
  then show ?case by (subst events_check.simps) auto
next
  case (Cons x xs)
  have due: "events_check gui kcall regs s = do { (r, s1) \<leftarrow> fire_first gui kcall regs x s; events_check gui kcall r s1 }"
    using Cons.prems by (subst events_check.simps) auto
  show ?case
  proof (cases "fire_first gui kcall regs x s")
    case None
    then show ?thesis using due by simp
  next
    case (Some a)
    obtain r s1 where f: "fire_first gui kcall regs x s = Some (r, s1)" using Some by (cases a) auto
    note c = fire_first_clock [OF assms(1,2) f]
    have "events_check gui kcall r s1 = fire_all gui kcall r xs s1 \<and> (\<forall>r' s'. fire_all gui kcall r xs s1 = Some (r', s') \<longrightarrow> first_event s' = ys)"
      using Cons.IH [of s1 r] Cons.prems c by simp
    then show ?thesis using due f by simp
  qed
qed

lemma sorted_map_split:
  "sorted (map f xs) \<Longrightarrow> xs = filter (\<lambda>x. f x \<le> b) xs @ filter (\<lambda>x. b < f x) xs" for f :: "'a \<Rightarrow> int"
proof (induction xs)
  case (Cons x xs)
  show ?case
  proof (cases "b < f x")
    case True
    then have "\<forall>y\<in>set (x # xs). b < f y" using Cons.prems by auto
    then have "filter (\<lambda>x. f x \<le> b) (x # xs) = []" "filter (\<lambda>x. b < f x) (x # xs) = x # xs"
      by (auto simp: filter_empty_conv not_le filter_id_conv)
    then show ?thesis by simp
  next
    case False
    then show ?thesis using Cons by simp
  qed
qed simp

text \<open>
  C14: timer events. Adding an event keeps the list in the order of the time left, with the new event behind those
  that fire no later; the order stays as the clock advances and wraps around, as long as no event is \<open>2 ^ 31\<close> ticks overdue. The
  check fires exactly the events that are due, the earliest first, and leaves the others. (\<open>gui_ok\<close>, \<open>kcall_ok\<close>: the windows
  of a crashed task and callbacks of the kernel add no events.)
\<close>

theorem timer_events_in_order:
  fixes s :: "'a clock_t_scheme"
  assumes "events_sorted s" and "gui_ok gui" and "kcall_ok kcall"
  shows "events_sorted (events_add delta callback msg taskid s)
    \<and> (fst (malloc 24 s) \<noteq> 0 \<longrightarrow> (\<exists>e us vs. first_event (events_add delta callback msg taskid s) = us @ e # vs \<and> first_event s = us @ vs
          \<and> et_time (snd e) = timer_i s + of_int delta \<and> et_callback (snd e) = callback \<and> (\<forall>x\<in>set us. until s x \<le> until s e) \<and> (\<forall>x\<in>set vs. until s e < until s x)))
    \<and> ((\<forall>x\<in>set (first_event s). - (2 ^ 31) \<le> until s x - int k) \<longrightarrow> events_sorted (s\<lparr> timer_i := timer_i s + of_nat k \<rparr>))
    \<and> (events_active s \<longrightarrow> events_check gui kcall regs s = fire_all gui kcall regs (filter (\<lambda>x. until s x \<le> 0) (first_event s)) s
         \<and> (\<forall>r s'. events_check gui kcall regs s = Some (r, s') \<longrightarrow> first_event s' = filter (\<lambda>x. 0 < until s x) (first_event s)))"
proof -
  have srt: "sorted (map (until s) (first_event s))" using assms(1) by (simp add: events_sorted_def)
  obtain a s1 where m: "malloc 24 (s\<lparr> events_active := True \<rparr>) = (a, s1)" by fastforce
  have c1: "timer_i s1 = timer_i s" "first_event s1 = first_event s"
    using same_msg_clock [OF same_more [OF more_heap(1) [of 24 "s\<lparr> events_active := True \<rparr>"]]] m by (simp_all add: same_clock_def)
  have a: "a = fst (malloc 24 s)" using m by (auto simp: malloc_def Let_def split: option.splits if_splits)
  define e where "e = (a, \<lparr> et_time = timer_i s + of_int delta, et_msg = msg, et_callback = callback, et_task = taskid,
      et_task_uid = (if taskid \<ge> 0 then ts_task_uid (tasks s1 (nat taskid)) else 0) \<rparr>)"
  have add: "first_event (events_add delta callback msg taskid s) = (if a = 0 then first_event s else insert_event (timer_i s) e (first_event s))"
    "timer_i (events_add delta callback msg taskid s) = timer_i s"
    using m c1 by (simp_all add: events_add_def Let_def e_def)
  have 1: "events_sorted (events_add delta callback msg taskid s)"
    unfolding events_sorted_def add using srt sorted_insert_event by simp
  let ?us = "filter (\<lambda>x. until s x \<le> until s e) (first_event s)" and ?vs = "filter (\<lambda>x. until s e < until s x) (first_event s)"
  have sp: "insert_event (timer_i s) e (first_event s) = ?us @ [e] @ ?vs" using insert_event_split [OF srt] by simp
  have fs: "first_event s = filter (\<lambda>x. until s x \<le> b) (first_event s) @ filter (\<lambda>x. b < until s x) (first_event s)" for b
    by (rule sorted_map_split [OF srt])
  have 2: "\<exists>e us vs. first_event (events_add delta callback msg taskid s) = us @ e # vs \<and> first_event s = us @ vs
      \<and> et_time (snd e) = timer_i s + of_int delta \<and> et_callback (snd e) = callback \<and> (\<forall>x\<in>set us. until s x \<le> until s e) \<and> (\<forall>x\<in>set vs. until s e < until s x)"
    if "fst (malloc 24 s) \<noteq> 0"
    by (rule exI [of _ e], rule exI [of _ ?us], rule exI [of _ ?vs]) (use that a add(1) sp fs [of "until s e"] in \<open>simp add: e_def\<close>)
  have 3: "events_sorted (s\<lparr> timer_i := timer_i s + of_nat k \<rparr>)" if "\<forall>x\<in>set (first_event s). - (2 ^ 31) \<le> until s x - int k"
    using sorted_later [OF srt that] by (simp add: events_sorted_def)
  let ?xs = "filter (\<lambda>x. until s x \<le> 0) (first_event s)" and ?ys = "filter (\<lambda>x. 0 < until s x) (first_event s)"
  have hd: "?ys = [] \<or> 0 < until s (hd ?ys)"
  proof (cases "?ys = []")
    case False
    then have "hd ?ys \<in> set ?ys" by (rule hd_in_set)
    then show ?thesis by simp
  qed simp
  have 4: "events_check gui kcall regs s = fire_all gui kcall regs ?xs s
      \<and> (\<forall>r s'. events_check gui kcall regs s = Some (r, s') \<longrightarrow> first_event s' = ?ys)" if "events_active s"
  proof -
    have due: "\<forall>x\<in>set ?xs. until s x \<le> 0" by simp
    note f = events_check_fires [OF assms(2,3) that fs [of 0] due hd, of regs]
    show ?thesis unfolding f [THEN conjunct1] by (intro conjI refl f [THEN conjunct2])
  qed
  show ?thesis by (intro conjI impI 1 2 3 4)
qed

text \<open>The counter is about to wrap around; one event is due since then, another fires after the wrap.\<close>

definition due_event :: "u32 \<times> event_t" where
  "due_event = (0x2000000, \<lparr> et_time = 0xFFFFFFF0, et_msg = 1, et_callback = 0x100, et_task = -1, et_task_uid = 0 \<rparr>)"

definition later_event :: "u32 \<times> event_t" where
  "later_event = (0x2001000, \<lparr> et_time = 5, et_msg = 2, et_callback = 0x100, et_task = -1, et_task_uid = 0 \<rparr>)"

definition ticking :: clock_t where
  "ticking = msg_t.extend two_tasks \<lparr> timer_i = 0xFFFFFFFF, events_active = True, first_event = [due_event, later_event] \<rparr>"

definition clock_gui :: "clock_t gui_t" where
  "clock_gui = \<lparr> gui_reset_windows = (\<lambda>_ s. s), gui_task_crash = (\<lambda>_ _ s. s) \<rparr>"

definition idle_call :: "u32 \<Rightarrow> registers_t \<Rightarrow> u32 \<Rightarrow> clock_t \<Rightarrow> (registers_t \<times> clock_t) option" where
  "idle_call cb regs m s = Some (regs, s)"

lemma ticking_fields [simp]:
  "timer_i ticking = 0xFFFFFFFF" "events_active ticking" "first_event ticking = [due_event, later_event]"
  by (simp_all add: ticking_def msg_t.defs)

lemma ticking_until [simp]: "event_time_until 0xFFFFFFFF due_event = - 15" "event_time_until 0xFFFFFFFF later_event = 6"
  by (simp_all add: event_time_until_def due_event_def later_event_def)

theorem timer_events_in_order_witness:
  "(\<exists>e. first_event (events_add 3 0x100 0 (-1) ticking) = [due_event, e, later_event] \<and> et_time (snd e) = 2)
   \<and> events_sorted (ticking\<lparr> timer_i := 9 \<rparr>)
   \<and> (\<exists>r s'. events_check clock_gui idle_call zero_regs ticking = Some (r, s') \<and> first_event s' = [later_event])"
proof -
  have h: "events_sorted ticking" "gui_ok clock_gui" "kcall_ok idle_call"
    by (simp_all add: events_sorted_def gui_ok_def clock_gui_def kcall_ok_def idle_call_def same_clock_def)
  have w: "(4294967305 :: u32) = 9" "(4294967298 :: u32) = 2" by simp_all
  have m: "fst (malloc 24 ticking) \<noteq> 0"
    by (simp add: ticking_def msg_t.defs two_tasks_def kern_t.defs mapped_process_def block_addr_def malloc_def size_blocks_def malloc_search.simps)
  note t = timer_events_in_order [OF h, of 3 "0x100" 0 "-1" 10 zero_regs]
  have "fire_all clock_gui idle_call zero_regs [due_event] ticking = Some (zero_regs, free 0x2000000 24 (ticking\<lparr> first_event := [later_event] \<rparr>))"
    by (simp add: fire_first_def event_fire_def idle_call_def due_event_def)
  then have "events_check clock_gui idle_call zero_regs ticking = Some (zero_regs, free 0x2000000 24 (ticking\<lparr> first_event := [later_event] \<rparr>))"
    using t by simp
  moreover from this have "first_event (free 0x2000000 24 (ticking\<lparr> first_event := [later_event] \<rparr>)) = [later_event]" using t by simp
  moreover have "\<exists>e. first_event (events_add 3 0x100 0 (-1) ticking) = [due_event, e, later_event] \<and> et_time (snd e) = 2"
  proof -
    obtain e us vs where e: "first_event (events_add 3 0x100 0 (-1) ticking) = us @ e # vs" "first_event ticking = us @ vs"
        "et_time (snd e) = timer_i ticking + of_int 3" "\<forall>x\<in>set us. until ticking x \<le> until ticking e" "\<forall>x\<in>set vs. until ticking e < until ticking x"
      using t [THEN conjunct2, THEN conjunct1, THEN mp, OF m] by (elim exE conjE)
    then have u: "event_time_until 0xFFFFFFFF e = 3" by (simp add: event_time_until_def)
    have e3: "et_time (snd e) = 2" using e(3) by (simp add: w)
    consider "us = []" "vs = [due_event, later_event]" | "us = [due_event]" "vs = [later_event]" | "us = [due_event, later_event]" "vs = []"
      using e(2) by (auto simp: Cons_eq_append_conv)
    then show ?thesis using e(1,4,5) e3 u by cases auto
  qed
  ultimately show ?thesis using t by (simp add: w)
qed

end
