(* ===== verification/Futex.thy ===== *)
theory Futex
  imports Vm Msgcall Calm
begin

text \<open>
  Futexes (\<^verbatim>\<open>src/futex.c\<close> and the system calls of \<^verbatim>\<open>src/api.c\<close>): a task waits at an address of its own while the word there
  has the value it expects, and another task wakes one waiter of that address. A futex in shared memory is known by its physical
  address, so that processes that map the block at different addresses meet; a private one by its virtual address and process. A bucket is
  the list of its nodes from the head on, each with its address on the heap.
\<close>

section \<open>Model\<close>

record futex_waiter_t =
  fw_task_id :: int
  fw_task_uid :: u32
  fw_process_uid :: u32
  fw_key_addr :: u32

record futex_t = kern_t +
  buckets :: "u32 \<Rightarrow> (u32 \<times> futex_waiter_t) list"

datatype futex_result = FUTEX_WAIT_NOBLOCK | FUTEX_WAIT_BLOCK | FUTEX_WAIT_FAIL

definition private_hash :: "u32 \<Rightarrow> u32" where
  "private_hash k = drop_bit 2 k mod 256"

text \<open>The address and the process (0: shared) of a futex.\<close>

definition futex_key :: "u32 \<Rightarrow> u32 \<Rightarrow> 'a kern_t_scheme \<Rightarrow> (u32 \<times> u32) option" where
  "futex_key process vaddr s =
     do { region \<leftarrow> process_find_vm process vaddr s;
          let r = vm_regions s region; let i = kobj_insts s (vr_inst r);
          Some (if region \<noteq> 0 \<and> ki_type i = KOBJ_SHARED then (sb_paddr (shared_blocks s (ki_data i)) + (vaddr - vr_vaddr r), 0)
                else (vaddr, pr_uid (processes s process))) }"

definition set_bucket :: "u32 \<Rightarrow> (u32 \<times> futex_waiter_t) list \<Rightarrow> 'a futex_t_scheme \<Rightarrow> 'a futex_t_scheme" where
  "set_bucket h ws s = s\<lparr> buckets := (buckets s)(h := ws) \<rparr>"

definition futex_wait :: "u32 \<Rightarrow> u32 \<Rightarrow> 'a futex_t_scheme \<Rightarrow> (futex_result \<times> 'a futex_t_scheme) option" where
  "futex_wait addr expected s =
     do { (n, val) \<leftarrow> copy_from_task (current_task s) addr 4 s;
          if n \<noteq> 4 then Some (FUTEX_WAIT_FAIL, s)
          else if bytes_word val \<noteq> expected then Some (FUTEX_WAIT_NOBLOCK, s)
          else let task = tasks s (nat (current_task s)); (waiter, s1) = malloc 20 s
               in if waiter = 0 then Some (FUTEX_WAIT_FAIL, s1)
                  else do {
                    (k, pid) \<leftarrow> futex_key (ts_process task) addr s1;
                    let w = \<lparr> fw_task_id = current_task s, fw_task_uid = ts_task_uid task, fw_process_uid = pid, fw_key_addr = k \<rparr>;
                    Some (FUTEX_WAIT_BLOCK, set_bucket (private_hash k) ((waiter, w) # buckets s1 (private_hash k)) s1) } }"

definition stale :: "futex_waiter_t \<Rightarrow> 'a kern_t_scheme \<Rightarrow> bool" where
  "stale w s \<longleftrightarrow> \<not> ts_enabled (tasks s (nat (fw_task_id w))) \<or> ts_task_uid (tasks s (nat (fw_task_id w))) \<noteq> fw_task_uid w"

definition matches :: "u32 \<Rightarrow> u32 \<Rightarrow> futex_waiter_t \<Rightarrow> bool" where
  "matches k pid w \<longleftrightarrow> fw_key_addr w = k \<and> fw_process_uid w = pid"

text \<open>The loop of \<open>futex_wake\<close>; the bucket is the nodes passed over and the nodes to come.\<close>

fun wake_loop :: "registers_t \<Rightarrow> u32 \<Rightarrow> u32 \<Rightarrow> (u32 \<times> futex_waiter_t) list \<Rightarrow> (u32 \<times> futex_waiter_t) list \<Rightarrow> 'a futex_t_scheme
    \<Rightarrow> (registers_t \<times> 'a futex_t_scheme) option" where
  "wake_loop regs k pid passed [] s = Some (regs, s)"
| "wake_loop regs k pid passed ((a, w) # ws) s =
     (if \<not> stale w s \<and> \<not> matches k pid w then wake_loop regs k pid (passed @ [(a, w)]) ws s
      else let s1 = free a 20 (set_bucket (private_hash k) (passed @ ws) s)
           in if \<not> stale w s \<and> matches k pid w
              then do { (ok, regs1, s2) \<leftarrow> switch_to_task (fw_task_id w) regs (task_resume (nat (fw_task_id w)) s1); Some (regs1, s2) }
              else wake_loop regs k pid passed ws s1)"

definition futex_wake :: "registers_t \<Rightarrow> u32 \<Rightarrow> 'a futex_t_scheme \<Rightarrow> (registers_t \<times> 'a futex_t_scheme) option" where
  "futex_wake regs addr s =
     do { (k, pid) \<leftarrow> futex_key (ts_process (tasks s (nat (current_task s)))) addr s;
          wake_loop regs k pid [] (buckets s (private_hash k)) s }"

definition api_futex_wait :: "registers_t \<Rightarrow> 'a futex_t_scheme \<Rightarrow> (registers_t \<times> 'a futex_t_scheme) option" where
  "api_futex_wait regs s =
     do { (result, s1) \<leftarrow> futex_wait (r_ebx regs) (r_ecx regs) s;
          case result of
            FUTEX_WAIT_BLOCK \<Rightarrow>
              do { (regs1, esp, s2) \<leftarrow> switch_task (regs\<lparr> r_ebx := 0 \<rparr>) False (task_pause (nat (current_task s1)) PAUSE_FUTEX s1); Some (regs1, s2) }
          | FUTEX_WAIT_FAIL \<Rightarrow> Some (regs\<lparr> r_ebx := - 1 \<rparr>, s1)
          | FUTEX_WAIT_NOBLOCK \<Rightarrow> Some (regs\<lparr> r_ebx := 1 \<rparr>, s1) }"

definition api_futex_wake :: "registers_t \<Rightarrow> 'a futex_t_scheme \<Rightarrow> (registers_t \<times> 'a futex_t_scheme) option" where
  "api_futex_wake regs s = futex_wake regs (r_ebx regs) s"

section \<open>What the scheduler leaves alone\<close>

definition status :: "task_state_t \<Rightarrow> bool \<times> u32 \<times> bool \<times> task_pause_reason_t" where
  "status x = (ts_enabled x, ts_task_uid x, ts_paused x, ts_pause_reason x)"

definition same_futex :: "'a futex_t_scheme \<Rightarrow> 'a futex_t_scheme \<Rightarrow> bool" where
  "same_futex s s' \<longleftrightarrow> buckets s' = buckets s \<and> (\<forall>t. status (tasks s' t) = status (tasks s t))"

lemma more_buckets: "kern_t.more s' = kern_t.more s \<Longrightarrow> buckets s' = buckets s" for s s' :: "'a futex_t_scheme"
  by (cases s; cases s') simp

lemma same_futex_trans: "same_futex s s1 \<Longrightarrow> same_futex s1 s2 \<Longrightarrow> same_futex s s2"
  by (simp add: same_futex_def)

lemma save_status: "save_and_load old regs s = Some (regs', s') \<Longrightarrow> status (tasks s' t) = status (tasks s t)"
  by (auto simp: save_and_load_def Let_def upd_task_def status_def split: if_splits)

lemma load_pagedir_tasks [simp]: "tasks (load_pagedir s) = tasks s" "current_task (load_pagedir s) = current_task s"
  by (simp_all add: load_pagedir_def Let_def swap_pagedir_def)

lemma switch_same:
  fixes s :: "'a futex_t_scheme"
  shows "switch_task regs r s = Some (regs', e, s') \<Longrightarrow> same_futex s s'" "switch_to_task i regs s = Some (ok, regs', s') \<Longrightarrow> same_futex s s'"
proof -
  assume a: "switch_task regs r s = Some (regs', e, s')"
  show "same_futex s s'" unfolding same_futex_def more_buckets [OF more_switch(1) [OF a]]
    using a by (auto simp: switch_task_def bind_eq_Some_conv Let_def upd_task_def split: if_splits dest!: save_status) (simp add: status_def)
next
  assume a: "switch_to_task i regs s = Some (ok, regs', s')"
  show "same_futex s s'" unfolding same_futex_def more_buckets [OF more_switch(2) [OF a]]
    using a by (auto simp: switch_to_task_def bind_eq_Some_conv Let_def split: if_splits dest!: save_status)
qed

lemma switch_to_returns:
  assumes "0 \<le> current_task s"
  shows "\<exists>ok r s'. switch_to_task i regs s = Some (ok, r, s')"
proof -
  have "save_and_load (current_task s) regs s1 \<noteq> None" for s1 :: "'a kern_t_scheme" using assms by (simp add: save_and_load_def Let_def)
  then obtain r s1 where "save_and_load (current_task s) regs (load_pagedir (s\<lparr> current_task := i \<rparr>)) = Some (r, s1)" by fastforce
  then show ?thesis by (auto simp: switch_to_task_def Let_def)
qed

lemma heap_same: "same_futex s (snd (malloc n s))" "same_futex s (free a n s)" for s :: "'a futex_t_scheme"
  using more_buckets [OF more_heap(1) [of n s]] more_buckets [OF more_heap(2) [of a n s]] by (simp_all add: same_futex_def)

section \<open>Waking\<close>

abbreviation queue_of :: "u32 \<Rightarrow> u32 \<Rightarrow> 'a kern_t_scheme \<Rightarrow> (u32 \<times> futex_waiter_t) list \<Rightarrow> (u32 \<times> futex_waiter_t) list" where
  "queue_of k pid s \<equiv> filter (\<lambda>x. \<not> stale (snd x) s \<and> matches k pid (snd x))"

abbreviation live_in :: "'a kern_t_scheme \<Rightarrow> (u32 \<times> futex_waiter_t) list \<Rightarrow> (u32 \<times> futex_waiter_t) list" where
  "live_in s \<equiv> filter (\<lambda>x. \<not> stale (snd x) s)"

lemma stale_status: "(\<forall>t. ts_enabled (tasks s' t) = ts_enabled (tasks s t) \<and> ts_task_uid (tasks s' t) = ts_task_uid (tasks s t)) \<Longrightarrow> stale w s' = stale w s"
  by (simp add: stale_def)

text \<open>What a wake does: the first waiter of the futex, if there is one, is resumed and leaves the bucket; the other live nodes stay.\<close>

definition woken :: "(u32 \<times> futex_waiter_t) option \<Rightarrow> u32 \<Rightarrow> 'a futex_t_scheme \<Rightarrow> 'a futex_t_scheme \<Rightarrow> bool" where
  "woken x h s s' \<longleftrightarrow>
     (\<forall>t. status (tasks s' t) = (case x of Some y \<Rightarrow> if t = nat (fw_task_id (snd y)) then (ts_enabled (tasks s t), ts_task_uid (tasks s t), False, PAUSE_NONE)
        else status (tasks s t) | None \<Rightarrow> status (tasks s t)))
     \<and> (\<forall>h'. h' \<noteq> h \<longrightarrow> buckets s' h' = buckets s h')
     \<and> live_in s (buckets s' h) = (case x of Some y \<Rightarrow> remove1 y (live_in s (buckets s h)) | None \<Rightarrow> live_in s (buckets s h))"

lemma unlinked:
  fixes s :: "'a futex_t_scheme" and a h :: u32 and ws :: "(u32 \<times> futex_waiter_t) list"
  defines "s1 \<equiv> free a 20 (set_bucket h ws s)"
  shows "buckets s1 = (buckets s)(h := ws)" "tasks s1 = tasks s" "current_task s1 = current_task s" "stale w s1 = stale w s"
  using heap_same(2) [of "set_bucket h ws s" a 20] by (simp_all add: s1_def set_bucket_def same_futex_def stale_def)

lemma wake_loop_spec:
  fixes s :: "'a futex_t_scheme"
  assumes "buckets s (private_hash k) = passed @ ws" "\<forall>x\<in>set passed. \<not> stale (snd x) s \<and> \<not> matches k pid (snd x)" "0 \<le> current_task s"
  shows "\<exists>regs' s'. wake_loop regs k pid passed ws s = Some (regs', s')
    \<and> woken (case queue_of k pid s ws of [] \<Rightarrow> None | x # _ \<Rightarrow> Some x) (private_hash k) s s'"
  using assms
proof (induction ws arbitrary: passed s)
  case Nil
  then show ?case by (simp add: woken_def)
next
  case (Cons x ws)
  obtain a w where x: "x = (a, w)" by fastforce
  let ?h = "private_hash k"
  define s1 where "s1 = free a 20 (set_bucket ?h (passed @ ws) s)"
  note u = unlinked [where a = a and h = ?h and ws = "passed @ ws" and s = s, folded s1_def]
  consider (pass) "\<not> stale w s" "\<not> matches k pid w" | (drop) "stale w s" | (wake) "\<not> stale w s" "matches k pid w" by blast
  then show ?case
  proof cases
    case pass
    then show ?thesis using Cons.IH [of s "passed @ [x]"] Cons.prems x by simp
  next
    case drop
    have "\<exists>regs' s'. wake_loop regs k pid passed ws s1 = Some (regs', s') \<and> woken (case queue_of k pid s1 ws of [] \<Rightarrow> None | x # _ \<Rightarrow> Some x) ?h s1 s'"
      by (rule Cons.IH) (use Cons.prems in \<open>simp_all add: u\<close>)
    moreover have "woken y ?h s1 s' \<longleftrightarrow> woken y ?h s s'" for y s'
      using drop Cons.prems(1) by (cases y) (simp_all add: woken_def u x)
    ultimately show ?thesis using drop by (simp add: x Let_def s1_def [symmetric] u(4))
  next
    case wake
    let ?t = "nat (fw_task_id w)"
    obtain ok regs' s2 where sw: "switch_to_task (fw_task_id w) regs (task_resume ?t s1) = Some (ok, regs', s2)"
      using switch_to_returns [of "task_resume ?t s1" "fw_task_id w" regs] Cons.prems(3) u(3) by (auto simp: task_resume_def upd_task_def)
    have "woken (Some x) ?h s s2"
      using switch_same(2) [OF sw] Cons.prems(1,2) wake
      by (auto simp: woken_def same_futex_def task_resume_def upd_task_def u x status_def remove1_append filter_id_conv)
    then show ?thesis using wake sw by (simp add: x Let_def s1_def [symmetric])
  qed
qed

section \<open>The waiters of a futex\<close>

text \<open>The abstract state: for each futex the tasks that wait for it, the last one first.\<close>

definition waiting :: "u32 \<Rightarrow> u32 \<Rightarrow> 'a futex_t_scheme \<Rightarrow> nat list" where
  "waiting k pid s = map (\<lambda>x. nat (fw_task_id (snd x))) (queue_of k pid s (buckets s (private_hash k)))"

definition in_futex :: "task_state_t \<Rightarrow> bool" where
  "in_futex x \<longleftrightarrow> ts_enabled x \<and> ts_paused x \<and> ts_pause_reason x = PAUSE_FUTEX"

text \<open>Exactly the tasks that are paused for a futex wait, each for one futex and once.\<close>

definition futex_inv :: "'a futex_t_scheme \<Rightarrow> bool" where
  "futex_inv s \<longleftrightarrow> (\<forall>t k pid. t \<in> set (waiting k pid s) \<longrightarrow> t < 16)
     \<and> (\<forall>t<16. in_futex (tasks s t) \<longleftrightarrow> (\<exists>k pid. t \<in> set (waiting k pid s)))
     \<and> (\<forall>t k pid k' pid'. t \<in> set (waiting k pid s) \<and> t \<in> set (waiting k' pid' s) \<longrightarrow> k = k' \<and> pid = pid')
     \<and> (\<forall>k pid. distinct (waiting k pid s))"

lemma status_fields: "status x = status y \<Longrightarrow> ts_enabled x = ts_enabled y \<and> ts_task_uid x = ts_task_uid y \<and> in_futex x = in_futex y"
  by (simp add: status_def in_futex_def)

lemma same_futex_stale: "same_futex s s' \<Longrightarrow> stale w s' = stale w s"
  using status_fields by (intro stale_status) (metis same_futex_def)

lemma same_futex_waiting: "same_futex s s' \<Longrightarrow> waiting k pid s' = waiting k pid s"
  by (simp add: waiting_def same_futex_stale) (simp add: same_futex_def)

lemma same_futex_inv: "same_futex s s' \<Longrightarrow> futex_inv s' = futex_inv s"
proof -
  assume a: "same_futex s s'"
  then have "in_futex (tasks s' t) = in_futex (tasks s t)" for t using status_fields unfolding same_futex_def by blast
  then show ?thesis unfolding futex_inv_def same_futex_waiting [OF a] by simp
qed

lemma woken_waiting:
  assumes w: "woken (case queue_of k pid s (buckets s (private_hash k)) of [] \<Rightarrow> None | x # _ \<Rightarrow> Some x) (private_hash k) s s'"
  shows "waiting k' pid' s' = (if k' = k \<and> pid' = pid then tl (waiting k pid s) else waiting k' pid' s)"
proof -
  let ?h = "private_hash k"
  let ?q = "queue_of k pid s (buckets s ?h)"
  have st: "stale x s' = stale x s" for x using w by (intro stale_status) (auto simp: woken_def status_def split: option.splits list.splits if_splits)
  have q: "queue_of k1 p1 s xs = filter (\<lambda>x. matches k1 p1 (snd x)) (live_in s xs)" for k1 p1 xs by (simp add: conj_commute)
  show ?thesis
  proof (cases "private_hash k' = ?h")
    case False
    then have "k' \<noteq> k" by blast
    then show ?thesis using w False by (simp add: waiting_def st woken_def)
  next
    case True
    show ?thesis
    proof (cases ?q)
      case Nil
      then show ?thesis using w True unfolding waiting_def st q by (auto simp: woken_def)
    next
      case (Cons x xs)
      have l: "live_in s (buckets s' ?h) = remove1 x (live_in s (buckets s ?h))" using w Cons by (simp add: woken_def)
      have x: "matches k pid (snd x)" using Cons by (auto dest: filter_eq_ConsD)
      show ?thesis
      proof (cases "k' = k \<and> pid' = pid")
        case True
        have "filter (\<lambda>x. matches k pid (snd x)) (remove1 x (live_in s (buckets s ?h))) = xs" using Cons unfolding q filter_remove1 by simp
        then have "queue_of k pid s (buckets s' ?h) = xs" unfolding q l .
        then show ?thesis using True Cons by (simp add: waiting_def st)
      next
        case False
        then have "\<not> matches k' pid' (snd x)" using x by (auto simp: matches_def)
        then have "x \<notin> set (filter (\<lambda>x. matches k' pid' (snd x)) (live_in s (buckets s ?h)))" by simp
        then have "filter (\<lambda>x. matches k' pid' (snd x)) (remove1 x (live_in s (buckets s ?h))) = filter (\<lambda>x. matches k' pid' (snd x)) (live_in s (buckets s ?h))"
          unfolding filter_remove1 by (rule remove1_idem)
        then have "queue_of k' pid' s (buckets s' ?h) = queue_of k' pid' s (buckets s ?h)" unfolding q l .
        then show ?thesis unfolding if_not_P [OF False] waiting_def st \<open>private_hash k' = ?h\<close> by simp
      qed
    qed
  qed
qed

lemma woken_status:
  assumes w: "woken (case queue_of k pid s (buckets s (private_hash k)) of [] \<Rightarrow> None | x # _ \<Rightarrow> Some x) (private_hash k) s s'"
  shows "status (tasks s' t) = (if waiting k pid s \<noteq> [] \<and> t = hd (waiting k pid s) then (ts_enabled (tasks s t), ts_task_uid (tasks s t), False, PAUSE_NONE)
    else status (tasks s t))"
  using w by (auto simp: woken_def waiting_def split: list.splits)

section \<open>Steps\<close>

lemma find_vm_frame:
  fixes s s' :: "'a kern_t_scheme"
  assumes "vm_regions s' = vm_regions s"
  shows "find_vm_loop v p r s' = find_vm_loop v p r s"
proof -
  have k: "\<forall>s2. vm_regions s2 = vm_regions s1 \<longrightarrow> find_vm_loop v p r s2 = Some y" if "find_vm_loop v p r s1 = Some y" for y and s1 :: "'a kern_t_scheme"
    by (rule find_vm_loop.raw_induct [OF _ that]) (subst find_vm_loop.simps, auto split: if_splits)
  show ?thesis
  proof (cases "find_vm_loop v p r s")
    case None
    have "find_vm_loop v p r s = Some y" if "find_vm_loop v p r s' = Some y" for y using k [OF that, rule_format, of s] assms by simp
    then show ?thesis using None by (cases "find_vm_loop v p r s'") simp_all
  next
    case (Some y)
    then show ?thesis using k [OF Some, rule_format, of s'] assms by simp
  qed
qed

lemma wait_blocks:
  assumes "futex_wait addr expected s = Some (r, s')"
  obtains (kept) "r \<noteq> FUTEX_WAIT_BLOCK" "same_futex s s'"
  | (block) a k pid val where "r = FUTEX_WAIT_BLOCK" "copy_from_task (current_task s) addr 4 s = Some (4, val)" "bytes_word val = expected"
      "futex_key (ts_process (tasks s (nat (current_task s)))) addr s = Some (k, pid)" "tasks s' = tasks s" "current_task s' = current_task s"
      "buckets s' = (buckets s)(private_hash k := (a, \<lparr> fw_task_id = current_task s, fw_task_uid = ts_task_uid (tasks s (nat (current_task s))),
         fw_process_uid = pid, fw_key_addr = k \<rparr>) # buckets s (private_hash k))"
proof -
  obtain n val where v: "copy_from_task (current_task s) addr 4 s = Some (n, val)" using assms by (auto simp: futex_wait_def bind_eq_Some_conv)
  obtain a s1 where m: "malloc 20 s = (a, s1)" by fastforce
  note mk = malloc_kern_fields [of 20 s, unfolded m snd_conv]
  have s1: "same_futex s s1" using heap_same(1) [of s 20] m by simp
  have fk: "futex_key p x s1 = futex_key p x s" for p x unfolding futex_key_def process_find_vm_def mk find_vm_frame [OF mk(4)] ..
  consider "n \<noteq> 4 \<or> bytes_word val \<noteq> expected" | "n = 4" "bytes_word val = expected" "a = 0" | "n = 4" "bytes_word val = expected" "a \<noteq> 0" by blast
  then show ?thesis
  proof cases
    case 1
    then show ?thesis using assms kept v by (auto simp: futex_wait_def same_futex_def split: if_splits)
  next
    case 2
    then show ?thesis using assms kept v s1 m by (auto simp: futex_wait_def)
  next
    case 3
    then show ?thesis using assms block [of val _ _ a] v s1 m
      by (auto simp: futex_wait_def bind_eq_Some_conv fk mk set_bucket_def same_futex_def Let_def)
  qed
qed

lemma api_wait_cases:
  fixes s s' :: "'a futex_t_scheme"
  defines "t \<equiv> nat (current_task s)"
  assumes "api_futex_wait regs s = Some (regs', s')" "0 \<le> current_task s" "ts_enabled (tasks s t)"
  obtains (kept) "same_futex s s'"
  | (block) k pid where "futex_key (ts_process (tasks s t)) (r_ebx regs) s = Some (k, pid)"
      "\<And>k' pid'. waiting k' pid' s' = (if k' = k \<and> pid' = pid then t # waiting k pid s else waiting k' pid' s)"
      "\<And>u. status (tasks s' u) = (if u = t then (True, ts_task_uid (tasks s t), True, PAUSE_FUTEX) else status (tasks s u))"
proof -
  obtain r s1 where w: "futex_wait (r_ebx regs) (r_ecx regs) s = Some (r, s1)" using assms(2) by (auto simp: api_futex_wait_def bind_eq_Some_conv)
  from w show ?thesis
  proof (cases rule: wait_blocks)
    case kept
    then have "s' = s1" using assms(2) w by (cases r) (auto simp: api_futex_wait_def)
    then show ?thesis using kept(2) that(1) by simp
  next
    case (block a k pid val)
    let ?s2 = "task_pause t PAUSE_FUTEX s1"
    obtain e where "switch_task (regs\<lparr> r_ebx := 0 \<rparr>) False ?s2 = Some (regs', e, s')"
      using assms(2) w block(1,6) by (auto simp: api_futex_wait_def bind_eq_Some_conv t_def)
    note sw = switch_same(1) [OF this]
    have st: "status (tasks s' u) = (if u = t then (True, ts_task_uid (tasks s t), True, PAUSE_FUTEX) else status (tasks s u))" for u
      using sw block(5) assms(4) by (simp add: same_futex_def task_pause_def upd_task_def status_def)
    have "ts_enabled (tasks s' u) = ts_enabled (tasks s u) \<and> ts_task_uid (tasks s' u) = ts_task_uid (tasks s u)" for u
      using st [of u] assms(4) by (simp add: status_def split: if_splits)
    then have stale: "stale w s' = stale w s" for w by (intro stale_status) blast
    let ?w = "\<lparr> fw_task_id = current_task s, fw_task_uid = ts_task_uid (tasks s (nat (current_task s))), fw_process_uid = pid, fw_key_addr = k \<rparr>"
    have b: "buckets s' = (buckets s)(private_hash k := (a, ?w) # buckets s (private_hash k))"
      using sw block(7) by (simp add: same_futex_def task_pause_def upd_task_def)
    have n: "\<not> stale ?w s" using assms(4) by (simp add: stale_def t_def)
    have "waiting k' pid' s' = (if k' = k \<and> pid' = pid then t # waiting k pid s else waiting k' pid' s)" for k' pid'
      using n by (auto simp: waiting_def stale b matches_def t_def)
    then show ?thesis using that(2) block(4) st by (simp add: t_def)
  qed
qed

text \<open>
  The system calls as steps, and everything else the kernel does: it leaves the buckets alone, puts no task into a futex and takes none
  out, but tasks end, and new ones start in their slots under identities no waiter has.
\<close>

definition started :: "nat \<Rightarrow> 'a futex_t_scheme \<Rightarrow> bool" where
  "started t s \<longleftrightarrow> \<not> in_futex (tasks s t) \<and> (\<forall>h. \<forall>x\<in>set (buckets s h). fw_task_uid (snd x) \<noteq> ts_task_uid (tasks s t))"

definition kept_task :: "task_state_t \<Rightarrow> task_state_t \<Rightarrow> bool" where
  "kept_task x y \<longleftrightarrow> ts_enabled y = ts_enabled x \<and> ts_task_uid y = ts_task_uid x \<and> in_futex y = in_futex x"

inductive futex_step :: "'a futex_t_scheme \<Rightarrow> 'a futex_t_scheme \<Rightarrow> bool" where
  wait: "0 \<le> current_task s \<Longrightarrow> current_task s < 16 \<Longrightarrow> ts_enabled (tasks s (nat (current_task s))) \<Longrightarrow> \<not> ts_paused (tasks s (nat (current_task s))) \<Longrightarrow>
    api_futex_wait regs s = Some (regs', s') \<Longrightarrow> futex_step s s'"
| wake: "0 \<le> current_task s \<Longrightarrow> api_futex_wake regs s = Some (regs', s') \<Longrightarrow> futex_step s s'"
| other: "buckets s' = buckets s \<Longrightarrow> (\<forall>t. kept_task (tasks s t) (tasks s' t) \<or> \<not> ts_enabled (tasks s' t) \<or> started t s') \<Longrightarrow> futex_step s s'"

lemma other_inv:
  assumes inv: "futex_inv s" and b: "buckets s' = buckets s" and o: "\<forall>t. kept_task (tasks s t) (tasks s' t) \<or> \<not> ts_enabled (tasks s' t) \<or> started t s'"
  shows "futex_inv s'"
proof -
  have st: "\<not> stale (snd x) s' \<longleftrightarrow> \<not> stale (snd x) s \<and> kept_task (tasks s (nat (fw_task_id (snd x)))) (tasks s' (nat (fw_task_id (snd x))))"
    if "x \<in> set (buckets s h)" for x h
    using o [THEN spec, of "nat (fw_task_id (snd x))"] that b unfolding stale_def started_def kept_task_def by metis
  let ?P = "\<lambda>t. kept_task (tasks s t) (tasks s' t)"
  have q: "queue_of k pid s' (buckets s' (private_hash k)) = filter (\<lambda>x. ?P (nat (fw_task_id (snd x)))) (queue_of k pid s (buckets s (private_hash k)))" for k pid
    unfolding b filter_filter by (rule filter_cong [OF refl]) (use st in blast)
  have w: "waiting k pid s' = filter ?P (waiting k pid s)" for k pid unfolding waiting_def q by (simp add: filter_map o_def)
  have f: "in_futex (tasks s' t) \<longleftrightarrow> in_futex (tasks s t) \<and> ?P t" for t
    using o [THEN spec, of t] unfolding kept_task_def started_def in_futex_def by metis
  show ?thesis using inv unfolding futex_inv_def w f by auto
qed

lemma wait_inv:
  assumes inv: "futex_inv s" and "0 \<le> current_task s" "current_task s < 16" "ts_enabled (tasks s (nat (current_task s)))"
    "\<not> ts_paused (tasks s (nat (current_task s)))" "api_futex_wait regs s = Some (regs', s')"
  shows "futex_inv s'"
  using assms(6,2,4)
proof (cases rule: api_wait_cases)
  case kept
  then show ?thesis using inv by (simp add: same_futex_inv)
next
  case (block k pid)
  let ?t = "nat (current_task s)"
  have t: "?t < 16" "\<not> in_futex (tasks s ?t)" using assms(2,3,5) by (simp_all add: in_futex_def)
  then have n: "?t \<notin> set (waiting k' pid' s)" for k' pid' using inv unfolding futex_inv_def by blast
  have f: "in_futex (tasks s' u) \<longleftrightarrow> u = ?t \<or> in_futex (tasks s u)" for u
    using block(3) [of u] by (auto simp: status_def in_futex_def split: if_splits)
  have m: "u \<in> set (waiting k' pid' s') \<longleftrightarrow> u \<in> set (waiting k' pid' s) \<or> u = ?t \<and> k' = k \<and> pid' = pid" for u k' pid' unfolding block(2) by auto
  have "distinct (waiting k' pid' s')" for k' pid' using inv n unfolding block(2) futex_inv_def by simp
  then show ?thesis using inv t(1) n unfolding futex_inv_def m f by blast
qed

lemma wake_spec:
  assumes "futex_key (ts_process (tasks s (nat (current_task s)))) (r_ebx regs) s = Some (k, pid)" "0 \<le> current_task s"
  obtains regs' s' where "api_futex_wake regs s = Some (regs', s')"
    "\<And>k' pid'. waiting k' pid' s' = (if k' = k \<and> pid' = pid then tl (waiting k pid s) else waiting k' pid' s)"
    "\<And>t. status (tasks s' t) = (if waiting k pid s \<noteq> [] \<and> t = hd (waiting k pid s) then (ts_enabled (tasks s t), ts_task_uid (tasks s t), False, PAUSE_NONE)
       else status (tasks s t))"
proof -
  obtain regs' s' where l: "wake_loop regs k pid [] (buckets s (private_hash k)) s = Some (regs', s')"
    and w: "woken (case queue_of k pid s (buckets s (private_hash k)) of [] \<Rightarrow> None | x # _ \<Rightarrow> Some x) (private_hash k) s s'"
    using wake_loop_spec [where s = s and k = k and passed = "[]" and ws = "buckets s (private_hash k)" and pid = pid and regs = regs] assms(2) by auto
  have "api_futex_wake regs s = Some (regs', s')" using l assms(1) by (simp add: api_futex_wake_def futex_wake_def)
  then show ?thesis using woken_waiting [OF w] woken_status [OF w] by (rule that)
qed

lemma woken_futex:
  assumes inv: "futex_inv s" and w: "\<And>t. status (tasks s' t) = (if waiting k pid s \<noteq> [] \<and> t = hd (waiting k pid s)
      then (ts_enabled (tasks s t), ts_task_uid (tasks s t), False, PAUSE_NONE) else status (tasks s t))"
  shows "in_futex (tasks s' t) \<longleftrightarrow> in_futex (tasks s t) \<and> \<not> (waiting k pid s \<noteq> [] \<and> t = hd (waiting k pid s))"
  using w [of t] by (auto simp: status_def in_futex_def split: if_splits)

lemma wake_inv:
  assumes inv: "futex_inv s" and c: "0 \<le> current_task s" and w: "api_futex_wake regs s = Some (regs', s')"
  shows "futex_inv s'"
proof -
  obtain k pid where key: "futex_key (ts_process (tasks s (nat (current_task s)))) (r_ebx regs) s = Some (k, pid)"
    using w by (auto simp: api_futex_wake_def futex_wake_def bind_eq_Some_conv)
  obtain r1 s1 where 1: "api_futex_wake regs s = Some (r1, s1)"
    "\<And>k' pid'. waiting k' pid' s1 = (if k' = k \<and> pid' = pid then tl (waiting k pid s) else waiting k' pid' s)"
    "\<And>t. status (tasks s1 t) = (if waiting k pid s \<noteq> [] \<and> t = hd (waiting k pid s) then (ts_enabled (tasks s t), ts_task_uid (tasks s t), False, PAUSE_NONE)
       else status (tasks s t))"
    using wake_spec [OF key c] by metis
  have s1: "s1 = s'" using 1(1) w by simp
  note f = woken_futex [OF inv 1(3)]
  have d: "distinct (waiting k pid s)" using inv by (simp add: futex_inv_def)
  have m: "t \<in> set (waiting k' pid' s1) \<longleftrightarrow> t \<in> set (waiting k' pid' s) \<and> \<not> (k' = k \<and> pid' = pid \<and> waiting k pid s \<noteq> [] \<and> t = hd (waiting k pid s))" for t k' pid'
    unfolding 1(2) using d by (cases "waiting k pid s") auto
  have "distinct (waiting k' pid' s1)" for k' pid' using inv d unfolding 1(2) futex_inv_def by (simp add: distinct_tl)
  moreover have "t = hd (waiting k pid s) \<Longrightarrow> waiting k pid s \<noteq> [] \<Longrightarrow> t \<in> set (waiting k pid s)" for t by simp
  ultimately show ?thesis using inv unfolding futex_inv_def m f s1 [symmetric] by blast
qed

lemma futex_step_inv: "futex_step s s' \<Longrightarrow> futex_inv s \<Longrightarrow> futex_inv s'"
  by (induction rule: futex_step.induct) (auto intro: wait_inv wake_inv other_inv)

section \<open>Property\<close>

text \<open>
  C10: no wake-up of a futex is lost or goes astray. In every state that waits, wakes and anything else the kernel does can reach from
  one without waiters, exactly the tasks that are paused for a futex are queued, each under one futex and once. A wake returns; it resumes
  the task that came last to that futex, and no other task, and it takes it off that queue, while all other queues stay. (A futex is an
  address and a process, or a physical address and 0 in shared memory.)
\<close>

theorem futex_wakes_one:
  assumes "futex_step\<^sup>*\<^sup>* s0 s" and "\<And>h. buckets s0 h = []" and "\<And>t. \<not> in_futex (tasks s0 t)"
    and "0 \<le> current_task s" and "futex_key (ts_process (tasks s (nat (current_task s)))) (r_ebx regs) s = Some (k, pid)"
  shows "(\<forall>t<16. in_futex (tasks s t) \<longleftrightarrow> (\<exists>k pid. t \<in> set (waiting k pid s)))
    \<and> (\<forall>t k pid k' pid'. t \<in> set (waiting k pid s) \<and> t \<in> set (waiting k' pid' s) \<longrightarrow> k = k' \<and> pid = pid') \<and> distinct (waiting k pid s)
    \<and> (\<exists>regs' s'. api_futex_wake regs s = Some (regs', s')
         \<and> (\<forall>t. in_futex (tasks s' t) \<longleftrightarrow> in_futex (tasks s t) \<and> \<not> (waiting k pid s \<noteq> [] \<and> t = hd (waiting k pid s)))
         \<and> waiting k pid s' = tl (waiting k pid s) \<and> (\<forall>k' pid'. (k', pid') \<noteq> (k, pid) \<longrightarrow> waiting k' pid' s' = waiting k' pid' s))"
proof -
  have "futex_inv s0" using assms(2,3) by (simp add: futex_inv_def waiting_def)
  with assms(1) have inv: "futex_inv s" by (induction rule: rtranclp_induct) (auto intro: futex_step_inv)
  obtain regs' s' where w: "api_futex_wake regs s = Some (regs', s')"
    "\<And>k' pid'. waiting k' pid' s' = (if k' = k \<and> pid' = pid then tl (waiting k pid s) else waiting k' pid' s)"
    "\<And>t. status (tasks s' t) = (if waiting k pid s \<noteq> [] \<and> t = hd (waiting k pid s) then (ts_enabled (tasks s t), ts_task_uid (tasks s t), False, PAUSE_NONE)
       else status (tasks s t))"
    using wake_spec [OF assms(5,4)] by metis
  have "\<exists>regs' s'. api_futex_wake regs s = Some (regs', s')
      \<and> (\<forall>t. in_futex (tasks s' t) \<longleftrightarrow> in_futex (tasks s t) \<and> \<not> (waiting k pid s \<noteq> [] \<and> t = hd (waiting k pid s)))
      \<and> waiting k pid s' = tl (waiting k pid s) \<and> (\<forall>k' pid'. (k', pid') \<noteq> (k, pid) \<longrightarrow> waiting k' pid' s' = waiting k' pid' s)"
    using woken_futex [OF inv w(3)] w(1,2) by (intro exI [of _ regs'] exI [of _ s']) simp
  then show ?thesis using inv unfolding futex_inv_def by blast
qed

text \<open>Task 0 waits at an address of its page, and task 1, of the same process, wakes it.\<close>

definition two_threads :: futex_t where
  "two_threads = kern_t.extend (mapped_process\<lparr> tasks := (\<lambda>t. if t < 2 then zero_task\<lparr> ts_enabled := True, ts_task_uid := of_nat t \<rparr> else zero_task),
     current_task := 0 \<rparr>) \<lparr> buckets = (\<lambda>_. []) \<rparr>"

lemma two_threads_fields [simp]:
  "current_page_dir two_threads = block_addr 0" "current_task two_threads = 0" "buckets two_threads h = []" "switching two_threads = False"
  "tasks two_threads = (\<lambda>t. if t < 2 then zero_task\<lparr> ts_enabled := True, ts_task_uid := of_nat t \<rparr> else zero_task)" "pr_regions (processes two_threads p) = 0"
  "pr_uid (processes two_threads p) = 0" "pr_page_dir (processes two_threads p) = block_addr 0" "phys_mem two_threads = (\<lambda>_. 0)"
  by (simp_all add: two_threads_def kern_t.defs mapped_process_def boot_kern_def zero_process_def)

abbreviation futex_regs :: registers_t where
  "futex_regs \<equiv> zero_regs\<lparr> r_ebx := 0x8000000 \<rparr>"

lemma two_threads_key: "pr_regions (processes s p) = 0 \<Longrightarrow> pr_uid (processes s p) = 0 \<Longrightarrow> futex_key p 0x8000000 s = Some (0x8000000, 0)"
  by (simp add: futex_key_def process_find_vm_def find_vm_loop.simps)

lemma two_threads_wait:
  obtains s a where "api_futex_wait futex_regs two_threads = Some (zero_regs, s)" "processes s = processes two_threads"
    "tasks s = (tasks two_threads)(0 := (tasks two_threads 0)\<lparr> ts_paused := True, ts_pause_reason := PAUSE_FUTEX \<rparr>)"
    "buckets s = (\<lambda>_. [])(private_hash 0x8000000 := [(a, \<lparr> fw_task_id = 0, fw_task_uid = 0, fw_process_uid = 0, fw_key_addr = 0x8000000 \<rparr>)])"
proof -
  have "page_dirs two_threads = page_dirs mapped_process" "page_tables two_threads = page_tables mapped_process" by (simp_all add: two_threads_def kern_t.defs)
  then have "page_checkmapping d a two_threads = page_checkmapping d a mapped_process" for d a by (simp add: page_checkmapping_def Let_def)
  then have p: "page_checkmapping (block_addr 0) a two_threads = PAGE_USERRW" if "page_no a = 0x8000" for a using mapped_process_page(1) [OF that] by simp
  have "load_bytes (block_addr 0) 0x8000000 4 two_threads = Some (map (\<lambda>k. phys_mem two_threads (phys_of (block_addr 0) 0x8000000 two_threads k)) [0..<4])"
  proof (rule load_bytes_spec, intro allI impI)
    fix k :: nat assume "k < 4"
    then have "k = 0 \<or> k = 1 \<or> k = 2 \<or> k = 3" by arith
    then show "page_checkmapping (block_addr 0) (0x8000000 + of_nat k) two_threads \<noteq> PAGE_NOTPRESENT" using p by (auto simp: page_no_def)
  qed
  then have c: "copy_from_task 0 0x8000000 4 two_threads = Some (4, [0, 0, 0, 0])"
    using p [of "0x8000000"] by (simp add: copy_from_task_def task_validate_maxsize_def range_pages_def range_page_def page_accepted_def page_no_def Let_def upt_rec)
  obtain a s1 where m: "malloc 20 two_threads = (a, s1)" by fastforce
  note mk = malloc_kern_fields [of 20 two_threads, unfolded m snd_conv]
  have a: "a \<noteq> 0" using m
    by (auto simp: two_threads_def kern_t.defs mapped_process_def block_addr_def malloc_def size_blocks_def malloc_search.simps)
  have b: "buckets s1 = (\<lambda>_. [])" using heap_same(1) [of two_threads 20] m by (auto simp: same_futex_def)
  have k: "futex_key p 0x8000000 s1 = Some (0x8000000, 0)" for p by (rule two_threads_key) (simp_all add: mk)
  have z: "futex_regs\<lparr> r_ebx := 0 \<rparr> = zero_regs" "r_ecx futex_regs = 0" "r_ebx futex_regs = 0x8000000" by (simp_all add: zero_regs_def)
  define s2 where "s2 = set_bucket (private_hash 0x8000000) [(a, \<lparr> fw_task_id = 0, fw_task_uid = 0, fw_process_uid = 0, fw_key_addr = 0x8000000 \<rparr>)] s1"
  have s2: "current_task s2 = 0" "switching s2 = False" "tasks s2 = tasks two_threads" "processes s2 = processes two_threads"
    by (simp_all add: s2_def set_bucket_def mk)
  have "bytes_word [0, 0, 0, 0] = 0" by (simp add: bytes_word_def)
  then have f: "futex_wait 0x8000000 0 two_threads = Some (FUTEX_WAIT_BLOCK, s2)" by (simp add: futex_wait_def c m a k b s2_def)
  have "api_futex_wait futex_regs two_threads = Some (zero_regs, task_pause 0 PAUSE_FUTEX s2)"
    unfolding api_futex_wait_def z f by (simp add: s2 switch_task_def task_pause_def upd_task_def z)
  then show ?thesis
    by (rule that [of _ a]) (simp_all add: task_pause_def upd_task_def s2 del: two_threads_fields, simp add: s2_def set_bucket_def b)
qed

theorem futex_wakes_one_witness:
  "\<exists>s regs' s'. futex_step\<^sup>*\<^sup>* two_threads s \<and> in_futex (tasks s 0) \<and> api_futex_wake futex_regs s = Some (regs', s') \<and> \<not> in_futex (tasks s' 0)"
proof -
  obtain s1 a where w: "api_futex_wait futex_regs two_threads = Some (zero_regs, s1)" "processes s1 = processes two_threads"
    "tasks s1 = (tasks two_threads)(0 := (tasks two_threads 0)\<lparr> ts_paused := True, ts_pause_reason := PAUSE_FUTEX \<rparr>)"
    "buckets s1 = (\<lambda>_. [])(private_hash 0x8000000 := [(a, \<lparr> fw_task_id = 0, fw_task_uid = 0, fw_process_uid = 0, fw_key_addr = 0x8000000 \<rparr>)])"
    by (rule two_threads_wait)
  define s where "s = s1\<lparr> current_task := 1 \<rparr>"
  have "futex_step two_threads s1" by (rule futex_step.wait [OF _ _ _ _ w(1)]) (simp_all add: zero_task_def)
  moreover have "futex_step s1 s" by (rule futex_step.other) (simp_all add: s_def kept_task_def)
  ultimately have r: "futex_step\<^sup>*\<^sup>* two_threads s" by (meson converse_rtranclp_into_rtranclp r_into_rtranclp)
  have k: "futex_key (ts_process (tasks s (nat (current_task s)))) (r_ebx futex_regs) s = Some (0x8000000, 0)"
    unfolding s_def using w(2) by (simp add: two_threads_key)
  have q: "waiting 0x8000000 0 s = [0]" by (simp add: waiting_def s_def w(3,4) stale_def matches_def zero_task_def)
  have i: "in_futex (tasks s 0)" by (simp add: s_def w(3) in_futex_def)
  have e: "\<not> in_futex (tasks two_threads t)" "0 \<le> current_task s" for t by (simp_all add: in_futex_def zero_task_def s_def)
  obtain regs' s' where "api_futex_wake futex_regs s = Some (regs', s')"
    "in_futex (tasks s' 0) \<longleftrightarrow> in_futex (tasks s 0) \<and> \<not> (waiting 0x8000000 0 s \<noteq> [] \<and> 0 = hd (waiting 0x8000000 0 s))"
    using futex_wakes_one [OF r two_threads_fields(3) e k] by blast
  then show ?thesis using r i unfolding q by auto
qed

end
