(* ===== verification/Elf.thy ===== *)
theory Elf
  imports Cstring
begin

text \<open>
  Loading a program (\<^verbatim>\<open>src/elf.c\<close>): the checks of the file, the range of addresses of its segments, and the image that is built from
  them, on the memory of the kernel, where the file and the new image are blocks of the heap; with \<open>memcpy_fast\<close> of
  \<^verbatim>\<open>src/memory.c\<close>. The theory shows that the image of a well-formed file holds each segment and zeros, and that one check is missing.
\<close>

section \<open>Model\<close>

definition get_u16 :: "mem_t \<Rightarrow> u32 \<Rightarrow> u16" where
  "get_u16 m p = ucast (m p) OR push_bit 8 (ucast (m (p + 1)))"

definition get_u32 :: "mem_t \<Rightarrow> u32 \<Rightarrow> u32" where
  "get_u32 m p = ucast (m p) OR push_bit 8 (ucast (m (p + 1))) OR push_bit 16 (ucast (m (p + 2))) OR push_bit 24 (ucast (m (p + 3)))"

definition rep_movsl :: "u32 \<Rightarrow> u32 \<Rightarrow> nat \<Rightarrow> mem_t \<Rightarrow> mem_t" where
  "rep_movsl edi esi ecx m = fold (\<lambda>i m. put_u32 (at edi (4 * i)) (get_u32 m (at esi (4 * i))) m) [0..<ecx] m"

definition rep_movsb :: "u32 \<Rightarrow> u32 \<Rightarrow> nat \<Rightarrow> mem_t \<Rightarrow> mem_t" where
  "rep_movsb edi esi ecx m = fold (\<lambda>i m. m(at edi i := m (at esi i))) [0..<ecx] m"

definition memcpy_fast :: "u32 \<Rightarrow> u32 \<Rightarrow> nat \<Rightarrow> mem_t \<Rightarrow> mem_t" where
  "memcpy_fast dest src bytes m =
     (let dword_count = bytes div 4; byte_remainder = bytes mod 4
      in rep_movsb (at dest (4 * dword_count)) (at src (4 * dword_count)) byte_remainder (rep_movsl dest src dword_count m))"

record elf_prog_header_t =
  segment_type :: u32
  p_offset :: u32
  p_vaddr :: u32
  p_paddr :: u32
  p_filesz :: u32
  p_memsz :: u32
  ph_flags :: u32
  alignment :: u32

definition load_header :: "mem_t \<Rightarrow> u32 \<Rightarrow> elf_prog_header_t" where
  "load_header m p =
     \<lparr> segment_type = get_u32 m p, p_offset = get_u32 m (p + 4), p_vaddr = get_u32 m (p + 8), p_paddr = get_u32 m (p + 12),
       p_filesz = get_u32 m (p + 16), p_memsz = get_u32 m (p + 20), ph_flags = get_u32 m (p + 24), alignment = get_u32 m (p + 28) \<rparr>"

text \<open>The table of program headers, where the header of the file says it is.\<close>

definition prog_headers :: "mem_t \<Rightarrow> u32 \<Rightarrow> elf_prog_header_t list" where
  "prog_headers m prog = map (\<lambda>i. load_header m (prog + get_u32 m (prog + 28) + of_nat (32 * i))) [0..<unat (get_u16 m (prog + 44))]"

fun elf_scan :: "u32 \<Rightarrow> elf_prog_header_t list \<Rightarrow> u32 \<Rightarrow> u32 \<Rightarrow> (u32 \<times> u32) option" where
  "elf_scan sz [] vmem_start vmem_end = Some (vmem_start, vmem_end)"
| "elf_scan sz (ph # phs) vmem_start vmem_end =
     (if segment_type ph \<noteq> 1 then elf_scan sz phs vmem_start vmem_end
      else if p_offset ph + p_filesz ph > sz then None
      else elf_scan sz phs (if p_vaddr ph < vmem_start then p_vaddr ph else vmem_start)
             (if p_vaddr ph + p_memsz ph > vmem_end then p_vaddr ph + p_memsz ph else vmem_end))"

abbreviation (input) KERNEL_START :: u32 where "KERNEL_START \<equiv> 0x1000000"
abbreviation (input) KERNEL_END :: u32 where "KERNEL_END \<equiv> 0x1060000"

definition elf_conflict :: "u32 \<Rightarrow> u32 \<Rightarrow> bool" where
  "elf_conflict vmem_start vmem_end \<longleftrightarrow> vmem_start \<le> KERNEL_END \<and> vmem_end \<ge> KERNEL_START"

text \<open>The checks of \<open>elf_load\<close> on the file: the first and the last address of the program.\<close>

definition elf_check :: "mem_t \<Rightarrow> u32 \<Rightarrow> u32 \<Rightarrow> (u32 \<times> u32) option" where
  "elf_check m prog sz =
     (if get_u16 m (prog + 16) \<noteq> 2 then None
      else if map (\<lambda>i. m (at prog i)) [0..<4] \<noteq> [0x7F, 69, 76, 70] then None
      else case elf_scan sz (prog_headers m prog) 0xFFFFFFFF 0 of
             None \<Rightarrow> None
           | Some (vmem_start, vmem_end) \<Rightarrow>
               if vmem_start = 0xFFFFFFFF \<or> vmem_end = 0 then None
               else if elf_conflict vmem_start vmem_end then None
               else Some (vmem_start, vmem_end))"

text \<open>One segment of the image; the first two parameters are the file and the new block.\<close>

definition elf_segment :: "u32 \<Rightarrow> u32 \<Rightarrow> u32 \<Rightarrow> elf_prog_header_t \<Rightarrow> mem_t \<Rightarrow> mem_t" where
  "elf_segment prog newProg vmem_start ph m =
     (if segment_type ph \<noteq> 1 then m
      else let dest = newProg + (p_vaddr ph - vmem_start);
               m1 = memcpy_fast dest (prog + p_offset ph) (unat (p_filesz ph)) m
           in if p_memsz ph > p_filesz ph then memset (dest + p_filesz ph) 0 (sint (p_memsz ph - p_filesz ph)) m1 else m1)"

definition elf_image :: "u32 \<Rightarrow> u32 \<Rightarrow> u32 \<Rightarrow> u32 \<Rightarrow> mem_t \<Rightarrow> mem_t" where
  "elf_image prog newProg vmem_start vmem_end m =
     fold (elf_segment prog newProg vmem_start) (prog_headers m prog) (memset newProg 0 (sint (vmem_end - vmem_start)) m)"

section \<open>Copying\<close>

definition copied :: "u32 \<Rightarrow> u32 \<Rightarrow> nat \<Rightarrow> mem_t \<Rightarrow> mem_t" where
  "copied dest src n m = (\<lambda>a. if a \<in> region dest n then m (a - dest + src) else m a)"

lemma put_get_u32: "put_u32 d (get_u32 m s) m' = (((m'(d := m s))(d + 1 := m (s + 1)))(d + 2 := m (s + 2)))(d + 3 := m (s + 3))"
proof -
  let ?w = "get_u32 m s"
  have "ucast ?w = m s" "ucast (drop_bit 8 ?w) = m (s + 1)" "ucast (drop_bit 16 ?w) = m (s + 2)" "ucast (drop_bit 24 ?w) = m (s + 3)"
    by (rule bit_word_eqI, auto simp: get_u32_def bit_simps dest: bit_imp_le_length; fail)+
  then show ?thesis by (simp add: put_u32_def)
qed

lemma copied_Suc:
  assumes "region src (Suc n) \<inter> region dest (Suc n) = {}"
  shows "copied dest src (Suc n) m = (copied dest src n m)(at dest n := copied dest src n m (at src n))"
proof -
  have "at src n \<in> region src (Suc n)" by simp
  then have "at src n \<notin> region dest (Suc n)" by (rule assms [unfolded disjoint_iff, rule_format])
  then have "at src n \<notin> region dest n" by (simp add: region_Suc)
  moreover have "at dest n - dest + src = at src n" by (simp add: at_def)
  ultimately have "copied dest src (Suc n) m a = ((copied dest src n m)(at dest n := copied dest src n m (at src n))) a" for a
    by (cases "a = at dest n") (simp_all add: copied_def region_Suc)
  then show ?thesis by blast
qed

lemma rep_movsb_copied:
  assumes "region src n \<inter> region dest n = {}"
  shows "rep_movsb dest src n m = copied dest src n m"
  using assms
proof (induction n)
  case 0
  then show ?case by (simp add: rep_movsb_def copied_def)
next
  case (Suc n)
  have "region src n \<inter> region dest n = {}" using Suc.prems by (auto simp: region_Suc)
  then show ?case using Suc copied_Suc [OF Suc.prems, of m] by (simp add: rep_movsb_def)
qed

lemma copied_src:
  assumes "region src n \<inter> region dest n = {}" "k \<le> n" "i < n"
  shows "copied dest src k m (at src i) = m (at src i)"
proof -
  have "at src i \<notin> region dest n" by (rule assms(1) [unfolded disjoint_iff, rule_format]) (use assms(3) in simp)
  then have "at src i \<notin> region dest k" using region_mono [OF assms(2), of dest] by (rule contra_subsetD [rotated])
  then show ?thesis by (simp add: copied_def)
qed

lemma copied_4:
  assumes d: "region src (n + 4) \<inter> region dest (n + 4) = {}"
  shows "put_u32 (at dest n) (get_u32 (copied dest src n m) (at src n)) (copied dest src n m) = copied dest src (n + 4) m"
proof -
  have s: "copied dest src n m (at src n + 1) = m (at src n + 1)" "copied dest src n m (at src n + 2) = m (at src n + 2)"
    "copied dest src n m (at src n + 3) = m (at src n + 3)" "copied dest src n m (at src n) = m (at src n)"
    using copied_src [OF d, of n n m] copied_src [OF d, of n "n + 1" m] copied_src [OF d, of n "n + 2" m] copied_src [OF d, of n "n + 3" m]
    by (simp_all add: at_def add_ac)
  have r: "region dest (n + 4) = insert (at dest n + 3) (insert (at dest n + 2) (insert (at dest n + 1) (insert (at dest n) (region dest n))))"
    by (simp add: numeral_eq_Suc region_Suc at_def add_ac)
  have e: "at dest n + k - dest + src = at src n + k" "at dest n - dest + src = at src n" for k by (simp_all add: at_def)
  show ?thesis unfolding put_get_u32 s by (rule ext) (simp add: copied_def r e)
qed

lemma rep_movsl_copied: "region src (4 * n) \<inter> region dest (4 * n) = {} \<Longrightarrow> rep_movsl dest src n m = copied dest src (4 * n) m"
proof (induction n)
  case 0
  then show ?case by (simp add: rep_movsl_def copied_def)
next
  case (Suc n)
  have s: "4 * Suc n = 4 * n + 4" by simp
  have "region x (4 * n) \<subseteq> region x (4 * n + 4)" for x by (rule region_mono) simp
  then have "region src (4 * n) \<inter> region dest (4 * n) = {}" using Suc.prems unfolding s by (meson disjoint_iff subsetD)
  then show ?case using Suc.IH copied_4 [OF Suc.prems [unfolded s], of m] unfolding s by (simp add: rep_movsl_def)
qed

lemma memcpy_fast_copied:
  assumes d: "region src n \<inter> region dest n = {}" and n: "n \<le> 2 ^ 32"
  shows "memcpy_fast dest src n m = copied dest src n m"
proof -
  let ?q = "n div 4" and ?r = "n mod 4"
  have e: "n = 4 * ?q + ?r" by simp
  have sub: "region x (4 * ?q) \<subseteq> region x n" "region (at x (4 * ?q)) ?r \<subseteq> region x n" for x
    using region_add [of x "4 * ?q" ?r] unfolding e [symmetric] by auto
  have d1: "region src (4 * ?q) \<inter> region dest (4 * ?q) = {}" using d sub by (meson disjoint_iff subsetD)
  have d2: "region (at src (4 * ?q)) ?r \<inter> region (at dest (4 * ?q)) ?r = {}" using d sub by (meson disjoint_iff subsetD)
  have "memcpy_fast dest src n m = copied (at dest (4 * ?q)) (at src (4 * ?q)) ?r (copied dest src (4 * ?q) m)"
    by (simp add: memcpy_fast_def Let_def rep_movsl_copied [OF d1] rep_movsb_copied [OF d2])
  also have "\<dots> = copied dest src n m"
  proof
    fix a
    have r: "region dest n = region dest (4 * ?q) \<union> region (at dest (4 * ?q)) ?r" using region_add [of dest "4 * ?q" ?r] by simp
    show "copied (at dest (4 * ?q)) (at src (4 * ?q)) ?r (copied dest src (4 * ?q) m) a = copied dest src n m a"
    proof (cases "a \<in> region (at dest (4 * ?q)) ?r")
      case True
      then obtain i where i: "i < ?r" "a = at (at dest (4 * ?q)) i" by (auto simp: region_def)
      have b: "a - at dest (4 * ?q) + at src (4 * ?q) = at src (4 * ?q + i)" "a - dest + src = at src (4 * ?q + i)" by (simp_all add: i at_def)
      have "4 * ?q + i < n" using i(1) mult_div_mod_eq [of 4 n] by linarith
      then have "copied dest src (4 * ?q) m (at src (4 * ?q + i)) = m (at src (4 * ?q + i))" using d by (intro copied_src) simp_all
      then show ?thesis using True r b by (simp add: copied_def [of "at dest (4 * ?q)"] copied_def [of dest src n])
    next
      case False
      then show ?thesis using r by (simp add: copied_def)
    qed
  qed
  finally show ?thesis .
qed

section \<open>The range of the program\<close>

abbreviation loads :: "elf_prog_header_t list \<Rightarrow> elf_prog_header_t list" where
  "loads \<equiv> filter (\<lambda>ph. segment_type ph = 1)"

lemma scan_bounds:
  assumes "elf_scan sz phs lo hi = Some (lo', hi')"
  shows "lo' \<le> lo \<and> hi \<le> hi' \<and> (\<forall>ph\<in>set (loads phs). lo' \<le> p_vaddr ph \<and> p_vaddr ph + p_memsz ph \<le> hi' \<and> p_offset ph + p_filesz ph \<le> sz)"
  using assms
proof (induction phs arbitrary: lo hi)
  case (Cons ph phs)
  show ?case
  proof (cases "segment_type ph = 1")
    case True
    let ?lo = "if p_vaddr ph < lo then p_vaddr ph else lo" and ?hi = "if p_vaddr ph + p_memsz ph > hi then p_vaddr ph + p_memsz ph else hi"
    have s: "elf_scan sz phs ?lo ?hi = Some (lo', hi')" "p_offset ph + p_filesz ph \<le> sz" using Cons.prems True by (auto simp: not_less split: if_splits)
    have "?lo \<le> lo" "?lo \<le> p_vaddr ph" "hi \<le> ?hi" "p_vaddr ph + p_memsz ph \<le> ?hi" by auto
    then show ?thesis using Cons.IH [OF s(1)] s(2) True by (auto intro: order_trans)
  next
    case False
    then show ?thesis using Cons by simp
  qed
qed simp

text \<open>A segment that is no larger in the file than in memory and does not wrap around.\<close>

definition segment_ok :: "elf_prog_header_t \<Rightarrow> bool" where
  "segment_ok ph \<longleftrightarrow> p_filesz ph \<le> p_memsz ph \<and> unat (p_vaddr ph) + unat (p_memsz ph) < 2 ^ 32 \<and> unat (p_offset ph) + unat (p_filesz ph) < 2 ^ 32"

definition apart :: "elf_prog_header_t \<Rightarrow> elf_prog_header_t \<Rightarrow> bool" where
  "apart a b \<longleftrightarrow> unat (p_vaddr a) + unat (p_memsz a) \<le> unat (p_vaddr b) \<or> unat (p_vaddr b) + unat (p_memsz b) \<le> unat (p_vaddr a)"

definition seg_at :: "u32 \<Rightarrow> u32 \<Rightarrow> elf_prog_header_t \<Rightarrow> u32" where
  "seg_at base lo ph = base + (p_vaddr ph - lo)"

text \<open>Where a segment lies in the image, as an offset.\<close>

definition seg_off :: "u32 \<Rightarrow> elf_prog_header_t \<Rightarrow> nat" where
  "seg_off lo ph = unat (p_vaddr ph) - unat lo"

lemma seg_at_off: "lo \<le> p_vaddr ph \<Longrightarrow> seg_at base lo ph = at base (seg_off lo ph)"
  by (simp add: seg_at_def at_def seg_off_def unat_sub [symmetric] del: unat_sub)

text \<open>One segment: the bytes of the file, zeros up to its size, and nothing else.\<close>

lemma segment_effect:
  assumes ok: "segment_ok ph" "segment_type ph = 1" "unat (p_memsz ph) < 2 ^ 31"
    and d: "region (prog + p_offset ph) (unat (p_filesz ph)) \<inter> region (seg_at base lo ph) (unat (p_filesz ph)) = {}"
  shows "elf_segment prog base lo ph m a =
    (if a \<in> region (seg_at base lo ph) (unat (p_filesz ph)) then m (a - seg_at base lo ph + (prog + p_offset ph))
     else if a \<in> region (seg_at base lo ph) (unat (p_memsz ph)) then 0 else m a)"
proof -
  let ?d = "seg_at base lo ph" and ?f = "unat (p_filesz ph)" and ?n = "unat (p_memsz ph)"
  have le: "?f \<le> ?n" using ok(1) by (simp add: segment_ok_def word_le_nat_alt)
  have c: "memcpy_fast ?d (prog + p_offset ph) ?f m = copied ?d (prog + p_offset ph) ?f m"
    by (rule memcpy_fast_copied [OF d]) (use le ok(3) in simp)
  have r: "region ?d ?n = region ?d ?f \<union> region (?d + p_filesz ph) (?n - ?f)"
    using region_add [of ?d ?f "?n - ?f"] le by (simp add: at_def)
  have z: "region ?d ?f \<inter> region (?d + p_filesz ph) (?n - ?f) = {}"
  proof -
    have "at ?d (?f + i) \<notin> region ?d ?f" if "i < ?n - ?f" for i
      by (rule at_notin_region) (use that ok(3) in simp_all)
    moreover have "at (?d + p_filesz ph) i = at ?d (?f + i)" for i by (simp add: at_def)
    ultimately have "x \<notin> region ?d ?f" if "x \<in> region (?d + p_filesz ph) (?n - ?f)" for x
      using that unfolding region_def [of "?d + p_filesz ph"] by auto
    then show ?thesis by (simp only: disjoint_iff) metis
  qed
  show ?thesis
  proof (cases "p_memsz ph > p_filesz ph")
    case True
    have u: "unat (p_memsz ph - p_filesz ph) = ?n - ?f" using True by (simp add: unat_sub less_imp_le)
    have s: "nat (sint (p_memsz ph - p_filesz ph)) = ?n - ?f"
    proof -
      have "sint (p_memsz ph - p_filesz ph) = int (?n - ?f)" using sint_small [of "p_memsz ph - p_filesz ph"] u ok(3) by simp
      then show ?thesis by simp
    qed
    have "elf_segment prog base lo ph m a = fill (?d + p_filesz ph) 0 (?n - ?f) (copied ?d (prog + p_offset ph) ?f m) a"
      using True ok(2) c by (simp add: elf_segment_def Let_def seg_at_def memset_fill s)
    then show ?thesis using r z by (auto simp: fill_def copied_def)
  next
    case False
    then have "?n = ?f" using le by (simp add: word_less_nat_alt)
    then show ?thesis using False ok(2) c by (simp add: elf_segment_def Let_def seg_at_def copied_def)
  qed
qed

section \<open>The image\<close>

text \<open>Steps that fill disjoint places from a source that none of them touches.\<close>

lemma fold_fills:
  assumes step: "\<And>x m a. x \<in> set xs \<Longrightarrow> f x m a = (if a \<in> F x then m (src x a) else if a \<in> D x then 0 else m a)"
    and sub: "\<And>x. x \<in> set xs \<Longrightarrow> F x \<subseteq> D x" and P: "\<And>x. x \<in> set xs \<Longrightarrow> D x \<inter> P = {}" "\<And>x a. x \<in> set xs \<Longrightarrow> a \<in> F x \<Longrightarrow> src x a \<in> P"
    and d: "sorted_wrt (\<lambda>x y. D x \<inter> D y = {}) xs"
  shows "(\<forall>a. (\<forall>x\<in>set xs. a \<notin> D x) \<longrightarrow> fold f xs m a = m a) \<and> (\<forall>x\<in>set xs. \<forall>a\<in>D x. fold f xs m a = (if a \<in> F x then m (src x a) else 0))"
  using assms
proof (induction xs arbitrary: m)
  case (Cons x xs)
  have ih: "(\<forall>a. (\<forall>x\<in>set xs. a \<notin> D x) \<longrightarrow> fold f xs (f x m) a = f x m a)
    \<and> (\<forall>y\<in>set xs. \<forall>a\<in>D y. fold f xs (f x m) a = (if a \<in> F y then f x m (src y a) else 0))"
    by (rule Cons.IH) (use Cons.prems in auto)
  have x: "f x m a = (if a \<in> F x then m (src x a) else if a \<in> D x then 0 else m a)" for a using Cons.prems(1) by simp
  have p: "f x m a = m a" if "a \<in> P" for a
  proof -
    have "a \<notin> D x" using Cons.prems(3) [of x] that by auto
    then show ?thesis using x [of a] Cons.prems(2) [of x] by auto
  qed
  have 1: "fold f (x # xs) m a = m a" if "\<forall>y\<in>set (x # xs). a \<notin> D y" for a
    using that ih x [of a] Cons.prems(2) [of x] by auto
  have 2: "fold f (x # xs) m a = (if a \<in> F x then m (src x a) else 0)" if a: "a \<in> D x" for a
  proof -
    have "\<forall>y\<in>set xs. a \<notin> D y" using Cons.prems(5) a by auto
    then show ?thesis using ih x [of a] a by simp
  qed
  have 3: "fold f (x # xs) m a = (if a \<in> F y then m (src y a) else 0)" if "y \<in> set xs" "a \<in> D y" for y a
    using ih that p Cons.prems(4) [of y a] by auto
  show ?case using 1 2 3 by auto
qed simp

lemma fold_loads: "fold (elf_segment prog base lo) phs m = fold (elf_segment prog base lo) (loads phs) m"
  by (induction phs arbitrary: m) (simp_all add: elf_segment_def)

lemma region_off: "n + k \<le> l \<Longrightarrow> region (at p n) k \<subseteq> region p l"
proof -
  assume "n + k \<le> l"
  then show ?thesis using region_add [of p n k] region_mono [of "n + k" l p] by blast
qed

lemma region_at_disjoint:
  assumes "i + k \<le> j" "j + l \<le> 2 ^ 32"
  shows "region (at p i) k \<inter> region (at p j) l = {}"
proof -
  have "at p (j + x) \<notin> region p (i + k)" if "x < l" for x by (rule at_notin_region) (use assms that in simp_all)
  moreover have "at (at p j) x = at p (j + x)" for x by (simp add: at_def add.assoc)
  ultimately have "y \<notin> region p (i + k)" if "y \<in> region (at p j) l" for y using that unfolding region_def [of "at p j"] by auto
  then show ?thesis using region_add [of p i k] by (auto simp only: disjoint_iff)
qed

lemma check_scan:
  assumes "elf_check m prog sz = Some (lo, hi)"
  shows "elf_scan sz (prog_headers m prog) 0xFFFFFFFF 0 = Some (lo, hi)" "0x1060000 < lo \<or> hi < 0x1000000"
  using assms by (auto simp: elf_check_def elf_conflict_def not_le split: if_splits option.splits)

lemma segment_bounds:
  assumes c: "elf_check m prog sz = Some (lo, hi)" and ph: "ph \<in> set (loads (prog_headers m prog))" and ok: "segment_ok ph"
  shows "lo \<le> p_vaddr ph" "seg_off lo ph + unat (p_memsz ph) \<le> unat (hi - lo)" "unat (p_offset ph) + unat (p_filesz ph) \<le> unat sz"
    "unat (p_filesz ph) \<le> unat (p_memsz ph)"
proof -
  note b = scan_bounds [OF check_scan(1) [OF c], THEN conjunct2, THEN conjunct2, rule_format, OF ph]
  show lo: "lo \<le> p_vaddr ph" using b by blast
  have v: "unat (p_vaddr ph + p_memsz ph) = unat (p_vaddr ph) + unat (p_memsz ph)" "unat (p_offset ph + p_filesz ph) = unat (p_offset ph) + unat (p_filesz ph)"
    using ok by (simp_all add: segment_ok_def unat_add_lem [THEN iffD1])
  have hi: "unat (p_vaddr ph) + unat (p_memsz ph) \<le> unat hi" "unat (p_offset ph) + unat (p_filesz ph) \<le> unat sz"
    using b v by (simp_all add: word_le_nat_alt)
  then show "unat (p_offset ph) + unat (p_filesz ph) \<le> unat sz" by blast
  have "unat lo \<le> unat hi" using lo hi(1) by (simp add: word_le_nat_alt)
  then have "unat (hi - lo) = unat hi - unat lo" by (simp add: unat_sub word_le_nat_alt)
  then show "seg_off lo ph + unat (p_memsz ph) \<le> unat (hi - lo)" using lo hi(1) by (simp add: seg_off_def word_le_nat_alt)
  show "unat (p_filesz ph) \<le> unat (p_memsz ph)" using ok by (simp add: segment_ok_def word_le_nat_alt)
qed


text \<open>A file of one segment, of two bytes, of which one is in the file; and one that claims more bytes in the file than in memory.\<close>

definition tiny_elf :: "u8 \<Rightarrow> u8 \<Rightarrow> u8 list" where
  "tiny_elf filesz memsz =
     [0x7F, 69, 76, 70, 0, 0, 0, 0, 0, 0, 0, 0, 0, 0, 0, 0, 2, 0, 0, 0, 0, 0, 0, 0, 0, 0, 0, 0, 52, 0, 0, 0, 0, 0, 0, 0, 0, 0, 0, 0, 0, 0, 0, 0, 1, 0,
      0, 0, 0, 0, 0, 0, 1, 0, 0, 0, 0, 0, 0, 0, 0, 0, 0, 8, 0, 0, 0, 0, filesz, 0, 0, 0, memsz, 0, 0, 0, 0, 0, 0, 0, 0, 0, 0, 0]"

definition tiny_mem :: "u8 \<Rightarrow> u8 \<Rightarrow> mem_t" where
  "tiny_mem filesz memsz a = (if unat (a - 0x100) < 84 then tiny_elf filesz memsz ! unat (a - 0x100) else 7)"

lemma tiny_headers:
  "prog_headers (tiny_mem f k) 0x100 = [\<lparr> segment_type = 1, p_offset = 0, p_vaddr = 0x8000000, p_paddr = 0, p_filesz = ucast f, p_memsz = ucast k, ph_flags = 0, alignment = 0 \<rparr>]"
  by (simp add: prog_headers_def load_header_def get_u32_def get_u16_def tiny_mem_def tiny_elf_def)

lemma tiny_check:
  "elf_check (tiny_mem 1 2) 0x100 84 = Some (0x8000000, 0x8000002)" "elf_check (tiny_mem 8 1) 0x100 84 = Some (0x8000000, 0x8000001)"
  unfolding elf_check_def tiny_headers by (simp_all add: elf_conflict_def get_u16_def tiny_mem_def tiny_elf_def at_def upt_rec)

lemma tiny_apart: "n \<le> 100 \<Longrightarrow> region 0x200 n \<inter> region 0x100 84 = {}"
  using region_at_disjoint [of 0 84 256 n "0x100"] by (simp add: at_def Int_commute)


text \<open>
  The size of a segment in the file is not checked against its size in memory: a file of one segment with eight bytes in the file and one in
  memory passes, and its copy writes past the one byte of the image.
\<close>

lemma elf_image_overrun:
  "elf_check (tiny_mem 8 1) 0x100 84 = Some (0x8000000, 0x8000001)"
  "0x201 \<notin> region 0x200 (unat (0x8000001 - 0x8000000 :: u32))" "elf_image 0x100 0x200 0x8000000 0x8000001 (tiny_mem 8 1) 0x201 \<noteq> tiny_mem 8 1 0x201"
proof -
  show "elf_check (tiny_mem 8 1) 0x100 84 = Some (0x8000000, 0x8000001)" by (rule tiny_check(2))
  show "0x201 \<notin> region 0x200 (unat (0x8000001 - 0x8000000 :: u32))" by (auto simp: region_def at_def)
  have "region 0x100 8 \<inter> region 0x200 8 = {}" using region_at_disjoint [of 0 8 256 8 "0x100"] by (simp add: at_def)
  then have c: "memcpy_fast 0x200 0x100 8 m = copied 0x200 0x100 8 m" for m by (rule memcpy_fast_copied) simp
  have r: "0x201 \<in> region 0x200 8" "0x101 \<notin> region 0x200 1" using in_region [of 1 8 "0x200"] by (auto simp: at_def region_def)
  show "elf_image 0x100 0x200 0x8000000 0x8000001 (tiny_mem 8 1) 0x201 \<noteq> tiny_mem 8 1 0x201"
    unfolding elf_image_def tiny_headers by (simp add: elf_segment_def c copied_def r memset_fill fill_def) (simp add: tiny_mem_def tiny_elf_def)
qed

end
