(* ===== verification/Net.thy ===== *)
theory Net
  imports Prelude
begin

text \<open>
  The wire format of the network stack (\<^verbatim>\<open>src/usr/device/net/ethernet.h\<close>, \<^verbatim>\<open>ip.c\<close>): words in memory are little endian and on
  the wire big endian, addresses are packed octets, and the Internet checksum. The theory shows that the loop of the checksum
  ends and computes the sum in one's complement, and that data with its own checksum in place always sums to zero.
\<close>

section \<open>Byte order\<close>

definition htons :: "u16 \<Rightarrow> u16" where
  "htons x = drop_bit 8 x OR push_bit 8 x"

definition pack_ip :: "u8 \<Rightarrow> u8 \<Rightarrow> u8 \<Rightarrow> u8 \<Rightarrow> u32" where
  "pack_ip a b c d = ucast a OR push_bit 8 (ucast b) OR push_bit 16 (ucast c) OR push_bit 24 (ucast d)"

definition unpack_ip :: "u32 \<Rightarrow> u8 \<times> u8 \<times> u8 \<times> u8" where
  "unpack_ip ip = (ucast (ip AND 0xFF), ucast (drop_bit 8 ip AND 0xFF), ucast (drop_bit 16 ip AND 0xFF), ucast (drop_bit 24 ip AND 0xFF))"

text \<open>Words as the processor stores and loads them.\<close>

definition bytes16 :: "u16 \<Rightarrow> u8 list" where
  "bytes16 x = [ucast x, ucast (drop_bit 8 x)]"

definition bytes32 :: "u32 \<Rightarrow> u8 list" where
  "bytes32 x = [ucast x, ucast (drop_bit 8 x), ucast (drop_bit 16 x), ucast (drop_bit 24 x)]"

definition word16 :: "u8 \<Rightarrow> u8 \<Rightarrow> u16" where
  "word16 a b = ucast a OR push_bit 8 (ucast b)"

text \<open>A buffer of the program from its first byte on; what lies behind the data is whatever the memory holds.\<close>

type_synonym buf = "nat \<Rightarrow> u8"

definition get16 :: "buf \<Rightarrow> nat \<Rightarrow> u16" where
  "get16 f i = word16 (f i) (f (i + 1))"

definition get32 :: "buf \<Rightarrow> nat \<Rightarrow> u32" where
  "get32 f i = pack_ip (f i) (f (i + 1)) (f (i + 2)) (f (i + 3))"

definition slice :: "buf \<Rightarrow> nat \<Rightarrow> nat \<Rightarrow> u8 list" where
  "slice f i n = map (\<lambda>k. f (i + k)) [0..<n]"

section \<open>Checksum\<close>

fun checksum_loop :: "u32 \<Rightarrow> u8 list \<Rightarrow> u32" where
  "checksum_loop acc [] = acc"
| "checksum_loop acc [b] = acc + ucast b"
| "checksum_loop acc (a # b # bs) = checksum_loop (acc + ucast (word16 a b)) bs"

lemma unat_lt: "unat x < 2 ^ LENGTH('a)" for x :: "'a::len word"
  by (rule unsigned_less)

lemma unat_halves: "unat s = unat (take_bit 16 s) + 65536 * unat (drop_bit 16 s)" for s :: u32
  by (simp add: take_bit_eq_mod drop_bit_eq_div unat_mod_distrib unat_div_distrib)

lemma fold_carries_less: "drop_bit 16 s \<noteq> 0 \<Longrightarrow> unat ((s AND 0xFFFF) + drop_bit 16 s) < unat s" for s :: u32
proof -
  assume a: "drop_bit 16 s \<noteq> 0"
  have m: "s AND 0xFFFF = take_bit 16 s" by (simp add: take_bit_eq_mask mask_numeral)
  have s: "unat s = unat (take_bit 16 s) + 65536 * unat (drop_bit 16 s)"
    by (rule unat_halves)
  have "unat (drop_bit 16 s) > 0" using a by (simp add: unat_gt_0)
  moreover have "unat ((s AND 0xFFFF) + drop_bit 16 s) \<le> unat (take_bit 16 s) + unat (drop_bit 16 s)"
    unfolding m unat_word_ariths by (rule mod_less_eq_dividend)
  ultimately show ?thesis using s by linarith
qed

function fold_carries :: "u32 \<Rightarrow> u32" where
  "fold_carries s = (if drop_bit 16 s \<noteq> 0 then fold_carries ((s AND 0xFFFF) + drop_bit 16 s) else s)"
  by pat_completeness auto
termination by (relation "measure unat") (simp_all add: fold_carries_less)

declare fold_carries.simps [simp del]

definition ip_checksum :: "u8 list \<Rightarrow> u16" where
  "ip_checksum bs = ucast (NOT (fold_carries (checksum_loop 0 bs)))"

section \<open>The sum in one's complement\<close>

lemma unat_ucast_up: "LENGTH('a) \<le> LENGTH('b) \<Longrightarrow> unat (ucast x :: 'b::len word) = unat x" for x :: "'a::len word"
proof -
  assume "LENGTH('a) \<le> LENGTH('b)"
  then have "(2::nat) ^ LENGTH('a) \<le> 2 ^ LENGTH('b)" by simp
  then have "unat x < 2 ^ LENGTH('b)" using unat_lt [of x] by (rule order_less_le_trans [rotated])
  then show ?thesis by (simp add: unsigned_ucast_eq take_bit_nat_eq_self)
qed

fun words_sum :: "u8 list \<Rightarrow> nat" where
  "words_sum [] = 0"
| "words_sum [b] = unat b"
| "words_sum (a # b # bs) = unat (word16 a b) + words_sum bs"

text \<open>The representative of a sum modulo 65535 that is 0 only for 0.\<close>

definition ones :: "nat \<Rightarrow> nat" where
  "ones n = (if n = 0 then 0 else (n - 1) mod 65535 + 1)"

lemma words_sum_le: "words_sum bs \<le> 65535 * ((length bs + 1) div 2)"
proof (induction bs rule: words_sum.induct)
  case (2 b)
  then show ?case using unat_lt [of b] by simp
next
  case (3 a b bs)
  then show ?case using unat_lt [of "word16 a b"] by simp
qed simp

lemma checksum_loop_sum: "unat acc + words_sum bs < 2 ^ 32 \<Longrightarrow> unat (checksum_loop acc bs) = unat acc + words_sum bs"
proof (induction acc bs rule: checksum_loop.induct)
  case (2 acc b)
  have "unat (ucast b :: u32) = unat b" by (rule unat_ucast_up) simp
  then show ?case using 2 by (simp add: unat_add_lem [THEN iffD1])
next
  case (3 acc a b bs)
  have u: "unat (ucast (word16 a b) :: u32) = unat (word16 a b)" by (rule unat_ucast_up) simp
  have "unat (acc + ucast (word16 a b)) = unat acc + unat (word16 a b)" using 3 u by (simp add: unat_add_lem [THEN iffD1])
  then show ?case using 3 by simp
qed simp

lemma ones_fold: "ones (a + 65536 * b) = ones (a + b)"
proof -
  have "(a + 65536 * b - 1) mod 65535 = (a + b - 1) mod 65535" if "a + b \<noteq> 0"
  proof -
    have "a + 65536 * b - 1 = (a + b - 1) + b * 65535" using that by linarith
    then show ?thesis by (metis mod_mult_self1)
  qed
  then show ?thesis by (cases "a + b = 0") (simp_all add: ones_def)
qed

lemma fold_carries_ones: "unat (fold_carries s) = ones (unat s)"
proof (induction s rule: fold_carries.induct)
  case (1 s)
  have m: "s AND 0xFFFF = take_bit 16 s" by (simp add: take_bit_eq_mask mask_numeral)
  have s: "unat s = unat (take_bit 16 s) + 65536 * unat (drop_bit 16 s)"
    by (rule unat_halves)
  have lt: "unat (take_bit 16 s) < 65536" by (simp add: take_bit_eq_mod unat_mod_distrib)
  show ?case
  proof (cases "drop_bit 16 s = 0")
    case True
    then have "unat s < 65536" using s lt by simp
    then show ?thesis using True by (auto simp: fold_carries.simps [of s] ones_def)
  next
    case False
    have "unat (drop_bit 16 s) < 65536" using s unat_lt [of s] by simp
    then have "unat ((s AND 0xFFFF) + drop_bit 16 s) = unat (take_bit 16 s) + unat (drop_bit 16 s)"
      unfolding m using lt by (intro unat_add_lem [THEN iffD1]) simp
    then show ?thesis using 1 [OF False] False s ones_fold by (simp add: fold_carries.simps [of s])
  qed
qed

lemma ip_checksum_ones:
  assumes "length bs < 65536"
  shows "unat (ip_checksum bs) = 65535 - ones (words_sum bs)"
proof -
  let ?s = "checksum_loop 0 bs"
  have "words_sum bs \<le> 65535 * 32768" using words_sum_le [of bs] assms by linarith
  then have "unat ?s = words_sum bs" using checksum_loop_sum [of 0 bs] by simp
  then have f: "unat (fold_carries ?s) = ones (words_sum bs)" by (simp add: fold_carries_ones)
  have o: "ones n \<le> 65535" for n using mod_less_divisor [of 65535 "n - 1"] unfolding ones_def by (auto simp del: mod_less_divisor)
  have "unat (ucast (NOT w) :: u16) = 65535 - unat w" if "unat w \<le> 65535" for w :: u32
  proof -
    have "(ucast (NOT w) :: u16) = NOT (ucast w)" by (simp add: bit_eq_iff bit_simps)
    moreover have "unat (ucast w :: u16) = unat w" using that by (simp add: unsigned_ucast_eq take_bit_nat_eq_self)
    moreover have "unat (NOT v) = 65535 - unat v" for v :: u16
      using unat_sub [of v "- 1"] by (simp add: not_eq_complement minus_diff_commute [of v 1] unsigned_minus_1_eq_mask mask_eq_exp_minus_1)
    ultimately show ?thesis by simp
  qed
  then show ?thesis unfolding ip_checksum_def using f o by metis
qed

text \<open>The checksum of data in which the checksum field is still zero makes the whole sum to zero: the field is the words at an even offset.\<close>

lemma words_sum_append: "even (length xs) \<Longrightarrow> words_sum (xs @ ys) = words_sum xs + words_sum ys"
  by (induction xs rule: words_sum.induct) simp_all

lemma word16_bytes: "word16 (ucast x) (ucast (drop_bit 8 x)) = x" for x :: u16
proof (rule bit_word_eqI)
  fix n assume "n < LENGTH(16)"
  then show "bit (word16 (ucast x) (ucast (drop_bit 8 x))) n = bit x n" by (auto simp: word16_def bit_simps)
qed

lemma checksum_verifies:
  assumes "even (length xs)" "length (xs @ [0, 0] @ ys) < 65536"
  shows "ip_checksum (xs @ bytes16 (ip_checksum (xs @ [0, 0] @ ys)) @ ys) = 0"
proof -
  let ?n = "words_sum xs + words_sum ys"
  let ?c = "ip_checksum (xs @ [0, 0] @ ys)"
  have z: "words_sum (xs @ [0, 0] @ ys) = ?n" using assms(1) by (simp add: words_sum_append word16_def)
  have c: "unat ?c = 65535 - ones ?n" using ip_checksum_ones [OF assms(2)] z by simp
  have "words_sum (xs @ bytes16 ?c @ ys) = ?n + unat ?c" using assms(1) by (simp add: words_sum_append bytes16_def word16_bytes)
  moreover have "ones (n + (65535 - ones n)) = 65535" for n
  proof (cases "n = 0")
    case False
    define q where "q = (n - 1) div 65535"
    have "n - 1 = q * 65535 + (n - 1) mod 65535" by (simp add: q_def)
    then have "n + (65535 - ones n) = q * 65535 + 65535" using False mod_less_divisor [of 65535 "n - 1"] unfolding ones_def by (simp del: mod_less_divisor)
    then have "n + (65535 - ones n) - 1 = 65534 + q * 65535" by simp
    then have "(n + (65535 - ones n) - 1) mod 65535 = 65534" unfolding mod_mult_self1 by simp
    then show ?thesis using False by (simp add: ones_def)
  qed (simp add: ones_def)
  ultimately have "unat (ip_checksum (xs @ bytes16 ?c @ ys)) = 0"
    using ip_checksum_ones [of "xs @ bytes16 ?c @ ys"] assms(2) c by (simp add: bytes16_def)
  then show ?thesis by (simp add: unsigned_eq_0_iff)
qed

end
