(* ===== verification/Arp.thy ===== *)
theory Arp
  imports Net
begin

text \<open>
  The Ethernet and ARP layer (\<^verbatim>\<open>src/usr/device/net/ethernet.c\<close>): a cache of addresses, a queue of packets that wait for one, requests
  that are repeated and given up. Static variables are the record \<open>net_t\<close>; the card is the parameter \<open>send\<close> on a state of its own,
  the tick counter of the kernel is the field \<open>tick\<close>, and the addresses of the macros \<open>LOCAL_IP\<close> and \<open>GATEWAY_IP\<close> are fields.
\<close>

section \<open>Model\<close>

datatype arp_state_t = ARP_FREE | ARP_PENDING | ARP_RESOLVED

record arp_entry_t =
  ae_ip :: u32
  ae_mac :: "u8 list"
  ae_state :: arp_state_t
  ae_last_req :: u32
  ae_tries :: u8

record pending_pkt_t =
  pk_used :: bool
  pk_next_hop :: u32
  pk_ethertype :: u16
  pk_data :: "u8 list"

record 'd net_t =
  arp_cache :: "arp_entry_t list"
  arp_queue :: "pending_pkt_t list"
  arp_next :: nat
  dev_mac :: "u8 list"
  dev :: 'd
  local_ip :: u32
  gateway_ip :: u32
  tick :: u32
  packet :: bool
  icmp_seq :: u16

type_synonym 'd send_t = "u8 list \<Rightarrow> 'd \<Rightarrow> int \<times> 'd"

text \<open>A program that leaves its buffers, and one that ends.\<close>

datatype fault = Overrun | Exit

abbreviation (input) ARP_CACHE_SIZE :: nat where "ARP_CACHE_SIZE \<equiv> 16"
abbreviation (input) ARP_QUEUE_SIZE :: nat where "ARP_QUEUE_SIZE \<equiv> 8"
abbreviation (input) ARP_RETRY_TICKS :: u32 where "ARP_RETRY_TICKS \<equiv> 100"
abbreviation (input) ARP_MAX_TRIES :: u8 where "ARP_MAX_TRIES \<equiv> 4"
abbreviation (input) ETH_MTU :: nat where "ETH_MTU \<equiv> 1500"

definition upd_entry :: "nat \<Rightarrow> (arp_entry_t \<Rightarrow> arp_entry_t) \<Rightarrow> 'd net_t \<Rightarrow> 'd net_t" where
  "upd_entry i f s = s\<lparr> arp_cache := (arp_cache s)[i := f (arp_cache s ! i)] \<rparr>"

definition arp_find :: "u32 \<Rightarrow> 'd net_t \<Rightarrow> nat option" where
  "arp_find ip s = List.find (\<lambda>i. ae_state (arp_cache s ! i) \<noteq> ARP_FREE \<and> ae_ip (arp_cache s ! i) = ip) [0..<ARP_CACHE_SIZE]"

definition waits_for :: "u32 \<Rightarrow> pending_pkt_t \<Rightarrow> bool" where
  "waits_for next_hop p \<longleftrightarrow> pk_used p \<and> pk_next_hop p = next_hop"

definition arp_drop_queue :: "u32 \<Rightarrow> 'd net_t \<Rightarrow> 'd net_t" where
  "arp_drop_queue next_hop s = s\<lparr> arp_queue := map (\<lambda>p. if waits_for next_hop p then p\<lparr> pk_used := False \<rparr> else p) (arp_queue s) \<rparr>"

definition arp_alloc_slot :: "'d net_t \<Rightarrow> nat \<times> 'd net_t" where
  "arp_alloc_slot s =
     (case List.find (\<lambda>i. ae_state (arp_cache s ! i) = ARP_FREE) [0..<ARP_CACHE_SIZE] of
        Some i \<Rightarrow> (i, s)
      | None \<Rightarrow> let slot = arp_next s in (slot, arp_drop_queue (ae_ip (arp_cache s ! slot)) (s\<lparr> arp_next := (slot + 1) mod ARP_CACHE_SIZE \<rparr>)))"

definition eth_frame :: "u8 list \<Rightarrow> u8 list \<Rightarrow> u16 \<Rightarrow> u8 list \<Rightarrow> u8 list" where
  "eth_frame dest src ethertype payload = take 6 dest @ take 6 src @ bytes16 (htons ethertype) @ payload"

definition eth_send :: "'d send_t \<Rightarrow> u8 list \<Rightarrow> u16 \<Rightarrow> u8 list \<Rightarrow> 'd net_t \<Rightarrow> int \<times> 'd net_t" where
  "eth_send send dest_mac ethertype payload s =
     (if length payload > ETH_MTU then (- 1, s)
      else let (r, d) = send (eth_frame dest_mac (dev_mac s) ethertype payload) (dev s) in (r, s\<lparr> dev := d \<rparr>))"

definition arp_packet :: "u16 \<Rightarrow> u8 list \<Rightarrow> u32 \<Rightarrow> u8 list \<Rightarrow> u32 \<Rightarrow> u8 list" where
  "arp_packet op sha spa tha tpa =
     bytes16 (htons 1) @ bytes16 (htons 0x0800) @ [6, 4] @ bytes16 (htons op) @ take 6 sha @ bytes32 spa @ take 6 tha @ bytes32 tpa"

definition arp_request :: "'d send_t \<Rightarrow> u32 \<Rightarrow> 'd net_t \<Rightarrow> 'd net_t" where
  "arp_request send target_ip s =
     snd (eth_send send (replicate 6 0xFF) 0x0806 (arp_packet 1 (dev_mac s) (local_ip s) (replicate 6 0) target_ip) s)"

definition arp_update_cache :: "u32 \<Rightarrow> u8 list \<Rightarrow> 'd net_t \<Rightarrow> 'd net_t" where
  "arp_update_cache ip mac s =
     (let (i, s1) = (case arp_find ip s of Some i \<Rightarrow> (i, s) | None \<Rightarrow> arp_alloc_slot s)
      in upd_entry i (\<lambda>e. e\<lparr> ae_ip := ip, ae_mac := take 6 mac, ae_state := ARP_RESOLVED \<rparr>) s1)"

definition arp_lookup :: "u32 \<Rightarrow> 'd net_t \<Rightarrow> u8 list option" where
  "arp_lookup ip s =
     (case arp_find ip s of
        None \<Rightarrow> None
      | Some i \<Rightarrow> if ae_state (arp_cache s ! i) \<noteq> ARP_RESOLVED then None else Some (ae_mac (arp_cache s ! i)))"

definition arp_enqueue :: "u32 \<Rightarrow> u16 \<Rightarrow> u8 list \<Rightarrow> 'd net_t \<Rightarrow> fault + 'd net_t" where
  "arp_enqueue next_hop ethertype data s =
     (case List.find (\<lambda>i. \<not> pk_used (arp_queue s ! i)) [0..<ARP_QUEUE_SIZE] of
        None \<Rightarrow> Inr s
      | Some i \<Rightarrow> if length data > ETH_MTU then Inl Overrun
                  else Inr (s\<lparr> arp_queue := (arp_queue s)[i := \<lparr> pk_used = True, pk_next_hop = next_hop, pk_ethertype = ethertype, pk_data = data \<rparr>] \<rparr>))"

text \<open>One slot of \<open>arp_flush\<close>.\<close>

definition flush_slot :: "'d send_t \<Rightarrow> u8 list \<Rightarrow> u32 \<Rightarrow> nat \<Rightarrow> 'd net_t \<Rightarrow> 'd net_t" where
  "flush_slot send mac next_hop i s =
     (let p = arp_queue s ! i
      in if waits_for next_hop p
         then (let s1 = snd (eth_send send mac (pk_ethertype p) (pk_data p) s) in s1\<lparr> arp_queue := (arp_queue s1)[i := p\<lparr> pk_used := False \<rparr>] \<rparr>)
         else s)"

definition arp_flush :: "'d send_t \<Rightarrow> u32 \<Rightarrow> 'd net_t \<Rightarrow> 'd net_t" where
  "arp_flush send next_hop s =
     (case arp_lookup next_hop s of None \<Rightarrow> s | Some mac \<Rightarrow> fold (flush_slot send mac next_hop) [0..<ARP_QUEUE_SIZE] s)"

definition arp_resolve :: "'d send_t \<Rightarrow> u32 \<Rightarrow> 'd net_t \<Rightarrow> 'd net_t" where
  "arp_resolve send ip s =
     (if arp_find ip s \<noteq> None then s
      else let (i, s1) = arp_alloc_slot s
           in arp_request send ip (upd_entry i (\<lambda>e. e\<lparr> ae_ip := ip, ae_state := ARP_PENDING, ae_tries := 1, ae_last_req := tick s1 \<rparr>) s1))"

definition net_tx :: "'d send_t \<Rightarrow> u32 \<Rightarrow> u16 \<Rightarrow> u8 list \<Rightarrow> 'd net_t \<Rightarrow> fault + (int \<times> 'd net_t)" where
  "net_tx send next_hop ethertype payload s =
     (case arp_lookup next_hop s of
        Some mac \<Rightarrow> Inr (eth_send send mac ethertype payload s)
      | None \<Rightarrow> map_sum id (\<lambda>s1. (0, arp_resolve send next_hop s1)) (arp_enqueue next_hop ethertype payload s))"

text \<open>One entry of \<open>arp_tick\<close>.\<close>

definition tick_entry :: "'d send_t \<Rightarrow> u32 \<Rightarrow> nat \<Rightarrow> 'd net_t \<Rightarrow> 'd net_t" where
  "tick_entry send now i s =
     (let e = arp_cache s ! i
      in if ae_state e \<noteq> ARP_PENDING then s
         else if now - ae_last_req e < ARP_RETRY_TICKS then s
         else if ae_tries e \<ge> ARP_MAX_TRIES then upd_entry i (\<lambda>e. e\<lparr> ae_state := ARP_FREE \<rparr>) (arp_drop_queue (ae_ip e) s)
         else arp_request send (ae_ip e) (upd_entry i (\<lambda>e. e\<lparr> ae_tries := ae_tries e + 1, ae_last_req := now \<rparr>) s))"

definition arp_tick :: "'d send_t \<Rightarrow> 'd net_t \<Rightarrow> 'd net_t" where
  "arp_tick send s = fold (tick_entry send (tick s)) [0..<ARP_CACHE_SIZE] s"

definition arp_input :: "'d send_t \<Rightarrow> buf \<Rightarrow> nat \<Rightarrow> 'd net_t \<Rightarrow> 'd net_t" where
  "arp_input send f len s =
     (if len < 14 + 28 then s
      else if htons (get16 f 14) \<noteq> 1 \<or> htons (get16 f 16) \<noteq> 0x0800 then s
      else let sha = slice f 22 6; spa = get32 f 28; op = htons (get16 f 20); tpa = get32 f 38;
               s1 = arp_flush send spa (arp_update_cache spa sha s)
           in if op = 1 \<and> tpa = local_ip s1
              then snd (eth_send send sha 0x0806 (arp_packet 2 (dev_mac s1) (local_ip s1) sha spa) s1) else s1)"

section \<open>The invariant\<close>

definition used_entry :: "arp_entry_t \<Rightarrow> bool" where
  "used_entry e \<longleftrightarrow> ae_state e \<noteq> ARP_FREE"

definition pending_for :: "u32 \<Rightarrow> arp_entry_t \<Rightarrow> bool" where
  "pending_for ip e \<longleftrightarrow> ae_state e = ARP_PENDING \<and> ae_ip e = ip"

text \<open>
  An address has at most one entry, a request has been sent one to four times, and every packet in the queue fits its slot and waits for an
  address that is being asked for, those of \<open>X\<close> apart.
\<close>

definition arp_ok :: "u32 set \<Rightarrow> 'd net_t \<Rightarrow> bool" where
  "arp_ok X s \<longleftrightarrow> length (arp_cache s) = 16 \<and> length (arp_queue s) = 8 \<and> arp_next s < 16
     \<and> (\<forall>i<16. \<forall>j<16. used_entry (arp_cache s ! i) \<and> used_entry (arp_cache s ! j) \<and> ae_ip (arp_cache s ! i) = ae_ip (arp_cache s ! j) \<longrightarrow> i = j)
     \<and> (\<forall>i<16. ae_state (arp_cache s ! i) = ARP_PENDING \<longrightarrow> 1 \<le> ae_tries (arp_cache s ! i) \<and> ae_tries (arp_cache s ! i) \<le> 4)
     \<and> (\<forall>p\<in>set (arp_queue s). pk_used p \<longrightarrow> length (pk_data p) \<le> 1500 \<and> (pk_next_hop p \<in> X \<or> (\<exists>i<16. pending_for (pk_next_hop p) (arp_cache s ! i))))"

text \<open>What sending leaves alone.\<close>

definition same_arp :: "'d net_t \<Rightarrow> 'd net_t \<Rightarrow> bool" where
  "same_arp s s' \<longleftrightarrow> arp_cache s' = arp_cache s \<and> arp_queue s' = arp_queue s \<and> arp_next s' = arp_next s \<and> dev_mac s' = dev_mac s
     \<and> local_ip s' = local_ip s \<and> gateway_ip s' = gateway_ip s \<and> tick s' = tick s"

lemma same_arp_ok: "same_arp s s' \<Longrightarrow> arp_ok X s' = arp_ok X s"
  by (simp add: same_arp_def arp_ok_def)

lemma eth_send_same: "same_arp s (snd (eth_send send m ty pl s))"
  by (simp add: eth_send_def same_arp_def case_prod_beta)

lemma arp_request_same: "same_arp s (arp_request send ip s)"
  by (simp add: arp_request_def eth_send_same)

lemma find_range: "List.find P [0..<n] = Some i \<Longrightarrow> i < n \<and> P i"
  by (auto simp: find_Some_iff)

lemma find_none: "List.find P [0..<n] = None \<longleftrightarrow> (\<forall>i<n. \<not> P i)"
  by (auto simp: find_None_iff)

lemma ok_set:
  assumes ok: "arp_ok X s" and i: "i < 16"
    and uniq: "\<And>j. j < 16 \<Longrightarrow> j \<noteq> i \<Longrightarrow> used_entry (arp_cache s ! j) \<Longrightarrow> used_entry e \<Longrightarrow> ae_ip (arp_cache s ! j) \<noteq> ae_ip e"
    and tries: "ae_state e = ARP_PENDING \<Longrightarrow> 1 \<le> ae_tries e \<and> ae_tries e \<le> 4"
    and q: "\<And>p. p \<in> set (arp_queue s) \<Longrightarrow> pk_used p \<Longrightarrow> pk_next_hop p \<notin> Y \<Longrightarrow>
      pending_for (pk_next_hop p) e \<or> pk_next_hop p \<notin> X \<and> \<not> pending_for (pk_next_hop p) (arp_cache s ! i)"
  shows "arp_ok Y (s\<lparr> arp_cache := (arp_cache s)[i := e] \<rparr>)"
proof -
  let ?c = "(arp_cache s)[i := e]"
  have len: "length (arp_cache s) = 16" using ok by (simp add: arp_ok_def)
  have n: "?c ! j = (if j = i then e else arp_cache s ! j)" for j using len i by (auto simp: nth_list_update)
  have u: "j = k" if "j < 16" "k < 16" "used_entry (?c ! j)" "used_entry (?c ! k)" "ae_ip (?c ! j) = ae_ip (?c ! k)" for j k
    using that uniq [of j] uniq [of k] ok unfolding n by (auto simp: arp_ok_def split: if_splits)
  have t: "1 \<le> ae_tries (?c ! j) \<and> ae_tries (?c ! j) \<le> 4" if "j < 16" "ae_state (?c ! j) = ARP_PENDING" for j
    using that tries ok unfolding n by (auto simp: arp_ok_def split: if_splits)
  have p: "pk_next_hop p \<in> Y \<or> (\<exists>j<16. pending_for (pk_next_hop p) (?c ! j))" if a: "p \<in> set (arp_queue s)" "pk_used p" for p
  proof (cases "pk_next_hop p \<in> Y \<or> pending_for (pk_next_hop p) e")
    case True
    then show ?thesis using i n by metis
  next
    case False
    then have "pk_next_hop p \<notin> X" "\<not> pending_for (pk_next_hop p) (arp_cache s ! i)" using q [OF a] by auto
    then obtain j where "j < 16" "pending_for (pk_next_hop p) (arp_cache s ! j)" "j \<noteq> i" using ok a unfolding arp_ok_def by metis
    then show ?thesis using n by metis
  qed
  show ?thesis using ok u t p unfolding arp_ok_def by (simp add: len)
qed

lemma arp_drop_ok: "arp_ok X s \<Longrightarrow> arp_ok X (arp_drop_queue hop s)"
  by (auto simp: arp_ok_def arp_drop_queue_def)

lemma alloc_slot_ok:
  assumes ok: "arp_ok X s" and a: "arp_alloc_slot s = (i, s')"
  shows "i < 16" "arp_ok X s'" "arp_cache s' = arp_cache s" "tick s' = tick s" "local_ip s' = local_ip s"
    "\<And>p. p \<in> set (arp_queue s') \<Longrightarrow> pk_used p \<Longrightarrow> p \<in> set (arp_queue s) \<and> \<not> pending_for (pk_next_hop p) (arp_cache s ! i)"
proof -
  have "i < 16 \<and> arp_ok X s' \<and> arp_cache s' = arp_cache s \<and> tick s' = tick s \<and> local_ip s' = local_ip s
    \<and> (\<forall>p\<in>set (arp_queue s'). pk_used p \<longrightarrow> p \<in> set (arp_queue s) \<and> \<not> pending_for (pk_next_hop p) (arp_cache s ! i))"
  proof (cases "List.find (\<lambda>i. ae_state (arp_cache s ! i) = ARP_FREE) [0..<ARP_CACHE_SIZE]")
    case None
    let ?hop = "ae_ip (arp_cache s ! arp_next s)"
    let ?s1 = "s\<lparr> arp_next := (arp_next s + 1) mod 16 \<rparr>"
    have e: "i = arp_next s" "s' = arp_drop_queue ?hop ?s1" using a None by (auto simp: arp_alloc_slot_def Let_def)
    have 1: "arp_ok X ?s1" "arp_next s < 16" using ok by (simp_all add: arp_ok_def)
    have 2: "arp_cache s' = arp_cache s" "tick s' = tick s" "local_ip s' = local_ip s" by (simp_all add: e(2) arp_drop_queue_def)
    have "p \<in> set (arp_queue s) \<and> \<not> pending_for (pk_next_hop p) (arp_cache s ! i)" if "p \<in> set (arp_queue s')" "pk_used p" for p
      using that unfolding e by (auto simp: arp_drop_queue_def waits_for_def pending_for_def split: if_splits)
    then show ?thesis using arp_drop_ok [OF 1(1), of ?hop] 1(2) 2 e by simp
  next
    case (Some j)
    then show ?thesis using ok a find_range [OF Some] by (auto simp: arp_alloc_slot_def pending_for_def)
  qed
  then show "i < 16" "arp_ok X s'" "arp_cache s' = arp_cache s" "tick s' = tick s" "local_ip s' = local_ip s"
    "\<And>p. p \<in> set (arp_queue s') \<Longrightarrow> pk_used p \<Longrightarrow> p \<in> set (arp_queue s) \<and> \<not> pending_for (pk_next_hop p) (arp_cache s ! i)" by blast+
qed

section \<open>Operations keep it\<close>

text \<open>An address that has no entry gets one in the slot that was made free.\<close>

lemma new_entry_ok:
  assumes ok: "arp_ok X s" and f: "arp_find ip s = None" and a: "arp_alloc_slot s = (i, s1)"
    and e: "ae_ip e = ip" "ae_state e = ARP_PENDING \<Longrightarrow> 1 \<le> ae_tries e \<and> ae_tries e \<le> 4"
    and Y: "\<And>h. h \<notin> Y \<Longrightarrow> h \<in> X \<Longrightarrow> pending_for h e"
  shows "arp_ok Y (s1\<lparr> arp_cache := (arp_cache s1)[i := e] \<rparr>)"
proof (rule ok_set [OF alloc_slot_ok(2,1) [OF ok a] _ e(2)])
  note al = alloc_slot_ok [OF ok a]
  fix j assume "j < 16" "j \<noteq> i" "used_entry (arp_cache s1 ! j)"
  then show "ae_ip (arp_cache s1 ! j) \<noteq> ae_ip e" using f al(3) e(1) by (auto simp: arp_find_def find_none used_entry_def)
next
  fix p assume p: "p \<in> set (arp_queue s1)" "pk_used p" "pk_next_hop p \<notin> Y"
  then have "\<not> pending_for (pk_next_hop p) (arp_cache s1 ! i)" using alloc_slot_ok(3,6) [OF ok a] by simp
  then show "pending_for (pk_next_hop p) e \<or> pk_next_hop p \<notin> X \<and> \<not> pending_for (pk_next_hop p) (arp_cache s1 ! i)" using Y p(3) by blast
qed

lemma arp_find_entry:
  assumes ok: "arp_ok X s" and i: "i < 16" "used_entry (arp_cache s ! i)" "ae_ip (arp_cache s ! i) = ip"
  shows "arp_find ip s = Some i"
proof (cases "arp_find ip s")
  case None
  then have "\<not> (ae_state (arp_cache s ! i) \<noteq> ARP_FREE \<and> ae_ip (arp_cache s ! i) = ip)" unfolding arp_find_def find_none using i(1) by blast
  then show ?thesis using i(2,3) by (simp add: used_entry_def)
next
  case (Some j)
  then have j: "j < 16" "used_entry (arp_cache s ! j)" "ae_ip (arp_cache s ! j) = ip"
    unfolding arp_find_def used_entry_def using find_range [OF Some [unfolded arp_find_def]] by blast+
  have "\<forall>i<16. \<forall>j<16. used_entry (arp_cache s ! i) \<and> used_entry (arp_cache s ! j) \<and> ae_ip (arp_cache s ! i) = ae_ip (arp_cache s ! j) \<longrightarrow> i = j"
    using ok by (simp add: arp_ok_def)
  then have "i = j" using i j by metis
  then show ?thesis using Some by simp
qed

lemma update_cache_ok:
  assumes ok: "arp_ok {} s"
  shows "arp_ok {ip} (arp_update_cache ip mac s)" "arp_lookup ip (arp_update_cache ip mac s) = Some (take 6 mac)"
proof -
  obtain i s1 where i: "(case arp_find ip s of Some i \<Rightarrow> (i, s) | None \<Rightarrow> arp_alloc_slot s) = (i, s1)" by fastforce
  let ?e = "(arp_cache s1 ! i)\<lparr> ae_ip := ip, ae_mac := take 6 mac, ae_state := ARP_RESOLVED \<rparr>"
  have u: "arp_update_cache ip mac s = s1\<lparr> arp_cache := (arp_cache s1)[i := ?e] \<rparr>" unfolding arp_update_cache_def i by (simp add: upd_entry_def)
  have "arp_ok {ip} (s1\<lparr> arp_cache := (arp_cache s1)[i := ?e] \<rparr>) \<and> i < 16"
  proof (cases "arp_find ip s")
    case None
    then have a: "arp_alloc_slot s = (i, s1)" using i by simp
    then show ?thesis using new_entry_ok [OF ok None a, of ?e "{ip}"] alloc_slot_ok(1) [OF ok a] by simp
  next
    case (Some j)
    then have j: "s1 = s" "i = j" "i < 16" "used_entry (arp_cache s ! i)" "ae_ip (arp_cache s ! i) = ip"
      using i find_range [of _ 16 j] by (auto simp: arp_find_def used_entry_def)
    have "arp_ok {ip} (s\<lparr> arp_cache := (arp_cache s)[i := ?e] \<rparr>)"
      by (rule ok_set [OF ok j(3)]) (use ok j in \<open>auto simp: arp_ok_def pending_for_def\<close>)
    then show ?thesis using j by simp
  qed
  then have ok1: "arp_ok {ip} (arp_update_cache ip mac s)" and i16: "i < 16" unfolding u by blast+
  then show "arp_ok {ip} (arp_update_cache ip mac s)" by blast
  have e: "arp_cache (arp_update_cache ip mac s) ! i = ?e" using ok1 i16 unfolding u by (simp add: arp_ok_def)
  have "arp_find ip (arp_update_cache ip mac s) = Some i"
    by (rule arp_find_entry [OF ok1 i16]) (simp_all add: e used_entry_def)
  then show "arp_lookup ip (arp_update_cache ip mac s) = Some (take 6 mac)" by (simp add: arp_lookup_def e)
qed

text \<open>Flushing sends the packets that wait, in the order of their slots, and frees their slots.\<close>

definition freed :: "u32 \<Rightarrow> pending_pkt_t \<Rightarrow> pending_pkt_t" where
  "freed hop p = (if waits_for hop p then p\<lparr> pk_used := False \<rparr> else p)"

lemma flush_loop:
  assumes "n \<le> length (arp_queue s)" "\<forall>p\<in>set (arp_queue s). waits_for hop p \<longrightarrow> length (pk_data p) \<le> 1500"
  shows "\<exists>d. fold (flush_slot send mac hop) [0..<n] s = s\<lparr> arp_queue := map (freed hop) (take n (arp_queue s)) @ drop n (arp_queue s), dev := d \<rparr>
    \<and> d = fold (\<lambda>p d. snd (send (eth_frame mac (dev_mac s) (pk_ethertype p) (pk_data p)) d)) (filter (waits_for hop) (take n (arp_queue s))) (dev s)"
  using assms(1)
proof (induction n)
  case (Suc n)
  let ?q = "arp_queue s"
  let ?d = "\<lambda>n. fold (\<lambda>p d. snd (send (eth_frame mac (dev_mac s) (pk_ethertype p) (pk_data p)) d)) (filter (waits_for hop) (take n ?q)) (dev s)"
  let ?s = "\<lambda>n. s\<lparr> arp_queue := map (freed hop) (take n ?q) @ drop n ?q, dev := ?d n \<rparr>"
  have ih: "fold (flush_slot send mac hop) [0..<n] s = ?s n" using Suc by auto
  have n: "n < length ?q" using Suc.prems by simp
  have nth: "arp_queue (?s n) ! n = ?q ! n" using n by (simp add: nth_append)
  have up: "(map (freed hop) (take n ?q) @ drop n ?q)[n := freed hop (?q ! n)] = map (freed hop) (take (Suc n) ?q) @ drop (Suc n) ?q"
    using n by (simp add: list_update_append take_Suc_conv_app_nth Cons_nth_drop_Suc [symmetric])
  have dn: "?d (Suc n) = (if waits_for hop (?q ! n) then snd (send (eth_frame mac (dev_mac s) (pk_ethertype (?q ! n)) (pk_data (?q ! n))) (?d n)) else ?d n)"
    using n by (simp add: take_Suc_conv_app_nth)
  have "flush_slot send mac hop n (?s n) = ?s (Suc n)"
  proof (cases "waits_for hop (?q ! n)")
    case True
    then have "length (pk_data (?q ! n)) \<le> 1500" using assms(2) n by simp
    then show ?thesis unfolding flush_slot_def nth Let_def dn up [symmetric] using True by (simp add: eth_send_def freed_def case_prod_beta)
  next
    case False
    then have "(map (freed hop) (take n ?q) @ drop n ?q)[n := freed hop (?q ! n)] = map (freed hop) (take n ?q) @ drop n ?q"
      using n nth by (simp add: freed_def list_update_same_conv)
    then show ?thesis unfolding flush_slot_def nth Let_def dn up [symmetric] using False by simp
  qed
  then show ?case using ih by simp
qed simp

lemma flush_ok:
  assumes ok: "arp_ok {hop} s" and l: "arp_lookup hop s = Some mac"
  shows "arp_ok {} (arp_flush send hop s)"
    "arp_flush send hop s = s\<lparr> arp_queue := map (freed hop) (arp_queue s), dev :=
       fold (\<lambda>p d. snd (send (eth_frame mac (dev_mac s) (pk_ethertype p) (pk_data p)) d)) (filter (waits_for hop) (arp_queue s)) (dev s) \<rparr>"
proof -
  have q: "length (arp_queue s) = 8" "\<forall>p\<in>set (arp_queue s). waits_for hop p \<longrightarrow> length (pk_data p) \<le> 1500"
    using ok by (auto simp: arp_ok_def waits_for_def)
  show e: "arp_flush send hop s = s\<lparr> arp_queue := map (freed hop) (arp_queue s), dev :=
       fold (\<lambda>p d. snd (send (eth_frame mac (dev_mac s) (pk_ethertype p) (pk_data p)) d)) (filter (waits_for hop) (arp_queue s)) (dev s) \<rparr>"
    using flush_loop [of 8 s hop send mac] q l by (auto simp: arp_flush_def)
  have "pk_used p \<longrightarrow> length (pk_data p) \<le> 1500 \<and> (\<exists>i<16. pending_for (pk_next_hop p) (arp_cache s ! i))" if mem: "p \<in> freed hop ` set (arp_queue s)" for p
  proof -
    obtain p0 where p0: "p0 \<in> set (arp_queue s)" "p = freed hop p0" using mem by blast
    then have "pk_used p0 \<longrightarrow> length (pk_data p0) \<le> 1500 \<and> (pk_next_hop p0 = hop \<or> (\<exists>i<16. pending_for (pk_next_hop p0) (arp_cache s ! i)))"
      using ok by (simp add: arp_ok_def)
    then show ?thesis using p0(2) by (auto simp: freed_def waits_for_def)
  qed
  then show "arp_ok {} (arp_flush send hop s)" using ok unfolding e by (simp add: arp_ok_def)
qed

lemma lookup_frame:
  assumes c: "arp_cache s' = arp_cache s"
  shows "arp_lookup ip s' = arp_lookup ip s" "arp_find ip s' = arp_find ip s"
  unfolding arp_lookup_def arp_find_def c by (rule refl)+

lemma resolve_ok:
  assumes ok: "arp_ok {ip} s" and f: "arp_lookup ip s = None"
  shows "arp_ok {} (arp_resolve send ip s)"
proof (cases "arp_find ip s")
  case None
  obtain i s1 where a: "arp_alloc_slot s = (i, s1)" by fastforce
  let ?e = "(arp_cache s1 ! i)\<lparr> ae_ip := ip, ae_state := ARP_PENDING, ae_tries := 1, ae_last_req := tick s1 \<rparr>"
  have "arp_ok {} (s1\<lparr> arp_cache := (arp_cache s1)[i := ?e] \<rparr>)" by (rule new_entry_ok [OF ok None a]) (simp_all add: pending_for_def)
  then show ?thesis using None a by (simp add: arp_resolve_def upd_entry_def same_arp_ok [OF arp_request_same])
next
  case (Some i)
  then have "i < 16" "pending_for ip (arp_cache s ! i)"
    using find_range [OF Some [unfolded arp_find_def]] f by (auto simp: arp_lookup_def pending_for_def split: if_splits) (metis arp_state_t.exhaust)
  then have "arp_ok {} s" using ok by (auto simp: arp_ok_def)
  then show ?thesis using Some by (simp add: arp_resolve_def)
qed

lemma net_tx_ok:
  assumes ok: "arp_ok {} s" and len: "length payload \<le> 1500"
  shows "\<exists>r s'. net_tx send hop ty payload s = Inr (r, s') \<and> arp_ok {} s'"
proof (cases "arp_lookup hop s")
  case None
  have "\<exists>s1. arp_enqueue hop ty payload s = Inr s1 \<and> arp_ok {hop} s1 \<and> arp_lookup hop s1 = None"
  proof (cases "List.find (\<lambda>i. \<not> pk_used (arp_queue s ! i)) [0..<ARP_QUEUE_SIZE]")
    case None
    then show ?thesis using ok \<open>arp_lookup hop s = None\<close> by (auto simp: arp_enqueue_def arp_ok_def)
  next
    case (Some i)
    let ?s1 = "s\<lparr> arp_queue := (arp_queue s)[i := \<lparr> pk_used = True, pk_next_hop = hop, pk_ethertype = ty, pk_data = payload \<rparr>] \<rparr>"
    have "arp_ok {hop} ?s1" using ok len set_update_subset_insert [of "arp_queue s" i] by (auto simp: arp_ok_def dest!: set_update_subset_insert [THEN subsetD])
    moreover have "arp_lookup hop ?s1 = None" using None lookup_frame [of ?s1 s] by simp
    ultimately show ?thesis using Some len by (simp add: arp_enqueue_def)
  qed
  then show ?thesis using None resolve_ok by (auto simp: net_tx_def)
next
  case (Some mac)
  have "arp_ok {} (snd (eth_send send mac ty payload s))" using ok same_arp_ok [OF eth_send_same] by blast
  then show ?thesis using Some by (cases "eth_send send mac ty payload s") (simp add: net_tx_def)
qed

lemma tick_entry_ok:
  assumes ok: "arp_ok {} s" and i: "i < 16"
  shows "arp_ok {} (tick_entry send now i s)"
proof -
  let ?e = "arp_cache s ! i"
  have u: "\<And>j. j < 16 \<Longrightarrow> j \<noteq> i \<Longrightarrow> used_entry (arp_cache s ! j) \<Longrightarrow> used_entry ?e \<Longrightarrow> ae_ip (arp_cache s ! j) \<noteq> ae_ip ?e"
    using ok i unfolding arp_ok_def by metis
  have "tick_entry send now i s = s
    \<or> ae_state ?e = ARP_PENDING \<and> tick_entry send now i s = upd_entry i (\<lambda>e. e\<lparr> ae_state := ARP_FREE \<rparr>) (arp_drop_queue (ae_ip ?e) s)
    \<or> ae_state ?e = ARP_PENDING \<and> ae_tries ?e < 4
      \<and> tick_entry send now i s = arp_request send (ae_ip ?e) (upd_entry i (\<lambda>e. e\<lparr> ae_tries := ae_tries e + 1, ae_last_req := now \<rparr>) s)"
    by (simp add: tick_entry_def Let_def not_le)
  then consider (kept) "tick_entry send now i s = s"
    | (drop) "ae_state ?e = ARP_PENDING" "tick_entry send now i s = upd_entry i (\<lambda>e. e\<lparr> ae_state := ARP_FREE \<rparr>) (arp_drop_queue (ae_ip ?e) s)"
    | (again) "ae_state ?e = ARP_PENDING" "ae_tries ?e < 4"
        "tick_entry send now i s = arp_request send (ae_ip ?e) (upd_entry i (\<lambda>e. e\<lparr> ae_tries := ae_tries e + 1, ae_last_req := now \<rparr>) s)"
    by blast
  then show ?thesis
  proof cases
    case kept
    then show ?thesis using ok by simp
  next
    case drop
    let ?s = "arp_drop_queue (ae_ip ?e) s"
    have "arp_ok {} (?s\<lparr> arp_cache := (arp_cache ?s)[i := ?e\<lparr> ae_state := ARP_FREE \<rparr>] \<rparr>)"
      by (rule ok_set [OF arp_drop_ok [OF ok] i]) (auto simp: used_entry_def arp_drop_queue_def waits_for_def pending_for_def split: if_splits)
    then show ?thesis using drop(2) by (simp add: upd_entry_def arp_drop_queue_def)
  next
    case again
    have t: "1 \<le> ae_tries ?e + 1 \<and> ae_tries ?e + 1 \<le> 4"
    proof -
      have "unat (ae_tries ?e) < 4" using again(2) by (simp add: word_less_nat_alt)
      then have "unat (ae_tries ?e + 1) = unat (ae_tries ?e) + 1" by (simp add: unat_add_lem [THEN iffD1])
      then show ?thesis using \<open>unat (ae_tries ?e) < 4\<close> by (simp add: word_le_nat_alt)
    qed
    have "arp_ok {} (s\<lparr> arp_cache := (arp_cache s)[i := ?e\<lparr> ae_tries := ae_tries ?e + 1, ae_last_req := now \<rparr>] \<rparr>)"
      by (rule ok_set [OF ok i]) (use u t in \<open>auto simp: used_entry_def pending_for_def\<close>)
    then show ?thesis using again(3) by (simp add: upd_entry_def same_arp_ok [OF arp_request_same])
  qed
qed

lemma tick_ok: "arp_ok {} s \<Longrightarrow> arp_ok {} (arp_tick send s)"
proof -
  have "arp_ok {} s \<Longrightarrow> set is \<subseteq> {..<16} \<Longrightarrow> arp_ok {} (fold (tick_entry send now) is s)" for now "is"
    by (induction "is" arbitrary: s) (auto intro: tick_entry_ok)
  then show "arp_ok {} s \<Longrightarrow> arp_ok {} (arp_tick send s)" by (simp add: arp_tick_def subset_iff)
qed

lemma arp_input_ok:
  assumes ok: "arp_ok {} s"
  shows "arp_ok {} (arp_input send f len s)"
proof -
  let ?u = "arp_update_cache (get32 f 28) (slice f 22 6) s"
  have "arp_ok {} (arp_flush send (get32 f 28) ?u)" by (rule flush_ok [OF update_cache_ok [OF ok]])
  then show ?thesis using ok by (simp add: arp_input_def Let_def same_arp_ok [OF eth_send_same])
qed

section \<open>Requests are given up\<close>

text \<open>What a tick makes of an entry.\<close>

definition aged :: "u32 \<Rightarrow> arp_entry_t \<Rightarrow> arp_entry_t" where
  "aged now e =
     (if ae_state e \<noteq> ARP_PENDING \<or> now - ae_last_req e < 100 then e
      else if ae_tries e \<ge> 4 then e\<lparr> ae_state := ARP_FREE \<rparr> else e\<lparr> ae_tries := ae_tries e + 1, ae_last_req := now \<rparr>)"

lemma tick_entry_cache: "arp_cache (tick_entry send now i s) = (arp_cache s)[i := aged now (arp_cache s ! i)]"
  by (simp add: tick_entry_def aged_def Let_def upd_entry_def arp_drop_queue_def arp_request_same [unfolded same_arp_def])

lemma fold_map_list:
  assumes "\<And>i s. c (f i s) = (c s)[i := g (c s ! i)]"
  shows "n \<le> length (c s) \<Longrightarrow> c (fold f [0..<n] s) = map g (take n (c s)) @ drop n (c s)"
proof (induction n)
  case (Suc n)
  then have "n < length (c s)" by simp
  then show ?case using Suc assms by (simp add: nth_append list_update_append take_Suc_conv_app_nth Cons_nth_drop_Suc [symmetric])
qed simp

lemma tick_cache: "length (arp_cache s) = 16 \<Longrightarrow> arp_cache (arp_tick send s) = map (aged (tick s)) (arp_cache s)"
  unfolding arp_tick_def by (subst fold_map_list [where c = arp_cache and g = "aged (tick s)"]) (simp_all add: tick_entry_cache)

definition ticks :: "'d send_t \<Rightarrow> u32 list \<Rightarrow> 'd net_t \<Rightarrow> 'd net_t" where
  "ticks send ts s = fold (\<lambda>now s. arp_tick send (s\<lparr> tick := now \<rparr>)) ts s"

lemma ticks_ok: "arp_ok {} s \<Longrightarrow> arp_ok {} (ticks send ts s)"
proof (induction ts arbitrary: s)
  case (Cons t ts)
  have "arp_ok {} (s\<lparr> tick := t \<rparr>)" using Cons.prems by (simp add: arp_ok_def)
  then show ?case using Cons.IH [OF tick_ok] by (simp add: ticks_def)
qed (simp add: ticks_def)

lemma ticks_cache: "arp_ok {} s \<Longrightarrow> arp_cache (ticks send ts s) = map (fold aged ts) (arp_cache s)"
proof (induction ts arbitrary: s)
  case (Cons t ts)
  have 1: "arp_ok {} (s\<lparr> tick := t \<rparr>)" using Cons.prems by (simp add: arp_ok_def)
  have "arp_cache (arp_tick send (s\<lparr> tick := t \<rparr>)) = map (aged t) (arp_cache s)"
    using tick_cache [of "s\<lparr> tick := t \<rparr>" send] Cons.prems by (simp add: arp_ok_def)
  then show ?case using Cons.IH [OF tick_ok [OF 1, of send]] by (simp add: ticks_def)
qed (simp add: ticks_def)

text \<open>An entry asked for four times after its first request, at least \<open>ARP_RETRY_TICKS\<close> apart, is given up.\<close>

lemma aged_four:
  assumes "ae_state e = ARP_PENDING \<Longrightarrow> 1 \<le> ae_tries e \<and> ae_tries e \<le> 4" "ae_state e = ARP_PENDING \<Longrightarrow> 100 \<le> t1 - ae_last_req e"
    "100 \<le> t2 - t1" "100 \<le> t3 - t2" "100 \<le> t4 - t3"
  shows "ae_state (fold aged [t1, t2, t3, t4] e) \<noteq> ARP_PENDING"
proof (cases "ae_state e = ARP_PENDING")
  case True
  have "unat (ae_tries e) \<in> {1, 2, 3, 4}" using assms(1) [OF True] by (auto simp: word_le_nat_alt)
  then have "ae_tries e = 1 \<or> ae_tries e = 2 \<or> ae_tries e = 3 \<or> ae_tries e = 4" by (auto simp: word_unat_eq_iff)
  then show ?thesis using True assms(2) [OF True] assms(3-5) by (auto simp: aged_def not_less)
qed (simp add: aged_def)

end
