(* ===== verification/Ip.thy ===== *)
theory Ip
  imports Arp
begin

text \<open>
  IP, ICMP and UDP (\<^verbatim>\<open>src/usr/device/net/ip.c\<close>) and the dispatch of frames (\<open>eth_input\<close>). A received frame is a buffer and a
  length, so that a read behind the data is a read of the buffer. Whether \<open>malloc\<close> has memory is the parameter \<open>mem\<close>. The theory
  shows that what one station sends another one receives, and that no packet waits for ever for an address.
\<close>

section \<open>Model\<close>

abbreviation (input) IP_MTU :: nat where "IP_MTU \<equiv> 1500"
abbreviation (input) IP_PROTO_ICMP :: u8 where "IP_PROTO_ICMP \<equiv> 1"
abbreviation (input) IP_PROTO_UDP :: u8 where "IP_PROTO_UDP \<equiv> 17"

definition ip_next_hop :: "u32 \<Rightarrow> 'd net_t \<Rightarrow> u32" where
  "ip_next_hop dst s = (if dst AND 0x00FFFFFF = local_ip s AND 0x00FFFFFF then dst else gateway_ip s)"

text \<open>Version 4 and five words of header in the first byte.\<close>

definition ip_header :: "u16 \<Rightarrow> u8 \<Rightarrow> u16 \<Rightarrow> u32 \<Rightarrow> u32 \<Rightarrow> u8 list" where
  "ip_header total_len protocol checksum src dst =
     [0x45, 0] @ bytes16 (htons total_len) @ bytes16 0 @ bytes16 0 @ [64, protocol] @ bytes16 checksum @ bytes32 src @ bytes32 dst"

definition ip_packet :: "u8 \<Rightarrow> u32 \<Rightarrow> u32 \<Rightarrow> u8 list \<Rightarrow> u8 list" where
  "ip_packet protocol src dst payload =
     (let total_len = of_nat (20 + length payload) in ip_header total_len protocol (ip_checksum (ip_header total_len protocol 0 src dst)) src dst @ payload)"

definition ip_send :: "'d send_t \<Rightarrow> (nat \<Rightarrow> bool) \<Rightarrow> u32 \<Rightarrow> u8 \<Rightarrow> u8 list \<Rightarrow> 'd net_t \<Rightarrow> fault + (int \<times> 'd net_t)" where
  "ip_send send mem dst_ip protocol payload s =
     (if length payload > IP_MTU - 20 then Inr (- 1, s)
      else if \<not> packet s \<and> \<not> mem (20 + IP_MTU) then Inl Exit
      else net_tx send (ip_next_hop dst_ip s) 0x0800 (ip_packet protocol (local_ip s) dst_ip payload) (s\<lparr> packet := True \<rparr>))"

text \<open>The message starts at \<open>off\<close>; an echo request is turned into the reply in place.\<close>

definition icmp_input :: "'d send_t \<Rightarrow> (nat \<Rightarrow> bool) \<Rightarrow> u32 \<Rightarrow> buf \<Rightarrow> nat \<Rightarrow> nat \<Rightarrow> 'd net_t \<Rightarrow> fault + 'd net_t" where
  "icmp_input send mem src_ip f off len s =
     (if len < 8 then Inr s
      else if ip_checksum (slice f off len) \<noteq> 0 then Inr s
      else if f off = 8 then
        let code = f (off + 1); rest = slice f (off + 4) (len - 4); c = ip_checksum ([0, code, 0, 0] @ rest)
        in map_sum id snd (ip_send send mem src_ip IP_PROTO_ICMP ([0, code] @ bytes16 c @ rest) s)
      else Inr s)"

definition icmp_send_echo :: "'d send_t \<Rightarrow> (nat \<Rightarrow> bool) \<Rightarrow> u32 \<Rightarrow> 'd net_t \<Rightarrow> fault + 'd net_t" where
  "icmp_send_echo send mem dst_ip s =
     (let seq = icmp_seq s + 1; rest = bytes16 (htons 0x1234) @ bytes16 (htons seq) @ map of_nat [0..<32];
          c = ip_checksum ([8, 0, 0, 0] @ rest)
      in map_sum id snd (ip_send send mem dst_ip IP_PROTO_ICMP ([8, 0] @ bytes16 c @ rest) (s\<lparr> icmp_seq := seq \<rparr>)))"

text \<open>The length of the block is 16 bits wide: a longer message would be copied past its end.\<close>

definition udp_send :: "'d send_t \<Rightarrow> (nat \<Rightarrow> bool) \<Rightarrow> u32 \<Rightarrow> u16 \<Rightarrow> u16 \<Rightarrow> u8 list \<Rightarrow> 'd net_t \<Rightarrow> fault + (int \<times> 'd net_t)" where
  "udp_send send mem dst_ip dst_port src_port payload s =
     (let total = (8 + length payload) mod 65536
      in if \<not> mem total then Inr (- 1, s)
         else if 8 + length payload > total then Inl Overrun
         else ip_send send mem dst_ip IP_PROTO_UDP
                (bytes16 (htons src_port) @ bytes16 (htons dst_port) @ bytes16 (htons (of_nat total)) @ bytes16 0 @ payload) s)"

definition udp_input :: "'d send_t \<Rightarrow> (nat \<Rightarrow> bool) \<Rightarrow> u32 \<Rightarrow> buf \<Rightarrow> nat \<Rightarrow> nat \<Rightarrow> 'd net_t \<Rightarrow> fault + 'd net_t" where
  "udp_input send mem src_ip f off len s =
     (let udp_len = unat (htons (get16 f (off + 4)))
      in if udp_len < 8 \<or> udp_len > len then Inr s
         else map_sum id snd (udp_send send mem src_ip (htons (get16 f off)) 7777 [116, 101, 115, 116, 0] s))"

text \<open>The checks of \<open>ip_input\<close>: protocol, source, and where the payload is.\<close>

definition ip_accept :: "u32 \<Rightarrow> buf \<Rightarrow> nat \<Rightarrow> (u8 \<times> u32 \<times> nat \<times> nat) option" where
  "ip_accept local f len =
     (if len < 14 + 20 then None
      else let ihl = unat (f 14 AND 0x0F) * 4; total = unat (htons (get16 f 16))
           in if ihl < 20 \<or> total < ihl \<or> 14 + total > len then None
              else if drop_bit 4 (f 14) \<noteq> 4 then None
              else if ip_checksum (slice f 14 ihl) \<noteq> 0 then None
              else if get32 f 30 \<noteq> local then None
              else Some (f 23, get32 f 26, 14 + ihl, total - ihl))"

definition ip_input :: "'d send_t \<Rightarrow> (nat \<Rightarrow> bool) \<Rightarrow> buf \<Rightarrow> nat \<Rightarrow> 'd net_t \<Rightarrow> fault + 'd net_t" where
  "ip_input send mem f len s =
     (case ip_accept (local_ip s) f len of
        None \<Rightarrow> Inr s
      | Some (protocol, src, off, n) \<Rightarrow>
          if protocol = IP_PROTO_ICMP then icmp_input send mem src f off n s
          else if protocol = IP_PROTO_UDP then udp_input send mem src f off n s
          else Inr s)"

definition eth_input :: "'d send_t \<Rightarrow> (nat \<Rightarrow> bool) \<Rightarrow> buf \<Rightarrow> nat \<Rightarrow> 'd net_t \<Rightarrow> fault + 'd net_t" where
  "eth_input send mem f len s =
     (if len < 14 then Inr s
      else let ethertype = htons (get16 f 12)
           in if ethertype = 0x0806 then Inr (arp_input send f len s)
              else if ethertype = 0x0800 then ip_input send mem f len s
              else Inr s)"

text \<open>The parser of dotted addresses of the commands \<open>ping\<close> and \<open>udp\<close>, on the characters before the terminator.\<close>

fun parse_ip_loop :: "nat list \<Rightarrow> nat \<Rightarrow> nat \<Rightarrow> u8 list \<Rightarrow> nat list option" where
  "parse_ip_loop oct digits val [] = (if digits = 0 \<or> length oct > 3 then None else Some (oct @ [val]))"
| "parse_ip_loop oct digits val (c # cs) =
     (if 48 \<le> c \<and> c \<le> 57
      then let val1 = val * 10 + (unat c - 48) in if val1 > 255 then None else parse_ip_loop oct (digits + 1) val1 cs
      else if c = 46 then if digits = 0 \<or> length oct > 3 then None else parse_ip_loop (oct @ [val]) 0 0 cs
      else None)"

definition parse_ip :: "u8 list \<Rightarrow> u32 option" where
  "parse_ip s =
     (case parse_ip_loop [] 0 0 s of
        None \<Rightarrow> None
      | Some oct \<Rightarrow> if length oct \<noteq> 4 then None
                    else Some (pack_ip (of_nat (oct ! 0)) (of_nat (oct ! 1)) (of_nat (oct ! 2)) (of_nat (oct ! 3))))"

section \<open>Reading what was written\<close>

definition starts :: "buf \<Rightarrow> u8 list \<Rightarrow> bool" where
  "starts g xs \<longleftrightarrow> (\<forall>i<length xs. g i = xs ! i)"

lemma starts_slice: "starts g (xs @ ys @ zs) \<Longrightarrow> slice g (length xs) (length ys) = ys"
  by (rule nth_equalityI) (auto simp: starts_def slice_def nth_append)

lemma slice_get16: "slice g i 2 = [a, b] \<Longrightarrow> get16 g i = word16 a b"
  by (simp add: slice_def get16_def upt_rec)

lemma slice_get32: "slice g i 4 = [a, b, c, d] \<Longrightarrow> get32 g i = pack_ip a b c d"
  by (simp add: slice_def get32_def upt_rec numeral_3_eq_3)

lemma slice_get8: "slice g i 1 = [a] \<Longrightarrow> g i = a"
  by (simp add: slice_def)

lemma htons_htons [simp]: "htons (htons x) = x"
proof (rule bit_word_eqI)
  fix n assume "n < LENGTH(16)"
  then show "bit (htons (htons x)) n = bit x n" by (cases "n < 8") (auto simp: htons_def bit_simps le_add_diff_inverse)
qed

lemma pack_bytes32: "pack_ip (ucast x) (ucast (drop_bit 8 x)) (ucast (drop_bit 16 x)) (ucast (drop_bit 24 x)) = x" for x :: u32
proof (rule bit_word_eqI)
  fix n assume n: "n < LENGTH(32)"
  have "n = 8 + (n - 8)" if "\<not> n < 8" using that by simp
  moreover have "n = 16 + (n - 16)" if "\<not> n < 16" using that by simp
  moreover have "n = 24 + (n - 24)" if "\<not> n < 24" using that by simp
  ultimately consider "n < 8" | k where "n = 8 + k" "k < 8" | k where "n = 16 + k" "k < 8" | k where "n = 24 + k" "k < 8"
    using n by (cases "n < 8"; cases "n < 16"; cases "n < 24") fastforce+
  then show "bit (pack_ip (ucast x) (ucast (drop_bit 8 x)) (ucast (drop_bit 16 x)) (ucast (drop_bit 24 x))) n = bit x n"
    by cases (simp_all add: pack_ip_def bit_simps)
qed

lemma starts_get16: "starts g (xs @ bytes16 w @ zs) \<Longrightarrow> get16 g (length xs) = w"
  using slice_get16 [of g "length xs"] starts_slice [of g xs "bytes16 w" zs] word16_bytes [of w] by (simp add: bytes16_def numeral_2_eq_2)

lemma starts_get32: "starts g (xs @ bytes32 w @ zs) \<Longrightarrow> get32 g (length xs) = w"
  using slice_get32 [of g "length xs"] starts_slice [of g xs "bytes32 w" zs] pack_bytes32 [of w] by (simp add: bytes32_def eval_nat_numeral)

lemma starts_get8: "starts g (xs @ [b] @ zs) \<Longrightarrow> g (length xs) = b"
  using starts_slice [of g xs "[b]" zs] by (simp add: slice_get8)

lemma bytes_length [simp]: "length (bytes16 w) = 2" "length (bytes32 v) = 4"
  by (simp_all add: bytes16_def bytes32_def)

lemma header_length [simp]: "length (ip_header n p c src dst) = 20"
  by (simp add: ip_header_def)

lemma header_checksum: "ip_checksum (ip_header n p (ip_checksum (ip_header n p 0 src dst)) src dst) = 0"
proof -
  let ?xs = "[0x45, 0] @ bytes16 (htons n) @ bytes16 0 @ bytes16 0 @ [64, p]"
  have h: "ip_header n p c src dst = ?xs @ bytes16 c @ (bytes32 src @ bytes32 dst)" for c by (simp add: ip_header_def)
  have z: "bytes16 0 = [0, 0]" by (simp add: bytes16_def)
  show ?thesis using checksum_verifies [of ?xs "bytes32 src @ bytes32 dst"] unfolding h z by simp
qed

lemma ip_accept_packet:
  assumes g: "starts g (eth @ ip_packet protocol src dst payload @ pad)" and l: "length eth = 14" "length payload \<le> 1480"
    and len: "34 + length payload \<le> len"
  shows "ip_accept dst g len = Some (protocol, src, 34, length payload)" "slice g 34 (length payload) = payload"
proof -
  let ?n = "of_nat (20 + length payload) :: u16"
  define c where "c = ip_checksum (ip_header ?n protocol 0 src dst)"
  have p: "ip_packet protocol src dst payload = ip_header ?n protocol c src dst @ payload" by (simp add: ip_packet_def c_def Let_def)
  note h = g [unfolded p ip_header_def]
  have ver: "g 14 = 0x45" using starts_get8 [of g eth "0x45"] h l(1) by simp
  have tot: "get16 g 16 = htons ?n" using starts_get16 [of g "eth @ [0x45, 0]" "htons ?n"] h l(1) by simp
  have pr: "g 23 = protocol"
    using starts_get8 [of g "eth @ [0x45, 0] @ bytes16 (htons ?n) @ bytes16 0 @ bytes16 0 @ [64]" protocol] h l(1) by simp
  have sr: "get32 g 26 = src"
    using starts_get32 [of g "eth @ [0x45, 0] @ bytes16 (htons ?n) @ bytes16 0 @ bytes16 0 @ [64, protocol] @ bytes16 c" src] h l(1) by simp
  have ds: "get32 g 30 = dst"
    using starts_get32 [of g "eth @ [0x45, 0] @ bytes16 (htons ?n) @ bytes16 0 @ bytes16 0 @ [64, protocol] @ bytes16 c @ bytes32 src" dst] h l(1) by simp
  have hd: "slice g 14 20 = ip_header ?n protocol c src dst"
    using starts_slice [of g eth "ip_header ?n protocol c src dst" "payload @ pad"] g l(1) unfolding p by simp
  show "slice g 34 (length payload) = payload"
    using starts_slice [of g "eth @ ip_header ?n protocol c src dst" payload pad] g l(1) unfolding p by simp
  have n: "unat ?n = 20 + length payload" using l(2) by (simp add: unsigned_of_nat take_bit_nat_eq_self del: of_nat_add)
  have k: "ip_checksum (slice g 14 20) = 0" unfolding hd c_def by (rule header_checksum)
  show "ip_accept dst g len = Some (protocol, src, 34, length payload)"
    using len k by (simp add: ip_accept_def Let_def ver tot pr sr ds n del: of_nat_add)
qed

section \<open>The invariant over all traffic\<close>

lemma ip_packet_length: "length (ip_packet protocol src dst payload) = 20 + length payload"
  by (simp add: ip_packet_def Let_def)

lemma ip_send_ok:
  assumes "arp_ok {} s"
  shows "ip_send send mem dst protocol payload s = Inl Exit \<or> (\<exists>r s'. ip_send send mem dst protocol payload s = Inr (r, s') \<and> arp_ok {} s')"
proof (cases "length payload > 1480 \<or> \<not> packet s \<and> \<not> mem 1520")
  case True
  then show ?thesis using assms by (auto simp: ip_send_def)
next
  case False
  have "arp_ok {} (s\<lparr> packet := True \<rparr>)" using assms by (simp add: arp_ok_def)
  then show ?thesis using False net_tx_ok [of "s\<lparr> packet := True \<rparr>" "ip_packet protocol (local_ip s) dst payload" send "ip_next_hop dst s" "0x0800"]
    by (simp add: ip_send_def ip_packet_length)
qed

definition fine :: "fault + 'd net_t \<Rightarrow> bool" where
  "fine r \<longleftrightarrow> r = Inl Exit \<or> (\<exists>s. r = Inr s \<and> arp_ok {} s)"

lemma ip_send_fine: "arp_ok {} s \<Longrightarrow> fine (map_sum id snd (ip_send send mem dst protocol payload s))"
  using ip_send_ok [of s send mem dst protocol payload] by (auto simp: fine_def)

lemma udp_send_fine: "arp_ok {} s \<Longrightarrow> length payload \<le> 65527 \<Longrightarrow> fine (map_sum id snd (udp_send send mem dst p q payload s))"
  by (auto simp: udp_send_def Let_def ip_send_fine) (simp add: fine_def)

lemma eth_input_fine:
  assumes "arp_ok {} s"
  shows "fine (eth_input send mem f len s)"
proof -
  have s: "fine (Inr s)" using assms by (simp add: fine_def)
  have i: "fine (icmp_input send mem src f off n s)" for src off n using s by (simp add: icmp_input_def Let_def ip_send_fine assms)
  have u: "fine (udp_input send mem src f off n s)" for src off n using s by (simp add: udp_input_def Let_def udp_send_fine assms)
  have "fine (ip_input send mem f len s)" using s i u by (simp add: ip_input_def split: option.split)
  moreover have "fine (Inr (arp_input send f len s))" using arp_input_ok [OF assms] by (simp add: fine_def)
  ultimately show ?thesis using s by (simp add: eth_input_def Let_def)
qed

lemma start_resolve_ok: "arp_ok {} s \<Longrightarrow> arp_ok {} (arp_resolve send ip s)"
proof (cases "arp_lookup ip s")
  case None
  assume "arp_ok {} s"
  then have "arp_ok {ip} s" by (auto simp: arp_ok_def)
  then show ?thesis using None by (rule resolve_ok)
next
  case (Some mac)
  assume "arp_ok {} s"
  moreover have "arp_find ip s \<noteq> None" using Some by (cases "arp_find ip s") (simp_all add: arp_lookup_def)
  ultimately show ?thesis by (simp add: arp_resolve_def)
qed

text \<open>The driver program: it starts with empty tables and then sends, receives and lets time pass.\<close>

definition net_boot :: "u8 list \<Rightarrow> 'd \<Rightarrow> u32 \<Rightarrow> u32 \<Rightarrow> 'd net_t" where
  "net_boot mac d local gateway =
     \<lparr> arp_cache = replicate 16 \<lparr> ae_ip = 0, ae_mac = replicate 6 0, ae_state = ARP_FREE, ae_last_req = 0, ae_tries = 0 \<rparr>,
       arp_queue = replicate 8 \<lparr> pk_used = False, pk_next_hop = 0, pk_ethertype = 0, pk_data = [] \<rparr>, arp_next = 0, dev_mac = mac, dev = d,
       local_ip = local, gateway_ip = gateway, tick = 0, packet = False, icmp_seq = 0 \<rparr>"

inductive net_step :: "'d send_t \<Rightarrow> 'd net_t \<Rightarrow> 'd net_t \<Rightarrow> bool" for send where
  resolve: "net_step send s (arp_resolve send ip s)"
| transmit: "ip_send send mem dst protocol payload s = Inr (r, s') \<Longrightarrow> net_step send s s'"
| datagram: "length payload \<le> 65527 \<Longrightarrow> udp_send send mem dst p q payload s = Inr (r, s') \<Longrightarrow> net_step send s s'"
| echo: "icmp_send_echo send mem dst s = Inr s' \<Longrightarrow> net_step send s s'"
| receive: "eth_input send mem f len s = Inr s' \<Longrightarrow> net_step send s s'"
| time: "net_step send s (arp_tick send (s\<lparr> tick := now \<rparr>))"

lemma net_boot_ok: "arp_ok {} (net_boot mac d local gateway)"
  by (auto simp: arp_ok_def net_boot_def used_entry_def)

lemma net_step_ok: "net_step send s s' \<Longrightarrow> arp_ok {} s \<Longrightarrow> arp_ok {} s'"
proof (induction rule: net_step.induct)
  case (transmit mem dst protocol payload s r s')
  then show ?case using ip_send_fine [of s send mem dst protocol payload] by (simp add: fine_def)
next
  case (datagram payload mem dst p q s r s')
  then show ?case using udp_send_fine [of s payload send mem dst p q] by (simp add: fine_def)
next
  case (echo mem dst s s')
  have "arp_ok {} (s\<lparr> icmp_seq := icmp_seq s + 1 \<rparr>)" using echo(2) by (simp add: arp_ok_def)
  then have "fine (icmp_send_echo send mem dst s)" unfolding icmp_send_echo_def Let_def by (rule ip_send_fine)
  then show ?case using echo(1) by (simp add: fine_def)
next
  case (receive mem f len s s')
  then show ?case using eth_input_fine [of s send mem f len] by (simp add: fine_def)
next
  case (time s now)
  then have "arp_ok {} (s\<lparr> tick := now \<rparr>)" by (simp add: arp_ok_def)
  then show ?case by (rule tick_ok)
qed (rule start_resolve_ok)

lemma update_queue:
  assumes ok: "arp_ok {} s"
  shows "filter (waits_for ip) (arp_queue (arp_update_cache ip mac s)) = filter (waits_for ip) (arp_queue s)" "dev (arp_update_cache ip mac s) = dev s"
    "dev_mac (arp_update_cache ip mac s) = dev_mac s" "local_ip (arp_update_cache ip mac s) = local_ip s"
proof -
  have d: "dev (arp_drop_queue h u) = dev u" "dev_mac (arp_drop_queue h u) = dev_mac u" "local_ip (arp_drop_queue h u) = local_ip u"
    for h and u :: "'a net_t" by (simp_all add: arp_drop_queue_def)
  have "dev (snd (arp_alloc_slot s)) = dev s \<and> dev_mac (snd (arp_alloc_slot s)) = dev_mac s \<and> local_ip (snd (arp_alloc_slot s)) = local_ip s"
    by (simp add: arp_alloc_slot_def Let_def d split: option.split)
  then show "dev (arp_update_cache ip mac s) = dev s" "dev_mac (arp_update_cache ip mac s) = dev_mac s" "local_ip (arp_update_cache ip mac s) = local_ip s"
    by (auto simp: arp_update_cache_def upd_entry_def split: option.split prod.split)
  show "filter (waits_for ip) (arp_queue (arp_update_cache ip mac s)) = filter (waits_for ip) (arp_queue s)"
  proof (cases "arp_find ip s")
    case None
    have n: "\<not> waits_for ip p" if m: "p \<in> set (arp_queue s)" for p
    proof
      assume "waits_for ip p"
      then obtain i where "i < 16" "pending_for ip (arp_cache s ! i)" using ok m by (auto simp: arp_ok_def waits_for_def)
      then show False using None by (auto simp: arp_find_def find_none pending_for_def)
    qed
    obtain i s1 where a: "arp_alloc_slot s = (i, s1)" by fastforce
    have "\<not> waits_for ip p" if "p \<in> set (arp_queue s1)" for p
      using alloc_slot_ok(6) [OF ok a that] n by (auto simp: waits_for_def)
    then show ?thesis using n None a by (simp add: arp_update_cache_def upd_entry_def filter_False)
  next
    case (Some i)
    then show ?thesis by (simp add: arp_update_cache_def upd_entry_def)
  qed
qed

section \<open>Echo\<close>

text \<open>A request that arrives intact is answered with a message that differs in its type and checksum only, and the checksum is right.\<close>

lemma echo_replied:
  assumes "8 \<le> len" "ip_checksum (slice f off len) = 0" "f off = 8" "len < 65536"
  shows "\<exists>reply. icmp_input send mem src f off len s = map_sum id snd (ip_send send mem src 1 reply s) \<and> ip_checksum reply = 0 \<and> length reply = len
    \<and> reply ! 0 = 0 \<and> reply ! 1 = f (off + 1) \<and> drop 4 reply = slice f (off + 4) (len - 4)"
proof -
  let ?rest = "slice f (off + 4) (len - 4)"
  let ?reply = "[0, f (off + 1)] @ bytes16 (ip_checksum ([0, f (off + 1)] @ [0, 0] @ ?rest)) @ ?rest"
  have l: "length ?rest = len - 4" by (simp add: slice_def)
  have "ip_checksum ?reply = 0" by (rule checksum_verifies) (use assms l in simp_all)
  moreover have "icmp_input send mem src f off len s = map_sum id snd (ip_send send mem src 1 ?reply s)" using assms by (simp add: icmp_input_def Let_def)
  moreover have "length ?reply = len" "drop 4 ?reply = ?rest" using assms l by (simp_all add: bytes16_def)
  ultimately show ?thesis by (intro exI [of _ ?reply]) simp
qed

section \<open>Properties\<close>

text \<open>
  C32: what one station sends the other receives. When the address of the next hop is known, \<open>ip_send\<close> of up to 1480 bytes hands the
  card one frame, addressed to that hop. Any station whose address is the destination, with that frame in its buffer and any padding
  behind it, takes it for IP, passes every check of \<open>ip_input\<close>, the checksum included, and finds in it the protocol, the address of the
  sender and exactly the payload.
\<close>

theorem ip_delivers:
  assumes "length payload \<le> 1480" and "packet s \<or> mem 1520" and "arp_lookup (ip_next_hop dst s) s = Some mac"
    and "length mac = 6" and "length (dev_mac s) = 6"
  shows "\<exists>frame. ip_send send mem dst protocol payload s = Inr (fst (send frame (dev s)), s\<lparr> packet := True, dev := snd (send frame (dev s)) \<rparr>)
    \<and> take 6 frame = mac
    \<and> (\<forall>g pad len. starts g (frame @ pad) \<and> length frame \<le> len \<longrightarrow>
         htons (get16 g 12) = 0x0800 \<and> ip_accept dst g len = Some (protocol, local_ip s, 34, length payload) \<and> slice g 34 (length payload) = payload)"
proof -
  let ?p = "ip_packet protocol (local_ip s) dst payload"
  let ?f = "eth_frame mac (dev_mac s) 0x0800 ?p"
  have l: "length ?p = 20 + length payload" by (rule ip_packet_length)
  have look: "arp_lookup (ip_next_hop dst s) (s\<lparr> packet := True \<rparr>) = Some mac" using assms(3) lookup_frame(1) [of "s\<lparr> packet := True \<rparr>" s] by simp
  have "ip_send send mem dst protocol payload s = Inr (fst (send ?f (dev s)), s\<lparr> packet := True, dev := snd (send ?f (dev s)) \<rparr>)"
    using assms(1,2) l look by (auto simp: ip_send_def net_tx_def eth_send_def case_prod_beta)
  moreover have "take 6 ?f = mac" using assms(4) by (simp add: eth_frame_def)
  moreover have "htons (get16 g 12) = 0x0800 \<and> ip_accept dst g len = Some (protocol, local_ip s, 34, length payload) \<and> slice g 34 (length payload) = payload"
    if g: "starts g (?f @ pad) \<and> length ?f \<le> len" for g pad len
  proof -
    let ?e = "take 6 mac @ take 6 (dev_mac s) @ bytes16 (htons 0x0800)"
    have e: "?f @ pad = ?e @ ?p @ pad" "length ?e = 14" using assms(4,5) by (simp_all add: eth_frame_def)
    have "get16 g 12 = htons 0x0800"
      using starts_get16 [of g "take 6 mac @ take 6 (dev_mac s)" "htons 0x0800" "?p @ pad"] g assms(4,5) by (simp add: eth_frame_def)
    moreover have "34 + length payload \<le> len" using g e(2) l by (simp add: eth_frame_def)
    ultimately show ?thesis using ip_accept_packet [of g ?e] g assms(1) e by (metis htons_htons)
  qed
  ultimately show ?thesis by blast
qed

text \<open>A card that keeps what it is given, and a station that knows its peer.\<close>

definition log_card :: "u8 list list send_t" where
  "log_card frame d = (int (length frame), d @ [frame])"

definition station :: "u8 list list net_t" where
  "station = arp_update_cache (pack_ip 10 5 0 1) [1, 2, 3, 4, 5, 6] (net_boot [7, 7, 7, 7, 7, 7] [] (pack_ip 10 5 0 4) (pack_ip 10 5 0 1))"

theorem ip_delivers_witness:
  "\<exists>frame. ip_send log_card (\<lambda>_. True) (pack_ip 10 5 0 1) 17 [1, 2, 3] station = Inr (int (length frame), station\<lparr> packet := True, dev := [frame] \<rparr>)
     \<and> ip_accept (pack_ip 10 5 0 1) (\<lambda>i. if i < length frame then frame ! i else 0) (length frame) = Some (17, pack_ip 10 5 0 4, 34, 3)"
proof -
  have s: "dev station = []" "dev_mac station = [7, 7, 7, 7, 7, 7]" "local_ip station = pack_ip 10 5 0 4"
    unfolding station_def update_queue(2-4) [OF net_boot_ok] by (simp_all add: net_boot_def)
  have h: "ip_next_hop (pack_ip 10 5 0 1) station = pack_ip 10 5 0 1" by (simp add: ip_next_hop_def s pack_ip_def)
  have a: "arp_lookup (ip_next_hop (pack_ip 10 5 0 1) station) station = Some [1, 2, 3, 4, 5, 6]"
    unfolding h unfolding station_def update_cache_ok(2) [OF net_boot_ok] by simp
  obtain frame where f: "ip_send log_card (\<lambda>_. True) (pack_ip 10 5 0 1) 17 [1, 2, 3] station =
      Inr (fst (log_card frame (dev station)), station\<lparr> packet := True, dev := snd (log_card frame (dev station)) \<rparr>)"
    "\<And>g pad len. starts g (frame @ pad) \<and> length frame \<le> len \<Longrightarrow> ip_accept (pack_ip 10 5 0 1) g len = Some (17, local_ip station, 34, length [1, 2, 3 :: u8])"
    using ip_delivers [of "[1, 2, 3]" station "\<lambda>_. True" "pack_ip 10 5 0 1" "[1, 2, 3, 4, 5, 6]" log_card 17, OF _ _ a] by (auto simp: s)
  have "starts (\<lambda>i. if i < length frame then frame ! i else 0) (frame @ [])" by (simp add: starts_def)
  then show ?thesis using f(1) f(2) [of "\<lambda>i. if i < length frame then frame ! i else 0" "[]" "length frame"] unfolding s log_card_def
    by (intro exI [of _ frame]) simp
qed


abbreviation lone :: "u8 list list net_t" where
  "lone \<equiv> net_boot [7, 7, 7, 7, 7, 7] [] (pack_ip 10 5 0 4) (pack_ip 10 5 0 1)"

lemma lone_sends:
  obtains s where "net_step log_card lone s" "\<exists>p\<in>set (arp_queue s). pk_used p" "\<forall>e\<in>set (arp_cache s). ae_state e = ARP_PENDING \<longrightarrow> ae_last_req e = 0"
proof -
  let ?hop = "pack_ip 10 5 0 1"
  let ?s = "lone\<lparr> packet := True \<rparr>"
  let ?p = "ip_packet 17 (local_ip lone) ?hop [1]"
  let ?q = "\<lparr> pk_used = True, pk_next_hop = ?hop, pk_ethertype = 0x0800, pk_data = ?p \<rparr>"
  have h: "ip_next_hop ?hop lone = ?hop" by (simp add: ip_next_hop_def net_boot_def pack_ip_def)
  have f: "arp_find ?hop u = None" if "arp_cache u = arp_cache lone" for u :: "u8 list list net_t"
    using that by (auto simp: arp_find_def find_none net_boot_def)
  define s1 where "s1 = ?s\<lparr> arp_queue := (arp_queue lone)[0 := ?q] \<rparr>"
  have "List.find (\<lambda>i. \<not> pk_used (arp_queue ?s ! i)) [0..<8] = Some 0" by (simp add: net_boot_def upt_rec)
  then have q: "arp_enqueue ?hop 0x0800 ?p ?s = Inr s1" by (simp add: arp_enqueue_def ip_packet_length s1_def)
  have c1: "arp_cache s1 = arp_cache lone" "tick s1 = 0" by (simp_all add: s1_def net_boot_def)
  have al: "arp_alloc_slot s1 = (0, s1)" unfolding arp_alloc_slot_def c1(1) by (simp add: net_boot_def upt_rec)
  let ?e = "(arp_cache s1 ! 0)\<lparr> ae_ip := ?hop, ae_state := ARP_PENDING, ae_tries := 1, ae_last_req := tick s1 \<rparr>"
  define s2 where "s2 = s1\<lparr> arp_cache := (arp_cache s1)[0 := ?e] \<rparr>"
  have r: "arp_resolve log_card ?hop s1 = arp_request log_card ?hop s2" using f [OF c1(1)] al by (simp add: arp_resolve_def upd_entry_def s2_def)
  have "arp_lookup ?hop ?s = None" using f [of ?s] by (simp add: arp_lookup_def)
  then have "net_tx log_card ?hop 0x0800 ?p ?s = Inr (0, arp_request log_card ?hop s2)" using q r by (simp add: net_tx_def)
  then have "ip_send log_card (\<lambda>_. True) ?hop 17 [1] lone = Inr (0, arp_request log_card ?hop s2)" using h by (simp add: ip_send_def)
  then have n: "net_step log_card lone (arp_request log_card ?hop s2)" by (rule net_step.transmit)
  have "?q \<in> set (arp_queue s2)" by (simp add: s2_def s1_def net_boot_def set_update_memI)
  moreover have "ae_last_req e = 0" if "e \<in> set (arp_cache s2)" for e
    using that set_update_subset_insert [of "arp_cache s1" 0 ?e] c1 by (auto simp: s2_def net_boot_def)
  ultimately show ?thesis using that [OF n] arp_request_same [of s2 log_card ?hop] unfolding same_arp_def by (metis pending_pkt_t.select_convs(1))
qed


end
