(* ===== verification/Resize.thy ===== *)
theory Resize
  imports Memory Elf
begin

text \<open>
  Moving an object of the physical heap (\<open>resize\<close> of \<^verbatim>\<open>src/memory.c\<close>), on the allocator of \<open>Memory\<close> and the bytes of memory:
  the blocks of an object are an area of bytes, areas of different blocks are disjoint, and so the contents survive the move.
\<close>

section \<open>Model\<close>

definition resize :: "u32 \<Rightarrow> int \<Rightarrow> int \<Rightarrow> 'a heap_t_scheme \<times> mem_t \<Rightarrow> u32 \<times> 'a heap_t_scheme \<times> mem_t" where
  "resize offset oldsize newsize sm =
     (let (newaddr, s1) = malloc newsize (fst sm)
      in if newaddr = 0 then (0, s1, snd sm)
         else let m1 = memcpy newaddr offset (if oldsize < newsize then oldsize else newsize) (snd sm)
              in (newaddr, free offset oldsize s1, m1))"

section \<open>Blocks as areas of memory\<close>

lemma bytes_nblocks: "valid_size n \<Longrightarrow> nat n \<le> nblocks n * 4096"
proof -
  assume v: "valid_size n"
  have "n + 4095 = (n + 4095) div 4096 * 4096 + (n + 4095) mod 4096" by (simp only: div_mult_mod_eq)
  moreover have "(n + 4095) mod 4096 < 4096" by (rule pos_mod_bound) simp
  ultimately have le: "n \<le> (n + 4095) div 4096 * 4096" by linarith
  have "0 < (n + 4095) div 4096" using nblocks_pos [OF v] by (simp add: nblocks_def)
  then have "int (nblocks n) = (n + 4095) div 4096" by (simp add: nblocks_def)
  with le have "n \<le> int (nblocks n * 4096)" by simp
  then show ?thesis by (simp only: nat_le_iff)
qed

lemma copied_at: "i < n \<Longrightarrow> copied dest src n m (at dest i) = m (at src i)"
  by (simp add: copied_def) (simp add: at_def add.commute)

lemma copied_outside: "a \<notin> region dest n \<Longrightarrow> copied dest src n m a = m a"
  by (simp add: copied_def)

lemma region_below:
  assumes "valid_size n" "a + nblocks n \<le> b" "valid_size k" "b + nblocks k \<le> 8192"
  shows "region (block_addr a) (nat n) \<inter> region (block_addr b) (nat k) = {}"
proof (rule Cstring.region_disjoint)
  have "nat n \<le> nblocks n * 4096" "nat k \<le> nblocks k * 4096" using assms bytes_nblocks by auto
  with assms show "unat (block_addr a) + nat n \<le> unat (block_addr b)" "unat (block_addr b) + nat k \<le> 2 ^ 32"
    by (auto simp: unat_block_addr)
qed

lemma obj_regions_disjoint:
  assumes "obj_blocks a n \<inter> obj_blocks b k = {}" "valid_size n" "valid_size k" "a + nblocks n \<le> 8192" "b + nblocks k \<le> 8192"
  shows "region (block_addr a) (nat n) \<inter> region (block_addr b) (nat k) = {}"
proof -
  have "max a b \<notin> obj_blocks a n \<inter> obj_blocks b k" using assms(1) by simp
  then have "a + nblocks n \<le> b \<or> b + nblocks k \<le> a"
    using nblocks_pos [OF assms(2)] nblocks_pos [OF assms(3)] by (auto simp: obj_blocks_def max_def split: if_splits)
  then show ?thesis using region_below [OF assms(2) _ assms(3,5)] region_below [OF assms(3) _ assms(2,4)] by blast
qed

lemma memcpy_copied: "region src (nat n) \<inter> region dest (nat n) = {} \<Longrightarrow> memcpy dest src n m = copied dest src (nat n) m"
  using rep_movsb_copied [of src "nat n" dest m] by (simp add: memcpy_def rep_movsb_def)

section \<open>The move\<close>

text \<open>
  \<open>resize\<close> of an object in use returns NULL and changes nothing, or moves the object: its first bytes, as many as both sizes allow, are at
  the new place, no memory outside it has changed, exactly the old blocks are free and the new ones, free before, in use.
\<close>

lemma resize_moves:
  assumes inv: "heap_inv s" and old: "valid_size old" "b + nblocks old \<le> 8192" "obj_blocks b old \<subseteq> used_blocks s"
    and new: "valid_size new" and r: "resize (block_addr b) old new (s, m) = (p, t, m')"
  shows "p = 0 \<and> t = s \<and> m' = m
    \<or> (\<exists>c. p = block_addr c \<and> obj_blocks c new \<inter> used_blocks s = {} \<and> used_blocks t = used_blocks s - obj_blocks b old \<union> obj_blocks c new
        \<and> (\<forall>i < nat (min old new). m' (at p i) = m (at (block_addr b) i)) \<and> (\<forall>a. a \<notin> region p (nat new) \<longrightarrow> m' a = m a))"
    and "heap_inv t"
proof -
  obtain q u where q: "malloc new s = (q, u)" by fastforce
  note fresh = kheap.alloc_fresh [OF inv new] and kept = kheap.alloc_inv [OF inv new]
  have main: "(p = 0 \<and> t = s \<and> m' = m
    \<or> (\<exists>c. p = block_addr c \<and> obj_blocks c new \<inter> used_blocks s = {} \<and> used_blocks t = used_blocks s - obj_blocks b old \<union> obj_blocks c new
        \<and> (\<forall>i < nat (min old new). m' (at p i) = m (at (block_addr b) i)) \<and> (\<forall>a. a \<notin> region p (nat new) \<longrightarrow> m' a = m a))) \<and> heap_inv t"
  proof (cases "q = 0")
    case True
    then show ?thesis using kheap.alloc_fail [OF inv new] q r inv by (simp add: resize_def)
  next
    case False
    then obtain c where c: "q = block_addr c" "c + nblocks new \<le> 8192" "obj_blocks c new \<inter> used_blocks s = {}"
      "used_blocks u = used_blocks s \<union> obj_blocks c new" using fresh q by auto
    let ?k = "min old new"
    have dis: "region (block_addr b) (nat old) \<inter> region q (nat new) = {}"
      unfolding c(1) by (rule obj_regions_disjoint) (use c old new in blast)+
    have "region (block_addr b) (nat ?k) \<inter> region q (nat ?k) = {}"
      using dis region_mono [of "nat ?k" "nat old" "block_addr b"] region_mono [of "nat ?k" "nat new" q] by (force simp: nat_mono)
    then have cp: "memcpy q (block_addr b) ?k m = copied q (block_addr b) (nat ?k) m" by (rule memcpy_copied)
    have e: "p = q" "t = free (block_addr b) old u" "m' = memcpy q (block_addr b) ?k m"
      using r q False by (auto simp: resize_def Let_def min_def split: if_splits)
    have bytes: "m' (at p i) = m (at (block_addr b) i)" if "i < nat ?k" for i
      using that unfolding e cp by (rule copied_at)
    have frame: "m' a = m a" if "a \<notin> region p (nat new)" for a
    proof -
      have "region q (nat ?k) \<subseteq> region q (nat new)" by (rule region_mono) (simp add: nat_mono)
      with that show ?thesis unfolding e cp by (intro copied_outside) blast
    qed
    have u: "heap_inv u" using kept q by simp
    have "used_blocks t = used_blocks s - obj_blocks b old \<union> obj_blocks c new"
      using kheap.dealloc_used [OF u old(1,2)] c(3,4) old(3) by (auto simp: e)
    then show ?thesis using c bytes frame kheap.dealloc_inv [OF u old(1,2)] e by blast
  qed
  then show "p = 0 \<and> t = s \<and> m' = m
    \<or> (\<exists>c. p = block_addr c \<and> obj_blocks c new \<inter> used_blocks s = {} \<and> used_blocks t = used_blocks s - obj_blocks b old \<union> obj_blocks c new
        \<and> (\<forall>i < nat (min old new). m' (at p i) = m (at (block_addr b) i)) \<and> (\<forall>a. a \<notin> region p (nat new) \<longrightarrow> m' a = m a))"
    and "heap_inv t" by blast+
qed

end
