(* ===== verification/Tasklife.thy ===== *)
theory Tasklife
  imports Vm Msgcall Ksync Elf
begin

text \<open>
  The life of tasks and processes (\<^verbatim>\<open>src/tasks.c\<close>): creating a process and its threads, their stacks, starting and ending them, and
  tasks that park inside the kernel. The record adds to the state of message passing the fields of \<open>process_t\<close> and \<open>task_state_t\<close> that only
  these operations use. The result \<^const>\<open>None\<close> is an end of the model: a panic, or an access through a NULL pointer. The windows of a
  process are the parameter \<open>win\<close>.
\<close>

section \<open>State\<close>

record life_t = msg_t +
  ts_stack_base :: "nat \<Rightarrow> u32"
  ts_v_stack_start :: "nat \<Rightarrow> u32"
  pr_threads :: "u32 \<Rightarrow> nat option list"
  pr_no_threads :: "u32 \<Rightarrow> int"
  pr_window :: "u32 \<Rightarrow> int"
  pr_vmem_start :: "u32 \<Rightarrow> u32"
  pr_vmem_end :: "u32 \<Rightarrow> u32"
  pr_working_dir :: "u32 \<Rightarrow> u8 list"
  pr_exe_path :: "u32 \<Rightarrow> u8 list"
  pr_launch_args :: "u32 \<Rightarrow> u32"
  pr_launch_argc :: "u32 \<Rightarrow> int"
  process_uid_counter :: u32
  task_uid_counter :: u32
  task_event_counter :: u32

record 's win_t =
  win_add :: "'s \<Rightarrow> int \<times> 's"
  win_focus :: "int \<Rightarrow> 's \<Rightarrow> 's"
  win_minimise :: "int \<Rightarrow> 's \<Rightarrow> 's"
  win_write :: "nat \<Rightarrow> 's \<Rightarrow> 's"

abbreviation (input) TASK_STACK_SIZE :: u32 where "TASK_STACK_SIZE \<equiv> 0x4000"
abbreviation (input) V_STACKS_START :: u32 where "V_STACKS_START \<equiv> 0xC0000000"
abbreviation (input) MAX_TASK_THREADS :: nat where "MAX_TASK_THREADS \<equiv> 4"
abbreviation (input) EVENT_QUEUE_SIZE :: int where "EVENT_QUEUE_SIZE \<equiv> 64"
abbreviation (input) process_size :: int where "process_size \<equiv> 932"

section \<open>Creation\<close>

definition create_process :: "u32 \<Rightarrow> u32 \<Rightarrow> bool \<Rightarrow> 'a life_t_scheme \<Rightarrow> (u32 \<times> 'a life_t_scheme) option" where
  "create_process entry sz privileged s =
     (let (p, s1) = malloc process_size s
      in if p = 0 then None
         else Some (p, s1\<lparr>
           processes := (processes s1)(p := \<lparr>pr_uid = process_uid_counter s1, pr_prog_start = entry, pr_prog_entry = entry, pr_prog_size = sz,
             pr_privileged = privileged, pr_page_dir = kernel_page_dir s1, pr_kobj = (\<lambda>_. 0), pr_kobj_count = 0, pr_regions = 0,
             pr_stdio = (\<lambda>_. - 1), pr_no_allocated = 0, pr_heap_start = 0, pr_heap_end = 0\<rparr>),
           process_uid_counter := process_uid_counter s1 + 1,
           pr_vmem_start := (pr_vmem_start s1)(p := 0), pr_vmem_end := (pr_vmem_end s1)(p := 0),
           pr_window := (pr_window s1)(p := - 1), pr_ports := (pr_ports s1)(p := []),
           pr_working_dir := (pr_working_dir s1)(p := [47, 115, 121, 115]), pr_exe_path := (pr_exe_path s1)(p := []),
           pr_no_threads := (pr_no_threads s1)(p := 0), pr_threads := (pr_threads s1)(p := replicate MAX_TASK_THREADS None),
           pr_launch_argc := (pr_launch_argc s1)(p := 0), pr_launch_args := (pr_launch_args s1)(p := 0)\<rparr>))"

definition create_user_stack :: "nat \<Rightarrow> 'a life_t_scheme \<Rightarrow> bool \<times> 'a life_t_scheme" where
  "create_user_stack t s =
     (if ts_stack_base s t \<noteq> 0 then (True, s)
      else let (stack, s1) = malloc 0x3000 s
           in if stack = 0 then (False, s1) else (True, s1\<lparr>ts_stack_base := (ts_stack_base s1)(t := stack)\<rparr>))"

definition create_kernel_stack :: "nat \<Rightarrow> 'a life_t_scheme \<Rightarrow> bool \<times> 'a life_t_scheme" where
  "create_kernel_stack t s =
     (if ts_kernel_stack_top (tasks s t) \<noteq> 0 then (True, s)
      else let (kernel_stack, s1) = malloc 0x4000 s
           in if kernel_stack = 0 then (False, s1)
              else (True, upd_task t (\<lambda>x. x\<lparr>ts_kernel_stack_top := kernel_stack + KSTACK_SIZE\<rparr>) s1))"

definition create_task_stacks :: "nat \<Rightarrow> 'a life_t_scheme \<Rightarrow> bool \<times> 'a life_t_scheme" where
  "create_task_stacks t s =
     (let (ok, s1) = create_user_stack t s in if \<not> ok then (False, s1) else create_kernel_stack t s1)"

text \<open>The first free place among the threads of a process.\<close>

definition free_thread :: "nat option list \<Rightarrow> nat option" where
  "free_thread ths = find (\<lambda>i. ths ! i = None) [0..<MAX_TASK_THREADS]"

text \<open>The process and the number of the new thread; -1 when the process has no place left.\<close>

definition enter_process :: "nat \<Rightarrow> u32 \<Rightarrow> u32 \<Rightarrow> bool \<Rightarrow> u32 \<Rightarrow> 'a life_t_scheme \<Rightarrow> (int \<times> u32 \<times> 'a life_t_scheme) option" where
  "enter_process t entry sz privileged process s =
     (if process = 0
      then map_option (\<lambda>(p, s1). (0, p, s1\<lparr>pr_threads := (pr_threads s1)(p := (pr_threads s1 p)[0 := Some t])\<rparr>)) (create_process entry sz privileged s)
      else case free_thread (pr_threads s process) of
             None \<Rightarrow> Some (- 1, process, s)
           | Some i \<Rightarrow> Some (int i, process, s\<lparr>pr_threads := (pr_threads s)(process := (pr_threads s process)[i := Some t])\<rparr>))"

definition init_task :: "nat \<Rightarrow> u32 \<Rightarrow> u32 \<Rightarrow> 'a life_t_scheme \<Rightarrow> 'a life_t_scheme" where
  "init_task t entry process s =
     (upd_task t (\<lambda>x. x\<lparr>ts_process := process, ts_task_uid := task_uid_counter s, ts_enabled := False, ts_paused := False,
        ts_pause_reason := PAUSE_NONE, ts_wake_pending := False, ts_crashed := False, ts_kill_pending := False, ts_routine := E_NONE,
        ts_checkcmd_buffer := 0, ts_in_syscall := False, ts_mutex := None, ts_mutex_next_waiter := None, ts_owned_mutexes := None,
        ts_kernel_esp := 0, ts_registers := (ts_registers x)\<lparr>r_eip := entry\<rparr>\<rparr>) s)
     \<lparr>task_uid_counter := task_uid_counter s + 1, ts_msg_func := (ts_msg_func s)(t := 0), ts_msg_channels := (ts_msg_channels s)(t := []),
      ts_msg_notify_pending := (ts_msg_notify_pending s)(t := False), pr_no_threads := (pr_no_threads s)(process := pr_no_threads s process + 1)\<rparr>"

definition create_task_entry :: "nat \<Rightarrow> u32 \<Rightarrow> u32 \<Rightarrow> bool \<Rightarrow> u32 \<Rightarrow> 'a life_t_scheme \<Rightarrow> (int \<times> 'a life_t_scheme) option" where
  "create_task_entry t entry sz privileged process s =
     (let (ok, s1) = create_task_stacks t s
      in if \<not> ok then Some (- 1, s1)
         else let s2 = s1\<lparr>phys_mem := memset (ts_stack_base s1 t) 0 0x3000 (phys_mem s1)\<rparr>;
                  s3 = upd_task t (\<lambda>x. x\<lparr>ts_event_queue := kqueue_init (q_buffer (ts_event_queue x)) EVENT_QUEUE_SIZE\<rparr>) s2
              in do {
                (thread_no, p, s4) \<leftarrow> enter_process t entry sz privileged process s3;
                if thread_no = - 1 then Some (- 1, s4) else Some (thread_no, init_task t entry p s4) })"

section \<open>Stacks\<close>

text \<open>The loop of \<open>task_map_stack\<close>: the page at which it failed, if it did.\<close>

fun map_stack_loop :: "u32 \<Rightarrow> u32 \<Rightarrow> u32 \<Rightarrow> nat list \<Rightarrow> 'a page_t_scheme \<Rightarrow> nat option \<times> 'a page_t_scheme" where
  "map_stack_loop dir base start [] s = (None, s)"
| "map_stack_loop dir base start (i # is) s =
     (case map_page dir (base + of_nat (i - 1) * 0x1000) (start + of_nat i * 0x1000) 1 1 0 s of
        (False, s1) \<Rightarrow> (Some i, s1)
      | (True, s1) \<Rightarrow> map_stack_loop dir base start is s1)"

definition unmap_pages :: "u32 \<Rightarrow> u32 \<Rightarrow> nat list \<Rightarrow> 'a page_t_scheme \<Rightarrow> 'a page_t_scheme" where
  "unmap_pages dir start is s = fold (\<lambda>i t. snd (unmap dir (start + of_nat i * 0x1000) t)) is s"

definition stack_slot :: "nat \<Rightarrow> nat \<Rightarrow> 'a life_t_scheme \<Rightarrow> u32" where
  "stack_slot t thread_no s =
     V_STACKS_START + of_nat (if pr_page_dir (task_proc s t) = kernel_page_dir s then t else thread_no) * TASK_STACK_SIZE"

definition task_map_stack :: "nat \<Rightarrow> nat \<Rightarrow> 'a life_t_scheme \<Rightarrow> bool \<times> 'a life_t_scheme" where
  "task_map_stack t thread_no s =
     (let dir = pr_page_dir (task_proc s t);
          start = stack_slot t thread_no s;
          s1 = s\<lparr>ts_v_stack_start := (ts_v_stack_start s)(t := start)\<rparr>
      in case map_stack_loop dir (ts_stack_base s t) start [1..<4] s1 of
           (Some i, s2) \<Rightarrow> (False, unmap_pages dir start [1..<i] s2)
         | (None, s2) \<Rightarrow>
             let s3 = snd (unmap dir (ts_kernel_stack_top (tasks s2 t) - KSTACK_SIZE) s2);
                 top = start + TASK_STACK_SIZE
             in (True, upd_task t (\<lambda>x. x\<lparr>ts_registers := (ts_registers x)\<lparr>r_ebp := top, r_useresp := top\<rparr>\<rparr>) s3))"

definition task_unmap_stack :: "nat \<Rightarrow> 'a life_t_scheme \<Rightarrow> 'a life_t_scheme" where
  "task_unmap_stack t s =
     (let dir = pr_page_dir (task_proc s t);
          s1 = unmap_pages dir (ts_v_stack_start s t) [1..<4] s;
          guard = ts_kernel_stack_top (tasks s t) - KSTACK_SIZE;
          access = (if dir = kernel_page_dir s then 1 else 0)
      in snd (map_page dir guard guard access access 0 s1))"

section \<open>Start\<close>

definition setup_task_init :: "'a life_t_scheme win_t \<Rightarrow> nat \<Rightarrow> bool \<Rightarrow> bool \<Rightarrow> 'a life_t_scheme \<Rightarrow> bool \<times> 'a life_t_scheme" where
  "setup_task_init win t focus minimised s =
     (let (ok, s1) = task_map_stack t 0 s
      in if \<not> ok then (False, s1)
         else let s2 = upd_task t (\<lambda>x. x\<lparr>ts_registers := (ts_registers x)\<lparr>r_ds := 0x23, r_cs := 0x1B, r_eflags := 0x202, r_ss := 0x23\<rparr>\<rparr>) s1;
                  (window, s3) = win_add win s2
              in if window < 0 then (False, s3)
                 else let process = ts_process (tasks s3 t);
                          s4 = s3\<lparr>pr_window := (pr_window s3)(process := window)\<rparr>;
                          s5 = (if focus then win_focus win window s4 else s4);
                          s6 = (if minimised then win_minimise win (pr_window s5 process) s5 else s5)
                      in (True, s6\<lparr>task_event_counter := task_event_counter s6 + 1\<rparr>))"

definition launch_task :: "'a life_t_scheme win_t \<Rightarrow> nat \<Rightarrow> registers_t \<Rightarrow> bool \<Rightarrow> 'a life_t_scheme \<Rightarrow> bool \<times> registers_t \<times> 'a life_t_scheme" where
  "launch_task win t regs focus s =
     (let old = current_task s;
          (ok, s1) = setup_task_init win t focus False (s\<lparr>current_task := int t\<rparr>)
      in if \<not> ok then (False, regs, s1\<lparr>current_task := old\<rparr>)
         else let s2 = (if old \<ge> 0 \<and> ts_enabled (tasks s1 (nat old)) then upd_task (nat old) (\<lambda>x. x\<lparr>ts_registers := regs\<rparr>) s1 else s1);
                  c = nat (current_task s2);
                  s3 = upd_task c (\<lambda>x. x\<lparr>ts_enabled := True\<rparr>) s2;
                  s4 = swap_pagedir (pr_page_dir (task_proc s3 c)) s3
              in (True, ts_registers (tasks s4 c), s4\<lparr>tss_esp0 := ts_kernel_stack_top (tasks s4 c)\<rparr>))"

definition task_discard_entry :: "nat \<Rightarrow> 'a life_t_scheme \<Rightarrow> 'a life_t_scheme" where
  "task_discard_entry t s =
     (let s1 = upd_task t (\<lambda>x. x\<lparr>ts_reserved := False\<rparr>) s; process = ts_process (tasks s1 t); p = processes s1 process
      in if process = 0 then s1
         else let s2 = (if pr_prog_size p \<noteq> 0 then free (pr_prog_start p) (sint (pr_prog_size p)) s1 else s1);
                  s3 = (if pr_page_dir p \<noteq> kernel_page_dir s2 then free_page_dir (pr_page_dir p) s2 else s2)
              in upd_task t (\<lambda>x. x\<lparr>ts_process := 0\<rparr>) (free process process_size s3))"

definition tasks_alloc :: "'a life_t_scheme \<Rightarrow> 'a life_t_scheme" where
  "tasks_alloc s =
     (let s1 = snd (malloc 33152 s)
      in s1\<lparr>tasks := (\<lambda>t. if t < 16 then (tasks s1 t)\<lparr>ts_enabled := False, ts_reserved := False, ts_process := 0, ts_kernel_stack_top := 0\<rparr> else tasks s1 t),
           ts_stack_base := (\<lambda>t. if t < 16 then 0 else ts_stack_base s1 t)\<rparr>)"

section \<open>End\<close>

definition is_kthread :: "nat \<Rightarrow> 'a kern_t_scheme \<Rightarrow> bool" where
  "is_kthread t s \<longleftrightarrow> ts_in_syscall (tasks s t) \<and> ts_process (tasks s t) \<noteq> 0 \<and> pr_prog_start (task_proc s t) = 0
     \<and> pr_page_dir (task_proc s t) = kernel_page_dir s"

partial_function (option) free_event_queue :: "nat \<Rightarrow> 'a kern_t_scheme \<Rightarrow> 'a kern_t_scheme option" where
  "free_event_queue t s =
     (case kqueue_peek (ts_event_queue (tasks s t)) of
        None \<Rightarrow> Some s
      | Some i \<Rightarrow>
          let e = q_buffer (ts_event_queue (tasks s t)) ! i;
              s1 = (if ev_type e = E_CHECKCMD then cleanup_checkcmd_args (ts_process (tasks s t)) (ev_args e ! 0) s else s)
          in free_event_queue t (upd_task t (\<lambda>x. x\<lparr>ts_event_queue := kqueue_drop (ts_event_queue x)\<rparr>) s1))"

declare free_event_queue.simps [code]

text \<open>The arguments of a program: an array of pointers to strings and a NULL after them.\<close>

fun free_args :: "u32 \<Rightarrow> nat list \<Rightarrow> 'a kern_t_scheme \<Rightarrow> 'a kern_t_scheme option" where
  "free_args args [] s = Some s"
| "free_args args (i # is) s =
     (let a = get_u32 (phys_mem s) (args + 4 * of_nat i)
      in if a = 0 then free_args args is s
         else do { n \<leftarrow> strlen (phys_mem s) a; free_args args is (free a (int n + 1) s) })"

definition free_launch_args :: "u32 \<Rightarrow> int \<Rightarrow> 'a kern_t_scheme \<Rightarrow> 'a kern_t_scheme option" where
  "free_launch_args args argc s =
     (if args = 0 then Some s else map_option (free args (4 * (argc + 1))) (free_args args [0..<nat argc] s))"

text \<open>
  The end of the other threads of a process: one that cannot end yet moves to the first places. The parameter \<open>end_one\<close> ends a thread.
\<close>

fun end_threads :: "(nat \<Rightarrow> 'a life_t_scheme \<Rightarrow> (bool \<times> 'a life_t_scheme) option) \<Rightarrow> u32 \<Rightarrow> nat list \<Rightarrow> nat \<Rightarrow> 'a life_t_scheme
    \<Rightarrow> (nat \<times> 'a life_t_scheme) option" where
  "end_threads end_one process [] remaining s = Some (remaining, s)"
| "end_threads end_one process (i # is) remaining s =
     (case pr_threads s process ! i of
        None \<Rightarrow> end_threads end_one process is remaining s
      | Some thread \<Rightarrow> do {
          (ended, s1) \<leftarrow> end_one thread s;
          if ended then end_threads end_one process is remaining (upd_task thread (\<lambda>x. x\<lparr>ts_process := 0\<rparr>) s1)
          else end_threads end_one process is (remaining + 1)
                 (s1\<lparr>pr_threads := (pr_threads s1)(process := (pr_threads s1 process)[i := None, remaining := Some thread])\<rparr>) })"

definition free_heap :: "u32 \<Rightarrow> 'a kern_t_scheme \<Rightarrow> 'a kern_t_scheme" where
  "free_heap process s =
     (let p = processes s process
      in if pr_heap_end p > pr_heap_start p
         then fold (\<lambda>addr t. free (page_getphysical (pr_page_dir p) addr t) 4096 t) (page_range (pr_heap_start p) (pr_heap_end p)) s
         else s)"

text \<open>Leaving the page directory of a process that ends.\<close>

definition leave_pagedir :: "u32 \<Rightarrow> registers_t option \<Rightarrow> 'a kern_t_scheme \<Rightarrow> (registers_t option \<times> 'a kern_t_scheme) option" where
  "leave_pagedir dir regs s =
     (if dir \<noteq> current_page_dir s then Some (regs, s)
      else case regs of
             None \<Rightarrow> Some (None, swap_pagedir (kernel_page_dir s) s)
           | Some r \<Rightarrow> map_option (\<lambda>(r1, esp, s1). (Some r1, s1)) (switch_task r False s))"

definition end_process ::
    "'a life_t_scheme gui_t \<Rightarrow> nat \<Rightarrow> u32 \<Rightarrow> registers_t option \<Rightarrow> 'a life_t_scheme \<Rightarrow> (registers_t option \<times> 'a life_t_scheme) option" where
  "end_process gui t process regs s =
     (let p = processes s process;
          s1 = (if pr_prog_size p \<noteq> 0 then free (pr_prog_start p) (sint (pr_prog_size p)) s else s);
          s2 = process_release_kobjs process (free_heap process (gui_reset_windows gui t s1))
      in do {
        s3 \<leftarrow> msg_cleanup_process gui process s2;
        let dir = pr_page_dir (processes s3 process);
        (regs1, s4) \<leftarrow> leave_pagedir dir regs s3;
        let s5 = (if dir \<noteq> kernel_page_dir s4 then free_page_dir dir s4 else task_unmap_stack t s4);
        s6 \<leftarrow> free_launch_args (pr_launch_args s5 process) (pr_launch_argc s5 process) s5;
        s7 \<leftarrow> process_free_vm process s6;
        Some (regs1, free process process_size s7) })"

definition end_thread :: "nat \<Rightarrow> 'a life_t_scheme \<Rightarrow> 'a life_t_scheme" where
  "end_thread t s =
     (let s1 = task_unmap_stack t s; process = ts_process (tasks s1 t); ths = pr_threads s1 process
      in case find (\<lambda>i. ths ! i = Some t) [0..<MAX_TASK_THREADS] of
           None \<Rightarrow> s1
         | Some i \<Rightarrow> s1\<lparr>pr_threads := (pr_threads s1)(process := ths[i := None]),
                        pr_no_threads := (pr_no_threads s1)(process := pr_no_threads s1 process - 1)\<rparr>)"

text \<open>What a task that ends gives up itself, before its process.\<close>

definition end_task_own ::
    "'a life_t_scheme gui_t \<Rightarrow> 'a life_t_scheme win_t \<Rightarrow> nat \<Rightarrow> 'a life_t_scheme \<Rightarrow> 'a life_t_scheme option" where
  "end_task_own gui win t s =
     (let s1 = (if pr_window s (ts_process (tasks s t)) \<ge> 0 then win_write win t s else s);
          x = tasks s1 t;
          s2 = (if ts_routine x = E_CHECKCMD then cleanup_checkcmd_args (ts_process x) (ts_checkcmd_buffer x) s1 else s1);
          s3 = (if ts_routine x \<noteq> E_NONE then upd_task t (\<lambda>y. y\<lparr>ts_checkcmd_buffer := 0\<rparr>) s2 else s2)
      in do {
        s4 \<leftarrow> msg_cleanup_task gui t (upd_task t (\<lambda>y. y\<lparr>ts_enabled := False\<rparr>) s3);
        s5 \<leftarrow> ksync_cleanup_task t s4;
        free_event_queue t s5 })"

text \<open>
  \<open>end_task_helper\<close>. A call for the first thread of a process calls itself for the others; each such call disables a task before it calls
  on, so \<open>depth\<close>, the bound on the nesting, is enough when it is greater than the number of tasks.
\<close>

fun end_task_helper ::
    "nat \<Rightarrow> 'a life_t_scheme gui_t \<Rightarrow> 'a life_t_scheme win_t \<Rightarrow> int \<Rightarrow> registers_t option \<Rightarrow> bool \<Rightarrow> 'a life_t_scheme
      \<Rightarrow> (bool \<times> registers_t option \<times> 'a life_t_scheme) option" where
  "end_task_helper 0 gui win index regs child s = None"
| "end_task_helper (Suc depth) gui win index regs child s =
     (let t = nat index; x = tasks s t
      in if index < 0 \<or> index \<ge> TOTAL_TASKS \<or> index = 0 then Some (False, regs, s)
         else if \<not> ts_enabled x then Some (True, regs, s)
         else if regs = None \<and> \<not> child \<and> current_task s = index then None
         else if ts_kernel_esp x \<noteq> 0
         then Some (False, regs, if is_kthread t s then s else upd_task t (\<lambda>y. y\<lparr>ts_kill_pending := True\<rparr>) s)
         else do {
           s1 \<leftarrow> end_task_own gui win t s;
           let process = ts_process (tasks s1 t);
           (regs1, s2) \<leftarrow>
             (if pr_threads s1 process ! 0 = Some t
              then do {
                (remaining, s3) \<leftarrow> end_threads
                   (\<lambda>thread s'. map_option (\<lambda>(ok, r, s''). (ok, s'')) (end_task_helper depth gui win (int thread) None True s'))
                   process [1..<MAX_TASK_THREADS] 0 s1;
                (regs2, s4) \<leftarrow> (if remaining = 0 then end_process gui t process regs s3 else Some (regs, s3));
                Some (regs2, upd_task t (\<lambda>y. y\<lparr>ts_process := 0\<rparr>) s4) }
              else Some (regs, end_thread t s1));
           let s5 = upd_task t (\<lambda>y. y\<lparr>ts_reserved := False, ts_routine := E_NONE\<rparr>) s2;
           (regs3, s6) \<leftarrow>
             (case regs1 of
                Some r \<Rightarrow> if \<not> ts_enabled (tasks s5 (nat (current_task s5)))
                          then map_option (\<lambda>(r1, esp, s'). (Some r1, s')) (switch_task r False s5) else Some (regs1, s5)
              | None \<Rightarrow> Some (None, s5));
           Some (True, regs3, s6\<lparr>task_event_counter := task_event_counter s6 + 1\<rparr>) })"

definition end_task ::
    "'a life_t_scheme gui_t \<Rightarrow> 'a life_t_scheme win_t \<Rightarrow> int \<Rightarrow> registers_t option \<Rightarrow> 'a life_t_scheme
      \<Rightarrow> (bool \<times> registers_t option \<times> 'a life_t_scheme) option" where
  "end_task gui win index regs s = end_task_helper 17 gui win index regs False s"

section \<open>Tasks parked in the kernel\<close>

text \<open>
  How a switch inside the kernel goes on: in the caller, in user mode with a frame of registers, or on the kernel stack of a parked task.
  \<open>esp\<close> is the stack pointer of the caller, \<open>saved\<close> the one that is stored for its resumption.
\<close>

datatype yield_t = Stays | To_user registers_t | To_kernel u32

definition can_park :: "u32 \<Rightarrow> 'a kern_t_scheme \<Rightarrow> bool" where
  "can_park esp s \<longleftrightarrow> switching s \<and> current_task s \<ge> 0 \<and> ts_in_syscall (tasks s (nat (current_task s)))
     \<and> (let top = ts_kernel_stack_top (tasks s (nat (current_task s))) in esp > top - KSTACK_SIZE \<and> esp \<le> top)"

definition put_frame :: "u32 \<Rightarrow> registers_t \<Rightarrow> mem_t \<Rightarrow> mem_t" where
  "put_frame p r m =
     fold (\<lambda>(i, w). put_u32 (p + 4 * of_nat i) w)
       (enumerate 0 [r_ds r, r_edi r, r_esi r, r_ebp r, r_esp r, r_ebx r, r_edx r, r_ecx r, r_eax r, r_err_code r, r_eip r, r_cs r,
          r_eflags r, r_useresp r, r_ss r]) m"

definition kernel_yield_to :: "'a msg_t_scheme gui_t \<Rightarrow> u32 \<Rightarrow> u32 \<Rightarrow> int \<Rightarrow> 'a msg_t_scheme \<Rightarrow> (yield_t \<times> 'a msg_t_scheme) option" where
  "kernel_yield_to gui esp saved next_index s =
     (let c = nat (current_task s); n = nat next_index
      in if \<not> can_park esp s \<or> next_index < 0 \<or> next_index \<ge> TOTAL_TASKS \<or> next_index = current_task s \<or> \<not> task_resumable (tasks s n) True
         then Some (Stays, s)
         else let s1 = load_pagedir (s\<lparr>current_task := next_index, tss_esp0 := ts_kernel_stack_top (tasks s n)\<rparr>)
              in if ts_kernel_esp (tasks s1 n) = 0
                 then do {
                   (run, regs, s2) \<leftarrow> task_execute_queued_subroutine gui (ts_registers (tasks s1 n)) n s1;
                   let s3 = upd_task n (\<lambda>x. x\<lparr>ts_registers := regs\<rparr>) s2;
                   if ts_crashed (tasks s3 n)
                   then Some (Stays, load_pagedir (s3\<lparr>current_task := int c, tss_esp0 := ts_kernel_stack_top (tasks s3 c)\<rparr>))
                   else Some (To_user regs, upd_task c (\<lambda>x. x\<lparr>ts_kernel_esp := saved\<rparr>)
                          (s3\<lparr>phys_mem := put_frame (ts_kernel_stack_top (tasks s3 n) - 60) regs (phys_mem s3)\<rparr>)) }
                 else Some (To_kernel (ts_kernel_esp (tasks s1 n)),
                        upd_task c (\<lambda>x. x\<lparr>ts_kernel_esp := saved\<rparr>) (upd_task n (\<lambda>x. x\<lparr>ts_kernel_esp := 0\<rparr>) s1)))"

partial_function (option) kernel_yield_loop :: "'a msg_t_scheme gui_t \<Rightarrow> u32 \<Rightarrow> u32 \<Rightarrow> int \<Rightarrow> 'a msg_t_scheme \<Rightarrow> (yield_t \<times> 'a msg_t_scheme) option" where
  "kernel_yield_loop gui esp saved n s =
     (if n < 0 then Some (Stays, s)
      else do {
        (y, s1) \<leftarrow> kernel_yield_to gui esp saved n s;
        if y \<noteq> Stays then Some (y, s1)
        else do { n2 \<leftarrow> next_task True s1; if n = n2 then Some (Stays, s1) else kernel_yield_loop gui esp saved n2 s1 } })"

declare kernel_yield_loop.simps [code]

definition kernel_yield :: "'a msg_t_scheme gui_t \<Rightarrow> u32 \<Rightarrow> u32 \<Rightarrow> 'a msg_t_scheme \<Rightarrow> (yield_t \<times> 'a msg_t_scheme) option" where
  "kernel_yield gui esp saved s = do { n \<leftarrow> next_task True s; kernel_yield_loop gui esp saved n s }"

definition kernel_block :: "'a msg_t_scheme gui_t \<Rightarrow> u32 \<Rightarrow> u32 \<Rightarrow> 'a msg_t_scheme \<Rightarrow> (yield_t \<times> 'a msg_t_scheme) option" where
  "kernel_block gui esp saved s = do { (y, s1) \<leftarrow> kernel_yield gui esp saved s; if y = Stays then None else Some (y, s1) }"

text \<open>\<open>irr\<close>: the interrupt controller has a timer interrupt pending.\<close>

definition kernel_yield_if_blocking :: "'a msg_t_scheme gui_t \<Rightarrow> bool \<Rightarrow> u32 \<Rightarrow> u32 \<Rightarrow> 'a msg_t_scheme \<Rightarrow> (yield_t \<times> 'a msg_t_scheme) option" where
  "kernel_yield_if_blocking gui irr esp saved s =
     (if \<not> can_park esp s \<or> \<not> irr then Some (Stays, s) else kernel_yield gui esp saved s)"

definition kernel_exit_resume :: "registers_t \<Rightarrow> nat \<Rightarrow> 'a kern_t_scheme \<Rightarrow> yield_t \<times> 'a kern_t_scheme" where
  "kernel_exit_resume regs t s =
     (if r_cs regs AND 3 = 0 \<or> current_task s < 0 \<or> \<not> ts_enabled (tasks s t) \<or> ts_paused (tasks s t) \<or> ts_kernel_esp (tasks s t) = 0
      then (Stays, s)
      else let s1 = upd_task (nat (current_task s)) (\<lambda>x. x\<lparr>ts_registers := regs\<rparr>) s;
               s2 = load_pagedir (s1\<lparr>current_task := int t\<rparr>);
               s3 = s2\<lparr>tss_esp0 := ts_kernel_stack_top (tasks s2 t)\<rparr>
           in (To_kernel (ts_kernel_esp (tasks s3 t)), upd_task t (\<lambda>x. x\<lparr>ts_kernel_esp := 0\<rparr>) s3))"

text \<open>\<open>exit\<close> is the address of \<open>kthread_exit\<close>, to which the function of a kernel thread returns.\<close>

definition launch_kthread ::
    "'a life_t_scheme gui_t \<Rightarrow> u32 \<Rightarrow> u32 \<Rightarrow> u32 \<Rightarrow> u32 \<Rightarrow> u8 list \<Rightarrow> bool \<Rightarrow> 'a life_t_scheme \<Rightarrow> (bool \<times> yield_t \<times> 'a life_t_scheme) option" where
  "launch_kthread gui esp saved exit func name run s =
     (let (index, s1) = get_free_task_index s; t = nat index
      in if index = - 1 then Some (False, Stays, s1)
         else do {
           (thread_no, s2) \<leftarrow> create_task_entry t 0 0 True 0 s1;
           if thread_no < 0 then Some (False, Stays, task_unreserve index s2)
           else let top = ts_kernel_stack_top (tasks s2 t);
                    s3 = upd_task t (\<lambda>x. x\<lparr>ts_in_syscall := True\<rparr>) s2;
                    s4 = s3\<lparr>pr_exe_path := (pr_exe_path s3)(ts_process (tasks s3 t) := name),
                           phys_mem := put_u32 (top - 4) exit (put_u32 (top - 8) func (memset (top - 24) 0 16 (phys_mem s3)))\<rparr>;
                    s5 = upd_task t (\<lambda>x. x\<lparr>ts_kernel_esp := top - 24, ts_enabled := True\<rparr>) s4
                in if run then map_option (\<lambda>(y, s6). (True, y, s6)) (kernel_yield_to gui esp saved index s5) else Some (True, Stays, s5) })"

definition end_kthread :: "'a msg_t_scheme gui_t \<Rightarrow> u32 \<Rightarrow> u32 \<Rightarrow> nat \<Rightarrow> 'a msg_t_scheme \<Rightarrow> (yield_t \<times> 'a msg_t_scheme) option" where
  "end_kthread gui esp saved t s =
     (if \<not> ts_in_syscall (tasks s t) then Some (Stays, s)
      else let s1 = upd_task t (\<lambda>x. x\<lparr>ts_enabled := False, ts_reserved := False\<rparr>) s;
               process = ts_process (tasks s1 t);
               s2 = (if process \<noteq> 0 then upd_task t (\<lambda>x. x\<lparr>ts_process := 0\<rparr>) (free process process_size s1) else s1)
           in if int t = current_task s2 then kernel_block gui esp saved s2 else Some (Stays, s2))"

end
