(* ===== verification/Taskend.thy ===== *)
theory Taskend
  imports Tasklife Msgflow
begin

text \<open>
  The end of tasks: what closing channels and ports leaves alone (the locale \<open>msg_closing\<close>), and that \<open>end_task\<close> ends exactly the task and,
  with the first thread of a process, the other threads of that process.
\<close>

section \<open>Closing\<close>

text \<open>A relation that is kept by any change of channels, ports and the lists of them is kept when a task or a process gives them up.\<close>

locale msg_closing = msg_frame R for R :: "'a msg_t_scheme \<Rightarrow> 'a msg_t_scheme \<Rightarrow> bool" +
  assumes channel: "R s (upd_channel c f s)"
    and port: "R s (upd_port p g s)"
    and channels: "R s (s\<lparr> ts_msg_channels := x \<rparr>)"
    and own_ports: "R s (s\<lparr> pr_ports := y \<rparr>)"
    and all_ports: "R s (s\<lparr> ports := z \<rparr>)"
begin

lemma resume: "R s (task_resume t s)"
  by (rule kernel [OF calm_resume])

lemma set_result: "R s (set_ebx_u t v s)"
  unfolding set_ebx_u_def by (rule kernel, rule calm_upd_task) (auto simp: Calm.waits_def)

lemma release: "R s (free a n s)"
  by (rule kernel) simp

lemma forget: "R s (task_forget_channel t c s)" "R s (process_forget_port p q s)"
  unfolding task_forget_channel_def process_forget_port_def by (rule channels, rule own_ports)

lemma free_channel: "R s (msg_free_channel p i s)"
  unfolding msg_free_channel_def Let_def
  by (auto intro!: refl trans [OF trans [OF _ port] release] forget split: option.split)

lemma notify: "gui_keeps R gui \<Longrightarrow> call_msg_func gui regs t p c f s = Some (st, r, s') \<Longrightarrow> R s (notified t ch b st s')"
  by (rule trans [OF call_func notified])

text \<open>A peer that is still there is woken, then told; \<open>f\<close> is what wakes it.\<close>

lemma tell:
  assumes g: "gui_keeps R gui" and f: "\<And>t u. R u (f t u)"
    and c: "(case x of Some t \<Rightarrow> if b then do { (st, r, s3) \<leftarrow> call_msg_func gui regs t pu cu (fl (f t s)) (f t s); Some (r, notified t ch sv st s3) } else Some (regs, s)
      | None \<Rightarrow> Some (regs, s)) = Some (r, s')"
  shows "R s s'"
proof (cases "s' = s")
  case False
  then obtain t st s3 where "call_msg_func gui regs t pu cu (fl (f t s)) (f t s) = Some (st, r, s3)" "s' = notified t ch sv st s3"
    using c by (auto simp: bind_eq_Some_conv split: option.splits if_splits)
  then show ?thesis using trans [OF f notify [OF g]] by blast
qed (simp add: refl)

lemma close_server:
  assumes g: "gui_keeps R gui" and c: "close_server gui regs pu cu ch s = Some (r, s')"
  shows "R s s'"
proof -
  define s0 where "s0 = upd_channel ch (\<lambda>y. y\<lparr> ch_client_flags := ch_client_flags y OR MSG_FLAG_CLOSED \<rparr>) s"
  let ?c = "msg_channels s0 ch"
  define f where "f t u = (let s1 = (if ch_client_blocked ?c then upd_channel ch (\<lambda>y. y\<lparr> ch_client_blocked := False \<rparr>) (task_resume t u) else u)
    in if ts_paused (tasks s1 t) \<and> ts_pause_reason (tasks s1 t) = PAUSE_MSG_CALL \<and> (channel_has_waiting_send ?c \<or> ch_call_uid ?c \<noteq> 0)
       then task_resume t (set_ebx_u t (err_word MSG_ERR_PEER_DISCONNECTED) s1) else s1)" for t and u :: "'a msg_t_scheme"
  have 1: "R u (if b then upd_channel ch h (task_resume t u) else u)" for b h t u using trans [OF resume channel] refl by simp
  have 2: "R u (if b then task_resume t (set_ebx_u t v u) else u)" for b t v u using trans [OF set_result resume] refl by simp
  have f: "R u (f t u)" for t u unfolding f_def Let_def by (rule trans [OF 1 2])
  obtain s4 where s4: "(case msg_get_task (ch_client_taskid ?c) (ch_client_taskuid ?c) s0 of
      Some t \<Rightarrow> if ch_client_connected ?c then do { (st, r, s3) \<leftarrow> call_msg_func gui regs t pu cu (ch_client_flags (msg_channels (f t s0) ch)) (f t s0);
        Some (r, notified t ch False st s3) } else Some (regs, s0)
      | None \<Rightarrow> Some (regs, s0)) = Some (r, s4)" and s': "R s4 s'"
    using c channel unfolding close_server_def Let_def s0_def [symmetric] f_def by (auto simp: bind_eq_Some_conv)
  have "R s0 s4" by (rule tell [OF g f s4])
  then show ?thesis using trans [OF trans [OF channel]] s' unfolding s0_def by blast
qed

lemma close_client:
  assumes g: "gui_keeps R gui" and c: "close_client gui regs pu cu ch s = Some (r, s')"
  shows "R s s'"
proof -
  define s0 where "s0 = upd_channel ch (\<lambda>y. y\<lparr> ch_server_flags := ch_server_flags y OR MSG_FLAG_CLOSED \<rparr>) s"
  let ?c = "msg_channels s0 ch"
  define f where "f t u = (if ch_server_blocked ?c then upd_channel ch (\<lambda>y. y\<lparr> ch_server_blocked := False \<rparr>) (task_resume t u) else u)" for t and u :: "'a msg_t_scheme"
  have f: "R u (f t u)" for t u unfolding f_def using trans [OF resume channel] refl by simp
  obtain s4 where s4: "(case msg_get_task (ch_server_taskid ?c) (ch_server_taskuid ?c) s0 of
      Some t \<Rightarrow> if ch_server_connected ?c then do { (st, r, s3) \<leftarrow> call_msg_func gui regs t pu cu (ch_server_flags (msg_channels (f t s0) ch)) (f t s0);
        Some (r, notified t ch True st s3) } else Some (regs, s0)
      | None \<Rightarrow> Some (regs, s0)) = Some (r, s4)" and s': "R s4 s'"
    using c channel unfolding close_client_def Let_def s0_def [symmetric] f_def by (auto simp: bind_eq_Some_conv)
  have "R s0 s4" by (rule tell [OF g f s4])
  then show ?thesis using trans [OF trans [OF channel]] s' unfolding s0_def by blast
qed

lemma close_connection:
  assumes g: "gui_keeps R gui" and c: "port_close_connection gui regs t pu cu s = Some (ok, r, s')"
  shows "R s s'"
proof (cases "lookup_channel pu cu s")
  case (Some x)
  obtain p i ch where x: "x = (p, i, ch)" by (cases x)
  show ?thesis
  proof (cases "s' = s")
    case False
    then obtain s1 where "close_server gui regs pu cu ch s = Some (r, s1) \<or> close_client gui regs pu cu ch s = Some (r, s1)"
      "s' = s1 \<or> s' = msg_free_channel p i s1"
      using c Some x unfolding port_close_connection_def Let_def by (auto simp: bind_eq_Some_conv split: if_splits)
    then show ?thesis using close_server [OF g] close_client [OF g] trans [OF _ free_channel] by blast
  qed (simp add: refl)
qed (use c in \<open>simp add: port_close_connection_def refl\<close>)

lemma close_all: "gui_keeps R gui \<Longrightarrow> close_channels gui p is regs s = Some (r, s') \<Longrightarrow> R s s'"
proof (induction gui p "is" regs s rule: close_channels.induct)
  case (2 gui p i "is" regs s)
  let ?ch = "po_channels (msg_ports s p) ! i"
  show ?case
  proof (cases "?ch = 0")
    case True
    then show ?thesis using 2 by (simp add: Let_def)
  next
    case False
    then obtain ok r1 s1 where 1: "port_close_connection gui regs None (po_uid (msg_ports s p)) (ch_uid (msg_channels s ?ch)) s = Some (ok, r1, s1)"
      and rest: "close_channels gui p is r1 (if po_channels (msg_ports s1 p) ! i = 0 then s1 else msg_free_channel p i s1) = Some (r, s')"
      using "2.prems"(2) by (auto simp: Let_def bind_eq_Some_conv)
    have "R s1 (if po_channels (msg_ports s1 p) ! i = 0 then s1 else msg_free_channel p i s1)" using refl free_channel by simp
    note trans [OF close_connection [OF "2.prems"(1) 1] this]
    then show ?thesis using trans "2.IH"(2) [OF HOL.refl False 1 HOL.refl HOL.refl "2.prems"(1) rest] by blast
  qed
qed (simp add: refl)

lemma woken: "R s (wake_waiter p i s)"
proof -
  have 1: "R u (task_resume t (set_ebx_u t v u))" for t v u by (rule trans [OF set_result resume])
  show ?thesis unfolding wake_waiter_def Let_def by (auto intro: refl port trans [OF port 1] split: option.split)
qed

lemma destroy: "gui_keeps R gui \<Longrightarrow> destroy_port gui regs p s = Some (r, s') \<Longrightarrow> R s s'"
  using fold_keeps [of "wake_waiter p", OF woken] trans [OF trans [OF trans [OF close_all] all_ports] release]
  by (auto simp: destroy_port_def Let_def bind_eq_Some_conv)

lemma destroy_all: "gui_keeps R gui \<Longrightarrow> destroy_ports gui ps s = Some s' \<Longrightarrow> R s s'"
proof (induction ps arbitrary: s)
  case (Cons p ps)
  then show ?case using destroy trans by (fastforce simp: bind_eq_Some_conv)
qed (simp add: refl)

lemma cleanup_process: "gui_keeps R gui \<Longrightarrow> msg_cleanup_process gui p s = Some s' \<Longrightarrow> R s s'"
  using destroy_all trans [OF _ own_ports] by (auto simp: msg_cleanup_process_def bind_eq_Some_conv)

lemma first: "gui_keeps R gui \<Longrightarrow> close_first gui t s = Some s' \<Longrightarrow> R s s'"
  using close_connection trans [OF _ forget(1)] refl
  by (auto simp: close_first_def Let_def bind_eq_Some_conv split: if_splits)

lemma own_channels:
  assumes "close_own_channels gui t s = Some s'"
  shows "gui_keeps R gui \<longrightarrow> R s s'"
proof (rule close_own_channels.raw_induct [where P = "\<lambda>gui t s s'. gui_keeps R gui \<longrightarrow> R s s'", OF _ assms])
  fix loop gui t s s'
  assume IH: "\<And>gui t s s'. loop gui t s = Some s' \<Longrightarrow> gui_keeps R gui \<longrightarrow> R s s'"
    and body: "(if ts_msg_channels s t = [] then Some s else do { s1 \<leftarrow> close_first gui t s; loop gui t s1 }) = Some s'"
  show "gui_keeps R gui \<longrightarrow> R s s'"
    using body IH trans first refl by (auto simp: bind_eq_Some_conv split: if_splits) blast
qed

lemma own_port_list: "gui_keeps R gui \<Longrightarrow> close_own_ports gui t is s = Some s' \<Longrightarrow> R s s'"
proof (induction "is" arbitrary: s)
  case (Cons i "is")
  then show ?case using trans [OF trans [OF forget(2) destroy]] by (auto simp: Let_def bind_eq_Some_conv split: if_splits)
qed (simp add: refl)

lemma cleanup_task:
  assumes g: "gui_keeps R gui" and c: "msg_cleanup_task gui t s = Some s'"
  shows "R s s'"
proof -
  obtain s1 s2 "is" where 1: "close_own_channels gui t s = Some s1" "close_own_ports gui t is s2 = Some s'"
    "s2 = fold (msg_remove_waiter t) (filter (\<lambda>p. p \<noteq> 0) (pr_ports s1 (ts_process (tasks s1 t)))) s1"
    using c by (auto simp: msg_cleanup_task_def Let_def bind_eq_Some_conv)
  have "R s1 s2" unfolding 1(3) by (rule fold_keeps) (simp add: msg_remove_waiter_def port)
  then show ?thesis using own_channels [OF 1(1)] own_port_list [OF g 1(2)] g trans by blast
qed

end

text \<open>The tasks keep their identity, their process and whether they are enabled, and the records of their processes and stacks stay.\<close>

definition still :: "'a msg_t_scheme \<Rightarrow> 'a msg_t_scheme \<Rightarrow> bool" where
  "still s s' \<longleftrightarrow> msg_t.more s' = msg_t.more s
     \<and> (\<forall>t. ts_task_uid (tasks s' t) = ts_task_uid (tasks s t) \<and> ts_enabled (tasks s' t) = ts_enabled (tasks s t)
            \<and> ts_process (tasks s' t) = ts_process (tasks s t))"

interpretation quiet: msg_closing still
proof
  show "calm s s' \<Longrightarrow> still s s'" for s s' :: "'a msg_t_scheme"
    using same_more [of s' s] by (auto simp: calm_def still_def same_msg_def)
qed (auto simp: still_def upd_channel_def upd_port_def)

section \<open>What a task gives up\<close>

lemma calm_unmap: "calm s (snd (unmap d v s))" for s :: "'a kern_t_scheme"
  by (rule calm_tasks) (auto simp: unmap_def Let_def set_pte_def invlpg_def)

lemma calm_map: "calm s (snd (map_page d pa va user rw nc s))" for s :: "'a kern_t_scheme"
  by (rule calm_tasks) simp_all

lemma calm_swap: "calm s (swap_pagedir d s)" for s :: "'a kern_t_scheme"
  by (rule calm_tasks) (simp_all add: swap_pagedir_def)

lemma calm_free_dir: "calm s (free_page_dir d s)" for s :: "'a kern_t_scheme"
  unfolding free_page_dir_def by (rule calm_trans [OF calm_fold calm_heap(2)]) simp

lemma calm_unmap_stack: "calm s (task_unmap_stack t s)"
proof -
  have "calm s (unmap_pages d v is s)" for d v "is" unfolding unmap_pages_def by (rule calm_fold) (rule calm_unmap)
  then show ?thesis unfolding task_unmap_stack_def Let_def using calm_trans [OF _ calm_map] by blast
qed

lemma calm_checkcmd: "calm s (cleanup_checkcmd_args p b s)" for s :: "'a kern_t_scheme"
  unfolding cleanup_checkcmd_args_def unshare_heap_page_def Let_def
  by (rule calm_trans [OF _ calm_heap(2)]) (simp add: calm_map)

lemma calm_mutex: "calm s (upd_mutex m f s)" for s :: "'a kern_t_scheme"
  by (rule calm_tasks) (simp_all add: upd_mutex_def)

lemma calm_links:
  fixes s :: "'a kern_t_scheme"
  shows "calm s (upd_task t (\<lambda>x. x\<lparr>ts_owned_mutexes := a\<rparr>) s)" "calm s (upd_task t (\<lambda>x. x\<lparr>ts_mutex_next_waiter := b\<rparr>) s)"
    "calm s (upd_task t (\<lambda>x. x\<lparr>ts_mutex := None, ts_mutex_next_waiter := None\<rparr>) s)"
  by (rule calm_upd_task; simp add: Calm.waits_def)+

lemma calm_mutex_wake: "calm s (snd (kmutex_wake m w s))" for s :: "'a kern_t_scheme"
proof -
  have claim: "calm s (kmutex_claim m t s)" for t and s :: "'a kern_t_scheme"
    unfolding kmutex_claim_def Let_def by (rule calm_trans [OF calm_mutex calm_links(1)])
  have tail: "calm s (if b then upd_mutex m f s else s)" for b f and s :: "'a kern_t_scheme" by (simp add: calm_mutex)
  note k = calm_trans [OF calm_trans [OF calm_trans [OF calm_trans [OF calm_mutex tail] calm_links(3)] calm_resume] claim]
  show ?thesis
  proof (cases "mx_waiters (kmutexes s m)")
    case (Some t)
    show ?thesis unfolding kmutex_wake_def Some option.case Let_def snd_conv by (rule k)
  qed (simp add: kmutex_wake_def)
qed

lemma calm_mutex_release: "kmutex_release t m w s = Some r \<Longrightarrow> calm s (snd r)" for s :: "'a kern_t_scheme"
  unfolding kmutex_release_def Let_def
  by (auto split: option.splits if_splits prod.splits intro!: calm_trans [OF _ calm_mutex_wake] calm_trans [OF _ calm_mutex] calm_mutex calm_links(1))

lemma calm_leave_queue: "ksync_leave_queue t s = Some s' \<Longrightarrow> calm s s'" for s :: "'a kern_t_scheme"
  unfolding ksync_leave_queue_def Let_def
  by (auto split: option.splits if_splits prod.splits intro!: calm_trans [OF _ calm_links(3)] calm_trans [OF _ calm_mutex] calm_mutex calm_links)

lemma calm_release_all:
  fixes s :: "'a kern_t_scheme"
  assumes "ksync_release_all t s = Some s'"
  shows "calm s s'"
  by (rule ksync_release_all.raw_induct [where P = "\<lambda>t. calm", OF _ assms])
    (auto split: option.splits dest!: calm_mutex_release intro: calm_trans)

lemma calm_ksync: "ksync_cleanup_task t s = Some s' \<Longrightarrow> calm s s'" for s :: "'a kern_t_scheme"
  unfolding ksync_cleanup_task_def by (auto split: option.splits intro: calm_trans calm_leave_queue calm_release_all)

lemma calm_event_queue:
  fixes s :: "'a kern_t_scheme"
  assumes "free_event_queue t s = Some s'"
  shows "calm s s'"
proof (rule free_event_queue.raw_induct [where P = "\<lambda>t. calm", OF _ assms])
  fix loop t and s s' :: "'a kern_t_scheme"
  assume IH: "\<And>t s s'. loop t s = Some s' \<Longrightarrow> calm s s'"
    and body: "(case kqueue_peek (ts_event_queue (tasks s t)) of None \<Rightarrow> Some s
      | Some i \<Rightarrow> let e = q_buffer (ts_event_queue (tasks s t)) ! i;
              s1 = (if ev_type e = E_CHECKCMD then cleanup_checkcmd_args (ts_process (tasks s t)) (ev_args e ! 0) s else s)
          in loop t (upd_task t (\<lambda>x. x\<lparr>ts_event_queue := kqueue_drop (ts_event_queue x)\<rparr>) s1)) = Some s'"
  have 1: "calm s (if b then cleanup_checkcmd_args p a s else s)" for b p a by (simp add: calm_checkcmd)
  show "calm s s'"
  proof (cases "kqueue_peek (ts_event_queue (tasks s t))")
    case (Some i)
    show ?thesis using body unfolding Some option.case Let_def by (intro calm_trans [OF calm_trans [OF 1 calm_events] IH])
  qed (use body in simp)
qed

lemma calm_release_kobjs: "calm s (process_release_kobjs p s)" for s :: "'a kern_t_scheme"
proof -
  have "calm s (release_slot p b i s)" for b i and s :: "'a kern_t_scheme"
    using calm_kobj_release [of s "pr_kobj (processes s p) i" p True]
    by (auto simp: release_slot_def Let_def split: prod.splits bool.splits intro: calm_trans [OF _ calm_upds(4)])
  then show ?thesis unfolding process_release_kobjs_def by (intro calm_trans [OF calm_fold calm_fold]) simp_all
qed

lemma calm_free_vm: "process_free_vm p s = Some s' \<Longrightarrow> calm s s'" for s :: "'a kern_t_scheme"
proof -
  have loop: "calm s s'" if "free_vm_loop r s = Some s'" for r and s s' :: "'a kern_t_scheme"
    by (rule free_vm_loop.raw_induct [where P = "\<lambda>r. calm", OF _ that])
      (auto simp: Let_def split: if_splits intro: calm_trans [OF calm_trans [OF calm_release_ref calm_heap(2)]])
  show "process_free_vm p s = Some s' \<Longrightarrow> calm s s'" unfolding process_free_vm_def by (auto dest: loop intro: calm_trans [OF _ calm_upds(4)])
qed

lemma calm_launch_args: "free_launch_args a n s = Some s' \<Longrightarrow> calm s s'" for s :: "'a kern_t_scheme"
proof -
  have "free_args a is s = Some s' \<Longrightarrow> calm s s'" for "is" s' and s :: "'a kern_t_scheme"
  proof (induction "is" arbitrary: s)
    case (Cons i "is")
    then show ?case by (auto simp: Let_def bind_eq_Some_conv split: if_splits intro: calm_trans [OF calm_heap(2)])
  qed simp
  then show "free_launch_args a n s = Some s' \<Longrightarrow> calm s s'"
    unfolding free_launch_args_def by (auto split: if_splits intro: calm_trans [OF _ calm_heap(2)])
qed

lemma calm_free_heap: "calm s (free_heap p s)" for s :: "'a kern_t_scheme"
  unfolding free_heap_def Let_def by (auto intro!: calm_fold)

lemma calm_leave_pagedir: "leave_pagedir d regs s = Some (r, s') \<Longrightarrow> calm s s'" for s :: "'a kern_t_scheme"
  unfolding leave_pagedir_def by (auto split: if_splits option.splits intro: calm_swap dest: calm_switch(1))

lemma end_process_still:
  assumes g: "gui_keeps still gui" and e: "end_process gui t p regs s = Some (r, s')"
  shows "still s s'"
proof -
  define s1 where "s1 = (if pr_prog_size (processes s p) \<noteq> 0 then free (pr_prog_start (processes s p)) (sint (pr_prog_size (processes s p))) s else s)"
  have 1: "still s s1" unfolding s1_def by (rule quiet.kernel) simp
  have 2: "still s1 (process_release_kobjs p (free_heap p (gui_reset_windows gui t s1)))" (is "still s1 ?s2")
    using g unfolding gui_keeps_def
    by (intro quiet.trans [OF _ quiet.kernel [OF calm_trans [OF calm_free_heap calm_release_kobjs]]]) blast
  obtain s3 s4 s5 s6 s7 where 3: "msg_cleanup_process gui p ?s2 = Some s3"
    and 4: "leave_pagedir (pr_page_dir (processes s3 p)) regs s3 = Some (r, s4)"
    and 5: "s5 = (if pr_page_dir (processes s3 p) \<noteq> kernel_page_dir s4 then free_page_dir (pr_page_dir (processes s3 p)) s4 else task_unmap_stack t s4)"
    and 6: "free_launch_args (pr_launch_args s5 p) (pr_launch_argc s5 p) s5 = Some s6" and 7: "process_free_vm p s6 = Some s7" "s' = free p process_size s7"
    using e unfolding end_process_def Let_def s1_def [symmetric] by (auto simp: bind_eq_Some_conv)
  have "calm s4 s5" unfolding 5 by (simp add: calm_free_dir calm_unmap_stack)
  then have "calm s3 s'" using calm_leave_pagedir [OF 4] calm_launch_args [OF 6] calm_free_vm [OF 7(1)] unfolding 7(2) by (meson calm_heap(2) calm_trans)
  then show ?thesis using quiet.trans [OF quiet.trans [OF 1 2]] quiet.cleanup_process [OF g 3] quiet.kernel quiet.trans by blast
qed

section \<open>One task\<close>

text \<open>Writing to the windows of a task keeps the tasks.\<close>

definition win_keeps :: "'a life_t_scheme win_t \<Rightarrow> bool" where
  "win_keeps win \<longleftrightarrow> (\<forall>t s. still s (win_write win t s))"

text \<open>What the end of a task does to the tasks: the tasks of \<open>E\<close> are disabled.\<close>

definition disabled :: "nat set \<Rightarrow> 'a msg_t_scheme \<Rightarrow> 'a msg_t_scheme \<Rightarrow> bool" where
  "disabled E s s' \<longleftrightarrow> (\<forall>u. ts_enabled (tasks s' u) = (ts_enabled (tasks s u) \<and> u \<notin> E))"

abbreviation proc :: "'a kern_t_scheme \<Rightarrow> nat \<Rightarrow> u32" where
  "proc s t \<equiv> ts_process (tasks s t)"

lemma still_disabled: "still s s' \<Longrightarrow> disabled {} s s'"
  by (simp add: still_def disabled_def)

lemma disabled_trans: "disabled E s s1 \<Longrightarrow> disabled F s1 s2 \<Longrightarrow> disabled (E \<union> F) s s2"
  by (auto simp: disabled_def)

lemma still_threads: "still s s' \<Longrightarrow> pr_threads s' = pr_threads s" for s s' :: "'a life_t_scheme"
  by (cases s; cases s') (simp add: still_def)

lemma end_task_own_still:
  assumes g: "gui_keeps still gui" "win_keeps win" and e: "end_task_own gui win t s = Some s'"
  shows "disabled {t} s s'" "proc s' u = proc s u" "pr_threads s' = pr_threads s"
proof -
  define s1 where "s1 = (if pr_window s (proc s t) \<ge> 0 then win_write win t s else s)"
  define s2 where "s2 = (if ts_routine (tasks s1 t) = E_CHECKCMD then cleanup_checkcmd_args (proc s1 t) (ts_checkcmd_buffer (tasks s1 t)) s1 else s1)"
  define s3 where "s3 = (if ts_routine (tasks s1 t) \<noteq> E_NONE then upd_task t (\<lambda>y. y\<lparr>ts_checkcmd_buffer := 0\<rparr>) s2 else s2)"
  let ?s = "upd_task t (\<lambda>y. y\<lparr>ts_enabled := False\<rparr>) s3"
  obtain s4 s5 where 4: "msg_cleanup_task gui t ?s = Some s4" "ksync_cleanup_task t s4 = Some s5" "free_event_queue t s5 = Some s'"
    using e unfolding end_task_own_def Let_def s1_def [symmetric] s2_def [symmetric] s3_def [symmetric] by (auto simp: bind_eq_Some_conv)
  have "calm s1 s2" unfolding s2_def by (simp add: calm_checkcmd)
  moreover have "calm s2 s3" unfolding s3_def by (auto intro: calm_upd_task simp: Calm.waits_def)
  moreover have "still s s1" using g(2) by (simp add: s1_def win_keeps_def quiet.refl)
  ultimately have a: "still s s3" by (meson quiet.kernel quiet.trans)
  have b: "still ?s s'"
    by (rule quiet.trans [OF quiet.cleanup_task [OF g(1) 4(1)] quiet.kernel [OF calm_trans [OF calm_ksync [OF 4(2)] calm_event_queue [OF 4(3)]]]])
  show "disabled {t} s s'" "proc s' u = proc s u" using a b by (auto simp: disabled_def still_def upd_task_def)
  show "pr_threads s' = pr_threads s" using still_threads [OF a] still_threads [OF b] by (simp add: upd_task_def)
qed

text \<open>The last part: the slot is free again, and a current task that has ended is left.\<close>

lemma end_task_tail:
  assumes "(case regs of Some r \<Rightarrow> if b then map_option (\<lambda>(r1, esp, s'). (Some r1, s')) (switch_task r False s) else Some (regs, s)
    | None \<Rightarrow> Some (None, s)) = Some (regs', s')"
  shows "still s s'"
  using assms by (auto split: option.splits if_splits intro: quiet.refl dest: quiet.kernel [OF calm_switch(1)])

text \<open>A thread leaves the list of the threads of its process.\<close>

definition leaves :: "nat \<Rightarrow> nat option list \<Rightarrow> nat option list \<Rightarrow> bool" where
  "leaves t xs ys \<longleftrightarrow> length ys = length xs \<and> (\<forall>i < length xs. ys ! i = xs ! i \<or> xs ! i = Some t \<and> ys ! i = None)"

lemma leaves_update: "xs ! i = Some t \<Longrightarrow> leaves t xs (xs[i := None])"
  unfolding leaves_def by (metis length_list_update nth_list_update_eq nth_list_update_neq)

lemma leaves_refl: "leaves t xs xs"
  by (simp add: leaves_def)

lemma leaves_nth: "leaves t xs ys \<Longrightarrow> i < length xs \<Longrightarrow> xs ! i \<noteq> Some t \<Longrightarrow> ys ! i = xs ! i"
  by (auto simp: leaves_def)

lemma end_thread_still:
  "disabled {} s (end_thread t s)" "proc (end_thread t s) u = proc s u" "leaves t (pr_threads s p) (pr_threads (end_thread t s) p)"
proof -
  have c: "still s (task_unmap_stack t s)" by (rule quiet.kernel [OF calm_unmap_stack])
  have th: "pr_threads (task_unmap_stack t s) = pr_threads s" by (rule still_threads [OF c])
  have tk: "tasks (end_thread t s) = tasks (task_unmap_stack t s)" by (simp add: end_thread_def Let_def split: option.split)
  show "disabled {} s (end_thread t s)" "proc (end_thread t s) u = proc s u" using c by (simp_all add: tk still_def disabled_def)
  show "leaves t (pr_threads s p) (pr_threads (end_thread t s) p)"
    by (auto simp: end_thread_def Let_def th find_Some_iff leaves_refl split: option.split intro: leaves_update)
qed

text \<open>
  The end of a thread that is not the first of its process. How deep \<open>end_task_helper\<close> may nest does not matter for it.
\<close>

lemma end_other_thread:
  assumes g: "gui_keeps still gui" "win_keeps win" and first: "pr_threads s (proc s t) ! 0 \<noteq> Some t" and t: "0 < t" "t < 16"
    and e: "end_task_helper (Suc d) gui win (int t) regs True s = Some (ok, regs', s')"
  shows "disabled (if ok then {t} else {}) s s'" "proc s' u = proc s u" "leaves t (pr_threads s p) (pr_threads s' p)"
    "\<not> ok \<Longrightarrow> ts_enabled (tasks s t)"
proof -
  consider "ok" "\<not> ts_enabled (tasks s t)" "s' = s"
    | "\<not> ok" "ts_enabled (tasks s t)" "s' = s \<or> s' = upd_task t (\<lambda>y. y\<lparr>ts_kill_pending := True\<rparr>) s"
    | (ends) s1 where "ok" "end_task_own gui win t s = Some s1" "ts_enabled (tasks s t)" "ts_kernel_esp (tasks s t) = 0"
    using e t by (auto simp: Let_def bind_eq_Some_conv split: if_splits)
  then have "disabled (if ok then {t} else {}) s s' \<and> proc s' u = proc s u \<and> leaves t (pr_threads s p) (pr_threads s' p) \<and> (\<not> ok \<longrightarrow> ts_enabled (tasks s t))"
  proof cases
    case ends
    note o = end_task_own_still [OF g ends(2)]
    let ?s2 = "end_thread t s1"
    let ?s5 = "upd_task t (\<lambda>y. y\<lparr>ts_reserved := False, ts_routine := E_NONE\<rparr>) ?s2"
    have nf: "pr_threads s1 (proc s1 t) ! 0 \<noteq> Some t" using first o by simp
    obtain s6 where s6: "still ?s5 s6" "s' = s6\<lparr>task_event_counter := task_event_counter s6 + 1\<rparr>"
      using e t ends nf by (auto simp: Let_def bind_eq_Some_conv split: if_splits dest!: end_task_tail)
    have "still ?s2 ?s5" by (rule quiet.kernel, rule calm_upd_task) (auto simp: Calm.waits_def)
    then have k: "still ?s2 s6" by (rule quiet.trans [OF _ s6(1)])
    have "pr_threads s' = pr_threads ?s2" using still_threads [OF k] s6(2) by simp
    then show ?thesis using o end_thread_still [where s = s1 and t = t] k s6(2) ends(1) by (auto simp: disabled_def still_def)
  qed (auto simp: leaves_refl disabled_def upd_task_def split: if_splits)
  then show "disabled (if ok then {t} else {}) s s'" "proc s' u = proc s u" "leaves t (pr_threads s p) (pr_threads s' p)"
    "\<not> ok \<Longrightarrow> ts_enabled (tasks s t)" by blast+
qed

lemma depth_other_thread:
  assumes g: "gui_keeps still gui" "win_keeps win" and first: "pr_threads s (proc s t) ! 0 \<noteq> Some t"
  shows "end_task_helper (Suc d) gui win (int t) regs True s = end_task_helper (Suc d') gui win (int t) regs True s"
proof (cases "end_task_own gui win t s")
  case (Some s1)
  then have "pr_threads s1 (proc s1 t) ! 0 \<noteq> Some t" using first end_task_own_still [OF g Some] by simp
  then show ?thesis using Some by (simp add: Let_def)
qed (simp add: Let_def)

section \<open>The threads of a process\<close>

text \<open>The threads of a process are different tasks of that process; the idle task is not one of them.\<close>

definition threads_ok :: "u32 \<Rightarrow> 'a life_t_scheme \<Rightarrow> bool" where
  "threads_ok p s \<longleftrightarrow> length (pr_threads s p) = MAX_TASK_THREADS
     \<and> (\<forall>i<4. \<forall>j<4. \<forall>u. pr_threads s p ! i = Some u \<and> pr_threads s p ! j = Some u \<longrightarrow> i = j)
     \<and> (\<forall>i<4. \<forall>u. pr_threads s p ! i = Some u \<longrightarrow> 0 < u \<and> u < 16 \<and> proc s u = p)"

text \<open>
  The state of the loop that ends them, before place \<open>n\<close>: \<open>ths\<close> is the list at its start, the rest of it is as it was, and the first place holds
  a thread that was already passed.
\<close>

definition loop_ok :: "nat option list \<Rightarrow> u32 \<Rightarrow> nat \<Rightarrow> 'a life_t_scheme \<Rightarrow> bool" where
  "loop_ok ths p n s \<longleftrightarrow> length ths = 4 \<and> length (pr_threads s p) = 4
     \<and> (\<forall>i<4. \<forall>j<4. \<forall>u. ths ! i = Some u \<and> ths ! j = Some u \<longrightarrow> i = j)
     \<and> (\<forall>j. n \<le> j \<and> j < 4 \<longrightarrow> pr_threads s p ! j = ths ! j)
     \<and> (\<forall>u. pr_threads s p ! 0 = Some u \<longrightarrow> (\<exists>k<n. ths ! k = Some u))
     \<and> (\<forall>j u. n \<le> j \<and> j < 4 \<and> ths ! j = Some u \<longrightarrow> 0 < u \<and> u < 16 \<and> proc s u = p)"

lemma threads_ok_cong: "(\<And>u. proc s' u = proc s u) \<Longrightarrow> pr_threads s' = pr_threads s \<Longrightarrow> threads_ok p s' = threads_ok p s"
  by (simp only: threads_ok_def)

lemma loop_okD:
  assumes "loop_ok ths p n s"
  shows "length ths = 4" "length (pr_threads s p) = 4" "i < 4 \<Longrightarrow> j < 4 \<Longrightarrow> ths ! i = Some u \<Longrightarrow> ths ! j = Some u \<Longrightarrow> i = j"
    "n \<le> j \<Longrightarrow> j < 4 \<Longrightarrow> pr_threads s p ! j = ths ! j" "pr_threads s p ! 0 = Some u \<Longrightarrow> \<exists>k<n. ths ! k = Some u"
    "n \<le> j \<Longrightarrow> j < 4 \<Longrightarrow> ths ! j = Some u \<Longrightarrow> 0 < u \<and> u < 16 \<and> proc s u = p"
  using assms unfolding loop_ok_def by blast+

lemma loop_start: "threads_ok p s \<Longrightarrow> loop_ok (pr_threads s p) p 1 s"
  by (auto simp: threads_ok_def loop_ok_def)

lemma loop_skip: "loop_ok ths p n s \<Longrightarrow> ths ! n = None \<Longrightarrow> loop_ok ths p (Suc n) s"
  unfolding loop_ok_def by (meson Suc_leD less_Suc_eq)

lemma loop_not_first:
  assumes "loop_ok ths p n s" "n < 4" "ths ! n = Some u"
  shows "pr_threads s (proc s u) ! 0 \<noteq> Some u" "0 < u" "u < 16" "proc s u = p" "pr_threads s p ! n = Some u"
proof -
  note D = loop_okD [OF assms(1)]
  show u: "0 < u" "u < 16" "proc s u = p" "pr_threads s p ! n = Some u"
    using D(4) [OF order_refl assms(2)] D(6) [OF order_refl assms(2,3)] assms(3) by simp_all
  show "pr_threads s (proc s u) ! 0 \<noteq> Some u"
  proof
    assume "pr_threads s (proc s u) ! 0 = Some u"
    then obtain k where "k < n" "ths ! k = Some u" using D(5) u(3) by blast
    then show False using D(3) [of k n u] assms(2,3) by simp
  qed
qed

text \<open>One turn of the loop.\<close>

lemma loop_step:
  assumes l: "loop_ok ths p n s" "1 \<le> n" "n < 4" "ths ! n = Some u" "r < n"
    and pr: "\<And>v. proc s1 v = proc s v" and lv: "leaves u (pr_threads s p) (pr_threads s1 p)"
  shows "loop_ok ths p (Suc n) (upd_task u (\<lambda>x. x\<lparr>ts_process := 0\<rparr>) s1)"
    and "loop_ok ths p (Suc n) (s1\<lparr>pr_threads := (pr_threads s1)(p := (pr_threads s1 p)[n := None, r := Some u])\<rparr>)"
proof -
  note D = loop_okD [OF l(1)]
  have len: "length (pr_threads s p) = 4" "length (pr_threads s1 p) = 4" using D(2) lv by (simp_all add: leaves_def)
  have other: "ths ! j \<noteq> Some u" if "Suc n \<le> j" "j < 4" for j using D(3) [of j n u] l that by auto
  have rest: "pr_threads s1 p ! j = ths ! j" if "Suc n \<le> j" "j < 4" for j
    using leaves_nth [OF lv, of j] other [OF that] D(4) [of j] that len by simp
  have first: "\<exists>k<n. ths ! k = Some v" if "pr_threads s1 p ! 0 = Some v" for v
  proof -
    have "pr_threads s p ! 0 = Some v" using lv that len unfolding leaves_def by force
    then show ?thesis by (rule D(5))
  qed
  have proc: "0 < v \<and> v < 16 \<and> proc s v = p \<and> v \<noteq> u" if "Suc n \<le> j" "j < 4" "ths ! j = Some v" for j v
    using D(6) [of j v] that other [OF that(1,2)] by auto
  have ths: "length ths = 4" "\<forall>i<4. \<forall>j<4. \<forall>u. ths ! i = Some u \<and> ths ! j = Some u \<longrightarrow> i = j" using D(1,3) by blast+
  have keep: "loop_ok ths p (Suc n) s2"
    if "length (pr_threads s2 p) = 4" "\<And>j. Suc n \<le> j \<Longrightarrow> j < 4 \<Longrightarrow> pr_threads s2 p ! j = ths ! j"
      "\<And>v. pr_threads s2 p ! 0 = Some v \<Longrightarrow> \<exists>k<Suc n. ths ! k = Some v" "\<And>v. v \<noteq> u \<Longrightarrow> proc s2 v = proc s1 v" for s2
  proof -
    have "0 < v \<and> v < 16 \<and> proc s2 v = p" if "Suc n \<le> j" "j < 4" "ths ! j = Some v" for j v
      using proc [OF that] \<open>\<And>v. v \<noteq> u \<Longrightarrow> proc s2 v = proc s1 v\<close> pr by simp
    then show ?thesis unfolding loop_ok_def using ths that(1-3) by blast
  qed
  show "loop_ok ths p (Suc n) (upd_task u (\<lambda>x. x\<lparr>ts_process := 0\<rparr>) s1)"
    by (rule keep) (use len rest first in \<open>auto simp: upd_task_def dest!: first intro: less_SucI\<close>)
  have "\<exists>k<Suc n. ths ! k = Some v" if "(pr_threads s1 p)[n := None, r := Some u] ! 0 = Some v" for v
    using that first [of v] l(2,4) len by (cases "r = 0") (auto intro: less_SucI)
  then show "loop_ok ths p (Suc n) (s1\<lparr>pr_threads := (pr_threads s1)(p := (pr_threads s1 p)[n := None, r := Some u])\<rparr>)"
    by (intro keep) (use len rest l(5) in auto)
qed

abbreviation end_one ::
    "nat \<Rightarrow> 'a life_t_scheme gui_t \<Rightarrow> 'a life_t_scheme win_t \<Rightarrow> nat \<Rightarrow> 'a life_t_scheme \<Rightarrow> (bool \<times> 'a life_t_scheme) option" where
  "end_one d gui win thread s \<equiv> map_option (\<lambda>(ok, r, s'). (ok, s')) (end_task_helper d gui win (int thread) None True s)"

text \<open>
  The loop disables only threads of the process. It leaves none of them enabled, or the first place holds one that could not end, and it does not
  depend on the bound on the nesting.
\<close>

definition left_over :: "u32 \<Rightarrow> 'a life_t_scheme \<Rightarrow> bool" where
  "left_over p s \<longleftrightarrow> (\<exists>u. pr_threads s p ! 0 = Some u \<and> ts_enabled (tasks s u))"

lemma left_over_step:
  assumes l: "loop_ok ths p n s" "n < 4" "ths ! n = Some u" "r < n" and lv: "leaves u (pr_threads s p) (pr_threads s1 p)"
    and d: "disabled (if ok then {u} else {}) s s1" and en: "\<not> ok \<Longrightarrow> ts_enabled (tasks s u)" and r: "0 < r \<longrightarrow> left_over p s"
  shows "0 < r \<longrightarrow> left_over p (upd_task u (\<lambda>x. x\<lparr>ts_process := 0\<rparr>) s1)"
    and "\<not> ok \<Longrightarrow> left_over p (s1\<lparr>pr_threads := (pr_threads s1)(p := (pr_threads s1 p)[n := None, r := Some u])\<rparr>)"
proof -
  note N = loop_not_first [OF l(1-3)]
  have len: "length (pr_threads s p) = 4" "length (pr_threads s1 p) = 4" using loop_okD(2) [OF l(1)] lv by (simp_all add: leaves_def)
  have keep: "\<exists>v. pr_threads s1 p ! 0 = Some v \<and> ts_enabled (tasks s1 v)" if "0 < r"
  proof -
    obtain v where v: "pr_threads s p ! 0 = Some v" "ts_enabled (tasks s v)" using mp [OF r \<open>0 < r\<close>] unfolding left_over_def by blast
    have "v \<noteq> u" using v(1) N(1,4) by auto
    then show ?thesis using v leaves_nth [OF lv, of 0] len d by (auto simp: disabled_def)
  qed
  then show "0 < r \<longrightarrow> left_over p (upd_task u (\<lambda>x. x\<lparr>ts_process := 0\<rparr>) s1)" by (fastforce simp: left_over_def upd_task_def)
  show "left_over p (s1\<lparr>pr_threads := (pr_threads s1)(p := (pr_threads s1 p)[n := None, r := Some u])\<rparr>)" if "\<not> ok"
    using that en d keep l(4) len by (cases "r = 0") (auto simp: left_over_def disabled_def)
qed

text \<open>The outcome of the loop from place \<open>n\<close> on, with \<open>r\<close> threads left before.\<close>

definition loop_ended :: "nat option list \<Rightarrow> u32 \<Rightarrow> nat \<Rightarrow> nat \<Rightarrow> 'a life_t_scheme \<Rightarrow> nat \<Rightarrow> 'a life_t_scheme \<Rightarrow> bool" where
  "loop_ended ths p n r s r' s' \<longleftrightarrow> (\<exists>E. disabled E s s' \<and> (\<forall>u\<in>E. \<exists>k. n \<le> k \<and> k < 4 \<and> ths ! k = Some u))
     \<and> (r' = 0 \<longrightarrow> r = 0 \<and> (\<forall>k u. n \<le> k \<and> k < 4 \<and> ths ! k = Some u \<longrightarrow> \<not> ts_enabled (tasks s' u)))
     \<and> (0 < r' \<longrightarrow> left_over p s')"

lemma from_place: "n \<le> k \<longleftrightarrow> k = n \<or> Suc n \<le> k" for n k :: nat
  by auto

lemma loop_ended_none: "ths ! n = None \<Longrightarrow> loop_ended ths p (Suc n) r s r' s' \<Longrightarrow> loop_ended ths p n r s r' s'"
  unfolding loop_ended_def from_place [of n] by (metis option.distinct(1))

lemma loop_ended_some:
  assumes u: "ths ! n = Some u" "n < 4" and d: "disabled (if ok then {u} else {}) s s1"
    and tk: "\<And>v. ts_enabled (tasks s2 v) = ts_enabled (tasks s1 v)"
    and e: "loop_ended ths p (Suc n) (if ok then r else r + 1) s2 r' s'"
  shows "loop_ended ths p n r s r' s'"
proof -
  let ?F = "if ok then {u} else {}"
  obtain E where E: "disabled E s2 s'" "\<forall>v\<in>E. \<exists>k. Suc n \<le> k \<and> k < 4 \<and> ths ! k = Some v" using e unfolding loop_ended_def by blast
  have D: "disabled (?F \<union> E) s s'" using d E(1) tk by (auto simp: disabled_def split: if_splits)
  moreover have "\<forall>v\<in>?F \<union> E. \<exists>k. n \<le> k \<and> k < 4 \<and> ths ! k = Some v"
    using E(2) u by (auto simp: from_place [of n] split: if_splits)
  moreover have "r = 0 \<and> (\<forall>k v. n \<le> k \<and> k < 4 \<and> ths ! k = Some v \<longrightarrow> \<not> ts_enabled (tasks s' v))" if "r' = 0"
  proof -
    have r: "(if ok then r else r + 1) = 0" and rest: "\<forall>k v. Suc n \<le> k \<and> k < 4 \<and> ths ! k = Some v \<longrightarrow> \<not> ts_enabled (tasks s' v)"
      using e that unfolding loop_ended_def by blast+
    have ok: "ok" "r = 0" using r by (simp_all split: if_splits)
    have "\<not> ts_enabled (tasks s' u)" using D ok(1) by (simp add: disabled_def)
    then show ?thesis using ok(2) rest u(1) unfolding from_place [of n] by auto
  qed
  moreover have "0 < r' \<longrightarrow> left_over p s'" using e unfolding loop_ended_def by blast
  ultimately show ?thesis unfolding loop_ended_def by blast
qed

lemma end_threads_spec:
  assumes g: "gui_keeps still gui" "win_keeps win"
    and "loop_ok ths p n s" "1 \<le> n" "n \<le> 4" "r < n" "0 < r \<longrightarrow> left_over p s"
    and "end_threads (end_one (Suc d) gui win) p [n..<4] r s = Some (r', s')"
  shows "loop_ended ths p n r s r' s'"
  using assms(3-)
proof (induction "4 - n" arbitrary: n r s)
  case 0
  then show ?case by (auto simp: loop_ended_def disabled_def intro!: exI [of _ "{}"])
next
  case (Suc m)
  have n: "m = 4 - Suc n" "n < 4" "Suc n \<le> 4" "1 \<le> Suc n" using Suc.hyps(2) by simp_all
  have upt: "[n..<4] = n # [Suc n..<4]" using n by (simp add: upt_conv_Cons)
  show ?case
  proof (cases "ths ! n")
    case None
    have "pr_threads s p ! n = None" using loop_okD(4) [OF Suc.prems(1) order_refl n(2)] None by simp
    then have e: "end_threads (end_one (Suc d) gui win) p [Suc n..<4] r s = Some (r', s')" using Suc.prems(6) unfolding upt by simp
    show ?thesis
      by (rule loop_ended_none [OF None Suc.hyps(1) [OF n(1) loop_skip [OF Suc.prems(1) None] n(4,3) _ Suc.prems(5) e]]) (use Suc.prems(4) in simp)
  next
    case (Some u)
    note N = loop_not_first [OF Suc.prems(1) n(2) Some]
    obtain ok rg s1 where h: "end_task_helper (Suc d) gui win (int u) None True s = Some (ok, rg, s1)"
      and e: "end_threads (end_one (Suc d) gui win) p [Suc n..<4] (if ok then r else r + 1)
        (if ok then upd_task u (\<lambda>x. x\<lparr>ts_process := 0\<rparr>) s1
         else s1\<lparr>pr_threads := (pr_threads s1)(p := (pr_threads s1 p)[n := None, r := Some u])\<rparr>) = Some (r', s')" (is "end_threads _ _ _ ?r ?s2 = _")
      using Suc.prems(6) N(5) unfolding upt by (auto simp: bind_eq_Some_conv split: if_splits simp del: end_task_helper.simps)
    note H = end_other_thread [OF g N(1-3) h]
    note S = loop_step [OF Suc.prems(1,2) n(2) Some Suc.prems(4) H(2,3)]
    note L = left_over_step [OF Suc.prems(1) n(2) Some Suc.prems(4) H(3,1,4) Suc.prems(5)]
    have "loop_ok ths p (Suc n) ?s2" using S by simp
    moreover have "?r < Suc n" using Suc.prems(4) by simp
    moreover have "0 < ?r \<longrightarrow> left_over p ?s2" using L by simp
    ultimately have "loop_ended ths p (Suc n) ?r ?s2 r' s'" by (rule Suc.hyps(1) [OF n(1) _ n(4,3) _ _ e])
    then show ?thesis by (rule loop_ended_some [OF Some n(2) H(1), rotated]) (simp add: upd_task_def)
  qed
qed

lemma end_threads_depth:
  assumes g: "gui_keeps still gui" "win_keeps win" and "loop_ok ths p n s" "1 \<le> n" "n \<le> 4" "r < n"
  shows "end_threads (end_one (Suc d) gui win) p [n..<4] r s = end_threads (end_one (Suc d') gui win) p [n..<4] r s"
  using assms(3-)
proof (induction "4 - n" arbitrary: n r s)
  case (Suc m)
  have n: "m = 4 - Suc n" "n < 4" "Suc n \<le> 4" "1 \<le> Suc n" using Suc.hyps(2) by simp_all
  have upt: "[n..<4] = n # [Suc n..<4]" using n by (simp add: upt_conv_Cons)
  note IH = Suc.hyps(1) [OF n(1) _ n(4,3)]
  show ?case
  proof (cases "ths ! n")
    case None
    have "pr_threads s p ! n = None" using loop_okD(4) [OF Suc.prems(1) order_refl n(2)] None by simp
    then show ?thesis using IH [OF loop_skip [OF Suc.prems(1) None], of r] Suc.prems(4) unfolding upt by (simp del: end_task_helper.simps)
  next
    case (Some u)
    note N = loop_not_first [OF Suc.prems(1) n(2) Some]
    have one: "end_task_helper (Suc d) gui win (int u) None True s = end_task_helper (Suc d') gui win (int u) None True s"
      by (rule depth_other_thread [OF g N(1)])
    show ?thesis
    proof (cases "end_task_helper (Suc d') gui win (int u) None True s")
      case (Some x)
      obtain ok rg s1 where x: "x = (ok, rg, s1)" by (cases x)
      note H = end_other_thread [OF g N(1-3) Some [unfolded x]]
      note S = loop_step [OF Suc.prems(1,2) n(2) \<open>ths ! n = Some u\<close> Suc.prems(4) H(2,3)]
      show ?thesis using one N(5) Some x IH [OF S(1), of r] IH [OF S(2), of "r + 1"] Suc.prems(4) unfolding upt
        by (simp del: end_task_helper.simps)
    qed (use one N(5) in \<open>simp add: upt del: end_task_helper.simps\<close>)
  qed
qed simp

section \<open>The end of a task\<close>

text \<open>The bound on the nesting is enough: two levels do for any process.\<close>

lemma end_task_depth:
  assumes g: "gui_keeps still gui" "win_keeps win" and th: "threads_ok (proc s t) s"
  shows "end_task_helper (Suc (Suc d)) gui win (int t) regs child s = end_task_helper (Suc (Suc d')) gui win (int t) regs child s"
proof (cases "end_task_own gui win t s")
  case (Some s1)
  note o = end_task_own_still [OF g Some]
  have "threads_ok (proc s1 t) s1" using th unfolding o(2) threads_ok_cong [OF o(2,3)] .
  have e: "end_threads (end_one (Suc d) gui win) (proc s1 t) [1..<4] 0 s1 = end_threads (end_one (Suc d') gui win) (proc s1 t) [1..<4] 0 s1"
    by (rule end_threads_depth [OF g loop_start [OF \<open>threads_ok (proc s1 t) s1\<close>]]) simp_all
  show ?thesis unfolding end_task_helper.simps(2) [of "Suc d"] end_task_helper.simps(2) [of "Suc d'"] Let_def nat_int Some
    by (simp only: Option.bind.bind_lunit e)
next
  case None
  show ?thesis unfolding end_task_helper.simps(2) [of "Suc d"] end_task_helper.simps(2) [of "Suc d'"] Let_def nat_int None
    by (simp only: Option.bind.bind_lzero)
qed

text \<open>
  The cases of \<open>end_task\<close> on a task that is in range: it was not enabled, it is parked in the kernel, or it ends; then the process of a first thread
  loses its threads.
\<close>

lemma end_task_cases:
  assumes g: "gui_keeps still gui" "win_keeps win" and t: "0 < t" "t < 16"
    and e: "end_task_helper (Suc (Suc d)) gui win (int t) regs False s = Some (ok, regs', s')"
  obtains (over) "ok" "\<not> ts_enabled (tasks s t)" "s' = s"
    | (parked) "\<not> ok" "ts_enabled (tasks s t)" "ts_kernel_esp (tasks s t) \<noteq> 0"
        "s' = (if is_kthread t s then s else upd_task t (\<lambda>y. y\<lparr>ts_kill_pending := True\<rparr>) s)"
    | (other) s1 where "ok" "ts_enabled (tasks s t)" "end_task_own gui win t s = Some s1" "pr_threads s1 (proc s1 t) ! 0 \<noteq> Some t"
        "disabled {} s1 s'"
    | (first) s1 r s3 where "ok" "ts_enabled (tasks s t)" "end_task_own gui win t s = Some s1" "pr_threads s1 (proc s1 t) ! 0 = Some t"
        "end_threads (end_one (Suc d) gui win) (proc s1 t) [1..<4] 0 s1 = Some (r, s3)" "disabled {} s3 s'" "pr_threads s' = pr_threads s3"
proof -
  have idx: "\<not> (int t < 0 \<or> int t \<ge> TOTAL_TASKS \<or> int t = 0)" using t by simp
  define B where "B u = (if pr_threads u (proc u t) ! 0 = Some t
        then do {
          (remaining, s3) \<leftarrow> end_threads (end_one (Suc d) gui win) (proc u t) [1..<MAX_TASK_THREADS] 0 u;
          (regs2, s4) \<leftarrow> (if remaining = 0 then end_process gui t (proc u t) regs s3 else Some (regs, s3));
          Some (regs2, upd_task t (\<lambda>y. y\<lparr>ts_process := 0\<rparr>) s4) }
        else Some (regs, end_thread t u))" for u
  define T where "T rg u = (case rg of
      Some r \<Rightarrow> if \<not> ts_enabled (tasks u (nat (current_task u))) then map_option (\<lambda>(r1, esp, s'). (Some r1, s')) (switch_task r False u) else Some (rg, u)
    | None \<Rightarrow> Some (None, u))" for rg and u :: "'a life_t_scheme"
  note h = e [unfolded end_task_helper.simps(2) [of "Suc d"] Let_def nat_int if_not_P [OF idx], folded B_def, folded T_def]
  show thesis
  proof (cases "\<not> ts_enabled (tasks s t) \<or> ts_kernel_esp (tasks s t) \<noteq> 0")
    case True
    then show thesis using h over parked by (auto split: if_splits)
  next
    case False
    then obtain s1 regs1 s2 rg s6 where s1: "end_task_own gui win t s = Some s1" and B: "B s1 = Some (regs1, s2)"
      and T: "T regs1 (upd_task t (\<lambda>y. y\<lparr>ts_reserved := False, ts_routine := E_NONE\<rparr>) s2) = Some (rg, s6)"
      and s': "s' = s6\<lparr>task_event_counter := task_event_counter s6 + 1\<rparr>" and ok: ok
      using h by (auto simp: bind_eq_Some_conv split: if_splits)
    note b = B [unfolded B_def]
    have k: "still (upd_task t (\<lambda>y. y\<lparr>ts_reserved := False, ts_routine := E_NONE\<rparr>) s2) s6"
      by (rule end_task_tail [OF T [unfolded T_def]])
    have "still s2 (upd_task t (\<lambda>y. y\<lparr>ts_reserved := False, ts_routine := E_NONE\<rparr>) s2)"
      by (rule quiet.kernel, rule calm_upd_task) (auto simp: Calm.waits_def)
    then have "still s2 s6" by (rule quiet.trans [OF _ k])
    then have tail: "disabled {} s2 s'" "pr_threads s' = pr_threads s2" using still_disabled still_threads by (auto simp: s' disabled_def)
    show thesis
    proof (cases "pr_threads s1 (proc s1 t) ! 0 = Some t")
      case True
      then obtain r s3 s4 where 3: "end_threads (end_one (Suc d) gui win) (proc s1 t) [1..<4] 0 s1 = Some (r, s3)"
        and 4: "still s3 s4" and s2: "s2 = upd_task t (\<lambda>y. y\<lparr>ts_process := 0\<rparr>) s4"
        using b by (auto simp: bind_eq_Some_conv simp del: end_task_helper.simps split: if_splits dest: end_process_still [OF g(1)] intro: quiet.refl)
      have "disabled {} s3 s'" using still_disabled [OF 4] tail(1) by (simp add: s2 disabled_def upd_task_def)
      moreover have "pr_threads s' = pr_threads s3" using tail(2) still_threads [OF 4] by (simp add: s2 upd_task_def)
      ultimately show thesis using first [OF ok _ s1 True 3] False by blast
    next
      case nf: False
      then have "s2 = end_thread t s1" using b by simp
      then have "disabled {} s1 s'" using end_thread_still(1) [of s1 t] tail(1) by (simp add: disabled_def)
      then show thesis using other [OF ok _ s1 nf] False by blast
    qed
  qed
qed

section \<open>Properties\<close>

text \<open>
  C37: \<open>end_task\<close> of a task that is not the idle task starts no task, and ends only the task itself and, when it is the first thread of its process,
  threads of that process. When it reports success the task has ended. When it refuses, the task is parked in the kernel: then nothing has ended, and a
  user task is marked to end when it leaves the kernel. When the first thread ends, either no thread of the process is enabled any more, or one that could
  not end has become the first thread, so that the process lives on with it.
\<close>

theorem end_task_exact:
  assumes "gui_keeps still gui" and "win_keeps win" and "threads_ok (proc s t) s" and "0 < t" and "t < 16"
    and "end_task gui win (int t) regs s = Some (ok, regs', s')"
  shows "(\<forall>u. ts_enabled (tasks s' u) \<longrightarrow> ts_enabled (tasks s u))
    \<and> (\<forall>u. ts_enabled (tasks s u) \<and> \<not> ts_enabled (tasks s' u) \<longrightarrow>
         u = t \<or> pr_threads s (proc s t) ! 0 = Some t \<and> Some u \<in> set (pr_threads s (proc s t)))
    \<and> (ok \<longrightarrow> \<not> ts_enabled (tasks s' t))
    \<and> (\<not> ok \<longrightarrow> ts_kernel_esp (tasks s t) \<noteq> 0 \<and> (\<forall>u. ts_enabled (tasks s' u) = ts_enabled (tasks s u))
         \<and> (\<not> is_kthread t s \<longrightarrow> ts_kill_pending (tasks s' t)))
    \<and> (ok \<and> ts_enabled (tasks s t) \<and> pr_threads s (proc s t) ! 0 = Some t \<longrightarrow>
         (\<forall>u. Some u \<in> set (pr_threads s (proc s t)) \<longrightarrow> \<not> ts_enabled (tasks s' u))
         \<or> (\<exists>u. pr_threads s' (proc s t) ! 0 = Some u \<and> ts_enabled (tasks s' u)))"
proof -
  have "17 = Suc (Suc 15)" by simp
  then have e: "end_task_helper (Suc (Suc 15)) gui win (int t) regs False s = Some (ok, regs', s')" using assms(6) unfolding end_task_def by (simp only:)
  note g = assms(1,2)
  show ?thesis
  proof (cases rule: end_task_cases [OF g assms(4,5) e])
    case 1
    then show ?thesis by simp
  next
    case 2
    then show ?thesis by (simp add: upd_task_def)
  next
    case (3 s1)
    note o = end_task_own_still [OF g 3(3)]
    have "pr_threads s (proc s t) ! 0 \<noteq> Some t" using 3(4) unfolding o(2,3) .
    moreover have "disabled {t} s s'" using o(1) 3(5) by (simp add: disabled_def)
    ultimately show ?thesis using 3(1) by (simp add: disabled_def)
  next
    case (4 s1 r s3)
    note o = end_task_own_still [OF g 4(3)]
    let ?p = "proc s t" and ?ths = "pr_threads s (proc s t)"
    have th: "threads_ok ?p s1" using assms(3) unfolding threads_ok_cong [OF o(2,3)] .
    have "loop_ok ?ths ?p 1 s1" using loop_start [OF th] unfolding o(3) .
    then have l: "loop_ended ?ths ?p 1 0 s1 r s3"
      by (rule end_threads_spec [OF g _ _ _ _ _ 4(5) [unfolded o(2)]]) simp_all
    then obtain E where E: "disabled E s1 s3" "\<forall>u\<in>E. \<exists>k. 1 \<le> k \<and> k < 4 \<and> ?ths ! k = Some u" unfolding loop_ended_def by blast
    have len: "length ?ths = 4" using assms(3) by (simp add: threads_ok_def)
    have D: "disabled (insert t E) s s'" using disabled_trans [OF o(1) disabled_trans [OF E(1) 4(6)]] by simp
    have in_E: "Some u \<in> set ?ths" if "u \<in> E" for u using E(2) that len by (metis nth_mem)
    have f: "?ths ! 0 = Some t" using 4(4) unfolding o(2,3) .
    have all: "(\<forall>u. Some u \<in> set ?ths \<longrightarrow> \<not> ts_enabled (tasks s' u)) \<or> (\<exists>u. pr_threads s' ?p ! 0 = Some u \<and> ts_enabled (tasks s' u))"
    proof (cases "r = 0")
      case True
      have "\<not> ts_enabled (tasks s' u)" if "Some u \<in> set ?ths" for u
      proof -
        obtain k where k: "k < 4" "?ths ! k = Some u" using \<open>Some u \<in> set ?ths\<close> len by (auto simp: in_set_conv_nth)
        show ?thesis
        proof (cases "k = 0")
          case True
          then show ?thesis using k f D by (simp add: disabled_def)
        next
          case False
          then have "\<not> ts_enabled (tasks s3 u)" using l k True unfolding loop_ended_def by (metis One_nat_def Suc_leI neq0_conv)
          then show ?thesis using 4(6) by (simp add: disabled_def)
        qed
      qed
      then show ?thesis by blast
    next
      case False
      then have "left_over ?p s3" using l unfolding loop_ended_def by simp
      then show ?thesis using 4(6,7) by (auto simp: left_over_def disabled_def)
    qed
    have "ts_enabled (tasks s u) \<and> \<not> ts_enabled (tasks s' u) \<longrightarrow> u = t \<or> ?ths ! 0 = Some t \<and> Some u \<in> set ?ths" for u
      using D in_E f unfolding disabled_def by blast
    then show ?thesis using D 4(1) all unfolding disabled_def by blast
  qed
qed

text \<open>A process with two threads, tasks 1 and 2, of which the second is parked in the kernel.\<close>

definition half_parked :: life_t where
  "half_parked = msg_t.extend
     (two_tasks\<lparr>current_task := 0, tasks := (\<lambda>t. zero_task\<lparr>ts_enabled := t < 3, ts_task_uid := of_nat t, ts_process := 0x2000000,
        ts_kernel_esp := (if t = 2 then 0x3000000 else 0)\<rparr>)\<rparr>)
     (life_t.fields (\<lambda>_. 0) (\<lambda>_. 0) (\<lambda>_. [Some 1, Some 2, None, None]) (\<lambda>_. 2) (\<lambda>_. - 1) (\<lambda>_. 0) (\<lambda>_. 0) (\<lambda>_. []) (\<lambda>_. [])
        (\<lambda>_. 0) (\<lambda>_. 0) 1 3 0)"

definition quiet_gui :: "'s gui_t" where
  "quiet_gui = \<lparr> gui_reset_windows = (\<lambda>_ s. s), gui_task_crash = (\<lambda>_ _ s. s) \<rparr>"

definition no_win :: "'s win_t" where
  "no_win = \<lparr>win_add = (\<lambda>s. (- 1, s)), win_focus = (\<lambda>w s. s), win_minimise = (\<lambda>w s. s), win_write = (\<lambda>t s. s)\<rparr>"

lemma half_parked_fields [simp]:
  "tasks half_parked = (\<lambda>t. zero_task\<lparr>ts_enabled := t < 3, ts_task_uid := of_nat t, ts_process := 0x2000000,
     ts_kernel_esp := (if t = 2 then 0x3000000 else 0)\<rparr>)"
  "current_task half_parked = 0" "ts_msg_channels half_parked = (\<lambda>_. [])" "pr_ports half_parked = (\<lambda>_. [])"
  "pr_threads half_parked = (\<lambda>_. [Some 1, Some 2, None, None])" "pr_window half_parked = (\<lambda>_. - 1)"
  by (simp_all add: half_parked_def msg_t.defs life_t.defs two_tasks_def kern_t.defs)

lemma half_parked_own:
  "end_task_own quiet_gui no_win 1 half_parked = Some (upd_task 1 (\<lambda>y. y\<lparr>ts_enabled := False\<rparr>) half_parked)"
  by (simp add: end_task_own_def Let_def zero_task_def msg_cleanup_task_def close_own_channels.simps ksync_cleanup_task_def ksync_leave_queue_def
      ksync_release_all.simps free_event_queue.simps kqueue_peek_def kqueue_empty_def kqueue_init_def upd_task_def)

lemma threads_upd [simp]: "pr_threads (upd_task t f s) = pr_threads s" "task_event_counter (upd_task t f s) = task_event_counter s" for s :: "'a life_t_scheme"
  by (simp_all add: upd_task_def)

definition half_ended :: life_t where
  "half_ended =
     (upd_task 2 (\<lambda>y. y\<lparr>ts_kill_pending := True\<rparr>) (upd_task 1 (\<lambda>y. y\<lparr>ts_enabled := False\<rparr>) half_parked))
       \<lparr>pr_threads := (pr_threads half_parked)(0x2000000 := [Some 2, None, None, None])\<rparr>"

lemma half_parked_loop:
  "end_threads (end_one (Suc d) quiet_gui no_win) 0x2000000 [1..<4] 0 (upd_task 1 (\<lambda>y. y\<lparr>ts_enabled := False\<rparr>) half_parked) = Some (1, half_ended)"
proof -
  let ?s1 = "upd_task 1 (\<lambda>y. y\<lparr>ts_enabled := False\<rparr>) half_parked"
  have f: "ts_enabled (tasks ?s1 2)" "ts_kernel_esp (tasks ?s1 2) \<noteq> 0" "\<not> is_kthread 2 ?s1"
    by (simp_all add: upd_task_def is_kthread_def zero_task_def)
  have two: "end_task_helper (Suc d) quiet_gui no_win (int 2) None True ?s1 = Some (False, None, upd_task 2 (\<lambda>y. y\<lparr>ts_kill_pending := True\<rparr>) ?s1)"
    unfolding end_task_helper.simps(2) Let_def nat_int using f by simp
  have upt: "[1..<4] = [1, 2, 3 :: nat]" by (simp add: upt_conv_Cons)
  show ?thesis unfolding upt using two by (simp add: half_ended_def del: end_task_helper.simps)
qed

lemma half_parked_ends:
  "end_task quiet_gui no_win 1 None half_parked = Some (True, None,
     (upd_task 1 (\<lambda>y. y\<lparr>ts_reserved := False, ts_routine := E_NONE\<rparr>) (upd_task 1 (\<lambda>y. y\<lparr>ts_process := 0\<rparr>) half_ended))
       \<lparr>task_event_counter := task_event_counter half_ended + 1\<rparr>)"
proof -
  have n: "17 = Suc (Suc 15)" by simp
  let ?s1 = "upd_task 1 (\<lambda>y. y\<lparr>ts_enabled := False\<rparr>) half_parked"
  have f: "ts_enabled (tasks half_parked 1)" "ts_kernel_esp (tasks half_parked 1) = 0" "nat 1 = 1" by simp_all
  have p: "proc ?s1 1 = 0x2000000" "pr_threads ?s1 0x2000000 ! 0 = Some 1" by (simp_all add: upd_task_def)
  have c: "\<not> ((1 :: int) < 0 \<or> (1 :: int) \<ge> TOTAL_TASKS \<or> (1 :: int) = 0)" "\<not> (None = None \<and> \<not> False \<and> current_task half_parked = 1)" by simp_all
  show ?thesis unfolding end_task_def n end_task_helper.simps(2) [of "Suc 15"] Let_def f(3) if_not_P [OF c(1)] if_not_P [OF c(2)]
    half_parked_own Option.bind.bind_lunit p half_parked_loop using f by simp
qed

theorem end_task_exact_witness:
  "\<exists>s'. end_task quiet_gui no_win 1 None half_parked = Some (True, None, s') \<and> ts_enabled (tasks half_parked 1) \<and> \<not> ts_enabled (tasks s' 1)
     \<and> pr_threads s' 0x2000000 ! 0 = Some 2 \<and> ts_enabled (tasks s' 2)"
proof -
  have g: "gui_keeps still quiet_gui" "win_keeps no_win" by (simp_all add: gui_keeps_def quiet_gui_def win_keeps_def no_win_def quiet.refl)
  have th: "threads_ok (proc half_parked 1) half_parked"
    by (auto simp: threads_ok_def zero_task_def numeral_eq_Suc less_Suc_eq)
  obtain s' where e: "end_task quiet_gui no_win 1 None half_parked = Some (True, None, s')" using half_parked_ends by blast
  have f: "pr_threads s' 0x2000000 ! 0 = Some 2" "ts_enabled (tasks s' 2)"
    using e unfolding half_parked_ends by (auto simp: half_ended_def upd_task_def)
  have e1: "end_task quiet_gui no_win (int 1) None half_parked = Some (True, None, s')" using e by simp
  have "\<not> ts_enabled (tasks s' 1)" using end_task_exact [OF g th _ _ e1] by simp
  with e f show ?thesis by (intro exI [of _ s']) simp
qed

end
