(* ===== verification/Loader.thy ===== *)
theory Loader
  imports Tasklife
begin

text \<open>
  Starting programs (\<^verbatim>\<open>src/elf.c\<close>, \<^verbatim>\<open>src/tasks.c\<close>): an address space, the image of the file in it, a task entry and a stack. The file is a
  block of the kernel heap. The theory shows that the stack of a task is mapped completely or not at all, below it a page that is not mapped.
\<close>

section \<open>Model\<close>

text \<open>\<open>mapped &= map(dir, newProg + i, vmem_start + i, 1, 1, 0)\<close> over the pages of the image.\<close>

fun map_image :: "u32 \<Rightarrow> u32 \<Rightarrow> u32 \<Rightarrow> nat list \<Rightarrow> bool \<Rightarrow> 'a page_t_scheme \<Rightarrow> bool \<times> 'a page_t_scheme" where
  "map_image dir newProg start [] mapped s = (mapped, s)"
| "map_image dir newProg start (i # is) mapped s =
     (let (r, s1) = map_page dir (newProg + of_nat i * 0x1000) (start + of_nat i * 0x1000) 1 1 0 s
      in map_image dir newProg start is (mapped \<and> r) s1)"

definition elf_heap_start :: "u32 \<Rightarrow> u32" where
  "elf_heap_start vmem_end = (let h = page_align_up vmem_end in if h < KERNEL_END then KERNEL_END else h)"

text \<open>
  The result of \<open>elf_load\<close>; the frame buffer \<open>fb\<close>, \<open>fb_size\<close> is that of \<open>new_page\<close>. The code tests for a conflict with the kernel after it has
  reserved a slot, which it then gives back.
\<close>

definition elf_load :: "u32 \<Rightarrow> u32 \<Rightarrow> u32 \<Rightarrow> u32 \<Rightarrow> 'a life_t_scheme \<Rightarrow> (int \<times> 'a life_t_scheme) option" where
  "elf_load fb fb_size prog sz s =
     (case elf_check (phys_mem s) prog sz of
        None \<Rightarrow> Some (- 1, s)
      | Some (vmem_start, vmem_end) \<Rightarrow>
          let (index, s1) = get_free_task_index s; t = nat index; vmem_size = vmem_end - vmem_start
          in if index = - 1 then Some (- 1, s1)
             else let (dir, s2) = new_page fb fb_size s1
                  in if dir = 0 then Some (- 1, task_unreserve index s2)
                     else let (newProg, s3) = malloc (sint vmem_size) s2
                          in if newProg = 0 then Some (- 1, task_unreserve index (free_page_dir dir s3))
                             else let (mapped, s4) = map_image dir newProg vmem_start [0..<(unat vmem_size + 0xFFF) div 0x1000] True
                                        (s3\<lparr>phys_mem := memset newProg 0 (sint vmem_size) (phys_mem s3)\<rparr>)
                                  in if \<not> mapped
                                     then Some (- 1, task_unreserve index (free_page_dir dir (free newProg (sint vmem_size) s4)))
                                     else let m = fold (elf_segment prog newProg vmem_start) (prog_headers (phys_mem s4) prog) (phys_mem s4);
                                              s5 = s4\<lparr>phys_mem := m\<rparr>
                                          in do {
                                            (thread_no, s6) \<leftarrow> create_task_entry t (get_u32 m (prog + 24)) vmem_size False 0 s5;
                                            if thread_no = - 1
                                            then Some (- 1, task_unreserve index (free_page_dir dir (free newProg (sint vmem_size) s6)))
                                            else let p = ts_process (tasks s6 t); h = elf_heap_start vmem_end
                                                 in Some (index, (upd_process p (\<lambda>x. x\<lparr>pr_prog_start := newProg, pr_page_dir := dir,
                                                      pr_heap_start := h, pr_heap_end := h\<rparr>) s6)
                                                      \<lparr>pr_vmem_start := (pr_vmem_start s6)(p := vmem_start), pr_vmem_end := (pr_vmem_end s6)(p := vmem_end)\<rparr>) })"

text \<open>
  The arguments are pushed below the stack pointer through the page directory that is loaded; a page that is not mapped there is a fault.
\<close>

definition push_args :: "u32 \<Rightarrow> u32 \<Rightarrow> int \<Rightarrow> u32 \<Rightarrow> 'a kern_t_scheme \<Rightarrow> (u32 \<times> 'a kern_t_scheme) option" where
  "push_args useresp args argc vmem_start s =
     map_option (\<lambda>s1. (useresp - 12, s1))
       (store_bytes (current_page_dir s) (useresp - 12) (word_bytes vmem_start @ word_bytes (of_int argc) @ word_bytes args) s)"

definition elf_run :: "'a life_t_scheme win_t \<Rightarrow> u32 \<Rightarrow> u32 \<Rightarrow> registers_t \<Rightarrow> u32 \<Rightarrow> u32 \<Rightarrow> int \<Rightarrow> u32 \<Rightarrow> bool \<Rightarrow> 'a life_t_scheme
    \<Rightarrow> (bool \<times> registers_t \<times> 'a life_t_scheme) option" where
  "elf_run win fb fb_size regs prog sz argc args focus s =
     do {
       (index, s1) \<leftarrow> elf_load fb fb_size prog sz s;
       if index < 0 then Some (False, regs, s1)
       else let t = nat index; (ok, regs1, s2) = launch_task win t regs focus s1
            in if \<not> ok then Some (False, regs1, task_discard_entry t s2)
               else let p = ts_process (tasks s2 t)
                    in do {
                      (sp, s3) \<leftarrow> push_args (r_useresp regs1) args argc (pr_vmem_start s2 p) s2;
                      Some (True, regs1\<lparr>r_useresp := sp\<rparr>,
                        s3\<lparr>pr_launch_args := (pr_launch_args s3)(p := args), pr_launch_argc := (pr_launch_argc s3)(p := argc)\<rparr>) } }"

definition elf_setup :: "'a life_t_scheme win_t \<Rightarrow> u32 \<Rightarrow> u32 \<Rightarrow> u32 \<Rightarrow> u32 \<Rightarrow> int \<Rightarrow> u32 \<Rightarrow> bool \<Rightarrow> bool \<Rightarrow> 'a life_t_scheme
    \<Rightarrow> (int \<times> 'a life_t_scheme) option" where
  "elf_setup win fb fb_size prog sz argc args focus minimised s =
     do {
       (index, s1) \<leftarrow> elf_load fb fb_size prog sz s;
       if index < 0 then Some (- 1, s1)
       else let t = nat index; vmem_start = pr_vmem_start s1 (ts_process (tasks s1 t)); (ok, s2) = setup_task_init win t focus minimised s1
            in if \<not> ok then Some (- 1, task_discard_entry t s2)
               else let p = ts_process (tasks s2 t)
                    in do {
                      (sp, s3) \<leftarrow> push_args (r_useresp (ts_registers (tasks s2 t))) args argc vmem_start (swap_pagedir (pr_page_dir (processes s2 p)) s2);
                      let s4 = upd_task t (\<lambda>x. x\<lparr>ts_registers := (ts_registers x)\<lparr>r_useresp := sp\<rparr>\<rparr>) s3;
                      let s5 = s4\<lparr>pr_launch_args := (pr_launch_args s4)(p := args), pr_launch_argc := (pr_launch_argc s4)(p := argc)\<rparr>;
                      Some (index, swap_pagedir (current_page_dir s2) s5) } }"

text \<open>
  Starting a program by its path. Reading a file is the parameter \<open>read\<close>: the address of the block with the file, or 0, and its size.
\<close>

definition tasks_setup_elf :: "(u8 list \<Rightarrow> 'a life_t_scheme \<Rightarrow> (u32 \<times> int) \<times> 'a life_t_scheme) \<Rightarrow> 'a life_t_scheme win_t \<Rightarrow> u32 \<Rightarrow> u32
    \<Rightarrow> u8 list \<Rightarrow> int \<Rightarrow> u32 \<Rightarrow> bool \<Rightarrow> bool \<Rightarrow> 'a life_t_scheme \<Rightarrow> (int \<times> 'a life_t_scheme) option" where
  "tasks_setup_elf read win fb fb_size path argc args focus minimised s =
     (let ((prog, fsize), s1) = read path s
      in if prog = 0 then Some (- 1, s1)
         else do {
           (index, s2) \<leftarrow> elf_setup win fb fb_size prog (of_int fsize) argc args focus minimised s1;
           let s3 = (if index \<ge> 0 then s2\<lparr>pr_exe_path := (pr_exe_path s2)(ts_process (tasks s2 (nat index)) := path)\<rparr> else s2);
           Some (index, free prog fsize s3) })"

definition tasks_launch_binary :: "(u8 list \<Rightarrow> 'a life_t_scheme \<Rightarrow> (u32 \<times> int) \<times> 'a life_t_scheme) \<Rightarrow> 'a life_t_scheme win_t
    \<Rightarrow> registers_t option \<Rightarrow> u8 list \<Rightarrow> 'a life_t_scheme \<Rightarrow> (bool \<times> registers_t option \<times> 'a life_t_scheme) option" where
  "tasks_launch_binary read win regs path s =
     (let (index, s1) = get_free_task_index s; t = nat index
      in if index = - 1 then Some (False, regs, s1)
         else let ((prog, fsize), s2) = read path s1
              in if prog = 0 then Some (False, regs, task_unreserve index s2)
                 else do {
                   (thread_no, s3) \<leftarrow> create_task_entry t prog (of_int fsize) False 0 s2;
                   if thread_no = - 1 then Some (False, regs, task_unreserve index (free prog fsize s3))
                   else case regs of
                          Some r \<Rightarrow>
                            let (ok, r1, s4) = launch_task win t r False s3
                            in if \<not> ok then Some (False, Some r1, task_discard_entry t s4) else Some (True, Some r1, s4)
                        | None \<Rightarrow>
                            let (ok, s4) = setup_task_init win t True False s3
                            in if \<not> ok then Some (False, None, task_discard_entry t s4)
                               else Some (True, None, upd_task t (\<lambda>x. x\<lparr>ts_enabled := True\<rparr>) s4) })"

section \<open>The stack of a task\<close>

abbreviation stack_pages :: "u32 \<Rightarrow> u32 \<Rightarrow> nat list \<Rightarrow> (u32 \<times> u32) list" where
  "stack_pages base start is \<equiv> map (\<lambda>i. (base + of_nat (i - 1) * 0x1000, start + of_nat i * 0x1000)) is"

lemma map_stack_loop_map:
  "map_stack_loop d base start is s =
     (let (m', t) = map_loop d (stack_pages base start is) 1 1 0 m s in (if m' = m + int (length is) then None else Some (is ! nat (m' - m)), t))
   \<and> m \<le> fst (map_loop d (stack_pages base start is) 1 1 0 m s) \<and> fst (map_loop d (stack_pages base start is) 1 1 0 m s) \<le> m + int (length is)"
proof (induction "is" arbitrary: m s)
  case (Cons i "is")
  obtain ok s1 where r: "map_page d (base + of_nat (i - 1) * 0x1000) (start + of_nat i * 0x1000) 1 1 0 s = (ok, s1)" by fastforce
  show ?case
  proof (cases ok)
    case True
    obtain m' t where l: "map_loop d (stack_pages base start is) 1 1 0 (m + 1) s1 = (m', t)" by fastforce
    have "nat (m' - m) = Suc (nat (m' - (m + 1)))" if "m + 1 \<le> m'" using that by simp
    then show ?thesis using Cons [of s1 "m + 1"] r l True by auto
  qed (use r in simp)
qed simp

lemma unmap_pages_loop: "unmap_pages d start is s = snd (unmap_loop d (map (\<lambda>i. start + of_nat i * 0x1000) is) m s)"
proof (induction "is" arbitrary: m s)
  case (Cons i "is")
  then show ?case by (simp add: unmap_pages_def split_beta split: bool.split prod.split)
qed (simp add: unmap_pages_def)

lemma stack_slot_pages:
  assumes "t < 16" "thread_no < 16" "i < 4"
  shows "page_no (stack_slot t thread_no s + of_nat i * 0x1000) = page_no (stack_slot t thread_no s) + i"
proof -
  define k where "k = (if pr_page_dir (task_proc s t) = kernel_page_dir s then t else thread_no)"
  have k: "k < 16" "stack_slot t thread_no s = of_nat (0xC0000000 + k * 0x4000)" using assms(1,2) by (simp_all add: k_def stack_slot_def)
  then have "unat (stack_slot t thread_no s) = 0xC0000000 + k * 0x4000" using unat_of_nat_u32 [of "0xC0000000 + k * 0x4000"] by simp
  then show ?thesis using k(1) assms(3) by (intro page_no_add) simp_all
qed

lemma tasks_map_loop: "tasks (snd (map_loop d ps user rw nc m s)) = tasks s" for s :: "'a kern_t_scheme"
proof (induction ps arbitrary: m s)
  case (Cons p ps)
  obtain pa va where p: "p = (pa, va)" by (cases p)
  obtain ok s1 where r: "map_page d pa va user rw nc s = (ok, s1)" by fastforce
  have "tasks s1 = tasks s" using arg_cong [OF r, of "\<lambda>x. tasks (snd x)"] by simp
  then show ?case using Cons r p by (simp split: bool.split)
qed simp

lemma upd_task_paging: "page_inv D (upd_task t f s) = page_inv D s" "pte_of (upd_task t f s) = pte_of s" for s :: "'a kern_t_scheme"
  by (rule page_inv_cong) (simp_all add: upd_task_def fun_eq_iff pte_of_def)

text \<open>
  The stack of a task: three pages on the block of the task, which user code may read and write, above a page that stays as it is, and the lowest page of
  the kernel stack is taken out of the directory. When a page cannot be mapped, no translation has changed.
\<close>

lemma task_map_stack_spec:
  fixes s :: "'a life_t_scheme" and t thread_no :: nat
  defines "d \<equiv> pr_page_dir (task_proc s t)" and "start \<equiv> stack_slot t thread_no s" and "base \<equiv> ts_stack_base s t"
    and "g \<equiv> page_no (ts_kernel_stack_top (tasks s t) - KSTACK_SIZE)"
  assumes inv: "page_inv D s" and d: "d \<in> D" and t: "t < 16" "thread_no < 16"
    and none: "\<forall>i\<in>{1..<4}. pte_of s d (page_no start + i) = None"
    and r: "task_map_stack t thread_no s = (ok, s')"
  shows "page_inv D s'"
    and "ok \<Longrightarrow> i \<in> {1..<4} \<Longrightarrow> page_no start + i \<noteq> g \<Longrightarrow> \<exists>e. pte_of s' d (page_no start + i) = Some e
      \<and> frame_addr (pte_address e) = (base + of_nat (i - 1) * 0x1000) AND NOT 0xFFF \<and> pte_rw e \<and> pte_user e"
    and "ok \<Longrightarrow> pte_of s' d g = None"
    and "d' \<in> D \<Longrightarrow> n div 1024 < 1024 \<Longrightarrow> \<not> (ok \<and> d' = d \<and> (n = g \<or> n \<in> {page_no start + 1..<page_no start + 4})) \<Longrightarrow> pte_of s' d' n = pte_of s d' n"
proof -
  have pn: "page_no (start + of_nat i * 0x1000) = page_no start + i" if "i < 4" for i
    unfolding start_def using that t by (intro stack_slot_pages) simp_all
  define s1 where "s1 = s\<lparr>ts_v_stack_start := (ts_v_stack_start s)(t := start)\<rparr>"
  have inv1: "page_inv D s1" using inv page_inv_cong [of s1 s] by (simp add: s1_def)
  have pte1: "pte_of s1 = pte_of s" by (simp add: fun_eq_iff pte_of_def s1_def)
  obtain m s2 where l: "map_loop d (stack_pages base start [1..<4]) 1 1 0 0 s1 = (m, s2)" by fastforce
  have upt: "[1..<4] = [1, 2, 3 :: nat]" by (simp add: upt_conv_Cons)
  have "distinct (map (\<lambda>p. page_no (snd p)) (stack_pages base start [1..<4]))" unfolding upt using pn [of 1] pn [of 2] pn [of 3] by simp
  from map_loop_spec [OF inv1 d l this] obtain k where k: "k \<le> 3" "m = int k" "page_inv D s2"
    "\<forall>p \<in> set (take k (stack_pages base start [1..<4])). \<exists>e. pte_of s2 d (page_no (snd p)) = Some e
       \<and> frame_addr (pte_address e) = fst p AND NOT 0xFFF \<and> pte_rw e = odd (1 :: int) \<and> pte_user e = odd (1 :: int) \<and> pte_no_cache e = odd (0 :: int)"
    "\<forall>d' n. d' \<in> D \<and> n div 1024 < 1024 \<and> \<not> (d' = d \<and> n \<in> (\<lambda>p. page_no (snd p)) ` set (take k (stack_pages base start [1..<4])))
       \<longrightarrow> pte_of s2 d' n = pte_of s1 d' n" by auto
  have pages: "(\<lambda>p. page_no (snd p)) ` set (take k (stack_pages base start [1..<4])) = (\<lambda>i. page_no start + i) ` {1..<k + 1}"
  proof -
    have "set (take k [1..<4]) = {1..<k + 1}" using k(1) by (auto simp: take_upt)
    then show ?thesis using pn k(1) by (simp add: take_map image_image)
  qed
  have msl: "map_stack_loop d base start [1..<4] s1 = (if k = 3 then None else Some (k + 1), s2)"
    using map_stack_loop_map [of d base start "[1..<4]" s1 0] l k(1,2) by (auto simp: nth_upt simp del: upt.simps upt_conv_Cons upt_rec_numeral)
  have tk: "tasks s2 = tasks s" using tasks_map_loop [of d "stack_pages base start [1..<4]" 1 1 0 0 s1] l by (simp add: s1_def)
  have old: "pte_of s2 d' n = pte_of s d' n" if "d' \<in> D" "n div 1024 < 1024" "\<not> (d' = d \<and> n \<in> (\<lambda>i. page_no start + i) ` {1..<k + 1})" for d' n
    using k(5) that unfolding pages pte1 by blast
  have all: "page_inv D s' \<and> (ok \<longrightarrow> (\<forall>i\<in>{1..<4}. page_no start + i \<noteq> g \<longrightarrow> (\<exists>e. pte_of s' d (page_no start + i) = Some e
      \<and> frame_addr (pte_address e) = (base + of_nat (i - 1) * 0x1000) AND NOT 0xFFF \<and> pte_rw e \<and> pte_user e)) \<and> pte_of s' d g = None)
    \<and> (\<forall>d' n. d' \<in> D \<and> n div 1024 < 1024 \<and> \<not> (ok \<and> d' = d \<and> (n = g \<or> n \<in> (\<lambda>i. page_no start + i) ` {1..<4})) \<longrightarrow> pte_of s' d' n = pte_of s d' n)"
  proof (cases "k = 3")
    case True
    obtain b s3 where u: "unmap d (ts_kernel_stack_top (tasks s2 t) - KSTACK_SIZE) s2 = (b, s3)" by fastforce
    note U = unmap_spec [OF k(3) d u]
    have s': "ok" "s' = upd_task t (\<lambda>x. x\<lparr>ts_registers := (ts_registers x)\<lparr>r_ebp := start + TASK_STACK_SIZE, r_useresp := start + TASK_STACK_SIZE\<rparr>\<rparr>) s3"
      using r msl True u by (simp_all add: task_map_stack_def Let_def d_def start_def base_def s1_def)
    have pte: "pte_of s' d' n = (if d' = d \<and> n = g then None else pte_of s2 d' n)" if "d' \<in> D" "n div 1024 < 1024" for d' n
      using U(5) [OF that] unfolding s'(2) upd_task_paging tk g_def .
    have stack: "\<exists>e. pte_of s2 d (page_no start + i) = Some e \<and> frame_addr (pte_address e) = (base + of_nat (i - 1) * 0x1000) AND NOT 0xFFF \<and> pte_rw e \<and> pte_user e"
      if "i \<in> {1..<4}" for i
    proof -
      have "(base + of_nat (i - 1) * 0x1000, start + of_nat i * 0x1000) \<in> set (take k (stack_pages base start [1..<4]))" using that True by simp
      from bspec [OF k(4) this] show ?thesis using pn [of i] that by auto
    qed
    have lt: "(page_no start + i) div 1024 < 1024" if "i \<in> {1..<4}" for i using page_no_less [of "start + of_nat i * 0x1000"] pn [of i] that by simp
    have "page_inv D s'" using U(1) unfolding s'(2) upd_task_paging .
    moreover have "pte_of s' d g = None" using pte [OF d, of g] page_no_less unfolding g_def by simp
    moreover have "pte_of s' d (page_no start + i) = pte_of s2 d (page_no start + i)" if "i \<in> {1..<4}" "page_no start + i \<noteq> g" for i
      using pte [OF d lt [OF that(1)]] that(2) by simp
    moreover have "pte_of s' d' n = pte_of s d' n"
      if "d' \<in> D" "n div 1024 < 1024" "\<not> (d' = d \<and> (n = g \<or> n \<in> (\<lambda>i. page_no start + i) ` {1..<4}))" for d' n
      using pte [OF that(1,2)] old [OF that(1,2)] that(3) True by auto
    ultimately show ?thesis using stack s'(1) by metis
  next
    case False
    have s': "\<not> ok" "s' = unmap_pages d start [1..<k + 1] s2"
      using r msl False by (simp_all add: task_map_stack_def Let_def d_def start_def base_def s1_def)
    obtain m' where u: "unmap_loop d (map (\<lambda>i. start + of_nat i * 0x1000) [1..<k + 1]) 0 s2 = (m', s')"
      using unmap_pages_loop [of d start "[1..<k + 1]" s2 0] s'(2) by (metis prod.collapse)
    have img: "page_no ` set (map (\<lambda>i. start + of_nat i * 0x1000) [1..<k + 1]) = (\<lambda>i. page_no start + i) ` {1..<k + 1}"
      unfolding set_map set_upt image_image by (rule image_cong) (use pn k(1) False in auto)
    have "distinct (map page_no (map (\<lambda>i. start + of_nat i * 0x1000) [1..<k + 1]))"
      using pn k(1) by (auto simp: distinct_map inj_on_def)
    note U = unmap_loop_spec [OF k(3) d u this]
    have un: "pte_of s' d' n = (if d' = d \<and> n \<in> (\<lambda>i. page_no start + i) ` {1..<k + 1} then None else pte_of s2 d' n)"
      if "d' \<in> D" "n div 1024 < 1024" for d' n using U that unfolding img by blast
    have "pte_of s' d' n = pte_of s d' n" if "d' \<in> D" "n div 1024 < 1024" for d' n
    proof (cases "d' = d \<and> n \<in> (\<lambda>i. page_no start + i) ` {1..<k + 1}")
      case True
      then obtain i where "i \<in> {1..<k + 1}" "n = page_no start + i" by blast
      then have "pte_of s d n = None" using bspec [OF none, of i] k(1) by simp
      then show ?thesis using un [OF that] True by simp
    next
      case f: False
      then show ?thesis using un [OF that] old [OF that f] unfolding if_not_P [OF f] by simp
    qed
    then show ?thesis using U s' by blast
  qed
  then show "page_inv D s'" by blast
  show "\<exists>e. pte_of s' d (page_no start + i) = Some e \<and> frame_addr (pte_address e) = (base + of_nat (i - 1) * 0x1000) AND NOT 0xFFF \<and> pte_rw e \<and> pte_user e"
    if "ok" "i \<in> {1..<4}" "page_no start + i \<noteq> g" using all that by blast
  show "pte_of s' d g = None" if "ok" using all that by blast
  show "pte_of s' d' n = pte_of s d' n"
    if "d' \<in> D" "n div 1024 < 1024" "\<not> (ok \<and> d' = d \<and> (n = g \<or> n \<in> {page_no start + 1..<page_no start + 4}))"
  proof -
    have "(\<lambda>i. page_no start + i) ` {1..<4} = {page_no start + 1..<page_no start + 4}" by (simp add: image_add_atLeastLessThan add.commute)
    then show ?thesis using all that by blast
  qed
qed

end
