(* ===== verification/Spec2Isabelle.thy ===== *)
theory Spec2Isabelle
  imports Kqueue Ksync Objects Vm Cstring Qsort Umap Uheap Fatlookup Msgflow Nolost Timer Futex Elf Ip Resize
    Taskend Loader
begin

text \<open>
  A verification of the core of the operating system under \<^verbatim>\<open>src/\<close>: the allocators, paging, scheduling,
  synchronisation, message passing, kernel objects and file system of the kernel, the C library that programs are linked with,
  and the network stack, which is a user program.

  \<^bold>\<open>The program.\<close> A 32-bit x86 kernel for one processor. A block allocator (\<^verbatim>\<open>memory.c\<close>) hands out physical
  memory. Paging (\<^verbatim>\<open>paging.c\<close>) builds the address space of each process from such blocks. Up to sixteen tasks
  (\<^verbatim>\<open>tasks.c\<close>) are switched round robin; they block on kernel mutexes (\<^verbatim>\<open>ksync.c\<close>), futexes
  (\<^verbatim>\<open>futex.c\<close>), pipes (\<^verbatim>\<open>fs.c\<close>) and messages (\<^verbatim>\<open>msg.c\<close>). What a process owns besides memory are
  reference-counted kernel objects (\<^verbatim>\<open>kobj.c\<close>) named by handles: open files, shared memory, DMA memory, PCI devices
  and ports. Files live on a FAT16 volume (\<^verbatim>\<open>fat.c\<close>) of an ATA disk (\<^verbatim>\<open>ata.c\<close>). Programs are ELF files
  (\<^verbatim>\<open>elf.c\<close>). The timer interrupt does not preempt the kernel, so a system call is one step of the model; where a
  call blocks, the model has one definition for the part before the block and one for the part that runs when the task is resumed,
  and any steps of other tasks may lie between the two.

  \<^bold>\<open>How the code is modelled.\<close> C integers are words of their width where overflow matters, \<^typ>\<open>int\<close> or
  \<^typ>\<open>nat\<close> where the code stays in range. Structures are records, arrays of structures are functions from the index, pointers into
  tables are indices, and NULL is \<^const>\<open>None\<close> or 0 as in the code. Linked lists keep their next pointers (\<open>Linked\<close>) and page
  tables are functions of their physical address, so that aliasing shows. Operations pass the state explicitly; the record of the
  kernel (\<open>kern_t\<close>) is extended by the components that add state (messages, clock, futexes), and the operations below work on any
  extension. Errors are the return values of the code; accesses that C leaves undefined are outcomes of their own.

  \<^bold>\<open>Theories and sources.\<close>
  \<^item> \<open>Prelude\<close>: the integer types, C division, pages, and the locale \<open>bounded_fifo\<close>. \<open>Linked\<close>: linked lists.
  \<^item> \<open>Kqueue\<close> (\<^verbatim>\<open>kqueue.h\<close>): the ring buffer; it is an instance of \<open>bounded_fifo\<close> (interpretation \<open>kq\<close>), so any sequence
    of pushes and pops acts on a bounded list.
  \<^item> \<open>Memory\<close> (\<^verbatim>\<open>memory.c\<close>): \<open>malloc\<close> and \<open>free\<close> on 8192 blocks. First fit, and the head hint never hides a
    free block. The locale \<open>block_allocator\<close> states the contract (interpretation \<open>kheap\<close>), and live allocations are separate.
    \<open>Resize\<close>: moving an object keeps its bytes and those of all others.
  \<^item> \<open>Paging\<close> (\<^verbatim>\<open>paging.c\<close>, \<^verbatim>\<open>paging.h\<close>): directories and tables. Mapping changes one translation only;
    a new address space is complete or undone; user pages never reach the kernel.
  \<^item> \<open>Kstate\<close> (\<^verbatim>\<open>tasks.h\<close>, \<^verbatim>\<open>kobj.h\<close>, \<^verbatim>\<open>ksync.h\<close> and others): the records of tasks, processes,
    objects and open files.
  \<^item> \<open>Sched\<close>, \<open>Usermem\<close>, \<open>Routine\<close>, \<open>Vm\<close> (\<^verbatim>\<open>tasks.c\<close>): pausing, latched wake-ups and the next task, with
    fairness; the checks of user pointers, demand paging and copies; switching and callbacks; the mapped regions of a process.
  \<^item> \<open>Tasklife\<close>, \<open>Taskend\<close> (\<^verbatim>\<open>tasks.c\<close>): creating processes, threads and kernel threads, starting and ending them, and tasks that
    park inside the kernel. The locale \<open>msg_closing\<close> extends \<open>msg_frame\<close> to the closing of channels and ports (interpretation \<open>quiet\<close>);
    \<open>end_task\<close> ends exactly the task and the threads of its process.
  \<^item> \<open>Loader\<close> (\<^verbatim>\<open>elf.c\<close>, \<^verbatim>\<open>tasks.c\<close>): starting a program; its stack is mapped completely or not at all.
  \<^item> \<open>Ksync\<close> (\<^verbatim>\<open>ksync.c\<close>): mutual exclusion, the hand-over to the first waiter, and the cleanup of an ended task, as invariants of
    the step relation \<open>ksync_step\<close>.
  \<^item> \<open>Pipe\<close> (\<^verbatim>\<open>fs.c\<close>): pipes and open files; the bytes read are the bytes written, in order.
  \<^item> \<open>Handles\<close>, \<open>Objects\<close> (\<^verbatim>\<open>kobj.c\<close>, \<^verbatim>\<open>shared.c\<close>, \<^verbatim>\<open>dma.c\<close>, \<^verbatim>\<open>pci.c\<close>,
    \<^verbatim>\<open>tasks.c\<close>): reference counts, handles with check bits, and the release at the end of a process.
  \<^item> \<open>Msgstate\<close>, \<open>Msg\<close>, \<open>Msgcall\<close> (\<^verbatim>\<open>msg.c\<close>): ports, channels, messages and synchronous calls. The proofs are in
    \<open>Calm\<close> and \<open>Msgframe\<close> (what the operations leave alone; the locale \<open>msg_frame\<close> carries a relation through callbacks and
    notifications, with the interpretations \<open>same\<close>, \<open>idle\<close> and \<open>held\<close>), \<open>Msgflow\<close> (each direction of a channel is a bounded
    FIFO, interpretation \<open>ring\<close>, and a reserved reply has room), \<open>Msgwait\<close> and \<open>Nolost\<close> (no synchronous call is lost over
    any run of the step relation \<open>ipc_step\<close>).
  \<^item> \<open>Timer\<close> (\<^verbatim>\<open>events.c\<close>): the list of events in the order of their time, also when the tick counter wraps.
  \<^item> \<open>Futex\<close> (\<^verbatim>\<open>futex.c\<close>, \<^verbatim>\<open>api.c\<close>): waiting tasks are exactly the queued ones, and a wake-up wakes as many as
    it was asked to.
  \<^item> \<open>Elf\<close> (\<^verbatim>\<open>elf.c\<close>, \<^verbatim>\<open>memory.c\<close>): the image of a program holds its segments, and zeros elsewhere.
  \<^item> \<open>Ata\<close> (\<^verbatim>\<open>ata.c\<close>): reads and writes of the disk in chunks of sectors, and the partition tables.
  \<^item> \<open>Fat\<close>, \<open>Fatsync\<close>, \<open>Fatdata\<close>, \<open>Fatchain\<close>, \<open>Fatdir\<close>, \<open>Fatfile\<close>, \<open>Fatlookup\<close> (\<^verbatim>\<open>fat.c\<close>): the cached
    table and its copies on the disk, chains of clusters, directories and files. Growing, shrinking, reading, writing and deleting
    change the bytes and names they should, and no others.
  \<^item> \<open>Cstring\<close> (\<^verbatim>\<open>lib/string.c\<close>): all functions on strings, over a byte-addressed memory that wraps.
  \<^item> \<open>Qsort\<close>, \<open>Umap\<close>, \<open>Uheap\<close> (\<^verbatim>\<open>usr/lib/sort.c\<close>, \<^verbatim>\<open>map.c\<close>, \<^verbatim>\<open>stdlib.c\<close>): sorting over any
    comparison that meets the locale \<open>comparator\<close> (interpretations \<open>ints\<close> and \<open>strs\<close>), the hash map as a finite map, and the heap
    of a program.
  \<^item> \<open>Net\<close>, \<open>Arp\<close>, \<open>Ip\<close> (\<^verbatim>\<open>usr/device/net/ethernet.c\<close>, \<^verbatim>\<open>ip.c\<close>): frames, checksums, the address
    cache with its queue, and sending and receiving packets; the invariant of the queue is one of the step relation \<open>net_step\<close>.

  \<^bold>\<open>Loops.\<close> A loop that the code does not visibly bound is a \<open>partial_function\<close> in the option monad: \<^const>\<open>None\<close> means that
  it does not return. The theorems about such operations state that they return, under the invariant that makes them return (a list
  without a cycle, a terminated string, a current task). The nesting of \<open>end_task_helper\<close> is bounded by a number; the lemma
  \<open>end_task_depth\<close> shows that two levels are enough, and \<open>end_task\<close> takes 17. The other loops terminate by a measure or by the structure of
  their argument. Where a loop really fails to return, or an access leaves its array, a lemma or a hypothesis says so.

  \<^bold>\<open>Parameters.\<close> What lies outside is an argument of the definitions that use it: what a crash does to windows (\<open>gui\<close>), the
  kernel's own timer callbacks (\<open>kcall\<close>), whether a file of a given name exists (\<open>fs_exists\<close>), the network card (\<open>send\<close>), the fate of
  each command of the disk, the range of the frame buffer, the windows of a process (\<open>win\<close>), the reading of a program from its path (\<open>read\<close>), and the bytes that
  fresh memory happens to hold.

  \<^bold>\<open>Not modelled.\<close> The hardware side: boot, descriptor tables, interrupt entry, ports, keyboard, mouse, clock, the registers of
  the disk and of the network card. Everything that draws: windows, the window manager, terminals, widgets and the applications on top of
  them. The system call layer (\<^verbatim>\<open>api.c\<close>), apart from the futex calls, moves registers into the arguments of the operations
  above. The path handling of \<^verbatim>\<open>fs.c\<close> combines those operations with windows and terminals; its parts are modelled, their
  combination is not. Of modelled files, \<open>tasks_init\<close> and \<open>get_task_from_window\<close> of \<^verbatim>\<open>tasks.c\<close>, the bus scan of
  \<^verbatim>\<open>pci.c\<close>, the set-up of \<^verbatim>\<open>paging.c\<close> at boot and functions that only print are left out.

  \<^bold>\<open>Where the code falls short.\<close> Some theorems have hypotheses because the code needs them: sizes whose rounding or sum would
  wrap (\<open>malloc\<close>, \<open>process_alloc_vm\<close>, \<open>elf_load\<close>, \<open>udp_send\<close>), call numbers before their wrap (\<open>msg.c\<close>), names that fit
  the arrays of \<open>fat_follow_path_chain\<close>. The lemmas \<open>inttostr_least\<close>, \<open>map_remove_hides\<close>, \<open>umalloc_wraps\<close> and
  \<open>elf_image_overrun\<close> show what happens outside such hypotheses.
\<close>

end
